(* ===== verification/Prelude.thy ===== *)
theory Prelude
  imports Main "HOL-Library.Word"
begin

unbundle bit_operations_syntax

text \<open>
  Shared vocabulary of the development: the C integer types of the 64-bit iOS targets as
  words, \<open>size_t\<close> arithmetic with its wrap-around written out, the behaviour of the
  heap as a parameter, big-endian values of byte strings, and the word and list lemmas
  that the component theories use.  The simplification rules that turn the word
  operations of the C code into arithmetic on natural numbers are collected in
  \<open>unat_simps\<close>.
\<close>

named_theorems unat_simps \<open>word operations as arithmetic on natural numbers\<close>

type_synonym u8 = "8 word"
type_synonym u16 = "16 word"
type_synonym u32 = "32 word"
type_synonym u64 = "64 word"
type_synonym bytes = "8 word list"

section \<open>The type size_t\<close>

text \<open>
  A \<open>size_t\<close> is a natural number below \<open>2 ^ 64\<close>.  Additions and multiplications whose
  wrap-around the code tests are written with the two operations below.
\<close>

abbreviation size_max :: nat where
  "size_max \<equiv> 2 ^ 64 - 1"

definition size_add :: "nat \<Rightarrow> nat \<Rightarrow> nat" where
  "size_add a b = (a + b) mod 2 ^ 64"

definition size_mul :: "nat \<Rightarrow> nat \<Rightarrow> nat" where
  "size_mul a b = (a * b) mod 2 ^ 64"

lemma size_add_lt [simp]: "size_add a b < 2 ^ 64"
  by (simp add: size_add_def)

lemma size_add_exact: "a + b < 2 ^ 64 \<Longrightarrow> size_add a b = a + b"
  by (simp add: size_add_def)

text \<open>The usual C test for a wrapped sum is exact.\<close>

lemma size_add_wraps_iff:
  assumes "a < 2 ^ 64" "b < 2 ^ 64"
  shows "size_add a b < a \<longleftrightarrow> 2 ^ 64 \<le> a + b"
proof (cases "a + b < 2 ^ 64")
  case True
  then show ?thesis by (simp add: size_add_exact)
next
  case False
  have "(a + b) mod 2 ^ 64 = a + b - 2 ^ 64"
    using False assms by (simp add: mod_if)
  with False assms show ?thesis by (simp add: size_add_def)
qed

text \<open>So is the division test for a wrapped product.\<close>

lemma size_mul_div_iff:
  assumes "0 < k"
  shows "size_mul k n div k = n \<longleftrightarrow> k * n < 2 ^ 64"
proof
  assume "k * n < 2 ^ 64"
  with assms show "size_mul k n div k = n" by (simp add: size_mul_def)
next
  assume eq: "size_mul k n div k = n"
  have "k * (size_mul k n div k) \<le> size_mul k n" by simp
  also have "\<dots> < 2 ^ 64" by (simp add: size_mul_def)
  finally show "k * n < 2 ^ 64" by (simp only: eq)
qed

definition size_sub :: "nat \<Rightarrow> nat \<Rightarrow> nat" where
  "size_sub a b = nat ((int a - int b) mod 2 ^ 64)"

lemma size_sub_exact: "b \<le> a \<Longrightarrow> a < 2 ^ 64 \<Longrightarrow> size_sub a b = a - b"
  by (simp add: size_sub_def flip: of_nat_diff)

text \<open>An \<open>int\<close> has 32 bits; the conversions from and to \<open>size_t\<close> are the compiler's.\<close>

definition INT_MAX :: nat where
  "INT_MAX = 2 ^ 31 - 1"

definition UINT_MAX :: nat where
  "UINT_MAX = 2 ^ 32 - 1"

definition size_of_int :: "int \<Rightarrow> nat" where
  "size_of_int i = nat (i mod 2 ^ 64)"

definition int_of_size :: "nat \<Rightarrow> int" where
  "int_of_size n = sint (of_nat n :: u32)"

lemma size_of_int_nat: "0 \<le> i \<Longrightarrow> i < 2 ^ 64 \<Longrightarrow> size_of_int i = nat i"
  by (simp add: size_of_int_def)

lemma int_of_size_small: "n < 2 ^ 31 \<Longrightarrow> int_of_size n = int n"
  by (simp add: int_of_size_def signed_of_nat signed_take_bit_int_eq_self)

section \<open>The heap\<close>

text \<open>
  What the C library's \<open>malloc\<close> does is not determined: an allocation of \<open>n\<close> bytes may
  fail, and the bytes of a fresh block are whatever the memory held.  Both are fields of
  a record that every allocating operation takes as its argument.  Whether a request succeeds is a
  function of its size, so that within one run two requests of one size cannot have different
  outcomes, nor two fresh blocks different contents; failures by size are all that a theorem covers
  that quantifies over the record.
\<close>

record heap_env =
  can_alloc :: "nat \<Rightarrow> bool"
  junk :: "nat \<Rightarrow> u8"

text \<open>A heap that serves every request below \<open>2 ^ 62\<close> bytes.\<close>

definition heap_generous :: "heap_env \<Rightarrow> bool" where
  "heap_generous e \<longleftrightarrow> (\<forall>n < 2 ^ 62. can_alloc e n)"

section \<open>Lists\<close>

lemma take_Suc_nth: "i < length xs \<Longrightarrow> take (Suc i) xs = take i xs @ [xs ! i]"
  by (rule take_Suc_conv_app_nth)

lemma take_add_drop: "take (m + n) xs = take m xs @ take n (drop m xs)"
  by (rule take_add)

lemma take_hd_drop: "n < length xs \<Longrightarrow> drop n xs = xs ! n # drop (Suc n) xs"
  by (rule Cons_nth_drop_Suc [symmetric])

text \<open>
  \<open>blit dst i src\<close> is \<open>memcpy(dst + i, src, length src)\<close> on a buffer that has the room.
\<close>

definition blit :: "'a list \<Rightarrow> nat \<Rightarrow> 'a list \<Rightarrow> 'a list" where
  "blit dst i src = take i dst @ src @ drop (i + length src) dst"

lemma length_blit [simp]:
  "i + length src \<le> length dst \<Longrightarrow> length (blit dst i src) = length dst"
  by (simp add: blit_def)

lemma take_blit_before [simp]:
  "k \<le> i \<Longrightarrow> i \<le> length dst \<Longrightarrow> take k (blit dst i src) = take k dst"
  by (simp add: blit_def min_absorb1)

lemma take_blit_end:
  "i \<le> length dst \<Longrightarrow> take (i + length src) (blit dst i src) = take i dst @ src"
  by (simp add: blit_def)

lemma drop_blit_after:
  assumes "i + length src \<le> k" "i + length src \<le> length dst"
  shows "drop k (blit dst i src) = drop k dst"
proof -
  obtain m where m: "k = (i + length src) + m" using assms(1) le_Suc_ex by blast
  have "drop (i + length src) (blit dst i src) = drop (i + length src) dst"
    using assms(2) by (simp add: blit_def)
  then show ?thesis by (simp add: m add.commute [of _ m] flip: drop_drop)
qed

lemma blit_nil [simp]: "blit dst i [] = dst"
  by (simp add: blit_def)

lemma blit_snoc:
  "i + length ys < length buf \<Longrightarrow> blit (buf[i + length ys := x]) i ys = blit buf i (ys @ [x])"
  by (simp add: blit_def Cons_nth_drop_Suc [symmetric] drop_update_cancel)

lemma blit_one: "i < length buf \<Longrightarrow> buf[i := x] = blit buf i [x]"
  by (simp add: blit_def upd_conv_take_nth_drop)

text \<open>Moving the tail of a buffer up and writing in the gap.\<close>

lemma take_blit_gap:
  assumes "i + length h = m" "m + length body \<le> length buf"
  shows "take (m + length body) (blit (blit buf m body) i h) = take i buf @ h @ body"
proof -
  have "i \<le> m" using assms(1) by simp
  moreover have "drop m (blit buf m body) = body @ drop (m + length body) buf"
    using assms(2) by (simp add: blit_def)
  ultimately show ?thesis using assms
    by (auto simp: blit_def [of _ i])
qed

lemma take_blit_mid:
  assumes "i + length h \<le> n" "n \<le> length buf"
  shows "take n (blit buf i h) = take i (take n buf) @ h @ drop (i + length h) (take n buf)"
proof -
  obtain m where n: "n = (i + length h) + m" using assms(1) le_Suc_ex by blast
  have "take n (blit buf i h) = take i buf @ h @ take m (drop (i + length h) buf)"
    using assms by (simp add: blit_def n)
  then show ?thesis using assms by (simp add: n drop_take)
qed

section \<open>Big-endian values\<close>

definition be_val :: "bytes \<Rightarrow> nat" where
  "be_val bs = foldl (\<lambda>n b. 256 * n + unat b) 0 bs"

lemma be_val_Nil [simp]: "be_val [] = 0"
  by (simp add: be_val_def)

lemma be_val_snoc [simp]: "be_val (bs @ [b]) = 256 * be_val bs + unat b"
  by (simp add: be_val_def)

lemma be_val_append: "be_val (xs @ ys) = be_val xs * 256 ^ length ys + be_val ys"
proof (induction ys rule: rev_induct)
  case (snoc y ys)
  have "be_val (xs @ ys @ [y]) = 256 * be_val (xs @ ys) + unat y"
    using be_val_snoc [of "xs @ ys" y] by simp
  with snoc show ?case by (simp add: algebra_simps)
qed simp

lemma be_val_Cons: "be_val (b # bs) = unat b * 256 ^ length bs + be_val bs"
  using be_val_append [of "[b]" bs] by (simp add: be_val_def)

lemma unat_u8_lt: "unat (b :: u8) < 256"
  using unsigned_less [of b] by simp

lemma unat_u32_lt: "unat (w :: u32) < 2 ^ 32"
  using unsigned_less [of w] by simp

lemma unat_u64_lt: "unat (w :: u64) < 2 ^ 64"
  using unsigned_less [of w] by simp

lemma be_val_less: "be_val bs < 256 ^ length bs"
proof (induction bs rule: rev_induct)
  case (snoc b bs)
  then show ?case using unat_u8_lt [of b] by simp
qed simp

lemma be_val_ge: "bs \<noteq> [] \<Longrightarrow> hd bs \<noteq> 0 \<Longrightarrow> 256 ^ (length bs - 1) \<le> be_val bs"
  by (cases bs) (auto simp: be_val_Cons unat_gt_0 Suc_le_eq intro!: trans_le_add1)

lemma be_val_pos: "bs \<noteq> [] \<Longrightarrow> hd bs \<noteq> 0 \<Longrightarrow> 0 < be_val bs"
  by (rule less_le_trans [OF _ be_val_ge]) simp_all

text \<open>Big-endian digits are unique among strings of one length.\<close>

lemma be_val_inject:
  "length xs = length ys \<Longrightarrow> be_val xs = be_val ys \<Longrightarrow> xs = ys"
proof (induction xs arbitrary: ys rule: rev_induct)
  case (snoc x xs)
  then obtain ys' y where ys: "ys = ys' @ [y]" "length xs = length ys'"
    by (cases ys rule: rev_cases) auto
  have eq: "256 * be_val xs + unat x = 256 * be_val ys' + unat y"
    using snoc.prems ys by simp
  then have "(256 * be_val xs + unat x) div 256 = (256 * be_val ys' + unat y) div 256"
    and "(256 * be_val xs + unat x) mod 256 = (256 * be_val ys' + unat y) mod 256" by simp_all
  then have "be_val xs = be_val ys'" and "unat x = unat y"
    using unat_u8_lt [of x] unat_u8_lt [of y] by simp_all
  with snoc.IH ys show ?case by (simp add: word_unat_eq_iff)
qed simp

text \<open>\<open>be_bytes k n\<close> are the \<open>k\<close> low big-endian base-256 digits of \<open>n\<close>.\<close>

primrec be_bytes :: "nat \<Rightarrow> nat \<Rightarrow> bytes" where
  "be_bytes 0 n = []"
| "be_bytes (Suc k) n = be_bytes k (n div 256) @ [of_nat n]"

lemma length_be_bytes [simp]: "length (be_bytes k n) = k"
  by (induction k arbitrary: n) auto

lemma be_val_be_bytes: "be_val (be_bytes k n) = n mod 256 ^ k"
proof (induction k arbitrary: n)
  case (Suc k)
  have "n mod (256 * 256 ^ k) = 256 * (n div 256 mod 256 ^ k) + n mod 256"
    by (rule mod_mult2_eq)
  with Suc show ?case by (simp add: unat_of_nat)
qed simp

lemma be_bytes_be_val: "length bs = k \<Longrightarrow> be_bytes k (be_val bs) = bs"
  using be_val_less [of bs] by (intro be_val_inject) (simp_all add: be_val_be_bytes)

section \<open>Words\<close>

lemma word_eq_of_nat: "unat (w :: 'a::len word) = n \<Longrightarrow> w = of_nat n"
  by auto

lemma pow_256: "(2 :: nat) ^ (m * 8) = 256 ^ m"
  unfolding mult.commute [of m 8] power_mult by simp

lemma not_bit_high_word: "unat (y :: 'a::len word) < 2 ^ k \<Longrightarrow> k \<le> n \<Longrightarrow> \<not> bit y n"
proof
  assume y: "unat y < 2 ^ k" and k: "k \<le> n" and b: "bit y n"
  have "(2 :: nat) ^ k \<le> 2 ^ n" using k by simp
  with y have "unat y < 2 ^ n" by (rule less_le_trans)
  then have "unat y div 2 ^ n = 0" by simp
  moreover have "bit (unat y) n" using b by (simp add: bit_unsigned_iff bit_imp_le_length)
  ultimately show False by (simp add: bit_iff_odd)
qed

lemma push_bit_or_low:
  fixes x y :: "'a::len word"
  assumes "unat y < 2 ^ k"
  shows "push_bit k x OR y = push_bit k x + y"
proof -
  have "push_bit k x AND y = 0"
    by (rule bit_word_eqI) (auto simp: bit_and_iff bit_push_bit_iff dest: not_bit_high_word [OF assms])
  then show ?thesis by (simp add: disjunctive_add_eq_or)
qed

lemma unat_push_bit [unat_simps]:
  "unat (push_bit k (x :: 'a::len word)) = (unat x * 2 ^ k) mod 2 ^ LENGTH('a)"
  by (simp only: unsigned_push_bit_eq) (simp add: take_bit_eq_mod push_bit_eq_mult)

lemma unat_drop_bit [unat_simps]: "unat (drop_bit k (x :: 'a::len word)) = unat x div 2 ^ k"
  using unat_drop_bit_eq [of k x] by (simp only: drop_bit_eq_div [where 'a = nat])

lemma unat_and_mask [unat_simps]: "unat (x AND mask k :: 'a::len word) = unat x mod 2 ^ k"
  by (simp only: take_bit_eq_mask [symmetric] unsigned_take_bit_eq) (simp add: take_bit_eq_mod)

lemma unat_ucast [unat_simps]:
  "unat (ucast (x :: 'a::len word) :: 'b::len word) = unat x mod 2 ^ LENGTH('b)"
  by (simp only: unsigned_ucast_eq) (simp add: take_bit_eq_mod)

lemma unat_ucast_up [unat_simps]:
  "LENGTH('a) \<le> LENGTH('b) \<Longrightarrow> unat (ucast (x :: 'a::len word) :: 'b::len word) = unat x"
  by (metis mod_less order_less_le_trans one_le_numeral power_increasing unat_ucast unsigned_less)

section \<open>Bytes as numbers\<close>

lemma u8_high_bit: "(b :: u8) AND 0x80 = 0 \<longleftrightarrow> unat b < 128"
proof -
  have "bit b 7 \<longleftrightarrow> odd (unat b div 128)"
    using bit_unsigned_iff [where ?'a = nat, of b 7] bit_iff_odd [where ?'a = nat, of "unat b" 7]
    by simp
  moreover have "unat b div 128 < 2" using unat_u8_lt [of b] by simp
  moreover have "b AND 2 ^ 7 = 0 \<longleftrightarrow> \<not> bit b 7" by (rule and_exp_eq_0_iff_not_bit)
  ultimately show ?thesis by (auto simp: div_less odd_iff_mod_2_eq_one)
qed

lemma u8_low7: "unat ((b :: u8) AND 0x7f) = unat b mod 128"
  using unat_and_mask [of b 7] by (simp add: mask_eq_exp_minus_1)

lemma u8_low5: "unat ((b :: u8) AND 0x1f) = unat b mod 32"
  using unat_and_mask [of b 5] by (simp add: mask_eq_exp_minus_1)

lemma unat_of_nat_u8: "n < 256 \<Longrightarrow> unat (of_nat n :: u8) = n"
  by (simp add: unat_of_nat)

lemma of_nat_unat_u8 [simp]: "of_nat (unat (b :: u8)) = b"
  by simp

lemma u8_eq_of_nat: "unat (b :: u8) = n \<Longrightarrow> b = of_nat n"
  by auto

text \<open>The bytes of a number and of a word, lowest first.\<close>

lemma be_bytes_Cons: "be_bytes (Suc k) n = of_nat (n div 256 ^ k) # be_bytes k n"
  by (induction k arbitrary: n) (simp_all add: div_mult2_eq)

lemma be_bytes_digits: "be_bytes k n = rev (map (\<lambda>j. of_nat (n div 256 ^ j)) [0..<k])"
  by (induction k) (simp_all add: be_bytes_Cons del: be_bytes.simps(2))

lemma limb_byte: "ucast (drop_bit (8 * j) (x :: u64)) = (of_nat (unat x div 256 ^ j) :: u8)"
  by (simp add: word_unat_eq_iff unat_ucast unat_drop_bit power_mult unat_of_nat)

lemma be_bytes_add: "be_bytes (j + k) n = be_bytes j (n div 256 ^ k) @ be_bytes k n"
  by (induction k arbitrary: n) (simp_all add: div_mult2_eq)

lemma be_bytes_mod: "be_bytes k (n mod 256 ^ k) = be_bytes k n"
  using be_bytes_be_val [of "be_bytes k n" k] by (simp add: be_val_be_bytes)

end
