(* ===== verification/Mem.thy ===== *)
theory Mem
  imports Prelude
begin

text \<open>
  The allocation and memory helpers of \<open>crypto/mem.c\<close> and the growable buffers and
  bounded string functions of \<open>crypto/buf/buf.c\<close>.  A block is the list of its bytes, a
  null pointer is \<open>None\<close>.  A C string is the list of the bytes readable at its address,
  which holds a zero byte; a read past the end of that list has the result \<open>None\<close>.
\<close>

section \<open>Allocation\<close>

text \<open>
  Every block has a prefix of eight bytes that stores its size, so \<open>malloc\<close> is asked for
  eight bytes more than the caller wants.  That sum is not checked for wrap-around.
\<close>

definition OPENSSL_MALLOC_PREFIX :: nat where
  "OPENSSL_MALLOC_PREFIX = 8"

definition OPENSSL_malloc :: "heap_env \<Rightarrow> nat \<Rightarrow> bytes option" where
  "OPENSSL_malloc e sz =
     (let n = size_add sz OPENSSL_MALLOC_PREFIX in
      if can_alloc e n then Some (map (junk e) [0..<n - OPENSSL_MALLOC_PREFIX]) else None)"

text \<open>The length of the old block is the size that its prefix stores.\<close>

definition OPENSSL_realloc :: "heap_env \<Rightarrow> bytes option \<Rightarrow> nat \<Rightarrow> bytes option" where
  "OPENSSL_realloc e orig new_size =
     (case orig of
        None \<Rightarrow> OPENSSL_malloc e new_size
      | Some old \<Rightarrow>
          (case OPENSSL_malloc e new_size of
             None \<Rightarrow> None
           | Some new \<Rightarrow>
               let to_copy = (if length old < new_size then length old else new_size) in
               Some (blit new 0 (take to_copy old))))"

lemma OPENSSL_malloc_length:
  "OPENSSL_malloc e n = Some b \<Longrightarrow> n + 8 < 2 ^ 64 \<Longrightarrow> length b = n"
  by (auto simp: OPENSSL_malloc_def Let_def size_add_exact OPENSSL_MALLOC_PREFIX_def
      split: if_splits)

lemma generous_malloc: "heap_generous e \<Longrightarrow> n + 8 < 2 ^ 62 \<Longrightarrow> \<exists>b. OPENSSL_malloc e n = Some b"
  by (simp add: OPENSSL_malloc_def OPENSSL_MALLOC_PREFIX_def Let_def size_add_exact heap_generous_def)

lemma OPENSSL_realloc_length:
  "OPENSSL_realloc e orig n = Some b \<Longrightarrow> n + 8 < 2 ^ 64 \<Longrightarrow> length b = n"
  by (auto simp: OPENSSL_realloc_def Let_def split: option.splits if_splits
      dest: OPENSSL_malloc_length)

lemma OPENSSL_realloc_keeps:
  assumes "OPENSSL_realloc e (Some old) n = Some b" "n + 8 < 2 ^ 64" "k \<le> length old" "k \<le> n"
  shows "take k b = take k old"
proof -
  obtain new where new: "OPENSSL_malloc e n = Some new"
    and b: "b = blit new 0 (take (min (length old) n) old)"
    using assms(1) by (auto simp: OPENSSL_realloc_def Let_def min_def split: option.splits)
  have "length new = n" using new assms(2) by (rule OPENSSL_malloc_length)
  with b assms(3,4) show ?thesis by (simp add: blit_def min_def)
qed

section \<open>Comparison and hashing\<close>

definition CRYPTO_memcmp :: "bytes \<Rightarrow> bytes \<Rightarrow> nat \<Rightarrow> u8" where
  "CRYPTO_memcmp a b len = fold (\<lambda>i x. x OR (a ! i XOR b ! i)) [0..<len] 0"

lemma fold_or_zero_iff:
  "fold (\<lambda>i x. x OR f i) is (x :: 'a::len word) = 0 \<longleftrightarrow> x = 0 \<and> (\<forall>i\<in>set is. f i = 0)"
proof (induction "is" arbitrary: x)
  case (Cons i "is")
  have "x OR f i = 0 \<longleftrightarrow> x = 0 \<and> f i = 0"
    by (auto simp: bit_eq_iff bit_or_iff)
  with Cons show ?case by auto
qed simp

lemma xor_zero_iff: "(x :: 'a::len word) XOR y = 0 \<longleftrightarrow> x = y"
  by (auto simp: bit_eq_iff bit_xor_iff)

lemma CRYPTO_memcmp_zero_iff:
  assumes "n \<le> length a" "n \<le> length b"
  shows "CRYPTO_memcmp a b n = 0 \<longleftrightarrow> take n a = take n b"
  using assms
  by (auto simp: CRYPTO_memcmp_def fold_or_zero_iff xor_zero_iff list_eq_iff_nth_eq)

definition OPENSSL_hash32 :: "bytes \<Rightarrow> nat \<Rightarrow> u32" where
  "OPENSSL_hash32 ptr len =
     fold (\<lambda>b h. (h XOR ucast b) * 16777619) (take len ptr) 2166136261"

fun OPENSSL_strnlen :: "bytes \<Rightarrow> nat \<Rightarrow> nat option" where
  "OPENSSL_strnlen s 0 = Some 0"
| "OPENSSL_strnlen [] (Suc n) = None"
| "OPENSSL_strnlen (c # s) (Suc n) =
     (if c = 0 then Some 0 else map_option Suc (OPENSSL_strnlen s n))"

text \<open>The standard library's \<open>strlen\<close> on a terminated string.\<close>

definition cstr :: "bytes \<Rightarrow> bytes" where
  "cstr s = takeWhile (\<lambda>c. c \<noteq> 0) s"

definition strlen :: "bytes \<Rightarrow> nat" where
  "strlen s = length (cstr s)"

definition OPENSSL_strdup :: "heap_env \<Rightarrow> bytes \<Rightarrow> bytes option" where
  "OPENSSL_strdup e s =
     (let len = strlen s + 1 in
      case OPENSSL_malloc e len of
        None \<Rightarrow> None
      | Some ret \<Rightarrow> Some (blit ret 0 (take len s)))"

text \<open>Characters are signed on the targets, so a byte is read with \<open>sint\<close>.\<close>

definition OPENSSL_tolower :: "int \<Rightarrow> int" where
  "OPENSSL_tolower c = (if c \<ge> 65 \<and> c \<le> 90 then c + 32 else c)"

fun OPENSSL_strcasecmp :: "bytes \<Rightarrow> bytes \<Rightarrow> int option" where
  "OPENSSL_strcasecmp (a # as) (b # bs) =
     (let aa = OPENSSL_tolower (sint a); bb = OPENSSL_tolower (sint b) in
      if aa < bb then Some (-1) else if aa > bb then Some 1
      else if aa = 0 then Some 0 else OPENSSL_strcasecmp as bs)"
| "OPENSSL_strcasecmp _ _ = None"

fun OPENSSL_strncasecmp :: "bytes \<Rightarrow> bytes \<Rightarrow> nat \<Rightarrow> int option" where
  "OPENSSL_strncasecmp _ _ 0 = Some 0"
| "OPENSSL_strncasecmp (a # as) (b # bs) (Suc n) =
     (let aa = OPENSSL_tolower (sint a); bb = OPENSSL_tolower (sint b) in
      if aa < bb then Some (-1) else if aa > bb then Some 1
      else if aa = 0 then Some 0 else OPENSSL_strncasecmp as bs n)"
| "OPENSSL_strncasecmp _ _ (Suc n) = None"

section \<open>Growable buffers\<close>

record buf_mem =
  bm_length :: nat
  bm_data :: "bytes option"
  bm_max :: nat

definition BUF_MEM_new :: "heap_env \<Rightarrow> buf_mem option" where
  "BUF_MEM_new e =
     (case OPENSSL_malloc e 24 of
        None \<Rightarrow> None
      | Some _ \<Rightarrow> Some \<lparr>bm_length = 0, bm_data = None, bm_max = 0\<rparr>)"

definition BUF_MEM_reserve :: "heap_env \<Rightarrow> buf_mem \<Rightarrow> nat \<Rightarrow> bool \<times> buf_mem" where
  "BUF_MEM_reserve e buf cap =
     (if bm_max buf \<ge> cap then (True, buf)
      else let n = size_add cap 3 in
        if n < cap then (False, buf)
        else let n = n div 3; alloc_size = size_mul 4 n in
          if alloc_size div 4 \<noteq> n then (False, buf)
          else (case OPENSSL_realloc e (bm_data buf) alloc_size of
                  None \<Rightarrow> (False, buf)
                | Some new_buf \<Rightarrow> (True, buf\<lparr>bm_data := Some new_buf, bm_max := alloc_size\<rparr>)))"

definition bm_bytes :: "buf_mem \<Rightarrow> bytes" where
  "bm_bytes buf = (case bm_data buf of None \<Rightarrow> [] | Some d \<Rightarrow> d)"

definition BUF_MEM_grow :: "heap_env \<Rightarrow> buf_mem \<Rightarrow> nat \<Rightarrow> nat \<times> buf_mem" where
  "BUF_MEM_grow e buf len =
     (case BUF_MEM_reserve e buf len of
        (False, buf) \<Rightarrow> (0, buf)
      | (True, buf) \<Rightarrow>
          let buf = (if bm_length buf < len
                     then buf\<lparr>bm_data := map_option (\<lambda>d. blit d (bm_length buf)
                            (replicate (len - bm_length buf) 0)) (bm_data buf)\<rparr>
                     else buf)
          in (len, buf\<lparr>bm_length := len\<rparr>))"

definition BUF_MEM_grow_clean :: "heap_env \<Rightarrow> buf_mem \<Rightarrow> nat \<Rightarrow> nat \<times> buf_mem" where
  "BUF_MEM_grow_clean e buf len = BUF_MEM_grow e buf len"

definition BUF_MEM_append :: "heap_env \<Rightarrow> buf_mem \<Rightarrow> bytes \<Rightarrow> nat \<Rightarrow> bool \<times> buf_mem" where
  "BUF_MEM_append e buf inp len =
     (let new_len = size_add (bm_length buf) len in
      if new_len < len then (False, buf)
      else (case BUF_MEM_reserve e buf new_len of
              (False, buf) \<Rightarrow> (False, buf)
            | (True, buf) \<Rightarrow>
                (True, buf\<lparr>bm_data := map_option (\<lambda>d. blit d (bm_length buf) (take len inp)) (bm_data buf),
                           bm_length := new_len\<rparr>)))"

section \<open>Bounded strings\<close>

fun BUF_strnlen :: "bytes \<Rightarrow> nat \<Rightarrow> nat option" where
  "BUF_strnlen s 0 = Some 0"
| "BUF_strnlen [] (Suc n) = None"
| "BUF_strnlen (c # s) (Suc n) =
     (if c = 0 then Some 0 else map_option Suc (BUF_strnlen s n))"

definition BUF_strndup :: "heap_env \<Rightarrow> bytes option \<Rightarrow> nat \<Rightarrow> bytes option" where
  "BUF_strndup e str sz =
     (case str of
        None \<Rightarrow> None
      | Some s \<Rightarrow>
          (case BUF_strnlen s sz of
             None \<Rightarrow> None
           | Some n \<Rightarrow>
               let alloc_size = size_add n 1 in
               if alloc_size < n then None
               else (case OPENSSL_malloc e alloc_size of
                       None \<Rightarrow> None
                     | Some ret \<Rightarrow> Some ((blit ret 0 (take n s))[n := 0]))))"

definition BUF_strdup :: "heap_env \<Rightarrow> bytes option \<Rightarrow> bytes option" where
  "BUF_strdup e str =
     (case str of None \<Rightarrow> None | Some s \<Rightarrow> BUF_strndup e (Some s) (strlen s))"

fun strlcpy_loop :: "bytes \<Rightarrow> nat \<Rightarrow> bytes \<Rightarrow> nat \<Rightarrow> nat \<Rightarrow> bytes \<times> nat \<times> bytes \<times> nat \<times> nat" where
  "strlcpy_loop dst i [] dst_size l = (dst, i, [], dst_size, l)"
| "strlcpy_loop dst i (c # src) dst_size l =
     (if dst_size > 1 \<and> c \<noteq> 0
      then strlcpy_loop (dst[i := c]) (Suc i) src (dst_size - 1) (Suc l)
      else (dst, i, c # src, dst_size, l))"

text \<open>
  \<open>BUF_strlcpy_at dst i src dst_size\<close> is the call with the destination pointer at
  offset \<open>i\<close> of the buffer \<open>dst\<close>; it returns the buffer and the result.
\<close>

definition BUF_strlcpy_at :: "bytes \<Rightarrow> nat \<Rightarrow> bytes \<Rightarrow> nat \<Rightarrow> bytes \<times> nat" where
  "BUF_strlcpy_at dst i src dst_size =
     (case strlcpy_loop dst i src dst_size 0 of
        (dst, i, src, dst_size, l) \<Rightarrow>
          (if dst_size > 0 then dst[i := 0] else dst, l + strlen src))"

definition BUF_strlcpy :: "bytes \<Rightarrow> bytes \<Rightarrow> nat \<Rightarrow> bytes \<times> nat" where
  "BUF_strlcpy dst src dst_size = BUF_strlcpy_at dst 0 src dst_size"

fun strlcat_skip :: "bytes \<Rightarrow> nat \<Rightarrow> nat" where
  "strlcat_skip (c # dst) (Suc dst_size) =
     (if c \<noteq> 0 then Suc (strlcat_skip dst dst_size) else 0)"
| "strlcat_skip _ _ = 0"

definition BUF_strlcat :: "bytes \<Rightarrow> bytes \<Rightarrow> nat \<Rightarrow> bytes \<times> nat" where
  "BUF_strlcat dst src dst_size =
     (let l = strlcat_skip dst dst_size in
      case BUF_strlcpy_at dst l src (dst_size - l) of (dst', r) \<Rightarrow> (dst', l + r))"

definition BUF_memdup :: "heap_env \<Rightarrow> bytes \<Rightarrow> nat \<Rightarrow> bytes option" where
  "BUF_memdup e data sz =
     (if sz = 0 then None
      else case OPENSSL_malloc e sz of
             None \<Rightarrow> None
           | Some ret \<Rightarrow> Some (blit ret 0 (take sz data)))"

section \<open>Correctness\<close>

text \<open>
  The invariant of a growable buffer and the byte string it holds.  No block of \<open>2 ^ 62\<close>
  bytes or more fits the address space of the targets (48 bits), which keeps the sizes of
  live blocks away from the wrap-around of the prefix.
\<close>

definition heap_ok :: "heap_env \<Rightarrow> bool" where
  "heap_ok e \<longleftrightarrow> (\<forall>n. can_alloc e n \<longrightarrow> n < 2 ^ 62)"

definition bm_wf :: "buf_mem \<Rightarrow> bool" where
  "bm_wf buf \<longleftrightarrow> bm_length buf \<le> bm_max buf \<and> length (bm_bytes buf) = bm_max buf
     \<and> bm_max buf < 2 ^ 62"

definition bm_contents :: "buf_mem \<Rightarrow> bytes" where
  "bm_contents buf = take (bm_length buf) (bm_bytes buf)"

lemma OPENSSL_realloc_bound:
  assumes "heap_ok e" "OPENSSL_realloc e orig n = Some b" "n + 8 < 2 ^ 64"
  shows "n < 2 ^ 62"
proof -
  have "can_alloc e (n + 8)"
    using assms(2,3)
    by (auto simp: OPENSSL_realloc_def OPENSSL_malloc_def Let_def size_add_exact
        OPENSSL_MALLOC_PREFIX_def split: option.splits if_splits)
  with assms(1) show ?thesis unfolding heap_ok_def by fastforce
qed

lemma bm_wf_new: "BUF_MEM_new e = Some b \<Longrightarrow> bm_wf b \<and> bm_contents b = []"
  by (auto simp: BUF_MEM_new_def bm_wf_def bm_contents_def bm_bytes_def split: option.splits)

lemma BUF_MEM_reserve_correct:
  assumes "heap_ok e" "bm_wf buf" "BUF_MEM_reserve e buf cap = (ok, buf')" "cap < 2 ^ 63"
  shows "bm_wf buf' \<and> bm_contents buf' = bm_contents buf \<and> bm_length buf' = bm_length buf
    \<and> (ok \<longrightarrow> cap \<le> bm_max buf')"
proof (cases "bm_max buf \<ge> cap \<or> \<not> ok")
  case True
  then have "buf' = buf" "ok \<Longrightarrow> bm_max buf \<ge> cap" using assms(3)
    by (auto simp: BUF_MEM_reserve_def Let_def split: if_splits option.splits)
  with assms(2) show ?thesis by simp
next
  case False
  define n where "n = size_add cap 3 div 3"
  have ok: "ok" and cap: "bm_max buf < cap" using False by auto
  then have c1: "\<not> size_add cap 3 < cap" and c2: "size_mul 4 n div 4 = n"
    and re: "OPENSSL_realloc e (bm_data buf) (size_mul 4 n) = Some (bm_bytes buf')"
    and buf': "buf' = buf\<lparr>bm_data := Some (bm_bytes buf'), bm_max := size_mul 4 n\<rparr>"
    using assms(3)
    by (auto simp: BUF_MEM_reserve_def Let_def n_def bm_bytes_def split: if_splits option.splits)
  have "cap + 3 < 2 ^ 64"
    using c1 size_add_wraps_iff [of cap 3] assms(4) by simp
  then have n: "n = (cap + 3) div 3" by (simp add: n_def size_add_exact)
  have sz: "size_mul 4 n = 4 * n" using c2 size_mul_div_iff [of 4 n]
    by (simp add: size_mul_def)
  have ge: "cap \<le> 4 * n" unfolding n by presburger
  have lt: "4 * n + 8 < 2 ^ 64" using assms(4) unfolding n by simp
  note len = OPENSSL_realloc_length [OF re [unfolded sz] lt]
  have keep: "take (bm_length buf) (bm_bytes buf') = bm_contents buf"
  proof (cases "bm_data buf")
    case None
    then have "bm_length buf = 0" using assms(2) by (simp add: bm_wf_def bm_bytes_def)
    then show ?thesis by (simp add: bm_contents_def)
  next
    case (Some old)
    have "bm_length buf \<le> length old" "length old < cap" using assms(2) Some cap
      by (auto simp: bm_wf_def bm_bytes_def)
    then show ?thesis
      using OPENSSL_realloc_keeps [OF re [unfolded sz Some] lt, of "bm_length buf"] ge Some
      by (simp add: bm_contents_def bm_bytes_def)
  qed
  have f: "bm_length buf' = bm_length buf" "bm_max buf' = 4 * n"
    using arg_cong [OF buf', of bm_length] arg_cong [OF buf', of bm_max] sz by simp_all
  have "4 * n < 2 ^ 62" using OPENSSL_realloc_bound [OF assms(1) re [unfolded sz] lt] .
  with f len ge cap assms(2) keep show ?thesis
    by (simp add: bm_wf_def bm_contents_def)
qed

text \<open>
  Appending: on success the contents are extended by the given bytes, on failure they are
  unchanged, and the buffer is well-formed either way.
\<close>

lemma BUF_MEM_append_correct:
  assumes "heap_ok e" "bm_wf buf" "bm_length buf + length inp < 2 ^ 63"
    and r: "BUF_MEM_append e buf inp (length inp) = (ok, buf')"
  shows "bm_wf buf'" and "bm_contents buf' = (if ok then bm_contents buf @ inp else bm_contents buf)"
proof -
  have eq: "size_add (bm_length buf) (length inp) = bm_length buf + length inp"
    using assms(3) by (simp add: size_add_exact)
  obtain ok1 b1 where res: "BUF_MEM_reserve e buf (bm_length buf + length inp) = (ok1, b1)"
    by (cases "BUF_MEM_reserve e buf (bm_length buf + length inp)")
  note c = BUF_MEM_reserve_correct [OF assms(1,2) res assms(3)]
  have ok: "ok = ok1" and fail: "\<not> ok1 \<Longrightarrow> buf' = b1"
    and suc: "ok1 \<Longrightarrow> buf' = b1\<lparr>bm_data := map_option (\<lambda>d. blit d (bm_length b1) inp) (bm_data b1),
       bm_length := bm_length buf + length inp\<rparr>"
    using r res by (auto simp: BUF_MEM_append_def eq Let_def split: bool.splits)
  have "bm_wf buf' \<and> bm_contents buf' = (if ok then bm_contents buf @ inp else bm_contents buf)"
  proof (cases ok1)
    case False
    with fail ok c show ?thesis by simp
  next
    case True
    have d: "bm_bytes buf' = blit (bm_bytes b1) (bm_length b1) inp"
    proof (cases "bm_data b1")
      case None
      then have "bm_max b1 = 0" using c by (simp add: bm_wf_def bm_bytes_def)
      then have "bm_length b1 = 0" "inp = []" using c True by auto
      with None suc [OF True] show ?thesis by (simp add: bm_bytes_def)
    qed (simp add: suc [OF True] bm_bytes_def)
    have room: "bm_length b1 + length inp \<le> length (bm_bytes b1)"
      using c True by (simp add: bm_wf_def)
    have "take (bm_length b1 + length inp) (bm_bytes buf') = bm_contents b1 @ inp"
      using room unfolding d by (simp add: take_blit_end bm_contents_def)
    moreover have f: "bm_length buf' = bm_length buf + length inp" "bm_max buf' = bm_max b1"
      using suc [OF True] by simp_all
    ultimately have "bm_contents buf' = bm_contents buf @ inp"
      using c by (simp add: bm_contents_def [of buf'])
    moreover have "bm_wf buf'" using c f room d True by (simp add: bm_wf_def)
    ultimately show ?thesis using ok True by simp
  qed
  then show "bm_wf buf'" and "bm_contents buf' = (if ok then bm_contents buf @ inp else bm_contents buf)"
    by auto
qed

lemma BUF_MEM_grow_correct:
  assumes "heap_ok e" "bm_wf buf" "n < 2 ^ 63" and r: "BUF_MEM_grow e buf n = (k, buf')"
  shows "bm_wf buf'" and "k = n \<Longrightarrow> 0 < n \<Longrightarrow>
    bm_contents buf' = take n (bm_contents buf) @ replicate (n - bm_length buf) 0"
proof -
  obtain ok b1 where res: "BUF_MEM_reserve e buf n = (ok, b1)"
    by (cases "BUF_MEM_reserve e buf n")
  note c = BUF_MEM_reserve_correct [OF assms(1,2) res assms(3)]
  show "bm_wf buf'"
    using r res c by (auto simp: BUF_MEM_grow_def bm_wf_def bm_bytes_def Let_def
        split: bool.splits if_splits option.splits)
  assume k: "k = n" "0 < n"
  with r res have ok: ok by (auto simp: BUF_MEM_grow_def split: bool.splits)
  have room: "n \<le> length (bm_bytes b1)" "bm_length b1 \<le> length (bm_bytes b1)"
    using c ok by (auto simp: bm_wf_def)
  have b': "bm_bytes buf' = (if bm_length b1 < n
      then blit (bm_bytes b1) (bm_length b1) (replicate (n - bm_length b1) 0) else bm_bytes b1)"
    "bm_length buf' = n"
    using r res ok room k by (auto simp: BUF_MEM_grow_def bm_bytes_def Let_def split: option.splits)
  have same: "bm_contents b1 = bm_contents buf" "bm_length b1 = bm_length buf" using c by auto
  have "take n (bm_bytes buf') = take n (bm_contents b1) @ replicate (n - bm_length b1) 0"
    using take_blit_end [of "bm_length b1" "bm_bytes b1" "replicate (n - bm_length b1) 0"] room
    by (auto simp: b' bm_contents_def min_def)
  then show "bm_contents buf' = take n (bm_contents buf) @ replicate (n - bm_length buf) 0"
    unfolding same by (simp add: bm_contents_def [of buf'] b'(2))
qed

section \<open>Bounded string copies\<close>

lemma strlcpy_loop_run:
  assumes "cstr src = s" "length s < length src" "i + n \<le> length dst"
  shows "strlcpy_loop dst i src n l =
    (let k = min (length s) (n - 1) in (blit dst i (take k s), i + k, drop k src, n - k, l + k))"
  using assms
proof (induction dst i src n l arbitrary: s rule: strlcpy_loop.induct)
  case (1 dst i n l)
  then show ?case by (simp add: cstr_def)
next
  case (2 dst i c src n l)
  show ?case
  proof (cases "n > 1 \<and> c \<noteq> 0")
    case False
    with "2.prems" show ?thesis by (auto simp: cstr_def blit_def Let_def)
  next
    case True
    then obtain s' where s: "s = c # s'" "cstr src = s'" using "2.prems" by (auto simp: cstr_def)
    define k where "k = min (length s') (n - 1 - 1)"
    have IH: "strlcpy_loop (dst[i := c]) (Suc i) src (n - 1) (Suc l) =
        (blit (dst[i := c]) (Suc i) (take k s'), Suc i + k, drop k src, n - 1 - k, Suc l + k)"
      using "2.IH" [OF True s(2)] "2.prems" s True by (simp add: k_def Let_def)
    have k: "min (length s) (n - 1) = Suc k" using True s by (auto simp: k_def min_def)
    have "blit (dst[i := c]) (Suc i) (take k s') = blit dst i (take (Suc k) s)"
      using True "2.prems" s by (simp add: blit_def take_Suc_conv_app_nth drop_update_cancel)
    with IH k True show ?thesis by (simp add: Let_def)
  qed
qed

lemma cstr_drop: "k \<le> strlen src \<Longrightarrow> cstr (drop k src) = drop k (cstr src)"
proof (induction k arbitrary: src)
  case (Suc k)
  then show ?case by (cases src) (auto simp: cstr_def strlen_def split: if_splits)
qed simp

lemma BUF_strlcpy_at_run:
  assumes "strlen src < length src" "i + n \<le> length dst" "0 < n"
  shows "BUF_strlcpy_at dst i src n = (blit dst i (take (n - 1) (cstr src) @ [0]), strlen src)"
proof -
  define k where "k = min (strlen src) (n - 1)"
  have t: "take (n - 1) (cstr src) = take k (cstr src)" "length (take k (cstr src)) = k"
    by (auto simp: k_def strlen_def min_def)
  have room: "i + k < length dst" using assms(2,3) by (auto simp: k_def)
  have run: "strlcpy_loop dst i src n 0 = (blit dst i (take k (cstr src)), i + k, drop k src, n - k, k)"
    using strlcpy_loop_run [OF refl, of src i n dst 0] assms(1,2)
    by (simp add: k_def strlen_def Let_def)
  have upd: "(blit dst i (take k (cstr src)))[i + k := 0] = blit dst i (take k (cstr src) @ [0])"
  proof -
    have "drop (i + k) dst = dst ! (i + k) # drop (Suc (i + k)) dst"
      using room by (rule take_hd_drop)
    then show ?thesis using room t(2) by (simp add: blit_def list_update_append)
  qed
  have k_lt: "0 < n - k" using assms(3) by (auto simp: k_def)
  have "k + strlen (drop k src) = strlen src"
    using cstr_drop [of k src] by (simp add: strlen_def k_def min_def)
  with upd k_lt t(1) show ?thesis by (simp add: BUF_strlcpy_at_def run)
qed

lemma cstr_terminated: "0 \<notin> set s \<Longrightarrow> cstr (s @ 0 # r) = s"
  by (induction s) (auto simp: cstr_def)

lemma zero_notin_cstr: "0 \<notin> set (cstr s)"
  by (auto simp: cstr_def dest: set_takeWhileD)

text \<open>
  The bounded copy always terminates the destination, never writes at or after
  \<open>dst_size\<close>, and returns the length of the source, so that truncation can be detected.
\<close>

lemma BUF_strlcpy_correct:
  assumes "strlen src < length src" "n \<le> length dst" "0 < n"
    and r: "BUF_strlcpy dst src n = (dst', l)"
  shows "l = strlen src" and "cstr dst' = take (n - 1) (cstr src)"
    and "length dst' = length dst" and "drop n dst' = drop n dst"
proof -
  define s where "s = take (n - 1) (cstr src)"
  have eq: "dst' = blit dst 0 (s @ [0])" "l = strlen src"
    using r BUF_strlcpy_at_run [OF assms(1), of 0 n dst] assms(2,3)
    by (auto simp: BUF_strlcpy_def s_def)
  have ls: "length (s @ [0]) \<le> n" using assms(3) by (simp add: s_def)
  have nz: "0 \<notin> set s" using zero_notin_cstr by (auto simp: s_def dest: in_set_takeD)
  show "l = strlen src" by fact
  show "cstr dst' = take (n - 1) (cstr src)"
  proof -
    have "cstr dst' = s" using nz eq(1) by (simp add: blit_def cstr_terminated)
    then show ?thesis by (simp add: s_def)
  qed
  show "length dst' = length dst" using eq(1) ls assms(2) by simp
  show "drop n dst' = drop n dst" using ls assms(2) unfolding eq(1) by (intro drop_blit_after) auto
qed

lemma strlcat_skip_eq: "strlcat_skip dst n = min n (strlen dst)"
  by (induction dst n rule: strlcat_skip.induct) (auto simp: strlen_def cstr_def)

lemma cstr_take: "cstr s = take (strlen s) s"
  by (simp add: cstr_def strlen_def takeWhile_eq_take [symmetric])

text \<open>
  The bounded concatenation: with a terminated destination inside the given size, the
  result is the truncated concatenation and the value that it would need.
\<close>

lemma BUF_strlcat_correct:
  assumes "strlen src < length src" "n \<le> length dst" "strlen dst < n"
    and r: "BUF_strlcat dst src n = (dst', l)"
  shows "l = strlen dst + strlen src" and "cstr dst' = take (n - 1) (cstr dst @ cstr src)"
    and "length dst' = length dst"
proof -
  define k where "k = strlen dst"
  define s where "s = take (n - k - 1) (cstr src)"
  have eq: "dst' = blit dst k (s @ [0])" "l = k + strlen src"
    using r BUF_strlcpy_at_run [OF assms(1), of k "n - k" dst] assms(2,3)
    by (auto simp: BUF_strlcat_def strlcat_skip_eq s_def k_def Let_def)
  have nz: "0 \<notin> set (cstr dst @ s)" using zero_notin_cstr by (auto simp: s_def dest: in_set_takeD)
  show "l = strlen dst + strlen src" using eq k_def by simp
  have "length (cstr dst) = k" by (simp add: k_def strlen_def)
  then have t: "take (n - 1) (cstr dst @ cstr src) = cstr dst @ s"
    using assms(3) by (simp add: s_def k_def)
  have d: "dst' = (cstr dst @ s) @ 0 # drop (k + length (s @ [0])) dst"
    using eq(1) cstr_take [of dst] by (simp add: blit_def k_def)
  show "cstr dst' = take (n - 1) (cstr dst @ cstr src)"
    unfolding t by (subst d) (rule cstr_terminated [OF nz])
  show "length dst' = length dst" using eq(1) assms(2,3) by (auto simp: s_def k_def)
qed

text \<open>
  The unchecked sum in the allocator: a request within eight bytes of \<open>SIZE_MAX\<close> is
  answered with a block that is too short for it.
\<close>

lemma OPENSSL_malloc_wraps:
  assumes "can_alloc e 4"
  shows "OPENSSL_malloc e (2 ^ 64 - 4) = Some []"
  using assms by (simp add: OPENSSL_malloc_def OPENSSL_MALLOC_PREFIX_def size_add_def)

end
