(* ===== verification/DER_Spec.thy ===== *)
theory DER_Spec
  imports Prelude
begin

text \<open>
  The abstract specification that the reader and the builder of ASN.1 elements share:
  the identifier octets, the length octets and the whole of a definite-length DER
  element (ITU-T X.690, 8.1 and 10.1), as functions from values to byte strings.
\<close>

section \<open>Base 128\<close>

fun b128_hi :: "nat \<Rightarrow> bytes" where
  "b128_hi n = (if n = 0 then [] else b128_hi (n div 128) @ [of_nat (128 + n mod 128)])"

declare b128_hi.simps [simp del]

lemma b128_hi_0 [simp]: "b128_hi 0 = []"
  by (simp add: b128_hi.simps)

lemma b128_hi_step: "0 < n \<Longrightarrow> b128_hi n = b128_hi (n div 128) @ [of_nat (128 + n mod 128)]"
  by (subst b128_hi.simps) simp

definition base128 :: "nat \<Rightarrow> bytes" where
  "base128 n = b128_hi (n div 128) @ [of_nat (n mod 128)]"

lemma base128_nonempty [simp]: "base128 n \<noteq> []"
  by (simp add: base128_def)

section \<open>Identifier and length octets\<close>

text \<open>
  A tag in memory is a 32-bit word: class and constructed bits on top, a tag number of 29
  bits below (\<open>CBS_ASN1_TAG_SHIFT\<close> is 24).
\<close>

definition CBS_ASN1_TAG_SHIFT :: nat where
  "CBS_ASN1_TAG_SHIFT = 24"

definition CBS_ASN1_TAG_NUMBER_MASK :: u32 where
  "CBS_ASN1_TAG_NUMBER_MASK = 0x1fffffff"

definition CBS_ASN1_CONSTRUCTED :: u32 where
  "CBS_ASN1_CONSTRUCTED = 0x20000000"

definition CBS_ASN1_BOOLEAN :: u32 where "CBS_ASN1_BOOLEAN = 0x1"
definition CBS_ASN1_INTEGER :: u32 where "CBS_ASN1_INTEGER = 0x2"
definition CBS_ASN1_OCTETSTRING :: u32 where "CBS_ASN1_OCTETSTRING = 0x4"

definition der_tag :: "u32 \<Rightarrow> bytes" where
  "der_tag t =
     (let cls = ucast (drop_bit 24 t) AND 0xe0 :: u8; num = unat t mod 2 ^ 29 in
      if num < 31 then [cls OR of_nat num] else (cls OR 0x1f) # base128 num)"

definition der_len :: "nat \<Rightarrow> bytes" where
  "der_len n =
     (if n < 128 then [of_nat n]
      else if n < 256 then 0x81 # be_bytes 1 n
      else if n < 65536 then 0x82 # be_bytes 2 n
      else if n < 16777216 then 0x83 # be_bytes 3 n
      else 0x84 # be_bytes 4 n)"

definition der_header :: "u32 \<Rightarrow> nat \<Rightarrow> bytes" where
  "der_header t n = der_tag t @ der_len n"

definition der_elem :: "u32 \<Rightarrow> bytes \<Rightarrow> bytes" where
  "der_elem t body = der_header t (length body) @ body"

lemma length_der_elem: "length (der_elem t body) = length (der_header t (length body)) + length body"
  by (simp add: der_elem_def)

lemma der_tag_nonempty [simp]: "der_tag t \<noteq> []"
  by (simp add: der_tag_def Let_def)

lemma der_len_nonempty [simp]: "der_len n \<noteq> []"
  by (simp add: der_len_def)

section \<open>Contents octets\<close>

text \<open>
  The contents of a non-negative DER INTEGER (X.690, 8.3): big-endian two's complement in
  the least number of octets.  \<open>der_uint_ok\<close> recognises them, \<open>der_uint\<close> produces them.
\<close>

definition der_uint_ok :: "bytes \<Rightarrow> bool" where
  "der_uint_ok bs \<longleftrightarrow> bs \<noteq> [] \<and> unat (bs ! 0) < 128
     \<and> \<not> (bs ! 0 = 0 \<and> 1 < length bs \<and> unat (bs ! 1) < 128)"

fun min_bytes :: "nat \<Rightarrow> bytes" where
  "min_bytes n = (if n = 0 then [] else min_bytes (n div 256) @ [of_nat n])"

declare min_bytes.simps [simp del]

lemma min_bytes_0 [simp]: "min_bytes 0 = []"
  by (simp add: min_bytes.simps)

lemma min_bytes_step: "0 < n \<Longrightarrow> min_bytes n = min_bytes (n div 256) @ [of_nat n]"
  by (subst min_bytes.simps) simp

definition der_uint :: "nat \<Rightarrow> bytes" where
  "der_uint n =
     (if n = 0 then [0]
      else let m = min_bytes n in if 128 \<le> unat (hd m) then 0 # m else m)"

section \<open>Minimal integers\<close>

lemma be_val_min_bytes: "be_val (min_bytes n) = n"
proof (induction n rule: min_bytes.induct)
  case (1 n)
  show ?case
  proof (cases "n = 0")
    case False
    have "unat (of_nat n :: u8) = n mod 256" by (simp add: unat_of_nat)
    with 1 False show ?thesis by (simp add: min_bytes_step)
  qed simp
qed

lemma min_bytes_nonempty: "0 < n \<Longrightarrow> min_bytes n \<noteq> []"
  by (simp add: min_bytes_step)

lemma hd_min_bytes: "0 < n \<Longrightarrow> hd (min_bytes n) \<noteq> 0"
proof (induction n rule: min_bytes.induct)
  case (1 n)
  show ?case
  proof (cases "n div 256 = 0")
    case True
    then have "n < 256" by (simp add: div_eq_0_iff)
    then have "unat (of_nat n :: u8) = n" by (simp add: unat_of_nat)
    with "1.prems" True show ?thesis by (auto simp: min_bytes_step word_unat_eq_iff)
  next
    case False
    with 1 show ?thesis by (simp add: min_bytes_step [of n] min_bytes_nonempty)
  qed
qed

text \<open>A string without leading zeros is the minimal one of its value.\<close>

lemma min_bytes_be_val: "bs = [] \<or> hd bs \<noteq> 0 \<Longrightarrow> min_bytes (be_val bs) = bs"
proof (induction bs rule: rev_induct)
  case (snoc b bs)
  have div: "(256 * be_val bs + unat b) div 256 = be_val bs" using unat_u8_lt [of b] by simp
  have of: "(of_nat (256 * be_val bs + unat b) :: u8) = b"
    unfolding word_unat_eq_iff unat_of_nat using unat_u8_lt [of b] by simp
  have pos: "0 < 256 * be_val bs + unat b"
    using snoc.prems be_val_pos [of "bs @ [b]"] by simp
  have "min_bytes (be_val bs) = bs" using snoc by (cases bs) auto
  then show ?case using min_bytes_step [OF pos] by (simp only: be_val_snoc div of)
qed simp

lemma der_uint_of_val: "der_uint_ok bs \<Longrightarrow> der_uint (be_val bs) = bs"
proof -
  assume ok: "der_uint_ok bs"
  then obtain b r where bs: "bs = b # r" by (cases bs) (auto simp: der_uint_ok_def)
  show "der_uint (be_val bs) = bs"
  proof (cases "b = 0")
    case False
    then have "min_bytes (be_val bs) = bs" using bs by (intro min_bytes_be_val) simp
    moreover have "0 < be_val bs" using False bs by (intro be_val_pos) simp_all
    ultimately show ?thesis using ok bs by (simp add: der_uint_def der_uint_ok_def)
  next
    case True
    have v: "be_val bs = be_val r" using True bs by (simp add: be_val_Cons)
    show ?thesis
    proof (cases r)
      case Nil
      then show ?thesis using True bs by (simp add: der_uint_def be_val_Cons)
    next
      case (Cons b' r')
      with ok True bs have hi: "128 \<le> unat b'" by (auto simp: der_uint_ok_def)
      then have "b' \<noteq> 0" by auto
      then have m: "min_bytes (be_val r) = r" using Cons by (intro min_bytes_be_val) simp
      then have "0 < be_val r" using Cons \<open>b' \<noteq> 0\<close> by (intro be_val_pos) simp_all
      with m hi Cons True bs show ?thesis
        unfolding der_uint_def v by (simp add: Let_def)
    qed
  qed
qed

lemma der_uint_val: "be_val (der_uint n) = n"
  using be_val_min_bytes [of n] by (auto simp: der_uint_def Let_def be_val_Cons)

lemma der_uint_is_ok: "der_uint_ok (der_uint n)"
proof (cases "n = 0")
  case False
  then obtain b r where m: "min_bytes n = b # r" using min_bytes_nonempty [of n] by (cases "min_bytes n") auto
  moreover have "b \<noteq> 0" using hd_min_bytes [of n] False m by simp
  ultimately show ?thesis using False by (auto simp: der_uint_def der_uint_ok_def Let_def)
qed (simp add: der_uint_def der_uint_ok_def)

lemma length_min_bytes: "n < 256 ^ k \<Longrightarrow> length (min_bytes n) \<le> k"
proof (induction n arbitrary: k rule: min_bytes.induct)
  case (1 n)
  show ?case
  proof (cases "n = 0")
    case False
    then obtain j where k: "k = Suc j" using "1.prems" by (cases k) auto
    then have "n div 256 < 256 ^ j" using "1.prems" by (simp add: less_mult_imp_div_less mult.commute)
    then have "length (min_bytes (n div 256)) \<le> j" using "1.IH" False by blast
    then show ?thesis using min_bytes_step [of n] False k by simp
  qed simp
qed

lemma length_der_uint: "n < 2 ^ 64 \<Longrightarrow> length (der_uint n) \<le> 9"
  using length_min_bytes [of n 8] by (auto simp: der_uint_def Let_def)

end
