(* ===== verification/CBB.thy ===== *)
theory CBB
  imports Mem DER_Spec
begin

text \<open>
  The byte-string builder of \<open>crypto/bytestring/cbb.c\<close>: the buffer, the pending length
  prefixes and the operations that append to it.

  In C, a top-level \<open>CBB\<close> and the chain of its \<open>child\<close> pointers share one buffer.  Here
  they are one state: the buffer (\<open>None\<close> is a null \<open>base\<close>) and the list of the children,
  outermost first.  A handle is the depth of a \<open>CBB\<close> in the chain: 0 is the top level,
  \<open>d + 1\<close> the child of depth \<open>d\<close>.  A depth beyond the chain is a \<open>CBB\<close> whose \<open>base\<close> was
  set to null when its parent was flushed.  Every operation returns the C result and the
  new state.
\<close>

section \<open>State\<close>

record cbb_buffer =
  b_buf :: bytes
  b_len :: nat
  b_cap :: nat
  b_can_resize :: bool
  b_error :: bool

record cbb_frame =
  f_offset :: nat
  f_pending_len_len :: nat
  f_pending_is_asn1 :: bool

record cbb =
  cbb_base :: "cbb_buffer option"
  cbb_chain :: "cbb_frame list"

section \<open>The buffer\<close>

definition CBB_zero :: cbb where
  "CBB_zero = \<lparr>cbb_base = None, cbb_chain = []\<rparr>"

text \<open>The buffer's header, \<open>struct cbb_buffer_st\<close>, is 32 bytes long on the 64-bit targets.\<close>

definition cbb_init :: "heap_env \<Rightarrow> bytes \<Rightarrow> nat \<Rightarrow> bool \<Rightarrow> cbb option" where
  "cbb_init e buf cap can_resize =
     (case OPENSSL_malloc e 32 of
        None \<Rightarrow> None
      | Some _ \<Rightarrow> Some \<lparr>cbb_base = Some \<lparr>b_buf = buf, b_len = 0, b_cap = cap,
                       b_can_resize = can_resize, b_error = False\<rparr>, cbb_chain = []\<rparr>)"

text \<open>A null buffer of capacity zero is the empty list.\<close>

definition CBB_init :: "heap_env \<Rightarrow> nat \<Rightarrow> bool \<times> cbb" where
  "CBB_init e initial_capacity =
     (case OPENSSL_malloc e initial_capacity of
        None \<Rightarrow>
          if initial_capacity > 0 then (False, CBB_zero)
          else (case cbb_init e [] 0 True of None \<Rightarrow> (False, CBB_zero) | Some s \<Rightarrow> (True, s))
      | Some buf \<Rightarrow>
          (case cbb_init e buf initial_capacity True of
             None \<Rightarrow> (False, CBB_zero) | Some s \<Rightarrow> (True, s)))"

definition CBB_init_fixed :: "heap_env \<Rightarrow> bytes \<Rightarrow> nat \<Rightarrow> bool \<times> cbb" where
  "CBB_init_fixed e buf n =
     (case cbb_init e buf n False of None \<Rightarrow> (False, CBB_zero) | Some s \<Rightarrow> (True, s))"

definition CBB_cleanup :: "cbb \<Rightarrow> cbb" where
  "CBB_cleanup s = s\<lparr>cbb_base := None\<rparr>"

text \<open>
  \<open>Some off\<close> is success with \<open>*out = base->buf + off\<close>; failure sets the sticky error.
\<close>

definition cbb_buffer_reserve :: "heap_env \<Rightarrow> cbb_buffer \<Rightarrow> nat \<Rightarrow> nat option \<times> cbb_buffer" where
  "cbb_buffer_reserve e base n =
     (let newlen = size_add (b_len base) n; err = (None, base\<lparr>b_error := True\<rparr>) in
      if newlen < b_len base then err
      else if newlen > b_cap base then
        let newcap = size_mul (b_cap base) 2 in
        if \<not> b_can_resize base then err
        else
          let newcap = (if newcap < b_cap base \<or> newcap < newlen then newlen else newcap) in
          (case OPENSSL_realloc e (Some (b_buf base)) newcap of
             None \<Rightarrow> err
           | Some newbuf \<Rightarrow> (Some (b_len base), base\<lparr>b_buf := newbuf, b_cap := newcap\<rparr>))
      else (Some (b_len base), base))"

definition cbb_buffer_add :: "heap_env \<Rightarrow> cbb_buffer \<Rightarrow> nat \<Rightarrow> nat option \<times> cbb_buffer" where
  "cbb_buffer_add e base n =
     (case cbb_buffer_reserve e base n of
        (None, b) \<Rightarrow> (None, b)
      | (Some off, b) \<Rightarrow> (Some off, b\<lparr>b_len := b_len b + n\<rparr>))"

fun add_u_loop :: "bytes \<Rightarrow> nat \<Rightarrow> nat \<Rightarrow> u32 \<Rightarrow> bytes \<times> u32" where
  "add_u_loop buf off 0 v = (buf, v)"
| "add_u_loop buf off (Suc i) v = add_u_loop (buf[off + i := ucast v]) off i (drop_bit 8 v)"

definition cbb_buffer_add_u :: "heap_env \<Rightarrow> cbb_buffer \<Rightarrow> u32 \<Rightarrow> nat \<Rightarrow> bool \<times> cbb_buffer" where
  "cbb_buffer_add_u e base v len_len =
     (if len_len = 0 then (True, base)
      else case cbb_buffer_add e base len_len of
        (None, b) \<Rightarrow> (False, b)
      | (Some off, b) \<Rightarrow>
          (case add_u_loop (b_buf b) off len_len v of
             (buf, v) \<Rightarrow>
               if v \<noteq> 0 then (False, b\<lparr>b_buf := buf, b_error := True\<rparr>)
               else (True, b\<lparr>b_buf := buf\<rparr>)))"

text \<open>
  The short-circuit sequence \<open>if (!f(...) || !g(...)) return 0\<close> of the operations on a
  builder: the second runs when the first has returned one.
\<close>

definition and_then :: "bool \<times> cbb \<Rightarrow> (cbb \<Rightarrow> bool \<times> cbb) \<Rightarrow> bool \<times> cbb" where
  "and_then r f = (case r of (False, s) \<Rightarrow> (False, s) | (True, s) \<Rightarrow> f s)"

section \<open>Flushing\<close>

text \<open>The length octets that an ASN.1 child needs: how many, and the first of them.\<close>

definition asn1_len_len :: "nat \<Rightarrow> (nat \<times> u8) option" where
  "asn1_len_len n =
     (if n > 0xfffffffe then None
      else if n > 0xffffff then Some (5, 0x80 OR 4)
      else if n > 0xffff then Some (4, 0x80 OR 3)
      else if n > 0xff then Some (3, 0x80 OR 2)
      else if n > 0x7f then Some (2, 0x80 OR 1)
      else Some (1, of_nat n))"

definition memmove_in :: "bytes \<Rightarrow> nat \<Rightarrow> nat \<Rightarrow> nat \<Rightarrow> bytes" where
  "memmove_in buf dst src n = blit buf dst (take n (drop src buf))"

fun put_len_loop :: "bytes \<Rightarrow> nat \<Rightarrow> nat \<Rightarrow> nat \<Rightarrow> bytes \<times> nat" where
  "put_len_loop buf off 0 n = (buf, n)"
| "put_len_loop buf off (Suc i) n = put_len_loop (buf[off + i := of_nat n]) off i (n div 256)"

text \<open>
  The part of \<open>CBB_flush\<close> after its own recursive call: writing the prefix of the child
  \<open>c\<close> whose contents start at \<open>child_start\<close>.  The code moves the offset of an ASN.1 child past the
  first length octet before it writes the others; the caller drops the child after that, since the
  octets always hold the length (\<open>asn1_len_written\<close> in \<open>CBB_Correct\<close>), so no changed offset is ever seen.
\<close>

definition flush_child :: "heap_env \<Rightarrow> cbb_buffer \<Rightarrow> cbb_frame \<Rightarrow> nat \<Rightarrow> bool \<times> cbb_buffer" where
  "flush_child e base c child_start =
     (let n = b_len base - child_start in
      if f_pending_is_asn1 c then
        (case asn1_len_len n of
           None \<Rightarrow> (False, base\<lparr>b_error := True\<rparr>)
         | Some (len_len, initial_length_byte) \<Rightarrow>
             let n' = (if len_len = 1 then 0 else n) in
             (case (if len_len \<noteq> 1 then
                      (case cbb_buffer_add e base (len_len - 1) of
                         (None, b) \<Rightarrow> (False, b)
                       | (Some _, b) \<Rightarrow>
                           (True, b\<lparr>b_buf := memmove_in (b_buf b) (child_start + (len_len - 1)) child_start n'\<rparr>))
                    else (True, base)) of
                (False, b) \<Rightarrow> (False, b\<lparr>b_error := True\<rparr>)
              | (True, b) \<Rightarrow>
                  (case put_len_loop ((b_buf b)[f_offset c := initial_length_byte])
                          (f_offset c + 1) (len_len - 1) n' of
                     (buf, r) \<Rightarrow>
                       if r \<noteq> 0 then (False, b\<lparr>b_buf := buf, b_error := True\<rparr>)
                       else (True, b\<lparr>b_buf := buf\<rparr>))))
      else
        (case put_len_loop (b_buf base) (f_offset c) (f_pending_len_len c) n of
           (buf, r) \<Rightarrow>
             if r \<noteq> 0 then (False, base\<lparr>b_buf := buf, b_error := True\<rparr>)
             else (True, base\<lparr>b_buf := buf\<rparr>)))"

text \<open>\<open>flush_frames\<close> is \<open>CBB_flush\<close> of a \<open>CBB\<close> with a live base and the given children.\<close>

fun flush_frames :: "heap_env \<Rightarrow> cbb_buffer \<Rightarrow> cbb_frame list \<Rightarrow> bool \<times> cbb_buffer \<times> cbb_frame list" where
  "flush_frames e base [] = (\<not> b_error base, base, [])"
| "flush_frames e base (c # cs) =
     (if b_error base then (False, base, c # cs)
      else if f_pending_len_len c = 0 then (True, base, c # cs)
      else
        let child_start = size_add (f_offset c) (f_pending_len_len c) in
        (case flush_frames e base cs of
           (ok, base, cs) \<Rightarrow>
             if \<not> ok \<or> child_start < f_offset c \<or> b_len base < child_start
             then (False, base\<lparr>b_error := True\<rparr>, c # cs)
             else (case flush_child e base c child_start of
                     (True, base) \<Rightarrow> (True, base, [])
                   | (False, base) \<Rightarrow> (False, base, c # cs))))"

definition CBB_flush :: "heap_env \<Rightarrow> nat \<Rightarrow> cbb \<Rightarrow> bool \<times> cbb" where
  "CBB_flush e d s =
     (case cbb_base s of
        None \<Rightarrow> (False, s)
      | Some b \<Rightarrow>
          if length (cbb_chain s) < d then (False, s)
          else (case flush_frames e b (drop d (cbb_chain s)) of
                  (ok, b, fs) \<Rightarrow> (ok, s\<lparr>cbb_base := Some b, cbb_chain := take d (cbb_chain s) @ fs\<rparr>)))"

section \<open>Appending\<close>

text \<open>
  A write to the buffer after a successful flush; \<open>f\<close> is the buffer operation.
\<close>

definition flush_then :: "heap_env \<Rightarrow> nat \<Rightarrow> cbb \<Rightarrow> (cbb_buffer \<Rightarrow> bool \<times> cbb_buffer) \<Rightarrow> bool \<times> cbb" where
  "flush_then e d s f =
     (case CBB_flush e d s of
        (False, s) \<Rightarrow> (False, s)
      | (True, s) \<Rightarrow>
          (case cbb_base s of
             None \<Rightarrow> (False, s)
           | Some b \<Rightarrow> (case f b of (ok, b) \<Rightarrow> (ok, s\<lparr>cbb_base := Some b\<rparr>))))"

definition CBB_add_bytes :: "heap_env \<Rightarrow> nat \<Rightarrow> cbb \<Rightarrow> bytes \<Rightarrow> nat \<Rightarrow> bool \<times> cbb" where
  "CBB_add_bytes e d s data n =
     flush_then e d s (\<lambda>b. case cbb_buffer_add e b n of
        (None, b) \<Rightarrow> (False, b)
      | (Some dest, b) \<Rightarrow> (True, b\<lparr>b_buf := blit (b_buf b) dest (take n data)\<rparr>))"

definition CBB_add_space :: "heap_env \<Rightarrow> nat \<Rightarrow> cbb \<Rightarrow> nat \<Rightarrow> nat option \<times> cbb" where
  "CBB_add_space e d s n =
     (case CBB_flush e d s of
        (False, s) \<Rightarrow> (None, s)
      | (True, s) \<Rightarrow>
          (case cbb_base s of
             None \<Rightarrow> (None, s)
           | Some b \<Rightarrow> (case cbb_buffer_add e b n of (out, b) \<Rightarrow> (out, s\<lparr>cbb_base := Some b\<rparr>))))"

definition CBB_reserve :: "heap_env \<Rightarrow> nat \<Rightarrow> cbb \<Rightarrow> nat \<Rightarrow> nat option \<times> cbb" where
  "CBB_reserve e d s n =
     (case CBB_flush e d s of
        (False, s) \<Rightarrow> (None, s)
      | (True, s) \<Rightarrow>
          (case cbb_base s of
             None \<Rightarrow> (None, s)
           | Some b \<Rightarrow> (case cbb_buffer_reserve e b n of (out, b) \<Rightarrow> (out, s\<lparr>cbb_base := Some b\<rparr>))))"

text \<open>\<open>None\<close> is the dereference of a null \<open>base\<close>, which the code does not test here.\<close>

definition CBB_did_write :: "nat \<Rightarrow> cbb \<Rightarrow> nat \<Rightarrow> (bool \<times> cbb) option" where
  "CBB_did_write d s n =
     (if length (cbb_chain s) < d then None
      else case cbb_base s of
        None \<Rightarrow> None
      | Some b \<Rightarrow>
          let newlen = size_add (b_len b) n in
          if d < length (cbb_chain s) \<or> newlen < b_len b \<or> newlen > b_cap b then Some (False, s)
          else Some (True, s\<lparr>cbb_base := Some (b\<lparr>b_len := newlen\<rparr>)\<rparr>))"

definition CBB_add_u8 :: "heap_env \<Rightarrow> nat \<Rightarrow> cbb \<Rightarrow> u8 \<Rightarrow> bool \<times> cbb" where
  "CBB_add_u8 e d s v = flush_then e d s (\<lambda>b. cbb_buffer_add_u e b (ucast v) 1)"

definition CBB_add_u16 :: "heap_env \<Rightarrow> nat \<Rightarrow> cbb \<Rightarrow> u16 \<Rightarrow> bool \<times> cbb" where
  "CBB_add_u16 e d s v = flush_then e d s (\<lambda>b. cbb_buffer_add_u e b (ucast v) 2)"

definition CBB_add_u24 :: "heap_env \<Rightarrow> nat \<Rightarrow> cbb \<Rightarrow> u32 \<Rightarrow> bool \<times> cbb" where
  "CBB_add_u24 e d s v = flush_then e d s (\<lambda>b. cbb_buffer_add_u e b v 3)"

definition CBB_add_u32 :: "heap_env \<Rightarrow> nat \<Rightarrow> cbb \<Rightarrow> u32 \<Rightarrow> bool \<times> cbb" where
  "CBB_add_u32 e d s v = flush_then e d s (\<lambda>b. cbb_buffer_add_u e b v 4)"

section \<open>Children\<close>

definition push_child :: "nat \<Rightarrow> cbb \<Rightarrow> cbb_frame \<Rightarrow> cbb" where
  "push_child d s c = s\<lparr>cbb_chain := take d (cbb_chain s) @ [c]\<rparr>"

definition cbb_add_length_prefixed :: "heap_env \<Rightarrow> nat \<Rightarrow> cbb \<Rightarrow> nat \<Rightarrow> bool \<times> cbb" where
  "cbb_add_length_prefixed e d s len_len =
     (case CBB_flush e d s of
        (False, s) \<Rightarrow> (False, s)
      | (True, s) \<Rightarrow>
          (case cbb_base s of
             None \<Rightarrow> (False, s)
           | Some b \<Rightarrow>
               let offset = b_len b in
               (case cbb_buffer_add e b len_len of
                  (None, b) \<Rightarrow> (False, s\<lparr>cbb_base := Some b\<rparr>)
                | (Some prefix_bytes, b) \<Rightarrow>
                    (True, push_child d
                       (s\<lparr>cbb_base := Some (b\<lparr>b_buf := blit (b_buf b) prefix_bytes (replicate len_len 0)\<rparr>)\<rparr>)
                       \<lparr>f_offset = offset, f_pending_len_len = len_len, f_pending_is_asn1 = False\<rparr>))))"

definition CBB_add_u8_length_prefixed :: "heap_env \<Rightarrow> nat \<Rightarrow> cbb \<Rightarrow> bool \<times> cbb" where
  "CBB_add_u8_length_prefixed e d s = cbb_add_length_prefixed e d s 1"

definition CBB_add_u16_length_prefixed :: "heap_env \<Rightarrow> nat \<Rightarrow> cbb \<Rightarrow> bool \<times> cbb" where
  "CBB_add_u16_length_prefixed e d s = cbb_add_length_prefixed e d s 2"

definition CBB_add_u24_length_prefixed :: "heap_env \<Rightarrow> nat \<Rightarrow> cbb \<Rightarrow> bool \<times> cbb" where
  "CBB_add_u24_length_prefixed e d s = cbb_add_length_prefixed e d s 3"

definition CBB_discard_child :: "nat \<Rightarrow> cbb \<Rightarrow> cbb" where
  "CBB_discard_child d s =
     (case drop d (cbb_chain s) of
        [] \<Rightarrow> s
      | c # _ \<Rightarrow> s\<lparr>cbb_base := map_option (\<lambda>b. b\<lparr>b_len := f_offset c\<rparr>) (cbb_base s),
                     cbb_chain := take d (cbb_chain s)\<rparr>)"

text \<open>
  Where the contents of the \<open>CBB\<close> at depth \<open>d\<close> start: its offset plus its pending
  length prefix, both zero at the top level.
\<close>

definition cbb_start :: "nat \<Rightarrow> cbb \<Rightarrow> nat" where
  "cbb_start d s =
     (case d of 0 \<Rightarrow> 0
      | Suc i \<Rightarrow> f_offset (cbb_chain s ! i) + f_pending_len_len (cbb_chain s ! i))"

text \<open>Both queries assert that there is no child; a failed assertion is \<open>None\<close>.\<close>

definition CBB_data :: "nat \<Rightarrow> cbb \<Rightarrow> bytes option" where
  "CBB_data d s =
     (case cbb_base s of
        None \<Rightarrow> None
      | Some b \<Rightarrow> if length (cbb_chain s) \<noteq> d then None else Some (drop (cbb_start d s) (b_buf b)))"

definition CBB_len :: "nat \<Rightarrow> cbb \<Rightarrow> nat option" where
  "CBB_len d s =
     (case cbb_base s of
        None \<Rightarrow> None
      | Some b \<Rightarrow>
          if length (cbb_chain s) \<noteq> d \<or> b_len b < cbb_start d s then None
          else Some (b_len b - cbb_start d s))"

text \<open>
  \<open>want_data\<close> and \<open>want_len\<close> say whether the out-pointers are non-null.  The result is the
  buffer and its length.
\<close>

definition CBB_finish :: "heap_env \<Rightarrow> nat \<Rightarrow> cbb \<Rightarrow> bool \<Rightarrow> bool \<Rightarrow> (bytes \<times> nat) option \<times> cbb" where
  "CBB_finish e d s want_data want_len =
     (if d \<noteq> 0 then (None, s)
      else case CBB_flush e d s of
        (False, s) \<Rightarrow> (None, s)
      | (True, s) \<Rightarrow>
          (case cbb_base s of
             None \<Rightarrow> (None, s)
           | Some b \<Rightarrow>
               if b_can_resize b \<and> (\<not> want_data \<or> \<not> want_len) then (None, s)
               else (Some (b_buf b, b_len b), CBB_cleanup s)))"

end
