(* ===== verification/CBB_Correct.thy ===== *)
theory CBB_Correct
  imports CBB
begin

text \<open>
  What the builder promises: the specification \<open>flushed\<close> of the bytes that a buffer with
  pending prefixes stands for, the invariant, and the refinement of \<open>CBB_flush\<close> and of the
  appending operations.
\<close>

section \<open>Specification\<close>

text \<open>
  The prefix of a child with contents of \<open>n\<close> bytes, and the bytes after all of the given
  children are closed, innermost first.
\<close>

definition len_prefix :: "cbb_frame \<Rightarrow> nat \<Rightarrow> bytes option" where
  "len_prefix f n =
     (if f_pending_is_asn1 f then (if n > 0xfffffffe then None else Some (der_len n))
      else if n < 256 ^ f_pending_len_len f then Some (be_bytes (f_pending_len_len f) n)
      else None)"

fun flushed :: "bytes \<Rightarrow> cbb_frame list \<Rightarrow> bytes option" where
  "flushed bs [] = Some bs"
| "flushed bs (f # fs) =
     (case flushed bs fs of
        None \<Rightarrow> None
      | Some bs \<Rightarrow>
          let body = drop (f_offset f + f_pending_len_len f) bs in
          map_option (\<lambda>h. take (f_offset f) bs @ h @ body) (len_prefix f (length body)))"

section \<open>Invariant\<close>

definition buffer_wf :: "cbb_buffer \<Rightarrow> bool" where
  "buffer_wf b \<longleftrightarrow> b_len b \<le> b_cap b \<and> length (b_buf b) = b_cap b \<and> b_cap b < 2 ^ 62"

definition b_bytes :: "cbb_buffer \<Rightarrow> bytes" where
  "b_bytes b = take (b_len b) (b_buf b)"

definition frame_wf :: "cbb_frame \<Rightarrow> bool" where
  "frame_wf f \<longleftrightarrow> 1 \<le> f_pending_len_len f \<and> f_pending_len_len f \<le> 3
     \<and> (f_pending_is_asn1 f \<longrightarrow> f_pending_len_len f = 1)"

fun frames_wf :: "nat \<Rightarrow> cbb_frame list \<Rightarrow> nat \<Rightarrow> bool" where
  "frames_wf i [] n \<longleftrightarrow> i \<le> n"
| "frames_wf i (f # fs) n \<longleftrightarrow>
     i \<le> f_offset f \<and> frame_wf f \<and> frames_wf (f_offset f + f_pending_len_len f) fs n"

definition cbb_wf :: "cbb \<Rightarrow> bool" where
  "cbb_wf s \<longleftrightarrow>
     (case cbb_base s of
        None \<Rightarrow> True
      | Some b \<Rightarrow> buffer_wf b \<and> (b_error b \<or> frames_wf 0 (cbb_chain s) (b_len b)))"

lemma length_b_bytes [simp]: "buffer_wf b \<Longrightarrow> length (b_bytes b) = b_len b"
  by (simp add: buffer_wf_def b_bytes_def)

lemma frames_wf_le: "frames_wf i fs n \<Longrightarrow> i \<le> n"
  by (induction i fs n rule: frames_wf.induct) auto

lemma frames_wf_mono: "frames_wf i fs n \<Longrightarrow> n \<le> m \<Longrightarrow> frames_wf i fs m"
  by (induction i fs n rule: frames_wf.induct) auto

lemma frames_wf_append:
  "frames_wf i (fs @ gs) n \<longleftrightarrow>
    (case gs of [] \<Rightarrow> frames_wf i fs n
     | g # _ \<Rightarrow> frames_wf i fs (f_offset g) \<and> frames_wf (f_offset g) gs n)"
  by (induction fs arbitrary: i) (auto split: list.splits)

section \<open>The buffer\<close>

lemma reserve_correct:
  assumes "heap_ok e" "buffer_wf b" "n < 2 ^ 62" "cbb_buffer_reserve e b n = (r, b')"
  shows "buffer_wf b'" "b_bytes b' = b_bytes b" "b_len b' = b_len b"
    "b_can_resize b' = b_can_resize b"
    "r = None \<Longrightarrow> b_error b'"
    "r = Some off \<Longrightarrow> off = b_len b \<and> b_len b + n \<le> b_cap b' \<and> b_error b' = b_error b"
proof -
  have small: "b_len b + n < 2 ^ 63" "2 * b_cap b + 8 < 2 ^ 64"
    using assms(2,3) by (auto simp: buffer_wf_def)
  have eqs: "size_add (b_len b) n = b_len b + n" "size_mul (b_cap b) 2 = 2 * b_cap b"
    using small by (simp_all add: size_add_exact size_mul_def)
  have "buffer_wf b' \<and> b_bytes b' = b_bytes b \<and> b_len b' = b_len b \<and> b_can_resize b' = b_can_resize b
    \<and> (r = None \<longrightarrow> b_error b')
    \<and> (r \<noteq> None \<longrightarrow> r = Some (b_len b) \<and> b_len b + n \<le> b_cap b' \<and> b_error b' = b_error b)"
  proof (cases "b_len b + n \<le> b_cap b \<or> r = None")
    case True
    with assms(2,4) show ?thesis
      by (auto simp: cbb_buffer_reserve_def eqs Let_def buffer_wf_def b_bytes_def
          split: if_splits option.splits)
  next
    case False
    define nc where "nc = (if 2 * b_cap b < b_len b + n then b_len b + n else 2 * b_cap b)"
    have nc: "(if 2 * b_cap b < b_cap b \<or> 2 * b_cap b < b_len b + n then b_len b + n else 2 * b_cap b) = nc"
      by (simp add: nc_def)
    have le: "\<not> b_len b + n < b_len b" "b_cap b < b_len b + n" using False by simp_all
    have "cbb_buffer_reserve e b n = (r, b') \<longleftrightarrow>
      (if \<not> b_can_resize b then (None, b\<lparr>b_error := True\<rparr>)
       else case OPENSSL_realloc e (Some (b_buf b)) nc of
             None \<Rightarrow> (None, b\<lparr>b_error := True\<rparr>)
           | Some newbuf \<Rightarrow> (Some (b_len b), b\<lparr>b_buf := newbuf, b_cap := nc\<rparr>)) = (r, b')"
      by (simp only: cbb_buffer_reserve_def eqs Let_def le nc if_True if_False simp_thms)
    with False assms(4) obtain nb where re: "OPENSSL_realloc e (Some (b_buf b)) nc = Some nb"
      and b': "b' = b\<lparr>b_buf := nb, b_cap := nc\<rparr>" "r = Some (b_len b)"
      by (cases "b_can_resize b"; cases "OPENSSL_realloc e (Some (b_buf b)) nc") simp_all
    have lt: "nc + 8 < 2 ^ 64" using small by (simp add: nc_def)
    have ge: "b_len b + n \<le> nc" "b_len b \<le> nc" "b_len b \<le> length (b_buf b)"
      using assms(2) False by (auto simp: nc_def buffer_wf_def)
    show ?thesis
      using OPENSSL_realloc_bound [OF assms(1) re lt] OPENSSL_realloc_length [OF re lt]
        OPENSSL_realloc_keeps [OF re lt ge(3,2)] ge b'
      by (simp add: buffer_wf_def b_bytes_def)
  qed
  then show "buffer_wf b'" "b_bytes b' = b_bytes b" "b_len b' = b_len b"
    "b_can_resize b' = b_can_resize b" "r = None \<Longrightarrow> b_error b'"
    "r = Some off \<Longrightarrow> off = b_len b \<and> b_len b + n \<le> b_cap b' \<and> b_error b' = b_error b"
    by auto
qed

lemma reserve_succeeds:
  assumes "buffer_wf b" "heap_generous e" "b_can_resize b" "b_len b + n \<le> 2 ^ 60"
  shows "\<exists>b'. cbb_buffer_reserve e b n = (Some (b_len b), b')"
proof (cases "b_len b + n \<le> b_cap b")
  case True
  with assms(1,4) show ?thesis by (simp add: cbb_buffer_reserve_def size_add_exact Let_def)
next
  case False
  define nc where "nc = (if 2 * b_cap b < b_len b + n then b_len b + n else 2 * b_cap b)"
  have "nc \<le> 2 ^ 61" using False assms(4) by (simp add: nc_def)
  then have "can_alloc e (size_add nc 8)" "size_add nc 8 = nc + 8"
    using assms(2) by (auto simp: heap_generous_def size_add_exact)
  then obtain nb where nb: "OPENSSL_realloc e (Some (b_buf b)) nc = Some nb"
    by (auto simp: OPENSSL_realloc_def OPENSSL_malloc_def OPENSSL_MALLOC_PREFIX_def Let_def)
  have eqs: "size_add (b_len b) n = b_len b + n" "size_mul (b_cap b) 2 = 2 * b_cap b"
    using assms(1,4) by (simp_all add: size_add_exact size_mul_def buffer_wf_def)
  show ?thesis
    using False assms(3) nb unfolding nc_def
    by (auto simp: cbb_buffer_reserve_def eqs Let_def split: if_splits)
qed

lemma buffer_add_correct:
  assumes "heap_ok e" "buffer_wf b" "n < 2 ^ 62" "cbb_buffer_add e b n = (r, b')"
  shows "buffer_wf b'" "b_can_resize b' = b_can_resize b"
    "r = None \<Longrightarrow> b_error b'"
    "r = Some off \<Longrightarrow> off = b_len b \<and> b_len b' = b_len b + n \<and> take (b_len b) (b_buf b') = b_bytes b
      \<and> b_error b' = b_error b"
proof -
  obtain r1 b1 where res: "cbb_buffer_reserve e b n = (r1, b1)"
    by (cases "cbb_buffer_reserve e b n")
  note c = reserve_correct [OF assms(1,2,3) res]
  have d: "r = r1" "r1 = None \<Longrightarrow> b' = b1" "r1 \<noteq> None \<Longrightarrow> b' = b1\<lparr>b_len := b_len b1 + n\<rparr>"
    using assms(4) res by (auto simp: cbb_buffer_add_def split: option.splits)
  show "buffer_wf b'"
    using c(1,3) c(6) d by (cases r1) (auto simp: buffer_wf_def)
  show "b_can_resize b' = b_can_resize b" using c(4) d by (cases r1) auto
  show "r = None \<Longrightarrow> b_error b'" using c(5) d by auto
  assume r: "r = Some off"
  have "take (b_len b) (b_buf b') = b_bytes b1" using r d c(3) by (simp add: b_bytes_def)
  with r c d show "off = b_len b \<and> b_len b' = b_len b + n \<and> take (b_len b) (b_buf b') = b_bytes b
      \<and> b_error b' = b_error b" by auto
qed

lemma buffer_add_succeeds:
  assumes "buffer_wf b" "heap_generous e" "b_can_resize b" "b_len b + n \<le> 2 ^ 60"
  shows "\<exists>b'. cbb_buffer_add e b n = (Some (b_len b), b')"
  using reserve_succeeds [OF assms] by (auto simp: cbb_buffer_add_def)

lemma add_u_loop_eq:
  "off + k \<le> length buf \<Longrightarrow>
    add_u_loop buf off k v = (blit buf off (be_bytes k (unat v)), drop_bit (8 * k) v)"
proof (induction buf off k v rule: add_u_loop.induct)
  case (2 buf off i v)
  have "(ucast v :: u8) = of_nat (unat v)" by simp
  with 2 blit_snoc [of off "be_bytes i (unat v div 256)" buf "ucast v"] show ?case
    by (simp add: unat_drop_bit add.commute del: of_nat_unat)
qed simp

lemma put_len_loop_eq:
  "off + k \<le> length buf \<Longrightarrow>
    put_len_loop buf off k n = (blit buf off (be_bytes k n), n div 256 ^ k)"
proof (induction buf off k n rule: put_len_loop.induct)
  case (2 buf off i n)
  with blit_snoc [of off "be_bytes i (n div 256)" buf "of_nat n"] show ?case
    by (simp add: div_mult2_eq)
qed simp

lemma be_bytes_add_u: "drop_bit (8 * k) (v :: u32) = 0 \<longleftrightarrow> unat v < 256 ^ k"
proof -
  have "2 ^ (8 * k) = (256 :: nat) ^ k" using pow_256 [of k] by (simp add: mult.commute)
  then show ?thesis by (simp add: word_unat_eq_iff unat_drop_bit div_eq_0_iff)
qed

lemma buffer_add_u_correct:
  assumes "heap_ok e" "buffer_wf b" "k < 2 ^ 62" "cbb_buffer_add_u e b v k = (ok, b')" "0 < k"
  shows "buffer_wf b'" "b_can_resize b' = b_can_resize b" "\<not> ok \<Longrightarrow> b_error b'"
    "ok \<Longrightarrow> b_bytes b' = b_bytes b @ be_bytes k (unat v) \<and> b_error b' = b_error b \<and> unat v < 256 ^ k"
proof -
  obtain r b1 where add: "cbb_buffer_add e b k = (r, b1)" by (cases "cbb_buffer_add e b k")
  note c = buffer_add_correct [OF assms(1-3) add]
  have "buffer_wf b' \<and> b_can_resize b' = b_can_resize b \<and> (\<not> ok \<longrightarrow> b_error b')
    \<and> (ok \<longrightarrow> b_bytes b' = b_bytes b @ be_bytes k (unat v) \<and> b_error b' = b_error b \<and> unat v < 256 ^ k)"
  proof (cases r)
    case None
    with c assms(4,5) add show ?thesis by (auto simp: cbb_buffer_add_u_def)
  next
    case (Some off)
    have room: "off + k \<le> length (b_buf b1)" "b_len b + k \<le> length (b_buf b1)" "b_len b1 = off + k"
      "off = b_len b"
      using c(1) c(4) [OF Some] by (auto simp: buffer_wf_def)
    have "take (b_len b1) (blit (b_buf b1) off (be_bytes k (unat v))) = b_bytes b @ be_bytes k (unat v)"
      using c(4) [OF Some] room take_blit_end [of off "b_buf b1" "be_bytes k (unat v)"] by simp
    moreover have "length (blit (b_buf b1) off (be_bytes k (unat v))) = length (b_buf b1)"
      using room by simp
    moreover have "ok \<longleftrightarrow> unat v < 256 ^ k"
      "b' = (if ok then b1 else b1\<lparr>b_error := True\<rparr>)
         \<lparr>b_buf := blit (b_buf b1) off (be_bytes k (unat v))\<rparr>"
      using assms(4,5) add Some room(1)
      by (auto simp: cbb_buffer_add_u_def add_u_loop_eq be_bytes_add_u split: if_splits)
    ultimately show ?thesis
      using c(1,2) c(4) [OF Some] by (simp add: buffer_wf_def b_bytes_def)
  qed
  then show "buffer_wf b'" "b_can_resize b' = b_can_resize b" "\<not> ok \<Longrightarrow> b_error b'"
    "ok \<Longrightarrow> b_bytes b' = b_bytes b @ be_bytes k (unat v) \<and> b_error b' = b_error b \<and> unat v < 256 ^ k"
    by auto
qed

lemma buffer_add_u_succeeds:
  assumes "heap_ok e" "buffer_wf b" "heap_generous e" "b_can_resize b" "b_len b + k \<le> 2 ^ 60"
    "unat v < 256 ^ k" "0 < k"
  shows "\<exists>b'. cbb_buffer_add_u e b v k = (True, b')"
proof -
  obtain b1 where add: "cbb_buffer_add e b k = (Some (b_len b), b1)"
    using buffer_add_succeeds [OF assms(2-5)] by blast
  have k: "k < 2 ^ 62" using assms(5) by simp
  note c = buffer_add_correct [OF assms(1,2) k add]
  have "b_len b + k \<le> length (b_buf b1)" using c(1) c(4) [OF refl] by (simp add: buffer_wf_def)
  with add assms(6,7) show ?thesis
    by (simp add: cbb_buffer_add_u_def add_u_loop_eq be_bytes_add_u)
qed

section \<open>Closing a child\<close>

lemma asn1_len_len_eq:
  assumes "n \<le> 0xfffffffe"
  obtains ll fb where "asn1_len_len n = Some (ll, fb)" "1 \<le> ll" "ll \<le> 5"
    "der_len n = fb # be_bytes (ll - 1) n" "ll = 1 \<or> n < 256 ^ (ll - 1)"
proof -
  consider "n \<le> 0x7f" | "0x7f < n" "n \<le> 0xff" | "0xff < n" "n \<le> 0xffff"
    | "0xffff < n" "n \<le> 0xffffff" | "0xffffff < n" by linarith
  then show thesis
    using assms that by cases (simp_all add: asn1_len_len_def der_len_def)
qed

lemma asn1_len_len_None: "asn1_len_len n = None \<longleftrightarrow> n > 0xfffffffe"
  by (simp add: asn1_len_len_def)

text \<open>An ASN.1 length always fits its octets: a flush of such a child fails only before it touches the child.\<close>

lemma asn1_len_written:
  assumes "asn1_len_len n = Some (ll, fb)" "off + (ll - 1) \<le> length buf"
  shows "snd (put_len_loop buf off (ll - 1) (if ll = 1 then 0 else n)) = 0"
proof -
  have "\<not> n > 0xfffffffe" using assms(1) asn1_len_len_None [of n] by auto
  then obtain ll' fb' where "asn1_len_len n = Some (ll', fb')" "ll' = 1 \<or> n < 256 ^ (ll' - 1)"
    using asn1_len_len_eq [of n] by (metis not_le)
  with assms show ?thesis by (auto simp: put_len_loop_eq)
qed

definition closes :: "cbb_buffer \<Rightarrow> cbb_frame \<Rightarrow> cbb_buffer \<Rightarrow> bool" where
  "closes b c b' \<longleftrightarrow>
     (\<exists>h. len_prefix c (b_len b - (f_offset c + f_pending_len_len c)) = Some h
        \<and> b_bytes b' = take (f_offset c) (b_bytes b) @ h @ drop (f_offset c + f_pending_len_len c) (b_bytes b))"

lemma flush_child_fixed:
  assumes "buffer_wf b" "frame_wf c" "f_offset c + f_pending_len_len c = m" "m \<le> b_len b"
    and "\<not> f_pending_is_asn1 c" and r: "flush_child e b c m = (ok, b')"
  shows "buffer_wf b' \<and> b_can_resize b' = b_can_resize b
    \<and> (ok \<longleftrightarrow> len_prefix c (b_len b - m) \<noteq> None)
    \<and> (if ok then b_error b' = b_error b \<and> closes b c b' else b_error b')"
proof -
  define k where "k = f_pending_len_len c"
  define n where "n = b_len b - m"
  have room: "f_offset c + k \<le> length (b_buf b)" "f_offset c + k \<le> b_len b" "b_len b \<le> length (b_buf b)"
    using assms(1,3,4) by (auto simp: buffer_wf_def k_def)
  have ok: "ok \<longleftrightarrow> n < 256 ^ k"
    and b': "b' = (if ok then b else b\<lparr>b_error := True\<rparr>)\<lparr>b_buf := blit (b_buf b) (f_offset c) (be_bytes k n)\<rparr>"
    using r assms(5) room(1)
    by (auto simp: flush_child_def k_def n_def put_len_loop_eq div_eq_0_iff Let_def split: if_splits)
  have "take (b_len b) (blit (b_buf b) (f_offset c) (be_bytes k n)) =
    take (f_offset c) (b_bytes b) @ be_bytes k n @ drop (f_offset c + k) (b_bytes b)"
    using take_blit_mid [of "f_offset c" "be_bytes k n" "b_len b" "b_buf b"] room by (simp add: b_bytes_def)
  moreover have "length (blit (b_buf b) (f_offset c) (be_bytes k n)) = length (b_buf b)"
    using room by simp
  moreover have "len_prefix c n = (if n < 256 ^ k then Some (be_bytes k n) else None)"
    using assms(5) by (simp add: len_prefix_def k_def)
  ultimately show ?thesis
    using assms(1,3) ok b' by (simp add: closes_def buffer_wf_def b_bytes_def n_def k_def)
qed

lemma flush_child_asn1_at:
  assumes "buffer_wf b1" "b_len b1 = n + m + l" "length h = Suc l"
    "h = fb # be_bytes l n'" "take (m + n) (b_buf b1) = bs" "Suc i = m"
    and buf: "buf = (if l = 0 then b_buf b1 else memmove_in (b_buf b1) (m + l) m n)"
  shows "length (blit (buf[i := fb]) m (be_bytes l n')) = length (b_buf b1)"
    "take (b_len b1) (blit (buf[i := fb]) m (be_bytes l n')) = take i bs @ h @ drop m bs"
proof -
  have room: "n + m + l \<le> length (b_buf b1)" "i < m" using assms(1,2,6) by (auto simp: buffer_wf_def)
  have body: "take n (drop m (b_buf b1)) = drop m bs" using assms(5) by (auto simp: take_drop add.commute)
  have ln: "length (drop m bs) = n" using assms(5) room by auto
  have bufeq: "buf = blit (b_buf b1) (m + l) (drop m bs)"
  proof (cases "l = 0")
    case True
    have "blit (b_buf b1) m (drop m bs) = take m (b_buf b1) @ take n (drop m (b_buf b1)) @ drop (m + n) (b_buf b1)"
      using ln by (simp add: blit_def body)
    also have "\<dots> = b_buf b1"
      by (metis append_take_drop_id drop_drop add.commute)
    finally show ?thesis using True buf by simp
  qed (use buf body in \<open>simp add: memmove_in_def\<close>)
  have lb: "length buf = length (b_buf b1)" using room ln by (simp add: bufeq)
  have "blit (buf[i := fb]) m (be_bytes l n') = blit buf i h"
  proof -
    have "i < length buf" "m = i + length [fb]" using lb room assms(6) by simp_all
    moreover have "blit (blit buf i [fb]) (i + length [fb]) ys = blit buf i ([fb] @ ys)"
      if "i + length [fb] + length ys \<le> length buf" for ys
      using that by (simp add: blit_def add.commute)
    ultimately show ?thesis using assms(4) room lb by (simp add: blit_one)
  qed
  moreover have "take (m + l + n) (blit buf i h) = take i (b_buf b1) @ h @ drop m bs"
    using take_blit_gap [of i h "m + l" "drop m bs" "b_buf b1"] assms(3,6) room ln by (simp add: bufeq)
  moreover have "take i (b_buf b1) = take i bs" using assms(5) room by auto
  ultimately show "take (b_len b1) (blit (buf[i := fb]) m (be_bytes l n')) = take i bs @ h @ drop m bs"
    "length (blit (buf[i := fb]) m (be_bytes l n')) = length (b_buf b1)"
    using assms(2,3,6) room lb by (simp_all add: add.commute add.left_commute)
qed

lemma flush_child_asn1:
  assumes hp: "heap_ok e" and wf: "buffer_wf b" and fw: "frame_wf c" and m: "Suc (f_offset c) = m" "m \<le> b_len b"
    and a: "f_pending_is_asn1 c" and r: "flush_child e b c m = (ok, b')"
  shows "buffer_wf b' \<and> b_can_resize b' = b_can_resize b
    \<and> (if ok then b_error b' = b_error b \<and> closes b c b' else b_error b')"
proof -
  define n where "n = b_len b - m"
  have one: "f_pending_len_len c = 1" using fw a by (simp add: frame_wf_def)
  show ?thesis
  proof (cases "n > 0xfffffffe")
    case True
    then show ?thesis using r wf a asn1_len_len_None [of n]
      by (auto simp: flush_child_def n_def buffer_wf_def)
  next
    case False
    then obtain ll fb where L: "asn1_len_len n = Some (ll, fb)" "1 \<le> ll" "ll \<le> 5"
      "der_len n = fb # be_bytes (ll - 1) n" "ll = 1 \<or> n < 256 ^ (ll - 1)"
      using asn1_len_len_eq [of n] by (metis not_le)
    define l where "l = ll - 1"
    define n' where "n' = (if ll = 1 then 0 else n)"
    have dl: "der_len n = fb # be_bytes l n'" "n' div 256 ^ l = 0" "l < 2 ^ 62" "l = 0 \<longleftrightarrow> ll = 1"
      using L(2-5) by (auto simp: l_def n'_def)
    have pre: "len_prefix c n = Some (der_len n)" using a False by (simp add: len_prefix_def)
    define add where "add = (if ll \<noteq> 1 then cbb_buffer_add e b l else (Some (b_len b), b))"
    obtain r1 b1 where add_eq: "add = (r1, b1)" by (cases add)
    have A: "buffer_wf b1 \<and> b_can_resize b1 = b_can_resize b \<and> (r1 = None \<longrightarrow> b_error b1)
      \<and> (r1 \<noteq> None \<longrightarrow> b_len b1 = b_len b + l \<and> take (b_len b) (b_buf b1) = b_bytes b \<and> b_error b1 = b_error b)"
    proof (cases "ll = 1")
      case True
      then have "r1 = Some (b_len b)" "b1 = b" "l = 0" using add_eq by (auto simp: add_def l_def)
      then show ?thesis using wf by (simp add: b_bytes_def)
    next
      case False
      then have "cbb_buffer_add e b l = (r1, b1)" using add_eq by (simp add: add_def)
      note c = buffer_add_correct [OF hp wf dl(3) this]
      show ?thesis using c(1-3) c(4) by (cases r1) simp_all
    qed
    define buf where "buf = (if l = 0 then b_buf b1 else memmove_in (b_buf b1) (m + l) m n)"
    have mid: "(if ll \<noteq> 1 then
        (case cbb_buffer_add e b l of (None, b) \<Rightarrow> (False, b)
         | (Some _, b) \<Rightarrow> (True, b\<lparr>b_buf := memmove_in (b_buf b) (m + l) m n'\<rparr>))
        else (True, b)) = (r1 \<noteq> None, if r1 = None then b1 else b1\<lparr>b_buf := buf\<rparr>)"
      using add_eq dl(4) by (auto simp: add_def buf_def n'_def split: option.split)
    have fc: "flush_child e b c m =
      (case (r1 \<noteq> None, if r1 = None then b1 else b1\<lparr>b_buf := buf\<rparr>) of
         (False, b) \<Rightarrow> (False, b\<lparr>b_error := True\<rparr>)
       | (True, b) \<Rightarrow>
           (case put_len_loop ((b_buf b)[f_offset c := fb]) (f_offset c + 1) l n' of
              (buf, r) \<Rightarrow>
                if r \<noteq> 0 then (False, b\<lparr>b_buf := buf, b_error := True\<rparr>)
                else (True, b\<lparr>b_buf := buf\<rparr>)))"
      by (simp only: flush_child_def Let_def a if_True n_def [symmetric] L(1) option.case prod.case
          l_def [symmetric] n'_def [symmetric] mid)
    show ?thesis
    proof (cases r1)
      case None
      then have "ok = False" "b' = b1\<lparr>b_error := True\<rparr>"
        using r fc by simp_all
      then show ?thesis using A by (simp add: buffer_wf_def)
    next
      case (Some off)
      have B: "b_len b1 = n + m + l" "length (der_len n) = Suc l" "take (m + n) (b_buf b1) = b_bytes b"
        using A Some dl(1) m(2) by (simp_all add: n_def)
      note F = flush_child_asn1_at [OF _ B(1,2) dl(1) B(3) m(1) buf_def]
      have room: "m + l \<le> length (buf[f_offset c := fb])"
        using A B(1) by (auto simp: buf_def memmove_in_def buffer_wf_def blit_def)
      have "ok \<and> b' = b1\<lparr>b_buf := blit (buf[f_offset c := fb]) m (be_bytes l n')\<rparr>"
        using r fc Some room m(1) dl(2) by (simp add: put_len_loop_eq)
      moreover have "closes b c (b1\<lparr>b_buf := blit (buf[f_offset c := fb]) m (be_bytes l n')\<rparr>)"
        using F(2) A pre m one by (simp add: closes_def b_bytes_def [of "_\<lparr>b_buf := _\<rparr>"] n_def)
      ultimately show ?thesis using A F(1) Some by (simp add: buffer_wf_def)
    qed
  qed
qed

lemma flush_child_asn1_succeeds:
  assumes "buffer_wf b" "heap_generous e" "b_can_resize b" "b_len b + 4 \<le> 2 ^ 60"
    and "f_pending_is_asn1 c" "Suc (f_offset c) = m" "m \<le> b_len b" "b_len b - m \<le> 0xfffffffe" "heap_ok e"
  shows "fst (flush_child e b c m)"
proof -
  obtain ll fb where L: "asn1_len_len (b_len b - m) = Some (ll, fb)" "1 \<le> ll" "ll \<le> 5"
    "ll = 1 \<or> b_len b - m < 256 ^ (ll - 1)"
    using asn1_len_len_eq [OF assms(8)] by metis
  have sz: "b_len b + (ll - 1) \<le> 2 ^ 60" "ll - 1 < 2 ^ 62" using assms(4) L(3) by simp_all
  obtain b1 where add: "cbb_buffer_add e b (ll - 1) = (Some (b_len b), b1)"
    using buffer_add_succeeds [OF assms(1-3) sz(1)] by blast
  note c = buffer_add_correct [OF assms(9,1) sz(2) add]
  have room: "m + (ll - 1) \<le> length (b_buf b1)" using c(1) c(4) [OF refl] assms(7) by (auto simp: buffer_wf_def)
  show ?thesis
  proof (cases "ll = 1")
    case True
    then show ?thesis using assms(5) L(1) by (simp add: flush_child_def Let_def)
  next
    case False
    have "length (memmove_in (b_buf b1) (m + (ll - 1)) m k) \<ge> length (b_buf b1)" for k
      by (auto simp: memmove_in_def blit_def)
    then have "m + (ll - 1) \<le> length ((memmove_in (b_buf b1) (m + (ll - 1)) m (b_len b - m))[f_offset c := fb])"
      using room by (metis length_list_update le_trans)
    with False L assms(5,6) add show ?thesis
      by (simp add: flush_child_def Let_def put_len_loop_eq)
  qed
qed

section \<open>Refinement of CBB_flush\<close>

lemma length_der_len: "1 \<le> length (der_len n)" "length (der_len n) \<le> 5"
  by (simp_all add: der_len_def)

lemma length_len_prefix:
  assumes "len_prefix f n = Some h" "frame_wf f"
  shows "f_pending_len_len f \<le> length h" "length h \<le> f_pending_len_len f + 4"
  using assms length_der_len [of n] by (auto simp: len_prefix_def frame_wf_def split: if_splits)

lemma flushed_props:
  assumes "flushed bs fs = Some bs'" "frames_wf i fs (length bs)"
  shows "take i bs' = take i bs \<and> length bs \<le> length bs' \<and> length bs' \<le> length bs + 4 * length fs"
  using assms
proof (induction fs arbitrary: bs' i)
  case (Cons f fs)
  define m where "m = f_offset f + f_pending_len_len f"
  obtain bs1 h where fl: "flushed bs fs = Some bs1" and h: "len_prefix f (length (drop m bs1)) = Some h"
    and bs': "bs' = take (f_offset f) bs1 @ h @ drop m bs1"
    using Cons.prems(1) by (auto simp: Let_def m_def split: option.splits)
  have wf: "i \<le> f_offset f" "frame_wf f" "frames_wf m fs (length bs)"
    using Cons.prems(2) by (simp_all add: m_def)
  note ih = Cons.IH [OF fl wf(3)]
  have "m \<le> length bs" using frames_wf_le [OF wf(3)] .
  moreover have "take i bs1 = take i bs"
    using ih wf(1) by (metis m_def le_add1 le_trans min.absorb1 take_take)
  ultimately show ?case
    using ih wf(1) length_len_prefix [OF h wf(2)] by (auto simp: bs' m_def)
qed simp

lemma flush_frames_step:
  assumes "\<not> b_error b" "frame_wf c" "flush_frames e b cs = (ok1, b1, cs1)"
    "f_offset c + f_pending_len_len c < 2 ^ 64"
  shows "flush_frames e b (c # cs) =
    (if \<not> ok1 \<or> b_len b1 < f_offset c + f_pending_len_len c then (False, b1\<lparr>b_error := True\<rparr>, c # cs1)
     else (case flush_child e b1 c (f_offset c + f_pending_len_len c) of
             (True, b2) \<Rightarrow> (True, b2, []) | (False, b2) \<Rightarrow> (False, b2, c # cs1)))"
  using assms by (simp add: size_add_exact frame_wf_def)

lemma flush_child_correct:
  assumes "heap_ok e" "buffer_wf b" "frame_wf c" "f_offset c + f_pending_len_len c \<le> b_len b"
    and "flush_child e b c (f_offset c + f_pending_len_len c) = (ok, b')"
  shows "buffer_wf b' \<and> b_can_resize b' = b_can_resize b
    \<and> (if ok then b_error b' = b_error b \<and> closes b c b' else b_error b')"
proof (cases "f_pending_is_asn1 c")
  case True
  then have "f_pending_len_len c = 1" using assms(3) by (simp add: frame_wf_def)
  with flush_child_asn1 [OF assms(1-3) _ _ True] assms(4,5) show ?thesis by simp
next
  case False
  with flush_child_fixed [OF assms(2,3) refl assms(4) _ assms(5)] show ?thesis by simp
qed

lemma flush_frames_correct:
  assumes "heap_ok e" "buffer_wf b" "\<not> b_error b" "frames_wf i fs (b_len b)"
    "flush_frames e b fs = (ok, b', fs')"
  shows "buffer_wf b' \<and> b_can_resize b' = b_can_resize b
    \<and> (if ok then fs' = [] \<and> \<not> b_error b' \<and> flushed (b_bytes b) fs = Some (b_bytes b')
       else b_error b')"
  using assms(4,5)
proof (induction fs arbitrary: i ok b' fs')
  case Nil
  then show ?case using assms(2,3) by auto
next
  case (Cons c cs)
  define m where "m = f_offset c + f_pending_len_len c"
  have wf: "frame_wf c" "frames_wf m cs (b_len b)" using Cons.prems(1) by (simp_all add: m_def)
  have "m \<le> b_len b" using frames_wf_le [OF wf(2)] .
  then have "m < 2 ^ 64" using assms(2) by (simp add: buffer_wf_def)
  obtain ok1 b1 cs1 where rec: "flush_frames e b cs = (ok1, b1, cs1)" by (cases "flush_frames e b cs")
  note ih = Cons.IH [OF wf(2) rec]
  note step = flush_frames_step [OF assms(3) wf(1) rec, folded m_def, OF \<open>m < 2 ^ 64\<close>]
  show ?case
  proof (cases ok1)
    case False
    then show ?thesis using Cons.prems(2) step ih by (auto simp: buffer_wf_def)
  next
    case True
    have ok1: "buffer_wf b1" "b_can_resize b1 = b_can_resize b" "\<not> b_error b1"
      "flushed (b_bytes b) cs = Some (b_bytes b1)" using ih True by simp_all
    have "b_len b \<le> b_len b1"
      using flushed_props [OF ok1(4), of m] wf(2) assms(2) ok1(1) by simp
    then have m1: "m \<le> b_len b1" using \<open>m \<le> b_len b\<close> by simp
    obtain ok2 b2 where fc: "flush_child e b1 c m = (ok2, b2)" by (cases "flush_child e b1 c m")
    note F = flush_child_correct [OF assms(1) ok1(1) wf(1), folded m_def, OF m1 fc]
    have "ok = ok2" "b' = b2" "ok2 \<Longrightarrow> fs' = []"
      using Cons.prems(2) step True m1 fc by (auto split: bool.splits)
    then show ?thesis using F ok1 by (auto simp: closes_def m_def)
  qed
qed

lemma flush_child_succeeds:
  assumes "heap_ok e" "buffer_wf b" "heap_generous e" "b_can_resize b" "b_len b + 4 \<le> 2 ^ 60" "frame_wf c"
    "f_offset c + f_pending_len_len c \<le> b_len b"
    "len_prefix c (b_len b - (f_offset c + f_pending_len_len c)) \<noteq> None"
  shows "fst (flush_child e b c (f_offset c + f_pending_len_len c))"
proof (cases "f_pending_is_asn1 c")
  case True
  then have "f_pending_len_len c = 1" using assms(6) by (simp add: frame_wf_def)
  with flush_child_asn1_succeeds [OF assms(2-5) True] assms(1,7,8) True show ?thesis
    by (simp add: len_prefix_def split: if_splits)
next
  case False
  then show ?thesis
    using flush_child_fixed [OF assms(2,6) refl assms(7) False] assms(8)
    by (metis prod.collapse)
qed

lemma flush_frames_succeeds:
  assumes "heap_ok e" "buffer_wf b" "\<not> b_error b" "heap_generous e" "b_can_resize b"
    "frames_wf i fs (b_len b)" "flushed (b_bytes b) fs \<noteq> None" "b_len b + 4 * length fs \<le> 2 ^ 60"
  shows "fst (flush_frames e b fs)"
  using assms(6-8)
proof (induction fs arbitrary: i)
  case Nil
  then show ?case using assms(3) by simp
next
  case (Cons c cs)
  define m where "m = f_offset c + f_pending_len_len c"
  have wf: "frame_wf c" "frames_wf m cs (b_len b)" using Cons.prems(1) by (simp_all add: m_def)
  have "m \<le> b_len b" using frames_wf_le [OF wf(2)] .
  then have "m < 2 ^ 64" using assms(2) by (simp add: buffer_wf_def)
  obtain ok1 b1 cs1 where rec: "flush_frames e b cs = (ok1, b1, cs1)" by (cases "flush_frames e b cs")
  have ok1: ok1 using Cons.IH [OF wf(2)] Cons.prems(2,3) rec by (auto split: option.splits)
  have C: "buffer_wf b1" "b_can_resize b1" "flushed (b_bytes b) cs = Some (b_bytes b1)"
    using flush_frames_correct [OF assms(1-3) wf(2) rec] ok1 assms(5) by simp_all
  have len: "b_len b \<le> b_len b1" "b_len b1 \<le> b_len b + 4 * length cs"
    using flushed_props [OF C(3), of m] wf(2) assms(2) C(1) by simp_all
  have "len_prefix c (b_len b1 - m) \<noteq> None"
    using Cons.prems(2) C(1,3) by (auto simp: m_def Let_def)
  then have "fst (flush_child e b1 c m)"
    using flush_child_succeeds [OF assms(1) C(1) assms(4) C(2) _ wf(1), folded m_def]
      Cons.prems(3) len \<open>m \<le> b_len b\<close> by simp
  then show ?case
    using flush_frames_step [OF assms(3) wf(1) rec, folded m_def, OF \<open>m < 2 ^ 64\<close>] ok1 len \<open>m \<le> b_len b\<close>
    by (auto split: prod.splits bool.splits)
qed

section \<open>Handles\<close>

text \<open>
  \<open>cbb_at d s xs\<close>: the handle \<open>d\<close> of the state \<open>s\<close> is live and free of errors, and flushing
  it makes \<open>xs\<close> the contents of the buffer.  \<open>cbb_ready n d s xs\<close> adds that the buffer can
  grow and that \<open>n\<close> bytes are enough for it with all of its children closed.
\<close>

definition cbb_at :: "nat \<Rightarrow> cbb \<Rightarrow> bytes \<Rightarrow> bool" where
  "cbb_at d s xs \<longleftrightarrow>
     (\<exists>b. cbb_base s = Some b \<and> buffer_wf b \<and> \<not> b_error b \<and> frames_wf 0 (cbb_chain s) (b_len b)
        \<and> d \<le> length (cbb_chain s) \<and> flushed (b_bytes b) (drop d (cbb_chain s)) = Some xs)"

definition cbb_ready :: "nat \<Rightarrow> nat \<Rightarrow> cbb \<Rightarrow> bytes \<Rightarrow> bool" where
  "cbb_ready n d s xs \<longleftrightarrow> cbb_at d s xs
     \<and> (\<exists>b. cbb_base s = Some b \<and> b_can_resize b \<and> b_len b + 4 * length (cbb_chain s) \<le> n)"

definition cbb_failed :: "cbb \<Rightarrow> bool" where
  "cbb_failed s \<longleftrightarrow> (case cbb_base s of None \<Rightarrow> False | Some b \<Rightarrow> b_error b)"

lemma frames_wf_drop:
  assumes "frames_wf i fs n"
  shows "\<exists>j \<ge> i. frames_wf j (drop d fs) n"
  using assms
proof (induction i fs n arbitrary: d rule: frames_wf.induct)
  case (2 i f fs n)
  show ?case
  proof (cases d)
    case 0
    with "2.prems" show ?thesis by (intro exI [of _ i]) simp
  next
    case (Suc d')
    then obtain j where "j \<ge> f_offset f + f_pending_len_len f" "frames_wf j (drop d' fs) n"
      using "2.IH" "2.prems" by auto
    with Suc "2.prems" show ?thesis by (intro exI [of _ j]) simp
  qed
qed auto

lemma frames_wf_take: "frames_wf i fs n \<Longrightarrow> frames_wf i (take d fs) n"
proof (induction i fs n arbitrary: d rule: frames_wf.induct)
  case (2 i f fs n)
  then show ?case
    using frames_wf_le [of "f_offset f + f_pending_len_len f" fs n] by (cases d) auto
qed auto

lemma CBB_flush_at:
  assumes "heap_ok e" "cbb_at d s xs" "CBB_flush e d s = (ok, s')"
  shows "if ok then cbb_at d s' xs \<and> cbb_chain s' = take d (cbb_chain s)
      \<and> (\<exists>b. cbb_base s' = Some b \<and> b_bytes b = xs) else cbb_failed s'"
proof -
  obtain b where b: "cbb_base s = Some b" "buffer_wf b" "\<not> b_error b" "d \<le> length (cbb_chain s)"
    "frames_wf 0 (cbb_chain s) (b_len b)" "flushed (b_bytes b) (drop d (cbb_chain s)) = Some xs"
    using assms(2) by (auto simp: cbb_at_def)
  obtain j where wf: "frames_wf j (drop d (cbb_chain s)) (b_len b)" using frames_wf_drop [OF b(5)] by blast
  obtain b' fs where r: "flush_frames e b (drop d (cbb_chain s)) = (ok, b', fs)"
    and s': "s' = s\<lparr>cbb_base := Some b', cbb_chain := take d (cbb_chain s) @ fs\<rparr>"
    using assms(3) b(1,4) by (auto simp: CBB_flush_def split: prod.splits)
  note F = flush_frames_correct [OF assms(1) b(2,3) wf r]
  show ?thesis
  proof (cases ok)
    case True
    have "b_bytes b' = xs" using F True b(6) by simp
    moreover have "b_len b \<le> b_len b'"
      using flushed_props [OF b(6), of j] wf b(2) F \<open>b_bytes b' = xs\<close> by auto
    then have "frames_wf 0 (take d (cbb_chain s)) (b_len b')"
      using frames_wf_mono frames_wf_take b(5) by blast
    ultimately show ?thesis using F True s' b(4) by (simp add: cbb_at_def)
  qed (use F s' in \<open>simp add: cbb_failed_def\<close>)
qed

lemma CBB_flush_ready:
  assumes "heap_ok e" "heap_generous e" "cbb_ready n d s xs" "n \<le> 2 ^ 60"
  shows "\<exists>s'. CBB_flush e d s = (True, s') \<and> cbb_ready n d s' xs \<and> cbb_chain s' = take d (cbb_chain s)"
proof -
  obtain b where b: "cbb_base s = Some b" "buffer_wf b" "\<not> b_error b" "d \<le> length (cbb_chain s)"
    "frames_wf 0 (cbb_chain s) (b_len b)" "flushed (b_bytes b) (drop d (cbb_chain s)) = Some xs"
    "b_can_resize b" "b_len b + 4 * length (cbb_chain s) \<le> n"
    using assms(3) by (auto simp: cbb_ready_def cbb_at_def)
  obtain j where wf: "frames_wf j (drop d (cbb_chain s)) (b_len b)" using frames_wf_drop [OF b(5)] by blast
  have "fst (flush_frames e b (drop d (cbb_chain s)))"
    using b assms(4) by (intro flush_frames_succeeds [OF assms(1) b(2,3) assms(2) b(7) wf]) auto
  then obtain b' fs where r: "flush_frames e b (drop d (cbb_chain s)) = (True, b', fs)"
    by (metis prod.collapse)
  have F: "buffer_wf b'" "b_can_resize b'" "fs = []" "b_bytes b' = xs"
    using flush_frames_correct [OF assms(1) b(2,3) wf r] b(6,7) by simp_all
  have len: "b_len b' \<le> b_len b + 4 * (length (cbb_chain s) - d)"
    using flushed_props [OF b(6), of j] wf b(2) F by auto
  define s' where "s' = s\<lparr>cbb_base := Some b', cbb_chain := take d (cbb_chain s)\<rparr>"
  have fl: "CBB_flush e d s = (True, s')" using b(1,4) r F(3) by (simp add: CBB_flush_def s'_def)
  have "b_len b' + 4 * d \<le> n" using len b(4,8) by simp
  then have "cbb_ready n d s' xs"
    using CBB_flush_at [OF assms(1) _ fl, of xs] assms(3) F b(4)
    by (auto simp: cbb_ready_def s'_def)
  with fl show ?thesis by (auto simp: s'_def)
qed

text \<open>A buffer operation that appends \<open>ys\<close> or sets the sticky error.\<close>

definition appends :: "(cbb_buffer \<Rightarrow> bool \<times> cbb_buffer) \<Rightarrow> bytes \<Rightarrow> bool" where
  "appends f ys \<longleftrightarrow>
     (\<forall>b r b'. buffer_wf b \<longrightarrow> \<not> b_error b \<longrightarrow> f b = (r, b') \<longrightarrow>
        buffer_wf b' \<and> b_can_resize b' = b_can_resize b
        \<and> (if r then b_bytes b' = b_bytes b @ ys \<and> \<not> b_error b' else b_error b'))"

lemma appendsD:
  assumes "appends f ys" "buffer_wf b" "\<not> b_error b" "f b = (r, b')"
  shows "buffer_wf b' \<and> b_can_resize b' = b_can_resize b
    \<and> (if r then b_bytes b' = b_bytes b @ ys \<and> \<not> b_error b' else b_error b')"
  using assms unfolding appends_def by blast

lemma flush_then_at:
  assumes "heap_ok e" "cbb_at d s xs" "flush_then e d s f = (ok, s')" "appends f ys"
  shows "if ok then cbb_at d s' (xs @ ys) \<and> cbb_chain s' = take d (cbb_chain s) else cbb_failed s'"
proof -
  obtain ok1 s1 where fl: "CBB_flush e d s = (ok1, s1)" by (cases "CBB_flush e d s")
  note F = CBB_flush_at [OF assms(1,2) fl]
  show ?thesis
  proof (cases ok1)
    case False
    then show ?thesis using F fl assms(3) by (auto simp: flush_then_def)
  next
    case True
    then obtain b where b0: "cbb_base s1 = Some b" "b_bytes b = xs"
      and F1: "cbb_at d s1 xs" "cbb_chain s1 = take d (cbb_chain s)"
      using F by auto
    have b: "buffer_wf b" "\<not> b_error b" "frames_wf 0 (cbb_chain s1) (b_len b)" "d \<le> length (cbb_chain s1)"
      using F1(1) b0(1) by (simp_all add: cbb_at_def)
    have "length (cbb_chain s1) \<le> d" using F1(2) by simp
    then have d: "drop d (cbb_chain s1) = []" by simp
    obtain r b' where f: "f b = (r, b')" by (cases "f b")
    have r: "ok = r" "s' = s1\<lparr>cbb_base := Some b'\<rparr>" using assms(3) fl True b0(1) f by (auto simp: flush_then_def)
    note A = conjunct1 [OF appendsD [OF assms(4) b(1,2) f]] conjunct2 [OF conjunct2 [OF appendsD [OF assms(4) b(1,2) f]]]
    show ?thesis
    proof (cases r)
      case True
      then have "b_len b \<le> b_len b'" using A b(1) by (metis length_b_bytes length_append le_add1)
      with b(3) have "frames_wf 0 (cbb_chain s1) (b_len b')" using frames_wf_mono by blast
      with True A b(4) d b0 F1(2) r show ?thesis by (simp add: cbb_at_def)
    qed (use A r in \<open>simp add: cbb_failed_def\<close>)
  qed
qed

lemma flush_then_ready:
  assumes "heap_ok e" "heap_generous e" "cbb_ready n d s xs" "n + length ys \<le> 2 ^ 60" "appends f ys"
    and total: "\<And>b. buffer_wf b \<Longrightarrow> \<not> b_error b \<Longrightarrow> b_can_resize b \<Longrightarrow> b_len b + length ys \<le> 2 ^ 60 \<Longrightarrow> fst (f b)"
  shows "\<exists>s'. flush_then e d s f = (True, s') \<and> cbb_ready (n + length ys) d s' (xs @ ys)
    \<and> cbb_chain s' = take d (cbb_chain s)"
proof -
  obtain s1 where s1: "CBB_flush e d s = (True, s1)" "cbb_ready n d s1 xs" "cbb_chain s1 = take d (cbb_chain s)"
    using CBB_flush_ready [OF assms(1-3)] assms(4) by auto
  then obtain b where b: "cbb_base s1 = Some b" "buffer_wf b" "\<not> b_error b" "b_can_resize b"
    "b_len b + 4 * length (cbb_chain s1) \<le> n"
    by (auto simp: cbb_ready_def cbb_at_def)
  obtain b' where f: "f b = (True, b')"
    using total [OF b(2-4)] b(5) assms(4) by (cases "f b") auto
  define s' where "s' = s1\<lparr>cbb_base := Some b'\<rparr>"
  have r: "flush_then e d s f = (True, s')" using s1 b f by (simp add: flush_then_def s'_def)
  have A: "b_can_resize b'" "b_bytes b' = b_bytes b @ ys" "buffer_wf b'"
    using appendsD [OF assms(5) b(2,3) f] b(4) by simp_all
  then have len: "b_len b' = b_len b + length ys" using b(2) by (metis length_b_bytes length_append)
  have at: "cbb_at d s' (xs @ ys) \<and> cbb_chain s' = take d (cbb_chain s)"
    using flush_then_at [OF assms(1) _ r assms(5), of xs] assms(3) by (simp add: cbb_ready_def)
  have "cbb_base s' = Some b'" "cbb_chain s' = cbb_chain s1" by (simp_all add: s'_def)
  with at r A len b(5) show ?thesis by (auto simp: cbb_ready_def)
qed

text \<open>Closing the child at depth \<open>d\<close>: the parent denotes its bytes behind the length prefix.\<close>

lemma cbb_at_close:
  assumes "cbb_at (Suc d) s zs" "cbb_chain s ! d = c" "f_offset c + f_pending_len_len c = m"
    and "len_prefix c (length (drop m zs)) = Some h"
  shows "cbb_at d s (take (f_offset c) zs @ h @ drop m zs)"
proof -
  have "drop d (cbb_chain s) = c # drop (Suc d) (cbb_chain s)"
    using assms(1,2) by (auto simp: cbb_at_def Cons_nth_drop_Suc)
  then show ?thesis using assms by (auto simp: cbb_at_def Let_def)
qed

lemma cbb_ready_close:
  assumes "cbb_ready n (Suc d) s zs" "cbb_chain s ! d = c" "f_offset c + f_pending_len_len c = m"
    and "len_prefix c (length (drop m zs)) = Some h"
  shows "cbb_ready n d s (take (f_offset c) zs @ h @ drop m zs)"
  using assms cbb_at_close [OF _ assms(2-4)] by (simp add: cbb_ready_def)

section \<open>Operations that append\<close>

text \<open>
  \<open>cbb_app e d op ys\<close>: on every live handle \<open>d\<close>, \<open>op\<close> closes the children of \<open>d\<close> and
  appends \<open>ys\<close>, or fails and leaves the sticky error set; and it succeeds when the heap
  serves requests and the result is well below \<open>2 ^ 60\<close> bytes (an open child may need
  up to four bytes more than it does once its prefix is written, hence the factor).
\<close>

definition cbb_app :: "heap_env \<Rightarrow> nat \<Rightarrow> (cbb \<Rightarrow> bool \<times> cbb) \<Rightarrow> bytes \<Rightarrow> bool" where
  "cbb_app e d op ys \<longleftrightarrow>
     (\<forall>s xs ok s'. cbb_at d s xs \<longrightarrow> op s = (ok, s') \<longrightarrow>
        (if ok then cbb_at d s' (xs @ ys) \<and> cbb_chain s' = take d (cbb_chain s) else cbb_failed s'))
     \<and> (\<forall>n s xs. heap_generous e \<longrightarrow> cbb_ready n d s xs \<longrightarrow> n + 8 * length ys \<le> 2 ^ 60 \<longrightarrow>
        (\<exists>s'. op s = (True, s') \<and> cbb_ready (n + length ys) d s' (xs @ ys)
           \<and> cbb_chain s' = take d (cbb_chain s)))"

lemma cbb_app_at:
  assumes "cbb_app e d op ys" "cbb_at d s xs" "op s = (ok, s')"
  shows "if ok then cbb_at d s' (xs @ ys) \<and> cbb_chain s' = take d (cbb_chain s) else cbb_failed s'"
  using assms unfolding cbb_app_def by blast

lemma cbb_app_ready:
  assumes "cbb_app e d op ys" "heap_generous e" "cbb_ready n d s xs" "n + 8 * length ys \<le> 2 ^ 60"
  obtains s' where "op s = (True, s')" "cbb_ready (n + length ys) d s' (xs @ ys)"
    "cbb_chain s' = take d (cbb_chain s)"
  using assms unfolding cbb_app_def by blast

lemma cbb_app_flush_then:
  assumes "heap_ok e" "appends f ys"
    and "\<And>b. heap_generous e \<Longrightarrow> buffer_wf b \<Longrightarrow> \<not> b_error b \<Longrightarrow> b_can_resize b
      \<Longrightarrow> b_len b + length ys \<le> 2 ^ 60 \<Longrightarrow> fst (f b)"
  shows "cbb_app e d (\<lambda>s. flush_then e d s f) ys"
  unfolding cbb_app_def
proof (intro conjI allI impI)
  fix n s xs
  assume a: "heap_generous e" "cbb_ready n d s xs" "n + 8 * length ys \<le> 2 ^ 60"
  then have "n + length ys \<le> 2 ^ 60" by simp
  from flush_then_ready [OF assms(1) a(1,2) this assms(2) assms(3) [OF a(1)]]
  show "\<exists>s'. flush_then e d s f = (True, s') \<and> cbb_ready (n + length ys) d s' (xs @ ys)
    \<and> cbb_chain s' = take d (cbb_chain s)" by blast
qed (rule flush_then_at [OF assms(1) _ _ assms(2)])

lemma cbb_app_flush:
  assumes "heap_ok e"
  shows "cbb_app e d (CBB_flush e d) []"
  unfolding cbb_app_def append_Nil2 list.size add_0_right mult_0_right
proof (intro conjI allI impI)
  fix s xs ok s'
  assume "cbb_at d s xs" "CBB_flush e d s = (ok, s')"
  from CBB_flush_at [OF assms this]
  show "if ok then cbb_at d s' xs \<and> cbb_chain s' = take d (cbb_chain s) else cbb_failed s'"
    by (auto split: if_splits)
qed (rule CBB_flush_ready [OF assms])

lemma cbb_app_add_u:
  assumes "heap_ok e" "0 < k" "unat v < 256 ^ k" "k \<le> 4"
  shows "cbb_app e d (\<lambda>s. flush_then e d s (\<lambda>b. cbb_buffer_add_u e b v k)) (be_bytes k (unat v))"
proof (rule cbb_app_flush_then [OF assms(1)])
  have k: "k < 2 ^ 62" using assms(4) by simp
  show "appends (\<lambda>b. cbb_buffer_add_u e b v k) (be_bytes k (unat v))"
    unfolding appends_def using buffer_add_u_correct [OF assms(1) _ k _ assms(2)] by (metis (full_types))
  show "fst (cbb_buffer_add_u e b v k)"
    if "heap_generous e" "buffer_wf b" "\<not> b_error b" "b_can_resize b"
      "b_len b + length (be_bytes k (unat v)) \<le> 2 ^ 60" for b
    using buffer_add_u_succeeds [OF assms(1) that(2,1,4) _ assms(3,2)] that(5) by auto
qed

lemma cbb_app_u8:
  assumes "heap_ok e"
  shows "cbb_app e d (\<lambda>s. CBB_add_u8 e d s v) [v]"
proof -
  have "unat (ucast v :: u32) < 256 ^ 1" using unat_u8_lt [of v] by (simp add: unat_ucast_up)
  with cbb_app_add_u [OF assms _ this, of d] show ?thesis
    by (simp add: CBB_add_u8_def unat_ucast_up)
qed

lemma cbb_app_bytes:
  assumes "heap_ok e" "n \<le> length data" "n < 2 ^ 62"
  shows "cbb_app e d (\<lambda>s. CBB_add_bytes e d s data n) (take n data)"
  unfolding CBB_add_bytes_def
proof (rule cbb_app_flush_then [OF assms(1)])
  let ?f = "\<lambda>b. case cbb_buffer_add e b n of (None, b) \<Rightarrow> (False, b)
      | (Some dest, b) \<Rightarrow> (True, b\<lparr>b_buf := blit (b_buf b) dest (take n data)\<rparr>)"
  have ln: "length (take n data) = n" using assms(2) by simp
  show "fst (?f b)"
    if "heap_generous e" "buffer_wf b" "\<not> b_error b" "b_can_resize b" "b_len b + length (take n data) \<le> 2 ^ 60" for b
    using buffer_add_succeeds [OF that(2,1,4), of n] that(5) ln by auto
  show "appends ?f (take n data)"
    unfolding appends_def
  proof (intro allI impI)
    fix b r b'
    assume b: "buffer_wf b" "\<not> b_error b" "?f b = (r, b')"
    obtain r1 b1 where add: "cbb_buffer_add e b n = (r1, b1)" by (cases "cbb_buffer_add e b n")
    note c = buffer_add_correct [OF assms(1) b(1) assms(3) add]
    show "buffer_wf b' \<and> b_can_resize b' = b_can_resize b
      \<and> (if r then b_bytes b' = b_bytes b @ take n data \<and> \<not> b_error b' else b_error b')"
    proof (cases r1)
      case None
      with c b add show ?thesis by auto
    next
      case (Some off)
      note c4 = c(4) [OF Some]
      have room: "off + n \<le> length (b_buf b1)" using c(1) c4 by (auto simp: buffer_wf_def)
      have r: "r" "b' = b1\<lparr>b_buf := blit (b_buf b1) off (take n data)\<rparr>" using b(3) add Some by auto
      have "take (b_len b1) (blit (b_buf b1) off (take n data)) = b_bytes b @ take n data"
        using take_blit_end [of off "b_buf b1" "take n data"] room c4 ln by simp
      moreover have "length (blit (b_buf b1) off (take n data)) = length (b_buf b1)"
        using room ln by simp
      ultimately show ?thesis using c(1,2) c4 r b(2) by (simp add: buffer_wf_def b_bytes_def)
    qed
  qed
qed

lemma cbb_app_seq:
  assumes "cbb_app e d f xs" "cbb_app e d g ys"
  shows "cbb_app e d (\<lambda>s. and_then (f s) g) (xs @ ys)"
  unfolding cbb_app_def
proof (intro conjI allI impI)
  fix s zs ok s'
  assume a: "cbb_at d s zs" "and_then (f s) g = (ok, s')"
  obtain ok1 s1 where f: "f s = (ok1, s1)" by (cases "f s")
  note F = cbb_app_at [OF assms(1) a(1) f]
  show "if ok then cbb_at d s' (zs @ xs @ ys) \<and> cbb_chain s' = take d (cbb_chain s) else cbb_failed s'"
  proof (cases ok1)
    case True
    then have at: "cbb_at d s1 (zs @ xs)" and g: "g s1 = (ok, s')" and c: "cbb_chain s1 = take d (cbb_chain s)"
      using F f a(2) by (simp_all add: and_then_def)
    from cbb_app_at [OF assms(2) at g] c show ?thesis by (simp split: if_splits)
  qed (use F f a(2) in \<open>simp add: and_then_def\<close>)
next
  fix n s zs
  assume a: "heap_generous e" "cbb_ready n d s zs" "n + 8 * length (xs @ ys) \<le> 2 ^ 60"
  from a(3) have n1: "n + 8 * length xs \<le> 2 ^ 60" "n + length xs + 8 * length ys \<le> 2 ^ 60" by simp_all
  obtain s1 where s1: "f s = (True, s1)" "cbb_ready (n + length xs) d s1 (zs @ xs)"
    "cbb_chain s1 = take d (cbb_chain s)"
    using cbb_app_ready [OF assms(1) a(1,2) n1(1)] by blast
  obtain s2 where s2: "g s1 = (True, s2)" "cbb_ready (n + length xs + length ys) d s2 ((zs @ xs) @ ys)"
    "cbb_chain s2 = take d (cbb_chain s1)"
    using cbb_app_ready [OF assms(2) a(1) s1(2) n1(2)] by blast
  show "\<exists>s'. and_then (f s) g = (True, s') \<and> cbb_ready (n + length (xs @ ys)) d s' (zs @ xs @ ys)
    \<and> cbb_chain s' = take d (cbb_chain s)"
    using s1 s2 by (simp add: and_then_def add.assoc)
qed

lemma cbb_app_eqI: "cbb_app e d f xs \<Longrightarrow> (\<And>s. f s = g s) \<Longrightarrow> xs = ys \<Longrightarrow> cbb_app e d g ys"
proof -
  assume a: "cbb_app e d f xs" "\<And>s. f s = g s" "xs = ys"
  have "f = g" using a(2) by (rule ext)
  with a(1,3) show ?thesis by simp
qed

lemma cbb_app_nop: "cbb_app e d op [] \<Longrightarrow> cbb_app e d f xs \<Longrightarrow> cbb_app e d (\<lambda>s. and_then (op s) f) xs"
  using cbb_app_seq [of e d op "[]" f xs] by simp

section \<open>Children\<close>

text \<open>
  \<open>cbb_open e d op zs k a\<close>: \<open>op\<close> appends \<open>zs\<close>, whose last \<open>k\<close> bytes are the room for the
  length prefix of a new child of the handle \<open>d\<close>.
\<close>

definition cbb_open :: "heap_env \<Rightarrow> nat \<Rightarrow> (cbb \<Rightarrow> bool \<times> cbb) \<Rightarrow> bytes \<Rightarrow> nat \<Rightarrow> bool \<Rightarrow> bool" where
  "cbb_open e d op zs k a \<longleftrightarrow>
     k \<le> length zs
     \<and> (\<forall>s xs ok s'. cbb_at d s xs \<longrightarrow> op s = (ok, s') \<longrightarrow>
        (if ok then cbb_at (Suc d) s' (xs @ zs) \<and> cbb_chain s' = take d (cbb_chain s) @
             [\<lparr>f_offset = length xs + (length zs - k), f_pending_len_len = k, f_pending_is_asn1 = a\<rparr>]
         else cbb_failed s'))
     \<and> (\<forall>n s xs. heap_generous e \<longrightarrow> cbb_ready n d s xs \<longrightarrow> n + 8 * length zs \<le> 2 ^ 60 \<longrightarrow>
        (\<exists>s'. op s = (True, s') \<and> cbb_ready (n + length zs + 4) (Suc d) s' (xs @ zs)
          \<and> cbb_chain s' = take d (cbb_chain s) @
             [\<lparr>f_offset = length xs + (length zs - k), f_pending_len_len = k, f_pending_is_asn1 = a\<rparr>]))"

lemma cbb_open_at:
  assumes "cbb_open e d op zs k a" "cbb_at d s xs" "op s = (ok, s')"
  shows "if ok then cbb_at (Suc d) s' (xs @ zs) \<and> cbb_chain s' = take d (cbb_chain s) @
      [\<lparr>f_offset = length xs + (length zs - k), f_pending_len_len = k, f_pending_is_asn1 = a\<rparr>]
    else cbb_failed s'"
  using assms unfolding cbb_open_def by blast

lemma cbb_open_ready:
  assumes "cbb_open e d op zs k a" "heap_generous e" "cbb_ready n d s xs" "n + 8 * length zs \<le> 2 ^ 60"
  obtains s' where "op s = (True, s')" "cbb_ready (n + length zs + 4) (Suc d) s' (xs @ zs)"
    "cbb_chain s' = take d (cbb_chain s) @
      [\<lparr>f_offset = length xs + (length zs - k), f_pending_len_len = k, f_pending_is_asn1 = a\<rparr>]"
  using assms unfolding cbb_open_def by blast

lemma cbb_at_depth: "cbb_at d s xs \<Longrightarrow> d \<le> length (cbb_chain s)"
  by (auto simp: cbb_at_def)

lemma cbb_ready_at: "cbb_ready n d s xs \<Longrightarrow> cbb_at d s xs"
  by (simp add: cbb_ready_def)

lemma cbb_ready_mono: "cbb_ready n d s xs \<Longrightarrow> n \<le> m \<Longrightarrow> cbb_ready m d s xs"
  by (fastforce simp: cbb_ready_def)

lemma cbb_ready_len:
  assumes "cbb_ready n d s xs"
  shows "length xs + 4 * d \<le> n"
proof -
  obtain b where b: "buffer_wf b" "d \<le> length (cbb_chain s)"
    "frames_wf 0 (cbb_chain s) (b_len b)" "flushed (b_bytes b) (drop d (cbb_chain s)) = Some xs"
    "b_len b + 4 * length (cbb_chain s) \<le> n"
    using assms by (auto simp: cbb_ready_def cbb_at_def)
  obtain j where "frames_wf j (drop d (cbb_chain s)) (b_len b)" using frames_wf_drop [OF b(3)] by blast
  then have "length xs \<le> b_len b + 4 * (length (cbb_chain s) - d)"
    using flushed_props [OF b(4), of j] b(1) by simp
  with b(2,5) show ?thesis by simp
qed

text \<open>After a flush the bound is the exact one.\<close>

lemma CBB_flush_tight:
  assumes "heap_ok e" "heap_generous e" "cbb_ready n d s xs" "n \<le> 2 ^ 60"
  shows "\<exists>s'. CBB_flush e d s = (True, s') \<and> cbb_ready (length xs + 4 * d) d s' xs
    \<and> cbb_chain s' = take d (cbb_chain s)"
proof -
  obtain s' where s': "CBB_flush e d s = (True, s')" "cbb_ready n d s' xs" "cbb_chain s' = take d (cbb_chain s)"
    using CBB_flush_ready [OF assms] by blast
  obtain b where b: "cbb_base s' = Some b" "b_bytes b = xs"
    using CBB_flush_at [OF assms(1) cbb_ready_at [OF assms(3)] s'(1)] by auto
  have "b_len b = length xs" "length (cbb_chain s') \<le> d"
    using s'(2,3) b by (auto simp: cbb_ready_def cbb_at_def)
  then have "cbb_ready (length xs + 4 * d) d s' xs" using s'(2) b(1) by (auto simp: cbb_ready_def)
  with s' show ?thesis by blast
qed

text \<open>
  The contents of a child may be written by an operation that leaves its last child open,
  or by none at all: the weaker form claims nothing of the chain below the handle.
\<close>

definition cbb_app_weak :: "heap_env \<Rightarrow> nat \<Rightarrow> (cbb \<Rightarrow> bool \<times> cbb) \<Rightarrow> bytes \<Rightarrow> bool" where
  "cbb_app_weak e d op ys \<longleftrightarrow>
     (\<forall>s xs ok s'. cbb_at d s xs \<longrightarrow> op s = (ok, s') \<longrightarrow>
        (if ok then cbb_at d s' (xs @ ys) \<and> take d (cbb_chain s') = take d (cbb_chain s) else cbb_failed s'))
     \<and> (\<forall>n s xs. heap_generous e \<longrightarrow> cbb_ready n d s xs \<longrightarrow> n + 8 * length ys \<le> 2 ^ 60 \<longrightarrow>
        (\<exists>s'. op s = (True, s') \<and> cbb_ready (n + length ys) d s' (xs @ ys)
           \<and> take d (cbb_chain s') = take d (cbb_chain s)))"

lemma cbb_app_weak_at:
  assumes "cbb_app_weak e d op ys" "cbb_at d s xs" "op s = (ok, s')"
  shows "if ok then cbb_at d s' (xs @ ys) \<and> take d (cbb_chain s') = take d (cbb_chain s) else cbb_failed s'"
  using assms unfolding cbb_app_weak_def by blast

lemma cbb_app_weak_ready:
  assumes "cbb_app_weak e d op ys" "heap_generous e" "cbb_ready n d s xs" "n + 8 * length ys \<le> 2 ^ 60"
  obtains s' where "op s = (True, s')" "cbb_ready (n + length ys) d s' (xs @ ys)"
    "take d (cbb_chain s') = take d (cbb_chain s)"
  using assms unfolding cbb_app_weak_def by blast

lemma cbb_app_imp_weak:
  assumes "cbb_app e d op ys"
  shows "cbb_app_weak e d op ys"
  unfolding cbb_app_weak_def
proof (intro conjI allI impI)
  fix s xs ok s'
  assume a: "cbb_at d s xs" "op s = (ok, s')"
  show "if ok then cbb_at d s' (xs @ ys) \<and> take d (cbb_chain s') = take d (cbb_chain s) else cbb_failed s'"
    using cbb_app_at [OF assms a] by simp
next
  fix n s xs
  assume a: "heap_generous e" "cbb_ready n d s xs" "n + 8 * length ys \<le> 2 ^ 60"
  from cbb_app_ready [OF assms a] show "\<exists>s'. op s = (True, s') \<and> cbb_ready (n + length ys) d s' (xs @ ys)
    \<and> take d (cbb_chain s') = take d (cbb_chain s)" by (metis min.idem take_take)
qed

lemma cbb_app_weak_nothing: "cbb_app_weak e d (\<lambda>s. (True, s)) []"
  by (auto simp: cbb_app_weak_def)

lemma chain_child:
  assumes "take (Suc d) (cbb_chain s2) = take (Suc d) (cbb_chain s1)" "cbb_chain s1 = take d fs @ [c]"
    "d \<le> length fs" "Suc d \<le> length (cbb_chain s2)"
  shows "cbb_chain s2 ! d = c" "take d (cbb_chain s2) = take d fs"
proof -
  have t: "take (Suc d) (cbb_chain s2) = take d fs @ [c]" using assms(1-3) by simp
  show "cbb_chain s2 ! d = c"
    using nth_take [of d "Suc d" "cbb_chain s2"] assms(3) unfolding t by (simp add: nth_append)
  show "take d (cbb_chain s2) = take d fs"
    using arg_cong [OF t, of "take d"] assms(3,4) by simp
qed

lemma cbb_app_child:
  assumes hp: "heap_ok e" and op: "cbb_open e d op zs k a" and body: "cbb_app_weak e (Suc d) f ys"
    and h: "\<And>i. len_prefix \<lparr>f_offset = i, f_pending_len_len = k, f_pending_is_asn1 = a\<rparr> (length ys) = Some h"
    and h1: "1 \<le> k" "k \<le> length h"
  shows "cbb_app e d (\<lambda>s. and_then (and_then (op s) f) (CBB_flush e d)) (take (length zs - k) zs @ h @ ys)"
    (is "cbb_app e d ?f ?ys")
  unfolding cbb_app_def
proof (intro conjI allI impI)
  have kz: "k \<le> length zs" using op by (simp add: cbb_open_def)
  have arith: "take (length xs + (length zs - k)) ((xs @ zs) @ ys) = xs @ take (length zs - k) zs"
    "drop (length xs + (length zs - k) + k) ((xs @ zs) @ ys) = ys" for xs :: bytes
    using kz by simp_all
  {
    fix s xs ok s'
    assume at: "cbb_at d s xs" and r: "?f s = (ok, s')"
    obtain ok1 s1 where op1: "op s = (ok1, s1)" by (cases "op s")
    note O = cbb_open_at [OF op at op1]
    obtain ok2 s2 where f2: "f s1 = (ok2, s2)" by (cases "f s1")
    show "if ok then cbb_at d s' (xs @ ?ys) \<and> cbb_chain s' = take d (cbb_chain s) else cbb_failed s'"
    proof (cases "ok1 \<and> ok2")
      case False
      show ?thesis
      proof (cases ok1)
        case True
        then have "cbb_failed s2" using cbb_app_weak_at [OF body _ f2] O False by auto
        then show ?thesis using r op1 f2 True False by (auto simp: and_then_def)
      qed (use O r op1 in \<open>auto simp: and_then_def\<close>)
    next
      case True
      with O have O: "cbb_at (Suc d) s1 (xs @ zs)" "cbb_chain s1 = take d (cbb_chain s) @
        [\<lparr>f_offset = length xs + (length zs - k), f_pending_len_len = k, f_pending_is_asn1 = a\<rparr>]" by simp_all
      have B: "cbb_at (Suc d) s2 ((xs @ zs) @ ys)" "take (Suc d) (cbb_chain s2) = take (Suc d) (cbb_chain s1)"
        using cbb_app_weak_at [OF body O(1) f2] True by simp_all
      note nth = chain_child [OF B(2) O(2) cbb_at_depth [OF at] cbb_at_depth [OF B(1)]]
      have at2: "cbb_at d s2 (xs @ ?ys)"
        using cbb_at_close [OF B(1) nth(1) refl, of h] unfolding cbb_frame.simps arith [simplified append_assoc] append_assoc
        by (simp only: h simp_thms)
      have "CBB_flush e d s2 = (ok, s')" using r op1 f2 True by (simp add: and_then_def)
      from CBB_flush_at [OF hp at2 this] nth(2) show ?thesis by simp
    qed
  }
  fix n s xs
  assume g: "heap_generous e" and rd: "cbb_ready n d s xs" and n: "n + 8 * length ?ys \<le> 2 ^ 60"
  note at = cbb_ready_at [OF rd]
  have n: "n + 8 * length zs \<le> 2 ^ 60" "n + length zs + 4 + 8 * length ys \<le> 2 ^ 60"
    "length zs + length ys + 4 + n \<le> 2 ^ 60"
    using n kz h1 by simp_all
  obtain s1 where s1: "op s = (True, s1)" "cbb_ready (n + length zs + 4) (Suc d) s1 (xs @ zs)"
    "cbb_chain s1 = take d (cbb_chain s) @
      [\<lparr>f_offset = length xs + (length zs - k), f_pending_len_len = k, f_pending_is_asn1 = a\<rparr>]"
    using cbb_open_ready [OF op g rd n(1)] by blast
  obtain s2 where s2: "f s1 = (True, s2)" "cbb_ready (n + length zs + 4 + length ys) (Suc d) s2 ((xs @ zs) @ ys)"
    "take (Suc d) (cbb_chain s2) = take (Suc d) (cbb_chain s1)"
    using cbb_app_weak_ready [OF body g s1(2) n(2)] by blast
  note nth = chain_child [OF s2(3) s1(3) cbb_at_depth [OF at] cbb_at_depth [OF cbb_ready_at [OF s2(2)]]]
  have rd2: "cbb_ready (n + length zs + 4 + length ys) d s2 (xs @ ?ys)"
    using cbb_ready_close [OF s2(2) nth(1) refl, of h] unfolding cbb_frame.simps arith [simplified append_assoc] append_assoc
    by (simp only: h simp_thms)
  obtain s3 where s3: "CBB_flush e d s2 = (True, s3)" "cbb_ready (length (xs @ ?ys) + 4 * d) d s3 (xs @ ?ys)"
    "cbb_chain s3 = take d (cbb_chain s2)"
    using CBB_flush_tight [OF hp g rd2] n(3) by auto
  have "length (xs @ ?ys) + 4 * d \<le> n + length ?ys" using cbb_ready_len [OF rd] by simp
  then have "cbb_ready (n + length ?ys) d s3 (xs @ ?ys)" by (rule cbb_ready_mono [OF s3(2)])
  then show "\<exists>s'. ?f s = (True, s') \<and> cbb_ready (n + length ?ys) d s' (xs @ ?ys) \<and> cbb_chain s' = take d (cbb_chain s)"
    using s1 s2(1) s3 nth(2) by (simp add: and_then_def)
qed

lemma cbb_at_frames:
  assumes "cbb_at d s xs"
  shows "frames_wf 0 (take d (cbb_chain s)) (length xs)"
proof -
  obtain b where b: "buffer_wf b" "frames_wf 0 (cbb_chain s) (b_len b)"
    "flushed (b_bytes b) (drop d (cbb_chain s)) = Some xs"
    using assms by (auto simp: cbb_at_def)
  obtain j where "frames_wf j (drop d (cbb_chain s)) (b_len b)" using frames_wf_drop [OF b(2)] by blast
  then have "b_len b \<le> length xs" using flushed_props [OF b(3), of j] b(1) by simp
  then show ?thesis using frames_wf_mono frames_wf_take b(2) by blast
qed

definition cbb_base_len :: "cbb \<Rightarrow> nat" where
  "cbb_base_len s = (case cbb_base s of None \<Rightarrow> 0 | Some b \<Rightarrow> b_len b)"

lemma push_child_at:
  assumes "cbb_at d s' (xs @ zs)" "cbb_chain s' = take d (cbb_chain s)" "cbb_at d s xs"
    "k \<le> length zs" "1 \<le> k" "k \<le> 3" "a \<Longrightarrow> k = 1"
    and c: "c = \<lparr>f_offset = cbb_base_len s' - k, f_pending_len_len = k, f_pending_is_asn1 = a\<rparr>"
  shows "cbb_at (Suc d) (push_child d s' c) (xs @ zs)"
    "c = \<lparr>f_offset = length xs + (length zs - k), f_pending_len_len = k, f_pending_is_asn1 = a\<rparr>"
    "cbb_chain (push_child d s' c) = take d (cbb_chain s) @ [c]"
proof -
  have dl: "length (take d (cbb_chain s)) = d" using cbb_at_depth [OF assms(3)] by simp
  obtain b where b: "cbb_base s' = Some b" "buffer_wf b" "\<not> b_error b" "b_bytes b = xs @ zs"
    using assms(1,2) dl by (auto simp: cbb_at_def)
  have bl: "b_len b = length xs + length zs" using length_b_bytes [OF b(2)] b(4) by simp
  show c': "c = \<lparr>f_offset = length xs + (length zs - k), f_pending_len_len = k, f_pending_is_asn1 = a\<rparr>"
    using c b(1) bl assms(4) by (simp add: cbb_base_len_def)
  show ch: "cbb_chain (push_child d s' c) = take d (cbb_chain s) @ [c]"
    using assms(2) by (simp add: push_child_def)
  have "frames_wf 0 (take d (cbb_chain s)) (length xs + (length zs - k))"
    using frames_wf_mono [OF cbb_at_frames [OF assms(3)]] by simp
  then have "frames_wf 0 (take d (cbb_chain s) @ [c]) (b_len b)"
    using assms(4-7) bl c' by (auto simp: frames_wf_append frame_wf_def)
  then show "cbb_at (Suc d) (push_child d s' c) (xs @ zs)"
    using b dl ch by (auto simp: cbb_at_def push_child_def)
qed

lemma cbb_open_push:
  assumes op: "cbb_app e d op zs" and k: "k \<le> length zs" "1 \<le> k" "k \<le> 3" "a \<Longrightarrow> k = 1"
  shows "cbb_open e d (\<lambda>s. and_then (op s) (\<lambda>s'. (True, push_child d s'
    \<lparr>f_offset = cbb_base_len s' - k, f_pending_len_len = k, f_pending_is_asn1 = a\<rparr>))) zs k a"
  unfolding cbb_open_def
proof (intro conjI allI impI k(1))
  let ?c = "\<lambda>s'. \<lparr>f_offset = cbb_base_len s' - k, f_pending_len_len = k, f_pending_is_asn1 = a\<rparr>"
  fix s xs ok s'
  assume at: "cbb_at d s xs" and r: "and_then (op s) (\<lambda>s'. (True, push_child d s' (?c s'))) = (ok, s')"
  obtain ok1 s1 where o1: "op s = (ok1, s1)" by (cases "op s")
  note O = cbb_app_at [OF op at o1]
  show "if ok then cbb_at (Suc d) s' (xs @ zs) \<and> cbb_chain s' = take d (cbb_chain s) @
      [\<lparr>f_offset = length xs + (length zs - k), f_pending_len_len = k, f_pending_is_asn1 = a\<rparr>]
    else cbb_failed s'"
  proof (cases ok1)
    case True
    then have O: "cbb_at d s1 (xs @ zs)" "cbb_chain s1 = take d (cbb_chain s)" using O by simp_all
    note P = push_child_at [where a = a and c = "?c s1", OF O at k(1-3) _ refl]
    have s': "ok" "s' = push_child d s1 (?c s1)" using r o1 True by (simp_all add: and_then_def)
    show ?thesis using P(1,3) P(2) k(4) s' by simp
  qed (use O r o1 in \<open>auto simp: and_then_def\<close>)
next
  let ?c = "\<lambda>s'. \<lparr>f_offset = cbb_base_len s' - k, f_pending_len_len = k, f_pending_is_asn1 = a\<rparr>"
  fix n s xs
  assume g: "heap_generous e" "cbb_ready n d s xs" "n + 8 * length zs \<le> 2 ^ 60"
  obtain s1 where s1: "op s = (True, s1)" "cbb_ready (n + length zs) d s1 (xs @ zs)"
    "cbb_chain s1 = take d (cbb_chain s)"
    using cbb_app_ready [OF op g] by blast
  note P0 = push_child_at [where a = a and c = "?c s1", OF cbb_ready_at [OF s1(2)] s1(3) cbb_ready_at [OF g(2)]
      k(1-3) _ refl]
  note P = P0(1) [OF k(4)] P0(2) [OF k(4)] P0(3) [OF k(4)]
  have "length (cbb_chain s1) = d" using s1(3) cbb_at_depth [OF cbb_ready_at [OF g(2)]] by simp
  then have "cbb_ready (n + length zs + 4) (Suc d) (push_child d s1 (?c s1)) (xs @ zs)"
    using P(1) s1(2) by (auto simp: cbb_ready_def push_child_def)
  with P(2,3) s1(1) show "\<exists>s'. and_then (op s) (\<lambda>s'. (True, push_child d s' (?c s'))) = (True, s')
    \<and> cbb_ready (n + length zs + 4) (Suc d) s' (xs @ zs) \<and> cbb_chain s' = take d (cbb_chain s) @
       [\<lparr>f_offset = length xs + (length zs - k), f_pending_len_len = k, f_pending_is_asn1 = a\<rparr>]"
    by (auto simp: and_then_def)
qed

lemma cbb_open_eqI: "cbb_open e d f zs k a \<Longrightarrow> (\<And>s. f s = g s) \<Longrightarrow> cbb_open e d g zs k a"
  by (metis ext)

lemma buffer_add_len:
  "cbb_buffer_add e b n = (Some off, b') \<Longrightarrow> off = b_len b \<and> b_len b' = b_len b + n"
  by (auto simp: cbb_buffer_add_def cbb_buffer_reserve_def Let_def split: option.splits if_splits)

lemma cbb_add_length_prefixed_eq:
  "cbb_add_length_prefixed e d s k =
    and_then (CBB_add_bytes e d s (replicate k 0) k) (\<lambda>s'. (True, push_child d s'
      \<lparr>f_offset = cbb_base_len s' - k, f_pending_len_len = k, f_pending_is_asn1 = False\<rparr>))"
  by (auto simp: cbb_add_length_prefixed_def CBB_add_bytes_def flush_then_def and_then_def cbb_base_len_def
      dest: buffer_add_len split: prod.split bool.split option.split)

lemma cbb_open_length_prefixed:
  assumes "heap_ok e" "1 \<le> k" "k \<le> 3"
  shows "cbb_open e d (\<lambda>s. cbb_add_length_prefixed e d s k) (replicate k 0) k False"
proof -
  have "cbb_app e d (\<lambda>s. CBB_add_bytes e d s (replicate k 0) k) (replicate k 0)"
    using cbb_app_bytes [OF assms(1), of k "replicate k 0" d] assms(3) by simp
  from cbb_open_push [OF this, of k False] assms(2,3) show ?thesis
    by (auto intro: cbb_open_eqI simp: cbb_add_length_prefixed_eq)
qed

section \<open>Ends of a builder\<close>

lemma CBB_finish_ready:
  assumes "heap_ok e" "heap_generous e" "cbb_ready n 0 s xs" "n \<le> 2 ^ 60"
  shows "\<exists>buf s'. CBB_finish e 0 s True True = (Some (buf, length xs), s') \<and> take (length xs) buf = xs"
proof -
  obtain s' where s': "CBB_flush e 0 s = (True, s')" "cbb_ready n 0 s' xs"
    using CBB_flush_ready [OF assms] by blast
  obtain b where b: "cbb_base s' = Some b" "b_bytes b = xs"
    using CBB_flush_at [OF assms(1) cbb_ready_at [OF assms(3)] s'(1)] by auto
  have "b_len b = length xs" using s'(2) b by (auto simp: cbb_ready_def cbb_at_def)
  then show ?thesis using s'(1) b by (auto simp: CBB_finish_def b_bytes_def)
qed

lemma CBB_finish_at:
  assumes "heap_ok e" "cbb_at 0 s xs" "CBB_finish e 0 s w1 w2 = (Some (buf, n), s')"
  shows "n = length xs \<and> take n buf = xs"
proof -
  obtain s1 where s1: "CBB_flush e 0 s = (True, s1)"
    using assms(3) by (auto simp: CBB_finish_def split: prod.splits bool.splits)
  obtain b where b: "cbb_base s1 = Some b" "b_bytes b = xs" and at: "cbb_at 0 s1 xs"
    using CBB_flush_at [OF assms(1,2) s1] by auto
  have "b_len b = length xs" using at b by (auto simp: cbb_at_def)
  moreover have "buf = b_buf b" "n = b_len b"
    using assms(3) s1 b(1) by (auto simp: CBB_finish_def split: if_splits)
  ultimately show ?thesis using b(2) by (simp add: b_bytes_def)
qed

lemma CBB_init_ready:
  assumes "heap_ok e" "heap_generous e" "n \<le> 2 ^ 60"
  shows "\<exists>s. CBB_init e n = (True, s) \<and> cbb_ready 0 0 s [] \<and> cbb_chain s = []"
proof -
  have c: "can_alloc e (size_add n 8)" "can_alloc e (size_add 32 8)" "size_add n 8 = n + 8"
    using assms(2,3) by (auto simp: heap_generous_def size_add_exact)
  then obtain buf where m: "OPENSSL_malloc e n = Some buf"
    by (auto simp: OPENSSL_malloc_def Let_def OPENSSL_MALLOC_PREFIX_def)
  then have "length buf = n" using OPENSSL_malloc_length assms(3) by simp
  moreover obtain h where "OPENSSL_malloc e 32 = Some h"
    using c(2) by (auto simp: OPENSSL_malloc_def Let_def OPENSSL_MALLOC_PREFIX_def)
  ultimately show ?thesis
    using m assms(3)
    by (simp add: CBB_init_def cbb_init_def cbb_ready_def cbb_at_def buffer_wf_def b_bytes_def)
qed

text \<open>The error flag is sticky: every operation on a failed builder fails and changes nothing.\<close>

lemma CBB_flush_failed:
  assumes "cbb_failed s"
  shows "CBB_flush e d s = (False, s)"
proof -
  obtain b where "cbb_base s = Some b" "b_error b"
    using assms by (auto simp: cbb_failed_def split: option.splits)
  moreover have "s\<lparr>cbb_base := Some b, cbb_chain := take d (cbb_chain s) @ drop d (cbb_chain s)\<rparr> = s"
    using \<open>cbb_base s = Some b\<close> by simp
  moreover have "flush_frames e b fs = (False, b, fs)" for fs using \<open>b_error b\<close> by (cases fs) simp_all
  ultimately show ?thesis by (simp add: CBB_flush_def)
qed

lemma CBB_init_at:
  assumes "CBB_init e n = (True, s)" "heap_ok e" "n + 8 < 2 ^ 64"
  shows "cbb_at 0 s []"
proof -
  have lt: "m < 2 ^ 62" if "OPENSSL_malloc e m = Some b" "m + 8 < 2 ^ 64" for m b
    using that assms(2)
    by (fastforce simp: OPENSSL_malloc_def Let_def size_add_exact OPENSSL_MALLOC_PREFIX_def heap_ok_def split: if_splits)
  show ?thesis
    using assms(1,3) lt [of n] OPENSSL_malloc_length [of e n]
    by (auto simp: CBB_init_def cbb_init_def cbb_at_def buffer_wf_def b_bytes_def split: option.splits if_splits)
qed

lemma cbb_app_weak_seq:
  assumes "cbb_app e d f xs" "cbb_app_weak e d g ys"
  shows "cbb_app_weak e d (\<lambda>s. and_then (f s) g) (xs @ ys)"
  unfolding cbb_app_weak_def
proof (intro conjI allI impI)
  fix s zs ok s'
  assume a: "cbb_at d s zs" "and_then (f s) g = (ok, s')"
  obtain ok1 s1 where f: "f s = (ok1, s1)" by (cases "f s")
  note F = cbb_app_at [OF assms(1) a(1) f]
  show "if ok then cbb_at d s' (zs @ xs @ ys) \<and> take d (cbb_chain s') = take d (cbb_chain s) else cbb_failed s'"
  proof (cases ok1)
    case True
    then have at: "cbb_at d s1 (zs @ xs)" and g: "g s1 = (ok, s')" and c: "cbb_chain s1 = take d (cbb_chain s)"
      using F f a(2) by (simp_all add: and_then_def)
    from cbb_app_weak_at [OF assms(2) at g] c show ?thesis by (simp split: if_splits)
  qed (use F f a(2) in \<open>simp add: and_then_def\<close>)
next
  fix n s zs
  assume a: "heap_generous e" "cbb_ready n d s zs" "n + 8 * length (xs @ ys) \<le> 2 ^ 60"
  from a(3) have n1: "n + 8 * length xs \<le> 2 ^ 60" "n + length xs + 8 * length ys \<le> 2 ^ 60" by simp_all
  obtain s1 where s1: "f s = (True, s1)" "cbb_ready (n + length xs) d s1 (zs @ xs)"
    "cbb_chain s1 = take d (cbb_chain s)"
    using cbb_app_ready [OF assms(1) a(1,2) n1(1)] by blast
  obtain s2 where s2: "g s1 = (True, s2)" "cbb_ready (n + length xs + length ys) d s2 ((zs @ xs) @ ys)"
    "take d (cbb_chain s2) = take d (cbb_chain s1)"
    using cbb_app_weak_ready [OF assms(2) a(1) s1(2) n1(2)] by blast
  show "\<exists>s'. and_then (f s) g = (True, s') \<and> cbb_ready (n + length (xs @ ys)) d s' (zs @ xs @ ys)
    \<and> take d (cbb_chain s') = take d (cbb_chain s)"
    using s1 s2 by (simp add: and_then_def add.assoc)
qed

end
