(* ===== verification/CBS.thy ===== *)
theory CBS
  imports Mem
begin

text \<open>
  The byte-string reader of \<open>crypto/bytestring/cbs.c\<close>: the untyped and fixed-width
  reads.  A \<open>CBS\<close> is a pointer and a length.  The pointer is modelled by the bytes
  readable from it onward, so that a read past \<open>len\<close> would be visible; \<open>cbs_view\<close> is
  the byte string the reader denotes.

  Every C function with a result of zero or one and out-parameters becomes a function to
  \<open>'a option \<times> cbs\<close>: \<open>None\<close> is the result zero, and the second component is the reader
  afterwards, which some functions leave advanced when they fail.
\<close>

record cbs =
  c_data :: bytes
  c_len :: nat

definition CBS_init :: "bytes \<Rightarrow> nat \<Rightarrow> cbs" where
  "CBS_init data n = \<lparr>c_data = data, c_len = n\<rparr>"

definition cbs_get :: "cbs \<Rightarrow> nat \<Rightarrow> bytes option \<times> cbs" where
  "cbs_get cbs n =
     (if c_len cbs < n then (None, cbs)
      else (Some (c_data cbs), cbs\<lparr>c_data := drop n (c_data cbs), c_len := c_len cbs - n\<rparr>))"

definition CBS_skip :: "cbs \<Rightarrow> nat \<Rightarrow> unit option \<times> cbs" where
  "CBS_skip cbs n = (case cbs_get cbs n of (None, c) \<Rightarrow> (None, c) | (Some _, c) \<Rightarrow> (Some (), c))"

definition CBS_data :: "cbs \<Rightarrow> bytes" where
  "CBS_data cbs = c_data cbs"

definition CBS_len :: "cbs \<Rightarrow> nat" where
  "CBS_len cbs = c_len cbs"

text \<open>
  \<open>CBS_stow\<close> sets \<open>*out_ptr\<close> and \<open>*out_len\<close> on every path; the result pairs them with
  the return value.
\<close>

definition CBS_stow :: "heap_env \<Rightarrow> cbs \<Rightarrow> bool \<times> bytes option \<times> nat" where
  "CBS_stow e cbs =
     (if c_len cbs = 0 then (True, None, 0)
      else (case BUF_memdup e (c_data cbs) (c_len cbs) of
              None \<Rightarrow> (False, None, 0)
            | Some p \<Rightarrow> (True, Some p, c_len cbs)))"

definition CBS_strdup :: "heap_env \<Rightarrow> cbs \<Rightarrow> bytes option" where
  "CBS_strdup e cbs = BUF_strndup e (Some (c_data cbs)) (c_len cbs)"

text \<open>The standard library's \<open>memchr\<close>.\<close>

fun memchr :: "bytes \<Rightarrow> u8 \<Rightarrow> nat \<Rightarrow> bytes option" where
  "memchr (b # bs) c (Suc n) = (if b = c then Some (b # bs) else memchr bs c n)"
| "memchr _ _ _ = None"

definition CBS_contains_zero_byte :: "cbs \<Rightarrow> bool" where
  "CBS_contains_zero_byte cbs = (memchr (c_data cbs) 0 (c_len cbs) \<noteq> None)"

definition CBS_mem_equal :: "cbs \<Rightarrow> bytes \<Rightarrow> nat \<Rightarrow> bool" where
  "CBS_mem_equal cbs data n =
     (if n \<noteq> c_len cbs then False else CRYPTO_memcmp (c_data cbs) data n = 0)"

definition get_u_step :: "u32 \<Rightarrow> u8 \<Rightarrow> u32" where
  "get_u_step result b = push_bit 8 result OR ucast b"

definition cbs_get_u :: "cbs \<Rightarrow> nat \<Rightarrow> u32 option \<times> cbs" where
  "cbs_get_u cbs n =
     (case cbs_get cbs n of
        (None, c) \<Rightarrow> (None, c)
      | (Some data, c) \<Rightarrow> (Some (foldl get_u_step 0 (take n data)), c))"

definition CBS_get_u8 :: "cbs \<Rightarrow> u8 option \<times> cbs" where
  "CBS_get_u8 cbs = (case cbs_get cbs 1 of (None, c) \<Rightarrow> (None, c) | (Some v, c) \<Rightarrow> (Some (v ! 0), c))"

definition CBS_get_u16 :: "cbs \<Rightarrow> u16 option \<times> cbs" where
  "CBS_get_u16 cbs = (case cbs_get_u cbs 2 of (None, c) \<Rightarrow> (None, c) | (Some v, c) \<Rightarrow> (Some (ucast v), c))"

definition CBS_get_u24 :: "cbs \<Rightarrow> u32 option \<times> cbs" where
  "CBS_get_u24 cbs = cbs_get_u cbs 3"

definition CBS_get_u32 :: "cbs \<Rightarrow> u32 option \<times> cbs" where
  "CBS_get_u32 cbs = cbs_get_u cbs 4"

definition CBS_get_last_u8 :: "cbs \<Rightarrow> u8 option \<times> cbs" where
  "CBS_get_last_u8 cbs =
     (if c_len cbs = 0 then (None, cbs)
      else (Some (c_data cbs ! (c_len cbs - 1)), cbs\<lparr>c_len := c_len cbs - 1\<rparr>))"

definition CBS_get_bytes :: "cbs \<Rightarrow> nat \<Rightarrow> cbs option \<times> cbs" where
  "CBS_get_bytes cbs n =
     (case cbs_get cbs n of (None, c) \<Rightarrow> (None, c) | (Some v, c) \<Rightarrow> (Some (CBS_init v n), c))"

definition CBS_copy_bytes :: "cbs \<Rightarrow> nat \<Rightarrow> bytes option \<times> cbs" where
  "CBS_copy_bytes cbs n =
     (case cbs_get cbs n of (None, c) \<Rightarrow> (None, c) | (Some v, c) \<Rightarrow> (Some (take n v), c))"

definition cbs_get_length_prefixed :: "cbs \<Rightarrow> nat \<Rightarrow> cbs option \<times> cbs" where
  "cbs_get_length_prefixed cbs len_len =
     (case cbs_get_u cbs len_len of
        (None, c) \<Rightarrow> (None, c)
      | (Some n, c) \<Rightarrow> CBS_get_bytes c (unat n))"

definition CBS_get_u8_length_prefixed :: "cbs \<Rightarrow> cbs option \<times> cbs" where
  "CBS_get_u8_length_prefixed cbs = cbs_get_length_prefixed cbs 1"

definition CBS_get_u16_length_prefixed :: "cbs \<Rightarrow> cbs option \<times> cbs" where
  "CBS_get_u16_length_prefixed cbs = cbs_get_length_prefixed cbs 2"

definition CBS_get_u24_length_prefixed :: "cbs \<Rightarrow> cbs option \<times> cbs" where
  "CBS_get_u24_length_prefixed cbs = cbs_get_length_prefixed cbs 3"

section \<open>The byte string a reader denotes\<close>

definition cbs_view :: "cbs \<Rightarrow> bytes" where
  "cbs_view c = take (c_len c) (c_data c)"

definition cbs_wf :: "cbs \<Rightarrow> bool" where
  "cbs_wf c \<longleftrightarrow> c_len c \<le> length (c_data c) \<and> c_len c < 2 ^ 64"

lemma length_cbs_view [simp]: "cbs_wf c \<Longrightarrow> length (cbs_view c) = c_len c"
  by (simp add: cbs_wf_def cbs_view_def)

text \<open>The two ways a basic read ends.\<close>

lemma cbs_get_short: "c_len c < n \<Longrightarrow> cbs_get c n = (None, c)"
  by (simp add: cbs_get_def)

definition cbs_advance :: "cbs \<Rightarrow> nat \<Rightarrow> cbs" where
  "cbs_advance c n = c\<lparr>c_data := drop n (c_data c), c_len := c_len c - n\<rparr>"

lemma cbs_get_ok: "n \<le> c_len c \<Longrightarrow> cbs_get c n = (Some (c_data c), cbs_advance c n)"
  by (simp add: cbs_get_def cbs_advance_def)

lemma cbs_advance_wf: "cbs_wf c \<Longrightarrow> n \<le> c_len c \<Longrightarrow> cbs_wf (cbs_advance c n)"
  by (auto simp: cbs_wf_def cbs_advance_def)

lemma cbs_advance_view: "cbs_wf c \<Longrightarrow> cbs_view (cbs_advance c n) = drop n (cbs_view c)"
  by (simp add: cbs_view_def cbs_advance_def drop_take)

lemma cbs_advance_len [simp]: "c_len (cbs_advance c n) = c_len c - n"
  by (simp add: cbs_advance_def)

lemma take_data_view: "n \<le> c_len c \<Longrightarrow> take n (c_data c) = take n (cbs_view c)"
  by (simp add: cbs_view_def min_def)

lemma CBS_init_view [simp]: "n \<le> length d \<Longrightarrow> cbs_view (CBS_init d n) = take n d"
  by (simp add: CBS_init_def cbs_view_def)

lemma CBS_init_wf: "n \<le> length d \<Longrightarrow> n < 2 ^ 64 \<Longrightarrow> cbs_wf (CBS_init d n)"
  by (simp add: CBS_init_def cbs_wf_def)

lemma CBS_init_len [simp]: "c_len (CBS_init d n) = n"
  by (simp add: CBS_init_def)

lemma get_u_step_eq: "get_u_step r b = r * 256 + ucast b"
proof -
  have "unat (ucast b :: u32) < 2 ^ 8" using unat_u8_lt [of b] by (simp add: unat_ucast)
  then have "push_bit 8 r OR ucast b = push_bit 8 r + ucast b" by (rule push_bit_or_low)
  then show ?thesis by (simp add: get_u_step_def push_bit_eq_mult)
qed

lemma get_u_fold: "foldl get_u_step 0 bs = of_nat (be_val bs)"
proof (induction bs rule: rev_induct)
  case (snoc b bs)
  then show ?case by (simp add: get_u_step_eq mult.commute)
qed simp

lemma cbs_get_u_eq:
  assumes "cbs_wf c"
  shows "cbs_get_u c n = (if c_len c < n then (None, c)
    else (Some (of_nat (be_val (take n (cbs_view c)))), cbs_advance c n))"
  using assms
  by (cases "c_len c < n") (auto simp: cbs_get_u_def cbs_get_short cbs_get_ok get_u_fold take_data_view)

lemma unat_of_be_val:
  assumes "length bs \<le> 4"
  shows "unat (of_nat (be_val bs) :: u32) = be_val bs"
proof -
  have "(256 :: nat) ^ length bs \<le> 256 ^ 4" using assms by (intro power_increasing) auto
  with be_val_less [of bs] have "be_val bs < 2 ^ 32" by simp
  then show ?thesis by (simp add: unat_of_nat)
qed

lemma CBS_get_u8_eq:
  assumes "cbs_wf c"
  shows "CBS_get_u8 c = (case cbs_view c of [] \<Rightarrow> (None, c) | b # _ \<Rightarrow> (Some b, cbs_advance c 1))"
proof (cases "c_len c")
  case 0
  then show ?thesis by (simp add: CBS_get_u8_def cbs_get_short cbs_view_def)
next
  case (Suc k)
  with assms obtain b d where "c_data c = b # d" by (cases "c_data c") (auto simp: cbs_wf_def)
  with Suc show ?thesis by (simp add: CBS_get_u8_def cbs_get_ok cbs_view_def)
qed

lemma CBS_get_bytes_eq:
  assumes "cbs_wf c"
  shows "CBS_get_bytes c n = (if c_len c < n then (None, c) else (Some (CBS_init (c_data c) n), cbs_advance c n))"
  by (auto simp: CBS_get_bytes_def cbs_get_short cbs_get_ok)

lemma memchr_None_iff: "memchr bs c n = None \<longleftrightarrow> c \<notin> set (take n bs)"
  by (induction bs c n rule: memchr.induct) auto

lemma CBS_contains_zero_byte_iff: "CBS_contains_zero_byte c \<longleftrightarrow> 0 \<in> set (cbs_view c)"
  using memchr_None_iff [of "c_data c" 0 "c_len c"]
  by (simp add: CBS_contains_zero_byte_def cbs_view_def)

lemma CBS_mem_equal_iff:
  assumes "cbs_wf c" "n \<le> length data"
  shows "CBS_mem_equal c data n \<longleftrightarrow> cbs_view c = take n data"
  using assms
  by (auto simp: CBS_mem_equal_def CRYPTO_memcmp_zero_iff cbs_wf_def cbs_view_def
      dest: arg_cong [where f = length])

end
