(* ===== verification/CBS_ASN1.thy ===== *)
theory CBS_ASN1
  imports CBS DER_Spec
begin

text \<open>
  The ASN.1 half of \<open>crypto/bytestring/cbs.c\<close>: base-128 integers, tags, elements and the
  readers built on them, with the proof that the DER reader accepts exactly the
  specification's encodings.
\<close>

section \<open>Base-128 integers and tags\<close>

lemma CBS_get_u8_len:
  "CBS_get_u8 c = (Some b, c') \<Longrightarrow> c_len c' < c_len c"
  by (auto simp: CBS_get_u8_def cbs_get_def split: if_splits)

function parse_base128_loop :: "cbs \<Rightarrow> u64 \<Rightarrow> u64 option \<times> cbs" where
  "parse_base128_loop cbs v =
     (case CBS_get_u8 cbs of
        (None, c) \<Rightarrow> (None, c)
      | (Some b, c) \<Rightarrow>
          if drop_bit (64 - 7) v \<noteq> 0 then (None, c)
          else if v = 0 \<and> b = 0x80 then (None, c)
          else let v = push_bit 7 v OR ucast (b AND 0x7f) in
            if b AND 0x80 \<noteq> 0 then parse_base128_loop c v else (Some v, c))"
  by pat_completeness auto
termination
  by (relation "measure (\<lambda>(c, v). c_len c)") (auto dest: CBS_get_u8_len [OF sym])

declare parse_base128_loop.simps [simp del]

definition parse_base128_integer :: "cbs \<Rightarrow> u64 option \<times> cbs" where
  "parse_base128_integer cbs = parse_base128_loop cbs 0"

definition parse_asn1_tag :: "cbs \<Rightarrow> u32 option \<times> cbs" where
  "parse_asn1_tag cbs =
     (case CBS_get_u8 cbs of
        (None, c) \<Rightarrow> (None, c)
      | (Some tag_byte, c) \<Rightarrow>
          let tag = push_bit CBS_ASN1_TAG_SHIFT (ucast tag_byte AND 0xe0 :: u32);
              tag_number = ucast (tag_byte AND 0x1f) :: u32 in
          if tag_number = 0x1f then
            (case parse_base128_integer c of
               (None, c) \<Rightarrow> (None, c)
             | (Some v, c) \<Rightarrow>
                 if v > ucast CBS_ASN1_TAG_NUMBER_MASK \<or> v < 0x1f then (None, c)
                 else (Some (tag OR ucast v), c))
          else (Some (tag OR tag_number), c))"

section \<open>Elements\<close>

text \<open>
  The result is the element with its header, the tag and the length of the header.  The
  header is parsed on a copy, so the reader moves only when the whole element is there.
\<close>

definition cbs_get_any_asn1_element :: "cbs \<Rightarrow> bool \<Rightarrow> (cbs \<times> u32 \<times> nat) option \<times> cbs" where
  "cbs_get_any_asn1_element cbs ber_ok =
     (case parse_asn1_tag cbs of
        (None, _) \<Rightarrow> (None, cbs)
      | (Some tag, header) \<Rightarrow>
     (case CBS_get_u8 header of
        (None, _) \<Rightarrow> (None, cbs)
      | (Some length_byte, header) \<Rightarrow>
          let header_len = CBS_len cbs - CBS_len header in
          if length_byte AND 0x80 = 0 then
            (case CBS_get_bytes cbs (size_add (unat length_byte) header_len) of
               (None, c) \<Rightarrow> (None, c)
             | (Some out, c) \<Rightarrow> (Some (out, tag, header_len), c))
          else
            let num_bytes = unat (length_byte AND 0x7f) in
            if ber_ok \<and> tag AND CBS_ASN1_CONSTRUCTED \<noteq> 0 \<and> num_bytes = 0 then
              (case CBS_get_bytes cbs header_len of
                 (None, c) \<Rightarrow> (None, c)
               | (Some out, c) \<Rightarrow> (Some (out, tag, header_len), c))
            else if num_bytes = 0 \<or> num_bytes > 4 then (None, cbs)
            else (case cbs_get_u header num_bytes of
                    (None, _) \<Rightarrow> (None, cbs)
                  | (Some len32, _) \<Rightarrow>
                      if len32 < 128 then (None, cbs)
                      else if drop_bit ((num_bytes - 1) * 8) len32 = 0 then (None, cbs)
                      else
                        let n = unat len32 in
                        if size_add (size_add n header_len) num_bytes < n then (None, cbs)
                        else
                          let n = size_add n (size_add header_len num_bytes) in
                          (case CBS_get_bytes cbs n of
                             (None, c) \<Rightarrow> (None, c)
                           | (Some out, c) \<Rightarrow> (Some (out, tag, header_len + num_bytes), c)))))"

definition CBS_get_any_asn1_element :: "cbs \<Rightarrow> (cbs \<times> u32 \<times> nat) option \<times> cbs" where
  "CBS_get_any_asn1_element cbs = cbs_get_any_asn1_element cbs False"

definition CBS_get_any_ber_asn1_element :: "cbs \<Rightarrow> (cbs \<times> u32 \<times> nat) option \<times> cbs" where
  "CBS_get_any_ber_asn1_element cbs = cbs_get_any_asn1_element cbs True"

definition CBS_get_any_asn1 :: "cbs \<Rightarrow> (cbs \<times> u32) option \<times> cbs" where
  "CBS_get_any_asn1 cbs =
     (case CBS_get_any_asn1_element cbs of
        (None, c) \<Rightarrow> (None, c)
      | (Some (out, tag, header_len), c) \<Rightarrow>
          (case CBS_skip out header_len of
             (None, _) \<Rightarrow> (None, c)
           | (Some _, out) \<Rightarrow> (Some (out, tag), c)))"

definition cbs_get_asn1 :: "cbs \<Rightarrow> u32 \<Rightarrow> bool \<Rightarrow> cbs option \<times> cbs" where
  "cbs_get_asn1 cbs tag_value skip_header =
     (case CBS_get_any_asn1_element cbs of
        (None, c) \<Rightarrow> (None, c)
      | (Some (out, tag, header_len), c) \<Rightarrow>
          if tag \<noteq> tag_value then (None, c)
          else if skip_header then
            (case CBS_skip out header_len of
               (None, _) \<Rightarrow> (None, c)
             | (Some _, out) \<Rightarrow> (Some out, c))
          else (Some out, c))"

definition CBS_get_asn1 :: "cbs \<Rightarrow> u32 \<Rightarrow> cbs option \<times> cbs" where
  "CBS_get_asn1 cbs tag_value = cbs_get_asn1 cbs tag_value True"

definition CBS_get_asn1_element :: "cbs \<Rightarrow> u32 \<Rightarrow> cbs option \<times> cbs" where
  "CBS_get_asn1_element cbs tag_value = cbs_get_asn1 cbs tag_value False"

definition CBS_peek_asn1_tag :: "cbs \<Rightarrow> u32 \<Rightarrow> bool" where
  "CBS_peek_asn1_tag cbs tag_value =
     (if CBS_len cbs < 1 then False
      else (case parse_asn1_tag cbs of
              (None, _) \<Rightarrow> False
            | (Some actual_tag, _) \<Rightarrow> tag_value = actual_tag))"

section \<open>Integers, booleans and optional elements\<close>

fun asn1_uint64_loop :: "bytes \<Rightarrow> u64 \<Rightarrow> u64 option" where
  "asn1_uint64_loop [] out = Some out"
| "asn1_uint64_loop (b # bs) out =
     (if drop_bit 56 out \<noteq> 0 then None
      else asn1_uint64_loop bs (push_bit 8 out OR ucast b))"

definition CBS_get_asn1_uint64 :: "cbs \<Rightarrow> u64 option \<times> cbs" where
  "CBS_get_asn1_uint64 cbs =
     (case CBS_get_asn1 cbs CBS_ASN1_INTEGER of
        (None, c) \<Rightarrow> (None, c)
      | (Some bytes, c) \<Rightarrow>
          let data = CBS_data bytes; n = CBS_len bytes in
          if n = 0 then (None, c)
          else if data ! 0 AND 0x80 \<noteq> 0 then (None, c)
          else if data ! 0 = 0 \<and> n > 1 \<and> data ! 1 AND 0x80 = 0 then (None, c)
          else (asn1_uint64_loop (take n data) 0, c))"

definition CBS_get_asn1_bool :: "cbs \<Rightarrow> bool option \<times> cbs" where
  "CBS_get_asn1_bool cbs =
     (case CBS_get_asn1 cbs CBS_ASN1_BOOLEAN of
        (None, c) \<Rightarrow> (None, c)
      | (Some bytes, c) \<Rightarrow>
          if CBS_len bytes \<noteq> 1 then (None, c)
          else let v = CBS_data bytes ! 0 in
            if v \<noteq> 0 \<and> v \<noteq> 0xff then (None, c) else (Some (v \<noteq> 0), c))"

text \<open>
  The optional readers: \<open>Some None\<close> is success with the element absent.
\<close>

definition CBS_get_optional_asn1 :: "cbs \<Rightarrow> u32 \<Rightarrow> cbs option option \<times> cbs" where
  "CBS_get_optional_asn1 cbs tag =
     (if CBS_peek_asn1_tag cbs tag
      then (case CBS_get_asn1 cbs tag of
              (None, c) \<Rightarrow> (None, c)
            | (Some out, c) \<Rightarrow> (Some (Some out), c))
      else (Some None, cbs))"

text \<open>The result of the next function is the string and the flag \<open>*out_present\<close>.\<close>

definition CBS_get_optional_asn1_octet_string :: "cbs \<Rightarrow> u32 \<Rightarrow> (cbs \<times> bool) option \<times> cbs" where
  "CBS_get_optional_asn1_octet_string cbs tag =
     (case CBS_get_optional_asn1 cbs tag of
        (None, c) \<Rightarrow> (None, c)
      | (Some (Some child), c) \<Rightarrow>
          (case CBS_get_asn1 child CBS_ASN1_OCTETSTRING of
             (None, _) \<Rightarrow> (None, c)
           | (Some out, child) \<Rightarrow> if CBS_len child \<noteq> 0 then (None, c) else (Some (out, True), c))
      | (Some None, c) \<Rightarrow> (Some (CBS_init [] 0, False), c))"

definition CBS_get_optional_asn1_uint64 :: "cbs \<Rightarrow> u32 \<Rightarrow> u64 \<Rightarrow> u64 option \<times> cbs" where
  "CBS_get_optional_asn1_uint64 cbs tag default_value =
     (case CBS_get_optional_asn1 cbs tag of
        (None, c) \<Rightarrow> (None, c)
      | (Some (Some child), c) \<Rightarrow>
          (case CBS_get_asn1_uint64 child of
             (None, _) \<Rightarrow> (None, c)
           | (Some out, child) \<Rightarrow> if CBS_len child \<noteq> 0 then (None, c) else (Some out, c))
      | (Some None, c) \<Rightarrow> (Some default_value, c))"

definition CBS_get_optional_asn1_bool :: "cbs \<Rightarrow> u32 \<Rightarrow> bool \<Rightarrow> bool option \<times> cbs" where
  "CBS_get_optional_asn1_bool cbs tag default_value =
     (case CBS_get_optional_asn1 cbs tag of
        (None, c) \<Rightarrow> (None, c)
      | (Some (Some child), c) \<Rightarrow>
          (case CBS_get_asn1 child CBS_ASN1_BOOLEAN of
             (None, _) \<Rightarrow> (None, c)
           | (Some child2, child) \<Rightarrow>
               if CBS_len child2 \<noteq> 1 \<or> CBS_len child \<noteq> 0 then (None, c)
               else let boolean = CBS_data child2 ! 0 in
                 if boolean = 0 then (Some False, c)
                 else if boolean = 0xff then (Some True, c)
                 else (None, c))
      | (Some None, c) \<Rightarrow> (Some default_value, c))"

section \<open>Bit strings\<close>

definition CBS_is_valid_asn1_bitstring :: "cbs \<Rightarrow> bool" where
  "CBS_is_valid_asn1_bitstring cbs =
     (case CBS_get_u8 cbs of
        (None, _) \<Rightarrow> False
      | (Some num_unused_bits, inp) \<Rightarrow>
          if num_unused_bits > 7 then False
          else if num_unused_bits = 0 then True
          else (case CBS_get_last_u8 inp of
                  (None, _) \<Rightarrow> False
                | (Some last_byte, _) \<Rightarrow> last_byte AND (push_bit (unat num_unused_bits) 1 - 1) = 0))"

definition CBS_asn1_bitstring_has_bit :: "cbs \<Rightarrow> u32 \<Rightarrow> bool" where
  "CBS_asn1_bitstring_has_bit cbs b =
     (if \<not> CBS_is_valid_asn1_bitstring cbs then False
      else let byte_num = drop_bit 3 b + 1; bit_num = 7 - (b AND 7) in
        unat byte_num < CBS_len cbs
        \<and> (CBS_data cbs ! unat byte_num) AND push_bit (unat bit_num) 1 \<noteq> 0)"

section \<open>Base 128: the reader inverts the specification\<close>

lemma CBS_get_u8_Some:
  assumes "cbs_wf c" "CBS_get_u8 c = (Some b, c')"
  shows "cbs_view c = b # cbs_view c'" "c' = cbs_advance c 1" "cbs_wf c'" "1 \<le> c_len c"
proof -
  obtain bs where v: "cbs_view c = b # bs" and c': "c' = cbs_advance c 1"
    using assms by (auto simp: CBS_get_u8_eq split: list.splits)
  have "1 \<le> c_len c" using v length_cbs_view [OF assms(1)] by auto
  with assms(1) v c' show "cbs_view c = b # cbs_view c'" "c' = cbs_advance c 1" "cbs_wf c'" "1 \<le> c_len c"
    by (auto simp: cbs_advance_view intro: cbs_advance_wf)
qed

lemma CBS_get_u8_Cons:
  "cbs_wf c \<Longrightarrow> cbs_view c = b # bs \<Longrightarrow> CBS_get_u8 c = (Some b, cbs_advance c 1)"
  by (simp add: CBS_get_u8_eq)

lemma cbs_advance_advance [simp]: "cbs_advance (cbs_advance c m) n = cbs_advance c (m + n)"
  by (simp add: cbs_advance_def add.commute)

lemma cbs_advance_0 [simp]: "cbs_advance c 0 = c"
  by (simp add: cbs_advance_def)

lemma cbs_advance_append:
  assumes "cbs_wf c" "cbs_view c = bs @ rest"
  shows "cbs_wf (cbs_advance c (length bs))" "cbs_view (cbs_advance c (length bs)) = rest"
    "length bs \<le> c_len c"
proof -
  have "length bs \<le> c_len c" using length_cbs_view [OF assms(1)] assms(2) by simp
  with assms show "cbs_wf (cbs_advance c (length bs))" "cbs_view (cbs_advance c (length bs)) = rest"
    "length bs \<le> c_len c"
    by (auto simp: cbs_advance_view intro: cbs_advance_wf)
qed

lemma base128_step_value:
  assumes "drop_bit 57 (v :: u64) = 0"
  shows "unat (push_bit 7 v OR ucast (b AND 0x7f :: u8)) = unat v * 128 + unat b mod 128"
proof -
  have v: "unat v < 2 ^ 57"
    using unat_drop_bit [of 57 v] assms by (simp add: div_eq_0_iff)
  have b: "unat (ucast (b AND 0x7f :: u8) :: u64) = unat b mod 128"
    by (simp add: unat_ucast_up u8_low7)
  have "push_bit 7 v OR ucast (b AND 0x7f) = push_bit 7 v + ucast (b AND 0x7f)"
    by (rule push_bit_or_low) (simp add: b)
  moreover have "unat (push_bit 7 v) = unat v * 128" using v by (simp add: unat_push_bit)
  ultimately show ?thesis
    using v b by (subst \<open>_ = push_bit 7 v + _\<close>) (simp add: unat_word_ariths)
qed

lemma b128_hi_snoc:
  assumes "128 \<le> unat (b :: u8)" "\<not> (n = 0 \<and> b = 0x80)"
  shows "b128_hi (n * 128 + unat b mod 128) = b128_hi n @ [b]"
proof -
  have b: "unat b mod 128 = unat b - 128" using assms(1) unat_u8_lt [of b] by (simp add: mod_if)
  have "unat b \<noteq> 128 \<or> n \<noteq> 0" using assms(2) by (auto simp: word_unat_eq_iff)
  then have "0 < n * 128 + unat b mod 128" using assms(1) b by auto
  then have "b128_hi (n * 128 + unat b mod 128)
      = b128_hi ((n * 128 + unat b mod 128) div 128) @ [of_nat (128 + (n * 128 + unat b mod 128) mod 128)]"
    by (rule b128_hi_step)
  moreover have "(n * 128 + unat b mod 128) div 128 = n" by simp
  moreover have "128 + (n * 128 + unat b mod 128) mod 128 = unat b"
    unfolding mod_mult_self3 mod_mod_trivial b using assms(1) unat_u8_lt [of b] by simp
  ultimately show ?thesis by (simp only: of_nat_unat_u8)
qed

lemma parse_base128_sound:
  assumes "cbs_wf c" "parse_base128_loop c v = (Some w, c')"
  shows "\<exists>bs. cbs_view c = bs @ cbs_view c' \<and> c' = cbs_advance c (length bs)
    \<and> b128_hi (unat v) @ bs = base128 (unat w)"
  using assms
proof (induction c v rule: parse_base128_loop.induct)
  case (1 c v)
  obtain b c1 where g: "CBS_get_u8 c = (Some b, c1)" and d: "drop_bit 57 v = 0"
    and nz: "\<not> (v = 0 \<and> b = 0x80)"
    using "1.prems"(2) by (auto simp: parse_base128_loop.simps [of c] split: prod.splits option.splits if_splits)
  note c1 = CBS_get_u8_Some [OF "1.prems"(1) g]
  define v' where "v' = push_bit 7 v OR ucast (b AND 0x7f)"
  have v': "unat v' = unat v * 128 + unat b mod 128"
    unfolding v'_def using d by (rule base128_step_value)
  show ?case
  proof (cases "b AND 0x80 = 0")
    case True
    then have "unat b < 128" by (simp add: u8_high_bit)
    then have "base128 (unat v') = b128_hi (unat v) @ [b]" unfolding base128_def v' by simp
    moreover have "w = v'" "c' = c1"
      using "1.prems"(2) True g d nz by (auto simp: parse_base128_loop.simps [of c] v'_def Let_def)
    ultimately show ?thesis using c1 by (intro exI [of _ "[b]"]) simp
  next
    case False
    have rec: "parse_base128_loop c1 v' = (Some w, c')"
      using "1.prems"(2) False g d nz by (auto simp: parse_base128_loop.simps [of c] v'_def Let_def)
    have d': "\<not> drop_bit (64 - 7) v \<noteq> 0" using d by simp
    obtain bs where bs: "cbs_view c1 = bs @ cbs_view c'" "c' = cbs_advance c1 (length bs)"
      "b128_hi (unat v') @ bs = base128 (unat w)"
      using "1.IH" [OF g [symmetric] refl d' nz v'_def False c1(3) rec] by blast
    have "b128_hi (unat v') = b128_hi (unat v) @ [b]"
      unfolding v' using False nz by (intro b128_hi_snoc) (auto simp: u8_high_bit unat_eq_zero)
    with bs c1 show ?thesis by (intro exI [of _ "b # bs"]) simp
  qed
qed

lemma parse_base128_hi:
  assumes "cbs_wf c" "cbs_view c = b128_hi n @ rest" "n < 2 ^ 57"
  shows "parse_base128_loop c 0 = parse_base128_loop (cbs_advance c (length (b128_hi n))) (of_nat n)"
  using assms
proof (induction n arbitrary: rest rule: b128_hi.induct)
  case (1 n)
  show ?case
  proof (cases "n = 0")
    case False
    define d where "d = (of_nat (128 + n mod 128) :: u8)"
    have ud: "unat d = 128 + n mod 128" unfolding d_def by (rule unat_of_nat_u8) simp
    have hi: "b128_hi n = b128_hi (n div 128) @ [d]" using False by (simp add: b128_hi_step d_def)
    define c1 where "c1 = cbs_advance c (length (b128_hi (n div 128)))"
    have v1: "cbs_view c = b128_hi (n div 128) @ (d # rest)" using "1.prems"(2) hi by simp
    have lt: "n div 128 < 2 ^ 50" using "1.prems"(3) by simp
    then have lt57: "n div 128 < 2 ^ 57" by simp
    note a = cbs_advance_append [OF "1.prems"(1) v1, folded c1_def]
    have IH: "parse_base128_loop c 0 = parse_base128_loop c1 (of_nat (n div 128))"
      unfolding c1_def using "1.IH" [OF False "1.prems"(1) v1 lt57] .
    have u: "unat (of_nat (n div 128) :: u64) = n div 128" using lt by (simp add: unat_of_nat)
    then have dr: "drop_bit 57 (of_nat (n div 128) :: u64) = 0"
      using lt by (simp add: word_unat_eq_iff unat_drop_bit)
    have nz: "\<not> ((of_nat (n div 128) :: u64) = 0 \<and> d = 0x80)"
      using False u ud by (auto simp: word_unat_eq_iff)
    have step: "push_bit 7 (of_nat (n div 128)) OR ucast (d AND 0x7f) = (of_nat n :: u64)"
      using base128_step_value [OF dr, of d] u ud "1.prems"(3)
      by (simp add: word_unat_eq_iff unat_of_nat)
    have "d AND 0x80 \<noteq> 0" using ud by (simp add: u8_high_bit)
    with a dr nz step have "parse_base128_loop c1 (of_nat (n div 128)) = parse_base128_loop (cbs_advance c1 1) (of_nat n)"
      by (subst parse_base128_loop.simps) (auto simp: CBS_get_u8_Cons Let_def)
    with IH hi show ?thesis by (simp add: c1_def)
  qed (use "1.prems" in simp)
qed

lemma parse_base128_complete:
  assumes "cbs_wf c" "cbs_view c = base128 n @ rest" "n < 2 ^ 64"
  shows "parse_base128_integer c = (Some (of_nat n), cbs_advance c (length (base128 n)))"
proof -
  define d where "d = (of_nat (n mod 128) :: u8)"
  have ud: "unat d = n mod 128" unfolding d_def by (rule unat_of_nat_u8) simp
  define c1 where "c1 = cbs_advance c (length (b128_hi (n div 128)))"
  have v1: "cbs_view c = b128_hi (n div 128) @ (d # rest)" using assms(2) by (simp add: base128_def d_def)
  note a = cbs_advance_append [OF assms(1) v1, folded c1_def]
  have lt: "n div 128 < 2 ^ 57" using assms(3) by simp
  have hi: "parse_base128_loop c 0 = parse_base128_loop c1 (of_nat (n div 128))"
    unfolding c1_def using parse_base128_hi [OF assms(1) v1 lt] .
  have u: "unat (of_nat (n div 128) :: u64) = n div 128" using lt by (simp add: unat_of_nat)
  then have dr: "drop_bit 57 (of_nat (n div 128) :: u64) = 0"
    using lt by (simp add: word_unat_eq_iff unat_drop_bit)
  have step: "push_bit 7 (of_nat (n div 128)) OR ucast (d AND 0x7f) = (of_nat n :: u64)"
    using base128_step_value [OF dr, of d] u ud assms(3)
    by (simp add: word_unat_eq_iff unat_of_nat)
  have "d AND 0x80 = 0" using ud by (simp add: u8_high_bit)
  moreover have "d \<noteq> 0x80" using ud by (auto simp: word_unat_eq_iff)
  ultimately have "parse_base128_loop c1 (of_nat (n div 128)) = (Some (of_nat n), cbs_advance c1 1)"
    using a dr step
    by (subst parse_base128_loop.simps) (simp add: CBS_get_u8_Cons Let_def)
  with hi show ?thesis by (simp add: parse_base128_integer_def c1_def base128_def)
qed

section \<open>Tags\<close>

text \<open>A tag is the disjoint sum of its class bits and its number.\<close>

lemma class_bits_eq: "(x :: u32) AND 0xe0 = push_bit 5 (take_bit 3 (drop_bit 5 x))"
proof -
  have "(0xe0 :: u32) = push_bit 5 (mask 3)" by (simp add: mask_eq_exp_minus_1)
  show ?thesis by (subst \<open>0xe0 = _\<close>) (rule bit_word_eqI, auto simp: bit_simps)
qed

definition tag_word :: "u8 \<Rightarrow> nat \<Rightarrow> u32" where
  "tag_word b n = push_bit 24 (ucast b AND 0xe0) OR of_nat n"

lemma unat_tag_word:
  assumes "n < 2 ^ 29"
  shows "unat (tag_word b n) = unat b div 32 * 2 ^ 29 + n"
proof -
  have un: "unat (of_nat n :: u32) = n" using assms by (simp add: unat_of_nat)
  define c where "c = (take_bit 3 (drop_bit 5 (ucast b :: u32)))"
  have "push_bit 24 (ucast b AND 0xe0 :: u32) = push_bit 29 c"
    by (simp only: class_bits_eq c_def push_bit_push_bit) simp
  then have "tag_word b n = push_bit 29 c OR of_nat n" by (simp add: tag_word_def)
  also have "\<dots> = push_bit 29 c + of_nat n" by (rule push_bit_or_low) (use assms un in simp)
  finally have eq: "tag_word b n = push_bit 29 c + of_nat n" .
  have lt: "unat b div 32 < 8" using unat_u8_lt [of b] by simp
  have "unat c = unat b div 32"
    unfolding c_def take_bit_eq_mask unat_and_mask unat_drop_bit
    using lt by (simp add: unat_ucast_up)
  then have "unat (push_bit 29 c) = unat b div 32 * 2 ^ 29"
    using lt by (simp add: unat_push_bit)
  then show ?thesis unfolding eq using lt un assms by (simp add: unat_word_ariths)
qed

lemma tag_class_byte: "unat (ucast (drop_bit 24 (t :: u32)) AND 0xe0 :: u8) = unat t div 2 ^ 29 * 32"
proof -
  have e0: "(0xe0 :: u8) = push_bit 5 (mask 3)" by (simp add: mask_eq_exp_minus_1)
  have "ucast (drop_bit 24 t) AND 0xe0 = (push_bit 5 (ucast (drop_bit 29 t)) :: u8)"
    unfolding e0 by (rule bit_word_eqI) (auto simp: bit_simps)
  moreover have "unat (ucast (drop_bit 29 t) :: u8) = unat t div 2 ^ 29"
    using unat_u32_lt [of t] by (simp add: unat_ucast unat_drop_bit)
  moreover have "unat t div 2 ^ 29 < 8" using unat_u32_lt [of t] by simp
  ultimately show ?thesis by (simp add: unat_push_bit)
qed

lemma unat_tag_byte:
  assumes "m < 32"
  shows "unat ((ucast (drop_bit 24 (t :: u32)) AND 0xe0 :: u8) OR of_nat m) = unat t div 2 ^ 29 * 32 + m"
proof -
  define x where "x = (ucast (drop_bit 29 t) :: u8)"
  have e0: "(0xe0 :: u8) = push_bit 5 (mask 3)" by (simp add: mask_eq_exp_minus_1)
  have cls: "ucast (drop_bit 24 t) AND 0xe0 = push_bit 5 x"
    unfolding x_def e0 by (rule bit_word_eqI) (auto simp: bit_simps)
  have um: "unat (of_nat m :: u8) = m" using assms by (simp add: unat_of_nat)
  have "push_bit 5 x OR of_nat m = push_bit 5 x + of_nat m"
    by (rule push_bit_or_low) (use assms um in simp)
  moreover have "unat (push_bit 5 x) = unat t div 2 ^ 29 * 32"
    using tag_class_byte [of t] by (simp only: cls)
  moreover have "unat t div 2 ^ 29 < 8" using unat_u32_lt [of t] by simp
  ultimately show ?thesis using assms um by (simp add: cls unat_word_ariths)
qed

lemma der_tag_tag_word:
  assumes "n < 2 ^ 29" "unat b mod 32 = (if n < 31 then n else 31)"
  shows "der_tag (tag_word b n) = (if n < 31 then [b] else b # base128 n)"
proof -
  define m where "m = (if n < 31 then n else 31)"
  have u: "unat (tag_word b n) = unat b div 32 * 2 ^ 29 + n" using assms(1) by (rule unat_tag_word)
  have num: "unat (tag_word b n) mod 2 ^ 29 = n" using assms(1) by (simp add: u)
  have "unat (tag_word b n) div 2 ^ 29 = unat b div 32" using assms(1) by (simp add: u)
  moreover have "m < 32" by (simp add: m_def)
  ultimately have "unat ((ucast (drop_bit 24 (tag_word b n)) AND 0xe0 :: u8) OR of_nat m) = unat b"
    using unat_tag_byte [of m "tag_word b n"] assms(2) div_mult_mod_eq [of "unat b" 32]
    by (simp only: m_def [symmetric])
  then have "(ucast (drop_bit 24 (tag_word b n)) AND 0xe0) OR of_nat m = b"
    by (simp add: word_unat_eq_iff)
  then show ?thesis using num by (auto simp: der_tag_def Let_def m_def split: if_splits)
qed

lemma tag_word_der_tag:
  assumes "b = (ucast (drop_bit 24 t) AND 0xe0) OR of_nat m" "m < 32"
  shows "tag_word b (unat t mod 2 ^ 29) = t" "unat b mod 32 = m"
proof -
  have b: "unat b = unat t div 2 ^ 29 * 32 + m" unfolding assms(1) using assms(2) by (rule unat_tag_byte)
  show "unat b mod 32 = m" using assms(2) by (simp add: b)
  have "unat (tag_word b (unat t mod 2 ^ 29)) = unat t"
    using b assms(2) by (subst unat_tag_word) simp_all
  then show "tag_word b (unat t mod 2 ^ 29) = t" by (simp add: word_unat_eq_iff)
qed

lemma parse_asn1_tag_cases:
  assumes "cbs_wf c" "CBS_get_u8 c = (Some b, c1)"
  shows "parse_asn1_tag c =
    (if unat b mod 32 = 31 then
      (case parse_base128_integer c1 of
         (None, c) \<Rightarrow> (None, c)
       | (Some v, c) \<Rightarrow> if unat v \<ge> 2 ^ 29 \<or> unat v < 31 then (None, c)
            else (Some (tag_word b (unat v)), c))
     else (Some (tag_word b (unat b mod 32)), c1))"
proof -
  have n: "unat (ucast (b AND 0x1f) :: u32) = unat b mod 32" by (simp add: unat_ucast_up u8_low5)
  then have w: "ucast (b AND 0x1f) = (of_nat (unat b mod 32) :: u32)"
    by (metis of_nat_unat ucast_id)
  have eq: "(ucast (b AND 0x1f) :: u32) = 0x1f \<longleftrightarrow> unat b mod 32 = 31"
    using n by (auto simp: word_unat_eq_iff)
  have mask: "unat (ucast CBS_ASN1_TAG_NUMBER_MASK :: u64) = 2 ^ 29 - 1"
    by (simp add: CBS_ASN1_TAG_NUMBER_MASK_def)
  have cond: "v > ucast CBS_ASN1_TAG_NUMBER_MASK \<or> v < 0x1f \<longleftrightarrow> unat v \<ge> 2 ^ 29 \<or> unat v < 31" for v :: u64
    using mask by (auto simp: word_less_nat_alt)
  have v: "(ucast v :: u32) = of_nat (unat v)" for v :: u64 by simp
  show ?thesis
    unfolding parse_asn1_tag_def assms(2) prod.case option.case Let_def eq cond
    by (simp add: tag_word_def w v CBS_ASN1_TAG_SHIFT_def del: of_nat_unat split: prod.split option.split)
qed

lemma parse_asn1_tag_sound:
  assumes "cbs_wf c" "parse_asn1_tag c = (Some t, c')"
  shows "cbs_view c = der_tag t @ cbs_view c' \<and> c' = cbs_advance c (length (der_tag t))"
proof -
  obtain b c1 where g: "CBS_get_u8 c = (Some b, c1)"
    using assms(2) by (auto simp: parse_asn1_tag_def split: prod.splits option.splits)
  note c1 = CBS_get_u8_Some [OF assms(1) g]
  note cases = assms(2) [unfolded parse_asn1_tag_cases [OF assms(1) g]]
  show ?thesis
  proof (cases "unat b mod 32 = 31")
    case True
    then obtain v where v: "parse_base128_loop c1 0 = (Some v, c')" "unat v < 2 ^ 29" "31 \<le> unat v"
      and t: "t = tag_word b (unat v)"
      using cases by (auto simp: parse_base128_integer_def not_le not_less split: prod.splits option.splits if_splits)
    obtain bs where "cbs_view c1 = bs @ cbs_view c'" "c' = cbs_advance c1 (length bs)" "bs = base128 (unat v)"
      using parse_base128_sound [OF c1(3) v(1)] by auto
    moreover have "der_tag t = b # base128 (unat v)"
      unfolding t using v True by (subst der_tag_tag_word) auto
    ultimately show ?thesis using c1 by simp
  next
    case False
    then have t: "t = tag_word b (unat b mod 32)" "c' = c1" using cases by auto
    have "unat b mod 32 < 31" using False mod_less_divisor [of 32 "unat b"] by linarith
    then have "der_tag t = [b]" unfolding t by (subst der_tag_tag_word) auto
    then show ?thesis using c1 t by simp
  qed
qed

lemma parse_asn1_tag_complete:
  assumes "cbs_wf c" "cbs_view c = der_tag t @ rest"
  shows "parse_asn1_tag c = (Some t, cbs_advance c (length (der_tag t)))"
proof -
  define num where "num = unat t mod 2 ^ 29"
  define m where "m = (if num < 31 then num else 31)"
  define b where "b = (ucast (drop_bit 24 t) AND 0xe0 :: u8) OR of_nat m"
  have m: "m < 32" by (simp add: m_def)
  note tw = tag_word_der_tag [OF b_def m, folded num_def]
  have dt: "der_tag t = b # (if num < 31 then [] else base128 num)"
    unfolding der_tag_def Let_def num_def [symmetric] by (simp add: b_def m_def)
  define tl where "tl = (if num < 31 then [] else base128 num) @ rest"
  have v: "cbs_view c = b # tl" using assms(2) dt by (simp add: tl_def)
  have g: "CBS_get_u8 c = (Some b, cbs_advance c 1)" using assms(1) v by (rule CBS_get_u8_Cons)
  note c1 = CBS_get_u8_Some [OF assms(1) g]
  show ?thesis
  proof (cases "num < 31")
    case True
    then have "unat b mod 32 = num" using tw(2) by (simp add: m_def)
    with True tw(1) dt show ?thesis by (simp add: parse_asn1_tag_cases [OF assms(1) g])
  next
    case False
    then have b31: "unat b mod 32 = 31" using tw(2) by (simp add: m_def)
    have lt: "num < 2 ^ 29" by (simp add: num_def)
    then have u: "unat (of_nat num :: u64) = num" by (simp add: unat_of_nat)
    have v1: "cbs_view (cbs_advance c 1) = base128 num @ rest" using v c1(1) False by (simp add: tl_def)
    have "parse_base128_integer (cbs_advance c 1) = (Some (of_nat num), cbs_advance (cbs_advance c 1) (length (base128 num)))"
      using parse_base128_complete [OF c1(3) v1] lt by simp
    with False lt u b31 tw(1) dt show ?thesis by (simp add: parse_asn1_tag_cases [OF assms(1) g])
  qed
qed

section \<open>Length octets\<close>

lemma der_len_short: "n < 128 \<Longrightarrow> der_len n = [of_nat n]"
  by (simp add: der_len_def)

lemma der_len_long:
  assumes "1 \<le> k" "k \<le> 4" "length ls = k" "128 \<le> be_val ls" "256 ^ (k - 1) \<le> be_val ls"
  shows "der_len (be_val ls) = of_nat (128 + k) # ls"
proof -
  have lt: "be_val ls < 256 ^ k" using be_val_less [of ls] assms(3) by simp
  have dig: "be_bytes k (be_val ls) = ls" using assms(3) by (rule be_bytes_be_val)
  consider "k = 1" | "k = 2" | "k = 3" | "k = 4" using assms(1,2) by linarith
  then show ?thesis
  proof cases
    case 1
    with lt dig assms(4) show ?thesis by (simp add: der_len_def)
  next
    case 2
    with lt dig assms(4,5) show ?thesis by (simp add: der_len_def)
  next
    case 3
    with lt dig assms(4,5) show ?thesis by (simp add: der_len_def)
  next
    case 4
    with lt dig assms(4,5) show ?thesis by (simp add: der_len_def)
  qed
qed

lemma der_len_cases:
  assumes "n < 2 ^ 32"
  obtains (short) "n < 128" "der_len n = [of_nat n]"
  | (long) k where "1 \<le> k" "k \<le> 4" "128 \<le> n" "256 ^ (k - 1) \<le> n" "n < 256 ^ k"
      "der_len n = of_nat (128 + k) # be_bytes k n"
proof -
  consider "n < 128" | "128 \<le> n" "n < 256" | "256 \<le> n" "n < 65536" | "65536 \<le> n" "n < 16777216"
    | "16777216 \<le> n" by linarith
  then show ?thesis
  proof cases
    case 1 then show ?thesis using short by (simp add: der_len_def)
  next
    case 2 then show ?thesis using long [of 1] by (simp add: der_len_def)
  next
    case 3 then show ?thesis using long [of 2] by (simp add: der_len_def)
  next
    case 4 then show ?thesis using long [of 3] by (simp add: der_len_def)
  next
    case 5 then show ?thesis using long [of 4] assms by (simp add: der_len_def)
  qed
qed

section \<open>The reader accepts exactly the specification's elements\<close>

lemma length_b128_hi: "n < 128 ^ m \<Longrightarrow> length (b128_hi n) \<le> m"
proof (induction n arbitrary: m rule: b128_hi.induct)
  case (1 n)
  show ?case
  proof (cases "n = 0")
    case False
    then obtain m' where m: "m = Suc m'" using "1.prems" by (cases m) auto
    have "n div 128 < 128 ^ m'" using "1.prems" m by (simp add: less_mult_imp_div_less mult.commute)
    then show ?thesis using "1.IH" [OF False] False m by (simp add: b128_hi_step)
  qed simp
qed

lemma length_der_tag: "length (der_tag t) \<le> 6"
proof -
  have "unat t mod 2 ^ 29 div 128 < 128 ^ 4" by simp
  then have "length (base128 (unat t mod 2 ^ 29)) \<le> 5"
    using length_b128_hi [of "unat t mod 2 ^ 29 div 128" 4] by (simp add: base128_def)
  then show ?thesis by (auto simp: der_tag_def Let_def)
qed

text \<open>
  The two results an element read can have: a definite-length element, or, when BER is
  allowed, the header of an indefinite-length one.
\<close>

definition definite_elem :: "cbs \<Rightarrow> cbs \<Rightarrow> u32 \<Rightarrow> nat \<Rightarrow> cbs \<Rightarrow> bytes \<Rightarrow> bool" where
  "definite_elem c out t hl c' body \<longleftrightarrow>
     cbs_view c = der_elem t body @ cbs_view c' \<and> length body < 2 ^ 32
     \<and> hl = length (der_header t (length body))
     \<and> out = CBS_init (c_data c) (length (der_elem t body))
     \<and> c' = cbs_advance c (length (der_elem t body))"

definition indefinite_header :: "cbs \<Rightarrow> cbs \<Rightarrow> u32 \<Rightarrow> nat \<Rightarrow> cbs \<Rightarrow> bool" where
  "indefinite_header c out t hl c' \<longleftrightarrow>
     t AND CBS_ASN1_CONSTRUCTED \<noteq> 0 \<and> cbs_view c = der_tag t @ 0x80 # cbs_view c'
     \<and> hl = length (der_tag t) + 1 \<and> out = CBS_init (c_data c) hl \<and> c' = cbs_advance c hl"

lemma definite_elemI:
  assumes "cbs_wf c" "cbs_view c = der_header t n @ r" "n < 2 ^ 32"
    "hl = length (der_header t n)" "CBS_get_bytes c (hl + n) = (Some out, c')"
  shows "\<exists>body. definite_elem c out t hl c' body"
proof -
  have le: "hl + n \<le> c_len c" and r: "out = CBS_init (c_data c) (hl + n)" "c' = cbs_advance c (hl + n)"
    using assms(5) by (auto simp: CBS_get_bytes_eq [OF assms(1)] split: if_splits)
  have len: "length (take n r) = n"
    using le assms(2,4) length_cbs_view [OF assms(1)] by simp
  have "cbs_view c' = drop n r" using assms(1,2,4) by (simp add: r cbs_advance_view)
  then have "definite_elem c out t hl c' (take n r)"
    using assms(2,3,4) len r by (simp add: definite_elem_def der_elem_def)
  then show ?thesis by blast
qed

lemma cbs_get_any_sound:
  assumes wf: "cbs_wf c" and res: "cbs_get_any_asn1_element c ber = (Some (out, t, hl), c')"
  shows "(\<exists>body. definite_elem c out t hl c' body) \<or> (ber \<and> indefinite_header c out t hl c')"
proof -
  obtain h b h1 where tg: "parse_asn1_tag c = (Some t, h)" and lb: "CBS_get_u8 h = (Some b, h1)"
    using res by (auto simp: cbs_get_any_asn1_element_def Let_def split: prod.splits option.splits if_splits)
  note T = parse_asn1_tag_sound [OF wf tg]
  define k where "k = length (der_tag t)"
  have k: "k \<le> c_len c" "h = cbs_advance c k" using T length_cbs_view [OF wf] by (auto simp: k_def dest: arg_cong [where f = length])
  have wfh: "cbs_wf h" using wf k by (simp add: cbs_advance_wf)
  note L = CBS_get_u8_Some [OF wfh lb]
  have k1: "k + 1 \<le> c_len c" "h1 = cbs_advance c (k + 1)" using L k by auto
  have hl0: "CBS_len c - CBS_len h1 = k + 1" using k1 by (simp add: CBS_len_def)
  have vc: "cbs_view c = der_tag t @ b # cbs_view h1" using T L by simp
  have k6: "k \<le> 6" unfolding k_def by (rule length_der_tag)
  note res' = res [unfolded cbs_get_any_asn1_element_def tg lb prod.case option.case Let_def hl0]
  show ?thesis
  proof (cases "b AND 0x80 = 0")
    case True
    have n: "unat b < 128" using True by (simp add: u8_high_bit)
    have sum: "size_add (unat b) (k + 1) = k + 1 + unat b"
      using n k6 by (subst size_add_exact) auto
    have g: "CBS_get_bytes c (k + 1 + unat b) = (Some out, c')" "hl = k + 1"
      using res' True sum by (auto split: prod.splits option.splits)
    have "cbs_view c = der_header t (unat b) @ cbs_view h1" "hl = length (der_header t (unat b))"
      using vc n g(2) by (auto simp: der_header_def der_len_short k_def)
    with wf n g show ?thesis by (intro disjI1 definite_elemI) auto
  next
    case False
    define nb where "nb = unat (b AND 0x7f)"
    have "unat b mod 128 = unat b - 128" "128 \<le> unat b"
      using False unat_u8_lt [of b] by (auto simp: u8_high_bit le_mod_geq)
    then have b: "b = of_nat (128 + nb)" by (intro u8_eq_of_nat) (simp add: nb_def u8_low7)
    show ?thesis
    proof (cases "ber \<and> t AND CBS_ASN1_CONSTRUCTED \<noteq> 0 \<and> nb = 0")
      case True
      then have "CBS_get_bytes c (k + 1) = (Some out, c')" "hl = k + 1"
        using res' False by (auto simp: nb_def split: prod.splits option.splits)
      then have "indefinite_header c out t hl c'"
        using True vc b k1 by (auto simp: indefinite_header_def CBS_get_bytes_eq [OF wf] k_def split: if_splits)
      with True show ?thesis by blast
    next
      case not_indef: False
      then obtain len32 h2 where nb: "1 \<le> nb" "nb \<le> 4" and u: "cbs_get_u h1 nb = (Some len32, h2)"
        and ge: "\<not> len32 < 128" and top: "drop_bit ((nb - 1) * 8) len32 \<noteq> 0"
        and get: "CBS_get_bytes c (size_add (unat len32) (size_add (k + 1) nb)) = (Some out, c')"
        and hl: "hl = k + 1 + nb"
        using res' False by (auto simp: nb_def Let_def not_le not_less split: prod.splits option.splits if_splits)
      define ls where "ls = take nb (cbs_view h1)"
      have nl: "nb \<le> c_len h1" and len32: "len32 = of_nat (be_val ls)"
        using u by (auto simp: cbs_get_u_eq [OF L(3)] ls_def split: if_splits)
      have ll: "length ls = nb" using nl length_cbs_view [OF L(3)] by (simp add: ls_def)
      have ul: "unat len32 = be_val ls" unfolding len32 using ll nb by (simp add: unat_of_be_val)
      have "256 ^ (nb - 1) \<le> be_val ls"
      proof (rule ccontr)
        assume "\<not> 256 ^ (nb - 1) \<le> be_val ls"
        then have "unat len32 div 2 ^ ((nb - 1) * 8) = 0"
          unfolding pow_256 ul by simp
        with top show False by (simp add: word_unat_eq_iff unat_drop_bit)
      qed
      moreover have "128 \<le> be_val ls" using ge by (simp add: word_less_nat_alt ul)
      ultimately have dl: "der_len (be_val ls) = b # ls"
        using nb ll b by (simp add: der_len_long)
      have lt32: "be_val ls < 2 ^ 32" using unat_u32_lt [of len32] ul by simp
      have sum: "size_add (unat len32) (size_add (k + 1) nb) = hl + be_val ls"
        using k6 nb lt32 by (simp add: size_add_exact ul hl)
      have "cbs_view c = der_header t (be_val ls) @ drop nb (cbs_view h1)"
        "hl = length (der_header t (be_val ls))"
        using vc dl ll hl by (auto simp: der_header_def k_def ls_def)
      with wf lt32 get sum show ?thesis by (intro disjI1 definite_elemI) auto
    qed
  qed
qed

lemma cbs_get_any_complete:
  assumes wf: "cbs_wf c" and v: "cbs_view c = der_elem t body @ rest" and lt: "length body < 2 ^ 32"
  shows "cbs_get_any_asn1_element c ber =
    (Some (CBS_init (c_data c) (length (der_elem t body)), t, length (der_header t (length body))),
     cbs_advance c (length (der_elem t body)))"
proof -
  define k where "k = length (der_tag t)"
  have k6: "k \<le> 6" unfolding k_def by (rule length_der_tag)
  define n where "n = length body"
  have v0: "cbs_view c = der_tag t @ (der_len n @ body @ rest)"
    using v by (simp add: der_elem_def der_header_def n_def)
  have tg: "parse_asn1_tag c = (Some t, cbs_advance c k)"
    unfolding k_def using parse_asn1_tag_complete [OF wf v0] .
  note h = cbs_advance_append [OF wf v0, folded k_def]
  have fits: "length (der_elem t body) \<le> c_len c" "k + length (der_len n) + n \<le> c_len c"
    using v length_cbs_view [OF wf] by (auto simp: length_der_elem der_header_def k_def n_def dest: arg_cong [where f = length])
  obtain b ls where bl: "der_len n = b # ls" by (cases "der_len n") auto
  have lb: "CBS_get_u8 (cbs_advance c k) = (Some b, cbs_advance c (k + 1))"
    using CBS_get_u8_Cons [OF h(1), of b "ls @ body @ rest"] h(2) bl by simp
  have hl0: "CBS_len c - CBS_len (cbs_advance c (k + 1)) = k + 1" using fits bl by (simp add: CBS_len_def)
  have tot: "length (der_elem t body) = k + 1 + length ls + n"
    "length (der_header t (length body)) = k + 1 + length ls"
    using bl by (auto simp: length_der_elem der_header_def k_def n_def)
  have get: "CBS_get_bytes c (k + 1 + length ls + n) =
      (Some (CBS_init (c_data c) (length (der_elem t body))), cbs_advance c (length (der_elem t body)))"
    using fits(1) tot(1) by (simp add: CBS_get_bytes_eq [OF wf])
  have n32: "n < 2 ^ 32" using lt by (simp add: n_def)
  from n32 show ?thesis
  proof (cases rule: der_len_cases)
    case short
    then have b: "b = of_nat n" "ls = []" using bl by auto
    have ub: "unat b = n" unfolding b(1) by (rule unat_of_nat_u8) (use short in simp)
    have "b AND 0x80 = 0" using ub short by (simp add: u8_high_bit)
    moreover have "size_add (unat b) (k + 1) = k + 1 + length ls + n"
      using k6 short b ub by (simp add: size_add_exact)
    ultimately show ?thesis
      unfolding cbs_get_any_asn1_element_def tg lb prod.case option.case Let_def hl0 tot
      using get b tot by simp
  next
    case (long nb)
    then have b: "b = of_nat (128 + nb)" "ls = be_bytes nb n" using bl by auto
    have ub: "unat b = 128 + nb" unfolding b(1) by (rule unat_of_nat_u8) (use long in simp)
    have hi: "b AND 0x80 \<noteq> 0" using ub by (simp add: u8_high_bit)
    have nb: "unat (b AND 0x7f) = nb" using ub long by (simp add: u8_low7)
    have ll: "length ls = nb" by (simp add: b)
    have v1: "cbs_view (cbs_advance c (k + 1)) = ls @ body @ rest"
      using cbs_advance_view [OF h(1), of 1] h(2) bl by simp
    have wf1: "cbs_wf (cbs_advance c (k + 1))"
      using cbs_advance_wf [OF wf, of "k + 1"] fits bl by simp
    have val: "be_val ls = n" using long by (simp add: b be_val_be_bytes)
    have u: "cbs_get_u (cbs_advance c (k + 1)) nb = (Some (of_nat n), cbs_advance c (k + 1 + nb))"
      unfolding cbs_get_u_eq [OF wf1] using fits bl ll val v1 by simp
    have un: "unat (of_nat n :: u32) = n" using n32 by (simp add: unat_of_nat)
    have ge: "\<not> (of_nat n :: u32) < 128" using long un by (simp add: word_less_nat_alt)
    have "n div 2 ^ ((nb - 1) * 8) \<noteq> 0" using long unfolding pow_256 by (simp add: div_eq_0_iff)
    then have top: "drop_bit ((nb - 1) * 8) (of_nat n :: u32) \<noteq> 0"
      by (simp add: word_unat_eq_iff unat_drop_bit un)
    have sums: "size_add (size_add n (k + 1)) nb = n + (k + 1) + nb"
      "size_add n (size_add (k + 1) nb) = k + 1 + length ls + n"
      using k6 n32 long ll by (simp_all add: size_add_exact)
    show ?thesis
      unfolding cbs_get_any_asn1_element_def tg lb prod.case option.case Let_def hl0 tot nb u un sums
      using get hi long ge top tot ll by simp
  qed
qed

lemma cbs_get_any_indefinite:
  assumes wf: "cbs_wf c" and v: "cbs_view c = der_tag t @ 0x80 # rest"
    and t: "t AND CBS_ASN1_CONSTRUCTED \<noteq> 0"
  shows "cbs_get_any_asn1_element c True =
    (Some (CBS_init (c_data c) (length (der_tag t) + 1), t, length (der_tag t) + 1),
     cbs_advance c (length (der_tag t) + 1))"
proof -
  define k where "k = length (der_tag t)"
  have tg: "parse_asn1_tag c = (Some t, cbs_advance c k)"
    unfolding k_def using parse_asn1_tag_complete [OF wf v] .
  note h = cbs_advance_append [OF wf v, folded k_def]
  have fits: "k + 1 \<le> c_len c" using v length_cbs_view [OF wf] by (auto simp: k_def dest: arg_cong [where f = length])
  have lb: "CBS_get_u8 (cbs_advance c k) = (Some 0x80, cbs_advance c (k + 1))"
    using CBS_get_u8_Cons [OF h(1), of "0x80" rest] h(2) by simp
  have hl0: "CBS_len c - CBS_len (cbs_advance c (k + 1)) = k + 1" using fits by (simp add: CBS_len_def)
  show ?thesis
    unfolding cbs_get_any_asn1_element_def tg lb prod.case option.case Let_def hl0 k_def [symmetric]
    using t fits by (simp add: CBS_get_bytes_eq [OF wf])
qed

section \<open>The typed readers\<close>

lemma CBS_skip_init:
  assumes "k \<le> n"
  shows "CBS_skip (CBS_init d n) k = (Some (), cbs_advance (CBS_init d n) k)"
  using assms by (simp add: CBS_skip_def cbs_get_ok)

lemma definite_elem_body:
  assumes "cbs_wf c" "definite_elem c out t hl c' body"
  shows "CBS_skip out hl = (Some (), cbs_advance out hl)" "cbs_view (cbs_advance out hl) = body"
    "cbs_wf (cbs_advance out hl)" "cbs_wf c'" "cbs_wf out" "cbs_view out = der_elem t body"
    "length (cbs_view c') < c_len c"
proof -
  define n where "n = length (der_elem t body)"
  have d: "cbs_view c = der_elem t body @ cbs_view c'" "out = CBS_init (c_data c) n"
    "c' = cbs_advance c n" "hl = length (der_header t (length body))"
    using assms(2) by (auto simp: definite_elem_def n_def)
  have le: "n \<le> c_len c" "hl \<le> n"
    using d length_cbs_view [OF assms(1)] by (auto simp: n_def length_der_elem)
  have mem: "n \<le> length (c_data c)" "c_len c < 2 ^ 64" using le assms(1) by (auto simp: cbs_wf_def)
  show "CBS_skip out hl = (Some (), cbs_advance out hl)" using le unfolding d(2) by (intro CBS_skip_init)
  have wfo: "cbs_wf out" using mem le unfolding d(2) by (intro CBS_init_wf) auto
  have "take n (c_data c) = take n (cbs_view c)" using le(1) by (rule take_data_view)
  then have vo: "cbs_view out = der_elem t body" using d(1) mem by (simp add: d(2) n_def)
  show "cbs_view (cbs_advance out hl) = body"
    using cbs_advance_view [OF wfo] vo d(4) by (simp add: der_elem_def)
  show "cbs_wf (cbs_advance out hl)" using wfo le d(2) by (intro cbs_advance_wf) auto
  show "cbs_wf c'" using assms(1) le d(3) by (simp add: cbs_advance_wf)
  have "0 < n" by (simp add: n_def der_elem_def der_header_def)
  moreover have "n + length (cbs_view c') = c_len c"
    using d(1) length_cbs_view [OF assms(1)] by (simp add: n_def)
  ultimately show "length (cbs_view c') < c_len c" by linarith
  show "cbs_wf out" "cbs_view out = der_elem t body" by fact+
qed

lemma CBS_get_any_asn1_element_sound:
  "cbs_wf c \<Longrightarrow> CBS_get_any_asn1_element c = (Some (out, t, hl), c') \<Longrightarrow>
    \<exists>body. definite_elem c out t hl c' body"
  using cbs_get_any_sound [of c False] by (auto simp: CBS_get_any_asn1_element_def)

lemma definite_elem_complete:
  assumes "cbs_wf c" "cbs_view c = der_elem t body @ rest" "length body < 2 ^ 32"
  shows "\<exists>out hl c'. cbs_get_any_asn1_element c ber = (Some (out, t, hl), c')
    \<and> definite_elem c out t hl c' body \<and> cbs_view c' = rest"
proof -
  have "cbs_view (cbs_advance c (length (der_elem t body))) = rest"
    using cbs_advance_append [OF assms(1,2)] by simp
  with assms show ?thesis
    by (auto simp: cbs_get_any_complete [OF assms] definite_elem_def)
qed

lemma CBS_get_any_asn1_sound:
  assumes "cbs_wf c" "CBS_get_any_asn1 c = (Some (out, t), c')"
  shows "cbs_view c = der_elem t (cbs_view out) @ cbs_view c'" "cbs_wf out" "cbs_wf c'"
    "length (cbs_view out) < 2 ^ 32"
proof -
  obtain o1 hl where e: "CBS_get_any_asn1_element c = (Some (o1, t, hl), c')"
    "CBS_skip o1 hl = (Some (), out)"
    using assms(2) by (auto simp: CBS_get_any_asn1_def split: prod.splits option.splits)
  obtain body where d: "definite_elem c o1 t hl c' body"
    using CBS_get_any_asn1_element_sound [OF assms(1) e(1)] by blast
  note b = definite_elem_body [OF assms(1) d]
  have "out = cbs_advance o1 hl" using b(1) e(2) by simp
  with b d show "cbs_view c = der_elem t (cbs_view out) @ cbs_view c'" "cbs_wf out" "cbs_wf c'"
    "length (cbs_view out) < 2 ^ 32"
    by (auto simp: definite_elem_def)
qed

lemma CBS_get_any_asn1_complete:
  assumes "cbs_wf c" "cbs_view c = der_elem t body @ rest" "length body < 2 ^ 32"
  shows "\<exists>out c'. CBS_get_any_asn1 c = (Some (out, t), c') \<and> cbs_view out = body
    \<and> cbs_view c' = rest \<and> cbs_wf out \<and> cbs_wf c'"
proof -
  obtain o1 hl c' where e: "cbs_get_any_asn1_element c False = (Some (o1, t, hl), c')"
    and d: "definite_elem c o1 t hl c' body" and r: "cbs_view c' = rest"
    using definite_elem_complete [OF assms] by blast
  note b = definite_elem_body [OF assms(1) d]
  show ?thesis
    using b r by (auto simp: CBS_get_any_asn1_def CBS_get_any_asn1_element_def e)
qed

lemma CBS_get_asn1_eq:
  "CBS_get_asn1 c tag = (case CBS_get_any_asn1_element c of
     (None, c) \<Rightarrow> (None, c)
   | (Some (out, t, hl), c1) \<Rightarrow> if t \<noteq> tag then (None, c1) else
       (case CBS_skip out hl of (None, _) \<Rightarrow> (None, c1) | (Some _, out) \<Rightarrow> (Some out, c1)))"
  by (auto simp: CBS_get_asn1_def cbs_get_asn1_def split: prod.split option.split)

lemma CBS_get_asn1_sound:
  assumes "cbs_wf c" "CBS_get_asn1 c t = (Some out, c')"
  shows "cbs_view c = der_elem t (cbs_view out) @ cbs_view c'" "cbs_wf out" "cbs_wf c'"
    "length (cbs_view out) < 2 ^ 32"
proof -
  have "CBS_get_any_asn1 c = (Some (out, t), c')"
    using assms(2) by (auto simp: CBS_get_asn1_eq CBS_get_any_asn1_def split: prod.splits option.splits if_splits)
  from CBS_get_any_asn1_sound [OF assms(1) this] show "cbs_view c = der_elem t (cbs_view out) @ cbs_view c'"
    "cbs_wf out" "cbs_wf c'" "length (cbs_view out) < 2 ^ 32" by auto
qed

lemma CBS_get_asn1_complete:
  assumes "cbs_wf c" "cbs_view c = der_elem t body @ rest" "length body < 2 ^ 32"
  shows "\<exists>out c'. CBS_get_asn1 c t = (Some out, c') \<and> cbs_view out = body
    \<and> cbs_view c' = rest \<and> cbs_wf out \<and> cbs_wf c'"
proof -
  obtain out c' where "CBS_get_any_asn1 c = (Some (out, t), c')"
    and *: "cbs_view out = body" "cbs_view c' = rest" "cbs_wf out" "cbs_wf c'"
    using CBS_get_any_asn1_complete [OF assms] by blast
  then have "CBS_get_asn1 c t = (Some out, c')"
    by (auto simp: CBS_get_asn1_eq CBS_get_any_asn1_def split: prod.splits option.splits if_splits)
  with * show ?thesis by blast
qed

section \<open>INTEGER and BOOLEAN contents\<close>

lemma asn1_uint64_loop_eq:
  "asn1_uint64_loop bs out =
    (if unat out * 256 ^ length bs + be_val bs < 2 ^ 64
     then Some (of_nat (unat out * 256 ^ length bs + be_val bs)) else None)"
proof (induction bs arbitrary: out)
  case Nil
  then show ?case using unat_u64_lt [of out] by simp
next
  case (Cons b bs)
  show ?case
  proof (cases "drop_bit 56 out = 0")
    case False
    then have "2 ^ 56 \<le> unat out" using unat_drop_bit [of 56 out]
      by (simp add: word_unat_eq_iff div_eq_0_iff)
    moreover have "(256 :: nat) \<le> 256 ^ length (b # bs)" by simp
    ultimately have "2 ^ 56 * 256 \<le> unat out * 256 ^ length (b # bs)" by (intro mult_mono) auto
    with False show ?thesis by simp
  next
    case True
    then have lt: "unat out < 2 ^ 56" using unat_drop_bit [of 56 out]
      by (simp add: word_unat_eq_iff div_eq_0_iff)
    have ub: "unat (ucast b :: u64) = unat b" by (simp add: unat_ucast_up)
    have "push_bit 8 out OR ucast b = push_bit 8 out + ucast b"
      by (rule push_bit_or_low) (use unat_u8_lt [of b] ub in simp)
    then have step: "unat (push_bit 8 out OR ucast b) = unat out * 256 + unat b"
      using lt ub unat_u8_lt [of b] by (simp add: unat_word_ariths unat_push_bit)
    have "unat out * 256 ^ length (b # bs) + be_val (b # bs)
        = (unat out * 256 + unat b) * 256 ^ length bs + be_val bs"
      by (simp add: be_val_Cons algebra_simps)
    with True show ?thesis by (simp only: asn1_uint64_loop.simps Cons.IH step if_False simp_thms)
  qed
qed

lemma CBS_get_asn1_uint64_eq:
  assumes "cbs_wf out" "CBS_get_asn1 c CBS_ASN1_INTEGER = (Some out, c')"
  shows "CBS_get_asn1_uint64 c =
    (if der_uint_ok (cbs_view out) \<and> be_val (cbs_view out) < 2 ^ 64
     then Some (of_nat (be_val (cbs_view out))) else None, c')"
proof -
  have dv: "cbs_view out = take (c_len out) (c_data out)" "c_len out \<le> length (c_data out)"
    using assms(1) by (auto simp: cbs_view_def cbs_wf_def)
  have len: "length (cbs_view out) = c_len out" using assms(1) by simp
  have i0: "c_data out ! 0 = cbs_view out ! 0" if "c_len out \<noteq> 0" using that dv by simp
  have i1: "c_data out ! 1 = cbs_view out ! 1" if "1 < c_len out" using that dv by simp
  show ?thesis
    unfolding CBS_get_asn1_uint64_def assms(2)
    using i0 i1 dv(1) len
    by (auto simp: Let_def CBS_data_def CBS_len_def der_uint_ok_def asn1_uint64_loop_eq u8_high_bit
        not_le not_less)
qed

lemma CBS_get_asn1_bool_eq:
  assumes "cbs_wf out" "CBS_get_asn1 c CBS_ASN1_BOOLEAN = (Some out, c')"
  shows "CBS_get_asn1_bool c =
    (if cbs_view out = [0] then Some False else if cbs_view out = [0xff] then Some True else None, c')"
proof -
  have dv: "cbs_view out = take (c_len out) (c_data out)" "c_len out \<le> length (c_data out)"
    using assms(1) by (auto simp: cbs_view_def cbs_wf_def)
  show ?thesis
  proof (cases "c_len out = 1")
    case True
    with dv have "cbs_view out = [c_data out ! 0]" by (cases "c_data out") auto
    with True show ?thesis by (simp add: CBS_get_asn1_bool_def assms(2) CBS_len_def CBS_data_def Let_def)
  next
    case False
    then have "cbs_view out \<noteq> [0]" "cbs_view out \<noteq> [0xff]"
      using assms(1) length_cbs_view [of out] by (metis length_Cons list.size(3) One_nat_def)+
    with False show ?thesis by (simp add: CBS_get_asn1_bool_def assms(2) CBS_len_def)
  qed
qed

section \<open>Unique decoding\<close>

text \<open>No string starts with two different elements: the reader finds both of them.\<close>

lemma der_elem_inject:
  assumes eq: "der_elem t body @ r = der_elem t' body' @ r'"
    and small: "length (der_elem t body @ r) < 2 ^ 64" "length body < 2 ^ 32" "length body' < 2 ^ 32"
  shows "t = t' \<and> body = body' \<and> r = r'"
proof -
  define xs where "xs = der_elem t body @ r"
  define c where "c = CBS_init xs (length xs)"
  have c: "cbs_wf c" "cbs_view c = der_elem t body @ r" "cbs_view c = der_elem t' body' @ r'"
    using small(1) eq by (simp_all add: c_def xs_def CBS_init_wf)
  obtain o1 c1 where "CBS_get_any_asn1 c = (Some (o1, t), c1)" "cbs_view o1 = body" "cbs_view c1 = r"
    using CBS_get_any_asn1_complete [OF c(1,2) small(2)] by blast
  moreover obtain o2 c2 where "CBS_get_any_asn1 c = (Some (o2, t'), c2)" "cbs_view o2 = body'" "cbs_view c2 = r'"
    using CBS_get_any_asn1_complete [OF c(1,3) small(3)] by blast
  ultimately show ?thesis by simp
qed

end
