(* ===== verification/CLib.thy ===== *)
theory CLib
  imports Prelude "HOL-Library.Multiset"
begin

text \<open>
  The functions of the C standard library that take a comparison callback, and the
  contract that their callers' comparison functions meet.  The standard fixes the result
  of \<open>qsort\<close> up to the order of elements that compare equal and that of \<open>bsearch\<close> up to
  the choice among them; the definitions here are executable functions with those
  properties (an insertion sort and the usual halving of an interval).
\<close>

section \<open>memcmp\<close>

fun memcmp :: "bytes \<Rightarrow> bytes \<Rightarrow> nat \<Rightarrow> int" where
  "memcmp (a # as) (b # bs) (Suc n) = (if a = b then memcmp as bs n else if a < b then -1 else 1)"
| "memcmp _ _ _ = 0"

lemma memcmp_zero_iff: "n \<le> length a \<Longrightarrow> n \<le> length b \<Longrightarrow> memcmp a b n = 0 \<longleftrightarrow> take n a = take n b"
  by (induction a b n rule: memcmp.induct) auto

lemma memcmp_swap: "memcmp b a n = - memcmp a b n"
  by (induction a b n rule: memcmp.induct) auto

section \<open>qsort and bsearch\<close>

fun insort_by :: "('a \<Rightarrow> 'a \<Rightarrow> int) \<Rightarrow> 'a \<Rightarrow> 'a list \<Rightarrow> 'a list" where
  "insort_by cmp x [] = [x]"
| "insort_by cmp x (y # ys) = (if cmp x y \<le> 0 then x # y # ys else y # insort_by cmp x ys)"

definition qsort :: "('a \<Rightarrow> 'a \<Rightarrow> int) \<Rightarrow> 'a list \<Rightarrow> 'a list" where
  "qsort cmp xs = foldr (insort_by cmp) xs []"

text \<open>The elements at the indices from \<open>l\<close> up to, but not including, \<open>u\<close> are searched.\<close>

function bsearch_loop :: "('k \<Rightarrow> 'a \<Rightarrow> int) \<Rightarrow> 'k \<Rightarrow> 'a list \<Rightarrow> nat \<Rightarrow> nat \<Rightarrow> nat option" where
  "bsearch_loop cmp key xs l u =
     (if l < u then
        let i = (l + u) div 2; c = cmp key (xs ! i) in
        if c < 0 then bsearch_loop cmp key xs l i
        else if 0 < c then bsearch_loop cmp key xs (Suc i) u
        else Some i
      else None)"
  by pat_completeness auto
termination
  by (relation "measure (\<lambda>(cmp, key, xs, l, u). u - l)") auto

declare bsearch_loop.simps [simp del]

lemma bsearch_loop_step:
  "bsearch_loop cmp key xs l u =
    (if l < u then if cmp key (xs ! ((l + u) div 2)) < 0 then bsearch_loop cmp key xs l ((l + u) div 2)
       else if 0 < cmp key (xs ! ((l + u) div 2)) then bsearch_loop cmp key xs (Suc ((l + u) div 2)) u
       else Some ((l + u) div 2)
     else None)"
  by (subst bsearch_loop.simps) (simp add: Let_def)

definition bsearch :: "('k \<Rightarrow> 'a \<Rightarrow> int) \<Rightarrow> 'k \<Rightarrow> 'a list \<Rightarrow> nat option" where
  "bsearch cmp key xs = bsearch_loop cmp key xs 0 (length xs)"

text \<open>
  A key need not have the type of the elements.  Whatever the order, what is found compares
  equal; if the signs of the comparisons fall along the array, nothing is missed.
\<close>

lemma bsearch_loop_Some:
  "bsearch_loop cmp key xs l u = Some i \<Longrightarrow> l \<le> i \<and> i < u \<and> cmp key (xs ! i) = 0"
proof (induction "u - l" arbitrary: l u rule: less_induct)
  case less
  define m where "m = (l + u) div 2"
  note r = bsearch_loop_step [of cmp key xs l u, folded m_def]
  have lu: "l < u" using less.prems r by (simp split: if_splits)
  then have m: "l \<le> m" "m < u" by (auto simp: m_def)
  consider "cmp key (xs ! m) < 0" | "0 < cmp key (xs ! m)" | "cmp key (xs ! m) = 0" by linarith
  then show ?case
  proof cases
    case 1
    then show ?thesis using less.hyps [of m l] less.prems r lu m by (auto simp: diff_less_mono)
  next
    case 2
    then show ?thesis using less.hyps [of u "Suc m"] less.prems r lu m by (auto simp: diff_less_mono2)
  next
    case 3
    then show ?thesis using less.prems r lu m by auto
  qed
qed

lemma bsearch_loop_None:
  assumes mono: "\<And>i j. i \<le> j \<Longrightarrow> j < length xs \<Longrightarrow> (cmp key (xs ! i) \<le> 0 \<longrightarrow> cmp key (xs ! j) \<le> 0)
      \<and> (cmp key (xs ! i) < 0 \<longrightarrow> cmp key (xs ! j) < 0)"
    and "u \<le> length xs" "bsearch_loop cmp key xs l u = None" "l \<le> j" "j < u"
  shows "cmp key (xs ! j) \<noteq> 0"
  using assms(2-)
proof (induction "u - l" arbitrary: l u rule: less_induct)
  case less
  define m where "m = (l + u) div 2"
  note r = bsearch_loop_step [of cmp key xs l u, folded m_def]
  have lu: "l < u" using less.prems by simp
  then have m: "l \<le> m" "m < u" by (auto simp: m_def)
  consider "cmp key (xs ! m) < 0" | "0 < cmp key (xs ! m)" | "cmp key (xs ! m) = 0" by linarith
  then show ?case
  proof cases
    case 1
    show ?thesis
    proof (cases "j < m")
      case True
      then show ?thesis using 1 less.hyps [of m l] less.prems r lu m by auto
    next
      case False
      then show ?thesis using 1 mono [of m j] less.prems by auto
    qed
  next
    case 2
    show ?thesis
    proof (cases "m < j")
      case True
      then show ?thesis using 2 less.hyps [of u "Suc m"] less.prems r lu m by auto
    next
      case False
      then show ?thesis using 2 mono [of j m] less.prems m by auto
    qed
  next
    case 3
    then show ?thesis using less.prems r lu by auto
  qed
qed

lemma bsearch_spec:
  assumes "\<And>i j. i \<le> j \<Longrightarrow> j < length xs \<Longrightarrow> (cmp key (xs ! i) \<le> 0 \<longrightarrow> cmp key (xs ! j) \<le> 0)
      \<and> (cmp key (xs ! i) < 0 \<longrightarrow> cmp key (xs ! j) < 0)"
  shows "(case bsearch cmp key xs of
      None \<Rightarrow> \<forall>x\<in>set xs. cmp key x \<noteq> 0
    | Some i \<Rightarrow> i < length xs \<and> cmp key (xs ! i) = 0)"
proof (cases "bsearch cmp key xs")
  case None
  then show ?thesis
    using bsearch_loop_None [of xs cmp key, OF assms order_refl, of 0] by (auto simp: bsearch_def in_set_conv_nth)
next
  case (Some i)
  then show ?thesis using bsearch_loop_Some [of cmp key xs 0 "length xs" i] by (simp add: bsearch_def)
qed

lemma mset_insort_by [simp]: "mset (insort_by cmp x xs) = add_mset x (mset xs)"
  by (induction xs) auto

lemma mset_qsort [simp]: "mset (qsort cmp xs) = mset xs"
  by (induction xs) (auto simp: qsort_def)

lemma set_qsort [simp]: "set (qsort cmp xs) = set xs"
  by (metis mset_qsort set_mset_mset)

lemma length_qsort [simp]: "length (qsort cmp xs) = length xs"
  by (metis mset_qsort size_mset)

section \<open>The contract of a comparison function\<close>

text \<open>
  On the objects it is meant for, a comparison function is a total preorder: it reports a
  sign, swapping its arguments swaps the sign, and not-greater is transitive.
\<close>

locale comparison =
  fixes valid :: "'a \<Rightarrow> bool" and cmp :: "'a \<Rightarrow> 'a \<Rightarrow> int"
  assumes swap: "valid x \<Longrightarrow> valid y \<Longrightarrow> cmp x y < 0 \<longleftrightarrow> 0 < cmp y x"
    and trans: "valid x \<Longrightarrow> valid y \<Longrightarrow> valid z \<Longrightarrow> cmp x y \<le> 0 \<Longrightarrow> cmp y z \<le> 0 \<Longrightarrow> cmp x z \<le> 0"
begin

lemma total: "valid x \<Longrightarrow> valid y \<Longrightarrow> cmp x y \<le> 0 \<or> cmp y x \<le> 0"
  using swap [of x y] by linarith

lemma refl: "valid x \<Longrightarrow> cmp x x = 0"
  using swap [of x x] by linarith

lemma sorted_insort:
  "valid x \<Longrightarrow> \<forall>y\<in>set xs. valid y \<Longrightarrow> sorted_wrt (\<lambda>x y. cmp x y \<le> 0) xs
    \<Longrightarrow> sorted_wrt (\<lambda>x y. cmp x y \<le> 0) (insort_by cmp x xs)"
proof (induction xs)
  case (Cons y ys)
  have set: "set (insort_by cmp x ys) = insert x (set ys)"
    by (metis mset_insort_by set_mset_mset set_mset_add_mset_insert)
  show ?case
  proof (cases "cmp x y \<le> 0")
    case True
    then show ?thesis using Cons.prems trans [of x y] by auto
  next
    case False
    then have "cmp y x \<le> 0" using total [of x y] Cons.prems by auto
    with False Cons set show ?thesis by auto
  qed
qed simp

lemma sorted_qsort: "\<forall>y\<in>set xs. valid y \<Longrightarrow> sorted_wrt (\<lambda>x y. cmp x y \<le> 0) (qsort cmp xs)"
proof (induction xs)
  case (Cons x xs)
  have "qsort cmp (x # xs) = insort_by cmp x (qsort cmp xs)" by (simp add: qsort_def)
  with Cons sorted_insort [of x "qsort cmp xs"] show ?case by simp
qed (simp add: qsort_def)

lemma sorted_nth:
  "\<forall>y\<in>set xs. valid y \<Longrightarrow> sorted_wrt (\<lambda>x y. cmp x y \<le> 0) xs \<Longrightarrow> i \<le> j \<Longrightarrow> j < length xs
    \<Longrightarrow> cmp (xs ! i) (xs ! j) \<le> 0"
  by (cases "i = j") (auto simp: sorted_wrt_iff_nth_less refl)

lemma signs_fall:
  assumes "valid k" "valid x" "valid y" "cmp x y \<le> 0"
  shows "(cmp k x \<le> 0 \<longrightarrow> cmp k y \<le> 0) \<and> (cmp k x < 0 \<longrightarrow> cmp k y < 0)"
  using trans [of k x y] trans [of x y k] swap [of k x] swap [of k y] swap [of y k] swap [of x k] assms by linarith

text \<open>Along a sorted array the signs of the comparisons with a key fall.\<close>

lemma bsearch_finds:
  assumes "\<forall>y\<in>set xs. valid y" "valid key" "sorted_wrt (\<lambda>x y. cmp x y \<le> 0) xs"
  shows "(case bsearch cmp key xs of
      None \<Rightarrow> \<forall>x\<in>set xs. cmp key x \<noteq> 0
    | Some i \<Rightarrow> i < length xs \<and> cmp key (xs ! i) = 0)"
proof (rule bsearch_spec)
  fix i j assume ij: "i \<le> j" "j < length xs"
  then have v: "valid (xs ! i)" "valid (xs ! j)" using assms(1) by simp_all
  have "cmp (xs ! i) (xs ! j) \<le> 0" by (rule sorted_nth [OF assms(1,3) ij])
  then show "(cmp key (xs ! i) \<le> 0 \<longrightarrow> cmp key (xs ! j) \<le> 0) \<and> (cmp key (xs ! i) < 0 \<longrightarrow> cmp key (xs ! j) < 0)"
    by (rule signs_fall [OF assms(2) v])
qed

text \<open>The elements may be indices of the objects that are compared, and the key of another type.\<close>

lemma bsearch_keyed:
  assumes "\<forall>n\<in>set order. valid (f n) \<and> sgn (cmp' key n) = sgn (cmp k (f n))" "valid k"
    and "sorted_wrt (\<lambda>m n. cmp (f m) (f n) \<le> 0) order"
  shows "(case bsearch cmp' key order of
      None \<Rightarrow> \<forall>n\<in>set order. cmp k (f n) \<noteq> 0
    | Some i \<Rightarrow> i < length order \<and> cmp k (f (order ! i)) = 0)"
proof -
  have s: "cmp' key n \<le> 0 \<longleftrightarrow> cmp k (f n) \<le> 0" "cmp' key n < 0 \<longleftrightarrow> cmp k (f n) < 0" "cmp' key n = 0 \<longleftrightarrow> cmp k (f n) = 0"
    if "n \<in> set order" for n
  proof -
    have "sgn (cmp' key n) = sgn (cmp k (f n))" using assms(1) that by blast
    then show "cmp' key n \<le> 0 \<longleftrightarrow> cmp k (f n) \<le> 0" "cmp' key n < 0 \<longleftrightarrow> cmp k (f n) < 0" "cmp' key n = 0 \<longleftrightarrow> cmp k (f n) = 0"
      by (simp_all add: sgn_if split: if_splits)
  qed
  have v: "\<forall>y\<in>set (map f order). valid y" using assms(1) by simp
  have so: "sorted_wrt (\<lambda>x y. cmp x y \<le> 0) (map f order)" using assms(3) by (simp add: sorted_wrt_map)
  have "case bsearch cmp' key order of
      None \<Rightarrow> \<forall>x\<in>set order. cmp' key x \<noteq> 0
    | Some i \<Rightarrow> i < length order \<and> cmp' key (order ! i) = 0"
  proof (rule bsearch_spec)
    fix i j assume ij: "i \<le> j" "j < length order"
    then have m: "order ! i \<in> set order" "order ! j \<in> set order" by simp_all
    then have vv: "valid (f (order ! i))" "valid (f (order ! j))" using assms(1) by simp_all
    have "cmp (f (order ! i)) (f (order ! j)) \<le> 0" using sorted_nth [OF v so, of i j] ij by simp
    then have "(cmp k (f (order ! i)) \<le> 0 \<longrightarrow> cmp k (f (order ! j)) \<le> 0) \<and> (cmp k (f (order ! i)) < 0 \<longrightarrow> cmp k (f (order ! j)) < 0)"
      by (rule signs_fall [OF assms(2) vv])
    then show "(cmp' key (order ! i) \<le> 0 \<longrightarrow> cmp' key (order ! j) \<le> 0) \<and> (cmp' key (order ! i) < 0 \<longrightarrow> cmp' key (order ! j) < 0)"
      using s m by blast
  qed
  then show ?thesis using s by (auto split: option.splits)
qed

end

end
