(* ===== verification/CBB_ASN1.thy ===== *)
theory CBB_ASN1
  imports CBB_Correct CBS_ASN1 CLib
begin

text \<open>
  The ASN.1 half of \<open>crypto/bytestring/cbb.c\<close>, with \<open>CBS_asn1_oid_to_text\<close> of \<open>cbs.c\<close> and
  \<open>crypto/bytestring/asn1_compat.c\<close>: elements, integers, object identifiers and SET OF.
  The lemmas show that what is built is the DER of \<open>DER_Spec\<close>, which the reader parses.
\<close>

section \<open>Elements\<close>

function base128_len :: "u64 \<Rightarrow> nat" where
  "base128_len copy = (if copy > 0 then Suc (base128_len (drop_bit 7 copy)) else 0)"
  by pat_completeness auto
termination
  by (relation "measure unat") (auto simp: unat_drop_bit unat_gt_0 word_less_nat_alt)

declare base128_len.simps [simp del]

primrec base128_digits :: "heap_env \<Rightarrow> nat \<Rightarrow> u64 \<Rightarrow> nat \<Rightarrow> cbb \<Rightarrow> bool \<times> cbb" where
  "base128_digits e d v 0 s = (True, s)"
| "base128_digits e d v (Suc i) s =
     (let byte = ucast (drop_bit (7 * i) v AND 0x7f) :: u8;
          byte = (if i \<noteq> 0 then byte OR 0x80 else byte) in
      and_then (CBB_add_u8 e d s byte) (base128_digits e d v i))"

definition add_base128_integer :: "heap_env \<Rightarrow> nat \<Rightarrow> cbb \<Rightarrow> u64 \<Rightarrow> bool \<times> cbb" where
  "add_base128_integer e d s v =
     (let len_len = base128_len v; len_len = (if len_len = 0 then 1 else len_len) in
      base128_digits e d v len_len s)"

definition CBB_add_asn1 :: "heap_env \<Rightarrow> nat \<Rightarrow> cbb \<Rightarrow> u32 \<Rightarrow> bool \<times> cbb" where
  "CBB_add_asn1 e d s tag =
     and_then (CBB_flush e d s) (\<lambda>s.
       let tag_bits = ucast (drop_bit CBS_ASN1_TAG_SHIFT tag) AND 0xe0 :: u8;
           tag_number = tag AND CBS_ASN1_TAG_NUMBER_MASK in
       and_then
         (if tag_number \<ge> 0x1f
          then and_then (CBB_add_u8 e d s (tag_bits OR 0x1f))
                 (\<lambda>s. add_base128_integer e d s (ucast tag_number))
          else CBB_add_u8 e d s (tag_bits OR ucast tag_number))
         (\<lambda>s. let offset = cbb_base_len s in
            and_then (CBB_add_u8 e d s 0) (\<lambda>s.
              (True, push_child d s
                 \<lparr>f_offset = offset, f_pending_len_len = 1, f_pending_is_asn1 = True\<rparr>))))"

text \<open>
  The loop over the bytes of an integer, most significant first; \<open>r\<close> of them are left.
  After the loop, a value of zero still needs its one byte.
\<close>

primrec asn1_uint64_bytes :: "heap_env \<Rightarrow> nat \<Rightarrow> u64 \<Rightarrow> nat \<Rightarrow> bool \<Rightarrow> cbb \<Rightarrow> bool \<times> cbb" where
  "asn1_uint64_bytes e d v 0 started s = (if \<not> started then CBB_add_u8 e d s 0 else (True, s))"
| "asn1_uint64_bytes e d v (Suc r) started s =
     (let byte = ucast (drop_bit (8 * r) v AND 0xff) :: u8 in
      if \<not> started \<and> byte = 0 then asn1_uint64_bytes e d v r False s
      else and_then (if \<not> started \<and> byte AND 0x80 \<noteq> 0 then CBB_add_u8 e d s 0 else (True, s))
             (\<lambda>s. and_then (CBB_add_u8 e d s byte) (asn1_uint64_bytes e d v r True)))"

definition CBB_add_asn1_uint64 :: "heap_env \<Rightarrow> nat \<Rightarrow> cbb \<Rightarrow> u64 \<Rightarrow> bool \<times> cbb" where
  "CBB_add_asn1_uint64 e d s v =
     and_then (and_then (CBB_add_asn1 e d s CBS_ASN1_INTEGER) (asn1_uint64_bytes e (Suc d) v 8 False))
       (CBB_flush e d)"

definition CBB_add_asn1_octet_string :: "heap_env \<Rightarrow> nat \<Rightarrow> cbb \<Rightarrow> bytes \<Rightarrow> nat \<Rightarrow> bool \<times> cbb" where
  "CBB_add_asn1_octet_string e d s data data_len =
     and_then (and_then (CBB_add_asn1 e d s CBS_ASN1_OCTETSTRING)
                 (\<lambda>s. CBB_add_bytes e (Suc d) s data data_len))
       (CBB_flush e d)"

definition CBB_add_asn1_bool :: "heap_env \<Rightarrow> nat \<Rightarrow> cbb \<Rightarrow> bool \<Rightarrow> bool \<times> cbb" where
  "CBB_add_asn1_bool e d s v =
     and_then (and_then (CBB_add_asn1 e d s CBS_ASN1_BOOLEAN)
                 (\<lambda>s. CBB_add_u8 e (Suc d) s (if v then 0xff else 0)))
       (CBB_flush e d)"

section \<open>Base 128\<close>

lemma and_then_last: "and_then r (\<lambda>s. (True, s)) = r"
  by (cases r) (simp add: and_then_def split: bool.split)

lemma and_then_assoc: "and_then (and_then r f) g = and_then r (\<lambda>s. and_then (f s) g)"
  by (cases r) (simp add: and_then_def split: bool.split)

definition base128_byte :: "u64 \<Rightarrow> nat \<Rightarrow> u8" where
  "base128_byte v i = (let byte = ucast (drop_bit (7 * i) v AND 0x7f) in if i \<noteq> 0 then byte OR 0x80 else byte)"

lemma u8_or_high: "n < 128 \<Longrightarrow> of_nat n OR (0x80 :: u8) = of_nat (128 + n)"
proof -
  assume n: "n < 128"
  have "(0x80 :: u8) = push_bit 7 1" by (simp add: push_bit_eq_mult)
  moreover have "unat (of_nat n :: u8) < 2 ^ 7" using n by (simp add: unat_of_nat_u8)
  ultimately have "(0x80 :: u8) OR of_nat n = 0x80 + of_nat n"
    using push_bit_or_low [of "of_nat n" 7 1] by simp
  then show ?thesis by (simp add: or.commute)
qed

lemma base128_byte_eq:
  "base128_byte v i = of_nat ((if i \<noteq> 0 then 128 else 0) + unat v div 128 ^ i mod 128)"
proof -
  have m: "(0x7f :: u64) = mask 7" by (simp add: mask_eq_exp_minus_1)
  have p: "(2 :: nat) ^ (7 * i) = 128 ^ i" by (simp add: power_mult)
  have "unat (drop_bit (7 * i) v AND 0x7f) = unat v div 128 ^ i mod 128"
    unfolding m by (simp only: unat_and_mask unat_drop_bit p) simp
  then have "unat (ucast (drop_bit (7 * i) v AND 0x7f) :: u8) = unat v div 128 ^ i mod 128"
    by (simp add: unat_ucast)
  then have "(ucast (drop_bit (7 * i) v AND 0x7f) :: u8) = of_nat (unat v div 128 ^ i mod 128)"
    by (rule u8_eq_of_nat)
  then show ?thesis by (simp add: base128_byte_def Let_def u8_or_high)
qed

lemma rev_upt_Suc: "rev [0 ..< Suc l] = map Suc (rev [0 ..< l]) @ [0]"
  unfolding upt_conv_Cons [OF zero_less_Suc] map_Suc_upt [symmetric] by (simp add: rev_map)

lemma b128_hi_digits:
  "b128_hi n = map (\<lambda>j. of_nat (128 + n div 128 ^ j mod 128)) (rev [0 ..< length (b128_hi n)])"
proof (induction n rule: b128_hi.induct)
  case (1 n)
  show ?case
  proof (cases "n = 0")
    case False
    have hi: "b128_hi n = b128_hi (n div 128) @ [of_nat (128 + n mod 128)]"
      using False by (intro b128_hi_step) simp
    note ih = "1.IH" [OF False]
    define l where "l = length (b128_hi (n div 128))"
    note up = rev_upt_Suc [of l]
    have "map (\<lambda>j. of_nat (128 + n div 128 ^ j mod 128)) (rev [0 ..< Suc l]) =
      map (\<lambda>j. of_nat (128 + n div 128 div 128 ^ j mod 128)) (rev [0 ..< l]) @ [of_nat (128 + n mod 128) :: u8]"
      unfolding up by (simp add: div_mult2_eq)
    then show ?thesis using ih hi by (simp add: l_def del: upt_Suc)
  qed simp
qed

lemma base128_len_eq: "base128_len v = length (b128_hi (unat v))"
proof (induction v rule: base128_len.induct)
  case (1 v)
  then show ?case
    by (cases "v = 0") (simp_all add: base128_len.simps [of v] base128_len.simps [of 0] b128_hi_step unat_gt_0 unat_drop_bit
        word_neq_0_conv)
qed

lemma base128_bytes_eq:
  assumes "k = (if base128_len v = 0 then 1 else base128_len v)"
  shows "map (base128_byte v) (rev [0 ..< k]) = base128 (unat v)" "0 < k"
proof -
  define n where "n = unat v"
  show "0 < k" using assms by simp
  then obtain l where l: "k = Suc l" by (cases k) auto
  have "length (b128_hi (n div 128)) = l"
    using assms l b128_hi_step [of n] by (cases "n = 0") (auto simp: base128_len_eq n_def split: if_splits)
  then have hi: "b128_hi (n div 128) = map (\<lambda>j. of_nat (128 + n div 128 div 128 ^ j mod 128)) (rev [0 ..< l])"
    using b128_hi_digits [of "n div 128"] by simp
  note up = rev_upt_Suc [of l]
  show "map (base128_byte v) (rev [0 ..< k]) = base128 (unat v)"
    unfolding l up base128_def n_def [symmetric] hi
    by (simp add: base128_byte_eq n_def [symmetric] div_mult2_eq)
qed

lemma cbb_app_base128_digits:
  assumes "heap_ok e"
  shows "cbb_app e d (base128_digits e d v (Suc i)) (map (base128_byte v) (rev [0 ..< Suc i]))"
proof (induction i)
  case 0
  show ?case
    by (rule cbb_app_eqI [OF cbb_app_u8 [OF assms, of d "base128_byte v 0"]])
      (simp_all add: base128_byte_def Let_def and_then_def split: prod.split bool.split)
next
  case (Suc i)
  from cbb_app_seq [OF cbb_app_u8 [OF assms, of d "base128_byte v (Suc i)"] Suc] show ?case
    by (rule cbb_app_eqI) (simp_all add: base128_byte_def Let_def del: base128_digits.simps(2)
        add: base128_digits.simps(2) [of e d v "Suc i"])
qed

lemma cbb_app_base128:
  assumes "heap_ok e"
  shows "cbb_app e d (\<lambda>s. add_base128_integer e d s v) (base128 (unat v))"
proof -
  define k where "k = (if base128_len v = 0 then 1 else base128_len v)"
  note b = base128_bytes_eq [OF k_def]
  then obtain i where "k = Suc i" by (cases k) auto
  with cbb_app_base128_digits [OF assms, of d v i] b(1)
  have "cbb_app e d (base128_digits e d v k) (base128 (unat v))" by simp
  then show ?thesis by (rule cbb_app_eqI) (simp_all add: add_base128_integer_def Let_def k_def)
qed

section \<open>Tags and elements\<close>

lemma tag_number_mask: "unat (tag AND CBS_ASN1_TAG_NUMBER_MASK) = unat tag mod 2 ^ 29"
proof -
  have "(CBS_ASN1_TAG_NUMBER_MASK :: u32) = mask 29"
    by (simp add: CBS_ASN1_TAG_NUMBER_MASK_def mask_eq_exp_minus_1)
  then show ?thesis using unat_and_mask [of tag 29] by simp
qed

definition add_tag :: "heap_env \<Rightarrow> nat \<Rightarrow> u32 \<Rightarrow> cbb \<Rightarrow> bool \<times> cbb" where
  "add_tag e d tag s =
     (let tag_bits = ucast (drop_bit CBS_ASN1_TAG_SHIFT tag) AND 0xe0 :: u8;
          tag_number = tag AND CBS_ASN1_TAG_NUMBER_MASK in
      if tag_number \<ge> 0x1f
      then and_then (CBB_add_u8 e d s (tag_bits OR 0x1f))
             (\<lambda>s. add_base128_integer e d s (ucast tag_number))
      else CBB_add_u8 e d s (tag_bits OR ucast tag_number))"

lemma cbb_app_tag:
  assumes "heap_ok e"
  shows "cbb_app e d (add_tag e d tag) (der_tag tag)"
proof -
  define num where "num = tag AND CBS_ASN1_TAG_NUMBER_MASK"
  define cls where "cls = (ucast (drop_bit 24 tag) AND 0xe0 :: u8)"
  have u: "unat num = unat tag mod 2 ^ 29" unfolding num_def by (rule tag_number_mask)
  have ge: "num \<ge> 0x1f \<longleftrightarrow> 31 \<le> unat num" by (simp add: word_le_nat_alt)
  show ?thesis
  proof (cases "31 \<le> unat num")
    case True
    have "cbb_app e d (\<lambda>s. and_then (CBB_add_u8 e d s (cls OR 0x1f))
        (\<lambda>s. add_base128_integer e d s (ucast num))) ([cls OR 0x1f] @ base128 (unat (ucast num :: u64)))"
      by (rule cbb_app_seq [OF cbb_app_u8 [OF assms] cbb_app_base128 [OF assms]])
    then show ?thesis
      by (rule cbb_app_eqI)
        (use True ge u in \<open>simp_all add: add_tag_def Let_def num_def [symmetric] cls_def [symmetric]
          CBS_ASN1_TAG_SHIFT_def der_tag_def unat_ucast_up\<close>)
  next
    case False
    have "(ucast num :: u8) = of_nat (unat num)" by simp
    then have "der_tag tag = [cls OR ucast num]" using False u
      by (simp add: der_tag_def Let_def cls_def del: of_nat_unat)
    with cbb_app_u8 [OF assms, of d "cls OR ucast num"] show ?thesis
      by (rule_tac cbb_app_eqI) (use False ge in \<open>simp_all add: add_tag_def Let_def num_def [symmetric]
          cls_def [symmetric] CBS_ASN1_TAG_SHIFT_def\<close>)
  qed
qed

lemma cbb_base_len_at:
  assumes "cbb_at d s xs" "length (cbb_chain s) \<le> d"
  shows "cbb_base_len s = length xs"
  using assms by (auto simp: cbb_at_def cbb_base_len_def)

lemma cbb_open_cong:
  assumes "cbb_open e d f zs k a" "\<And>s xs. cbb_at d s xs \<Longrightarrow> f s = g s"
  shows "cbb_open e d g zs k a"
  unfolding cbb_open_def
proof (intro conjI allI impI)
  show "k \<le> length zs" using assms(1) by (simp add: cbb_open_def)
  fix s xs ok s'
  assume at: "cbb_at d s xs" and r: "g s = (ok, s')"
  show "if ok then cbb_at (Suc d) s' (xs @ zs) \<and> cbb_chain s' = take d (cbb_chain s) @
      [\<lparr>f_offset = length xs + (length zs - k), f_pending_len_len = k, f_pending_is_asn1 = a\<rparr>]
    else cbb_failed s'"
    by (rule cbb_open_at [OF assms(1) at]) (simp add: assms(2) [OF at] r)
next
  fix n s xs
  assume g: "heap_generous e" "cbb_ready n d s xs" "n + 8 * length zs \<le> 2 ^ 60"
  show "\<exists>s'. g s = (True, s') \<and> cbb_ready (n + length zs + 4) (Suc d) s' (xs @ zs)
    \<and> cbb_chain s' = take d (cbb_chain s) @
      [\<lparr>f_offset = length xs + (length zs - k), f_pending_len_len = k, f_pending_is_asn1 = a\<rparr>]"
    using cbb_open_ready [OF assms(1) g] unfolding assms(2) [OF cbb_ready_at [OF g(2)]] by blast
qed

lemma cbb_open_asn1:
  assumes "heap_ok e"
  shows "cbb_open e d (\<lambda>s. CBB_add_asn1 e d s tag) (der_tag tag @ [0]) 1 True"
proof -
  define T where "T s = and_then (CBB_flush e d s) (add_tag e d tag)" for s
  have T: "cbb_app e d T (der_tag tag)"
    unfolding T_def using cbb_app_nop [OF cbb_app_flush [OF assms] cbb_app_tag [OF assms]] .
  have Z: "cbb_app e d (\<lambda>s. CBB_add_u8 e d s 0) [0]" using assms by (rule cbb_app_u8)
  have push: "cbb_open e d (\<lambda>s. and_then (and_then (T s) (\<lambda>s. CBB_add_u8 e d s 0)) (\<lambda>s'. (True, push_child d s'
      \<lparr>f_offset = cbb_base_len s' - 1, f_pending_len_len = 1, f_pending_is_asn1 = True\<rparr>))) (der_tag tag @ [0]) 1 True"
    by (rule cbb_open_push [OF cbb_app_seq [OF T Z]]) simp_all
  show ?thesis
  proof (rule cbb_open_cong [OF push])
    fix s xs
    assume at: "cbb_at d s xs"
    obtain ok1 s1 where t: "T s = (ok1, s1)" by (cases "T s")
    obtain ok2 s2 where z: "CBB_add_u8 e d s1 0 = (ok2, s2)" by (cases "CBB_add_u8 e d s1 0")
    have code: "CBB_add_asn1 e d s tag = and_then (T s) (\<lambda>s. let offset = cbb_base_len s in
        and_then (CBB_add_u8 e d s 0) (\<lambda>s. (True, push_child d s
           \<lparr>f_offset = offset, f_pending_len_len = 1, f_pending_is_asn1 = True\<rparr>)))"
      unfolding CBB_add_asn1_def T_def and_then_assoc add_tag_def Let_def ..
    have "cbb_base_len s2 - 1 = cbb_base_len s1" if "ok1" "ok2"
    proof -
      have a1: "cbb_at d s1 (xs @ der_tag tag)" "cbb_chain s1 = take d (cbb_chain s)"
        using cbb_app_at [OF T at t] that by simp_all
      have a2: "cbb_at d s2 ((xs @ der_tag tag) @ [0])" "cbb_chain s2 = take d (cbb_chain s1)"
        using cbb_app_at [OF Z a1(1) z] that by simp_all
      have "cbb_base_len s1 = length (xs @ der_tag tag)" using a1(2) by (intro cbb_base_len_at [OF a1(1)]) simp
      moreover have "cbb_base_len s2 = length ((xs @ der_tag tag) @ [0])"
        using a2(2) by (intro cbb_base_len_at [OF a2(1)]) simp
      ultimately show ?thesis by simp
    qed
    then show "and_then (and_then (T s) (\<lambda>s. CBB_add_u8 e d s 0)) (\<lambda>s'. (True, push_child d s'
      \<lparr>f_offset = cbb_base_len s' - 1, f_pending_len_len = 1, f_pending_is_asn1 = True\<rparr>)) = CBB_add_asn1 e d s tag"
      unfolding code t and_then_def Let_def by (cases ok1; cases ok2) (simp_all add: z)
  qed
qed

text \<open>An element whose contents an operation on the child writes.\<close>

lemma cbb_app_elem:
  assumes "heap_ok e" "cbb_app_weak e (Suc d) body ys" "length ys \<le> 0xfffffffe"
  shows "cbb_app e d (\<lambda>s. and_then (and_then (CBB_add_asn1 e d s tag) body) (CBB_flush e d)) (der_elem tag ys)"
proof -
  have "len_prefix \<lparr>f_offset = i, f_pending_len_len = 1, f_pending_is_asn1 = True\<rparr> (length ys)
    = Some (der_len (length ys))" for i
    using assms(3) by (simp add: len_prefix_def)
  from cbb_app_child [OF assms(1) cbb_open_asn1 [OF assms(1)] assms(2) this order_refl length_der_len(1)]
  show ?thesis by (rule cbb_app_eqI) (simp_all add: der_elem_def der_header_def)
qed

section \<open>INTEGER, OCTET STRING and BOOLEAN\<close>

definition be_byte :: "u64 \<Rightarrow> nat \<Rightarrow> u8" where
  "be_byte v r = ucast (drop_bit (8 * r) v AND 0xff)"

lemma be_byte_eq: "be_byte v r = of_nat (unat v div 256 ^ r)"
proof -
  have m: "(0xff :: u64) = mask 8" by (simp add: mask_eq_exp_minus_1)
  have p: "(2 :: nat) ^ (8 * r) = 256 ^ r" by (simp add: power_mult)
  have "unat (drop_bit (8 * r) v AND 0xff) = unat v div 256 ^ r mod 256"
    unfolding m by (simp only: unat_and_mask unat_drop_bit p) simp
  then have "unat (be_byte v r) = unat v div 256 ^ r mod 256" by (simp add: be_byte_def unat_ucast)
  then show ?thesis by (simp add: word_unat_eq_iff unat_of_nat)
qed

lemma cbb_app_uint64_started:
  assumes "heap_ok e"
  shows "cbb_app e d (\<lambda>s. and_then (CBB_add_u8 e d s b) (asn1_uint64_bytes e d v r True))
    (b # be_bytes r (unat v))"
proof (induction r arbitrary: b)
  case 0
  show ?case
    by (rule cbb_app_eqI [OF cbb_app_u8 [OF assms, of d b]])
      (simp_all add: and_then_def split: prod.split bool.split)
next
  case (Suc r)
  from cbb_app_seq [OF cbb_app_u8 [OF assms, of d b] Suc [of "be_byte v r"]] show ?case
    by (rule cbb_app_eqI)
      (simp_all add: be_bytes_Cons be_byte_eq [symmetric] be_byte_def [symmetric] and_then_def Let_def
        del: be_bytes.simps split: prod.split bool.split)
qed

lemma cbb_app_uint64_bytes:
  assumes "heap_ok e"
  shows "cbb_app e d (asn1_uint64_bytes e d v r False) (der_uint (unat v mod 256 ^ r))"
proof (induction r)
  case 0
  show ?case by (rule cbb_app_eqI [OF cbb_app_u8 [OF assms, of d 0]]) (simp_all add: der_uint_def)
next
  case (Suc r)
  define b where "b = be_byte v r"
  have bv: "be_val (b # be_bytes r (unat v)) = unat v mod 256 ^ Suc r"
    using be_val_be_bytes [of "Suc r" "unat v"] unfolding be_bytes_Cons b_def be_byte_eq .
  show ?case
  proof (cases "b = 0")
    case True
    then have "unat v mod 256 ^ Suc r = unat v mod 256 ^ r"
      using bv by (simp add: be_val_Cons be_val_be_bytes)
    with Suc True show ?thesis
      by (rule_tac cbb_app_eqI) (simp_all add: b_def be_byte_def Let_def)
  next
    case False
    have min: "min_bytes (unat v mod 256 ^ Suc r) = b # be_bytes r (unat v)"
      using min_bytes_be_val [of "b # be_bytes r (unat v)"] False bv by simp
    have pos: "unat v mod 256 ^ Suc r \<noteq> 0"
      using be_val_pos [of "b # be_bytes r (unat v)"] False bv by simp
    note T = cbb_app_uint64_started [OF assms, of d b v r]
    have step: "asn1_uint64_bytes e d v (Suc r) False s =
      and_then (if b AND 0x80 \<noteq> 0 then CBB_add_u8 e d s 0 else (True, s))
        (\<lambda>s. and_then (CBB_add_u8 e d s b) (asn1_uint64_bytes e d v r True))" for s
      using False by (simp add: b_def be_byte_def Let_def)
    show ?thesis
    proof (cases "128 \<le> unat b")
      case True
      from cbb_app_seq [OF cbb_app_u8 [OF assms, of d 0] T] show ?thesis
        by (rule cbb_app_eqI)
          (use True pos min u8_high_bit [of b] in \<open>simp_all add: step der_uint_def Let_def del: power_Suc asn1_uint64_bytes.simps\<close>)
    next
      case small: False
      from T show ?thesis
        by (rule cbb_app_eqI)
          (use small pos min u8_high_bit [of b] in \<open>simp_all add: step der_uint_def Let_def and_then_def
            del: power_Suc asn1_uint64_bytes.simps\<close>)
    qed
  qed
qed

lemma cbb_app_asn1_uint64:
  assumes "heap_ok e"
  shows "cbb_app e d (\<lambda>s. CBB_add_asn1_uint64 e d s v) (der_elem CBS_ASN1_INTEGER (der_uint (unat v)))"
proof -
  have "be_val (der_uint (unat v)) = unat v" by (rule der_uint_val)
  have m: "unat v mod 256 ^ 8 = unat v" using unat_u64_lt [of v] by simp
  have "length (der_uint (unat v)) \<le> 9"
    using length_der_uint unat_u64_lt by blast
  with cbb_app_elem [OF assms cbb_app_imp_weak [OF cbb_app_uint64_bytes [OF assms, of "Suc d" v 8]], of CBS_ASN1_INTEGER]
  show ?thesis unfolding m CBB_add_asn1_uint64_def by simp
qed

lemma cbb_app_octet_string:
  assumes "heap_ok e" "length data \<le> 0xfffffffe"
  shows "cbb_app e d (\<lambda>s. CBB_add_asn1_octet_string e d s data (length data))
    (der_elem CBS_ASN1_OCTETSTRING data)"
proof -
  have "cbb_app e (Suc d) (\<lambda>s. CBB_add_bytes e (Suc d) s data (length data)) (take (length data) data)"
    using assms by (intro cbb_app_bytes) simp_all
  with cbb_app_elem [OF assms(1) cbb_app_imp_weak [OF this], of CBS_ASN1_OCTETSTRING] assms(2) show ?thesis
    by (simp add: CBB_add_asn1_octet_string_def)
qed

lemma cbb_app_bool:
  assumes "heap_ok e"
  shows "cbb_app e d (\<lambda>s. CBB_add_asn1_bool e d s v) (der_elem CBS_ASN1_BOOLEAN [if v then 0xff else 0])"
  using cbb_app_elem [OF assms cbb_app_imp_weak [OF cbb_app_u8 [OF assms, of "Suc d" "if v then 0xff else 0"]], of CBS_ASN1_BOOLEAN]
  by (simp add: CBB_add_asn1_bool_def)

section \<open>Object identifiers\<close>

text \<open>The characters of the dotted form: 0x2e is the dot and 0x30 the digit zero.\<close>

function parse_dotted_loop :: "cbs \<Rightarrow> u64 \<Rightarrow> bool \<Rightarrow> u64 option \<times> cbs" where
  "parse_dotted_loop cbs out seen_digit =
     (case CBS_get_u8 cbs of
        (None, c) \<Rightarrow> (if seen_digit then Some out else None, c)
      | (Some u, c) \<Rightarrow>
          if u = 0x2e \<and> CBS_len c > 0 then (if seen_digit then Some out else None, c)
          else if u < 0x30 \<or> u > 0x39 \<or> (seen_digit \<and> out = 0)
            \<or> out > 0xffffffffffffffff div 10
            \<or> out * 10 > 0xffffffffffffffff - ucast (u - 0x30) then (None, c)
          else parse_dotted_loop c (out * 10 + ucast (u - 0x30)) True)"
  by pat_completeness auto
termination
  by (relation "measure (\<lambda>(c, out, seen). c_len c)") (auto dest: CBS_get_u8_len [OF sym])

declare parse_dotted_loop.simps [simp del]

definition parse_dotted_decimal :: "cbs \<Rightarrow> u64 option \<times> cbs" where
  "parse_dotted_decimal cbs = parse_dotted_loop cbs 0 False"

lemma CBS_get_u8_len_le: "CBS_get_u8 c = (r, c') \<Longrightarrow> c_len c' \<le> c_len c"
  by (auto simp: CBS_get_u8_def cbs_get_def split: if_splits)

lemma CBS_get_u8_None_len: "CBS_get_u8 c = (None, c') \<Longrightarrow> c_len c = 0"
  by (auto simp: CBS_get_u8_def cbs_get_def split: if_splits)

lemma parse_dotted_loop_len: "c_len (snd (parse_dotted_loop c out seen)) \<le> c_len c"
proof (induction c out seen rule: parse_dotted_loop.induct)
  case (1 c out seen)
  obtain r c1 where g: "CBS_get_u8 c = (r, c1)" by (cases "CBS_get_u8 c")
  then have "c_len c1 \<le> c_len c" by (rule CBS_get_u8_len_le)
  then show ?case using 1 g
    by (subst parse_dotted_loop.simps) (fastforce split: option.split intro: le_trans)
qed

lemma parse_dotted_decimal_len:
  assumes "0 < c_len c" "parse_dotted_decimal c = (r, c')"
  shows "c_len c' < c_len c"
proof -
  obtain u c1 where g: "CBS_get_u8 c = (Some u, c1)"
    using assms(1) CBS_get_u8_None_len by (metis less_irrefl not_None_eq surj_pair)
  then have "c_len c1 < c_len c" by (rule CBS_get_u8_len)
  moreover have "c_len c2 \<le> c_len c1" if "parse_dotted_loop c1 out seen = (r, c2)" for out seen r c2
    using parse_dotted_loop_len [of c1 out seen] that by simp
  then have "c_len c' \<le> c_len c1"
    using assms(2) g unfolding parse_dotted_decimal_def parse_dotted_loop.simps [of c]
    by (auto split: if_splits)
  ultimately show ?thesis by simp
qed

function oid_from_text_loop :: "heap_env \<Rightarrow> nat \<Rightarrow> cbs \<Rightarrow> cbb \<Rightarrow> bool \<times> cbb" where
  "oid_from_text_loop e d cbs s =
     (if CBS_len cbs > 0 then
        (case parse_dotted_decimal cbs of
           (None, c) \<Rightarrow> (False, s)
         | (Some a, c) \<Rightarrow> and_then (add_base128_integer e d s a) (oid_from_text_loop e d c))
      else (True, s))"
  by pat_completeness auto
termination
  by (relation "measure (\<lambda>(e, d, c, s). c_len c)") (auto simp: CBS_len_def intro: parse_dotted_decimal_len [OF _ sym])

declare oid_from_text_loop.simps [simp del]

definition CBB_add_asn1_oid_from_text :: "heap_env \<Rightarrow> nat \<Rightarrow> cbb \<Rightarrow> bytes \<Rightarrow> nat \<Rightarrow> bool \<times> cbb" where
  "CBB_add_asn1_oid_from_text e d s text n =
     and_then (CBB_flush e d s) (\<lambda>s.
       (case parse_dotted_decimal (CBS_init text n) of
          (None, _) \<Rightarrow> (False, s)
        | (Some a, cbs) \<Rightarrow>
       (case parse_dotted_decimal cbs of
          (None, _) \<Rightarrow> (False, s)
        | (Some b, cbs) \<Rightarrow>
            if a > 2 \<or> (a < 2 \<and> b > 39) \<or> b > 0xffffffffffffffff - 80 then (False, s)
            else and_then (add_base128_integer e d s (40 * a + b)) (oid_from_text_loop e d cbs))))"

text \<open>\<open>BIO_snprintf\<close> with \<open>PRIu64\<close>: the decimal digits without leading zeros.\<close>

fun decimal :: "nat \<Rightarrow> bytes" where
  "decimal n = (if n < 10 then [of_nat (0x30 + n)] else decimal (n div 10) @ [of_nat (0x30 + n mod 10)])"

declare decimal.simps [simp del]

definition add_decimal :: "heap_env \<Rightarrow> nat \<Rightarrow> cbb \<Rightarrow> u64 \<Rightarrow> bool \<times> cbb" where
  "add_decimal e d s v = CBB_add_bytes e d s (decimal (unat v)) (length (decimal (unat v)))"

lemma parse_base128_loop_len:
  "parse_base128_loop c v = (Some w, c') \<Longrightarrow> c_len c' < c_len c"
proof (induction c v rule: parse_base128_loop.induct)
  case (1 c v)
  obtain r c1 where g: "CBS_get_u8 c = (r, c1)" by (cases "CBS_get_u8 c")
  show ?case
  proof (cases r)
    case None
    then show ?thesis using 1 g by (subst (asm) parse_base128_loop.simps) simp
  next
    case (Some b)
    then have "c_len c1 < c_len c" using g CBS_get_u8_len by blast
    then show ?thesis using 1 g Some
      by (subst (asm) (2) parse_base128_loop.simps) (fastforce simp: Let_def split: if_splits)
  qed
qed

function oid_to_text_loop :: "heap_env \<Rightarrow> cbs \<Rightarrow> cbb \<Rightarrow> bool \<times> cbb" where
  "oid_to_text_loop e copy s =
     (if CBS_len copy \<noteq> 0 then
        (case parse_base128_integer copy of
           (None, _) \<Rightarrow> (False, s)
         | (Some v, copy) \<Rightarrow>
             and_then (and_then (CBB_add_u8 e 0 s 0x2e) (\<lambda>s. add_decimal e 0 s v)) (oid_to_text_loop e copy))
      else (True, s))"
  by pat_completeness auto
termination
  by (relation "measure (\<lambda>(e, c, s). c_len c)")
    (auto simp: parse_base128_integer_def intro: parse_base128_loop_len [OF sym])

declare oid_to_text_loop.simps [simp del]

definition CBS_asn1_oid_to_text :: "heap_env \<Rightarrow> cbs \<Rightarrow> bytes option" where
  "CBS_asn1_oid_to_text e cbs =
     (case CBB_init e 32 of
        (False, _) \<Rightarrow> None
      | (True, cbb) \<Rightarrow>
     (case parse_base128_integer cbs of
        (None, _) \<Rightarrow> None
      | (Some v, copy) \<Rightarrow>
     (case and_then
         (if v \<ge> 80
          then and_then (CBB_add_bytes e 0 cbb [0x32, 0x2e] 2) (\<lambda>s. add_decimal e 0 s (v - 80))
          else and_then (and_then (add_decimal e 0 cbb (v div 40)) (\<lambda>s. CBB_add_u8 e 0 s 0x2e))
                 (\<lambda>s. add_decimal e 0 s (v mod 40)))
         (\<lambda>s. and_then (oid_to_text_loop e copy s) (\<lambda>s. CBB_add_u8 e 0 s 0)) of
        (False, _) \<Rightarrow> None
      | (True, s) \<Rightarrow> map_option fst (fst (CBB_finish e 0 s True True)))))"

section \<open>The text form of object identifiers\<close>

text \<open>
  An identifier is the list of its arcs.  The first two share a component: \<open>40 * a + b\<close>,
  which is unique because \<open>a\<close> is at most 2 and \<open>b\<close> at most 39 unless \<open>a\<close> is 2.
\<close>

fun oid_ok :: "nat list \<Rightarrow> bool" where
  "oid_ok (a # b # cs) \<longleftrightarrow> a \<le> 2 \<and> (a < 2 \<longrightarrow> b \<le> 39) \<and> b \<le> 2 ^ 64 - 1 - 80 \<and> (\<forall>c\<in>set cs. c < 2 ^ 64)"
| "oid_ok _ \<longleftrightarrow> False"

fun oid_der :: "nat list \<Rightarrow> bytes" where
  "oid_der (a # b # cs) = base128 (40 * a + b) @ concat (map base128 cs)"
| "oid_der _ = []"

fun oid_text :: "nat list \<Rightarrow> bytes" where
  "oid_text [] = []"
| "oid_text [a] = decimal a"
| "oid_text (a # as) = decimal a @ 0x2e # oid_text as"

lemma decimal_nonempty [simp]: "decimal n \<noteq> []"
  by (simp add: decimal.simps [of n])

lemma oid_text_Cons: "oid_text (a # as) = decimal a @ (if as = [] then [] else 0x2e # oid_text as)"
  by (cases as) simp_all

lemma oid_text_nonempty [simp]: "as \<noteq> [] \<Longrightarrow> oid_text as \<noteq> []"
  by (cases as) (simp_all add: oid_text_Cons)

lemma decimal_step: "n \<ge> 10 \<Longrightarrow> decimal n = decimal (n div 10) @ [of_nat (0x30 + n mod 10)]"
  by (subst decimal.simps) simp

lemma parse_dotted_digit:
  assumes "cbs_wf c" "cbs_view c = of_nat (0x30 + k) # rest" "k < 10"
    and "10 * unat out + k < 2 ^ 64" "seen \<Longrightarrow> out \<noteq> 0"
  shows "parse_dotted_loop c out seen = parse_dotted_loop (cbs_advance c 1) (of_nat (10 * unat out + k)) True"
proof -
  define u where "u = (of_nat (0x30 + k) :: u8)"
  have uu: "unat u = 0x30 + k" unfolding u_def using assms(3) by (intro unat_of_nat_u8) simp
  have g: "CBS_get_u8 c = (Some u, cbs_advance c 1)"
    using CBS_get_u8_Cons [OF assms(1,2)] by (simp add: u_def)
  have dk: "unat (u - 0x30) = k" using uu by (simp add: unat_sub word_le_nat_alt)
  have uc: "unat (ucast (u - 0x30) :: u64) = k" using dk by (simp add: unat_ucast_up)
  have range: "\<not> u < 0x30" "\<not> u > 0x39" "u \<noteq> 0x2e"
    using uu assms(3) by (auto simp: word_less_nat_alt)
  have le: "unat out \<le> (2 ^ 64 - 1) div 10" using assms(4) by simp
  have o1: "\<not> out > 0xffffffffffffffff div 10"
    using le by (simp add: word_less_nat_alt unat_div)
  have m: "unat (out * 10) = unat out * 10" using assms(4) by (simp add: unat_word_ariths)
  have "unat (0xffffffffffffffff - ucast (u - 0x30) :: u64) = 2 ^ 64 - 1 - k"
    using uc assms(3) by (simp add: unat_sub word_le_nat_alt)
  then have o2: "\<not> out * 10 > 0xffffffffffffffff - ucast (u - 0x30)"
    using m assms(4) by (simp add: word_less_nat_alt)
  have "unat (out * 10 + ucast (u - 0x30)) = 10 * unat out + k"
    using assms(4) uc m by (simp add: unat_word_ariths)
  then have v: "out * 10 + ucast (u - 0x30) = of_nat (10 * unat out + k)" by (rule word_eq_of_nat)
  show ?thesis
    using assms(5) range o1 o2 by (subst parse_dotted_loop.simps) (auto simp: g v)
qed

lemma parse_dotted_digits:
  assumes "cbs_wf c" "cbs_view c = decimal n @ rest" "n < 2 ^ 64"
  shows "parse_dotted_loop c 0 False =
    parse_dotted_loop (cbs_advance c (length (decimal n))) (of_nat n) True"
  using assms(2,3)
proof (induction n arbitrary: rest rule: decimal.induct)
  case (1 n)
  show ?case
  proof (cases "n < 10")
    case True
    then have "decimal n = [of_nat (0x30 + n)]" by (simp add: decimal.simps [of n])
    with "1.prems" True parse_dotted_digit [OF assms(1), of n rest 0 False] show ?thesis by simp
  next
    case False
    define m where "m = n div 10"
    have d: "decimal n = decimal m @ [of_nat (0x30 + n mod 10)]"
      using False unfolding m_def by (intro decimal_step) simp
    have v: "cbs_view c = decimal m @ of_nat (0x30 + n mod 10) # rest" using "1.prems" d by simp
    have m: "m < 2 ^ 64" "0 < m" "10 * m + n mod 10 = n" using "1.prems"(2) False by (auto simp: m_def)
    have um: "unat (of_nat m :: u64) = m" using m(1) by (simp add: unat_of_nat)
    note ih = "1.IH" [folded m_def, OF False v m(1)]
    note adv = cbs_advance_append [OF assms(1) v]
    have "parse_dotted_loop (cbs_advance c (length (decimal m))) (of_nat m) True =
      parse_dotted_loop (cbs_advance (cbs_advance c (length (decimal m))) 1) (of_nat (10 * m + n mod 10)) True"
      using parse_dotted_digit [OF adv(1,2), of "of_nat m" True] m "1.prems"(2) um
      by (auto simp: word_unat_eq_iff)
    then show ?thesis unfolding ih by (simp only: m(3) cbs_advance_advance d length_append) simp
  qed
qed

lemma parse_dotted_complete:
  assumes "cbs_wf c" "cbs_view c = decimal n @ rest" "n < 2 ^ 64"
    and "rest = [] \<or> (\<exists>r. rest = 0x2e # r \<and> r \<noteq> [])"
  shows "\<exists>c'. parse_dotted_decimal c = (Some (of_nat n), c') \<and> cbs_wf c' \<and> cbs_view c' = drop 1 rest"
proof -
  define c1 where "c1 = cbs_advance c (length (decimal n))"
  note adv = cbs_advance_append [OF assms(1,2), folded c1_def]
  have r: "parse_dotted_decimal c = parse_dotted_loop c1 (of_nat n) True"
    unfolding parse_dotted_decimal_def c1_def by (rule parse_dotted_digits [OF assms(1-3)])
  show ?thesis
  proof (cases "rest = []")
    case True
    with adv have "CBS_get_u8 c1 = (None, c1)" by (simp add: CBS_get_u8_eq)
    then have "parse_dotted_loop c1 (of_nat n) True = (Some (of_nat n), c1)"
      by (subst parse_dotted_loop.simps) simp
    with r adv True show ?thesis by simp
  next
    case False
    with assms(4) obtain r' where rest: "rest = 0x2e # r'" "r' \<noteq> []" by blast
    have g: "CBS_get_u8 c1 = (Some 0x2e, cbs_advance c1 1)"
      using CBS_get_u8_Cons [OF adv(1)] adv(2) rest(1) by simp
    have w: "cbs_wf (cbs_advance c1 1)" "cbs_view (cbs_advance c1 1) = r'"
      using cbs_advance_append [of c1 "[0x2e]" r'] adv(1,2) rest(1) by simp_all
    then have "0 < CBS_len (cbs_advance c1 1)"
      using length_cbs_view [OF w(1)] rest(2) unfolding w(2) CBS_len_def length_greater_0_conv [symmetric] by linarith
    with g have "parse_dotted_loop c1 (of_nat n) True = (Some (of_nat n), cbs_advance c1 1)"
      by (subst parse_dotted_loop.simps) simp
    with r w rest(1) show ?thesis by simp
  qed
qed

lemma cbs_empty_len: "cbs_wf c \<Longrightarrow> cbs_view c = [] \<longleftrightarrow> c_len c = 0"
  by (metis length_0_conv length_cbs_view)

definition oid_tail :: "nat list \<Rightarrow> bytes" where
  "oid_tail as = (if as = [] then [] else 0x2e # oid_text as)"

lemma parse_dotted_tail:
  assumes "cbs_wf c" "cbs_view c = decimal n @ oid_tail as" "n < 2 ^ 64"
  shows "\<exists>c'. parse_dotted_decimal c = (Some (of_nat n), c') \<and> cbs_wf c' \<and> cbs_view c' = oid_text as"
  using parse_dotted_complete [OF assms] by (cases "as = []") (auto simp: oid_tail_def)

lemma cbb_app_oid_loop:
  assumes "heap_ok e"
  shows "cbb_app e d f xs \<Longrightarrow> cbs_wf c \<Longrightarrow> cbs_view c = oid_text as \<Longrightarrow> \<forall>a\<in>set as. a < 2 ^ 64 \<Longrightarrow>
    cbb_app e d (\<lambda>s. and_then (f s) (oid_from_text_loop e d c)) (xs @ concat (map base128 as))"
proof (induction as arbitrary: f xs c)
  case Nil
  have "oid_from_text_loop e d c s = (True, s)" for s
    using Nil cbs_empty_len by (subst oid_from_text_loop.simps) (simp add: CBS_len_def)
  then have "and_then (f s) (oid_from_text_loop e d c) = f s" for s
    by (cases "f s") (simp add: and_then_def split: bool.split)
  with Nil show ?case by (simp add: cbb_app_def)
next
  case (Cons a as)
  have v: "cbs_view c = decimal a @ oid_tail as" using Cons.prems(3) by (simp add: oid_text_Cons oid_tail_def)
  obtain c' where c': "parse_dotted_decimal c = (Some (of_nat a), c')" "cbs_wf c'" "cbs_view c' = oid_text as"
    using parse_dotted_tail [OF Cons.prems(2) v] Cons.prems(4) by auto
  have "0 < CBS_len c"
    using v length_cbs_view [OF Cons.prems(2)] by (cases "decimal a") (auto simp: CBS_len_def)
  then have step: "oid_from_text_loop e d c s = and_then (add_base128_integer e d s (of_nat a)) (oid_from_text_loop e d c')" for s
    by (subst oid_from_text_loop.simps) (simp add: c'(1))
  have "unat (of_nat a :: u64) = a" using Cons.prems(4) by (simp add: unat_of_nat)
  then have "cbb_app e d (\<lambda>s. and_then (f s) (\<lambda>s. add_base128_integer e d s (of_nat a))) (xs @ base128 a)"
    using cbb_app_seq [OF Cons.prems(1) cbb_app_base128 [OF assms, of d "of_nat a"]] by simp
  from Cons.IH [OF this c'(2,3)] Cons.prems(4) show ?case
    by (simp add: step and_then_assoc)
qed

lemma cbb_app_oid_prefix:
  assumes "heap_ok e" "oid_ok as" "take n text = oid_text as" "n \<le> length text" "n < 2 ^ 64"
  shows "cbb_app e d (\<lambda>s. CBB_add_asn1_oid_from_text e d s text n) (oid_der as)"
proof -
  obtain a b cs where as: "as = a # b # cs" using assms(2) by (cases as rule: oid_ok.cases) auto
  have ok: "a \<le> 2" "a < 2 \<Longrightarrow> b \<le> 39" "b \<le> 2 ^ 64 - 1 - 80" "\<forall>c\<in>set cs. c < 2 ^ 64"
    using assms(2) by (auto simp: as)
  define c0 where "c0 = CBS_init text n"
  have c0: "cbs_wf c0" "cbs_view c0 = decimal a @ oid_tail (b # cs)"
    using assms(3-5) by (simp_all add: c0_def CBS_init_wf as oid_tail_def)
  obtain c1 where c1: "parse_dotted_decimal c0 = (Some (of_nat a), c1)" "cbs_wf c1" "cbs_view c1 = oid_text (b # cs)"
    using parse_dotted_tail [OF c0] ok(1) by auto
  have v1: "cbs_view c1 = decimal b @ oid_tail cs" using c1(3) by (simp add: oid_text_Cons oid_tail_def)
  obtain c2 where c2: "parse_dotted_decimal c1 = (Some (of_nat b), c2)" "cbs_wf c2" "cbs_view c2 = oid_text cs"
    using parse_dotted_tail [OF c1(2) v1] ok(3) by auto
  have un: "unat (of_nat a :: u64) = a" "unat (of_nat b :: u64) = b" using ok(1,3) by (simp_all add: unat_of_nat)
  have guards: "\<not> (of_nat a :: u64) > 2" "(of_nat a :: u64) < 2 \<longleftrightarrow> a < 2" "\<not> (of_nat b :: u64) > 0xffffffffffffffff - 80"
    "(of_nat b :: u64) > 39 \<longleftrightarrow> b > 39"
    using ok(1,3) by (simp_all add: word_less_nat_alt un)
  have "unat (40 * of_nat a + of_nat b :: u64) = 40 * a + b"
    using ok(1,3) by (simp add: unat_word_ariths un)
  then have "cbb_app e d (\<lambda>s. and_then (add_base128_integer e d s (40 * of_nat a + of_nat b))
      (oid_from_text_loop e d c2)) (base128 (40 * a + b) @ concat (map base128 cs))"
    using cbb_app_oid_loop [OF assms(1) cbb_app_base128 [OF assms(1), of d "40 * of_nat a + of_nat b"] c2(2,3) ok(4)]
    by simp
  from cbb_app_nop [OF cbb_app_flush [OF assms(1)] this] show ?thesis
  proof (rule cbb_app_eqI)
    fix s
    show "and_then (CBB_flush e d s) (\<lambda>s. and_then (add_base128_integer e d s (40 * of_nat a + of_nat b))
        (oid_from_text_loop e d c2)) = CBB_add_asn1_oid_from_text e d s text n"
      unfolding CBB_add_asn1_oid_from_text_def c0_def [symmetric] c1(1) prod.case option.case c2(1)
      using guards ok(2) by (cases "a < 2") simp_all
  qed (simp add: as)
qed

lemma cbb_app_oid_from_text:
  assumes "heap_ok e" "oid_ok as" "text = oid_text as" "length text < 2 ^ 64"
  shows "cbb_app e d (\<lambda>s. CBB_add_asn1_oid_from_text e d s text (length text)) (oid_der as)"
  by (rule cbb_app_oid_prefix) (use assms in simp_all)

lemma length_decimal: "n < 10 ^ k \<Longrightarrow> 0 < k \<Longrightarrow> length (decimal n) \<le> k"
proof (induction n arbitrary: k rule: decimal.induct)
  case (1 n)
  show ?case
  proof (cases "n < 10")
    case False
    then obtain j where k: "k = Suc j" "0 < j" using "1.prems" by (cases k; cases "k - 1") auto
    then have "n div 10 < 10 ^ j" using "1.prems" by (simp add: less_mult_imp_div_less mult.commute)
    with "1.IH" [OF False this] k False show ?thesis by (simp add: decimal_step)
  qed (use "1.prems" in \<open>simp add: decimal.simps [of n]\<close>)
qed

lemma cbb_app_decimal:
  assumes "heap_ok e"
  shows "cbb_app e d (\<lambda>s. add_decimal e d s v) (decimal (unat v))"
proof -
  have "length (decimal (unat v)) \<le> 20"
    using length_decimal [of "unat v" 20] unat_u64_lt [of v] by simp
  then show ?thesis
    using cbb_app_bytes [OF assms, of "length (decimal (unat v))" "decimal (unat v)" d]
    by (simp add: add_decimal_def)
qed

lemma cbb_app_oid_text_loop:
  assumes "heap_ok e"
  shows "cbb_app e 0 f xs \<Longrightarrow> cbs_wf c \<Longrightarrow> cbs_view c = concat (map base128 as) \<Longrightarrow> \<forall>a\<in>set as. a < 2 ^ 64 \<Longrightarrow>
    cbb_app e 0 (\<lambda>s. and_then (f s) (oid_to_text_loop e c)) (xs @ oid_tail as)"
proof (induction as arbitrary: f xs c)
  case Nil
  have "oid_to_text_loop e c s = (True, s)" for s
    using Nil cbs_empty_len by (subst oid_to_text_loop.simps) (simp add: CBS_len_def)
  then have "and_then (f s) (oid_to_text_loop e c) = f s" for s
    by (cases "f s") (simp add: and_then_def split: bool.split)
  with Nil show ?case by (simp add: cbb_app_def oid_tail_def)
next
  case (Cons a as)
  have v: "cbs_view c = base128 a @ concat (map base128 as)" and a: "a < 2 ^ 64" using Cons.prems(3,4) by simp_all
  define c' where "c' = cbs_advance c (length (base128 a))"
  have p: "parse_base128_integer c = (Some (of_nat a), c')"
    unfolding c'_def by (rule parse_base128_complete [OF Cons.prems(2) v a])
  note adv = cbs_advance_append [OF Cons.prems(2) v, folded c'_def]
  have "CBS_len c \<noteq> 0"
    using v length_cbs_view [OF Cons.prems(2)] by (cases "base128 a") (auto simp: CBS_len_def)
  then have step: "oid_to_text_loop e c s =
    and_then (and_then (CBB_add_u8 e 0 s 0x2e) (\<lambda>s. add_decimal e 0 s (of_nat a))) (oid_to_text_loop e c')" for s
    by (subst oid_to_text_loop.simps) (simp add: p)
  have ua: "unat (of_nat a :: u64) = a" using a by (simp add: unat_of_nat)
  have "cbb_app e 0 (\<lambda>s. and_then (CBB_add_u8 e 0 s 0x2e) (\<lambda>s. add_decimal e 0 s (of_nat a))) ([0x2e] @ decimal a)"
    using cbb_app_seq [OF cbb_app_u8 [OF assms] cbb_app_decimal [OF assms, of 0 "of_nat a"]] ua by simp
  from cbb_app_seq [OF Cons.prems(1) this]
  have "cbb_app e 0 (\<lambda>s. and_then (f s) (\<lambda>s. and_then (CBB_add_u8 e 0 s 0x2e) (\<lambda>s. add_decimal e 0 s (of_nat a))))
      (xs @ 0x2e # decimal a)" by simp
  from Cons.IH [OF this adv(1,2)] Cons.prems(4) show ?case
    by (simp add: step and_then_assoc oid_tail_def oid_text_Cons split: if_splits)
qed

lemma dots_nonzero: "0 \<notin> set (decimal n)" "0 \<notin> set (oid_text as)"
proof -
  have digit: "(of_nat (0x30 + k) :: u8) \<noteq> 0" if "k < 10" for k
    using that unat_of_nat_u8 [of "0x30 + k"] by (auto simp: word_unat_eq_iff)
  show d: "0 \<notin> set (decimal n)" for n
  proof (induction n rule: decimal.induct)
    case (1 n)
    then show ?case
      using digit [of n] digit [of "n mod 10"] by (cases "n < 10") (auto simp: decimal.simps [of n])
  qed
  then show "0 \<notin> set (oid_text as)" by (induction as rule: oid_text.induct) auto
qed

lemma length_oid_text: "oid_ok as \<Longrightarrow> length (oid_text as) \<le> 21 * length as"
proof -
  have "\<forall>a\<in>set as. a < 10 ^ 20 \<Longrightarrow> length (oid_text as) \<le> 21 * length as"
    by (induction as) (use length_decimal [of _ 20] in \<open>fastforce simp: oid_text_Cons\<close>)+
  moreover assume "oid_ok as"
  then have "\<forall>a\<in>set as. a < 10 ^ 20" by (cases as rule: oid_ok.cases) auto
  ultimately show ?thesis by blast
qed

lemma CBS_asn1_oid_to_text_correct:
  assumes "heap_ok e" "heap_generous e" "cbs_wf c" "cbs_view c = oid_der as" "oid_ok as" "length as \<le> 2 ^ 48"
  shows "\<exists>t. CBS_asn1_oid_to_text e c = Some t \<and> cstr t = oid_text as \<and> strlen t < length t"
proof -
  obtain a b cs where as: "as = a # b # cs" using assms(5) by (cases as rule: oid_ok.cases) auto
  have ok: "a \<le> 2" "a < 2 \<Longrightarrow> b \<le> 39" "b \<le> 2 ^ 64 - 1 - 80" "\<forall>c\<in>set cs. c < 2 ^ 64"
    using assms(5) by (auto simp: as)
  define n where "n = 40 * a + b"
  have n: "n < 2 ^ 64" using ok(1,3) by (simp add: n_def)
  define v where "v = (of_nat n :: u64)"
  have uv: "unat v = n" using n by (simp add: v_def unat_of_nat)
  define c' where "c' = cbs_advance c (length (base128 n))"
  have vw: "cbs_view c = base128 n @ concat (map base128 cs)" using assms(4) by (simp add: as n_def)
  have p: "parse_base128_integer c = (Some v, c')"
    unfolding c'_def v_def by (rule parse_base128_complete [OF assms(3) vw n])
  note adv = cbs_advance_append [OF assms(3) vw, folded c'_def]
  obtain s0 where s0: "CBB_init e 32 = (True, s0)" "cbb_ready 0 0 s0 []"
    using CBB_init_ready [OF assms(1,2), of 32] by auto
  define hd_op where "hd_op = (\<lambda>s. if v \<ge> 80
      then and_then (CBB_add_bytes e 0 s [0x32, 0x2e] 2) (\<lambda>s. add_decimal e 0 s (v - 80))
      else and_then (and_then (add_decimal e 0 s (v div 40)) (\<lambda>s. CBB_add_u8 e 0 s 0x2e))
             (\<lambda>s. add_decimal e 0 s (v mod 40)))"
  have hd_app: "cbb_app e 0 hd_op (decimal a @ 0x2e # decimal b)"
  proof (cases "v \<ge> 80")
    case True
    then have n80: "80 \<le> n" using uv by (simp add: word_le_nat_alt)
    then have "\<not> a < 2" using ok(2) by (auto simp: n_def)
    then have a2: "a = 2" using ok(1) by simp
    then have a: "a = 2" "b = n - 80" by (simp_all add: n_def)
    have "unat (v - 80) = b" using True uv a by (simp add: unat_sub)
    moreover have "decimal 2 = [0x32]" by (simp add: decimal.simps)
    moreover have "cbb_app e 0 (\<lambda>s. CBB_add_bytes e 0 s [0x32, 0x2e] 2) [0x32, 0x2e]"
      using cbb_app_bytes [OF assms(1), of 2 "[0x32, 0x2e]" 0] by simp
    ultimately show ?thesis
      using cbb_app_seq [OF _ cbb_app_decimal [OF assms(1), of 0 "v - 80"]] True a
      by (fastforce simp: hd_op_def)
  next
    case False
    then have n80: "n < 80" using uv by (simp add: word_le_nat_alt)
    have "a < 2" using n80 ok(1) by (simp add: n_def)
    then have "n div 40 = a" "n mod 40 = b" using ok(2) by (auto simp: n_def)
    then have "unat (v div 40) = a" "unat (v mod 40) = b" using uv by (simp_all add: unat_div unat_mod)
    with cbb_app_seq [OF cbb_app_seq [OF cbb_app_decimal [OF assms(1), of 0 "v div 40"]
        cbb_app_u8 [OF assms(1), of 0 "0x2e"]] cbb_app_decimal [OF assms(1), of 0 "v mod 40"]] False
    show ?thesis by (simp add: hd_op_def)
  qed
  have tx: "decimal a @ 0x2e # decimal b @ oid_tail cs = oid_text as"
    by (simp add: as oid_text_Cons oid_tail_def)
  have app: "cbb_app e 0 (\<lambda>s. and_then (hd_op s) (\<lambda>s. and_then (oid_to_text_loop e c' s) (\<lambda>s. CBB_add_u8 e 0 s 0)))
      (oid_text as @ [0])"
    using cbb_app_seq [OF cbb_app_oid_text_loop [OF assms(1) hd_app adv(1,2) ok(4)] cbb_app_u8 [OF assms(1), of 0 0]]
    by (simp add: and_then_assoc tx [symmetric])
  have "0 + 8 * length (oid_text as @ [0]) \<le> 2 ^ 60"
    using length_oid_text [OF assms(5)] assms(6) by simp
  from cbb_app_ready [OF app assms(2) s0(2) this] obtain s1 where
    s1: "and_then (hd_op s0) (\<lambda>s. and_then (oid_to_text_loop e c' s) (\<lambda>s. CBB_add_u8 e 0 s 0)) = (True, s1)"
      "cbb_ready (length (oid_text as @ [0])) 0 s1 (oid_text as @ [0])"
    by auto
  have "length (oid_text as @ [0]) \<le> 2 ^ 60"
    using length_oid_text [OF assms(5)] assms(6) by simp
  from CBB_finish_ready [OF assms(1,2) s1(2) this] obtain buf s2 where
    fin: "CBB_finish e 0 s1 True True = (Some (buf, length (oid_text as @ [0])), s2)"
      "take (length (oid_text as @ [0])) buf = oid_text as @ [0]" by blast
  have "buf = oid_text as @ 0 # drop (length (oid_text as @ [0])) buf"
    using append_take_drop_id [of "length (oid_text as @ [0])" buf, symmetric] unfolding fin(2) by simp
  then have "cstr buf = oid_text as \<and> length (oid_text as) < length buf"
    using cstr_terminated [OF dots_nonzero(2)] by (metis length_append length_Cons less_add_Suc1 add_Suc_right)
  moreover have "CBS_asn1_oid_to_text e c = Some buf"
    using s0(1) p s1(1) fin(1) unfolding CBS_asn1_oid_to_text_def hd_op_def by simp
  ultimately show ?thesis by (auto simp: strlen_def)
qed

end
