(* ===== verification/CBB_SetOf.thy ===== *)
theory CBB_SetOf
  imports CBB_ASN1
begin

text \<open>
  \<open>CBB_flush_asn1_set_of\<close> of \<open>crypto/bytestring/cbb.c\<close>, which sorts the elements of a
  SET OF by their encodings (X.690, 11.6), and \<open>CBB_finish_i2d\<close> of \<open>asn1_compat.c\<close>.
\<close>

section \<open>Operations\<close>

definition compare_set_of_element :: "cbs \<Rightarrow> cbs \<Rightarrow> int" where
  "compare_set_of_element a b =
     (let a_len = CBS_len a; b_len = CBS_len b; min_len = (if a_len < b_len then a_len else b_len);
          ret = memcmp (CBS_data a) (CBS_data b) min_len in
      if ret \<noteq> 0 then ret
      else if a_len = b_len then 0
      else if a_len < b_len then -1 else 1)"

text \<open>
  The first pass counts the elements.  Its argument \<open>fuel\<close> bounds the iterations; an
  element is never empty, so the number of bytes is enough (\<open>count_children_complete\<close>).
\<close>

fun count_children :: "nat \<Rightarrow> cbs \<Rightarrow> nat option" where
  "count_children fuel cbs =
     (if CBS_len cbs = 0 then Some 0
      else case fuel of 0 \<Rightarrow> None
      | Suc fuel \<Rightarrow>
          (case CBS_get_any_asn1_element cbs of
             (None, _) \<Rightarrow> None
           | (Some _, cbs) \<Rightarrow> map_option Suc (count_children fuel cbs)))"

declare count_children.simps [simp del]

primrec parse_children :: "nat \<Rightarrow> cbs \<Rightarrow> cbs list option" where
  "parse_children 0 cbs = Some []"
| "parse_children (Suc n) cbs =
     (case CBS_get_any_asn1_element cbs of
        (None, _) \<Rightarrow> None
      | (Some (child, _, _), cbs) \<Rightarrow> map_option ((#) child) (parse_children n cbs))"

primrec add_children :: "heap_env \<Rightarrow> nat \<Rightarrow> cbs list \<Rightarrow> cbb \<Rightarrow> bool \<times> cbb" where
  "add_children e d [] s = (True, s)"
| "add_children e d (c # cs) s =
     and_then (CBB_add_bytes e d s (CBS_data c) (CBS_len c)) (add_children e d cs)"

definition rewind_to_start :: "nat \<Rightarrow> cbb \<Rightarrow> cbb" where
  "rewind_to_start d s = s\<lparr>cbb_base := map_option (\<lambda>b. b\<lparr>b_len := cbb_start d s\<rparr>) (cbb_base s)\<rparr>"

text \<open>A failed assertion of \<open>CBB_data\<close> or \<open>CBB_len\<close> is a failure here; after a flush there is none.\<close>

definition CBB_flush_asn1_set_of :: "heap_env \<Rightarrow> nat \<Rightarrow> cbb \<Rightarrow> bool \<times> cbb" where
  "CBB_flush_asn1_set_of e d s =
     and_then (CBB_flush e d s) (\<lambda>s.
       (case (CBB_data d s, CBB_len d s) of
          (Some data, Some buf_len) \<Rightarrow>
            (case count_children buf_len (CBS_init data buf_len) of
               None \<Rightarrow> (False, s)
             | Some num_children \<Rightarrow>
                 if num_children < 2 then (True, s)
                 else if num_children > size_max div 16 then (False, s)
                 else (case (BUF_memdup e data buf_len, OPENSSL_malloc e (num_children * 16)) of
                         (Some buf, Some _) \<Rightarrow>
                           (case parse_children num_children (CBS_init buf buf_len) of
                              None \<Rightarrow> (False, s)
                            | Some children \<Rightarrow>
                                add_children e d (qsort compare_set_of_element children) (rewind_to_start d s))
                       | _ \<Rightarrow> (False, s)))
        | _ \<Rightarrow> (False, s)))"

text \<open>
  \<open>outp\<close> is \<open>None\<close> for a null \<open>outp\<close>, \<open>Some None\<close> for a null \<open>*outp\<close> and \<open>Some (Some out)\<close>
  for a buffer.  The result is the returned \<open>int\<close> and \<open>*outp\<close> afterwards: the new buffer,
  or the caller's buffer with the bytes written and the number of them that the pointer
  moved by.
\<close>

definition CBB_finish_i2d :: "heap_env \<Rightarrow> cbb \<Rightarrow> bytes option option \<Rightarrow> int \<times> (bytes \<times> nat) option" where
  "CBB_finish_i2d e s outp =
     (case CBB_finish e 0 s True True of
        (None, _) \<Rightarrow> (-1, None)
      | (Some (der, n), _) \<Rightarrow>
          if n > 2 ^ 31 - 1 then (-1, None)
          else (int n,
                (case outp of
                   None \<Rightarrow> None
                 | Some None \<Rightarrow> Some (der, 0)
                 | Some (Some out) \<Rightarrow> Some (blit out 0 (take n der), n))))"

section \<open>The ordering\<close>

fun lex_cmp :: "bytes \<Rightarrow> bytes \<Rightarrow> int" where
  "lex_cmp [] [] = 0"
| "lex_cmp [] (b # bs) = -1"
| "lex_cmp (a # as) [] = 1"
| "lex_cmp (a # as) (b # bs) = (if a = b then lex_cmp as bs else if a < b then -1 else 1)"

lemma lex_cmp_swap: "lex_cmp y x = - lex_cmp x y"
  by (induction x y rule: lex_cmp.induct) auto

lemma lex_cmp_zero_iff: "lex_cmp x y = 0 \<longleftrightarrow> x = y"
  by (induction x y rule: lex_cmp.induct) auto

lemma lex_cmp_range: "lex_cmp x y \<in> {-1, 0, 1}"
  by (induction x y rule: lex_cmp.induct) auto

lemma lex_cmp_Nil: "lex_cmp [] x \<le> 0" "lex_cmp x [] \<le> 0 \<longleftrightarrow> x = []"
  by (cases x; simp)+

lemma lex_cmp_trans: "lex_cmp x y \<le> 0 \<Longrightarrow> lex_cmp y z \<le> 0 \<Longrightarrow> lex_cmp x z \<le> 0"
proof (induction x y arbitrary: z rule: lex_cmp.induct)
  case (4 a as b bs)
  then show ?case by (cases z) (auto split: if_splits)
qed (auto simp: lex_cmp_Nil)

lemma lex_cmp_memcmp:
  "lex_cmp x y = (let r = memcmp x y (min (length x) (length y)) in
     if r \<noteq> 0 then r else if length x = length y then 0 else if length x < length y then -1 else 1)"
  by (induction x y rule: lex_cmp.induct) (auto simp: Let_def)

lemma memcmp_take: "memcmp (take n a) (take n b) n = memcmp a b n"
  by (induction a b n rule: memcmp.induct) auto

lemma memcmp_take2: "k \<le> n \<Longrightarrow> k \<le> m \<Longrightarrow> memcmp (take n a) (take m b) k = memcmp a b k"
  by (metis memcmp_take min.absorb1 take_take)

lemma compare_set_of_element_eq:
  assumes "cbs_wf a" "cbs_wf b"
  shows "compare_set_of_element a b = lex_cmp (cbs_view a) (cbs_view b)"
proof -
  have "memcmp (cbs_view a) (cbs_view b) (min (c_len a) (c_len b)) =
    memcmp (c_data a) (c_data b) (min (c_len a) (c_len b))"
    unfolding cbs_view_def by (rule memcmp_take2) simp_all
  then show ?thesis
    using assms
    by (simp add: compare_set_of_element_def lex_cmp_memcmp Let_def CBS_len_def CBS_data_def min_def)
qed

text \<open>The comparison function meets the contract of \<open>qsort\<close> on all valid readers.\<close>

interpretation set_of: comparison cbs_wf compare_set_of_element
proof
  fix x y z
  assume v: "cbs_wf x" "cbs_wf y"
  show "compare_set_of_element x y < 0 \<longleftrightarrow> 0 < compare_set_of_element y x"
    unfolding compare_set_of_element_eq [OF v] compare_set_of_element_eq [OF v(2,1)]
    using lex_cmp_swap [of "cbs_view y" "cbs_view x"] by linarith
  assume z: "cbs_wf z" "compare_set_of_element x y \<le> 0" "compare_set_of_element y z \<le> 0"
  then show "compare_set_of_element x z \<le> 0"
    using v lex_cmp_trans by (simp add: compare_set_of_element_eq)
qed

section \<open>Parsing the elements\<close>

definition der_elems :: "(u32 \<times> bytes) list \<Rightarrow> bytes" where
  "der_elems els = concat (map (\<lambda>(t, b). der_elem t b) els)"

lemma der_elems_simps [simp]: "der_elems [] = []" "der_elems ((t, b) # els) = der_elem t b @ der_elems els"
  by (simp_all add: der_elems_def)

lemma count_children_complete:
  assumes "cbs_wf c" "cbs_view c = der_elems els" "\<forall>(t, b)\<in>set els. length b < 2 ^ 32" "length els \<le> fuel"
  shows "count_children fuel c = Some (length els)"
  using assms
proof (induction els arbitrary: c fuel)
  case Nil
  then show ?case using cbs_empty_len [of c] by (simp add: count_children.simps CBS_len_def)
next
  case (Cons x els)
  obtain t b where x: "x = (t, b)" by (cases x)
  obtain f where f: "fuel = Suc f" using Cons.prems(4) by (cases fuel) auto
  have v: "cbs_view c = der_elem t b @ der_elems els" using Cons.prems(2) x by simp
  obtain out hl c' where e: "cbs_get_any_asn1_element c False = (Some (out, t, hl), c')"
    "definite_elem c out t hl c' b" "cbs_view c' = der_elems els"
    using definite_elem_complete [OF Cons.prems(1) v, of False] Cons.prems(3) x by auto
  note bd = definite_elem_body [OF Cons.prems(1) e(2)]
  have "CBS_len c \<noteq> 0" using bd(7) by (simp add: CBS_len_def)
  with Cons.IH [OF bd(4) e(3), of f] Cons.prems(3,4) f e(1) show ?case
    by (subst count_children.simps) (simp add: CBS_get_any_asn1_element_def)
qed

lemma count_children_sound:
  assumes "cbs_wf c" "count_children fuel c = Some n"
  shows "\<exists>els. cbs_view c = der_elems els \<and> length els = n \<and> (\<forall>(t, b)\<in>set els. length b < 2 ^ 32)"
  using assms
proof (induction fuel arbitrary: c n)
  case 0
  then have "CBS_len c = 0" "n = 0" by (simp_all add: count_children.simps [of 0] split: if_splits)
  with 0 show ?case using cbs_empty_len [of c] by (intro exI [of _ "[]"]) (simp add: CBS_len_def)
next
  case (Suc f)
  show ?case
  proof (cases "CBS_len c = 0")
    case True
    with Suc.prems have "n = 0" by (simp add: count_children.simps [of "Suc f"])
    with Suc.prems True show ?thesis
      using cbs_empty_len [of c] by (intro exI [of _ "[]"]) (simp add: CBS_len_def)
  next
    case False
    then obtain out t hl c' m where e: "CBS_get_any_asn1_element c = (Some (out, t, hl), c')"
      "count_children f c' = Some m" "n = Suc m"
      using Suc.prems(2) by (auto simp: count_children.simps [of "Suc f"] split: prod.splits option.splits)
    obtain b where d: "definite_elem c out t hl c' b"
      using CBS_get_any_asn1_element_sound [OF Suc.prems(1) e(1)] by blast
    note bd = definite_elem_body [OF Suc.prems(1) d]
    obtain els where "cbs_view c' = der_elems els" "length els = m" "\<forall>(t, b)\<in>set els. length b < 2 ^ 32"
      using Suc.IH [OF bd(4) e(2)] by blast
    with d e(3) show ?thesis
      by (intro exI [of _ "(t, b) # els"]) (simp add: definite_elem_def)
  qed
qed

lemma parse_children_complete:
  assumes "cbs_wf c" "cbs_view c = der_elems els" "\<forall>(t, b)\<in>set els. length b < 2 ^ 32"
  shows "\<exists>cs. parse_children (length els) c = Some cs \<and> map cbs_view cs = map (\<lambda>(t, b). der_elem t b) els
    \<and> (\<forall>x\<in>set cs. cbs_wf x)"
  using assms
proof (induction els arbitrary: c)
  case (Cons x els)
  obtain t b where x: "x = (t, b)" by (cases x)
  have v: "cbs_view c = der_elem t b @ der_elems els" using Cons.prems(2) x by simp
  obtain out hl c' where e: "cbs_get_any_asn1_element c False = (Some (out, t, hl), c')"
    "definite_elem c out t hl c' b" "cbs_view c' = der_elems els"
    using definite_elem_complete [OF Cons.prems(1) v, of False] Cons.prems(3) x by auto
  note bd = definite_elem_body [OF Cons.prems(1) e(2)]
  obtain cs where "parse_children (length els) c' = Some cs"
    "map cbs_view cs = map (\<lambda>(t, b). der_elem t b) els" "\<forall>x\<in>set cs. cbs_wf x"
    using Cons.IH [OF bd(4) e(3)] Cons.prems(3) by auto
  with e(1) bd(5,6) x show ?case by (simp add: CBS_get_any_asn1_element_def)
qed simp

section \<open>Sorting\<close>

text \<open>What \<open>CBB_flush_asn1_set_of\<close> makes of a list of elements.\<close>

definition set_of_order :: "bytes list \<Rightarrow> bytes list \<Rightarrow> bool" where
  "set_of_order es es' \<longleftrightarrow> mset es' = mset es \<and> sorted_wrt (\<lambda>x y. lex_cmp x y \<le> 0) es'"

lemma qsort_children:
  assumes "\<forall>c\<in>set cs. cbs_wf c"
  shows "set_of_order (map cbs_view cs) (map cbs_view (qsort compare_set_of_element cs))"
proof -
  have "sorted_wrt (\<lambda>x y. compare_set_of_element x y \<le> 0) (qsort compare_set_of_element cs)"
    using assms by (rule set_of.sorted_qsort)
  then have "sorted_wrt (\<lambda>x y. lex_cmp (cbs_view x) (cbs_view y) \<le> 0) (qsort compare_set_of_element cs)"
    by (rule sorted_wrt_mono_rel [rotated]) (use assms in \<open>simp add: compare_set_of_element_eq\<close>)
  moreover have "mset (map cbs_view (qsort compare_set_of_element cs)) = mset (map cbs_view cs)"
    unfolding mset_map mset_qsort ..
  ultimately show ?thesis unfolding set_of_order_def sorted_wrt_map by blast
qed

lemma cbb_app_children:
  assumes "heap_ok e" "cbs_wf c" "\<forall>x\<in>set cs. cbs_wf x" "\<forall>x\<in>set (c # cs). c_len x < 2 ^ 62"
  shows "cbb_app e d (add_children e d (c # cs)) (concat (map cbs_view (c # cs)))"
  using assms(2-)
proof (induction cs arbitrary: c)
  have one: "cbb_app e d (\<lambda>s. CBB_add_bytes e d s (CBS_data c) (CBS_len c)) (cbs_view c)"
    if "cbs_wf c" "c_len c < 2 ^ 62" for c
    using cbb_app_bytes [OF assms(1), of "c_len c" "c_data c" d] that
    by (simp add: CBS_data_def CBS_len_def cbs_view_def cbs_wf_def)
  {
    case Nil
    then have "cbb_app e d (\<lambda>s. CBB_add_bytes e d s (CBS_data c) (CBS_len c)) (cbs_view c)"
      by (intro one) simp_all
    then show ?case
      by (rule cbb_app_eqI) (simp_all add: and_then_def split: prod.split bool.split)
  next
    case (Cons c' cs)
    have "add_children e d (c # c' # cs) =
      (\<lambda>s. and_then (CBB_add_bytes e d s (CBS_data c) (CBS_len c)) (add_children e d (c' # cs)))"
      by (rule ext) simp
    with cbb_app_seq [OF one [OF Cons.prems(1)] Cons.IH [of c']] Cons.prems show ?case
      by (simp del: add_children.simps)
  }
qed

lemma rewind_at:
  assumes "cbb_at d s xs" "length (cbb_chain s) = d" "cbb_start d s \<le> length xs"
  shows "cbb_at d (rewind_to_start d s) (take (cbb_start d s) xs)" "cbb_chain (rewind_to_start d s) = cbb_chain s"
proof -
  obtain b where b: "cbb_base s = Some b" "buffer_wf b" "\<not> b_error b" "frames_wf 0 (cbb_chain s) (b_len b)"
    "b_bytes b = xs"
    using assms(1,2) by (auto simp: cbb_at_def)
  have len: "b_len b = length xs" using b(2,5) by auto
  have "frames_wf 0 (cbb_chain s) (cbb_start d s)"
  proof (cases d)
    case (Suc i)
    then obtain fs f where c: "cbb_chain s = fs @ [f]" "length fs = i"
      using assms(2) by (cases "cbb_chain s" rule: rev_cases) auto
    then show ?thesis using b(4) Suc by (auto simp: frames_wf_append cbb_start_def nth_append)
  qed (use assms(2) in \<open>simp add: cbb_start_def\<close>)
  moreover have "b_bytes (b\<lparr>b_len := cbb_start d s\<rparr>) = take (cbb_start d s) xs"
    unfolding b(5) [symmetric] using assms(3) len by (simp add: b_bytes_def min_absorb1)
  moreover have "buffer_wf (b\<lparr>b_len := cbb_start d s\<rparr>)" using b(2) assms(3) len by (simp add: buffer_wf_def)
  ultimately show "cbb_at d (rewind_to_start d s) (take (cbb_start d s) xs)"
    using b assms(2) by (simp add: cbb_at_def rewind_to_start_def)
qed (simp add: rewind_to_start_def)

lemma memdup_view:
  assumes "BUF_memdup e data n = Some buf" "n \<le> length data" "n < 2 ^ 62"
  shows "cbs_wf (CBS_init buf n)" "cbs_view (CBS_init buf n) = take n data"
proof -
  obtain r where r: "OPENSSL_malloc e n = Some r" "buf = blit r 0 (take n data)"
    using assms(1) by (auto simp: BUF_memdup_def split: if_splits option.splits)
  have "length r = n" using OPENSSL_malloc_length [OF r(1)] assms(3) by simp
  then have "buf = take n data" using r(2) assms(2) by (simp add: blit_def)
  then show "cbs_wf (CBS_init buf n)" "cbs_view (CBS_init buf n) = take n data"
    using assms(2,3) by (simp_all add: CBS_init_wf)
qed

text \<open>
  The state after the first flush, as the assertions of the two queries see it.
\<close>

lemma CBB_queries_at:
  assumes "cbb_at d s xs" "length (cbb_chain s) = d" "cbb_start d s \<le> length xs"
  shows "\<exists>data. CBB_data d s = Some data \<and> CBB_len d s = Some (length xs - cbb_start d s)
    \<and> length xs - cbb_start d s \<le> length data \<and> length xs - cbb_start d s < 2 ^ 62
    \<and> take (length xs - cbb_start d s) data = drop (cbb_start d s) xs"
proof -
  obtain b where b: "cbb_base s = Some b" "buffer_wf b" "b_bytes b = xs"
    using assms(1,2) by (auto simp: cbb_at_def)
  then have len: "b_len b = length xs" "length xs \<le> length (b_buf b)" "length xs < 2 ^ 62"
    using length_b_bytes [OF b(2)] by (auto simp: buffer_wf_def)
  have "take (length xs) (b_buf b) = xs" using b(3) len(1) by (simp add: b_bytes_def)
  then have "take (length xs - cbb_start d s) (drop (cbb_start d s) (b_buf b)) = drop (cbb_start d s) xs"
    by (metis drop_take)
  with b(1) len assms(2,3) show ?thesis
    by (auto simp: CBB_data_def CBB_len_def)
qed

lemma cbb_start_at:
  assumes "cbb_at d s xs" "length (cbb_chain s) = d"
  shows "cbb_start d s \<le> length xs"
proof (cases d)
  case (Suc i)
  then obtain fs f where c: "cbb_chain s = fs @ [f]" "length fs = i"
    using assms(2) by (cases "cbb_chain s" rule: rev_cases) auto
  have "frames_wf 0 (take d (cbb_chain s)) (length xs)" using assms(1) by (rule cbb_at_frames)
  then have "f_offset f + f_pending_len_len f \<le> length xs"
    using c Suc assms(2) by (simp add: frames_wf_append)
  with c Suc show ?thesis by (simp add: cbb_start_def nth_append)
qed (simp add: cbb_start_def)

definition set_of_result :: "nat \<Rightarrow> bytes \<Rightarrow> bytes \<Rightarrow> bool" where
  "set_of_result m xs xs' \<longleftrightarrow>
     (\<exists>els es'. drop m xs = der_elems els \<and> set_of_order (map (\<lambda>(t, b). der_elem t b) els) es'
        \<and> xs' = take m xs @ concat es')"

lemma add_children_sorted:
  assumes hp: "heap_ok e" and at: "cbb_at d s xs" "length (cbb_chain s) = d" and m: "cbb_start d s = m"
    and els: "drop m xs = der_elems els" "2 \<le> length els" "length (drop m xs) < 2 ^ 62"
    and cs: "map cbs_view cs = map (\<lambda>(t, b). der_elem t b) els" "\<forall>x\<in>set cs. cbs_wf x"
  obtains ys where "cbb_app e d (add_children e d (qsort compare_set_of_element cs)) ys"
    "cbb_at d (rewind_to_start d s) (take m xs)" "set_of_result m xs (take m xs @ ys)"
    "length ys = length (drop m xs)"
proof -
  define cs' where "cs' = qsort compare_set_of_element cs"
  have len: "length cs' = length els" using cs(1) by (metis cs'_def length_map length_qsort)
  then obtain c r where c: "cs' = c # r" using els(2) by (cases cs') auto
  define ys where "ys = concat (map cbs_view cs')"
  have ord: "set_of_order (map (\<lambda>(t, b). der_elem t b) els) (map cbs_view cs')"
    using qsort_children [OF cs(2)] cs(1) by (simp add: cs'_def)
  have wf: "\<forall>x\<in>set cs'. cbs_wf x" using cs(2) by (simp add: cs'_def)
  have lsum: "length ys = sum_list (map length (map cbs_view cs'))" by (simp add: ys_def length_concat)
  also have "\<dots> = sum_list (map length (map (\<lambda>(t, b). der_elem t b) els))"
  proof -
    have "mset (map cbs_view cs') = mset (map (\<lambda>(t, b). der_elem t b) els)"
      using ord by (simp add: set_of_order_def)
    then have "mset (map length (map cbs_view cs')) = mset (map length (map (\<lambda>(t, b). der_elem t b) els))"
      unfolding mset_map [of length] by simp
    then show ?thesis by (metis sum_mset_sum_list)
  qed
  also have "\<dots> = length (drop m xs)" by (simp add: els(1) der_elems_def length_concat)
  finally have ly: "length ys = length (drop m xs)" .
  have "\<forall>x\<in>set cs'. c_len x \<le> length ys"
    using wf member_le_sum_list [of _ "map length (map cbs_view cs')"] lsum by fastforce
  then have small: "\<forall>x\<in>set (c # r). c_len x < 2 ^ 62" using ly els(3) c by (auto intro: le_less_trans)
  have "cbb_app e d (add_children e d cs') ys"
    using cbb_app_children [OF hp, of c r d] wf small by (simp add: c ys_def)
  moreover have "cbb_at d (rewind_to_start d s) (take m xs)"
    using rewind_at(1) [OF at cbb_start_at [OF at]] by (simp add: m)
  moreover have "set_of_result m xs (take m xs @ ys)"
    using ord els(1) by (auto simp: set_of_result_def ys_def)
  ultimately show thesis using that ly by (simp add: cs'_def)
qed

text \<open>
  A call that returns one leaves the elements of the set, sorted; and so does a call on a
  valid set with a heap that serves requests.
\<close>

lemma set_of_result_small:
  assumes "drop m xs = der_elems els" "length els < 2"
  shows "set_of_result m xs xs"
proof -
  have "sorted_wrt (\<lambda>x y. lex_cmp x y \<le> 0) (map (\<lambda>(t, b). der_elem t b) els)"
    using assms(2) by (cases els) auto
  then have "set_of_order (map (\<lambda>(t, b). der_elem t b) els) (map (\<lambda>(t, b). der_elem t b) els)"
    by (simp add: set_of_order_def)
  moreover have "xs = take m xs @ concat (map (\<lambda>(t, b). der_elem t b) els)"
    using assms(1) by (simp add: der_elems_def) (metis append_take_drop_id)
  ultimately show ?thesis using assms(1) unfolding set_of_result_def by blast
qed

lemma CBB_flush_asn1_set_of_sound:
  assumes hp: "heap_ok e" and at: "cbb_at d s xs" and r: "CBB_flush_asn1_set_of e d s = (True, s')"
  shows "\<exists>xs'. cbb_at d s' xs' \<and> cbb_chain s' = take d (cbb_chain s) \<and> set_of_result (cbb_start d s) xs xs'"
proof -
  obtain s1 where fl: "CBB_flush e d s = (True, s1)"
    using r by (cases "CBB_flush e d s") (auto simp: CBB_flush_asn1_set_of_def and_then_def split: bool.splits)
  have a1: "cbb_at d s1 xs" "cbb_chain s1 = take d (cbb_chain s)" using CBB_flush_at [OF hp at fl] by simp_all
  then have l1: "length (cbb_chain s1) = d" using cbb_at_depth [OF at] by simp
  define m where "m = cbb_start d s1"
  have ms: "cbb_start d s = m"
    using a1(2) cbb_at_depth [OF at] by (simp add: m_def cbb_start_def split: nat.split)
  have "m \<le> length xs" unfolding m_def by (rule cbb_start_at [OF a1(1) l1])
  obtain data where q: "CBB_data d s1 = Some data" "CBB_len d s1 = Some (length xs - m)"
    "length xs - m \<le> length data" "length xs - m < 2 ^ 62" "take (length xs - m) data = drop m xs"
    using CBB_queries_at [OF a1(1) l1] \<open>m \<le> length xs\<close> unfolding m_def by blast
  define n where "n = length xs - m"
  note q = q [folded n_def]
  have c0: "cbs_wf (CBS_init data n)" "cbs_view (CBS_init data n) = drop m xs"
    using q by (simp_all add: CBS_init_wf)
  obtain k where k: "count_children n (CBS_init data n) = Some k"
    using r fl q(1,2) by (auto simp: CBB_flush_asn1_set_of_def and_then_def split: option.splits)
  obtain els where els: "drop m xs = der_elems els" "length els = k" "\<forall>(t, b)\<in>set els. length b < 2 ^ 32"
    using count_children_sound [OF c0(1) k] c0(2) by auto
  show ?thesis
  proof (cases "k < 2")
    case True
    then have "s' = s1" using r fl q(1,2) k by (simp add: CBB_flush_asn1_set_of_def and_then_def)
    then show ?thesis using a1 set_of_result_small [OF els(1)] els(2) True ms by auto
  next
    case False
    then obtain buf cs where buf: "BUF_memdup e data n = Some buf" "parse_children k (CBS_init buf n) = Some cs"
      and add: "add_children e d (qsort compare_set_of_element cs) (rewind_to_start d s1) = (True, s')"
      using r fl q(1,2) k
      by (auto simp: CBB_flush_asn1_set_of_def and_then_def split: option.splits if_splits)
    note mv = memdup_view [OF buf(1) q(3,4)]
    obtain cs2 where "parse_children (length els) (CBS_init buf n) = Some cs2"
      "map cbs_view cs2 = map (\<lambda>(t, b). der_elem t b) els" "\<forall>x\<in>set cs2. cbs_wf x"
      using parse_children_complete [OF mv(1) _ els(3)] mv(2) q(5) els(1) by auto
    then have cs: "map cbs_view cs = map (\<lambda>(t, b). der_elem t b) els" "\<forall>x\<in>set cs. cbs_wf x"
      using buf(2) els(2) by auto
    have k2: "2 \<le> length els" "length (drop m xs) < 2 ^ 62" using False els(2) q(4) by (simp_all add: n_def)
    obtain ys where ys: "cbb_app e d (add_children e d (qsort compare_set_of_element cs)) ys"
      "cbb_at d (rewind_to_start d s1) (take m xs)" "set_of_result m xs (take m xs @ ys)"
      using add_children_sorted [OF hp a1(1) l1 m_def [symmetric] els(1) k2 cs] by blast
    from cbb_app_at [OF ys(1,2) add] ys(3) a1(2) ms l1 show ?thesis
      by (auto simp: rewind_to_start_def)
  qed
qed

lemma length_der_elems: "length els \<le> length (der_elems els)"
proof (induction els)
  case (Cons x els)
  obtain t b where x: "x = (t, b)" by (cases x)
  have "1 \<le> length (der_elem t b)" using length_der_len(1) [of "length b"] by (simp add: der_elem_def der_header_def)
  with Cons x show ?case by simp
qed simp

lemma CBB_flush_asn1_set_of_total:
  assumes hp: "heap_ok e" "heap_generous e" and rd: "cbb_ready n d s xs" and n: "16 * n \<le> 2 ^ 60"
    and els: "drop (cbb_start d s) xs = der_elems els" "\<forall>(t, b)\<in>set els. length b < 2 ^ 32"
  shows "\<exists>s'. CBB_flush_asn1_set_of e d s = (True, s')"
proof -
  have n60: "n \<le> 2 ^ 60" using n by simp
  obtain s1 where s1: "CBB_flush e d s = (True, s1)" "cbb_ready n d s1 xs" "cbb_chain s1 = take d (cbb_chain s)"
    using CBB_flush_ready [OF hp rd n60] by blast
  note a1 = cbb_ready_at [OF s1(2)]
  have l1: "length (cbb_chain s1) = d" using s1(3) cbb_at_depth [OF cbb_ready_at [OF rd]] by simp
  define m where "m = cbb_start d s1"
  have ms: "cbb_start d s = m"
    using s1(3) cbb_at_depth [OF cbb_ready_at [OF rd]] by (simp add: m_def cbb_start_def split: nat.split)
  note els = els(1) [unfolded ms] els(2)
  have mx: "m \<le> length xs" unfolding m_def by (rule cbb_start_at [OF a1 l1])
  obtain data where q: "CBB_data d s1 = Some data" "CBB_len d s1 = Some (length xs - m)"
    "length xs - m \<le> length data" "length xs - m < 2 ^ 62" "take (length xs - m) data = drop m xs"
    using CBB_queries_at [OF a1 l1] mx unfolding m_def by blast
  define k where "k = length xs - m"
  note q = q [folded k_def]
  have lk: "length els \<le> k" using length_der_elems [of els] els(1) by (metis k_def length_drop)
  have kn: "k \<le> n" using cbb_ready_len [OF s1(2)] by (simp add: k_def)
  have c0: "cbs_wf (CBS_init data k)" "cbs_view (CBS_init data k) = der_elems els"
    using q els(1) by (simp_all add: CBS_init_wf)
  have cnt: "count_children k (CBS_init data k) = Some (length els)"
    by (rule count_children_complete [OF c0 els(2) lk])
  show ?thesis
  proof (cases "length els < 2")
    case True
    then show ?thesis using s1(1) q(1,2) cnt by (simp add: CBB_flush_asn1_set_of_def and_then_def)
  next
    case False
    have sz: "k + 8 < 2 ^ 62" "length els * 16 + 8 < 2 ^ 62" "length els \<le> size_max div 16"
      using kn lk n by simp_all
    obtain r arr where al: "OPENSSL_malloc e k = Some r" "OPENSSL_malloc e (length els * 16) = Some arr"
      using generous_malloc [OF hp(2)] sz by metis
    define buf where "buf = blit r 0 (take k data)"
    have md: "BUF_memdup e data k = Some buf" using al(1) False lk by (simp add: BUF_memdup_def buf_def)
    note mv = memdup_view [OF md q(3,4)]
    obtain cs where cs: "parse_children (length els) (CBS_init buf k) = Some cs"
      "map cbs_view cs = map (\<lambda>(t, b). der_elem t b) els" "\<forall>x\<in>set cs. cbs_wf x"
      using parse_children_complete [OF mv(1) _ els(2)] mv(2) q(5) els(1) by auto
    have k2: "2 \<le> length els" "length (drop m xs) < 2 ^ 62" using False q(4) by (simp_all add: k_def)
    obtain ys where ys: "cbb_app e d (add_children e d (qsort compare_set_of_element cs)) ys"
      "cbb_at d (rewind_to_start d s1) (take m xs)" "length ys = length (drop m xs)"
      using add_children_sorted [OF hp(1) a1 l1 m_def [symmetric] els(1) k2 cs(2,3)] by blast
    obtain b where b: "cbb_base s1 = Some b" "b_can_resize b" "b_len b + 4 * d \<le> n" "b_bytes b = xs" "buffer_wf b"
      using s1(2) l1 by (auto simp: cbb_ready_def cbb_at_def)
    have "m \<le> b_len b" using mx b(4,5) by auto
    then have "cbb_ready n d (rewind_to_start d s1) (take m xs)"
      using ys(2) b l1 by (auto simp: cbb_ready_def rewind_to_start_def m_def [symmetric])
    moreover have "n + 8 * length ys \<le> 2 ^ 60" using ys(3) n kn by (simp add: k_def)
    ultimately obtain s2 where "add_children e d (qsort compare_set_of_element cs) (rewind_to_start d s1) = (True, s2)"
      using cbb_app_ready [OF ys(1) hp(2)] by blast
    then show ?thesis
      using s1(1) q(1,2) cnt False sz(3) md al(2) cs(1) by (simp add: CBB_flush_asn1_set_of_def and_then_def)
  qed
qed

end
