(* ===== verification/BER.thy ===== *)
theory BER
  imports CBB_SetOf
begin

text \<open>
  The conversion from BER to DER of \<open>crypto/bytestring/ber.c\<close>: the scan for indefinite
  lengths and constructed strings, the recursive conversion into a builder, and the parser
  for implicitly-tagged strings.

  The recursive functions take a bound \<open>fuel\<close> on the number of elements they read.  Every
  element shortens the input, so the length of the input is enough, and more of it changes
  nothing (\<open>find_ber_fuel\<close>, \<open>convert_ber_fuel\<close>,
  \<open>implicit_chunks_fuel\<close>).
\<close>

section \<open>Operations\<close>

definition kMaxDepth :: nat where "kMaxDepth = 2048"

definition is_string_type :: "u32 \<Rightarrow> bool" where
  "is_string_type tag \<longleftrightarrow>
     tag AND NOT CBS_ASN1_CONSTRUCTED
       \<in> {0x3, 0x4, 0xc, 0x12, 0x13, 0x14, 0x15, 0x16, 0x19, 0x1a, 0x1b, 0x1c, 0x1e}"

text \<open>
  An element without contents whose last header byte is 0x80 has an indefinite length.
\<close>

definition is_indefinite :: "cbs \<Rightarrow> nat \<Rightarrow> bool" where
  "is_indefinite contents header_len \<longleftrightarrow>
     CBS_len contents = header_len \<and> header_len > 0 \<and> CBS_data contents ! (header_len - 1) = 0x80"

text \<open>
  The loop of \<open>cbs_find_ber\<close>.  The result is the return value and \<open>*ber_found\<close>, which
  every recursive call sets to zero when it starts.
\<close>

fun find_ber_loop :: "nat \<Rightarrow> cbs \<Rightarrow> bool \<Rightarrow> nat \<Rightarrow> bool \<times> bool" where
  "find_ber_loop fuel inp ber_found depth =
     (if CBS_len inp = 0 then (True, ber_found)
      else case fuel of 0 \<Rightarrow> (False, ber_found)
      | Suc fuel \<Rightarrow>
        (case CBS_get_any_ber_asn1_element inp of
           (None, _) \<Rightarrow> (False, ber_found)
         | (Some (contents, tag, header_len), inp) \<Rightarrow>
             if is_indefinite contents header_len then (True, True)
             else if tag AND CBS_ASN1_CONSTRUCTED \<noteq> 0 then
               if is_string_type tag then (True, True)
               else (case CBS_skip contents header_len of
                       (None, _) \<Rightarrow> (False, ber_found)
                     | (Some _, contents) \<Rightarrow>
                         (case (if depth + 1 > kMaxDepth then (False, ber_found)
                                else find_ber_loop fuel contents False (depth + 1)) of
                            (False, ber_found) \<Rightarrow> (False, ber_found)
                          | (True, ber_found) \<Rightarrow> find_ber_loop fuel inp ber_found depth))
             else find_ber_loop fuel inp ber_found depth))"

declare find_ber_loop.simps [simp del]

definition cbs_find_ber :: "cbs \<Rightarrow> bool \<Rightarrow> nat \<Rightarrow> bool \<times> bool" where
  "cbs_find_ber orig_in ber_found depth =
     (if depth > kMaxDepth then (False, ber_found)
      else find_ber_loop (CBS_len orig_in) (CBS_init (CBS_data orig_in) (CBS_len orig_in)) False depth)"

definition is_eoc :: "nat \<Rightarrow> cbs \<Rightarrow> bool" where
  "is_eoc header_len contents \<longleftrightarrow>
     header_len = 2 \<and> CBS_len contents = 2 \<and> memcmp (CBS_data contents) [0, 0] 2 = 0"

text \<open>
  The handle of the builder that the contents of an element go to, with the string tag for
  its children; \<open>None\<close> is a failure.
\<close>

definition convert_target :: "heap_env \<Rightarrow> nat \<Rightarrow> cbb \<Rightarrow> u32 \<Rightarrow> u32 \<Rightarrow> (nat \<times> u32) option \<times> cbb" where
  "convert_target e d s string_tag tag =
     (if string_tag \<noteq> 0 then
        if tag AND NOT CBS_ASN1_CONSTRUCTED \<noteq> string_tag then (None, s) else (Some (d, string_tag), s)
      else
        let constructed_string = tag AND CBS_ASN1_CONSTRUCTED \<noteq> 0 \<and> is_string_type tag;
            out_tag = (if constructed_string then tag AND NOT CBS_ASN1_CONSTRUCTED else tag);
            child_string_tag = (if constructed_string then out_tag else string_tag) in
        (case CBB_add_asn1 e d s out_tag of
           (False, s) \<Rightarrow> (None, s)
         | (True, s) \<Rightarrow> (Some (Suc d, child_string_tag), s)))"

text \<open>
  The result is the return value, the reader \<open>in\<close> afterwards and the builder.  The test of
  the depth, which does not change in the loop, is repeated in each iteration.
\<close>

fun cbs_convert_ber :: "nat \<Rightarrow> heap_env \<Rightarrow> cbs \<Rightarrow> nat \<Rightarrow> cbb \<Rightarrow> u32 \<Rightarrow> bool \<Rightarrow> nat \<Rightarrow> bool \<times> cbs \<times> cbb" where
  "cbs_convert_ber fuel e inp d s string_tag looking_for_eoc depth =
     (if depth > kMaxDepth then (False, inp, s)
      else if CBS_len inp = 0 then (\<not> looking_for_eoc, inp, s)
      else case fuel of 0 \<Rightarrow> (False, inp, s)
      | Suc fuel \<Rightarrow>
        (case CBS_get_any_ber_asn1_element inp of
           (None, inp) \<Rightarrow> (False, inp, s)
         | (Some (contents, tag, header_len), inp) \<Rightarrow>
             if is_eoc header_len contents then (looking_for_eoc, inp, s)
             else (case convert_target e d s string_tag tag of
               (None, s) \<Rightarrow> (False, inp, s)
             | (Some (out_contents, child_string_tag), s) \<Rightarrow>
                 if is_indefinite contents header_len then
                   (case cbs_convert_ber fuel e inp out_contents s child_string_tag True (depth + 1) of
                      (False, inp, s) \<Rightarrow> (False, inp, s)
                    | (True, inp, s) \<Rightarrow>
                        (case CBB_flush e d s of
                           (False, s) \<Rightarrow> (False, inp, s)
                         | (True, s) \<Rightarrow> cbs_convert_ber fuel e inp d s string_tag looking_for_eoc depth))
                 else (case CBS_skip contents header_len of
                   (None, _) \<Rightarrow> (False, inp, s)
                 | (Some _, contents) \<Rightarrow>
                     (case (if tag AND CBS_ASN1_CONSTRUCTED \<noteq> 0
                            then (case cbs_convert_ber fuel e contents out_contents s child_string_tag False (depth + 1) of
                                    (ok, _, s) \<Rightarrow> (ok, s))
                            else CBB_add_bytes e out_contents s (CBS_data contents) (CBS_len contents)) of
                        (False, s) \<Rightarrow> (False, inp, s)
                      | (True, s) \<Rightarrow>
                          (case CBB_flush e d s of
                             (False, s) \<Rightarrow> (False, inp, s)
                           | (True, s) \<Rightarrow> cbs_convert_ber fuel e inp d s string_tag looking_for_eoc depth))))))"

declare cbs_convert_ber.simps [simp del]

text \<open>\<open>Some (None, 0)\<close> is success with a null \<open>*out\<close>: no conversion was needed.\<close>

definition CBS_asn1_ber_to_der :: "heap_env \<Rightarrow> cbs \<Rightarrow> (bytes option \<times> nat) option \<times> cbs" where
  "CBS_asn1_ber_to_der e inp =
     (case cbs_find_ber inp False 0 of
        (False, _) \<Rightarrow> (None, inp)
      | (True, False) \<Rightarrow> (Some (None, 0), inp)
      | (True, True) \<Rightarrow>
          (case CBB_init e (CBS_len inp) of
             (False, _) \<Rightarrow> (None, inp)
           | (True, s) \<Rightarrow>
               (case cbs_convert_ber (CBS_len inp) e inp 0 s 0 False 0 of
                  (False, inp, _) \<Rightarrow> (None, inp)
                | (True, inp, s) \<Rightarrow>
                    (case CBB_finish e 0 s True True of
                       (None, _) \<Rightarrow> (None, inp)
                     | (Some (out, out_len), _) \<Rightarrow> (Some (Some out, out_len), inp)))))"

fun implicit_chunks :: "nat \<Rightarrow> heap_env \<Rightarrow> cbs \<Rightarrow> u32 \<Rightarrow> cbb \<Rightarrow> bool \<times> cbb" where
  "implicit_chunks fuel e child inner_tag s =
     (if CBS_len child = 0 then (True, s)
      else case fuel of 0 \<Rightarrow> (False, s)
      | Suc fuel \<Rightarrow>
        (case CBS_get_asn1 child inner_tag of
           (None, _) \<Rightarrow> (False, s)
         | (Some chunk, child) \<Rightarrow>
             and_then (CBB_add_bytes e 0 s (CBS_data chunk) (CBS_len chunk)) (implicit_chunks fuel e child inner_tag)))"

declare implicit_chunks.simps [simp del]

text \<open>The result is \<open>*out\<close> and \<open>*out_storage\<close>.\<close>

definition CBS_get_asn1_implicit_string ::
  "heap_env \<Rightarrow> cbs \<Rightarrow> u32 \<Rightarrow> u32 \<Rightarrow> (cbs \<times> bytes option) option \<times> cbs" where
  "CBS_get_asn1_implicit_string e inp outer_tag inner_tag =
     (if CBS_peek_asn1_tag inp outer_tag then
        (case CBS_get_asn1 inp outer_tag of
           (None, inp) \<Rightarrow> (None, inp)
         | (Some out, inp) \<Rightarrow> (Some (out, None), inp))
      else
        (case CBB_init e (CBS_len inp) of
           (False, _) \<Rightarrow> (None, inp)
         | (True, result) \<Rightarrow>
        (case CBS_get_asn1 inp (outer_tag OR CBS_ASN1_CONSTRUCTED) of
           (None, inp) \<Rightarrow> (None, inp)
         | (Some child, inp) \<Rightarrow>
        (case implicit_chunks (CBS_len child) e child inner_tag result of
           (False, _) \<Rightarrow> (None, inp)
         | (True, result) \<Rightarrow>
        (case CBB_finish e 0 result True True of
           (None, _) \<Rightarrow> (None, inp)
         | (Some (data, n), _) \<Rightarrow> (Some (CBS_init data n, Some data), inp))))))"

section \<open>Input and output without BER\<close>

text \<open>
  \<open>der_within k bs\<close>: \<open>bs\<close> is a sequence of definite-length elements, nested at most \<open>k\<close>
  deep, in which no string is constructed and no element is the end-of-contents mark.
\<close>

inductive der_within :: "nat \<Rightarrow> bytes \<Rightarrow> bool" where
  der_Nil: "der_within k []"
| der_prim: "length body \<le> 0xfffffffe \<Longrightarrow> tag AND CBS_ASN1_CONSTRUCTED = 0 \<Longrightarrow> tag \<noteq> 0 \<or> body \<noteq> [] \<Longrightarrow>
    der_within k rest \<Longrightarrow> der_within k (der_elem tag body @ rest)"
| der_cons: "length body \<le> 0xfffffffe \<Longrightarrow> tag AND CBS_ASN1_CONSTRUCTED \<noteq> 0 \<Longrightarrow> \<not> is_string_type tag \<Longrightarrow>
    der_within k body \<Longrightarrow> der_within (Suc k) rest \<Longrightarrow> der_within (Suc k) (der_elem tag body @ rest)"

lemma der_within_append: "der_within k xs \<Longrightarrow> der_within k ys \<Longrightarrow> der_within k (xs @ ys)"
proof (induction rule: der_within.induct)
  case (der_prim body tag k rest)
  then show ?case using der_within.der_prim [of body tag k "rest @ ys"] by simp
next
  case (der_cons body tag k rest)
  then show ?case using der_within.der_cons [of body tag k "rest @ ys"] by simp
qed simp

section \<open>Reading BER elements\<close>

lemma definite_not_indefinite:
  assumes "cbs_wf c" "definite_elem c out t hl c' body"
  shows "\<not> is_indefinite out hl"
proof
  assume i: "is_indefinite out hl"
  note b = definite_elem_body [OF assms]
  have hl: "hl = length (der_header t (length body))" using assms(2) by (simp add: definite_elem_def)
  have "c_len out = length (der_elem t body)" using length_cbs_view [OF b(5)] b(6) by simp
  then have nil: "body = []" using i hl by (simp add: is_indefinite_def CBS_len_def length_der_elem)
  then have v: "cbs_view out = der_tag t @ [0]" using b(6) by (simp add: der_elem_def der_header_def der_len_def)
  have "c_data out ! (hl - 1) = cbs_view out ! (hl - 1)"
    using i by (simp add: cbs_view_def is_indefinite_def CBS_len_def)
  also have "\<dots> = 0" using v hl nil by (simp add: der_header_def der_len_def nth_append)
  finally show False using i by (simp add: is_indefinite_def CBS_data_def)
qed

lemma indefinite_is:
  assumes "cbs_wf c" "indefinite_header c out t hl c'"
  shows "is_indefinite out hl" "cbs_wf c'" "c_len c' < c_len c"
proof -
  have v: "cbs_view c = (der_tag t @ [0x80]) @ cbs_view c'" and r: "hl = length (der_tag t @ [0x80])"
    "out = CBS_init (c_data c) hl" "c' = cbs_advance c hl"
    using assms(2) by (simp_all add: indefinite_header_def)
  note adv = cbs_advance_append [OF assms(1) v]
  show "cbs_wf c'" "c_len c' < c_len c" using adv r by simp_all
  have "c_data c ! (hl - 1) = cbs_view c ! (hl - 1)" using adv(3) r by (simp add: cbs_view_def)
  then show "is_indefinite out hl"
    using v r by (simp add: is_indefinite_def CBS_len_def CBS_data_def CBS_init_def nth_append)
qed

lemma ber_element_cases:
  assumes "cbs_wf c" "CBS_get_any_ber_asn1_element c = (Some (out, t, hl), c')"
  obtains (definite) body where "definite_elem c out t hl c' body" "\<not> is_indefinite out hl"
      "cbs_wf c'" "c_len c' < c_len c" "CBS_skip out hl = (Some (), cbs_advance out hl)"
      "cbs_view (cbs_advance out hl) = body" "cbs_wf (cbs_advance out hl)" "c_len (cbs_advance out hl) < c_len c"
  | (indefinite) "indefinite_header c out t hl c'" "is_indefinite out hl" "cbs_wf c'" "c_len c' < c_len c"
proof -
  have "(\<exists>body. definite_elem c out t hl c' body) \<or> indefinite_header c out t hl c'"
    using cbs_get_any_sound [OF assms(1), of True] assms(2) by (auto simp: CBS_get_any_ber_asn1_element_def)
  then consider body where "definite_elem c out t hl c' body" | "indefinite_header c out t hl c'" by blast
  then show thesis
  proof cases
    case 1
    note b = definite_elem_body [OF assms(1) 1]
    have "c_len c' < c_len c" using b(4,7) by simp
    moreover have "length body < length (cbs_view c)"
      using 1 length_der_len(1) [of "length body"] by (simp add: definite_elem_def der_elem_def der_header_def)
    then have "c_len (cbs_advance out hl) < c_len c"
      using length_cbs_view [OF b(3)] b(2) length_cbs_view [OF assms(1)] by simp
    ultimately show thesis using definite 1 b definite_not_indefinite [OF assms(1) 1] by blast
  next
    case 2
    with indefinite indefinite_is [OF assms(1) 2] show thesis by blast
  qed
qed

lemma der_elem_length_ge: "length body + 2 \<le> length (der_elem t body)"
proof -
  have "1 \<le> length (der_tag t)" using der_tag_nonempty [of t] by (cases "der_tag t") simp_all
  then show ?thesis using length_der_len(1) [of "length body"] by (simp add: der_elem_def der_header_def)
qed

lemma ber_element_complete:
  assumes "cbs_wf c" "cbs_view c = der_elem t body @ rest" "length body \<le> 0xfffffffe"
  obtains out hl c' where "CBS_get_any_ber_asn1_element c = (Some (out, t, hl), c')"
    "definite_elem c out t hl c' body" "cbs_view c' = rest"
proof -
  have "length body < 2 ^ 32" using assms(3) by simp
  from definite_elem_complete [OF assms(1,2) this, of True] that show thesis
    by (auto simp: CBS_get_any_ber_asn1_element_def)
qed

section \<open>The scan\<close>

lemma find_ber_fuel:
  "cbs_wf c \<Longrightarrow> c_len c \<le> fuel \<Longrightarrow> c_len c \<le> fuel' \<Longrightarrow>
    find_ber_loop fuel c found depth = find_ber_loop fuel' c found depth"
proof (induction fuel arbitrary: fuel' c found depth)
  case 0
  then show ?case
    by (simp add: find_ber_loop.simps [of 0] find_ber_loop.simps [of fuel'] CBS_len_def)
next
  case (Suc f)
  show ?case
  proof (cases "c_len c = 0")
    case True
    then show ?thesis
      by (simp add: find_ber_loop.simps [of "Suc f"] find_ber_loop.simps [of fuel'] CBS_len_def)
  next
    case False
    then obtain f' where f': "fuel' = Suc f'" using Suc.prems(3) by (cases fuel') auto
    obtain r c' where g: "CBS_get_any_ber_asn1_element c = (r, c')" by (cases "CBS_get_any_ber_asn1_element c")
    show ?thesis
    proof (cases r)
      case None
      then show ?thesis
        by (simp add: find_ber_loop.simps [of "Suc f"] find_ber_loop.simps [of "Suc f'"] f' g)
    next
      case (Some x)
      obtain out t hl where x: "x = (out, t, hl)" by (cases x)
      have g: "CBS_get_any_ber_asn1_element c = (Some (out, t, hl), c')" using g Some x by simp
      from Suc.prems(1) g show ?thesis
      proof (cases rule: ber_element_cases)
        case (definite body)
        have le: "c_len c' \<le> f" "c_len c' \<le> f'" "c_len (cbs_advance out hl) \<le> f" "c_len (cbs_advance out hl) \<le> f'"
          using definite(4,8) Suc.prems(2,3) f' by auto
        note ih1 = Suc.IH [OF definite(3) le(1,2)] and ih2 = Suc.IH [OF definite(7) le(3,4)]
        show ?thesis
          unfolding f' find_ber_loop.simps [of "Suc f" c] find_ber_loop.simps [of "Suc f'" c]
          by (simp only: g nat.case option.case prod.case definite(5) ih1 ih2)
      next
        case indefinite
        then show ?thesis
          by (simp add: find_ber_loop.simps [of "Suc f"] find_ber_loop.simps [of "Suc f'"] f' g)
      qed
    qed
  qed
qed

text \<open>A successful conversion leaves a well-formed reader that is not longer than before.\<close>

lemma convert_ber_rest:
  "cbs_wf inp \<Longrightarrow> cbs_convert_ber fuel e inp d s st eoc depth = (True, inp', s') \<Longrightarrow> cbs_wf inp' \<and> c_len inp' \<le> c_len inp"
proof (induction fuel arbitrary: inp d s st eoc depth inp' s')
  case 0
  then show ?case by (auto simp: cbs_convert_ber.simps [of 0] split: if_splits)
next
  case (Suc f)
  note run = Suc.prems(2) [unfolded cbs_convert_ber.simps [of "Suc f"]]
  show ?case
  proof (cases "depth > kMaxDepth \<or> CBS_len inp = 0")
    case True
    then show ?thesis using run Suc.prems(1) by (auto split: if_splits)
  next
    case False
    then obtain out t hl c' where g: "CBS_get_any_ber_asn1_element inp = (Some (out, t, hl), c')"
      using run by (auto split: option.splits prod.splits)
    have c': "cbs_wf c'" "c_len c' < c_len inp" using Suc.prems(1) g by (cases rule: ber_element_cases; simp)+
    show ?thesis
    proof (cases "is_eoc hl out")
      case True
      then show ?thesis using run False g c' by auto
    next
      case neoc: False
      obtain in2 s3 where "cbs_wf in2" "c_len in2 \<le> c_len c'" "cbs_convert_ber f e in2 d s3 st eoc depth = (True, inp', s')"
      proof (cases "is_indefinite out hl")
        case True
        then obtain oc cst s1 in2 s2 s3 where r: "cbs_convert_ber f e c' oc s1 cst True (depth + 1) = (True, in2, s2)"
          "cbs_convert_ber f e in2 d s3 st eoc depth = (True, inp', s')"
          using run False g neoc by (auto split: option.splits prod.splits bool.splits)
        show thesis using that [OF _ _ r(2)] Suc.IH [OF c'(1) r(1)] by blast
      next
        case False
        then obtain s3 where "cbs_convert_ber f e c' d s3 st eoc depth = (True, inp', s')"
          using run \<open>\<not> (depth > kMaxDepth \<or> CBS_len inp = 0)\<close> g neoc by (auto split: option.splits prod.splits bool.splits)
        then show thesis using that c'(1) by blast
      qed
      from Suc.IH [OF this(1,3)] this(2) c'(2) show ?thesis by simp
    qed
  qed
qed

lemma convert_ber_fuel:
  "cbs_wf inp \<Longrightarrow> c_len inp \<le> fuel \<Longrightarrow> c_len inp \<le> fuel' \<Longrightarrow>
    cbs_convert_ber fuel e inp d s st eoc depth = cbs_convert_ber fuel' e inp d s st eoc depth"
proof (induction fuel arbitrary: fuel' inp d s st eoc depth)
  case 0
  then show ?case by (simp add: cbs_convert_ber.simps [of 0] cbs_convert_ber.simps [of fuel'] CBS_len_def)
next
  case (Suc f)
  show ?case
  proof (cases "c_len inp = 0")
    case True
    then show ?thesis by (simp add: cbs_convert_ber.simps [of "Suc f"] cbs_convert_ber.simps [of fuel'] CBS_len_def)
  next
    case False
    then obtain f' where f': "fuel' = Suc f'" using Suc.prems(3) by (cases fuel') auto
    obtain r c' where g: "CBS_get_any_ber_asn1_element inp = (r, c')" by (cases "CBS_get_any_ber_asn1_element inp")
    show ?thesis
    proof (cases r)
      case None
      then show ?thesis by (simp add: cbs_convert_ber.simps [of "Suc f"] cbs_convert_ber.simps [of "Suc f'"] f' g)
    next
      case (Some x)
      obtain out t hl where x: "x = (out, t, hl)" by (cases x)
      have g: "CBS_get_any_ber_asn1_element inp = (Some (out, t, hl), c')" using g Some x by simp
      have c': "cbs_wf c'" "c_len c' \<le> f" "c_len c' \<le> f'"
        using Suc.prems(1) g Suc.prems(2,3) f' by (cases rule: ber_element_cases; simp)+
      have same: "cbs_convert_ber f e i d s st eoc depth = cbs_convert_ber f' e i d s st eoc depth"
        if "cbs_wf i" "c_len i \<le> c_len c'" for i d s st eoc depth
        using Suc.IH [OF that(1), of f'] that(2) c'(2,3) by simp
      have follow: "(case cbs_convert_ber f' e c' d s st eoc depth of (False, inp, s) \<Rightarrow> (False, inp, s)
            | (True, inp, s) \<Rightarrow> (case CBB_flush e d2 s of (False, s) \<Rightarrow> (False, inp, s) | (True, s) \<Rightarrow> cbs_convert_ber f e inp d2 s st2 eoc2 depth2)) =
          (case cbs_convert_ber f' e c' d s st eoc depth of (False, inp, s) \<Rightarrow> (False, inp, s)
            | (True, inp, s) \<Rightarrow> (case CBB_flush e d2 s of (False, s) \<Rightarrow> (False, inp, s) | (True, s) \<Rightarrow> cbs_convert_ber f' e inp d2 s st2 eoc2 depth2))"
        for d s st eoc depth d2 st2 eoc2 depth2
        using convert_ber_rest [OF c'(1), of f'] same by (auto split: prod.splits bool.splits)
      from Suc.prems(1) g show ?thesis
      proof (cases rule: ber_element_cases)
        case (definite body)
        have cc: "cbs_convert_ber f e (cbs_advance out hl) d s st eoc depth = cbs_convert_ber f' e (cbs_advance out hl) d s st eoc depth" for d s st eoc depth
          by (rule Suc.IH [OF definite(7)]) (use definite(8) Suc.prems(2,3) f' in simp_all)
        show ?thesis
          unfolding f' cbs_convert_ber.simps [of "Suc f" e inp] cbs_convert_ber.simps [of "Suc f'" e inp]
          by (simp only: g nat.case option.case prod.case definite(2,5) if_False cc same [OF c'(1) order_refl])
      next
        case indefinite
        show ?thesis
          unfolding f' cbs_convert_ber.simps [of "Suc f" e inp] cbs_convert_ber.simps [of "Suc f'" e inp]
          by (simp only: g nat.case option.case prod.case indefinite(2) if_True same [OF c'(1) order_refl] follow)
      qed
    qed
  qed
qed

text \<open>Input without BER is never reported as BER.\<close>

lemma find_ber_loop_der:
  "der_within k bs \<Longrightarrow> cbs_wf c \<Longrightarrow> cbs_view c = bs \<Longrightarrow> c_len c \<le> fuel \<Longrightarrow> depth + k \<le> kMaxDepth \<Longrightarrow>
    find_ber_loop fuel c False depth = (True, False)"
proof (induction arbitrary: c fuel depth rule: der_within.induct)
  case (der_Nil k)
  then show ?case using cbs_empty_len [of c] by (simp add: find_ber_loop.simps [of fuel] CBS_len_def)
next
  case (der_prim body tag k rest)
  have "0 < c_len c" using length_cbs_view [OF der_prim.prems(1)] der_prim.prems(2) der_elem_length_ge [of body tag] by simp
  then obtain f where f: "fuel = Suc f" using der_prim.prems(3) by (cases fuel) auto
  obtain out hl c' where g: "CBS_get_any_ber_asn1_element c = (Some (out, tag, hl), c')"
    "definite_elem c out tag hl c' body" "cbs_view c' = rest"
    using ber_element_complete [OF der_prim.prems(1,2) der_prim.hyps(1)] by blast
  note b = definite_elem_body [OF der_prim.prems(1) g(2)]
  have "c_len c' \<le> f" using b(4,7) f der_prim.prems(3) by simp
  with der_prim.IH [OF b(4) g(3) this der_prim.prems(4)] show ?case
    using f \<open>0 < c_len c\<close> g(1) definite_not_indefinite [OF der_prim.prems(1) g(2)] der_prim.hyps(2)
    by (simp add: find_ber_loop.simps [of "Suc f" c] CBS_len_def)
next
  case (der_cons body tag k rest)
  have "0 < c_len c" using length_cbs_view [OF der_cons.prems(1)] der_cons.prems(2) der_elem_length_ge [of body tag] by simp
  then obtain f where f: "fuel = Suc f" using der_cons.prems(3) by (cases fuel) auto
  obtain out hl c' where g: "CBS_get_any_ber_asn1_element c = (Some (out, tag, hl), c')"
    "definite_elem c out tag hl c' body" "cbs_view c' = rest"
    using ber_element_complete [OF der_cons.prems(1,2) der_cons.hyps(1)] by blast
  note b = definite_elem_body [OF der_cons.prems(1) g(2)]
  have le: "c_len c' \<le> f" using b(4,7) f der_cons.prems(3) by simp
  have "length body < c_len c"
    using length_cbs_view [OF der_cons.prems(1)] der_cons.prems(2) der_elem_length_ge [of body tag] by simp
  then have le2: "c_len (cbs_advance out hl) \<le> f"
    using length_cbs_view [OF b(3)] b(2) f der_cons.prems(3) by simp
  have dp: "depth + 1 + k \<le> kMaxDepth" using der_cons.prems(4) by simp
  from der_cons.IH(1) [OF b(3,2) le2 dp] der_cons.IH(2) [OF b(4) g(3) le der_cons.prems(4)] show ?case
    using f \<open>0 < c_len c\<close> g(1) b(1) dp definite_not_indefinite [OF der_cons.prems(1) g(2)] der_cons.hyps(2,3)
    by (simp add: find_ber_loop.simps [of "Suc f" c] CBS_len_def)
qed

lemma cbs_find_ber_der:
  assumes "der_within kMaxDepth bs" "cbs_wf c" "cbs_view c = bs"
  shows "cbs_find_ber c found 0 = (True, False)"
proof -
  have "CBS_init (CBS_data c) (CBS_len c) = c" by (simp add: CBS_init_def CBS_data_def CBS_len_def)
  then show ?thesis
    using find_ber_loop_der [OF assms order_refl, of 0] by (simp add: cbs_find_ber_def CBS_len_def)
qed

section \<open>The conversion\<close>

lemma CBB_flush_close:
  assumes hp: "heap_ok e" and at: "cbb_at (Suc d) s zs" and fl: "CBB_flush e d s = (True, s')"
    and c: "cbb_chain s ! d = c" and m: "f_offset c + f_pending_len_len c = m"
  shows "\<exists>h. len_prefix c (length (drop m zs)) = Some h \<and> cbb_at d s' (take (f_offset c) zs @ h @ drop m zs)
    \<and> cbb_chain s' = take d (cbb_chain s)"
proof (cases "len_prefix c (length (drop m zs))")
  case (Some h)
  from CBB_flush_at [OF hp cbb_at_close [OF at c m Some] fl] Some show ?thesis by simp
next
  case None
  obtain b where b: "cbb_base s = Some b" "buffer_wf b" "\<not> b_error b" "Suc d \<le> length (cbb_chain s)"
    "frames_wf 0 (cbb_chain s) (b_len b)" "flushed (b_bytes b) (drop (Suc d) (cbb_chain s)) = Some zs"
    using at by (auto simp: cbb_at_def)
  have dr: "drop d (cbb_chain s) = c # drop (Suc d) (cbb_chain s)" using b(4) c by (auto simp: Cons_nth_drop_Suc)
  obtain j where wf: "frames_wf j (drop d (cbb_chain s)) (b_len b)" using frames_wf_drop [OF b(5)] by blast
  obtain b' fs where "flush_frames e b (drop d (cbb_chain s)) = (True, b', fs)"
    using fl b(1,4) by (auto simp: CBB_flush_def split: prod.splits)
  from flush_frames_correct [OF hp b(2,3) wf this] have "flushed (b_bytes b) (drop d (cbb_chain s)) \<noteq> None" by simp
  then show ?thesis using None b(6) m by (simp add: dr Let_def)
qed

text \<open>\<open>built d s xs s' ys\<close>: from \<open>s\<close>, with the contents \<open>xs\<close>, \<open>ys\<close> was appended at \<open>d\<close>.\<close>

definition built :: "nat \<Rightarrow> cbb \<Rightarrow> bytes \<Rightarrow> cbb \<Rightarrow> bytes \<Rightarrow> bool" where
  "built d s xs s' ys \<longleftrightarrow> cbb_at d s' (xs @ ys) \<and> take d (cbb_chain s') = take d (cbb_chain s)"

lemma built_refl: "cbb_at d s xs \<Longrightarrow> built d s xs s []"
  by (simp add: built_def)

lemma built_nothing: "cbb_at d s xs \<Longrightarrow> \<exists>ys. built d s xs s ys \<and> (st = 0 \<longrightarrow> der_within k ys)"
  using built_refl der_Nil by blast

lemma built_trans: "built d s xs s1 ys \<Longrightarrow> built d s1 (xs @ ys) s2 zs \<Longrightarrow> built d s xs s2 (ys @ zs)"
  by (simp add: built_def)

lemma built_app: "cbb_app e d op ys \<Longrightarrow> cbb_at d s xs \<Longrightarrow> op s = (True, s') \<Longrightarrow> built d s xs s' ys"
  using cbb_app_at [of e d op ys s xs True s'] by (simp add: built_def)

definition out_tag_of :: "u32 \<Rightarrow> u32" where
  "out_tag_of tag =
     (if tag AND CBS_ASN1_CONSTRUCTED \<noteq> 0 \<and> is_string_type tag then tag AND NOT CBS_ASN1_CONSTRUCTED else tag)"

lemma string_tag_nonzero: "is_string_type tag \<Longrightarrow> tag AND NOT CBS_ASN1_CONSTRUCTED \<noteq> 0"
  by (auto simp: is_string_type_def)

lemma cleared_tag: "(tag AND NOT CBS_ASN1_CONSTRUCTED) AND CBS_ASN1_CONSTRUCTED = 0"
  by (rule bit_word_eqI) (simp add: bit_simps)

lemma out_tag_primitive:
  assumes "out_tag_of tag AND CBS_ASN1_CONSTRUCTED \<noteq> 0"
  shows "out_tag_of tag = tag" "\<not> is_string_type tag"
proof -
  have "\<not> (tag AND CBS_ASN1_CONSTRUCTED \<noteq> 0 \<and> is_string_type tag)"
    using assms cleared_tag [of tag] by (auto simp: out_tag_of_def)
  then show "out_tag_of tag = tag" "\<not> is_string_type tag" using assms by (auto simp: out_tag_of_def)
qed

lemma convert_target_string:
  assumes "convert_target e d s st tag = (Some (oc, cst), s1)" "st \<noteq> 0"
  shows "oc = d" "cst = st" "s1 = s"
  using assms by (auto simp: convert_target_def split: if_splits)

lemma convert_target_elem:
  assumes "heap_ok e" "cbb_at d s xs" "convert_target e d s 0 tag = (Some (oc, cst), s1)"
  shows "oc = Suc d" "cst = 0 \<longleftrightarrow> \<not> (tag AND CBS_ASN1_CONSTRUCTED \<noteq> 0 \<and> is_string_type tag)"
    "cbb_at (Suc d) s1 (xs @ der_tag (out_tag_of tag) @ [0])"
    "cbb_chain s1 = take d (cbb_chain s) @ [\<lparr>f_offset = length xs + length (der_tag (out_tag_of tag)),
       f_pending_len_len = 1, f_pending_is_asn1 = True\<rparr>]"
proof -
  have add: "CBB_add_asn1 e d s (out_tag_of tag) = (True, s1)" and oc: "oc = Suc d"
    and cst: "cst = (if tag AND CBS_ASN1_CONSTRUCTED \<noteq> 0 \<and> is_string_type tag then out_tag_of tag else 0)"
    using assms(3) by (auto simp: convert_target_def out_tag_of_def Let_def split: prod.splits bool.splits)
  show "oc = Suc d" by fact
  show "cst = 0 \<longleftrightarrow> \<not> (tag AND CBS_ASN1_CONSTRUCTED \<noteq> 0 \<and> is_string_type tag)"
    using cst string_tag_nonzero by (auto simp: out_tag_of_def)
  from cbb_open_at [OF cbb_open_asn1 [OF assms(1)] assms(2) add]
  show "cbb_at (Suc d) s1 (xs @ der_tag (out_tag_of tag) @ [0])"
    "cbb_chain s1 = take d (cbb_chain s) @ [\<lparr>f_offset = length xs + length (der_tag (out_tag_of tag)),
       f_pending_len_len = 1, f_pending_is_asn1 = True\<rparr>]" by simp_all
qed

lemma elem_close:
  assumes hp: "heap_ok e" and at: "cbb_at d s xs"
    and chain: "cbb_chain s1 = take d (cbb_chain s) @ [\<lparr>f_offset = length xs + length (der_tag t),
       f_pending_len_len = 1, f_pending_is_asn1 = True\<rparr>]"
    and bt: "built (Suc d) s1 (xs @ der_tag t @ [0]) s2 ys" and fl: "CBB_flush e d s2 = (True, s3)"
  shows "length ys \<le> 0xfffffffe \<and> built d s xs s3 (der_elem t ys)"
proof -
  define c where "c = \<lparr>f_offset = length xs + length (der_tag t), f_pending_len_len = 1, f_pending_is_asn1 = True\<rparr>"
  have at2: "cbb_at (Suc d) s2 ((xs @ der_tag t @ [0]) @ ys)" and ch: "take (Suc d) (cbb_chain s2) = take (Suc d) (cbb_chain s1)"
    using bt by (simp_all add: built_def)
  have d1: "d \<le> length (cbb_chain s)" "Suc d \<le> length (cbb_chain s2)" using cbb_at_depth at at2 by auto
  have ts: "take (Suc d) (cbb_chain s2) = take d (cbb_chain s) @ [c]" using ch chain d1(1) by (simp add: c_def)
  then have nth: "cbb_chain s2 ! d = c"
    using d1 by (metis length_take lessI min.absorb2 nth_append_length nth_take)
  have tk: "take d (cbb_chain s2) = take d (cbb_chain s)"
    using arg_cong [OF ts, of "take d"] d1 by simp
  have m: "f_offset c + f_pending_len_len c = length xs + length (der_tag t) + 1" by (simp add: c_def)
  obtain h where h: "len_prefix c (length ys) = Some h"
    "cbb_at d s3 (take (f_offset c) ((xs @ der_tag t @ [0]) @ ys) @ h @ ys)"
    "cbb_chain s3 = take d (cbb_chain s2)"
    using CBB_flush_close [OF hp at2 fl nth m] by auto
  have "length ys \<le> 0xfffffffe" "h = der_len (length ys)"
    using h(1) by (auto simp: len_prefix_def c_def split: if_splits)
  then show ?thesis using h(2,3) tk by (simp add: built_def der_elem_def der_header_def c_def)
qed

text \<open>What writing the contents of an element and flushing its parent appends to the parent.\<close>

lemma convert_elem_close:
  assumes hp: "heap_ok e" and at: "cbb_at d s xs"
    and tg: "convert_target e d s st tag = (Some (oc, cst), s1)"
    and zs: "zs = (if st \<noteq> 0 then xs else xs @ der_tag (out_tag_of tag) @ [0])"
    and bt: "built oc s1 zs s2 ys" and fl: "CBB_flush e d s2 = (True, s3)"
    and eoc: "tag = 0 \<Longrightarrow> ys \<noteq> []"
    and inner: "st = 0 \<Longrightarrow> cst = 0 \<Longrightarrow> tag AND CBS_ASN1_CONSTRUCTED \<noteq> 0 \<Longrightarrow> \<exists>k'. k = Suc k' \<and> der_within k' ys"
  shows "\<exists>ws. built d s xs s3 ws \<and> (st = 0 \<longrightarrow> der_within k ws)"
proof (cases "st = 0")
  case False
  note T = convert_target_string [OF tg False]
  have b: "built d s xs s2 ys" using bt T zs False by simp
  have "built d s2 (xs @ ys) s3 []"
    using built_app [OF cbb_app_flush [OF hp] _ fl, of "xs @ ys"] b by (simp add: built_def)
  from built_trans [OF b this] show ?thesis using False by auto
next
  case True
  note T = convert_target_elem [OF hp at tg [unfolded True]]
  have "length ys \<le> 0xfffffffe" and b: "built d s xs s3 (der_elem (out_tag_of tag) ys)"
    using elem_close [OF hp at T(4) _ fl, of ys] bt zs T(1) True by simp_all
  have "der_within k (der_elem (out_tag_of tag) ys @ [])"
  proof (cases "out_tag_of tag AND CBS_ASN1_CONSTRUCTED = 0")
    case True
    have "out_tag_of tag \<noteq> 0 \<or> ys \<noteq> []" using eoc string_tag_nonzero by (auto simp: out_tag_of_def)
    with True show ?thesis by (rule der_prim [OF \<open>length ys \<le> 0xfffffffe\<close> _ _ der_Nil])
  next
    case False
    note o = out_tag_primitive [OF False]
    obtain k' where "k = Suc k'" "der_within k' ys" using inner True T(2) o False by auto
    with der_cons [OF \<open>length ys \<le> 0xfffffffe\<close> False _ _ der_Nil] o show ?thesis by simp
  qed
  with b show ?thesis by auto
qed

lemma convert_depth: "cbs_convert_ber fuel e inp d s st eoc depth = (True, inp', s') \<Longrightarrow> depth \<le> kMaxDepth"
  by (simp add: cbs_convert_ber.simps [of fuel] split: if_splits)

lemma eoc_iff:
  assumes "cbs_wf c" "definite_elem c out t hl c' body"
  shows "is_eoc hl out \<longleftrightarrow> t = 0 \<and> body = []"
proof -
  note b = definite_elem_body [OF assms]
  have len: "c_len out = length (der_elem t body)" using length_cbs_view [OF b(5)] b(6) by simp
  have eq: "is_eoc hl out \<longleftrightarrow> hl = 2 \<and> cbs_view out = [0, 0]"
  proof (cases "c_len out = 2")
    case True
    then show ?thesis
      using b(5) memcmp_zero_iff [of 2 "c_data out" "[0, 0]"]
      by (simp add: is_eoc_def CBS_len_def CBS_data_def cbs_view_def cbs_wf_def)
  next
    case False
    then have "cbs_view out \<noteq> [0, 0]" using length_cbs_view [OF b(5)] by auto
    with False show ?thesis by (simp add: is_eoc_def CBS_len_def)
  qed
  have z: "der_tag 0 = [0]" by (simp add: der_tag_def Let_def)
  show ?thesis
  proof
    assume "is_eoc hl out"
    then have v: "der_elem t body = [0, 0]" using eq b(6) by simp
    have e: "der_elem 0 [] = [0, 0]" by (simp add: der_elem_def der_header_def der_len_def z)
    have "length body + 2 \<le> 2" using der_elem_length_ge [of body t] unfolding v by simp
    then have "length body < 2 ^ 32" by simp
    then show "t = 0 \<and> body = []" using der_elem_inject [of t body "[]" 0 "[]" "[]"] v e by simp
  next
    assume "t = 0 \<and> body = []"
    then show "is_eoc hl out"
      using eq b(6) assms(2) by (simp add: definite_elem_def der_elem_def der_header_def der_len_def z)
  qed
qed

lemma convert_ber_sound:
  assumes hp: "heap_ok e"
  shows "cbs_wf inp \<Longrightarrow> c_len inp < 2 ^ 62 \<Longrightarrow> cbb_at d s xs \<Longrightarrow>
    cbs_convert_ber fuel e inp d s st eoc depth = (True, inp', s') \<Longrightarrow>
    cbs_wf inp' \<and> c_len inp' \<le> c_len inp
    \<and> (\<exists>ys. built d s xs s' ys \<and> (st = 0 \<longrightarrow> der_within (kMaxDepth - depth) ys))"
proof (induction fuel arbitrary: inp d s xs st eoc depth inp' s')
  case 0
  then show ?case
    using built_nothing [OF "0.prems"(3)] by (auto simp: cbs_convert_ber.simps [of 0] split: if_splits)
next
  case (Suc f)
  note run = Suc.prems(4) [unfolded cbs_convert_ber.simps [of "Suc f"]]
  show ?case
  proof (cases "depth > kMaxDepth \<or> CBS_len inp = 0")
    case True
    then show ?thesis using run Suc.prems(1) built_nothing [OF Suc.prems(3)] by (auto split: if_splits)
  next
    case False
    then obtain out t hl c' where g: "CBS_get_any_ber_asn1_element inp = (Some (out, t, hl), c')"
      using run by (auto split: option.splits prod.splits)
    have c': "cbs_wf c'" "c_len c' < c_len inp" using Suc.prems(1) g by (cases rule: ber_element_cases; simp)+
    show ?thesis
    proof (cases "is_eoc hl out")
      case True
      then have "inp' = c'" "s' = s" using run False g by simp_all
      then show ?thesis using c' built_nothing [OF Suc.prems(3)] by auto
    next
      case neoc: False
      obtain oc cst s1 where tg: "convert_target e d s st t = (Some (oc, cst), s1)"
        using run False g neoc by (auto split: option.splits prod.splits)
      define zs where "zs = (if st \<noteq> 0 then xs else xs @ der_tag (out_tag_of t) @ [0])"
      define k where "k = kMaxDepth - depth"
      have at1: "cbb_at oc s1 zs"
        using convert_target_string [OF tg] convert_target_elem [OF hp Suc.prems(3), of t oc cst s1] tg Suc.prems(3)
        by (cases "st = 0") (simp_all add: zs_def)
      have inner: "\<exists>k'. k = Suc k' \<and> der_within k' ys"
        if "depth + 1 \<le> kMaxDepth" "der_within (kMaxDepth - (depth + 1)) ys" for ys
        using that by (intro exI [of _ "kMaxDepth - (depth + 1)"]) (simp add: k_def)
      from Suc.prems(1) g
      obtain s2 ys in2 s3 where mid: "built oc s1 zs s2 ys" "CBB_flush e d s2 = (True, s3)"
        "cbs_wf in2" "c_len in2 \<le> c_len c'" "cbs_convert_ber f e in2 d s3 st eoc depth = (True, inp', s')"
        "st = 0 \<Longrightarrow> cst = 0 \<Longrightarrow> t AND CBS_ASN1_CONSTRUCTED \<noteq> 0 \<Longrightarrow> \<exists>k'. k = Suc k' \<and> der_within k' ys"
        "t = 0 \<Longrightarrow> ys \<noteq> []"
      proof (cases rule: ber_element_cases)
        case indefinite
        then obtain in2 s2 s3 where r: "cbs_convert_ber f e c' oc s1 cst True (depth + 1) = (True, in2, s2)"
          "CBB_flush e d s2 = (True, s3)" "cbs_convert_ber f e in2 d s3 st eoc depth = (True, inp', s')"
          using run False g neoc tg by (auto split: prod.splits bool.splits)
        have "c_len c' < 2 ^ 62" using c'(2) Suc.prems(2) by simp
        moreover have "t \<noteq> 0" using indefinite(1) by (auto simp: indefinite_header_def)
        ultimately obtain ys where ys: "built oc s1 zs s2 ys" "cst = 0 \<longrightarrow> der_within (kMaxDepth - (depth + 1)) ys"
          "cbs_wf in2" "c_len in2 \<le> c_len c'" and "t \<noteq> 0"
          using Suc.IH [OF c'(1) _ at1 r(1)] by blast
        show thesis
        proof (rule that [OF ys(1) r(2) ys(3,4) r(3)])
          show "\<exists>k'. k = Suc k' \<and> der_within k' ys" if "cst = 0"
            using inner [OF convert_depth [OF r(1)]] ys(2) that by blast
        qed (use \<open>t \<noteq> 0\<close> in simp)
      next
        case (definite body)
        define cc where "cc = cbs_advance out hl"
        have lt: "c_len cc < 2 ^ 62" using definite(8) Suc.prems(2) by (simp add: cc_def)
        show thesis
        proof (cases "t AND CBS_ASN1_CONSTRUCTED = 0")
          case True
          then obtain s2 s3 where r: "CBB_add_bytes e oc s1 (CBS_data cc) (CBS_len cc) = (True, s2)"
            "CBB_flush e d s2 = (True, s3)" "cbs_convert_ber f e c' d s3 st eoc depth = (True, inp', s')"
            using run False g neoc tg definite(2,5) by (auto simp: cc_def split: prod.splits bool.splits)
          have app: "cbb_app e oc (\<lambda>s. CBB_add_bytes e oc s (CBS_data cc) (CBS_len cc)) (take (CBS_len cc) (CBS_data cc))"
            using definite(7) lt by (intro cbb_app_bytes [OF hp]) (simp_all add: cc_def cbs_wf_def CBS_len_def CBS_data_def)
          have "take (CBS_len cc) (CBS_data cc) \<noteq> []" if "t = 0"
            using eoc_iff [OF Suc.prems(1) definite(1)] neoc that definite(6)
            by (simp add: cc_def cbs_view_def CBS_len_def CBS_data_def)
          then show thesis
            using True by (intro that [OF built_app [OF app at1 r(1)] r(2) c'(1) order_refl r(3)]) blast+
        next
          case tc: False
          then obtain in1 s2 s3 where r: "cbs_convert_ber f e cc oc s1 cst False (depth + 1) = (True, in1, s2)"
            "CBB_flush e d s2 = (True, s3)" "cbs_convert_ber f e c' d s3 st eoc depth = (True, inp', s')"
            using run False g neoc tg definite(2,5) by (auto simp: cc_def split: prod.splits bool.splits)
          have "t \<noteq> 0" using tc by auto
          obtain ys where ys: "built oc s1 zs s2 ys" "cst = 0 \<longrightarrow> der_within (kMaxDepth - (depth + 1)) ys"
            using Suc.IH [OF definite(7) [folded cc_def] lt at1 r(1)] by blast
          show thesis
          proof (rule that [OF ys(1) r(2) c'(1) order_refl r(3)])
            show "\<exists>k'. k = Suc k' \<and> der_within k' ys" if "cst = 0"
              using inner [OF convert_depth [OF r(1)]] ys(2) that by blast
          qed (use \<open>t \<noteq> 0\<close> in simp)
        qed
      qed
      obtain ws where ws: "built d s xs s3 ws" "st = 0 \<longrightarrow> der_within k ws"
        using convert_elem_close [OF hp Suc.prems(3) tg zs_def mid(1,2,7,6)] by blast
      have "c_len in2 < 2 ^ 62" using mid(4) c'(2) Suc.prems(2) by simp
      from Suc.IH [OF mid(3) this _ mid(5), of "xs @ ws"] ws
      obtain vs where vs: "cbs_wf inp'" "c_len inp' \<le> c_len in2" "built d s3 (xs @ ws) s' vs"
        "st = 0 \<longrightarrow> der_within k vs"
        by (auto simp: built_def k_def)
      have "der_within k (ws @ vs)" if "st = 0" using that ws(2) vs(4) der_within_append by blast
      with built_trans [OF ws(1) vs(3)] vs(1,2) mid(4) c'(2) show ?thesis by (auto simp: k_def)
    qed
  qed
qed

section \<open>DER input is copied\<close>

lemma cbb_app_weak_cong:
  "cbb_app_weak e d f xs \<Longrightarrow> (\<And>s. f s = g s) \<Longrightarrow> xs = ys \<Longrightarrow> cbb_app_weak e d g ys"
proof -
  assume a: "cbb_app_weak e d f xs" "\<And>s. f s = g s" "xs = ys"
  have "f = g" using a(2) by (rule ext)
  with a(1,3) show ?thesis by simp
qed

definition conv_result :: "bool \<times> cbs \<times> cbb \<Rightarrow> bool \<times> cbb" where
  "conv_result r = (case r of (ok, _, s) \<Rightarrow> (ok, s))"

text \<open>
  One iteration on a definite element that is not the end-of-contents mark, outside a
  constructed string: an element of the output with the converted contents.
\<close>

lemma convert_step:
  assumes wf: "cbs_wf c" and g: "CBS_get_any_ber_asn1_element c = (Some (out, tag, hl), c')"
    and d: "definite_elem c out tag hl c' body" and ne: "tag \<noteq> 0 \<or> body \<noteq> []"
    and ns: "tag AND CBS_ASN1_CONSTRUCTED \<noteq> 0 \<Longrightarrow> \<not> is_string_type tag" and dp: "depth \<le> kMaxDepth"
  shows "conv_result (cbs_convert_ber (Suc fuel) e c d' s 0 False depth) =
    and_then
      (and_then (and_then (CBB_add_asn1 e d' s tag)
        (\<lambda>s. if tag AND CBS_ASN1_CONSTRUCTED \<noteq> 0
             then conv_result (cbs_convert_ber fuel e (cbs_advance out hl) (Suc d') s 0 False (depth + 1))
             else CBB_add_bytes e (Suc d') s (CBS_data (cbs_advance out hl)) (CBS_len (cbs_advance out hl))))
        (CBB_flush e d'))
      (\<lambda>s. conv_result (cbs_convert_ber fuel e c' d' s 0 False depth))"
proof -
  have pos: "CBS_len c \<noteq> 0" using definite_elem_body(7) [OF wf d] by (simp add: CBS_len_def)
  have neoc: "\<not> is_eoc hl out" using eoc_iff [OF wf d] ne by auto
  have tgt: "convert_target e d' s 0 tag = (case CBB_add_asn1 e d' s tag of
      (False, s) \<Rightarrow> (None, s) | (True, s) \<Rightarrow> (Some (Suc d', 0), s))"
    using ns by (auto simp: convert_target_def Let_def split: prod.split bool.split)
  show ?thesis
    unfolding cbs_convert_ber.simps [of "Suc fuel"]
    using pos dp g neoc definite_not_indefinite [OF wf d] definite_elem_body(1) [OF wf d]
    by (simp add: tgt and_then_def conv_result_def split: prod.split bool.split)
qed

lemma convert_ber_der:
  assumes hp: "heap_ok e"
  shows "der_within k bs \<Longrightarrow> cbs_wf c \<Longrightarrow> cbs_view c = bs \<Longrightarrow> c_len c \<le> fuel \<Longrightarrow> c_len c < 2 ^ 62 \<Longrightarrow>
    depth + k \<le> kMaxDepth \<Longrightarrow>
    cbb_app_weak e d (\<lambda>s. conv_result (cbs_convert_ber fuel e c d s 0 False depth)) bs"
proof (induction arbitrary: c fuel d depth rule: der_within.induct)
  case (der_Nil k)
  then have "CBS_len c = 0" using cbs_empty_len [of c] by (simp add: CBS_len_def)
  with der_Nil.prems show ?case
    by (intro cbb_app_weak_cong [OF cbb_app_weak_nothing])
      (simp_all add: cbs_convert_ber.simps [of fuel] conv_result_def)
next
  case (der_prim body tag k rest)
  have "0 < c_len c" using length_cbs_view [OF der_prim.prems(1)] der_prim.prems(2) der_elem_length_ge [of body tag] by simp
  then obtain f where f: "fuel = Suc f" using der_prim.prems(3) by (cases fuel) auto
  obtain out hl c' where g: "CBS_get_any_ber_asn1_element c = (Some (out, tag, hl), c')"
    "definite_elem c out tag hl c' body" "cbs_view c' = rest"
    using ber_element_complete [OF der_prim.prems(1,2) der_prim.hyps(1)] by blast
  note b = definite_elem_body [OF der_prim.prems(1) g(2)]
  have le: "c_len c' \<le> f" "c_len c' < 2 ^ 62" using b(4,7) f der_prim.prems(3,4) by simp_all
  note tail = der_prim.IH [OF b(4) g(3) le der_prim.prems(5)]
  define cc where "cc = cbs_advance out hl"
  have "length body < 2 ^ 62" using der_prim.hyps(1) by simp
  then have "cbb_app e (Suc d) (\<lambda>s. CBB_add_bytes e (Suc d) s (CBS_data cc) (CBS_len cc)) (take (CBS_len cc) (CBS_data cc))"
    using b(3) length_cbs_view [OF b(3)] b(2)
    by (intro cbb_app_bytes [OF hp]) (simp_all add: cc_def cbs_wf_def CBS_len_def CBS_data_def)
  moreover have "take (CBS_len cc) (CBS_data cc) = body"
    using b(2) by (simp add: cc_def cbs_view_def CBS_len_def CBS_data_def)
  ultimately have bytes: "cbb_app_weak e (Suc d) (\<lambda>s. CBB_add_bytes e (Suc d) s (CBS_data cc) (CBS_len cc)) body"
    using cbb_app_imp_weak by fastforce
  have "depth \<le> kMaxDepth" using der_prim.prems(5) by simp
  note step = convert_step [OF der_prim.prems(1) g(1,2) der_prim.hyps(3) _ this, of f e d]
  from cbb_app_weak_seq [OF cbb_app_elem [OF hp bytes der_prim.hyps(1)] tail] show ?case
    by (rule cbb_app_weak_cong) (use der_prim.hyps(2) in \<open>simp_all add: f step cc_def\<close>)
next
  case (der_cons body tag k rest)
  have "0 < c_len c" using length_cbs_view [OF der_cons.prems(1)] der_cons.prems(2) der_elem_length_ge [of body tag] by simp
  then obtain f where f: "fuel = Suc f" using der_cons.prems(3) by (cases fuel) auto
  obtain out hl c' where g: "CBS_get_any_ber_asn1_element c = (Some (out, tag, hl), c')"
    "definite_elem c out tag hl c' body" "cbs_view c' = rest"
    using ber_element_complete [OF der_cons.prems(1,2) der_cons.hyps(1)] by blast
  note b = definite_elem_body [OF der_cons.prems(1) g(2)]
  have le: "c_len c' \<le> f" "c_len c' < 2 ^ 62" using b(4,7) f der_cons.prems(3,4) by simp_all
  have "length body < c_len c"
    using length_cbs_view [OF der_cons.prems(1)] der_cons.prems(2) der_elem_length_ge [of body tag] by simp
  then have le2: "c_len (cbs_advance out hl) \<le> f" "c_len (cbs_advance out hl) < 2 ^ 62"
    using length_cbs_view [OF b(3)] b(2) f der_cons.prems(3,4) by simp_all
  have dp: "depth + 1 + k \<le> kMaxDepth" "depth \<le> kMaxDepth" using der_cons.prems(5) by simp_all
  note inner = der_cons.IH(1) [OF b(3,2) le2 dp(1), of "Suc d"]
  note tail = der_cons.IH(2) [OF b(4) g(3) le der_cons.prems(5)]
  have "tag \<noteq> 0 \<or> body \<noteq> []" using der_cons.hyps(2) by auto
  note step = convert_step [OF der_cons.prems(1) g(1,2) this der_cons.hyps(3) dp(2), of f e d]
  from cbb_app_weak_seq [OF cbb_app_elem [OF hp inner der_cons.hyps(1)] tail] show ?case
    by (rule cbb_app_weak_cong) (use der_cons.hyps(2) in \<open>simp_all add: f step\<close>)
qed

section \<open>The whole conversion\<close>

lemma CBS_asn1_ber_to_der_sound:
  assumes "heap_ok e" "cbs_wf c" "c_len c < 2 ^ 62"
    and r: "CBS_asn1_ber_to_der e c = (Some (Some out, n), c')"
  shows "n \<le> length out \<and> der_within kMaxDepth (take n out)"
proof -
  obtain s0 c1 s1 s2 where i: "CBB_init e (CBS_len c) = (True, s0)"
    and cv: "cbs_convert_ber (CBS_len c) e c 0 s0 0 False 0 = (True, c1, s1)"
    and f: "CBB_finish e 0 s1 True True = (Some (out, n), s2)"
    using r by (auto simp: CBS_asn1_ber_to_der_def split: prod.splits bool.splits option.splits)
  have "cbb_at 0 s0 []" using CBB_init_at [OF i assms(1)] assms(3) by (simp add: CBS_len_def)
  from convert_ber_sound [OF assms(1-3) this cv] obtain ys where
    ys: "built 0 s0 [] s1 ys" "der_within kMaxDepth ys" by auto
  have at: "cbb_at 0 s1 ys" using ys(1) by (simp add: built_def)
  have "n = length ys" "take n out = ys" using CBB_finish_at [OF assms(1) at f] by blast+
  then have "n \<le> length out" by (metis length_take min.cobounded1)
  with \<open>take n out = ys\<close> ys(2) show ?thesis by simp
qed

text \<open>
  The scan forgets what it found in an earlier sibling: the recursive call on a later one
  starts by setting the flag to zero.  A constructed string inside the first element is
  not reported when a second constructed element without BER follows.
\<close>

lemma find_ber_step:
  assumes wf: "cbs_wf c" and v: "cbs_view c = der_elem t body @ rest" "length body \<le> 0xfffffffe"
    and t: "t AND CBS_ASN1_CONSTRUCTED \<noteq> 0" "\<not> is_string_type t" and dp: "depth < kMaxDepth"
  obtains b c' where "cbs_wf b" "cbs_view b = body" "cbs_wf c'" "cbs_view c' = rest" "c_len b < c_len c" "c_len c' < c_len c"
    "\<And>fuel found. find_ber_loop (Suc fuel) c found depth =
       (case find_ber_loop fuel b False (depth + 1) of
          (False, f) \<Rightarrow> (False, f) | (True, f) \<Rightarrow> find_ber_loop fuel c' f depth)"
proof -
  obtain out hl c' where g: "CBS_get_any_ber_asn1_element c = (Some (out, t, hl), c')"
    "definite_elem c out t hl c' body" "cbs_view c' = rest"
    using ber_element_complete [OF wf v] by blast
  note b = definite_elem_body [OF wf g(2)]
  have len: "c_len c = length (der_elem t body @ rest)" using v(1) length_cbs_view [OF wf] by simp
  have lt: "c_len (cbs_advance out hl) < c_len c"
    using len length_cbs_view [OF b(3)] b(2) der_elem_length_ge [of body t] by simp
  have lt': "c_len c' < c_len c" using b(4,7) by simp
  have "CBS_len c \<noteq> 0" using lt by (simp add: CBS_len_def)
  then have "find_ber_loop (Suc fuel) c found depth =
       (case find_ber_loop fuel (cbs_advance out hl) False (depth + 1) of
          (False, f) \<Rightarrow> (False, f) | (True, f) \<Rightarrow> find_ber_loop fuel c' f depth)" for fuel found
    using dp g(1) t b(1) definite_not_indefinite [OF wf g(2)]
    by (simp add: find_ber_loop.simps [of "Suc fuel" c])
  with that [of "cbs_advance out hl" c'] b(2-4) g(3) lt lt' show thesis by blast
qed

lemma find_ber_string:
  assumes "cbs_wf c" "cbs_view c = der_elem t body @ rest" "length body \<le> 0xfffffffe"
    and "t AND CBS_ASN1_CONSTRUCTED \<noteq> 0" "is_string_type t" "c_len c \<le> fuel"
  shows "find_ber_loop fuel c found depth = (True, True)"
proof -
  obtain out hl c' where g: "CBS_get_any_ber_asn1_element c = (Some (out, t, hl), c')"
    "definite_elem c out t hl c' body"
    using ber_element_complete [OF assms(1-3)] by metis
  have "0 < c_len c" using length_cbs_view [OF assms(1)] assms(2) der_elem_length_ge [of body t] by simp
  then obtain f where "fuel = Suc f" using assms(6) by (cases fuel) auto
  with \<open>0 < c_len c\<close> g assms(4,5) show ?thesis
    by (simp add: find_ber_loop.simps [of "Suc f"] CBS_len_def)
qed

lemma cbs_find_ber_forgets:
  assumes wf: "cbs_wf c"
    and v: "cbs_view c = der_elem t (der_elem st str @ zs) @ der_elem t' body"
    and st: "st AND CBS_ASN1_CONSTRUCTED \<noteq> 0" "is_string_type st"
    and t: "t AND CBS_ASN1_CONSTRUCTED \<noteq> 0" "\<not> is_string_type t"
    and t': "t' AND CBS_ASN1_CONSTRUCTED \<noteq> 0" "\<not> is_string_type t'"
    and small: "length (der_elem st str @ zs) \<le> 0xfffffffe" "length str \<le> 0xfffffffe" "length body \<le> 0xfffffffe"
    and dw: "der_within k body" "k < kMaxDepth"
  shows "cbs_find_ber c found 0 = (True, False)"
proof -
  have d0: "0 < kMaxDepth" using dw(2) by simp
  have v': "cbs_view c = der_elem t (der_elem st str @ zs) @ (der_elem t' body @ [])" using v by simp
  obtain b c1 where A: "cbs_wf b" "cbs_view b = der_elem st str @ zs" "cbs_wf c1" "cbs_view c1 = der_elem t' body @ []"
    "c_len b < c_len c" "c_len c1 < c_len c"
    "\<And>fuel found. find_ber_loop (Suc fuel) c found 0 = (case find_ber_loop fuel b False (0 + 1) of
       (False, f) \<Rightarrow> (False, f) | (True, f) \<Rightarrow> find_ber_loop fuel c1 f 0)"
    using find_ber_step [OF wf v' small(1) t d0] by blast
  obtain b2 c2 where B: "cbs_wf b2" "cbs_view b2 = body" "cbs_wf c2" "cbs_view c2 = []" "c_len b2 < c_len c1" "c_len c2 < c_len c1"
    "\<And>fuel found. find_ber_loop (Suc fuel) c1 found 0 = (case find_ber_loop fuel b2 False (0 + 1) of
       (False, f) \<Rightarrow> (False, f) | (True, f) \<Rightarrow> find_ber_loop fuel c2 f 0)"
    using find_ber_step [OF A(3,4) small(3) t' d0] by blast
  obtain f where f: "c_len c = Suc (Suc f)" "c_len b \<le> Suc f" "c_len b2 \<le> f" "c_len c2 = 0"
    using A(5,6) B(5,6) cbs_empty_len [OF B(3)] B(4) by (cases "c_len c"; cases "c_len c - 1") auto
  have "find_ber_loop f b2 False (0 + 1) = (True, False)"
    using dw(2) by (intro find_ber_loop_der [OF dw(1) B(1,2) f(3)]) simp
  moreover have "find_ber_loop f c2 False 0 = (True, False)"
    using f(4) by (simp add: find_ber_loop.simps [of f] CBS_len_def)
  ultimately have "find_ber_loop (Suc f) c1 True 0 = (True, False)" unfolding B(7) by simp
  moreover have "find_ber_loop (Suc f) b False (0 + 1) = (True, True)"
    by (rule find_ber_string [OF A(1,2) small(2) st f(2)])
  ultimately have "find_ber_loop (Suc (Suc f)) c False 0 = (True, False)" unfolding A(7) by simp
  moreover have "CBS_init (CBS_data c) (CBS_len c) = c" by (simp add: CBS_init_def CBS_data_def CBS_len_def)
  ultimately show ?thesis using f(1) by (simp add: cbs_find_ber_def CBS_len_def)
qed

section \<open>Implicitly-tagged strings\<close>

lemma implicit_chunks_fuel:
  "cbs_wf c \<Longrightarrow> c_len c \<le> fuel \<Longrightarrow> c_len c \<le> fuel' \<Longrightarrow> implicit_chunks fuel e c t s = implicit_chunks fuel' e c t s"
proof (induction fuel arbitrary: fuel' c s)
  case 0
  then show ?case by (simp add: implicit_chunks.simps [of 0] implicit_chunks.simps [of fuel'] CBS_len_def)
next
  case (Suc f)
  show ?case
  proof (cases "c_len c = 0")
    case True
    then show ?thesis by (simp add: implicit_chunks.simps [of "Suc f"] implicit_chunks.simps [of fuel'] CBS_len_def)
  next
    case False
    then obtain f' where f': "fuel' = Suc f'" using Suc.prems(3) by (cases fuel') auto
    show ?thesis
    proof (cases "CBS_get_asn1 c t")
      case (Pair r c')
      show ?thesis
      proof (cases r)
        case (Some out)
        then have "cbs_view c = der_elem t (cbs_view out) @ cbs_view c'" "cbs_wf c'"
          using CBS_get_asn1_sound [OF Suc.prems(1)] Pair by blast+
        then have "c_len c' < c_len c"
          using length_cbs_view [OF Suc.prems(1)] length_cbs_view [of c'] der_elem_length_ge [of "cbs_view out" t] by simp
        then have "implicit_chunks f e c' t = implicit_chunks f' e c' t"
          by (intro ext Suc.IH [OF \<open>cbs_wf c'\<close>]) (use Suc.prems(2,3) f' in simp_all)
        then show ?thesis
          by (simp add: f' implicit_chunks.simps [of "Suc f"] implicit_chunks.simps [of "Suc f'"] Pair Some)
      qed (simp add: f' implicit_chunks.simps [of "Suc f"] implicit_chunks.simps [of "Suc f'"] Pair)
    qed
  qed
qed

lemma cbb_app_chunks:
  assumes "heap_ok e"
  shows "cbs_wf c \<Longrightarrow> cbs_view c = concat (map (der_elem t) bs) \<Longrightarrow> \<forall>b\<in>set bs. length b < 2 ^ 32 \<Longrightarrow>
    length bs \<le> fuel \<Longrightarrow> cbb_app_weak e 0 (implicit_chunks fuel e c t) (concat bs)"
proof (induction bs arbitrary: c fuel)
  case Nil
  then have "CBS_len c = 0" using cbs_empty_len [of c] by (simp add: CBS_len_def)
  then show ?case
    by (intro cbb_app_weak_cong [OF cbb_app_weak_nothing]) (simp_all add: implicit_chunks.simps [of fuel])
next
  case (Cons b bs)
  obtain f where f: "fuel = Suc f" using Cons.prems(4) by (cases fuel) auto
  have v: "cbs_view c = der_elem t b @ concat (map (der_elem t) bs)" and lb: "length b < 2 ^ 32"
    using Cons.prems(2,3) by simp_all
  obtain out c' where g: "CBS_get_asn1 c t = (Some out, c')" "cbs_view out = b" "cbs_wf out" "cbs_wf c'"
    "cbs_view c' = concat (map (der_elem t) bs)"
    using CBS_get_asn1_complete [OF Cons.prems(1) v lb] by blast
  have "CBS_len c \<noteq> 0"
    using v length_cbs_view [OF Cons.prems(1)] der_elem_length_ge [of b t] by (simp add: CBS_len_def)
  then have step: "implicit_chunks fuel e c t s =
    and_then (CBB_add_bytes e 0 s (CBS_data out) (CBS_len out)) (implicit_chunks f e c' t)" for s
    using g(1) by (simp add: f implicit_chunks.simps [of "Suc f"])
  have "c_len out < 2 ^ 62" using length_cbs_view [OF g(3)] g(2) lb by simp
  then have "cbb_app e 0 (\<lambda>s. CBB_add_bytes e 0 s (CBS_data out) (CBS_len out)) (take (CBS_len out) (CBS_data out))"
    using g(3) by (intro cbb_app_bytes [OF assms]) (simp_all add: cbs_wf_def CBS_len_def CBS_data_def)
  then have "cbb_app e 0 (\<lambda>s. CBB_add_bytes e 0 s (CBS_data out) (CBS_len out)) b"
    using g(2) by (simp add: cbs_view_def CBS_len_def CBS_data_def)
  moreover have "cbb_app_weak e 0 (implicit_chunks f e c' t) (concat bs)"
    using Cons.IH [OF g(4,5), of f] Cons.prems(3,4) f by simp
  ultimately have "cbb_app_weak e 0 (\<lambda>s. and_then (CBB_add_bytes e 0 s (CBS_data out) (CBS_len out))
      (implicit_chunks f e c' t)) (b @ concat bs)"
    by (rule cbb_app_weak_seq)
  then show ?case by (rule cbb_app_weak_cong) (simp_all add: step)
qed

lemma CBS_peek_asn1_tag_elem:
  assumes "cbs_wf c" "cbs_view c = der_elem t body @ rest"
  shows "CBS_peek_asn1_tag c t' \<longleftrightarrow> t' = t"
proof -
  have v: "cbs_view c = der_tag t @ der_len (length body) @ body @ rest"
    using assms(2) by (simp add: der_elem_def der_header_def)
  have "\<not> CBS_len c < 1"
    using assms(2) length_cbs_view [OF assms(1)] der_elem_length_ge [of body t] by (simp add: CBS_len_def)
  then show ?thesis using parse_asn1_tag_complete [OF assms(1) v] by (simp add: CBS_peek_asn1_tag_def)
qed

text \<open>A constructed string is the concatenation of its chunks.\<close>

lemma CBS_get_asn1_implicit_string_constructed:
  assumes hp: "heap_ok e" "heap_generous e" and wf: "cbs_wf c" "c_len c \<le> 2 ^ 56"
    and v: "cbs_view c = der_elem (outer OR CBS_ASN1_CONSTRUCTED) (concat (map (der_elem inner) bs)) @ rest"
    and prim: "outer AND CBS_ASN1_CONSTRUCTED = 0"
    and small: "length (concat (map (der_elem inner) bs)) < 2 ^ 32"
  shows "\<exists>out st c'. CBS_get_asn1_implicit_string e c outer inner = (Some (out, Some st), c')
    \<and> cbs_view out = concat bs \<and> cbs_view c' = rest"
proof -
  define body where "body = concat (map (der_elem inner) bs)"
  have "outer \<noteq> outer OR CBS_ASN1_CONSTRUCTED"
  proof
    assume "outer = outer OR CBS_ASN1_CONSTRUCTED"
    then have "(outer OR CBS_ASN1_CONSTRUCTED) AND CBS_ASN1_CONSTRUCTED = 0" using prim by simp
    then show False by (simp add: CBS_ASN1_CONSTRUCTED_def bit.conj_disj_distrib2)
  qed
  then have peek: "\<not> CBS_peek_asn1_tag c outer" using CBS_peek_asn1_tag_elem [OF wf(1) v, of outer] by simp
  obtain s0 where s0: "CBB_init e (CBS_len c) = (True, s0)" "cbb_ready 0 0 s0 []"
    using CBB_init_ready [OF hp, of "CBS_len c"] wf(2) by (auto simp: CBS_len_def)
  obtain ch c' where g: "CBS_get_asn1 c (outer OR CBS_ASN1_CONSTRUCTED) = (Some ch, c')" "cbs_view ch = body"
    "cbs_view c' = rest" "cbs_wf ch"
    using CBS_get_asn1_complete [OF wf(1) v small] unfolding body_def by blast
  have len: "length bs \<le> length body" "\<forall>b\<in>set bs. length b \<le> length body" "length (concat bs) \<le> length body"
  proof -
    have "length bs \<le> length body \<and> (\<forall>b\<in>set bs. length b \<le> length body) \<and> length (concat bs) \<le> length body"
      unfolding body_def
    proof (induction bs)
      case (Cons b bs)
      then show ?case using der_elem_length_ge [of b inner] by (auto intro: le_trans)
    qed simp
    then show "length bs \<le> length body" "\<forall>b\<in>set bs. length b \<le> length body" "length (concat bs) \<le> length body"
      by blast+
  qed
  have cl: "CBS_len ch = length body" using g(2) length_cbs_view [OF g(4)] by (simp add: CBS_len_def)
  have sm: "\<forall>b\<in>set bs. length b < 2 ^ 32" using len(2) small by (auto simp: body_def)
  have app: "cbb_app_weak e 0 (implicit_chunks (CBS_len ch) e ch inner) (concat bs)"
    by (rule cbb_app_chunks [OF hp(1) g(4) _ sm]) (simp_all add: g(2) body_def [symmetric] cl len(1))
  have "0 + 8 * length (concat bs) \<le> 2 ^ 60" using len(3) small by (simp add: body_def)
  from cbb_app_weak_ready [OF app hp(2) s0(2) this] obtain s1 where
    s1: "implicit_chunks (CBS_len ch) e ch inner s0 = (True, s1)" "cbb_ready (length (concat bs)) 0 s1 (concat bs)"
    by auto
  have "length (concat bs) \<le> 2 ^ 60" using len(3) small by (simp add: body_def)
  from CBB_finish_ready [OF hp s1(2) this] obtain buf s2 where
    fin: "CBB_finish e 0 s1 True True = (Some (buf, length (concat bs)), s2)"
      "take (length (concat bs)) buf = concat bs" by blast
  have "length (concat bs) \<le> length buf" using arg_cong [OF fin(2), of length] by simp
  then have "cbs_view (CBS_init buf (length (concat bs))) = concat bs" using fin(2) by simp
  then show ?thesis
    using peek s0(1) g(1,3) s1(1) fin(1) by (auto simp: CBS_get_asn1_implicit_string_def)
qed

end
