(* ===== verification/Nanopb_Decode.thy ===== *)
theory Nanopb_Decode
  imports Prelude
begin

text \<open>
  The input side of \<open>nanopb/pb_decode.c\<close>: the stream with its read callback, varints,
  fixed-width values, tags, the skipping of unknown fields, substreams for
  length-delimited values and the integer field decoders.

  A stream is generic in the callback's state.  The callback is a function pointer that
  the application may supply, hence a parameter; \<open>buf_callback\<close> is the one the library
  itself provides.  A call returns the bytes it read, or \<open>None\<close> on failure.
\<close>

section \<open>Streams\<close>

record 's pb_callback =
  cb_read :: "'s \<Rightarrow> nat \<Rightarrow> bytes option \<times> 's"
  cb_is_buf_read :: bool

record 's pb_istream =
  is_state :: 's
  is_left :: nat
  is_errmsg :: "string option"

text \<open>\<open>PB_SET_ERROR\<close> keeps the first message.\<close>

definition set_error :: "'s pb_istream \<Rightarrow> string \<Rightarrow> 's pb_istream" where
  "set_error st msg = st\<lparr>is_errmsg := (case is_errmsg st of None \<Rightarrow> Some msg | Some m \<Rightarrow> Some m)\<rparr>"

definition buf_read :: "bytes \<Rightarrow> nat \<Rightarrow> bytes option \<times> bytes" where
  "buf_read source n = (Some (take n source), drop n source)"

definition buf_callback :: "bytes pb_callback" where
  "buf_callback = \<lparr>cb_read = buf_read, cb_is_buf_read = True\<rparr>"

definition pb_istream_from_buffer :: "bytes \<Rightarrow> nat \<Rightarrow> bytes pb_istream" where
  "pb_istream_from_buffer buf bufsize = \<lparr>is_state = buf, is_left = bufsize, is_errmsg = None\<rparr>"

text \<open>
  \<open>pb_read_some\<close> is \<open>pb_read\<close> past its first test, \<open>pb_skip_some\<close> the loop over a scratch
  buffer of 16 bytes, and \<open>null\<close> says whether the \<open>buf\<close> argument is null.
\<close>

definition pb_read_some :: "'s pb_callback \<Rightarrow> 's pb_istream \<Rightarrow> nat \<Rightarrow> bytes option \<times> 's pb_istream" where
  "pb_read_some cb st n =
     (if is_left st < n then (None, set_error st ''end-of-stream'')
      else (case cb_read cb (is_state st) n of
              (None, s) \<Rightarrow> (None, set_error (st\<lparr>is_state := s\<rparr>) ''io error'')
            | (Some b, s) \<Rightarrow> (Some b, st\<lparr>is_state := s, is_left := is_left st - n\<rparr>)))"

fun pb_skip_some :: "'s pb_callback \<Rightarrow> 's pb_istream \<Rightarrow> nat \<Rightarrow> bytes option \<times> 's pb_istream" where
  "pb_skip_some cb st n =
     (if n > 16 then
        (case pb_read_some cb st 16 of
           (None, st) \<Rightarrow> (None, st)
         | (Some _, st) \<Rightarrow> pb_skip_some cb st (n - 16))
      else pb_read_some cb st n)"

declare pb_skip_some.simps [simp del]

definition pb_read :: "'s pb_callback \<Rightarrow> 's pb_istream \<Rightarrow> bool \<Rightarrow> nat \<Rightarrow> bytes option \<times> 's pb_istream" where
  "pb_read cb st null n =
     (if null \<and> \<not> cb_is_buf_read cb then pb_skip_some cb st n else pb_read_some cb st n)"

definition pb_readbyte :: "'s pb_callback \<Rightarrow> 's pb_istream \<Rightarrow> u8 option \<times> 's pb_istream" where
  "pb_readbyte cb st =
     (if is_left st = 0 then (None, set_error st ''end-of-stream'')
      else (case cb_read cb (is_state st) 1 of
              (None, s) \<Rightarrow> (None, set_error (st\<lparr>is_state := s\<rparr>) ''io error'')
            | (Some b, s) \<Rightarrow> (Some (b ! 0), st\<lparr>is_state := s, is_left := is_left st - 1\<rparr>)))"

lemma set_error_left [simp]: "is_left (set_error st m) = is_left st" "is_state (set_error st m) = is_state st"
  by (simp_all add: set_error_def)

lemma pb_readbyte_left: "pb_readbyte cb st = (Some b, st') \<Longrightarrow> is_left st' < is_left st"
  by (auto simp: pb_readbyte_def split: if_splits prod.splits option.splits)

lemma pb_read_some_left:
  "pb_read_some cb st n = (r, st') \<Longrightarrow> is_left st' \<le> is_left st \<and> (r \<noteq> None \<longrightarrow> is_left st' + n = is_left st)"
  by (auto simp: pb_read_some_def split: if_splits prod.splits option.splits)

section \<open>Varints\<close>

text \<open>\<open>bitpos\<close> is a \<open>uint_fast8_t\<close>, which has 8 bits on the targets.\<close>

function varint32_loop :: "'s pb_callback \<Rightarrow> 's pb_istream \<Rightarrow> u32 \<Rightarrow> u8 \<Rightarrow> u32 option \<times> 's pb_istream" where
  "varint32_loop cb st result bitpos =
     (case pb_readbyte cb st of
        (None, st) \<Rightarrow> (None, st)
      | (Some byte, st) \<Rightarrow>
          if bitpos \<ge> 32 \<and> byte AND 0x7f \<noteq> 0
             \<and> (drop_bit 31 result = 0 \<or> byte \<noteq> (if bitpos < 63 then 0xff else 0x01))
          then (None, set_error st ''varint overflow'')
          else
            let result = (if bitpos \<ge> 32 then result
                          else result OR push_bit (unat bitpos) (ucast (byte AND 0x7f)));
                bitpos = bitpos + 7 in
            if byte AND 0x80 \<noteq> 0 then varint32_loop cb st result bitpos
            else if bitpos = 35 \<and> byte AND 0x70 \<noteq> 0
            then (None, set_error st ''varint overflow'')
            else (Some result, st))"
  by pat_completeness auto
termination
  by (relation "measure (\<lambda>(cb, st, r, b). is_left st)") (auto dest: pb_readbyte_left [OF sym])

declare varint32_loop.simps [simp del]

text \<open>The second component is whether \<open>*eof\<close> is set.\<close>

definition pb_decode_varint32_eof :: "'s pb_callback \<Rightarrow> 's pb_istream \<Rightarrow> u32 option \<times> bool \<times> 's pb_istream" where
  "pb_decode_varint32_eof cb st =
     (case pb_readbyte cb st of
        (None, st) \<Rightarrow> (None, is_left st = 0, st)
      | (Some byte, st) \<Rightarrow>
          if byte AND 0x80 = 0 then (Some (ucast byte), False, st)
          else (case varint32_loop cb st (ucast (byte AND 0x7f)) 7 of (r, st) \<Rightarrow> (r, False, st)))"

definition pb_decode_varint32 :: "'s pb_callback \<Rightarrow> 's pb_istream \<Rightarrow> u32 option \<times> 's pb_istream" where
  "pb_decode_varint32 cb st = (case pb_decode_varint32_eof cb st of (r, _, st) \<Rightarrow> (r, st))"

function varint_loop :: "'s pb_callback \<Rightarrow> 's pb_istream \<Rightarrow> u64 \<Rightarrow> u8 \<Rightarrow> u64 option \<times> 's pb_istream" where
  "varint_loop cb st result bitpos =
     (if bitpos \<ge> 64 then (None, set_error st ''varint overflow'')
      else (case pb_readbyte cb st of
        (None, st) \<Rightarrow> (None, st)
      | (Some byte, st) \<Rightarrow>
          let result = result OR push_bit (unat bitpos) (ucast (byte AND 0x7f)); bitpos = bitpos + 7 in
          if byte AND 0x80 \<noteq> 0 then varint_loop cb st result bitpos else (Some result, st)))"
  by pat_completeness auto
termination
  by (relation "measure (\<lambda>(cb, st, r, b). is_left st)") (auto dest: pb_readbyte_left [OF sym])

declare varint_loop.simps [simp del]

definition pb_decode_varint :: "'s pb_callback \<Rightarrow> 's pb_istream \<Rightarrow> u64 option \<times> 's pb_istream" where
  "pb_decode_varint cb st = varint_loop cb st 0 0"

definition pb_decode_svarint :: "'s pb_callback \<Rightarrow> 's pb_istream \<Rightarrow> u64 option \<times> 's pb_istream" where
  "pb_decode_svarint cb st =
     (case pb_decode_varint cb st of
        (None, st) \<Rightarrow> (None, st)
      | (Some v, st) \<Rightarrow> (Some (if v AND 1 \<noteq> 0 then NOT (drop_bit 1 v) else drop_bit 1 v), st))"

definition pb_decode_fixed32 :: "'s pb_callback \<Rightarrow> 's pb_istream \<Rightarrow> u32 option \<times> 's pb_istream" where
  "pb_decode_fixed32 cb st =
     (case pb_read cb st False 4 of
        (None, st) \<Rightarrow> (None, st)
      | (Some b, st) \<Rightarrow>
          (Some (push_bit 0 (ucast (b ! 0)) OR push_bit 8 (ucast (b ! 1))
             OR push_bit 16 (ucast (b ! 2)) OR push_bit 24 (ucast (b ! 3))), st))"

definition pb_decode_fixed64 :: "'s pb_callback \<Rightarrow> 's pb_istream \<Rightarrow> u64 option \<times> 's pb_istream" where
  "pb_decode_fixed64 cb st =
     (case pb_read cb st False 8 of
        (None, st) \<Rightarrow> (None, st)
      | (Some b, st) \<Rightarrow>
          (Some (push_bit 0 (ucast (b ! 0)) OR push_bit 8 (ucast (b ! 1))
             OR push_bit 16 (ucast (b ! 2)) OR push_bit 24 (ucast (b ! 3))
             OR push_bit 32 (ucast (b ! 4)) OR push_bit 40 (ucast (b ! 5))
             OR push_bit 48 (ucast (b ! 6)) OR push_bit 56 (ucast (b ! 7))), st))"

section \<open>Skipping and tags\<close>

function pb_skip_varint :: "'s pb_callback \<Rightarrow> 's pb_istream \<Rightarrow> bool \<times> 's pb_istream" where
  "pb_skip_varint cb st =
     (case pb_read_some cb st 1 of
        (None, st) \<Rightarrow> (False, st)
      | (Some b, st) \<Rightarrow> if b ! 0 AND 0x80 \<noteq> 0 then pb_skip_varint cb st else (True, st))"
  by pat_completeness auto
termination
  by (relation "measure (\<lambda>(cb, st). is_left st)") (force dest: pb_read_some_left [OF sym])+

declare pb_skip_varint.simps [simp del]

definition pb_skip_string :: "'s pb_callback \<Rightarrow> 's pb_istream \<Rightarrow> bool \<times> 's pb_istream" where
  "pb_skip_string cb st =
     (case pb_decode_varint32 cb st of
        (None, st) \<Rightarrow> (False, st)
      | (Some n, st) \<Rightarrow> (case pb_read cb st True (unat n) of (r, st) \<Rightarrow> (r \<noteq> None, st)))"

text \<open>\<open>Inl eof\<close> is the result false, \<open>Inr (wire_type, tag)\<close> the result true.\<close>

definition pb_decode_tag :: "'s pb_callback \<Rightarrow> 's pb_istream \<Rightarrow> (bool + u32 \<times> u32) \<times> 's pb_istream" where
  "pb_decode_tag cb st =
     (case pb_decode_varint32_eof cb st of
        (None, eof, st) \<Rightarrow> (Inl eof, st)
      | (Some temp, _, st) \<Rightarrow>
          if temp = 0 then (Inl True, st) else (Inr (temp AND 7, drop_bit 3 temp), st))"

definition PB_WT_VARINT :: u32 where "PB_WT_VARINT = 0"
definition PB_WT_64BIT :: u32 where "PB_WT_64BIT = 1"
definition PB_WT_STRING :: u32 where "PB_WT_STRING = 2"
definition PB_WT_32BIT :: u32 where "PB_WT_32BIT = 5"

definition pb_skip_field :: "'s pb_callback \<Rightarrow> 's pb_istream \<Rightarrow> u32 \<Rightarrow> bool \<times> 's pb_istream" where
  "pb_skip_field cb st wire_type =
     (if wire_type = PB_WT_VARINT then pb_skip_varint cb st
      else if wire_type = PB_WT_64BIT then (case pb_read cb st True 8 of (r, st) \<Rightarrow> (r \<noteq> None, st))
      else if wire_type = PB_WT_STRING then pb_skip_string cb st
      else if wire_type = PB_WT_32BIT then (case pb_read cb st True 4 of (r, st) \<Rightarrow> (r \<noteq> None, st))
      else (False, set_error st ''invalid wire_type''))"

text \<open>
  A raw value of at most \<open>max_size\<close> bytes: what was read, and whether the call succeeded.
\<close>

fun read_raw_varint :: "'s pb_callback \<Rightarrow> 's pb_istream \<Rightarrow> nat \<Rightarrow> bytes option \<times> 's pb_istream" where
  "read_raw_varint cb st 0 = (None, st)"
| "read_raw_varint cb st (Suc room) =
     (case pb_read_some cb st 1 of
        (None, st) \<Rightarrow> (None, st)
      | (Some b, st) \<Rightarrow>
          if b ! 0 AND 0x80 \<noteq> 0
          then (case read_raw_varint cb st room of (r, st) \<Rightarrow> (map_option ((@) b) r, st))
          else (Some b, st))"

definition read_raw_value :: "'s pb_callback \<Rightarrow> 's pb_istream \<Rightarrow> u32 \<Rightarrow> nat \<Rightarrow> bytes option \<times> 's pb_istream" where
  "read_raw_value cb st wire_type max_size =
     (if wire_type = PB_WT_VARINT then read_raw_varint cb st max_size
      else if wire_type = PB_WT_64BIT then pb_read cb st False 8
      else if wire_type = PB_WT_32BIT then pb_read cb st False 4
      else (None, set_error st ''invalid wire_type''))"

section \<open>Substreams\<close>

definition pb_make_string_substream ::
  "'s pb_callback \<Rightarrow> 's pb_istream \<Rightarrow> 's pb_istream option \<times> 's pb_istream" where
  "pb_make_string_substream cb st =
     (case pb_decode_varint32 cb st of
        (None, st) \<Rightarrow> (None, st)
      | (Some sz, st) \<Rightarrow>
          if is_left st < unat sz then (None, set_error st ''parent stream too short'')
          else (Some (st\<lparr>is_left := unat sz\<rparr>), st\<lparr>is_left := is_left st - unat sz\<rparr>))"

definition pb_close_string_substream ::
  "'s pb_callback \<Rightarrow> 's pb_istream \<Rightarrow> 's pb_istream \<Rightarrow> bool \<times> 's pb_istream" where
  "pb_close_string_substream cb st sub =
     (case (if is_left sub \<noteq> 0 then pb_read cb sub True (is_left sub) else (Some [], sub)) of
        (None, _) \<Rightarrow> (False, st)
      | (Some _, sub) \<Rightarrow> (True, st\<lparr>is_state := is_state sub, is_errmsg := is_errmsg sub\<rparr>))"

section \<open>Integer fields\<close>

text \<open>
  The value stored in a field of \<open>data_size\<close> bytes, as a mathematical integer; \<open>None\<close> in
  the first component is the result false.  A value that does not fit is stored truncated
  before the error is reported; the truncated value is not part of the result.
\<close>

definition store_signed :: "nat \<Rightarrow> int \<Rightarrow> int" where
  "store_signed k v = signed_take_bit (8 * k - 1) v"

definition pb_dec_varint :: "'s pb_callback \<Rightarrow> 's pb_istream \<Rightarrow> nat \<Rightarrow> int option \<times> 's pb_istream" where
  "pb_dec_varint cb st data_size =
     (case pb_decode_varint cb st of
        (None, st) \<Rightarrow> (None, st)
      | (Some v, st) \<Rightarrow>
          let svalue = (if data_size = 8 then sint v else sint (ucast v :: u32)) in
          if data_size \<notin> {8, 4, 2, 1} then (None, set_error st ''invalid data_size'')
          else if store_signed data_size svalue \<noteq> svalue then (None, set_error st ''integer too large'')
          else (Some svalue, st))"

definition pb_dec_uvarint :: "'s pb_callback \<Rightarrow> 's pb_istream \<Rightarrow> nat \<Rightarrow> int option \<times> 's pb_istream" where
  "pb_dec_uvarint cb st data_size =
     (case pb_decode_varint cb st of
        (None, st) \<Rightarrow> (None, st)
      | (Some v, st) \<Rightarrow>
          if data_size \<notin> {8, 4, 2, 1} then (None, set_error st ''invalid data_size'')
          else if take_bit (8 * data_size) (uint v) \<noteq> uint v then (None, set_error st ''integer too large'')
          else (Some (uint v), st))"

definition pb_dec_svarint :: "'s pb_callback \<Rightarrow> 's pb_istream \<Rightarrow> nat \<Rightarrow> int option \<times> 's pb_istream" where
  "pb_dec_svarint cb st data_size =
     (case pb_decode_svarint cb st of
        (None, st) \<Rightarrow> (None, st)
      | (Some v, st) \<Rightarrow>
          if data_size \<notin> {8, 4, 2, 1} then (None, set_error st ''invalid data_size'')
          else if store_signed data_size (sint v) \<noteq> sint v then (None, set_error st ''integer too large'')
          else (Some (sint v), st))"

end
