(* ===== verification/Nanopb_Decode_Correct.thy ===== *)
theory Nanopb_Decode_Correct
  imports Nanopb_Decode
begin

text \<open>
  What the input side of nanopb computes, for every callback that behaves like a file: the
  contract is the locale \<open>pb_source\<close>, which the library's own \<open>buf_read\<close> meets.
\<close>

section \<open>Base-128 varints\<close>

text \<open>
  A varint is a string of bytes of which all but the last have the high bit set; its value
  takes seven bits from each, least significant first.
\<close>

fun varint_form :: "bytes \<Rightarrow> bool" where
  "varint_form [] \<longleftrightarrow> False"
| "varint_form [b] \<longleftrightarrow> unat b < 128"
| "varint_form (b # bs) \<longleftrightarrow> 128 \<le> unat b \<and> varint_form bs"

fun varint_val :: "bytes \<Rightarrow> nat" where
  "varint_val [] = 0"
| "varint_val (b # bs) = unat b mod 128 + 128 * varint_val bs"

fun varint :: "nat \<Rightarrow> bytes" where
  "varint n = (if n < 128 then [of_nat n] else of_nat (128 + n mod 128) # varint (n div 128))"

declare varint.simps [simp del]

lemma varint_form_Cons: "varint_form (b # bs) \<longleftrightarrow> (if bs = [] then unat b < 128 else 128 \<le> unat b \<and> varint_form bs)"
  by (cases bs) auto

lemma varint_nonempty [simp]: "varint n \<noteq> []"
  by (simp add: varint.simps [of n])

lemma varint_form_varint: "varint_form (varint n)"
proof (induction n rule: varint.induct)
  case (1 n)
  show ?case
  proof (cases "n < 128")
    case True
    then show ?thesis by (simp add: varint.simps [of n] unat_of_nat_u8)
  next
    case False
    have "unat (of_nat (128 + n mod 128) :: u8) = 128 + n mod 128" by (rule unat_of_nat_u8) simp
    with 1 False show ?thesis by (simp add: varint.simps [of n] varint_form_Cons)
  qed
qed

lemma varint_val_varint: "varint_val (varint n) = n"
proof (induction n rule: varint.induct)
  case (1 n)
  show ?case
  proof (cases "n < 128")
    case True
    then show ?thesis by (simp add: varint.simps [of n] unat_of_nat_u8)
  next
    case False
    have "unat (of_nat (128 + n mod 128) :: u8) = 128 + n mod 128" by (rule unat_of_nat_u8) simp
    with 1 False show ?thesis by (simp add: varint.simps [of n])
  qed
qed

lemma length_varint: "n < 128 ^ k \<Longrightarrow> 0 < k \<Longrightarrow> length (varint n) \<le> k"
proof (induction n arbitrary: k rule: varint.induct)
  case (1 n)
  show ?case
  proof (cases "n < 128")
    case False
    then obtain j where k: "k = Suc j" "0 < j" using "1.prems" by (cases k; cases "k - 1") auto
    then have "n div 128 < 128 ^ j" using "1.prems" by (simp add: less_mult_imp_div_less mult.commute)
    with "1.IH" [OF False this] k False show ?thesis by (simp add: varint.simps [of n])
  qed (use "1.prems" in \<open>simp add: varint.simps [of n]\<close>)
qed

lemma varint_val_less: "varint_val bs < 2 ^ (7 * length bs)"
proof (induction bs)
  case (Cons b bs)
  have "unat b mod 128 + 128 * varint_val bs < 128 * 2 ^ (7 * length bs)"
  proof -
    have "unat b mod 128 < 128" by simp
    moreover have "128 * (varint_val bs + 1) \<le> 128 * 2 ^ (7 * length bs)" using Cons by (intro mult_le_mono2) simp
    ultimately show ?thesis by simp
  qed
  then show ?case by (simp add: power_add)
qed simp

section \<open>One step of the decoder\<close>

lemma or_low_push: "unat (x :: 'a::len word) < 2 ^ k \<Longrightarrow> x OR push_bit k y = x + y * 2 ^ k"
  using push_bit_or_low [of x k y] by (simp add: or.commute add.commute push_bit_eq_mult)

lemma ucast_low7: "(ucast (b AND 0x7f :: u8) :: 'a::len word) = of_nat (unat b mod 128)"
proof -
  have "(ucast (b AND 0x7f) :: 'a word) = of_nat (unat (b AND 0x7f))" by simp
  then show ?thesis by (simp only: u8_low7)
qed

lemma varint_step:
  assumes "unat (bp :: u8) = 7 * k" "k \<le> 9" "unat (r :: u64) < 2 ^ (7 * k)"
    and r': "r' = r OR push_bit (unat bp) (ucast (b AND 0x7f :: u8))"
  shows "\<not> bp \<ge> 64" "unat (bp + 7) = 7 * Suc k" "r' = r + 2 ^ (7 * k) * of_nat (unat b mod 128)"
    "k \<le> 8 \<Longrightarrow> unat r' < 2 ^ (7 * Suc k)"
proof -
  show "\<not> bp \<ge> 64" using assms(1,2) by (simp add: word_le_nat_alt)
  show "unat (bp + 7) = 7 * Suc k" using assms(1,2) by (simp add: unat_word_ariths)
  show eq: "r' = r + 2 ^ (7 * k) * of_nat (unat b mod 128)"
    unfolding r' assms(1) or_low_push [OF assms(3)] ucast_low7 by (simp add: mult.commute)
  assume k8: "k \<le> 8"
  have p: "(2 :: nat) ^ (7 * k) \<le> 2 ^ 56" using k8 by (intro power_increasing) simp_all
  have m: "unat (of_nat (unat b mod 128) :: u64) = unat b mod 128" by (simp add: unat_of_nat)
  have "2 ^ (7 * k) * (unat b mod 128) \<le> 2 ^ (7 * k) * (127 :: nat)" by (intro mult_le_mono2) simp
  moreover have "2 ^ (7 * k) * (128 :: nat) = 2 ^ (7 * k) * 127 + 2 ^ (7 * k)" by simp
  ultimately have lt: "unat r + 2 ^ (7 * k) * (unat b mod 128) < 2 ^ (7 * k) * 128" using assms(3) by linarith
  also have "\<dots> \<le> 2 ^ 56 * 128" using p by (intro mult_le_mono1)
  finally have small: "unat r + 2 ^ (7 * k) * (unat b mod 128) < 2 ^ 64" by simp
  have "unat (of_nat (2 ^ (7 * k)) :: u64) = 2 ^ (7 * k)" using p by (simp only: unat_of_nat) simp
  then have "unat (2 ^ (7 * k) :: u64) = 2 ^ (7 * k)" by simp
  then have "unat r' = unat r + 2 ^ (7 * k) * (unat b mod 128)"
    unfolding eq using small by (simp add: unat_word_ariths m)
  then show "unat r' < 2 ^ (7 * Suc k)" using lt by (simp add: power_add)
qed

lemma u8_0x70: "unat (b :: u8) < 16 \<Longrightarrow> b AND 0x70 = 0"
proof -
  assume b: "unat b < 16"
  have "(0x70 :: u8) = push_bit 4 (mask 3)" by (simp add: mask_eq_exp_minus_1 push_bit_eq_mult)
  moreover have "b AND push_bit 4 (mask 3) = 0"
    using not_bit_high_word [of b 4] b by (intro bit_word_eqI) (auto simp: bit_simps)
  ultimately show ?thesis by simp
qed

lemma varint32_step:
  assumes "unat (bp :: u8) = 7 * k" "k \<le> 4" "unat (r :: u32) < 2 ^ (7 * k)"
    and r': "r' = r OR push_bit (unat bp) (ucast (b AND 0x7f :: u8))"
    and small: "unat r + 2 ^ (7 * k) * (unat b mod 128) < 2 ^ 32"
  shows "\<not> bp \<ge> 32" "unat (bp + 7) = 7 * Suc k"
    "unat r' = unat r + 2 ^ (7 * k) * (unat b mod 128)" "unat r' < 2 ^ (7 * Suc k)"
proof -
  show "\<not> bp \<ge> 32" using assms(1,2) by (simp add: word_le_nat_alt)
  show "unat (bp + 7) = 7 * Suc k" using assms(1,2) by (simp add: unat_word_ariths)
  have eq: "r' = r + 2 ^ (7 * k) * of_nat (unat b mod 128)"
    unfolding r' assms(1) or_low_push [OF assms(3)] ucast_low7 by (simp add: mult.commute)
  have p: "(2 :: nat) ^ (7 * k) \<le> 2 ^ 28" using assms(2) by (intro power_increasing) simp_all
  have m: "unat (of_nat (unat b mod 128) :: u32) = unat b mod 128" by (simp add: unat_of_nat)
  have "unat (of_nat (2 ^ (7 * k)) :: u32) = 2 ^ (7 * k)" using p by (simp only: unat_of_nat) simp
  then have "unat (2 ^ (7 * k) :: u32) = 2 ^ (7 * k)" by simp
  then show "unat r' = unat r + 2 ^ (7 * k) * (unat b mod 128)"
    unfolding eq using small by (simp add: unat_word_ariths m)
  moreover have "2 ^ (7 * k) * (unat b mod 128) \<le> 2 ^ (7 * k) * (127 :: nat)" by (intro mult_le_mono2) simp
  moreover have "2 ^ (7 * k) * (128 :: nat) = 2 ^ (7 * k) * 127 + 2 ^ (7 * k)" by simp
  ultimately have "unat r' < 2 ^ (7 * k) * 128" using assms(3) by linarith
  then show "unat r' < 2 ^ (7 * Suc k)" by (simp add: power_add)
qed

section \<open>Little-endian bytes\<close>

definition le_byte :: "'a::len word \<Rightarrow> nat \<Rightarrow> u8" where
  "le_byte v k = ucast (drop_bit (8 * k) v AND 0xff)"

definition le_bytes32 :: "u32 \<Rightarrow> bytes" where
  "le_bytes32 v = map (le_byte v) [0, 1, 2, 3]"

definition le_bytes64 :: "u64 \<Rightarrow> bytes" where
  "le_bytes64 v = map (le_byte v) [0, 1, 2, 3, 4, 5, 6, 7]"

lemma length_le_bytes: "length (le_bytes32 v) = 4" "length (le_bytes64 w) = 8"
  by (simp_all add: le_bytes32_def le_bytes64_def)

lemma bit_0xff: "bit (0xff :: 'a::len word) n \<longleftrightarrow> n < 8 \<and> n < LENGTH('a)"
proof -
  have "(0xff :: 'a word) = mask 8" by (simp add: mask_eq_exp_minus_1)
  then show ?thesis by (simp only: bit_mask_iff) auto
qed

lemma bit_le_byte: "bit (le_byte (v :: 'a::len word) k) n \<longleftrightarrow> n < 8 \<and> bit v (8 * k + n)"
  by (auto simp: le_byte_def bit_simps bit_0xff simp del: bit_numeral_word_iff dest: bit_imp_le_length)

lemma bit_le_piece:
  assumes "n < LENGTH('a)"
  shows "bit (push_bit (8 * k) (ucast (le_byte (v :: 'a::len word) k)) :: 'a word) n \<longleftrightarrow> n div 8 = k \<and> bit v n"
proof -
  have "8 * k \<le> n \<and> n - 8 * k < 8 \<longleftrightarrow> n div 8 = k" by linarith
  then show ?thesis using assms by (auto simp: bit_push_bit_iff bit_ucast_iff bit_le_byte)
qed

lemma le_bytes32_join:
  "(push_bit 0 (ucast (le_bytes32 v ! 0)) :: u32) OR push_bit 8 (ucast (le_bytes32 v ! 1))
     OR push_bit 16 (ucast (le_bytes32 v ! 2)) OR push_bit 24 (ucast (le_bytes32 v ! 3)) = v"
  (is "?w = v")
proof (rule bit_word_eqI)
  fix n
  assume n: "n < LENGTH(32)"
  then have q: "n div 8 = 0 \<or> n div 8 = 1 \<or> n div 8 = 2 \<or> n div 8 = 3" by (simp, linarith)
  note p = bit_le_piece [OF n, of _ v]
  show "bit ?w n = bit v n"
    using q p [of 0] p [of 1] p [of 2] p [of 3] unfolding bit_or_iff le_bytes32_def by auto
qed

lemma le_bytes64_join:
  "(push_bit 0 (ucast (le_bytes64 v ! 0)) :: u64) OR push_bit 8 (ucast (le_bytes64 v ! 1))
     OR push_bit 16 (ucast (le_bytes64 v ! 2)) OR push_bit 24 (ucast (le_bytes64 v ! 3))
     OR push_bit 32 (ucast (le_bytes64 v ! 4)) OR push_bit 40 (ucast (le_bytes64 v ! 5))
     OR push_bit 48 (ucast (le_bytes64 v ! 6)) OR push_bit 56 (ucast (le_bytes64 v ! 7)) = v"
  (is "?w = v")
proof (rule bit_word_eqI)
  fix n
  assume n: "n < LENGTH(64)"
  then have q: "n div 8 = 0 \<or> n div 8 = 1 \<or> n div 8 = 2 \<or> n div 8 = 3
      \<or> n div 8 = 4 \<or> n div 8 = 5 \<or> n div 8 = 6 \<or> n div 8 = 7" by (simp, linarith)
  note p = bit_le_piece [OF n, of _ v]
  show "bit ?w n = bit v n"
    using q p [of 0] p [of 1] p [of 2] p [of 3] p [of 4] p [of 5] p [of 6] p [of 7]
    unfolding bit_or_iff le_bytes64_def by auto
qed

text \<open>The encodings of a value by wire type.\<close>

definition wire_value :: "u32 \<Rightarrow> bytes \<Rightarrow> bool" where
  "wire_value w bs \<longleftrightarrow>
     (w = PB_WT_VARINT \<and> varint_form bs) \<or> (w = PB_WT_64BIT \<and> length bs = 8)
     \<or> (w = PB_WT_STRING \<and> (\<exists>body. bs = varint (length body) @ body \<and> length body < 2 ^ 32))
     \<or> (w = PB_WT_32BIT \<and> length bs = 4)"

lemmas wire_types = PB_WT_VARINT_def PB_WT_64BIT_def PB_WT_STRING_def PB_WT_32BIT_def

section \<open>The contract of a read callback\<close>

locale pb_source =
  fixes cb :: "'s pb_callback" and contents :: "'s \<Rightarrow> bytes"
  assumes read: "n \<le> length (contents s) \<Longrightarrow>
    \<exists>s'. cb_read cb s n = (Some (take n (contents s)), s') \<and> contents s' = drop n (contents s)"
begin

definition view :: "'s pb_istream \<Rightarrow> bytes" where
  "view st = take (is_left st) (contents (is_state st))"

definition wf :: "'s pb_istream \<Rightarrow> bool" where
  "wf st \<longleftrightarrow> is_left st \<le> length (contents (is_state st))"

text \<open>\<open>reads st bs st'\<close>: \<open>bs\<close> was consumed and no error was set.\<close>

definition reads :: "'s pb_istream \<Rightarrow> bytes \<Rightarrow> 's pb_istream \<Rightarrow> bool" where
  "reads st bs st' \<longleftrightarrow> wf st' \<and> view st = bs @ view st' \<and> is_errmsg st' = is_errmsg st
     \<and> is_left st = length bs + is_left st'
     \<and> contents (is_state st) = bs @ contents (is_state st')"

lemma length_view: "wf st \<Longrightarrow> length (view st) = is_left st"
  by (simp add: wf_def view_def)

lemma reads_trans: "reads st xs st1 \<Longrightarrow> reads st1 ys st2 \<Longrightarrow> reads st (xs @ ys) st2"
  by (auto simp: reads_def)

lemma reads_wf: "reads st xs st' \<Longrightarrow> wf st'"
  by (simp add: reads_def)

lemma reads_view: "reads st xs st' \<Longrightarrow> view st = xs @ ys \<Longrightarrow> view st' = ys"
  by (auto simp: reads_def)

lemma read_some:
  assumes "wf st" "n \<le> is_left st"
  shows "\<exists>st'. pb_read_some cb st n = (Some (take n (view st)), st') \<and> reads st (take n (view st)) st'"
proof -
  have n: "n \<le> length (contents (is_state st))" using assms by (simp add: wf_def)
  obtain s' where s': "cb_read cb (is_state st) n = (Some (take n (contents (is_state st))), s')"
    "contents s' = drop n (contents (is_state st))"
    using read [OF n] by blast
  have v: "take n (contents (is_state st)) = take n (view st)" using assms(2) by (simp add: view_def min_def)
  have "reads st (take n (view st)) (st\<lparr>is_state := s', is_left := is_left st - n\<rparr>)"
  proof -
    have "wf (st\<lparr>is_state := s', is_left := is_left st - n\<rparr>)" using assms s'(2) by (simp add: wf_def)
    moreover have "view (st\<lparr>is_state := s', is_left := is_left st - n\<rparr>) = drop n (view st)"
      by (simp add: view_def s'(2) drop_take)
    moreover have "contents (is_state st) = take n (view st) @ contents s'"
      unfolding v [symmetric] s'(2) by simp
    ultimately show ?thesis using assms length_view [OF assms(1)] by (simp add: reads_def)
  qed
  then show ?thesis using s'(1) v assms(2) by (simp add: pb_read_some_def)
qed

lemma read_some_short: "is_left st < n \<Longrightarrow> pb_read_some cb st n = (None, set_error st ''end-of-stream'')"
  by (simp add: pb_read_some_def)

lemma readbyte_Cons:
  assumes "wf st" "view st = b # bs"
  shows "\<exists>st'. pb_readbyte cb st = (Some b, st') \<and> reads st [b] st'"
proof -
  have "1 \<le> is_left st" using length_view [OF assms(1)] assms(2) by simp
  from read_some [OF assms(1) this] obtain st' where
    "pb_read_some cb st 1 = (Some [b], st')" "reads st [b] st'" using assms(2) by auto
  moreover have "pb_readbyte cb st = (case pb_read_some cb st 1 of (None, st') \<Rightarrow> (None, st') | (Some b, st') \<Rightarrow> (Some (b ! 0), st'))"
    by (auto simp: pb_readbyte_def pb_read_some_def split: prod.split option.split)
  ultimately show ?thesis by simp
qed

lemma readbyte_Nil: "wf st \<Longrightarrow> view st = [] \<Longrightarrow> pb_readbyte cb st = (None, set_error st ''end-of-stream'')"
  using length_view [of st] by (simp add: pb_readbyte_def)

text \<open>Skipping is reading, whatever the callback.\<close>

lemma skip_some:
  "wf st \<Longrightarrow> n \<le> is_left st \<Longrightarrow> \<exists>r st'. pb_skip_some cb st n = (Some r, st') \<and> reads st (take n (view st)) st'"
proof (induction n arbitrary: st rule: less_induct)
  case (less n)
  show ?case
  proof (cases "n > 16")
    case False
    then show ?thesis using read_some [OF less.prems] by (auto simp: pb_skip_some.simps [of cb])
  next
    case True
    then have "16 \<le> is_left st" using less.prems(2) by simp
    then obtain st1 where st1: "pb_read_some cb st 16 = (Some (take 16 (view st)), st1)" "reads st (take 16 (view st)) st1"
      using read_some [OF less.prems(1)] by blast
    have l: "n - 16 \<le> is_left st1" using st1(2) less.prems length_view [OF less.prems(1)] by (auto simp: reads_def)
    obtain r st2 where st2: "pb_skip_some cb st1 (n - 16) = (Some r, st2)" "reads st1 (take (n - 16) (view st1)) st2"
      using less.IH [OF _ reads_wf [OF st1(2)] l] True by auto
    have v: "view st1 = drop 16 (view st)" using reads_view [OF st1(2), of "drop 16 (view st)"] by simp
    have "take 16 (view st) @ take (n - 16) (view st1) = take n (view st)"
      using True unfolding v by (metis le_add_diff_inverse less_imp_le take_add)
    then show ?thesis using reads_trans [OF st1(2) st2(2)] st1(1) st2(1) True
      by (auto simp: pb_skip_some.simps [of cb st n])
  qed
qed

lemma read_any:
  "wf st \<Longrightarrow> n \<le> is_left st \<Longrightarrow> \<exists>r st'. pb_read cb st null n = (Some r, st') \<and> reads st (take n (view st)) st'
    \<and> (\<not> null \<longrightarrow> r = take n (view st))"
  using read_some [of st n] skip_some [of st n] unfolding pb_read_def by auto

section \<open>Decoding varints\<close>

lemma varint_loop_run:
  "wf st \<Longrightarrow> view st = bs @ rest \<Longrightarrow> varint_form bs \<Longrightarrow> k + length bs \<le> 10 \<Longrightarrow> unat bp = 7 * k \<Longrightarrow>
    unat r < 2 ^ (7 * k) \<Longrightarrow>
    \<exists>st'. varint_loop cb st r bp = (Some (r + 2 ^ (7 * k) * of_nat (varint_val bs)), st') \<and> reads st bs st'"
proof (induction bs arbitrary: st k r bp)
  case (Cons b bs)
  have k: "k \<le> 9" using Cons.prems(4) by simp
  obtain st1 where st1: "pb_readbyte cb st = (Some b, st1)" "reads st [b] st1"
    using readbyte_Cons [OF Cons.prems(1)] Cons.prems(2) by auto
  define r' where "r' = r OR push_bit (unat bp) (ucast (b AND 0x7f :: u8))"
  note V = varint_step [OF Cons.prems(5) k Cons.prems(6) r'_def]
  have step: "varint_loop cb st r bp =
    (if b AND 0x80 \<noteq> 0 then varint_loop cb st1 r' (bp + 7) else (Some r', st1))"
    using V(1) st1(1) by (subst varint_loop.simps) (simp add: r'_def Let_def)
  show ?case
  proof (cases "bs = []")
    case True
    then have "b AND 0x80 = 0" using Cons.prems(3) u8_high_bit [of b] by simp
    with step st1(2) True V(3) show ?thesis by simp
  next
    case False
    then have hi: "128 \<le> unat b" "varint_form bs" using Cons.prems(3) by (simp_all add: varint_form_Cons)
    then have "b AND 0x80 \<noteq> 0" using u8_high_bit [of b] by simp
    have "k \<le> 8" using Cons.prems(4) False by (cases bs) simp_all
    have "view st1 = bs @ rest" using reads_view [OF st1(2)] Cons.prems(2) by simp
    then obtain st2 where st2: "varint_loop cb st1 r' (bp + 7) =
        (Some (r' + 2 ^ (7 * Suc k) * of_nat (varint_val bs)), st2)" "reads st1 bs st2"
      using Cons.IH [OF reads_wf [OF st1(2)] _ hi(2) _ V(2) V(4) [OF \<open>k \<le> 8\<close>]] Cons.prems(4) by auto
    have "r' + 2 ^ (7 * Suc k) * of_nat (varint_val bs) = r + 2 ^ (7 * k) * of_nat (varint_val (b # bs))"
      unfolding V(3) by (simp add: power_add algebra_simps)
    then show ?thesis
      using step \<open>b AND 0x80 \<noteq> 0\<close> st2 reads_trans [OF st1(2) st2(2)] by simp
  qed
qed simp

lemma decode_varint_run:
  assumes "wf st" "view st = bs @ rest" "varint_form bs" "length bs \<le> 10"
  shows "\<exists>st'. pb_decode_varint cb st = (Some (of_nat (varint_val bs)), st') \<and> reads st bs st'"
  using varint_loop_run [OF assms(1-3), of 0 0 0] assms(4) by (simp add: pb_decode_varint_def)

text \<open>More than ten bytes are an overflow, fewer than the varint has an end of the stream.\<close>

lemma varint_loop_fails:
  "wf st \<Longrightarrow> view st = bs @ rest \<Longrightarrow> \<forall>b\<in>set bs. 128 \<le> unat b \<Longrightarrow> k + length bs \<le> 10 \<Longrightarrow> unat bp = 7 * k \<Longrightarrow>
    unat r < 2 ^ (7 * k) \<Longrightarrow> k + length bs = 10 \<or> rest = [] \<Longrightarrow>
    \<exists>st'. varint_loop cb st r bp = (None, set_error st'
       (if k + length bs = 10 then ''varint overflow'' else ''end-of-stream'')) \<and> reads st bs st'"
proof (induction bs arbitrary: st k r bp)
  case Nil
  have "reads st [] st" using Nil(1) by (simp add: reads_def)
  moreover have "64 \<le> 7 * k \<longleftrightarrow> k = 10" using Nil.prems(4) by auto
  then have "bp \<ge> 64 \<longleftrightarrow> k = 10" using Nil.prems(5) by (simp add: word_le_nat_alt)
  ultimately show ?case
    using Nil.prems readbyte_Nil [of st] by (subst varint_loop.simps) auto
next
  case (Cons b bs)
  have k: "k \<le> 9" using Cons.prems(4) by simp
  obtain st1 where st1: "pb_readbyte cb st = (Some b, st1)" "reads st [b] st1"
    using readbyte_Cons [OF Cons.prems(1)] Cons.prems(2) by auto
  define r' where "r' = r OR push_bit (unat bp) (ucast (b AND 0x7f :: u8))"
  note V = varint_step [OF Cons.prems(5) k Cons.prems(6) r'_def]
  have hi: "b AND 0x80 \<noteq> 0" using Cons.prems(3) u8_high_bit [of b] by simp
  have step: "varint_loop cb st r bp = varint_loop cb st1 r' (bp + 7)"
    using V(1) st1(1) hi by (subst varint_loop.simps) (simp add: r'_def Let_def)
  have v1: "view st1 = bs @ rest" using reads_view [OF st1(2)] Cons.prems(2) by simp
  have r1: "unat r' < 2 ^ (7 * Suc k)"
  proof (cases "k \<le> 8")
    case False
    then have "k = 9" using k by simp
    have "(2 :: nat) ^ 64 \<le> 2 ^ (7 * Suc 9)" by (intro power_increasing) simp_all
    with \<open>k = 9\<close> show ?thesis using unat_u64_lt [of r'] less_le_trans by blast
  qed (rule V(4))
  obtain st2 where "varint_loop cb st1 r' (bp + 7) = (None, set_error st2
      (if Suc k + length bs = 10 then ''varint overflow'' else ''end-of-stream''))" "reads st1 bs st2"
    using Cons.IH [OF reads_wf [OF st1(2)] v1 _ _ V(2) r1] Cons.prems(3,4,7) by auto
  then show ?case using step reads_trans [OF st1(2)] by auto
qed

lemma varint32_loop_run:
  "wf st \<Longrightarrow> view st = bs @ rest \<Longrightarrow> varint_form bs \<Longrightarrow> k + length bs \<le> 5 \<Longrightarrow> unat bp = 7 * k \<Longrightarrow>
    unat r < 2 ^ (7 * k) \<Longrightarrow> unat r + 2 ^ (7 * k) * varint_val bs < 2 ^ 32 \<Longrightarrow>
    \<exists>st'. varint32_loop cb st r bp = (Some (of_nat (unat r + 2 ^ (7 * k) * varint_val bs)), st') \<and> reads st bs st'"
proof (induction bs arbitrary: st k r bp)
  case (Cons b bs)
  have k: "k \<le> 4" using Cons.prems(4) by simp
  obtain st1 where st1: "pb_readbyte cb st = (Some b, st1)" "reads st [b] st1"
    using readbyte_Cons [OF Cons.prems(1)] Cons.prems(2) by auto
  define r' where "r' = r OR push_bit (unat bp) (ucast (b AND 0x7f :: u8))"
  have total: "unat r + 2 ^ (7 * k) * varint_val (b # bs)
      = unat r + 2 ^ (7 * k) * (unat b mod 128) + 2 ^ (7 * Suc k) * varint_val bs"
    by (simp add: power_add algebra_simps)
  then have small: "unat r + 2 ^ (7 * k) * (unat b mod 128) < 2 ^ 32" using Cons.prems(7) by linarith
  note V = varint32_step [OF Cons.prems(5) k Cons.prems(6) r'_def small]
  have step: "varint32_loop cb st r bp =
    (if b AND 0x80 \<noteq> 0 then varint32_loop cb st1 r' (bp + 7)
     else if bp + 7 = 35 \<and> b AND 0x70 \<noteq> 0 then (None, set_error st1 ''varint overflow'')
     else (Some r', st1))"
    using V(1) st1(1) by (subst varint32_loop.simps) (simp add: r'_def Let_def)
  show ?case
  proof (cases "bs = []")
    case True
    then have lo: "unat b < 128" using Cons.prems(3) by simp
    then have "b AND 0x80 = 0" using u8_high_bit [of b] by simp
    moreover have "b AND 0x70 = 0" if "bp + 7 = 35"
    proof (rule u8_0x70)
      have "7 * Suc k = 35" using V(2) that by simp
      then have "k = 4" by simp
      then show "unat b < 16" using Cons.prems(7) True lo by simp
    qed
    moreover have "r' = of_nat (unat r + 2 ^ (7 * k) * (unat b mod 128))" using V(3) by (rule word_eq_of_nat)
    ultimately show ?thesis using step st1(2) True by auto
  next
    case False
    then have hi: "128 \<le> unat b" "varint_form bs" using Cons.prems(3) by (simp_all add: varint_form_Cons)
    then have "b AND 0x80 \<noteq> 0" using u8_high_bit [of b] by simp
    have v1: "view st1 = bs @ rest" using reads_view [OF st1(2)] Cons.prems(2) by simp
    have tot: "unat r' + 2 ^ (7 * Suc k) * varint_val bs = unat r + 2 ^ (7 * k) * varint_val (b # bs)"
      unfolding V(3) total ..
    have "unat r' + 2 ^ (7 * Suc k) * varint_val bs < 2 ^ 32" unfolding tot by (rule Cons.prems(7))
    moreover have "Suc k + length bs \<le> 5" using Cons.prems(4) by simp
    ultimately obtain st2 where st2: "varint32_loop cb st1 r' (bp + 7) =
        (Some (of_nat (unat r' + 2 ^ (7 * Suc k) * varint_val bs)), st2)" "reads st1 bs st2"
      using Cons.IH [OF reads_wf [OF st1(2)] v1 hi(2) _ V(2,4)] by blast
    show ?thesis
      using step \<open>b AND 0x80 \<noteq> 0\<close> st2(1) reads_trans [OF st1(2) st2(2)] unfolding tot by simp
  qed
qed simp

lemma decode_varint32_eof_run:
  assumes "wf st" "view st = varint n @ rest" "n < 2 ^ 32"
  shows "\<exists>st'. pb_decode_varint32_eof cb st = (Some (of_nat n), False, st') \<and> reads st (varint n) st'"
proof (cases "n < 128")
  case True
  then have v: "varint n = [of_nat n]" by (simp add: varint.simps [of n])
  obtain st1 where st1: "pb_readbyte cb st = (Some (of_nat n), st1)" "reads st [of_nat n] st1"
    using readbyte_Cons [OF assms(1)] assms(2) v by auto
  have u: "unat (of_nat n :: u8) = n" using True by (intro unat_of_nat_u8) simp
  then have "(of_nat n :: u8) AND 0x80 = 0" using True u8_high_bit [of "of_nat n"] by simp
  moreover have "unat (ucast (of_nat n :: u8) :: u32) = n" using u by (simp add: unat_ucast_up)
  then have "(ucast (of_nat n :: u8) :: u32) = of_nat n" by (rule word_eq_of_nat)
  ultimately show ?thesis using st1 v by (auto simp: pb_decode_varint32_eof_def)
next
  case False
  define b where "b = (of_nat (128 + n mod 128) :: u8)"
  have ub: "unat b = 128 + n mod 128" unfolding b_def by (rule unat_of_nat_u8) simp
  have v: "varint n = b # varint (n div 128)" using False by (simp add: varint.simps [of n] b_def)
  obtain st1 where st1: "pb_readbyte cb st = (Some b, st1)" "reads st [b] st1"
    using readbyte_Cons [OF assms(1)] assms(2) v by auto
  have hi: "b AND 0x80 \<noteq> 0" using ub u8_high_bit [of b] by simp
  define r where "r = (ucast (b AND 0x7f) :: u32)"
  have ur: "unat r = n mod 128" using ub u8_low7 [of b] by (simp add: r_def unat_ucast_up)
  have tot: "unat r + 2 ^ (7 * 1) * varint_val (varint (n div 128)) = n"
    by (simp add: ur varint_val_varint)
  have "n div 128 < 128 ^ 4" using assms(3) by (simp add: less_mult_imp_div_less)
  then have len: "1 + length (varint (n div 128)) \<le> 5" using length_varint [of "n div 128" 4] by simp
  have v1: "view st1 = varint (n div 128) @ rest" using reads_view [OF st1(2)] assms(2) v by simp
  obtain st2 where st2: "varint32_loop cb st1 r 7 = (Some (of_nat n), st2)" "reads st1 (varint (n div 128)) st2"
  proof -
    have c: "unat (7 :: u8) = 7 * 1" "unat r < 2 ^ (7 * 1)" using ur by simp_all
    have "unat r + 2 ^ (7 * 1) * varint_val (varint (n div 128)) < 2 ^ 32" unfolding tot by (rule assms(3))
    from varint32_loop_run [OF reads_wf [OF st1(2)] v1 varint_form_varint len c this] that
    show thesis unfolding tot by blast
  qed
  then show ?thesis
    using st1(1) hi reads_trans [OF st1(2) st2(2)] v by (simp add: pb_decode_varint32_eof_def r_def)
qed

lemma decode_varint32_run:
  assumes "wf st" "view st = varint n @ rest" "n < 2 ^ 32"
  shows "\<exists>st'. pb_decode_varint32 cb st = (Some (of_nat n), st') \<and> reads st (varint n) st'"
  using decode_varint32_eof_run [OF assms] by (auto simp: pb_decode_varint32_def)

section \<open>Skipping\<close>

lemma skip_varint_run:
  "wf st \<Longrightarrow> view st = bs @ rest \<Longrightarrow> varint_form bs \<Longrightarrow>
    \<exists>st'. pb_skip_varint cb st = (True, st') \<and> reads st bs st'"
proof (induction bs arbitrary: st)
  case (Cons b bs)
  have "1 \<le> is_left st" using length_view [OF Cons.prems(1)] Cons.prems(2) by simp
  then obtain st1 where st1: "pb_read_some cb st 1 = (Some [b], st1)" "reads st [b] st1"
    using read_some [OF Cons.prems(1)] Cons.prems(2) by fastforce
  show ?case
  proof (cases "bs = []")
    case True
    then have "b AND 0x80 = 0" using Cons.prems(3) u8_high_bit [of b] by simp
    with st1 True show ?thesis by (subst pb_skip_varint.simps) auto
  next
    case False
    then have hi: "b AND 0x80 \<noteq> 0" "varint_form bs"
      using Cons.prems(3) u8_high_bit [of b] by (simp_all add: varint_form_Cons)
    have v1: "view st1 = bs @ rest" using reads_view [OF st1(2)] Cons.prems(2) by simp
    obtain st2 where st2: "pb_skip_varint cb st1 = (True, st2)" "reads st1 bs st2"
      using Cons.IH [OF reads_wf [OF st1(2)] v1 hi(2)] by blast
    have "reads st ([b] @ bs) st2" by (rule reads_trans [OF st1(2) st2(2)])
    then show ?thesis using st1(1) st2(1) hi(1) by (subst pb_skip_varint.simps) auto
  qed
qed simp

lemma read_null_run:
  assumes "wf st" "view st = bs @ rest"
  shows "\<exists>r st'. pb_read cb st True (length bs) = (Some r, st') \<and> reads st bs st'"
proof -
  have "length bs \<le> is_left st" using length_view [OF assms(1)] assms(2) by simp
  from read_any [OF assms(1) this, of True] assms(2) show ?thesis by auto
qed

lemma skip_string_run:
  assumes "wf st" "view st = varint (length body) @ body @ rest" "length body < 2 ^ 32"
  shows "\<exists>st'. pb_skip_string cb st = (True, st') \<and> reads st (varint (length body) @ body) st'"
proof -
  obtain st1 where st1: "pb_decode_varint32 cb st = (Some (of_nat (length body)), st1)" "reads st (varint (length body)) st1"
    using decode_varint32_run [OF assms(1,2,3)] by blast
  obtain r st2 where st2: "pb_read cb st1 True (length body) = (Some r, st2)" "reads st1 body st2"
    using read_null_run [OF reads_wf [OF st1(2)] reads_view [OF st1(2) assms(2)]] by blast
  have "unat (of_nat (length body) :: u32) = length body" using assms(3) by (simp add: unat_of_nat)
  then show ?thesis using st1(1) st2(1) reads_trans [OF st1(2) st2(2)] by (simp add: pb_skip_string_def)
qed

lemma skip_field_run:
  assumes "wf st" "view st = bs @ rest" "wire_value w bs"
  shows "\<exists>st'. pb_skip_field cb st w = (True, st') \<and> reads st bs st'"
proof -
  consider "w = PB_WT_VARINT" "varint_form bs" | "w = PB_WT_64BIT" "length bs = 8"
    | body where "w = PB_WT_STRING" "bs = varint (length body) @ body" "length body < 2 ^ 32"
    | "w = PB_WT_32BIT" "length bs = 4"
    using assms(3) by (auto simp: wire_value_def)
  then show ?thesis
  proof cases
    case 1
    then show ?thesis using skip_varint_run [OF assms(1,2)] by (simp add: pb_skip_field_def)
  next
    case 2
    then show ?thesis using read_null_run [OF assms(1,2)] by (auto simp: pb_skip_field_def wire_types)
  next
    case 3
    then have "view st = varint (length body) @ body @ rest" using assms(2) by simp
    from skip_string_run [OF assms(1) this 3(3)] 3 show ?thesis by (simp add: pb_skip_field_def wire_types)
  next
    case 4
    then show ?thesis using read_null_run [OF assms(1,2)] by (auto simp: pb_skip_field_def wire_types)
  qed
qed

lemma decode_tag_run:
  assumes "wf st" "view st = varint (8 * f + w) @ rest" "0 < 8 * f + w" "8 * f + w < 2 ^ 32" "w < 8"
  shows "\<exists>st'. pb_decode_tag cb st = (Inr (of_nat w, of_nat f), st') \<and> reads st (varint (8 * f + w)) st'"
proof -
  define t where "t = (of_nat (8 * f + w) :: u32)"
  have ut: "unat t = 8 * f + w" unfolding t_def using assms(4) by (simp only: unat_of_nat) simp
  obtain st1 where st1: "pb_decode_varint32_eof cb st = (Some t, False, st1)" "reads st (varint (8 * f + w)) st1"
    using decode_varint32_eof_run [OF assms(1,2,4)] unfolding t_def by blast
  have m7: "(7 :: u32) = mask 3" by (simp add: mask_eq_exp_minus_1)
  have "unat (t AND 7) = w" unfolding m7 by (simp only: unat_and_mask ut) (use assms(5) in simp)
  then have w: "t AND 7 = of_nat w" by (rule word_eq_of_nat)
  have "unat (drop_bit 3 t) = f" using assms(5) by (simp add: unat_drop_bit ut)
  then have f: "drop_bit 3 t = of_nat f" by (rule word_eq_of_nat)
  have "t \<noteq> 0" using ut assms(3) by (metis less_irrefl unat_0)
  then show ?thesis using st1 w f by (simp add: pb_decode_tag_def)
qed

section \<open>Substreams\<close>

lemma make_substream_run:
  assumes "wf st" "view st = varint (length body) @ body @ rest" "length body < 2 ^ 32"
  shows "\<exists>sub st'. pb_make_string_substream cb st = (Some sub, st') \<and> wf sub \<and> view sub = body
    \<and> is_errmsg sub = is_errmsg st
    \<and> (\<forall>sub' xs. reads sub xs sub' \<longrightarrow> (\<exists>st''. pb_close_string_substream cb st' sub' = (True, st'')
         \<and> reads st (varint (length body) @ body) st''))"
proof -
  obtain st1 where st1: "pb_decode_varint32 cb st = (Some (of_nat (length body)), st1)" "reads st (varint (length body)) st1"
    using decode_varint32_run [OF assms(1,2,3)] by blast
  have u: "unat (of_nat (length body) :: u32) = length body" using assms(3) by (simp add: unat_of_nat)
  have v1: "view st1 = body @ rest" using reads_view [OF st1(2) assms(2)] .
  have w1: "wf st1" using st1(2) by (rule reads_wf)
  have l1: "is_left st1 = length body + length rest" using length_view [OF w1] v1 by simp
  define sub where "sub = st1\<lparr>is_left := length body\<rparr>"
  define st' where "st' = st1\<lparr>is_left := is_left st1 - length body\<rparr>"
  have mk: "pb_make_string_substream cb st = (Some sub, st')"
    using st1(1) l1 u by (simp add: pb_make_string_substream_def sub_def st'_def)
  have c1: "contents (is_state st1) = body @ rest @ drop (is_left st1) (contents (is_state st1))"
    using v1 append_take_drop_id [of "is_left st1" "contents (is_state st1)"] unfolding view_def by simp
  then obtain tl where c1: "contents (is_state st1) = body @ rest @ tl" by blast
  have ws: "wf sub" "view sub = body" using c1 by (simp_all add: wf_def view_def sub_def)
  have close: "\<exists>st''. pb_close_string_substream cb st' sub' = (True, st'') \<and> reads st (varint (length body) @ body) st''"
    if sub': "reads sub xs sub'" for sub' xs
  proof -
    have r: "is_left sub' = length (view sub')" "view sub' @ rest @ tl = contents (is_state sub')"
      "xs @ view sub' = body" "is_errmsg sub' = is_errmsg st1"
    proof -
      show "is_left sub' = length (view sub')" using length_view [OF reads_wf [OF sub']] by simp
      show b: "xs @ view sub' = body" using sub' ws(2) by (simp add: reads_def)
      have "contents (is_state sub) = body @ rest @ tl" using c1 by (simp add: sub_def)
      then have "xs @ view sub' @ rest @ tl = xs @ contents (is_state sub')"
        using sub' b by (metis append_assoc reads_def)
      then show "view sub' @ rest @ tl = contents (is_state sub')" by simp
      show "is_errmsg sub' = is_errmsg st1" using sub' by (simp add: reads_def sub_def)
    qed
    obtain q sub2 where q: "(if is_left sub' \<noteq> 0 then pb_read cb sub' True (is_left sub') else (Some [], sub')) = (Some q, sub2)"
      "contents (is_state sub2) = rest @ tl" "is_errmsg sub2 = is_errmsg st1"
    proof (cases "is_left sub' = 0")
      case True
      then show thesis using that [of "[]" sub'] r by simp
    next
      case False
      obtain q sub2 where "pb_read cb sub' True (length (view sub')) = (Some q, sub2)" "reads sub' (view sub') sub2"
        using read_null_run [OF reads_wf [OF sub'], of "view sub'" "[]"] by auto
      moreover have "contents (is_state sub2) = rest @ tl"
        using \<open>reads sub' (view sub') sub2\<close> r(2) by (metis reads_def same_append_eq)
      moreover have "is_errmsg sub2 = is_errmsg st1" using \<open>reads sub' (view sub') sub2\<close> r(4) by (simp add: reads_def)
      ultimately show thesis using that [of q sub2] False r(1) by simp
    qed
    define st'' where "st'' = st'\<lparr>is_state := is_state sub2, is_errmsg := is_errmsg sub2\<rparr>"
    have "pb_close_string_substream cb st' sub' = (True, st'')"
      unfolding pb_close_string_substream_def q(1) st''_def by simp
    moreover have "reads st1 body st''"
      using l1 c1 q(2,3) v1 by (simp add: reads_def st''_def st'_def wf_def view_def)
    then have "reads st (varint (length body) @ body) st''" by (rule reads_trans [OF st1(2)])
    ultimately show ?thesis by blast
  qed
  have "is_errmsg sub = is_errmsg st" using st1(2) by (simp add: sub_def reads_def)
  with mk ws close show ?thesis by blast
qed

section \<open>Zigzag and fixed-width values\<close>

lemma decode_svarint_run:
  assumes "wf st" "view st = varint (unat z) @ rest"
  shows "\<exists>st'. pb_decode_svarint cb st = (Some (if z AND 1 \<noteq> 0 then NOT (drop_bit 1 z) else drop_bit 1 z), st')
    \<and> reads st (varint (unat z)) st'"
proof -
  have "unat z < 128 ^ 10" using unat_u64_lt [of z] by simp
  then have "length (varint (unat z)) \<le> 10" by (intro length_varint) simp_all
  from decode_varint_run [OF assms varint_form_varint this] show ?thesis
    by (auto simp: pb_decode_svarint_def varint_val_varint)
qed

lemma read_bytes_run:
  assumes "wf st" "view st = bs @ rest"
  shows "\<exists>st'. pb_read cb st False (length bs) = (Some bs, st') \<and> reads st bs st'"
proof -
  have "length bs \<le> is_left st" using length_view [OF assms(1)] assms(2) by simp
  from read_any [OF assms(1) this, of False] assms(2) show ?thesis by auto
qed

lemma decode_fixed32_run:
  assumes "wf st" "view st = le_bytes32 v @ rest"
  shows "\<exists>st'. pb_decode_fixed32 cb st = (Some v, st') \<and> reads st (le_bytes32 v) st'"
proof -
  obtain st' where st': "pb_read cb st False 4 = (Some (le_bytes32 v), st')" "reads st (le_bytes32 v) st'"
    using read_bytes_run [OF assms] by (auto simp: length_le_bytes)
  then show ?thesis by (simp add: pb_decode_fixed32_def le_bytes32_join [simplified])
qed

lemma decode_fixed64_run:
  assumes "wf st" "view st = le_bytes64 v @ rest"
  shows "\<exists>st'. pb_decode_fixed64 cb st = (Some v, st') \<and> reads st (le_bytes64 v) st'"
proof -
  obtain st' where st': "pb_read cb st False 8 = (Some (le_bytes64 v), st')" "reads st (le_bytes64 v) st'"
    using read_bytes_run [OF assms] by (auto simp: length_le_bytes)
  then show ?thesis by (simp add: pb_decode_fixed64_def le_bytes64_join [simplified])
qed

end

text \<open>The buffer callback of the library meets the contract.\<close>

interpretation buf_source: pb_source buf_callback "\<lambda>s. s"
  by unfold_locales (simp add: buf_callback_def buf_read_def)

lemma buffer_stream:
  "n \<le> length buf \<Longrightarrow> buf_source.wf (pb_istream_from_buffer buf n)"
  "buf_source.view (pb_istream_from_buffer buf n) = take n buf"
  by (simp_all add: buf_source.wf_def buf_source.view_def pb_istream_from_buffer_def)

end
