(* ===== verification/Nanopb_Encode.thy ===== *)
theory Nanopb_Encode
  imports Nanopb_Decode_Correct
begin

text \<open>
  The output side of \<open>nanopb/pb_encode.c\<close>: the stream with its write callback, varints,
  zigzag, fixed-width values, tags, strings and the integer field encoders, and the round
  trips with the input side.

  A null callback makes a stream that only counts; here it is \<open>None\<close>.
\<close>

section \<open>Streams\<close>

type_synonym 's pb_writer = "'s \<Rightarrow> bytes \<Rightarrow> bool \<times> 's"

record 's pb_ostream =
  os_state :: 's
  os_max_size :: nat
  os_written :: nat
  os_errmsg :: "string option"

definition os_error :: "'s pb_ostream \<Rightarrow> string \<Rightarrow> 's pb_ostream" where
  "os_error st msg = st\<lparr>os_errmsg := (case os_errmsg st of None \<Rightarrow> Some msg | Some m \<Rightarrow> Some m)\<rparr>"

text \<open>The state of \<open>buf_write\<close> is a pointer into the output buffer: the buffer and an offset.\<close>

definition buf_write :: "(bytes \<times> nat) pb_writer" where
  "buf_write dest data = (case dest of (buf, off) \<Rightarrow> (True, blit buf off data, off + length data))"

definition pb_ostream_from_buffer :: "bytes \<Rightarrow> nat \<Rightarrow> (bytes \<times> nat) pb_ostream" where
  "pb_ostream_from_buffer buf bufsize =
     \<lparr>os_state = (buf, 0), os_max_size = bufsize, os_written = 0, os_errmsg = None\<rparr>"

definition pb_write :: "'s pb_writer option \<Rightarrow> 's pb_ostream \<Rightarrow> bytes \<Rightarrow> bool \<times> 's pb_ostream" where
  "pb_write cb st data =
     (case cb of
        None \<Rightarrow> (True, st\<lparr>os_written := size_add (os_written st) (length data)\<rparr>)
      | Some wr \<Rightarrow>
          if size_add (os_written st) (length data) > os_max_size st then (False, os_error st ''stream full'')
          else (case wr (os_state st) data of
                  (False, s) \<Rightarrow> (False, os_error (st\<lparr>os_state := s\<rparr>) ''io error'')
                | (True, s) \<Rightarrow> (True, st\<lparr>os_state := s, os_written := size_add (os_written st) (length data)\<rparr>)))"

section \<open>Values\<close>

function varint_groups :: "u64 \<Rightarrow> bytes" where
  "varint_groups v = (if v = 0 then [] else ucast (v AND 0x7f OR 0x80) # varint_groups (drop_bit 7 v))"
  by pat_completeness auto
termination
  by (relation "measure unat") (auto simp: unat_drop_bit unat_gt_0)

declare varint_groups.simps [simp del]

definition pb_encode_varint :: "'s pb_writer option \<Rightarrow> 's pb_ostream \<Rightarrow> u64 \<Rightarrow> bool \<times> 's pb_ostream" where
  "pb_encode_varint cb st v =
     (if v \<le> 0x7f then pb_write cb st [ucast v]
      else let buffer = varint_groups v; i = length buffer in
        pb_write cb st (buffer[i - 1 := buffer ! (i - 1) AND 0x7f]))"

text \<open>The argument is the two's complement of the signed value.\<close>

definition pb_encode_svarint :: "'s pb_writer option \<Rightarrow> 's pb_ostream \<Rightarrow> u64 \<Rightarrow> bool \<times> 's pb_ostream" where
  "pb_encode_svarint cb st v =
     pb_encode_varint cb st (if sint v < 0 then NOT (push_bit 1 v) else push_bit 1 v)"

definition pb_encode_fixed32 :: "'s pb_writer option \<Rightarrow> 's pb_ostream \<Rightarrow> u32 \<Rightarrow> bool \<times> 's pb_ostream" where
  "pb_encode_fixed32 cb st v =
     pb_write cb st [ucast (v AND 0xff), ucast (drop_bit 8 v AND 0xff),
       ucast (drop_bit 16 v AND 0xff), ucast (drop_bit 24 v AND 0xff)]"

definition pb_encode_fixed64 :: "'s pb_writer option \<Rightarrow> 's pb_ostream \<Rightarrow> u64 \<Rightarrow> bool \<times> 's pb_ostream" where
  "pb_encode_fixed64 cb st v =
     pb_write cb st [ucast (v AND 0xff), ucast (drop_bit 8 v AND 0xff),
       ucast (drop_bit 16 v AND 0xff), ucast (drop_bit 24 v AND 0xff),
       ucast (drop_bit 32 v AND 0xff), ucast (drop_bit 40 v AND 0xff),
       ucast (drop_bit 48 v AND 0xff), ucast (drop_bit 56 v AND 0xff)]"

definition pb_encode_tag :: "'s pb_writer option \<Rightarrow> 's pb_ostream \<Rightarrow> u32 \<Rightarrow> u32 \<Rightarrow> bool \<times> 's pb_ostream" where
  "pb_encode_tag cb st wiretype field_number =
     pb_encode_varint cb st (push_bit 3 (ucast field_number) OR ucast wiretype)"

definition PB_LTYPE :: "u8 \<Rightarrow> u8" where
  "PB_LTYPE x = x AND 0x0f"

definition pb_encode_tag_for_field :: "'s pb_writer option \<Rightarrow> 's pb_ostream \<Rightarrow> u8 \<Rightarrow> u32 \<Rightarrow> bool \<times> 's pb_ostream" where
  "pb_encode_tag_for_field cb st field_type field_tag =
     (let t = PB_LTYPE field_type in
      if t \<in> {0, 1, 2} then pb_encode_tag cb st PB_WT_VARINT field_tag
      else if t = 3 then pb_encode_tag cb st PB_WT_32BIT field_tag
      else if t = 4 then pb_encode_tag cb st PB_WT_64BIT field_tag
      else if t \<in> {5, 6, 7, 9} then pb_encode_tag cb st PB_WT_STRING field_tag
      else (False, os_error st ''invalid field type''))"

definition pb_encode_string :: "'s pb_writer option \<Rightarrow> 's pb_ostream \<Rightarrow> bytes \<Rightarrow> bool \<times> 's pb_ostream" where
  "pb_encode_string cb st buffer =
     (case pb_encode_varint cb st (of_nat (length buffer)) of
        (False, st) \<Rightarrow> (False, st)
      | (True, st) \<Rightarrow> pb_write cb st buffer)"

text \<open>The field encoders; \<open>value\<close> is the integer in the field of \<open>data_size\<close> bytes.\<close>

definition pb_enc_varint :: "'s pb_writer option \<Rightarrow> 's pb_ostream \<Rightarrow> nat \<Rightarrow> int \<Rightarrow> bool \<times> 's pb_ostream" where
  "pb_enc_varint cb st data_size v =
     (if data_size \<in> {1, 2, 4, 8} then pb_encode_varint cb st (word_of_int v)
      else (False, os_error st ''invalid data_size''))"

definition pb_enc_uvarint :: "'s pb_writer option \<Rightarrow> 's pb_ostream \<Rightarrow> nat \<Rightarrow> int \<Rightarrow> bool \<times> 's pb_ostream" where
  "pb_enc_uvarint cb st data_size v =
     (if data_size \<in> {1, 2, 4, 8} then pb_encode_varint cb st (word_of_int v)
      else (False, os_error st ''invalid data_size''))"

definition pb_enc_svarint :: "'s pb_writer option \<Rightarrow> 's pb_ostream \<Rightarrow> nat \<Rightarrow> int \<Rightarrow> bool \<times> 's pb_ostream" where
  "pb_enc_svarint cb st data_size v =
     (if data_size \<in> {1, 2, 4, 8} then pb_encode_svarint cb st (word_of_int v)
      else (False, os_error st ''invalid data_size''))"

section \<open>The contract of a write callback\<close>

locale pb_sink =
  fixes wr :: "'s pb_writer" and written_out :: "'s \<Rightarrow> bytes" and capacity :: "'s \<Rightarrow> nat"
  assumes accepts: "length data \<le> capacity s \<Longrightarrow>
    \<exists>s'. wr s data = (True, s') \<and> written_out s' = written_out s @ data \<and> capacity s' = capacity s - length data"
begin

definition room :: "'s pb_ostream \<Rightarrow> nat" where
  "room st = os_max_size st - os_written st"

definition wf :: "'s pb_ostream \<Rightarrow> bool" where
  "wf st \<longleftrightarrow> os_written st \<le> os_max_size st \<and> os_max_size st < 2 ^ 63 \<and> room st \<le> capacity (os_state st)"

text \<open>\<open>writes st data st'\<close>: \<open>data\<close> went out and no error was set.\<close>

definition writes :: "'s pb_ostream \<Rightarrow> bytes \<Rightarrow> 's pb_ostream \<Rightarrow> bool" where
  "writes st data st' \<longleftrightarrow> wf st' \<and> written_out (os_state st') = written_out (os_state st) @ data
     \<and> os_max_size st' = os_max_size st \<and> os_written st' = os_written st + length data
     \<and> os_errmsg st' = os_errmsg st"

lemma writes_trans: "writes st xs st1 \<Longrightarrow> writes st1 ys st2 \<Longrightarrow> writes st (xs @ ys) st2"
  by (simp add: writes_def)

lemma writes_room: "writes st xs st' \<Longrightarrow> room st' = room st - length xs"
  by (simp add: writes_def room_def)

lemma write_run:
  assumes "wf st" "length data < 2 ^ 63"
  shows "if length data \<le> room st
    then \<exists>st'. pb_write (Some wr) st data = (True, st') \<and> writes st data st'
    else pb_write (Some wr) st data = (False, os_error st ''stream full'')"
proof -
  have eq: "size_add (os_written st) (length data) = os_written st + length data"
    using assms by (intro size_add_exact) (simp add: wf_def)
  show ?thesis
  proof (cases "length data \<le> room st")
    case True
    then have "length data \<le> capacity (os_state st)" using assms(1) by (simp add: wf_def)
    then obtain s' where s': "wr (os_state st) data = (True, s')" "written_out s' = written_out (os_state st) @ data"
      "capacity s' = capacity (os_state st) - length data"
      using accepts by blast
    define st' where "st' = st\<lparr>os_state := s', os_written := os_written st + length data\<rparr>"
    have "wf st'" using True assms(1) s'(3) by (auto simp: wf_def room_def st'_def)
    then have "writes st data st'" using s'(2) by (simp add: writes_def st'_def)
    moreover have "\<not> os_max_size st < os_written st + length data"
      using True assms(1) unfolding room_def wf_def by linarith
    then have "pb_write (Some wr) st data = (True, st')"
      using s'(1) by (simp add: pb_write_def eq st'_def)
    ultimately show ?thesis using True by simp
  next
    case False
    then have "os_max_size st < os_written st + length data"
      using assms(1) unfolding room_def wf_def by linarith
    then show ?thesis using False by (simp add: pb_write_def eq)
  qed
qed

end

interpretation buf_sink: pb_sink buf_write "\<lambda>(buf, off). take off buf" "\<lambda>(buf, off). length buf - off"
proof
  fix data :: bytes and s :: "bytes \<times> nat"
  obtain buf off where s: "s = (buf, off)" by (cases s)
  assume "length data \<le> (case s of (buf, off) \<Rightarrow> length buf - off)"
  then have le: "data = [] \<or> off + length data \<le> length buf" by (cases data) (auto simp: s)
  show "\<exists>s'. buf_write s data = (True, s')
      \<and> (case s' of (buf, off) \<Rightarrow> take off buf) = (case s of (buf, off) \<Rightarrow> take off buf) @ data
      \<and> (case s' of (buf, off) \<Rightarrow> length buf - off) = (case s of (buf, off) \<Rightarrow> length buf - off) - length data"
    using le take_blit_end [of off buf data] by (auto simp: s buf_write_def)
qed


section \<open>What the encoders write\<close>

lemma unat_0x7f_or_0x80:
  fixes v :: u64
  shows "(ucast (v AND 0x7f OR 0x80) :: u8) = of_nat (128 + unat v mod 128)"
    and "(ucast (v AND 0x7f OR 0x80) :: u8) AND 0x7f = of_nat (unat v mod 128)"
proof -
  have m: "(0x7f :: u64) = mask 7" "(0x80 :: u64) = push_bit 7 1" by (simp_all add: mask_eq_exp_minus_1 push_bit_eq_mult)
  have low: "unat (v AND 0x7f) = unat v mod 128" unfolding m by (simp add: unat_and_mask)
  have "v AND 0x7f OR 0x80 = push_bit 7 1 + (v AND 0x7f)"
    unfolding m(2) by (subst or.commute) (rule push_bit_or_low, simp add: low)
  then have "v AND 0x7f OR 0x80 = 128 + (v AND 0x7f)" by (simp add: push_bit_eq_mult)
  then have u: "unat (v AND 0x7f OR 0x80) = 128 + unat v mod 128"
    by (simp add: unat_word_ariths low)
  have "unat v mod 128 < 128" by simp
  then have ub: "unat (ucast (v AND 0x7f OR 0x80) :: u8) = 128 + unat v mod 128"
    by (simp add: unat_ucast u)
  then show "(ucast (v AND 0x7f OR 0x80) :: u8) = of_nat (128 + unat v mod 128)" by (rule word_eq_of_nat)
  have "unat ((ucast (v AND 0x7f OR 0x80) :: u8) AND 0x7f) = unat v mod 128"
    using u8_low7 [of "ucast (v AND 0x7f OR 0x80)"] ub by simp
  then show "(ucast (v AND 0x7f OR 0x80) :: u8) AND 0x7f = of_nat (unat v mod 128)" by (rule word_eq_of_nat)
qed

lemma varint_groups_varint:
  "v \<noteq> 0 \<Longrightarrow> varint_groups v \<noteq> []
    \<and> (varint_groups v)[length (varint_groups v) - 1 := last (varint_groups v) AND 0x7f] = varint (unat v)"
proof (induction v rule: varint_groups.induct)
  case (1 v)
  define w where "w = drop_bit 7 v"
  have uw: "unat w = unat v div 128" by (simp add: w_def unat_drop_bit)
  have g: "varint_groups v = ucast (v AND 0x7f OR 0x80) # varint_groups w"
    using "1.prems" by (simp add: varint_groups.simps [of v] w_def)
  show ?case
  proof (cases "w = 0")
    case True
    then have "unat v < 128" using uw by (simp add: div_eq_0_iff)
    moreover have "varint_groups w = []" using True by (simp add: varint_groups.simps)
    ultimately show ?thesis using g unat_0x7f_or_0x80 [of v] by (simp add: varint.simps [of "unat v"])
  next
    case False
    then have "unat w \<noteq> 0" by (simp add: unat_eq_zero)
    then have big: "\<not> unat v < 128" using uw by auto
    note IH = "1.IH" [OF "1.prems", folded w_def, OF False]
    have v: "varint (unat v) = of_nat (128 + unat v mod 128) # varint (unat w)"
      using big uw by (simp add: varint.simps [of "unat v"])
    obtain x xs where x: "varint_groups w = x # xs" using IH by (cases "varint_groups w") auto
    then show ?thesis using IH v unat_0x7f_or_0x80(1) [of v] unfolding g by (simp add: x)
  qed
qed


lemma encode_varint_write: "pb_encode_varint cb st v = pb_write cb st (varint (unat v))"
proof (cases "v \<le> 0x7f")
  case True
  then have u: "unat v < 128" by (simp add: word_le_nat_alt)
  then have "unat (ucast v :: u8) = unat v" by (simp add: unat_ucast)
  then have "(ucast v :: u8) = of_nat (unat v)" by (rule word_eq_of_nat)
  with True u show ?thesis by (simp add: pb_encode_varint_def varint.simps [of "unat v"])
next
  case False
  then have "v \<noteq> 0" by auto
  note g = varint_groups_varint [OF this]
  then have "last (varint_groups v) = varint_groups v ! (length (varint_groups v) - 1)"
    by (simp add: last_conv_nth)
  with g False show ?thesis by (simp add: pb_encode_varint_def Let_def)
qed

lemma length_varint_u64: "length (varint (unat (v :: u64))) \<le> 10"
  using unat_u64_lt [of v] by (intro length_varint) simp_all

lemma length_varint_groups: "length (varint_groups v) \<le> 10"
proof (cases "v = 0")
  case False
  from varint_groups_varint [OF this] have "length (varint_groups v) = length (varint (unat v))"
    by (metis length_list_update)
  then show ?thesis using length_varint_u64 [of v] by simp
qed (simp add: varint_groups.simps)

definition zigzag :: "int \<Rightarrow> nat" where
  "zigzag i = (if i < 0 then nat (- 2 * i - 1) else nat (2 * i))"

lemma zigzag_word:
  "unat (if sint (v :: u64) < 0 then NOT (push_bit 1 v) else push_bit 1 v) = zigzag (sint v)"
proof -
  have b: "- (2 ^ 63) \<le> sint v" "sint v < 2 ^ 63"
    using sint_range_size [of v] by (simp_all add: word_size)
  have p: "push_bit 1 v = word_of_int (2 * sint v)" by (simp add: push_bit_eq_mult)
  show ?thesis
  proof (cases "sint v < 0")
    case True
    have "NOT (push_bit 1 v) = word_of_int (- 2 * sint v - 1)"
      unfolding p by (simp add: not_eq_complement)
    moreover have "uint (word_of_int (- 2 * sint v - 1) :: u64) = - 2 * sint v - 1"
      using True b by (intro uint_word_of_int_eq [THEN trans]) (simp add: take_bit_eq_mod)
    ultimately have "uint (NOT (push_bit 1 v)) = - 2 * sint v - 1" by simp
    then have "unat (NOT (push_bit 1 v)) = nat (- 2 * sint v - 1)" by (simp add: unat_eq_nat_uint)
    with True show ?thesis by (simp add: zigzag_def)
  next
    case False
    have "uint (word_of_int (2 * sint v) :: u64) = 2 * sint v"
      using False b by (intro uint_word_of_int_eq [THEN trans]) (simp add: take_bit_eq_mod)
    then have "unat (push_bit 1 v) = nat (2 * sint v)" unfolding p by (simp add: unat_eq_nat_uint)
    with False show ?thesis by (simp add: zigzag_def)
  qed
qed

lemma encode_svarint_write: "pb_encode_svarint cb st v = pb_write cb st (varint (zigzag (sint v)))"
  by (simp only: pb_encode_svarint_def encode_varint_write zigzag_word)

lemma encode_fixed32_write: "pb_encode_fixed32 cb st v = pb_write cb st (le_bytes32 v)"
  by (simp add: pb_encode_fixed32_def le_bytes32_def le_byte_def)

lemma encode_fixed64_write: "pb_encode_fixed64 cb st v = pb_write cb st (le_bytes64 v)"
  by (simp add: pb_encode_fixed64_def le_bytes64_def le_byte_def)

lemma encode_tag_write:
  assumes "unat w < 8"
  shows "pb_encode_tag cb st w f = pb_write cb st (varint (8 * unat f + unat w))"
proof -
  have uw: "unat (ucast w :: u64) = unat w" and uf: "unat (ucast f :: u64) = unat f"
    by (simp_all add: unat_ucast_up)
  have "push_bit 3 (ucast f) OR ucast w = push_bit 3 (ucast f :: u64) + ucast w"
    using assms uw by (intro push_bit_or_low) simp
  moreover have "unat (push_bit 3 (ucast f :: u64)) = 8 * unat f"
    using unat_u32_lt [of f] by (simp add: unat_push_bit uf)
  then have "unat (push_bit 3 (ucast f :: u64) + ucast w) = 8 * unat f + unat w"
    using unat_u32_lt [of f] assms uw by (simp add: unat_word_ariths)
  ultimately show ?thesis by (simp add: pb_encode_tag_def encode_varint_write)
qed


context pb_sink
begin

text \<open>\<open>emits r st data\<close>: \<open>data\<close> is what the call with result \<open>r\<close> writes, if there is room for it.\<close>

definition emits :: "bool \<times> 's pb_ostream \<Rightarrow> 's pb_ostream \<Rightarrow> bytes \<Rightarrow> bool" where
  "emits r st data \<longleftrightarrow>
     (if length data \<le> room st then \<exists>st'. r = (True, st') \<and> writes st data st' else \<not> fst r)"

lemma emits_write: "wf st \<Longrightarrow> length data < 2 ^ 63 \<Longrightarrow> emits (pb_write (Some wr) st data) st data"
  using write_run [of st data] by (auto simp: emits_def split: if_splits)

lemma emits_varint: "wf st \<Longrightarrow> emits (pb_encode_varint (Some wr) st v) st (varint (unat v))"
  unfolding encode_varint_write
  by (rule emits_write) (use length_varint_u64 [of v] in simp_all)

lemma length_varint_zigzag: "length (varint (zigzag (sint (v :: u64)))) \<le> 10"
  by (simp only: zigzag_word [symmetric] length_varint_u64)

lemma emits_svarint: "wf st \<Longrightarrow> emits (pb_encode_svarint (Some wr) st v) st (varint (zigzag (sint v)))"
  unfolding encode_svarint_write
  by (rule emits_write) (use length_varint_zigzag [of v] in simp_all)

lemma emits_fixed32: "wf st \<Longrightarrow> emits (pb_encode_fixed32 (Some wr) st v) st (le_bytes32 v)"
  unfolding encode_fixed32_write by (rule emits_write) (simp_all add: length_le_bytes)

lemma emits_fixed64: "wf st \<Longrightarrow> emits (pb_encode_fixed64 (Some wr) st v) st (le_bytes64 v)"
  unfolding encode_fixed64_write by (rule emits_write) (simp_all add: length_le_bytes)

lemma emits_tag:
  assumes "wf st" "unat w < 8"
  shows "emits (pb_encode_tag (Some wr) st w f) st (varint (8 * unat f + unat w))"
proof -
  have "8 * unat f + unat w < 128 ^ 10" using unat_u32_lt [of f] assms(2) by simp
  then have "length (varint (8 * unat f + unat w)) \<le> 10" by (intro length_varint) simp_all
  with assms show ?thesis unfolding encode_tag_write [OF assms(2)] by (intro emits_write) simp_all
qed

lemma emits_string:
  assumes "wf st" "length data < 2 ^ 62"
  shows "emits (pb_encode_string (Some wr) st data) st (varint (length data) @ data)"
proof -
  have u: "unat (of_nat (length data) :: u64) = length data" using assms(2) by (simp add: unat_of_nat)
  note v = emits_varint [OF assms(1), of "of_nat (length data)", unfolded u]
  show ?thesis
  proof (cases "length (varint (length data)) \<le> room st")
    case False
    then show ?thesis using v by (auto simp: emits_def pb_encode_string_def split: prod.split bool.split)
  next
    case True
    then obtain st1 where st1: "pb_encode_varint (Some wr) st (of_nat (length data)) = (True, st1)"
      "writes st (varint (length data)) st1"
      using v by (auto simp: emits_def)
    have "wf st1" using st1(2) by (simp add: writes_def)
    then have w: "emits (pb_write (Some wr) st1 data) st1 data" using assms(2) by (intro emits_write) simp_all
    have r: "room st1 = room st - length (varint (length data))" by (rule writes_room [OF st1(2)])
    show ?thesis
    proof (cases "length data \<le> room st1")
      case fits: True
      then obtain st2 where "pb_write (Some wr) st1 data = (True, st2)" "writes st1 data st2"
        using w by (auto simp: emits_def)
      moreover have "length (varint (length data) @ data) \<le> room st" using True fits r by simp
      ultimately show ?thesis using st1 writes_trans by (auto simp: emits_def pb_encode_string_def)
    next
      case False
      then have "\<not> length (varint (length data) @ data) \<le> room st" using r by simp
      then show ?thesis using st1 w False by (simp add: emits_def pb_encode_string_def)
    qed
  qed
qed

end


section \<open>Round trips through a buffer\<close>

lemma buffer_ostream:
  assumes "n \<le> length buf" "n < 2 ^ 63"
  shows "buf_sink.wf (pb_ostream_from_buffer buf n)" "buf_sink.room (pb_ostream_from_buffer buf n) = n"
  using assms by (simp_all add: buf_sink.wf_def buf_sink.room_def pb_ostream_from_buffer_def)

lemma emits_buffer:
  assumes "n \<le> length buf" "n < 2 ^ 63" "length data \<le> n"
    and "buf_sink.emits r (pb_ostream_from_buffer buf n) data"
  shows "\<exists>st'. r = (True, st') \<and> os_written st' = length data
    \<and> buf_source.wf (pb_istream_from_buffer (fst (os_state st')) (os_written st'))
    \<and> buf_source.view (pb_istream_from_buffer (fst (os_state st')) (os_written st')) = data"
proof -
  have "length data \<le> buf_sink.room (pb_ostream_from_buffer buf n)"
    using assms by (simp add: buffer_ostream)
  then obtain st' where r: "r = (True, st')" "buf_sink.writes (pb_ostream_from_buffer buf n) data st'"
    using assms(4) unfolding buf_sink.emits_def by auto
  obtain buf' off where s: "os_state st' = (buf', off)" by (cases "os_state st'")
  have t: "take off buf' = data" "os_written st' = length data"
    using r(2) s by (simp_all add: buf_sink.writes_def pb_ostream_from_buffer_def)
  then have l: "length data \<le> off" "length data \<le> length buf'" by auto
  have "take (length data) buf' = take (length data) (take off buf')" using l by (simp add: min_def)
  then have "take (length data) buf' = data" by (simp add: t(1))
  then show ?thesis using r(1) s t(2) l by (simp add: buffer_stream)
qed

lemma buf_decode_varint:
  assumes "buf_source.wf st" "buf_source.view st = varint (unat v)"
  shows "\<exists>st'. pb_decode_varint buf_callback st = (Some v, st') \<and> is_left st' = 0"
proof -
  obtain st' where "pb_decode_varint buf_callback st = (Some v, st')" "buf_source.reads st (varint (unat v)) st'"
    using buf_source.decode_varint_run [OF assms(1), of "varint (unat v)" "[]"] assms(2)
    by (auto simp: varint_form_varint varint_val_varint length_varint_u64)
  moreover have "length (varint (unat v)) = is_left st" using buf_source.length_view [OF assms(1)] assms(2) by simp
  ultimately show ?thesis by (auto simp: buf_source.reads_def)
qed

lemma zigzag_unzigzag:
  "(if z AND 1 \<noteq> 0 then NOT (drop_bit 1 z) else drop_bit 1 z) = v"
  if z: "z = (if sint v < 0 then NOT (push_bit 1 v) else push_bit 1 v)" for v z :: u64
proof -
  have p: "bit (push_bit 1 v) n \<longleftrightarrow> 1 \<le> n \<and> n < 64 \<and> bit v (n - 1)" for n
    by (simp only: bit_push_bit_iff) auto
  have zb: "bit z n \<longleftrightarrow> n < 64 \<and> (if n = 0 then sint v < 0 else (sint v < 0) \<noteq> bit v (n - 1))" for n
    using p [of n] bit_imp_le_length [of "push_bit 1 v" n] unfolding z by (auto simp: bit_not_iff_eq)
  have d: "bit (drop_bit 1 z) n \<longleftrightarrow> n < 63 \<and> (sint v < 0) \<noteq> bit v n" for n
    using zb [of "1 + n"] by (auto simp: bit_drop_bit_eq)
  have s: "bit v 63 \<longleftrightarrow> sint v < 0" using bit_last_iff [of v] by simp
  have "z AND 1 \<noteq> 0 \<longleftrightarrow> bit z 0" by (simp add: and_exp_eq_0_iff_not_bit [of z 0, simplified])
  then have c: "z AND 1 \<noteq> 0 \<longleftrightarrow> sint v < 0" using zb [of 0] by simp
  have n63: "n = 63 \<or> n < 63" if "n < LENGTH(64)" for n using that by auto
  show ?thesis
  proof (cases "sint v < 0")
    case True
    have "NOT (drop_bit 1 z) = v"
      by (rule bit_word_eqI) (use True s n63 in \<open>auto simp: bit_not_iff_eq d [simplified]\<close>)
    with True c show ?thesis by simp
  next
    case False
    have "drop_bit 1 z = v"
      by (rule bit_word_eqI) (use False s n63 in \<open>auto simp: d [simplified]\<close>)
    with False c show ?thesis by simp
  qed
qed


text \<open>Integer fields: what fits in the field comes back from it.\<close>

definition fits_signed :: "nat \<Rightarrow> int \<Rightarrow> bool" where
  "fits_signed k v \<longleftrightarrow> - (2 ^ (8 * k - 1)) \<le> v \<and> v < 2 ^ (8 * k - 1)"

lemma fits_signed_store: "fits_signed k v \<Longrightarrow> store_signed k v = v"
  by (simp add: fits_signed_def store_signed_def signed_take_bit_int_eq_self)

lemma fits_signed_64: "k \<in> {1, 2, 4, 8} \<Longrightarrow> fits_signed k v \<Longrightarrow> sint (word_of_int v :: u64) = v"
  by (auto simp: fits_signed_def sint_sbintrunc' intro!: signed_take_bit_int_eq_self)

lemma fits_signed_32:
  assumes "k \<in> {1, 2, 4}" "fits_signed k v"
  shows "sint (ucast (word_of_int v :: u64) :: u32) = v"
proof -
  have "(ucast (word_of_int v :: u64) :: u32) = word_of_int v"
    by (rule bit_word_eqI) (simp add: bit_ucast_iff bit_word_of_int_iff)
  moreover have "sint (word_of_int v :: u32) = v"
    using assms by (auto simp: fits_signed_def sint_sbintrunc' intro!: signed_take_bit_int_eq_self)
  ultimately show ?thesis by simp
qed

lemma dec_varint_value:
  assumes "pb_decode_varint cb st = (Some (word_of_int v), st')" "k \<in> {1, 2, 4, 8}" "fits_signed k v"
  shows "pb_dec_varint cb st k = (Some v, st')"
  using assms fits_signed_store [OF assms(3)] fits_signed_64 [OF assms(2,3)] fits_signed_32 [of k v]
  by (auto simp: pb_dec_varint_def Let_def)

lemma dec_svarint_value:
  assumes "pb_decode_svarint cb st = (Some (word_of_int v), st')" "k \<in> {1, 2, 4, 8}" "fits_signed k v"
  shows "pb_dec_svarint cb st k = (Some v, st')"
  using assms fits_signed_store [OF assms(3)] fits_signed_64 [OF assms(2,3)]
  by (auto simp: pb_dec_svarint_def Let_def)

lemma dec_uvarint_value:
  assumes "pb_decode_varint cb st = (Some (word_of_int v), st')" "k \<in> {1, 2, 4, 8}" "0 \<le> v" "v < 2 ^ (8 * k)"
  shows "pb_dec_uvarint cb st k = (Some v, st')"
proof -
  have "(2 :: int) ^ (8 * k) \<le> 2 ^ 64" using assms(2) by (intro power_increasing) auto
  then have "v < 2 ^ 64" using assms(4) by simp
  then have "uint (word_of_int v :: u64) = v" using assms(3) by (simp add: uint_word_of_int_eq take_bit_int_eq_self)
  moreover have "take_bit (8 * k) v = v" using assms(3,4) by (simp add: take_bit_int_eq_self)
  ultimately show ?thesis using assms(1,2) by (auto simp: pb_dec_uvarint_def)
qed

text \<open>A reading of a whole buffer leaves nothing.\<close>

lemma reads_all:
  assumes "buf_source.wf st" "buf_source.view st = bs" "buf_source.reads st bs st'"
  shows "is_left st' = 0"
  using assms buf_source.length_view [of st] by (auto simp: buf_source.reads_def)

lemma buf_decode_svarint:
  assumes "buf_source.wf st" "buf_source.view st = varint (zigzag (sint v))"
  shows "\<exists>st'. pb_decode_svarint buf_callback st = (Some v, st') \<and> is_left st' = 0"
proof -
  define z where "z = (if sint v < 0 then NOT (push_bit 1 v) else push_bit 1 v)"
  have v: "buf_source.view st = varint (unat z) @ []" using assms(2) by (simp only: z_def zigzag_word append_Nil2)
  obtain st' where "pb_decode_svarint buf_callback st =
      (Some (if z AND 1 \<noteq> 0 then NOT (drop_bit 1 z) else drop_bit 1 z), st')"
    "buf_source.reads st (varint (unat z)) st'"
    using buf_source.decode_svarint_run [OF assms(1) v] by blast
  moreover have "is_left st' = 0" using reads_all [OF assms(1)] v calculation(2) by simp
  ultimately show ?thesis by (simp only: zigzag_unzigzag [OF z_def]) blast
qed

end
