(* ===== verification/Const_Time.thy ===== *)
theory Const_Time
  imports Prelude
begin

text \<open>
  The constant-time predicates and selections of \<open>crypto/internal.h\<close>: a true result is a
  mask of ones, a false one is zero.  \<open>crypto_word_t\<close> has 64 bits.  Each is shown to
  compute the comparison its name promises.
\<close>

section \<open>Masks\<close>

definition constant_time_msb_w :: "u64 \<Rightarrow> u64" where
  "constant_time_msb_w a = 0 - drop_bit 63 a"

definition constant_time_lt_w :: "u64 \<Rightarrow> u64 \<Rightarrow> u64" where
  "constant_time_lt_w a b = constant_time_msb_w (a XOR ((a XOR b) OR ((a - b) XOR a)))"

definition constant_time_lt_8 :: "u64 \<Rightarrow> u64 \<Rightarrow> u8" where
  "constant_time_lt_8 a b = ucast (constant_time_lt_w a b)"

definition constant_time_ge_w :: "u64 \<Rightarrow> u64 \<Rightarrow> u64" where
  "constant_time_ge_w a b = NOT (constant_time_lt_w a b)"

definition constant_time_ge_8 :: "u64 \<Rightarrow> u64 \<Rightarrow> u8" where
  "constant_time_ge_8 a b = ucast (constant_time_ge_w a b)"

definition constant_time_is_zero_w :: "u64 \<Rightarrow> u64" where
  "constant_time_is_zero_w a = constant_time_msb_w (NOT a AND (a - 1))"

definition constant_time_is_zero_8 :: "u64 \<Rightarrow> u8" where
  "constant_time_is_zero_8 a = ucast (constant_time_is_zero_w a)"

definition constant_time_eq_w :: "u64 \<Rightarrow> u64 \<Rightarrow> u64" where
  "constant_time_eq_w a b = constant_time_is_zero_w (a XOR b)"

definition constant_time_eq_8 :: "u64 \<Rightarrow> u64 \<Rightarrow> u8" where
  "constant_time_eq_8 a b = ucast (constant_time_eq_w a b)"

definition constant_time_select_w :: "u64 \<Rightarrow> u64 \<Rightarrow> u64 \<Rightarrow> u64" where
  "constant_time_select_w mask_w a b = (mask_w AND a) OR (NOT mask_w AND b)"

definition constant_time_select_8 :: "u8 \<Rightarrow> u8 \<Rightarrow> u8 \<Rightarrow> u8" where
  "constant_time_select_8 mask_8 a b = ucast (constant_time_select_w (ucast mask_8) (ucast a) (ucast b))"

text \<open>An \<open>int\<close> is extended with its sign and cut to 32 bits again.\<close>

definition constant_time_select_int :: "u64 \<Rightarrow> int \<Rightarrow> int \<Rightarrow> int" where
  "constant_time_select_int mask_w a b =
     sint (ucast (constant_time_select_w mask_w (of_int a) (of_int b)) :: u32)"

section \<open>Correctness\<close>

abbreviation mask_of :: "bool \<Rightarrow> 'a::len word" where
  "mask_of p \<equiv> (if p then - 1 else 0)"

lemma msb_ge: "bit (a :: u64) 63 \<longleftrightarrow> 2 ^ 63 \<le> unat a"
proof -
  have "bit a 63 \<longleftrightarrow> odd (unat a div 2 ^ 63)"
    using bit_unsigned_iff [where ?'a = nat, of a 63] bit_iff_odd [where ?'a = nat, of "unat a" 63] by simp
  moreover have "unat a div 2 ^ 63 < 2" using unat_u64_lt [of a] by simp
  moreover have "unat a div 2 ^ 63 = 0 \<longleftrightarrow> unat a < 2 ^ 63" by (simp add: div_eq_0_iff)
  ultimately show ?thesis by (auto simp: less_2_cases_iff not_le)
qed

lemma msb_w: "constant_time_msb_w a = mask_of (bit a 63)"
proof -
  have "unat (drop_bit 63 a) = of_bool (bit a 63)"
    using msb_ge [of a] unat_u64_lt [of a] by (simp add: unat_drop_bit div_eq_0_iff) (simp add: div_nat_eqI)
  then have "drop_bit 63 a = of_bool (bit a 63)" using word_eq_of_nat by fastforce
  then show ?thesis by (simp add: constant_time_msb_w_def)
qed

lemma lt_w: "constant_time_lt_w a b = mask_of (a < b)"
proof -
  have d: "bit (a - b) 63 \<longleftrightarrow> unat a < unat b" if "bit a 63 = bit b 63"
  proof (cases "unat b \<le> unat a")
    case True
    then have "unat (a - b) = unat a - unat b" by (simp add: unat_sub word_le_nat_alt)
    then show ?thesis
      using True that unat_u64_lt [of a] unfolding msb_ge by auto
  next
    case False
    then have ba: "unat (b - a) = unat b - unat a" by (simp add: unat_sub word_le_nat_alt)
    have "unat (a - b) + unat (b - a) = 2 ^ 64"
    proof -
      have "(unat (a - b) + unat (b - a)) mod 2 ^ 64 = unat ((a - b) + (b - a))"
        by (simp only: unat_word_ariths) simp
      then have "(unat (a - b) + unat (b - a)) mod 2 ^ 64 = 0" by simp
      moreover have "0 < unat (b - a)" using ba False by simp
      ultimately show ?thesis using unat_u64_lt [of "a - b"] unat_u64_lt [of "b - a"]
        by (auto simp: mod_if split: if_splits)
    qed
    then have "unat (a - b) = 2 ^ 64 - (unat b - unat a)" using ba by simp
    then show ?thesis
      using False that unat_u64_lt [of b] unfolding msb_ge by auto
  qed
  have "bit (a XOR ((a XOR b) OR ((a - b) XOR a))) 63 \<longleftrightarrow> unat a < unat b"
  proof (cases "bit a 63 = bit b 63")
    case True
    then show ?thesis using d [OF True] by (auto simp: bit_xor_iff bit_or_iff)
  next
    case False
    then have "unat a < unat b \<longleftrightarrow> bit b 63" unfolding msb_ge by auto
    with False show ?thesis by (auto simp: bit_xor_iff bit_or_iff)
  qed
  then show ?thesis by (simp only: constant_time_lt_w_def msb_w word_less_nat_alt)
qed

lemma is_zero_w: "constant_time_is_zero_w a = mask_of (a = 0)"
proof -
  have "bit (a - 1) 63 \<longrightarrow> bit a 63" if "a \<noteq> 0"
  proof -
    have "0 < unat a" using that by (simp add: unat_gt_0)
    then have "unat (a - 1) = unat a - 1" by (metis Suc_leI One_nat_def unat_1 unat_sub word_le_nat_alt)
    then show ?thesis unfolding msb_ge by linarith
  qed
  then have "bit (NOT a AND (a - 1)) 63 \<longleftrightarrow> a = 0"
    by (auto simp: bit_and_iff bit_not_iff)
  then show ?thesis by (simp only: constant_time_is_zero_w_def msb_w)
qed

lemma word_xor_zero_iff: "a XOR b = 0 \<longleftrightarrow> a = (b :: 'a::len word)"
  by (metis xor_self_eq xor.assoc xor.left_neutral xor.right_neutral)

lemma ucast_mask: "(ucast (mask_of p :: u64) :: u8) = mask_of p"
  by (simp add: unsigned_minus_1_eq_mask mask_eq_exp_minus_1)

lemma constant_time_masks:
  "constant_time_ge_w a b = mask_of (a \<ge> b)"
  "constant_time_eq_w a b = mask_of (a = b)"
  "constant_time_lt_8 a b = mask_of (a < b)"
  "constant_time_ge_8 a b = mask_of (a \<ge> b)"
  "constant_time_is_zero_8 a = mask_of (a = 0)"
  "constant_time_eq_8 a b = mask_of (a = b)"
proof -
  show ge: "constant_time_ge_w a b = mask_of (a \<ge> b)" by (auto simp: constant_time_ge_w_def lt_w not_less [symmetric])
  show eq: "constant_time_eq_w a b = mask_of (a = b)"
    unfolding constant_time_eq_w_def is_zero_w word_xor_zero_iff ..
  show "constant_time_lt_8 a b = mask_of (a < b)" unfolding constant_time_lt_8_def lt_w by (rule ucast_mask)
  show "constant_time_ge_8 a b = mask_of (a \<ge> b)" unfolding constant_time_ge_8_def ge by (rule ucast_mask)
  show "constant_time_is_zero_8 a = mask_of (a = 0)"
    unfolding constant_time_is_zero_8_def is_zero_w by (rule ucast_mask)
  show "constant_time_eq_8 a b = mask_of (a = b)" unfolding constant_time_eq_8_def eq by (rule ucast_mask)
qed

lemma select_w: "constant_time_select_w (mask_of p) a b = (if p then a else b)"
  by (simp add: constant_time_select_w_def)

lemma select_int:
  assumes "- (2 ^ 31) \<le> a" "a < 2 ^ 31" "- (2 ^ 31) \<le> b" "b < 2 ^ 31"
  shows "constant_time_select_int (mask_of p) a b = (if p then a else b)"
proof -
  have "sint (ucast (of_int x :: u64) :: u32) = x" if "- (2 ^ 31) \<le> x" "x < 2 ^ 31" for x
  proof -
    have "(ucast (of_int x :: u64) :: u32) = of_int x" by (rule bit_word_eqI) (simp add: bit_ucast_iff bit_of_int_iff)
    then show ?thesis using that by (simp add: signed_of_int signed_take_bit_int_eq_self)
  qed
  with assms show ?thesis by (simp add: constant_time_select_int_def select_w)
qed

lemma select_8: "constant_time_select_8 (mask_of p) a b = (if p then a else b)"
  unfolding constant_time_select_8_def constant_time_select_w_def
  by (rule bit_word_eqI) (auto simp: bit_simps)

end
