(* ===== verification/Base64.thy ===== *)
theory Base64
  imports Const_Time
begin

text \<open>
  Base64 (\<open>crypto/base64/base64.c\<close>): the constant-time character conversions, the block
  encoder and decoder, and the streaming contexts for PEM bodies, whose lines hold 48 input
  bytes.  Output pointers are the bytes written at them: an encoder returns its text with
  the terminating NUL, a decoder the bytes it stored.  The standard alphabet is the
  specification.
\<close>

section \<open>Characters\<close>

definition constant_time_lt_args_8 :: "u8 \<Rightarrow> u8 \<Rightarrow> u8" where
  "constant_time_lt_args_8 a b =
     (let aw = ucast a :: u64; bw = ucast b :: u64 in ucast (constant_time_msb_w (aw - bw)))"

definition constant_time_in_range_8 :: "u8 \<Rightarrow> u8 \<Rightarrow> u8 \<Rightarrow> u8" where
  "constant_time_in_range_8 a mn mx = (let a = a - mn in constant_time_lt_args_8 a (mx - mn + 1))"

definition conv_bin2ascii :: "u8 \<Rightarrow> u8" where
  "conv_bin2ascii a =
     (let a = a AND 0x3f;
          ret = constant_time_select_8 (constant_time_eq_8 (ucast a) 62) 0x2b 0x2f;
          ret = constant_time_select_8 (constant_time_lt_args_8 a 62) (a - 52 + 0x30) ret;
          ret = constant_time_select_8 (constant_time_lt_args_8 a 52) (a - 26 + 0x61) ret;
          ret = constant_time_select_8 (constant_time_lt_args_8 a 26) (a + 0x41) ret
      in ret)"

definition base64_ascii_to_bin :: "u8 \<Rightarrow> u8" where
  "base64_ascii_to_bin a =
     (let is_upper = constant_time_in_range_8 a 0x41 0x5a;
          is_lower = constant_time_in_range_8 a 0x61 0x7a;
          is_digit = constant_time_in_range_8 a 0x30 0x39;
          is_plus = constant_time_eq_8 (ucast a) 0x2b;
          is_slash = constant_time_eq_8 (ucast a) 0x2f;
          is_equals = constant_time_eq_8 (ucast a) 0x3d;
          ret = 0xff;
          ret = constant_time_select_8 is_upper (a - 0x41) ret;
          ret = constant_time_select_8 is_lower (a - 0x61 + 26) ret;
          ret = constant_time_select_8 is_digit (a - 0x30 + 52) ret;
          ret = constant_time_select_8 is_plus 62 ret;
          ret = constant_time_select_8 is_slash 63 ret;
          ret = constant_time_select_8 is_equals 0 ret
      in ret)"

section \<open>Lengths\<close>

definition EVP_EncodedLength :: "nat \<Rightarrow> nat option" where
  "EVP_EncodedLength n =
     (if size_add n 2 < n then None
      else let l = size_add n 2 div 3 in
        if size_mul l 4 div 4 \<noteq> l then None
        else let l = size_mul l 4 in if size_add l 1 < l then None else Some (size_add l 1))"

definition EVP_DecodedLength :: "nat \<Rightarrow> nat option" where
  "EVP_DecodedLength n = (if n mod 4 \<noteq> 0 then None else Some (n div 4 * 3))"

section \<open>Encoding\<close>

record EVP_ENCODE_CTX =
  data_used :: nat
  ctx_data :: bytes
  eof_seen :: bool
  error_encountered :: bool

definition EVP_EncodeInit :: EVP_ENCODE_CTX where
  "EVP_EncodeInit = \<lparr>data_used = 0, ctx_data = replicate 48 0, eof_seen = False, error_encountered = False\<rparr>"

text \<open>The characters of \<open>EVP_EncodeBlock\<close>, before the terminator.\<close>

fun encode_block_loop :: "bytes \<Rightarrow> bytes" where
  "encode_block_loop (a # b # c # src) =
     (let l = push_bit 16 (ucast a) OR push_bit 8 (ucast b) OR ucast c :: u32 in
      [conv_bin2ascii (ucast (drop_bit 18 l)), conv_bin2ascii (ucast (drop_bit 12 l)),
       conv_bin2ascii (ucast (drop_bit 6 l)), conv_bin2ascii (ucast l)] @ encode_block_loop src)"
| "encode_block_loop [] = []"
| "encode_block_loop [a] =
     (let l = push_bit 16 (ucast a) :: u32 in
      [conv_bin2ascii (ucast (drop_bit 18 l)), conv_bin2ascii (ucast (drop_bit 12 l)), 0x3d, 0x3d])"
| "encode_block_loop [a, b] =
     (let l = push_bit 16 (ucast a) OR push_bit 8 (ucast b) :: u32 in
      [conv_bin2ascii (ucast (drop_bit 18 l)), conv_bin2ascii (ucast (drop_bit 12 l)),
       conv_bin2ascii (ucast (drop_bit 6 l)), 0x3d])"

definition EVP_EncodeBlock :: "bytes \<Rightarrow> nat \<times> bytes" where
  "EVP_EncodeBlock src = (let chars = encode_block_loop src in (length chars, chars @ [0]))"

text \<open>
  The update writes whole lines.  Each line is followed by a NUL that the next line
  overwrites, so what is left at \<open>out\<close> is the lines and, if there is one, a NUL.  The result
  is the new context, the bytes at \<open>out\<close> and \<open>*out_len\<close>.
\<close>

text \<open>The loop over whole blocks; the first component is false on the wrap-around exit.\<close>

function encode_update_loop :: "bytes \<Rightarrow> bytes \<Rightarrow> nat \<Rightarrow> bool \<times> bytes \<times> bytes \<times> nat" where
  "encode_update_loop input out tot =
     (if length input \<ge> 48 then
        let (encoded, line) = EVP_EncodeBlock (take 48 input);
            input = drop 48 input;
            out = out @ take encoded line @ [0x0a] in
        if size_add tot (encoded + 1) < tot then (False, input, out, tot)
        else encode_update_loop input out (size_add tot (encoded + 1))
      else (True, input, out, tot))"
  by pat_completeness auto
termination
  by (relation "measure (\<lambda>(input, _). length input)") auto

declare encode_update_loop.simps [simp del]

definition terminated :: "bytes \<Rightarrow> bytes" where
  "terminated out = (if out = [] then [] else out @ [0])"

definition EVP_EncodeUpdate :: "EVP_ENCODE_CTX \<Rightarrow> bytes \<Rightarrow> EVP_ENCODE_CTX \<times> bytes \<times> nat" where
  "EVP_EncodeUpdate ctx input =
     (if input = [] then (ctx, [], 0)
      else if 48 - data_used ctx > length input then
        (ctx\<lparr>ctx_data := blit (ctx_data ctx) (data_used ctx) input,
             data_used := data_used ctx + length input\<rparr>, [], 0)
      else
        let (ctx, input, out, tot) =
              (if data_used ctx \<noteq> 0 then
                 let todo = 48 - data_used ctx;
                     data = blit (ctx_data ctx) (data_used ctx) (take todo input);
                     (encoded, line) = EVP_EncodeBlock data in
                 (ctx\<lparr>ctx_data := data, data_used := 0\<rparr>, drop todo input, take encoded line @ [0x0a], encoded + 1)
               else (ctx, input, [], 0)) in
        case encode_update_loop input out tot of
          (False, _, out, _) \<Rightarrow> (ctx, terminated out, 0)
        | (True, input, out, tot) \<Rightarrow>
            (ctx\<lparr>ctx_data := (if input \<noteq> [] then blit (ctx_data ctx) 0 input else ctx_data ctx),
                 data_used := length input\<rparr>,
             terminated out, if tot > INT_MAX then 0 else tot))"

definition EVP_EncodeFinal :: "EVP_ENCODE_CTX \<Rightarrow> EVP_ENCODE_CTX \<times> bytes \<times> nat" where
  "EVP_EncodeFinal ctx =
     (if data_used ctx = 0 then (ctx, [], 0)
      else let (encoded, line) = EVP_EncodeBlock (take (data_used ctx) (ctx_data ctx)) in
        (ctx\<lparr>data_used := 0\<rparr>, line[encoded := 0x0a] @ [0], encoded + 1))"

section \<open>Decoding\<close>

text \<open>\<open>None\<close> is the result 0; otherwise the bytes written.\<close>

definition base64_decode_quad :: "bytes \<Rightarrow> bytes option" where
  "base64_decode_quad input =
     (let a = base64_ascii_to_bin (input ! 0);
          b = base64_ascii_to_bin (input ! 1);
          c = base64_ascii_to_bin (input ! 2);
          d = base64_ascii_to_bin (input ! 3) in
      if a = 0xff \<or> b = 0xff \<or> c = 0xff \<or> d = 0xff then None
      else
        let v = push_bit 18 (ucast a) OR push_bit 12 (ucast b) OR push_bit 6 (ucast c) OR ucast d :: u32;
            padding_pattern = push_bit 3 (of_bool (input ! 0 = 0x3d)) OR push_bit 2 (of_bool (input ! 1 = 0x3d))
              OR push_bit 1 (of_bool (input ! 2 = 0x3d)) OR of_bool (input ! 3 = 0x3d) :: u32 in
        if padding_pattern = 0 then Some [ucast (drop_bit 16 v), ucast (drop_bit 8 v), ucast v]
        else if padding_pattern = 1 then Some [ucast (drop_bit 16 v), ucast (drop_bit 8 v)]
        else if padding_pattern = 3 then Some [ucast (drop_bit 16 v)]
        else None)"

definition is_ws :: "u8 \<Rightarrow> bool" where
  "is_ws c \<longleftrightarrow> c = 0x20 \<or> c = 0x09 \<or> c = 0x0d \<or> c = 0x0a"

definition EVP_DecodeInit :: EVP_ENCODE_CTX where
  "EVP_DecodeInit = \<lparr>data_used = 0, ctx_data = replicate 48 0, eof_seen = False, error_encountered = False\<rparr>"

text \<open>The first component is false when the loop returned -1.\<close>

fun decode_update_loop :: "EVP_ENCODE_CTX \<Rightarrow> bytes \<Rightarrow> bytes \<Rightarrow> bool \<times> EVP_ENCODE_CTX \<times> bytes" where
  "decode_update_loop ctx [] out = (True, ctx, out)"
| "decode_update_loop ctx (c # input) out =
     (if is_ws c then decode_update_loop ctx input out
      else if eof_seen ctx then (False, ctx\<lparr>error_encountered := True\<rparr>, out)
      else
        let ctx = ctx\<lparr>ctx_data := (ctx_data ctx)[data_used ctx := c], data_used := data_used ctx + 1\<rparr> in
        if data_used ctx = 4 then
          (case base64_decode_quad (ctx_data ctx) of
             None \<Rightarrow> (False, ctx\<lparr>error_encountered := True\<rparr>, out)
           | Some bs \<Rightarrow>
               let ctx = ctx\<lparr>data_used := 0\<rparr> in
               decode_update_loop (if length bs < 3 then ctx\<lparr>eof_seen := True\<rparr> else ctx) input (out @ bs))
        else decode_update_loop ctx input out)"

text \<open>Context, bytes written, \<open>*out_len\<close> and the result.\<close>

definition EVP_DecodeUpdate :: "EVP_ENCODE_CTX \<Rightarrow> bytes \<Rightarrow> EVP_ENCODE_CTX \<times> bytes \<times> nat \<times> int" where
  "EVP_DecodeUpdate ctx input =
     (if error_encountered ctx then (ctx, [], 0, -1)
      else case decode_update_loop ctx input [] of
        (False, ctx, out) \<Rightarrow> (ctx, out, 0, -1)
      | (True, ctx, out) \<Rightarrow>
          if length out > INT_MAX then (ctx\<lparr>error_encountered := True\<rparr>, out, 0, -1)
          else (ctx, out, length out, if eof_seen ctx then 0 else 1))"

definition EVP_DecodeFinal :: "EVP_ENCODE_CTX \<Rightarrow> int" where
  "EVP_DecodeFinal ctx = (if error_encountered ctx \<or> data_used ctx \<noteq> 0 then -1 else 1)"

text \<open>The loop of \<open>EVP_DecodeBase64\<close>; \<open>i \<noteq> in_len - 4\<close> says that more quads follow.\<close>

function decode_base64_loop :: "bytes \<Rightarrow> nat \<Rightarrow> bytes \<Rightarrow> bool \<times> bytes" where
  "decode_base64_loop input i out =
     (if i < length input then
        (case base64_decode_quad (drop i input) of
           None \<Rightarrow> (False, out)
         | Some bs \<Rightarrow>
             if length bs \<noteq> 3 \<and> i \<noteq> length input - 4 then (False, out @ bs)
             else decode_base64_loop input (i + 4) (out @ bs))
      else (True, out))"
  by pat_completeness auto
termination
  by (relation "measure (\<lambda>(input, i, _). length input - i)") auto

declare decode_base64_loop.simps [simp del]

text \<open>Result, \<open>*out_len\<close> and the bytes written.\<close>

definition EVP_DecodeBase64 :: "nat \<Rightarrow> bytes \<Rightarrow> bool \<times> nat \<times> bytes" where
  "EVP_DecodeBase64 max_out input =
     (if length input mod 4 \<noteq> 0 then (False, 0, [])
      else case EVP_DecodedLength (length input) of
        None \<Rightarrow> (False, 0, [])
      | Some max_len \<Rightarrow>
          if max_out < max_len then (False, 0, [])
          else case decode_base64_loop input 0 [] of
            (False, out) \<Rightarrow> (False, 0, out)
          | (True, out) \<Rightarrow> (True, length out, out))"

text \<open>\<open>None\<close> is the result -1; otherwise the bytes at \<open>dst\<close>, whose number is the result.\<close>

definition EVP_DecodeBlock :: "bytes \<Rightarrow> bytes option" where
  "EVP_DecodeBlock src =
     (let src = dropWhile (\<lambda>c. c = 0x20 \<or> c = 0x09) src;
          src = rev (dropWhile is_ws (rev src)) in
      case EVP_DecodedLength (length src) of
        None \<Rightarrow> None
      | Some dst_len \<Rightarrow>
          if dst_len > INT_MAX then None
          else case EVP_DecodeBase64 dst_len src of
            (False, _) \<Rightarrow> None
          | (True, _, dst) \<Rightarrow> Some (dst @ replicate ((3 - length dst mod 3) mod 3) 0))"


section \<open>The alphabet\<close>

definition b64_alphabet :: bytes where
  "b64_alphabet = map of_char ''ABCDEFGHIJKLMNOPQRSTUVWXYZabcdefghijklmnopqrstuvwxyz0123456789+/''"

definition b64_char :: "nat \<Rightarrow> nat" where
  "b64_char n = (if n < 26 then n + 65 else if n < 52 then n + 71 else if n < 62 then n - 4 else if n = 62 then 43 else 47)"

lemma length_b64_alphabet [simp]: "length b64_alphabet = 64"
  by (simp add: b64_alphabet_def)

lemma b64_alphabet_nth:
  assumes "n < 64"
  shows "b64_alphabet ! n = of_nat (b64_char n)"
proof -
  have "b64_alphabet = map (\<lambda>n. of_nat (b64_char n)) [0..<64]"
    by (simp add: b64_alphabet_def b64_char_def upt_conv_Cons)
  then have "b64_alphabet ! n = map (\<lambda>n. of_nat (b64_char n)) [0..<64] ! n" by (rule arg_cong)
  also have "\<dots> = of_nat (b64_char (0 + n))" by (rule nth_map_upt) (use assms in simp)
  finally show ?thesis by simp
qed

lemma lt_args_8: "constant_time_lt_args_8 a b = mask_of (a < b)"
proof -
  have "bit (ucast a - ucast b :: u64) 63 \<longleftrightarrow> unat a < unat b"
    using unat_u8_lt [of a] unat_u8_lt [of b] unfolding msb_ge
    by (auto simp: unat_sub_if' unat_ucast_up)
  then show ?thesis
    unfolding constant_time_lt_args_8_def Let_def msb_w ucast_mask by (simp add: word_less_nat_alt)
qed

lemma in_range_8:
  assumes "mn \<le> mx" "unat mx - unat mn < 255"
  shows "constant_time_in_range_8 a mn mx = mask_of (mn \<le> a \<and> a \<le> mx)"
proof -
  have "unat (mx - mn) = unat mx - unat mn" using assms(1) by (simp add: unat_sub)
  then have u: "unat (mx - mn + 1) = unat mx - unat mn + 1" using assms(2) by (simp add: unat_word_ariths)
  have "a - mn < mx - mn + 1 \<longleftrightarrow> mn \<le> a \<and> a \<le> mx"
    using assms unat_u8_lt [of a] unat_u8_lt [of mx] unfolding word_less_nat_alt u word_le_nat_alt
    by (auto simp: unat_sub_if')
  then show ?thesis by (simp add: constant_time_in_range_8_def lt_args_8)
qed

lemma ucast_eq_numeral_u8:
  "(ucast (a :: u8) :: u64) = w \<longleftrightarrow> unat a = unat w"
proof -
  have "unat (ucast a :: u64) = unat a" by (simp add: unat_ucast_up)
  then show ?thesis by (metis word_unat_eq_iff)
qed


lemma u64_mod_cast [simp]: "unat (ucast (a :: u8) :: u64) = unat a"
  by (simp add: unat_ucast_up)

lemma conv_bin2ascii_alphabet: "conv_bin2ascii a = b64_alphabet ! (unat a mod 64)"
proof -
  define b where "b = a AND 0x3f"
  have "(0x3f :: u8) = mask 6" by (simp add: mask_eq_exp_minus_1)
  then have ub: "unat b = unat a mod 64" using unat_and_mask [of a 6] by (simp add: b_def)
  have "conv_bin2ascii a = (if b < 26 then b + 0x41 else if b < 52 then b - 26 + 0x61
      else if b < 62 then b - 52 + 0x30 else if ucast b = (62 :: u64) then 0x2b else 0x2f)"
    unfolding conv_bin2ascii_def Let_def b_def [symmetric] constant_time_masks lt_args_8 select_8 by simp
  also have "\<dots> = of_nat (b64_char (unat b))"
    by (rule word_eq_of_nat)
      (auto simp: b64_char_def word_less_nat_alt ucast_eq_numeral_u8 unat_word_ariths unat_sub_if' unat_of_nat)
  also have "\<dots> = b64_alphabet ! (unat a mod 64)" by (simp add: ub b64_alphabet_nth)
  finally show ?thesis .
qed

lemma ascii_to_bin_value:
  "base64_ascii_to_bin c =
    (let n = unat c in if n = 61 then 0 else if n = 47 then 63 else if n = 43 then 62
     else if 48 \<le> n \<and> n \<le> 57 then of_nat (n + 4) else if 97 \<le> n \<and> n \<le> 122 then of_nat (n - 71)
     else if 65 \<le> n \<and> n \<le> 90 then of_nat (n - 65) else 0xff)"
proof -
  have r: "constant_time_in_range_8 c 0x41 0x5a = mask_of (0x41 \<le> c \<and> c \<le> 0x5a)"
    "constant_time_in_range_8 c 0x61 0x7a = mask_of (0x61 \<le> c \<and> c \<le> 0x7a)"
    "constant_time_in_range_8 c 0x30 0x39 = mask_of (0x30 \<le> c \<and> c \<le> 0x39)"
    by (rule in_range_8; simp)+
  have "base64_ascii_to_bin c = (if ucast c = (0x3d :: u64) then 0 else if ucast c = (0x2f :: u64) then 63
      else if ucast c = (0x2b :: u64) then 62 else if 0x30 \<le> c \<and> c \<le> 0x39 then c - 0x30 + 52
      else if 0x61 \<le> c \<and> c \<le> 0x7a then c - 0x61 + 26 else if 0x41 \<le> c \<and> c \<le> 0x5a then c - 0x41 else 0xff)"
    unfolding base64_ascii_to_bin_def Let_def r constant_time_masks select_8 ..
  moreover have "c - 0x30 + 52 = of_nat (unat c + 4)" if "48 \<le> unat c" "unat c \<le> 57"
    by (rule word_eq_of_nat) (use that in \<open>simp add: unat_word_ariths unat_sub_if'\<close>)
  moreover have "c - 0x61 + 26 = of_nat (unat c - 71)" if "97 \<le> unat c" "unat c \<le> 122"
    by (rule word_eq_of_nat) (use that in \<open>simp add: unat_word_ariths unat_sub_if'\<close>)
  moreover have "c - 0x41 = of_nat (unat c - 65)" if "65 \<le> unat c" "unat c \<le> 90"
    by (rule word_eq_of_nat) (use that in \<open>simp add: unat_sub_if'\<close>)
  ultimately show ?thesis
    by (simp add: Let_def ucast_eq_numeral_u8 word_le_nat_alt)
qed


section \<open>Quads\<close>

lemma ascii_to_bin_alphabet:
  assumes "k < 64"
  shows "base64_ascii_to_bin (b64_alphabet ! k) = of_nat k" "b64_alphabet ! k \<noteq> 0x3d" "\<not> is_ws (b64_alphabet ! k)"
proof -
  have b: "b64_char k < 256" using assms by (auto simp: b64_char_def)
  have u: "unat (b64_alphabet ! k) = b64_char k"
    unfolding b64_alphabet_nth [OF assms] by (rule unat_of_nat_u8 [OF b])
  consider "k < 26" | "26 \<le> k" "k < 52" | "52 \<le> k" "k < 62" | "k = 62" | "k = 63" using assms by linarith
  then show "base64_ascii_to_bin (b64_alphabet ! k) = of_nat k"
    unfolding ascii_to_bin_value u by cases (auto simp: b64_char_def Let_def)
  have n: "b64_char k \<noteq> 61" "43 \<le> b64_char k" using assms by (auto simp: b64_char_def)
  from n(1) u show "b64_alphabet ! k \<noteq> 0x3d" by auto
  from n(2) u show "\<not> is_ws (b64_alphabet ! k)" by (auto simp: is_ws_def)
qed

lemma ascii_to_bin_valid:
  assumes "base64_ascii_to_bin c \<noteq> 0xff" "c \<noteq> 0x3d"
  shows "\<exists>k < 64. c = b64_alphabet ! k"
proof -
  let ?n = "unat c"
  have n61: "?n \<noteq> 61" using assms(2) u8_eq_of_nat [of c 61] by auto
  have k: "c = b64_alphabet ! k" if "k < 64" "b64_char k = ?n" for k
    using u8_eq_of_nat [of c ?n] that by (simp add: b64_alphabet_nth)
  consider "?n = 47" | "?n = 43" | "48 \<le> ?n" "?n \<le> 57" | "97 \<le> ?n" "?n \<le> 122" | "65 \<le> ?n" "?n \<le> 90"
    using assms(1) n61 unfolding ascii_to_bin_value Let_def by (auto split: if_splits)
  then show ?thesis
  proof cases
    case 1 then show ?thesis by (intro exI [of _ 63] conjI k) (auto simp: b64_char_def)
  next
    case 2 then show ?thesis by (intro exI [of _ 62] conjI k) (auto simp: b64_char_def)
  next
    case 3 then show ?thesis by (intro exI [of _ "?n + 4"] conjI k) (auto simp: b64_char_def)
  next
    case 4 then show ?thesis by (intro exI [of _ "?n - 71"] conjI k) (auto simp: b64_char_def)
  next
    case 5 then show ?thesis by (intro exI [of _ "?n - 65"] conjI k) (auto simp: b64_char_def)
  qed
qed

lemma push_or_sum32:
  assumes "unat (a :: u8) < 64" "unat (b :: u8) < 64" "unat (c :: u8) < 64" "unat (d :: u8) < 64"
  shows "unat (push_bit 18 (ucast a) OR push_bit 12 (ucast b) OR push_bit 6 (ucast c) OR ucast d :: u32)
    = 262144 * unat a + 4096 * unat b + 64 * unat c + unat d"
proof -
  have u: "unat (ucast x :: u32) = unat x" for x :: u8 by (simp add: unat_ucast_up)
  have s: "push_bit 6 (ucast c) OR ucast d = push_bit 6 (ucast c) + (ucast d :: u32)"
    using assms u by (intro push_bit_or_low) simp
  have s1: "unat (push_bit 6 (ucast c) + (ucast d :: u32)) = 64 * unat c + unat d"
    using assms by (simp add: unat_word_ariths unat_push_bit u)
  have t: "push_bit 12 (ucast b) OR (push_bit 6 (ucast c) + ucast d)
      = push_bit 12 (ucast b) + (push_bit 6 (ucast c) + (ucast d :: u32))"
    using assms s1 by (intro push_bit_or_low) simp
  have t1: "unat (push_bit 12 (ucast b) + (push_bit 6 (ucast c) + (ucast d :: u32)))
      = 4096 * unat b + (64 * unat c + unat d)"
    using assms s1 by (simp add: unat_word_ariths unat_push_bit u)
  have v: "push_bit 18 (ucast a) OR (push_bit 12 (ucast b) + (push_bit 6 (ucast c) + ucast d))
      = push_bit 18 (ucast a) + (push_bit 12 (ucast b) + (push_bit 6 (ucast c) + (ucast d :: u32)))"
    using assms t1 by (intro push_bit_or_low) simp
  have v1: "unat (push_bit 18 (ucast a) + (push_bit 12 (ucast b) + (push_bit 6 (ucast c) + (ucast d :: u32))))
      = 262144 * unat a + (4096 * unat b + (64 * unat c + unat d))"
    using assms t1 by (simp add: unat_word_ariths unat_push_bit u)
  show ?thesis using v1 by (simp only: or.assoc s t v add.assoc)
qed

text \<open>The bytes of a 24-bit number and the four characters of a group.\<close>

definition b64_quad :: "nat \<Rightarrow> bytes" where
  "b64_quad n = [b64_alphabet ! (n div 262144 mod 64), b64_alphabet ! (n div 4096 mod 64),
     b64_alphabet ! (n div 64 mod 64), b64_alphabet ! (n mod 64)]"

lemma decode_quad_alphabet:
  assumes "k0 < 64" "k1 < 64" "k2 < 64" "k3 < 64"
    and "n = 262144 * k0 + 4096 * k1 + 64 * k2 + k3"
  shows "base64_decode_quad (b64_alphabet ! k0 # b64_alphabet ! k1 # b64_alphabet ! k2 # b64_alphabet ! k3 # rest)
      = Some [of_nat (n div 65536), of_nat (n div 256), of_nat n]"
    and "base64_decode_quad (b64_alphabet ! k0 # b64_alphabet ! k1 # b64_alphabet ! k2 # 0x3d # rest)
      = Some [of_nat ((n - k3) div 65536), of_nat ((n - k3) div 256)]"
    and "base64_decode_quad (b64_alphabet ! k0 # b64_alphabet ! k1 # 0x3d # 0x3d # rest)
      = Some [of_nat ((n - k3 - 64 * k2) div 65536)]"
proof -
  have ff: "of_nat k \<noteq> (0xff :: u8)" and un: "unat (of_nat k :: u8) = k" if "k < 64" for k
  proof -
    show un: "unat (of_nat k :: u8) = k" using that by (intro unat_of_nat_u8) simp
    then show "of_nat k \<noteq> (0xff :: u8)" using that by auto
  qed
  have e: "base64_ascii_to_bin 0x3d = of_nat 0" by (simp add: ascii_to_bin_value)
  have b: "(ucast (drop_bit j v) :: u8) = of_nat (m div 2 ^ j)" "(ucast v :: u8) = of_nat m"
    if "unat v = m" for j and v :: u32 and m
    using that by (simp_all add: word_unat_eq_iff unat_ucast unat_drop_bit unat_of_nat)
  note A = ascii_to_bin_alphabet [OF assms(1)] ascii_to_bin_alphabet [OF assms(2)]
    ascii_to_bin_alphabet [OF assms(3)] ascii_to_bin_alphabet [OF assms(4)]
  note F = ff [OF assms(1)] ff [OF assms(2)] ff [OF assms(3)] ff [OF assms(4)]
  note U = un [OF assms(1)] un [OF assms(2)] un [OF assms(3)] un [OF assms(4)]
  have S: "unat (push_bit 18 (ucast (of_nat x :: u8)) OR push_bit 12 (ucast (of_nat y :: u8)) OR
      push_bit 6 (ucast (of_nat z :: u8)) OR ucast (of_nat w :: u8) :: u32) = 262144 * x + 4096 * y + 64 * z + w"
    if "x < 64" "y < 64" "z < 64" "w < 64" for x y z w
    using push_or_sum32 [of "of_nat x" "of_nat y" "of_nat z" "of_nat w"] that by (simp add: un)
  have z: "(0 :: nat) < 64" by simp
  have l: "(x # y # z # w # r) ! 0 = x" "(x # y # z # w # r) ! 1 = y" "(x # y # z # w # r) ! 2 = z"
    "(x # y # z # w # r) ! 3 = w" for x y z w :: u8 and r by simp_all
  show "base64_decode_quad (b64_alphabet ! k0 # b64_alphabet ! k1 # b64_alphabet ! k2 # b64_alphabet ! k3 # rest)
      = Some [of_nat (n div 65536), of_nat (n div 256), of_nat n]"
    unfolding base64_decode_quad_def Let_def l A(1,4,7,10) b [OF S [OF assms(1-4)]] assms(5)
    using A(2,5,8,11) F by simp
  show "base64_decode_quad (b64_alphabet ! k0 # b64_alphabet ! k1 # b64_alphabet ! k2 # 0x3d # rest)
      = Some [of_nat ((n - k3) div 65536), of_nat ((n - k3) div 256)]"
    unfolding base64_decode_quad_def Let_def l A(1,4,7) e b [OF S [OF assms(1-3) z]] assms(5)
    using A(2,5,8) F ff [OF z] by simp
  show "base64_decode_quad (b64_alphabet ! k0 # b64_alphabet ! k1 # 0x3d # 0x3d # rest)
      = Some [of_nat ((n - k3 - 64 * k2) div 65536)]"
    unfolding base64_decode_quad_def Let_def l A(1,4) e b [OF S [OF assms(1,2) z z]] assms(5)
    using A(2,5) F ff [OF z] by simp
qed


section \<open>Groups\<close>

lemma sextets:
  assumes "n < 16777216"
  shows "n = 262144 * (n div 262144 mod 64) + 4096 * (n div 4096 mod 64) + 64 * (n div 64 mod 64) + n mod (64 :: nat)"
proof -
  have a: "n div 4096 = n div 64 div 64" "n div 262144 = n div 64 div 64 div 64" by (simp_all flip: div_mult2_eq)
  define q p r where "q = n div 64" and "p = q div 64" and "r = p div 64"
  have "r < 64" using assms unfolding q_def p_def r_def by (simp flip: div_mult2_eq add: less_mult_imp_div_less)
  then have "r mod 64 = r" by simp
  moreover have "n = 64 * q + n mod 64" "q = 64 * p + q mod 64" "p = 64 * r + p mod 64"
    by (simp_all add: q_def p_def r_def)
  ultimately show ?thesis unfolding a q_def [symmetric] p_def [symmetric] r_def [symmetric] by linarith
qed

lemma shift_or_sum32:
  fixes a b c :: u8
  shows "unat (push_bit 16 (ucast a) OR push_bit 8 (ucast b) OR ucast c :: u32) = 65536 * unat a + 256 * unat b + unat c"
proof -
  have u: "unat (ucast x :: u32) = unat x" for x :: u8 by (simp add: unat_ucast_up)
  have s: "push_bit 8 (ucast b) OR ucast c = push_bit 8 (ucast b) + (ucast c :: u32)"
    using unat_u8_lt [of c] u by (intro push_bit_or_low) simp
  have s1: "unat (push_bit 8 (ucast b) + (ucast c :: u32)) = 256 * unat b + unat c"
    using unat_u8_lt [of b] unat_u8_lt [of c] by (simp add: unat_word_ariths unat_push_bit u)
  have t: "push_bit 16 (ucast a) OR (push_bit 8 (ucast b) + ucast c) = push_bit 16 (ucast a) + (push_bit 8 (ucast b) + (ucast c :: u32))"
    using unat_u8_lt [of b] unat_u8_lt [of c] s1 by (intro push_bit_or_low) simp
  have "unat (push_bit 16 (ucast a) + (push_bit 8 (ucast b) + (ucast c :: u32))) = 65536 * unat a + (256 * unat b + unat c)"
    using unat_u8_lt [of a] unat_u8_lt [of b] unat_u8_lt [of c] s1 by (simp add: unat_word_ariths unat_push_bit u)
  then show ?thesis by (simp only: or.assoc s t add.assoc)
qed

lemma conv_shift:
  assumes "unat (l :: u32) = n"
  shows "conv_bin2ascii (ucast (drop_bit j l)) = b64_alphabet ! (n div 2 ^ j mod 64)"
    and "conv_bin2ascii (ucast l) = b64_alphabet ! (n mod 64)"
proof -
  have "m mod 256 mod 64 = m mod (64 :: nat)" for m by (simp add: mod_mod_cancel)
  then show "conv_bin2ascii (ucast (drop_bit j l)) = b64_alphabet ! (n div 2 ^ j mod 64)"
    and "conv_bin2ascii (ucast l) = b64_alphabet ! (n mod 64)"
    by (simp_all add: conv_bin2ascii_alphabet unat_ucast unat_drop_bit assms)
qed

lemma encode_group:
  "encode_block_loop (a # b # c # src) = b64_quad (65536 * unat a + 256 * unat b + unat c) @ encode_block_loop src"
  "encode_block_loop [a, b] = take 3 (b64_quad (65536 * unat a + 256 * unat b)) @ [0x3d]"
  "encode_block_loop [a] = take 2 (b64_quad (65536 * unat a)) @ [0x3d, 0x3d]"
proof -
  show "encode_block_loop (a # b # c # src) = b64_quad (65536 * unat a + 256 * unat b + unat c) @ encode_block_loop src"
    unfolding encode_block_loop.simps Let_def conv_shift [OF shift_or_sum32] b64_quad_def by simp
  have l2: "unat (push_bit 16 (ucast a) OR push_bit 8 (ucast b) :: u32) = 65536 * unat a + 256 * unat b"
    using shift_or_sum32 [of a b 0] by simp
  show "encode_block_loop [a, b] = take 3 (b64_quad (65536 * unat a + 256 * unat b)) @ [0x3d]"
    unfolding encode_block_loop.simps Let_def conv_shift [OF l2] b64_quad_def by simp
  have l1: "unat (push_bit 16 (ucast a) :: u32) = 65536 * unat a"
    using shift_or_sum32 [of a 0 0] by simp
  show "encode_block_loop [a] = take 2 (b64_quad (65536 * unat a)) @ [0x3d, 0x3d]"
    unfolding encode_block_loop.simps Let_def conv_shift [OF l1] b64_quad_def by simp
qed

lemma decode_group:
  "base64_decode_quad (b64_quad (65536 * unat a + 256 * unat b + unat c) @ rest) = Some [a, b, c]"
  "base64_decode_quad (take 3 (b64_quad (65536 * unat a + 256 * unat b)) @ 0x3d # rest) = Some [a, b]"
  "base64_decode_quad (take 2 (b64_quad (65536 * unat a)) @ 0x3d # 0x3d # rest) = Some [a]"
proof -
  note lt = unat_u8_lt [of a] unat_u8_lt [of b] unat_u8_lt [of c]
  have m: "x mod 64 < (64 :: nat)" for x by simp
  have w: "of_nat (256 * x + unat (y :: u8)) = y" for x y
    using unat_u8_lt [of y] by (simp add: word_unat_eq_iff unat_of_nat del: of_nat_add of_nat_mult)
  show "base64_decode_quad (b64_quad (65536 * unat a + 256 * unat b + unat c) @ rest) = Some [a, b, c]"
  proof -
    define n where "n = 65536 * unat a + 256 * unat b + unat c"
    have n: "n < 16777216" using lt by (simp add: n_def)
    have "n div 65536 = unat a" using lt by (simp add: n_def)
    moreover have "n div 256 = 256 * unat a + unat b" using lt by (simp add: n_def)
    then have "of_nat (n div 256) = b" by (metis w)
    moreover have "n = 256 * (256 * unat a + unat b) + unat c" by (simp add: n_def)
    then have "of_nat n = c" by (metis w)
    ultimately show ?thesis
      using decode_quad_alphabet(1) [OF m m m m sextets [OF n], of rest]
      unfolding n_def [symmetric] b64_quad_def by simp
  qed
  show "base64_decode_quad (take 3 (b64_quad (65536 * unat a + 256 * unat b)) @ 0x3d # rest) = Some [a, b]"
  proof -
    define n where "n = 65536 * unat a + 256 * unat b"
    have n: "n < 16777216" using lt by (simp add: n_def)
    have "n = 64 * (1024 * unat a + 4 * unat b)" by (simp add: n_def)
    then have "n mod 64 = 0" by simp
    moreover have "n div 65536 = unat a" using lt by (simp add: n_def)
    moreover have "n div 256 = 256 * unat a + unat b" using lt by (simp add: n_def)
    then have "of_nat (n div 256) = b" by (metis w)
    ultimately show ?thesis
      using decode_quad_alphabet(2) [OF m m m m sextets [OF n], of rest]
      unfolding n_def [symmetric] b64_quad_def by simp
  qed
  show "base64_decode_quad (take 2 (b64_quad (65536 * unat a)) @ 0x3d # 0x3d # rest) = Some [a]"
  proof -
    define n where "n = 65536 * unat a"
    have n: "n < 16777216" using lt by (simp add: n_def)
    have "n = 64 * (1024 * unat a)" "n div 64 = 64 * (16 * unat a)" by (simp_all add: n_def)
    then have "n mod 64 = 0" "n div 64 mod 64 = 0" by simp_all
    moreover have "n div 65536 = unat a" using lt by (simp add: n_def)
    ultimately show ?thesis
      using decode_quad_alphabet(3) [OF m m m m sextets [OF n], of rest]
      unfolding n_def [symmetric] b64_quad_def by simp
  qed
qed


section \<open>Whole strings\<close>

lemma decode_quad_take: "base64_decode_quad (take 4 xs @ ys) = base64_decode_quad xs" if "4 \<le> length xs"
proof -
  have "(take 4 xs @ ys) ! i = xs ! i" if "i < 4" for i
    using \<open>4 \<le> length xs\<close> that by (simp add: nth_append)
  then show ?thesis unfolding base64_decode_quad_def by simp
qed

lemma length_encode_block_loop: "length (encode_block_loop src) = 4 * ((length src + 2) div 3)"
proof (induction src rule: encode_block_loop.induct)
  case (1 a b c src)
  have "(length (a # b # c # src) + 2) div 3 = 1 + (length src + 2) div 3" by simp
  then show ?case unfolding encode_group(1) using "1.IH" by (simp add: b64_quad_def)
qed (simp_all add: encode_group b64_quad_def del: encode_block_loop.simps(1,3,4))

text \<open>Decoding the text of \<open>src\<close> from position \<open>i\<close> on.\<close>

lemma decode_loop_text:
  "drop i input = encode_block_loop src \<Longrightarrow> i \<le> length input \<Longrightarrow>
    decode_base64_loop input i out = (True, out @ src)"
proof (induction src arbitrary: i out rule: encode_block_loop.induct)
  case (1 a b c src)
  have d: "drop i input = b64_quad (65536 * unat a + 256 * unat b + unat c) @ encode_block_loop src"
    using "1.prems"(1) by (simp only: encode_group)
  have l: "length input - i = 4 + length (encode_block_loop src)"
    using arg_cong [OF d, of length] by (simp add: b64_quad_def)
  then have "i < length input" by simp
  moreover have "base64_decode_quad (drop i input) = Some [a, b, c]" unfolding d by (rule decode_group(1))
  moreover have "drop (i + 4) input = drop 4 (drop i input)" by (simp add: add.commute)
  then have "drop (i + 4) input = encode_block_loop src" unfolding d by (simp add: b64_quad_def)
  then have "decode_base64_loop input (i + 4) (out @ [a, b, c]) = (True, (out @ [a, b, c]) @ src)"
    using l "1.prems"(2) by (intro "1.IH") simp_all
  ultimately show ?case by (subst decode_base64_loop.simps) simp
next
  case 2
  then show ?case by (subst decode_base64_loop.simps) simp
next
  case (3 a)
  have d: "drop i input = take 2 (b64_quad (65536 * unat a)) @ [0x3d, 0x3d]"
    using "3.prems"(1) by (simp only: encode_group)
  have "length input - i = 4" using arg_cong [OF d, of length] by (simp add: b64_quad_def)
  then have "i = length input - 4" "i < length input" "\<not> i + 4 < length input" by simp_all
  moreover have "base64_decode_quad (drop i input) = Some [a]" unfolding d using decode_group(3) [of a "[]"] by simp
  ultimately show ?case 
    by (subst decode_base64_loop.simps, subst decode_base64_loop.simps) simp
next
  case (4 a b)
  have d: "drop i input = take 3 (b64_quad (65536 * unat a + 256 * unat b)) @ [0x3d]"
    using "4.prems"(1) by (simp only: encode_group)
  have "length input - i = 4" using arg_cong [OF d, of length] by (simp add: b64_quad_def)
  then have "i = length input - 4" "i < length input" "\<not> i + 4 < length input" by simp_all
  moreover have "base64_decode_quad (drop i input) = Some [a, b]" unfolding d using decode_group(2) [of a b "[]"] by simp
  ultimately show ?case 
    by (subst decode_base64_loop.simps, subst decode_base64_loop.simps) simp
qed

lemma EVP_DecodeBase64_encode:
  assumes "3 * ((length src + 2) div 3) \<le> max_out"
  shows "EVP_DecodeBase64 max_out (encode_block_loop src) = (True, length src, src)"
proof -
  have l: "length (encode_block_loop src) = 4 * ((length src + 2) div 3)" by (rule length_encode_block_loop)
  have "EVP_DecodedLength (length (encode_block_loop src)) = Some (3 * ((length src + 2) div 3))"
    unfolding l EVP_DecodedLength_def by simp
  moreover have "decode_base64_loop (encode_block_loop src) 0 [] = (True, src)"
    using decode_loop_text [of 0 "encode_block_loop src" src "[]"] by simp
  ultimately show ?thesis using assms l by (simp add: EVP_DecodeBase64_def)
qed

lemma EVP_EncodedLength_exact:
  assumes "length src < 2 ^ 62"
  shows "EVP_EncodedLength (length src) = Some (length (snd (EVP_EncodeBlock src)))"
proof -
  define n where "n = length src"
  note assms = assms [folded n_def]
  have a: "size_add n 2 = n + 2" using assms by (intro size_add_exact) simp
  define l where "l = (n + 2) div 3"
  have "3 * l \<le> n + 2" unfolding l_def by presburger
  then have b: "l * 4 < 2 ^ 64 - 1" using assms by simp
  then have m: "size_mul l 4 = l * 4" by (simp add: size_mul_def)
  have c: "size_add (l * 4) 1 = l * 4 + 1" using b by (intro size_add_exact) simp
  have "length (snd (EVP_EncodeBlock src)) = l * 4 + 1"
    by (simp add: EVP_EncodeBlock_def Let_def length_encode_block_loop l_def n_def)
  then show ?thesis
    unfolding n_def [symmetric] EVP_EncodedLength_def a l_def [symmetric] Let_def m c by simp
qed

section \<open>Streaming\<close>

text \<open>The complete lines of a text and what is left over.\<close>

function full_lines :: "bytes \<Rightarrow> bytes" where
  "full_lines xs = (if 48 \<le> length xs then encode_block_loop (take 48 xs) @ [0x0a] @ full_lines (drop 48 xs) else [])"
  by pat_completeness auto
termination
  by (relation "measure length") auto

function rest48 :: "bytes \<Rightarrow> bytes" where
  "rest48 xs = (if 48 \<le> length xs then rest48 (drop 48 xs) else xs)"
  by pat_completeness auto
termination
  by (relation "measure length") auto

declare full_lines.simps [simp del] rest48.simps [simp del]

lemma length_rest48: "length (rest48 xs) < 48"
  by (induction xs rule: rest48.induct) (subst rest48.simps, simp)

lemma full_lines_append: "full_lines (xs @ ys) = full_lines xs @ full_lines (rest48 xs @ ys)"
  and rest48_append: "rest48 (xs @ ys) = rest48 (rest48 xs @ ys)"
proof (induction xs rule: rest48.induct)
  case (1 xs)
  { case 1
    show ?case using "1.IH"(1)
      by (cases "48 \<le> length xs") (simp_all add: full_lines.simps [of xs] full_lines.simps [of "xs @ ys"] rest48.simps [of xs])
  next
    case 2
    show ?case using "1.IH"(2)
      by (cases "48 \<le> length xs") (simp_all add: rest48.simps [of xs] rest48.simps [of "xs @ ys"])
  }
qed

lemma full_lines_short: "length xs < 48 \<Longrightarrow> full_lines xs = []" "length xs < 48 \<Longrightarrow> rest48 xs = xs"
  by (simp_all add: full_lines.simps [of xs] rest48.simps [of xs])

lemma length_full_lines: "48 * length (full_lines xs) \<le> 65 * length xs"
proof (induction xs rule: full_lines.induct)
  case (1 xs)
  show ?case
  proof (cases "48 \<le> length xs")
    case True
    then have "length (encode_block_loop (take 48 xs)) = 64" by (simp add: length_encode_block_loop)
    with 1 True show ?thesis by (simp add: full_lines.simps [of xs])
  qed (simp add: full_lines_short)
qed

lemma encode_update_loop_lines:
  "tot + 2 * length input < 2 ^ 63 \<Longrightarrow>
    encode_update_loop input out tot = (True, rest48 input, out @ full_lines input, tot + length (full_lines input))"
proof (induction input out tot rule: encode_update_loop.induct)
  case (1 input out tot)
  show ?case
  proof (cases "48 \<le> length input")
    case False
    then show ?thesis by (simp add: encode_update_loop.simps [of input] full_lines_short)
  next
    case True
    then have l: "length (encode_block_loop (take 48 input)) = 64" by (simp add: length_encode_block_loop)
    have a: "size_add tot 65 = tot + 65" using "1.prems" by (intro size_add_exact) simp
    have "encode_update_loop (drop 48 input) (out @ encode_block_loop (take 48 input) @ [0x0a]) (tot + 65) =
      (True, rest48 (drop 48 input), (out @ encode_block_loop (take 48 input) @ [0x0a]) @ full_lines (drop 48 input),
       tot + 65 + length (full_lines (drop 48 input)))"
      using "1.IH" [OF True refl _ refl refl, of "length (encode_block_loop (take 48 input))"
          "encode_block_loop (take 48 input) @ [0]"] "1.prems" True l a
      by (simp add: EVP_EncodeBlock_def Let_def)
    then show ?thesis using True l a
      by (simp add: encode_update_loop.simps [of input] full_lines.simps [of input] rest48.simps [of input]
          EVP_EncodeBlock_def Let_def)
  qed
qed

text \<open>What an encoding context holds back.\<close>

definition enc_ctx_ok :: "EVP_ENCODE_CTX \<Rightarrow> bool" where
  "enc_ctx_ok ctx \<longleftrightarrow> length (ctx_data ctx) = 48 \<and> data_used ctx < 48"

definition held :: "EVP_ENCODE_CTX \<Rightarrow> bytes" where
  "held ctx = take (data_used ctx) (ctx_data ctx)"

lemma length_held: "enc_ctx_ok ctx \<Longrightarrow> length (held ctx) = data_used ctx"
  by (simp add: enc_ctx_ok_def held_def)


lemma full_lines_held: "enc_ctx_ok ctx \<Longrightarrow> full_lines (held ctx) = []"
  using length_held [of ctx] by (simp add: full_lines_short enc_ctx_ok_def)

lemma EVP_EncodeUpdate_lines:
  assumes "enc_ctx_ok ctx" "length input < 2 ^ 61"
  shows "\<exists>ctx'. EVP_EncodeUpdate ctx input = (ctx', terminated (full_lines (held ctx @ input)),
      let n = length (full_lines (held ctx @ input)) in if n > INT_MAX then 0 else n)
    \<and> enc_ctx_ok ctx' \<and> held ctx' = rest48 (held ctx @ input)"
proof -
  define u where "u = data_used ctx"
  have u: "u < 48" "length (ctx_data ctx) = 48" using assms(1) by (simp_all add: enc_ctx_ok_def u_def)
  have h: "held ctx = take u (ctx_data ctx)" "length (held ctx) = u" using u by (simp_all add: held_def u_def)
  consider "input = []" | "input \<noteq> []" "u + length input < 48" | "48 \<le> u + length input" by linarith
  then show ?thesis
  proof cases
    case 1
    then show ?thesis using assms(1) h u
      by (simp add: EVP_EncodeUpdate_def full_lines_short terminated_def)
  next
    case 2
    define ctx' where "ctx' = ctx\<lparr>ctx_data := blit (ctx_data ctx) u input, data_used := u + length input\<rparr>"
    have "48 - data_used ctx > length input" using 2 unfolding u_def by linarith
    then have "EVP_EncodeUpdate ctx input = (ctx', [], 0)"
      using 2 by (simp add: EVP_EncodeUpdate_def ctx'_def u_def)
    moreover have "held ctx' = held ctx @ input" "enc_ctx_ok ctx'"
      using 2 u by (simp_all add: held_def ctx'_def h take_blit_end enc_ctx_ok_def u_def [symmetric])
    ultimately show ?thesis using 2 h by (simp add: full_lines_short terminated_def)
  next
    case 3
    define todo where "todo = 48 - u"
    define data where "data = held ctx @ take todo input"
    have ld: "length data = 48" using 3 u h(2) by (simp add: data_def todo_def)
    have all: "held ctx @ input = data @ drop todo input" by (simp add: data_def)
    define start where "start = (if u = 0 then (ctx, input, [], 0) else
      (ctx\<lparr>ctx_data := data, data_used := 0\<rparr>, drop todo input, encode_block_loop data @ [0x0a], 65 :: nat))"
    obtain c0 in0 out0 t0 where st: "start = (c0, in0, out0, t0)" by (cases start)
    have le: "length (encode_block_loop data) = 64" using ld by (simp add: length_encode_block_loop)
    have bl: "blit (ctx_data ctx) u (take todo input) = data"
      using 3 u by (simp add: blit_def data_def h todo_def)
    have s0: "length (ctx_data c0) = 48" "t0 + 2 * length in0 < 2 ^ 63"
      "out0 @ full_lines in0 = full_lines (held ctx @ input)" "rest48 in0 = rest48 (held ctx @ input)"
      "t0 = length out0"
    proof -
      show "length (ctx_data c0) = 48" using st u ld by (auto simp: start_def split: if_splits)
      show "t0 + 2 * length in0 < 2 ^ 63" using st assms(2) by (auto simp: start_def split: if_splits)
      have "full_lines (held ctx @ input) = encode_block_loop data @ [0x0a] @ full_lines (drop todo input)"
        unfolding all using ld by (simp add: full_lines.simps [of "data @ drop todo input"])
      moreover have "rest48 (held ctx @ input) = rest48 (drop todo input)"
        unfolding all using ld by (simp add: rest48.simps [of "data @ drop todo input"])
      moreover have "held ctx = []" if "u = 0" using h(2) that by simp
      ultimately show "out0 @ full_lines in0 = full_lines (held ctx @ input)"
        "rest48 in0 = rest48 (held ctx @ input)"
        using st by (auto simp: start_def split: if_splits)
      show "t0 = length out0" using st le by (auto simp: start_def split: if_splits)
    qed
    define r where "r = rest48 in0"
    have lr: "length r < 48" unfolding r_def by (rule length_rest48)
    define ctx' where "ctx' = c0\<lparr>ctx_data := (if r \<noteq> [] then blit (ctx_data c0) 0 r else ctx_data c0), data_used := length r\<rparr>"
    have "EVP_EncodeUpdate ctx input = (ctx', terminated (out0 @ full_lines in0),
        if t0 + length (full_lines in0) > INT_MAX then 0 else t0 + length (full_lines in0))"
    proof -
      have ne: "input \<noteq> []" "\<not> 48 - u > length input" using 3 u by auto
      have "EVP_EncodeUpdate ctx input = (case start of (ctx, input, out, tot) \<Rightarrow>
        (case encode_update_loop input out tot of
          (False, _, out, _) \<Rightarrow> (ctx, terminated out, 0)
        | (True, input, out, tot) \<Rightarrow>
            (ctx\<lparr>ctx_data := (if input \<noteq> [] then blit (ctx_data ctx) 0 input else ctx_data ctx),
                 data_used := length input\<rparr>,
             terminated out, if tot > INT_MAX then 0 else tot)))"
        using ne le bl unfolding EVP_EncodeUpdate_def start_def
        by (simp add: u_def [symmetric] todo_def [symmetric] Let_def EVP_EncodeBlock_def)
      then show ?thesis
        unfolding st prod.case encode_update_loop_lines [OF s0(2)] by (simp add: ctx'_def r_def)
    qed
    moreover have "enc_ctx_ok ctx'" "held ctx' = r"
      using lr s0(1) by (auto simp: enc_ctx_ok_def held_def ctx'_def blit_def)
    ultimately show ?thesis using s0(3-5) by (simp add: r_def Let_def flip: length_append)
  qed
qed


text \<open>The text of a PEM body, and a context fed with a sequence of inputs.\<close>

definition pem_body :: "bytes \<Rightarrow> bytes" where
  "pem_body xs = full_lines xs @ (if rest48 xs = [] then [] else encode_block_loop (rest48 xs) @ [0x0a])"

primrec encode_chunks :: "EVP_ENCODE_CTX \<Rightarrow> bytes list \<Rightarrow> bytes" where
  "encode_chunks ctx [] = (case EVP_EncodeFinal ctx of (_, out, n) \<Rightarrow> take n out)"
| "encode_chunks ctx (input # inputs) =
     (case EVP_EncodeUpdate ctx input of (ctx, out, n) \<Rightarrow> take n out @ encode_chunks ctx inputs)"

lemma encode_chunks_body:
  "enc_ctx_ok ctx \<Longrightarrow> \<forall>input\<in>set inputs. length input \<le> 2 ^ 30 \<Longrightarrow>
    full_lines (held ctx) @ encode_chunks ctx inputs = pem_body (held ctx @ concat inputs)"
proof (induction inputs arbitrary: ctx)
  case Nil
  have l: "length (held ctx) < 48" using Nil(1) by (simp add: length_held) (simp add: enc_ctx_ok_def)
  have "held ctx = [] \<longleftrightarrow> data_used ctx = 0" using length_held [OF Nil(1)] by auto
  then show ?case
    using l by (auto simp: pem_body_def full_lines_short EVP_EncodeFinal_def EVP_EncodeBlock_def Let_def
        held_def [symmetric])
next
  case (Cons input inputs)
  have li: "length input \<le> 2 ^ 30" using Cons.prems(2) by simp
  define t where "t = full_lines (held ctx @ input)"
  have "length input < 2 ^ 61" using li by simp
  from EVP_EncodeUpdate_lines [OF Cons.prems(1) this] obtain ctx' where
    u: "EVP_EncodeUpdate ctx input = (ctx', terminated t, if length t > INT_MAX then 0 else length t)"
    "enc_ctx_ok ctx'" "held ctx' = rest48 (held ctx @ input)"
    by (auto simp: Let_def t_def)
  have "length (held ctx) < 48" using Cons.prems(1) by (simp add: length_held) (simp add: enc_ctx_ok_def)
  then have "\<not> length t > INT_MAX"
    using length_full_lines [of "held ctx @ input"] li by (simp add: t_def INT_MAX_def)
  moreover have "take (length t) (terminated t) = t" by (simp add: terminated_def)
  ultimately have "encode_chunks ctx (input # inputs) = t @ encode_chunks ctx' inputs" using u(1) by simp
  moreover have "full_lines (held ctx') @ encode_chunks ctx' inputs = pem_body (held ctx' @ concat inputs)"
    using Cons.IH [OF u(2)] Cons.prems(2) by simp
  moreover have "full_lines (held ctx') = []" "full_lines (held ctx) = []"
    using u(2) Cons.prems(1) by (simp_all add: full_lines_held)
  moreover have "pem_body (held ctx @ concat (input # inputs)) = t @ pem_body (held ctx' @ concat inputs)"
    using full_lines_append [of "held ctx @ input" "concat inputs"] rest48_append [of "held ctx @ input" "concat inputs"]
    by (simp add: pem_body_def t_def u(3))
  ultimately show ?case by simp
qed

lemma encode_block_append:
  "3 dvd length xs \<Longrightarrow> encode_block_loop (xs @ ys) = encode_block_loop xs @ encode_block_loop ys"
proof (induction xs rule: encode_block_loop.induct)
  case (1 a b c src)
  have "3 dvd length (a # b # c # src) \<longleftrightarrow> 3 dvd length src" by (simp, presburger)
  with 1 show ?case by (simp add: encode_group(1) del: encode_block_loop.simps(1))
qed (simp_all add: numeral_2_eq_2 [symmetric] del: encode_block_loop.simps(1,3,4))

lemma encode_no_ws: "filter (\<lambda>c. \<not> is_ws c) (encode_block_loop src) = encode_block_loop src"
proof -
  have a: "\<not> is_ws (b64_alphabet ! (n mod 64))" for n by (rule ascii_to_bin_alphabet) simp
  have e: "\<not> is_ws 0x3d" by (simp add: is_ws_def)
  show ?thesis
    by (induction src rule: encode_block_loop.induct)
      (simp_all add: encode_group b64_quad_def a e del: encode_block_loop.simps(1,3,4))
qed

lemma pem_body_text: "filter (\<lambda>c. \<not> is_ws c) (pem_body xs) = encode_block_loop xs"
proof (induction xs rule: full_lines.induct)
  case (1 xs)
  show ?case
  proof (cases "48 \<le> length xs")
    case True
    have "pem_body xs = encode_block_loop (take 48 xs) @ [0x0a] @ pem_body (drop 48 xs)"
      using True by (simp add: pem_body_def full_lines.simps [of xs] rest48.simps [of xs])
    moreover have "encode_block_loop xs = encode_block_loop (take 48 xs) @ encode_block_loop (drop 48 xs)"
      using True encode_block_append [of "take 48 xs" "drop 48 xs"] by simp
    moreover have "is_ws 0x0a" by (simp add: is_ws_def)
    ultimately show ?thesis using 1 [OF True] by (simp add: encode_no_ws)
  next
    case False
    have "is_ws 0x0a" by (simp add: is_ws_def)
    with False show ?thesis by (simp add: pem_body_def full_lines_short encode_no_ws)
  qed
qed


lemma decode_update_filter:
  "decode_update_loop ctx input out = decode_update_loop ctx (filter (\<lambda>c. \<not> is_ws c) input) out"
  by (induction ctx input out rule: decode_update_loop.induct) (simp_all add: Let_def split: option.split)

lemma decode_update_append:
  "decode_update_loop ctx (xs @ ys) out = (case decode_update_loop ctx xs out of
     (False, r) \<Rightarrow> (False, r) | (True, ctx, out) \<Rightarrow> decode_update_loop ctx ys out)"
  by (induction ctx xs out rule: decode_update_loop.induct) (simp_all add: Let_def split: option.split)

definition dec_ctx_ok :: "EVP_ENCODE_CTX \<Rightarrow> bool" where
  "dec_ctx_ok ctx \<longleftrightarrow> length (ctx_data ctx) = 48 \<and> data_used ctx < 4 \<and> \<not> error_encountered ctx"

text \<open>Four characters at the start of a quad.\<close>

lemma decode_update_quad:
  assumes "data_used ctx = 0" "\<not> eof_seen ctx" "length (ctx_data ctx) = 48"
    and "\<forall>c\<in>{w, x, y, z}. \<not> is_ws c" "base64_decode_quad [w, x, y, z] = Some bs"
  shows "\<exists>data. length data = 48 \<and> decode_update_loop ctx (w # x # y # z # rest) out =
    decode_update_loop (ctx\<lparr>ctx_data := data, data_used := 0, eof_seen := length bs < 3\<rparr>) rest (out @ bs)"
proof -
  define data where "data = (ctx_data ctx)[0 := w, 1 := x, 2 := y, 3 := z]"
  obtain a b c d r where r: "ctx_data ctx = a # b # c # d # r"
    using assms(3) by (auto simp: eval_nat_numeral length_Suc_conv)
  have "base64_decode_quad data = Some bs"
    using decode_quad_take [of "[w, x, y, z]" r] assms(5) by (simp add: data_def r)
  moreover have "length data = 48" using assms(3) by (simp add: data_def)
  ultimately show ?thesis
    using assms(1,2,4)
    by (intro exI [of _ data], cases ctx) (simp add: Let_def data_def numeral_2_eq_2 numeral_3_eq_3)
qed

lemma decode_update_text:
  "data_used ctx = 0 \<Longrightarrow> \<not> eof_seen ctx \<Longrightarrow> dec_ctx_ok ctx \<Longrightarrow>
    \<exists>ctx'. decode_update_loop ctx (encode_block_loop src) out = (True, ctx', out @ src)
      \<and> data_used ctx' = 0 \<and> dec_ctx_ok ctx' \<and> eof_seen ctx' = (length src mod 3 \<noteq> 0)"
proof (induction src arbitrary: ctx out rule: encode_block_loop.induct)
  case (1 a b c src)
  have ws: "\<forall>c\<in>set (b64_quad n). \<not> is_ws c" for n
    by (simp add: b64_quad_def ascii_to_bin_alphabet(3))
  obtain w x y z where q: "b64_quad (65536 * unat a + 256 * unat b + unat c) = [w, x, y, z]"
    by (simp add: b64_quad_def)
  have l: "length (ctx_data ctx) = 48" using "1.prems"(3) by (simp add: dec_ctx_ok_def)
  have "base64_decode_quad [w, x, y, z] = Some [a, b, c]" using decode_group(1) [of a b c "[]"] by (simp add: q)
  note b = this
  have ws4: "\<forall>c\<in>{w, x, y, z}. \<not> is_ws c"
    using ws [of "65536 * unat a + 256 * unat b + unat c", unfolded q] by auto
  from decode_update_quad [OF "1.prems"(1,2) l ws4 b, of "encode_block_loop src" out]
  obtain data where d: "length data = 48"
    "decode_update_loop ctx (encode_block_loop (a # b # c # src)) out =
      decode_update_loop (ctx\<lparr>ctx_data := data, data_used := 0, eof_seen := False\<rparr>) (encode_block_loop src) (out @ [a, b, c])"
    unfolding encode_group(1) q by auto
  have "dec_ctx_ok (ctx\<lparr>ctx_data := data, data_used := 0, eof_seen := False\<rparr>)"
    using "1.prems"(3) d(1) by (simp add: dec_ctx_ok_def)
  moreover have "length (a # b # c # src) mod 3 = length src mod 3" by simp
  ultimately show ?case
    using "1.IH" [OF refl, of "ctx\<lparr>ctx_data := data, data_used := 0, eof_seen := False\<rparr>" "out @ [a, b, c]"] unfolding d(2) by simp
next
  case 2
  then show ?case by simp
next
  case (3 a)
  obtain w x y z where q: "encode_block_loop [a] = [w, x, y, z]" by (simp add: Let_def)
  have ws: "\<forall>c\<in>{w, x, y, z}. \<not> is_ws c"
    using encode_no_ws [of "[a]"] unfolding q by (auto split: if_splits)
  have l: "length (ctx_data ctx) = 48" using "3.prems"(3) by (simp add: dec_ctx_ok_def)
  have "base64_decode_quad [w, x, y, z] = Some [a]"
    using decode_group(3) [of a "[]"] by (simp add: q [symmetric] encode_group(3) del: encode_block_loop.simps)
  from decode_update_quad [OF "3.prems"(1,2) l ws this, of "[]" out] obtain data where
    "length data = 48" and d: "decode_update_loop ctx [w, x, y, z] out = (True,
      ctx\<lparr>ctx_data := data, data_used := 0, eof_seen := True\<rparr>, out @ [a])" by auto
  then show ?case using "3.prems"(3) unfolding q d by (simp add: dec_ctx_ok_def)
next
  case (4 a b)
  obtain w x y z where q: "encode_block_loop [a, b] = [w, x, y, z]" by (simp add: Let_def)
  have ws: "\<forall>c\<in>{w, x, y, z}. \<not> is_ws c"
    using encode_no_ws [of "[a, b]"] unfolding q by (auto split: if_splits)
  have l: "length (ctx_data ctx) = 48" using "4.prems"(3) by (simp add: dec_ctx_ok_def)
  have "base64_decode_quad [w, x, y, z] = Some [a, b]"
    using decode_group(2) [of a b "[]"] by (simp add: q [symmetric] encode_group(2) del: encode_block_loop.simps)
  from decode_update_quad [OF "4.prems"(1,2) l ws this, of "[]" out] obtain data where
    "length data = 48" and d: "decode_update_loop ctx [w, x, y, z] out = (True,
      ctx\<lparr>ctx_data := data, data_used := 0, eof_seen := True\<rparr>, out @ [a, b])" by auto
  then show ?case using "4.prems"(3) unfolding q d by (simp add: dec_ctx_ok_def)
qed

text \<open>A context fed with a sequence of inputs.\<close>

primrec decode_chunks :: "EVP_ENCODE_CTX \<Rightarrow> bytes list \<Rightarrow> bytes option" where
  "decode_chunks ctx [] = (if EVP_DecodeFinal ctx = 1 then Some [] else None)"
| "decode_chunks ctx (input # inputs) =
     (case EVP_DecodeUpdate ctx input of
        (ctx, out, n, r) \<Rightarrow> if r < 0 then None else map_option ((@) (take n out)) (decode_chunks ctx inputs))"


text \<open>The loop that \<open>decode_chunks\<close> runs is one loop over the whole text.\<close>

lemma decode_update_out:
  "decode_update_loop ctx input (out0 @ out) =
    (case decode_update_loop ctx input out of (ok, ctx, r) \<Rightarrow> (ok, ctx, out0 @ r))"
proof (induction ctx input out rule: decode_update_loop.induct)
  case (2 ctx c input out)
  then show ?case by (simp add: Let_def split: option.split)
qed simp

lemma decode_update_error:
  "decode_update_loop ctx input out = (ok, ctx', out') \<Longrightarrow> ok \<Longrightarrow> \<not> error_encountered ctx \<Longrightarrow>
    \<not> error_encountered ctx'"
  by (induction ctx input out rule: decode_update_loop.induct)
    (auto simp: Let_def split: if_splits option.splits)

lemma decode_chunks_loop:
  assumes "\<not> error_encountered ctx" "decode_update_loop ctx (concat inputs) [] = (True, ctx', out)"
    and "length out \<le> INT_MAX" "\<not> error_encountered ctx'"
  shows "decode_chunks ctx inputs = (if data_used ctx' = 0 then Some out else None)"
  using assms
proof (induction inputs arbitrary: ctx out)
  case Nil
  then show ?case by (auto simp: EVP_DecodeFinal_def)
next
  case (Cons input inputs)
  obtain ok ctx1 out1 where 1: "decode_update_loop ctx input [] = (ok, ctx1, out1)" by (cases "decode_update_loop ctx input []")
  have ok: "ok" using Cons.prems(2) 1 by (cases ok) (simp_all add: decode_update_append)
  obtain ok2 ctx2 out2 where 2: "decode_update_loop ctx1 (concat inputs) [] = (ok2, ctx2, out2)"
    by (cases "decode_update_loop ctx1 (concat inputs) []")
  have "decode_update_loop ctx1 (concat inputs) (out1 @ []) = (ok2, ctx2, out1 @ out2)"
    unfolding decode_update_out 2 by simp
  then have r: "ok2" "ctx2 = ctx'" "out = out1 @ out2"
    using Cons.prems(2) 1 ok by (simp_all add: decode_update_append)
  have e: "\<not> error_encountered ctx1"
    by (rule decode_update_error [OF 1 ok Cons.prems(1)])
  have "decode_chunks ctx1 inputs = (if data_used ctx' = 0 then Some out2 else None)"
    using Cons.IH [OF e] 2 r Cons.prems(3,4) by simp
  then show ?case using 1 ok r(3) Cons.prems(1,3) by (simp add: EVP_DecodeUpdate_def)
qed

lemma decode_chunks_text:
  assumes "filter (\<lambda>c. \<not> is_ws c) (concat inputs) = encode_block_loop src" "length src \<le> INT_MAX"
  shows "decode_chunks EVP_DecodeInit inputs = Some src"
proof -
  have i: "data_used EVP_DecodeInit = 0" "\<not> eof_seen EVP_DecodeInit" "dec_ctx_ok EVP_DecodeInit"
    by (simp_all add: EVP_DecodeInit_def dec_ctx_ok_def)
  obtain ctx' where c: "decode_update_loop EVP_DecodeInit (encode_block_loop src) [] = (True, ctx', [] @ src)"
    "data_used ctx' = 0" "dec_ctx_ok ctx'"
    using decode_update_text [OF i, of src "[]"] by blast
  have "decode_update_loop EVP_DecodeInit (concat inputs) [] = (True, ctx', src)"
    using c(1) by (subst decode_update_filter) (simp add: assms(1))
  from decode_chunks_loop [OF _ this assms(2)] i(3) c(2,3) show ?thesis by (simp add: dec_ctx_ok_def)
qed

end
