(* ===== verification/Limbs.thy ===== *)
theory Limbs
  imports Const_Time
begin

text \<open>
  Arrays of limbs: the word routines of \<open>crypto/fipsmodule/bn/generic.c\<close>, on which all of the
  big number arithmetic rests.  A \<open>BN_ULONG\<close> is a 64-bit word and a \<open>BN_ULLONG\<close> a 128-bit
  one (the iOS targets have both, and the library is built without its assembly code).  An array
  is a list of limbs, least significant first; \<open>wval\<close> is its value.  A routine that fills an
  array \<open>r\<close> returns the list of the limbs that it wrote, beside its carry.
\<close>

type_synonym limb = u64
type_synonym limbs = "64 word list"
type_synonym u128 = "128 word"

section \<open>The value of an array\<close>

definition radix :: nat where
  "radix = 2 ^ 64"

primrec wval :: "limbs \<Rightarrow> nat" where
  "wval [] = 0"
| "wval (x # xs) = unat x + radix * wval xs"

lemma radix_pos [simp]: "0 < radix" "radix \<noteq> 0" "1 < radix" "Suc 0 < radix" "Suc 0 \<le> radix"
  by (simp_all add: radix_def)

lemma limb_lt [simp]: "unat (x :: limb) < radix"
  using unat_u64_lt [of x] by (simp add: radix_def)

lemma limb_le [simp]: "unat (x :: limb) \<le> radix - Suc 0"
  using limb_lt [of x] by linarith

lemma unat_uminus: "(x :: limb) \<noteq> 0 \<Longrightarrow> unat (- x) + unat x = radix"
proof -
  assume "x \<noteq> 0"
  then have "0 < unat x" by (simp add: unat_gt_0)
  moreover have "(unat (- x) + unat x) mod radix = 0"
  proof -
    have "(unat (- x) + unat x) mod radix = unat (- x + x)" unfolding radix_def by (simp only: unat_word_ariths) simp
    then show ?thesis by simp
  qed
  moreover have "(unat (- x) + unat x) div radix < 2"
    using limb_lt [of x] limb_lt [of "- x"] by (intro less_mult_imp_div_less) linarith
  ultimately show ?thesis by (metis add_pos_nonneg div_less_iff_less_mult less_2_cases mod_mult_div_eq mult_0_right mult_1_right add_0
      add.commute less_irrefl One_nat_def zero_le)
qed

lemma wval_append: "wval (xs @ ys) = wval xs + radix ^ length xs * wval ys"
  by (induction xs) (simp_all add: algebra_simps)

lemma wval_snoc: "wval (xs @ [y]) = wval xs + radix ^ length xs * unat y"
  by (simp add: wval_append)

lemma wval_lt: "wval xs < radix ^ length xs"
proof (induction xs)
  case (Cons x xs)
  have "unat x + radix * wval xs < radix + radix * wval xs" by simp
  also have "\<dots> = radix * Suc (wval xs)" by simp
  also have "\<dots> \<le> radix * radix ^ length xs" using Cons by (intro mult_le_mono2) simp
  finally show ?case by simp
qed simp

lemma wval_zeros [simp]: "wval (replicate n 0) = 0"
  by (induction n) simp_all

lemma wval_eq_0_iff: "wval xs = 0 \<longleftrightarrow> (\<forall>x\<in>set xs. x = 0)"
  by (induction xs) (auto simp: unat_eq_zero)

lemma wval_zero_replicate: "wval xs = 0 \<Longrightarrow> xs = replicate (length xs) 0"
  by (simp add: wval_eq_0_iff list_eq_iff_nth_eq)

lemma wval_div: "unat (x :: limb) + radix * n = m \<Longrightarrow> unat x = m mod radix \<and> n = m div radix"
  by auto

lemma wval_inject: "length xs = length ys \<Longrightarrow> wval xs = wval ys \<Longrightarrow> xs = ys"
proof (induction xs arbitrary: ys)
  case (Cons x xs)
  then obtain y ys' where ys: "ys = y # ys'" "length xs = length ys'" by (cases ys) auto
  have eq: "unat x + radix * wval xs = unat y + radix * wval ys'" using Cons.prems(2) by (simp add: ys)
  then have "unat x = unat y" "wval xs = wval ys'"
    using wval_div [OF eq] wval_div [OF refl, of y "wval ys'"] by auto
  with Cons.IH [OF ys(2)] show ?case by (simp add: ys word_unat_eq_iff)
qed simp

lemma wval_take_drop: "wval xs = wval (take n xs) + radix ^ n * wval (drop n xs)" if "n \<le> length xs"
  using wval_append [of "take n xs" "drop n xs"] that by simp

lemma wval_take_lt: "wval (take n xs) < radix ^ n"
  by (rule less_le_trans [OF wval_lt]) (simp add: power_increasing Suc_leI)

lemma wval_take: "n \<le> length xs \<Longrightarrow> wval (take n xs) = wval xs mod radix ^ n"
  using wval_take_drop [of n xs] wval_take_lt [of n xs] by simp

lemma wval_drop: "n \<le> length xs \<Longrightarrow> wval (drop n xs) = wval xs div radix ^ n"
  using wval_take_drop [of n xs] wval_take_lt [of n xs] by simp

lemma wval_take_Suc: "n < length xs \<Longrightarrow> wval (take (Suc n) xs) = wval (take n xs) + radix ^ n * unat (xs ! n)"
  by (simp add: take_Suc_conv_app_nth wval_snoc)

text \<open>The carry out of \<open>n\<close> limbs is determined by the value.\<close>

lemma wval_split:
  assumes "wval r + radix ^ n * c = m" "length r = n"
  shows "wval r = m mod radix ^ n" "c = m div radix ^ n"
  using assms wval_lt [of r] by auto

section \<open>Double words\<close>

definition Lw :: "u128 \<Rightarrow> limb" where
  "Lw t = ucast t"

definition Hw :: "u128 \<Rightarrow> limb" where
  "Hw t = ucast (drop_bit 64 t)"

definition wide :: "limb \<Rightarrow> u128" where
  "wide x = ucast x"

lemma u128_lt: "unat (t :: u128) < radix * radix"
  using unsigned_less [of t] by (simp add: radix_def)

lemma unat_wide [simp]: "unat (wide x) = unat x"
  by (simp add: wide_def unat_ucast_up)

lemma unat_Lw: "unat (Lw t) = unat t mod radix"
  by (simp add: Lw_def unat_ucast radix_def)

lemma unat_Hw: "unat (Hw t) = unat t div radix"
proof -
  have "unat t div radix < radix" using u128_lt [of t] by (simp add: less_mult_imp_div_less)
  then show ?thesis by (simp add: Hw_def unat_ucast unat_drop_bit radix_def)
qed

lemma Lw_Hw: "unat (Lw t) + radix * unat (Hw t) = unat t"
  by (simp add: unat_Lw unat_Hw)

lemma unat_add_128: "unat a + unat b < radix * radix \<Longrightarrow> unat (a + b :: u128) = unat a + unat b"
  by (simp add: unat_word_ariths radix_def)

lemma unat_mult_128: "unat a * unat b < radix * radix \<Longrightarrow> unat (a * b :: u128) = unat a * unat b"
  by (simp add: unat_word_ariths radix_def)

lemma limb_mult_bound: "unat (x :: limb) * unat (y :: limb) \<le> (radix - 1) * (radix - 1)"
  by (intro mult_le_mono) simp_all

lemma radix_square: "(radix - 1) * (radix - 1) + 2 * (radix - 1) = radix * radix - 1"
  by (simp add: radix_def)

lemma wide_mult: "unat (wide x * wide y) = unat x * unat y"
proof -
  have "unat x * unat y < radix * radix" by (intro mult_strict_mono) simp_all
  then show ?thesis by (simp add: unat_mult_128)
qed

lemma wide_mult_add: "unat (wide x * wide y + wide r + wide c) = unat x * unat y + unat r + unat c"
proof -
  have b: "unat x * unat y + unat r + unat c < radix * radix"
    using limb_mult_bound [of x y] limb_le [of r] limb_le [of c] radix_square by (simp add: radix_def)
  then have "unat (wide x * wide y + wide r) = unat x * unat y + unat r"
    by (simp add: unat_add_128 wide_mult)
  with b show ?thesis by (simp add: unat_add_128)
qed

section \<open>Unrolled loops\<close>

text \<open>
  The routines run through their arrays four limbs at a time while \<open>num & ~3\<close> is not zero,
  and then one at a time.
\<close>

fun loop1 :: "('s \<Rightarrow> 's) \<Rightarrow> nat \<Rightarrow> 's \<Rightarrow> 's" where
  "loop1 step n s = (if n = 0 then s else loop1 step (n - 1) (step s))"

fun loop4 :: "('s \<Rightarrow> 's) \<Rightarrow> nat \<Rightarrow> 's \<Rightarrow> 's" where
  "loop4 step n s = (if 4 \<le> n then loop4 step (n - 4) (step (step (step (step s)))) else loop1 step n s)"

declare loop1.simps [simp del] loop4.simps [simp del]

lemma loop1_funpow: "loop1 step n s = (step ^^ n) s"
  by (induction n arbitrary: s) (simp_all add: loop1.simps [of step] funpow_swap1)

lemma loop4_funpow: "loop4 step n s = (step ^^ n) s"
proof (induction step n s rule: loop4.induct)
  case (1 step n s)
  show ?case
  proof (cases "4 \<le> n")
    case True
    then obtain k where n: "n = k + 4" using le_Suc_ex by (metis add.commute)
    have "(step ^^ (k + 4)) s = (step ^^ k) ((step ^^ 4) s)" by (simp only: funpow_add o_apply)
    also have "(step ^^ 4) s = step (step (step (step s)))" by (simp add: eval_nat_numeral)
    finally show ?thesis using 1 True by (subst loop4.simps) (simp add: n)
  next
    case False
    then show ?thesis by (simp add: loop4.simps [of step n] loop1_funpow)
  qed
qed

text \<open>An invariant of the steps holds after the loop.\<close>

lemma loop4_invariant:
  assumes "P 0 s" "\<And>i s. i < n \<Longrightarrow> P i s \<Longrightarrow> P (Suc i) (step s)"
  shows "P n (loop4 step n s)"
proof -
  have "P k ((step ^^ k) s)" if "k \<le> n" for k
    using that by (induction k) (simp_all add: assms)
  then show ?thesis by (simp add: loop4_funpow)
qed

text \<open>
  Most routines write one limb in each step and carry a value to the next: \<open>limb_loop f n c\<close>
  returns the limbs written by \<open>n\<close> steps and the last carry.
\<close>

definition limb_loop :: "(nat \<Rightarrow> 'c \<Rightarrow> limb \<times> 'c) \<Rightarrow> nat \<Rightarrow> 'c \<Rightarrow> limbs \<times> 'c" where
  "limb_loop f n c0 =
     (let (i, out, c) = loop4 (\<lambda>(i, out, c). let (x, c') = f i c in (Suc i, out @ [x], c')) n (0, [], c0)
      in (out, c))"

lemma limb_loop_invariant:
  assumes "limb_loop f n c0 = (out, c)" "P 0 [] c0"
    and "\<And>i out c x c'. i < n \<Longrightarrow> length out = i \<Longrightarrow> P i out c \<Longrightarrow> f i c = (x, c') \<Longrightarrow> P (Suc i) (out @ [x]) c'"
  shows "P n out c \<and> length out = n"
proof -
  define step where "step = (\<lambda>(i, out, c). let (x, c') = f i c in (Suc i, out @ [x], c'))"
  define Q where "Q = (\<lambda>k (i, out, c). i = k \<and> length out = k \<and> P k out c)"
  have "Q n (loop4 step n (0, [], c0))"
  proof (rule loop4_invariant)
    show "Q 0 (0, [], c0)" by (simp add: Q_def assms(2))
    show "Q (Suc i) (step s)" if "i < n" "Q i s" for i s
      using that assms(3) by (cases s) (auto simp: Q_def step_def split: prod.splits)
  qed
  moreover have "loop4 step n (0, [], c0) = (fst (loop4 step n (0, [], c0)), out, c)"
    using assms(1) by (auto simp: limb_loop_def step_def split: prod.splits)
  ultimately show ?thesis by (auto simp: Q_def split: prod.splits)
qed

section \<open>Addition and subtraction\<close>

definition bn_add_words :: "limbs \<Rightarrow> limbs \<Rightarrow> nat \<Rightarrow> limbs \<times> limb" where
  "bn_add_words a b n =
     (if n = 0 then ([], 0)
      else let (r, ll) = limb_loop (\<lambda>i ll. let ll = ll + (wide (a ! i) + wide (b ! i)) in (Lw ll, drop_bit 64 ll)) n 0
           in (r, Lw ll))"

definition bn_sub_words :: "limbs \<Rightarrow> limbs \<Rightarrow> nat \<Rightarrow> limbs \<times> limb" where
  "bn_sub_words a b n =
     (if n = 0 then ([], 0)
      else limb_loop
             (\<lambda>i c. let t1 = a ! i; t2 = b ! i in (t1 - t2 - c, if t1 \<noteq> t2 then (if t1 < t2 then 1 else 0) else c))
             n 0)"

lemma bn_add_words:
  assumes "bn_add_words a b n = (r, c)" "n \<le> length a" "n \<le> length b"
  shows "length r = n"
    and "wval r + radix ^ n * unat c = wval (take n a) + wval (take n b)"
    and "unat c \<le> 1"
proof -
  define f where "f = (\<lambda>i ll. let ll = ll + (wide (a ! i) + wide (b ! i)) in (Lw ll, drop_bit 64 ll))"
  define P where "P = (\<lambda>k out (ll :: u128).
    wval out + radix ^ k * unat ll = wval (take k a) + wval (take k b) \<and> unat ll \<le> 1)"
  obtain r' ll where l: "limb_loop f n 0 = (r', ll)" by fastforce
  have P: "P n r' ll \<and> length r' = n"
  proof -
    have step: "P (Suc i) (out @ [x]) c'"
      if i: "i < n" "length out = i" "P i out c" "f i c = (x, c')" for i out c x c'
    proof -
      define t where "t = c + (wide (a ! i) + wide (b ! i))"
      have xc: "x = Lw t" "c' = drop_bit 64 t" using i(4) by (simp_all add: f_def Let_def t_def)
      have c1: "unat c \<le> 1" using i(3) by (simp add: P_def)
      have b1: "unat (a ! i) + unat (b ! i) + 1 < 2 * radix" using limb_lt [of "a ! i"] limb_lt [of "b ! i"] by linarith
      have b2: "2 * radix \<le> radix * radix" by (simp add: radix_def)
      have t: "unat t = unat c + (unat (a ! i) + unat (b ! i))"
      proof -
        have "unat (wide (a ! i) + wide (b ! i)) = unat (a ! i) + unat (b ! i)"
        proof -
          have "unat (a ! i) + unat (b ! i) < radix * radix" using b1 b2 by linarith
          then show ?thesis by (simp add: unat_add_128)
        qed
        moreover have "unat c + unat (wide (a ! i) + wide (b ! i)) < radix * radix"
          using b1 b2 c1 calculation by linarith
        ultimately show ?thesis by (simp add: t_def unat_add_128)
      qed
      have cv: "unat c' = unat t div radix" "unat x = unat t mod radix"
        by (simp_all add: xc unat_Lw unat_drop_bit radix_def)
      then have "unat x + radix * unat c' = unat c + unat (a ! i) + unat (b ! i)" by (simp add: t)
      then have "radix ^ i * (unat x + radix * unat c') = radix ^ i * (unat c + unat (a ! i) + unat (b ! i))" by simp
      moreover have "unat c' < 2" using b1 c1 t cv(1) by (simp add: less_mult_imp_div_less)
      ultimately show ?thesis
        using i assms(2,3) by (simp add: P_def wval_snoc wval_take_Suc algebra_simps)
    qed
    have "P 0 [] 0" by (simp add: P_def)
    then show ?thesis by (rule limb_loop_invariant [of f n 0 _ _ P, OF l]) (rule step)
  qed
  have "r = r' \<and> c = Lw ll" if "n \<noteq> 0"
    using assms(1) l that by (simp add: bn_add_words_def flip: f_def)
  moreover have "unat (Lw ll) = unat ll" using P by (simp add: P_def unat_Lw radix_def)
  ultimately show "length r = n" "wval r + radix ^ n * unat c = wval (take n a) + wval (take n b)" "unat c \<le> 1"
    using assms(1) P by (cases "n = 0"; simp add: bn_add_words_def P_def)+
qed

lemma bn_sub_words:
  assumes "bn_sub_words a b n = (r, c)" "n \<le> length a" "n \<le> length b"
  shows "length r = n"
    and "wval r + wval (take n b) = wval (take n a) + radix ^ n * unat c"
    and "c = 0 \<or> c = 1"
proof -
  define f where "f = (\<lambda>i c. let t1 = a ! i; t2 = b ! i in
    (t1 - t2 - c, if t1 \<noteq> t2 then (if t1 < t2 then 1 else 0) else c))"
  define P where "P = (\<lambda>k out (c :: limb).
    wval out + wval (take k b) = wval (take k a) + radix ^ k * unat c \<and> (c = 0 \<or> c = 1))"
  have "P n r c \<and> length r = n" if l: "limb_loop f n 0 = (r, c)"
  proof -
    have step: "P (Suc i) (out @ [x]) c'"
      if i: "i < n" "length out = i" "P i out c" "f i c = (x, c')" for i out c x c'
    proof -
      define t1 t2 where "t1 = a ! i" and "t2 = b ! i"
      have x: "x = t1 - t2 - c" and c': "c' = (if t1 \<noteq> t2 then (if t1 < t2 then 1 else 0) else c)"
        using i(4) by (auto simp: f_def Let_def t1_def t2_def)
      have c: "c = 0 \<or> c = 1" using i(3) by (simp add: P_def)
      have "unat x + unat t2 + unat c = unat t1 + radix * unat c'"
      proof -
        have e: "unat t1 < radix" "unat t2 < radix" by simp_all
        have "unat x = (if unat t2 + unat c \<le> unat t1 then unat t1 - (unat t2 + unat c)
                        else radix + unat t1 - (unat t2 + unat c))"
        proof (cases "unat t2 + unat c \<le> unat t1")
          case True
          then have "unat (t2 + c) = unat t2 + unat c" using e c
            by (simp add: unat_word_ariths radix_def)
          moreover have "x = t1 - (t2 + c)" by (simp add: x)
          ultimately show ?thesis using True by (simp add: unat_sub word_le_nat_alt)
        next
          case False
          have "of_nat (radix + unat t1 - (unat t2 + unat c)) = x"
            using e c False by (auto simp: x of_nat_diff radix_def)
          moreover have "radix + unat t1 - (unat t2 + unat c) < radix" using False e by linarith
          ultimately show ?thesis using False by (auto simp: unat_of_nat radix_def)
        qed
        moreover have "unat c' = (if unat t2 + unat c \<le> unat t1 then 0 else 1)"
          using c by (auto simp: c' word_less_nat_alt word_unat_eq_iff)
        moreover have "unat t2 + unat c \<le> radix"
          using c limb_lt [of t2] by (elim disjE; simp only: unat_0 unat_1; linarith)
        ultimately show ?thesis by (simp split: if_splits)
      qed
      then have "radix ^ i * (unat x + unat t2 + unat c) = radix ^ i * (unat t1 + radix * unat c')" by simp
      then show ?thesis
        using i c assms(2,3) by (auto simp: P_def wval_snoc wval_take_Suc algebra_simps c' t1_def t2_def)
    qed
    have "P 0 [] 0" by (simp add: P_def)
    then show ?thesis by (rule limb_loop_invariant [of f n 0 _ _ P, OF l]) (rule step)
  qed
  then show "length r = n" "wval r + wval (take n b) = wval (take n a) + radix ^ n * unat c" "c = 0 \<or> c = 1"
    using assms(1) by (cases "n = 0"; auto simp: bn_sub_words_def P_def simp flip: f_def)+
qed

section \<open>Multiplication by a word\<close>

definition mul_add :: "limb \<Rightarrow> limb \<Rightarrow> limb \<Rightarrow> limb \<Rightarrow> limb \<times> limb" where
  "mul_add r a w c = (let t = wide w * wide a + wide r + wide c in (Lw t, Hw t))"

definition mul :: "limb \<Rightarrow> limb \<Rightarrow> limb \<Rightarrow> limb \<times> limb" where
  "mul a w c = (let t = wide w * wide a + wide c in (Lw t, Hw t))"

definition sqr :: "limb \<Rightarrow> limb \<times> limb" where
  "sqr a = (let t = wide a * wide a in (Lw t, Hw t))"

definition bn_mul_add_words :: "limbs \<Rightarrow> limbs \<Rightarrow> nat \<Rightarrow> limb \<Rightarrow> limbs \<times> limb" where
  "bn_mul_add_words rp ap num w =
     (if num = 0 then ([], 0) else limb_loop (\<lambda>i c1. mul_add (rp ! i) (ap ! i) w c1) num 0)"

definition bn_mul_words :: "limbs \<Rightarrow> nat \<Rightarrow> limb \<Rightarrow> limbs \<times> limb" where
  "bn_mul_words ap num w =
     (if num = 0 then ([], 0) else limb_loop (\<lambda>i c1. mul (ap ! i) w c1) num 0)"

definition bn_sqr_words :: "limbs \<Rightarrow> nat \<Rightarrow> limbs" where
  "bn_sqr_words a n =
     (if n = 0 then []
      else snd (loop4 (\<lambda>(i, r). let (r0, r1) = sqr (a ! i) in (Suc i, r @ [r0, r1])) n (0, [])))"

lemma mul_add: "mul_add r a w c = (x, c') \<Longrightarrow> unat x + radix * unat c' = unat r + unat a * unat w + unat c"
  using Lw_Hw [of "wide w * wide a + wide r + wide c"]
  by (auto simp: mul_add_def Let_def wide_mult_add mult.commute [of "unat a"])

lemma mul: "mul a w c = (x, c') \<Longrightarrow> unat x + radix * unat c' = unat a * unat w + unat c"
  using Lw_Hw [of "wide w * wide a + wide c"] wide_mult_add [of w a 0 c]
  by (auto simp: mul_def Let_def wide_def mult.commute [of "unat a"])

lemma bn_mul_add_words:
  assumes "bn_mul_add_words rp ap n w = (r, c)" "n \<le> length rp" "n \<le> length ap"
  shows "length r = n"
    and "wval r + radix ^ n * unat c = wval (take n rp) + wval (take n ap) * unat w"
proof -
  define P where "P = (\<lambda>k out (c :: limb).
    wval out + radix ^ k * unat c = wval (take k rp) + wval (take k ap) * unat w)"
  have "P n r c \<and> length r = n" if l: "limb_loop (\<lambda>i c1. mul_add (rp ! i) (ap ! i) w c1) n 0 = (r, c)"
  proof -
    have step: "P (Suc i) (out @ [x]) c'"
      if i: "i < n" "length out = i" "P i out c" "mul_add (rp ! i) (ap ! i) w c = (x, c')" for i out c x c'
    proof -
      have "radix ^ i * (unat x + radix * unat c') = radix ^ i * (unat (rp ! i) + unat (ap ! i) * unat w + unat c)"
        using mul_add [OF i(4)] by simp
      then show ?thesis using i assms(2,3) by (simp add: P_def wval_snoc wval_take_Suc algebra_simps)
    qed
    have "P 0 [] 0" by (simp add: P_def)
    then show ?thesis by (rule limb_loop_invariant [of _ n 0 _ _ P, OF l]) (rule step)
  qed
  then show "length r = n" "wval r + radix ^ n * unat c = wval (take n rp) + wval (take n ap) * unat w"
    using assms(1) by (cases "n = 0"; auto simp: bn_mul_add_words_def P_def)+
qed

lemma bn_mul_words:
  assumes "bn_mul_words ap n w = (r, c)" "n \<le> length ap"
  shows "length r = n" and "wval r + radix ^ n * unat c = wval (take n ap) * unat w"
proof -
  define P where "P = (\<lambda>k out (c :: limb). wval out + radix ^ k * unat c = wval (take k ap) * unat w)"
  have "P n r c \<and> length r = n" if l: "limb_loop (\<lambda>i c1. mul (ap ! i) w c1) n 0 = (r, c)"
  proof -
    have step: "P (Suc i) (out @ [x]) c'"
      if i: "i < n" "length out = i" "P i out c" "mul (ap ! i) w c = (x, c')" for i out c x c'
    proof -
      have "radix ^ i * (unat x + radix * unat c') = radix ^ i * (unat (ap ! i) * unat w + unat c)"
        using mul [OF i(4)] by simp
      then show ?thesis using i assms(2) by (simp add: P_def wval_snoc wval_take_Suc algebra_simps)
    qed
    have "P 0 [] 0" by (simp add: P_def)
    then show ?thesis by (rule limb_loop_invariant [of _ n 0 _ _ P, OF l]) (rule step)
  qed
  then show "length r = n" "wval r + radix ^ n * unat c = wval (take n ap) * unat w"
    using assms(1) by (cases "n = 0"; auto simp: bn_mul_words_def P_def)+
qed

primrec squares_val :: "limbs \<Rightarrow> nat" where
  "squares_val [] = 0"
| "squares_val (x # xs) = unat x * unat x + radix * radix * squares_val xs"

lemma squares_val_snoc: "squares_val (xs @ [x]) = squares_val xs + (radix * radix) ^ length xs * (unat x * unat x)"
  by (induction xs) (simp_all add: algebra_simps)

lemma bn_sqr_words:
  assumes "n \<le> length a"
  shows "length (bn_sqr_words a n) = 2 * n" "wval (bn_sqr_words a n) = squares_val (take n a)"
proof -
  define step where "step = (\<lambda>(i, r). let (r0, r1) = sqr (a ! i) in (Suc i, r @ [r0, r1]))"
  define P where "P = (\<lambda>k (i, r). i = k \<and> length r = 2 * k \<and> wval r = squares_val (take k a))"
  have "P n (loop4 step n (0, []))"
  proof (rule loop4_invariant)
    show "P (Suc k) (step s)" if k: "k < n" "P k s" for k s
    proof -
      obtain r where s: "s = (k, r)" "length r = 2 * k" "wval r = squares_val (take k a)"
        using k(2) by (cases s) (auto simp: P_def)
      define x where "x = a ! k"
      have sq: "sqr x = (Lw (wide x * wide x), Hw (wide x * wide x))" by (simp add: sqr_def Let_def)
      have "unat (Lw (wide x * wide x)) + radix * unat (Hw (wide x * wide x)) = unat x * unat x"
        by (simp add: Lw_Hw wide_mult)
      then have "wval (r @ [Lw (wide x * wide x), Hw (wide x * wide x)]) =
          wval r + (radix * radix) ^ k * (unat x * unat x)"
        by (simp add: wval_append s(2) power_mult power2_eq_square)
      moreover have "take (Suc k) a = take k a @ [x]" using k(1) assms by (simp add: take_Suc_conv_app_nth x_def)
      ultimately show ?thesis
        using k(1) assms s by (simp add: P_def step_def sq squares_val_snoc flip: x_def)
    qed
  qed (simp add: P_def)
  moreover have "n \<noteq> 0 \<Longrightarrow> bn_sqr_words a n = snd (loop4 step n (0, []))"
    by (simp add: bn_sqr_words_def step_def)
  ultimately show "length (bn_sqr_words a n) = 2 * n" "wval (bn_sqr_words a n) = squares_val (take n a)"
    by (cases "n = 0"; auto simp: P_def bn_sqr_words_def)+
qed

section \<open>Column-wise products\<close>

text \<open>
  The routines for four and eight limbs add up the products of each column in a number of three
  words \<open>(c0, c1, c2)\<close>, write its low word, and go on with the next column.
\<close>

type_synonym acc = "limb \<times> limb \<times> limb"

definition mul_add_c :: "limb \<Rightarrow> limb \<Rightarrow> acc \<Rightarrow> acc" where
  "mul_add_c a b = (\<lambda>(c0, c1, c2).
     let t = wide a * wide b + wide c0; c0 = Lw t; hi = Hw t; c1 = c1 + hi;
         c2 = (if c1 < hi then c2 + 1 else c2) in (c0, c1, c2))"

definition mul_add_c2 :: "limb \<Rightarrow> limb \<Rightarrow> acc \<Rightarrow> acc" where
  "mul_add_c2 a b = (\<lambda>(c0, c1, c2).
     let t = wide a * wide b; tt = t + wide c0; c0 = Lw tt; hi = Hw tt; c1 = c1 + hi;
         c2 = (if c1 < hi then c2 + 1 else c2);
         t = t + wide c0; c0 = Lw t; hi = Hw t; c1 = c1 + hi;
         c2 = (if c1 < hi then c2 + 1 else c2) in (c0, c1, c2))"

definition sqr_add_c :: "limbs \<Rightarrow> nat \<Rightarrow> acc \<Rightarrow> acc" where
  "sqr_add_c a i = (\<lambda>(c0, c1, c2).
     let t = wide (a ! i) * wide (a ! i) + wide c0; c0 = Lw t; hi = Hw t; c1 = c1 + hi;
         c2 = (if c1 < hi then c2 + 1 else c2) in (c0, c1, c2))"

definition sqr_add_c2 :: "limbs \<Rightarrow> nat \<Rightarrow> nat \<Rightarrow> acc \<Rightarrow> acc" where
  "sqr_add_c2 a i j = mul_add_c2 (a ! i) (a ! j)"

text \<open>
  \<open>comba add cols s\<close> runs through the columns; the accumulator of a column is the one of the
  column before it with the words rotated and the lowest cleared.  The last word is written
  after the last column.
\<close>

fun comba :: "('e \<Rightarrow> acc \<Rightarrow> acc) \<Rightarrow> 'e list list \<Rightarrow> acc \<Rightarrow> limbs" where
  "comba add [] (c1, c2, c3) = [c1]"
| "comba add (col # cols) s = (let (c1, c2, c3) = fold add col s in c1 # comba add cols (c2, c3, 0))"

definition bn_mul_comba8 :: "limbs \<Rightarrow> limbs \<Rightarrow> limbs" where
  "bn_mul_comba8 a b = comba (\<lambda>(i, j). mul_add_c (a ! i) (b ! j))
     [[(0, 0)],
      [(0, 1), (1, 0)],
      [(2, 0), (1, 1), (0, 2)],
      [(0, 3), (1, 2), (2, 1), (3, 0)],
      [(4, 0), (3, 1), (2, 2), (1, 3), (0, 4)],
      [(0, 5), (1, 4), (2, 3), (3, 2), (4, 1), (5, 0)],
      [(6, 0), (5, 1), (4, 2), (3, 3), (2, 4), (1, 5), (0, 6)],
      [(0, 7), (1, 6), (2, 5), (3, 4), (4, 3), (5, 2), (6, 1), (7, 0)],
      [(7, 1), (6, 2), (5, 3), (4, 4), (3, 5), (2, 6), (1, 7)],
      [(2, 7), (3, 6), (4, 5), (5, 4), (6, 3), (7, 2)],
      [(7, 3), (6, 4), (5, 5), (4, 6), (3, 7)],
      [(4, 7), (5, 6), (6, 5), (7, 4)],
      [(7, 5), (6, 6), (5, 7)],
      [(6, 7), (7, 6)],
      [(7, 7)]] (0, 0, 0)"

definition bn_mul_comba4 :: "limbs \<Rightarrow> limbs \<Rightarrow> limbs" where
  "bn_mul_comba4 a b = comba (\<lambda>(i, j). mul_add_c (a ! i) (b ! j))
     [[(0, 0)],
      [(0, 1), (1, 0)],
      [(2, 0), (1, 1), (0, 2)],
      [(0, 3), (1, 2), (2, 1), (3, 0)],
      [(3, 1), (2, 2), (1, 3)],
      [(2, 3), (3, 2)],
      [(3, 3)]] (0, 0, 0)"

text \<open>A diagonal entry of a square is added once, the others twice.\<close>

definition sqr_entry :: "limbs \<Rightarrow> nat \<times> nat \<Rightarrow> acc \<Rightarrow> acc" where
  "sqr_entry a = (\<lambda>(i, j). if i = j then sqr_add_c a i else sqr_add_c2 a i j)"

definition bn_sqr_comba8 :: "limbs \<Rightarrow> limbs" where
  "bn_sqr_comba8 a = comba (sqr_entry a)
     [[(0, 0)],
      [(1, 0)],
      [(1, 1), (2, 0)],
      [(3, 0), (2, 1)],
      [(2, 2), (3, 1), (4, 0)],
      [(5, 0), (4, 1), (3, 2)],
      [(3, 3), (4, 2), (5, 1), (6, 0)],
      [(7, 0), (6, 1), (5, 2), (4, 3)],
      [(4, 4), (5, 3), (6, 2), (7, 1)],
      [(7, 2), (6, 3), (5, 4)],
      [(5, 5), (6, 4), (7, 3)],
      [(7, 4), (6, 5)],
      [(6, 6), (7, 5)],
      [(7, 6)],
      [(7, 7)]] (0, 0, 0)"

definition bn_sqr_comba4 :: "limbs \<Rightarrow> limbs" where
  "bn_sqr_comba4 a = comba (sqr_entry a)
     [[(0, 0)],
      [(1, 0)],
      [(1, 1), (2, 0)],
      [(3, 0), (2, 1)],
      [(2, 2), (3, 1)],
      [(3, 2)],
      [(3, 3)]] (0, 0, 0)"

definition acc_val :: "acc \<Rightarrow> nat" where
  "acc_val = (\<lambda>(c0, c1, c2). unat c0 + radix * unat c1 + radix * radix * unat c2)"

lemma acc_add:
  assumes t: "unat t < radix * radix" and s: "acc_val (c0, c1, c2) = v"
    and eq: "unat t = unat c0 + p" and bound: "v + p < radix * radix * radix"
  shows "acc_val (Lw t, c1 + Hw t, if c1 + Hw t < Hw t then c2 + 1 else c2) = v + p"
proof -
  define hi where "hi = Hw t"
  have lt: "unat c1 < radix" "unat hi < radix" "unat c2 < radix" by simp_all
  have low: "unat (Lw t) + radix * unat hi = unat c0 + p" using Lw_Hw [of t] eq by (simp add: hi_def)
  have v: "v + p = unat (Lw t) + radix * (unat c1 + unat hi) + radix * radix * unat c2"
    using s low by (simp add: acc_val_def algebra_simps)
  show ?thesis
  proof (cases "unat c1 + unat hi < radix")
    case True
    then have "unat (c1 + hi) = unat c1 + unat hi" by (simp add: unat_word_ariths radix_def)
    moreover from this have "\<not> c1 + hi < hi" by (simp add: word_less_nat_alt)
    ultimately show ?thesis by (simp add: acc_val_def v flip: hi_def)
  next
    case False
    then have a: "unat (c1 + hi) = unat c1 + unat hi - radix"
      using lt by (simp add: unat_word_ariths radix_def mod_if)
    then have "unat (c1 + hi) < unat hi" using lt(1) False by linarith
    then have "c1 + hi < hi" by (simp add: word_less_nat_alt)
    moreover have "unat (c2 + 1) = unat c2 + 1"
    proof -
      have "radix * radix * (unat c2 + 1) \<le> v + p"
      proof -
        have "radix * radix \<le> radix * (unat c1 + unat hi)" using False by (intro mult_le_mono2) simp
        then show ?thesis unfolding v by (simp add: algebra_simps)
      qed
      then have "radix * radix * (unat c2 + 1) < radix * radix * radix" using bound by linarith
      then have "unat c2 + 1 < radix" by (simp only: mult_less_cancel1)
      then show ?thesis by (simp add: unat_word_ariths radix_def)
    qed
    ultimately have "acc_val (Lw t, c1 + hi, if c1 + hi < hi then c2 + 1 else c2)
        = unat (Lw t) + radix * unat (c1 + hi) + radix * radix * (unat c2 + 1)"
      by (simp add: acc_val_def)
    moreover have "unat c1 + unat hi = radix + unat (c1 + hi)" using a False by simp
    ultimately show ?thesis unfolding v hi_def [symmetric] by (simp add: algebra_simps)
  qed
qed

lemma mul_add_c:
  assumes "acc_val s + unat a * unat b < radix * radix * radix"
  shows "acc_val (mul_add_c a b s) = acc_val s + unat a * unat b"
proof (cases s)
  case (fields c0 c1 c2)
  have "unat (wide a * wide b + wide c0) = unat c0 + unat a * unat b"
    using wide_mult_add [of a b c0 0] by (simp add: wide_def)
  from acc_add [OF u128_lt refl this, of c1 c2] assms show ?thesis
    by (simp add: fields mul_add_c_def Let_def)
qed

lemma mul_add_c2_twice: "mul_add_c2 a b s = mul_add_c a b (mul_add_c a b s)"
  by (cases s) (simp add: mul_add_c2_def mul_add_c_def Let_def)

lemma mul_add_c2:
  assumes "acc_val s + 2 * (unat a * unat b) < radix * radix * radix"
  shows "acc_val (mul_add_c2 a b s) = acc_val s + 2 * (unat a * unat b)"
  using assms by (simp add: mul_add_c2_twice mul_add_c)

lemma sqr_add_c_eq: "sqr_add_c a i = mul_add_c (a ! i) (a ! i)"
  by (simp add: sqr_add_c_def mul_add_c_def)

text \<open>
  The columns add up to the value of the product when no accumulator overflows: here \<open>p\<close> gives
  the product of an entry, at most \<open>k\<close> in each column.
\<close>

fun columns_val :: "('e \<Rightarrow> nat) \<Rightarrow> 'e list list \<Rightarrow> nat" where
  "columns_val p [] = 0"
| "columns_val p (col # cols) = sum_list (map p col) + radix * columns_val p cols"

lemma fold_column:
  assumes "\<And>e s. e \<in> set col \<Longrightarrow> acc_val s + p e < radix * radix * radix \<Longrightarrow> acc_val (add e s) = acc_val s + p e"
    and "acc_val s + sum_list (map p col) < radix * radix * radix"
  shows "acc_val (fold add col s) = acc_val s + sum_list (map p col)"
  using assms
proof (induction col arbitrary: s)
  case (Cons e col)
  have "acc_val (add e s) = acc_val s + p e" using Cons.prems by simp
  moreover from this have "acc_val (fold add col (add e s)) = acc_val (add e s) + sum_list (map p col)"
    using Cons.prems by (intro Cons.IH) (auto simp: add.assoc)
  ultimately show ?case by simp
qed simp

lemma comba:
  assumes "\<And>e s. acc_val s + p e < radix * radix * radix \<Longrightarrow> acc_val (add e s) = acc_val s + p e"
    and "\<And>col. col \<in> set cols \<Longrightarrow> sum_list (map p col) + k < radix * k" "k \<le> radix * radix" "acc_val s < k"
  shows "length (comba add cols s) = Suc (length cols)
    \<and> wval (comba add cols s) = (acc_val s + columns_val p cols) mod radix ^ Suc (length cols)"
  using assms(2,4)
proof (induction cols arbitrary: s)
  case Nil
  obtain c0 c1 c2 where s: "s = (c0, c1, c2)" by (cases s) auto
  have "acc_val s = unat c0 + radix * (unat c1 + radix * unat c2)" by (simp add: s acc_val_def algebra_simps)
  then show ?case by (simp add: s)
next
  case (Cons col cols)
  have col: "sum_list (map p col) + k < radix * k" using Cons.prems(1) by simp
  have kk: "radix * k \<le> radix * radix * radix" using assms(3) by (metis mult.assoc mult_le_mono2)
  have f: "acc_val (fold add col s) = acc_val s + sum_list (map p col)"
    by (rule fold_column [OF assms(1)]) (use col kk Cons.prems(2) in linarith)+
  obtain c1 c2 c3 where c: "fold add col s = (c1, c2, c3)" by (cases "fold add col s") auto
  define m where "m = acc_val (c2, c3, 0)"
  have m: "acc_val s + sum_list (map p col) = unat c1 + radix * m"
    using f c by (simp add: acc_val_def m_def algebra_simps)
  have "radix * m < radix * k" using m col Cons.prems(2) by linarith
  then have "m < k" by simp
  then have IH: "length (comba add cols (c2, c3, 0)) = Suc (length cols)"
    "wval (comba add cols (c2, c3, 0)) = (m + columns_val p cols) mod radix ^ Suc (length cols)"
    using Cons.IH [of "(c2, c3, 0)"] Cons.prems(1) by (simp_all add: m_def)
  have "acc_val s + columns_val p (col # cols) = unat c1 + radix * (m + columns_val p cols)"
    using m by (simp add: algebra_simps)
  then have "(acc_val s + columns_val p (col # cols)) mod radix ^ Suc (Suc (length cols))
      = (unat c1 + radix * (m + columns_val p cols)) mod (radix * radix ^ Suc (length cols))"
    by (simp only: power_Suc)
  also have "\<dots> = unat c1 + radix * ((m + columns_val p cols) mod radix ^ Suc (length cols))"
    by (simp add: mod_mult2_eq)
  finally show ?case using IH by (simp add: c)
qed

lemma list_of_4: "length (xs :: 'a list) = 4 \<Longrightarrow> xs = [xs ! 0, xs ! 1, xs ! 2, xs ! 3]"
  by (cases xs; cases "tl xs"; cases "tl (tl xs)"; cases "tl (tl (tl xs))") auto

lemma list_of_8: 
  assumes "length (xs :: 'a list) = 8"
  shows "xs = [xs ! 0, xs ! 1, xs ! 2, xs ! 3, xs ! 4, xs ! 5, xs ! 6, xs ! 7]"
  by (rule nth_equalityI) (use assms in \<open>auto simp: nth_Cons' less_Suc_eq numeral_eq_Suc\<close>)

lemmas wval_4 = list_of_4 [THEN arg_cong [of _ _ wval], simplified]
lemmas wval_8 = list_of_8 [THEN arg_cong [of _ _ wval], simplified]

text \<open>
  No column has more than eight products, so \<open>9 * radix\<close> bounds the accumulator at the start of
  every column.
\<close>

lemma comba_product:
  assumes "\<And>e s. acc_val s + p e < radix * radix * radix \<Longrightarrow> acc_val (add e s) = acc_val s + p e"
    and "\<And>e. p e \<le> m * ((radix - 1) * (radix - 1))" "\<forall>col\<in>set cols. m * length col \<le> 8"
    and "columns_val p cols = v" "n = Suc (length cols)" "v < radix ^ n"
  shows "length (comba add cols (0, 0, 0)) = n" "wval (comba add cols (0, 0, 0)) = v"
proof -
  have c8: "sum_list (map p col) \<le> 8 * ((radix - 1) * (radix - 1))" if "col \<in> set cols" for col
  proof -
    have "sum_list (map p col) \<le> length col * (m * ((radix - 1) * (radix - 1)))"
    proof (induction col)
      case (Cons e col)
      then show ?case using assms(2) [of e] by simp
    qed simp
    also have "\<dots> = (m * length col) * ((radix - 1) * (radix - 1))" by simp
    also have "\<dots> \<le> 8 * ((radix - 1) * (radix - 1))" using assms(3) that by (intro mult_le_mono1) simp
    finally show ?thesis .
  qed
  have b: "8 * ((radix - 1) * (radix - 1)) + 9 * radix < radix * (9 * radix)" "9 * radix \<le> radix * radix"
    by (simp_all add: radix_def)
  have "length (comba add cols (0, 0, 0)) = Suc (length cols) \<and>
    wval (comba add cols (0, 0, 0)) = (acc_val (0, 0, 0) + columns_val p cols) mod radix ^ Suc (length cols)"
  proof (rule comba [where k = "9 * radix"])
    show "sum_list (map p col) + 9 * radix < radix * (9 * radix)" if "col \<in> set cols" for col
      using c8 [OF that] b(1) by linarith
  qed (use assms(1) b in \<open>simp_all add: acc_val_def\<close>)
  then show "length (comba add cols (0, 0, 0)) = n" "wval (comba add cols (0, 0, 0)) = v"
    using assms(4-6) by (simp_all add: acc_val_def)
qed

lemma wval_product_lt:
  assumes "length a = m" "length b = n"
  shows "wval a * wval b < radix ^ (m + n)"
proof -
  have "wval a * wval b < radix ^ m * radix ^ n"
    using wval_lt [of a] wval_lt [of b] assms by (intro mult_strict_mono) simp_all
  then show ?thesis by (simp add: power_add)
qed

lemma mul_add_c_entry:
  "acc_val s + (case e of (i, j) \<Rightarrow> unat (a ! i) * unat (b ! j)) < radix * radix * radix \<Longrightarrow>
   acc_val ((case e of (i, j) \<Rightarrow> mul_add_c (a ! i) (b ! j)) s) =
     acc_val s + (case e of (i, j) \<Rightarrow> unat (a ! i) * unat (b ! j))"
  by (cases e) (simp add: mul_add_c)

lemma sqr_entry:
  "acc_val s + (case e of (i, j) \<Rightarrow> if i = j then unat (a ! i) * unat (a ! i) else 2 * (unat (a ! i) * unat (a ! j)))
     < radix * radix * radix \<Longrightarrow>
   acc_val (sqr_entry a e s) = acc_val s +
     (case e of (i, j) \<Rightarrow> if i = j then unat (a ! i) * unat (a ! i) else 2 * (unat (a ! i) * unat (a ! j)))"
  by (cases e) (simp add: sqr_entry_def sqr_add_c_eq mul_add_c sqr_add_c2_def mul_add_c2 split: if_splits)

lemma bn_mul_comba4:
  assumes "length a = 4" "length b = 4"
  shows "length (bn_mul_comba4 a b) = 8" "wval (bn_mul_comba4 a b) = wval a * wval b"
proof -
  have le: "(case e of (i, j) \<Rightarrow> unat (a ! i) * unat (b ! j)) \<le> 1 * ((radix - 1) * (radix - 1))" for e
    using limb_mult_bound by (simp split: prod.splits)
  have val: "wval a * wval b < radix ^ 8" using wval_product_lt [OF assms] by simp
  have eq: "columns_val (\<lambda>(i, j). unat (a ! i) * unat (b ! j))
     [[(0, 0)],
      [(0, 1), (1, 0)],
      [(2, 0), (1, 1), (0, 2)],
      [(0, 3), (1, 2), (2, 1), (3, 0)],
      [(3, 1), (2, 2), (1, 3)],
      [(2, 3), (3, 2)],
      [(3, 3)]] = wval a * wval b"
    by (simp add: wval_4 [OF assms(1)] wval_4 [OF assms(2)] algebra_simps)
  note c = comba_product [OF mul_add_c_entry le _ eq _ val]
  show "length (bn_mul_comba4 a b) = 8" "wval (bn_mul_comba4 a b) = wval a * wval b"
    unfolding bn_mul_comba4_def by (rule c; simp)+
qed

lemma bn_mul_comba8:
  assumes "length a = 8" "length b = 8"
  shows "length (bn_mul_comba8 a b) = 16" "wval (bn_mul_comba8 a b) = wval a * wval b"
proof -
  have le: "(case e of (i, j) \<Rightarrow> unat (a ! i) * unat (b ! j)) \<le> 1 * ((radix - 1) * (radix - 1))" for e
    using limb_mult_bound by (simp split: prod.splits)
  have val: "wval a * wval b < radix ^ 16" using wval_product_lt [OF assms] by simp
  have eq: "columns_val (\<lambda>(i, j). unat (a ! i) * unat (b ! j))
     [[(0, 0)],
      [(0, 1), (1, 0)],
      [(2, 0), (1, 1), (0, 2)],
      [(0, 3), (1, 2), (2, 1), (3, 0)],
      [(4, 0), (3, 1), (2, 2), (1, 3), (0, 4)],
      [(0, 5), (1, 4), (2, 3), (3, 2), (4, 1), (5, 0)],
      [(6, 0), (5, 1), (4, 2), (3, 3), (2, 4), (1, 5), (0, 6)],
      [(0, 7), (1, 6), (2, 5), (3, 4), (4, 3), (5, 2), (6, 1), (7, 0)],
      [(7, 1), (6, 2), (5, 3), (4, 4), (3, 5), (2, 6), (1, 7)],
      [(2, 7), (3, 6), (4, 5), (5, 4), (6, 3), (7, 2)],
      [(7, 3), (6, 4), (5, 5), (4, 6), (3, 7)],
      [(4, 7), (5, 6), (6, 5), (7, 4)],
      [(7, 5), (6, 6), (5, 7)],
      [(6, 7), (7, 6)],
      [(7, 7)]] = wval a * wval b"
    by (simp add: wval_8 [OF assms(1)] wval_8 [OF assms(2)] algebra_simps)
  note c = comba_product [OF mul_add_c_entry le _ eq _ val]
  show "length (bn_mul_comba8 a b) = 16" "wval (bn_mul_comba8 a b) = wval a * wval b"
    unfolding bn_mul_comba8_def by (rule c; simp)+
qed

lemma sqr_entry_le:
  "(case e of (i, j) \<Rightarrow> if i = j then unat (a ! i) * unat (a ! i) else 2 * (unat (a ! i) * unat (a ! j)))
     \<le> 2 * ((radix - 1) * (radix - 1))" for a :: limbs
proof (cases e)
  case (Pair i j)
  define m where "m = (radix - 1) * (radix - 1)"
  have "unat (a ! i) * unat (a ! j) \<le> m" "unat (a ! i) * unat (a ! i) \<le> m"
    unfolding m_def by (rule limb_mult_bound)+
  then show ?thesis unfolding m_def [symmetric] Pair by auto
qed

lemma bn_sqr_comba4:
  assumes "length a = 4"
  shows "length (bn_sqr_comba4 a) = 8" "wval (bn_sqr_comba4 a) = wval a * wval a"
proof -
  have val: "wval a * wval a < radix ^ 8" using wval_product_lt [OF assms assms] by simp
  have eq: "columns_val (\<lambda>(i, j). if i = j then unat (a ! i) * unat (a ! i) else 2 * (unat (a ! i) * unat (a ! j)))
     [[(0, 0)],
      [(1, 0)],
      [(1, 1), (2, 0)],
      [(3, 0), (2, 1)],
      [(2, 2), (3, 1)],
      [(3, 2)],
      [(3, 3)]] = wval a * wval a"
    by (simp add: wval_4 [OF assms] algebra_simps)
  note c = comba_product [OF sqr_entry sqr_entry_le _ eq _ val]
  show "length (bn_sqr_comba4 a) = 8" "wval (bn_sqr_comba4 a) = wval a * wval a"
    unfolding bn_sqr_comba4_def by (rule c; simp)+
qed

lemma bn_sqr_comba8:
  assumes "length a = 8"
  shows "length (bn_sqr_comba8 a) = 16" "wval (bn_sqr_comba8 a) = wval a * wval a"
proof -
  have val: "wval a * wval a < radix ^ 16" using wval_product_lt [OF assms assms] by simp
  have eq: "columns_val (\<lambda>(i, j). if i = j then unat (a ! i) * unat (a ! i) else 2 * (unat (a ! i) * unat (a ! j)))
     [[(0, 0)],
      [(1, 0)],
      [(1, 1), (2, 0)],
      [(3, 0), (2, 1)],
      [(2, 2), (3, 1), (4, 0)],
      [(5, 0), (4, 1), (3, 2)],
      [(3, 3), (4, 2), (5, 1), (6, 0)],
      [(7, 0), (6, 1), (5, 2), (4, 3)],
      [(4, 4), (5, 3), (6, 2), (7, 1)],
      [(7, 2), (6, 3), (5, 4)],
      [(5, 5), (6, 4), (7, 3)],
      [(7, 4), (6, 5)],
      [(6, 6), (7, 5)],
      [(7, 6)],
      [(7, 7)]] = wval a * wval a"
    by (simp add: wval_8 [OF assms] algebra_simps)
  note c = comba_product [OF sqr_entry sqr_entry_le _ eq _ val]
  show "length (bn_sqr_comba8 a) = 16" "wval (bn_sqr_comba8 a) = wval a * wval a"
    unfolding bn_sqr_comba8_def by (rule c; simp)+
qed

end
