(* ===== verification/BigNum.thy ===== *)
theory BigNum
  imports Limbs Mem
begin

text \<open>
  Big numbers: \<open>crypto/fipsmodule/bn/bn.c\<close> and \<open>cmp.c\<close>.  A BIGNUM is a record; \<open>bn_d\<close> is the
  whole allocated array, of \<open>bn_dmax\<close> limbs, of which the first \<open>bn_width\<close> are the magnitude.
  The width need not be minimal.  An operation that can fail returns its success and the final
  state of the number that it writes to; where C allows the output to be one of the inputs,
  the model is called with that input in both places (\<open>BN_Alias\<close> models \<open>add.c\<close> on a store in which
  the numbers may coincide, and justifies this there).  The \<open>int\<close> fields are never negative and
  are natural numbers; the limit that \<open>bn_wexpand\<close> puts on sizes (\<open>bn_ok\<close> below) keeps every
  \<open>int\<close> computation with them far from overflow.
\<close>

record bignum =
  bn_d :: limbs
  bn_width :: nat
  bn_dmax :: nat
  bn_neg :: bool
  bn_flags :: u32

definition BN_FLG_MALLOCED :: u32 where
  "BN_FLG_MALLOCED = 0x01"

definition BN_FLG_STATIC_DATA :: u32 where
  "BN_FLG_STATIC_DATA = 0x02"

definition BN_BITS2 :: nat where
  "BN_BITS2 = 64"

section \<open>Allocation\<close>

text \<open>A fresh block of memory as limbs, in the little-endian order of the targets.\<close>

fun limbs_of_bytes :: "bytes \<Rightarrow> limbs" where
  "limbs_of_bytes (b0 # b1 # b2 # b3 # b4 # b5 # b6 # b7 # bs) =
     of_nat (be_val [b7, b6, b5, b4, b3, b2, b1, b0]) # limbs_of_bytes bs"
| "limbs_of_bytes _ = []"

definition malloc_limbs :: "heap_env \<Rightarrow> nat \<Rightarrow> limbs option" where
  "malloc_limbs e n = map_option limbs_of_bytes (OPENSSL_malloc e (8 * n))"

definition BN_init :: bignum where
  "BN_init = \<lparr>bn_d = [], bn_width = 0, bn_dmax = 0, bn_neg = False, bn_flags = 0\<rparr>"

definition BN_new :: "heap_env \<Rightarrow> bignum option" where
  "BN_new e = (case OPENSSL_malloc e 24 of None \<Rightarrow> None | Some _ \<Rightarrow> Some (BN_init\<lparr>bn_flags := BN_FLG_MALLOCED\<rparr>))"

definition bn_max_words :: nat where
  "bn_max_words = INT_MAX div (4 * BN_BITS2)"

definition bn_wexpand :: "heap_env \<Rightarrow> bignum \<Rightarrow> nat \<Rightarrow> bignum option" where
  "bn_wexpand e bn n =
     (if n \<le> bn_dmax bn then Some bn
      else if n > bn_max_words then None
      else if bn_flags bn AND BN_FLG_STATIC_DATA \<noteq> 0 then None
      else (case malloc_limbs e n of
              None \<Rightarrow> None
            | Some a \<Rightarrow> Some (bn\<lparr>bn_d := blit a 0 (take (bn_width bn) (bn_d bn)), bn_dmax := n\<rparr>)))"

definition bn_expand :: "heap_env \<Rightarrow> bignum \<Rightarrow> nat \<Rightarrow> bignum option" where
  "bn_expand e bn bits =
     (if size_add bits (BN_BITS2 - 1) < bits then None
      else bn_wexpand e bn (size_add bits (BN_BITS2 - 1) div BN_BITS2))"

definition BN_copy :: "heap_env \<Rightarrow> bignum \<Rightarrow> bignum \<Rightarrow> bool \<times> bignum" where
  "BN_copy e dest src =
     (case bn_wexpand e dest (bn_width src) of
        None \<Rightarrow> (False, dest)
      | Some dest \<Rightarrow>
          (True, dest\<lparr>bn_d := blit (bn_d dest) 0 (take (bn_width src) (bn_d src)),
                      bn_width := bn_width src, bn_neg := bn_neg src\<rparr>))"

definition BN_dup :: "heap_env \<Rightarrow> bignum option \<Rightarrow> bignum option" where
  "BN_dup e src =
     (case src of
        None \<Rightarrow> None
      | Some src \<Rightarrow>
          (case BN_new e of
             None \<Rightarrow> None
           | Some copy \<Rightarrow> (case BN_copy e copy src of (ok, copy) \<Rightarrow> if ok then Some copy else None)))"

definition BN_clear :: "bignum \<Rightarrow> bignum" where
  "BN_clear bn = bn\<lparr>bn_d := replicate (bn_dmax bn) 0, bn_width := 0, bn_neg := False\<rparr>"

definition BN_value_one :: bignum where
  "BN_value_one = \<lparr>bn_d = [1], bn_width = 1, bn_dmax = 1, bn_neg = False, bn_flags = BN_FLG_STATIC_DATA\<rparr>"

section \<open>Sizes\<close>

text \<open>
  One of the steps that halve the search in \<open>BN_num_bits_word\<close>: if the part of \<open>l\<close> above \<open>k\<close>
  bits is not zero, count \<open>k\<close> and go on with that part.
\<close>

definition num_bits_step :: "nat \<Rightarrow> nat \<times> limb \<Rightarrow> nat \<times> limb" where
  "num_bits_step k = (\<lambda>(bits, l).
     let x = drop_bit k l; mask = 0 - x; mask = 0 - drop_bit (BN_BITS2 - 1) mask
     in (bits + unat (of_nat k AND mask), l XOR ((x XOR l) AND mask)))"

definition BN_num_bits_word :: "limb \<Rightarrow> nat" where
  "BN_num_bits_word l =
     (let (bits, l) = fold num_bits_step [32, 16, 8, 4, 2] (if l \<noteq> 0 then 1 else 0, l)
      in fst (num_bits_step 1 (bits, l)))"

fun minimal_width_loop :: "limbs \<Rightarrow> nat \<Rightarrow> nat" where
  "minimal_width_loop d ret =
     (if ret > 0 \<and> d ! (ret - 1) = 0 then minimal_width_loop d (ret - 1) else ret)"

declare minimal_width_loop.simps [simp del]

definition bn_minimal_width :: "bignum \<Rightarrow> nat" where
  "bn_minimal_width bn = minimal_width_loop (bn_d bn) (bn_width bn)"

definition bn_set_minimal_width :: "bignum \<Rightarrow> bignum" where
  "bn_set_minimal_width bn =
     (let bn = bn\<lparr>bn_width := bn_minimal_width bn\<rparr>
      in if bn_width bn = 0 then bn\<lparr>bn_neg := False\<rparr> else bn)"

definition BN_num_bits :: "bignum \<Rightarrow> nat" where
  "BN_num_bits bn =
     (let width = bn_minimal_width bn
      in if width = 0 then 0 else (width - 1) * BN_BITS2 + BN_num_bits_word (bn_d bn ! (width - 1)))"

definition BN_num_bytes :: "bignum \<Rightarrow> nat" where
  "BN_num_bytes bn = (BN_num_bits bn + 7) div 8"

section \<open>Words\<close>

definition BN_zero :: "bignum \<Rightarrow> bignum" where
  "BN_zero bn = bn\<lparr>bn_width := 0, bn_neg := False\<rparr>"

definition BN_set_word :: "heap_env \<Rightarrow> bignum \<Rightarrow> limb \<Rightarrow> bool \<times> bignum" where
  "BN_set_word e bn v =
     (if v = 0 then (True, BN_zero bn)
      else (case bn_wexpand e bn 1 of
              None \<Rightarrow> (False, bn)
            | Some bn \<Rightarrow> (True, bn\<lparr>bn_neg := False, bn_d := (bn_d bn)[0 := v], bn_width := 1\<rparr>)))"

definition BN_one :: "heap_env \<Rightarrow> bignum \<Rightarrow> bool \<times> bignum" where
  "BN_one e bn = BN_set_word e bn 1"

definition bn_set_words :: "heap_env \<Rightarrow> bignum \<Rightarrow> limbs \<Rightarrow> nat \<Rightarrow> bool \<times> bignum" where
  "bn_set_words e bn ws num =
     (case bn_wexpand e bn num of
        None \<Rightarrow> (False, bn)
      | Some bn \<Rightarrow> (True, bn\<lparr>bn_d := blit (bn_d bn) 0 (take num ws), bn_width := num, bn_neg := False\<rparr>))"

text \<open>The loops that join limbs \<open>i, \<dots>, j - 1\<close> in a mask.\<close>

definition or_words :: "limbs \<Rightarrow> nat \<Rightarrow> nat \<Rightarrow> limb \<Rightarrow> limb" where
  "or_words d i j mask_w = fold (\<lambda>k m. m OR d ! k) [i..<j] mask_w"

definition bn_fits_in_words :: "bignum \<Rightarrow> nat \<Rightarrow> bool" where
  "bn_fits_in_words bn num \<longleftrightarrow> or_words (bn_d bn) num (bn_width bn) 0 = 0"

definition bn_copy_words :: "nat \<Rightarrow> bignum \<Rightarrow> limbs option" where
  "bn_copy_words num bn =
     (if bn_neg bn then None
      else if bn_width bn > num \<and> \<not> bn_fits_in_words bn num then None
      else let width = (if bn_width bn > num then num else bn_width bn)
           in Some (blit (replicate num 0) 0 (take width (bn_d bn))))"

definition bn_resize_words :: "heap_env \<Rightarrow> bignum \<Rightarrow> nat \<Rightarrow> bool \<times> bignum" where
  "bn_resize_words e bn n =
     (if bn_width bn \<le> n then
        (case bn_wexpand e bn n of
           None \<Rightarrow> (False, bn)
         | Some bn \<Rightarrow> (True, bn\<lparr>bn_d := blit (bn_d bn) (bn_width bn) (replicate (n - bn_width bn) 0), bn_width := n\<rparr>))
      else if \<not> bn_fits_in_words bn n then (False, bn)
      else (True, bn\<lparr>bn_width := n\<rparr>))"

definition bn_select_words :: "limb \<Rightarrow> limbs \<Rightarrow> limbs \<Rightarrow> nat \<Rightarrow> limbs" where
  "bn_select_words mask_w a b num = map (\<lambda>i. constant_time_select_w mask_w (a ! i) (b ! i)) [0..<num]"

section \<open>Comparisons\<close>

definition cmp_step :: "limbs \<Rightarrow> limbs \<Rightarrow> nat \<Rightarrow> int \<Rightarrow> int" where
  "cmp_step a b i ret =
     (let eq = constant_time_eq_w (a ! i) (b ! i); lt = constant_time_lt_w (a ! i) (b ! i)
      in constant_time_select_int eq ret (constant_time_select_int lt (-1) 1))"

definition bn_cmp_words_consttime :: "limbs \<Rightarrow> nat \<Rightarrow> limbs \<Rightarrow> nat \<Rightarrow> int" where
  "bn_cmp_words_consttime a a_len b b_len =
     (let ret = fold (cmp_step a b) [0..<min a_len b_len] 0
      in if a_len < b_len then
           constant_time_select_int (constant_time_is_zero_w (or_words b a_len b_len 0)) ret (-1)
         else if b_len < a_len then
           constant_time_select_int (constant_time_is_zero_w (or_words a b_len a_len 0)) ret 1
         else ret)"

definition bn_less_than_words :: "limbs \<Rightarrow> limbs \<Rightarrow> nat \<Rightarrow> bool" where
  "bn_less_than_words a b n \<longleftrightarrow> bn_cmp_words_consttime a n b n < 0"

definition BN_ucmp :: "bignum \<Rightarrow> bignum \<Rightarrow> int" where
  "BN_ucmp a b = bn_cmp_words_consttime (bn_d a) (bn_width a) (bn_d b) (bn_width b)"

definition BN_cmp :: "bignum option \<Rightarrow> bignum option \<Rightarrow> int" where
  "BN_cmp a b =
     (case (a, b) of
        (Some _, None) \<Rightarrow> -1
      | (None, Some _) \<Rightarrow> 1
      | (None, None) \<Rightarrow> 0
      | (Some a, Some b) \<Rightarrow>
          if bn_neg a \<noteq> bn_neg b then (if bn_neg a then -1 else 1)
          else let ret = BN_ucmp a b in if bn_neg a then - ret else ret)"

definition BN_cmp_word :: "bignum \<Rightarrow> limb \<Rightarrow> int" where
  "BN_cmp_word a b =
     (let b_bn = BN_init\<lparr>bn_d := [b], bn_width := (if b > 0 then 1 else 0), bn_dmax := 1,
                         bn_flags := BN_FLG_STATIC_DATA\<rparr>
      in BN_cmp (Some a) (Some b_bn))"

definition BN_abs_is_word :: "bignum \<Rightarrow> limb \<Rightarrow> bool" where
  "BN_abs_is_word bn w \<longleftrightarrow>
     (if bn_width bn = 0 then w = 0 else or_words (bn_d bn) 1 (bn_width bn) (bn_d bn ! 0 XOR w) = 0)"

definition BN_is_zero :: "bignum \<Rightarrow> bool" where
  "BN_is_zero bn \<longleftrightarrow> bn_fits_in_words bn 0"

definition BN_is_one :: "bignum \<Rightarrow> bool" where
  "BN_is_one bn \<longleftrightarrow> \<not> bn_neg bn \<and> BN_abs_is_word bn 1"

definition BN_is_word :: "bignum \<Rightarrow> limb \<Rightarrow> bool" where
  "BN_is_word bn w \<longleftrightarrow> BN_abs_is_word bn w \<and> (w = 0 \<or> \<not> bn_neg bn)"

definition BN_is_odd :: "bignum \<Rightarrow> bool" where
  "BN_is_odd bn \<longleftrightarrow> bn_width bn > 0 \<and> bn_d bn ! 0 AND 1 = 1"

definition BN_is_pow2 :: "bignum \<Rightarrow> bool" where
  "BN_is_pow2 bn \<longleftrightarrow>
     (let width = bn_minimal_width bn
      in if width = 0 \<or> bn_neg bn then False
         else if \<not> (\<forall>i<width - 1. bn_d bn ! i = 0) then False
         else bn_d bn ! (width - 1) AND (bn_d bn ! (width - 1) - 1) = 0)"

definition BN_equal_consttime :: "bignum \<Rightarrow> bignum \<Rightarrow> bool" where
  "BN_equal_consttime a b \<longleftrightarrow>
     (let mask_w = or_words (bn_d b) (bn_width a) (bn_width b) 0;
          mask_w = or_words (bn_d a) (bn_width b) (bn_width a) mask_w;
          mask_w = fold (\<lambda>i m. m OR (bn_d a ! i XOR bn_d b ! i)) [0..<min (bn_width a) (bn_width b)] mask_w;
          mask_w = mask_w OR (if bn_neg a \<noteq> bn_neg b then 1 else 0)
      in mask_w = 0)"

definition BN_set_negative :: "bignum \<Rightarrow> bool \<Rightarrow> bignum" where
  "BN_set_negative bn sign = (if sign \<and> \<not> BN_is_zero bn then bn\<lparr>bn_neg := True\<rparr> else bn\<lparr>bn_neg := False\<rparr>)"

definition BN_get_word :: "bignum \<Rightarrow> limb" where
  "BN_get_word bn =
     (case bn_minimal_width bn of 0 \<Rightarrow> 0 | Suc 0 \<Rightarrow> bn_d bn ! 0 | _ \<Rightarrow> - 1)"

definition BN_get_u64 :: "bignum \<Rightarrow> u64 option" where
  "BN_get_u64 bn =
     (case bn_minimal_width bn of 0 \<Rightarrow> Some 0 | Suc 0 \<Rightarrow> Some (bn_d bn ! 0) | _ \<Rightarrow> None)"

section \<open>The numbers that are meant\<close>

definition bn_abs :: "bignum \<Rightarrow> nat" where
  "bn_abs bn = wval (take (bn_width bn) (bn_d bn))"

definition bn_val :: "bignum \<Rightarrow> int" where
  "bn_val bn = (if bn_neg bn then - int (bn_abs bn) else int (bn_abs bn))"

text \<open>A number is well formed, and not a negative zero.\<close>

definition bn_ok :: "bignum \<Rightarrow> bool" where
  "bn_ok bn \<longleftrightarrow> length (bn_d bn) = bn_dmax bn \<and> bn_width bn \<le> bn_dmax bn \<and> bn_dmax bn \<le> bn_max_words"

definition bn_signed :: "bignum \<Rightarrow> bool" where
  "bn_signed bn \<longleftrightarrow> (bn_neg bn \<longrightarrow> bn_abs bn \<noteq> 0)"

text \<open>A minimal width has no leading zero limb.\<close>

definition bn_minimal :: "bignum \<Rightarrow> bool" where
  "bn_minimal bn \<longleftrightarrow> (bn_width bn > 0 \<longrightarrow> bn_d bn ! (bn_width bn - 1) \<noteq> 0)"

lemma bn_max_words: "bn_max_words = 8388607"
  by (simp add: bn_max_words_def INT_MAX_def BN_BITS2_def)

lemma bn_okD: "bn_ok bn \<Longrightarrow> length (bn_d bn) = bn_dmax bn" "bn_ok bn \<Longrightarrow> bn_width bn \<le> bn_dmax bn"
  "bn_ok bn \<Longrightarrow> bn_width bn \<le> length (bn_d bn)" "bn_ok bn \<Longrightarrow> bn_dmax bn \<le> bn_max_words"
  by (auto simp: bn_ok_def)

lemma bn_ok_width_lt: "bn_ok bn \<Longrightarrow> bn_width bn < 2 ^ 23"
  by (auto simp: bn_ok_def bn_max_words)

lemma bn_abs_lt: "bn_ok bn \<Longrightarrow> bn_abs bn < radix ^ bn_width bn"
  unfolding bn_abs_def by (rule wval_take_lt)

lemma bn_val_0_iff: "bn_val bn = 0 \<longleftrightarrow> bn_abs bn = 0"
  by (simp add: bn_val_def)

lemma abs_bn_val: "\<bar>bn_val bn\<bar> = int (bn_abs bn)"
  by (simp add: bn_val_def)

lemma bn_init_ok [simp]: "bn_ok BN_init" "bn_val BN_init = 0" "bn_abs BN_init = 0" "bn_signed BN_init"
  by (simp_all add: BN_init_def bn_ok_def bn_val_def bn_abs_def bn_signed_def)

lemma bn_value_one_ok: "bn_ok BN_value_one" "bn_val BN_value_one = 1" "bn_abs BN_value_one = 1" "bn_signed BN_value_one"
  by (simp_all add: BN_value_one_def bn_ok_def bn_val_def bn_abs_def bn_signed_def bn_max_words)

lemma bn_zero_ok: "bn_ok bn \<Longrightarrow> bn_ok (BN_zero bn)" "bn_abs (BN_zero bn) = 0" "bn_val (BN_zero bn) = 0"
  "bn_signed (BN_zero bn)" "bn_width (BN_zero bn) = 0" "bn_minimal (BN_zero bn)"
  by (simp_all add: BN_zero_def bn_ok_def bn_val_def bn_abs_def bn_signed_def bn_minimal_def)

lemma bn_clear_ok: "bn_ok bn \<Longrightarrow> bn_ok (BN_clear bn)" "bn_val (BN_clear bn) = 0"
  by (simp_all add: BN_clear_def bn_ok_def bn_val_def bn_abs_def)

section \<open>Expansion\<close>

lemma length_limbs_of_bytes: "length bs = 8 * n \<Longrightarrow> length (limbs_of_bytes bs) = n"
proof (induction bs arbitrary: n rule: limbs_of_bytes.induct)
  case (1 b0 b1 b2 b3 b4 b5 b6 b7 bs)
  then obtain k where "n = Suc k" by (cases n) auto
  with 1 show ?case by simp
qed auto

lemma malloc_limbs_length:
  assumes "malloc_limbs e n = Some a" "n < 2 ^ 60"
  shows "length a = n"
  using assms by (auto simp: malloc_limbs_def OPENSSL_malloc_def OPENSSL_MALLOC_PREFIX_def Let_def
      size_add_exact intro!: length_limbs_of_bytes split: if_splits)

lemma malloc_limbs_generous: "heap_generous e \<Longrightarrow> n < 2 ^ 58 \<Longrightarrow> \<exists>a. malloc_limbs e n = Some a"
  by (simp add: malloc_limbs_def OPENSSL_malloc_def OPENSSL_MALLOC_PREFIX_def Let_def size_add_exact heap_generous_def)

text \<open>What every successful expansion gives: room for \<open>n\<close> limbs, and the same number.\<close>

lemma bn_wexpand:
  assumes "bn_wexpand e bn n = Some bn'" "bn_ok bn"
  shows "bn_ok bn'" "n \<le> bn_dmax bn'" "n \<le> length (bn_d bn')" "bn_width bn' = bn_width bn" "bn_neg bn' = bn_neg bn"
    "bn_flags bn' = bn_flags bn" "take (bn_width bn) (bn_d bn') = take (bn_width bn) (bn_d bn)"
    "bn_abs bn' = bn_abs bn" "bn_val bn' = bn_val bn" "bn_dmax bn \<le> bn_dmax bn'"
proof -
  have *: "bn_ok bn' \<and> n \<le> bn_dmax bn' \<and> bn_width bn' = bn_width bn \<and> bn_neg bn' = bn_neg bn \<and> bn_dmax bn \<le> bn_dmax bn'
    \<and> bn_flags bn' = bn_flags bn \<and> take (bn_width bn) (bn_d bn') = take (bn_width bn) (bn_d bn)"
  proof (cases "n \<le> bn_dmax bn")
    case True
    then show ?thesis using assms by (simp add: bn_wexpand_def)
  next
    case False
    then obtain a where a: "malloc_limbs e n = Some a" "n \<le> bn_max_words"
      "bn' = bn\<lparr>bn_d := blit a 0 (take (bn_width bn) (bn_d bn)), bn_dmax := n\<rparr>"
      using assms(1) by (auto simp: bn_wexpand_def split: if_splits option.splits)
    have "length a = n" by (rule malloc_limbs_length [OF a(1)]) (use a(2) in \<open>simp add: bn_max_words\<close>)
    with False a assms(2) show ?thesis by (simp add: bn_ok_def blit_def)
  qed
  then show "bn_ok bn'" "n \<le> bn_dmax bn'" "n \<le> length (bn_d bn')" "bn_width bn' = bn_width bn" "bn_neg bn' = bn_neg bn"
    "bn_flags bn' = bn_flags bn" "take (bn_width bn) (bn_d bn') = take (bn_width bn) (bn_d bn)" "bn_dmax bn \<le> bn_dmax bn'"
    by (auto simp: bn_ok_def)
  with * show "bn_abs bn' = bn_abs bn" "bn_val bn' = bn_val bn" by (simp_all add: bn_abs_def bn_val_def)
qed

definition bn_expandable :: "bignum \<Rightarrow> bool" where
  "bn_expandable bn \<longleftrightarrow> bn_flags bn AND BN_FLG_STATIC_DATA = 0"

lemma bn_wexpand_succeeds:
  assumes "heap_generous e" "bn_expandable bn" "n \<le> bn_max_words"
  shows "\<exists>bn'. bn_wexpand e bn n = Some bn'"
proof -
  obtain a where "malloc_limbs e n = Some a"
    using malloc_limbs_generous [OF assms(1), of n] assms(3) by (auto simp: bn_max_words)
  then show ?thesis using assms(2,3) by (simp add: bn_wexpand_def bn_expandable_def)
qed

lemma bn_wexpand_fails:
  "bn_wexpand e bn n = None \<Longrightarrow> heap_generous e \<Longrightarrow> bn_expandable bn \<Longrightarrow> bn_max_words < n"
  using bn_wexpand_succeeds [of e bn n] by force

lemma bn_expandable_flags: "bn_flags bn' = bn_flags bn \<Longrightarrow> bn_expandable bn' = bn_expandable bn"
  by (simp add: bn_expandable_def)

text \<open>Writing the limbs of a result of known width.\<close>

lemma blit_front: "length ws \<le> length d \<Longrightarrow> take (length ws) (blit d 0 ws) = ws"
  by (simp add: blit_def)

lemma bn_written:
  assumes "bn_ok bn" "length ws = n" "n \<le> bn_dmax bn"
  shows "bn_ok (bn\<lparr>bn_d := blit (bn_d bn) 0 ws, bn_width := n, bn_neg := s\<rparr>)"
    "bn_abs (bn\<lparr>bn_d := blit (bn_d bn) 0 ws, bn_width := n, bn_neg := s\<rparr>) = wval ws"
  using assms by (auto simp: bn_ok_def bn_abs_def blit_def)

lemma BN_copy:
  assumes "BN_copy e dest src = (ok, dest')" "bn_ok dest" "bn_ok src"
  shows "ok \<Longrightarrow> bn_val dest' = bn_val src" "ok \<Longrightarrow> bn_abs dest' = bn_abs src" "bn_ok dest'"
    "ok \<Longrightarrow> bn_width dest' = bn_width src" "ok \<Longrightarrow> bn_neg dest' = bn_neg src" "\<not> ok \<Longrightarrow> dest' = dest"
    "bn_flags dest' = bn_flags dest" "ok \<Longrightarrow> take (bn_width src) (bn_d dest') = take (bn_width src) (bn_d src)"
proof -
  have "(ok \<longrightarrow> bn_val dest' = bn_val src \<and> bn_abs dest' = bn_abs src \<and> bn_width dest' = bn_width src \<and>
      bn_neg dest' = bn_neg src \<and> take (bn_width src) (bn_d dest') = take (bn_width src) (bn_d src)) \<and>
    bn_ok dest' \<and> bn_flags dest' = bn_flags dest \<and> (\<not> ok \<longrightarrow> dest' = dest)"
  proof (cases "bn_wexpand e dest (bn_width src)")
    case None
    then show ?thesis using assms by (simp add: BN_copy_def)
  next
    case (Some d)
    note w = bn_wexpand [OF Some assms(2)]
    have "length (take (bn_width src) (bn_d src)) = bn_width src" using bn_okD(3) [OF assms(3)] by simp
    from bn_written [OF w(1) this w(2), of "bn_neg src"] assms(1) Some w this show ?thesis
      by (auto simp: BN_copy_def bn_val_def bn_abs_def blit_def)
  qed
  then show "ok \<Longrightarrow> bn_val dest' = bn_val src" "ok \<Longrightarrow> bn_abs dest' = bn_abs src" "bn_ok dest'"
    "ok \<Longrightarrow> bn_width dest' = bn_width src" "ok \<Longrightarrow> bn_neg dest' = bn_neg src" "\<not> ok \<Longrightarrow> dest' = dest"
    "bn_flags dest' = bn_flags dest" "ok \<Longrightarrow> take (bn_width src) (bn_d dest') = take (bn_width src) (bn_d src)" by blast+
qed

lemma BN_copy_succeeds:
  assumes "heap_generous e" "bn_expandable dest" "bn_ok src"
  shows "fst (BN_copy e dest src)"
proof -
  have "bn_width src \<le> bn_max_words" using bn_okD(2,4) [OF assms(3)] by simp
  then obtain d where "bn_wexpand e dest (bn_width src) = Some d" using bn_wexpand_succeeds assms(1,2) by blast
  then show ?thesis by (simp add: BN_copy_def)
qed

section \<open>Widths and bit lengths\<close>

lemma minimal_width_loop:
  "minimal_width_loop d n \<le> n"
  "minimal_width_loop d n > 0 \<Longrightarrow> d ! (minimal_width_loop d n - 1) \<noteq> 0"
  "n \<le> length d \<Longrightarrow> wval (take (minimal_width_loop d n) d) = wval (take n d)"
proof (induction n)
  case (Suc n)
  have e: "minimal_width_loop d (Suc n) = (if d ! n = 0 then minimal_width_loop d n else Suc n)"
    by (subst minimal_width_loop.simps) simp
  { case 1 show ?case using Suc(1) by (simp add: e) }
  { case 2 then show ?case using Suc(2) by (simp add: e split: if_splits) }
  { case 3 then show ?case using Suc(3) by (simp add: e wval_take_Suc) }
qed (simp_all add: minimal_width_loop.simps)

lemma bn_minimal_width:
  assumes "bn_ok bn"
  shows "bn_minimal_width bn \<le> bn_width bn"
    "bn_minimal_width bn > 0 \<Longrightarrow> bn_d bn ! (bn_minimal_width bn - 1) \<noteq> 0"
    "wval (take (bn_minimal_width bn) (bn_d bn)) = bn_abs bn"
  using minimal_width_loop [where d = "bn_d bn" and n = "bn_width bn"] bn_okD(3) [OF assms]
  by (simp_all add: bn_minimal_width_def bn_abs_def)

lemma top_limb_bounds:
  assumes "xs \<noteq> []" "last xs \<noteq> 0"
  shows "radix ^ (length xs - 1) \<le> wval xs"
proof -
  obtain ys y where xs: "xs = ys @ [y]" "y \<noteq> 0" using assms by (cases xs rule: rev_cases) auto
  then have "radix ^ length ys * 1 \<le> radix ^ length ys * unat y" by (intro mult_le_mono2) (simp add: unat_gt_0 Suc_leI)
  then have "radix ^ length ys \<le> wval ys + radix ^ length ys * unat y" by linarith
  then show ?thesis by (simp add: xs wval_snoc)
qed

lemma bn_minimal_width_0: "bn_ok bn \<Longrightarrow> bn_minimal_width bn = 0 \<longleftrightarrow> bn_abs bn = 0"
proof -
  assume ok: "bn_ok bn"
  define w where "w = bn_minimal_width bn"
  have w: "w \<le> length (bn_d bn)" using bn_minimal_width(1) [OF ok] bn_okD(3) [OF ok] by (simp add: w_def)
  show ?thesis
  proof (cases "w = 0")
    case True
    then show ?thesis using bn_minimal_width(3) [OF ok] by (simp add: w_def)
  next
    case False
    then have "last (take w (bn_d bn)) = bn_d bn ! (w - 1)" using w by (subst last_conv_nth) auto
    then have "radix ^ (length (take w (bn_d bn)) - 1) \<le> wval (take w (bn_d bn))"
      using False w bn_minimal_width(2) [OF ok] by (intro top_limb_bounds) (auto simp: w_def)
    then have "0 < bn_abs bn" using bn_minimal_width(3) [OF ok] by (simp add: w_def) (metis gr0I not_le radix_pos(1) zero_less_power)
    with False show ?thesis by (simp add: w_def)
  qed
qed

lemma bn_set_minimal_width:
  assumes "bn_ok bn"
  shows "bn_ok (bn_set_minimal_width bn)" "bn_abs (bn_set_minimal_width bn) = bn_abs bn"
    "bn_val (bn_set_minimal_width bn) = bn_val bn" "bn_minimal (bn_set_minimal_width bn)"
    "bn_signed (bn_set_minimal_width bn)" "bn_width (bn_set_minimal_width bn) = bn_minimal_width bn"
    "bn_flags (bn_set_minimal_width bn) = bn_flags bn" "bn_d (bn_set_minimal_width bn) = bn_d bn"
    "bn_abs bn \<noteq> 0 \<Longrightarrow> bn_neg (bn_set_minimal_width bn) = bn_neg bn"
    "bn_width (bn_set_minimal_width bn) \<le> bn_width bn"
  using assms bn_minimal_width [OF assms] bn_minimal_width_0 [OF assms]
  by (auto simp: bn_set_minimal_width_def Let_def bn_ok_def bn_abs_def bn_val_def bn_minimal_def bn_signed_def)

text \<open>The length of a number in binary.\<close>

fun bit_len :: "nat \<Rightarrow> nat" where
  "bit_len n = (if n = 0 then 0 else Suc (bit_len (n div 2)))"

declare bit_len.simps [simp del]

lemma bit_len_0 [simp]: "bit_len 0 = 0"
  by (simp add: bit_len.simps)

lemma bit_len_lt: "n < 2 ^ bit_len n"
proof (induction n rule: bit_len.induct)
  case (1 n)
  show ?case
  proof (cases "n = 0")
    case False
    have "n < 2 * Suc (n div 2)" by presburger
    also have "\<dots> \<le> 2 * 2 ^ bit_len (n div 2)" using 1 [OF False] by (intro mult_le_mono2) simp
    finally show ?thesis using False by (subst bit_len.simps) simp
  qed simp
qed

lemma bit_len_ge: "n \<noteq> 0 \<Longrightarrow> 2 ^ (bit_len n - 1) \<le> n"
proof (induction n rule: bit_len.induct)
  case (1 n)
  show ?case
  proof (cases "n div 2 = 0")
    case True
    then have "bit_len n = 1" using 1 by (subst bit_len.simps) simp
    then show ?thesis using 1 by simp
  next
    case False
    then have "0 < bit_len (n div 2)" by (subst bit_len.simps) simp
    then have "2 ^ (bit_len n - 1) = 2 * (2 :: nat) ^ (bit_len (n div 2) - 1)"
      using 1(2) by (subst bit_len.simps) (simp flip: power_Suc)
    also have "\<dots> \<le> 2 * (n div 2)" using 1(1) [OF 1(2) False] by simp
    also have "\<dots> \<le> n" by simp
    finally show ?thesis .
  qed
qed

lemma bit_len_unique: "n < 2 ^ k \<Longrightarrow> (n \<noteq> 0 \<Longrightarrow> 2 ^ (k - 1) \<le> n) \<Longrightarrow> (n = 0 \<Longrightarrow> k = 0) \<Longrightarrow> bit_len n = k"
proof -
  assume a: "n < 2 ^ k" "n \<noteq> 0 \<Longrightarrow> 2 ^ (k - 1) \<le> n" "n = 0 \<Longrightarrow> k = 0"
  show "bit_len n = k"
  proof (cases "n = 0")
    case False
    then have k: "0 < k" "0 < bit_len n" using a(1) by (auto intro: gr0I) (simp add: bit_len.simps [of n])
    have "(2 :: nat) ^ (k - 1) < 2 ^ bit_len n" using a(2) [OF False] bit_len_lt [of n] by linarith
    moreover have "(2 :: nat) ^ (bit_len n - 1) < 2 ^ k" using a(1) bit_len_ge [OF False] by linarith
    ultimately have "k - 1 < bit_len n" "bit_len n - 1 < k" by simp_all
    with k show ?thesis by linarith
  qed (use a(3) in simp)
qed

lemma bit_len_add: "n \<noteq> 0 \<Longrightarrow> r < 2 ^ k \<Longrightarrow> bit_len (n * 2 ^ k + r) = bit_len n + k"
proof (rule bit_len_unique)
  assume n: "n \<noteq> 0" and r: "r < 2 ^ k"
  have "(n + 1) * 2 ^ k \<le> 2 ^ bit_len n * 2 ^ k" using bit_len_lt [of n] by (intro mult_le_mono1) simp
  then show "n * 2 ^ k + r < 2 ^ (bit_len n + k)" using r by (simp add: power_add algebra_simps)
  have "0 < bit_len n" using n by (simp add: bit_len.simps [of n])
  then have "2 ^ (bit_len n + k - 1) = 2 ^ (bit_len n - 1) * (2 :: nat) ^ k" by (simp flip: power_add)
  also have "\<dots> \<le> n * 2 ^ k" using bit_len_ge [OF n] by (intro mult_le_mono1) simp
  finally show "2 ^ (bit_len n + k - 1) \<le> n * 2 ^ k + r" by simp
qed simp_all

lemma num_bits_step_eq:
  assumes "1 \<le> k" "k \<le> 32"
  shows "num_bits_step k (bits, l) = (if unat l < 2 ^ k then (bits, l) else (bits + k, drop_bit k l))"
proof -
  define x where "x = drop_bit k l"
  have ux: "unat x = unat l div 2 ^ k" by (simp add: x_def unat_drop_bit)
  have "unat l div 2 ^ k \<le> unat l div 2 ^ 1" using power_increasing [OF assms(1), of "2 :: nat"] by (intro div_le_mono2) simp_all
  also have "\<dots> < 2 ^ 63" using unat_u64_lt [of l] by simp
  finally have x63: "unat x < 2 ^ 63" by (simp add: ux)
  have "bit (0 - x) 63 \<longleftrightarrow> x \<noteq> 0"
  proof (cases "x = 0")
    case False
    then have "unat (- x) + unat x = 2 ^ 64" using unat_uminus [of x] by (simp add: radix_def)
    then have "2 ^ 63 \<le> unat (0 - x)" using x63 by simp
    then show ?thesis using False by (simp add: msb_ge)
  qed simp
  then have m: "0 - drop_bit (BN_BITS2 - 1) (0 - x) = mask_of (x \<noteq> 0)"
    using msb_w [of "0 - x"] by (simp add: constant_time_msb_w_def BN_BITS2_def)
  have z: "x = 0 \<longleftrightarrow> unat l < 2 ^ k" using ux by (simp add: div_eq_0_iff flip: unat_eq_zero)
  have "unat (of_nat k :: limb) = k" using assms by (simp add: unat_of_nat)
  moreover have "l XOR (x XOR l) = x" by (metis xor.assoc xor.commute xor_self_eq xor.right_neutral)
  ultimately show ?thesis
    unfolding num_bits_step_def Let_def prod.case x_def [symmetric] m using z by (auto simp: x_def)
qed

lemma num_bits_step:
  assumes "num_bits_step k (bits, l) = (bits', l')" "1 \<le> k" "k \<le> 32" "l \<noteq> 0" "unat l < 2 ^ (2 * k)"
  shows "bits' + bit_len (unat l') = bits + bit_len (unat l) \<and> l' \<noteq> 0 \<and> unat l' < 2 ^ k"
proof (cases "unat l < 2 ^ k")
  case True
  then show ?thesis using assms by (simp add: num_bits_step_eq)
next
  case False
  then have l': "bits' = bits + k" "unat l' = unat l div 2 ^ k"
    using assms(1-3) by (auto simp: num_bits_step_eq unat_drop_bit)
  have "bit_len (unat l div 2 ^ k * 2 ^ k + unat l mod 2 ^ k) = bit_len (unat l div 2 ^ k) + k"
    using False by (intro bit_len_add) (simp_all add: div_eq_0_iff)
  then have "bit_len (unat l) = bit_len (unat l div 2 ^ k) + k" by (simp only: div_mult_mod_eq)
  moreover have "unat l div 2 ^ k < 2 ^ k" using assms(5) by (simp add: less_mult_imp_div_less power_add mult_2)
  moreover have "unat l div 2 ^ k \<noteq> 0" using False by (simp add: div_eq_0_iff)
  ultimately show ?thesis using l' by auto
qed

lemma BN_num_bits_word: "BN_num_bits_word l = bit_len (unat l)"
proof (cases "l = 0")
  case True
  then show ?thesis by (simp add: BN_num_bits_word_def num_bits_step_eq)
next
  case False
  obtain b5 l5 where 5: "num_bits_step 32 (1, l) = (b5, l5)" by fastforce
  obtain b4 l4 where 4: "num_bits_step 16 (b5, l5) = (b4, l4)" by fastforce
  obtain b3 l3 where 3: "num_bits_step 8 (b4, l4) = (b3, l3)" by fastforce
  obtain b2 l2 where 2: "num_bits_step 4 (b3, l3) = (b2, l2)" by fastforce
  obtain b1 l1 where 1: "num_bits_step 2 (b2, l2) = (b1, l1)" by fastforce
  obtain b0 l0 where 0: "num_bits_step 1 (b1, l1) = (b0, l0)" by fastforce
  have s5: "b5 + bit_len (unat l5) = 1 + bit_len (unat l) \<and> l5 \<noteq> 0 \<and> unat l5 < 2 ^ 32"
    by (rule num_bits_step [OF 5]) (use False unat_u64_lt [of l] in simp_all)
  have s4: "b4 + bit_len (unat l4) = b5 + bit_len (unat l5) \<and> l4 \<noteq> 0 \<and> unat l4 < 2 ^ 16"
    by (rule num_bits_step [OF 4]) (use s5 in simp_all)
  have s3: "b3 + bit_len (unat l3) = b4 + bit_len (unat l4) \<and> l3 \<noteq> 0 \<and> unat l3 < 2 ^ 8"
    by (rule num_bits_step [OF 3]) (use s4 in simp_all)
  have s2: "b2 + bit_len (unat l2) = b3 + bit_len (unat l3) \<and> l2 \<noteq> 0 \<and> unat l2 < 2 ^ 4"
    by (rule num_bits_step [OF 2]) (use s3 in simp_all)
  have s1: "b1 + bit_len (unat l1) = b2 + bit_len (unat l2) \<and> l1 \<noteq> 0 \<and> unat l1 < 2 ^ 2"
    by (rule num_bits_step [OF 1]) (use s2 in simp_all)
  have s0: "b0 + bit_len (unat l0) = b1 + bit_len (unat l1) \<and> l0 \<noteq> 0 \<and> unat l0 < 2 ^ 1"
    by (rule num_bits_step [OF 0]) (use s1 in simp_all)
  then have "unat l0 < 2" "unat l0 \<noteq> 0" by (simp_all add: unat_eq_zero)
  then have "unat l0 = 1" by linarith
  then have "bit_len (unat l0) = 1" by (simp add: bit_len.simps)
  then have "b0 = bit_len (unat l)" using s0 s1 s2 s3 s4 s5 by linarith
  moreover have "fold num_bits_step [32, 16, 8, 4, 2] (1, l) = (b1, l1)"
    by (simp only: fold_simps 1 2 3 4 5)
  ultimately show ?thesis using 0 False by (simp only: BN_num_bits_word_def if_True Let_def prod.case fst_conv simp_thms)
qed

lemma wval_bit_len:
  assumes "xs \<noteq> []" "last xs \<noteq> 0"
  shows "bit_len (wval xs) = 64 * (length xs - 1) + bit_len (unat (last xs))"
proof -
  obtain ys y where xs: "xs = ys @ [y]" "y \<noteq> 0" using assms by (cases xs rule: rev_cases) auto
  have r: "radix ^ n = 2 ^ (64 * n)" for n by (simp add: radix_def power_mult)
  have "bit_len (unat y * 2 ^ (64 * length ys) + wval ys) = bit_len (unat y) + 64 * length ys"
    using xs(2) wval_lt [of ys] by (intro bit_len_add) (simp_all add: r unat_eq_zero)
  then show ?thesis by (simp add: xs wval_snoc r algebra_simps)
qed

lemma BN_num_bits:
  assumes "bn_ok bn"
  shows "BN_num_bits bn = bit_len (bn_abs bn)"
proof -
  define w where "w = bn_minimal_width bn"
  have w: "w \<le> length (bn_d bn)" using bn_minimal_width(1) [OF assms] bn_okD(3) [OF assms] by (simp add: w_def)
  show ?thesis
  proof (cases "w = 0")
    case True
    then show ?thesis using bn_minimal_width_0 [OF assms] by (simp add: BN_num_bits_def w_def)
  next
    case False
    then have l: "last (take w (bn_d bn)) = bn_d bn ! (w - 1)" using w by (subst last_conv_nth) auto
    have "bit_len (wval (take w (bn_d bn))) = 64 * (length (take w (bn_d bn)) - 1) + bit_len (unat (last (take w (bn_d bn))))"
      using False w bn_minimal_width(2) [OF assms, folded w_def] by (intro wval_bit_len) (auto simp: l)
    with False w l bn_minimal_width(3) [OF assms] show ?thesis
      by (simp add: BN_num_bits_def BN_num_bits_word BN_BITS2_def flip: w_def)
  qed
qed

lemma BN_num_bytes: "bn_ok bn \<Longrightarrow> BN_num_bytes bn = (bit_len (bn_abs bn) + 7) div 8"
  by (simp add: BN_num_bytes_def BN_num_bits)

section \<open>Correctness of the comparisons\<close>

lemma or_eq_0_iff: "(x :: limb) OR y = 0 \<longleftrightarrow> x = 0 \<and> y = 0"
  by (auto simp: bit_eq_iff bit_or_iff)

lemma or_words_0: "or_words d i j m = 0 \<longleftrightarrow> m = 0 \<and> (\<forall>k. i \<le> k \<and> k < j \<longrightarrow> d ! k = 0)"
proof (induction j)
  case (Suc j)
  show ?case
  proof (cases "i \<le> j")
    case True
    then have "or_words d i (Suc j) m = or_words d i j m OR d ! j" by (simp add: or_words_def)
    then show ?thesis using Suc True by (auto simp: or_eq_0_iff less_Suc_eq)
  qed (auto simp: or_words_def)
qed (simp add: or_words_def)

lemma high_words_zero:
  assumes "n \<le> w" "w \<le> length d"
  shows "(\<forall>k. n \<le> k \<and> k < w \<longrightarrow> d ! k = 0) \<longleftrightarrow> wval (take w d) < radix ^ n"
    "(\<forall>k. n \<le> k \<and> k < w \<longrightarrow> d ! k = 0) \<Longrightarrow> wval (take w d) = wval (take n d)"
proof -
  define hi where "hi = drop n (take w d)"
  have v: "wval (take w d) = wval (take n d) + radix ^ n * wval hi"
    using wval_take_drop [of n "take w d"] assms by (simp add: hi_def min_absorb1)
  have hi: "(\<forall>k. n \<le> k \<and> k < w \<longrightarrow> d ! k = 0) \<longleftrightarrow> wval hi = 0"
  proof -
    have "(\<forall>x\<in>set hi. x = 0) \<longleftrightarrow> (\<forall>k<w - n. d ! (n + k) = 0)"
      using assms by (simp add: hi_def all_set_conv_all_nth)
    also have "\<dots> \<longleftrightarrow> (\<forall>k. n \<le> k \<and> k < w \<longrightarrow> d ! k = 0)"
    proof (intro iffI allI impI)
      show "d ! k = 0" if "\<forall>k<w - n. d ! (n + k) = 0" "n \<le> k \<and> k < w" for k
        using that(1) [rule_format, of "k - n"] that(2) by (simp add: diff_less_mono)
    qed simp
    finally show ?thesis by (simp add: wval_eq_0_iff)
  qed
  show "(\<forall>k. n \<le> k \<and> k < w \<longrightarrow> d ! k = 0) \<longleftrightarrow> wval (take w d) < radix ^ n"
    unfolding hi v using wval_take_lt [of n d] by (cases "wval hi = 0") (auto simp: not_less trans_le_add2)
  show "wval (take w d) = wval (take n d)" if "\<forall>k. n \<le> k \<and> k < w \<longrightarrow> d ! k = 0"
    using that unfolding hi v by simp
qed

lemma bn_fits_in_words: "bn_ok bn \<Longrightarrow> bn_fits_in_words bn n \<longleftrightarrow> bn_abs bn < radix ^ n"
proof -
  assume ok: "bn_ok bn"
  show ?thesis
  proof (cases "n \<le> bn_width bn")
    case True
    then show ?thesis using high_words_zero(1) [OF True bn_okD(3) [OF ok]]
      by (simp add: bn_fits_in_words_def or_words_0 bn_abs_def)
  next
    case False
    have "bn_abs bn < radix ^ bn_width bn" by (rule bn_abs_lt [OF ok])
    also have "\<dots> \<le> radix ^ n" using False by (intro power_increasing) simp_all
    finally show ?thesis using False by (auto simp: bn_fits_in_words_def or_words_0)
  qed
qed

lemma BN_is_zero: "bn_ok bn \<Longrightarrow> BN_is_zero bn \<longleftrightarrow> bn_abs bn = 0"
  by (simp add: BN_is_zero_def bn_fits_in_words)

lemma bn_copy_words:
  assumes "bn_ok bn"
  shows "bn_copy_words num bn =
    (if \<not> bn_neg bn \<and> bn_abs bn < radix ^ num then bn_copy_words num bn else None)"
    "bn_copy_words num bn = Some ws \<Longrightarrow> length ws = num \<and> wval ws = bn_abs bn"
proof -
  have small: "bn_abs bn < radix ^ num" if "\<not> bn_width bn > num"
    using bn_abs_lt [OF assms] that by (meson linorder_not_less power_increasing less_le_trans radix_pos(3) less_imp_le)
  then show "bn_copy_words num bn =
    (if \<not> bn_neg bn \<and> bn_abs bn < radix ^ num then bn_copy_words num bn else None)"
    by (auto simp: bn_copy_words_def bn_fits_in_words [OF assms])
  assume c: "bn_copy_words num bn = Some ws"
  define w where "w = (if bn_width bn > num then num else bn_width bn)"
  have w: "w \<le> num" "w \<le> length (bn_d bn)" "w \<le> bn_width bn" using bn_okD(3) [OF assms] by (auto simp: w_def)
  have ws: "ws = take w (bn_d bn) @ replicate (num - w) 0"
    using c w by (auto simp: bn_copy_words_def blit_def min_absorb1 simp flip: w_def split: if_splits)
  have "bn_fits_in_words bn num"
    using c small by (auto simp: bn_copy_words_def bn_fits_in_words [OF assms] split: if_splits)
  then have "wval (take w (bn_d bn)) = bn_abs bn"
    using high_words_zero(2) [OF w(3) bn_okD(3) [OF assms]]
    by (auto simp: bn_fits_in_words_def or_words_0 bn_abs_def w_def split: if_splits)
  then show "length ws = num \<and> wval ws = bn_abs bn" using w by (simp add: ws wval_append)
qed

text \<open>Three-way comparison of natural numbers and integers.\<close>

definition compare3 :: "'a::linorder \<Rightarrow> 'a \<Rightarrow> int" where
  "compare3 x y = (if x < y then -1 else if x = y then 0 else 1)"

lemma cmp_fold:
  assumes "n \<le> length a" "n \<le> length b"
  shows "fold (cmp_step a b) [0..<n] 0 = compare3 (wval (take n a)) (wval (take n b))"
  using assms
proof (induction n)
  case (Suc n)
  define x y u v where "x = a ! n" and "y = b ! n" and "u = wval (take n a)" and "v = wval (take n b)"
  have IH: "fold (cmp_step a b) [0..<n] 0 = compare3 u v" using Suc by (simp add: u_def v_def)
  have uv: "u < radix ^ n" "v < radix ^ n" unfolding u_def v_def by (rule wval_take_lt)+
  have gap: "u + radix ^ n * unat x < v + radix ^ n * unat y" if "unat x < unat y" "u < radix ^ n" for x y :: limb and u v
  proof -
    have "radix ^ n * Suc (unat x) \<le> radix ^ n * unat y" using that(1) by (intro mult_le_mono2) simp
    with that(2) show ?thesis by simp
  qed
  have "fold (cmp_step a b) [0..<Suc n] 0 = cmp_step a b n (compare3 u v)" using IH by simp
  also have "\<dots> = (if x = y then compare3 u v else if x < y then -1 else 1)"
    by (simp add: cmp_step_def Let_def constant_time_masks lt_w select_int compare3_def flip: x_def y_def)
  also have "\<dots> = compare3 (u + radix ^ n * unat x) (v + radix ^ n * unat y)"
    using gap [of x y u v] gap [of y x v u] uv
    by (auto simp: compare3_def word_less_nat_alt not_less le_less word_unat_eq_iff)
  finally show ?case using Suc.prems by (simp add: wval_take_Suc x_def y_def u_def v_def)
qed (simp add: compare3_def)

lemma bn_cmp_words_consttime:
  assumes "m \<le> length a" "n \<le> length b"
  shows "bn_cmp_words_consttime a m b n = compare3 (wval (take m a)) (wval (take n b))"
proof -
  define k where "k = min m n"
  have f: "fold (cmp_step a b) [0..<k] 0 = compare3 (wval (take k a)) (wval (take k b))"
    using assms by (intro cmp_fold) (simp_all add: k_def)
  have range: "- (2 ^ 31) \<le> compare3 x y" "compare3 x y < 2 ^ 31" for x y :: nat
    by (simp_all add: compare3_def)
  consider "m < n" | "n < m" | "m = n" by linarith
  then show ?thesis
  proof cases
    case 1
    have lt: "wval (take m a) < wval (take n b)" "wval (take m a) \<noteq> wval (take n b)"
      if "\<not> wval (take n b) < radix ^ m"
      using wval_take_lt [of m a] that by linarith+
    show ?thesis
      using 1 f range high_words_zero [of m n b] lt assms
      by (simp add: bn_cmp_words_consttime_def is_zero_w or_words_0 select_int k_def min_absorb1 compare3_def)
  next
    case 2
    have lt: "\<not> wval (take m a) < wval (take n b)" "wval (take m a) \<noteq> wval (take n b)"
      if "\<not> wval (take m a) < radix ^ n"
      using wval_take_lt [of n b] that by linarith+
    show ?thesis
      using 2 f range high_words_zero [of n m a] lt assms
      by (simp add: bn_cmp_words_consttime_def is_zero_w or_words_0 select_int k_def min_absorb2 compare3_def)
  next
    case 3
    then show ?thesis using f by (simp add: bn_cmp_words_consttime_def k_def)
  qed
qed

lemma BN_ucmp: "bn_ok a \<Longrightarrow> bn_ok b \<Longrightarrow> BN_ucmp a b = compare3 (bn_abs a) (bn_abs b)"
  by (simp add: BN_ucmp_def bn_cmp_words_consttime bn_okD bn_abs_def)

lemma BN_cmp:
  assumes "bn_ok a" "bn_ok b" "bn_signed a" "bn_signed b"
  shows "BN_cmp (Some a) (Some b) = compare3 (bn_val a) (bn_val b)"
  using assms by (auto simp: BN_cmp_def BN_ucmp Let_def compare3_def bn_val_def bn_signed_def)

lemma bn_less_than_words:
  "n \<le> length a \<Longrightarrow> n \<le> length b \<Longrightarrow> bn_less_than_words a b n \<longleftrightarrow> wval (take n a) < wval (take n b)"
  by (simp add: bn_less_than_words_def bn_cmp_words_consttime compare3_def)

lemma bn_select_words:
  "n \<le> length a \<Longrightarrow> n \<le> length b \<Longrightarrow> bn_select_words (mask_of p) a b n = take n (if p then a else b)"
  by (rule nth_equalityI) (simp_all add: bn_select_words_def select_w)

lemma xor_eq_0_iff: "(x :: 'a::len word) XOR y = 0 \<longleftrightarrow> x = y"
  by (rule word_xor_zero_iff)

section \<open>Correctness of the word operations\<close>

lemma bn_abs_width_0: "bn_width bn = 0 \<Longrightarrow> bn_abs bn = 0"
  by (simp add: bn_abs_def)

lemma bn_abs_low:
  assumes "bn_ok bn" "bn_width bn > 0"
  shows "bn_abs bn = unat (bn_d bn ! 0) + radix * wval (take (bn_width bn - 1) (tl (bn_d bn)))"
proof -
  obtain x xs where "bn_d bn = x # xs" using assms bn_okD(3) [of bn] by (cases "bn_d bn") auto
  then show ?thesis using assms(2) by (cases "bn_width bn") (simp_all add: bn_abs_def)
qed

lemma radix_even: "even radix"
  by (simp add: radix_def)

lemma BN_is_odd: "bn_ok bn \<Longrightarrow> BN_is_odd bn \<longleftrightarrow> odd (bn_abs bn)"
proof -
  assume ok: "bn_ok bn"
  have o: "x AND 1 = 1 \<longleftrightarrow> odd (unat x)" for x :: limb
  proof -
    have "x AND 1 = of_bool (odd x)" by (simp add: and_one_eq mod_2_eq_odd)
    moreover have "odd x \<longleftrightarrow> odd (unat x)" by (simp flip: bit_0) (simp add: bit_unsigned_iff)
    ultimately show ?thesis by simp
  qed
  show ?thesis
    using bn_abs_low [OF ok] radix_even by (cases "bn_width bn = 0") (simp_all add: BN_is_odd_def o bn_abs_width_0)
qed

lemma BN_abs_is_word: "bn_ok bn \<Longrightarrow> BN_abs_is_word bn w \<longleftrightarrow> bn_abs bn = unat w"
proof -
  assume ok: "bn_ok bn"
  show ?thesis
  proof (cases "bn_width bn = 0")
    case True
    then show ?thesis by (auto simp: BN_abs_is_word_def bn_abs_width_0 unat_eq_zero)
  next
    case False
    define t where "t = wval (take (bn_width bn - 1) (tl (bn_d bn)))"
    have v: "bn_abs bn = unat (bn_d bn ! 0) + radix * t" using bn_abs_low [OF ok] False by (simp add: t_def)
    have "(\<forall>k. 1 \<le> k \<and> k < bn_width bn \<longrightarrow> bn_d bn ! k = 0) \<longleftrightarrow> bn_abs bn < radix ^ 1"
      unfolding bn_abs_def by (rule high_words_zero) (use False bn_okD(3) [OF ok] in simp_all)
    also have "\<dots> \<longleftrightarrow> t = 0" using limb_lt [of "bn_d bn ! 0"] by (cases t) (simp_all add: v)
    finally have "BN_abs_is_word bn w \<longleftrightarrow> bn_d bn ! 0 = w \<and> t = 0"
      using False by (simp add: BN_abs_is_word_def or_words_0 word_xor_zero_iff)
    also have "\<dots> \<longleftrightarrow> bn_abs bn = unat w"
    proof (cases "t = 0")
      case False
      then have "radix * 1 \<le> radix * t" by (intro mult_le_mono2) simp
      then have "bn_abs bn \<noteq> unat w" using v limb_lt [of w] by linarith
      with False show ?thesis by simp
    qed (simp add: v word_unat_eq_iff)
    finally show ?thesis .
  qed
qed

lemma BN_is_one: "bn_ok bn \<Longrightarrow> BN_is_one bn \<longleftrightarrow> bn_val bn = 1"
  by (auto simp: BN_is_one_def BN_abs_is_word bn_val_def)

lemma BN_is_word: "bn_ok bn \<Longrightarrow> bn_signed bn \<Longrightarrow> BN_is_word bn w \<longleftrightarrow> bn_val bn = int (unat w)"
  by (auto simp: BN_is_word_def BN_abs_is_word bn_val_def bn_signed_def unat_eq_zero simp del: of_nat_unat)

lemma BN_set_word:
  assumes "BN_set_word e bn v = (ok, bn')" "bn_ok bn"
  shows "bn_ok bn'" "ok \<Longrightarrow> bn_val bn' = int (unat v)" "ok \<Longrightarrow> bn_abs bn' = unat v" "ok \<Longrightarrow> \<not> bn_neg bn'"
    "ok \<Longrightarrow> bn_signed bn'" "ok \<Longrightarrow> bn_minimal bn'" "bn_flags bn' = bn_flags bn"
    "heap_generous e \<Longrightarrow> bn_expandable bn \<Longrightarrow> ok" "ok \<Longrightarrow> bn_width bn' \<le> 1"
proof -
  have "bn_ok bn' \<and> (ok \<longrightarrow> bn_abs bn' = unat v \<and> \<not> bn_neg bn' \<and> bn_minimal bn' \<and> bn_width bn' \<le> 1) \<and> bn_flags bn' = bn_flags bn
    \<and> (heap_generous e \<longrightarrow> bn_expandable bn \<longrightarrow> ok)"
  proof (cases "v = 0")
    case True
    then show ?thesis using assms bn_zero_ok [of bn] by (auto simp: BN_set_word_def BN_zero_def)
  next
    case False
    have max: "1 \<le> bn_max_words" by (simp add: bn_max_words)
    show ?thesis
    proof (cases "bn_wexpand e bn 1")
      case None
      then show ?thesis using assms False max bn_wexpand_fails [OF None] by (auto simp: BN_set_word_def)
    next
      case (Some b)
      note w = bn_wexpand [OF Some assms(2)]
      obtain x xs where d: "bn_d b = x # xs" using w(3) by (cases "bn_d b") auto
      with w Some assms(1) False show ?thesis
        by (auto simp: BN_set_word_def bn_ok_def bn_abs_def bn_minimal_def)
    qed
  qed
  then show "bn_ok bn'" "ok \<Longrightarrow> bn_val bn' = int (unat v)" "ok \<Longrightarrow> bn_abs bn' = unat v" "ok \<Longrightarrow> \<not> bn_neg bn'"
    "ok \<Longrightarrow> bn_signed bn'" "ok \<Longrightarrow> bn_minimal bn'" "bn_flags bn' = bn_flags bn"
    "heap_generous e \<Longrightarrow> bn_expandable bn \<Longrightarrow> ok" "ok \<Longrightarrow> bn_width bn' \<le> 1"
    by (auto simp: bn_val_def bn_signed_def)
qed

lemma bn_set_words:
  assumes "bn_set_words e bn ws n = (ok, bn')" "bn_ok bn" "n \<le> length ws"
  shows "bn_ok bn'" "ok \<Longrightarrow> bn_abs bn' = wval (take n ws)" "ok \<Longrightarrow> bn_width bn' = n" "ok \<Longrightarrow> \<not> bn_neg bn'"
    "bn_flags bn' = bn_flags bn" "\<not> ok \<Longrightarrow> bn' = bn"
proof -
  have "bn_ok bn' \<and> (ok \<longrightarrow> bn_abs bn' = wval (take n ws) \<and> bn_width bn' = n \<and> \<not> bn_neg bn') \<and> bn_flags bn' = bn_flags bn
    \<and> (\<not> ok \<longrightarrow> bn' = bn)"
  proof (cases "bn_wexpand e bn n")
    case None
    then show ?thesis using assms by (simp add: bn_set_words_def)
  next
    case (Some b)
    note w = bn_wexpand [OF Some assms(2)]
    from bn_written [OF w(1) _ w(2), of "take n ws" False] w assms Some show ?thesis by (auto simp: bn_set_words_def)
  qed
  then show "bn_ok bn'" "ok \<Longrightarrow> bn_abs bn' = wval (take n ws)" "ok \<Longrightarrow> bn_width bn' = n" "ok \<Longrightarrow> \<not> bn_neg bn'"
    "bn_flags bn' = bn_flags bn" "\<not> ok \<Longrightarrow> bn' = bn" by blast+
qed

lemma bn_resize_words:
  assumes "bn_resize_words e bn n = (ok, bn')" "bn_ok bn"
  shows "bn_ok bn'" "bn_abs bn' = bn_abs bn" "bn_neg bn' = bn_neg bn" "ok \<Longrightarrow> bn_width bn' = n"
    "bn_flags bn' = bn_flags bn"
    "heap_generous e \<Longrightarrow> bn_expandable bn \<Longrightarrow> n \<le> bn_max_words \<Longrightarrow> bn_abs bn < radix ^ n \<Longrightarrow> ok"
proof -
  have "bn_ok bn' \<and> bn_abs bn' = bn_abs bn \<and> bn_neg bn' = bn_neg bn \<and> (ok \<longrightarrow> bn_width bn' = n)
    \<and> bn_flags bn' = bn_flags bn \<and>
    (heap_generous e \<longrightarrow> bn_expandable bn \<longrightarrow> n \<le> bn_max_words \<longrightarrow> bn_abs bn < radix ^ n \<longrightarrow> ok)"
  proof (cases "bn_width bn \<le> n")
    case True
    show ?thesis
    proof (cases "bn_wexpand e bn n")
      case None
      then show ?thesis using assms True bn_wexpand_fails [OF None] by (auto simp: bn_resize_words_def)
    next
      case (Some b)
      note w = bn_wexpand [OF Some assms(2)]
      have "take n (blit (bn_d b) (bn_width b) (replicate (n - bn_width b) 0)) =
          take (bn_width bn) (bn_d bn) @ replicate (n - bn_width bn) 0"
        using w True bn_okD(3) [OF assms(2)] by (simp add: blit_def)
      with bn_okD(3) [OF assms(2)] w True Some assms(1) show ?thesis
        by (auto simp: bn_resize_words_def bn_ok_def bn_abs_def wval_append)
    qed
  next
    case False
    show ?thesis
    proof (cases "bn_fits_in_words bn n")
      case True
      then have "bn_abs (bn\<lparr>bn_width := n\<rparr>) = bn_abs bn"
        using False high_words_zero(2) [of n "bn_width bn" "bn_d bn"] bn_okD(3) [OF assms(2)]
        by (simp add: bn_fits_in_words_def or_words_0 bn_abs_def)
      with False True assms show ?thesis by (auto simp: bn_resize_words_def bn_ok_def)
    next
      case no: False
      then show ?thesis using False assms bn_fits_in_words [OF assms(2)] by (auto simp: bn_resize_words_def)
    qed
  qed
  then show "bn_ok bn'" "bn_abs bn' = bn_abs bn" "bn_neg bn' = bn_neg bn" "ok \<Longrightarrow> bn_width bn' = n"
    "bn_flags bn' = bn_flags bn"
    "heap_generous e \<Longrightarrow> bn_expandable bn \<Longrightarrow> n \<le> bn_max_words \<Longrightarrow> bn_abs bn < radix ^ n \<Longrightarrow> ok" by blast+
qed

lemma BN_equal_consttime:
  assumes "bn_ok a" "bn_ok b" "bn_signed a" "bn_signed b"
  shows "BN_equal_consttime a b \<longleftrightarrow> bn_val a = bn_val b"
proof -
  define k where "k = min (bn_width a) (bn_width b)"
  have f: "fold (\<lambda>i m. m OR (bn_d a ! i XOR bn_d b ! i)) [0..<n] m = 0 \<longleftrightarrow> m = 0 \<and> (\<forall>i<n. bn_d a ! i = bn_d b ! i)"
    for n m by (induction n) (auto simp: or_eq_0_iff word_xor_zero_iff less_Suc_eq)
  have k: "k \<le> length (bn_d a)" "k \<le> length (bn_d b)" using bn_okD(3) assms(1,2) by (fastforce simp: k_def)+
  have common: "(\<forall>i<k. bn_d a ! i = bn_d b ! i) \<longleftrightarrow> wval (take k (bn_d a)) = wval (take k (bn_d b))"
  proof
    assume "\<forall>i<k. bn_d a ! i = bn_d b ! i"
    then have "take k (bn_d a) = take k (bn_d b)" using k by (simp add: list_eq_iff_nth_eq)
    then show "wval (take k (bn_d a)) = wval (take k (bn_d b))" by simp
  next
    assume "wval (take k (bn_d a)) = wval (take k (bn_d b))"
    then have "take k (bn_d a) = take k (bn_d b)" using k by (intro wval_inject) simp_all
    then show "\<forall>i<k. bn_d a ! i = bn_d b ! i" by (metis nth_take)
  qed
  have abs: "bn_abs a = bn_abs b \<longleftrightarrow>
      (\<forall>i. bn_width a \<le> i \<and> i < bn_width b \<longrightarrow> bn_d b ! i = 0) \<and>
      (\<forall>i. bn_width b \<le> i \<and> i < bn_width a \<longrightarrow> bn_d a ! i = 0) \<and> (\<forall>i<k. bn_d a ! i = bn_d b ! i)"
  proof (cases "bn_width a \<le> bn_width b")
    case True
    then show ?thesis
      using high_words_zero [OF True bn_okD(3) [OF assms(2)]] bn_abs_lt [OF assms(1)] common
      by (auto simp: bn_abs_def k_def min_absorb1)
  next
    case False
    then have "bn_width b \<le> bn_width a" by simp
    from high_words_zero [OF this bn_okD(3) [OF assms(1)]] show ?thesis
      using False bn_abs_lt [OF assms(2)] common by (auto simp: bn_abs_def k_def min_absorb2)
  qed
  have "BN_equal_consttime a b \<longleftrightarrow> bn_abs a = bn_abs b \<and> bn_neg a = bn_neg b"
    by (auto simp: BN_equal_consttime_def Let_def or_eq_0_iff f or_words_0 abs k_def)
  also have "\<dots> \<longleftrightarrow> bn_val a = bn_val b" using assms(3,4) by (auto simp: bn_val_def bn_signed_def)
  finally show ?thesis .
qed

lemma bn_minimal_one:
  assumes "bn_ok bn" "bn_minimal_width bn = 1"
  shows "bn_abs bn = unat (bn_d bn ! 0)"
proof -
  have "bn_d bn \<noteq> []" using bn_minimal_width(1) [OF assms(1)] bn_okD(3) [OF assms(1)] assms(2) by auto
  then show ?thesis using bn_minimal_width(3) [OF assms(1)] assms(2) by (cases "bn_d bn") simp_all
qed

lemma bn_minimal_large:
  assumes "bn_ok bn" "2 \<le> bn_minimal_width bn"
  shows "radix \<le> bn_abs bn"
proof -
  define w where "w = bn_minimal_width bn"
  have w: "w \<le> length (bn_d bn)" "2 \<le> w"
    using bn_minimal_width(1) [OF assms(1)] bn_okD(3) [OF assms(1)] assms(2) by (auto simp: w_def)
  then have "last (take w (bn_d bn)) = bn_d bn ! (w - 1)" by (subst last_conv_nth) auto
  then have "radix ^ (length (take w (bn_d bn)) - 1) \<le> wval (take w (bn_d bn))"
    using w bn_minimal_width(2) [OF assms(1), folded w_def] by (intro top_limb_bounds) auto
  moreover have "radix ^ 1 \<le> radix ^ (w - 1)" using w(2) by (intro power_increasing) simp_all
  ultimately show ?thesis using w(1) bn_minimal_width(3) [OF assms(1), folded w_def] by (simp add: min_absorb2)
qed

lemma BN_get_u64: "bn_ok bn \<Longrightarrow> BN_get_u64 bn = (if bn_abs bn < radix then Some (of_nat (bn_abs bn)) else None)"
  "bn_ok bn \<Longrightarrow> BN_get_word bn = (if bn_abs bn < radix then of_nat (bn_abs bn) else - 1)"
proof -
  assume ok: "bn_ok bn"
  consider "bn_minimal_width bn = 0" | "bn_minimal_width bn = 1" | "2 \<le> bn_minimal_width bn" by linarith
  then have "BN_get_u64 bn = (if bn_abs bn < radix then Some (of_nat (bn_abs bn)) else None) \<and>
    BN_get_word bn = (if bn_abs bn < radix then of_nat (bn_abs bn) else - 1)"
  proof cases
    case 1
    then show ?thesis using bn_minimal_width_0 [OF ok] by (simp add: BN_get_u64_def BN_get_word_def)
  next
    case 2
    then show ?thesis using bn_minimal_one [OF ok] by (simp add: BN_get_u64_def BN_get_word_def)
  next
    case 3
    then obtain k where "bn_minimal_width bn = Suc (Suc k)" by (metis add_2_eq_Suc le_Suc_ex)
    with bn_minimal_large [OF ok 3] show ?thesis by (simp add: BN_get_u64_def BN_get_word_def)
  qed
  then show "BN_get_u64 bn = (if bn_abs bn < radix then Some (of_nat (bn_abs bn)) else None)"
    "BN_get_word bn = (if bn_abs bn < radix then of_nat (bn_abs bn) else - 1)" by blast+
qed

lemma BN_cmp_word:
  assumes "bn_ok a" "bn_signed a"
  shows "BN_cmp_word a b = compare3 (bn_val a) (int (unat b))"
proof -
  define b_bn where "b_bn = BN_init\<lparr>bn_d := [b], bn_width := (if b > 0 then 1 else 0), bn_dmax := 1,
                         bn_flags := BN_FLG_STATIC_DATA\<rparr>"
  have "bn_ok b_bn" "bn_signed b_bn" "bn_val b_bn = int (unat b)"
    by (auto simp: b_bn_def BN_init_def bn_ok_def bn_max_words bn_signed_def bn_val_def bn_abs_def word_gt_0 unat_eq_zero
        simp del: of_nat_unat)
  then show ?thesis using BN_cmp [OF assms(1) _ assms(2), of b_bn]
    unfolding BN_cmp_word_def Let_def b_bn_def [symmetric] by (simp del: of_nat_unat)
qed

lemma BN_set_negative:
  assumes "bn_ok bn"
  shows "bn_ok (BN_set_negative bn s)" "bn_val (BN_set_negative bn s) = (if s then - int (bn_abs bn) else int (bn_abs bn))"
    "bn_signed (BN_set_negative bn s)" "bn_abs (BN_set_negative bn s) = bn_abs bn"
    "bn_flags (BN_set_negative bn s) = bn_flags bn" "bn_width (BN_set_negative bn s) = bn_width bn"
  using assms BN_is_zero [OF assms]
  by (auto simp: BN_set_negative_def bn_ok_def bn_val_def bn_abs_def bn_signed_def)

end
