(* ===== verification/BN_Arith.thy ===== *)
theory BN_Arith
  imports BigNum
begin

text \<open>
  Addition, subtraction and shifts of big numbers: \<open>crypto/fipsmodule/bn/add.c\<close> and
  \<open>shift.c\<close>.  The limbs above the common width are handled by loops of their own.  Here an operation
  gets the numbers as they are when it is called and computes the limbs of the output from them.  That
  the functions of \<open>add.c\<close>, which write the output in place, do the same when the output is one of the
  inputs is shown in \<open>BN_Alias\<close>, where each limb is read at the moment at which the code reads it.
\<close>

section \<open>Magnitudes\<close>

definition bn_uadd_consttime :: "heap_env \<Rightarrow> bignum \<Rightarrow> bignum \<Rightarrow> bignum \<Rightarrow> bool \<times> bignum" where
  "bn_uadd_consttime e r a b =
     (let (a, b) = (if bn_width a < bn_width b then (b, a) else (a, b));
          mx = bn_width a; mn = bn_width b
      in case bn_wexpand e r (mx + 1) of
           None \<Rightarrow> (False, r)
         | Some r \<Rightarrow>
             (let r = r\<lparr>bn_width := mx + 1\<rparr>;
                  (lo, carry) = bn_add_words (bn_d a) (bn_d b) mn;
                  (hi, carry) = fold (\<lambda>i (out, carry). let tmp = carry + bn_d a ! i
                                        in (out @ [tmp], if tmp < bn_d a ! i then 1 else 0))
                                     [mn..<mx] ([], carry)
              in (True, r\<lparr>bn_d := blit (bn_d r) 0 (lo @ hi @ [carry])\<rparr>)))"

definition BN_uadd :: "heap_env \<Rightarrow> bignum \<Rightarrow> bignum \<Rightarrow> bignum \<Rightarrow> bool \<times> bignum" where
  "BN_uadd e r a b =
     (case bn_uadd_consttime e r a b of (ok, r) \<Rightarrow> if \<not> ok then (False, r) else (True, bn_set_minimal_width r))"

definition bn_usub_consttime :: "heap_env \<Rightarrow> bignum \<Rightarrow> bignum \<Rightarrow> bignum \<Rightarrow> bool \<times> bignum" where
  "bn_usub_consttime e r a b =
     (if bn_width b > bn_width a \<and> \<not> bn_fits_in_words b (bn_width a) then (False, r)
      else
        (let b_width = (if bn_width b > bn_width a then bn_width a else bn_width b)
         in case bn_wexpand e r (bn_width a) of
              None \<Rightarrow> (False, r)
            | Some r \<Rightarrow>
                (let (lo, borrow) = bn_sub_words (bn_d a) (bn_d b) b_width;
                     (hi, borrow) = fold (\<lambda>i (out, borrow). let tmp = bn_d a ! i; x = tmp - borrow
                                           in (out @ [x], if tmp < x then 1 else 0))
                                        [b_width..<bn_width a] ([], borrow);
                     r = r\<lparr>bn_d := blit (bn_d r) 0 (lo @ hi)\<rparr>
                 in if borrow \<noteq> 0 then (False, r)
                    else (True, r\<lparr>bn_width := bn_width a, bn_neg := False\<rparr>))))"

definition BN_usub :: "heap_env \<Rightarrow> bignum \<Rightarrow> bignum \<Rightarrow> bignum \<Rightarrow> bool \<times> bignum" where
  "BN_usub e r a b =
     (case bn_usub_consttime e r a b of (ok, r) \<Rightarrow> if \<not> ok then (False, r) else (True, bn_set_minimal_width r))"

section \<open>Signed numbers\<close>

definition BN_add :: "heap_env \<Rightarrow> bignum \<Rightarrow> bignum \<Rightarrow> bignum \<Rightarrow> bool \<times> bignum" where
  "BN_add e r a b =
     (let a_neg = bn_neg a
      in if a_neg \<noteq> bn_neg b then
           (let (a, b) = (if a_neg then (b, a) else (a, b))
            in if BN_ucmp a b < 0 then
                 (case BN_usub e r b a of (ok, r) \<Rightarrow> if \<not> ok then (False, r) else (True, r\<lparr>bn_neg := True\<rparr>))
               else
                 (case BN_usub e r a b of (ok, r) \<Rightarrow> if \<not> ok then (False, r) else (True, r\<lparr>bn_neg := False\<rparr>)))
         else (case BN_uadd e r a b of (ok, r) \<Rightarrow> (ok, r\<lparr>bn_neg := a_neg\<rparr>)))"

definition BN_sub :: "heap_env \<Rightarrow> bignum \<Rightarrow> bignum \<Rightarrow> bignum \<Rightarrow> bool \<times> bignum" where
  "BN_sub e r a b =
     (let (a', b', add, neg) =
            (if bn_neg a then (if bn_neg b then (b, a, False, False) else (a, b, True, True))
             else if bn_neg b then (a, b, True, False) else (a, b, False, False))
      in if add then
           (case BN_uadd e r a' b' of (ok, r) \<Rightarrow> if \<not> ok then (False, r) else (True, r\<lparr>bn_neg := neg\<rparr>))
         else if BN_ucmp a' b' < 0 then
           (case BN_usub e r b' a' of (ok, r) \<Rightarrow> if \<not> ok then (False, r) else (True, r\<lparr>bn_neg := True\<rparr>))
         else
           (case BN_usub e r a' b' of (ok, r) \<Rightarrow> if \<not> ok then (False, r) else (True, r\<lparr>bn_neg := False\<rparr>)))"

section \<open>Words\<close>

text \<open>
  \<open>BN_add_word\<close> and \<open>BN_sub_word\<close> call each other for a negative number, once: the number that
  they pass is not negative.  The loops over the limbs come first.  A run that leaves the
  array in the subtraction is a run with undefined behaviour; it is the result \<open>None\<close>.
\<close>

function add_word_loop :: "nat \<Rightarrow> nat \<Rightarrow> limbs \<Rightarrow> limb \<Rightarrow> limbs \<times> limb \<times> nat" where
  "add_word_loop width i d w =
     (if w \<noteq> 0 \<and> i < width then
        (let l = d ! i + w in add_word_loop width (i + 1) (d[i := l]) (if w > l then 1 else 0))
      else (d, w, i))"
  by pat_completeness auto
termination by (relation "measure (\<lambda>(width, i, d, w). width - i)") auto

declare add_word_loop.simps [simp del]

function sub_word_loop :: "nat \<Rightarrow> limbs \<Rightarrow> limb \<Rightarrow> (limbs \<times> nat) option" where
  "sub_word_loop i d w =
     (if length d \<le> i then None
      else if d ! i \<ge> w then Some (d[i := d ! i - w], i)
      else sub_word_loop (i + 1) (d[i := d ! i - w]) 1)"
  by pat_completeness auto
termination by (relation "measure (\<lambda>(i, d, w). length d - i)") auto

declare sub_word_loop.simps [simp del]

definition add_word_pos :: "heap_env \<Rightarrow> bignum \<Rightarrow> limb \<Rightarrow> bool \<times> bignum" where
  "add_word_pos e a w =
     (let (d, w, i) = add_word_loop (bn_width a) 0 (bn_d a) w; a = a\<lparr>bn_d := d\<rparr>
      in if w \<noteq> 0 \<and> i = bn_width a then
           (case bn_wexpand e a (bn_width a + 1) of
              None \<Rightarrow> (False, a)
            | Some a \<Rightarrow> (True, a\<lparr>bn_width := bn_width a + 1, bn_d := (bn_d a)[i := w]\<rparr>))
         else (True, a))"

definition sub_word_pos :: "bignum \<Rightarrow> limb \<Rightarrow> (bool \<times> bignum) option" where
  "sub_word_pos a w =
     (if bn_minimal_width a = 1 \<and> bn_d a ! 0 < w then
        Some (True, a\<lparr>bn_d := (bn_d a)[0 := w - bn_d a ! 0], bn_neg := True\<rparr>)
      else (case sub_word_loop 0 (bn_d a) w of
              None \<Rightarrow> None
            | Some (d, i) \<Rightarrow>
                (let a = a\<lparr>bn_d := d\<rparr>
                 in Some (True, if d ! i = 0 \<and> i = bn_width a - 1 then a\<lparr>bn_width := bn_width a - 1\<rparr> else a))))"

definition BN_add_word :: "heap_env \<Rightarrow> bignum \<Rightarrow> limb \<Rightarrow> (bool \<times> bignum) option" where
  "BN_add_word e a w =
     (if w = 0 then Some (True, a)
      else if BN_is_zero a then Some (BN_set_word e a w)
      else if bn_neg a then
        (case sub_word_pos (a\<lparr>bn_neg := False\<rparr>) w of
           None \<Rightarrow> None
         | Some (i, a) \<Rightarrow> Some (i, if \<not> BN_is_zero a then a\<lparr>bn_neg := \<not> bn_neg a\<rparr> else a))
      else Some (add_word_pos e a w))"

definition BN_sub_word :: "heap_env \<Rightarrow> bignum \<Rightarrow> limb \<Rightarrow> (bool \<times> bignum) option" where
  "BN_sub_word e a w =
     (if w = 0 then Some (True, a)
      else if BN_is_zero a then
        (case BN_set_word e a w of (i, a) \<Rightarrow> Some (i, if i then BN_set_negative a True else a))
      else if bn_neg a then
        (case add_word_pos e (a\<lparr>bn_neg := False\<rparr>) w of (i, a) \<Rightarrow> Some (i, a\<lparr>bn_neg := True\<rparr>))
      else sub_word_pos a w)"

section \<open>Correctness of the magnitudes\<close>

lemma uadd_high:
  assumes "fold (\<lambda>i (out, carry). let tmp = carry + a ! i in (out @ [tmp], if tmp < a ! i then 1 else 0)) [m..<n] ([], c)
      = (out, c')" "m \<le> n" "n \<le> length a" "unat c \<le> 1"
  shows "length out = n - m" "wval out + radix ^ (n - m) * unat c' = wval (take (n - m) (drop m a)) + unat c" "unat c' \<le> 1"
proof -
  define f where "f = (\<lambda>i (out, carry). let tmp = carry + a ! i in (out @ [tmp], if tmp < a ! i then 1 else (0 :: limb)))"
  have "length out = n - m \<and> wval out + radix ^ (n - m) * unat c' = wval (take (n - m) (drop m a)) + unat c \<and> unat c' \<le> 1"
    if "fold f [m..<n] ([], c) = (out, c')" "m \<le> n" "n \<le> length a" for out c'
    using that
  proof (induction "n - m" arbitrary: n out c')
    case 0
    then show ?case using assms(4) by simp
  next
    case (Suc k)
    then obtain n' where n: "n = Suc n'" "m \<le> n'" "k = n' - m" by (cases n) auto
    obtain o1 c1 where 1: "fold f [m..<n'] ([], c) = (o1, c1)" by fastforce
    have IH: "length o1 = k" "wval o1 + radix ^ k * unat c1 = wval (take k (drop m a)) + unat c" "unat c1 \<le> 1"
      using Suc.hyps(1) [OF n(3) 1] n Suc.prems(3) by auto
    define x t where "x = a ! n'" and "t = c1 + x"
    have oc: "out = o1 @ [t]" "c' = (if t < x then 1 else 0)"
      using Suc.prems(1) 1 n(2) by (simp_all add: n f_def t_def x_def Let_def)
    have sum: "unat t + radix * unat c' = unat c1 + unat x"
    proof (cases "unat c1 + unat x < radix")
      case True
      then have "unat t = unat c1 + unat x" by (simp add: t_def unat_word_ariths radix_def)
      then show ?thesis by (simp add: oc word_less_nat_alt)
    next
      case False
      then have "unat t = unat c1 + unat x - radix"
        using IH(3) limb_lt [of x] by (simp add: t_def unat_word_ariths radix_def mod_if)
      then have "unat t < unat x" "unat t + radix = unat c1 + unat x" using False IH(3) limb_lt [of x] radix_pos(3) by linarith+
      then show ?thesis by (simp add: oc word_less_nat_alt)
    qed
    have "k < length (drop m a)" using n Suc.prems(3) by simp
    moreover have "drop m a ! k = x" using n Suc.prems(3) by (simp add: x_def)
    ultimately have tk: "wval (take (Suc k) (drop m a)) = wval (take k (drop m a)) + radix ^ k * unat x"
      by (simp add: wval_take_Suc)
    have "radix ^ k * (unat t + radix * unat c') = radix ^ k * (unat c1 + unat x)" using sum by simp
    then have "wval out + radix ^ Suc k * unat c' = wval (take (Suc k) (drop m a)) + unat c"
      using IH(1,2) tk by (simp add: oc(1) wval_snoc algebra_simps)
    moreover have "n - m = Suc k" using n by simp
    ultimately show ?case using IH(1) by (simp add: oc)
  qed
  from this [of out c'] assms show "length out = n - m"
    "wval out + radix ^ (n - m) * unat c' = wval (take (n - m) (drop m a)) + unat c" "unat c' \<le> 1"
    by (simp_all add: f_def)
qed

lemma usub_high:
  assumes "fold (\<lambda>i (out, borrow). let tmp = a ! i; x = tmp - borrow in (out @ [x], if tmp < x then 1 else 0)) [m..<n] ([], c)
      = (out, c')" "m \<le> n" "n \<le> length a" "c = 0 \<or> c = 1"
  shows "length out = n - m" "wval out + unat c = wval (take (n - m) (drop m a)) + radix ^ (n - m) * unat c'" "c' = 0 \<or> c' = 1"
proof -
  define f where "f = (\<lambda>i (out, borrow). let tmp = a ! i; x = tmp - borrow in (out @ [x], if tmp < x then 1 else (0 :: limb)))"
  have "length out = n - m \<and> wval out + unat c = wval (take (n - m) (drop m a)) + radix ^ (n - m) * unat c' \<and> (c' = 0 \<or> c' = 1)"
    if "fold f [m..<n] ([], c) = (out, c')" "m \<le> n" "n \<le> length a" for out c'
    using that
  proof (induction "n - m" arbitrary: n out c')
    case 0
    then show ?case using assms(4) by simp
  next
    case (Suc k)
    then obtain n' where n: "n = Suc n'" "m \<le> n'" "k = n' - m" by (cases n) auto
    obtain o1 c1 where 1: "fold f [m..<n'] ([], c) = (o1, c1)" by fastforce
    have IH: "length o1 = k" "wval o1 + unat c = wval (take k (drop m a)) + radix ^ k * unat c1" "c1 = 0 \<or> c1 = 1"
      using Suc.hyps(1) [OF n(3) 1] n Suc.prems(3) by auto
    define x t where "x = a ! n'" and "t = x - c1"
    have oc: "out = o1 @ [t]" "c' = (if x < t then 1 else 0)"
      using Suc.prems(1) 1 n(2) by (simp_all add: n f_def t_def x_def Let_def)
    have sum: "unat t + unat c1 = unat x + radix * unat c'"
    proof (cases "x = 0 \<and> c1 = 1")
      case True
      then have t: "t = - 1" by (simp add: t_def)
      have r: "unat (- 1 :: limb) + 1 = radix" using unat_uminus [of 1] by simp
      then have "0 < unat (- 1 :: limb)" using radix_pos(3) by linarith
      with r t show ?thesis using True by (simp add: oc word_less_nat_alt)
    next
      case False
      then have le: "c1 \<le> x" using IH(3) by (auto simp: word_le_nat_alt) (metis One_nat_def Suc_leI unat_gt_0 word_gt_0)
      then have "unat t = unat x - unat c1" by (simp add: t_def unat_sub)
      with le show ?thesis by (simp add: oc word_less_nat_alt word_le_nat_alt)
    qed
    have "k < length (drop m a)" using n Suc.prems(3) by simp
    moreover have "drop m a ! k = x" using n Suc.prems(3) by (simp add: x_def)
    ultimately have tk: "wval (take (Suc k) (drop m a)) = wval (take k (drop m a)) + radix ^ k * unat x"
      by (simp add: wval_take_Suc)
    have "radix ^ k * (unat t + unat c1) = radix ^ k * (unat x + radix * unat c')" using sum by simp
    then have "wval out + unat c = wval (take (Suc k) (drop m a)) + radix ^ Suc k * unat c'"
      using IH(1,2) tk by (simp add: oc(1) wval_snoc algebra_simps)
    moreover have "n - m = Suc k" using n by simp
    ultimately show ?case using IH(1) by (simp add: oc)
  qed
  from this [of out c'] assms show "length out = n - m"
    "wval out + unat c = wval (take (n - m) (drop m a)) + radix ^ (n - m) * unat c'" "c' = 0 \<or> c' = 1"
    by (simp_all add: f_def)
qed

lemma bn_uadd_consttime:
  assumes "bn_uadd_consttime e r a b = (ok, r')" "bn_ok r" "bn_ok a" "bn_ok b"
  shows "bn_ok r'" "ok \<Longrightarrow> bn_abs r' = bn_abs a + bn_abs b" "ok \<Longrightarrow> bn_width r' = max (bn_width a) (bn_width b) + 1"
    "bn_neg r' = bn_neg r" "bn_flags r' = bn_flags r" "\<not> ok \<Longrightarrow> r' = r"
    "heap_generous e \<Longrightarrow> bn_expandable r \<Longrightarrow> max (bn_width a) (bn_width b) < bn_max_words \<Longrightarrow> ok"
proof -
  define x y where "x = (if bn_width a < bn_width b then b else a)" and "y = (if bn_width a < bn_width b then a else b)"
  have xy: "bn_ok x" "bn_ok y" "bn_width y \<le> bn_width x" "bn_abs x + bn_abs y = bn_abs a + bn_abs b"
    "bn_width x = max (bn_width a) (bn_width b)"
    using assms by (auto simp: x_def y_def)
  have pair: "(if bn_width a < bn_width b then (b, a) else (a, b)) = (x, y)" by (simp add: x_def y_def)
  have "bn_ok r' \<and> (ok \<longrightarrow> bn_abs r' = bn_abs a + bn_abs b \<and> bn_width r' = bn_width x + 1)
    \<and> bn_neg r' = bn_neg r \<and> bn_flags r' = bn_flags r \<and> (\<not> ok \<longrightarrow> r' = r) \<and>
    (heap_generous e \<longrightarrow> bn_expandable r \<longrightarrow> bn_width x < bn_max_words \<longrightarrow> ok)"
  proof (cases "bn_wexpand e r (bn_width x + 1)")
    case None
    then show ?thesis using assms(1,2) bn_wexpand_fails [OF None]
      by (auto simp: bn_uadd_consttime_def Let_def pair)
  next
    case (Some r1)
    note w = bn_wexpand [OF Some assms(2)]
    obtain lo c where lo: "bn_add_words (bn_d x) (bn_d y) (bn_width y) = (lo, c)" by fastforce
    obtain hi c' where hi: "fold (\<lambda>i (out, carry). let tmp = carry + bn_d x ! i
        in (out @ [tmp], if tmp < bn_d x ! i then 1 else 0)) [bn_width y..<bn_width x] ([], c) = (hi, c')" by fastforce
    have len: "bn_width y \<le> length (bn_d x)" "bn_width y \<le> length (bn_d y)" "bn_width x \<le> length (bn_d x)"
      using xy(3) bn_okD(3) [OF xy(1)] bn_okD(3) [OF xy(2)] by linarith+
    note L = bn_add_words [OF lo len(1,2)] and H = uadd_high [OF hi xy(3) len(3) bn_add_words(3) [OF lo len(1,2)]]
    have r': "ok" "r' = r1\<lparr>bn_width := bn_width x + 1, bn_d := blit (bn_d r1) 0 (lo @ hi @ [c'])\<rparr>"
      using assms(1) Some lo hi by (auto simp: bn_uadd_consttime_def Let_def pair)
    have ll: "length (lo @ hi @ [c']) = bn_width x + 1" using L(1) H(1) xy(3) by simp
    have split: "bn_abs x = wval (take (bn_width y) (bn_d x)) + radix ^ bn_width y * wval (take (bn_width x - bn_width y) (drop (bn_width y) (bn_d x)))"
    proof -
      have "take (bn_width x) (bn_d x) = take (bn_width y) (bn_d x) @ take (bn_width x - bn_width y) (drop (bn_width y) (bn_d x))"
        using take_add [of "bn_width y" "bn_width x - bn_width y" "bn_d x"] xy(3) by simp
      then show ?thesis using len(1) by (simp add: bn_abs_def wval_append min_absorb2)
    qed
    have p: "radix ^ bn_width x = radix ^ bn_width y * radix ^ (bn_width x - bn_width y)"
      using xy(3) by (simp flip: power_add)
    have "wval (lo @ hi @ [c']) = wval lo + radix ^ bn_width y * (wval hi + radix ^ (bn_width x - bn_width y) * unat c')"
      using L(1) H(1) by (simp add: wval_append)
    also have "\<dots> = bn_abs x + bn_abs y"
      using L(2) H(2) split by (simp add: bn_abs_def algebra_simps)
    finally have v: "wval (lo @ hi @ [c']) = bn_abs a + bn_abs b" using xy(4) by simp
    from bn_written [OF w(1) ll w(2), of "bn_neg r1"] v w r' show ?thesis by (simp add: bn_ok_def bn_abs_def)
  qed
  then show "bn_ok r'" "ok \<Longrightarrow> bn_abs r' = bn_abs a + bn_abs b" "ok \<Longrightarrow> bn_width r' = max (bn_width a) (bn_width b) + 1"
    "bn_neg r' = bn_neg r" "bn_flags r' = bn_flags r" "\<not> ok \<Longrightarrow> r' = r"
    "heap_generous e \<Longrightarrow> bn_expandable r \<Longrightarrow> max (bn_width a) (bn_width b) < bn_max_words \<Longrightarrow> ok"
    by (simp_all add: xy(5))
qed

lemma BN_uadd:
  assumes "BN_uadd e r a b = (ok, r')" "bn_ok r" "bn_ok a" "bn_ok b"
  shows "bn_ok r'" "ok \<Longrightarrow> bn_abs r' = bn_abs a + bn_abs b" "ok \<Longrightarrow> bn_minimal r'" "ok \<Longrightarrow> bn_signed r'"
    "ok \<Longrightarrow> bn_abs r' \<noteq> 0 \<Longrightarrow> bn_neg r' = bn_neg r" "bn_flags r' = bn_flags r" "\<not> ok \<Longrightarrow> r' = r"
    "heap_generous e \<Longrightarrow> bn_expandable r \<Longrightarrow> max (bn_width a) (bn_width b) < bn_max_words \<Longrightarrow> ok"
    "ok \<Longrightarrow> bn_width r' \<le> max (bn_width a) (bn_width b) + 1"
proof -
  obtain ok1 r1 where u: "bn_uadd_consttime e r a b = (ok1, r1)" by fastforce
  note U = bn_uadd_consttime [OF u assms(2-4)] and M = bn_set_minimal_width [OF bn_uadd_consttime(1) [OF u assms(2-4)]]
  have eq: "ok = ok1" "r' = (if ok1 then bn_set_minimal_width r1 else r1)"
    using assms(1) u by (auto simp: BN_uadd_def split: if_splits)
  show "bn_ok r'" "ok \<Longrightarrow> bn_abs r' = bn_abs a + bn_abs b" "ok \<Longrightarrow> bn_minimal r'" "ok \<Longrightarrow> bn_signed r'"
    "ok \<Longrightarrow> bn_abs r' \<noteq> 0 \<Longrightarrow> bn_neg r' = bn_neg r" "bn_flags r' = bn_flags r" "\<not> ok \<Longrightarrow> r' = r"
    "heap_generous e \<Longrightarrow> bn_expandable r \<Longrightarrow> max (bn_width a) (bn_width b) < bn_max_words \<Longrightarrow> ok"
    using U M eq assms(2) by simp_all
  show "ok \<Longrightarrow> bn_width r' \<le> max (bn_width a) (bn_width b) + 1"
    using U(3) M(10) eq by (auto intro: order_trans)
qed

lemma bn_usub_consttime:
  assumes "bn_usub_consttime e r a b = (ok, r')" "bn_ok r" "bn_ok a" "bn_ok b"
  shows "bn_ok r'" "ok \<Longrightarrow> bn_abs b \<le> bn_abs a \<and> bn_abs r' = bn_abs a - bn_abs b" "ok \<Longrightarrow> bn_width r' = bn_width a"
    "ok \<Longrightarrow> \<not> bn_neg r'" "bn_flags r' = bn_flags r"
    "heap_generous e \<Longrightarrow> bn_expandable r \<Longrightarrow> bn_abs b \<le> bn_abs a \<Longrightarrow> ok"
proof -
  define bw where "bw = (if bn_width b > bn_width a then bn_width a else bn_width b)"
  have "bn_ok r' \<and> (ok \<longrightarrow> bn_abs b \<le> bn_abs a \<and> bn_abs r' = bn_abs a - bn_abs b \<and> bn_width r' = bn_width a \<and> \<not> bn_neg r')
    \<and> bn_flags r' = bn_flags r \<and>
    (heap_generous e \<longrightarrow> bn_expandable r \<longrightarrow> bn_abs b \<le> bn_abs a \<longrightarrow> ok)"
  proof (cases "bn_width b > bn_width a \<and> \<not> bn_fits_in_words b (bn_width a)")
    case True
    then have "bn_abs a < bn_abs b"
      using bn_fits_in_words [OF assms(4)] bn_abs_lt [OF assms(3)] by (meson leI less_le_trans)
    then show ?thesis using True assms(1,2) by (auto simp: bn_usub_consttime_def)
  next
    case fits: False
    have bv: "wval (take bw (bn_d b)) = bn_abs b"
    proof (cases "bn_width b > bn_width a")
      case True
      then have "bn_fits_in_words b (bn_width a)" using fits by simp
      with True show ?thesis
        using high_words_zero(2) [of "bn_width a" "bn_width b" "bn_d b"] bn_okD(3) [OF assms(4)]
        by (simp add: bn_fits_in_words_def or_words_0 bn_abs_def bw_def)
    qed (simp add: bw_def bn_abs_def)
    show ?thesis
    proof (cases "bn_wexpand e r (bn_width a)")
      case None
      then show ?thesis using assms(1,2) bn_wexpand_fails [OF None] bn_okD(2,4) [OF assms(3)] fits
        by (auto simp: bn_usub_consttime_def Let_def)
    next
      case (Some r1)
      note w = bn_wexpand [OF Some assms(2)]
      obtain lo c where lo: "bn_sub_words (bn_d a) (bn_d b) bw = (lo, c)" by fastforce
      obtain hi c' where hi: "fold (\<lambda>i (out, borrow). let tmp = bn_d a ! i; x = tmp - borrow
          in (out @ [x], if tmp < x then 1 else 0)) [bw..<bn_width a] ([], c) = (hi, c')" by fastforce
      have le: "bw \<le> bn_width a" "bw \<le> bn_width b" by (auto simp: bw_def)
      have len: "bw \<le> length (bn_d a)" "bw \<le> length (bn_d b)" "bn_width a \<le> length (bn_d a)"
        using le bn_okD(3) [OF assms(3)] bn_okD(3) [OF assms(4)] by auto
      note L = bn_sub_words [OF lo len(1,2)] and H = usub_high [OF hi le(1) len(3) bn_sub_words(3) [OF lo len(1,2)]]
      define r2 where "r2 = r1\<lparr>bn_d := blit (bn_d r1) 0 (lo @ hi)\<rparr>"
      have r': "(ok, r') = (if c' \<noteq> 0 then (False, r2) else (True, r2\<lparr>bn_width := bn_width a, bn_neg := False\<rparr>))"
        using assms(1) Some lo hi fits by (auto simp: bn_usub_consttime_def Let_def r2_def simp flip: bw_def)
      have ll: "length (lo @ hi) = bn_width a" using L(1) H(1) le(1) by simp
      have split: "bn_abs a = wval (take bw (bn_d a)) + radix ^ bw * wval (take (bn_width a - bw) (drop bw (bn_d a)))"
      proof -
        have "take (bn_width a) (bn_d a) = take bw (bn_d a) @ take (bn_width a - bw) (drop bw (bn_d a))"
          using take_add [of bw "bn_width a - bw" "bn_d a"] le(1) by simp
        then show ?thesis using len(1) by (simp add: bn_abs_def wval_append min_absorb2)
      qed
      have p: "radix ^ bn_width a = radix ^ bw * radix ^ (bn_width a - bw)"
        using le(1) by (simp flip: power_add)
      have "radix ^ bw * (wval hi + unat c) = radix ^ bw * (wval (take (bn_width a - bw) (drop bw (bn_d a))) + radix ^ (bn_width a - bw) * unat c')"
        using H(2) by simp
      then have v: "wval (lo @ hi) + bn_abs b = bn_abs a + radix ^ bn_width a * unat c'"
        using L(1,2) split by (simp add: wval_append bv p algebra_simps)
      have ok2: "bn_ok r2" using w(1,2) ll by (auto simp: r2_def bn_ok_def blit_def)
      show ?thesis
      proof (cases "c' = 0")
        case True
        then have "ok" "r' = r1\<lparr>bn_d := blit (bn_d r1) 0 (lo @ hi), bn_width := bn_width a, bn_neg := False\<rparr>"
          using r' by (auto simp: r2_def)
        with bn_written [OF w(1) ll w(2), of False] v True w show ?thesis by simp
      next
        case False
        then have "radix ^ bn_width a * 1 \<le> radix ^ bn_width a * unat c'" by (intro mult_le_mono2) (simp add: unat_gt_0 Suc_leI)
        moreover have "wval (lo @ hi) < radix ^ bn_width a" using wval_lt [of "lo @ hi"] ll by simp
        ultimately have "bn_abs a < bn_abs b" using v by linarith
        with False r' ok2 w show ?thesis by (auto simp: r2_def)
      qed
    qed
  qed
  then show "bn_ok r'" "ok \<Longrightarrow> bn_abs b \<le> bn_abs a \<and> bn_abs r' = bn_abs a - bn_abs b" "ok \<Longrightarrow> bn_width r' = bn_width a"
    "ok \<Longrightarrow> \<not> bn_neg r'" "bn_flags r' = bn_flags r"
    "heap_generous e \<Longrightarrow> bn_expandable r \<Longrightarrow> bn_abs b \<le> bn_abs a \<Longrightarrow> ok" by blast+
qed

lemma BN_usub:
  assumes "BN_usub e r a b = (ok, r')" "bn_ok r" "bn_ok a" "bn_ok b"
  shows "bn_ok r'" "ok \<Longrightarrow> bn_abs b \<le> bn_abs a \<and> bn_abs r' = bn_abs a - bn_abs b" "ok \<Longrightarrow> bn_minimal r'"
    "ok \<Longrightarrow> \<not> bn_neg r'" "bn_flags r' = bn_flags r" "ok \<Longrightarrow> bn_width r' \<le> bn_width a"
    "heap_generous e \<Longrightarrow> bn_expandable r \<Longrightarrow> bn_abs b \<le> bn_abs a \<Longrightarrow> ok"
proof -
  obtain ok1 r1 where u: "bn_usub_consttime e r a b = (ok1, r1)" by fastforce
  note U = bn_usub_consttime [OF u assms(2-4)] and M = bn_set_minimal_width [OF bn_usub_consttime(1) [OF u assms(2-4)]]
  have eq: "ok = ok1" "r' = (if ok1 then bn_set_minimal_width r1 else r1)"
    using assms(1) u by (auto simp: BN_usub_def split: if_splits)
  show "bn_ok r'" "ok \<Longrightarrow> bn_abs b \<le> bn_abs a \<and> bn_abs r' = bn_abs a - bn_abs b" "ok \<Longrightarrow> bn_minimal r'"
    "bn_flags r' = bn_flags r" "heap_generous e \<Longrightarrow> bn_expandable r \<Longrightarrow> bn_abs b \<le> bn_abs a \<Longrightarrow> ok"
    using U M eq by simp_all
  show "ok \<Longrightarrow> \<not> bn_neg r'" using U(4) eq by (auto simp: bn_set_minimal_width_def Let_def)
  show "ok \<Longrightarrow> bn_width r' \<le> bn_width a" using U(3) M(10) eq by (auto intro: order_trans)
qed

section \<open>Correctness of the signed operations\<close>

lemma bn_neg_update: "bn_ok (bn\<lparr>bn_neg := s\<rparr>) = bn_ok bn" "bn_abs (bn\<lparr>bn_neg := s\<rparr>) = bn_abs bn"
  "bn_val (bn\<lparr>bn_neg := s\<rparr>) = (if s then - int (bn_abs bn) else int (bn_abs bn))"
  "bn_minimal (bn\<lparr>bn_neg := s\<rparr>) = bn_minimal bn" "bn_signed (bn\<lparr>bn_neg := s\<rparr>) = (s \<longrightarrow> bn_abs bn \<noteq> 0)"
  "bn_expandable (bn\<lparr>bn_neg := s\<rparr>) = bn_expandable bn"
  by (simp_all add: bn_ok_def bn_abs_def bn_val_def bn_minimal_def bn_signed_def bn_expandable_def)

lemma usub_signed:
  assumes "(case BN_usub e r a b of (ok, r) \<Rightarrow> if \<not> ok then (False, r) else (True, r\<lparr>bn_neg := s\<rparr>)) = (ok, r')"
    "bn_ok r" "bn_ok a" "bn_ok b"
  shows "bn_ok r'" "ok \<Longrightarrow> bn_val r' = (if s then int (bn_abs b) - int (bn_abs a) else int (bn_abs a) - int (bn_abs b))"
    "ok \<Longrightarrow> (s \<longrightarrow> bn_abs b < bn_abs a) \<Longrightarrow> bn_signed r'" "ok \<Longrightarrow> bn_minimal r'" "bn_flags r' = bn_flags r" "ok \<Longrightarrow> bn_width r' \<le> bn_width a"
    "heap_generous e \<Longrightarrow> bn_expandable r \<Longrightarrow> bn_abs b \<le> bn_abs a \<Longrightarrow> ok"
proof -
  obtain ok1 r1 where u: "BN_usub e r a b = (ok1, r1)" by fastforce
  note U = BN_usub [OF u assms(2-4)]
  have eq: "ok = ok1" "r' = (if ok1 then r1\<lparr>bn_neg := s\<rparr> else r1)" using assms(1) u by (auto split: if_splits)
  show "bn_ok r'" "ok \<Longrightarrow> bn_val r' = (if s then int (bn_abs b) - int (bn_abs a) else int (bn_abs a) - int (bn_abs b))"
    "ok \<Longrightarrow> (s \<longrightarrow> bn_abs b < bn_abs a) \<Longrightarrow> bn_signed r'" "ok \<Longrightarrow> bn_minimal r'" "bn_flags r' = bn_flags r" "ok \<Longrightarrow> bn_width r' \<le> bn_width a"
    "heap_generous e \<Longrightarrow> bn_expandable r \<Longrightarrow> bn_abs b \<le> bn_abs a \<Longrightarrow> ok"
    using U eq by (auto simp: bn_neg_update)
qed

lemma uadd_signed:
  assumes "BN_uadd e r a b = (ok, r1)" "r' = r1\<lparr>bn_neg := s\<rparr>" "bn_ok r" "bn_ok a" "bn_ok b"
  shows "bn_ok r'" "ok \<Longrightarrow> bn_val r' = (if s then - int (bn_abs a) - int (bn_abs b) else int (bn_abs a) + int (bn_abs b))"
    "ok \<Longrightarrow> (s \<longrightarrow> bn_abs a \<noteq> 0 \<or> bn_abs b \<noteq> 0) \<Longrightarrow> bn_signed r'" "ok \<Longrightarrow> bn_minimal r'" "bn_flags r' = bn_flags r"
    "ok \<Longrightarrow> bn_width r' \<le> max (bn_width a) (bn_width b) + 1"
    "heap_generous e \<Longrightarrow> bn_expandable r \<Longrightarrow> max (bn_width a) (bn_width b) < bn_max_words \<Longrightarrow> ok"
  using BN_uadd [OF assms(1,3-5)] by (auto simp: bn_neg_update assms(2))

text \<open>What a signed operation promises, for any widths of its inputs.\<close>

definition bn_result :: "bignum \<Rightarrow> bool \<Rightarrow> bignum \<Rightarrow> int \<Rightarrow> nat \<Rightarrow> bool" where
  "bn_result r ok r' v n \<longleftrightarrow> bn_ok r' \<and> bn_flags r' = bn_flags r \<and>
     (ok \<longrightarrow> bn_val r' = v \<and> bn_signed r' \<and> bn_minimal r' \<and> bn_width r' \<le> n)"

lemma compare3_simps [simp]: "compare3 x y < 0 \<longleftrightarrow> x < y" "compare3 x y = 0 \<longleftrightarrow> x = y" "0 < compare3 x y \<longleftrightarrow> y < x"
  "0 \<le> compare3 x y \<longleftrightarrow> y \<le> x"
  by (auto simp: compare3_def)

lemma BN_add:
  assumes "BN_add e r a b = (ok, r')" "bn_ok r" "bn_ok a" "bn_ok b" "bn_signed a" "bn_signed b"
  shows "bn_result r ok r' (bn_val a + bn_val b) (max (bn_width a) (bn_width b) + 1)"
    "heap_generous e \<Longrightarrow> bn_expandable r \<Longrightarrow> max (bn_width a) (bn_width b) < bn_max_words \<Longrightarrow> ok"
proof -
  have "bn_result r ok r' (bn_val a + bn_val b) (max (bn_width a) (bn_width b) + 1) \<and>
    (heap_generous e \<longrightarrow> bn_expandable r \<longrightarrow> max (bn_width a) (bn_width b) < bn_max_words \<longrightarrow> ok)"
  proof (cases "bn_neg a = bn_neg b")
    case True
    obtain r1 where u: "BN_uadd e r a b = (ok, r1)" "r' = r1\<lparr>bn_neg := bn_neg a\<rparr>"
      using assms(1) True by (auto simp: BN_add_def split: prod.splits)
    from uadd_signed [OF u assms(2-4)] True assms(5,6) show ?thesis
      by (auto simp: bn_result_def bn_val_def bn_signed_def split: if_splits)
  next
    case False
    define x y where "x = (if bn_neg a then b else a)" and "y = (if bn_neg a then a else b)"
    have xy: "bn_ok x" "bn_ok y" "bn_val a + bn_val b = int (bn_abs x) - int (bn_abs y)"
      "max (bn_width x) (bn_width y) = max (bn_width a) (bn_width b)"
      using False assms(3,4) by (auto simp: x_def y_def bn_val_def)
    have pair: "(if bn_neg a then (b, a) else (a, b)) = (x, y)" by (simp add: x_def y_def)
    show ?thesis
    proof (cases "bn_abs x < bn_abs y")
      case True
      then have u: "(case BN_usub e r y x of (ok, r) \<Rightarrow> if \<not> ok then (False, r) else (True, r\<lparr>bn_neg := True\<rparr>)) = (ok, r')"
        using assms(1) [unfolded BN_add_def Let_def pair prod.case] False by (simp add: BN_ucmp [OF xy(1,2)])
      from usub_signed [OF u assms(2) xy(2,1)] True xy(3,4) show ?thesis by (auto simp: bn_result_def)
    next
      case ge: False
      then have u: "(case BN_usub e r x y of (ok, r) \<Rightarrow> if \<not> ok then (False, r) else (True, r\<lparr>bn_neg := False\<rparr>)) = (ok, r')"
        using assms(1) [unfolded BN_add_def Let_def pair prod.case] False by (simp add: BN_ucmp [OF xy(1,2)])
      from usub_signed [OF u assms(2) xy(1,2)] ge xy(3,4) show ?thesis by (auto simp: bn_result_def)
    qed
  qed
  then show "bn_result r ok r' (bn_val a + bn_val b) (max (bn_width a) (bn_width b) + 1)"
    "heap_generous e \<Longrightarrow> bn_expandable r \<Longrightarrow> max (bn_width a) (bn_width b) < bn_max_words \<Longrightarrow> ok" by blast+
qed

lemma BN_sub:
  assumes "BN_sub e r a b = (ok, r')" "bn_ok r" "bn_ok a" "bn_ok b" "bn_signed a" "bn_signed b"
  shows "bn_result r ok r' (bn_val a - bn_val b) (max (bn_width a) (bn_width b) + 1)"
    "heap_generous e \<Longrightarrow> bn_expandable r \<Longrightarrow> max (bn_width a) (bn_width b) < bn_max_words \<Longrightarrow> ok"
proof -
  have "bn_result r ok r' (bn_val a - bn_val b) (max (bn_width a) (bn_width b) + 1) \<and>
    (heap_generous e \<longrightarrow> bn_expandable r \<longrightarrow> max (bn_width a) (bn_width b) < bn_max_words \<longrightarrow> ok)"
  proof (cases "bn_neg a = bn_neg b")
    case False
    obtain ok1 r1 where u: "BN_uadd e r a b = (ok1, r1)" by fastforce
    then have eq: "ok = ok1" "r' = (if ok1 then r1\<lparr>bn_neg := bn_neg a\<rparr> else r1)"
      using assms(1) False by (auto simp: BN_sub_def split: if_splits prod.splits)
    note U = uadd_signed [OF u refl [of "r1\<lparr>bn_neg := bn_neg a\<rparr>"] assms(2-4)]
    have "\<not> ok \<Longrightarrow> r' = r" using eq BN_uadd(7) [OF u assms(2-4)] by simp
    with U eq False assms(2,5,6) show ?thesis
      by (cases ok1) (auto simp: bn_result_def bn_val_def bn_signed_def split: if_splits)
  next
    case True
    define x y where "x = (if bn_neg a then b else a)" and "y = (if bn_neg a then a else b)"
    have xy: "bn_ok x" "bn_ok y" "bn_val a - bn_val b = int (bn_abs x) - int (bn_abs y)"
      "max (bn_width x) (bn_width y) = max (bn_width a) (bn_width b)"
      using True assms(3,4) by (auto simp: x_def y_def bn_val_def)
    have pair: "(if bn_neg a then if bn_neg b then (b, a, False, False) else (a, b, True, True)
        else if bn_neg b then (a, b, True, False) else (a, b, False, False)) = (x, y, False, False)"
      using True by (simp add: x_def y_def)
    show ?thesis
    proof (cases "bn_abs x < bn_abs y")
      case lt: True
      then have u: "(case BN_usub e r y x of (ok, r) \<Rightarrow> if \<not> ok then (False, r) else (True, r\<lparr>bn_neg := True\<rparr>)) = (ok, r')"
        using assms(1) [unfolded BN_sub_def Let_def pair prod.case] by (simp add: BN_ucmp [OF xy(1,2)])
      from usub_signed [OF u assms(2) xy(2,1)] lt xy(3,4) show ?thesis by (auto simp: bn_result_def)
    next
      case ge: False
      then have u: "(case BN_usub e r x y of (ok, r) \<Rightarrow> if \<not> ok then (False, r) else (True, r\<lparr>bn_neg := False\<rparr>)) = (ok, r')"
        using assms(1) [unfolded BN_sub_def Let_def pair prod.case] by (simp add: BN_ucmp [OF xy(1,2)])
      from usub_signed [OF u assms(2) xy(1,2)] ge xy(3,4) show ?thesis by (auto simp: bn_result_def)
    qed
  qed
  then show "bn_result r ok r' (bn_val a - bn_val b) (max (bn_width a) (bn_width b) + 1)"
    "heap_generous e \<Longrightarrow> bn_expandable r \<Longrightarrow> max (bn_width a) (bn_width b) < bn_max_words \<Longrightarrow> ok" by blast+
qed

section \<open>Correctness of the word operations\<close>

lemma wval_update: "i < length xs \<Longrightarrow> wval (xs[i := y]) + radix ^ i * unat (xs ! i) = wval xs + radix ^ i * unat y"
proof (induction xs arbitrary: i)
  case (Cons x xs)
  show ?case
  proof (cases i)
    case (Suc j)
    have "radix * (wval (xs[j := y]) + radix ^ j * unat (xs ! j)) = radix * (wval xs + radix ^ j * unat y)"
      using Cons Suc by simp
    then show ?thesis using Suc by (simp add: algebra_simps)
  qed simp
qed simp

lemma wval_take_update:
  assumes "i < n" "n \<le> length xs"
  shows "wval (take n (xs[i := y])) + radix ^ i * unat (xs ! i) = wval (take n xs) + radix ^ i * unat y"
  using wval_update [of i "take n xs" y] assms by (simp add: take_update_swap)

lemma add_carry: "unat (x + y :: limb) + radix * unat (if y > x + y then 1 else 0 :: limb) = unat x + unat y"
proof (cases "unat x + unat y < radix")
  case True
  then have "unat (x + y) = unat x + unat y" by (simp add: unat_word_ariths radix_def)
  then show ?thesis by (simp add: word_less_nat_alt)
next
  case False
  then have "unat (x + y) = unat x + unat y - radix"
    using limb_lt [of x] limb_lt [of y] by (simp add: unat_word_ariths radix_def mod_if)
  then have "unat (x + y) < unat y" "unat (x + y) + radix = unat x + unat y"
    using False limb_lt [of x] by linarith+
  then show ?thesis by (simp add: word_less_nat_alt)
qed

lemma sub_wraps: "x < y \<Longrightarrow> unat (x - y :: limb) + unat y = unat x + radix"
proof -
  assume lt: "x < y"
  then have "unat (y - x) = unat y - unat x" by (simp add: unat_sub word_less_nat_alt word_le_nat_alt)
  moreover have "unat (- (y - x)) + unat (y - x) = radix" using lt by (intro unat_uminus) auto
  ultimately show ?thesis using lt by (simp add: word_less_nat_alt)
qed

lemma add_word_loop:
  assumes "add_word_loop n i d w = (d', w', j)" "n \<le> length d" "i \<le> n"
  shows "length d' = length d \<and> (w' \<noteq> 0 \<longrightarrow> j = n) \<and>
    wval (take n d') + radix ^ n * unat w' = wval (take n d) + radix ^ i * unat w"
  using assms
proof (induction n i d w rule: add_word_loop.induct)
  case (1 n i d w)
  show ?case
  proof (cases "w \<noteq> 0 \<and> i < n")
    case True
    define l c where "l = d ! i + w" and "c = (if w > l then 1 else 0 :: limb)"
    have "add_word_loop n (i + 1) (d[i := l]) c = (d', w', j)"
      using 1(2) True by (subst (asm) add_word_loop.simps) (simp add: l_def c_def Let_def)
    from 1(1) [OF True, of l, folded c_def, OF _ this] True 1(3)
    have IH: "length d' = length d" "w' \<noteq> 0 \<longrightarrow> j = n"
      "wval (take n d') + radix ^ n * unat w' = wval (take n (d[i := l])) + radix ^ (i + 1) * unat c"
      by (simp_all add: l_def)
    have "unat l + radix * unat c = unat (d ! i) + unat w"
      using add_carry [of "d ! i" w] by (simp add: l_def c_def)
    then have "radix ^ i * (unat l + radix * unat c) = radix ^ i * (unat (d ! i) + unat w)" by simp
    moreover have "wval (take n (d[i := l])) + radix ^ i * unat (d ! i) = wval (take n d) + radix ^ i * unat l"
      using True 1(3) by (intro wval_take_update) simp_all
    ultimately show ?thesis using IH by (simp add: algebra_simps)
  next
    case False
    then have "d' = d" "w' = w" "j = i" using 1(2) by (auto simp: add_word_loop.simps)
    then show ?thesis using False 1(4) by auto
  qed
qed

lemma sub_word_loop:
  assumes "n \<le> length d" "i \<le> n" "unat w \<le> wval (drop i (take n d))" "w \<noteq> 0"
  shows "\<exists>d' j. sub_word_loop i d w = Some (d', j) \<and> length d' = length d \<and> j < n \<and>
    wval (take n d') + radix ^ i * unat w = wval (take n d)"
  using assms
proof (induction i d w rule: sub_word_loop.induct)
  case (1 i d w)
  have "drop i (take n d) \<noteq> []"
  proof
    assume "drop i (take n d) = []"
    then have "wval (drop i (take n d)) = 0" by (simp only: wval.simps)
    then show False using 1(4,5) by (simp add: unat_eq_zero)
  qed
  then have i: "i < n" "\<not> length d \<le> i" using 1(2) by auto
  have dr: "drop i (take n d) = d ! i # drop (i + 1) (take n d)"
    using i 1(2) by (subst Cons_nth_drop_Suc [symmetric]) simp_all
  show ?case
  proof (cases "d ! i \<ge> w")
    case True
    then have "unat (d ! i - w) + unat w = unat (d ! i)" by (simp add: unat_sub word_le_nat_alt)
    then have "radix ^ i * (unat (d ! i - w) + unat w) = radix ^ i * unat (d ! i)" by simp
    moreover have "wval (take n (d[i := d ! i - w])) + radix ^ i * unat (d ! i) = wval (take n d) + radix ^ i * unat (d ! i - w)"
      using i 1(2) by (intro wval_take_update) simp_all
    ultimately show ?thesis using True i by (subst sub_word_loop.simps) (simp add: algebra_simps)
  next
    case False
    define l where "l = d ! i - w"
    have l: "unat l + unat w = unat (d ! i) + radix" using False by (simp add: l_def sub_wraps)
    have "wval (drop (i + 1) (take n d)) \<noteq> 0" using 1(4) False unfolding dr
      by (cases "wval (drop (i + 1) (take n d))") (simp_all add: word_le_nat_alt)
    moreover have "drop (i + 1) (take n (d[i := l])) = drop (i + 1) (take n d)"
      by (simp add: take_update_swap)
    ultimately have "unat (1 :: limb) \<le> wval (drop (i + 1) (take n (d[i := l])))" by simp
    then obtain d' j where IH: "sub_word_loop (i + 1) (d[i := l]) 1 = Some (d', j)" "length d' = length d" "j < n"
      "wval (take n d') + radix ^ (i + 1) * unat (1 :: limb) = wval (take n (d[i := l]))"
      using 1(1) [OF i(2) False] 1(2) i(1) by (auto simp: l_def)
    have "wval (take n (d[i := l])) + radix ^ i * unat (d ! i) = wval (take n d) + radix ^ i * unat l"
      using i 1(2) by (intro wval_take_update) simp_all
    moreover have "radix ^ i * (unat l + unat w) = radix ^ i * (unat (d ! i) + radix)" using l by simp
    ultimately have "wval (take n d') + radix ^ i * unat w = wval (take n d)"
      using IH(4) by (simp add: algebra_simps)
    with IH False i show ?thesis by (subst sub_word_loop.simps) (simp add: l_def)
  qed
qed

lemma add_word_pos:
  assumes "add_word_pos e a w = (ok, r)" "bn_ok a" "\<not> bn_neg a"
  shows "bn_ok r" "ok \<Longrightarrow> bn_abs r = bn_abs a + unat w" "\<not> bn_neg r" "bn_flags r = bn_flags a"
    "heap_generous e \<Longrightarrow> bn_expandable a \<Longrightarrow> bn_width a < bn_max_words \<Longrightarrow> ok"
    "ok \<Longrightarrow> bn_width r \<le> bn_width a + 1"
proof -
  obtain d w' i where l: "add_word_loop (bn_width a) 0 (bn_d a) w = (d, w', i)" by (metis prod_cases3)
  note L = add_word_loop [OF l bn_okD(3) [OF assms(2)] zero_le]
  define a1 where "a1 = a\<lparr>bn_d := d\<rparr>"
  have ok1: "bn_ok a1" using assms(2) L by (simp add: a1_def bn_ok_def)
  have *: "bn_ok r \<and> (ok \<longrightarrow> bn_abs r = bn_abs a + unat w \<and> bn_width r \<le> bn_width a + 1) \<and> \<not> bn_neg r \<and> bn_flags r = bn_flags a \<and>
    (heap_generous e \<longrightarrow> bn_expandable a \<longrightarrow> bn_width a < bn_max_words \<longrightarrow> ok)"
  proof (cases "w' = 0")
    case True
    then have "ok" "r = a1" using assms(1) l by (auto simp: add_word_pos_def a1_def)
    with L True ok1 assms(3) show ?thesis by (simp add: a1_def bn_abs_def)
  next
    case False
    then have i: "i = bn_width a" using L by simp
    show ?thesis
    proof (cases "bn_wexpand e a1 (bn_width a + 1)")
      case None
      then have "\<not> ok" "r = a1" using assms(1) l False i by (auto simp: add_word_pos_def a1_def)
      moreover have "bn_expandable a1 = bn_expandable a" by (simp add: a1_def bn_expandable_def)
      ultimately show ?thesis using bn_wexpand_fails [OF None] ok1 assms(3) by (auto simp: a1_def)
    next
      case (Some a2)
      note W = bn_wexpand [OF Some ok1]
      have r: "ok" "r = a2\<lparr>bn_width := bn_width a + 1, bn_d := (bn_d a2)[bn_width a := w']\<rparr>"
        using assms(1) l False i Some W by (auto simp: add_word_pos_def a1_def)
      have wd: "bn_width a < length (bn_d a2)" using W(3) by simp
      have "bn_abs r = wval (take (bn_width a) (bn_d a2)) + radix ^ bn_width a * unat w'"
        using wd by (simp add: r(2) bn_abs_def wval_take_Suc)
      also have "take (bn_width a) (bn_d a2) = take (bn_width a) d" using W(7) by (simp add: a1_def)
      finally have "bn_abs r = bn_abs a + unat w" using L by (simp add: bn_abs_def)
      moreover have "bn_ok r" using W(1,2) by (simp add: r(2) bn_ok_def)
      ultimately show ?thesis using r W(5,6) assms(3) by (simp add: a1_def)
    qed
  qed
  then show "bn_ok r" "ok \<Longrightarrow> bn_abs r = bn_abs a + unat w" "\<not> bn_neg r" "bn_flags r = bn_flags a"
    "heap_generous e \<Longrightarrow> bn_expandable a \<Longrightarrow> bn_width a < bn_max_words \<Longrightarrow> ok"
    "ok \<Longrightarrow> bn_width r \<le> bn_width a + 1" by blast+
qed

lemma sub_word_pos:
  assumes "bn_ok a" "\<not> bn_neg a" "bn_abs a \<noteq> 0" "w \<noteq> 0"
  shows "\<exists>r. sub_word_pos a w = Some (True, r) \<and> bn_ok r \<and> bn_val r = int (bn_abs a) - int (unat w) \<and> bn_signed r \<and>
    bn_flags r = bn_flags a \<and> bn_width r \<le> bn_width a"
proof (cases "bn_minimal_width a = 1 \<and> bn_d a ! 0 < w")
  case True
  have w: "0 < bn_width a" "0 < length (bn_d a)"
    using bn_minimal_width(1) [OF assms(1)] bn_okD(3) [OF assms(1)] True by auto
  have v: "bn_abs a = unat (bn_d a ! 0)" using True by (intro bn_minimal_one [OF assms(1)]) simp
  have "wval (take (bn_width a) ((bn_d a)[0 := w - bn_d a ! 0])) + radix ^ 0 * unat (bn_d a ! 0)
      = wval (take (bn_width a) (bn_d a)) + radix ^ 0 * unat (w - bn_d a ! 0)"
    using w bn_okD(3) [OF assms(1)] by (intro wval_take_update)
  moreover have "unat (w - bn_d a ! 0) = unat w - unat (bn_d a ! 0)" "unat (bn_d a ! 0) < unat w"
    using True by (simp_all add: unat_sub word_less_nat_alt word_le_nat_alt)
  ultimately have "bn_abs (a\<lparr>bn_d := (bn_d a)[0 := w - bn_d a ! 0], bn_neg := True\<rparr>) = unat w - bn_abs a" "bn_abs a < unat w"
    using v by (simp_all add: bn_abs_def)
  then show ?thesis using True assms(1) by (simp add: sub_word_pos_def bn_val_def bn_signed_def bn_ok_def of_nat_diff del: of_nat_unat)
next
  case False
  have pos: "bn_minimal_width a \<noteq> 0" using assms(3) bn_minimal_width_0 [OF assms(1)] by simp
  have le: "unat w \<le> bn_abs a"
  proof (cases "bn_minimal_width a = 1")
    case True
    then show ?thesis using False bn_minimal_one [OF assms(1) True] by (simp add: word_le_nat_alt not_less)
  next
    case False
    then have "radix \<le> bn_abs a" using pos by (intro bn_minimal_large [OF assms(1)]) linarith
    then show ?thesis using limb_lt [of w] by linarith
  qed
  then have "unat w \<le> wval (drop 0 (take (bn_width a) (bn_d a)))" by (simp add: bn_abs_def)
  then obtain d i where l: "sub_word_loop 0 (bn_d a) w = Some (d, i)" "length d = length (bn_d a)" "i < bn_width a"
    "wval (take (bn_width a) d) + radix ^ 0 * unat w = wval (take (bn_width a) (bn_d a))"
    using sub_word_loop [OF bn_okD(3) [OF assms(1)] zero_le _ assms(4)] by blast
  define a1 where "a1 = a\<lparr>bn_d := d\<rparr>"
  have v1: "bn_abs a1 = bn_abs a - unat w" using l(4) by (simp add: a1_def bn_abs_def)
  define r where "r = (if d ! i = 0 \<and> i = bn_width a1 - 1 then a1\<lparr>bn_width := bn_width a1 - 1\<rparr> else a1)"
  have "bn_abs r = bn_abs a1"
  proof (cases "d ! i = 0 \<and> i = bn_width a1 - 1")
    case True
    then have "bn_width a1 = Suc i" "i < length d" using l(2,3) bn_okD(3) [OF assms(1)] by (auto simp: a1_def)
    moreover have "wval (take (Suc i) d) = wval (take i d) + radix ^ i * unat (d ! i)"
      by (rule wval_take_Suc) (rule calculation(2))
    moreover have "unat (d ! i) = 0" using conjunct1 [OF True] by simp
    ultimately show ?thesis using True by (simp add: r_def bn_abs_def a1_def)
  qed (auto simp: r_def)
  moreover have "bn_ok r" "\<not> bn_neg r" "bn_flags r = bn_flags a" "bn_width r \<le> bn_width a"
    using assms(1,2) l(2) by (auto simp: r_def a1_def bn_ok_def)
  moreover have "sub_word_pos a w = Some (True, r)" using False l(1) by (auto simp: sub_word_pos_def r_def a1_def Let_def)
  ultimately show ?thesis using v1 le by (simp add: bn_val_def bn_signed_def of_nat_diff del: of_nat_unat)
qed

lemma BN_add_word:
  assumes "bn_ok a" "bn_signed a"
  shows "\<exists>ok r. BN_add_word e a w = Some (ok, r) \<and> bn_ok r \<and> bn_flags r = bn_flags a \<and>
    (ok \<longrightarrow> bn_val r = bn_val a + int (unat w) \<and> bn_signed r) \<and> (ok \<longrightarrow> bn_width r \<le> bn_width a + 1) \<and>
    (heap_generous e \<longrightarrow> bn_expandable a \<longrightarrow> bn_width a < bn_max_words \<longrightarrow> ok)"
proof -
  consider "w = 0" | "w \<noteq> 0" "BN_is_zero a" | "w \<noteq> 0" "\<not> BN_is_zero a" "bn_neg a" | "w \<noteq> 0" "\<not> BN_is_zero a" "\<not> bn_neg a"
    by blast
  then show ?thesis
  proof cases
    case 1
    then show ?thesis using assms by (auto simp: BN_add_word_def)
  next
    case 2
    obtain ok r where s: "BN_set_word e a w = (ok, r)" by fastforce
    have "bn_val a = 0" using 2 assms(1) by (simp add: BN_is_zero bn_val_0_iff)
    moreover have "ok \<Longrightarrow> bn_width r \<le> bn_width a + 1" using BN_set_word(9) [OF s assms(1)] by simp
    ultimately show ?thesis using 2 s BN_set_word(1-8) [OF s assms(1)] by (simp add: BN_add_word_def del: of_nat_unat)
  next
    case 3
    define a1 where "a1 = a\<lparr>bn_neg := False\<rparr>"
    have a1: "bn_ok a1" "\<not> bn_neg a1" "bn_abs a1 = bn_abs a" "bn_flags a1 = bn_flags a" "bn_width a1 = bn_width a"
      using assms(1) by (simp_all add: a1_def bn_neg_update)
    have "bn_abs a1 \<noteq> 0" using 3 assms(1) by (simp add: BN_is_zero a1)
    from sub_word_pos [OF a1(1,2) this 3(1)] obtain r where r: "sub_word_pos a1 w = Some (True, r)" "bn_ok r"
      "bn_val r = int (bn_abs a) - int (unat w)" "bn_signed r" "bn_flags r = bn_flags a" "bn_width r \<le> bn_width a"
      by (auto simp: a1)
    define r' where "r' = (if \<not> BN_is_zero r then r\<lparr>bn_neg := \<not> bn_neg r\<rparr> else r)"
    have "bn_val r' = - bn_val r" "bn_signed r'" "bn_ok r'" "bn_flags r' = bn_flags r" "bn_width r' = bn_width r"
      using r(2,4) by (auto simp: r'_def bn_neg_update BN_is_zero bn_val_def bn_signed_def)
    moreover have "BN_add_word e a w = Some (True, r')" using 3 r(1) by (simp add: BN_add_word_def r'_def a1_def)
    ultimately show ?thesis using r 3(3)
      by (intro exI [of _ True] exI [of _ r']) (simp add: bn_val_def del: of_nat_unat)
  next
    case 4
    obtain ok r where s: "add_word_pos e a w = (ok, r)" by fastforce
    from 4 s add_word_pos [OF s assms(1) 4(3)] show ?thesis
      by (simp add: BN_add_word_def bn_val_def bn_signed_def del: of_nat_unat)
  qed
qed

lemma BN_sub_word:
  assumes "bn_ok a" "bn_signed a"
  shows "\<exists>ok r. BN_sub_word e a w = Some (ok, r) \<and> bn_ok r \<and> bn_flags r = bn_flags a \<and>
    (ok \<longrightarrow> bn_val r = bn_val a - int (unat w) \<and> bn_signed r) \<and> (ok \<longrightarrow> bn_width r \<le> bn_width a + 1) \<and>
    (heap_generous e \<longrightarrow> bn_expandable a \<longrightarrow> bn_width a < bn_max_words \<longrightarrow> ok)"
proof -
  consider "w = 0" | "w \<noteq> 0" "BN_is_zero a" | "w \<noteq> 0" "\<not> BN_is_zero a" "bn_neg a" | "w \<noteq> 0" "\<not> BN_is_zero a" "\<not> bn_neg a"
    by blast
  then show ?thesis
  proof cases
    case 1
    then show ?thesis using assms by (auto simp: BN_sub_word_def)
  next
    case 2
    obtain ok r where s: "BN_set_word e a w = (ok, r)" by fastforce
    have "bn_val a = 0" using 2 assms(1) by (simp add: BN_is_zero bn_val_0_iff)
    moreover have "ok \<Longrightarrow> bn_width r \<le> bn_width a + 1" using BN_set_word(9) [OF s assms(1)] by simp
    ultimately show ?thesis
      using 2 s BN_set_word(1-8) [OF s assms(1)] BN_set_negative [OF BN_set_word(1) [OF s assms(1)], of True]
      by (intro exI [of _ ok] exI [of _ "if ok then BN_set_negative r True else r"])
         (simp add: BN_sub_word_def del: of_nat_unat)
  next
    case 3
    define a1 where "a1 = a\<lparr>bn_neg := False\<rparr>"
    have a1: "bn_ok a1" "\<not> bn_neg a1" "bn_abs a1 = bn_abs a" "bn_flags a1 = bn_flags a" "bn_width a1 = bn_width a"
      "bn_expandable a1 = bn_expandable a"
      using assms(1) by (simp_all add: a1_def bn_neg_update)
    obtain ok r where s: "add_word_pos e a1 w = (ok, r)" by fastforce
    note A = add_word_pos [OF s a1(1,2)]
    have "BN_sub_word e a w = Some (ok, r\<lparr>bn_neg := True\<rparr>)" using 3 s by (simp add: BN_sub_word_def a1_def)
    moreover have "bn_abs a \<noteq> 0" using 3 assms(1) by (simp add: BN_is_zero)
    ultimately show ?thesis using A 3(3) a1
      by (intro exI [of _ ok] exI [of _ "r\<lparr>bn_neg := True\<rparr>"]) (simp add: bn_neg_update bn_val_def del: of_nat_unat)
  next
    case 4
    then have "bn_abs a \<noteq> 0" using assms(1) by (simp add: BN_is_zero)
    from sub_word_pos [OF assms(1) 4(3) this 4(1)] obtain r where r: "sub_word_pos a w = Some (True, r)" "bn_ok r"
      "bn_val r = int (bn_abs a) - int (unat w)" "bn_signed r" "bn_flags r = bn_flags a" "bn_width r \<le> bn_width a"
      by blast
    then show ?thesis using 4
      by (intro exI [of _ True] exI [of _ r]) (simp add: BN_sub_word_def bn_val_def [of a] del: of_nat_unat)
  qed
qed

end
