(* ===== verification/BN_Shift.thy ===== *)
theory BN_Shift
  imports BN_Arith
begin

text \<open>
  Shifts and single bits of big numbers: \<open>crypto/fipsmodule/bn/shift.c\<close>.  Where the code
  walks through the same array that it writes to, every limb is read before it is written, so
  that the loops below read from the old array.
\<close>

text \<open>
  What \<open>BN_CTX_get\<close> returns is a parameter: \<open>ctx i\<close> is the result of the \<open>i\<close>-th call since
  \<open>BN_CTX_start\<close>, \<open>None\<close> when it fails, and otherwise a number that is zero, with whatever an
  earlier user left in its array.  A function that is called in the meantime goes on
  where its caller stopped (\<open>ctx_from\<close>).
\<close>

type_synonym bn_ctx = "nat \<Rightarrow> bignum option"

definition BN_CTX_get :: "bn_ctx \<Rightarrow> nat \<Rightarrow> bignum option" where
  "BN_CTX_get ctx i = map_option BN_zero (ctx i)"

definition ctx_from :: "nat \<Rightarrow> bn_ctx \<Rightarrow> bn_ctx" where
  "ctx_from k ctx = (\<lambda>i. ctx (k + i))"

definition ctx_ok :: "bn_ctx \<Rightarrow> bool" where
  "ctx_ok ctx \<longleftrightarrow> (\<forall>i bn. ctx i = Some bn \<longrightarrow> bn_ok bn)"

section \<open>Left shifts\<close>

definition lshift_step :: "limbs \<Rightarrow> nat \<Rightarrow> nat \<Rightarrow> nat \<Rightarrow> limbs \<Rightarrow> limbs" where
  "lshift_step f nw lb i t =
     (let l = f ! i; t = t[nw + i + 1 := t ! (nw + i + 1) OR drop_bit (BN_BITS2 - lb) l]
      in t[nw + i := push_bit lb l])"

definition BN_lshift :: "heap_env \<Rightarrow> bignum \<Rightarrow> bignum \<Rightarrow> int \<Rightarrow> bool \<times> bignum" where
  "BN_lshift e r a n =
     (if n < 0 then (False, r)
      else
        (let r = r\<lparr>bn_neg := bn_neg a\<rparr>; nw = nat n div BN_BITS2
         in case bn_wexpand e r (bn_width a + nw + 1) of
              None \<Rightarrow> (False, r)
            | Some r \<Rightarrow>
                (let lb = nat n mod BN_BITS2; f = bn_d a; t = (bn_d r)[bn_width a + nw := 0];
                     t = (if lb = 0 then fold (\<lambda>i t. t[nw + i := f ! i]) (rev [0..<bn_width a]) t
                          else fold (lshift_step f nw lb) (rev [0..<bn_width a]) t);
                     t = blit t 0 (replicate nw 0)
                 in (True, bn_set_minimal_width (r\<lparr>bn_d := t, bn_width := bn_width a + nw + 1\<rparr>)))))"

definition BN_lshift1 :: "heap_env \<Rightarrow> bignum \<Rightarrow> bignum \<Rightarrow> bool \<times> bignum" where
  "BN_lshift1 e r a =
     (let r = r\<lparr>bn_neg := bn_neg a\<rparr>
      in case bn_wexpand e r (bn_width a + 1) of
           None \<Rightarrow> (False, r)
         | Some r \<Rightarrow>
             (let (out, c) = fold (\<lambda>i (out, c). let t = bn_d a ! i
                                    in (out @ [push_bit 1 t OR c], drop_bit (BN_BITS2 - 1) t))
                                  [0..<bn_width a] ([], 0);
                  r = r\<lparr>bn_d := blit (bn_d r) 0 out, bn_width := bn_width a\<rparr>
              in (True, if c \<noteq> 0 then r\<lparr>bn_d := (bn_d r)[bn_width a := 1], bn_width := bn_width r + 1\<rparr> else r)))"

section \<open>Right shifts\<close>

definition bn_rshift_words :: "limbs \<Rightarrow> nat \<Rightarrow> nat \<Rightarrow> limbs" where
  "bn_rshift_words a shift num =
     (let shift_bits = shift mod BN_BITS2; shift_words = shift div BN_BITS2
      in if shift_words \<ge> num then replicate num 0
         else (if shift_bits = 0 then take (num - shift_words) (drop shift_words a)
               else map (\<lambda>i. drop_bit shift_bits (a ! i) OR push_bit (BN_BITS2 - shift_bits) (a ! (i + 1)))
                        [shift_words..<num - 1] @ [drop_bit shift_bits (a ! (num - 1))])
              @ replicate shift_words 0)"

definition BN_rshift :: "heap_env \<Rightarrow> bignum \<Rightarrow> bignum \<Rightarrow> int \<Rightarrow> bool \<times> bignum" where
  "BN_rshift e r a n =
     (if n < 0 then (False, r)
      else
        (case bn_wexpand e r (bn_width a) of
           None \<Rightarrow> (False, r)
         | Some r \<Rightarrow>
             (True, bn_set_minimal_width
                (r\<lparr>bn_d := blit (bn_d r) 0 (bn_rshift_words (bn_d a) (nat n) (bn_width a)),
                   bn_width := bn_width a, bn_neg := bn_neg a\<rparr>))))"

text \<open>The loop runs while \<open>max_bits >> i\<close>, here \<open>m\<close>, is not zero.\<close>

fun secret_shift_loop :: "nat \<Rightarrow> nat \<Rightarrow> nat \<Rightarrow> nat \<Rightarrow> limbs \<Rightarrow> limbs" where
  "secret_shift_loop width n i m d =
     (if m = 0 then d
      else
        (let mask_w = 0 - (of_nat (n div 2 ^ i) AND 1);
             tmp = bn_rshift_words d (2 ^ i) width
         in secret_shift_loop width n (i + 1) (m div 2) (blit d 0 (bn_select_words mask_w tmp d width))))"

declare secret_shift_loop.simps [simp del]

definition bn_rshift_secret_shift :: "heap_env \<Rightarrow> bignum \<Rightarrow> bignum \<Rightarrow> nat \<Rightarrow> bn_ctx \<Rightarrow> bool \<times> bignum" where
  "bn_rshift_secret_shift e r a n ctx =
     (case BN_CTX_get ctx 0 of
        None \<Rightarrow> (False, r)
      | Some tmp \<Rightarrow>
          (case BN_copy e r a of (ok, r) \<Rightarrow>
             if \<not> ok then (False, r)
             else (case bn_wexpand e tmp (bn_width r) of
                     None \<Rightarrow> (False, r)
                   | Some _ \<Rightarrow>
                       (True, r\<lparr>bn_d := secret_shift_loop (bn_width r) n 0 (BN_BITS2 * bn_width r) (bn_d r)\<rparr>))))"

definition bn_rshift1_words :: "limbs \<Rightarrow> nat \<Rightarrow> limbs" where
  "bn_rshift1_words a num =
     (if num = 0 then []
      else map (\<lambda>i. drop_bit 1 (a ! i) OR push_bit (BN_BITS2 - 1) (a ! (i + 1))) [0..<num - 1]
           @ [drop_bit 1 (a ! (num - 1))])"

definition BN_rshift1 :: "heap_env \<Rightarrow> bignum \<Rightarrow> bignum \<Rightarrow> bool \<times> bignum" where
  "BN_rshift1 e r a =
     (case bn_wexpand e r (bn_width a) of
        None \<Rightarrow> (False, r)
      | Some r \<Rightarrow>
          (True, bn_set_minimal_width
             (r\<lparr>bn_d := blit (bn_d r) 0 (bn_rshift1_words (bn_d a) (bn_width a)),
                bn_width := bn_width a, bn_neg := bn_neg a\<rparr>)))"

section \<open>Bits\<close>

definition BN_set_bit :: "heap_env \<Rightarrow> bignum \<Rightarrow> int \<Rightarrow> bool \<times> bignum" where
  "BN_set_bit e a n =
     (if n < 0 then (False, a)
      else
        (let i = nat n div BN_BITS2; j = nat n mod BN_BITS2;
             grown = (if bn_width a \<le> i then
                        map_option (\<lambda>a. a\<lparr>bn_d := blit (bn_d a) (bn_width a) (replicate (i + 1 - bn_width a) 0),
                                          bn_width := i + 1\<rparr>) (bn_wexpand e a (i + 1))
                      else Some a)
         in case grown of
              None \<Rightarrow> (False, a)
            | Some a \<Rightarrow> (True, a\<lparr>bn_d := (bn_d a)[i := bn_d a ! i OR push_bit j 1]\<rparr>)))"

definition BN_clear_bit :: "bignum \<Rightarrow> int \<Rightarrow> bool \<times> bignum" where
  "BN_clear_bit a n =
     (if n < 0 then (False, a)
      else
        (let i = nat n div BN_BITS2; j = nat n mod BN_BITS2
         in if bn_width a \<le> i then (False, a)
            else (True, bn_set_minimal_width (a\<lparr>bn_d := (bn_d a)[i := bn_d a ! i AND NOT (push_bit j 1)]\<rparr>))))"

definition bn_is_bit_set_words :: "limbs \<Rightarrow> nat \<Rightarrow> nat \<Rightarrow> bool" where
  "bn_is_bit_set_words a num b =
     (let i = b div BN_BITS2; j = b mod BN_BITS2
      in if i \<ge> num then False else drop_bit j (a ! i) AND 1 \<noteq> 0)"

definition BN_is_bit_set :: "bignum \<Rightarrow> int \<Rightarrow> bool" where
  "BN_is_bit_set a n = (if n < 0 then False else bn_is_bit_set_words (bn_d a) (bn_width a) (nat n))"

definition BN_mask_bits :: "bignum \<Rightarrow> int \<Rightarrow> bool \<times> bignum" where
  "BN_mask_bits a n =
     (if n < 0 then (False, a)
      else
        (let w = nat n div BN_BITS2; b = nat n mod BN_BITS2
         in if w \<ge> bn_width a then (True, a)
            else (True, bn_set_minimal_width
                    (if b = 0 then a\<lparr>bn_width := w\<rparr>
                     else a\<lparr>bn_width := w + 1, bn_d := (bn_d a)[w := bn_d a ! w AND NOT (push_bit b (- 1))]\<rparr>))))"

text \<open>
  The count of the low zero bits of a word, again by halving: if the low \<open>k\<close> bits are zero,
  count them and go on above them.
\<close>

definition low_zero_step :: "nat \<Rightarrow> nat \<times> limb \<Rightarrow> nat \<times> limb" where
  "low_zero_step k = (\<lambda>(bits, l).
     let mask_w = constant_time_is_zero_w (push_bit (BN_BITS2 - k) l)
     in (bits + unat (of_nat k AND mask_w), constant_time_select_w mask_w (drop_bit k l) l))"

definition bn_count_low_zero_bits_word :: "limb \<Rightarrow> nat" where
  "bn_count_low_zero_bits_word l =
     (let (bits, l) = fold low_zero_step [32, 16, 8, 4, 2] (0, l) in fst (low_zero_step 1 (bits, l)))"

definition BN_count_low_zero_bits :: "bignum \<Rightarrow> nat" where
  "BN_count_low_zero_bits bn =
     unat (fst (fold (\<lambda>i (ret, saw_nonzero).
       let nonzero = NOT (constant_time_is_zero_w (bn_d bn ! i)); first_nonzero = NOT saw_nonzero AND nonzero;
           saw_nonzero = saw_nonzero OR nonzero; bits = bn_count_low_zero_bits_word (bn_d bn ! i)
       in (ret OR (first_nonzero AND of_nat (i * BN_BITS2 + bits)), saw_nonzero))
       [0..<bn_width bn] (0 :: limb, 0)))"

section \<open>Bits of an array\<close>

lemma radix_power: "radix ^ n = 2 ^ (64 * n)"
  by (simp add: radix_def power_mult)

lemma bit_add_high:
  fixes x y :: nat
  assumes "x < 2 ^ n"
  shows "bit (x + 2 ^ n * y) k \<longleftrightarrow> (if k < n then bit x k else bit y (k - n))"
proof -
  have tb: "take_bit n (x + 2 ^ n * y) = x" using assms by (simp add: take_bit_eq_mod)
  have db: "drop_bit n (x + 2 ^ n * y) = y" using assms by (simp add: drop_bit_eq_div)
  show ?thesis
  proof (cases "k < n")
    case True
    then have "bit (x + 2 ^ n * y) k \<longleftrightarrow> bit (take_bit n (x + 2 ^ n * y)) k" by (simp add: bit_take_bit_iff)
    with True tb show ?thesis by simp
  next
    case False
    then have "bit (x + 2 ^ n * y) k \<longleftrightarrow> bit (drop_bit n (x + 2 ^ n * y)) (k - n)" by (simp add: bit_drop_bit_eq)
    with False db show ?thesis by simp
  qed
qed

lemma bit_limb: "bit (unat (x :: limb)) k \<longleftrightarrow> bit x k"
  by (simp add: bit_unsigned_iff)

lemma bit_wval: "bit (wval xs) k \<longleftrightarrow> k div 64 < length xs \<and> bit (xs ! (k div 64)) (k mod 64)"
proof (induction xs arbitrary: k)
  case (Cons x xs)
  have e: "wval (x # xs) = unat x + 2 ^ 64 * wval xs" by (simp add: radix_def)
  have "bit (wval (x # xs)) k \<longleftrightarrow> (if k < 64 then bit x k else bit (wval xs) (k - 64))"
    unfolding e by (subst bit_add_high) (use unat_u64_lt [of x] in \<open>simp_all add: bit_limb\<close>)
  also have "\<dots> \<longleftrightarrow> k div 64 < length (x # xs) \<and> bit ((x # xs) ! (k div 64)) (k mod 64)"
  proof (cases "k < 64")
    case False
    then obtain m where "k = m + 64" using le_Suc_ex by (metis add.commute not_less)
    moreover have "(m + 64) div 64 = Suc (m div 64)" by simp
    ultimately show ?thesis using Cons by (simp only: list.size nth_Cons_Suc if_False False mod_add_self2) simp
  qed simp
  finally show ?case .
qed simp

lemma bit_bn_abs: "bn_ok bn \<Longrightarrow> bit (bn_abs bn) k \<longleftrightarrow> k div 64 < bn_width bn \<and> bit (bn_d bn ! (k div 64)) (k mod 64)"
  using bn_okD(3) [of bn] by (auto simp: bn_abs_def bit_wval)

lemma limb_bit_lt: "bit (x :: limb) k \<Longrightarrow> k < 64"
  by (drule bit_imp_le_length) simp

section \<open>Correctness of the right shifts\<close>

lemma shifted_limb_bit:
  assumes "k < 64" "0 < s" "s < 64"
  shows "bit (drop_bit s (x :: limb) OR push_bit (64 - s) y) k \<longleftrightarrow>
    (if k + s < 64 then bit x (k + s) else bit y (k + s - 64))"
  using assms limb_bit_lt [of x "k + s"] by (auto simp: bit_or_iff bit_drop_bit_eq bit_push_bit_iff add.commute)

lemma bn_rshift_words:
  assumes "n \<le> length a"
  shows "length (bn_rshift_words a s n) = n" "wval (bn_rshift_words a s n) = wval (take n a) div 2 ^ s"
proof -
  define sb sw where "sb = s mod 64" and "sw = s div 64"
  have s: "s = 64 * sw + sb" "sb < 64" by (simp_all add: sb_def sw_def)
  show len: "length (bn_rshift_words a s n) = n"
    using assms by (auto simp: bn_rshift_words_def Let_def)
  show "wval (bn_rshift_words a s n) = wval (take n a) div 2 ^ s"
  proof (cases "n \<le> sw")
    case True
    have "wval (take n a) < radix ^ n" by (rule wval_take_lt)
    also have "radix ^ n \<le> 2 ^ s" using True s by (simp add: radix_power power_increasing)
    finally show ?thesis using True by (simp add: bn_rshift_words_def sw_def BN_BITS2_def)
  next
    case False
    define out where "out = bn_rshift_words a s n"
    have nth: "bit (out ! i) k \<longleftrightarrow> (if k + sb < 64 then i + sw < n \<and> bit (a ! (i + sw)) (k + sb)
        else i + sw + 1 < n \<and> bit (a ! (i + sw + 1)) (k + sb - 64))" if "i < n" "k < 64" for i k
    proof (cases "i + sw < n")
      case high: False
      then have "out ! i = 0" using False that assms
        by (auto simp: out_def bn_rshift_words_def Let_def nth_append BN_BITS2_def simp flip: sb_def sw_def)
      with high show ?thesis by simp
    next
      case low: True
      show ?thesis
      proof (cases "sb = 0")
        case True
        moreover have "i < n - sw" using low by simp
        ultimately have "out ! i = a ! (i + sw)" using False low assms
          by (simp add: out_def bn_rshift_words_def Let_def nth_append BN_BITS2_def add.commute flip: sb_def sw_def)
        with True low that show ?thesis by simp
      next
        case sb: False
        show ?thesis
        proof (cases "i + sw = n - 1")
          case True
          then have "i = n - Suc sw" "n - Suc sw + sw = n - 1" using low by simp_all
          then have "out ! i = drop_bit sb (a ! (i + sw))" using False low sb
            by (simp add: out_def bn_rshift_words_def Let_def nth_append BN_BITS2_def flip: sb_def sw_def)
          with True low that show ?thesis
            using limb_bit_lt [of "a ! (i + sw)" "sb + k"] by (auto simp: bit_drop_bit_eq add.commute)
        next
          case no: False
          moreover have "i < n - Suc sw" using no low by simp
          ultimately have "out ! i = drop_bit sb (a ! (i + sw)) OR push_bit (64 - sb) (a ! (i + sw + 1))" using False low sb
            by (simp add: out_def bn_rshift_words_def Let_def nth_append BN_BITS2_def add.commute flip: sb_def sw_def)
          moreover have "Suc (i + sw) < n" using no low by simp
          ultimately show ?thesis using that sb s(2) low by (simp add: shifted_limb_bit)
        qed
      qed
    qed
    have "wval out = drop_bit s (wval (take n a))"
    proof (rule bit_eqI)
      fix k :: nat
      define i j where "i = k div 64" and "j = k mod 64"
      have k: "k = 64 * i + j" "j < 64" by (simp_all add: i_def j_def)
      have L: "bit (wval out) k \<longleftrightarrow> i < n \<and> bit (out ! i) j" by (simp add: bit_wval len i_def j_def out_def)
      have R: "bit (drop_bit s (wval (take n a))) k \<longleftrightarrow> (s + k) div 64 < n \<and> bit (a ! ((s + k) div 64)) ((s + k) mod 64)"
        using assms by (auto simp: bit_drop_bit_eq bit_wval)
      show "bit (wval out) k \<longleftrightarrow> bit (drop_bit s (wval (take n a))) k"
      proof (cases "j + sb < 64")
        case True
        then have "(s + k) div 64 = i + sw" "(s + k) mod 64 = j + sb"
          using k s by (simp_all add: div_nat_eqI mod_nat_eqI)
        with True nth [of i j] k(2) show ?thesis unfolding L R by auto
      next
        case False
        have e: "s + k = 64 * (i + sw + 1) + (j + sb - 64)" "j + sb - 64 < 64" using k s False by simp_all
        then have "(s + k) div 64 = i + sw + 1" "(s + k) mod 64 = j + sb - 64"
          by (simp_all only: div_mult_self4 mod_mult_self4) simp_all
        with False nth [of i j] k(2) show ?thesis unfolding L R by auto
      qed
    qed
    then show ?thesis by (simp add: out_def drop_bit_eq_div)
  qed
qed

lemma BN_rshift:
  assumes "BN_rshift e r a n = (ok, r')" "bn_ok r" "bn_ok a" "bn_signed a"
  shows "bn_ok r'" "ok \<Longrightarrow> 0 \<le> n \<and> bn_abs r' = bn_abs a div 2 ^ nat n" "ok \<Longrightarrow> bn_signed r' \<and> bn_minimal r'"
    "ok \<Longrightarrow> bn_val r' = sgn (bn_val a) * (\<bar>bn_val a\<bar> div 2 ^ nat n)" "bn_flags r' = bn_flags r" "ok \<Longrightarrow> bn_width r' \<le> bn_width a"
    "heap_generous e \<Longrightarrow> bn_expandable r \<Longrightarrow> 0 \<le> n \<Longrightarrow> ok" "\<not> ok \<Longrightarrow> r' = r" "ok \<Longrightarrow> bn_abs r' \<noteq> 0 \<Longrightarrow> bn_neg r' = bn_neg a"
proof -
  have "bn_ok r' \<and> (ok \<longrightarrow> 0 \<le> n \<and> bn_abs r' = bn_abs a div 2 ^ nat n \<and> bn_signed r' \<and> bn_minimal r' \<and> (bn_abs r' \<noteq> 0 \<longrightarrow> bn_neg r' = bn_neg a)
    \<and> bn_width r' \<le> bn_width a) \<and> bn_flags r' = bn_flags r \<and> (heap_generous e \<longrightarrow> bn_expandable r \<longrightarrow> 0 \<le> n \<longrightarrow> ok)
    \<and> (\<not> ok \<longrightarrow> r' = r)"
  proof (cases "n < 0 \<or> bn_wexpand e r (bn_width a) = None")
    case True
    then have "\<not> ok" "r' = r" using assms(1) by (cases "n < 0"; auto simp: BN_rshift_def)+
    moreover have "bn_width a \<le> bn_max_words" using bn_okD(2,4) [OF assms(3)] by simp
    ultimately show ?thesis using True assms(2) bn_wexpand_fails [of e r "bn_width a"] by (auto dest: leD)
  next
    case False
    then obtain r1 where Some: "bn_wexpand e r (bn_width a) = Some r1" and n: "0 \<le> n" by auto
    note W = bn_wexpand [OF Some assms(2)]
    define ws where "ws = bn_rshift_words (bn_d a) (nat n) (bn_width a)"
    have ws: "length ws = bn_width a" "wval ws = bn_abs a div 2 ^ nat n"
      using bn_rshift_words [OF bn_okD(3) [OF assms(3)]] by (simp_all add: ws_def bn_abs_def)
    define r2 where "r2 = r1\<lparr>bn_d := blit (bn_d r1) 0 ws, bn_width := bn_width a, bn_neg := bn_neg a\<rparr>"
    have r2: "bn_ok r2" "bn_abs r2 = bn_abs a div 2 ^ nat n"
      using bn_written [OF W(1) ws(1) W(2)] ws(2) by (simp_all add: r2_def)
    have "ok" "r' = bn_set_minimal_width r2" using assms(1) Some n by (auto simp: BN_rshift_def ws_def r2_def)
    with bn_set_minimal_width [OF r2(1)] r2(2) n W(6) show ?thesis by (simp add: r2_def)
  qed
  then show "bn_ok r'" "ok \<Longrightarrow> bn_signed r' \<and> bn_minimal r'"
    "bn_flags r' = bn_flags r" "ok \<Longrightarrow> bn_width r' \<le> bn_width a" "heap_generous e \<Longrightarrow> bn_expandable r \<Longrightarrow> 0 \<le> n \<Longrightarrow> ok"
    "\<not> ok \<Longrightarrow> r' = r" and neg: "ok \<Longrightarrow> bn_abs r' \<noteq> 0 \<Longrightarrow> bn_neg r' = bn_neg a"
    and mag: "ok \<Longrightarrow> 0 \<le> n \<and> bn_abs r' = bn_abs a div 2 ^ nat n" by blast+
  show "bn_val r' = sgn (bn_val a) * (\<bar>bn_val a\<bar> div 2 ^ nat n)" if ok
  proof (cases "bn_abs r' = 0")
    case True
    have "int (bn_abs a) div 2 ^ nat n = int (bn_abs a div 2 ^ nat n)" by (simp add: zdiv_int)
    also have "bn_abs a div 2 ^ nat n = 0" using True mag [OF that] by simp
    finally show ?thesis using True by (simp add: bn_val_def)
  next
    case False
    then have "bn_abs a \<noteq> 0" using mag [OF that] by (metis div_0)
    with neg [OF that False] mag [OF that] show ?thesis by (simp add: bn_val_def zdiv_int)
  qed
qed

lemma rshift1_words: "bn_rshift1_words a num = bn_rshift_words a 1 num"
  by (cases "num = 0") (simp_all add: bn_rshift1_words_def bn_rshift_words_def Let_def BN_BITS2_def)

lemma BN_rshift1_eq: "BN_rshift1 e r a = BN_rshift e r a 1"
  by (simp add: BN_rshift1_def BN_rshift_def rshift1_words split: option.split)

section \<open>Correctness of the left shifts\<close>

lemma or_disjoint:
  assumes "2 ^ k dvd unat x" "unat y < 2 ^ k"
  shows "unat (x OR y :: limb) = unat x + unat y"
proof -
  have "x AND y = 0"
  proof (rule bit_word_eqI)
    fix n :: nat
    have "\<not> bit (unat x) n" if "n < k"
    proof -
      obtain m where "unat x = m * 2 ^ k" using assms(1) by (metis dvd_def mult.commute)
      then have "unat x = push_bit k m" by (simp add: push_bit_eq_mult)
      with that show ?thesis by (simp add: bit_push_bit_iff)
    qed
    moreover have "\<not> bit (unat y) n" if "k \<le> n"
    proof -
      have "take_bit k (unat y) = unat y" using assms(2) by (simp add: take_bit_nat_eq_self_iff)
      with that show ?thesis by (metis bit_take_bit_iff not_le)
    qed
    ultimately show "bit (x AND y) n \<longleftrightarrow> bit (0 :: limb) n"
      by (cases "n < k") (simp_all add: bit_and_iff bit_limb not_less)
  qed
  then have "x OR y = x + y" by (simp add: disjunctive_add_eq_or)
  moreover have "unat x + unat y < 2 ^ 64"
  proof (cases "k \<le> 64")
    case True
    obtain m where m: "unat x = 2 ^ k * m" using assms(1) by blast
    have e: "(2 :: nat) ^ 64 = 2 ^ k * 2 ^ (64 - k)" using True by (simp flip: power_add)
    have "2 ^ k * m < 2 ^ k * (2 :: nat) ^ (64 - k)" using unat_u64_lt [of x] by (simp only: m e)
    then have "Suc m \<le> 2 ^ (64 - k)" by simp
    then have "2 ^ k * Suc m \<le> 2 ^ k * (2 :: nat) ^ (64 - k)" by (rule mult_le_mono2)
    then show ?thesis using assms(2) by (simp only: m e) simp
  next
    case False
    then have "(2 :: nat) ^ 64 < 2 ^ k" by (intro power_strict_increasing) simp_all
    then have "unat x = 0" using assms(1) unat_u64_lt [of x] by (meson dvd_imp_le gr0I leD less_trans)
    then show ?thesis using unat_u64_lt [of y] by simp
  qed
  ultimately show ?thesis by (simp add: unat_word_ariths)
qed

lemma double_word_shift:
  assumes "0 < k" "k < 64"
  shows "unat (push_bit k (l :: limb)) + radix * unat (drop_bit (64 - k) l) = 2 ^ k * unat l"
    "2 ^ k dvd unat (push_bit k l)" "unat (drop_bit (64 - k) l) < 2 ^ k"
proof -
  have e: "radix = 2 ^ k * 2 ^ (64 - k)" using assms by (simp add: radix_def flip: power_add)
  have p: "unat (push_bit k l) = (2 ^ k * unat l) mod radix" by (simp add: unat_push_bit radix_def mult.commute)
  also have "\<dots> = 2 ^ k * (unat l mod 2 ^ (64 - k))" unfolding e by (rule mult_mod_right [symmetric])
  finally show "2 ^ k dvd unat (push_bit k l)" by simp
  have "(2 ^ k * unat l) div radix = unat l div 2 ^ (64 - k)" unfolding e by simp
  then have d: "unat (drop_bit (64 - k) l) = (2 ^ k * unat l) div radix" by (simp add: unat_drop_bit)
  show "unat (push_bit k l) + radix * unat (drop_bit (64 - k) l) = 2 ^ k * unat l" unfolding p d by simp
  have "unat l < 2 ^ k * 2 ^ (64 - k)" using limb_lt [of l] by (simp only: e)
  then show "unat (drop_bit (64 - k) l) < 2 ^ k" by (simp add: unat_drop_bit less_mult_imp_div_less mult.commute)
qed

text \<open>
  Going down from the top limb, the part of the array above the cursor holds the shifted part of
  the number above it.
\<close>

lemma lshift_fold:
  assumes "0 < lb" "lb < 64" "n \<le> length f" "nw + n < length t" "t ! (nw + n) = 0"
  shows "let t' = fold (lshift_step f nw lb) (rev [0..<n]) t
    in length t' = length t \<and> wval (take (n + 1) (drop nw t')) = 2 ^ lb * wval (take n f) \<and> drop (nw + n + 1) t' = drop (nw + n + 1) t"
proof -
  define S where "S = (\<lambda>j t'. length t' = length t \<and> drop (nw + n + 1) t' = drop (nw + n + 1) t \<and>
    wval (take (n - j + 1) (drop (nw + j) t')) = 2 ^ lb * wval (drop j (take n f)))"
  have "S j (fold (lshift_step f nw lb) (rev [j..<n]) t)" if "j \<le> n" for j
    using that
  proof (induction "n - j" arbitrary: j)
    case 0
    then have "j = n" by simp
    moreover have "take 1 (drop (nw + n) t) = [t ! (nw + n)]"
      using assms(4) by (simp add: take_Suc_conv_app_nth)
    ultimately show ?case using assms(5) by (simp add: S_def)
  next
    case (Suc m)
    define T where "T = fold (lshift_step f nw lb) (rev [Suc j..<n]) t"
    have j: "j < n" "n - j = Suc m" "n - Suc j = m" using Suc by simp_all
    have "S (Suc j) T" unfolding T_def using Suc.hyps(1) [of "Suc j"] j by simp
    then have T: "length T = length t" "drop (nw + n + 1) T = drop (nw + n + 1) t"
      "wval (take (m + 1) (drop (nw + Suc j) T)) = 2 ^ lb * wval (drop (Suc j) (take n f))"
      using j by (simp_all add: S_def)
    have "rev [j..<n] = rev [Suc j..<n] @ [j]" using j by (simp add: upt_conv_Cons)
    then have fold: "fold (lshift_step f nw lb) (rev [j..<n]) t = lshift_step f nw lb j T" by (simp add: T_def)
    define l where "l = f ! j"
    obtain x xs where X: "drop (nw + Suc j) T = x # xs" using T(1) assms(4) j by (cases "drop (nw + Suc j) T") auto
    have Tn: "drop (nw + j) (lshift_step f nw lb j T) = push_bit lb l # (x OR drop_bit (64 - lb) l) # xs"
    proof -
      have "lshift_step f nw lb j T = take (nw + j) T @ push_bit lb l # (x OR drop_bit (64 - lb) l) # xs"
      proof -
        have "T = take (nw + j) T @ T ! (nw + j) # x # xs"
          using id_take_nth_drop [of "nw + j" T] X T(1) assms(4) j by simp
        moreover have "length (take (nw + j) T) = nw + j" using T(1) assms(4) j by simp
        ultimately obtain us y where T': "T = us @ y # x # xs" "length us = nw + j" by metis
        have "lshift_step f nw lb j T = us @ push_bit lb l # (x OR drop_bit (64 - lb) l) # xs"
          using T'(2) by (simp add: T'(1) lshift_step_def Let_def l_def BN_BITS2_def nth_append list_update_append)
        with T' show ?thesis by simp
      qed
      then show ?thesis using T(1) assms(4) j by simp
    qed
    have xv: "unat x + radix * wval (take m xs) = 2 ^ lb * wval (drop (Suc j) (take n f))" using T(3) X by simp
    note dw = double_word_shift [OF assms(1,2), of l]
    have "2 ^ lb dvd unat x"
    proof -
      have "2 ^ lb dvd radix" unfolding radix_def by (rule le_imp_power_dvd) (use assms(2) in simp)
      then show ?thesis using xv by (metis dvd_add_left_iff dvd_mult2 dvd_triv_left)
    qed
    then have or: "unat (x OR drop_bit (64 - lb) l) = unat x + unat (drop_bit (64 - lb) l)"
      using dw(3) by (rule or_disjoint)
    have dj: "drop j (take n f) = l # drop (Suc j) (take n f)"
      using j assms(3) by (subst Cons_nth_drop_Suc [symmetric]) (simp_all add: l_def)
    have "wval (take (n - j + 1) (drop (nw + j) (lshift_step f nw lb j T)))
        = unat (push_bit lb l) + radix * (unat x + unat (drop_bit (64 - lb) l) + radix * wval (take m xs))"
      by (simp add: Tn j or)
    also have "\<dots> = (unat (push_bit lb l) + radix * unat (drop_bit (64 - lb) l)) + radix * (unat x + radix * wval (take m xs))"
      by (simp add: algebra_simps)
    also have "\<dots> = 2 ^ lb * wval (drop j (take n f))"
      unfolding dw(1) xv dj by (simp add: algebra_simps)
    finally have "wval (take (n - j + 1) (drop (nw + j) (lshift_step f nw lb j T))) = 2 ^ lb * wval (drop j (take n f))" .
    moreover have "drop (nw + n + 1) (lshift_step f nw lb j T) = drop (nw + n + 1) t"
      using T(2) j by (simp add: lshift_step_def Let_def)
    moreover have "length (lshift_step f nw lb j T) = length t" using T(1) by (simp add: lshift_step_def Let_def)
    ultimately show ?case unfolding fold by (simp add: S_def)
  qed
  from this [of 0] show ?thesis by (simp add: S_def Let_def)
qed

lemma copy_fold:
  assumes "n \<le> length f" "nw + n < length t"
  shows "fold (\<lambda>i t. t[nw + i := f ! i]) (rev [0..<n]) t = blit t nw (take n f)"
proof -
  have "fold (\<lambda>i t. t[nw + i := f ! i]) (rev [j..<n]) t = blit t (nw + j) (drop j (take n f))" if "j \<le> n" for j
    using that
  proof (induction "n - j" arbitrary: j)
    case 0
    then show ?case by (simp add: blit_def)
  next
    case (Suc m)
    then have j: "j < n" by simp
    have IH: "fold (\<lambda>i t. t[nw + i := f ! i]) (rev [Suc j..<n]) t = blit t (nw + Suc j) (drop (Suc j) (take n f))"
      using Suc by simp
    have "rev [j..<n] = rev [Suc j..<n] @ [j]" using j by (simp add: upt_conv_Cons)
    then have "fold (\<lambda>i t. t[nw + i := f ! i]) (rev [j..<n]) t = (blit t (nw + Suc j) (drop (Suc j) (take n f)))[nw + j := f ! j]"
      using IH by simp
    also have "\<dots> = blit t (nw + j) (drop j (take n f))"
    proof -
      have dj: "drop j (take n f) = f ! j # drop (Suc j) (take n f)"
        using j assms(1) by (subst Cons_nth_drop_Suc [symmetric]) simp_all
      have "take (nw + Suc j) t = take (nw + j) t @ [t ! (nw + j)]"
        using j assms(2) by (simp add: take_Suc_conv_app_nth)
      then show ?thesis using j assms by (simp add: blit_def dj list_update_append)
    qed
    finally show ?case .
  qed
  from this [of 0] show ?thesis by simp
qed

lemma BN_lshift:
  assumes "BN_lshift e r a n = (ok, r')" "bn_ok r" "bn_ok a"
  shows "bn_ok r'" "ok \<Longrightarrow> 0 \<le> n \<and> bn_abs r' = 2 ^ nat n * bn_abs a" "ok \<Longrightarrow> bn_signed r' \<and> bn_minimal r'"
    "ok \<Longrightarrow> bn_val r' = bn_val a * 2 ^ nat n" "bn_flags r' = bn_flags r" "ok \<Longrightarrow> bn_width r' \<le> bn_width a + nat n div 64 + 1"
    "heap_generous e \<Longrightarrow> bn_expandable r \<Longrightarrow> 0 \<le> n \<Longrightarrow> bn_width a + nat n div 64 < bn_max_words \<Longrightarrow> ok"
    "ok \<Longrightarrow> bn_abs r' \<noteq> 0 \<Longrightarrow> bn_neg r' = bn_neg a"
proof -
  define r1 nw lb where "r1 = r\<lparr>bn_neg := bn_neg a\<rparr>" and "nw = nat n div 64" and "lb = nat n mod 64"
  have r1: "bn_ok r1" "bn_flags r1 = bn_flags r" "bn_neg r1 = bn_neg a" using assms(2) by (simp_all add: r1_def bn_neg_update)
  have x: "bn_expandable r1 = bn_expandable r" by (simp add: r1_def bn_neg_update)
  have "bn_ok r' \<and> (ok \<longrightarrow> 0 \<le> n \<and> bn_abs r' = 2 ^ nat n * bn_abs a \<and> bn_signed r' \<and> bn_minimal r' \<and> (bn_abs r' \<noteq> 0 \<longrightarrow> bn_neg r' = bn_neg a)
    \<and> bn_width r' \<le> bn_width a + nw + 1) \<and> bn_flags r' = bn_flags r \<and>
    (heap_generous e \<longrightarrow> bn_expandable r \<longrightarrow> 0 \<le> n \<longrightarrow> bn_width a + nw < bn_max_words \<longrightarrow> ok)"
  proof (cases "n < 0")
    case True
    then show ?thesis using assms(1,2) by (simp add: BN_lshift_def)
  next
    case n: False
    show ?thesis
    proof (cases "bn_wexpand e r1 (bn_width a + nw + 1)")
      case None
      then have "\<not> ok" "r' = r1" using assms(1) n by (auto simp: BN_lshift_def r1_def nw_def BN_BITS2_def Let_def)
      then show ?thesis using r1 bn_wexpand_fails [OF None] x by auto
    next
      case (Some r2)
      note W = bn_wexpand [OF Some r1(1)]
      define t0 where "t0 = (bn_d r2)[bn_width a + nw := 0]"
      define t1 where "t1 = (if lb = 0 then fold (\<lambda>i t. t[nw + i := bn_d a ! i]) (rev [0..<bn_width a]) t0
          else fold (lshift_step (bn_d a) nw lb) (rev [0..<bn_width a]) t0)"
      define r3 where "r3 = r2\<lparr>bn_d := blit t1 0 (replicate nw 0), bn_width := bn_width a + nw + 1\<rparr>"
      have res: "ok" "r' = bn_set_minimal_width r3"
        using assms(1) n Some by (auto simp: BN_lshift_def r1_def nw_def lb_def BN_BITS2_def Let_def t0_def t1_def r3_def)
      have t0: "nw + bn_width a < length t0" "t0 ! (nw + bn_width a) = 0" "length t0 = length (bn_d r2)"
        using W(3) by (simp_all add: t0_def add.commute)
      have wa: "bn_width a \<le> length (bn_d a)" by (rule bn_okD [OF assms(3)])
      have t1: "length t1 = length t0" "wval (take (bn_width a + 1) (drop nw t1)) = 2 ^ lb * bn_abs a"
      proof -
        have "length t1 = length t0 \<and> wval (take (bn_width a + 1) (drop nw t1)) = 2 ^ lb * bn_abs a"
        proof (cases "lb = 0")
          case True
          have "t1 = blit t0 nw (take (bn_width a) (bn_d a))" using True copy_fold [OF wa t0(1)] by (simp add: t1_def)
          moreover have "take 1 (drop (nw + bn_width a) t0) = [0]" using t0 by (simp add: take_Suc_conv_app_nth)
          ultimately show ?thesis using True t0(1) wa by (simp add: blit_def bn_abs_def wval_append Suc_diff_le)
        next
          case False
          moreover have "lb < 64" by (simp add: lb_def)
          ultimately show ?thesis using lshift_fold [of lb "bn_width a" "bn_d a" nw t0] wa t0 by (simp add: t1_def bn_abs_def Let_def)
        qed
        then show "length t1 = length t0" "wval (take (bn_width a + 1) (drop nw t1)) = 2 ^ lb * bn_abs a" by blast+
      qed
      have "take (bn_width a + nw + 1) (blit t1 0 (replicate nw 0)) = replicate nw 0 @ take (bn_width a + 1) (drop nw t1)"
        using t1(1) t0(1) by (simp add: blit_def)
      then have "bn_abs r3 = radix ^ nw * (2 ^ lb * bn_abs a)" using t1(2) by (simp add: r3_def bn_abs_def wval_append)
      also have "\<dots> = 2 ^ (64 * nw + lb) * bn_abs a" by (simp add: radix_power power_add)
      also have "64 * nw + lb = nat n" by (simp add: nw_def lb_def)
      finally have r3: "bn_abs r3 = 2 ^ nat n * bn_abs a" .
      have ok3: "bn_ok r3" using W(1,2) t1(1) t0(1,3) by (simp add: r3_def bn_ok_def blit_def)
      from bn_set_minimal_width [OF ok3] res r3 n W(5,6) r1(2,3) show ?thesis by (simp add: r3_def)
    qed
  qed
  then show "bn_ok r'" "ok \<Longrightarrow> bn_signed r' \<and> bn_minimal r'"
    "bn_flags r' = bn_flags r" "ok \<Longrightarrow> bn_width r' \<le> bn_width a + nat n div 64 + 1"
    "heap_generous e \<Longrightarrow> bn_expandable r \<Longrightarrow> 0 \<le> n \<Longrightarrow> bn_width a + nat n div 64 < bn_max_words \<Longrightarrow> ok"
    and mag: "ok \<Longrightarrow> 0 \<le> n \<and> bn_abs r' = 2 ^ nat n * bn_abs a" and neg: "ok \<Longrightarrow> bn_abs r' \<noteq> 0 \<Longrightarrow> bn_neg r' = bn_neg a"
    unfolding nw_def by blast+
  show "bn_val r' = bn_val a * 2 ^ nat n" if ok
    using mag [OF that] neg [OF that] by (cases "bn_abs a = 0") (simp_all add: bn_val_def)
qed

lemma lshift1_fold:
  assumes "fold (\<lambda>i (out, c). let t = a ! i in (out @ [push_bit 1 t OR c], drop_bit 63 t)) [0..<n] ([], 0) = (out, c)" "n \<le> length a"
  shows "length out = n \<and> wval out + radix ^ n * unat c = 2 * wval (take n a) \<and> unat c \<le> 1"
  using assms
proof (induction n arbitrary: out c)
  case (Suc n)
  obtain o1 c1 where 1: "fold (\<lambda>i (out, c). let t = a ! i in (out @ [push_bit 1 t OR c], drop_bit 63 t)) [0..<n] ([], 0) = (o1, c1)"
    by fastforce
  have IH: "length o1 = n" "wval o1 + radix ^ n * unat c1 = 2 * wval (take n a)" "unat c1 \<le> 1"
    using Suc.IH [OF 1] Suc.prems(2) by simp_all
  define t where "t = a ! n"
  have oc: "out = o1 @ [push_bit 1 t OR c1]" "c = drop_bit 63 t"
    using Suc.prems(1) 1 by (simp_all add: t_def Let_def)
  have dw: "unat (push_bit 1 t) + radix * unat (drop_bit 63 t) = 2 * unat t" "2 ^ 1 dvd unat (push_bit 1 t)"
    "unat (drop_bit 63 t) < 2"
    using double_word_shift [of 1 t] by simp_all
  have "unat (push_bit 1 t OR c1) = unat (push_bit 1 t) + unat c1"
    by (rule or_disjoint [OF dw(2)]) (use IH(3) in simp)
  then have "wval out + radix ^ Suc n * unat c = wval o1 + radix ^ n * unat c1 + radix ^ n * (unat (push_bit 1 t) + radix * unat (drop_bit 63 t))"
    using IH(1) by (simp add: oc wval_snoc algebra_simps)
  also have "\<dots> = 2 * wval (take (Suc n) a)" using IH(2) Suc.prems(2) dw(1) by (simp add: wval_take_Suc t_def)
  finally show ?case using IH(1) dw(3) by (simp add: oc)
qed simp

lemma BN_lshift1:
  assumes "BN_lshift1 e r a = (ok, r')" "bn_ok r" "bn_ok a"
  shows "bn_ok r'" "ok \<Longrightarrow> bn_val r' = 2 * bn_val a" "ok \<Longrightarrow> bn_abs r' = 2 * bn_abs a" "bn_neg r' = bn_neg a" "bn_flags r' = bn_flags r"
    "ok \<Longrightarrow> bn_width r' \<le> bn_width a + 1"
    "heap_generous e \<Longrightarrow> bn_expandable r \<Longrightarrow> bn_width a < bn_max_words \<Longrightarrow> ok"
proof -
  define r1 where "r1 = r\<lparr>bn_neg := bn_neg a\<rparr>"
  have r1: "bn_ok r1" "bn_flags r1 = bn_flags r" "bn_neg r1 = bn_neg a" "bn_expandable r1 = bn_expandable r"
    using assms(2) by (simp_all add: r1_def bn_neg_update)
  have "bn_ok r' \<and> (ok \<longrightarrow> bn_abs r' = 2 * bn_abs a \<and> bn_width r' \<le> bn_width a + 1) \<and> bn_neg r' = bn_neg a \<and> bn_flags r' = bn_flags r \<and>
    (heap_generous e \<longrightarrow> bn_expandable r \<longrightarrow> bn_width a < bn_max_words \<longrightarrow> ok)"
  proof (cases "bn_wexpand e r1 (bn_width a + 1)")
    case None
    then have "\<not> ok" "r' = r1" using assms(1) by (auto simp: BN_lshift1_def r1_def Let_def)
    then show ?thesis using r1 bn_wexpand_fails [OF None] by auto
  next
    case (Some r2)
    note W = bn_wexpand [OF Some r1(1)]
    obtain out c where f: "fold (\<lambda>i (out, c). let t = bn_d a ! i in (out @ [push_bit 1 t OR c], drop_bit 63 t))
        [0..<bn_width a] ([], 0) = (out, c)" by fastforce
    have wa: "bn_width a \<le> length (bn_d a)" by (rule bn_okD [OF assms(3)])
    note F = lshift1_fold [OF f wa]
    define r3 where "r3 = r2\<lparr>bn_d := blit (bn_d r2) 0 out, bn_width := bn_width a\<rparr>"
    have res: "ok" "r' = (if c \<noteq> 0 then r3\<lparr>bn_d := (bn_d r3)[bn_width a := 1], bn_width := bn_width r3 + 1\<rparr> else r3)"
      using assms(1) Some f by (auto simp: BN_lshift1_def r1_def Let_def BN_BITS2_def r3_def)
    have r3: "bn_ok r3" "bn_abs r3 = wval out"
      using bn_written [OF W(1), of out "bn_width a" "bn_neg r2"] F W(2) by (simp_all add: r3_def)
    have "bn_ok r' \<and> bn_abs r' = 2 * bn_abs a \<and> bn_width r' \<le> bn_width a + 1"
    proof (cases "c = 0")
      case True
      then show ?thesis using F r3 by (simp add: res bn_abs_def) (simp add: r3_def)
    next
      case False
      then have c: "unat c = 1" using F by (simp add: unat_gt_0 le_Suc_eq unat_eq_zero)
      have len: "bn_width a < length (bn_d r3)" using W(3) F by (simp add: r3_def)
      have w3: "bn_width r3 = bn_width a" by (simp add: r3_def)
      have "take (Suc (bn_width a)) ((bn_d r3)[bn_width a := 1]) = take (bn_width a) (bn_d r3) @ [1]"
        using len by (simp add: take_Suc_conv_app_nth)
      then have "bn_abs r' = wval out + radix ^ bn_width a"
        using False len r3(2) w3 by (simp add: res bn_abs_def wval_snoc)
      moreover have "bn_ok r'" using False r3(1) len by (simp add: res bn_ok_def) (simp add: r3_def)
      ultimately show ?thesis using F c False by (simp add: bn_abs_def res) (simp add: r3_def)
    qed
    moreover have "bn_neg r' = bn_neg a" "bn_flags r' = bn_flags r" using W(5,6) r1 by (simp_all add: res r3_def)
    ultimately show ?thesis using res(1) by simp
  qed
  then show "bn_ok r'" "ok \<Longrightarrow> bn_abs r' = 2 * bn_abs a" "bn_neg r' = bn_neg a" "bn_flags r' = bn_flags r"
    "ok \<Longrightarrow> bn_width r' \<le> bn_width a + 1"
    "heap_generous e \<Longrightarrow> bn_expandable r \<Longrightarrow> bn_width a < bn_max_words \<Longrightarrow> ok"
    and "ok \<Longrightarrow> bn_val r' = 2 * bn_val a" by (auto simp: bn_val_def)
qed

section \<open>Correctness of the shift by a secret amount\<close>

lemma odd_mask: "0 - ((of_nat k :: limb) AND 1) = mask_of (odd k)"
proof -
  have "(of_nat k :: limb) AND 1 = of_bool (odd (of_nat k :: limb))" by (simp add: and_one_eq mod_2_eq_odd)
  also have "odd (of_nat k :: limb) \<longleftrightarrow> odd k" by simp
  finally show ?thesis by simp
qed

lemma secret_shift_loop:
  assumes "width \<le> length d"
  shows "length (secret_shift_loop width n i m d) = length d \<and>
    wval (take width (secret_shift_loop width n i m d)) =
      wval (take width d) div 2 ^ (2 ^ i * (n div 2 ^ i mod 2 ^ bit_len m))"
  using assms
proof (induction width n i m d rule: secret_shift_loop.induct)
  case (1 width n i m d)
  show ?case
  proof (cases "m = 0")
    case True
    then show ?thesis by (simp add: secret_shift_loop.simps)
  next
    case False
    define mask_w tmp where "mask_w = 0 - ((of_nat (n div 2 ^ i) :: limb) AND 1)" and "tmp = bn_rshift_words d (2 ^ i) width"
    define d1 where "d1 = blit d 0 (bn_select_words mask_w tmp d width)"
    define b where "b = n div 2 ^ i mod 2"
    have tmp: "length tmp = width" "wval tmp = wval (take width d) div 2 ^ (2 ^ i)"
      using bn_rshift_words [OF 1(2), of "2 ^ i"] by (simp_all add: tmp_def)
    have "bn_select_words mask_w tmp d width = take width (if odd (n div 2 ^ i) then tmp else d)"
      unfolding mask_w_def odd_mask by (rule bn_select_words) (use tmp 1(2) in simp_all)
    then have d1: "length d1 = length d" "wval (take width d1) = wval (take width d) div 2 ^ (2 ^ i * b)"
      using tmp 1(2) by (auto simp: d1_def blit_def b_def mod_2_eq_odd)
    have step: "secret_shift_loop width n i m d = secret_shift_loop width n (i + 1) (m div 2) d1"
      using False by (subst secret_shift_loop.simps) (simp add: Let_def mask_w_def tmp_def d1_def)
    have IH: "length (secret_shift_loop width n (i + 1) (m div 2) d1) = length d1 \<and>
        wval (take width (secret_shift_loop width n (i + 1) (m div 2) d1)) =
          wval (take width d1) div 2 ^ (2 ^ (i + 1) * (n div 2 ^ (i + 1) mod 2 ^ bit_len (m div 2)))"
      unfolding d1_def by (rule 1(1) [OF False mask_w_def tmp_def]) (use 1(2) d1(1) in \<open>simp add: d1_def\<close>)
    have ex: "2 ^ i * b + 2 ^ (i + 1) * (n div 2 ^ (i + 1) mod 2 ^ bit_len (m div 2)) = 2 ^ i * (n div 2 ^ i mod 2 ^ bit_len m)"
    proof -
      have "n div 2 ^ i mod 2 ^ bit_len m = n div 2 ^ i mod (2 * 2 ^ bit_len (m div 2))"
        using False by (simp add: bit_len.simps [of m])
      also have "\<dots> = 2 * (n div 2 ^ i div 2 mod 2 ^ bit_len (m div 2)) + b" by (simp add: mod_mult2_eq b_def)
      also have "n div 2 ^ i div 2 = n div 2 ^ (i + 1)" by (simp only: power_add power_one_right div_mult2_eq)
      finally show ?thesis by (simp add: algebra_simps)
    qed
    show ?thesis
      using IH d1 by (simp add: step flip: ex) (simp add: power_add div_mult2_eq)
  qed
qed

lemma bn_rshift_secret_shift:
  assumes "bn_rshift_secret_shift e r a n ctx = (ok, r')" "bn_ok r" "bn_ok a"
  shows "bn_ok r'" "ok \<Longrightarrow> bn_abs r' = bn_abs a div 2 ^ (n mod 2 ^ bit_len (64 * bn_width a))"
    "ok \<Longrightarrow> bn_width r' = bn_width a" "ok \<Longrightarrow> bn_neg r' = bn_neg a" "bn_flags r' = bn_flags r"
    "ok \<longleftrightarrow> (\<exists>tmp. BN_CTX_get ctx 0 = Some tmp \<and> fst (BN_copy e r a) \<and> bn_wexpand e tmp (bn_width a) \<noteq> None)"
proof -
  obtain ok1 r1 where c: "BN_copy e r a = (ok1, r1)" by fastforce
  note C = BN_copy [OF c assms(2,3)]
  have w: "bn_width r1 \<le> length (bn_d r1)" by (rule bn_okD [OF C(3)])
  note L = secret_shift_loop [OF w, of n 0 "BN_BITS2 * bn_width r1"]
  have "ok = (\<exists>tmp. BN_CTX_get ctx 0 = Some tmp \<and> ok1 \<and> bn_wexpand e tmp (bn_width a) \<noteq> None)
    \<and> bn_ok r' \<and> (ok \<longrightarrow> bn_abs r' = bn_abs a div 2 ^ (n mod 2 ^ bit_len (64 * bn_width a)) \<and> bn_width r' = bn_width a
    \<and> bn_neg r' = bn_neg a) \<and> bn_flags r' = bn_flags r"
    using assms(1,2) c C L
    by (auto simp: bn_rshift_secret_shift_def bn_ok_def bn_abs_def BN_BITS2_def split: option.splits if_splits)
  then show "bn_ok r'" "ok \<Longrightarrow> bn_abs r' = bn_abs a div 2 ^ (n mod 2 ^ bit_len (64 * bn_width a))"
    "ok \<Longrightarrow> bn_width r' = bn_width a" "ok \<Longrightarrow> bn_neg r' = bn_neg a" "bn_flags r' = bn_flags r"
    "ok \<longleftrightarrow> (\<exists>tmp. BN_CTX_get ctx 0 = Some tmp \<and> fst (BN_copy e r a) \<and> bn_wexpand e tmp (bn_width a) \<noteq> None)"
    by (simp_all add: c)
qed

section \<open>Correctness of the bit operations\<close>

lemma BN_is_bit_set: "bn_ok a \<Longrightarrow> BN_is_bit_set a n \<longleftrightarrow> 0 \<le> n \<and> bit (bn_abs a) (nat n)"
proof -
  assume ok: "bn_ok a"
  have "drop_bit j x AND 1 \<noteq> 0 \<longleftrightarrow> bit x j" for x :: limb and j
    by (simp add: and_one_eq mod_2_eq_odd flip: bit_iff_odd_drop_bit)
  then show ?thesis by (auto simp: BN_is_bit_set_def bn_is_bit_set_words_def Let_def BN_BITS2_def bit_bn_abs [OF ok])
qed

lemma limb_set_bit: "j < 64 \<Longrightarrow> bit (x OR 2 ^ j :: limb) k \<longleftrightarrow> bit x k \<or> k = j"
  "j < 64 \<Longrightarrow> bit (x AND NOT (2 ^ j) :: limb) k \<longleftrightarrow> bit x k \<and> k \<noteq> j"
  "bit (x AND mask j :: limb) k \<longleftrightarrow> bit x k \<and> k < j"
  using limb_bit_lt [of x k] by (auto simp: bit_or_iff bit_and_iff bit_not_iff bit_exp_iff bit_mask_iff)

lemma grow_to:
  assumes "bn_wexpand e a (i + 1) = Some a'" "bn_ok a" "bn_width a \<le> i"
  shows "bn_ok (a'\<lparr>bn_d := blit (bn_d a') (bn_width a') (replicate (i + 1 - bn_width a') 0), bn_width := i + 1\<rparr>)"
    "bn_abs (a'\<lparr>bn_d := blit (bn_d a') (bn_width a') (replicate (i + 1 - bn_width a') 0), bn_width := i + 1\<rparr>) = bn_abs a"
proof -
  note W = bn_wexpand [OF assms(1,2)]
  have "take (i + 1) (blit (bn_d a') (bn_width a') (replicate (i + 1 - bn_width a') 0)) = take (bn_width a) (bn_d a) @ replicate (i + 1 - bn_width a) 0"
    using W assms(3) bn_okD(3) [OF assms(2)] by (simp add: blit_def)
  then show "bn_abs (a'\<lparr>bn_d := blit (bn_d a') (bn_width a') (replicate (i + 1 - bn_width a') 0), bn_width := i + 1\<rparr>) = bn_abs a"
    by (simp add: bn_abs_def wval_append)
  show "bn_ok (a'\<lparr>bn_d := blit (bn_d a') (bn_width a') (replicate (i + 1 - bn_width a') 0), bn_width := i + 1\<rparr>)"
    using W(1-4) assms(3) by (simp add: bn_ok_def)
qed

lemma BN_set_bit:
  assumes "BN_set_bit e a n = (ok, r)" "bn_ok a"
  shows "bn_ok r" "ok \<Longrightarrow> 0 \<le> n \<and> bn_abs r = set_bit (nat n) (bn_abs a)" "bn_neg r = bn_neg a" "bn_flags r = bn_flags a"
    "\<not> ok \<Longrightarrow> r = a" "heap_generous e \<Longrightarrow> bn_expandable a \<Longrightarrow> 0 \<le> n \<Longrightarrow> nat n div 64 < bn_max_words \<Longrightarrow> ok"
    "ok \<Longrightarrow> bn_width r = max (bn_width a) (nat n div 64 + 1)"
proof -
  define i j where "i = nat n div 64" and "j = nat n mod 64"
  have "bn_ok r \<and> (ok \<longrightarrow> 0 \<le> n \<and> bn_abs r = set_bit (nat n) (bn_abs a) \<and> bn_width r = max (bn_width a) (i + 1)) \<and> bn_neg r = bn_neg a \<and> bn_flags r = bn_flags a \<and>
    (\<not> ok \<longrightarrow> r = a) \<and> (heap_generous e \<longrightarrow> bn_expandable a \<longrightarrow> 0 \<le> n \<longrightarrow> i < bn_max_words \<longrightarrow> ok)"
  proof (cases "n < 0 \<or> (bn_width a \<le> i \<and> bn_wexpand e a (i + 1) = None)")
    case True
    then have "\<not> ok" "r = a" using assms(1) by (cases "n < 0"; auto simp: BN_set_bit_def Let_def i_def BN_BITS2_def)+
    then show ?thesis using True assms(2) bn_wexpand_fails [of e a "i + 1"] by auto
  next
    case False
    define g where "g = (if bn_width a \<le> i then (case the (bn_wexpand e a (i + 1)) of a' \<Rightarrow>
        a'\<lparr>bn_d := blit (bn_d a') (bn_width a') (replicate (i + 1 - bn_width a') 0), bn_width := i + 1\<rparr>) else a)"
    have g: "bn_ok g" "bn_abs g = bn_abs a" "i < bn_width g" "bn_neg g = bn_neg a" "bn_flags g = bn_flags a"
      "bn_width g = max (bn_width a) (i + 1)"
    proof -
      have "bn_ok g \<and> bn_abs g = bn_abs a \<and> i < bn_width g \<and> bn_neg g = bn_neg a \<and> bn_flags g = bn_flags a \<and>
        bn_width g = max (bn_width a) (i + 1)"
      proof (cases "bn_width a \<le> i")
        case True
        then obtain a' where a': "bn_wexpand e a (i + 1) = Some a'" using False by auto
        show ?thesis using grow_to [OF a' assms(2) True] bn_wexpand(5,6) [OF a' assms(2)] True a' by (simp add: g_def)
      qed (use assms(2) in \<open>simp add: g_def max_def\<close>)
      then show "bn_ok g" "bn_abs g = bn_abs a" "i < bn_width g" "bn_neg g = bn_neg a" "bn_flags g = bn_flags a"
        "bn_width g = max (bn_width a) (i + 1)" by blast+
    qed
    have res: "ok" "r = g\<lparr>bn_d := (bn_d g)[i := bn_d g ! i OR push_bit j 1]\<rparr>"
      using assms(1) False by (auto simp: BN_set_bit_def Let_def i_def j_def BN_BITS2_def g_def split: option.splits if_splits)
    have okr: "bn_ok r" using g(1) by (simp add: res bn_ok_def)
    have "bn_abs r = set_bit (nat n) (bn_abs a)"
    proof (rule bit_eqI)
      fix k :: nat
      have il: "i < length (bn_d g)" using g(1,3) bn_okD(3) by fastforce
      have "bit (bn_abs r) k \<longleftrightarrow> k div 64 < bn_width g \<and> (bit (bn_d g ! (k div 64)) (k mod 64) \<or> (k div 64 = i \<and> k mod 64 = j))"
        unfolding bit_bn_abs [OF okr] using il
        by (simp add: res nth_list_update limb_set_bit j_def)
      also have "\<dots> \<longleftrightarrow> bit (bn_abs g) k \<or> k = nat n"
        using g(3) by (auto simp: bit_bn_abs [OF g(1)] i_def j_def) (metis mult_div_mod_eq)
      finally show "bit (bn_abs r) k \<longleftrightarrow> bit (set_bit (nat n) (bn_abs a)) k" by (auto simp: bit_set_bit_iff g(2))
    qed
    then show ?thesis using res(1) okr False g by (simp add: res(2))
  qed
  then show "bn_ok r" "ok \<Longrightarrow> 0 \<le> n \<and> bn_abs r = set_bit (nat n) (bn_abs a)" "bn_neg r = bn_neg a" "bn_flags r = bn_flags a"
    "\<not> ok \<Longrightarrow> r = a" "heap_generous e \<Longrightarrow> bn_expandable a \<Longrightarrow> 0 \<le> n \<Longrightarrow> nat n div 64 < bn_max_words \<Longrightarrow> ok"
    "ok \<Longrightarrow> bn_width r = max (bn_width a) (nat n div 64 + 1)"
    unfolding i_def by blast+
qed

lemma BN_clear_bit:
  assumes "BN_clear_bit a n = (ok, r)" "bn_ok a"
  shows "bn_ok r" "ok \<Longrightarrow> 0 \<le> n \<and> bn_abs r = unset_bit (nat n) (bn_abs a) \<and> bn_signed r" "\<not> ok \<Longrightarrow> r = a"
    "ok \<longleftrightarrow> 0 \<le> n \<and> nat n < 64 * bn_width a" "bn_flags r = bn_flags a" "ok \<Longrightarrow> bn_abs r \<noteq> 0 \<Longrightarrow> bn_neg r = bn_neg a"
proof -
  define i j where "i = nat n div 64" and "j = nat n mod 64"
  have iff: "bn_width a \<le> i \<longleftrightarrow> \<not> nat n < 64 * bn_width a" by (auto simp: i_def)
  have "bn_ok r \<and> (ok \<longrightarrow> 0 \<le> n \<and> bn_abs r = unset_bit (nat n) (bn_abs a) \<and> bn_signed r \<and> (bn_abs r \<noteq> 0 \<longrightarrow> bn_neg r = bn_neg a)) \<and> (\<not> ok \<longrightarrow> r = a) \<and>
    (ok \<longleftrightarrow> 0 \<le> n \<and> nat n < 64 * bn_width a) \<and> bn_flags r = bn_flags a"
  proof (cases "n < 0 \<or> bn_width a \<le> i")
    case True
    then have "\<not> ok" "r = a" using assms(1) by (cases "n < 0"; auto simp: BN_clear_bit_def Let_def i_def BN_BITS2_def)+
    then show ?thesis using True assms(2) iff by auto
  next
    case False
    define g where "g = a\<lparr>bn_d := (bn_d a)[i := bn_d a ! i AND NOT (push_bit j 1)]\<rparr>"
    have okg: "bn_ok g" using assms(2) by (simp add: g_def bn_ok_def)
    have res: "ok" "r = bn_set_minimal_width g"
      using assms(1) False by (auto simp: BN_clear_bit_def Let_def i_def j_def BN_BITS2_def g_def)
    have "bn_abs g = unset_bit (nat n) (bn_abs a)"
    proof (rule bit_eqI)
      fix k :: nat
      have il: "i < length (bn_d a)" using False bn_okD(3) [OF assms(2)] by simp
      have "bit (bn_abs g) k \<longleftrightarrow> k div 64 < bn_width a \<and> bit (bn_d a ! (k div 64)) (k mod 64) \<and> \<not> (k div 64 = i \<and> k mod 64 = j)"
        unfolding bit_bn_abs [OF okg] using il
        by (simp add: g_def nth_list_update limb_set_bit j_def)
      also have "\<dots> \<longleftrightarrow> bit (bn_abs a) k \<and> k \<noteq> nat n"
        by (auto simp: bit_bn_abs [OF assms(2)] i_def j_def) (metis mult_div_mod_eq)
      finally show "bit (bn_abs g) k \<longleftrightarrow> bit (unset_bit (nat n) (bn_abs a)) k" by (auto simp: bit_unset_bit_iff)
    qed
    with bn_set_minimal_width [OF okg] res False iff show ?thesis by (auto simp: g_def)
  qed
  then show "bn_ok r" "ok \<Longrightarrow> 0 \<le> n \<and> bn_abs r = unset_bit (nat n) (bn_abs a) \<and> bn_signed r" "\<not> ok \<Longrightarrow> r = a"
    "ok \<longleftrightarrow> 0 \<le> n \<and> nat n < 64 * bn_width a" "bn_flags r = bn_flags a" "ok \<Longrightarrow> bn_abs r \<noteq> 0 \<Longrightarrow> bn_neg r = bn_neg a" by blast+
qed

lemma BN_mask_bits:
  assumes "BN_mask_bits a n = (ok, r)" "bn_ok a"
  shows "bn_ok r" "ok \<longleftrightarrow> 0 \<le> n" "ok \<Longrightarrow> bn_abs r = take_bit (nat n) (bn_abs a)" "bn_flags r = bn_flags a"
proof -
  define w b where "w = nat n div 64" and "b = nat n mod 64"
  have n: "nat n = 64 * w + b" "b < 64" by (simp_all add: w_def b_def)
  have "bn_ok r \<and> (ok \<longleftrightarrow> 0 \<le> n) \<and> (ok \<longrightarrow> bn_abs r = take_bit (nat n) (bn_abs a)) \<and> bn_flags r = bn_flags a"
  proof (cases "n < 0 \<or> bn_width a \<le> w")
    case True
    have "bn_abs a < 2 ^ (64 * bn_width a)" using bn_abs_lt [OF assms(2)] by (simp add: radix_power)
    also have "\<dots> \<le> 2 ^ nat n" if "bn_width a \<le> w" using that n by (intro power_increasing) simp_all
    finally have "bn_width a \<le> w \<Longrightarrow> take_bit (nat n) (bn_abs a) = bn_abs a" by (simp add: take_bit_nat_eq_self_iff)
    moreover have "r = a" "ok \<longleftrightarrow> \<not> n < 0"
      using assms(1) True by (cases "n < 0"; auto simp: BN_mask_bits_def Let_def w_def BN_BITS2_def)+
    ultimately show ?thesis using True assms(2) by auto
  next
    case False
    define g where "g = (if b = 0 then a\<lparr>bn_width := w\<rparr>
        else a\<lparr>bn_width := w + 1, bn_d := (bn_d a)[w := bn_d a ! w AND NOT (push_bit b (- 1))]\<rparr>)"
    have okg: "bn_ok g" using assms(2) False by (auto simp: g_def bn_ok_def)
    have res: "ok" "r = bn_set_minimal_width g"
      using assms(1) False by (auto simp: BN_mask_bits_def Let_def w_def b_def BN_BITS2_def g_def)
    have "bn_abs g = take_bit (nat n) (bn_abs a)"
    proof (rule bit_eqI)
      fix k :: nat
      have wl: "w < length (bn_d a)" using False bn_okD(3) [OF assms(2)] by simp
      have kn: "k < nat n \<longleftrightarrow> k div 64 < w \<or> (k div 64 = w \<and> k mod 64 < b)"
      proof -
        have "k = 64 * (k div 64) + k mod 64" "k mod 64 < 64" by simp_all
        then show ?thesis unfolding n(1) using n(2) by linarith
      qed
      define i j where "i = k div 64" and "j = k mod 64"
      have j: "j < 64" by (simp add: j_def)
      have "i < bn_width g \<and> bit (bn_d g ! i) j \<longleftrightarrow> (i < w \<or> (i = w \<and> j < b)) \<and> i < bn_width a \<and> bit (bn_d a ! i) j"
      proof (cases "i < w")
        case True
        then show ?thesis using False n(2) by (simp add: g_def nth_list_update)
      next
        case iw: False
        show ?thesis
        proof (cases "i = w")
          case True
          then show ?thesis using wl False n(2) j by (auto simp: g_def bit_simps)
        qed (use iw in \<open>auto simp: g_def\<close>)
      qed
      then show "bit (bn_abs g) k \<longleftrightarrow> bit (take_bit (nat n) (bn_abs a)) k"
        unfolding bit_bn_abs [OF okg] bit_take_bit_iff kn bit_bn_abs [OF assms(2)] i_def j_def by blast
    qed
    with bn_set_minimal_width [OF okg] res False show ?thesis by (auto simp: g_def)
  qed
  then show "bn_ok r" "ok \<longleftrightarrow> 0 \<le> n" "ok \<Longrightarrow> bn_abs r = take_bit (nat n) (bn_abs a)" "bn_flags r = bn_flags a" by blast+
qed

end
