(* ===== verification/BN_Mul.thy ===== *)
theory BN_Mul
  imports BN_Shift
begin

text \<open>
  Multiplication and squaring: \<open>crypto/fipsmodule/bn/mul.c\<close>.  The routines on arrays return the
  limbs that they write.  The recursive ones (Karatsuba) work in a scratch array \<open>t\<close>, which
  is passed through, so that the places they use in it are those of the code; \<open>&a[n]\<close> is
  \<open>drop n a\<close>.  Lengths that the code keeps as a difference to a power of two (\<open>dna\<close>,
  \<open>dnb\<close>, never positive) are integers.
\<close>

section \<open>Schoolbook multiplication\<close>

definition BN_MUL_RECURSIVE_SIZE_NORMAL :: nat where
  "BN_MUL_RECURSIVE_SIZE_NORMAL = 16"

text \<open>One more limb of \<open>b\<close>: \<open>rr[i] = bn_mul_add_words(&(r[i]), a, na, b[i])\<close>.\<close>

definition mul_normal_step :: "limbs \<Rightarrow> nat \<Rightarrow> limbs \<Rightarrow> nat \<Rightarrow> limbs \<Rightarrow> limbs" where
  "mul_normal_step a na b i r =
     (let (ws, c) = bn_mul_add_words (drop i r) a na (b ! i) in take i r @ ws @ [c])"

definition bn_mul_normal :: "limbs \<Rightarrow> nat \<Rightarrow> limbs \<Rightarrow> nat \<Rightarrow> limbs" where
  "bn_mul_normal a na b nb =
     (let (a, na, b, nb) = (if na < nb then (b, nb, a, na) else (a, na, b, nb))
      in if nb = 0 then replicate na 0
         else let (r, c) = bn_mul_words a na (b ! 0) in fold (mul_normal_step a na b) [1..<nb] (r @ [c]))"

section \<open>Differences of numbers of different lengths\<close>

text \<open>Past the end of the first number, and past the end of the second one.\<close>

primrec neg_words :: "limbs \<Rightarrow> limb \<Rightarrow> limbs \<times> limb" where
  "neg_words [] c = ([], c)"
| "neg_words (t # ts) c = (let (out, c') = neg_words ts (if t \<noteq> 0 then 1 else c) in ((0 - t - c) # out, c'))"

primrec borrow_words :: "limbs \<Rightarrow> limb \<Rightarrow> limbs \<times> limb" where
  "borrow_words [] c = ([], c)"
| "borrow_words (t # ts) c = (let (out, c') = borrow_words ts (if t \<noteq> 0 then 0 else c) in ((t - c) # out, c'))"

text \<open>
  The borrow is looked at before every four limbs; once it is gone, the rest is copied.  The
  \<open>switch\<close> after the loop is never entered, since \<open>save_dl\<close> and \<open>dl\<close> agree there.
\<close>

function borrow_blocks :: "limbs \<Rightarrow> limb \<Rightarrow> limbs \<times> limb" where
  "borrow_blocks ts c =
     (if c = 0 \<or> ts = [] then (ts, c)
      else let (out, c) = borrow_words (take 4 ts) c; (out', c) = borrow_blocks (drop 4 ts) c in (out @ out', c))"
  by pat_completeness auto
termination by (relation "measure (length \<circ> fst)") auto

declare borrow_blocks.simps [simp del]

definition bn_sub_part_words :: "limbs \<Rightarrow> limbs \<Rightarrow> nat \<Rightarrow> int \<Rightarrow> limbs \<times> limb" where
  "bn_sub_part_words a b cl dl =
     (let (r, c) = bn_sub_words a b cl
      in if dl = 0 then (r, c)
         else let (r', c) = (if dl < 0 then neg_words (take (nat (- dl)) (drop cl b)) c
                             else borrow_blocks (take (nat dl) (drop cl a)) c)
              in (r @ r', c))"

text \<open>The absolute value, the first difference (in \<open>tmp\<close>) and the mask of the sign.\<close>

definition bn_abs_sub_part_words :: "limbs \<Rightarrow> limbs \<Rightarrow> nat \<Rightarrow> int \<Rightarrow> limbs \<times> limbs \<times> limb" where
  "bn_abs_sub_part_words a b cl dl =
     (let (tmp, borrow) = bn_sub_part_words a b cl dl;
          (r, _) = bn_sub_part_words b a cl (- dl);
          r_len = cl + nat \<bar>dl\<bar>; borrow = 0 - borrow
      in (bn_select_words borrow r tmp r_len, tmp, borrow))"

definition bn_abs_sub_words :: "limbs \<Rightarrow> limbs \<Rightarrow> nat \<Rightarrow> limbs \<times> limbs" where
  "bn_abs_sub_words a b num =
     (let (tmp, borrow) = bn_sub_words a b num; (r, _) = bn_sub_words b a num
      in (bn_select_words (0 - borrow) r tmp num, tmp))"

definition bn_abs_sub_consttime :: "heap_env \<Rightarrow> bn_ctx \<Rightarrow> bignum \<Rightarrow> bignum \<Rightarrow> bignum \<Rightarrow> bool \<times> bignum" where
  "bn_abs_sub_consttime e ctx r a b =
     (let cl = min (bn_width a) (bn_width b); dl = int (bn_width a) - int (bn_width b);
          r_len = max (bn_width a) (bn_width b)
      in case BN_CTX_get ctx 0 of
           None \<Rightarrow> (False, r)
         | Some tmp \<Rightarrow>
             (case bn_wexpand e r r_len of
                None \<Rightarrow> (False, r)
              | Some r \<Rightarrow>
                  (case bn_wexpand e tmp r_len of
                     None \<Rightarrow> (False, r)
                   | Some tmp \<Rightarrow>
                       (let (d, _, _) = bn_abs_sub_part_words (bn_d a) (bn_d b) cl dl
                        in (True, r\<lparr>bn_d := blit (bn_d r) 0 d, bn_width := r_len\<rparr>)))))"

section \<open>Karatsuba multiplication\<close>

text \<open>Adding a carry to the limbs from \<open>i\<close> on.\<close>

primrec propagate_words :: "limbs \<Rightarrow> limb \<Rightarrow> limbs \<times> limb" where
  "propagate_words [] c = ([], c)"
| "propagate_words (old # rs) c =
     (let x = old + c; (out, c') = propagate_words rs (if x < old then 1 else 0) in (x # out, c'))"

text \<open>
  The end of all recursive routines: the middle term, \<open>n2\<close> limbs of \<open>t\<close> from \<open>n2\<close> on and
  the carry \<open>c\<close>, is added to \<open>r\<close> at \<open>n\<close>.
\<close>

definition add_middle :: "limbs \<Rightarrow> limbs \<Rightarrow> nat \<Rightarrow> nat \<Rightarrow> limb \<Rightarrow> limbs" where
  "add_middle r t n n2 c =
     (let (ws, carry) = bn_add_words (drop n r) (drop n2 t) n2; r = blit r n ws; c = c + carry;
          (out, c) = propagate_words (take (n2 - n) (drop (n + n2) r)) c
      in blit r (n + n2) out)"

text \<open>
  The end of the multiplications: the middle term from \<open>t2,t3\<close>, which is the absolute value
  of a product whose sign is in the mask \<open>neg\<close>.
\<close>

definition combine_products :: "limbs \<Rightarrow> limbs \<Rightarrow> nat \<Rightarrow> nat \<Rightarrow> limb \<Rightarrow> limbs \<times> limbs" where
  "combine_products r t n n2 neg =
     (let (t01, c) = bn_add_words r (drop n2 r) n2; t = blit t 0 t01;
          (d, borrow) = bn_sub_words t (drop n2 t) n2; t = blit t (n2 * 2) d; c_neg = c - borrow;
          (s, carry) = bn_add_words t (drop n2 t) n2; t = blit t n2 s; c_pos = c + carry;
          t = blit t n2 (bn_select_words neg (drop (n2 * 2) t) (drop n2 t) n2);
          c = constant_time_select_w neg c_neg c_pos
      in (add_middle r t n n2 c, t))"

text \<open>
  The first steps: \<open>t0 = |a0 - a1|\<close>, \<open>t1 = |b1 - b0|\<close>, and the mask of the sign of the
  product of the differences.  The third part of \<open>t\<close> is scratch.
\<close>

definition split_differences :: "limbs \<Rightarrow> limbs \<Rightarrow> nat \<Rightarrow> nat \<Rightarrow> nat \<Rightarrow> limbs \<Rightarrow> limbs \<times> limb" where
  "split_differences a b n tna tnb t =
     (let n2 = 2 * n;
          (d, tmp, neg) = bn_abs_sub_part_words a (drop n a) tna (int n - int tna); t = blit (blit t n2 tmp) 0 d;
          (d, tmp, neg') = bn_abs_sub_part_words (drop n b) b tnb (int tnb - int n); t = blit (blit t n2 tmp) n d
      in (t, neg XOR neg'))"

function bn_mul_recursive :: "limbs \<Rightarrow> limbs \<Rightarrow> nat \<Rightarrow> int \<Rightarrow> int \<Rightarrow> limbs \<Rightarrow> limbs \<times> limbs" where
  "bn_mul_recursive a b n2 dna dnb t =
     (if n2 = 8 \<and> dna = 0 \<and> dnb = 0 then (bn_mul_comba8 a b, t)
      else if n2 < BN_MUL_RECURSIVE_SIZE_NORMAL then
        (bn_mul_normal a (nat (int n2 + dna)) b (nat (int n2 + dnb)) @ replicate (nat (- (dna + dnb))) 0, t)
      else
        (let n = n2 div 2; tna = nat (int n + dna); tnb = nat (int n + dnb);
             (t, neg) = split_differences a b n tna tnb t;
             (r, t) =
               (if n = 4 \<and> dna = 0 \<and> dnb = 0 then
                  (bn_mul_comba4 a b @ bn_mul_comba4 (drop n a) (drop n b), blit t n2 (bn_mul_comba4 t (drop n t)))
                else if n = 8 \<and> dna = 0 \<and> dnb = 0 then
                  (bn_mul_comba8 a b @ bn_mul_comba8 (drop n a) (drop n b), blit t n2 (bn_mul_comba8 t (drop n t)))
                else
                  (let (t23, p) = bn_mul_recursive t (drop n t) n 0 0 (drop (n2 * 2) t);
                       (r01, p) = bn_mul_recursive a b n 0 0 p;
                       (r23, p) = bn_mul_recursive (drop n a) (drop n b) n dna dnb p
                   in (r01 @ r23, blit (blit t (n2 * 2) p) n2 t23)))
         in combine_products r t n n2 neg))"
  by pat_completeness auto
termination
  by (relation "measure (\<lambda>(_, _, n2, _). n2)") (auto simp: BN_MUL_RECURSIVE_SIZE_NORMAL_def)

declare bn_mul_recursive.simps [simp del]

text \<open>
  The halving loop of \<open>bn_mul_part_recursive\<close>: the level at which the high parts are
  multiplied, and whether \<open>bn_mul_part_recursive\<close> itself does it.
\<close>

function part_level :: "nat \<Rightarrow> nat \<Rightarrow> nat \<Rightarrow> nat \<times> bool" where
  "part_level i tna tnb =
     (let i = i div 2
      in if i < tna \<or> i < tnb then (i, True)
         else if i = tna \<or> i = tnb then (i, False)
         else part_level i tna tnb)"
  by pat_completeness auto
termination by (relation "measure (\<lambda>(i, _). i)") auto

declare part_level.simps [simp del]

lemma part_level_le: "fst (part_level i tna tnb) \<le> i div 2"
proof (induction i tna tnb rule: part_level.induct)
  case (1 i tna tnb)
  then show ?case by (subst part_level.simps) (fastforce simp: Let_def)
qed

text \<open>\<open>memset\<close> to zero of a number of bytes, which need not be whole limbs.\<close>

fun memset_zero_bytes :: "limbs \<Rightarrow> nat \<Rightarrow> limbs" where
  "memset_zero_bytes (x # xs) k =
     (if k = 0 then x # xs
      else if k < 8 then (x AND NOT (mask (8 * k))) # xs
      else 0 # memset_zero_bytes xs (k - 8))"
| "memset_zero_bytes [] _ = []"

text \<open>\<open>r\<close> is what is in the \<open>4 * n\<close> limbs of the output.\<close>

function bn_mul_part_recursive :: "limbs \<Rightarrow> limbs \<Rightarrow> limbs \<Rightarrow> nat \<Rightarrow> nat \<Rightarrow> nat \<Rightarrow> limbs \<Rightarrow> limbs \<times> limbs" where
  "bn_mul_part_recursive r a b n tna tnb t =
     (let n2 = n * 2
      in if n < 8 then
           (let r = blit r 0 (bn_mul_normal a (n + tna) b (n + tnb)); i = n2 + tna + tnb
            in (take i r @ memset_zero_bytes (drop i r) (n2 - tna - tnb), t))
         else
           (let (t, neg) = split_differences a b n tna tnb t;
                (r, t) =
                  (if n = 8 then
                     (let t = blit t n2 (bn_mul_comba8 t (drop n t)); r = blit r 0 (bn_mul_comba8 a b);
                          r = blit r n2 (bn_mul_normal (drop n a) tna (drop n b) tnb)
                      in (blit r (n2 + tna + tnb) (replicate (n2 - tna - tnb) 0), t))
                   else
                     (let (t23, p) = bn_mul_recursive t (drop n t) n 0 0 (drop (n2 * 2) t); t = blit t n2 t23;
                          (r01, p) = bn_mul_recursive a b n 0 0 p; r = blit r 0 r01;
                          r = blit r n2 (replicate n2 0)
                      in if tna < BN_MUL_RECURSIVE_SIZE_NORMAL \<and> tnb < BN_MUL_RECURSIVE_SIZE_NORMAL then
                           (blit r n2 (bn_mul_normal (drop n a) tna (drop n b) tnb), blit t (n2 * 2) p)
                         else
                           (let i = fst (part_level n tna tnb)
                            in if snd (part_level n tna tnb) then
                                 (let (r23, p) = bn_mul_part_recursive (take (4 * i) (drop n2 r)) (drop n a) (drop n b) i (tna - i) (tnb - i) p
                                  in (blit r n2 r23, blit t (n2 * 2) p))
                               else
                                 (let (r23, p) = bn_mul_recursive (drop n a) (drop n b) i (int tna - int i) (int tnb - int i) p
                                  in (blit r n2 r23, blit t (n2 * 2) p)))))
            in combine_products r t n n2 neg))"
  by pat_completeness auto
termination
  by (relation "measure (\<lambda>(_, _, _, n, _). n)") (auto intro: le_less_trans [OF part_level_le])

declare bn_mul_part_recursive.simps [simp del]
section \<open>Multiplication of big numbers\<close>

text \<open>
  The part of \<open>bn_mul_impl\<close> that computes the product into \<open>rr\<close>, the output itself or, when
  that is an input too, a number of the context.
\<close>

definition mul_into :: "heap_env \<Rightarrow> bn_ctx \<Rightarrow> bignum \<Rightarrow> bignum \<Rightarrow> bignum \<Rightarrow> bool \<times> bignum" where
  "mul_into e ctx rr a b =
     (let al = bn_width a; bl = bn_width b; i = int al - int bl;
          rr = rr\<lparr>bn_neg := bn_neg a \<noteq> bn_neg b\<rparr>; top = al + bl
      in if i = 0 \<and> al = 8 then
           (case bn_wexpand e rr 16 of
              None \<Rightarrow> (False, rr)
            | Some rr \<Rightarrow> (True, rr\<lparr>bn_d := blit (bn_d rr) 0 (bn_mul_comba8 (bn_d a) (bn_d b)), bn_width := 16\<rparr>))
         else if al \<ge> 16 \<and> bl \<ge> 16 \<and> - 1 \<le> i \<and> i \<le> 1 then
           (let j = 2 ^ (BN_num_bits_word (if i \<ge> 0 then of_nat al else of_nat bl) - 1)
            in case BN_CTX_get ctx 0 of
                 None \<Rightarrow> (False, rr)
               | Some t \<Rightarrow>
                   if al > j \<or> bl > j then
                     (case bn_wexpand e t (j * 8) of
                        None \<Rightarrow> (False, rr)
                      | Some t \<Rightarrow>
                          (case bn_wexpand e rr (j * 4) of
                             None \<Rightarrow> (False, rr)
                           | Some rr \<Rightarrow>
                               (True, rr\<lparr>bn_d := blit (bn_d rr) 0 (fst (bn_mul_part_recursive (take (j * 4) (bn_d rr))
                                                    (bn_d a) (bn_d b) j (al - j) (bl - j) (bn_d t))),
                                         bn_width := top\<rparr>)))
                   else
                     (case bn_wexpand e t (j * 4) of
                        None \<Rightarrow> (False, rr)
                      | Some t \<Rightarrow>
                          (case bn_wexpand e rr (j * 2) of
                             None \<Rightarrow> (False, rr)
                           | Some rr \<Rightarrow>
                               (True, rr\<lparr>bn_d := blit (bn_d rr) 0 (fst (bn_mul_recursive (bn_d a) (bn_d b) j
                                                    (int al - int j) (int bl - int j) (bn_d t))),
                                         bn_width := top\<rparr>))))
         else
           (case bn_wexpand e rr top of
              None \<Rightarrow> (False, rr)
            | Some rr \<Rightarrow> (True, rr\<lparr>bn_d := blit (bn_d rr) 0 (bn_mul_normal (bn_d a) al (bn_d b) bl), bn_width := top\<rparr>)))"

text \<open>
  \<open>alias\<close> says whether the output is one of the inputs.  Then the code takes a number from
  the context, and, as it tests \<open>r\<close> where \<open>rr\<close> is meant, goes on with a null pointer when
  there is none: \<open>None\<close>.
\<close>

definition bn_mul_impl :: "heap_env \<Rightarrow> bn_ctx \<Rightarrow> bool \<Rightarrow> bignum \<Rightarrow> bignum \<Rightarrow> bignum \<Rightarrow> (bool \<times> bignum) option" where
  "bn_mul_impl e ctx alias r a b =
     (if bn_width a = 0 \<or> bn_width b = 0 then Some (True, BN_zero r)
      else if alias then
        (case BN_CTX_get ctx 0 of
           None \<Rightarrow> None
         | Some rr \<Rightarrow>
             (case mul_into e (ctx_from 1 ctx) rr a b of
                (ok, rr) \<Rightarrow> Some (if ok then BN_copy e r rr else (False, r))))
      else Some (mul_into e ctx r a b))"

definition BN_mul :: "heap_env \<Rightarrow> bn_ctx \<Rightarrow> bool \<Rightarrow> bignum \<Rightarrow> bignum \<Rightarrow> bignum \<Rightarrow> (bool \<times> bignum) option" where
  "BN_mul e ctx alias r a b =
     (case bn_mul_impl e ctx alias r a b of
        None \<Rightarrow> None
      | Some (ok, r) \<Rightarrow> Some (if ok then (True, bn_set_minimal_width r) else (False, r)))"

definition bn_mul_consttime :: "heap_env \<Rightarrow> bn_ctx \<Rightarrow> bool \<Rightarrow> bignum \<Rightarrow> bignum \<Rightarrow> bignum \<Rightarrow> (bool \<times> bignum) option" where
  "bn_mul_consttime e ctx alias r a b =
     (if bn_neg a \<or> bn_neg b then Some (False, r) else bn_mul_impl e ctx alias r a b)"

definition bn_mul_small :: "nat \<Rightarrow> limbs \<Rightarrow> nat \<Rightarrow> limbs \<Rightarrow> nat \<Rightarrow> limbs option" where
  "bn_mul_small num_r a num_a b num_b =
     (if num_r \<noteq> num_a + num_b then None
      else if num_a = 8 \<and> num_b = 8 then Some (bn_mul_comba8 a b)
      else Some (bn_mul_normal a num_a b num_b))"

text \<open>Multiplication by a word, in place.\<close>

definition BN_mul_word :: "heap_env \<Rightarrow> bignum \<Rightarrow> limb \<Rightarrow> bool \<times> bignum" where
  "BN_mul_word e bn w =
     (if bn_width bn = 0 then (True, bn)
      else if w = 0 then (True, BN_zero bn)
      else
        (let (ws, ll) = bn_mul_words (bn_d bn) (bn_width bn) w; bn = bn\<lparr>bn_d := blit (bn_d bn) 0 ws\<rparr>
         in if ll \<noteq> 0 then
              (case bn_wexpand e bn (bn_width bn + 1) of
                 None \<Rightarrow> (False, bn)
               | Some bn \<Rightarrow> (True, bn\<lparr>bn_d := (bn_d bn)[bn_width bn := ll], bn_width := bn_width bn + 1\<rparr>))
            else (True, bn)))"

section \<open>Squaring\<close>

text \<open>
  The products of different limbs: each step adds the multiples of one more limb, and \<open>r\<close>
  holds the limbs written so far.
\<close>

definition sqr_normal_step :: "limbs \<Rightarrow> nat \<Rightarrow> nat \<Rightarrow> limbs \<Rightarrow> limbs" where
  "sqr_normal_step a n k r =
     (let (ws, c) = bn_mul_add_words (drop (2 * k + 1) r) (drop (k + 1) a) (n - 1 - k) (a ! k)
      in take (2 * k + 1) r @ ws @ [c])"

definition bn_sqr_normal :: "limbs \<Rightarrow> nat \<Rightarrow> limbs \<times> limbs" where
  "bn_sqr_normal a n =
     (if n = 0 then ([], [])
      else
        (let mx = n * 2; r = [0];
             r = (if n > 1 then (let (ws, c) = bn_mul_words (drop 1 a) (n - 1) (a ! 0) in r @ ws @ [c]) else r);
             r = (if n > 2 then fold (sqr_normal_step a n) [1..<n - 1] r else r) @ [0];
             (r, _) = bn_add_words r r mx; tmp = bn_sqr_words a n; (r, _) = bn_add_words r tmp mx
         in (r, tmp)))"

function bn_sqr_recursive :: "limbs \<Rightarrow> nat \<Rightarrow> limbs \<Rightarrow> limbs \<times> limbs" where
  "bn_sqr_recursive a n2 t =
     (if n2 = 4 then (bn_sqr_comba4 a, t)
      else if n2 = 8 then (bn_sqr_comba8 a, t)
      else if n2 < BN_MUL_RECURSIVE_SIZE_NORMAL then
        (let (r, tmp) = bn_sqr_normal a n2 in (r, blit t 0 tmp))
      else
        (let n = n2 div 2; (d, tmp) = bn_abs_sub_words a (drop n a) n; t = blit (blit t n tmp) 0 d;
             (t23, p) = bn_sqr_recursive t n (drop (n2 * 2) t);
             (r01, p) = bn_sqr_recursive a n p;
             (r23, p) = bn_sqr_recursive (drop n a) n p;
             t = blit (blit t (n2 * 2) p) n2 t23; r = r01 @ r23;
             (s, c) = bn_add_words r (drop n2 r) n2; t = blit t 0 s;
             (m, borrow) = bn_sub_words t (drop n2 t) n2; t = blit t n2 m
         in (add_middle r t n n2 (c - borrow), t)))"
  by pat_completeness auto
termination
  by (relation "measure (\<lambda>(_, n2, _). n2)") (auto simp: BN_MUL_RECURSIVE_SIZE_NORMAL_def)

declare bn_sqr_recursive.simps [simp del]

text \<open>The part of \<open>bn_sqr_consttime\<close> that computes the square into \<open>rr\<close>.\<close>

definition sqr_into :: "heap_env \<Rightarrow> bignum \<Rightarrow> bignum \<Rightarrow> bignum \<Rightarrow> bool \<times> bignum" where
  "sqr_into e rr tmp a =
     (let al = bn_width a; mx = 2 * al
      in case bn_wexpand e rr mx of
           None \<Rightarrow> (False, rr)
         | Some rr \<Rightarrow>
             (let d = (if al = 4 then Some (bn_sqr_comba4 (bn_d a))
                       else if al = 8 then Some (bn_sqr_comba8 (bn_d a))
                       else if al < BN_MUL_RECURSIVE_SIZE_NORMAL then Some (fst (bn_sqr_normal (bn_d a) al))
                       else if al AND (al - 1) = 0 then
                         map_option (\<lambda>tmp. fst (bn_sqr_recursive (bn_d a) al (bn_d tmp))) (bn_wexpand e tmp (al * 4))
                       else map_option (\<lambda>_. fst (bn_sqr_normal (bn_d a) al)) (bn_wexpand e tmp mx))
              in case d of
                   None \<Rightarrow> (False, rr)
                 | Some ws \<Rightarrow> (True, rr\<lparr>bn_d := blit (bn_d rr) 0 ws, bn_neg := False, bn_width := mx\<rparr>)))"

definition bn_sqr_consttime :: "heap_env \<Rightarrow> bn_ctx \<Rightarrow> bool \<Rightarrow> bignum \<Rightarrow> bignum \<Rightarrow> bool \<times> bignum" where
  "bn_sqr_consttime e ctx alias r a =
     (if bn_width a = 0 then (True, r\<lparr>bn_width := 0, bn_neg := False\<rparr>)
      else
        (case (if alias then BN_CTX_get ctx 0 else Some r, BN_CTX_get ctx (if alias then 1 else 0)) of
           (Some rr, Some tmp) \<Rightarrow>
             (case sqr_into e rr tmp a of
                (ok, rr) \<Rightarrow> if alias then (if ok then BN_copy e r rr else (False, r)) else (ok, rr))
         | _ \<Rightarrow> (False, r)))"

definition BN_sqr :: "heap_env \<Rightarrow> bn_ctx \<Rightarrow> bool \<Rightarrow> bignum \<Rightarrow> bignum \<Rightarrow> bool \<times> bignum" where
  "BN_sqr e ctx alias r a =
     (case bn_sqr_consttime e ctx alias r a of (ok, r) \<Rightarrow> if ok then (True, bn_set_minimal_width r) else (False, r))"

definition BN_SMALL_MAX_WORDS :: nat where
  "BN_SMALL_MAX_WORDS = 9"

definition bn_sqr_small :: "nat \<Rightarrow> limbs \<Rightarrow> nat \<Rightarrow> limbs option" where
  "bn_sqr_small num_r a num_a =
     (if num_r \<noteq> 2 * num_a \<or> num_a > BN_SMALL_MAX_WORDS then None
      else if num_a = 4 then Some (bn_sqr_comba4 a)
      else if num_a = 8 then Some (bn_sqr_comba8 a)
      else Some (fst (bn_sqr_normal a num_a)))"

section \<open>Correctness of the array routines\<close>

text \<open>A loop over \<open>[i..<n]\<close> has an invariant.\<close>

lemma fold_upt_invariant:
  assumes "i \<le> n" "P i s" "\<And>k s. i \<le> k \<Longrightarrow> k < n \<Longrightarrow> P k s \<Longrightarrow> P (Suc k) (f k s)"
  shows "P n (fold f [i..<n] s)"
  using assms
proof (induction n)
  case (Suc n)
  then show ?case by (cases "i = Suc n") (auto simp: le_Suc_eq)
qed simp

lemma mul_normal_loop:
  assumes "na \<le> length a" "nb \<le> length b" "nb \<noteq> 0" "bn_mul_words a na (b ! 0) = (r, c)"
  shows "length (fold (mul_normal_step a na b) [1..<nb] (r @ [c])) = na + nb \<and>
    wval (fold (mul_normal_step a na b) [1..<nb] (r @ [c])) = wval (take na a) * wval (take nb b)"
proof (rule fold_upt_invariant [where P = "\<lambda>k r. length r = na + k \<and> wval r = wval (take na a) * wval (take k b)"])
  show "1 \<le> nb" using assms(3) by simp
  have "take 1 b = [b ! 0]" using assms(2,3) by (cases b) auto
  then show "length (r @ [c]) = na + 1 \<and> wval (r @ [c]) = wval (take na a) * wval (take 1 b)"
    using bn_mul_words [OF assms(4,1)] by (simp add: wval_snoc)
  fix k s assume k: "1 \<le> k" "k < nb" and s: "length s = na + k \<and> wval s = wval (take na a) * wval (take k b)"
  obtain ws d where w: "bn_mul_add_words (drop k s) a na (b ! k) = (ws, d)" by fastforce
  note m = bn_mul_add_words [OF w _ assms(1)]
  have "wval (take k s) + radix ^ k * (wval ws + radix ^ na * unat d) = wval s + radix ^ k * (wval (take na a) * unat (b ! k))"
    using m s wval_take_drop [of k s] by (simp add: algebra_simps)
  then show "length (mul_normal_step a na b k s) = na + Suc k \<and> wval (mul_normal_step a na b k s) = wval (take na a) * wval (take (Suc k) b)"
    using m(1) s k assms(2) by (simp add: mul_normal_step_def w wval_append wval_take_Suc algebra_simps)
qed

lemma bn_mul_normal:
  assumes "na \<le> length a" "nb \<le> length b"
  shows "length (bn_mul_normal a na b nb) = na + nb" "wval (bn_mul_normal a na b nb) = wval (take na a) * wval (take nb b)"
proof -
  obtain r c r' c' where w: "bn_mul_words a na (b ! 0) = (r, c)" "bn_mul_words b nb (a ! 0) = (r', c')" by fastforce
  have "length (bn_mul_normal a na b nb) = na + nb \<and> wval (bn_mul_normal a na b nb) = wval (take na a) * wval (take nb b)"
  proof (cases "na < nb")
    case True
    then show ?thesis
      using mul_normal_loop [OF assms(2,1) _ w(2)] by (cases "na = 0") (simp_all add: bn_mul_normal_def w)
  next
    case False
    then show ?thesis
      using mul_normal_loop [OF assms _ w(1)] by (cases "nb = 0") (simp_all add: bn_mul_normal_def w)
  qed
  then show "length (bn_mul_normal a na b nb) = na + nb" "wval (bn_mul_normal a na b nb) = wval (take na a) * wval (take nb b)" by simp_all
qed

lemma borrow_bit: "(c :: limb) = 0 \<or> c = 1 \<Longrightarrow> unat c \<le> 1"
  by auto

lemma neg_words:
  assumes "neg_words ts c = (out, c')" "c = 0 \<or> c = 1"
  shows "length out = length ts" "wval out + wval ts + unat c = radix ^ length ts * unat c'" "c' = 0 \<or> c' = 1"
proof -
  have "length out = length ts \<and> wval out + wval ts + unat c = radix ^ length ts * unat c' \<and> (c' = 0 \<or> c' = 1)"
    using assms
  proof (induction ts arbitrary: c out c')
    case (Cons t ts)
    define d :: limb where "d = (if t \<noteq> 0 then 1 else c)"
    obtain o' where w: "neg_words ts d = (o', c')" "out = (0 - t - c) # o'"
      using Cons.prems(1) by (auto simp: d_def split: prod.splits)
    have IH: "length o' = length ts" "wval o' + wval ts + unat d = radix ^ length ts * unat c'" "c' = 0 \<or> c' = 1"
      using Cons.IH [OF w(1)] Cons.prems(2) by (auto simp: d_def)
    have "unat (- t - 1) = unat (- t) - 1" "unat (- t) \<noteq> 0" if "t \<noteq> 0"
      using that by (auto simp: unat_minus_one unat_eq_zero)
    then have step: "unat (0 - t - c) + unat t + unat c = radix * unat d"
      using Cons.prems(2) unat_uminus [of t] unat_uminus [of 1] by (cases "t = 0") (auto simp: d_def)
    have "wval out + wval (t # ts) + unat c = radix * (wval o' + wval ts + unat d)"
      using step by (simp add: w(2) algebra_simps)
    with IH show ?case by (simp add: w(2))
  qed auto
  then show "length out = length ts" "wval out + wval ts + unat c = radix ^ length ts * unat c'" "c' = 0 \<or> c' = 1" by blast+
qed

lemma borrow_words:
  assumes "borrow_words ts c = (out, c')" "c = 0 \<or> c = 1"
  shows "length out = length ts" "wval out + unat c = wval ts + radix ^ length ts * unat c'" "c' = 0 \<or> c' = 1"
proof -
  have "length out = length ts \<and> wval out + unat c = wval ts + radix ^ length ts * unat c' \<and> (c' = 0 \<or> c' = 1)"
    using assms
  proof (induction ts arbitrary: c out c')
    case (Cons t ts)
    define d :: limb where "d = (if t \<noteq> 0 then 0 else c)"
    obtain o' where w: "borrow_words ts d = (o', c')" "out = (t - c) # o'"
      using Cons.prems(1) by (auto simp: d_def split: prod.splits)
    have IH: "length o' = length ts" "wval o' + unat d = wval ts + radix ^ length ts * unat c'" "c' = 0 \<or> c' = 1"
      using Cons.IH [OF w(1)] Cons.prems(2) by (auto simp: d_def)
    have step: "unat (t - c) + unat c = unat t + radix * unat d"
      using Cons.prems(2) unat_uminus [of 1] by (cases "t = 0") (auto simp: d_def unat_minus_one unat_eq_zero Suc_pred unat_gt_0)
    have "wval out + unat c = unat t + radix * (wval o' + unat d)" using step by (simp add: w(2) algebra_simps)
    with IH show ?case by (simp add: w(2) algebra_simps)
  qed auto
  then show "length out = length ts" "wval out + unat c = wval ts + radix ^ length ts * unat c'" "c' = 0 \<or> c' = 1" by blast+
qed

lemma borrow_blocks:
  assumes "borrow_blocks ts c = (out, c')" "c = 0 \<or> c = 1"
  shows "length out = length ts" "wval out + unat c = wval ts + radix ^ length ts * unat c'" "c' = 0 \<or> c' = 1"
proof -
  have "length out = length ts \<and> wval out + unat c = wval ts + radix ^ length ts * unat c' \<and> (c' = 0 \<or> c' = 1)"
    using assms
  proof (induction ts c arbitrary: out c' rule: borrow_blocks.induct)
    case (1 ts c)
    show ?case
    proof (cases "c = 0 \<or> ts = []")
      case True
      then show ?thesis using 1(2,3) by (auto simp: borrow_blocks.simps [of ts])
    next
      case False
      obtain o1 c1 o2 where w: "borrow_words (take 4 ts) c = (o1, c1)" "borrow_blocks (drop 4 ts) c1 = (o2, c')" "out = o1 @ o2"
        using 1(2) False by (auto simp: borrow_blocks.simps [of ts] split: prod.splits)
      note b = borrow_words [OF w(1) 1(3)]
      have IH: "length o2 = length (drop 4 ts)" "wval o2 + unat c1 = wval (drop 4 ts) + radix ^ length (drop 4 ts) * unat c'"
        "c' = 0 \<or> c' = 1"
        using 1(1) [OF False w(1) [symmetric] refl w(2) b(3)] by blast+
      define k where "k = length (take 4 ts)"
      have ts: "wval ts = wval (take 4 ts) + radix ^ k * wval (drop 4 ts)" "length ts = k + length (drop 4 ts)"
        using wval_append [of "take 4 ts" "drop 4 ts"] by (simp_all add: k_def)
      have "wval out + unat c = wval (take 4 ts) + radix ^ k * (wval o2 + unat c1)"
        using b by (simp add: w(3) wval_append k_def algebra_simps)
      also have "\<dots> = wval ts + radix ^ length ts * unat c'"
        unfolding IH(2) ts power_add by (simp only: algebra_simps)
      finally have "wval out + unat c = wval ts + radix ^ length ts * unat c'" .
      moreover have "length out = length ts" by (simp add: w(3) b(1) IH(1))
      ultimately show ?thesis using IH(3) by blast
    qed
  qed
  then show "length out = length ts" "wval out + unat c = wval ts + radix ^ length ts * unat c'" "c' = 0 \<or> c' = 1" by blast+
qed

text \<open>The lengths of the two inputs, from the \<open>cl\<close> and \<open>dl\<close> of the calling convention.\<close>

abbreviation len_a :: "nat \<Rightarrow> int \<Rightarrow> nat" where
  "len_a cl dl \<equiv> cl + nat dl"

abbreviation len_b :: "nat \<Rightarrow> int \<Rightarrow> nat" where
  "len_b cl dl \<equiv> cl + nat (- dl)"

lemma wval_take_add: "wval (take (i + j) xs) = wval (take i xs) + radix ^ i * wval (take j (drop i xs))" if "i \<le> length xs"
  using wval_append [of "take i xs" "take j (drop i xs)"] that by (simp add: take_add min_absorb2)

lemma bn_sub_part_words:
  assumes "bn_sub_part_words a b cl dl = (r, c)" "len_a cl dl \<le> length a" "len_b cl dl \<le> length b"
  shows "length r = cl + nat \<bar>dl\<bar>"
    "wval r + wval (take (len_b cl dl) b) = wval (take (len_a cl dl) a) + radix ^ (cl + nat \<bar>dl\<bar>) * unat c" "c = 0 \<or> c = 1"
proof -
  obtain r0 c0 where w: "bn_sub_words a b cl = (r0, c0)" by fastforce
  have le: "cl \<le> length a" "cl \<le> length b" using assms(2,3) by simp_all
  note s = bn_sub_words [OF w le]
  have "length r = cl + nat \<bar>dl\<bar> \<and>
    wval r + wval (take (len_b cl dl) b) = wval (take (len_a cl dl) a) + radix ^ (cl + nat \<bar>dl\<bar>) * unat c \<and> (c = 0 \<or> c = 1)"
  proof (cases "dl = 0")
    case True
    then show ?thesis using assms(1) s by (simp add: bn_sub_part_words_def w)
  next
    case ne: False
    show ?thesis
    proof (cases "dl < 0")
      case True
      define k where "k = nat (- dl)"
      obtain r1 where p: "neg_words (take k (drop cl b)) c0 = (r1, c)" "r = r0 @ r1"
        using assms(1) True by (auto simp: bn_sub_part_words_def w k_def split: prod.splits)
      have kl: "length (take k (drop cl b)) = k" using assms(3) by (simp add: k_def)
      note n = neg_words [OF p(1) s(3), unfolded kl]
      have "wval r + wval (take (cl + k) b) = wval r0 + wval (take cl b) + radix ^ cl * (wval r1 + wval (take k (drop cl b)))"
        using s(1) by (simp add: p(2) wval_append wval_take_add [OF le(2)] algebra_simps)
      also have "\<dots> = wval (take cl a) + radix ^ cl * (wval r1 + wval (take k (drop cl b)) + unat c0)"
        unfolding s(2) by (simp add: algebra_simps)
      also have "\<dots> = wval (take cl a) + radix ^ (cl + k) * unat c" unfolding n(2) by (simp add: power_add)
      finally show ?thesis using True n s(1) by (simp add: k_def p(2))
    next
      case False
      define k where "k = nat dl"
      obtain r1 where p: "borrow_blocks (take k (drop cl a)) c0 = (r1, c)" "r = r0 @ r1"
        using assms(1) ne False by (auto simp: bn_sub_part_words_def w k_def split: prod.splits)
      have kl: "length (take k (drop cl a)) = k" using assms(2) by (simp add: k_def)
      note n = borrow_blocks [OF p(1) s(3), unfolded kl]
      have "wval r + wval (take cl b) = wval r0 + wval (take cl b) + radix ^ cl * wval r1"
        using s(1) by (simp add: p(2) wval_append)
      also have "\<dots> = wval (take cl a) + radix ^ cl * (wval r1 + unat c0)" unfolding s(2) by (simp add: algebra_simps)
      also have "\<dots> = wval (take (cl + k) a) + radix ^ (cl + k) * unat c"
        unfolding n(2) wval_take_add [OF le(1)] by (simp add: power_add algebra_simps)
      finally show ?thesis using False ne n s(1) by (simp add: k_def p(2))
    qed
  qed
  then show "length r = cl + nat \<bar>dl\<bar>"
    "wval r + wval (take (len_b cl dl) b) = wval (take (len_a cl dl) a) + radix ^ (cl + nat \<bar>dl\<bar>) * unat c" "c = 0 \<or> c = 1" by blast+
qed

text \<open>The borrow says which of the two numbers is smaller.\<close>

lemma borrow_less:
  assumes "wval r + y = x + radix ^ length r * unat c" "y < radix ^ length r" "(c :: limb) = 0 \<or> c = 1"
  shows "c = 1 \<longleftrightarrow> x < y" "0 - c = mask_of (x < y)" "\<not> x < y \<Longrightarrow> wval r = x - y"
proof -
  show *: "c = 1 \<longleftrightarrow> x < y" using assms wval_lt [of r] by auto
  show "0 - c = mask_of (x < y)" "\<not> x < y \<Longrightarrow> wval r = x - y" using * assms(1,3) by auto
qed

definition distance :: "nat \<Rightarrow> nat \<Rightarrow> nat" where
  "distance x y = (if x < y then y - x else x - y)"

lemma int_distance: "int (distance x y) = (if x < y then int y - int x else int x - int y)"
  by (simp add: distance_def)

lemma bn_abs_sub_part_words:
  assumes "bn_abs_sub_part_words a b cl dl = (r, tmp, m)" "len_a cl dl \<le> length a" "len_b cl dl \<le> length b"
  defines "x \<equiv> wval (take (len_a cl dl) a)" and "y \<equiv> wval (take (len_b cl dl) b)"
  shows "length r = cl + nat \<bar>dl\<bar>" "length tmp = cl + nat \<bar>dl\<bar>" "m = mask_of (x < y)" "wval r = distance x y"
proof -
  obtain borrow r1 c1 where w: "bn_sub_part_words a b cl dl = (tmp, borrow)" "bn_sub_part_words b a cl (- dl) = (r1, c1)"
    using assms(1) by (auto simp: bn_abs_sub_part_words_def Let_def split: prod.splits)
  note s = bn_sub_part_words [OF w(1) assms(2,3)] and s' = bn_sub_part_words [OF w(2)]
  have s1: "length r1 = cl + nat \<bar>dl\<bar>" "wval r1 + x = y + radix ^ (cl + nat \<bar>dl\<bar>) * unat c1" "c1 = 0 \<or> c1 = 1"
    using s' assms(2,3) by (simp_all add: x_def y_def)
  have lt: "x < radix ^ (cl + nat \<bar>dl\<bar>)" "y < radix ^ (cl + nat \<bar>dl\<bar>)"
    unfolding x_def y_def by (rule less_le_trans [OF wval_take_lt]; simp add: power_increasing Suc_leI)+
  have l: "0 - borrow = mask_of (x < y)" "\<not> x < y \<Longrightarrow> wval tmp = x - y" "\<not> y < x \<Longrightarrow> wval r1 = y - x"
    using borrow_less [of tmp y x borrow] borrow_less [of r1 x y c1] lt s(3) s1(3) s(2) s1(2)
    unfolding s(1) s1(1) x_def [symmetric] y_def [symmetric] by blast+
  have e: "m = mask_of (x < y)" "r = bn_select_words (mask_of (x < y)) r1 tmp (cl + nat \<bar>dl\<bar>)"
    using assms(1) unfolding l(1) [symmetric] by (auto simp: bn_abs_sub_part_words_def w Let_def)
  have r: "r = (if x < y then r1 else tmp)"
    unfolding e(2) by (subst bn_select_words) (use s(1) s1(1) in simp_all)
  show "length r = cl + nat \<bar>dl\<bar>" "length tmp = cl + nat \<bar>dl\<bar>" "m = mask_of (x < y)" "wval r = distance x y"
    using s(1) s1(1) l by (auto simp: r e(1) distance_def)
qed

lemma bn_abs_sub_words:
  assumes "bn_abs_sub_words a b n = (r, tmp)" "n \<le> length a" "n \<le> length b"
  shows "length r = n" "length tmp = n" "wval r = distance (wval (take n a)) (wval (take n b))"
proof -
  define m where "m = snd (snd (bn_abs_sub_part_words a b n 0))"
  have "bn_abs_sub_part_words a b n 0 = (r, tmp, m)"
    using assms(1) by (auto simp: bn_abs_sub_words_def bn_abs_sub_part_words_def bn_sub_part_words_def m_def split: prod.splits)
  from bn_abs_sub_part_words [OF this] assms(2,3)
  show "length r = n" "length tmp = n" "wval r = distance (wval (take n a)) (wval (take n b))" by simp_all
qed

section \<open>Karatsuba: adding up the products\<close>

lemma propagate_words:
  assumes "propagate_words rs c = (out, c')"
  shows "length out = length rs" "wval out + radix ^ length rs * unat c' = wval rs + unat c"
proof -
  have "length out = length rs \<and> wval out + radix ^ length rs * unat c' = wval rs + unat c"
    using assms
  proof (induction rs arbitrary: c out c')
    case (Cons x rs)
    define d :: limb where "d = (if x + c < x then 1 else 0)"
    obtain o' where w: "propagate_words rs d = (o', c')" "out = (x + c) # o'"
      using Cons.prems by (auto simp: d_def Let_def split: prod.splits)
    have "unat (x + c) + radix * unat d = unat x + unat c"
      using add_carry [of c x] by (simp add: d_def add.commute [of x])
    moreover have IH: "length o' = length rs" "wval o' + radix ^ length rs * unat c' = wval rs + unat d"
      using Cons.IH [OF w(1)] by blast+
    moreover have "wval out + radix ^ length (x # rs) * unat c' = unat (x + c) + radix * (wval o' + radix ^ length rs * unat c')"
      by (simp add: w(2) algebra_simps)
    ultimately show ?case unfolding IH(2) by (simp add: w(2) algebra_simps)
  qed auto
  then show "length out = length rs" "wval out + radix ^ length rs * unat c' = wval rs + unat c" by blast+
qed

text \<open>Values of the parts of an array, and of an array with a part overwritten.\<close>

lemma wval_blit:
  assumes "i + length ws \<le> length d"
  shows "wval (blit d i ws) + radix ^ i * wval (take (length ws) (drop i d)) = wval d + radix ^ i * wval ws"
proof -
  have "wval (drop i d) = wval (take (length ws) (drop i d)) + radix ^ length ws * wval (drop (i + length ws) d)"
    using wval_take_drop [of "length ws" "drop i d"] assms by (simp add: add.commute)
  then show ?thesis
    using assms wval_take_drop [of i d] by (simp add: blit_def wval_append algebra_simps)
qed

text \<open>
  Adding \<open>mid\<close>, given by \<open>n2\<close> limbs and a carry, at limb \<open>n\<close>: when the sum fits, it is exact.
\<close>

lemma add_middle:
  assumes "length r = 2 * n2" "2 * n2 \<le> length t" "n2 = 2 * n"
    and mid: "mid = wval (take n2 (drop n2 t)) + radix ^ n2 * unat c"
    and fits: "wval r + radix ^ n * mid < radix ^ (2 * n2)" and c: "unat c + 1 < radix"
  shows "length (add_middle r t n n2 c) = 2 * n2" "wval (add_middle r t n n2 c) = wval r + radix ^ n * mid"
proof -
  obtain ws carry where w: "bn_add_words (drop n r) (drop n2 t) n2 = (ws, carry)" by fastforce
  have le: "n2 \<le> length (drop n r)" "n2 \<le> length (drop n2 t)" using assms(1-3) by simp_all
  note s = bn_add_words [OF w le]
  define r1 where "r1 = blit r n ws"
  have r1: "length r1 = 2 * n2" using s(1) assms(1,3) by (simp add: r1_def)
  have v1: "wval r1 + radix ^ (n + n2) * unat carry = wval r + radix ^ n * wval (take n2 (drop n2 t))"
  proof -
    have "wval r1 + radix ^ n * wval (take n2 (drop n r)) = wval r + radix ^ n * wval ws"
      using wval_blit [of n ws r] s(1) assms(1,3) by (simp add: r1_def)
    then have "wval r1 + radix ^ n * wval (take n2 (drop n r)) + radix ^ n * (radix ^ n2 * unat carry)
        = wval r + radix ^ n * (wval ws + radix ^ n2 * unat carry)" by (simp add: algebra_simps)
    then show ?thesis unfolding s(2) by (simp add: power_add algebra_simps)
  qed
  have c2: "unat (c + carry) = unat c + unat carry"
    using c s(3) by (intro unat_add_lem [THEN iffD1]) (simp add: radix_def)
  obtain out c' where p: "propagate_words (take (n2 - n) (drop (n + n2) r1)) (c + carry) = (out, c')" by fastforce
  have tk: "take (n2 - n) (drop (n + n2) r1) = drop (n + n2) r1" using r1 assms(3) by simp
  have lo: "length (drop (n + n2) r1) = n" using r1 assms(3) by simp
  note q = propagate_words [OF p [unfolded tk], unfolded lo c2]
  have res: "add_middle r t n n2 c = blit r1 (n + n2) out"
    by (simp add: add_middle_def w Let_def r1_def [symmetric] p)
  have l2: "length (blit r1 (n + n2) out) = 2 * n2" using q(1) r1 assms(3) by simp
  have b: "wval (blit r1 (n + n2) out) + radix ^ (n + n2) * wval (drop (n + n2) r1) = wval r1 + radix ^ (n + n2) * wval out"
    using wval_blit [of "n + n2" out r1] q(1) r1 assms(3) by simp
  have pow: "radix ^ (2 * n2) = radix ^ (n + n2) * radix ^ n"
    by (simp add: assms(3) flip: power_add)
  have "wval (blit r1 (n + n2) out) + radix ^ (2 * n2) * unat c'
      + radix ^ (n + n2) * wval (drop (n + n2) r1)
      = wval r1 + radix ^ (n + n2) * (wval out + radix ^ n * unat c')"
    unfolding pow using b by (simp add: algebra_simps)
  then have "wval (blit r1 (n + n2) out) + radix ^ (2 * n2) * unat c' = wval r + radix ^ n * mid"
    unfolding q(2) using v1 by (simp add: mid power_add algebra_simps)
  then have eq: "wval (blit r1 (n + n2) out) + radix ^ (2 * n2) * unat c' = wval r + radix ^ n * mid" .
  have "unat c' = 0"
  proof (rule ccontr)
    assume "unat c' \<noteq> 0"
    then have "radix ^ (2 * n2) * 1 \<le> radix ^ (2 * n2) * unat c'" by (intro mult_le_mono2) simp
    with eq fits show False by simp
  qed
  with eq show "wval (add_middle r t n n2 c) = wval r + radix ^ n * mid" by (simp add: res)
  show "length (add_middle r t n n2 c) = 2 * n2" using l2 by (simp add: res)
qed

text \<open>A part of an array after a write: the part written, and a part beside it.\<close>

definition words_at :: "nat \<Rightarrow> nat \<Rightarrow> 'a list \<Rightarrow> 'a list" where
  "words_at i n xs = take n (drop i xs)"

lemma length_words_at [simp]: "i + n \<le> length xs \<Longrightarrow> length (words_at i n xs) = n"
  by (simp add: words_at_def)

lemma words_at_drop [simp]: "words_at i n (drop j xs) = words_at (j + i) n xs"
  by (simp add: words_at_def add.commute)

lemma words_at_written: "i + length ws \<le> length d \<Longrightarrow> n = length ws \<Longrightarrow> words_at i n (blit d i ws) = ws"
  by (simp add: words_at_def blit_def)

lemma words_at_beside:
  assumes "j + n \<le> i \<or> i + length ws \<le> j" "i + length ws \<le> length d"
  shows "words_at j n (blit d i ws) = words_at j n d"
proof (cases "j + n \<le> i")
  case True
  then have "take n (drop j (blit d i ws)) = drop j (take (j + n) (blit d i ws))" by (simp add: drop_take)
  also have "take (j + n) (blit d i ws) = take (j + n) d" using True assms(2) by simp
  finally show ?thesis by (simp add: words_at_def drop_take)
next
  case False
  then show ?thesis using assms by (simp add: words_at_def drop_blit_after)
qed

lemma combine_products:
  assumes c: "combine_products r t n n2 (mask_of s) = (r', t')"
    and len: "length r = 2 * n2" "3 * n2 \<le> length t" "n2 = 2 * n"
    and A: "A = wval (words_at 0 n2 r)" and B: "B = wval (words_at n2 n2 r)" and D: "D = wval (words_at n2 n2 t)"
    and mid: "mid = (if s then A + B - D else A + B + D)" "s \<Longrightarrow> D \<le> A + B"
    and fits: "wval r + radix ^ n * mid < radix ^ (2 * n2)"
  shows "length r' = 2 * n2" "length t' = length t" "wval r' = wval r + radix ^ n * mid"
proof -
  obtain t01 c0 where w1: "bn_add_words r (drop n2 r) n2 = (t01, c0)" by fastforce
  define t1 where "t1 = blit t 0 t01"
  obtain d borrow where w2: "bn_sub_words t1 (drop n2 t1) n2 = (d, borrow)" by fastforce
  define t2 where "t2 = blit t1 (n2 * 2) d"
  obtain u carry where w3: "bn_add_words t2 (drop n2 t2) n2 = (u, carry)" by fastforce
  define t3 where "t3 = blit t2 n2 u"
  define sel where "sel = bn_select_words (mask_of s) (drop (n2 * 2) t3) (drop n2 t3) n2"
  define t4 where "t4 = blit t3 n2 sel"
  define cc where "cc = (if s then c0 - borrow else c0 + carry)"
  have res: "r' = add_middle r t4 n n2 cc" "t' = t4"
    using c by (auto simp: combine_products_def w1 w2 w3 Let_def t1_def [symmetric] t2_def [symmetric] t3_def [symmetric]
        sel_def [symmetric] t4_def [symmetric] select_w cc_def split del: if_split)
  note s1 = bn_add_words [OF w1]
  have l1: "length t01 = n2" "unat c0 \<le> 1" using s1 len by simp_all
  have v1: "wval t01 + radix ^ n2 * unat c0 = A + B"
    using s1 len(1) by (simp add: A B words_at_def)
  have t1: "length t1 = length t" "words_at 0 n2 t1 = t01" "words_at n2 n2 t1 = words_at n2 n2 t"
    using l1(1) len by (simp_all add: t1_def words_at_written words_at_beside)
  note s2 = bn_sub_words [OF w2]
  have l2: "length d = n2" "borrow = 0 \<or> borrow = 1" and v2: "wval d + D = wval t01 + radix ^ n2 * unat borrow"
    using s2 t1 len by (simp_all add: D words_at_def)
  have t2: "length t2 = length t" "words_at 0 n2 t2 = t01" "words_at n2 n2 t2 = words_at n2 n2 t" "words_at (n2 * 2) n2 t2 = d"
    using l2(1) len t1 by (simp_all add: t2_def words_at_written words_at_beside)
  note s3 = bn_add_words [OF w3]
  have l3: "length u = n2" "unat carry \<le> 1" and v3: "wval u + radix ^ n2 * unat carry = wval t01 + D"
    using s3 t2 len by (simp_all add: D words_at_def)
  have t3: "length t3 = length t" "words_at n2 n2 t3 = u" "words_at (n2 * 2) n2 t3 = d"
    using l3(1) len t2 by (simp_all add: t3_def words_at_written words_at_beside)
  have sel: "sel = (if s then d else u)"
    unfolding sel_def by (subst bn_select_words) (use t3 len in \<open>auto simp: words_at_def\<close>)
  have t4: "length t4 = length t" "words_at n2 n2 t4 = sel"
    using l2(1) l3(1) len t3 by (simp_all add: t4_def sel words_at_written)
  have m: "mid = wval sel + radix ^ n2 * unat cc" "unat cc \<le> 2"
  proof -
    have "mid = wval sel + radix ^ n2 * unat cc \<and> unat cc \<le> 2"
    proof (cases s)
      case True
      have "borrow = 0 \<or> c0 \<noteq> 0"
      proof (rule ccontr)
        assume "\<not> (borrow = 0 \<or> c0 \<noteq> 0)"
        then have "wval d + D = A + B + radix ^ n2" using v1 v2 l2(2) by auto
        then show False using mid(2) True wval_lt [of d] l2(1) by simp
      qed
      then have "unat borrow \<le> unat c0" using l2(2) by (auto simp: unat_gt_0 Suc_le_eq)
      then have e: "unat (c0 - borrow) + unat borrow = unat c0" by (simp add: unat_sub word_le_nat_alt)
      then have "wval d + D + radix ^ n2 * unat (c0 - borrow) = A + B"
        using v1 v2 by (metis (no_types, lifting) add.assoc add.commute distrib_left)
      then show ?thesis using True e l1(2) by (simp add: mid(1) sel cc_def)
    next
      case False
      have "unat (c0 + carry) = unat c0 + unat carry"
        using l1(2) l3(2) by (intro unat_add_lem [THEN iffD1]) simp
      then show ?thesis using False v1 v3 l1(2) l3(2) by (simp add: mid(1) sel cc_def algebra_simps)
    qed
    then show "mid = wval sel + radix ^ n2 * unat cc" "unat cc \<le> 2" by simp_all
  qed
  have r2: "2 < radix - 1" by (simp add: radix_def)
  note am = add_middle [OF len(1) _ len(3), of t4 mid cc, folded words_at_def, unfolded t4(1,2), OF _ m(1) fits]
  show "length r' = 2 * n2" "length t' = length t" "wval r' = wval r + radix ^ n * mid"
    using am m(2) r2 len(2) t4(1) by (simp_all add: res)
qed

lemma split_differences:
  assumes "split_differences a b n tna tnb t = (t', neg)" "n + tna \<le> length a" "n + tnb \<le> length b" "tna \<le> n" "tnb \<le> n"
    "3 * n \<le> length t"
  defines "a0 \<equiv> wval (take n a)" and "a1 \<equiv> wval (words_at n tna a)" and "b0 \<equiv> wval (take n b)" and "b1 \<equiv> wval (words_at n tnb b)"
  shows "length t' = length t" "wval (words_at 0 n t') = distance a0 a1" "wval (words_at n n t') = distance b1 b0"
    "neg = mask_of ((a0 < a1) \<noteq> (b1 < b0))"
proof -
  obtain d tmp m d' tmp' m' where w: "bn_abs_sub_part_words a (drop n a) tna (int n - int tna) = (d, tmp, m)"
    "bn_abs_sub_part_words (drop n b) b tnb (int tnb - int n) = (d', tmp', m')"
    by (metis prod_cases3)
  have la: "len_a tna (int n - int tna) = n" "len_b tna (int n - int tna) = tna" "tna + nat \<bar>int n - int tna\<bar> = n"
    and lb: "len_a tnb (int tnb - int n) = tnb" "len_b tnb (int tnb - int n) = n" "tnb + nat \<bar>int tnb - int n\<bar> = n"
    using assms(4,5) by (simp_all add: nat_diff_distrib' of_nat_diff)
  note s1 = bn_abs_sub_part_words [OF w(1), unfolded la] and s2 = bn_abs_sub_part_words [OF w(2), unfolded lb]
  have l: "length d = n" "length tmp = n" "length d' = n" "length tmp' = n"
    and v: "wval d = distance a0 a1" "wval d' = distance b1 b0" "m = mask_of (a0 < a1)" "m' = mask_of (b1 < b0)"
    using s1 s2 assms(2-5) by (simp_all add: a0_def a1_def b0_def b1_def words_at_def)
  have t': "t' = blit (blit (blit (blit t (2 * n) tmp) 0 d) (2 * n) tmp') n d'" "neg = m XOR m'"
    using assms(1) by (simp_all add: split_differences_def w Let_def)
  show "length t' = length t" using assms(6) l by (simp add: t')
  have "words_at 0 n t' = d" "words_at n n t' = d'"
    using assms(6) l by (simp_all add: t' words_at_written words_at_beside)
  with v show "wval (words_at 0 n t') = distance a0 a1" "wval (words_at n n t') = distance b1 b0" by simp_all
  show "neg = mask_of ((a0 < a1) \<noteq> (b1 < b0))" unfolding t'(2) v(3,4) by (cases "a0 < a1"; cases "b1 < b0") simp_all
qed

text \<open>The middle term of the product.\<close>

lemma karatsuba_middle:
  fixes a0 a1 b0 b1 :: nat
  defines "s \<equiv> (a0 < a1) \<noteq> (b1 < b0)" and "D \<equiv> distance a0 a1 * distance b1 b0" and "S \<equiv> a0 * b0 + a1 * b1"
  shows "(if s then S - D else S + D) = a0 * b1 + a1 * b0" "s \<Longrightarrow> D \<le> S"
proof -
  have *: "int S + (if s then - 1 else 1) * int D = int (a0 * b1 + a1 * b0)"
    unfolding s_def D_def S_def of_nat_mult of_nat_add int_distance
    by (cases "a0 < a1"; cases "b1 < b0") (simp_all add: algebra_simps)
  then show le: "D \<le> S" if s
    using that of_nat_0_le_iff [of "a0 * b1 + a1 * b0", where ?'a = int] by (simp only: if_True)
  show "(if s then S - D else S + D) = a0 * b1 + a1 * b0"
  proof (cases s)
    case True
    with * have "int S - int D = int (a0 * b1 + a1 * b0)" by simp
    with le True show ?thesis by (simp only: if_True)
  next
    case False
    with * have "int S + int D = int (a0 * b1 + a1 * b0)" by simp
    with False show ?thesis by (simp only: if_False)
  qed
qed

text \<open>
  The products of the halves, added up, are the product: \<open>r\<close> holds \<open>a0 * b0\<close> and
  \<open>a1 * b1\<close>, and \<open>t2,t3\<close> the product of the differences.
\<close>

lemma karatsuba:
  assumes "combine_products r t n n2 (mask_of ((a0 < a1) \<noteq> (b1 < b0))) = (r', t')" "n2 = 2 * n"
    "length r = 2 * n2" "3 * n2 \<le> length t"
    "wval (words_at 0 n2 r) = a0 * b0" "wval (words_at n2 n2 r) = a1 * b1" "wval (words_at n2 n2 t) = distance a0 a1 * distance b1 b0"
    "a0 < radix ^ n" "a1 < radix ^ n" "b0 < radix ^ n" "b1 < radix ^ n"
  shows "length r' = 2 * n2" "length t' = length t" "wval r' = (a0 + radix ^ n * a1) * (b0 + radix ^ n * b1)"
proof -
  define mid where "mid = a0 * b1 + a1 * b0"
  have lt: "x + radix ^ n * y < radix ^ n2" if "x < radix ^ n" "y < radix ^ n" for x y
  proof -
    have "x + radix ^ n * y < radix ^ n * Suc y" using that by simp
    also have "\<dots> \<le> radix ^ n * radix ^ n" using that by (intro mult_le_mono2) simp
    finally show ?thesis by (simp add: assms(2) mult_2 power_add)
  qed
  have "wval r = wval (words_at 0 n2 r) + radix ^ n2 * wval (words_at n2 n2 r)"
    using wval_take_drop [of n2 r] assms(3) by (simp add: words_at_def)
  then have "wval r = a0 * b0 + radix ^ (n + n) * (a1 * b1)" unfolding assms(5,6) by (simp only: assms(2) mult_2)
  then have r: "wval r + radix ^ n * mid = (a0 + radix ^ n * a1) * (b0 + radix ^ n * b1)"
    unfolding power_add mid_def by (simp only: algebra_simps)
  also have "\<dots> < radix ^ n2 * radix ^ n2" using lt assms(8-11) by (intro mult_strict_mono') simp_all
  also have "\<dots> = radix ^ (2 * n2)" by (simp add: mult_2 power_add)
  finally have fits: "wval r + radix ^ n * mid < radix ^ (2 * n2)" .
  note km = karatsuba_middle [of a0 a1 b1 b0]
  note cp = combine_products [OF assms(1,3,4,2) assms(5-7) [symmetric] km(1) [unfolded, symmetric, folded mid_def] km(2) fits]
  show "length r' = 2 * n2" "length t' = length t" "wval r' = (a0 + radix ^ n * a1) * (b0 + radix ^ n * b1)"
    using cp r by simp_all
qed

lemma bn_mul_comba4_take: "bn_mul_comba4 a b = bn_mul_comba4 (take 4 a) (take 4 b)"
  by (simp add: bn_mul_comba4_def mul_add_c_def)

lemma bn_mul_comba8_take: "bn_mul_comba8 a b = bn_mul_comba8 (take 8 a) (take 8 b)"
  by (simp add: bn_mul_comba8_def mul_add_c_def)

lemma mul_comba4:
  assumes "4 \<le> length a" "4 \<le> length b"
  shows "length (bn_mul_comba4 a b) = 8" "wval (bn_mul_comba4 a b) = wval (take 4 a) * wval (take 4 b)"
  using bn_mul_comba4 [of "take 4 a" "take 4 b"] assms by (simp_all flip: bn_mul_comba4_take)

lemma mul_comba8:
  assumes "8 \<le> length a" "8 \<le> length b"
  shows "length (bn_mul_comba8 a b) = 16" "wval (bn_mul_comba8 a b) = wval (take 8 a) * wval (take 8 b)"
  using bn_mul_comba8 [of "take 8 a" "take 8 b"] assms by (simp_all flip: bn_mul_comba8_take)

text \<open>What the recursive multiplications promise.\<close>

definition product_of :: "limbs \<Rightarrow> nat \<Rightarrow> limbs \<Rightarrow> nat \<Rightarrow> nat \<Rightarrow> limbs \<Rightarrow> limbs \<times> limbs \<Rightarrow> bool" where
  "product_of a na b nb n t rt \<longleftrightarrow> length (fst rt) = n \<and> length (snd rt) = length t \<and>
     wval (fst rt) = wval (take na a) * wval (take nb b)"

lemma product_ofD:
  assumes "product_of a na b nb n t rt" "rt = (r, t')"
  shows "length r = n" "length t' = length t" "wval r = wval (take na a) * wval (take nb b)"
  using assms by (simp_all add: product_of_def)

text \<open>The last steps of a recursive multiplication, from the products of the halves.\<close>

lemma karatsuba_level:
  assumes "split_differences a b n tna tnb t = (t1, neg)" "n + tna \<le> length a" "n + tnb \<le> length b" "tna \<le> n" "tnb \<le> n"
    "length t2 = length t" "6 * n \<le> length t" "n2 = 2 * n" "length r = 2 * n2"
    "wval (words_at 0 n2 r) = wval (take n a) * wval (take n b)"
    "wval (words_at n2 n2 r) = wval (take tna (drop n a)) * wval (take tnb (drop n b))"
    "wval (words_at n2 n2 t2) = wval (words_at 0 n t1) * wval (words_at n n t1)"
  shows "product_of a (n + tna) b (n + tnb) (2 * n2) t (combine_products r t2 n n2 neg)"
proof -
  obtain r' t' where c: "combine_products r t2 n n2 neg = (r', t')" by fastforce
  have t3: "3 * n \<le> length t" "3 * n2 \<le> length t2" using assms(6,7,8) by simp_all
  note sd = split_differences [OF assms(1-5) t3(1)]
  have lt: "wval (take tna xs) < radix ^ n" "wval (take tnb xs) < radix ^ n" for xs
    by (rule less_le_trans [OF wval_take_lt]; simp add: assms(4,5) power_increasing Suc_leI)+
  have v: "wval (words_at n2 n2 t2) = distance (wval (take n a)) (wval (words_at n tna a)) *
      distance (wval (words_at n tnb b)) (wval (take n b))"
    by (simp only: assms(12) sd(2,3))
  have h: "wval (words_at n2 n2 r) = wval (words_at n tna a) * wval (words_at n tnb b)"
    unfolding assms(11) by (simp add: words_at_def)
  have l: "wval (words_at n tna a) < radix ^ n" "wval (words_at n tnb b) < radix ^ n"
    unfolding words_at_def by (rule lt)+
  from karatsuba [OF c [unfolded sd(4)] assms(8,9) t3(2) assms(10) h v wval_take_lt l(1) wval_take_lt l(2)] assms(2,3,6)
  show ?thesis by (simp add: product_of_def c wval_take_add words_at_def [of n])
qed

lemma bn_mul_recursive:
  assumes "n2 = 2 ^ k" "- 8 \<le> dna" "dna \<le> 0" "- 8 \<le> dnb" "dnb \<le> 0" "0 \<le> int n2 + dna" "0 \<le> int n2 + dnb"
    "nat (int n2 + dna) \<le> length a" "nat (int n2 + dnb) \<le> length b" "4 * n2 \<le> length t"
  shows "product_of a (nat (int n2 + dna)) b (nat (int n2 + dnb)) (2 * n2) t (bn_mul_recursive a b n2 dna dnb t)"
  using assms
proof (induction k arbitrary: a b n2 dna dnb t)
  case 0
  have "nat (int n2 + dna) + nat (int n2 + dnb) + nat (- (dna + dnb)) = 2 * n2" using 0(3,5-7) by simp
  then show ?case
    using 0(1) bn_mul_normal [OF 0(8,9)]
    by (subst bn_mul_recursive.simps) (simp add: BN_MUL_RECURSIVE_SIZE_NORMAL_def product_of_def wval_append)
next
  case (Suc k)
  define na nb where "na = nat (int n2 + dna)" and "nb = nat (int n2 + dnb)"
  show ?case
  proof (cases "n2 < 16")
    case True
    have "na + nb + nat (- (dna + dnb)) = 2 * n2" using Suc.prems(3-7) by (simp add: na_def nb_def)
    then show ?thesis
      using True bn_mul_normal [OF Suc.prems(8,9)] mul_comba8 [of a b] Suc.prems(8,9)
      by (auto simp: bn_mul_recursive.simps [of a b n2] BN_MUL_RECURSIVE_SIZE_NORMAL_def product_of_def wval_append na_def nb_def)
  next
    case False
    define n where "n = n2 div 2"
    have n: "n = 2 ^ k" "n2 = 2 * n" "8 \<le> n" using Suc.prems(1) False by (simp_all add: n_def)
    define tna tnb where "tna = nat (int n + dna)" and "tnb = nat (int n + dnb)"
    have tn: "na = n + tna" "nb = n + tnb" "tna \<le> n" "tnb \<le> n"
      unfolding na_def nb_def tna_def tnb_def using n(2,3) Suc.prems(2-5) by linarith+
    obtain t1 neg where s: "split_differences a b n tna tnb t = (t1, neg)" by fastforce
    have la: "n + tna \<le> length a" "n + tnb \<le> length b" "3 * n \<le> length t" and t6: "6 * n \<le> length t"
      using Suc.prems(8-10) n tn by (simp_all add: na_def nb_def)
    note sd = split_differences [OF s la(1,2) tn(3,4) la(3)]
    note lev = karatsuba_level [OF s la(1,2) tn(3,4) _ t6 n(2)]
    have unf: "bn_mul_recursive a b n2 dna dnb t =
      (case (if n = 8 \<and> dna = 0 \<and> dnb = 0 then
               (bn_mul_comba8 a b @ bn_mul_comba8 (drop n a) (drop n b), blit t1 n2 (bn_mul_comba8 t1 (drop n t1)))
             else
               (let (t23, p) = bn_mul_recursive t1 (drop n t1) n 0 0 (drop (n2 * 2) t1);
                    (r01, p) = bn_mul_recursive a b n 0 0 p;
                    (r23, p) = bn_mul_recursive (drop n a) (drop n b) n dna dnb p
                in (r01 @ r23, blit (blit t1 (n2 * 2) p) n2 t23))) of (r, t) \<Rightarrow> combine_products r t n n2 neg)"
      using False n(3) s by (simp add: bn_mul_recursive.simps [of a b n2] BN_MUL_RECURSIVE_SIZE_NORMAL_def Let_def
          n_def [symmetric] tna_def [symmetric] tnb_def [symmetric] split del: if_split)
    show ?thesis
    proof (cases "n = 8 \<and> dna = 0 \<and> dnb = 0")
      case True
      then have e: "n = 8" "n2 = 16" "tna = 8" "tnb = 8" by (simp_all add: tna_def tnb_def n(2))
      have l: "8 \<le> length a" "8 \<le> length b" "16 \<le> length a" "16 \<le> length b" "64 \<le> length t"
        using la e Suc.prems(10) by simp_all
      note m = mul_comba8 [OF l(1,2)] mul_comba8 [of "drop 8 a" "drop 8 b"] mul_comba8 [of t1 "drop 8 t1"]
      have "product_of a (n + tna) b (n + tnb) (2 * n2) t
        (combine_products (bn_mul_comba8 a b @ bn_mul_comba8 (drop n a) (drop n b)) (blit t1 n2 (bn_mul_comba8 t1 (drop n t1))) n n2 neg)"
        by (rule lev) (use m l sd(1) in \<open>simp_all add: e words_at_written, simp_all add: words_at_def\<close>)
      then show ?thesis unfolding na_def [symmetric] nb_def [symmetric] unf if_P [OF True] prod.case tn(1,2) .
    next
      case F: False
      obtain t23 p1 r01 p2 r23 p3 where w: "bn_mul_recursive t1 (drop n t1) n 0 0 (drop (n2 * 2) t1) = (t23, p1)"
        "bn_mul_recursive a b n 0 0 p1 = (r01, p2)" "bn_mul_recursive (drop n a) (drop n b) n dna dnb p2 = (r23, p3)"
        by (metis prod.collapse)
      have ln: "4 * n \<le> length (drop (n2 * 2) t1)" using Suc.prems(10) sd(1) n(2) by simp
      have nn: "nat (int n + 0) = n" by simp
      note I1 = Suc.IH [of n 0 0 t1 "drop n t1" "drop (n2 * 2) t1", unfolded nn w(1)]
      have p1: "length t23 = n2" "length p1 = length (drop (n2 * 2) t1)" "wval t23 = wval (words_at 0 n t1) * wval (words_at n n t1)"
        using I1 n ln sd(1) t6 by (simp_all add: product_of_def words_at_def)
      note I2 = Suc.IH [of n 0 0 a b p1, unfolded nn w(2)]
      have p2: "length r01 = n2" "length p2 = length (drop (n2 * 2) t1)" "wval r01 = wval (take n a) * wval (take n b)"
        using I2 n ln la p1(2) by (simp_all add: product_of_def)
      have side: "0 \<le> int n + dna" "0 \<le> int n + dnb" "nat (int n + dna) \<le> length (drop n a)"
        "nat (int n + dnb) \<le> length (drop n b)" "4 * n \<le> length p2"
        using n(3) Suc.prems(2,4) la ln p2(2) unfolding tna_def tnb_def length_drop by linarith+
      note I3 = Suc.IH [OF n(1) Suc.prems(2-5) side, unfolded w(3), folded tna_def tnb_def]
      have p3: "length r23 = n2" "length p3 = length (drop (n2 * 2) t1)" "wval r23 = wval (take tna (drop n a)) * wval (take tnb (drop n b))"
        using I3 p2(2) n(2) by (simp_all add: product_of_def)
      have "product_of a (n + tna) b (n + tnb) (2 * n2) t
        (combine_products (r01 @ r23) (blit (blit t1 (n2 * 2) p3) n2 t23) n n2 neg)"
        by (rule lev) (use p1 p2 p3 ln sd(1) n(2) t6 in \<open>simp_all add: words_at_written, simp_all add: words_at_def\<close>)
      then show ?thesis unfolding na_def [symmetric] nb_def [symmetric] unf if_not_P [OF F] w Let_def prod.case tn(1,2) .
    qed
  qed
qed

lemma words_at_padded:
  assumes "i + n \<le> length d" "length ws \<le> n"
  shows "words_at i n (blit (blit d i (replicate n 0)) i ws) = ws @ replicate (n - length ws) 0"
  using assms by (simp add: words_at_def blit_def)

lemma part_level:
  assumes "part_level n tna tnb = (i, p)" "n = 2 ^ k" "tna < n" "tnb < n" "tna \<le> tnb + 1" "tnb \<le> tna + 1" "16 \<le> tna \<or> 16 \<le> tnb"
  shows "\<exists>j. i = 2 ^ j" "16 \<le> i" "2 * i \<le> n"
    "p \<Longrightarrow> i \<le> tna \<and> i \<le> tnb \<and> tna < 2 * i \<and> tnb < 2 * i"
    "\<not> p \<Longrightarrow> tna \<le> i \<and> tnb \<le> i \<and> i \<le> tna + 1 \<and> i \<le> tnb + 1"
proof -
  have "\<exists>j. i = 2 ^ j \<and> 16 \<le> i \<and> 2 * i \<le> n \<and> (p \<longrightarrow> i \<le> tna \<and> i \<le> tnb \<and> tna < 2 * i \<and> tnb < 2 * i) \<and>
    (\<not> p \<longrightarrow> tna \<le> i \<and> tnb \<le> i \<and> i \<le> tna + 1 \<and> i \<le> tnb + 1)"
    using assms
  proof (induction k arbitrary: n)
    case (Suc k)
    define h where "h = n div 2"
    have h: "h = 2 ^ k" "n = 2 * h" using Suc.prems(2) by (simp_all add: h_def)
    show ?case
    proof (cases "h < tna \<or> h < tnb")
      case True
      then have ip: "i = h" "p" using Suc.prems(1) by (simp_all add: part_level.simps [of n] h_def [symmetric])
      have "8 < h" using Suc.prems(3,4,7) h(2) by linarith
      then have "3 < k" unfolding h(1) using power_less_imp_less_exp [of "2::nat" 3 k] by simp
      then have "16 \<le> h" unfolding h(1) using power_increasing [of 4 k "2::nat"] by simp
      then show ?thesis using ip h True Suc.prems(3-6) by auto
    next
      case False
      show ?thesis
      proof (cases "h = tna \<or> h = tnb")
        case True
        then have ip: "i = h" "\<not> p" using Suc.prems(1) False by (auto simp: part_level.simps [of n] h_def [symmetric])
        then show ?thesis using h False True Suc.prems(5-7) by auto
      next
        case no: False
        then have "part_level h tna tnb = (i, p)" using Suc.prems(1) False by (simp add: part_level.simps [of n] h_def [symmetric])
        from Suc.IH [OF this h(1)] show ?thesis using no False Suc.prems(5-7) h(2) by fastforce
      qed
    qed
  qed simp
  then show "\<exists>j. i = 2 ^ j" "16 \<le> i" "2 * i \<le> n" "p \<Longrightarrow> i \<le> tna \<and> i \<le> tnb \<and> tna < 2 * i \<and> tnb < 2 * i"
    "\<not> p \<Longrightarrow> tna \<le> i \<and> tnb \<le> i \<and> i \<le> tna + 1 \<and> i \<le> tnb + 1" by blast+
qed

lemma bn_mul_part_recursive:
  assumes "n = 2 ^ k" "8 \<le> n" "tna < n" "tnb < n" "tna \<le> tnb + 1" "tnb \<le> tna + 1" "length r = 4 * n"
    "n + tna \<le> length a" "n + tnb \<le> length b" "8 * n \<le> length t"
  shows "product_of a (n + tna) b (n + tnb) (4 * n) t (bn_mul_part_recursive r a b n tna tnb t)"
  using assms
proof (induction n arbitrary: k a b tna tnb r t rule: less_induct)
  case (less n)
  define n2 where "n2 = n * 2"
  have n2: "n2 = 2 * n" "4 * n = 2 * n2" by (simp_all add: n2_def)
  obtain t1 neg where s: "split_differences a b n tna tnb t = (t1, neg)" by fastforce
  have la: "n + tna \<le> length a" "n + tnb \<le> length b" "tna \<le> n" "tnb \<le> n" "3 * n \<le> length t" "6 * n \<le> length t"
    using less.prems(3,4,8-10) by simp_all
  note sd = split_differences [OF s la(1-5)]
  note lev = karatsuba_level [OF s la(1-4) _ la(6) n2(1), folded n2(2)]
  have lh: "tna \<le> length (drop n a)" "tnb \<le> length (drop n b)" using la by simp_all
  note hi = bn_mul_normal [OF lh]
  show ?case
  proof (cases "n = 8")
    case True
    define t2 where "t2 = blit t1 n2 (bn_mul_comba8 t1 (drop n t1))"
    define r2 where "r2 = blit (blit (blit r 0 (bn_mul_comba8 a b)) n2 (bn_mul_normal (drop n a) tna (drop n b) tnb))
      (n2 + tna + tnb) (replicate (n2 - tna - tnb) 0)"
    have l: "8 \<le> length a" "8 \<le> length b" "16 \<le> length t1" "64 \<le> length t1" "length r = 32"
      using la True sd(1) less.prems(7,10) by simp_all
    note m = mul_comba8 [OF l(1,2)] mul_comba8 [of t1 "drop 8 t1"]
    have unf: "bn_mul_part_recursive r a b n tna tnb t = combine_products r2 t2 n n2 neg"
      by (subst bn_mul_part_recursive.simps) (simp add: Let_def True s [unfolded True] r2_def t2_def n2_def)
    have hi2: "words_at n2 n2 r2 = bn_mul_normal (drop n a) tna (drop n b) tnb @ replicate (n2 - tna - tnb) 0"
      using hi(1) l m(1) True la(3,4) by (simp add: r2_def n2_def words_at_def blit_def)
    show ?thesis unfolding unf
    proof (rule lev)
      show "length t2 = length t" "length r2 = 4 * n"
        using m l True hi(1) la(3,4) sd(1) by (simp_all add: t2_def r2_def n2_def)
      show "wval (words_at 0 n2 r2) = wval (take n a) * wval (take n b)"
        using m l True hi(1) la(3,4) by (simp add: r2_def n2_def words_at_beside words_at_written)
      show "wval (words_at n2 n2 r2) = wval (take tna (drop n a)) * wval (take tnb (drop n b))"
        by (simp add: hi2 wval_append hi(2))
      show "wval (words_at n2 n2 t2) = wval (words_at 0 n t1) * wval (words_at n n t1)"
        using m l True by (simp add: t2_def n2_def words_at_written) (simp add: words_at_def)
    qed
  next
    case False
    have n16: "16 \<le> n"
    proof -
      have "3 < k" using less.prems(1,2) False power_less_imp_less_exp [of "2::nat" 3 k] by simp
      then show ?thesis using less.prems(1) power_increasing [of 4 k "2::nat"] by simp
    qed
    obtain t23 p1 r01 p2 where w: "bn_mul_recursive t1 (drop n t1) n 0 0 (drop (n2 * 2) t1) = (t23, p1)"
      "bn_mul_recursive a b n 0 0 p1 = (r01, p2)" by (metis prod.collapse)
    have ln: "4 * n \<le> length (drop (n2 * 2) t1)" using less.prems(10) sd(1) n2(1) by simp
    have nn: "nat (int n + 0) = n" by simp
    note I1 = bn_mul_recursive [OF less.prems(1), of 0 0 t1 "drop n t1" "drop (n2 * 2) t1", unfolded nn w(1)]
    have p1: "length t23 = n2" "length p1 = length (drop (n2 * 2) t1)" "wval t23 = wval (words_at 0 n t1) * wval (words_at n n t1)"
      using I1 n2(1) ln sd(1) la by (simp_all add: product_of_def words_at_def)
    note I2 = bn_mul_recursive [OF less.prems(1), of 0 0 a b p1, unfolded nn w(2)]
    have p2: "length r01 = n2" "length p2 = length (drop (n2 * 2) t1)" "wval r01 = wval (take n a) * wval (take n b)"
      using I2 n2(1) ln la p1(2) by (simp_all add: product_of_def)
    define r0 where "r0 = blit (blit r 0 r01) n2 (replicate n2 0)"
    have r0: "length r0 = 4 * n" "words_at 0 n2 r0 = r01"
      using p2(1) n2(1) less.prems(7) by (simp_all add: r0_def words_at_beside words_at_written)
    have fin: "product_of a (n + tna) b (n + tnb) (4 * n) t
        (combine_products (blit r0 n2 r23) (blit (blit t1 n2 t23) (n2 * 2) p) n n2 neg)"
      if "length r23 \<le> n2" "length p = length p2" "wval r23 = wval (take tna (drop n a)) * wval (take tnb (drop n b))" for r23 p
    proof (rule lev)
      show "length (blit (blit t1 n2 t23) (n2 * 2) p) = length t" "length (blit r0 n2 r23) = 4 * n"
        using that p1 p2 sd(1) r0(1) n2(1) ln by simp_all
      show "wval (words_at 0 n2 (blit r0 n2 r23)) = wval (take n a) * wval (take n b)"
        using that(1) r0 p2(3) n2(1) by (simp add: words_at_beside)
      have "words_at n2 n2 (blit r0 n2 r23) = r23 @ replicate (n2 - length r23) 0"
        unfolding r0_def by (rule words_at_padded) (use that(1) less.prems(7) p2(1) n2(1) in simp_all)
      then show "wval (words_at n2 n2 (blit r0 n2 r23)) = wval (take tna (drop n a)) * wval (take tnb (drop n b))"
        by (simp add: wval_append that(3))
      show "wval (words_at n2 n2 (blit (blit t1 n2 t23) (n2 * 2) p)) = wval (words_at 0 n t1) * wval (words_at n n t1)"
        using that(2) p1 p2(2) ln n2(1) by (simp add: words_at_beside words_at_written)
    qed
    have unf: "bn_mul_part_recursive r a b n tna tnb t =
      (case (if tna < 16 \<and> tnb < 16 then (blit r0 n2 (bn_mul_normal (drop n a) tna (drop n b) tnb), blit (blit t1 n2 t23) (n2 * 2) p2)
             else (let i = fst (part_level n tna tnb)
                   in if snd (part_level n tna tnb) then
                        (let (r23, p) = bn_mul_part_recursive (take (4 * i) (drop n2 r0)) (drop n a) (drop n b) i (tna - i) (tnb - i) p2
                         in (blit r0 n2 r23, blit (blit t1 n2 t23) (n2 * 2) p))
                      else
                        (let (r23, p) = bn_mul_recursive (drop n a) (drop n b) i (int tna - int i) (int tnb - int i) p2
                         in (blit r0 n2 r23, blit (blit t1 n2 t23) (n2 * 2) p)))) of (r, t) \<Rightarrow> combine_products r t n n2 neg)"
      using n16 s w by (subst bn_mul_part_recursive.simps)
        (simp add: BN_MUL_RECURSIVE_SIZE_NORMAL_def Let_def n2_def [symmetric] r0_def split del: if_split cong: if_cong)
    show ?thesis
    proof (cases "tna < 16 \<and> tnb < 16")
      case True
      then show ?thesis unfolding unf if_P [OF True] prod.case using hi la n2(1) by (intro fin) simp_all
    next
      case big: False
      obtain i p where ip: "part_level n tna tnb = (i, p)" by fastforce
      note pl = part_level [OF ip less.prems(1,3-6)]
      obtain j where i: "i = 2 ^ j" "16 \<le> i" "2 * i \<le> n" using pl(1-3) big by auto
      show ?thesis
      proof (cases p)
        case True
        have b: "i \<le> tna" "i \<le> tnb" "tna < 2 * i" "tnb < 2 * i" using pl(4) True big by auto
        obtain r23 p3 where v: "bn_mul_part_recursive (take (4 * i) (drop n2 r0)) (drop n a) (drop n b) i (tna - i) (tnb - i) p2 = (r23, p3)"
          by fastforce
        have "product_of (drop n a) (i + (tna - i)) (drop n b) (i + (tnb - i)) (4 * i) p2 (r23, p3)"
          unfolding v [symmetric] by (rule less.IH [OF _ i(1)]) (use b i n2(1) r0 la p2(2) ln less.prems(5,6) in simp_all)
        then show ?thesis unfolding unf if_not_P [OF big] ip Let_def prod.case fst_conv snd_conv if_P [OF True] v
          using b i n2(1) by (intro fin) (simp_all add: product_of_def)
      next
        case np: False
        have b: "tna \<le> i" "tnb \<le> i" "i \<le> tna + 1" "i \<le> tnb + 1" using pl(5) np big by auto
        have ge: "- 8 \<le> int tna - int i" "- 8 \<le> int tnb - int i" using b(3,4) by linarith+
        obtain r23 p3 where v: "bn_mul_recursive (drop n a) (drop n b) i (int tna - int i) (int tnb - int i) p2 = (r23, p3)"
          by fastforce
        have "product_of (drop n a) (nat (int i + (int tna - int i))) (drop n b) (nat (int i + (int tnb - int i))) (2 * i) p2 (r23, p3)"
          unfolding v [symmetric] by (rule bn_mul_recursive [OF i(1)]) (use b ge i(2,3) n2(1) r0 la p2(2) ln in simp_all)
        then show ?thesis unfolding unf if_not_P [OF big] ip Let_def prod.case fst_conv snd_conv if_not_P [OF np] v
          using b i n2(1) by (intro fin) (simp_all add: product_of_def)
      qed
    qed
  qed
qed

section \<open>Squaring\<close>

text \<open>The products of different limbs, each pair once.\<close>

primrec cross_val :: "limbs \<Rightarrow> nat" where
  "cross_val [] = 0"
| "cross_val (x # xs) = radix * (unat x * wval xs) + radix * radix * cross_val xs"

lemma wval_square: "wval xs * wval xs = 2 * cross_val xs + squares_val xs"
  by (induction xs) (simp_all add: algebra_simps)

lemma sqr_normal_step:
  assumes "k + 1 < n" "n \<le> length a" "length r = n + k"
    "wval r + radix ^ (2 * k) * cross_val (drop k (take n a)) = v"
  shows "length (sqr_normal_step a n k r) = n + Suc k"
    "wval (sqr_normal_step a n k r) + radix ^ (2 * Suc k) * cross_val (drop (Suc k) (take n a)) = v"
proof -
  obtain ws c where w: "bn_mul_add_words (drop (2 * k + 1) r) (drop (k + 1) a) (n - 1 - k) (a ! k) = (ws, c)" by fastforce
  have le: "n - 1 - k \<le> length (drop (2 * k + 1) r)" "n - 1 - k \<le> length (drop (k + 1) a)" using assms(1-3) by simp_all
  note m = bn_mul_add_words [OF w le]
  have rest: "take (n - 1 - k) (drop (2 * k + 1) r) = drop (2 * k + 1) r" using assms(1,3) by simp
  have d: "drop k (take n a) = a ! k # drop (Suc k) (take n a)" using Cons_nth_drop_Suc [of k "take n a"] assms(1,2) by simp
  have tl: "take (n - 1 - k) (drop (k + 1) a) = drop (Suc k) (take n a)" by (simp add: drop_take)
  have res: "sqr_normal_step a n k r = take (2 * k + 1) r @ ws @ [c]" by (simp only: sqr_normal_step_def w Let_def prod.case)
  show "length (sqr_normal_step a n k r) = n + Suc k" using assms(1,3) m(1) by (simp add: res)
  have lt: "length (take (2 * k + 1) r) = 2 * k + 1" using assms(1,3) by simp
  have "wval (sqr_normal_step a n k r) = wval (take (2 * k + 1) r) + radix ^ (2 * k + 1) * (wval ws + radix ^ (n - 1 - k) * unat c)"
    unfolding res wval_append lt m(1) by simp
  also have "\<dots> = wval r + radix ^ (2 * k + 1) * (unat (a ! k) * wval (drop (Suc k) (take n a)))"
    unfolding m(2) rest tl using wval_take_drop [of "2 * k + 1" r] assms(1,3) by (simp add: algebra_simps)
  finally show "wval (sqr_normal_step a n k r) + radix ^ (2 * Suc k) * cross_val (drop (Suc k) (take n a)) = v"
    using assms(4) unfolding d by (simp add: algebra_simps)
qed

lemma sqr_normal_cross:
  assumes "0 < n" "n \<le> length a"
  defines "r1 \<equiv> if n > 1 then (let (ws, c) = bn_mul_words (drop 1 a) (n - 1) (a ! 0) in [0] @ ws @ [c]) else [0]"
  defines "r2 \<equiv> if n > 2 then fold (sqr_normal_step a n) [1..<n - 1] r1 else r1"
  shows "length r2 = 2 * n - 1" "wval r2 = cross_val (take n a)"
proof -
  define P where "P = (\<lambda>k r. length r = n + k \<and>
    wval r + radix ^ (2 * k) * cross_val (drop k (take n a)) = cross_val (take n a))"
  have P1: "P 1 r1" if n: "1 < n"
  proof -
    obtain ws c where w: "bn_mul_words (drop 1 a) (n - 1) (a ! 0) = (ws, c)" by fastforce
    have le: "n - 1 \<le> length (drop 1 a)" using assms(2) by simp
    note m = bn_mul_words [OF w le]
    have d: "take n a = a ! 0 # drop 1 (take n a)" using assms(1,2) by (cases a; cases n) simp_all
    have tl: "take (n - 1) (drop 1 a) = drop 1 (take n a)" by (simp add: drop_take)
    have e: "r1 = [0] @ ws @ [c]" using n unfolding r1_def by (simp only: w Let_def prod.case if_True)
    have "wval r1 = radix * (unat (a ! 0) * wval (drop 1 (take n a)))"
      using m(2) unfolding tl e by (simp add: wval_append m(1) algebra_simps)
    moreover have "cross_val (take n a) = radix * (unat (a ! 0) * wval (drop 1 (take n a))) + radix * radix * cross_val (drop 1 (take n a))"
      using arg_cong [OF d, of cross_val] by simp
    ultimately show ?thesis using m(1) n by (simp add: P_def e power2_eq_square)
  qed
  have "P (n - 1) r2"
  proof (cases "n = 1")
    case True
    then have "take n a = [a ! 0]" using assms(2) by (cases a) auto
    with True show ?thesis by (simp add: r2_def r1_def P_def)
  next
    case False
    then have n1: "1 < n" using assms(1) by simp
    have "P (n - 1) (fold (sqr_normal_step a n) [1..<n - 1] r1)"
    proof (rule fold_upt_invariant)
      show "P (Suc k) (sqr_normal_step a n k s)" if "1 \<le> k" "k < n - 1" "P k s" for k s
        using sqr_normal_step [of k n a s] that assms(2) unfolding P_def by simp
    qed (use n1 P1 in simp_all)
    then show ?thesis using n1 by (cases "n = 2") (simp_all add: r2_def)
  qed
  moreover have "cross_val (drop (n - 1) (take n a)) = 0"
  proof -
    have "length (drop (n - 1) (take n a)) = 1" using assms(1,2) by simp
    then obtain x where "drop (n - 1) (take n a) = [x]" by (metis One_nat_def length_0_conv length_Suc_conv)
    then show ?thesis by simp
  qed
  ultimately show "length r2 = 2 * n - 1" "wval r2 = cross_val (take n a)" using assms(1) by (simp_all add: P_def)
qed

lemma add_words_fits:
  assumes "bn_add_words a b n = (r, c)" "length a = n" "length b = n" "wval a + wval b < radix ^ n"
  shows "length r = n" "wval r = wval a + wval b"
proof -
  have le: "n \<le> length a" "n \<le> length b" using assms(2,3) by simp_all
  note s = bn_add_words [OF assms(1) le]
  have "unat c = 0"
  proof (rule ccontr)
    assume "unat c \<noteq> 0"
    then have "radix ^ n * 1 \<le> radix ^ n * unat c" by (intro mult_le_mono2) simp
    with s(2) assms(2-4) show False by simp
  qed
  with s assms(2,3) show "length r = n" "wval r = wval a + wval b" by simp_all
qed

lemma bn_sqr_normal:
  assumes "n \<le> length a"
  shows "length (fst (bn_sqr_normal a n)) = 2 * n" "wval (fst (bn_sqr_normal a n)) = wval (take n a) * wval (take n a)"
    "length (snd (bn_sqr_normal a n)) = 2 * n"
proof -
  define r1 where "r1 = (if n > 1 then (let (ws, c) = bn_mul_words (drop 1 a) (n - 1) (a ! 0) in [0] @ ws @ [c]) else [0])"
  define r2 where "r2 = (if n > 2 then fold (sqr_normal_step a n) [1..<n - 1] r1 else r1)"
  obtain r3 c3 where w3: "bn_add_words (r2 @ [0]) (r2 @ [0]) (n * 2) = (r3, c3)" by fastforce
  obtain r4 c4 where w4: "bn_add_words r3 (bn_sqr_words a n) (n * 2) = (r4, c4)" by fastforce
  have "length (fst (bn_sqr_normal a n)) = 2 * n \<and> wval (fst (bn_sqr_normal a n)) = wval (take n a) * wval (take n a) \<and>
    length (snd (bn_sqr_normal a n)) = 2 * n"
  proof (cases "n = 0")
    case False
    then have r2: "length r2 = 2 * n - 1" "wval r2 = cross_val (take n a)"
      using sqr_normal_cross [OF _ assms, folded r1_def, folded r2_def] by simp_all
    have res: "bn_sqr_normal a n = (r4, bn_sqr_words a n)"
    proof -
      have "bn_sqr_normal a n = (let (r, _) = bn_add_words (r2 @ [0]) (r2 @ [0]) (n * 2); tmp = bn_sqr_words a n;
          (r, _) = bn_add_words r tmp (n * 2) in (r, tmp))"
        using False unfolding r2_def r1_def by (simp only: bn_sqr_normal_def Let_def if_False)
      then show ?thesis by (simp add: w3 w4)
    qed
    have fits: "2 * cross_val (take n a) + squares_val (take n a) < radix ^ (n * 2)"
    proof -
      have "wval (take n a) * wval (take n a) < radix ^ n * radix ^ n" using wval_take_lt [of n a] by (intro mult_strict_mono') simp_all
      then show ?thesis by (simp add: wval_square mult_2_right power_add)
    qed
    have r3: "length r3 = n * 2" "wval r3 = 2 * cross_val (take n a)"
      using add_words_fits [OF w3] r2 False fits by (simp_all add: wval_append)
    have "length r4 = n * 2" "wval r4 = 2 * cross_val (take n a) + squares_val (take n a)"
      using add_words_fits [OF w4] r3 fits bn_sqr_words [OF assms] by simp_all
    then show ?thesis using bn_sqr_words [OF assms] by (simp add: res wval_square)
  qed (simp add: bn_sqr_normal_def)
  then show "length (fst (bn_sqr_normal a n)) = 2 * n" "wval (fst (bn_sqr_normal a n)) = wval (take n a) * wval (take n a)"
    "length (snd (bn_sqr_normal a n)) = 2 * n" by blast+
qed

lemma bn_sqr_comba4_take: "bn_sqr_comba4 a = bn_sqr_comba4 (take 4 a)"
  by (simp add: bn_sqr_comba4_def sqr_entry_def sqr_add_c_def sqr_add_c2_def)

lemma bn_sqr_comba8_take: "bn_sqr_comba8 a = bn_sqr_comba8 (take 8 a)"
  by (simp add: bn_sqr_comba8_def sqr_entry_def sqr_add_c_def sqr_add_c2_def)

lemma sqr_comba:
  "4 \<le> length a \<Longrightarrow> length (bn_sqr_comba4 a) = 8" "4 \<le> length a \<Longrightarrow> wval (bn_sqr_comba4 a) = wval (take 4 a) * wval (take 4 a)"
  "8 \<le> length a \<Longrightarrow> length (bn_sqr_comba8 a) = 16" "8 \<le> length a \<Longrightarrow> wval (bn_sqr_comba8 a) = wval (take 8 a) * wval (take 8 a)"
  using bn_sqr_comba4 [of "take 4 a"] bn_sqr_comba8 [of "take 8 a"]
  by (simp_all flip: bn_sqr_comba4_take bn_sqr_comba8_take)

text \<open>In a square, the middle term is \<open>a0\<^sup>2 + a1\<^sup>2 - |a0 - a1|\<^sup>2\<close>.\<close>

lemma square_middle: "distance x y * distance x y + 2 * x * y = x * x + y * y"
proof -
  have "int (distance x y * distance x y + 2 * x * y) = int (x * x + y * y)"
    unfolding of_nat_mult of_nat_add int_distance by (simp add: algebra_simps)
  then show ?thesis by (simp only: of_nat_eq_iff)
qed

lemma bn_sqr_recursive:
  assumes "n2 = 2 ^ k" "n2 \<le> length a" "4 * n2 \<le> length t"
  shows "product_of a n2 a n2 (2 * n2) t (bn_sqr_recursive a n2 t)"
  using assms
proof (induction k arbitrary: a n2 t)
  case 0
  then show ?case using bn_sqr_normal [of 1 a]
    by (subst bn_sqr_recursive.simps) (cases "bn_sqr_normal a n2"; simp add: BN_MUL_RECURSIVE_SIZE_NORMAL_def product_of_def)
next
  case (Suc k)
  show ?case
  proof (cases "n2 < 16")
    case True
    then show ?thesis using bn_sqr_normal [of n2 a] sqr_comba [of a] Suc.prems(2,3)
      by (subst bn_sqr_recursive.simps) (cases "bn_sqr_normal a n2"; simp add: BN_MUL_RECURSIVE_SIZE_NORMAL_def product_of_def)
  next
    case False
    define n where "n = n2 div 2"
    have n: "n = 2 ^ k" "n2 = 2 * n" "8 \<le> n" using Suc.prems(1) False by (simp_all add: n_def)
    obtain d tmp where w0: "bn_abs_sub_words a (drop n a) n = (d, tmp)" by fastforce
    define t1 where "t1 = blit (blit t n tmp) 0 d"
    obtain t23 p1 r01 p2 r23 p3 where w: "bn_sqr_recursive t1 n (drop (n2 * 2) t1) = (t23, p1)"
      "bn_sqr_recursive a n p1 = (r01, p2)" "bn_sqr_recursive (drop n a) n p2 = (r23, p3)" by (metis prod.collapse)
    define t2 r where "t2 = blit (blit t1 (n2 * 2) p3) n2 t23" and "r = r01 @ r23"
    obtain s c where w1: "bn_add_words r (drop n2 r) n2 = (s, c)" by fastforce
    define t3 where "t3 = blit t2 0 s"
    obtain m borrow where w2: "bn_sub_words t3 (drop n2 t3) n2 = (m, borrow)" by fastforce
    define t4 where "t4 = blit t3 n2 m"
    have unf: "bn_sqr_recursive a n2 t = (add_middle r t4 n n2 (c - borrow), t4)"
      using False by (subst bn_sqr_recursive.simps) (simp add: BN_MUL_RECURSIVE_SIZE_NORMAL_def Let_def n_def [symmetric]
          w0 t1_def [symmetric] w t2_def [symmetric] r_def [symmetric] w1 t3_def [symmetric] w2 t4_def [symmetric] del: drop_append)
    define a0 a1 where "a0 = wval (take n a)" and "a1 = wval (take n (drop n a))"
    have la: "n \<le> length a" "n \<le> length (drop n a)" using Suc.prems(2) n(2) by simp_all
    note s0 = bn_abs_sub_words [OF w0 la, folded a0_def a1_def]
    have t1: "length t1 = length t" "take n t1 = d" using s0 Suc.prems(3) n(2) by (simp_all add: t1_def blit_def)
    have ln: "4 * n \<le> length (drop (n2 * 2) t1)" "n \<le> length t1" using t1(1) n(2) Suc.prems(3) by simp_all
    note I1 = Suc.IH [OF n(1) ln(2,1), unfolded w(1)]
    have p1: "length t23 = n2" "length p1 = length (drop (n2 * 2) t1)" "wval t23 = distance a0 a1 * distance a0 a1"
      using I1 n(2) t1(2) s0(3) by (simp_all add: product_of_def)
    note I2 = Suc.IH [OF n(1) la(1), of p1, unfolded w(2)]
    have p2: "length r01 = n2" "length p2 = length (drop (n2 * 2) t1)" "wval r01 = a0 * a0"
      using I2 n(2) ln(1) p1(2) by (simp_all add: product_of_def a0_def)
    note I3 = Suc.IH [OF n(1) la(2), of p2, unfolded w(3)]
    have p3: "length r23 = n2" "length p3 = length (drop (n2 * 2) t1)" "wval r23 = a1 * a1"
      using I3 n(2) ln(1) p2(2) by (simp_all add: product_of_def a1_def)
    have r: "length r = 2 * n2" "wval (take n2 r) = a0 * a0" "wval (take n2 (drop n2 r)) = a1 * a1" "wval r = a0 * a0 + radix ^ n2 * (a1 * a1)"
      using p2 p3 by (simp_all add: r_def wval_append)
    have t2: "length t2 = length t" "words_at n2 n2 t2 = t23"
      using p1(1) p3(2) ln n(2) t1(1) by (simp_all add: t2_def words_at_written)
    have lr: "n2 \<le> length r" "n2 \<le> length (drop n2 r)" using r(1) by simp_all
    note s1 = bn_add_words [OF w1 lr, unfolded r(2,3)]
    have t3: "length t3 = length t" "take n2 t3 = s" "words_at n2 n2 t3 = t23"
      using s1(1) t2 Suc.prems(3) by (simp_all add: t3_def words_at_beside take_blit_end) (simp add: blit_def)
    have l3: "n2 \<le> length t3" "n2 \<le> length (drop n2 t3)" using t3(1) Suc.prems(3) by simp_all
    note s2 = bn_sub_words [OF w2 l3, unfolded t3(2), folded words_at_def [of n2 n2 t3], unfolded t3(3) p1(3)]
    have "words_at n2 n2 t4 = m" using s2(1) t3(1) Suc.prems(3) by (simp add: t4_def words_at_written)
    then have t4: "length t4 = length t" "take n2 (drop n2 t4) = m"
      using s2(1) t3(1) Suc.prems(3) by (simp_all add: t4_def words_at_def)
    have sum: "wval m + distance a0 a1 * distance a0 a1 + radix ^ n2 * unat c = a0 * a0 + a1 * a1 + radix ^ n2 * unat borrow"
      using s1(2) s2(2) by linarith
    have "unat borrow \<le> unat c"
    proof (rule ccontr)
      assume "\<not> unat borrow \<le> unat c"
      then have "unat borrow = 1" "unat c = 0" using s2(3) by auto
      then show False using sum square_middle [of a0 a1] wval_lt [of m] s2(1) by simp
    qed
    then have cb: "unat (c - borrow) + unat borrow = unat c" by (simp add: unat_sub word_le_nat_alt)
    have "wval m + radix ^ n2 * unat (c - borrow) + (distance a0 a1 * distance a0 a1 + radix ^ n2 * unat borrow)
      = 2 * a0 * a1 + (distance a0 a1 * distance a0 a1 + radix ^ n2 * unat borrow)"
    proof -
      have "radix ^ n2 * unat (c - borrow) + radix ^ n2 * unat borrow = radix ^ n2 * unat c"
        by (simp only: cb flip: distrib_left)
      then show ?thesis using sum square_middle [of a0 a1] by linarith
    qed
    then have mid: "2 * a0 * a1 = wval (take n2 (drop n2 t4)) + radix ^ n2 * unat (c - borrow)" by (simp add: t4(2))
    have sq: "wval (take n2 a) * wval (take n2 a) = wval r + radix ^ n * (2 * a0 * a1)"
    proof -
      have "wval (take n2 a) = a0 + radix ^ n * a1"
        unfolding n(2) mult_2 a0_def a1_def by (rule wval_take_add [OF la(1)])
      then show ?thesis unfolding r(4) n(2) mult_2 power_add by (simp only: algebra_simps)
    qed
    have fits: "wval r + radix ^ n * (2 * a0 * a1) < radix ^ (2 * n2)"
    proof -
      have "wval (take n2 a) * wval (take n2 a) < radix ^ n2 * radix ^ n2"
        using wval_take_lt [of n2 a] by (intro mult_strict_mono') simp_all
      then show ?thesis by (simp only: sq mult_2 power_add)
    qed
    have c1: "unat (c - borrow) + 1 < radix" using cb s1(3) by (simp add: radix_def)
    have l4: "2 * n2 \<le> length t4" using t4(1) Suc.prems(3) by simp
    from add_middle [OF r(1) l4 n(2) mid fits c1] sq t4(1) show ?thesis by (simp add: unf product_of_def)
  qed
qed

section \<open>Correctness for big numbers\<close>

text \<open>A context that serves the first \<open>k\<close> requests.\<close>

definition ctx_ready :: "bn_ctx \<Rightarrow> nat \<Rightarrow> bool" where
  "ctx_ready ctx k \<longleftrightarrow> (\<forall>i<k. \<exists>bn. ctx i = Some bn \<and> bn_expandable bn)"

lemma BN_CTX_get: "ctx_ok ctx \<Longrightarrow> BN_CTX_get ctx i = Some bn \<Longrightarrow> bn_ok bn \<and> bn_abs bn = 0 \<and> \<not> bn_neg bn \<and> bn_width bn = 0"
  by (auto simp: BN_CTX_get_def ctx_ok_def bn_zero_ok bn_abs_def BN_zero_def bn_ok_def)

lemma ctx_ready: "ctx_ready ctx k \<Longrightarrow> i < k \<Longrightarrow> \<exists>bn. BN_CTX_get ctx i = Some bn \<and> bn_expandable bn"
  by (force simp: ctx_ready_def BN_CTX_get_def BN_zero_def bn_expandable_def)

lemma ctx_from: "ctx_ok ctx \<Longrightarrow> ctx_ok (ctx_from k ctx)" "ctx_ready ctx (k + m) \<Longrightarrow> ctx_ready (ctx_from k ctx) m"
  by (auto simp: ctx_ok_def ctx_from_def ctx_ready_def)

lemma bn_written_part:
  assumes "bn_ok bn" "n \<le> length ws" "length ws \<le> bn_dmax bn" "wval ws < radix ^ n"
  shows "bn_ok (bn\<lparr>bn_d := blit (bn_d bn) 0 ws, bn_width := n, bn_neg := s\<rparr>)"
    "bn_abs (bn\<lparr>bn_d := blit (bn_d bn) 0 ws, bn_width := n, bn_neg := s\<rparr>) = wval ws"
proof -
  show "bn_ok (bn\<lparr>bn_d := blit (bn_d bn) 0 ws, bn_width := n, bn_neg := s\<rparr>)" using assms by (auto simp: bn_ok_def)
  have "wval (take n ws) = wval ws" using wval_take [OF assms(2)] assms(4) by simp
  then show "bn_abs (bn\<lparr>bn_d := blit (bn_d bn) 0 ws, bn_width := n, bn_neg := s\<rparr>) = wval ws"
    using assms(2,3) by (simp add: bn_abs_def blit_def)
qed

lemma bn_neg_same: "bn\<lparr>bn_d := d, bn_width := n, bn_neg := bn_neg bn\<rparr> = bn\<lparr>bn_d := d, bn_width := n\<rparr>"
  by simp

lemma abs_product_lt: "bn_ok a \<Longrightarrow> bn_ok b \<Longrightarrow> bn_abs a * bn_abs b < radix ^ (bn_width a + bn_width b)"
  using bn_abs_lt [of a] bn_abs_lt [of b] by (simp add: power_add mult_strict_mono')

text \<open>Writing a product of \<open>a\<close> and \<open>b\<close> into a number that has been expanded.\<close>

lemma product_written:
  assumes "bn_wexpand e rr n = Some rr1" "bn_ok rr" "bn_ok a" "bn_ok b" "length ws \<le> n" "bn_width a + bn_width b \<le> length ws"
    "wval ws = bn_abs a * bn_abs b"
  shows "bn_ok (rr1\<lparr>bn_d := blit (bn_d rr1) 0 ws, bn_width := bn_width a + bn_width b\<rparr>)"
    "bn_abs (rr1\<lparr>bn_d := blit (bn_d rr1) 0 ws, bn_width := bn_width a + bn_width b\<rparr>) = bn_abs a * bn_abs b"
proof -
  note W = bn_wexpand [OF assms(1,2)]
  have le: "length ws \<le> bn_dmax rr1" using W(2) assms(5) by simp
  have lt: "wval ws < radix ^ (bn_width a + bn_width b)" unfolding assms(7) by (rule abs_product_lt [OF assms(3,4)])
  note B = bn_written_part [OF W(1) assms(6) le lt, of "bn_neg rr1"]
  show "bn_ok (rr1\<lparr>bn_d := blit (bn_d rr1) 0 ws, bn_width := bn_width a + bn_width b\<rparr>)"
    "bn_abs (rr1\<lparr>bn_d := blit (bn_d rr1) 0 ws, bn_width := bn_width a + bn_width b\<rparr>) = bn_abs a * bn_abs b"
    using B [unfolded bn_neg_same] assms(7) by simp_all
qed

text \<open>The power of two below a length.\<close>

lemma top_power:
  assumes "0 < m"
  shows "2 ^ (bit_len m - 1) \<le> m" "m < 2 * 2 ^ (bit_len m - 1)"
proof -
  show "2 ^ (bit_len m - 1) \<le> m" using bit_len_ge [of m] assms by simp
  have "bit_len m \<noteq> 0" using bit_len_lt [of m] assms by (metis gr_implies_not0 less_one power_0)
  then have "2 * 2 ^ (bit_len m - 1) = (2 :: nat) ^ bit_len m" by (metis Suc_diff_1 gr0I power_Suc)
  then show "m < 2 * 2 ^ (bit_len m - 1)" using bit_len_lt [of m] by simp
qed

text \<open>What \<open>mul_into\<close> promises of its result.\<close>

definition product_into :: "bignum \<Rightarrow> bignum \<Rightarrow> bignum \<Rightarrow> bool \<times> bignum \<Rightarrow> bool" where
  "product_into rr a b res \<longleftrightarrow> bn_ok (snd res) \<and> bn_flags (snd res) = bn_flags rr \<and>
     bn_neg (snd res) = (bn_neg a \<noteq> bn_neg b) \<and>
     (fst res \<longrightarrow> bn_abs (snd res) = bn_abs a * bn_abs b \<and> bn_width (snd res) = bn_width a + bn_width b)"

lemma product_into_fails: "bn_ok rr \<Longrightarrow> product_into rr a b (False, rr\<lparr>bn_neg := bn_neg a \<noteq> bn_neg b\<rparr>)"
  by (simp add: product_into_def bn_ok_def)

lemma product_into_written:
  assumes "bn_wexpand e (rr\<lparr>bn_neg := bn_neg a \<noteq> bn_neg b\<rparr>) n = Some rr1" "bn_ok rr" "bn_ok a" "bn_ok b" "length ws \<le> n"
    "bn_width a + bn_width b \<le> length ws" "wval ws = bn_abs a * bn_abs b"
  shows "product_into rr a b (True, rr1\<lparr>bn_d := blit (bn_d rr1) 0 ws, bn_width := bn_width a + bn_width b\<rparr>)"
proof -
  have ok: "bn_ok (rr\<lparr>bn_neg := bn_neg a \<noteq> bn_neg b\<rparr>)" using assms(2) by (simp add: bn_ok_def)
  note P = product_written [OF assms(1) ok assms(3-7)]
  show ?thesis unfolding product_into_def fst_conv snd_conv
    by (intro conjI impI) (use P bn_wexpand(5,6) [OF assms(1) ok] in simp_all)
qed

lemma mul_into:
  assumes "bn_ok rr" "bn_ok a" "bn_ok b" "ctx_ok ctx" "0 < bn_width a" "0 < bn_width b"
  shows "product_into rr a b (mul_into e ctx rr a b)"
    "heap_generous e \<Longrightarrow> bn_expandable rr \<Longrightarrow> ctx_ready ctx 1 \<Longrightarrow> 8 * max (bn_width a) (bn_width b) \<le> bn_max_words \<Longrightarrow>
      fst (mul_into e ctx rr a b)"
proof -
  define al bl where "al = bn_width a" and "bl = bn_width b"
  define rr0 where "rr0 = rr\<lparr>bn_neg := bn_neg a \<noteq> bn_neg b\<rparr>"
  have la: "al \<le> length (bn_d a)" "bl \<le> length (bn_d b)" using assms(2,3) bn_okD(3) by (simp_all add: al_def bl_def)
  have va: "wval (take al (bn_d a)) = bn_abs a" "wval (take bl (bn_d b)) = bn_abs b" by (simp_all add: al_def bl_def bn_abs_def)
  note F = product_into_fails [OF assms(1), of a b, folded rr0_def]
  note Wr = product_into_written [where e = e and rr = rr and a = a and b = b, folded rr0_def al_def bl_def, OF _ assms(1-3)]
  have ex: "bn_expandable rr0 = bn_expandable rr" by (simp add: rr0_def bn_expandable_def)
  define Q where "Q = (\<lambda>x. product_into rr a b x \<and>
    (heap_generous e \<longrightarrow> bn_expandable rr \<longrightarrow> ctx_ready ctx 1 \<longrightarrow> 8 * max al bl \<le> bn_max_words \<longrightarrow> fst x))"
  have QT: "Q (True, r)" if "product_into rr a b (True, r)" for r using that by (simp add: Q_def)
  have QF: "Q (False, rr0)" if "heap_generous e \<Longrightarrow> bn_expandable rr \<Longrightarrow> ctx_ready ctx 1 \<Longrightarrow> 8 * max al bl \<le> bn_max_words \<Longrightarrow> False"
    using that F by (auto simp: Q_def)
  have QW: "Q (case bn_wexpand e rr0 n of None \<Rightarrow> (False, rr0)
      | Some rr \<Rightarrow> (True, rr\<lparr>bn_d := blit (bn_d rr) 0 (ws rr), bn_width := al + bl\<rparr>))"
    if "\<And>rr. length (bn_d rr) \<ge> n \<Longrightarrow> length (ws rr) \<le> n \<and> al + bl \<le> length (ws rr) \<and> wval (ws rr) = bn_abs a * bn_abs b"
      "n \<le> 8 * max al bl" for n and ws :: "bignum \<Rightarrow> limbs"
  proof (cases "bn_wexpand e rr0 n")
    case None
    then show ?thesis using that(2) bn_wexpand_fails [OF None] ex by (auto intro!: QF)
  next
    case (Some rr1)
    have "bn_ok rr0" using assms(1) by (simp add: rr0_def bn_ok_def)
    from that(1) [OF bn_wexpand(3) [OF Some this]] Wr [OF Some] Some show ?thesis by (auto intro!: QT)
  qed
  have "Q (mul_into e ctx rr a b)"
  proof (cases "al = bl \<and> al = 8")
    case True
    have "mul_into e ctx rr a b = (case bn_wexpand e rr0 16 of None \<Rightarrow> (False, rr0)
      | Some rr \<Rightarrow> (True, rr\<lparr>bn_d := blit (bn_d rr) 0 (bn_mul_comba8 (bn_d a) (bn_d b)), bn_width := al + bl\<rparr>))"
      using True by (simp add: mul_into_def Let_def rr0_def al_def bl_def split: option.split)
    also have "Q \<dots>"
    proof (rule QW)
      have "al = 8" "bl = 8" using True by simp_all
      then show "length (bn_mul_comba8 (bn_d a) (bn_d b)) \<le> 16 \<and> al + bl \<le> length (bn_mul_comba8 (bn_d a) (bn_d b)) \<and>
          wval (bn_mul_comba8 (bn_d a) (bn_d b)) = bn_abs a * bn_abs b" for rr :: bignum
        using mul_comba8 [of "bn_d a" "bn_d b"] la va by simp
    qed (use True in simp)
    finally show ?thesis .
  next
    case n8: False
    then have c1: "\<not> (int al - int bl = 0 \<and> al = 8)" by simp
    define m where "m = max al bl"
    define j :: nat where "j = 2 ^ (bit_len m - 1)"
    show ?thesis
    proof (cases "16 \<le> al \<and> 16 \<le> bl \<and> al \<le> bl + 1 \<and> bl \<le> al + 1")
      case False
      then have c2: "\<not> (16 \<le> al \<and> 16 \<le> bl \<and> - 1 \<le> int al - int bl \<and> int al - int bl \<le> 1)" by linarith
      have "mul_into e ctx rr a b = (case bn_wexpand e rr0 (al + bl) of None \<Rightarrow> (False, rr0)
        | Some rr \<Rightarrow> (True, rr\<lparr>bn_d := blit (bn_d rr) 0 (bn_mul_normal (bn_d a) al (bn_d b) bl), bn_width := al + bl\<rparr>))"
        unfolding mul_into_def Let_def al_def [symmetric] bl_def [symmetric] rr0_def [symmetric] if_not_P [OF c1] if_not_P [OF c2] ..
      also have "Q \<dots>" by (rule QW) (use bn_mul_normal [OF la] va in simp_all)
      finally show ?thesis .
    next
      case True
      then have c2: "16 \<le> al \<and> 16 \<le> bl \<and> - 1 \<le> int al - int bl \<and> int al - int bl \<le> 1" by linarith
      have m: "16 \<le> m" "al \<le> m" "bl \<le> m" "m \<le> al + 1" "m \<le> bl + 1"
        using True by (auto simp: m_def le_max_iff_disj)
      have j: "j \<le> m" "m < 2 * j" using top_power [of m] m(1) by (simp_all add: j_def)
      have "al < 2 ^ 64" "bl < 2 ^ 64" using bn_ok_width_lt [OF assms(2)] bn_ok_width_lt [OF assms(3)] by (simp_all add: al_def bl_def)
      then have jw: "2 ^ (BN_num_bits_word (if int al - int bl \<ge> 0 then of_nat al else of_nat bl) - 1) = j"
        by (simp add: j_def m_def BN_num_bits_word unat_of_nat take_bit_nat_eq_self max_def)
      show ?thesis
      proof (cases "BN_CTX_get ctx 0")
        case None
        have "mul_into e ctx rr a b = (False, rr0)"
          unfolding mul_into_def Let_def al_def [symmetric] bl_def [symmetric] rr0_def [symmetric] if_not_P [OF c1] if_P [OF c2] None
          by simp
        also have "Q \<dots>" using ctx_ready [of ctx 1 0] None by (intro QF) auto
        finally show ?thesis .
      next
        case (Some t)
        have tk: "bn_ok t" using BN_CTX_get [OF assms(4) Some] by simp
        have te: "bn_expandable t" if "ctx_ready ctx 1" using ctx_ready [OF that, of 0] Some by simp
        define big where "big = (al > j \<or> bl > j)"
        define ws where "ws = (\<lambda>(t' :: bignum) (rr :: bignum). fst (if big then bn_mul_part_recursive (take (j * 4) (bn_d rr)) (bn_d a) (bn_d b) j (al - j) (bl - j) (bn_d t')
          else bn_mul_recursive (bn_d a) (bn_d b) j (int al - int j) (int bl - int j) (bn_d t')))"
        define k :: nat where "k = (if big then 4 else 2)"
        have e: "mul_into e ctx rr a b = (case bn_wexpand e t (j * (2 * k)) of None \<Rightarrow> (False, rr0)
          | Some t' \<Rightarrow> (case bn_wexpand e rr0 (j * k) of None \<Rightarrow> (False, rr0)
            | Some rr \<Rightarrow> (True, rr\<lparr>bn_d := blit (bn_d rr) 0 (ws t' rr), bn_width := al + bl\<rparr>)))"
          unfolding mul_into_def Let_def al_def [symmetric] bl_def [symmetric] rr0_def [symmetric] if_not_P [OF c1] if_P [OF c2] Some jw
          by (cases big) (simp_all add: ws_def k_def cong: option.case_cong flip: big_def)
        show ?thesis
        proof (cases "bn_wexpand e t (j * (2 * k))")
          case None
          have "j * (2 * k) \<le> 8 * max al bl" using j(1) by (simp add: k_def m_def [symmetric])
          then show ?thesis using bn_wexpand_fails [OF None] te None by (auto simp: e intro!: QF)
        next
          case (Some t')
          have lt: "j * (2 * k) \<le> length (bn_d t')" by (rule bn_wexpand(3) [OF Some tk])
          have jp: "j = 2 ^ (bit_len m - 1)" by (simp add: j_def)
          have ws: "length (ws t' rr1) = j * k \<and> wval (ws t' rr1) = bn_abs a * bn_abs b" if "j * k \<le> length (bn_d rr1)" for rr1
          proof (cases big)
            case True
            then have ge: "j \<le> al" "j \<le> bl" using m(2-5) by (auto simp: big_def)
            have "product_of (bn_d a) (j + (al - j)) (bn_d b) (j + (bl - j)) (4 * j) (bn_d t')
              (bn_mul_part_recursive (take (j * 4) (bn_d rr1)) (bn_d a) (bn_d b) j (al - j) (bl - j) (bn_d t'))"
              by (rule bn_mul_part_recursive [OF jp]) (use ge j m la that lt True in \<open>simp_all add: k_def\<close>)
            with True ge va show ?thesis by (simp add: ws_def k_def product_of_def)
          next
            case False
            then have le: "al \<le> j" "bl \<le> j" by (simp_all add: big_def)
            have "product_of (bn_d a) (nat (int j + (int al - int j))) (bn_d b) (nat (int j + (int bl - int j))) (2 * j) (bn_d t')
              (bn_mul_recursive (bn_d a) (bn_d b) j (int al - int j) (int bl - int j) (bn_d t'))"
              by (rule bn_mul_recursive [OF jp]) (use le j m la that lt False in \<open>simp_all add: k_def\<close>)
            with False va show ?thesis by (simp add: ws_def k_def product_of_def)
          qed
          have "al + bl \<le> j * k" using m(2-5) j by (auto simp: k_def big_def)
          then show ?thesis unfolding e using Some ws j(1) by (auto simp: k_def m_def [symmetric] intro!: QW)
        qed
      qed
    qed
  qed
  then show "product_into rr a b (mul_into e ctx rr a b)"
    "heap_generous e \<Longrightarrow> bn_expandable rr \<Longrightarrow> ctx_ready ctx 1 \<Longrightarrow> 8 * max (bn_width a) (bn_width b) \<le> bn_max_words \<Longrightarrow>
      fst (mul_into e ctx rr a b)"
    by (simp_all add: Q_def al_def bl_def)
qed

lemma bn_mul_impl:
  assumes "bn_ok r" "bn_ok a" "bn_ok b" "ctx_ok ctx"
  shows "bn_mul_impl e ctx alias r a b = Some (ok, r') \<Longrightarrow>
      bn_ok r' \<and> bn_flags r' = bn_flags r \<and> (ok \<longrightarrow> bn_abs r' = bn_abs a * bn_abs b \<and>
        (bn_abs r' \<noteq> 0 \<longrightarrow> bn_neg r' = (bn_neg a \<noteq> bn_neg b)) \<and> bn_width r' \<le> bn_width a + bn_width b \<and>
        (\<not> bn_neg a \<longrightarrow> \<not> bn_neg b \<longrightarrow> \<not> bn_neg r'))"
    and "heap_generous e \<Longrightarrow> bn_expandable r \<Longrightarrow> ctx_ready ctx 2 \<Longrightarrow> 8 * max (bn_width a) (bn_width b) \<le> bn_max_words \<Longrightarrow>
      \<exists>r'. bn_mul_impl e ctx alias r a b = Some (True, r')"
proof -
  define S where "S = (heap_generous e \<and> bn_expandable r \<and> ctx_ready ctx 2 \<and> 8 * max (bn_width a) (bn_width b) \<le> bn_max_words)"
  define Q where "Q = (\<lambda>ok r'. bn_ok r' \<and> bn_flags r' = bn_flags r \<and> (ok \<longrightarrow> bn_abs r' = bn_abs a * bn_abs b \<and>
        (bn_abs r' \<noteq> 0 \<longrightarrow> bn_neg r' = (bn_neg a \<noteq> bn_neg b)) \<and> bn_width r' \<le> bn_width a + bn_width b \<and>
        (\<not> bn_neg a \<longrightarrow> \<not> bn_neg b \<longrightarrow> \<not> bn_neg r')))"
  have "(\<forall>ok r'. bn_mul_impl e ctx alias r a b = Some (ok, r') \<longrightarrow> Q ok r') \<and> (S \<longrightarrow> (\<exists>r'. bn_mul_impl e ctx alias r a b = Some (True, r')))"
  proof (cases "bn_width a = 0 \<or> bn_width b = 0")
    case True
    then have "bn_abs a * bn_abs b = 0" using bn_abs_width_0 by auto
    with True bn_zero_ok [of r] assms(1) show ?thesis by (auto simp: bn_mul_impl_def Q_def BN_zero_def)
  next
    case ne: False
    then have w: "0 < bn_width a" "0 < bn_width b" by auto
    show ?thesis
    proof (cases "alias")
      case False
      have "Q (fst (mul_into e ctx r a b)) (snd (mul_into e ctx r a b))"
        using mul_into(1) [OF assms w, of e] by (auto simp: product_into_def Q_def)
      moreover have "S \<longrightarrow> fst (mul_into e ctx r a b)"
        using mul_into(2) [OF assms w, of e] by (auto simp: S_def ctx_ready_def)
      ultimately show ?thesis using ne False by (cases "mul_into e ctx r a b") (auto simp: bn_mul_impl_def)
    next
      case True
      show ?thesis
      proof (cases "BN_CTX_get ctx 0")
        case None
        then show ?thesis using True ne ctx_ready [of ctx 2 0] by (auto simp: bn_mul_impl_def S_def)
      next
        case (Some rr)
        have rr: "bn_ok rr" using BN_CTX_get [OF assms(4) Some] by simp
        obtain ok1 rr1 where m: "mul_into e (ctx_from 1 ctx) rr a b = (ok1, rr1)" by fastforce
        obtain ok2 r2 where c: "BN_copy e r rr1 = (ok2, r2)" by fastforce
        have P: "product_into rr a b (ok1, rr1)"
          using mul_into(1) [OF rr assms(2,3) ctx_from(1) [OF assms(4)] w, of e 1] by (simp only: m)
        then have ok1: "bn_ok rr1" by (simp add: product_into_def)
        have res: "bn_mul_impl e ctx alias r a b = Some (if ok1 then (ok2, r2) else (False, r))"
          using ne True Some m c by (simp add: bn_mul_impl_def)
        have "Q (ok1 \<and> ok2) (if ok1 then r2 else r)"
          using P BN_copy [OF c assms(1) ok1] assms(1) by (auto simp: Q_def product_into_def)
        moreover have "S \<longrightarrow> ok1 \<and> ok2"
        proof
          assume S: S
          then obtain rr' where "BN_CTX_get ctx 0 = Some rr'" "bn_expandable rr'"
            using ctx_ready [of ctx 2 0] by (auto simp: S_def)
          then have "bn_expandable rr" using Some by simp
          moreover have "ctx_ready (ctx_from 1 ctx) 1" using S by (intro ctx_from) (simp add: S_def flip: numeral_2_eq_2)
          ultimately have ok1: ok1 using mul_into(2) [OF rr assms(2,3) ctx_from(1) [OF assms(4)] w, of e 1] S by (simp add: S_def m [simplified])
          moreover have ok2 using BN_copy_succeeds [of e r rr1] S \<open>bn_ok rr1\<close> by (simp add: S_def c)
          ultimately show "ok1 \<and> ok2" ..
        qed
        ultimately show ?thesis by (auto simp: res split: if_splits)
      qed
    qed
  qed
  then show "bn_mul_impl e ctx alias r a b = Some (ok, r') \<Longrightarrow>
      bn_ok r' \<and> bn_flags r' = bn_flags r \<and> (ok \<longrightarrow> bn_abs r' = bn_abs a * bn_abs b \<and>
        (bn_abs r' \<noteq> 0 \<longrightarrow> bn_neg r' = (bn_neg a \<noteq> bn_neg b)) \<and> bn_width r' \<le> bn_width a + bn_width b \<and>
        (\<not> bn_neg a \<longrightarrow> \<not> bn_neg b \<longrightarrow> \<not> bn_neg r'))"
    and "heap_generous e \<Longrightarrow> bn_expandable r \<Longrightarrow> ctx_ready ctx 2 \<Longrightarrow> 8 * max (bn_width a) (bn_width b) \<le> bn_max_words \<Longrightarrow>
      \<exists>r'. bn_mul_impl e ctx alias r a b = Some (True, r')"
    by (auto simp: Q_def S_def)
qed

lemma signed_product: "bn_abs r = bn_abs a * bn_abs b \<Longrightarrow> (bn_abs r \<noteq> 0 \<Longrightarrow> bn_neg r = (bn_neg a \<noteq> bn_neg b)) \<Longrightarrow>
    bn_val r = bn_val a * bn_val b"
  by (cases "bn_abs r = 0") (auto simp: bn_val_def)

text \<open>\<open>BN_mul\<close> has no result exactly when it would use the null pointer.\<close>

lemma BN_mul_None:
  "BN_mul e ctx alias r a b = None \<longleftrightarrow> alias \<and> bn_width a \<noteq> 0 \<and> bn_width b \<noteq> 0 \<and> BN_CTX_get ctx 0 = None"
  by (auto simp: BN_mul_def bn_mul_impl_def split: option.splits prod.splits if_splits)

lemma BN_mul:
  assumes "bn_ok r" "bn_ok a" "bn_ok b" "ctx_ok ctx"
  shows "BN_mul e ctx alias r a b = Some (ok, r') \<Longrightarrow> bn_result r ok r' (bn_val a * bn_val b) (bn_width a + bn_width b)"
    "heap_generous e \<Longrightarrow> bn_expandable r \<Longrightarrow> ctx_ready ctx 2 \<Longrightarrow> 8 * max (bn_width a) (bn_width b) \<le> bn_max_words \<Longrightarrow>
      \<exists>r'. BN_mul e ctx alias r a b = Some (True, r')"
proof -
  show "bn_result r ok r' (bn_val a * bn_val b) (bn_width a + bn_width b)" if m: "BN_mul e ctx alias r a b = Some (ok, r')"
  proof -
    obtain r1 where i: "bn_mul_impl e ctx alias r a b = Some (ok, r1)" "r' = (if ok then bn_set_minimal_width r1 else r1)"
      using m by (auto simp: BN_mul_def split: option.splits if_splits)
    note I = bn_mul_impl(1) [OF assms i(1)]
    have "ok \<Longrightarrow> bn_val r1 = bn_val a * bn_val b" using I by (intro signed_product) auto
    with I bn_set_minimal_width [of r1] show ?thesis by (auto simp: bn_result_def i(2))
  qed
  show "\<exists>r'. BN_mul e ctx alias r a b = Some (True, r')" if "heap_generous e" "bn_expandable r" "ctx_ready ctx 2"
    "8 * max (bn_width a) (bn_width b) \<le> bn_max_words"
    using bn_mul_impl(2) [OF assms that, of "alias"] by (auto simp: BN_mul_def)
qed

lemma bn_mul_consttime:
  assumes "bn_mul_consttime e ctx alias r a b = Some (ok, r')" "bn_ok r" "bn_ok a" "bn_ok b" "ctx_ok ctx"
  shows "bn_ok r'" "bn_flags r' = bn_flags r"
    "ok \<Longrightarrow> \<not> bn_neg a \<and> \<not> bn_neg b \<and> \<not> bn_neg r' \<and> bn_abs r' = bn_abs a * bn_abs b \<and> bn_width r' \<le> bn_width a + bn_width b"
  using assms bn_mul_impl(1) [OF assms(2-5), of e "alias" ok r']
  by (auto simp: bn_mul_consttime_def split: if_splits)

lemma bn_mul_small:
  assumes "bn_mul_small num_r a num_a b num_b = Some r" "num_a \<le> length a" "num_b \<le> length b"
  shows "length r = num_r" "wval r = wval (take num_a a) * wval (take num_b b)"
  using assms bn_mul_normal [OF assms(2,3)] mul_comba8 [of a b]
  by (auto simp: bn_mul_small_def split: if_splits)

lemma bn_sqr_small:
  assumes "bn_sqr_small num_r a num_a = Some r" "num_a \<le> length a"
  shows "length r = num_r" "wval r = wval (take num_a a) * wval (take num_a a)" "num_a \<le> BN_SMALL_MAX_WORDS"
  using assms bn_sqr_normal [OF assms(2)] sqr_comba [of a]
  by (auto simp: bn_sqr_small_def split: if_splits)

lemma BN_mul_word:
  assumes "BN_mul_word e bn w = (ok, bn')" "bn_ok bn"
  shows "bn_ok bn'" "bn_flags bn' = bn_flags bn" "ok \<Longrightarrow> bn_val bn' = bn_val bn * int (unat w)" "ok \<Longrightarrow> bn_width bn' \<le> bn_width bn + 1"
    "heap_generous e \<Longrightarrow> bn_expandable bn \<Longrightarrow> bn_width bn < bn_max_words \<Longrightarrow> ok"
proof -
  have "bn_ok bn' \<and> bn_flags bn' = bn_flags bn \<and> (ok \<longrightarrow> bn_val bn' = bn_val bn * int (unat w) \<and> bn_width bn' \<le> bn_width bn + 1) \<and>
    (heap_generous e \<longrightarrow> bn_expandable bn \<longrightarrow> bn_width bn < bn_max_words \<longrightarrow> ok)"
  proof (cases "bn_width bn = 0 \<or> w = 0")
    case True
    then show ?thesis using assms bn_zero_ok [of bn] bn_abs_width_0 [of bn]
      by (auto simp: BN_mul_word_def bn_val_def BN_zero_def split: if_splits)
  next
    case False
    obtain ws ll where m: "bn_mul_words (bn_d bn) (bn_width bn) w = (ws, ll)" by fastforce
    note M = bn_mul_words [OF m bn_okD(3) [OF assms(2)]]
    define b1 where "b1 = bn\<lparr>bn_d := blit (bn_d bn) 0 ws\<rparr>"
    have b1: "bn_ok b1" "bn_abs b1 = wval ws" "bn_width b1 = bn_width bn" "bn_neg b1 = bn_neg bn" "bn_flags b1 = bn_flags bn"
      using assms(2) M(1) bn_okD(3) [OF assms(2)] by (auto simp: b1_def bn_ok_def bn_abs_def blit_def)
    have v: "wval ws + radix ^ bn_width bn * unat ll = bn_abs bn * unat w" using M(2) by (simp add: bn_abs_def)
    show ?thesis
    proof (cases "ll = 0")
      case True
      then have "ok" "bn' = b1" using assms(1) False m by (simp_all add: BN_mul_word_def b1_def)
      with b1 v True show ?thesis by (auto simp: bn_val_def simp del: of_nat_unat)
    next
      case ll: False
      show ?thesis
      proof (cases "bn_wexpand e b1 (bn_width bn + 1)")
        case None
        then have "\<not> ok" "bn' = b1" using assms(1) False m ll by (simp_all add: BN_mul_word_def b1_def)
        then show ?thesis using b1 bn_wexpand_fails [OF None] bn_expandable_flags [OF b1(5)] by auto
      next
        case (Some b2)
        note W = bn_wexpand [OF Some b1(1)]
        have res: "ok" "bn' = b2\<lparr>bn_d := (bn_d b2)[bn_width b2 := ll], bn_width := bn_width b2 + 1\<rparr>"
          using assms(1) False m ll Some by (simp_all add: BN_mul_word_def b1_def)
        have w2: "bn_width b2 = bn_width bn" "bn_width b2 < length (bn_d b2)" using W(3,4) b1(3) by simp_all
        then have "take (Suc (bn_width b2)) ((bn_d b2)[bn_width b2 := ll]) = take (bn_width b2) (bn_d b2) @ [ll]"
          by (simp add: take_Suc_conv_app_nth)
        then have "bn_abs bn' = bn_abs b2 + radix ^ bn_width bn * unat ll"
          using w2 by (simp add: res(2) bn_abs_def wval_snoc)
        then have a: "bn_abs bn' = bn_abs bn * unat w" using v W(8) b1(2) by simp
        have "bn_ok bn'" using W(1,2) w2 by (auto simp: res(2) bn_ok_def)
        then show ?thesis using a res(1) W b1 w2 by (simp add: res(2) bn_val_def del: of_nat_unat)
      qed
    qed
  qed
  then show "bn_ok bn'" "bn_flags bn' = bn_flags bn" "ok \<Longrightarrow> bn_val bn' = bn_val bn * int (unat w)" "ok \<Longrightarrow> bn_width bn' \<le> bn_width bn + 1"
    "heap_generous e \<Longrightarrow> bn_expandable bn \<Longrightarrow> bn_width bn < bn_max_words \<Longrightarrow> ok" by blast+
qed

text \<open>A power of two is a number that has no bit in common with its predecessor.\<close>

lemma and_pred_power: "n \<noteq> 0 \<Longrightarrow> n AND (n - 1) = 0 \<Longrightarrow> \<exists>k. n = 2 ^ k" for n :: nat
proof (induction n rule: less_induct)
  case (less n)
  show ?case
  proof (cases "even n")
    case True
    then obtain m where m: "n = 2 * m" by blast
    then have "m \<noteq> 0" "m < n" using less.prems(1) by simp_all
    have "(n AND (n - 1)) div 2 = m AND (m - 1)"
    proof -
      have h: "(2 * m - 1) div 2 = m - 1" using \<open>m \<noteq> 0\<close> by linarith
      have "(n AND (n - 1)) div 2 = (n div 2) AND ((n - 1) div 2)" by (subst and_rec) simp
      then show ?thesis unfolding m h by simp
    qed
    then obtain k where "m = 2 ^ k" using less.IH [OF \<open>m < n\<close> \<open>m \<noteq> 0\<close>] less.prems(2) by auto
    then show ?thesis using m by (intro exI [of _ "Suc k"]) simp
  next
    case False
    then obtain m where m: "n = 2 * m + 1" by (elim oddE)
    have "n AND (n - 1) = 2 * m" by (subst and_rec) (simp add: m and_rec)
    then have "m = 0" using less.prems(2) by simp
    then show ?thesis using m by (intro exI [of _ 0]) simp
  qed
qed

lemma sqr_into:
  assumes "bn_ok rr" "bn_ok tmp" "bn_ok a" "0 < bn_width a"
  shows "bn_ok (snd (sqr_into e rr tmp a))" "bn_flags (snd (sqr_into e rr tmp a)) = bn_flags rr"
    "fst (sqr_into e rr tmp a) \<Longrightarrow> bn_abs (snd (sqr_into e rr tmp a)) = bn_abs a * bn_abs a \<and> \<not> bn_neg (snd (sqr_into e rr tmp a)) \<and>
      bn_width (snd (sqr_into e rr tmp a)) = 2 * bn_width a"
    "heap_generous e \<Longrightarrow> bn_expandable rr \<Longrightarrow> bn_expandable tmp \<Longrightarrow> 4 * bn_width a \<le> bn_max_words \<Longrightarrow> fst (sqr_into e rr tmp a)"
proof -
  define al where "al = bn_width a"
  have la: "al \<le> length (bn_d a)" using assms(3) bn_okD(3) by (simp add: al_def)
  have va: "wval (take al (bn_d a)) = bn_abs a" by (simp add: al_def bn_abs_def)
  define S where "S = (heap_generous e \<and> bn_expandable rr \<and> bn_expandable tmp \<and> 4 * al \<le> bn_max_words)"
  define Q where "Q = (\<lambda>x. bn_ok (snd x) \<and> bn_flags (snd x) = bn_flags rr \<and>
     (fst x \<longrightarrow> bn_abs (snd x) = bn_abs a * bn_abs a \<and> \<not> bn_neg (snd x) \<and> bn_width (snd x) = 2 * al) \<and> (S \<longrightarrow> fst x))"
  have "Q (sqr_into e rr tmp a)"
  proof (cases "bn_wexpand e rr (2 * al)")
    case None
    then show ?thesis using assms(1) bn_wexpand_fails [OF None] by (auto simp: sqr_into_def al_def [symmetric] Q_def S_def)
  next
    case (Some rr1)
    note W = bn_wexpand [OF Some assms(1)]
    define d where "d = (if al = 4 then Some (bn_sqr_comba4 (bn_d a))
                       else if al = 8 then Some (bn_sqr_comba8 (bn_d a))
                       else if al < BN_MUL_RECURSIVE_SIZE_NORMAL then Some (fst (bn_sqr_normal (bn_d a) al))
                       else if al AND (al - 1) = 0 then
                         map_option (\<lambda>tmp. fst (bn_sqr_recursive (bn_d a) al (bn_d tmp))) (bn_wexpand e tmp (al * 4))
                       else map_option (\<lambda>_. fst (bn_sqr_normal (bn_d a) al)) (bn_wexpand e tmp (2 * al)))"
    have res: "sqr_into e rr tmp a = (case d of None \<Rightarrow> (False, rr1)
        | Some ws \<Rightarrow> (True, rr1\<lparr>bn_d := blit (bn_d rr1) 0 ws, bn_neg := False, bn_width := 2 * al\<rparr>))"
      by (simp only: sqr_into_def Let_def al_def [symmetric] Some option.case d_def)
    have rec: "length (fst (bn_sqr_recursive (bn_d a) al (bn_d t))) = 2 * al \<and> wval (fst (bn_sqr_recursive (bn_d a) al (bn_d t))) = bn_abs a * bn_abs a"
      if "al AND (al - 1) = 0" "bn_wexpand e tmp (al * 4) = Some t" for t
    proof -
      have "\<exists>k. al = 2 ^ k" by (rule and_pred_power [OF _ that(1)]) (use assms(4) in \<open>simp add: al_def\<close>)
      then obtain k where "al = 2 ^ k" by blast
      from bn_sqr_recursive [OF this la, of "bn_d t"] bn_wexpand(3) [OF that(2) assms(2)] va show ?thesis
        by (simp add: product_of_def mult.commute [of al])
    qed
    have nrm: "length (fst (bn_sqr_normal (bn_d a) al)) = 2 * al \<and> wval (fst (bn_sqr_normal (bn_d a) al)) = bn_abs a * bn_abs a"
      using bn_sqr_normal [OF la] va by simp
    have ds: "length ws = 2 * al \<and> wval ws = bn_abs a * bn_abs a" if "d = Some ws" for ws
    proof (cases "al = 4 \<or> al = 8")
      case True
      then show ?thesis using that sqr_comba [of "bn_d a"] la va by (auto simp: d_def)
    next
      case False
      then show ?thesis using that nrm rec by (auto simp: d_def split: if_splits)
    qed
    have dn: "d \<noteq> None" if S
      using that bn_wexpand_fails [of e tmp "al * 4"] bn_wexpand_fails [of e tmp "2 * al"] by (auto simp: d_def S_def)
    show ?thesis
    proof (cases d)
      case None
      then show ?thesis using dn W(1,6) by (auto simp: res Q_def)
    next
      case (Some ws)
      note D = ds [OF Some]
      have e: "rr1\<lparr>bn_d := blit (bn_d rr1) 0 ws, bn_neg := False, bn_width := 2 * al\<rparr> =
          rr1\<lparr>bn_d := blit (bn_d rr1) 0 ws, bn_width := 2 * al, bn_neg := False\<rparr>" by simp
      have "sqr_into e rr tmp a = (True, rr1\<lparr>bn_d := blit (bn_d rr1) 0 ws, bn_width := 2 * al, bn_neg := False\<rparr>)"
        by (simp add: res Some)
      with bn_written [OF W(1) D [THEN conjunct1] W(2), of False] D W(6) show ?thesis by (simp add: Q_def)
    qed
  qed
  then show "bn_ok (snd (sqr_into e rr tmp a))" "bn_flags (snd (sqr_into e rr tmp a)) = bn_flags rr"
    "fst (sqr_into e rr tmp a) \<Longrightarrow> bn_abs (snd (sqr_into e rr tmp a)) = bn_abs a * bn_abs a \<and> \<not> bn_neg (snd (sqr_into e rr tmp a)) \<and>
      bn_width (snd (sqr_into e rr tmp a)) = 2 * bn_width a"
    "heap_generous e \<Longrightarrow> bn_expandable rr \<Longrightarrow> bn_expandable tmp \<Longrightarrow> 4 * bn_width a \<le> bn_max_words \<Longrightarrow> fst (sqr_into e rr tmp a)"
    by (simp_all add: Q_def S_def al_def)
qed

lemma bn_sqr_consttime:
  assumes "bn_sqr_consttime e ctx alias r a = (ok, r')" "bn_ok r" "bn_ok a" "ctx_ok ctx"
  shows "bn_ok r'" "bn_flags r' = bn_flags r"
    "ok \<Longrightarrow> bn_abs r' = bn_abs a * bn_abs a \<and> \<not> bn_neg r' \<and> bn_width r' = 2 * bn_width a"
    "heap_generous e \<Longrightarrow> bn_expandable r \<Longrightarrow> ctx_ready ctx 2 \<Longrightarrow> 4 * bn_width a \<le> bn_max_words \<Longrightarrow> ok"
proof -
  define S where "S = (heap_generous e \<and> bn_expandable r \<and> ctx_ready ctx 2 \<and> 4 * bn_width a \<le> bn_max_words)"
  have "bn_ok r' \<and> bn_flags r' = bn_flags r \<and> (ok \<longrightarrow> bn_abs r' = bn_abs a * bn_abs a \<and> \<not> bn_neg r' \<and> bn_width r' = 2 * bn_width a)
    \<and> (S \<longrightarrow> ok)"
  proof (cases "bn_width a = 0")
    case True
    then show ?thesis using assms(1,2) bn_abs_width_0 [of a] by (auto simp: bn_sqr_consttime_def bn_ok_def bn_abs_def)
  next
    case False
    then have w: "0 < bn_width a" by simp
    define i where "i = (if alias then 1 else 0 :: nat)"
    have rd: "\<exists>bn. BN_CTX_get ctx k = Some bn \<and> bn_expandable bn" if S "k < 2" for k
      using ctx_ready [of ctx 2 k] that by (simp add: S_def)
    show ?thesis
    proof (cases "(alias \<and> BN_CTX_get ctx 0 = None) \<or> BN_CTX_get ctx i = None")
      case True
      have "\<not> S" using True rd [of 0] rd [of i] by (auto simp: i_def split: if_splits)
      moreover have "\<not> ok" "r' = r"
        using True assms(1) False by (auto simp: bn_sqr_consttime_def i_def split: option.splits if_splits)
      ultimately show ?thesis using assms(2) by simp
    next
      case got: False
      then obtain tmp where t: "BN_CTX_get ctx i = Some tmp" by auto
      have tk: "bn_ok tmp" using BN_CTX_get [OF assms(4) t] by simp
      have te: "S \<Longrightarrow> bn_expandable tmp" using rd [of i] t by (auto simp: i_def)
      show ?thesis
      proof (cases "alias")
        case False
        then have e: "sqr_into e r tmp a = (ok, r')"
          using assms(1) w t by (auto simp: bn_sqr_consttime_def i_def split: prod.splits)
        from sqr_into [OF assms(2) tk assms(3) w, of e] te show ?thesis by (auto simp: e S_def)
      next
        case True
        then obtain rr where rr: "BN_CTX_get ctx 0 = Some rr" using got by auto
        have rk: "bn_ok rr" using BN_CTX_get [OF assms(4) rr] by simp
        have re: "S \<Longrightarrow> bn_expandable rr" using rd [of 0] rr by auto
        obtain ok1 rr1 where s: "sqr_into e rr tmp a = (ok1, rr1)" by fastforce
        have res: "(if ok1 then BN_copy e r rr1 else (False, r)) = (ok, r')"
          using assms(1) w t rr True s by (simp add: bn_sqr_consttime_def i_def)
        have I: "bn_ok rr1" "ok1 \<Longrightarrow> bn_abs rr1 = bn_abs a * bn_abs a \<and> \<not> bn_neg rr1 \<and> bn_width rr1 = 2 * bn_width a" "S \<Longrightarrow> ok1"
          using sqr_into [OF rk tk assms(3) w, of e] te re by (auto simp: s S_def)
        show ?thesis
        proof (cases ok1)
          case True
          then have c: "BN_copy e r rr1 = (ok, r')" using res by simp
          have "S \<Longrightarrow> ok" using BN_copy_succeeds [of e r rr1] I(1) by (simp add: c S_def)
          then show ?thesis using BN_copy [OF c assms(2) I(1)] I(2) True by auto
        next
          case False
          then show ?thesis using res assms(2) I(3) by auto
        qed
      qed
    qed
  qed
  then show "bn_ok r'" "bn_flags r' = bn_flags r"
    "ok \<Longrightarrow> bn_abs r' = bn_abs a * bn_abs a \<and> \<not> bn_neg r' \<and> bn_width r' = 2 * bn_width a"
    "heap_generous e \<Longrightarrow> bn_expandable r \<Longrightarrow> ctx_ready ctx 2 \<Longrightarrow> 4 * bn_width a \<le> bn_max_words \<Longrightarrow> ok"
    by (simp_all add: S_def)
qed

lemma BN_sqr:
  assumes "BN_sqr e ctx alias r a = (ok, r')" "bn_ok r" "bn_ok a" "ctx_ok ctx"
  shows "bn_result r ok r' (bn_val a * bn_val a) (2 * bn_width a)"
    "heap_generous e \<Longrightarrow> bn_expandable r \<Longrightarrow> ctx_ready ctx 2 \<Longrightarrow> 4 * bn_width a \<le> bn_max_words \<Longrightarrow> ok"
proof -
  obtain r1 where s: "bn_sqr_consttime e ctx alias r a = (ok, r1)" "r' = (if ok then bn_set_minimal_width r1 else r1)"
    using assms(1) by (auto simp: BN_sqr_def split: prod.splits if_splits)
  note S = bn_sqr_consttime [OF s(1) assms(2-4)]
  have "ok \<Longrightarrow> bn_val r1 = bn_val a * bn_val a" using S(3) by (simp add: bn_val_def)
  with S(1-3) bn_set_minimal_width [OF S(1)] show "bn_result r ok r' (bn_val a * bn_val a) (2 * bn_width a)"
    by (cases ok) (auto simp: bn_result_def s(2))
  show "heap_generous e \<Longrightarrow> bn_expandable r \<Longrightarrow> ctx_ready ctx 2 \<Longrightarrow> 4 * bn_width a \<le> bn_max_words \<Longrightarrow> ok" by (rule S(4))
qed

lemma bn_abs_sub_consttime:
  assumes "bn_abs_sub_consttime e ctx r a b = (ok, r')" "bn_ok r" "bn_ok a" "bn_ok b" "ctx_ok ctx"
  shows "bn_ok r'" "bn_flags r' = bn_flags r" "bn_neg r' = bn_neg r"
    "ok \<Longrightarrow> bn_abs r' = distance (bn_abs a) (bn_abs b) \<and> bn_width r' = max (bn_width a) (bn_width b)"
    "heap_generous e \<Longrightarrow> bn_expandable r \<Longrightarrow> ctx_ready ctx 1 \<Longrightarrow> ok"
proof -
  define n where "n = max (bn_width a) (bn_width b)"
  have nm: "n \<le> bn_max_words" using assms(3,4) by (auto simp: bn_ok_def n_def)
  define cl dl where "cl = min (bn_width a) (bn_width b)" and "dl = int (bn_width a) - int (bn_width b)"
  have la: "len_a cl dl = bn_width a" "len_b cl dl = bn_width b" "cl + nat \<bar>dl\<bar> = n"
    by (auto simp: cl_def dl_def n_def min_def max_def)
  have ex: "ctx_ready ctx 1 \<Longrightarrow> \<exists>t. BN_CTX_get ctx 0 = Some t \<and> bn_expandable t" using ctx_ready [of ctx 1 0] by simp
  have "bn_ok r' \<and> bn_flags r' = bn_flags r \<and> bn_neg r' = bn_neg r \<and> (ok \<longrightarrow> bn_abs r' = distance (bn_abs a) (bn_abs b) \<and> bn_width r' = n) \<and>
    (heap_generous e \<longrightarrow> bn_expandable r \<longrightarrow> ctx_ready ctx 1 \<longrightarrow> ok)"
  proof (cases "BN_CTX_get ctx 0")
    case None
    then show ?thesis using assms(1,2) ex by (auto simp: bn_abs_sub_consttime_def)
  next
    case t: (Some t)
    show ?thesis
    proof (cases "bn_wexpand e r n")
      case None
      then show ?thesis using assms(1,2) t bn_wexpand_fails [OF None] nm
        by (auto simp: bn_abs_sub_consttime_def Let_def n_def [symmetric])
    next
      case r1: (Some r1)
      note W = bn_wexpand [OF r1 assms(2)]
      show ?thesis
      proof (cases "bn_wexpand e t n")
        case None
        then show ?thesis using assms(1) t r1 bn_wexpand_fails [OF None] nm ex W
          by (auto simp: bn_abs_sub_consttime_def Let_def n_def [symmetric])
      next
        case (Some t1)
        obtain d tmp m where d: "bn_abs_sub_part_words (bn_d a) (bn_d b) cl dl = (d, tmp, m)" by (metis prod_cases3)
        have res: "ok" "r' = r1\<lparr>bn_d := blit (bn_d r1) 0 d, bn_width := n\<rparr>"
          using assms(1) t r1 Some d by (simp_all add: bn_abs_sub_consttime_def Let_def n_def [symmetric] cl_def [symmetric] dl_def [symmetric])
        have D: "length d = n" "wval d = distance (bn_abs a) (bn_abs b)"
          using bn_abs_sub_part_words [OF d] bn_okD(3) assms(3,4) by (simp_all add: la bn_abs_def)
        from bn_written [OF W(1) D(1) W(2), of "bn_neg r1", unfolded bn_neg_same] D(2) W res show ?thesis by simp
      qed
    qed
  qed
  then show "bn_ok r'" "bn_flags r' = bn_flags r" "bn_neg r' = bn_neg r"
    "ok \<Longrightarrow> bn_abs r' = distance (bn_abs a) (bn_abs b) \<and> bn_width r' = max (bn_width a) (bn_width b)"
    "heap_generous e \<Longrightarrow> bn_expandable r \<Longrightarrow> ctx_ready ctx 1 \<Longrightarrow> ok" by (auto simp: n_def)
qed

end
