(* ===== verification/Checked.thy ===== *)
theory Checked
  imports Limbs "HOL-Library.Monad_Syntax"
begin

text \<open>
  Accesses to arrays of limbs that check their bounds.  An access outside of the array is undefined
  behaviour in C and the result \<open>None\<close> here, so that a function written with these accesses gives
  \<open>Some\<close> result only when all of its accesses are within the arrays.
\<close>

definition limb_at :: "limbs \<Rightarrow> nat \<Rightarrow> limb option" where
  "limb_at d i = (if i < length d then Some (d ! i) else None)"

definition limb_put :: "limbs \<Rightarrow> nat \<Rightarrow> limb \<Rightarrow> limbs option" where
  "limb_put d i x = (if i < length d then Some (d[i := x]) else None)"

text \<open>The \<open>n\<close> limbs that a routine reads from \<open>d + i\<close>.\<close>

definition limbs_from :: "limbs \<Rightarrow> nat \<Rightarrow> nat \<Rightarrow> limbs option" where
  "limbs_from d i n = (if i + n \<le> length d then Some (take n (drop i d)) else None)"

text \<open>The limbs that a routine wrote to \<open>d + i\<close>.\<close>

definition limbs_put :: "limbs \<Rightarrow> nat \<Rightarrow> limbs \<Rightarrow> limbs option" where
  "limbs_put d i ws = (if i + length ws \<le> length d then Some (blit d i ws) else None)"

lemmas checked_defs = limb_at_def limb_put_def limbs_from_def limbs_put_def

text \<open>\<open>for (i = lo; i < hi; i++)\<close>, with a body that can fail.\<close>

function for_range :: "nat \<Rightarrow> nat \<Rightarrow> (nat \<Rightarrow> 's \<Rightarrow> 's option) \<Rightarrow> 's \<Rightarrow> 's option" where
  "for_range lo hi f s = (if lo < hi then f lo s \<bind> for_range (lo + 1) hi f else Some s)"
  by pat_completeness auto
termination by (relation "measure (\<lambda>(lo, hi, f, s). hi - lo)") auto

declare for_range.simps [simp del]

lemma for_range_empty [simp]: "hi \<le> lo \<Longrightarrow> for_range lo hi f s = Some s"
  by (simp add: for_range.simps)

lemma for_range_Suc: "lo \<le> hi \<Longrightarrow> for_range lo (Suc hi) f s = for_range lo hi f s \<bind> f hi"
proof (induction "hi - lo" arbitrary: lo s)
  case 0
  then have "lo = hi" by simp
  then show ?case by (cases "f hi s") (simp_all add: for_range.simps [of hi])
next
  case (Suc k)
  then have l: "lo < hi" "k = hi - (lo + 1)" "lo + 1 \<le> hi" by simp_all
  show ?case
    using l(1) Suc.hyps(1) [OF l(2,3)]
    by (cases "f lo s") (simp_all add: for_range.simps [of lo "Suc hi"] for_range.simps [of lo hi])
qed

end
