(* ===== verification/BN_Div.thy ===== *)
theory BN_Div
  imports BN_Mul Checked
begin

text \<open>
  Division: the first half of \<open>crypto/fipsmodule/bn/div.c\<close>.  \<open>BN_div\<close> is Knuth's algorithm D on
  limbs, \<open>bn_div_consttime\<close> is long division in binary.  \<open>BN_CTX_get\<close> keeps failing once it has
  failed, so a request that is only checked after later ones is checked with them.  Outputs that
  may be null are options.  In \<open>BN_div\<close> the accesses of the padding and of the loop over the digits
  check their bounds (\<open>Checked\<close>): a run that left an array would have the result \<open>None\<close>.
\<close>

section \<open>Estimating a digit of the quotient\<close>

definition bn_div_rem_words :: "limb \<Rightarrow> limb \<Rightarrow> limb \<Rightarrow> limb \<times> limb" where
  "bn_div_rem_words n0 n1 d0 =
     (let n = push_bit 64 (wide n0) OR wide n1; q = Lw (n div wide d0) in (q, n1 - q * d0))"

text \<open>The loop that corrects the estimate with the second limb of the divisor.  \<open>t2\<close> is \<open>d1 * q\<close>.\<close>

partial_function (option) qhat_loop :: "limb \<Rightarrow> limb \<Rightarrow> u128 \<Rightarrow> limb \<Rightarrow> limb \<Rightarrow> limb \<Rightarrow> limb option" where
  "qhat_loop q rm t2 n2 d0 d1 =
     (if t2 \<le> push_bit 64 (wide rm) OR wide n2 then Some q
      else let q = q - 1; rm = rm + d0
           in if rm < d0 then Some q else qhat_loop q rm (t2 - wide d1) n2 d0 d1)"

definition qhat :: "limb \<Rightarrow> limb \<Rightarrow> limb \<Rightarrow> limb \<Rightarrow> limb \<Rightarrow> limb option" where
  "qhat n0 n1 n2 d0 d1 =
     (if n0 = d0 then Some (- 1)
      else let (q, rm) = bn_div_rem_words n0 n1 d0 in qhat_loop q rm (wide d1 * wide q) n2 d0 d1)"

section \<open>Long division\<close>

text \<open>
  One digit: \<open>s\<close> holds the limbs of the shifted numerator, \<open>v\<close> the \<open>n\<close> limbs of the shifted
  divisor, and the window starts at \<open>k + 1\<close>.  The product goes to \<open>tmp\<close>, the digit to \<open>k\<close> in \<open>res\<close>.
\<close>

definition div_step :: "limbs \<Rightarrow> nat \<Rightarrow> nat \<Rightarrow> limbs \<times> limbs \<times> limbs \<Rightarrow> (limbs \<times> limbs \<times> limbs) option" where
  "div_step v n k st =
     (let (s, res, tmp) = st; w = k + 1
      in do {
        d0 \<leftarrow> (if n = 0 then None else limb_at v (n - 1));
        d1 \<leftarrow> (if n = 1 then Some 0 else limb_at v (n - 2));
        n0 \<leftarrow> limb_at s (w + n);
        n1 \<leftarrow> limb_at s (w + n - 1);
        n2 \<leftarrow> limb_at s (w + n - 2);
        q \<leftarrow> qhat n0 n1 n2 d0 d1;
        vs \<leftarrow> limbs_from v 0 n;
        let (ws, l0) = bn_mul_words vs n q;
        tmp \<leftarrow> limbs_put tmp 0 ws;
        tmp \<leftarrow> limb_put tmp n l0;
        win \<leftarrow> limbs_from s w (n + 1);
        ts \<leftarrow> limbs_from tmp 0 (n + 1);
        let (d, borrow) = bn_sub_words win ts (n + 1);
        s \<leftarrow> limbs_put s w d;
        (q, s) \<leftarrow> (if borrow \<noteq> 0 then do {
          win \<leftarrow> limbs_from s w n;
          let (d, carry) = bn_add_words win vs n;
          s \<leftarrow> limbs_put s w d;
          s \<leftarrow> (if carry \<noteq> 0 then do {
            x \<leftarrow> limb_at s (w + n);
            limb_put s (w + n) (x + 1)
          } else Some s);
          Some (q - 1, s)
        } else Some (q, s));
        res \<leftarrow> limb_put res k q;
        Some (s, res, tmp)
      })"

fun div_loop :: "limbs \<Rightarrow> nat \<Rightarrow> nat \<Rightarrow> limbs \<times> limbs \<times> limbs \<Rightarrow> (limbs \<times> limbs \<times> limbs) option" where
  "div_loop v n 0 st = Some st"
| "div_loop v n (Suc k) st = (case div_step v n k st of None \<Rightarrow> None | Some st \<Rightarrow> div_loop v n k st)"

text \<open>
  Making room for the window, without changing the value.  The inner option is the failure that the
  code reports; a write outside of the array would be the outer \<open>None\<close>.
\<close>

definition div_pad :: "heap_env \<Rightarrow> bignum \<Rightarrow> nat \<Rightarrow> bignum option option" where
  "div_pad e snum div_n =
     (if bn_width snum \<le> div_n + 1 then
        (case bn_wexpand e snum (div_n + 2) of
           None \<Rightarrow> Some None
         | Some s \<Rightarrow> do {
             d \<leftarrow> for_range (bn_width s) (div_n + 2) (\<lambda>i d. limb_put d i 0) (bn_d s);
             Some (Some (s\<lparr>bn_d := d, bn_width := div_n + 2\<rparr>))
           })
      else
        (case bn_wexpand e snum (bn_width snum + 1) of
           None \<Rightarrow> Some None
         | Some s \<Rightarrow> do {
             d \<leftarrow> limb_put (bn_d s) (bn_width s) 0;
             Some (Some (s\<lparr>bn_d := d, bn_width := bn_width s + 1\<rparr>))
           }))"

text \<open>Normalising: the divisor gets its highest bit set, and the numerator the same shift and a limb more.\<close>

definition div_normalise :: "heap_env \<Rightarrow> bignum \<Rightarrow> bignum \<Rightarrow> bignum \<Rightarrow> bignum \<Rightarrow> (bignum \<times> bignum \<times> nat) option option" where
  "div_normalise e snum sdiv numerator divisor =
     (let norm_shift = BN_BITS2 - BN_num_bits divisor mod BN_BITS2
      in case BN_lshift e sdiv divisor (int norm_shift) of
           (False, _) \<Rightarrow> Some None
         | (True, sdiv) \<Rightarrow>
             (let sdiv = (bn_set_minimal_width sdiv)\<lparr>bn_neg := False\<rparr>; norm_shift = norm_shift + BN_BITS2
              in case BN_lshift e snum numerator (int norm_shift) of
                   (False, _) \<Rightarrow> Some None
                 | (True, snum) \<Rightarrow>
                     (case div_pad e ((bn_set_minimal_width snum)\<lparr>bn_neg := False\<rparr>) (bn_width sdiv) of
                        None \<Rightarrow> None
                      | Some None \<Rightarrow> Some None
                      | Some (Some snum) \<Rightarrow> Some (Some (snum, sdiv, norm_shift)))))"

text \<open>
  The division after the normalisation.  \<open>q_is_num\<close> says that the quotient is written over the
  numerator, whose sign the code reads again after that of the quotient is set.
\<close>

definition div_digits :: "heap_env \<Rightarrow> bool \<Rightarrow> bignum \<Rightarrow> bignum \<Rightarrow> nat \<Rightarrow> bignum \<Rightarrow> bignum \<Rightarrow> bignum option \<Rightarrow>
    bignum \<Rightarrow> bignum \<Rightarrow> (bool \<times> bignum \<times> bignum option) option" where
  "div_digits e q_is_num snum sdiv norm_shift tmp res rem numerator divisor =
     (let div_n = bn_width sdiv; loop = bn_width snum - div_n; res = res\<lparr>bn_neg := bn_neg numerator \<noteq> bn_neg divisor\<rparr>
      in case bn_wexpand e res (loop + 1) of
           None \<Rightarrow> Some (False, res, rem)
         | Some res \<Rightarrow>
             (let res = res\<lparr>bn_width := loop - 1\<rparr>
              in case bn_wexpand e tmp (div_n + 1) of
                   None \<Rightarrow> Some (False, res, rem)
                 | Some tmp \<Rightarrow>
                     (let res = (if bn_width res = 0 then res\<lparr>bn_neg := False\<rparr> else res);
                          neg = (if q_is_num then bn_neg res else bn_neg numerator)
                      in case div_loop (bn_d sdiv) div_n (loop - 1) (take (bn_width snum) (bn_d snum), bn_d res, bn_d tmp) of
                           None \<Rightarrow> None
                         | Some (s, d, _) \<Rightarrow>
                             (let snum = bn_set_minimal_width (snum\<lparr>bn_d := blit (bn_d snum) 0 s\<rparr>); res = res\<lparr>bn_d := d\<rparr>
                              in case rem of
                                   None \<Rightarrow> Some (True, bn_set_minimal_width res, None)
                                 | Some r \<Rightarrow>
                                     (case BN_rshift e r snum (int norm_shift) of
                                        (False, r) \<Rightarrow> Some (False, res, Some r)
                                      | (True, r) \<Rightarrow>
                                          Some (True, bn_set_minimal_width res,
                                                Some (if \<not> BN_is_zero r then r\<lparr>bn_neg := neg\<rparr> else r)))))))"

definition BN_div :: "heap_env \<Rightarrow> bn_ctx \<Rightarrow> bool \<Rightarrow> bignum option \<Rightarrow> bignum option \<Rightarrow> bignum \<Rightarrow> bignum \<Rightarrow>
    (bool \<times> bignum option \<times> bignum option) option" where
  "BN_div e ctx q_is_num quot rem numerator divisor =
     (let numerator_width = bn_minimal_width numerator; divisor_width = bn_minimal_width divisor
      in if (numerator_width > 0 \<and> bn_d numerator ! (numerator_width - 1) = 0) \<or>
            (divisor_width > 0 \<and> bn_d divisor ! (divisor_width - 1) = 0) then Some (False, quot, rem)
         else if BN_is_zero divisor then Some (False, quot, rem)
         else
           (case (BN_CTX_get ctx 0, BN_CTX_get ctx 1, BN_CTX_get ctx 2,
                  case quot of None \<Rightarrow> BN_CTX_get ctx 3 | Some q \<Rightarrow> Some q) of
              (Some tmp, Some snum, Some sdiv, Some res) \<Rightarrow>
                (case div_normalise e snum sdiv numerator divisor of
                   None \<Rightarrow> None
                 | Some None \<Rightarrow> Some (False, quot, rem)
                 | Some (Some (snum, sdiv, norm_shift)) \<Rightarrow>
                     (case div_digits e q_is_num snum sdiv norm_shift tmp res rem numerator divisor of
                        None \<Rightarrow> None
                      | Some (ok, res, rem) \<Rightarrow> Some (ok, map_option (\<lambda>_. res) quot, rem)))
            | _ \<Rightarrow> Some (False, quot, rem)))"

section \<open>Constant-time division\<close>

text \<open>One bit of the numerator, and one bit of a limb of the quotient.\<close>

definition div_bit :: "limbs \<Rightarrow> nat \<Rightarrow> limb \<Rightarrow> nat \<Rightarrow> limbs \<times> limb \<Rightarrow> limbs \<times> limb" where
  "div_bit d dw ni j st =
     (let (r, qi) = st; (r, carry) = bn_add_words r r dw; r = r[0 := r ! 0 OR (drop_bit j ni AND 1)];
          (tmp, borrow) = bn_sub_words r d dw; carry = carry - borrow;
          r = bn_select_words carry r tmp dw
      in (r, qi OR push_bit j (NOT carry AND 1)))"

definition div_limb :: "limbs \<Rightarrow> nat \<Rightarrow> limbs \<Rightarrow> nat \<Rightarrow> limbs \<times> limbs \<Rightarrow> limbs \<times> limbs" where
  "div_limb d dw n i st =
     (let (q, r) = st; (r, qi) = fold (div_bit d dw (n ! i)) (rev [0..<BN_BITS2]) (r, q ! i) in (q[i := qi], r))"

text \<open>
  An output that may be null is computed in place, unless it is an input, and otherwise computed in
  a number of the context that is copied at the end.
\<close>

definition deliver :: "heap_env \<Rightarrow> bool \<Rightarrow> bignum \<Rightarrow> bignum option \<Rightarrow> bool \<times> bignum option" where
  "deliver e own b dest = (case dest of
     None \<Rightarrow> (True, None) | Some d \<Rightarrow> if own then (True, Some b) else map_prod id Some (BN_copy e d b))"

text \<open>\<open>qa\<close> and \<open>ra\<close> say that an output is one of the inputs.\<close>

definition bn_div_consttime :: "heap_env \<Rightarrow> bn_ctx \<Rightarrow> bool \<Rightarrow> bool \<Rightarrow> bignum option \<Rightarrow> bignum option \<Rightarrow> bignum \<Rightarrow> bignum \<Rightarrow>
    bool \<times> bignum option \<times> bignum option" where
  "bn_div_consttime e ctx qa ra quot rem numerator divisor =
     (if bn_neg numerator \<or> bn_neg divisor then (False, quot, rem)
      else if BN_is_zero divisor then (False, quot, rem)
      else
        (let own_q = (quot \<noteq> None \<and> \<not> qa); own_r = (rem \<noteq> None \<and> \<not> ra);
             i = (if own_q then 0 else 1); j = i + (if own_r then 0 else 1);
             nw = bn_width numerator; dw = bn_width divisor
         in case (if own_q then quot else BN_CTX_get ctx 0, if own_r then rem else BN_CTX_get ctx i, BN_CTX_get ctx j) of
              (Some q, Some r, Some tmp) \<Rightarrow>
                (case bn_wexpand e q nw of
                   None \<Rightarrow> (False, quot, rem)
                 | Some q \<Rightarrow>
                     (case bn_wexpand e r dw of
                        None \<Rightarrow> (False, if own_q then Some q else quot, rem)
                      | Some r \<Rightarrow>
                          (case bn_wexpand e tmp dw of
                             None \<Rightarrow> (False, if own_q then Some q else quot, if own_r then Some r else rem)
                           | Some _ \<Rightarrow>
                               (let (qs, rs) = fold (div_limb (bn_d divisor) dw (bn_d numerator)) (rev [0..<nw])
                                                    (replicate nw 0, replicate dw 0);
                                    q = q\<lparr>bn_d := blit (bn_d q) 0 qs, bn_width := nw, bn_neg := False\<rparr>;
                                    r = r\<lparr>bn_d := blit (bn_d r) 0 rs, bn_width := dw, bn_neg := False\<rparr>;
                                    (okq, quot) = deliver e own_q q quot
                                in if \<not> okq then (False, quot, if own_r then Some r else rem)
                                   else (let (okr, rem) = deliver e own_r r rem in (okr, quot, rem))))))
            | _ \<Rightarrow> (False, quot, rem)))"

section \<open>Division by words\<close>

text \<open>The result and the number, which is divided in place.\<close>

definition BN_div_word :: "heap_env \<Rightarrow> bignum \<Rightarrow> limb \<Rightarrow> limb \<times> bignum" where
  "BN_div_word e a w =
     (if w = 0 then (- 1, a)
      else if bn_width a = 0 then (0, a)
      else
        (let j = BN_BITS2 - BN_num_bits_word w; w = push_bit j w
         in case BN_lshift e a a (int j) of
              (False, a) \<Rightarrow> (- 1, a)
            | (True, a) \<Rightarrow>
                (let (ret, d) = fold (\<lambda>i (ret, d). let l = d ! i; (q, _) = bn_div_rem_words ret l w
                                        in (l - q * w, d[i := q]))
                                     (rev [0..<bn_width a]) (0, bn_d a)
                 in (drop_bit j ret, bn_set_minimal_width (a\<lparr>bn_d := d\<rparr>)))))"

definition BN_mod_word :: "bignum \<Rightarrow> limb \<Rightarrow> limb" where
  "BN_mod_word a w =
     (if w = 0 then - 1
      else Lw (fold (\<lambda>i ret. (push_bit 64 ret OR wide (bn_d a ! i)) mod wide w) (rev [0..<bn_width a]) 0))"

section \<open>Correctness of the estimate\<close>

lemma two_limbs: "unat (push_bit 64 (wide x) OR wide y) = unat x * radix + unat y"
proof -
  have bw: "bit (wide z) n \<longleftrightarrow> bit z n" for z n
    using limb_bit_lt [of z n] by (auto simp: wide_def bit_simps)
  have "push_bit 64 (wide x) AND wide y = 0"
  proof (rule bit_word_eqI)
    fix n :: nat assume n: "n < LENGTH(128)"
    show "bit (push_bit 64 (wide x) AND wide y) n \<longleftrightarrow> bit (0 :: u128) n"
      using limb_bit_lt [of y n] by (auto simp: bit_and_iff bit_push_bit_iff bw)
  qed
  then have e: "push_bit 64 (wide x) OR wide y = push_bit 64 (wide x) + wide y" by (simp add: disjunctive_add_eq_or)
  have "unat x * radix + unat y < radix * radix"
  proof -
    have "unat x * radix + unat y < Suc (unat x) * radix" by simp
    also have "\<dots> \<le> radix * radix" by (intro mult_le_mono1 Suc_leI limb_lt)
    finally show ?thesis .
  qed
  then have lt: "unat x * radix < radix * radix" "unat x * radix + unat y < radix * radix" by simp_all
  have p: "unat (push_bit 64 (wide x)) = unat x * radix"
    using lt(1) by (simp add: push_bit_eq_mult unat_mult_128 [of "wide x" "2 ^ 64"] radix_def unat_word_ariths mod_less)
  then show ?thesis unfolding e using lt by (subst unat_add_128) simp_all
qed

lemma bn_div_rem_words:
  assumes "bn_div_rem_words n0 n1 d0 = (q, rm)" "n0 < d0"
  shows "unat q = (unat n0 * radix + unat n1) div unat d0" "unat rm = (unat n0 * radix + unat n1) mod unat d0"
proof -
  define N D where "N = unat n0 * radix + unat n1" and "D = unat d0"
  have D: "unat n0 < D" using assms(2) by (simp add: D_def word_less_nat_alt)
  have "N < Suc (unat n0) * radix" by (simp add: N_def)
  also have "\<dots> \<le> D * radix" using D by (intro mult_le_mono1) simp
  finally have q: "N div D < radix" using D by (simp add: div_less_iff_less_mult mult.commute)
  have e: "q = Lw ((push_bit 64 (wide n0) OR wide n1) div wide d0)" "rm = n1 - q * d0"
    using assms(1) by (auto simp: bn_div_rem_words_def Let_def)
  have uq: "unat q = N div D" unfolding e(1) unat_Lw unat_div two_limbs unat_wide N_def [symmetric] D_def [symmetric] using q by simp
  have dm: "N = unat q * D + N mod D" by (simp add: uq)
  have "(of_nat radix :: limb) = 0" by (simp add: radix_def flip: word_of_nat_eq_0_iff)
  then have "(of_nat N :: limb) = n1" by (simp add: N_def)
  moreover have "(of_nat N :: limb) = q * d0 + of_nat (N mod D)"
    by (subst dm) (simp add: D_def)
  ultimately have "rm = of_nat (N mod D)" by (simp add: e(2) diff_eq_eq add.commute)
  moreover have "N mod D < radix" using D limb_lt [of d0] by (metis D_def less_trans mod_less_divisor not_less0 neq0_conv)
  ultimately have "unat rm = N mod D" by (simp add: unat_of_nat radix_def)
  with uq show "unat q = (unat n0 * radix + unat n1) div unat d0" "unat rm = (unat n0 * radix + unat n1) mod unat d0"
    by (simp_all add: N_def D_def)
qed

text \<open>
  The contract of the estimate.  \<open>u\<close> is the value of the three limbs of the window, \<open>d\<close> that of the top two
  limbs of the divisor: the loop stops at a \<open>q\<close> with \<open>q * d \<le> u\<close>, unless it has started below,
  and never goes below the quotient of \<open>u + 1\<close>.
\<close>

lemma qhat_loop:
  assumes "2 ^ 63 \<le> unat d0" "unat q * unat d0 + unat rm = N" "unat t2 = unat d1 * unat q" "unat n2 = x"
    "Q * (unat d0 * radix + unat d1) \<le> N * radix + x" "Q \<le> unat q"
  shows "\<exists>q'. qhat_loop q rm t2 n2 d0 d1 = Some q' \<and> Q \<le> unat q' \<and> unat q' * (unat d0 * radix + unat d1) \<le> N * radix + x"
  using assms(2,3,6)
proof (induction "radix - unat rm" arbitrary: q rm t2 rule: less_induct)
  case less
  define D D1 where "D = unat d0" and "D1 = unat d1"
  have D: "2 ^ 63 \<le> D" "D < radix" using assms(1) by (simp_all add: D_def)
  show ?case
  proof (cases "t2 \<le> push_bit 64 (wide rm) OR wide n2")
    case True
    then have "D1 * unat q \<le> unat rm * radix + x"
      using less.prems(2) assms(4) by (simp add: word_le_nat_alt two_limbs D1_def)
    then have "unat q * (D * radix + D1) \<le> N * radix + x"
      using less.prems(1) by (simp add: D_def algebra_simps flip: less.prems(1))
    then show ?thesis using True less.prems(3) by (simp add: qhat_loop.simps [of q] D_def D1_def)
  next
    case False
    then have gt: "unat rm * radix + x < D1 * unat q"
      using less.prems(2) assms(4) by (simp add: word_le_nat_alt two_limbs D1_def)
    then have q0: "q \<noteq> 0" by (cases "q = 0") auto
    then have q1: "unat q = Suc (unat (q - 1))" by (simp add: unat_minus_one unat_gt_0)
    have lt: "Q < unat q"
    proof (rule ccontr)
      assume "\<not> Q < unat q"
      then have "unat q * (D * radix + D1) \<le> Q * (D * radix + D1)" by (intro mult_le_mono1) simp
      then have "unat q * (D * radix + D1) \<le> N * radix + x" using assms(5) unfolding D_def D1_def by (rule le_trans)
      then show False using gt less.prems(1) by (simp add: D_def algebra_simps flip: less.prems(1))
    qed
    have N: "unat (q - 1) * D + (unat rm + D) = N" using less.prems(1) by (simp add: q1 D_def)
    show ?thesis
    proof (cases "rm + d0 < d0")
      case True
      then have "radix \<le> unat rm + D"
        using no_olen_add_nat [of rm d0] by (auto simp: D_def radix_def word_less_nat_alt unat_word_ariths not_less intro: leI)
      then have "radix * radix \<le> (unat rm + D) * radix" by simp
      moreover have "D1 * unat (q - 1) \<le> radix * radix"
        by (intro mult_le_mono) (simp_all add: D1_def less_imp_le)
      ultimately have "unat (q - 1) * (D * radix + D1) \<le> N * radix + x"
        by (simp add: algebra_simps flip: N)
      then show ?thesis using True False lt q1 by (simp add: qhat_loop.simps [of q] Let_def D_def D1_def)
    next
      case ov: False
      have sum: "unat (rm + d0) = unat rm + D"
      proof -
        have "unat rm + D < radix"
        proof (rule ccontr)
          assume "\<not> unat rm + D < radix"
          then have "unat (rm + d0) = unat rm + D - radix"
            using limb_lt [of rm] D(2) by (simp add: D_def unat_word_ariths radix_def) (simp add: mod_if)
          moreover have "D \<le> unat (rm + d0)" using ov by (simp add: word_less_nat_alt D_def)
          ultimately show False using \<open>\<not> unat rm + D < radix\<close> limb_lt [of rm] by linarith
        qed
        then show ?thesis by (simp add: D_def unat_word_ariths radix_def)
      qed
      have t: "unat (t2 - wide d1) = D1 * unat (q - 1)"
      proof -
        have "unat (wide d1) \<le> unat t2" using less.prems(2) q1 by (simp add: D1_def)
        then have "unat (t2 - wide d1) = unat t2 - D1" by (simp add: unat_sub word_le_nat_alt D1_def)
        then show ?thesis using less.prems(2) q1 by (simp add: D1_def)
      qed
      have meas: "radix - unat (rm + d0) < radix - unat rm"
      proof (rule diff_less_mono2)
        have "0 < D" using D(1) by (rule less_le_trans [rotated]) simp
        then show "unat rm < unat (rm + d0)" using sum by linarith
      qed (rule limb_lt)
      have "qhat_loop q rm t2 n2 d0 d1 = qhat_loop (q - 1) (rm + d0) (t2 - wide d1) n2 d0 d1"
        using False ov by (simp add: qhat_loop.simps [of q] Let_def)
      moreover have "\<exists>q'. qhat_loop (q - 1) (rm + d0) (t2 - wide d1) n2 d0 d1 = Some q' \<and> Q \<le> unat q' \<and>
          unat q' * (unat d0 * radix + unat d1) \<le> N * radix + x"
        by (rule less.hyps [OF meas]) (use N sum t lt q1 in \<open>simp_all add: D_def D1_def\<close>)
      ultimately show ?thesis by simp
    qed
  qed
qed

text \<open>Knuth's bounds, for the leading digits \<open>d0\<close>, \<open>d1\<close> of the divisor and \<open>n0\<close>, \<open>n1\<close>, \<open>n2\<close> of the
  window, where \<open>P\<close> is the weight of the last of them.\<close>

lemma knuth_bounds:
  fixes d0 d1 n0 n1 n2 v u P R :: nat
  assumes V: "V = (d0 * R + d1) * P + v" "v < P" and U: "U = ((n0 * R + n1) * R + n2) * P + u" "u < P"
    and lim: "n0 < R" "n1 < R" "n2 < R" "d1 < R" and norm: "R \<le> 2 * d0" and less: "U < V * R" and R: "2 \<le> R"
  shows "n0 \<le> d0" "n0 = d0 \<Longrightarrow> R - 1 \<le> U div V + 1" "U div V < R"
    "(U div V) * (d0 * R + d1) \<le> (n0 * R + n1) * R + n2"
    "q * (d0 * R + d1) \<le> (n0 * R + n1) * R + n2 \<Longrightarrow> q < R \<Longrightarrow> q \<le> U div V + 1"
proof -
  have P: "0 < P" using V(2) by simp
  have d0: "0 < d0" using norm R by simp
  have Vpos: "0 < V" using d0 P R by (simp add: V(1))
  have RP: "R * P \<le> V"
  proof -
    have "R * P \<le> (d0 * R) * P" using d0 by (intro mult_le_mono1) simp
    also have "\<dots> \<le> V" by (simp add: V(1) algebra_simps)
    finally show ?thesis .
  qed
  have Vlt: "V < (d0 + 1) * R * P"
  proof -
    have "V < (d0 * R + d1) * P + P" using V by simp
    also have "\<dots> = (d0 * R + d1 + 1) * P" by (simp add: algebra_simps)
    also have "\<dots> \<le> ((d0 + 1) * R) * P" by (intro mult_le_mono1) (use lim(4) in \<open>simp add: algebra_simps\<close>)
    finally show ?thesis .
  qed
  have Uge: "n0 * R * R * P \<le> U" by (simp add: U(1) algebra_simps)
  show n0: "n0 \<le> d0"
  proof (rule ccontr)
    assume "\<not> n0 \<le> d0"
    then have "(d0 + 1) * R * R * P \<le> n0 * R * R * P" by (intro mult_le_mono1) simp
    moreover have "V * R \<le> (d0 + 1) * R * P * R" using Vlt by (intro mult_le_mono1) simp
    ultimately show False using less Uge by (simp add: algebra_simps)
  qed
  show Q: "U div V < R" using less Vpos by (simp add: div_less_iff_less_mult mult.commute)
  show "R - 1 \<le> U div V + 1" if "n0 = d0"
  proof -
    have half: "R * R * P \<le> 2 * V"
    proof -
      have "R * R * P \<le> (2 * d0) * R * P" using norm by (intro mult_le_mono1) simp
      also have "\<dots> \<le> 2 * V" by (simp add: V(1) algebra_simps)
      finally show ?thesis .
    qed
    have "V * R = d0 * R * R * P + (d1 * P + v) * R" by (simp add: V(1) algebra_simps)
    moreover have "(d1 * P + v) * R \<le> R * R * P"
    proof -
      have "d1 * P + v \<le> (d1 + 1) * P" using V(2) by simp
      also have "\<dots> \<le> R * P" using lim(4) by (intro mult_le_mono1) simp
      finally show ?thesis by (simp add: mult.commute mult.left_commute)
    qed
    ultimately have "V * R \<le> U + 2 * V" using half Uge unfolding that by linarith
    then have "V * (R - 2) \<le> U" using R by (simp add: diff_mult_distrib2 mult.commute)
    then have "R - 2 \<le> U div V" using Vpos by (simp add: less_eq_div_iff_mult_less_eq mult.commute)
    then show ?thesis by simp
  qed
  have "(U div V) * ((d0 * R + d1) * P) \<le> (U div V) * V" by (intro mult_le_mono2) (simp add: V(1))
  also have "\<dots> \<le> U" by simp
  also have "\<dots> < ((n0 * R + n1) * R + n2 + 1) * P" using U by simp
  finally have "((U div V) * (d0 * R + d1)) * P < ((n0 * R + n1) * R + n2 + 1) * P" by (simp add: mult.assoc)
  then have "(U div V) * (d0 * R + d1) < (n0 * R + n1) * R + n2 + 1" by (simp only: mult_less_cancel2)
  then show "(U div V) * (d0 * R + d1) \<le> (n0 * R + n1) * R + n2" by simp
  show "q \<le> U div V + 1" if q: "q * (d0 * R + d1) \<le> (n0 * R + n1) * R + n2" "q < R"
  proof -
    have "q * V = (q * (d0 * R + d1)) * P + q * v" by (simp add: V(1) algebra_simps)
    moreover have "(q * (d0 * R + d1)) * P \<le> ((n0 * R + n1) * R + n2) * P" using q(1) by (rule mult_le_mono1)
    moreover have "q * v < R * P" using q(2) V(2) by (rule mult_strict_mono') simp_all
    ultimately have "q * V < U + V" using RP unfolding U(1) by linarith
    then have "q * V div V \<le> (U + V) div V" by (intro div_le_mono) simp
    then show ?thesis using Vpos by (simp add: div_add_self2)
  qed
qed

lemma qhat:
  assumes len: "length vs = n" "length us = n + 1" "0 < n" and norm: "2 ^ 63 \<le> unat (vs ! (n - 1))"
    and less: "wval us < wval vs * radix"
    and d1: "d1 = (if n = 1 then 0 else vs ! (n - 2))" and n2: "n \<noteq> 1 \<Longrightarrow> n2 = us ! (n - 2)"
  shows "\<exists>q. qhat (us ! n) (us ! (n - 1)) n2 (vs ! (n - 1)) d1 = Some q \<and>
    wval us div wval vs \<le> unat q \<and> unat q \<le> wval us div wval vs + 1"
proof -
  define d0 n0 n1 where "d0 = unat (vs ! (n - 1))" and "n0 = unat (us ! n)" and "n1 = unat (us ! (n - 1))"
  have R: "2 \<le> radix" "radix \<le> 2 * d0" using norm by (simp_all add: radix_def d0_def)
  have lim: "n0 < radix" "n1 < radix" by (simp_all add: n0_def n1_def)
  have dd: "wval vs div radix < radix ^ n" using wval_lt [of vs] len(1) by (metis div_le_dividend le_less_trans)
  show ?thesis
  proof (cases "n = 1")
    case True
    have v: "wval vs = d0"
      using len(1) wval_take_Suc [of 0 vs] True by (simp add: d0_def)
    have u: "wval us = n0 * radix + n1"
      using len(2) wval_take_Suc [of 0 us] wval_take_Suc [of 1 us] True by (simp add: n0_def n1_def numeral_2_eq_2)
    have lt: "n0 < d0"
    proof (rule ccontr)
      assume "\<not> n0 < d0"
      then have "d0 * radix \<le> n0 * radix" by (intro mult_le_mono1) simp
      then show False using less unfolding u v by linarith
    qed
    obtain q rm where b: "bn_div_rem_words (us ! n) (us ! (n - 1)) (vs ! (n - 1)) = (q, rm)" by fastforce
    have q: "unat q = wval us div wval vs"
      using bn_div_rem_words(1) [OF b] lt by (simp add: u v n0_def n1_def d0_def word_less_nat_alt)
    have "qhat_loop q rm (wide d1 * wide q) n2 (vs ! (n - 1)) d1 = Some q"
      using True d1 by (simp add: qhat_loop.simps [of q] word_le_nat_alt wide_mult)
    moreover have "us ! n \<noteq> vs ! (n - 1)" using lt by (auto simp: n0_def d0_def)
    ultimately show ?thesis using q by (simp add: qhat_def b [simplified])
  next
    case False
    define m where "m = n - 2"
    then have m: "n = Suc (Suc m)" using False len(3) by linarith
    define P where "P = radix ^ m"
    define e1 x where "e1 = unat d1" and "x = unat n2"
    have dn: "d1 = vs ! m" "n2 = us ! m" using d1 n2 m by simp_all
    have v: "wval vs = (d0 * radix + e1) * P + wval (take m vs)"
      using wval_take_Suc [of m vs] wval_take_Suc [of "Suc m" vs] len(1)
      by (simp add: m P_def d0_def e1_def dn algebra_simps)
    have u: "wval us = ((n0 * radix + n1) * radix + x) * P + wval (take m us)"
      using wval_take_Suc [of m us] wval_take_Suc [of "Suc m" us] wval_take_Suc [of "Suc (Suc m)" us] len(2)
      by (simp add: m P_def n0_def n1_def x_def dn algebra_simps)
    have tl: "wval (take m vs) < P" "wval (take m us) < P" unfolding P_def by (rule wval_take_lt)+
    have lim2: "x < radix" "e1 < radix" by (simp_all add: x_def e1_def)
    note K = knuth_bounds [OF v tl(1) u tl(2) lim lim2 R(2) less R(1)]
    show ?thesis
    proof (cases "us ! n = vs ! (n - 1)")
      case True
      then have "radix - 1 \<le> wval us div wval vs + 1" using K(2) by (simp add: n0_def d0_def)
      moreover have "unat (- 1 :: limb) = radix - 1" using unat_uminus [of 1] by simp
      ultimately show ?thesis using True K(3) by (simp add: qhat_def)
    next
      case ne: False
      then have lt: "n0 < d0" using K(1) by (simp add: n0_def d0_def le_neq_implies_less word_unat_eq_iff)
      obtain q rm where b: "bn_div_rem_words (us ! n) (us ! (n - 1)) (vs ! (n - 1)) = (q, rm)" by fastforce
      have bq: "unat q = (n0 * radix + n1) div d0" "unat rm = (n0 * radix + n1) mod d0"
        using bn_div_rem_words [OF b] lt by (simp_all add: n0_def n1_def d0_def word_less_nat_alt)
      define Q where "Q = wval us div wval vs"
      have Qle: "Q \<le> unat q"
      proof -
        have "(Q * d0) * radix \<le> Q * (d0 * radix + e1)" by (simp add: algebra_simps)
        also have "\<dots> \<le> (n0 * radix + n1) * radix + x" using K(4) by (simp add: Q_def)
        also have "\<dots> < (n0 * radix + n1 + 1) * radix" using lim2(1) by simp
        finally have "Q * d0 < n0 * radix + n1 + 1" by (simp only: mult_less_cancel2)
        then have "Q * d0 \<le> n0 * radix + n1" by simp
        then show ?thesis using lt unfolding bq(1) by (simp add: less_eq_div_iff_mult_less_eq)
      qed
      have "\<exists>q'. qhat_loop q rm (wide d1 * wide q) n2 (vs ! (n - 1)) d1 = Some q' \<and> Q \<le> unat q' \<and>
          unat q' * (unat (vs ! (n - 1)) * radix + unat d1) \<le> (n0 * radix + n1) * radix + x"
        by (rule qhat_loop [OF norm]) (use K(4) Qle bq in \<open>simp_all add: wide_mult Q_def x_def e1_def d0_def\<close>)
      then obtain q' where q': "qhat_loop q rm (wide d1 * wide q) n2 (vs ! (n - 1)) d1 = Some q'" "Q \<le> unat q'"
        "unat q' * (d0 * radix + e1) \<le> (n0 * radix + n1) * radix + x" by (auto simp: d0_def e1_def)
      have "unat q' \<le> Q + 1" using K(5) [OF q'(3)] by (simp add: Q_def)
      then show ?thesis using ne q'(1,2) by (simp add: qhat_def b [simplified] Q_def)
    qed
  qed
qed

section \<open>Correctness of the long division\<close>

lemma blit_again:
  assumes "w + n < length s" "length d = n + 1" "length d2 = n"
  shows "(blit (blit s w d) w d2)[w + n := x] = blit s w (d2 @ [x])" "blit (blit s w d) w d2 ! (w + n) = d ! n"
proof -
  have "drop n d = [d ! n]" using assms(2) Cons_nth_drop_Suc [of n d] by simp
  then have e: "blit (blit s w d) w d2 = take w s @ d2 @ [d ! n] @ drop (w + n + 1) s"
    using assms by (simp add: blit_def)
  have l: "length (take w s) = w" using assms(1) by simp
  show "(blit (blit s w d) w d2)[w + n := x] = blit s w (d2 @ [x])"
    unfolding e using l assms(3) by (simp add: blit_def list_update_append)
  show "blit (blit s w d) w d2 ! (w + n) = d ! n"
    unfolding e using l assms(3) by (simp add: nth_append)
qed

text \<open>Adding the divisor back after a borrow clears the top limb of the window.\<close>

lemma add_back:
  fixes R n d2 c top r :: nat
  assumes "d2 + R ^ n * (c + top) = R ^ (n + 1) + r" "d2 < R ^ n" "r < R ^ n" "c \<le> 1" "top < R"
  shows "c = 1" "top + 1 = R" "d2 = r"
proof -
  define P where "P = R ^ n"
  have P: "d2 + P * (c + top) = P * R + r" "d2 < P" "r < P" using assms by (simp_all add: P_def)
  have "(d2 + P * (c + top)) div P = c + top" "(d2 + P * (c + top)) mod P = d2" using P(2) by simp_all
  moreover have "(P * R + r) div P = R" "(P * R + r) mod P = r" using P(3) by simp_all
  ultimately have "c + top = R" "d2 = r" using P(1) by simp_all
  with assms(4,5) show "c = 1" "top + 1 = R" "d2 = r" by linarith+
qed

text \<open>What a step computes when its accesses are within the arrays.\<close>

lemma div_step_within:
  assumes "0 < n" "n \<le> length v" "k + 1 + n < length s" "k < length res" "n < length tmp"
    and q: "qhat (s ! (k + 1 + n)) (s ! (k + 1 + n - 1)) (s ! (k + 1 + n - 2)) (v ! (n - 1)) (if n = 1 then 0 else v ! (n - 2)) = Some q"
    and m: "bn_mul_words (take n v) n q = (ws, l0)"
    and sb: "bn_sub_words (take (n + 1) (drop (k + 1) s)) (ws @ [l0]) (n + 1) = (d, borrow)"
  shows "\<exists>tmp'. length tmp' = length tmp \<and> div_step v n k (s, res, tmp) =
    (let s = blit s (k + 1) d;
         (q, s) = (if borrow \<noteq> 0 then
                     (let (d, carry) = bn_add_words (take n (drop (k + 1) s)) (take n v) n; s = blit s (k + 1) d
                      in (q - 1, if carry \<noteq> 0 then s[k + 1 + n := s ! (k + 1 + n) + 1] else s))
                   else (q, s))
     in Some (s, res[k := q], tmp'))"
proof -
  define w where "w = k + 1"
  define t where "t = (blit tmp 0 ws)[n := l0]"
  have lws: "length ws = n" using bn_mul_words(1) [OF m] assms(2) by simp
  have t: "length t = length tmp" "take (n + 1) t = ws @ [l0]"
    using lws assms(5) by (simp_all add: t_def blit_def list_update_append take_Suc_conv_app_nth upd_conv_take_nth_drop)
  have ld: "length d = n + 1" using bn_sub_words(1) [OF sb] assms(3) lws by simp
  have wl: "w + n < length s" using assms(3) by (simp add: w_def)
  define s1 where "s1 = blit s w d"
  have s1: "length s1 = length s" using ld wl by (simp add: s1_def)
  obtain d2 carry where ad: "bn_add_words (take n (drop w s1)) (take n v) n = (d2, carry)" by fastforce
  have ld2: "length d2 = n" using bn_add_words(1) [OF ad] assms(2) wl s1 by simp
  define s2 where "s2 = blit s1 w d2"
  have s2: "length s2 = length s" using ld2 wl s1 by (simp add: s2_def)
  have d1: "(if n = 1 then Some 0 else limb_at v (n - 2)) = Some (if n = 1 then 0 else v ! (n - 2))"
    using assms(1,2) by (auto simp: limb_at_def)
  have d0: "(if n = 0 then None else limb_at v (n - 1)) = Some (v ! (n - 1))"
    and n: "limb_at s (w + n) = Some (s ! (w + n))" "limb_at s (w + n - 1) = Some (s ! (w + n - 1))"
      "limb_at s (w + n - 2) = Some (s ! (w + n - 2))" "limbs_from v 0 n = Some (take n v)"
    and p: "limbs_put tmp 0 ws = Some (blit tmp 0 ws)" "limb_put (blit tmp 0 ws) n l0 = Some t"
    and f: "limbs_from s w (n + 1) = Some (take (n + 1) (drop w s))" "limbs_from t 0 (n + 1) = Some (ws @ [l0])"
    and g: "limbs_put s w d = Some s1" "limbs_from s1 w n = Some (take n (drop w s1))" "limbs_put s1 w d2 = Some s2"
    and h: "limb_at s2 (w + n) = Some (s2 ! (w + n))" "limb_put s2 (w + n) x = Some (s2[w + n := x])" "limb_put res k x = Some (res[k := x])" for x
    using assms(1-5) lws ld ld2 s1 s2 t wl by (auto simp: checked_defs t_def s1_def s2_def)
  note q = q [folded w_def] and sb = sb [folded w_def]
  have "div_step v n k (s, res, tmp) =
    (let (q, s) = (if borrow \<noteq> 0 then (q - 1, if carry \<noteq> 0 then s2[w + n := s2 ! (w + n) + 1] else s2) else (q, s1))
     in Some (s, res[k := q], t))"
    unfolding div_step_def Let_def prod.case w_def [symmetric] d0 d1 n bind.bind_lunit q m p f sb g
    by (cases "borrow = 0"; cases "carry = 0") (simp_all add: ad g h)
  then show ?thesis using t(1) ad by (intro exI [where x = t]) (simp add: s1_def s2_def w_def Let_def)
qed

lemma div_step:
  assumes "0 < n" "n \<le> length v" "2 ^ 63 \<le> unat (v ! (n - 1))" "k + 1 + n < length s" "k < length res" "n < length tmp"
  defines "V \<equiv> wval (take n v)" and "w \<equiv> k + 1"
  assumes less: "wval s < V * radix ^ (w + 1)"
  shows "\<exists>s' q tmp'. div_step v n k (s, res, tmp) = Some (s', res[k := q], tmp') \<and> length s' = length s \<and> length tmp' = length tmp \<and>
    wval s' + unat q * V * radix ^ w = wval s \<and> wval s' < V * radix ^ w"
proof -
  define us where "us = take (n + 1) (drop w s)"
  have wl: "w + n < length s" using assms(4) by (simp add: w_def)
  have lus: "length us = n + 1" using wl by (simp add: us_def)
  define U where "U = wval us"
  have Vlt: "V < radix ^ n" unfolding V_def by (rule wval_take_lt)
  have vr: "V * radix ^ (w + 1) = radix ^ w * (V * radix)" by simp
  have dec: "wval s = wval (take w s) + radix ^ w * U"
  proof -
    have a: "wval s = wval (take w s) + radix ^ w * wval (drop w s)" using wval_take_drop [of w s] wl by simp
    have b: "wval (drop w s) = U + radix ^ (n + 1) * wval (drop (n + 1) (drop w s))"
      using wval_take_drop [of "n + 1" "drop w s"] wl by (simp add: U_def us_def)
    have "radix ^ w * wval (drop w s) < radix ^ w * (V * radix)"
      using a less unfolding vr by linarith
    then have "wval (drop w s) < V * radix" by (simp only: mult_less_cancel1)
    also have "\<dots> \<le> radix ^ (n + 1)" using Vlt by simp
    finally have "wval (drop (n + 1) (drop w s)) = 0" using b by (cases "wval (drop (n + 1) (drop w s))") simp_all
    with a b show ?thesis by simp
  qed
  have Uless: "U < V * radix"
  proof -
    have "radix ^ w * U < radix ^ w * (V * radix)" using dec less unfolding vr by linarith
    then show ?thesis by (simp only: mult_less_cancel1)
  qed
  have nth: "s ! (w + n) = us ! n" "s ! (w + n - 1) = us ! (n - 1)" "n \<noteq> 1 \<Longrightarrow> s ! (w + n - 2) = us ! (n - 2)"
    using wl assms(1) by (simp_all add: us_def)
  have vnth: "take n v ! (n - 1) = v ! (n - 1)" "n \<noteq> 1 \<Longrightarrow> take n v ! (n - 2) = v ! (n - 2)" using assms(1) by simp_all
  define d1 where "d1 = (if n = 1 then 0 else v ! (n - 2))"
  have "\<exists>q. qhat (us ! n) (us ! (n - 1)) (s ! (w + n - 2)) (take n v ! (n - 1)) d1 = Some q \<and>
    wval us div wval (take n v) \<le> unat q \<and> unat q \<le> wval us div wval (take n v) + 1"
    by (rule qhat) (use assms(1-3) lus Uless vnth nth(3) in \<open>simp_all add: U_def V_def d1_def\<close>)
  then obtain q where q: "qhat (s ! (w + n)) (s ! (w + n - 1)) (s ! (w + n - 2)) (v ! (n - 1)) d1 = Some q"
    "U div V \<le> unat q" "unat q \<le> U div V + 1" unfolding vnth(1) nth(1,2) U_def V_def by blast
  obtain ws l0 where m: "bn_mul_words (take n v) n q = (ws, l0)" by fastforce
  have vl: "n \<le> length (take n v)" "take n (take n v) = take n v" using assms(2) by simp_all
  note M = bn_mul_words [OF m vl(1), unfolded vl(2)]
  obtain d borrow where sb: "bn_sub_words (take (n + 1) (drop w s)) (ws @ [l0]) (n + 1) = (d, borrow)" by fastforce
  obtain tmp' where unf: "length tmp' = length tmp" "div_step v n k (s, res, tmp) =
    (let s = blit s w d;
         (q, s) = (if borrow \<noteq> 0 then
                     (let (d, carry) = bn_add_words (take n (drop w s)) (take n v) n; s = blit s w d
                      in (q - 1, if carry \<noteq> 0 then s[w + n := s ! (w + n) + 1] else s))
                   else (q, s))
     in Some (s, res[k := q], tmp'))"
    using div_step_within [OF assms(1,2,4-6) q(1) [unfolded d1_def w_def] m sb [unfolded w_def], folded w_def] by blast
  have le: "n + 1 \<le> length (take (n + 1) (drop w s))" "n + 1 \<le> length (ws @ [l0])" using wl M(1) by simp_all
  note S = bn_sub_words [OF sb le]
  have vtmp: "wval (take (n + 1) (ws @ [l0])) = V * unat q" using M by (simp add: V_def wval_snoc)
  have sub: "wval d + V * unat q = U + radix ^ (n + 1) * unat borrow"
    using S(2) unfolding vtmp by (simp add: U_def us_def)
  have Vpos: "0 < V" using Uless by (cases V) simp_all
  have dm: "U = V * (U div V) + U mod V" by simp
  have fin: ?thesis if "div_step v n k (s, res, tmp) = Some (blit s w win, res[k := q'], tmp')" "length win = n + 1" "wval win = U mod V"
    "unat q' = U div V" for win q'
  proof -
    have l: "length (blit s w win) = length s" using wl that(2) by simp
    have "wval (blit s w win) + radix ^ w * U = wval s + radix ^ w * (U mod V)"
      using wval_blit [of w win s] wl that(2,3) by (simp add: U_def us_def)
    then have v: "wval (blit s w win) = wval (take w s) + radix ^ w * (U mod V)" using dec by simp
    have "wval (blit s w win) + (U div V) * V * radix ^ w = wval (take w s) + radix ^ w * (V * (U div V) + U mod V)"
      unfolding v by (simp only: algebra_simps)
    then have a: "wval (blit s w win) + (U div V) * V * radix ^ w = wval s" unfolding dm [symmetric] using dec by simp
    have "wval (blit s w win) < radix ^ w * (U mod V + 1)" unfolding v using wval_take_lt [of w s] by simp
    also have "\<dots> \<le> radix ^ w * V" using Vpos by (intro mult_le_mono2) (simp add: Suc_leI)
    finally show ?thesis using a l that(1,4) unf(1)
      by (intro exI [where x = "blit s w win"] exI [where x = q'] exI [where x = tmp'] conjI) (auto simp: mult.commute)
  qed
  show ?thesis
  proof (cases "borrow = 0")
    case True
    then have e: "wval d + V * unat q = U" using sub by simp
    then have "V * unat q \<le> U" by simp
    then have "unat q \<le> U div V" using Vpos by (simp add: less_eq_div_iff_mult_less_eq mult.commute)
    then have uq: "unat q = U div V" using q(2) by simp
    show ?thesis
    proof (rule fin)
      show "div_step v n k (s, res, tmp) = Some (blit s w d, res[k := q], tmp')"
        using True by (simp add: unf(2))
      have "wval d + V * (U div V) = U" using e uq by simp
      then show "wval d = U mod V" using dm by linarith
    qed (use S(1) uq in simp_all)
  next
    case False
    then have b1: "unat borrow = 1" using S(3) by auto
    have qQ: "unat q = U div V + 1"
    proof (rule ccontr)
      assume "unat q \<noteq> U div V + 1"
      then have "unat q = U div V" using q(2,3) by simp
      then have "wval d + V * (U div V) = U + radix ^ (n + 1)" using sub b1 by simp
      then have "radix ^ (n + 1) \<le> wval d" using dm by linarith
      then show False using wval_lt [of d] S(1) by simp
    qed
    obtain d2 carry where ad: "bn_add_words (take n (drop w (blit s w d))) (take n v) n = (d2, carry)" by fastforce
    have tk: "take n (take n (drop w (blit s w d))) = take n d" using wl S(1) by (simp add: blit_def)
    have le2: "n \<le> length (take n (drop w (blit s w d)))" using wl S(1) by simp
    note A = bn_add_words [OF ad le2 vl(1), unfolded tk vl(2), folded V_def]
    have dd: "wval d = wval (take n d) + radix ^ n * unat (d ! n)"
      using wval_take_Suc [of n d] S(1) by simp
    have "wval d + V = radix ^ (n + 1) + U mod V"
    proof -
      have "wval d + V + V * (U div V) = U + radix ^ (n + 1)" using sub b1 qQ by simp
      then show ?thesis using dm by linarith
    qed
    then have "wval d2 + radix ^ n * (unat carry + unat (d ! n)) = radix ^ (n + 1) + U mod V"
      using A(2) dd by (simp add: algebra_simps)
    note ab = add_back [OF this]
    have mV: "U mod V < radix ^ n" using Vpos Vlt by (meson less_trans mod_less_divisor)
    have r: "unat carry = 1" "unat (d ! n) + 1 = radix" "wval d2 = U mod V"
      using ab A(1,3) wval_lt [of d2] mV by simp_all
    have top: "d ! n + 1 = 0"
    proof -
      have "d ! n = - 1" using r(2) unat_uminus [of 1] by (simp add: word_unat_eq_iff)
      then show ?thesis by simp
    qed
    have cne: "carry \<noteq> 0" using r(1) by auto
    show ?thesis
    proof (rule fin)
      have "(blit (blit s w d) w d2)[w + n := blit (blit s w d) w d2 ! (w + n) + 1] = blit s w (d2 @ [0])"
        using blit_again [OF wl S(1) A(1)] top by simp
      then show "div_step v n k (s, res, tmp) = Some (blit s w (d2 @ [0]), res[k := q - 1], tmp')"
        using False cne by (simp add: unf(2) ad Let_def)
      show "unat (q - 1) = U div V" using qQ by (subst unat_minus_one) auto
    qed (use A(1) r(3) in \<open>simp_all add: wval_snoc\<close>)
  qed
qed

lemma div_loop:
  assumes "0 < n" "n \<le> length v" "2 ^ 63 \<le> unat (v ! (n - 1))"
  defines "V \<equiv> wval (take n v)"
  assumes "k + n < length s" "k \<le> length res" "wval s < V * radix ^ (k + 1)" "n < length tmp"
  shows "\<exists>s' res' tmp'. div_loop v n k (s, res, tmp) = Some (s', res', tmp') \<and> length s' = length s \<and> length res' = length res \<and>
    wval s' + wval (take k res') * V * radix = wval s \<and> wval s' < V * radix \<and> drop k res' = drop k res"
  using assms(5-8)
proof (induction k arbitrary: s res tmp)
  case (Suc k)
  have len: "k + 1 + n < length s" "wval s < wval (take n v) * radix ^ (k + 1 + 1)" using Suc.prems(1,3) by (simp_all add: V_def)
  have k: "k < length res" using Suc.prems(2) by simp
  obtain s1 q tmp1 where q: "div_step v n k (s, res, tmp) = Some (s1, res[k := q], tmp1)" "length s1 = length s"
    "wval s1 + unat q * V * radix ^ (k + 1) = wval s" "wval s1 < V * radix ^ (k + 1)" "length tmp1 = length tmp"
    using div_step [OF assms(1-3) len(1) k Suc.prems(4) len(2)] unfolding V_def by blast
  obtain s' res' tmp' where r: "div_loop v n k (s1, res[k := q], tmp1) = Some (s', res', tmp')" "length s' = length s1" "length res' = length res"
    "wval s' + wval (take k res') * V * radix = wval s1" "wval s' < V * radix" "drop k res' = drop k (res[k := q])"
    using Suc.IH [of s1 "res[k := q]" tmp1] Suc.prems(1,2,4) q(2,4,5) by auto
  have rk: "res' ! k = q" using nth_drop [of k res' 0] nth_drop [of k "res[k := q]" 0] r(3,6) k by simp
  have tk: "wval (take (Suc k) res') = wval (take k res') + radix ^ k * unat q"
    using wval_take_Suc [of k res'] r(3) k rk by simp
  have "wval s' + wval (take (Suc k) res') * V * radix = wval s' + wval (take k res') * V * radix + unat q * V * radix ^ (k + 1)"
    unfolding tk by (simp add: algebra_simps)
  then have "wval s' + wval (take (Suc k) res') * V * radix = wval s" using r(4) q(3) by simp
  moreover have "drop (Suc k) res' = drop (Suc k) res"
  proof -
    have "drop 1 (drop k res') = drop 1 (drop k (res[k := q]))" by (simp only: r(6))
    then show ?thesis by (simp add: drop_update_cancel)
  qed
  ultimately show ?case using q r by auto
qed auto

section \<open>Correctness of the normalisation\<close>

lemma bn_minimal_ge: "bn_ok a \<Longrightarrow> bn_minimal a \<Longrightarrow> 0 < bn_width a \<Longrightarrow> radix ^ (bn_width a - 1) \<le> bn_abs a"
proof -
  assume a: "bn_ok a" "bn_minimal a" "0 < bn_width a"
  let ?xs = "take (bn_width a) (bn_d a)"
  have l: "length ?xs = bn_width a" using bn_okD(3) [OF a(1)] by simp
  then have "last ?xs = bn_d a ! (bn_width a - 1)" using a(3) by (subst last_conv_nth) auto
  then have "last ?xs \<noteq> 0" using a(2,3) by (simp add: bn_minimal_def)
  moreover have "?xs \<noteq> []" using l a(3) by auto
  ultimately show "radix ^ (bn_width a - 1) \<le> bn_abs a" using top_limb_bounds [of ?xs] l by (simp add: bn_abs_def)
qed

text \<open>A number of minimal width whose length in bits is a multiple of 64 has its highest bit set.\<close>

lemma normalised_top:
  assumes "bn_ok a" "bn_minimal a" "2 ^ (64 * m - 1) \<le> bn_abs a" "bn_abs a < 2 ^ (64 * m)" "0 < m"
  shows "bn_width a = m" "2 ^ 63 \<le> unat (bn_d a ! (bn_width a - 1))"
proof -
  define n where "n = bn_width a"
  have np: "0 < n"
  proof (rule ccontr)
    assume "\<not> 0 < n"
    then have "bn_abs a = 0" using bn_abs_width_0 by (simp add: n_def)
    with assms(3) show False by simp
  qed
  have lo: "2 ^ (64 * (n - 1)) \<le> bn_abs a" using bn_minimal_ge [OF assms(1,2)] np by (simp add: n_def radix_power)
  have hi: "bn_abs a < 2 ^ (64 * n)" using bn_abs_lt [OF assms(1)] by (simp add: n_def radix_power)
  have "(2 :: nat) ^ (64 * (n - 1)) < 2 ^ (64 * m)" using lo assms(4) by (rule le_less_trans)
  then have "64 * (n - 1) < 64 * m" by (rule power_less_imp_less_exp [rotated]) simp
  then have "n \<le> m" by linarith
  moreover have "(2 :: nat) ^ (64 * m - 1) < 2 ^ (64 * n)" using assms(3) hi by (rule le_less_trans)
  then have "64 * m - 1 < 64 * n" by (rule power_less_imp_less_exp [rotated]) simp
  then have "m \<le> n" using assms(5) by linarith
  ultimately show nm: "bn_width a = m" by (simp add: n_def)
  have nl: "n \<le> length (bn_d a)" using bn_okD(3) [OF assms(1)] by (simp add: n_def)
  have "take n (bn_d a) = take (Suc (n - 1)) (bn_d a)" using np by simp
  then have v: "bn_abs a = wval (take (n - 1) (bn_d a)) + 2 ^ (64 * (n - 1)) * unat (bn_d a ! (n - 1))"
    using wval_take_Suc [of "n - 1" "bn_d a"] np nl by (simp add: bn_abs_def n_def [symmetric] radix_power)
  show "2 ^ 63 \<le> unat (bn_d a ! (bn_width a - 1))"
  proof (rule ccontr)
    assume "\<not> 2 ^ 63 \<le> unat (bn_d a ! (bn_width a - 1))"
    then have t: "unat (bn_d a ! (n - 1)) + 1 \<le> 2 ^ 63" by (simp add: n_def)
    have "bn_abs a < 2 ^ (64 * (n - 1)) * (unat (bn_d a ! (n - 1)) + 1)"
      using v wval_take_lt [of "n - 1" "bn_d a"] by (simp add: radix_power)
    also have "\<dots> \<le> 2 ^ (64 * (n - 1)) * 2 ^ 63" using t by (rule mult_le_mono2)
    also have "\<dots> = 2 ^ (64 * m - 1)"
    proof -
      have "64 * m - 1 = 64 * (n - 1) + 63" using np nm by (simp add: n_def)
      then show ?thesis by (simp only: power_add)
    qed
    finally show False using assms(3) by simp
  qed
qed

lemma for_range_fill:
  "lo \<le> hi \<Longrightarrow> hi \<le> length d \<Longrightarrow> for_range lo hi (\<lambda>i d. limb_put d i x) d = Some (blit d lo (replicate (hi - lo) x))"
proof (induction hi)
  case (Suc h)
  show ?case
  proof (cases "lo \<le> h")
    case True
    define ws where "ws = replicate (h - lo) x"
    have l: "lo + length ws = h" "h < length d" using True Suc.prems(2) by (simp_all add: ws_def)
    then have dd: "drop h d = d ! h # drop (Suc h) d" by (simp add: Cons_nth_drop_Suc)
    have "blit d lo ws = (take lo d @ ws) @ d ! h # drop (Suc h) d" using l by (simp add: blit_def dd)
    moreover have "length (take lo d @ ws) = h" using l by simp
    ultimately have "(blit d lo ws)[h := x] = (take lo d @ ws) @ x # drop (Suc h) d" by (metis list_update_length)
    then have "(blit d lo ws)[h := x] = blit d lo (ws @ [x])" using l(1) by (simp add: blit_def)
    moreover have "h < length (blit d lo ws)" using l by simp
    moreover have "ws @ [x] = replicate (Suc h - lo) x" using True by (simp add: ws_def Suc_diff_le replicate_append_same)
    moreover have "for_range lo h (\<lambda>i d. limb_put d i x) d = Some (blit d lo ws)"
      using Suc.IH True Suc.prems(2) by (simp add: ws_def)
    ultimately show ?thesis by (simp add: for_range_Suc [OF True] limb_put_def)
  next
    case False
    with Suc.prems(1) have "lo = Suc h" by simp
    then show ?thesis by simp
  qed
qed simp

text \<open>The padding stays within the array.\<close>

lemma div_pad_within:
  assumes "bn_ok snum"
  shows "div_pad e snum n = Some
     (if bn_width snum \<le> n + 1 then
        map_option (\<lambda>s. s\<lparr>bn_d := blit (bn_d s) (bn_width s) (replicate (n + 2 - bn_width s) 0), bn_width := n + 2\<rparr>)
          (bn_wexpand e snum (n + 2))
      else
        map_option (\<lambda>s. s\<lparr>bn_d := (bn_d s)[bn_width s := 0], bn_width := bn_width s + 1\<rparr>)
          (bn_wexpand e snum (bn_width snum + 1)))"
proof (cases "bn_width snum \<le> n + 1")
  case True
  show ?thesis
  proof (cases "bn_wexpand e snum (n + 2)")
    case (Some b)
    note W = bn_wexpand [OF Some assms]
    have "bn_width b \<le> n + 2" "n + 2 \<le> length (bn_d b)" using W(3,4) True by simp_all
    from for_range_fill [OF this, of 0] True Some show ?thesis by (simp add: div_pad_def)
  qed (use True in \<open>simp add: div_pad_def\<close>)
next
  case False
  show ?thesis
  proof (cases "bn_wexpand e snum (bn_width snum + 1)")
    case (Some b)
    note W = bn_wexpand [OF Some assms]
    have "bn_width b < length (bn_d b)" using W(3,4) by simp
    with False Some show ?thesis by (simp add: div_pad_def limb_put_def)
  qed (use False in \<open>simp add: div_pad_def\<close>)
qed

lemma div_pad:
  assumes "div_pad e snum n = Some (Some s)" "bn_ok snum"
  shows "bn_ok s" "bn_abs s = bn_abs snum" "n + 2 \<le> bn_width s" "bn_abs s < radix ^ (bn_width s - 1)"
    "bn_width s \<le> max (n + 2) (bn_width snum + 1)"
proof -
  have "bn_ok s \<and> bn_abs s = bn_abs snum \<and> n + 2 \<le> bn_width s \<and> bn_width snum < bn_width s \<and> bn_width s \<le> max (n + 2) (bn_width snum + 1)"
  proof (cases "bn_width snum \<le> n + 1")
    case True
    then obtain b where b: "bn_wexpand e snum (n + 2) = Some b"
      "s = b\<lparr>bn_d := blit (bn_d b) (bn_width b) (replicate (n + 2 - bn_width b) 0), bn_width := n + 2\<rparr>"
      using assms(1) by (auto simp: div_pad_within [OF assms(2)])
    have "bn_width snum \<le> n + 1" by fact
    with grow_to [of e snum "n + 1" b] b(1) assms(2) True b(2) bn_wexpand(4) [OF b(1) assms(2)] show ?thesis
      by (cases "bn_width snum = n + 1 + 1") auto
  next
    case False
    then obtain b where b: "bn_wexpand e snum (bn_width snum + 1) = Some b" "s = b\<lparr>bn_d := (bn_d b)[bn_width b := 0], bn_width := bn_width b + 1\<rparr>"
      using assms(1) by (auto simp: div_pad_within [OF assms(2)])
    note W = bn_wexpand [OF b(1) assms(2)]
    have l: "bn_width b < length (bn_d b)" using W(3,4) by simp
    then have "take (Suc (bn_width b)) ((bn_d b)[bn_width b := 0]) = take (bn_width b) (bn_d b) @ [0]"
      by (simp add: take_Suc_conv_app_nth)
    then have "bn_abs s = bn_abs b" by (simp add: b(2) bn_abs_def wval_append)
    with W l False show ?thesis by (auto simp: b(2) bn_ok_def)
  qed
  note F = this
  then show "bn_ok s" "bn_abs s = bn_abs snum" "n + 2 \<le> bn_width s" "bn_width s \<le> max (n + 2) (bn_width snum + 1)" by blast+
  have "bn_abs snum < radix ^ bn_width snum" by (rule bn_abs_lt [OF assms(2)])
  also have "\<dots> \<le> radix ^ (bn_width s - 1)" using F by (intro power_increasing) auto
  finally show "bn_abs s < radix ^ (bn_width s - 1)" using F by simp
qed

lemma div_normalise:
  assumes "div_normalise e snum sdiv a d = Some (Some (sn, sd, sh))" "bn_ok snum" "bn_ok sdiv" "bn_ok a" "bn_ok d" "bn_abs d \<noteq> 0"
  shows "bn_ok sn" "bn_ok sd" "0 < bn_width sd" "2 ^ 63 \<le> unat (bn_d sd ! (bn_width sd - 1))"
    "bn_abs sd * radix = bn_abs d * 2 ^ sh" "bn_abs sn = bn_abs a * 2 ^ sh" "bn_width sd + 2 \<le> bn_width sn"
    "bn_abs sn < bn_abs sd * radix ^ (bn_width sn - bn_width sd)"
    "bn_width sd \<le> bn_width d + 1" "bn_width sn \<le> max (bn_width sd + 2) (bn_width a + 4)"
proof -
  define bl where "bl = bit_len (bn_abs d)"
  define s1 where "s1 = 64 - bl mod 64"
  have nb: "BN_num_bits d = bl" using BN_num_bits [OF assms(5)] by (simp add: bl_def)
  obtain x where l1: "BN_lshift e sdiv d (int s1) = (True, x)"
    and rest: "(case BN_lshift e snum a (int (s1 + 64)) of
                   (False, _) \<Rightarrow> Some None
                 | (True, y) \<Rightarrow>
                     (case div_pad e ((bn_set_minimal_width y)\<lparr>bn_neg := False\<rparr>) (bn_width (bn_set_minimal_width x)) of
                        None \<Rightarrow> None
                      | Some None \<Rightarrow> Some None
                      | Some (Some z) \<Rightarrow> Some (Some (z, (bn_set_minimal_width x)\<lparr>bn_neg := False\<rparr>, s1 + 64)))) = Some (Some (sn, sd, sh))"
    using assms(1) unfolding div_normalise_def Let_def BN_BITS2_def nb s1_def [symmetric]
    by (auto split: prod.splits bool.splits)
  obtain y where l2: "BN_lshift e snum a (int (s1 + 64)) = (True, y)" using rest by (auto split: prod.splits bool.splits)
  define y' where "y' = (bn_set_minimal_width y)\<lparr>bn_neg := False\<rparr>"
  have sd: "sd = (bn_set_minimal_width x)\<lparr>bn_neg := False\<rparr>" "sh = s1 + 64"
    and pad: "div_pad e y' (bn_width sd) = Some (Some sn)"
    using rest l2 by (auto simp: y'_def split: option.splits)
  note L1 = BN_lshift [OF l1 assms(3,5)] and L2 = BN_lshift [OF l2 assms(2,4)]
  have X: "bn_abs x = bn_abs d * 2 ^ s1" "bn_ok x" using L1(1,2) by simp_all
  have Y: "bn_abs y = bn_abs a * 2 ^ (s1 + 64)" "bn_ok y" using L2(1,2) by (simp_all add: mult.commute nat_add_distrib)
  have sd': "bn_ok sd" "bn_abs sd = bn_abs d * 2 ^ s1" "bn_minimal sd" "bn_width sd \<le> bn_width x"
    using bn_set_minimal_width [OF X(2)] X(1) by (simp_all add: sd(1) bn_neg_update)
  have y': "bn_ok y'" "bn_abs y' = bn_abs a * 2 ^ sh" "bn_width y' \<le> bn_width y"
    using bn_set_minimal_width [OF Y(2)] Y(1) by (simp_all add: y'_def bn_neg_update sd(2))
  define m where "m = bl div 64 + 1"
  have m: "bl + s1 = 64 * m" "0 < m" "s1 \<le> 64" "0 < s1"
  proof -
    obtain q r where qr: "bl = 64 * q + r" "r < 64" by (metis mult_div_mod_eq mod_less_divisor zero_less_numeral)
    then have "bl div 64 = q" "bl mod 64 = r" by simp_all
    with qr show "bl + s1 = 64 * m" "0 < m" "s1 \<le> 64" "0 < s1" by (simp_all add: m_def s1_def)
  qed
  have bl0: "0 < bl" using assms(6) bit_len_lt [of "bn_abs d"] by (cases bl) (simp_all add: bl_def [symmetric])
  have "2 ^ (bl - 1) * 2 ^ s1 \<le> bn_abs sd" unfolding sd'(2) using bit_len_ge [OF assms(6)] by (simp add: bl_def)
  then have lo: "2 ^ (64 * m - 1) \<le> bn_abs sd" using m(1) bl0 by (simp flip: power_add)
  have "bn_abs sd < 2 ^ bl * 2 ^ s1" unfolding sd'(2) using bit_len_lt [of "bn_abs d"] by (simp add: bl_def)
  then have hi: "bn_abs sd < 2 ^ (64 * m)" using m(1) by (simp flip: power_add)
  note T = normalised_top [OF sd'(1,3) lo hi m(2)]
  note P = div_pad [OF pad y'(1)]
  show "bn_ok sn" "bn_ok sd" "0 < bn_width sd" "2 ^ 63 \<le> unat (bn_d sd ! (bn_width sd - 1))"
    "bn_abs sn = bn_abs a * 2 ^ sh" "bn_width sd + 2 \<le> bn_width sn"
    using P y' sd' T m(2) by simp_all
  show "bn_abs sd * radix = bn_abs d * 2 ^ sh" by (simp add: sd'(2) sd(2) radix_def power_add)
  show "bn_abs sn < bn_abs sd * radix ^ (bn_width sn - bn_width sd)"
  proof -
    have "bn_abs sn < radix ^ (bn_width sn - 1)" by (rule P(4))
    also have "\<dots> = 2 ^ (64 * (bn_width sn - 1))" by (rule radix_power)
    also have "\<dots> \<le> 2 ^ (64 * m - 1 + 64 * (bn_width sn - bn_width sd))"
      using P(3) T(1) m(2) by (intro power_increasing) auto
    also have "\<dots> = 2 ^ (64 * m - 1) * radix ^ (bn_width sn - bn_width sd)" by (simp add: power_add radix_power)
    also have "\<dots> \<le> bn_abs sd * radix ^ (bn_width sn - bn_width sd)" using lo by (rule mult_le_mono1)
    finally show ?thesis .
  qed
  have "(2 :: nat) ^ (bl - 1) < 2 ^ (64 * bn_width d)"
    using bit_len_ge [OF assms(6)] bn_abs_lt [OF assms(5)] unfolding radix_power bl_def by (rule le_less_trans)
  then have "bl - 1 < 64 * bn_width d" by (rule power_less_imp_less_exp [rotated]) simp
  then have "bit_len (bn_abs d) \<le> 64 * bn_width d" using bl0 by (simp add: bl_def)
  then show "bn_width sd \<le> bn_width d + 1" using T(1) by (simp add: m_def bl_def)
  have "bn_width y \<le> bn_width a + 3" using L2(6) m(3) by simp
  then show "bn_width sn \<le> max (bn_width sd + 2) (bn_width a + 4)" using P(5) y'(3) by auto
qed


text \<open>What an operation gives that writes the magnitude \<open>m\<close> and the sign \<open>s\<close> to the number \<open>b\<close>.\<close>

definition abs_result :: "bignum \<Rightarrow> bool \<Rightarrow> bignum \<Rightarrow> nat \<Rightarrow> bool \<Rightarrow> bool" where
  "abs_result b ok b' m s \<longleftrightarrow> bn_ok b' \<and> bn_flags b' = bn_flags b \<and>
     (ok \<longrightarrow> bn_abs b' = m \<and> bn_signed b' \<and> bn_minimal b' \<and> (m \<noteq> 0 \<longrightarrow> bn_neg b' = s))"

lemma abs_result_minimal:
  "bn_ok b' \<Longrightarrow> bn_flags b' = bn_flags b \<Longrightarrow> bn_abs b' = m \<Longrightarrow> bn_neg b' = s \<Longrightarrow> abs_result b ok (bn_set_minimal_width b') m s"
  using bn_set_minimal_width [of b'] by (auto simp: abs_result_def)

lemma abs_result_val:
  "abs_result b True b' m s \<Longrightarrow> bn_val b' = (if s then - int m else int m)"
  by (auto simp: abs_result_def bn_val_def)

lemma rshift_result:
  assumes "BN_rshift e r a n = (ok, r')" "bn_ok r" "bn_ok a" "\<not> bn_neg a"
  shows "abs_result r ok (if \<not> BN_is_zero r' then r'\<lparr>bn_neg := s\<rparr> else r') (bn_abs a div 2 ^ nat n) s"
proof -
  have "bn_signed a" using assms(4) by (simp add: bn_signed_def)
  note R = BN_rshift [OF assms(1-3) this]
  show ?thesis using R(1-3,5) BN_is_zero [OF R(1)]
    by (auto simp: abs_result_def bn_neg_update bn_signed_def bn_minimal_def)
qed

lemma div_digits:
  assumes "bn_ok snum" "bn_ok sdiv" "0 < bn_width sdiv" "2 ^ 63 \<le> unat (bn_d sdiv ! (bn_width sdiv - 1))"
    "bn_width sdiv + 2 \<le> bn_width snum" "bn_abs snum < bn_abs sdiv * radix ^ (bn_width snum - bn_width sdiv)"
    "\<not> bn_neg snum" "bn_ok tmp" "bn_ok res" "\<And>r. rem = Some r \<Longrightarrow> bn_ok r"
  shows "\<exists>ok res' rem'. div_digits e q_is_num snum sdiv sh tmp res rem numerator divisor = Some (ok, res', rem') \<and>
    abs_result res ok res' (bn_abs snum div (bn_abs sdiv * radix)) (bn_neg numerator \<noteq> bn_neg divisor) \<and>
    rel_option (\<lambda>r r'. abs_result r ok r' (bn_abs snum mod (bn_abs sdiv * radix) div 2 ^ sh)
       (if q_is_num then bn_neg numerator \<noteq> bn_neg divisor else bn_neg numerator)) rem rem' \<and>
    (heap_generous e \<longrightarrow> bn_expandable res \<longrightarrow> bn_expandable tmp \<longrightarrow> (\<forall>r. rem = Some r \<longrightarrow> bn_expandable r) \<longrightarrow>
       bn_width snum - bn_width sdiv + 1 \<le> bn_max_words \<longrightarrow> bn_width sdiv + 1 \<le> bn_max_words \<longrightarrow> ok)"
proof -
  define n where "n = bn_width sdiv"
  define k where "k = bn_width snum - n - 1"
  have k: "bn_width snum - n = k + 1" "0 < k" "k + n < bn_width snum" using assms(5) by (simp_all add: k_def n_def)
  define res0 where "res0 = res\<lparr>bn_neg := bn_neg numerator \<noteq> bn_neg divisor\<rparr>"
  have res0: "bn_ok res0" "bn_flags res0 = bn_flags res" "bn_neg res0 = (bn_neg numerator \<noteq> bn_neg divisor)"
    using assms(9) by (simp_all add: res0_def bn_neg_update)
  have rem_fail: "rel_option (\<lambda>r r'. abs_result r False r' m s) rem rem" for m s
    using assms(10) by (cases rem) (auto simp: abs_result_def)
  note U = div_digits_def Let_def n_def [symmetric] k(1) res0_def [symmetric]
  show ?thesis
  proof (cases "bn_wexpand e res0 (k + 2)")
    case None
    then have "div_digits e q_is_num snum sdiv sh tmp res rem numerator divisor = Some (False, res0, rem)"
      unfolding U by simp
    moreover have "abs_result res False res0 m s" for m s using res0 by (simp add: abs_result_def)
    moreover have "heap_generous e \<Longrightarrow> bn_expandable res \<Longrightarrow> \<not> k + 2 \<le> bn_max_words"
      using bn_wexpand_fails [OF None] bn_expandable_flags [OF res0(2)] by (simp add: not_le)
    ultimately show ?thesis
      by (intro exI [where x = False] exI [where x = res0] exI [where x = rem] conjI) (simp_all add: rem_fail k(1) n_def [symmetric] leD)
  next
    case (Some res1)
    note W = bn_wexpand [OF Some res0(1)]
    define res2 where "res2 = res1\<lparr>bn_width := k\<rparr>"
    have res2: "bn_ok res2" "bn_flags res2 = bn_flags res" "bn_neg res2 = (bn_neg numerator \<noteq> bn_neg divisor)" "k \<le> length (bn_d res2)"
      using W res0 by (simp_all add: res2_def bn_ok_def)
    show ?thesis
    proof (cases "bn_wexpand e tmp (n + 1)")
      case None
      then have "div_digits e q_is_num snum sdiv sh tmp res rem numerator divisor = Some (False, res2, rem)"
        using Some unfolding U by (simp add: res2_def)
      moreover have "abs_result res False res2 m s" for m s using res2 by (simp add: abs_result_def)
      moreover have "heap_generous e \<Longrightarrow> bn_expandable tmp \<Longrightarrow> \<not> n + 1 \<le> bn_max_words" using bn_wexpand_fails [OF None] by (simp add: not_le)
      ultimately show ?thesis
        by (intro exI [where x = False] exI [where x = res2] exI [where x = rem] conjI) (simp_all add: rem_fail n_def [symmetric] leD)
    next
      case (Some t)
      define V where "V = bn_abs sdiv"
      have V: "V = wval (take n (bn_d sdiv))" by (simp add: V_def n_def bn_abs_def)
      have lv: "n \<le> length (bn_d sdiv)" using bn_okD [OF assms(2)] by (simp add: n_def)
      define s0 where "s0 = take (bn_width snum) (bn_d snum)"
      have s0: "length s0 = bn_width snum" "wval s0 = bn_abs snum" using bn_okD [OF assms(1)] by (simp_all add: s0_def bn_abs_def)
      have lt: "wval s0 < wval (take n (bn_d sdiv)) * radix ^ (k + 1)"
        using assms(6) by (simp only: s0 V [symmetric] V_def n_def [symmetric] k(1))
      have lt': "n < length (bn_d t)" using bn_wexpand(3) [OF Some assms(8)] by simp
      obtain s' d' t' where L: "div_loop (bn_d sdiv) n k (s0, bn_d res2, bn_d t) = Some (s', d', t')" "length s' = length s0" "length d' = length (bn_d res2)"
        "wval s' + wval (take k d') * V * radix = wval s0" "wval s' < V * radix"
        using div_loop [OF assms(3) lv [unfolded n_def] assms(4) _ res2(4), of s0 "bn_d t", folded n_def V] k(3) lt lt' s0(1) by (auto simp: V)
      define res3 where "res3 = res2\<lparr>bn_d := d'\<rparr>"
      have res3: "bn_ok res3" "bn_abs res3 = wval (take k d')" "bn_flags res3 = bn_flags res" "bn_neg res3 = bn_neg res2"
        using res2 L(3) by (simp_all add: res3_def bn_ok_def bn_abs_def res2_def)
      define sn where "sn = snum\<lparr>bn_d := blit (bn_d snum) 0 s'\<rparr>"
      have sn: "bn_ok sn" "bn_abs sn = wval s'" "\<not> bn_neg sn"
        using assms(1,7) L(2) s0(1) blit_front [of s' "bn_d snum"] bn_okD [OF assms(1)] by (simp_all add: sn_def bn_ok_def bn_abs_def)
      note M = bn_set_minimal_width [OF sn(1)]
      have snm: "\<not> bn_neg (bn_set_minimal_width sn)" using sn(3) by (simp add: bn_set_minimal_width_def Let_def)
      have "bn_abs snum = wval s' + wval (take k d') * (V * radix)" using L(4) s0(2) by simp
      moreover have nz: "V * radix \<noteq> 0" using L(5) by linarith
      ultimately have Q: "bn_abs snum div (V * radix) = wval (take k d')" "bn_abs snum mod (V * radix) = wval s'"
        using L(5) nz by (simp_all only: div_mult_self1 mod_mult_self1 div_less mod_less add_0_right)
      have qres: "abs_result res ok (bn_set_minimal_width res3) (bn_abs snum div (V * radix)) (bn_neg numerator \<noteq> bn_neg divisor)" for ok
        using abs_result_minimal [OF res3(1,3)] res3(2,4) res2(3) Q(1) by simp
      have qbad: "abs_result res False res3 m s'" for m s' using res3 by (simp add: abs_result_def)
      define neg where "neg = (if q_is_num then bn_neg numerator \<noteq> bn_neg divisor else bn_neg numerator)"
      have eq: "div_digits e q_is_num snum sdiv sh tmp res rem numerator divisor =
        (case rem of
           None \<Rightarrow> Some (True, bn_set_minimal_width res3, None)
         | Some r \<Rightarrow>
             (case BN_rshift e r (bn_set_minimal_width sn) (int sh) of
                (False, r) \<Rightarrow> Some (False, res3, Some r)
              | (True, r) \<Rightarrow> Some (True, bn_set_minimal_width res3, Some (if \<not> BN_is_zero r then r\<lparr>bn_neg := neg\<rparr> else r))))"
      proof -
        have w1: "bn_wexpand e res0 (k + 1 + 1) = Some res1" using \<open>bn_wexpand e res0 (k + 2) = Some res1\<close> by simp
        have i1: "(if bn_width res2 = 0 then res2\<lparr>bn_neg := False\<rparr> else res2) = res2" using k(2) by (simp add: res2_def)
        show ?thesis
          unfolding U w1 Some add_diff_cancel_right' option.case res2_def [symmetric] i1 res2(3) s0_def [symmetric] L(1)
            prod.case sn_def [symmetric] res3_def [symmetric] neg_def [symmetric]
          by (rule refl)
      qed
      show ?thesis
      proof (cases rem)
        case None
        then show ?thesis using eq qres by (intro exI [where x = True]) (simp add: V_def)
      next
        case (Some r)
        obtain ok r' where sh: "BN_rshift e r (bn_set_minimal_width sn) (int sh) = (ok, r')" by fastforce
        have rok: "bn_ok r" using assms(10) Some by simp
        note R = rshift_result [OF sh rok M(1) snm, of neg]
        have sg: "bn_signed (bn_set_minimal_width sn)" by (rule M(5))
        note S = BN_rshift [OF sh rok M(1) sg]
        show ?thesis
        proof (cases ok)
          case True
          with eq sh Some have "div_digits e q_is_num snum sdiv sh tmp res rem numerator divisor =
            Some (True, bn_set_minimal_width res3, Some (if \<not> BN_is_zero r' then r'\<lparr>bn_neg := neg\<rparr> else r'))" by simp
          then show ?thesis using R True qres [of True] Some M(2) sn(2) Q(2) unfolding neg_def V_def by (intro exI conjI) auto
        next
          case False
          with eq sh Some have "div_digits e q_is_num snum sdiv sh tmp res rem numerator divisor = Some (False, res3, Some r')" by simp
          moreover have "abs_result r False r' m s" for m s using S(1,5) by (simp add: abs_result_def)
          ultimately show ?thesis using S(7) False Some qbad by auto
        qed
      qed
    qed
  qed
qed


lemma div_normalise_neg: "div_normalise e snum sdiv a d = Some (Some (sn, sd, sh)) \<Longrightarrow> bn_ok snum \<Longrightarrow> bn_ok a \<Longrightarrow> \<not> bn_neg sn"
proof -
  assume N: "div_normalise e snum sdiv a d = Some (Some (sn, sd, sh))" "bn_ok snum" "bn_ok a"
  obtain y n m k where y: "BN_lshift e snum a n = (True, y)" "div_pad e ((bn_set_minimal_width y)\<lparr>bn_neg := False\<rparr>) k = Some (Some sn)"
    using N(1) by (auto simp: div_normalise_def Let_def split: prod.splits bool.splits option.splits)
  have o: "bn_ok ((bn_set_minimal_width y)\<lparr>bn_neg := False\<rparr>)"
    using bn_set_minimal_width(1) [OF BN_lshift(1) [OF y(1) N(2,3)]] by (simp add: bn_neg_update)
  with y(2) show ?thesis by (auto simp: div_pad_within [OF o] dest: bn_wexpand(5) split: if_splits)
qed

lemma div_pad_succeeds:
  assumes "heap_generous e" "bn_expandable snum" "max (n + 2) (bn_width snum + 1) \<le> bn_max_words" "bn_ok snum"
  shows "\<exists>s. div_pad e snum n = Some (Some s)"
  using bn_wexpand_succeeds [OF assms(1,2), of "n + 2"] bn_wexpand_succeeds [OF assms(1,2), of "bn_width snum + 1"] assms(3)
  by (auto simp: div_pad_within [OF assms(4)])

lemma div_normalise_returns:
  assumes "bn_ok snum" "bn_ok a"
  shows "div_normalise e snum sdiv a d \<noteq> None"
proof
  assume "div_normalise e snum sdiv a d = None"
  then obtain y n k where y: "BN_lshift e snum a n = (True, y)" "div_pad e ((bn_set_minimal_width y)\<lparr>bn_neg := False\<rparr>) k = None"
    by (auto simp: div_normalise_def Let_def split: prod.splits bool.splits option.splits)
  have "bn_ok ((bn_set_minimal_width y)\<lparr>bn_neg := False\<rparr>)"
    using bn_set_minimal_width(1) [OF BN_lshift(1) [OF y(1) assms]] by (simp add: bn_neg_update)
  from div_pad_within [OF this] y(2) show False by simp
qed

lemma div_normalise_succeeds:
  assumes "heap_generous e" "bn_expandable snum" "bn_expandable sdiv" "bn_ok snum" "bn_ok sdiv" "bn_ok a" "bn_ok d"
    "bn_width a + 5 \<le> bn_max_words" "bn_width d + 5 \<le> bn_max_words"
  shows "\<exists>x. div_normalise e snum sdiv a d = Some (Some x)"
proof -
  define s1 where "s1 = 64 - BN_num_bits d mod 64"
  have s1: "s1 \<le> 64" "s1 div 64 \<le> 1" "(s1 + 64) div 64 \<le> 2" unfolding s1_def by (simp_all add: div_le_mono [of _ 64 64, simplified])
  obtain ok1 x where x: "BN_lshift e sdiv d (int s1) = (ok1, x)" by fastforce
  obtain ok2 y where y: "BN_lshift e snum a (int (s1 + 64)) = (ok2, y)" by fastforce
  note X = BN_lshift [OF x assms(5,7)] and Y = BN_lshift [OF y assms(4,6)]
  have ok: ok1 ok2 using X(7) Y(7) assms s1 by simp_all
  let ?x = "bn_set_minimal_width x" and ?y = "(bn_set_minimal_width y)\<lparr>bn_neg := False\<rparr>"
  have wx: "bn_width ?x \<le> bn_width d + 2" using bn_set_minimal_width(10) [OF X(1)] X(6) ok s1(2) by simp
  have wy: "bn_width ?y \<le> bn_width a + 3" using bn_set_minimal_width(10) [OF Y(1)] Y(6) ok s1(3) by simp
  have "bn_expandable ?y" using Y(5) bn_set_minimal_width(7) [OF Y(1)] assms(2) by (simp add: bn_expandable_def)
  moreover have "max (bn_width ?x + 2) (bn_width ?y + 1) \<le> bn_max_words" using wx wy assms(8,9) by linarith
  ultimately obtain z where z: "div_pad e ?y (bn_width ?x) = Some (Some z)"
    using div_pad_succeeds [OF assms(1)] bn_set_minimal_width(1) [OF Y(1)] by (metis bn_neg_update(1))
  show ?thesis using x y z ok by (simp add: div_normalise_def Let_def s1_def BN_BITS2_def)
qed

lemma BN_div:
  assumes "bn_ok numerator" "bn_ok divisor" "pred_option bn_ok quot" "pred_option bn_ok rem" "ctx_ok ctx"
  shows "\<exists>ok quot' rem'. BN_div e ctx q_is_num quot rem numerator divisor = Some (ok, quot', rem') \<and> (ok \<longrightarrow> bn_abs divisor \<noteq> 0) \<and>
    rel_option (\<lambda>q q'. abs_result q ok q' (bn_abs numerator div bn_abs divisor) (bn_neg numerator \<noteq> bn_neg divisor)) quot quot' \<and>
    rel_option (\<lambda>r r'. abs_result r ok r' (bn_abs numerator mod bn_abs divisor)
       (if q_is_num then bn_neg numerator \<noteq> bn_neg divisor else bn_neg numerator)) rem rem' \<and>
    (heap_generous e \<longrightarrow> ctx_ready ctx 4 \<longrightarrow> (\<forall>q. quot = Some q \<longrightarrow> bn_expandable q) \<longrightarrow> (\<forall>r. rem = Some r \<longrightarrow> bn_expandable r) \<longrightarrow>
       bn_abs divisor \<noteq> 0 \<longrightarrow> bn_width numerator + 5 \<le> bn_max_words \<longrightarrow> bn_width divisor + 5 \<le> bn_max_words \<longrightarrow> ok)"
    (is "\<exists>ok quot' rem'. ?goal ok quot' rem'")
proof -
  have outputs: "\<And>q. quot = Some q \<Longrightarrow> bn_ok q" "\<And>r. rem = Some r \<Longrightarrow> bn_ok r" using assms(3,4) by simp_all
  let ?N = "bn_abs numerator" and ?D = "bn_abs divisor"
  let ?gen = "heap_generous e \<and> ctx_ready ctx 4 \<and> (\<forall>q. quot = Some q \<longrightarrow> bn_expandable q) \<and> (\<forall>r. rem = Some r \<longrightarrow> bn_expandable r) \<and>
       ?D \<noteq> 0 \<and> bn_width numerator + 5 \<le> bn_max_words \<and> bn_width divisor + 5 \<le> bn_max_words"
  have fail: "rel_option (\<lambda>r r'. abs_result r False r' m s) q q" if "\<And>r. q = Some r \<Longrightarrow> bn_ok r" for q m s
    using that by (cases q) (auto simp: abs_result_def)
  have failed: "?goal False quot rem" if "BN_div e ctx q_is_num quot rem numerator divisor = Some (False, quot, rem)" "\<not> ?gen"
    using that fail [of quot, OF outputs(1)] fail [of rem, OF outputs(2)] by blast
  define res0 where "res0 = (case quot of None \<Rightarrow> BN_CTX_get ctx 3 | Some q \<Rightarrow> Some q)"
  have top: "\<not> (bn_minimal_width a > 0 \<and> bn_d a ! (bn_minimal_width a - 1) = 0)" if "bn_ok a" for a
    using bn_minimal_width [OF that] by auto
  have z: "BN_is_zero divisor \<longleftrightarrow> ?D = 0" by (rule BN_is_zero [OF assms(2)])
  have chk: "((0 < bn_minimal_width numerator \<and> bn_d numerator ! (bn_minimal_width numerator - 1) = 0) \<or>
      (0 < bn_minimal_width divisor \<and> bn_d divisor ! (bn_minimal_width divisor - 1) = 0)) = False"
    using top [OF assms(1)] top [OF assms(2)] by blast
  note U = BN_div_def Let_def res0_def [symmetric] chk if_False z
  show ?thesis
  proof (cases "?D = 0")
    case True
    then have "BN_div e ctx q_is_num quot rem numerator divisor = Some (False, quot, rem)"
      unfolding U by simp
    with failed True show ?thesis by blast
  next
    case False
    show ?thesis
    proof (cases "BN_CTX_get ctx 0 = None \<or> BN_CTX_get ctx 1 = None \<or> BN_CTX_get ctx 2 = None \<or> res0 = None")
      case True
      then have "BN_div e ctx q_is_num quot rem numerator divisor = Some (False, quot, rem)"
        unfolding U by (auto split: option.splits)
      moreover have "\<not> ctx_ready ctx 4"
      proof
        assume r: "ctx_ready ctx 4"
        show False using True ctx_ready [OF r, of 0] ctx_ready [OF r, of 1] ctx_ready [OF r, of 2] ctx_ready [OF r, of 3]
          by (auto simp: res0_def split: option.splits)
      qed
      ultimately show ?thesis using failed by blast
    next
      case False
      then obtain tmp snum sdiv res where c: "BN_CTX_get ctx 0 = Some tmp" "BN_CTX_get ctx 1 = Some snum" "BN_CTX_get ctx 2 = Some sdiv"
        "res0 = Some res" by auto
      note ok = BN_CTX_get [OF assms(5) c(1)] BN_CTX_get [OF assms(5) c(2)] BN_CTX_get [OF assms(5) c(3)]
      have res: "bn_ok res" "quot = Some q \<Longrightarrow> res = q" for q
        using c(4) outputs(1) BN_CTX_get [OF assms(5), of 3] by (auto simp: res0_def split: option.splits)
      have ex: "bn_expandable tmp" "bn_expandable snum" "bn_expandable sdiv" "bn_expandable res" if ?gen
      proof -
        have r: "ctx_ready ctx 4" using that by blast
        show "bn_expandable tmp" "bn_expandable snum" "bn_expandable sdiv"
          using c(1-3) ctx_ready [OF r, of 0] ctx_ready [OF r, of 1] ctx_ready [OF r, of 2] by simp_all
        show "bn_expandable res" using c(4) that ctx_ready [OF r, of 3] by (auto simp: res0_def split: option.splits)
      qed
      have eq: "BN_div e ctx q_is_num quot rem numerator divisor =
        (case div_normalise e snum sdiv numerator divisor of
           None \<Rightarrow> None
         | Some None \<Rightarrow> Some (False, quot, rem)
         | Some (Some (snum, sdiv, norm_shift)) \<Rightarrow>
             (case div_digits e q_is_num snum sdiv norm_shift tmp res rem numerator divisor of
                None \<Rightarrow> None
              | Some (ok, res, rem) \<Rightarrow> Some (ok, map_option (\<lambda>_. res) quot, rem)))"
        using \<open>?D \<noteq> 0\<close> unfolding U c by simp
      show ?thesis
      proof (cases "div_normalise e snum sdiv numerator divisor = Some None")
        case None: True
        have "\<not> ?gen"
          using div_normalise_succeeds [of e snum sdiv numerator divisor] None ok(2,3) ex assms(1,2) by fastforce
        with failed [OF _ this] show ?thesis unfolding eq None by (simp only: option.case) blast
      next
        case False
        then obtain sn sd sh where nz: "div_normalise e snum sdiv numerator divisor = Some (Some (sn, sd, sh))"
          using div_normalise_returns [of snum numerator e sdiv divisor] ok(2) assms(1) by (metis option.exhaust prod_cases3)
        have o: "bn_ok snum" "bn_ok sdiv" "bn_ok tmp" using ok by simp_all
        note N = div_normalise [OF nz o(1,2) assms(1,2) \<open>?D \<noteq> 0\<close>]
        have Q: "bn_abs sn div (bn_abs sd * radix) = ?N div ?D" "bn_abs sn mod (bn_abs sd * radix) div 2 ^ sh = ?N mod ?D"
          unfolding N(5,6) by (simp_all add: mult_mod_left [symmetric] mod_mult_mult2)
        obtain ok' res' rem' where dd: "div_digits e q_is_num sn sd sh tmp res rem numerator divisor = Some (ok', res', rem')"
          "abs_result res ok' res' (?N div ?D) (bn_neg numerator \<noteq> bn_neg divisor)"
          "rel_option (\<lambda>r r'. abs_result r ok' r' (?N mod ?D)
             (if q_is_num then bn_neg numerator \<noteq> bn_neg divisor else bn_neg numerator)) rem rem'"
          "heap_generous e \<longrightarrow> bn_expandable res \<longrightarrow> bn_expandable tmp \<longrightarrow> (\<forall>r. rem = Some r \<longrightarrow> bn_expandable r) \<longrightarrow>
             bn_width sn - bn_width sd + 1 \<le> bn_max_words \<longrightarrow> bn_width sd + 1 \<le> bn_max_words \<longrightarrow> ok'"
          using div_digits [OF N(1,2,3,4,7,8) div_normalise_neg [OF nz o(1) assms(1)] o(3) res(1) outputs(2), of rem e q_is_num sh numerator divisor]
          unfolding Q by blast
        have "ok'" if ?gen
        proof -
          have "bn_width sn - bn_width sd + 1 \<le> bn_max_words" "bn_width sd + 1 \<le> bn_max_words"
            using that N(9,10) by (auto simp: bn_max_words)
          then show ?thesis using dd(4) that ex [OF that] by blast
        qed
        moreover have "rel_option (\<lambda>q q'. abs_result q ok' q' (?N div ?D) (bn_neg numerator \<noteq> bn_neg divisor)) quot (map_option (\<lambda>_. res') quot)"
          using dd(2) res(2) by (cases quot) auto
        moreover have "BN_div e ctx q_is_num quot rem numerator divisor = Some (ok', map_option (\<lambda>_. res') quot, rem')"
          using eq nz dd(1) by simp
        ultimately have "?goal ok' (map_option (\<lambda>_. res') quot) rem'" using dd(3) \<open>?D \<noteq> 0\<close> by blast
        then show ?thesis by blast
      qed
    qed
  qed
qed


lemma BN_div_both:
  assumes "bn_ok n" "bn_ok d" "bn_ok q" "bn_ok r" "ctx_ok ctx"
  shows "\<exists>ok q' r'. BN_div e ctx q_is_num (Some q) (Some r) n d = Some (ok, Some q', Some r') \<and> (ok \<longrightarrow> bn_abs d \<noteq> 0) \<and>
    abs_result q ok q' (bn_abs n div bn_abs d) (bn_neg n \<noteq> bn_neg d) \<and>
    abs_result r ok r' (bn_abs n mod bn_abs d) (if q_is_num then bn_neg n \<noteq> bn_neg d else bn_neg n) \<and>
    (heap_generous e \<longrightarrow> ctx_ready ctx 4 \<longrightarrow> bn_expandable q \<longrightarrow> bn_expandable r \<longrightarrow> bn_abs d \<noteq> 0 \<longrightarrow>
       bn_width n + 5 \<le> bn_max_words \<longrightarrow> bn_width d + 5 \<le> bn_max_words \<longrightarrow> ok)"
proof -
  have o: "pred_option bn_ok (Some q)" "pred_option bn_ok (Some r)" using assms(3,4) by simp_all
  obtain ok quot' rem' where B: "BN_div e ctx q_is_num (Some q) (Some r) n d = Some (ok, quot', rem')" "ok \<longrightarrow> bn_abs d \<noteq> 0"
    "rel_option (\<lambda>q q'. abs_result q ok q' (bn_abs n div bn_abs d) (bn_neg n \<noteq> bn_neg d)) (Some q) quot'"
    "rel_option (\<lambda>r r'. abs_result r ok r' (bn_abs n mod bn_abs d) (if q_is_num then bn_neg n \<noteq> bn_neg d else bn_neg n)) (Some r) rem'"
    "heap_generous e \<longrightarrow> ctx_ready ctx 4 \<longrightarrow> (\<forall>x. Some q = Some x \<longrightarrow> bn_expandable x) \<longrightarrow> (\<forall>x. Some r = Some x \<longrightarrow> bn_expandable x) \<longrightarrow>
       bn_abs d \<noteq> 0 \<longrightarrow> bn_width n + 5 \<le> bn_max_words \<longrightarrow> bn_width d + 5 \<le> bn_max_words \<longrightarrow> ok"
    using BN_div [of n d "Some q" "Some r" ctx e q_is_num, OF assms(1,2) o assms(5)] by - (elim exE conjE, rule that, assumption+)
  from B(3,4) obtain q' r' where Q: "quot' = Some q'" "abs_result q ok q' (bn_abs n div bn_abs d) (bn_neg n \<noteq> bn_neg d)"
    and R: "rem' = Some r'" "abs_result r ok r' (bn_abs n mod bn_abs d) (if q_is_num then bn_neg n \<noteq> bn_neg d else bn_neg n)"
    unfolding option_rel_Some1 by blast
  have "BN_div e ctx q_is_num (Some q) (Some r) n d = Some (ok, Some q', Some r')" using B(1) Q(1) R(1) by simp
  moreover have "heap_generous e \<longrightarrow> ctx_ready ctx 4 \<longrightarrow> bn_expandable q \<longrightarrow> bn_expandable r \<longrightarrow> bn_abs d \<noteq> 0 \<longrightarrow>
       bn_width n + 5 \<le> bn_max_words \<longrightarrow> bn_width d + 5 \<le> bn_max_words \<longrightarrow> ok" using B(5) by blast
  ultimately show ?thesis using B(2) Q(2) R(2) by blast
qed

section \<open>Correctness of the constant-time division\<close>

lemma fold_down_invariant:
  assumes "P n s" "\<And>i s. i < n \<Longrightarrow> P (Suc i) s \<Longrightarrow> P i (f i s)"
  shows "P 0 (fold f (rev [0..<n]) s)"
  using assms
proof (induction n arbitrary: s)
  case (Suc n)
  from Suc.prems have "P n (f n s)" by blast
  with Suc.IH [of "f n s"] Suc.prems(2) show ?case by simp
qed simp

text \<open>Setting a bit of a number whose lower bits are clear.\<close>

lemma or_bit:
  assumes "unat (q :: limb) = 2 ^ Suc j * h" "j < 64"
  shows "unat (q OR push_bit j (of_bool p)) = 2 ^ j * (2 * h + of_bool p)"
proof -
  have b: "unat (push_bit j (of_bool p) :: limb) = 2 ^ j * of_bool p"
  proof -
    have "(2 :: nat) ^ j < 2 ^ 64" using assms(2) by (rule power_strict_increasing) simp
    then show ?thesis by (cases p) (simp_all add: unat_push_bit del: push_bit_of_1)
  qed
  have "unat (q OR push_bit j (of_bool p)) = unat q + unat (push_bit j (of_bool p) :: limb)"
    by (rule or_disjoint [of "Suc j"]) (simp_all add: assms(1) b)
  then show ?thesis by (simp add: assms(1) b distrib_left)
qed

lemma div_bit:
  assumes "div_bit d dw ni j (r, qi) = (r', qi')" "dw \<le> length d" "length r = dw" "0 < dw" "j < 64"
  defines "D \<equiv> wval (take dw d)" and "B \<equiv> unat ni div 2 ^ j mod 2"
  assumes "wval r < D"
  shows "length r' = dw" "wval r' < D" "qi' = qi OR push_bit j (of_bool (D \<le> 2 * wval r + B))"
    "wval r' + D * of_bool (D \<le> 2 * wval r + B) = 2 * wval r + B"
proof -
  obtain s c where s: "bn_add_words r r dw = (s, c)" by fastforce
  have rr: "dw \<le> length r" "take dw r = r" using assms(3) by simp_all
  note S = bn_add_words [OF s rr(1) rr(1), unfolded rr(2)]
  define b where "b = drop_bit j ni AND 1"
  have b: "unat b = B" unfolding b_def B_def by (simp add: and_one_eq unat_mod unat_drop_bit_eq) (simp add: drop_bit_eq_div)
  define t where "t = s[0 := s ! 0 OR b]"
  have lt: "length t = dw" using S(1) by (simp add: t_def)
  have t: "wval t + radix ^ dw * unat c = 2 * wval r + B"
  proof -
    obtain x xs where sx: "s = x # xs" using S(1) assms(4) by (cases s) auto
    have "even (wval s + radix ^ dw * unat c)" using S(2) by simp
    moreover have "even (radix ^ dw)" "even radix" using assms(4) by (simp_all add: radix_def)
    ultimately have "even (unat x)" by (simp add: sx)
    then have "unat (x OR b) = unat x + unat b" by (intro or_disjoint [of 1]) (simp_all add: b B_def)
    then have "wval t = wval s + B" by (simp add: t_def sx b)
    with S(2) show ?thesis by simp
  qed
  obtain u k where u: "bn_sub_words t d dw = (u, k)" by fastforce
  have tt: "dw \<le> length t" "take dw t = t" using lt by simp_all
  note U = bn_sub_words [OF u tt(1) assms(2), unfolded tt(2), folded D_def]
  have bounds: "wval t < radix ^ dw" "wval u < radix ^ dw" "D < radix ^ dw" "B \<le> 1"
    using wval_lt [of t] wval_lt [of u] lt U(1) wval_take_lt [of dw d] by (simp_all add: D_def B_def)
  have c: "c = 0 \<or> c = 1" using S(3) by (auto simp: word_unat_eq_iff)
  have lo: "2 * wval r + B < 2 * D" using assms(8) bounds(4) by linarith
  have cb: "c = 1 \<longrightarrow> k = 1"
  proof (intro impI, rule ccontr)
    assume x: "c = 1" "k \<noteq> 1"
    then have "k = 0" using U(3) by blast
    then show False using U(2) t x(1) lo bounds(3) by simp
  qed
  define p where "p \<longleftrightarrow> D \<le> 2 * wval r + B"
  have pk: "p \<longleftrightarrow> c = k"
    using c U(3) cb U(2) t bounds(1,2,3) unfolding p_def by auto
  have mk: "c - k = mask_of (\<not> p)" using c U(3) cb pk by auto
  have pb: "push_bit j (NOT (c - k) AND 1) = push_bit j (of_bool p)" unfolding mk by (cases p) simp_all
  have res: "r' = (if p then u else t)" "qi' = qi OR push_bit j (of_bool p)"
    using assms(1) pb bn_select_words [of dw t u "\<not> p"] lt U(1) mk
    by (simp_all add: div_bit_def s b_def [symmetric] t_def [symmetric] u del: push_bit_of_1 push_bit_and)
      (auto split: if_splits)
  show "length r' = dw" using res(1) lt U(1) by simp
  show "qi' = qi OR push_bit j (of_bool (D \<le> 2 * wval r + B))" using res(2) by (simp add: p_def)
  show e: "wval r' + D * of_bool (D \<le> 2 * wval r + B) = 2 * wval r + B"
    unfolding p_def [symmetric] res(1) using c U(3) cb pk U(2) t by auto
  show "wval r' < D" using e lo by (cases "D \<le> 2 * wval r + B") simp_all
qed

lemma div_limb:
  assumes "div_limb d dw n i (q, r) = (q', r')" "dw \<le> length d" "length r = dw" "0 < dw" "i < length q" "q ! i = 0"
  defines "D \<equiv> wval (take dw d)"
  assumes "wval r < D"
  shows "length r' = dw" "wval r' < D" "\<exists>x. q' = q[i := x] \<and> unat x * D + wval r' = radix * wval r + unat (n ! i)"
proof -
  define ni where "ni = n ! i"
  define P where "P = (\<lambda>j st. case st of (s, qi :: limb) \<Rightarrow> length s = dw \<and> wval s < D \<and>
    (\<exists>h. unat qi = 2 ^ j * h \<and> h * D + wval s = 2 ^ (64 - j) * wval r + unat ni div 2 ^ j))"
  define st where "st = fold (div_bit d dw ni) (rev [0..<64]) (r, 0)"
  have "P 0 st" unfolding st_def
  proof (rule fold_down_invariant)
    have "unat ni div 2 ^ 64 = 0" using limb_lt [of ni] by (simp add: radix_def)
    then show "P 64 (r, 0)" using assms(3,8) by (simp add: P_def)
  next
    fix j st assume j: "j < 64" "P (Suc j) st"
    obtain s qi where st: "st = (s, qi)" by fastforce
    obtain s' qi' where b: "div_bit d dw ni j (s, qi) = (s', qi')" by fastforce
    from j(2) obtain h where h: "length s = dw" "wval s < D" "unat qi = 2 ^ Suc j * h"
      "h * D + wval s = 2 ^ (64 - Suc j) * wval r + unat ni div 2 ^ Suc j" unfolding P_def st by auto
    define B where "B = unat ni div 2 ^ j mod 2"
    define p where "p \<longleftrightarrow> D \<le> 2 * wval s + B"
    note S = div_bit [OF b assms(2) h(1) assms(4) j(1) h(2) [unfolded D_def], folded D_def B_def, folded p_def]
    have e: "2 ^ (64 - j) = 2 * (2 :: nat) ^ (64 - Suc j)" using j(1) by (simp flip: power_Suc)
    have f: "unat ni div 2 ^ j = 2 * (unat ni div 2 ^ Suc j) + B"
      unfolding B_def by (metis div_mult2_eq mult_div_mod_eq power_Suc2)
    have "(2 * h + of_bool p) * D + wval s' = 2 * (h * D + wval s) + B"
      using S(4) by (simp add: distrib_right distrib_left mult.commute)
    also have "\<dots> = 2 ^ (64 - j) * wval r + unat ni div 2 ^ j" unfolding h(4) e f by simp
    finally have "P j (s', qi')"
      unfolding P_def using S(1,2,3) or_bit [OF h(3) j(1), of p] by auto
    then show "P j (div_bit d dw ni j st)" by (simp add: st b)
  qed
  moreover obtain s x where sx: "st = (s, x)" by fastforce
  ultimately have x: "length s = dw" "wval s < D" "unat x * D + wval s = 2 ^ 64 * wval r + unat ni" unfolding P_def by simp_all
  have "q' = q[i := x]" "r' = s"
    using assms(1,6) sx by (simp_all add: div_limb_def st_def ni_def BN_BITS2_def)
  then show "length r' = dw" "wval r' < D" "\<exists>x. q' = q[i := x] \<and> unat x * D + wval r' = radix * wval r + unat (n ! i)"
    using x by (auto simp: radix_def ni_def)
qed

lemma div_limbs:
  assumes "fold (div_limb d dw n) (rev [0..<nw]) (replicate nw 0, replicate dw 0) = (q, r)" "dw \<le> length d" "nw \<le> length n"
    and "0 < wval (take dw d)"
  shows "length q = nw" "length r = dw" "wval q = wval (take nw n) div wval (take dw d)" "wval r = wval (take nw n) mod wval (take dw d)"
proof -
  define D where "D = wval (take dw d)"
  have dw: "0 < dw" using assms(4) by (cases dw) simp_all
  define P where "P = (\<lambda>i st. case st of (q, r) \<Rightarrow> length q = nw \<and> length r = dw \<and> wval r < D \<and>
    take i q = replicate i 0 \<and> wval (drop i q) * D + wval r = wval (drop i (take nw n)))"
  have "P 0 (fold (div_limb d dw n) (rev [0..<nw]) (replicate nw 0, replicate dw 0))"
  proof (rule fold_down_invariant)
    show "P nw (replicate nw 0, replicate dw 0)" using assms(4) by (simp add: P_def D_def)
  next
    fix i st assume i: "i < nw" "P (Suc i) st"
    obtain q r where st: "st = (q, r)" by fastforce
    obtain q' r' where b: "div_limb d dw n i (q, r) = (q', r')" by fastforce
    from i(2) have h: "length q = nw" "length r = dw" "wval r < D" "take (Suc i) q = replicate (Suc i) 0"
      "wval (drop (Suc i) q) * D + wval r = wval (drop (Suc i) (take nw n))" by (simp_all add: P_def st)
    have qi: "q ! i = 0" "take i q = replicate i 0"
    proof -
      have "take (Suc i) q ! i = 0" by (simp only: h(4) nth_replicate lessI)
      then show "q ! i = 0" by simp
      have "take i (take (Suc i) q) = replicate i 0" by (simp only: h(4) take_replicate) simp
      then show "take i q = replicate i 0" by (simp add: min_def)
    qed
    have il: "i < length q" using h(1) i(1) by simp
    from div_limb [OF b assms(2) h(2) dw il qi(1), folded D_def, OF h(3)] obtain x where
      x: "length r' = dw" "wval r' < D" "q' = q[i := x]" "unat x * D + wval r' = radix * wval r + unat (n ! i)" by blast
    have d1: "drop i q' = x # drop (Suc i) q" using il x(3) by (simp add: Cons_nth_drop_Suc [symmetric])
    have d2: "drop i (take nw n) = n ! i # drop (Suc i) (take nw n)"
      using i(1) assms(3) by (simp add: Cons_nth_drop_Suc [symmetric])
    have "wval (drop i q') * D + wval r' = unat x * D + wval r' + radix * (wval (drop (Suc i) q) * D)"
      unfolding d1 by (simp add: distrib_right)
    also have "\<dots> = unat (n ! i) + radix * (wval (drop (Suc i) q) * D + wval r)" by (simp only: x(4) distrib_left)
    also have "\<dots> = wval (drop i (take nw n))" unfolding h(5) d2 by simp
    finally have "P i (q', r')" using x h qi by (simp add: P_def)
    then show "P i (div_limb d dw n i st)" by (simp add: st b)
  qed
  then have p: "length q = nw" "length r = dw" "wval r < D" "wval q * D + wval r = wval (take nw n)"
    unfolding assms(1) P_def by simp_all
  then show "length q = nw" "length r = dw" by simp_all
  show "wval q = wval (take nw n) div wval (take dw d)" "wval r = wval (take nw n) mod wval (take dw d)"
    using p(3) unfolding p(4) [symmetric] D_def [symmetric] by simp_all
qed

text \<open>A result whose width is known beforehand.\<close>

definition width_result :: "bignum \<Rightarrow> bool \<Rightarrow> bignum \<Rightarrow> nat \<Rightarrow> nat \<Rightarrow> bool" where
  "width_result b ok b' m w \<longleftrightarrow> bn_ok b' \<and> bn_flags b' = bn_flags b \<and> (ok \<longrightarrow> bn_abs b' = m \<and> \<not> bn_neg b' \<and> bn_width b' = w)"

lemma width_result_failed: "bn_ok b' \<Longrightarrow> bn_flags b' = bn_flags b \<Longrightarrow> width_result b False b' m w"
  by (simp add: width_result_def)

lemma width_result_written:
  assumes "bn_ok q" "bn_flags q = bn_flags q0" "length ws = n" "n \<le> bn_dmax q"
  shows "width_result q0 ok (q\<lparr>bn_d := blit (bn_d q) 0 ws, bn_width := n, bn_neg := False\<rparr>) (wval ws) n"
  using bn_written [OF assms(1,3,4), of False] assms(2) by (simp add: width_result_def)

lemma deliver:
  assumes "deliver e own b dest = (ok, dest')" "bn_ok b" "\<not> bn_neg b" "\<And>p. dest = Some p \<Longrightarrow> bn_ok p"
    "\<And>p. own \<Longrightarrow> dest = Some p \<Longrightarrow> bn_flags b = bn_flags p"
  shows "rel_option (\<lambda>p p'. width_result p ok p' (bn_abs b) (bn_width b)) dest dest'"
    "heap_generous e \<Longrightarrow> (\<And>p. dest = Some p \<Longrightarrow> bn_expandable p) \<Longrightarrow> ok"
proof -
  have "rel_option (\<lambda>p p'. width_result p ok p' (bn_abs b) (bn_width b)) dest dest' \<and>
    (heap_generous e \<longrightarrow> (\<forall>p. dest = Some p \<longrightarrow> bn_expandable p) \<longrightarrow> ok)"
  proof (cases dest)
    case None
    then show ?thesis using assms(1) by (simp add: deliver_def)
  next
    case (Some p)
    show ?thesis
    proof (cases own)
      case True
      then have "ok" "dest' = Some b" using assms(1) Some by (simp_all add: deliver_def)
      then show ?thesis using assms(2,3) assms(5) [OF True Some] Some by (simp add: width_result_def)
    next
      case False
      obtain ok1 p' where c: "BN_copy e p b = (ok1, p')" by fastforce
      note C = BN_copy [OF c assms(4) [OF Some] assms(2)]
      have "heap_generous e \<Longrightarrow> bn_expandable p \<Longrightarrow> ok1" using BN_copy_succeeds [of e p b] assms(2) c by simp
      moreover have "ok = ok1" "dest' = Some p'" using assms(1) False Some c by (simp_all add: deliver_def)
      moreover have "width_result p ok1 p' (bn_abs b) (bn_width b)" using C assms(3) by (simp add: width_result_def)
      ultimately show ?thesis using Some by simp
    qed
  qed
  then show "rel_option (\<lambda>p p'. width_result p ok p' (bn_abs b) (bn_width b)) dest dest'"
    "heap_generous e \<Longrightarrow> (\<And>p. dest = Some p \<Longrightarrow> bn_expandable p) \<Longrightarrow> ok" by blast+
qed

text \<open>Long division in binary is the same division, on numbers that are not negative; the widths of the
  results depend only on those of the inputs.\<close>

lemma bn_div_consttime:
  assumes "bn_div_consttime e ctx qa ra quot rem numerator divisor = (ok, quot', rem')" "bn_ok numerator" "bn_ok divisor"
    "\<And>q. quot = Some q \<Longrightarrow> bn_ok q" "\<And>r. rem = Some r \<Longrightarrow> bn_ok r" "ctx_ok ctx"
  shows "ok \<Longrightarrow> \<not> bn_neg numerator \<and> \<not> bn_neg divisor \<and> bn_abs divisor \<noteq> 0"
    "rel_option (\<lambda>q q'. width_result q ok q' (bn_abs numerator div bn_abs divisor) (bn_width numerator)) quot quot'"
    "rel_option (\<lambda>r r'. width_result r ok r' (bn_abs numerator mod bn_abs divisor) (bn_width divisor)) rem rem'"
    "heap_generous e \<Longrightarrow> ctx_ready ctx 3 \<Longrightarrow> (\<And>q. quot = Some q \<Longrightarrow> bn_expandable q) \<Longrightarrow> (\<And>r. rem = Some r \<Longrightarrow> bn_expandable r) \<Longrightarrow>
       \<not> bn_neg numerator \<Longrightarrow> \<not> bn_neg divisor \<Longrightarrow> bn_abs divisor \<noteq> 0 \<Longrightarrow> ok"
proof -
  define nw dw where "nw = bn_width numerator" and "dw = bn_width divisor"
  define own_q own_r where "own_q \<longleftrightarrow> quot \<noteq> None \<and> \<not> qa" and "own_r \<longleftrightarrow> rem \<noteq> None \<and> \<not> ra"
  define i where "i = (if own_q then 0 else (1 :: nat))"
  define j where "j = i + (if own_r then 0 else 1)"
  define good where "good \<longleftrightarrow> \<not> bn_neg numerator \<and> \<not> bn_neg divisor \<and> bn_abs divisor \<noteq> 0"
  define gen where "gen \<longleftrightarrow> heap_generous e \<and> ctx_ready ctx 3 \<and> (\<forall>q. quot = Some q \<longrightarrow> bn_expandable q) \<and> (\<forall>r. rem = Some r \<longrightarrow> bn_expandable r)"
  define res where "res \<longleftrightarrow> (ok \<longrightarrow> good) \<and>
    rel_option (\<lambda>q q'. width_result q ok q' (bn_abs numerator div bn_abs divisor) nw) quot quot' \<and>
    rel_option (\<lambda>r r'. width_result r ok r' (bn_abs numerator mod bn_abs divisor) dw) rem rem' \<and>
    (gen \<longrightarrow> good \<longrightarrow> ok)"
  have same: "rel_option (\<lambda>q q'. width_result q False q' m w) q q" if "\<And>p. q = Some p \<Longrightarrow> bn_ok p" for q m w
    using that by (cases q) (simp_all add: width_result_def)
  have failed: res if "(ok, quot', rem') = (False, quot, rem)" "\<not> (gen \<and> good)"
    using that same [of quot, OF assms(4)] same [of rem, OF assms(5)] by (auto simp: res_def)
  note U = assms(1) [unfolded bn_div_consttime_def Let_def, folded own_q_def own_r_def, folded i_def, folded j_def nw_def dw_def]
  have z: "BN_is_zero divisor \<longleftrightarrow> bn_abs divisor = 0" by (rule BN_is_zero [OF assms(3)])
  have res
  proof (cases good)
    case False
    then have "(ok, quot', rem') = (False, quot, rem)" using U z by (auto simp: good_def split: if_splits)
    with failed False show ?thesis by blast
  next
    case True
    let ?q = "if own_q then quot else BN_CTX_get ctx 0" and ?r = "if own_r then rem else BN_CTX_get ctx i"
    have ij: "i < 3" "j < 3" by (simp_all add: i_def j_def)
    show ?thesis
    proof (cases "?q = None \<or> ?r = None \<or> BN_CTX_get ctx j = None")
      case none: True
      have "(ok, quot', rem') = (False, quot, rem)"
        using U z none \<open>good\<close> by (auto simp: good_def split: if_splits option.splits)
      moreover have "\<not> gen"
      proof
        assume gen
        then have r: "ctx_ready ctx 3" by (simp add: gen_def)
        show False using none ctx_ready [OF r, of 0] ctx_ready [OF r ij(1)] ctx_ready [OF r ij(2)]
          by (auto simp: own_q_def own_r_def split: if_splits)
      qed
      ultimately show ?thesis using failed by blast
    next
      case False
      then obtain q r tmp where c: "?q = Some q" "?r = Some r" "BN_CTX_get ctx j = Some tmp" by (auto simp: not_None_eq simp del: split_paired_Ex)
      have ok: "bn_ok q" "bn_ok r" "bn_ok tmp"
        using c assms(4,5) BN_CTX_get [OF assms(6)] by (auto split: if_splits)
      have own: "own_q \<Longrightarrow> quot = Some q" "own_r \<Longrightarrow> rem = Some r" using c by simp_all
      have ex: "bn_expandable q" "bn_expandable r" "bn_expandable tmp" if gen
      proof -
        have x: "ctx_ready ctx 3" "\<forall>q. quot = Some q \<longrightarrow> bn_expandable q" "\<forall>r. rem = Some r \<longrightarrow> bn_expandable r"
          using that by (simp_all add: gen_def)
        show "bn_expandable q" "bn_expandable r" "bn_expandable tmp"
          using c x(2,3) ctx_ready [OF x(1), of 0] ctx_ready [OF x(1) ij(1)] ctx_ready [OF x(1) ij(2)] by (auto split: if_splits)
      qed
      have g: "gen \<Longrightarrow> heap_generous e" by (simp add: gen_def)
      have w: "nw \<le> bn_max_words" "dw \<le> bn_max_words"
        using bn_okD(2,4) [OF assms(2)] bn_okD(2,4) [OF assms(3)] by (simp_all add: nw_def dw_def)
      have part: "rel_option (\<lambda>q q'. width_result q False q' m v) dest (if own then Some b else dest)"
        if "own \<Longrightarrow> dest = Some b0 \<and> bn_ok b \<and> bn_flags b = bn_flags b0" "\<And>p. dest = Some p \<Longrightarrow> bn_ok p" for dest own b b0 m v
        using that same [of dest] by (cases own) (auto simp: width_result_def)
      have U2: "(case bn_wexpand e q nw of
                   None \<Rightarrow> (False, quot, rem)
                 | Some q \<Rightarrow>
                     (case bn_wexpand e r dw of
                        None \<Rightarrow> (False, if own_q then Some q else quot, rem)
                      | Some r \<Rightarrow>
                          (case bn_wexpand e tmp dw of
                             None \<Rightarrow> (False, if own_q then Some q else quot, if own_r then Some r else rem)
                           | Some _ \<Rightarrow>
                               (case fold (div_limb (bn_d divisor) dw (bn_d numerator)) (rev [0..<nw]) (replicate nw 0, replicate dw 0) of
                                  (qs, rs) \<Rightarrow>
                                   (case deliver e own_q (q\<lparr>bn_d := blit (bn_d q) 0 qs, bn_width := nw, bn_neg := False\<rparr>) quot of
                                      (okq, quot) \<Rightarrow>
                                        if \<not> okq then (False, quot, if own_r then Some (r\<lparr>bn_d := blit (bn_d r) 0 rs, bn_width := dw, bn_neg := False\<rparr>) else rem)
                                        else (case deliver e own_r (r\<lparr>bn_d := blit (bn_d r) 0 rs, bn_width := dw, bn_neg := False\<rparr>) rem of
                                                (okr, rem) \<Rightarrow> (okr, quot, rem))))))) = (ok, quot', rem')"
        using U z \<open>good\<close> c by (simp add: good_def)
      show ?thesis
      proof (cases "bn_wexpand e q nw")
        case None
        then have "(ok, quot', rem') = (False, quot, rem)" using U2 by simp
        moreover have "\<not> gen" using bn_wexpand_fails [OF None] g ex(1) w(1) by fastforce
        ultimately show ?thesis using failed by blast
      next
        case (Some q1)
        note Q = bn_wexpand [OF this ok(1)] and q1 = this
        have pq: "rel_option (\<lambda>q q'. width_result q False q' m v) quot (if own_q then Some q1 else quot)" for m v
          using own(1) Q(1,6) assms(4) by (intro part) simp_all
        show ?thesis
        proof (cases "bn_wexpand e r dw")
          case None
          then have "ok = False" "quot' = (if own_q then Some q1 else quot)" "rem' = rem" using U2 q1 by simp_all
          moreover have "\<not> gen" using bn_wexpand_fails [OF None] g ex(2) w(2) by fastforce
          ultimately show ?thesis using pq same [of rem, OF assms(5)] by (simp add: res_def)
        next
          case (Some r1)
          note R = bn_wexpand [OF this ok(2)] and r1 = this
          have pr: "rel_option (\<lambda>q q'. width_result q False q' m v) rem (if own_r then Some r1 else rem)" for m v
            using own(2) R(1,6) assms(5) by (intro part) simp_all
          show ?thesis
          proof (cases "bn_wexpand e tmp dw")
            case None
            then have "ok = False" "quot' = (if own_q then Some q1 else quot)" "rem' = (if own_r then Some r1 else rem)"
              using U2 q1 r1 by simp_all
            moreover have "\<not> gen" using bn_wexpand_fails [OF None] g ex(3) w(2) by fastforce
            ultimately show ?thesis using pq pr by (simp add: res_def)
          next
            case (Some t1)
            obtain qs rs where f: "fold (div_limb (bn_d divisor) dw (bn_d numerator)) (rev [0..<nw]) (replicate nw 0, replicate dw 0) = (qs, rs)"
              by fastforce
            have a: "bn_abs numerator = wval (take nw (bn_d numerator))" "bn_abs divisor = wval (take dw (bn_d divisor))"
              by (simp_all add: bn_abs_def nw_def dw_def)
            have pos: "0 < wval (take dw (bn_d divisor))" using \<open>good\<close> by (simp add: good_def a(2))
            have ln: "dw \<le> length (bn_d divisor)" "nw \<le> length (bn_d numerator)"
              using bn_okD(3) [OF assms(2)] bn_okD(3) [OF assms(3)] by (simp_all add: nw_def dw_def)
            note F = div_limbs [OF f ln pos, folded a]
            define q2 where "q2 = q1\<lparr>bn_d := blit (bn_d q1) 0 qs, bn_width := nw, bn_neg := False\<rparr>"
            define r2 where "r2 = r1\<lparr>bn_d := blit (bn_d r1) 0 rs, bn_width := dw, bn_neg := False\<rparr>"
            have q2: "bn_ok q2" "bn_flags q2 = bn_flags q" "bn_abs q2 = bn_abs numerator div bn_abs divisor" "\<not> bn_neg q2" "bn_width q2 = nw"
              using bn_written [OF Q(1) F(1) Q(2), of False] Q(6) F(3) by (simp_all add: q2_def)
            have r2: "bn_ok r2" "bn_flags r2 = bn_flags r" "bn_abs r2 = bn_abs numerator mod bn_abs divisor" "\<not> bn_neg r2" "bn_width r2 = dw"
              using bn_written [OF R(1) F(2) R(2), of False] R(6) F(4) by (simp_all add: r2_def)
            obtain okq quot2 where dq: "deliver e own_q q2 quot = (okq, quot2)" by fastforce
            obtain okr rem2 where dr: "deliver e own_r r2 rem = (okr, rem2)" by fastforce
            have fq: "own_q \<Longrightarrow> quot = Some p \<Longrightarrow> bn_flags q2 = bn_flags p" "own_r \<Longrightarrow> rem = Some p \<Longrightarrow> bn_flags r2 = bn_flags p" for p
              using own q2(2) r2(2) by simp_all
            note DQ = deliver [OF dq q2(1,4) assms(4) fq(1), unfolded q2(3,5)]
            note DR = deliver [OF dr r2(1,4) assms(5) fq(2), unfolded r2(3,5)]
            have DQ1: "rel_option (\<lambda>p p'. width_result p okq p' (bn_abs numerator div bn_abs divisor) nw) quot quot2" by (rule DQ(1))
            have DR1: "rel_option (\<lambda>p p'. width_result p okr p' (bn_abs numerator mod bn_abs divisor) dw) rem rem2" by (rule DR(1))
            have gq: "gen \<Longrightarrow> okq" by (rule DQ(2)) (simp_all add: gen_def)
            have gr: "gen \<Longrightarrow> okr" by (rule DR(2)) (simp_all add: gen_def)
            have U3: "(if \<not> okq then (False, quot2, if own_r then Some r2 else rem) else (okr, quot2, rem2)) = (ok, quot', rem')"
              using U2 unfolding q1 r1 Some f option.case prod.case q2_def [symmetric] r2_def [symmetric] dq dr .
            show ?thesis
            proof (cases okq)
              case True
              then have e: "ok = okr" "quot' = quot2" "rem' = rem2" using U3 by simp_all
              have "rel_option (\<lambda>p p'. width_result p okr p' (bn_abs numerator div bn_abs divisor) nw) quot quot2"
                using DQ1 True by (elim option.rel_mono_strong) (simp add: width_result_def)
              then show ?thesis using DR1 gr \<open>good\<close> by (simp add: res_def e)
            next
              case False
              then have e: "ok = False" "quot' = quot2" "rem' = (if own_r then Some r2 else rem)" using U3 by simp_all
              have "rel_option (\<lambda>q q'. width_result q False q' m v) rem (if own_r then Some r2 else rem)" for m v
                using own(2) r2(1,2) assms(5) by (intro part) simp_all
              then show ?thesis using DQ1 gq False by (auto simp: res_def e)
            qed
          qed
        qed
      qed
    qed
  qed
  then show "ok \<Longrightarrow> \<not> bn_neg numerator \<and> \<not> bn_neg divisor \<and> bn_abs divisor \<noteq> 0"
    "rel_option (\<lambda>q q'. width_result q ok q' (bn_abs numerator div bn_abs divisor) (bn_width numerator)) quot quot'"
    "rel_option (\<lambda>r r'. width_result r ok r' (bn_abs numerator mod bn_abs divisor) (bn_width divisor)) rem rem'"
    "heap_generous e \<Longrightarrow> ctx_ready ctx 3 \<Longrightarrow> (\<And>q. quot = Some q \<Longrightarrow> bn_expandable q) \<Longrightarrow> (\<And>r. rem = Some r \<Longrightarrow> bn_expandable r) \<Longrightarrow>
       \<not> bn_neg numerator \<Longrightarrow> \<not> bn_neg divisor \<Longrightarrow> bn_abs divisor \<noteq> 0 \<Longrightarrow> ok"
    unfolding res_def gen_def good_def nw_def dw_def by blast+
qed


section \<open>Correctness of the division by words\<close>

lemma word_remainder:
  assumes "w \<noteq> 0" and that: "n \<le> length d"
  shows "unat (fold (\<lambda>i ret. (push_bit 64 ret OR wide (d ! i)) mod wide w) (rev [0..<n]) 0) = wval (take n d) mod unat w"
proof -
  define P where "P = (\<lambda>i ret. unat (ret :: u128) = wval (drop i (take n d)) mod unat w)"
  have "P 0 (fold (\<lambda>i ret. (push_bit 64 ret OR wide (d ! i)) mod wide w) (rev [0..<n]) 0)"
  proof (rule fold_down_invariant)
    show "P n 0" by (simp add: P_def)
  next
    fix i ret assume i: "i < n" "P (Suc i) ret"
    have lt: "unat ret < unat w" using i(2) assms by (simp add: P_def word_neq_0_conv unat_gt_0)
    then have "unat ret < radix" using limb_lt [of w] by linarith
    then have e: "wide (Lw ret) = ret" by (simp add: word_unat_eq_iff unat_Lw)
    have "unat ((push_bit 64 ret OR wide (d ! i)) mod wide w) = (unat ret * radix + unat (d ! i)) mod unat w"
      using two_limbs [of "Lw ret" "d ! i"] \<open>unat ret < radix\<close> by (simp add: e unat_mod unat_Lw)
    also have "\<dots> = (wval (drop (Suc i) (take n d)) mod unat w * radix + unat (d ! i)) mod unat w"
      using i(2) by (simp add: P_def)
    also have "\<dots> = (wval (drop (Suc i) (take n d)) * radix + unat (d ! i)) mod unat w"
      by (metis mod_add_left_eq mod_mult_left_eq)
    also have "drop i (take n d) = d ! i # drop (Suc i) (take n d)" using i(1) that by (simp add: Cons_nth_drop_Suc [symmetric])
    then have "wval (drop (Suc i) (take n d)) * radix + unat (d ! i) = wval (drop i (take n d))" by simp
    finally show "P i ((push_bit 64 ret OR wide (d ! i)) mod wide w)" by (simp add: P_def)
  qed
  then show ?thesis by (simp add: P_def)
qed

lemma BN_mod_word:
  assumes "bn_ok a" "w \<noteq> 0"
  shows "unat (BN_mod_word a w) = bn_abs a mod unat w"
proof -
  have "bn_abs a mod unat w < radix" using limb_lt [of w] assms(2) by (metis le_less_trans mod_less_divisor unat_gt_0 less_imp_le)
  then show ?thesis using word_remainder [OF assms(2) bn_okD(3) [OF assms(1)]] assms(2)
    by (simp add: BN_mod_word_def unat_Lw bn_abs_def)
qed

lemma div_word_loop:
  assumes "2 ^ 63 \<le> unat w" "n \<le> length d0"
  shows "\<exists>ret d. fold (\<lambda>i (ret, d). let l = d ! i; (q, _) = bn_div_rem_words ret l w in (l - q * w, d[i := q])) (rev [0..<n]) (0, d0) = (ret, d) \<and>
    length d = length d0 \<and> wval (take n d) = wval (take n d0) div unat w \<and> unat ret = wval (take n d0) mod unat w"
proof -
  define f where "f = (\<lambda>i (ret, d). let l = d ! i; (q, _ :: limb) = bn_div_rem_words ret l w in (l - q * w, d[i := q]))"
  define P where "P = (\<lambda>i (ret :: limb, d). length d = length d0 \<and> take i d = take i d0 \<and> unat ret < unat w \<and>
    wval (drop i (take n d)) * unat w + unat ret = wval (drop i (take n d0)))"
  have "P 0 (fold f (rev [0..<n]) (0, d0))"
  proof (rule fold_down_invariant)
    show "P n (0, d0)" using assms(1) by (simp add: P_def)
  next
    fix i st assume i: "i < n" "P (Suc i) st"
    obtain ret d where st: "st = (ret, d)" by fastforce
    from i(2) have h: "length d = length d0" "take (Suc i) d = take (Suc i) d0" "unat ret < unat w"
      "wval (drop (Suc i) (take n d)) * unat w + unat ret = wval (drop (Suc i) (take n d0))" by (simp_all add: P_def st)
    have di: "d ! i = d0 ! i" "take i d = take i d0"
    proof -
      have "take (Suc i) d ! i = take (Suc i) d0 ! i" by (simp only: h(2))
      then show "d ! i = d0 ! i" by simp
      have "take i (take (Suc i) d) = take i (take (Suc i) d0)" by (simp only: h(2))
      then show "take i d = take i d0" by (simp add: min_def)
    qed
    obtain q rm where q: "bn_div_rem_words ret (d ! i) w = (q, rm)" by fastforce
    have Q: "unat q * unat w + unat rm = unat ret * radix + unat (d ! i)" "unat rm < unat w" "rm = d ! i - q * w"
      using bn_div_rem_words [OF q] h(3) q by (simp_all add: word_less_nat_alt) (auto simp: bn_div_rem_words_def Let_def)
    have l: "i < length d" "i < length d0" using i(1) assms(2) h(1) by simp_all
    have ni: "n - i = Suc (n - Suc i)" using i(1) by simp
    have d1: "drop i (take n (d[i := q])) = q # drop (Suc i) (take n d)" "drop i (take n d0) = d0 ! i # drop (Suc i) (take n d0)"
      using i(1) l by (simp_all add: Cons_nth_drop_Suc [symmetric] drop_take ni)
    have "wval (drop i (take n (d[i := q]))) * unat w + unat rm =
        unat q * unat w + unat rm + radix * (wval (drop (Suc i) (take n d)) * unat w)"
      unfolding d1 by (simp add: distrib_right)
    also have "\<dots> = unat (d0 ! i) + radix * (wval (drop (Suc i) (take n d)) * unat w + unat ret)"
      by (simp add: Q(1) di(1) distrib_left)
    also have "\<dots> = wval (drop i (take n d0))" unfolding h(4) d1 by simp
    finally have "P i (rm, d[i := q])" using h(1) di(2) Q(2) by (simp add: P_def)
    then show "P i (f i st)" by (simp add: st f_def q Q(3))
  qed
  moreover obtain ret d where r: "fold f (rev [0..<n]) (0, d0) = (ret, d)" by fastforce
  ultimately have p: "length d = length d0" "unat ret < unat w" "wval (take n d) * unat w + unat ret = wval (take n d0)"
    by (simp_all add: P_def)
  have "wval (take n d) = wval (take n d0) div unat w" "unat ret = wval (take n d0) mod unat w"
    using p(2) unfolding p(3) [symmetric] by simp_all
  with r p(1) show ?thesis unfolding f_def by blast
qed

text \<open>\<open>BN_div_word\<close> with any heap: it fails with the largest word, or it divides.\<close>

definition divided :: "bignum \<Rightarrow> limb \<Rightarrow> limb \<Rightarrow> bignum \<Rightarrow> bool" where
  "divided a w ret a' \<longleftrightarrow> unat ret = bn_abs a mod unat w \<and> bn_abs a' = bn_abs a div unat w \<and>
     bn_val a' = sgn (bn_val a) * (\<bar>bn_val a\<bar> div int (unat w)) \<and> bn_signed a' \<and> bn_minimal a'"

lemma BN_div_word_any:
  assumes "bn_ok a" "bn_signed a" "w \<noteq> 0"
  shows "\<exists>ret a' ok. BN_div_word e a w = (ret, a') \<and> bn_ok a' \<and> bn_flags a' = bn_flags a \<and>
    (if ok then divided a w ret a' else ret = - 1) \<and>
    (heap_generous e \<longrightarrow> bn_expandable a \<longrightarrow> bn_width a < bn_max_words \<longrightarrow> ok)"
proof (cases "bn_width a = 0")
  case True
  then have "bn_abs a = 0" "bn_minimal a" by (simp_all add: bn_abs_def bn_minimal_def)
  then have "BN_div_word e a w = (0, a)" "divided a w 0 a" using True assms by (simp_all add: BN_div_word_def divided_def bn_val_def)
  then show ?thesis using assms(1) by (intro exI [of _ 0] exI [of _ a] exI [of _ True]) simp
next
  case False
  define j where "j = 64 - BN_num_bits_word w"
  have wz: "unat w \<noteq> 0" using assms(3) by (simp add: unat_eq_0)
  have bits: "0 < bit_len (unat w)" "bit_len (unat w) \<le> 64"
  proof -
    show "0 < bit_len (unat w)" using wz bit_len_lt [of "unat w"] by (cases "bit_len (unat w)") simp_all
    have "(2 :: nat) ^ (bit_len (unat w) - 1) < 2 ^ 64"
      using bit_len_ge [OF wz] limb_lt [of w] by (simp add: radix_def)
    then show "bit_len (unat w) \<le> 64" using power_less_imp_less_exp [of "2 :: nat" "bit_len (unat w) - 1" 64] by simp
  qed
  have j: "j + bit_len (unat w) = 64" "j < 64" using bits by (simp_all add: j_def BN_num_bits_word)
  have "unat w * 2 ^ j < 2 ^ bit_len (unat w) * 2 ^ j" using bit_len_lt by simp
  then have "unat w * 2 ^ j < 2 ^ 64" using j(1) by (simp flip: power_add add: add.commute)
  then have uw: "unat (push_bit j w) = unat w * 2 ^ j" by (simp add: unat_push_bit)
  have top: "2 ^ 63 \<le> unat (push_bit j w)"
  proof -
    have "63 = bit_len (unat w) - 1 + j" using j(1) bits(1) by simp
    then have "(2 :: nat) ^ 63 = 2 ^ (bit_len (unat w) - 1) * 2 ^ j" by (simp only: power_add)
    also have "\<dots> \<le> unat w * 2 ^ j" using bit_len_ge [OF wz] by simp
    finally show ?thesis by (simp only: uw)
  qed
  obtain ok a1 where l: "BN_lshift e a a (int j) = (ok, a1)" by fastforce
  note L = BN_lshift [OF l assms(1,1)]
  show ?thesis
  proof (cases ok)
    case no: False
    have "BN_div_word e a w = (- 1, a1)"
      using assms(3) False l no by (simp add: BN_div_word_def Let_def BN_BITS2_def j_def [symmetric])
    moreover have "\<not> (heap_generous e \<and> bn_expandable a \<and> bn_width a < bn_max_words)" using L(7) no j(2) by auto
    ultimately show ?thesis using L(1,5) by (intro exI [of _ "- 1"] exI [of _ a1] exI [of _ False]) simp
  next
    case True
    define n where "n = bn_width a1"
    obtain ret d where D: "fold (\<lambda>i (ret, d). let l = d ! i; (q, _) = bn_div_rem_words ret l (push_bit j w)
        in (l - q * push_bit j w, d[i := q])) (rev [0..<n]) (0, bn_d a1) = (ret, d)" "length d = length (bn_d a1)"
      "wval (take n d) = wval (take n (bn_d a1)) div unat (push_bit j w)" "unat ret = wval (take n (bn_d a1)) mod unat (push_bit j w)"
      using div_word_loop [OF top, of n "bn_d a1"] bn_okD(3) [OF L(1)] unfolding n_def by blast
    have v: "wval (take n (bn_d a1)) = bn_abs a * 2 ^ j" using L(2) \<open>ok\<close> by (simp add: n_def bn_abs_def [symmetric])
    have r: "unat ret = bn_abs a mod unat w * 2 ^ j" "wval (take n d) = bn_abs a div unat w"
      using D(3,4) unfolding v uw by (simp_all add: mult_mod_left)
    define a2 where "a2 = a1\<lparr>bn_d := d\<rparr>"
    have a2: "bn_ok a2" "bn_abs a2 = bn_abs a div unat w" "bn_neg a2 = bn_neg a1"
      using L(1) D(2) r(2) by (simp_all add: a2_def bn_ok_def bn_abs_def n_def)
    note M = bn_set_minimal_width [OF a2(1)]
    have "BN_div_word e a w = (drop_bit j ret, bn_set_minimal_width a2)"
      using assms(3) False l \<open>ok\<close> D(1) by (simp add: BN_div_word_def Let_def BN_BITS2_def j_def [symmetric] n_def a2_def)
    moreover have "unat (drop_bit j ret) = bn_abs a mod unat w" by (simp add: unat_drop_bit r(1))
    moreover have "bn_val a2 = sgn (bn_val a) * (\<bar>bn_val a\<bar> div int (unat w))"
    proof -
      have "bn_neg a1 = bn_neg a" if "bn_abs a \<noteq> 0" using L(2,8) \<open>ok\<close> that by simp
      then show ?thesis using a2 assms(2) by (cases "bn_abs a = 0") (simp_all add: bn_val_def bn_signed_def zdiv_int)
    qed
    ultimately have "BN_div_word e a w = (drop_bit j ret, bn_set_minimal_width a2)"
      "divided a w (drop_bit j ret) (bn_set_minimal_width a2)"
      using M a2(2) by (simp_all add: divided_def)
    moreover have "bn_flags (bn_set_minimal_width a2) = bn_flags a" using M(7) L(5) by (simp add: a2_def)
    ultimately show ?thesis using M(1)
      by (intro exI [of _ "drop_bit j ret"] exI [of _ "bn_set_minimal_width a2"] exI [of _ True]) simp
  qed
qed

lemma BN_div_word:
  assumes "heap_generous e" "bn_ok a" "bn_expandable a" "bn_signed a" "bn_width a < bn_max_words" "w \<noteq> 0"
  shows "\<exists>ret a'. BN_div_word e a w = (ret, a') \<and> unat ret = bn_abs a mod unat w \<and> bn_ok a' \<and>
    bn_val a' = sgn (bn_val a) * (\<bar>bn_val a\<bar> div int (unat w)) \<and> bn_signed a'"
  using BN_div_word_any [OF assms(2,4,6), of e] assms(1,3,5) by (auto simp: divided_def)

end
