(* ===== verification/BN_Mod.thy ===== *)
theory BN_Mod
  imports BN_Div
begin

text \<open>
  Modular arithmetic: the rest of \<open>crypto/fipsmodule/bn/div.c\<close>.  The numbers are values here, so the
  theorems cover an output that is one of the operands, but not one that is the modulus, which the
  code reads again after the first write.
\<close>

section \<open>Modular reduction\<close>

text \<open>
  The requests to a context are numbered in the order of the calls: a function that calls two
  others gives the second one the numbers after those that the first one can have used.
\<close>

definition BN_mod :: "heap_env \<Rightarrow> bn_ctx \<Rightarrow> bignum \<Rightarrow> bignum \<Rightarrow> bignum \<Rightarrow> (bool \<times> bignum) option" where
  "BN_mod e ctx r m d =
     (case BN_div e ctx False None (Some r) m d of
        Some (ok, _, Some r) \<Rightarrow> Some (ok, r)
      | _ \<Rightarrow> None)"

definition BN_nnmod :: "heap_env \<Rightarrow> bn_ctx \<Rightarrow> bignum \<Rightarrow> bignum \<Rightarrow> bignum \<Rightarrow> (bool \<times> bignum) option" where
  "BN_nnmod e ctx r m d =
     (case BN_mod e ctx r m d of
        None \<Rightarrow> None
      | Some (ok, r) \<Rightarrow>
          if \<not> ok then Some (False, r)
          else if \<not> bn_neg r then Some (True, r)
          else Some (if bn_neg d then BN_sub e r r d else BN_add e r r d))"

definition bn_mod_sub_words :: "limbs \<Rightarrow> limbs \<Rightarrow> limbs \<Rightarrow> nat \<Rightarrow> limbs" where
  "bn_mod_sub_words a b m num =
     (let (r, borrow) = bn_sub_words a b num; (tmp, _) = bn_add_words r m num
      in bn_select_words (0 - borrow) tmp r num)"

definition bn_mod_add_words :: "limbs \<Rightarrow> limbs \<Rightarrow> limbs \<Rightarrow> nat \<Rightarrow> limbs" where
  "bn_mod_add_words a b m num =
     (let (tmp, carry) = bn_add_words a b num; (r, borrow) = bn_sub_words tmp m num
      in bn_select_words (carry - borrow) tmp r num)"

definition bn_scratch_space_from_ctx :: "heap_env \<Rightarrow> nat \<Rightarrow> bn_ctx \<Rightarrow> bignum option" where
  "bn_scratch_space_from_ctx e width ctx =
     (case BN_CTX_get ctx 0 of
        None \<Rightarrow> None
      | Some ret \<Rightarrow>
          (case bn_wexpand e ret width of None \<Rightarrow> None | Some ret \<Rightarrow> Some (ret\<lparr>bn_width := width, bn_neg := False\<rparr>)))"

definition bn_resized_from_ctx :: "heap_env \<Rightarrow> bignum \<Rightarrow> nat \<Rightarrow> bn_ctx \<Rightarrow> bignum option" where
  "bn_resized_from_ctx e bn width ctx =
     (if bn_width bn \<ge> width then Some bn
      else (case bn_scratch_space_from_ctx e width ctx of
              None \<Rightarrow> None
            | Some ret \<Rightarrow>
                (case BN_copy e ret bn of (ok, ret) \<Rightarrow>
                   if \<not> ok then None
                   else (case bn_resize_words e ret width of (ok, ret) \<Rightarrow> if ok then Some ret else None))))"

text \<open>The steps that \<open>bn_mod_add_consttime\<close> and \<open>bn_mod_sub_consttime\<close> share.\<close>

definition mod_op_consttime ::
    "(limbs \<Rightarrow> limbs \<Rightarrow> limbs \<Rightarrow> nat \<Rightarrow> limbs) \<Rightarrow> heap_env \<Rightarrow> bn_ctx \<Rightarrow> bignum \<Rightarrow> bignum \<Rightarrow> bignum \<Rightarrow> bignum \<Rightarrow> bool \<times> bignum" where
  "mod_op_consttime words_op e ctx r a b m =
     (let w = bn_width m; a_req = (if bn_width a \<ge> w then 0 else 1); b_req = (if bn_width b \<ge> w then 0 else 1)
      in case (bn_resized_from_ctx e a w ctx, bn_resized_from_ctx e b w (ctx_from a_req ctx),
               bn_scratch_space_from_ctx e w (ctx_from (a_req + b_req) ctx)) of
           (Some a, Some b, Some tmp) \<Rightarrow>
             (case bn_wexpand e r w of
                None \<Rightarrow> (False, r)
              | Some r \<Rightarrow> (True, r\<lparr>bn_d := blit (bn_d r) 0 (words_op (bn_d a) (bn_d b) (bn_d m) w), bn_width := w\<rparr>))
         | _ \<Rightarrow> (False, r))"

definition bn_mod_add_consttime :: "heap_env \<Rightarrow> bn_ctx \<Rightarrow> bignum \<Rightarrow> bignum \<Rightarrow> bignum \<Rightarrow> bignum \<Rightarrow> bool \<times> bignum" where
  "bn_mod_add_consttime = mod_op_consttime bn_mod_add_words"

definition bn_mod_sub_consttime :: "heap_env \<Rightarrow> bn_ctx \<Rightarrow> bignum \<Rightarrow> bignum \<Rightarrow> bignum \<Rightarrow> bignum \<Rightarrow> bool \<times> bignum" where
  "bn_mod_sub_consttime = mod_op_consttime bn_mod_sub_words"

definition BN_mod_add :: "heap_env \<Rightarrow> bn_ctx \<Rightarrow> bignum \<Rightarrow> bignum \<Rightarrow> bignum \<Rightarrow> bignum \<Rightarrow> (bool \<times> bignum) option" where
  "BN_mod_add e ctx r a b m =
     (case BN_add e r a b of (ok, r) \<Rightarrow> if \<not> ok then Some (False, r) else BN_nnmod e ctx r r m)"

definition BN_mod_sub :: "heap_env \<Rightarrow> bn_ctx \<Rightarrow> bignum \<Rightarrow> bignum \<Rightarrow> bignum \<Rightarrow> bignum \<Rightarrow> (bool \<times> bignum) option" where
  "BN_mod_sub e ctx r a b m =
     (case BN_sub e r a b of (ok, r) \<Rightarrow> if \<not> ok then Some (False, r) else BN_nnmod e ctx r r m)"

text \<open>\<open>same\<close> says that the two factors are one number.\<close>

definition BN_mod_mul :: "heap_env \<Rightarrow> bn_ctx \<Rightarrow> bool \<Rightarrow> bignum \<Rightarrow> bignum \<Rightarrow> bignum \<Rightarrow> bignum \<Rightarrow> (bool \<times> bignum) option" where
  "BN_mod_mul e ctx same r a b m =
     (case BN_CTX_get ctx 0 of
        None \<Rightarrow> Some (False, r)
      | Some t \<Rightarrow>
          (case (if same then Some (BN_sqr e (ctx_from 1 ctx) False t a) else BN_mul e (ctx_from 1 ctx) False t a b) of
             None \<Rightarrow> None
           | Some (ok, t) \<Rightarrow> if \<not> ok then Some (False, r) else BN_nnmod e (ctx_from 3 ctx) r t m))"

definition BN_mod_sqr :: "heap_env \<Rightarrow> bn_ctx \<Rightarrow> bool \<Rightarrow> bignum \<Rightarrow> bignum \<Rightarrow> bignum \<Rightarrow> (bool \<times> bignum) option" where
  "BN_mod_sqr e ctx alias r a m =
     (case BN_sqr e ctx alias r a of (ok, r) \<Rightarrow> if \<not> ok then Some (False, r) else BN_mod e (ctx_from 2 ctx) r r m)"

definition bn_mod_lshift1_consttime :: "heap_env \<Rightarrow> bn_ctx \<Rightarrow> bignum \<Rightarrow> bignum \<Rightarrow> bignum \<Rightarrow> bool \<times> bignum" where
  "bn_mod_lshift1_consttime e ctx r a m = bn_mod_add_consttime e ctx r a a m"

text \<open>\<open>n\<close> times \<open>bn_mod_lshift1_consttime\<close>, until it fails.\<close>

fun mod_lshift_loop :: "heap_env \<Rightarrow> bn_ctx \<Rightarrow> bignum \<Rightarrow> nat \<Rightarrow> bignum \<Rightarrow> bool \<times> bignum" where
  "mod_lshift_loop e ctx r 0 m = (True, r)"
| "mod_lshift_loop e ctx r (Suc n) m =
     (case bn_mod_lshift1_consttime e ctx r r m of (ok, r) \<Rightarrow>
        if \<not> ok then (False, r) else mod_lshift_loop e (ctx_from 3 ctx) r n m)"

definition bn_mod_lshift_consttime :: "heap_env \<Rightarrow> bn_ctx \<Rightarrow> bignum \<Rightarrow> bignum \<Rightarrow> int \<Rightarrow> bignum \<Rightarrow> bool \<times> bignum" where
  "bn_mod_lshift_consttime e ctx r a n m =
     (case BN_copy e r a of (ok, r) \<Rightarrow> if \<not> ok then (False, r) else mod_lshift_loop e ctx r (nat n) m)"

definition BN_mod_lshift :: "heap_env \<Rightarrow> bn_ctx \<Rightarrow> bignum \<Rightarrow> bignum \<Rightarrow> int \<Rightarrow> bignum \<Rightarrow> (bool \<times> bignum) option" where
  "BN_mod_lshift e ctx r a n m =
     (case BN_nnmod e ctx r a m of
        None \<Rightarrow> None
      | Some (ok, r) \<Rightarrow>
          if \<not> ok then Some (False, r)
          else
            (case (if bn_neg m then map_option (\<lambda>abs_m. abs_m\<lparr>bn_neg := False\<rparr>) (BN_dup e (Some m)) else Some m) of
               None \<Rightarrow> Some (False, r)
             | Some abs_m \<Rightarrow> Some (bn_mod_lshift_consttime e (ctx_from 4 ctx) r r n abs_m)))"

definition BN_mod_lshift1 :: "heap_env \<Rightarrow> bn_ctx \<Rightarrow> bignum \<Rightarrow> bignum \<Rightarrow> bignum \<Rightarrow> (bool \<times> bignum) option" where
  "BN_mod_lshift1 e ctx r a m =
     (case BN_lshift1 e r a of (ok, r) \<Rightarrow> if \<not> ok then Some (False, r) else BN_nnmod e ctx r r m)"

text \<open>The quick forms make a context of their own, which may fail.\<close>

definition BN_mod_add_quick :: "heap_env \<Rightarrow> bn_ctx option \<Rightarrow> bignum \<Rightarrow> bignum \<Rightarrow> bignum \<Rightarrow> bignum \<Rightarrow> bool \<times> bignum" where
  "BN_mod_add_quick e new_ctx r a b m =
     (case new_ctx of None \<Rightarrow> (False, r) | Some ctx \<Rightarrow> bn_mod_add_consttime e ctx r a b m)"

definition BN_mod_sub_quick :: "heap_env \<Rightarrow> bn_ctx option \<Rightarrow> bignum \<Rightarrow> bignum \<Rightarrow> bignum \<Rightarrow> bignum \<Rightarrow> bool \<times> bignum" where
  "BN_mod_sub_quick e new_ctx r a b m =
     (case new_ctx of None \<Rightarrow> (False, r) | Some ctx \<Rightarrow> bn_mod_sub_consttime e ctx r a b m)"

definition BN_mod_lshift_quick :: "heap_env \<Rightarrow> bn_ctx option \<Rightarrow> bignum \<Rightarrow> bignum \<Rightarrow> int \<Rightarrow> bignum \<Rightarrow> bool \<times> bignum" where
  "BN_mod_lshift_quick e new_ctx r a n m =
     (case new_ctx of None \<Rightarrow> (False, r) | Some ctx \<Rightarrow> bn_mod_lshift_consttime e ctx r a n m)"

definition BN_mod_lshift1_quick :: "heap_env \<Rightarrow> bn_ctx option \<Rightarrow> bignum \<Rightarrow> bignum \<Rightarrow> bignum \<Rightarrow> bool \<times> bignum" where
  "BN_mod_lshift1_quick e new_ctx r a m =
     (case new_ctx of None \<Rightarrow> (False, r) | Some ctx \<Rightarrow> bn_mod_lshift1_consttime e ctx r a m)"

section \<open>Reduction modulo a power of two\<close>

definition BN_mod_pow2 :: "heap_env \<Rightarrow> bignum \<Rightarrow> bignum \<Rightarrow> nat \<Rightarrow> bool \<times> bignum" where
  "BN_mod_pow2 env r a e =
     (if e = 0 \<or> bn_width a = 0 then (True, BN_zero r)
      else
        (let num_words = 1 + (e - 1) div BN_BITS2
         in if bn_width a < num_words then BN_copy env r a
            else
              (case bn_wexpand env r num_words of
                 None \<Rightarrow> (False, r)
               | Some r \<Rightarrow>
                   (let d = blit (bn_d r) 0 (take num_words (bn_d a)); top_word_exponent = e mod 64;
                        d = (if top_word_exponent \<noteq> 0
                             then d[num_words - 1 := d ! (num_words - 1) AND (push_bit top_word_exponent 1 - 1)] else d)
                    in (True, bn_set_minimal_width (r\<lparr>bn_d := d, bn_neg := bn_neg a, bn_width := num_words\<rparr>))))))"

definition BN_nnmod_pow2 :: "heap_env \<Rightarrow> bignum \<Rightarrow> bignum \<Rightarrow> nat \<Rightarrow> bool \<times> bignum" where
  "BN_nnmod_pow2 env r a e =
     (case BN_mod_pow2 env r a e of (ok, r) \<Rightarrow>
        if \<not> ok then (False, r)
        else if BN_is_zero r \<or> \<not> bn_neg r then (True, r)
        else
          (let num_words = 1 + (e - 1) div BN_BITS2
           in case bn_wexpand env r num_words of
                None \<Rightarrow> (False, r)
              | Some r \<Rightarrow>
                  (let d = blit (bn_d r) (bn_width r) (replicate (num_words - bn_width r) 0);
                       d = blit d 0 (map (\<lambda>x. NOT x) (take num_words d)); top_word_exponent = e mod BN_BITS2;
                       d = (if top_word_exponent \<noteq> 0
                            then d[num_words - 1 := d ! (num_words - 1) AND (push_bit top_word_exponent 1 - 1)] else d);
                       r = bn_set_minimal_width (r\<lparr>bn_d := d, bn_neg := False, bn_width := num_words\<rparr>)
                   in BN_add env r r BN_value_one)))"

section \<open>Correctness of the reduction\<close>

lemma BN_mod:
  assumes "bn_ok m" "bn_ok d" "bn_ok r" "ctx_ok ctx"
  shows "\<exists>ok r'. BN_mod e ctx r m d = Some (ok, r') \<and> (ok \<longrightarrow> bn_abs d \<noteq> 0) \<and>
    abs_result r ok r' (bn_abs m mod bn_abs d) (bn_neg m) \<and>
    (heap_generous e \<longrightarrow> ctx_ready ctx 4 \<longrightarrow> bn_expandable r \<longrightarrow> bn_abs d \<noteq> 0 \<longrightarrow>
       bn_width m + 5 \<le> bn_max_words \<longrightarrow> bn_width d + 5 \<le> bn_max_words \<longrightarrow> ok)"
proof (cases "BN_div e ctx False None (Some r) m d")
  case None
  then show ?thesis using BN_div [of m d None "Some r" ctx e False] assms by simp
next
  case (Some x)
  obtain ok q' r' where x: "x = (ok, q', r')" by (metis prod_cases3)
  show ?thesis
    using BN_div [of m d None "Some r" ctx e False] assms by (cases r') (simp_all add: Some x BN_mod_def)
qed

lemma mod_of_signed:
  assumes "D \<noteq> 0" "s \<longrightarrow> A mod D \<noteq> 0 \<longrightarrow> v = int D - int (A mod D)" "\<not> s \<longrightarrow> v = int (A mod D)" "s \<longrightarrow> A mod D = 0 \<longrightarrow> v = 0"
  shows "v = (if s then - int A else int A) mod int D"
proof (cases s)
  case False
  then show ?thesis using assms(3) by (simp add: zmod_int)
next
  case True
  show ?thesis
  proof (cases "A mod D = 0")
    case zero: True
    then have "int D dvd int A" by (simp add: mod_eq_0_iff_dvd)
    then show ?thesis using True zero assms(4) by simp
  next
    case nonzero: False
    then have "\<not> int D dvd int A" by (simp add: mod_eq_0_iff_dvd)
    then have "(- int A) mod int D = int D - int A mod int D" by (simp add: zmod_zminus1_eq_if dvd_eq_mod_eq_0)
    then show ?thesis using True nonzero assms(2) by (simp add: zmod_int)
  qed
qed

lemma minimal_width_le:
  assumes "bn_ok a" "bn_minimal a" "bn_ok b" "bn_abs a < bn_abs b"
  shows "bn_width a \<le> bn_width b"
proof (rule ccontr)
  assume "\<not> bn_width a \<le> bn_width b"
  then have "0 < bn_width a" "bn_width b \<le> bn_width a - 1" by simp_all
  then have "radix ^ bn_width b \<le> radix ^ (bn_width a - 1)" by (intro power_increasing) simp_all
  with bn_minimal_ge [OF assms(1,2) \<open>0 < bn_width a\<close>] bn_abs_lt [OF assms(3)] assms(4) show False by linarith
qed

text \<open>The residue that is not negative, whatever the signs.\<close>

lemma BN_nnmod:
  assumes "bn_ok m" "bn_ok d" "bn_ok r" "ctx_ok ctx"
  shows "\<exists>ok r'. BN_nnmod e ctx r m d = Some (ok, r') \<and> bn_ok r' \<and> bn_flags r' = bn_flags r \<and>
    (ok \<longrightarrow> bn_val d \<noteq> 0 \<and> bn_val r' = bn_val m mod \<bar>bn_val d\<bar> \<and> bn_signed r' \<and> bn_minimal r') \<and>
    (heap_generous e \<longrightarrow> ctx_ready ctx 4 \<longrightarrow> bn_expandable r \<longrightarrow> bn_abs d \<noteq> 0 \<longrightarrow>
       bn_width m + 5 \<le> bn_max_words \<longrightarrow> bn_width d + 5 \<le> bn_max_words \<longrightarrow> ok)"
proof -
  let ?D = "bn_abs d"
  define gen where "gen \<longleftrightarrow> heap_generous e \<and> ctx_ready ctx 4 \<and> bn_expandable r \<and> ?D \<noteq> 0 \<and>
       bn_width m + 5 \<le> bn_max_words \<and> bn_width d + 5 \<le> bn_max_words"
  obtain ok r1 where M: "BN_mod e ctx r m d = Some (ok, r1)" "ok \<longrightarrow> ?D \<noteq> 0" "abs_result r ok r1 (bn_abs m mod ?D) (bn_neg m)" "gen \<longrightarrow> ok"
    using BN_mod [OF assms, of e] unfolding gen_def by blast
  have r1: "bn_ok r1" "bn_flags r1 = bn_flags r" using M(3) by (simp_all add: abs_result_def)
  have val: "v = bn_val m mod \<bar>bn_val d\<bar>"
    if "?D \<noteq> 0" "bn_neg m \<longrightarrow> bn_abs m mod ?D \<noteq> 0 \<longrightarrow> v = int ?D - int (bn_abs m mod ?D)"
      "\<not> bn_neg m \<longrightarrow> v = int (bn_abs m mod ?D)" "bn_neg m \<longrightarrow> bn_abs m mod ?D = 0 \<longrightarrow> v = 0" for v
    using mod_of_signed [OF that] by (simp add: bn_val_def)
  have dz: "?D \<noteq> 0 \<Longrightarrow> bn_val d \<noteq> 0" by (simp add: bn_val_0_iff)
  have "\<exists>ok r'. BN_nnmod e ctx r m d = Some (ok, r') \<and> bn_ok r' \<and> bn_flags r' = bn_flags r \<and>
    (ok \<longrightarrow> bn_val d \<noteq> 0 \<and> bn_val r' = bn_val m mod \<bar>bn_val d\<bar> \<and> bn_signed r' \<and> bn_minimal r') \<and> (gen \<longrightarrow> ok)"
  proof (cases "ok \<and> bn_neg r1")
    case False
    show ?thesis
    proof (cases ok)
      case True
      then have r: "bn_abs r1 = bn_abs m mod ?D" "bn_signed r1" "bn_minimal r1" "\<not> bn_neg r1" "bn_abs m mod ?D \<noteq> 0 \<longrightarrow> \<not> bn_neg m"
        using M(3) False by (auto simp: abs_result_def)
      have "bn_val r1 = bn_val m mod \<bar>bn_val d\<bar>" using r M(2) True by (intro val) (auto simp: bn_val_def)
      then show ?thesis using M r r1 True dz by (intro exI [of _ True] exI [of _ r1]) (simp add: BN_nnmod_def)
    next
      case False
      then show ?thesis using M r1 by (intro exI [of _ False] exI [of _ r1]) (simp add: BN_nnmod_def)
    qed
  next
    case True
    then have r: "bn_abs r1 = bn_abs m mod ?D" "bn_signed r1" "bn_minimal r1" "bn_neg r1" "bn_abs m mod ?D \<noteq> 0" "bn_neg m" "?D \<noteq> 0"
      using M(2,3) by (auto simp: abs_result_def bn_signed_def)
    have "bn_abs r1 < ?D" using r by simp
    then have w: "bn_width r1 \<le> bn_width d" using minimal_width_le [OF r1(1) r(3) assms(2)] by simp
    have ds: "bn_signed d" using r(7) by (simp add: bn_signed_def)
    obtain ok2 r2 where R: "(if bn_neg d then BN_sub e r1 r1 d else BN_add e r1 r1 d) = (ok2, r2)" by fastforce
    have "bn_result r1 ok2 r2 (int ?D - int (bn_abs m mod ?D)) (max (bn_width r1) (bn_width d) + 1) \<and>
      (heap_generous e \<longrightarrow> bn_expandable r1 \<longrightarrow> max (bn_width r1) (bn_width d) < bn_max_words \<longrightarrow> ok2)"
    proof (cases "bn_neg d")
      case True
      with R have "BN_sub e r1 r1 d = (ok2, r2)" by simp
      note S = BN_sub [OF this r1(1) r1(1) assms(2) r(2) ds]
      have "bn_val r1 - bn_val d = int ?D - int (bn_abs m mod ?D)" using r(1,4) True by (simp add: bn_val_def)
      with S show ?thesis by simp
    next
      case False
      with R have "BN_add e r1 r1 d = (ok2, r2)" by simp
      note S = BN_add [OF this r1(1) r1(1) assms(2) r(2) ds]
      have "bn_val r1 + bn_val d = int ?D - int (bn_abs m mod ?D)" using r(1,4) False by (simp add: bn_val_def)
      with S show ?thesis by simp
    qed
    note S = this
    have "gen \<longrightarrow> ok2" using S w r1(2) bn_expandable_flags [OF r1(2)] by (auto simp: gen_def)
    moreover have "int ?D - int (bn_abs m mod ?D) = bn_val m mod \<bar>bn_val d\<bar>" using r by (intro val) simp_all
    moreover have "BN_nnmod e ctx r m d = Some (ok2, r2)" using M(1) True R by (simp add: BN_nnmod_def)
    ultimately show ?thesis using S r1(2) dz r(7) by (auto simp: bn_result_def)
  qed
  then show ?thesis unfolding gen_def by blast
qed

text \<open>The words operations, for residues.\<close>

lemma bn_mod_sub_words:
  assumes "n \<le> length a" "n \<le> length b" "n \<le> length m"
    and "wval (take n a) < wval (take n m)" "wval (take n b) < wval (take n m)"
  shows "length (bn_mod_sub_words a b m n) = n"
    "int (wval (bn_mod_sub_words a b m n)) = (int (wval (take n a)) - int (wval (take n b))) mod int (wval (take n m))"
proof -
  obtain r borrow where s: "bn_sub_words a b n = (r, borrow)" by fastforce
  note S = bn_sub_words [OF s assms(1,2)]
  obtain t c where t: "bn_add_words r m n = (t, c)" by fastforce
  have lr: "n \<le> length r" using S(1) by simp
  note T = bn_add_words [OF t lr assms(3)]
  have res: "bn_mod_sub_words a b m n = (if borrow = 1 then t else r)"
  proof -
    have "0 - borrow = mask_of (borrow = 1)" using S(3) by auto
    then show ?thesis using bn_select_words [of n t r "borrow = 1"] S(1) T(1) by (simp add: bn_mod_sub_words_def s t)
  qed
  show "length (bn_mod_sub_words a b m n) = n" using res S(1) T(1) by simp
  have rr: "take n r = r" using S(1) by simp
  show "int (wval (bn_mod_sub_words a b m n)) = (int (wval (take n a)) - int (wval (take n b))) mod int (wval (take n m))"
  proof (cases "borrow = 1")
    case False
    then have "borrow = 0" using S(3) by blast
    then have e: "wval r + wval (take n b) = wval (take n a)" using S(2) by simp
    then have "int (wval (take n a)) - int (wval (take n b)) = int (wval r)" by linarith
    moreover have "wval r < wval (take n m)" using e assms(4) by linarith
    ultimately show ?thesis using False res by simp
  next
    case True
    have e: "wval r + wval (take n b) = wval (take n a) + radix ^ n" using S(2) True by simp
    have f: "wval t + radix ^ n * unat c = wval r + wval (take n m)" using T(2) rr by simp
    have g: "wval t < radix ^ n" using wval_lt [of t] T(1) by simp
    have "wval t + wval (take n b) + radix ^ n * unat c = wval (take n a) + wval (take n m) + radix ^ n"
      using e f by linarith
    moreover have "unat c = 1"
    proof (rule ccontr)
      assume "unat c \<noteq> 1"
      then have "unat c = 0" using T(3) by linarith
      then show False using f g e assms(5) by simp
    qed
    ultimately have h: "wval t + wval (take n b) = wval (take n a) + wval (take n m)" by simp
    then have "int (wval (take n a)) - int (wval (take n b)) = int (wval t) - int (wval (take n m))" by linarith
    moreover have "wval r < radix ^ n" using wval_lt [of r] S(1) by simp
    then have "wval t < wval (take n m)" using h e by linarith
    ultimately show ?thesis using True res by simp
  qed
qed

lemma bn_mod_add_words:
  assumes "n \<le> length a" "n \<le> length b" "n \<le> length m"
    and "wval (take n a) < wval (take n m)" "wval (take n b) < wval (take n m)"
  shows "length (bn_mod_add_words a b m n) = n"
    "wval (bn_mod_add_words a b m n) = (wval (take n a) + wval (take n b)) mod wval (take n m)"
proof -
  obtain t c where t: "bn_add_words a b n = (t, c)" by fastforce
  note T = bn_add_words [OF t assms(1,2)]
  obtain r borrow where s: "bn_sub_words t m n = (r, borrow)" by fastforce
  have lt: "n \<le> length t" using T(1) by simp
  note S = bn_sub_words [OF s lt assms(3)]
  have tt: "take n t = t" using T(1) by simp
  note B = wval_lt [of t] wval_lt [of r] wval_take_lt [of n m]
  have sum: "wval t + radix ^ n * unat c = wval (take n a) + wval (take n b)" by (rule T(2))
  have dif: "wval r + wval (take n m) = wval t + radix ^ n * unat borrow" using S(2) tt by simp
  have c: "c = 0 \<or> c = 1" using T(3) by (auto simp: word_unat_eq_iff)
  have cb: "c = 1 \<longrightarrow> borrow = 1"
  proof (intro impI, rule ccontr)
    assume x: "c = 1" "borrow \<noteq> 1"
    then have "borrow = 0" using S(3) by blast
    then show False using sum dif x(1) assms(4,5) B(3) by simp
  qed
  have mk: "c - borrow = mask_of (c = 0 \<and> borrow = 1)" using c S(3) cb by auto
  have res: "bn_mod_add_words a b m n = (if c = 0 \<and> borrow = 1 then t else r)"
    using bn_select_words [of n t r "c = 0 \<and> borrow = 1"] S(1) T(1) mk by (simp add: bn_mod_add_words_def s t)
  show "length (bn_mod_add_words a b m n) = n" using res S(1) T(1) by simp
  show "wval (bn_mod_add_words a b m n) = (wval (take n a) + wval (take n b)) mod wval (take n m)"
  proof (cases "c = 0 \<and> borrow = 1")
    case True
    then have "wval t < wval (take n m)" using dif B(2) S(1) by simp
    then show ?thesis using True res sum by simp
  next
    case False
    then have "wval r + wval (take n m) = wval (take n a) + wval (take n b)" using c S(3) cb sum dif by auto
    moreover from this have "wval r < wval (take n m)" using assms(4,5) by linarith
    ultimately have "(wval (take n a) + wval (take n b)) mod wval (take n m) = wval r"
      by (metis mod_add_self2 mod_less)
    then show ?thesis unfolding res if_not_P [OF False] by simp
  qed
qed


section \<open>Correctness of modular arithmetic\<close>

lemma nnmod_after:
  assumes "bn_ok t" "bn_val t = v" "bn_ok m" "bn_ok r" "ctx_ok ctx" "BN_nnmod e ctx r t m = Some (ok, r')"
  shows "bn_ok r'" "bn_flags r' = bn_flags r" "ok \<Longrightarrow> bn_val m \<noteq> 0 \<and> bn_val r' = v mod \<bar>bn_val m\<bar> \<and> bn_signed r' \<and> bn_minimal r'"
  using BN_nnmod [OF assms(1,3,4,5), of e] assms(2,6) by auto

lemma nnmod_step:
  assumes "x = (p, r1)" "bn_ok r1" "p \<Longrightarrow> bn_val r1 = v" "bn_ok m" "ctx_ok ctx"
  shows "(case x of (ok, r) \<Rightarrow> if \<not> ok then Some (False, r) else BN_nnmod e ctx r r m) = Some (ok, r') \<Longrightarrow>
      bn_ok r' \<and> (ok \<longrightarrow> bn_val m \<noteq> 0 \<and> bn_val r' = v mod \<bar>bn_val m\<bar> \<and> bn_signed r' \<and> bn_minimal r')"
    "(case x of (ok, r) \<Rightarrow> if \<not> ok then Some (False, r) else BN_nnmod e ctx r r m) \<noteq> None"
proof -
  show "bn_ok r' \<and> (ok \<longrightarrow> bn_val m \<noteq> 0 \<and> bn_val r' = v mod \<bar>bn_val m\<bar> \<and> bn_signed r' \<and> bn_minimal r')"
    if r: "(case x of (ok, r) \<Rightarrow> if \<not> ok then Some (False, r) else BN_nnmod e ctx r r m) = Some (ok, r')"
  proof (cases p)
    case True
    then have "BN_nnmod e ctx r1 r1 m = Some (ok, r')" using r assms(1) by simp
    from nnmod_after [OF assms(2) assms(3) [OF True] assms(4,2,5) this] show ?thesis by blast
  next
    case False
    then show ?thesis using r assms(1,2) by simp
  qed
  show "(case x of (ok, r) \<Rightarrow> if \<not> ok then Some (False, r) else BN_nnmod e ctx r r m) \<noteq> None"
    using BN_nnmod [OF assms(2,4,2,5), of e] assms(1) by (cases p) auto
qed

lemma BN_mod_add_sub:
  assumes "bn_ok a" "bn_ok b" "bn_signed a" "bn_signed b" "bn_ok m" "bn_ok r" "ctx_ok ctx"
  shows "BN_mod_add e ctx r a b m = Some (ok, r') \<Longrightarrow> bn_ok r' \<and>
      (ok \<longrightarrow> bn_val m \<noteq> 0 \<and> bn_val r' = (bn_val a + bn_val b) mod \<bar>bn_val m\<bar> \<and> bn_signed r' \<and> bn_minimal r')"
    "BN_mod_sub e ctx r a b m = Some (ok, r') \<Longrightarrow> bn_ok r' \<and>
      (ok \<longrightarrow> bn_val m \<noteq> 0 \<and> bn_val r' = (bn_val a - bn_val b) mod \<bar>bn_val m\<bar> \<and> bn_signed r' \<and> bn_minimal r')"
    "BN_mod_add e ctx r a b m \<noteq> None" "BN_mod_sub e ctx r a b m \<noteq> None"
proof -
  obtain p r1 where A: "BN_add e r a b = (p, r1)" by fastforce
  obtain q r2 where S: "BN_sub e r a b = (q, r2)" by fastforce
  have R1: "bn_ok r1" "p \<Longrightarrow> bn_val r1 = bn_val a + bn_val b" and R2: "bn_ok r2" "q \<Longrightarrow> bn_val r2 = bn_val a - bn_val b"
    using BN_add(1) [OF A assms(6,1-4)] BN_sub(1) [OF S assms(6,1-4)] by (simp_all add: bn_result_def)
  note N1 = nnmod_step [OF A R1 assms(5,7), where e = e] and N2 = nnmod_step [OF S R2 assms(5,7), where e = e]
  show "BN_mod_add e ctx r a b m = Some (ok, r') \<Longrightarrow> bn_ok r' \<and>
      (ok \<longrightarrow> bn_val m \<noteq> 0 \<and> bn_val r' = (bn_val a + bn_val b) mod \<bar>bn_val m\<bar> \<and> bn_signed r' \<and> bn_minimal r')" unfolding BN_mod_add_def by (rule N1(1))
  show "BN_mod_add e ctx r a b m \<noteq> None" unfolding BN_mod_add_def by (rule N1(2))
  show "BN_mod_sub e ctx r a b m = Some (ok, r') \<Longrightarrow> bn_ok r' \<and>
      (ok \<longrightarrow> bn_val m \<noteq> 0 \<and> bn_val r' = (bn_val a - bn_val b) mod \<bar>bn_val m\<bar> \<and> bn_signed r' \<and> bn_minimal r')" unfolding BN_mod_sub_def by (rule N2(1))
  show "BN_mod_sub e ctx r a b m \<noteq> None" unfolding BN_mod_sub_def by (rule N2(2))
qed

text \<open>With enough memory these succeed.\<close>

lemma nnmod_succeeds:
  assumes "heap_generous e" "ctx_ok ctx" "ctx_ready ctx 4" "bn_ok a" "bn_ok m" "bn_val m \<noteq> 0" "bn_ok r" "bn_expandable r"
    "bn_width a + 5 \<le> bn_max_words" "bn_width m + 5 \<le> bn_max_words"
  shows "\<exists>r'. BN_nnmod e ctx r a m = Some (True, r')"
  using BN_nnmod [OF assms(4,5,7,2), of e] assms(1,3,6,8-10) by (auto simp: bn_val_0_iff)

lemma BN_mod_add_sub_succeed:
  assumes "heap_generous e" "ctx_ok ctx" "ctx_ready ctx 4" "bn_ok a" "bn_ok b" "bn_signed a" "bn_signed b" "bn_ok m" "bn_val m \<noteq> 0"
    "bn_ok r" "bn_expandable r" "max (bn_width a) (bn_width b) + 6 \<le> bn_max_words" "bn_width m + 5 \<le> bn_max_words"
  shows "\<exists>r'. BN_mod_add e ctx r a b m = Some (True, r')" "\<exists>r'. BN_mod_sub e ctx r a b m = Some (True, r')"
proof -
  have step: "\<exists>r'. BN_nnmod e ctx r1 r1 m = Some (True, r')" if "bn_result r True r1 v (max (bn_width a) (bn_width b) + 1)" for r1 v
  proof (rule nnmod_succeeds [OF assms(1-3) _ assms(8,9)])
    show "bn_ok r1" "bn_expandable r1" using that assms(11) bn_expandable_flags [of r1 r] by (simp_all add: bn_result_def)
    show "bn_width r1 + 5 \<le> bn_max_words" using that assms(12) by (simp add: bn_result_def)
    show "bn_width m + 5 \<le> bn_max_words" by (rule assms(13))
  qed (use that in \<open>simp add: bn_result_def\<close>)
  have w: "max (bn_width a) (bn_width b) < bn_max_words" using assms(12) by linarith
  obtain p r1 where A: "BN_add e r a b = (p, r1)" by fastforce
  have "p" using BN_add(2) [OF A assms(10,4-7)] assms(1,11) w by blast
  then show "\<exists>r'. BN_mod_add e ctx r a b m = Some (True, r')"
    using step [of r1] BN_add(1) [OF A assms(10,4-7)] by (simp add: BN_mod_add_def A)
  obtain q r2 where S: "BN_sub e r a b = (q, r2)" by fastforce
  have "q" using BN_sub(2) [OF S assms(10,4-7)] assms(1,11) w by blast
  then show "\<exists>r'. BN_mod_sub e ctx r a b m = Some (True, r')"
    using step [of r2] BN_sub(1) [OF S assms(10,4-7)] by (simp add: BN_mod_sub_def S)
qed

lemma BN_mod_mul_succeeds:
  assumes "heap_generous e" "ctx_ok ctx" "ctx_ready ctx 7" "bn_ok a" "bn_ok b" "bn_ok m" "bn_val m \<noteq> 0"
    "bn_ok r" "bn_expandable r" "8 * max (bn_width a) (bn_width b) + 5 \<le> bn_max_words" "bn_width m + 5 \<le> bn_max_words"
  shows "\<exists>r'. BN_mod_mul e ctx False r a b m = Some (True, r')"
proof -
  obtain t where t: "BN_CTX_get ctx 0 = Some t" "bn_expandable t" using ctx_ready [OF assms(3), of 0] by auto
  have tk: "bn_ok t" using BN_CTX_get [OF assms(2) t(1)] by simp
  have c: "ctx_ready (ctx_from 1 ctx) 2" "ctx_ready (ctx_from 3 ctx) 4" using assms(3) by (auto simp: ctx_ready_def ctx_from_def)
  have "8 * max (bn_width a) (bn_width b) \<le> bn_max_words" using assms(10) by linarith
  then obtain t1 where m: "BN_mul e (ctx_from 1 ctx) False t a b = Some (True, t1)"
    using BN_mul(2) [OF tk assms(4,5) ctx_from(1) [OF assms(2)] assms(1) t(2) c(1)] by blast
  note M = BN_mul(1) [OF tk assms(4,5) ctx_from(1) [OF assms(2)] m, unfolded bn_result_def]
  have "bn_width t1 \<le> bn_width a + bn_width b" using M by simp
  then have "bn_width t1 + 5 \<le> bn_max_words" using assms(10) by linarith
  then obtain r' where "BN_nnmod e (ctx_from 3 ctx) r t1 m = Some (True, r')"
    using nnmod_succeeds [OF assms(1) ctx_from(1) [OF assms(2)] c(2) _ assms(6-9) _ assms(11)] M by blast
  then show ?thesis using t(1) m by (simp add: BN_mod_mul_def)
qed

lemma BN_mod_mul:
  assumes "BN_mod_mul e ctx same r a b m = Some (ok, r')" "bn_ok a" "bn_ok b" "same \<longrightarrow> b = a" "bn_ok m" "bn_ok r" "ctx_ok ctx"
  shows "bn_ok r'" "bn_flags r' = bn_flags r"
    "ok \<Longrightarrow> bn_val m \<noteq> 0 \<and> bn_val r' = bn_val a * bn_val b mod \<bar>bn_val m\<bar> \<and> bn_signed r' \<and> bn_minimal r'"
proof -
  have "bn_ok r' \<and> bn_flags r' = bn_flags r \<and>
    (ok \<longrightarrow> bn_val m \<noteq> 0 \<and> bn_val r' = bn_val a * bn_val b mod \<bar>bn_val m\<bar> \<and> bn_signed r' \<and> bn_minimal r')"
  proof (cases "BN_CTX_get ctx 0")
    case None
    then show ?thesis using assms(1,6) by (simp add: BN_mod_mul_def)
  next
    case (Some t)
    have t: "bn_ok t" using BN_CTX_get [OF assms(7) Some] by simp
    obtain p t1 where P: "(if same then Some (BN_sqr e (ctx_from 1 ctx) False t a) else BN_mul e (ctx_from 1 ctx) False t a b) = Some (p, t1)"
      using assms(1) Some by (auto simp: BN_mod_mul_def split: option.splits)
    have T: "bn_ok t1" "p \<Longrightarrow> bn_val t1 = bn_val a * bn_val b"
      using P assms(4) BN_mul(1) [OF t assms(2,3) ctx_from(1) [OF assms(7)], of e 1 False p t1]
        BN_sqr(1) [OF _ t assms(2) ctx_from(1) [OF assms(7)], of e 1 False p t1]
      by (auto simp: bn_result_def split: if_splits)
    show ?thesis
    proof (cases p)
      case True
      then have "BN_nnmod e (ctx_from 3 ctx) r t1 m = Some (ok, r')" using assms(1) Some P by (simp add: BN_mod_mul_def)
      from nnmod_after [OF T(1) T(2) [OF True] assms(5,6) ctx_from(1) [OF assms(7)] this] show ?thesis by blast
    next
      case False
      then show ?thesis using assms(1,6) Some P by (simp add: BN_mod_mul_def)
    qed
  qed
  then show "bn_ok r'" "bn_flags r' = bn_flags r"
    "ok \<Longrightarrow> bn_val m \<noteq> 0 \<and> bn_val r' = bn_val a * bn_val b mod \<bar>bn_val m\<bar> \<and> bn_signed r' \<and> bn_minimal r'" by blast+
qed

lemma BN_mod_sqr:
  assumes "BN_mod_sqr e ctx alias r a m = Some (ok, r')" "bn_ok a" "bn_ok m" "bn_ok r" "ctx_ok ctx"
  shows "bn_ok r'" "ok \<Longrightarrow> bn_val m \<noteq> 0 \<and> bn_val r' = (bn_val a)\<^sup>2 mod \<bar>bn_val m\<bar>"
proof -
  obtain p r1 where S: "BN_sqr e ctx alias r a = (p, r1)" by fastforce
  note R = BN_sqr(1) [OF S assms(4,2,5), unfolded bn_result_def]
  have r1: "bn_ok r1" using R by simp
  have "bn_ok r' \<and> (ok \<longrightarrow> bn_val m \<noteq> 0 \<and> bn_val r' = (bn_val a)\<^sup>2 mod \<bar>bn_val m\<bar>)"
  proof (cases p)
    case False
    then show ?thesis using assms(1) S r1 by (simp add: BN_mod_sqr_def)
  next
    case True
    then have M: "BN_mod e (ctx_from 2 ctx) r1 r1 m = Some (ok, r')" using assms(1) S by (simp add: BN_mod_sqr_def)
    have v: "bn_val r1 = (bn_val a)\<^sup>2" "bn_signed r1" using R True by (simp_all add: power2_eq_square)
    then have n: "\<not> bn_neg r1"
      by (metis bn_signed_def bn_val_def neg_0_le_iff_le of_nat_le_0_iff zero_le_power2 le_zero_eq)
    have "bn_ok r' \<and> (ok \<longrightarrow> bn_abs m \<noteq> 0 \<and> abs_result r1 ok r' (bn_abs r1 mod bn_abs m) False)"
      using BN_mod [OF r1 assms(3) r1 ctx_from(1) [OF assms(5)], of e 2] M n by (auto simp: abs_result_def)
    moreover have "int (bn_abs r1 mod bn_abs m) = (bn_val a)\<^sup>2 mod \<bar>bn_val m\<bar>"
      using v(1) n by (simp add: bn_val_def [of r1] abs_bn_val zmod_int)
    ultimately show ?thesis using abs_result_val [of r1 r' "bn_abs r1 mod bn_abs m" False] by (auto simp: bn_val_0_iff)
  qed
  then show "bn_ok r'" "ok \<Longrightarrow> bn_val m \<noteq> 0 \<and> bn_val r' = (bn_val a)\<^sup>2 mod \<bar>bn_val m\<bar>" by blast+
qed

lemma bn_scratch_space_from_ctx:
  assumes "ctx_ok ctx"
  shows "bn_scratch_space_from_ctx e w ctx = Some t \<Longrightarrow> bn_ok t"
    "heap_generous e \<Longrightarrow> ctx_ready ctx 1 \<Longrightarrow> w \<le> bn_max_words \<Longrightarrow> \<exists>t. bn_scratch_space_from_ctx e w ctx = Some t \<and> bn_expandable t"
proof -
  show "bn_ok t" if s: "bn_scratch_space_from_ctx e w ctx = Some t"
  proof -
    obtain b b' where b: "BN_CTX_get ctx 0 = Some b" "bn_wexpand e b w = Some b'" "t = b'\<lparr>bn_width := w, bn_neg := False\<rparr>"
      using s by (auto simp: bn_scratch_space_from_ctx_def split: option.splits)
    show ?thesis using bn_wexpand [OF b(2)] BN_CTX_get [OF assms b(1)] by (simp add: b(3) bn_ok_def)
  qed
  show "\<exists>t. bn_scratch_space_from_ctx e w ctx = Some t \<and> bn_expandable t"
    if g: "heap_generous e" "ctx_ready ctx 1" "w \<le> bn_max_words"
  proof -
    obtain b where b: "BN_CTX_get ctx 0 = Some b" "bn_expandable b" using ctx_ready [OF g(2), of 0] by auto
    obtain b' where w: "bn_wexpand e b w = Some b'" using bn_wexpand_succeeds [OF g(1) b(2) g(3)] by blast
    show ?thesis using bn_wexpand(6) [OF w] BN_CTX_get [OF assms b(1)] b w
      by (simp add: bn_scratch_space_from_ctx_def bn_expandable_def)
  qed
qed

lemma bn_abs_front:
  assumes "bn_ok b" "w \<le> bn_width b" "bn_abs b < radix ^ w"
  shows "wval (take w (bn_d b)) = bn_abs b" "w \<le> length (bn_d b)"
proof -
  show l: "w \<le> length (bn_d b)" using assms(2) bn_okD(3) [OF assms(1)] by simp
  have "take w (take (bn_width b) (bn_d b)) = take w (bn_d b)" using assms(2) by (simp add: min_def)
  then have "wval (take w (bn_d b)) = bn_abs b mod radix ^ w"
    using wval_take [of w "take (bn_width b) (bn_d b)"] assms(2) bn_okD(3) [OF assms(1)] by (simp add: bn_abs_def)
  then show "wval (take w (bn_d b)) = bn_abs b" using assms(3) by simp
qed

lemma bn_resized_from_ctx:
  assumes "ctx_ok ctx" "bn_ok b" "bn_abs b < radix ^ w"
  shows "bn_resized_from_ctx e b w ctx = Some b' \<Longrightarrow> wval (take w (bn_d b')) = bn_abs b \<and> w \<le> length (bn_d b')"
    "heap_generous e \<Longrightarrow> ctx_ready ctx (if bn_width b \<ge> w then 0 else 1) \<Longrightarrow> w \<le> bn_max_words \<Longrightarrow> \<exists>b'. bn_resized_from_ctx e b w ctx = Some b'"
proof -
  show "wval (take w (bn_d b')) = bn_abs b \<and> w \<le> length (bn_d b')" if s: "bn_resized_from_ctx e b w ctx = Some b'"
  proof (cases "bn_width b \<ge> w")
    case True
    then show ?thesis using s bn_abs_front [OF assms(2) True assms(3)] by (simp add: bn_resized_from_ctx_def)
  next
    case False
    then obtain t t1 where t: "bn_scratch_space_from_ctx e w ctx = Some t" "BN_copy e t b = (True, t1)" "bn_resize_words e t1 w = (True, b')"
      using s by (auto simp: bn_resized_from_ctx_def split: option.splits prod.splits if_splits)
    note C = BN_copy [OF t(2) bn_scratch_space_from_ctx(1) [OF assms(1) t(1)] assms(2)]
    note R = bn_resize_words [OF t(3) C(3)]
    have "bn_abs b' = bn_abs b" "bn_width b' = w" using R C by simp_all
    then show ?thesis using bn_okD(3) [OF R(1)] by (simp add: bn_abs_def)
  qed
  show "\<exists>b'. bn_resized_from_ctx e b w ctx = Some b'"
    if g: "heap_generous e" "ctx_ready ctx (if bn_width b \<ge> w then 0 else 1)" "w \<le> bn_max_words"
  proof (cases "bn_width b \<ge> w")
    case True
    then show ?thesis by (simp add: bn_resized_from_ctx_def)
  next
    case False
    obtain t where t: "bn_scratch_space_from_ctx e w ctx = Some t" "bn_expandable t"
      using bn_scratch_space_from_ctx(2) [OF assms(1) g(1) _ g(3)] g(2) False by auto
    obtain ok t1 where c: "BN_copy e t b = (ok, t1)" by fastforce
    note C = BN_copy [OF c bn_scratch_space_from_ctx(1) [OF assms(1) t(1)] assms(2)]
    have ok using BN_copy_succeeds [OF g(1) t(2) assms(2)] c by simp
    obtain ok2 t2 where r: "bn_resize_words e t1 w = (ok2, t2)" by fastforce
    have "ok2" using bn_resize_words(6) [OF r C(3) g(1) _ g(3)] bn_expandable_flags [OF C(7)] t(2) C(2) \<open>ok\<close> assms(3) by simp
    then show ?thesis using False t c r \<open>ok\<close> by (simp add: bn_resized_from_ctx_def)
  qed
qed

lemma mod_op_consttime:
  assumes "mod_op_consttime words_op e ctx r a b m = (ok, r')" "bn_ok r" "bn_ok a" "bn_ok b" "bn_ok m" "ctx_ok ctx"
    "bn_abs a < bn_abs m" "bn_abs b < bn_abs m"
    and op: "\<And>xs ys ms n. n \<le> length xs \<Longrightarrow> n \<le> length ys \<Longrightarrow> n \<le> length ms \<Longrightarrow> wval (take n xs) < wval (take n ms) \<Longrightarrow>
      wval (take n ys) < wval (take n ms) \<Longrightarrow> length (words_op xs ys ms n) = n \<and>
      int (wval (words_op xs ys ms n)) = f (int (wval (take n xs))) (int (wval (take n ys))) mod int (wval (take n ms))"
  shows "bn_ok r'" "bn_flags r' = bn_flags r" "bn_neg r' = bn_neg r"
    "ok \<Longrightarrow> int (bn_abs r') = f (int (bn_abs a)) (int (bn_abs b)) mod int (bn_abs m) \<and> bn_width r' = bn_width m"
    "heap_generous e \<Longrightarrow> ctx_ready ctx 3 \<Longrightarrow> bn_expandable r \<Longrightarrow> ok"
proof -
  define w where "w = bn_width m"
  define p q where "p = (if bn_width a \<ge> w then 0 else 1 :: nat)" and "q = (if bn_width b \<ge> w then 0 else 1 :: nat)"
  have mw: "bn_abs m < radix ^ w" "w \<le> bn_max_words" "w \<le> length (bn_d m)" "wval (take w (bn_d m)) = bn_abs m"
    using bn_abs_lt [OF assms(5)] bn_okD(2-4) [OF assms(5)] by (simp_all add: w_def bn_abs_def)
  have lt: "bn_abs a < radix ^ w" "bn_abs b < radix ^ w" using assms(7,8) mw(1) by simp_all
  note A = bn_resized_from_ctx [OF assms(6,3) lt(1)]
  note B = bn_resized_from_ctx [OF ctx_from(1) [OF assms(6)] assms(4) lt(2)]
  note S = bn_scratch_space_from_ctx [OF ctx_from(1) [OF assms(6)]]
  note U = assms(1) [unfolded mod_op_consttime_def Let_def, folded w_def, folded p_def q_def]
  have gen: "\<exists>x y z. bn_resized_from_ctx e a w ctx = Some x \<and> bn_resized_from_ctx e b w (ctx_from p ctx) = Some y \<and>
      bn_scratch_space_from_ctx e w (ctx_from (p + q) ctx) = Some z" if "heap_generous e" "ctx_ready ctx 3"
  proof -
    have c: "ctx_ready ctx p" "ctx_ready (ctx_from p ctx) q" "ctx_ready (ctx_from (p + q) ctx) 1"
      using that(2) by (auto simp: ctx_ready_def ctx_from_def p_def q_def)
    show ?thesis using A(2) [OF that(1) c(1) [unfolded p_def] mw(2)] B(2) [OF that(1) c(2) [unfolded q_def] mw(2)] S(2) [OF that(1) c(3) mw(2)]
      by blast
  qed
  have "bn_ok r' \<and> bn_flags r' = bn_flags r \<and> bn_neg r' = bn_neg r \<and>
    (ok \<longrightarrow> int (bn_abs r') = f (int (bn_abs a)) (int (bn_abs b)) mod int (bn_abs m) \<and> bn_width r' = w) \<and>
    (heap_generous e \<longrightarrow> ctx_ready ctx 3 \<longrightarrow> bn_expandable r \<longrightarrow> ok)"
  proof (cases "bn_resized_from_ctx e a w ctx = None \<or> bn_resized_from_ctx e b w (ctx_from p ctx) = None \<or>
      bn_scratch_space_from_ctx e w (ctx_from (p + q) ctx) = None")
    case True
    then have "ok = False" "r' = r" using U by (auto split: option.splits)
    moreover have "\<not> (heap_generous e \<and> ctx_ready ctx 3)" using True gen by force
    ultimately show ?thesis using assms(2) by auto
  next
    case False
    then obtain x y z where x: "bn_resized_from_ctx e a w ctx = Some x" "bn_resized_from_ctx e b w (ctx_from p ctx) = Some y"
      "bn_scratch_space_from_ctx e w (ctx_from (p + q) ctx) = Some z" by (auto simp: not_None_eq)
    show ?thesis
    proof (cases "bn_wexpand e r w")
      case None
      then have "ok = False" "r' = r" using U x by simp_all
      then show ?thesis using assms(2) bn_wexpand_fails [OF None] mw(2) by auto
    next
      case (Some r1)
      note W = bn_wexpand [OF Some assms(2)]
      define ws where "ws = words_op (bn_d x) (bn_d y) (bn_d m) w"
      have r: "ok" "r' = r1\<lparr>bn_d := blit (bn_d r1) 0 ws, bn_width := w\<rparr>" using U x Some by (simp_all add: ws_def)
      have ab: "wval (take w (bn_d x)) = bn_abs a" "w \<le> length (bn_d x)" "wval (take w (bn_d y)) = bn_abs b" "w \<le> length (bn_d y)"
        using A(1) [OF x(1)] B(1) [OF x(2)] by simp_all
      have o: "length ws = w" "int (wval ws) = f (int (bn_abs a)) (int (bn_abs b)) mod int (bn_abs m)"
        using op [of w "bn_d x" "bn_d y" "bn_d m"] ab mw(3,4) assms(7,8) by (simp_all add: ws_def)
      have "r' = r1\<lparr>bn_d := blit (bn_d r1) 0 ws, bn_width := w, bn_neg := bn_neg r1\<rparr>" by (simp add: r(2))
      with bn_written [OF W(1) o(1) W(2), of "bn_neg r1"] o(2) W(5,6) r(1) show ?thesis by simp
    qed
  qed
  then show "bn_ok r'" "bn_flags r' = bn_flags r" "bn_neg r' = bn_neg r"
    "ok \<Longrightarrow> int (bn_abs r') = f (int (bn_abs a)) (int (bn_abs b)) mod int (bn_abs m) \<and> bn_width r' = bn_width m"
    "heap_generous e \<Longrightarrow> ctx_ready ctx 3 \<Longrightarrow> bn_expandable r \<Longrightarrow> ok" unfolding w_def by blast+
qed

lemma bn_mod_add_sub_consttime:
  assumes "bn_ok r" "bn_ok a" "bn_ok b" "bn_ok m" "ctx_ok ctx" "bn_abs a < bn_abs m" "bn_abs b < bn_abs m"
  shows "bn_mod_add_consttime e ctx r a b m = (ok, r') \<Longrightarrow> bn_ok r' \<and> bn_flags r' = bn_flags r \<and> bn_neg r' = bn_neg r \<and>
      (ok \<longrightarrow> bn_abs r' = (bn_abs a + bn_abs b) mod bn_abs m \<and> bn_width r' = bn_width m) \<and>
      (heap_generous e \<longrightarrow> ctx_ready ctx 3 \<longrightarrow> bn_expandable r \<longrightarrow> ok)"
    "bn_mod_sub_consttime e ctx r a b m = (ok, r') \<Longrightarrow> bn_ok r' \<and> bn_flags r' = bn_flags r \<and> bn_neg r' = bn_neg r \<and>
      (ok \<longrightarrow> int (bn_abs r') = (int (bn_abs a) - int (bn_abs b)) mod int (bn_abs m) \<and> bn_width r' = bn_width m) \<and>
      (heap_generous e \<longrightarrow> ctx_ready ctx 3 \<longrightarrow> bn_expandable r \<longrightarrow> ok)"
proof -
  have add: "length (bn_mod_add_words xs ys ms n) = n \<and>
      int (wval (bn_mod_add_words xs ys ms n)) = (int (wval (take n xs)) + int (wval (take n ys))) mod int (wval (take n ms))"
    if "n \<le> length xs" "n \<le> length ys" "n \<le> length ms" "wval (take n xs) < wval (take n ms)" "wval (take n ys) < wval (take n ms)" for xs ys ms n
    using bn_mod_add_words [OF that] by (simp add: zmod_int)
  show "bn_ok r' \<and> bn_flags r' = bn_flags r \<and> bn_neg r' = bn_neg r \<and>
      (ok \<longrightarrow> bn_abs r' = (bn_abs a + bn_abs b) mod bn_abs m \<and> bn_width r' = bn_width m) \<and>
      (heap_generous e \<longrightarrow> ctx_ready ctx 3 \<longrightarrow> bn_expandable r \<longrightarrow> ok)" if "bn_mod_add_consttime e ctx r a b m = (ok, r')"
    using mod_op_consttime [OF that [unfolded bn_mod_add_consttime_def] assms, where f = "(+)"] add by (simp flip: of_nat_add of_nat_mod)
  show "bn_ok r' \<and> bn_flags r' = bn_flags r \<and> bn_neg r' = bn_neg r \<and>
      (ok \<longrightarrow> int (bn_abs r') = (int (bn_abs a) - int (bn_abs b)) mod int (bn_abs m) \<and> bn_width r' = bn_width m) \<and>
      (heap_generous e \<longrightarrow> ctx_ready ctx 3 \<longrightarrow> bn_expandable r \<longrightarrow> ok)" if "bn_mod_sub_consttime e ctx r a b m = (ok, r')"
    using mod_op_consttime [OF that [unfolded bn_mod_sub_consttime_def] assms, where f = "(-)"] bn_mod_sub_words by simp
qed


text \<open>The loop doubles modulo \<open>m\<close>.\<close>

lemma mod_lshift_loop:
  assumes "mod_lshift_loop e ctx r n m = (ok, r')" "bn_ok r" "bn_ok m" "ctx_ok ctx" "bn_abs r < bn_abs m"
  shows "bn_ok r' \<and> bn_flags r' = bn_flags r \<and> bn_neg r' = bn_neg r \<and> (ok \<longrightarrow> bn_abs r' = bn_abs r * 2 ^ n mod bn_abs m)"
  using assms
proof (induction n arbitrary: ctx r)
  case (Suc n)
  obtain p r1 where p: "bn_mod_lshift1_consttime e ctx r r m = (p, r1)" by fastforce
  have S: "bn_ok r1 \<and> bn_flags r1 = bn_flags r \<and> bn_neg r1 = bn_neg r \<and> (p \<longrightarrow> bn_abs r1 = (bn_abs r + bn_abs r) mod bn_abs m)"
    using bn_mod_add_sub_consttime(1) [OF Suc.prems(2,2,2,3,4,5,5), of e p r1] p by (simp add: bn_mod_lshift1_consttime_def)
  show ?case
  proof (cases p)
    case False
    then show ?thesis using Suc.prems(1) p S by simp
  next
    case True
    then have l: "mod_lshift_loop e (ctx_from 3 ctx) r1 n m = (ok, r')" using Suc.prems(1) p by simp
    have b: "bn_abs r1 < bn_abs m" "bn_abs r1 = bn_abs r * 2 mod bn_abs m" using S True Suc.prems(5) by (simp_all add: mult_2_right)
    have "bn_abs r1 * 2 ^ n mod bn_abs m = bn_abs r * 2 ^ Suc n mod bn_abs m"
      unfolding b(2) by (simp add: mod_mult_left_eq mult.assoc)
    then show ?thesis using Suc.IH [OF l _ Suc.prems(3) ctx_from(1) [OF Suc.prems(4)] b(1)] S by simp
  qed
qed simp

lemma bn_mod_lshift_consttime:
  assumes "bn_mod_lshift_consttime e ctx r a n m = (ok, r')" "bn_ok r" "bn_ok a" "bn_ok m" "ctx_ok ctx" "bn_abs a < bn_abs m"
  shows "bn_ok r'" "bn_flags r' = bn_flags r" "ok \<Longrightarrow> bn_abs r' = bn_abs a * 2 ^ nat n mod bn_abs m \<and> bn_neg r' = bn_neg a"
proof -
  obtain p r1 where c: "BN_copy e r a = (p, r1)" by fastforce
  note C = BN_copy [OF c assms(2,3)]
  have "bn_ok r' \<and> bn_flags r' = bn_flags r \<and> (ok \<longrightarrow> bn_abs r' = bn_abs a * 2 ^ nat n mod bn_abs m \<and> bn_neg r' = bn_neg a)"
  proof (cases p)
    case False
    then show ?thesis using assms(1) c C by (simp add: bn_mod_lshift_consttime_def)
  next
    case True
    then have l: "mod_lshift_loop e ctx r1 (nat n) m = (ok, r')" using assms(1) c by (simp add: bn_mod_lshift_consttime_def)
    have lt: "bn_abs r1 < bn_abs m" using C(2) True assms(6) by simp
    from mod_lshift_loop [OF l C(3) assms(4,5) lt] C True show ?thesis by simp
  qed
  then show "bn_ok r'" "bn_flags r' = bn_flags r" "ok \<Longrightarrow> bn_abs r' = bn_abs a * 2 ^ nat n mod bn_abs m \<and> bn_neg r' = bn_neg a"
    by blast+
qed

lemma BN_dup:
  assumes "BN_dup e (Some b) = Some b'" "bn_ok b"
  shows "bn_ok b'" "bn_val b' = bn_val b" "bn_abs b' = bn_abs b"
proof -
  obtain c where "BN_new e = Some c" "BN_copy e c b = (True, b')"
    using assms(1) by (auto simp: BN_dup_def split: option.splits prod.splits if_splits)
  then have "bn_ok c" "BN_copy e c b = (True, b')"
    by (auto simp: BN_new_def BN_init_def bn_ok_def split: if_splits option.splits)
  with BN_copy [OF this(2,1) assms(2)] show "bn_ok b'" "bn_val b' = bn_val b" "bn_abs b' = bn_abs b" by simp_all
qed

lemma BN_mod_lshift:
  assumes "BN_mod_lshift e ctx r a n m = Some (ok, r')" "bn_ok r" "bn_ok a" "bn_ok m" "ctx_ok ctx"
  shows "bn_ok r'" "ok \<Longrightarrow> bn_val m \<noteq> 0 \<and> bn_val r' = bn_val a * 2 ^ nat n mod \<bar>bn_val m\<bar>"
proof -
  obtain p r1 where nn: "BN_nnmod e ctx r a m = Some (p, r1)" "bn_ok r1" "bn_flags r1 = bn_flags r"
    "p \<longrightarrow> bn_val m \<noteq> 0 \<and> bn_val r1 = bn_val a mod \<bar>bn_val m\<bar> \<and> bn_signed r1 \<and> bn_minimal r1"
    using BN_nnmod [OF assms(3,4,2,5), of e] by blast
  have "bn_ok r' \<and> (ok \<longrightarrow> bn_val m \<noteq> 0 \<and> bn_val r' = bn_val a * 2 ^ nat n mod \<bar>bn_val m\<bar>)"
  proof (cases p)
    case False
    then show ?thesis using assms(1) nn by (simp add: BN_mod_lshift_def)
  next
    case True
    then have v: "bn_val m \<noteq> 0" "bn_val r1 = bn_val a mod \<bar>bn_val m\<bar>" "bn_signed r1" using nn(4) by simp_all
    have pos: "0 \<le> bn_val r1" "bn_val r1 < \<bar>bn_val m\<bar>" using v(1) by (simp_all add: v(2))
    then have n1: "\<not> bn_neg r1" using v(3) by (auto simp: bn_signed_def bn_val_def split: if_splits)
    then have lt: "bn_abs r1 < bn_abs m" using pos(2) by (simp add: bn_val_def [of r1] abs_bn_val)
    show ?thesis
    proof (cases "if bn_neg m then map_option (\<lambda>abs_m. abs_m\<lparr>bn_neg := False\<rparr>) (BN_dup e (Some m)) else Some m")
      case None
      then show ?thesis using assms(1) nn True by (simp add: BN_mod_lshift_def)
    next
      case (Some am)
      have am: "bn_ok am" "bn_abs am = bn_abs m"
        using Some BN_dup [of e m] assms(4) by (auto simp: bn_neg_update split: if_splits)
      have l: "bn_mod_lshift_consttime e (ctx_from 4 ctx) r1 r1 n am = (ok, r')"
        using assms(1) nn(1) True Some by (simp add: BN_mod_lshift_def)
      note L = bn_mod_lshift_consttime [OF l nn(2,2) am(1) ctx_from(1) [OF assms(5)] lt [folded am(2)]]
      have "bn_val r' = bn_val a * 2 ^ nat n mod \<bar>bn_val m\<bar>" if ok
      proof -
        have "bn_val r' = int (bn_abs r1) * 2 ^ nat n mod int (bn_abs m)"
          using L(3) [OF that] n1 am(2) by (simp add: bn_val_def zmod_int)
        also have "int (bn_abs r1) = bn_val a mod \<bar>bn_val m\<bar>" using v(2) n1 by (simp add: bn_val_def [of r1])
        finally show ?thesis by (simp add: abs_bn_val mod_mult_left_eq)
      qed
      then show ?thesis using L(1) v(1) by simp
    qed
  qed
  then show "bn_ok r'" "ok \<Longrightarrow> bn_val m \<noteq> 0 \<and> bn_val r' = bn_val a * 2 ^ nat n mod \<bar>bn_val m\<bar>" by blast+
qed

section \<open>Correctness of the reduction modulo a power of two\<close>

text \<open>Clearing the bits from \<open>e\<close> on.\<close>

lemma mask_top:
  assumes "0 < e" "length ws = 1 + (e - 1) div 64"
  shows "wval (if e mod 64 \<noteq> 0 then ws[length ws - 1 := ws ! (length ws - 1) AND (push_bit (e mod 64) 1 - 1)] else ws) = wval ws mod 2 ^ e"
proof (cases "e mod 64 = 0")
  case True
  then obtain k where k: "e = 64 * k" "0 < k" using assms(1) by (auto simp: mod_eq_0_iff_dvd elim: dvdE)
  then have "(e - 1) div 64 = k - 1" by (cases k) simp_all
  then have "length ws = k" using assms(2) k(2) by simp
  then have "wval ws < 2 ^ e" using wval_lt [of ws] by (simp add: k(1) radix_power)
  then show ?thesis using True by simp
next
  case False
  define k r where "k = e div 64" and "r = e mod 64"
  have e: "e = 64 * k + r" "0 < r" "r < 64" using False by (simp_all add: k_def r_def)
  then have "(e - 1) div 64 = k" by simp
  then have l: "length ws = Suc k" using assms(2) by simp
  then obtain xs x where ws: "ws = xs @ [x]" "length xs = k" by (metis length_Suc_conv_rev)
  have m: "unat (x AND (push_bit r 1 - 1)) = unat x mod 2 ^ r"
    by (simp add: push_bit_of_1 mask_eq_exp_minus_1 [symmetric] take_bit_eq_mask [symmetric] unsigned_take_bit_eq)
      (simp add: take_bit_eq_mod)
  have "wval ws mod 2 ^ e = (wval xs + radix ^ k * unat x) mod (radix ^ k * 2 ^ r)"
    by (simp add: ws wval_snoc e(1) power_add radix_power)
  also have "\<dots> = wval xs + radix ^ k * (unat x mod 2 ^ r)"
    using wval_lt [of xs] ws(2) by (simp add: mod_mult2_eq)
  finally show ?thesis using False m by (simp add: ws list_update_append nth_append wval_snoc r_def [symmetric])
qed

lemma BN_mod_pow2:
  assumes "BN_mod_pow2 env r a e = (ok, r')" "bn_ok r" "bn_ok a" "bn_signed a"
  shows "bn_ok r'" "bn_flags r' = bn_flags r" "ok \<Longrightarrow> bn_abs r' = bn_abs a mod 2 ^ e \<and> bn_signed r' \<and> (bn_abs r' \<noteq> 0 \<longrightarrow> bn_neg r' = bn_neg a)"
    "heap_generous env \<Longrightarrow> bn_expandable r \<Longrightarrow> ok" "ok \<Longrightarrow> 0 < e \<Longrightarrow> bn_width r' \<le> 1 + (e - 1) div 64"
proof -
  define n where "n = 1 + (e - 1) div 64"
  have "bn_ok r' \<and> bn_flags r' = bn_flags r \<and> (ok \<longrightarrow> bn_abs r' = bn_abs a mod 2 ^ e \<and> bn_signed r' \<and> (bn_abs r' \<noteq> 0 \<longrightarrow> bn_neg r' = bn_neg a)) \<and>
    (heap_generous env \<longrightarrow> bn_expandable r \<longrightarrow> ok) \<and> (ok \<longrightarrow> 0 < e \<longrightarrow> bn_width r' \<le> n)"
  proof (cases "e = 0 \<or> bn_width a = 0")
    case True
    then have "ok" "r' = BN_zero r" using assms(1) by (auto simp: BN_mod_pow2_def)
    moreover have "bn_abs a mod 2 ^ e = 0" using True by (auto simp: bn_abs_def)
    ultimately show ?thesis using bn_zero_ok(1) [OF assms(2)] bn_zero_ok(2) [of r] by (simp add: BN_zero_def bn_signed_def)
  next
    case False
    then have e: "0 < e" by simp
    note U = assms(1) [unfolded BN_mod_pow2_def BN_BITS2_def if_not_P [OF False], folded n_def]
    show ?thesis
    proof (cases "bn_width a < n")
      case True
      then have c: "BN_copy env r a = (ok, r')" using U by (simp only: Let_def if_True)
      note C = BN_copy [OF c assms(2,3)]
      have "64 * bn_width a \<le> e" using True by (simp add: n_def)
      then have "(2 :: nat) ^ (64 * bn_width a) \<le> 2 ^ e" by (intro power_increasing) simp_all
      then have "bn_abs a < 2 ^ e" by (rule less_le_trans [OF bn_abs_lt [OF assms(3), unfolded radix_power]])
      then show ?thesis using C True BN_copy_succeeds [of env r a] assms(3,4) c by (auto simp: bn_signed_def)
    next
      case wide: False
      show ?thesis
      proof (cases "bn_wexpand env r n")
        case None
        have "n \<le> bn_max_words" using wide bn_okD(2,4) [OF assms(3)] by simp
        moreover have "ok = False" "r' = r" using U wide None by simp_all
        ultimately show ?thesis using assms(2) bn_wexpand_fails [OF None] by auto
      next
        case (Some r1)
        note W = bn_wexpand [OF Some assms(2)]
        define ws where "ws = take n (bn_d a)"
        have ws: "length ws = n" "wval ws = bn_abs a mod radix ^ n"
        proof -
          have l: "n \<le> bn_width a" "bn_width a \<le> length (bn_d a)" using wide bn_okD(3) [OF assms(3)] by simp_all
          then show "length ws = n" by (simp add: ws_def)
          have "ws = take n (take (bn_width a) (bn_d a))" using l by (simp add: ws_def min_def)
          then show "wval ws = bn_abs a mod radix ^ n" using l wval_take [of n "take (bn_width a) (bn_d a)"] by (simp add: bn_abs_def)
        qed
        define ms where "ms = (if e mod 64 \<noteq> 0 then ws[n - 1 := ws ! (n - 1) AND (push_bit (e mod 64) 1 - 1)] else ws)"
        have ms: "length ms = n" "wval ms = bn_abs a mod 2 ^ e"
        proof -
          show "length ms = n" by (simp add: ms_def ws)
          have "(2 :: nat) ^ e dvd radix ^ n"
            unfolding radix_power by (rule le_imp_power_dvd) (use e in \<open>simp add: n_def\<close>)
          then have "wval ws mod 2 ^ e = bn_abs a mod 2 ^ e" by (simp add: ws(2) mod_mod_cancel)
          then show "wval ms = bn_abs a mod 2 ^ e" using mask_top [OF e ws(1) [unfolded n_def]] unfolding ws(1) ms_def [symmetric] by simp
        qed
        have n0: "0 < n" "n \<le> length (bn_d r1)" using W(3) by (simp_all add: n_def)
        have b: "blit (bn_d r1) 0 ms =
          (let d = blit (bn_d r1) 0 ws in if e mod 64 \<noteq> 0 then d[n - 1 := d ! (n - 1) AND (push_bit (e mod 64) 1 - 1)] else d)"
          using n0 ws(1) by (simp add: ms_def blit_def list_update_append nth_append)
        define r2 where "r2 = r1\<lparr>bn_d := blit (bn_d r1) 0 ms, bn_neg := bn_neg a, bn_width := n\<rparr>"
        have r2': "r2 = r1\<lparr>bn_d := blit (bn_d r1) 0 ms, bn_width := n, bn_neg := bn_neg a\<rparr>" by (simp add: r2_def)
        have r: "ok" "r' = bn_set_minimal_width r2"
          using U wide Some by (simp_all add: r2_def b ws_def [symmetric] Let_def)
        have r2: "bn_ok r2" "bn_abs r2 = bn_abs a mod 2 ^ e" "bn_flags r2 = bn_flags r" "bn_neg r2 = bn_neg a" "bn_width r2 = n"
          using bn_written [OF W(1) ms(1) W(2), of "bn_neg a"] ms(2) W(6) by (simp_all add: r2')
        show ?thesis using bn_set_minimal_width [OF r2(1)] r2(2-5) r by simp
      qed
    qed
  qed
  then show "bn_ok r'" "bn_flags r' = bn_flags r" "ok \<Longrightarrow> bn_abs r' = bn_abs a mod 2 ^ e \<and> bn_signed r' \<and> (bn_abs r' \<noteq> 0 \<longrightarrow> bn_neg r' = bn_neg a)"
    "heap_generous env \<Longrightarrow> bn_expandable r \<Longrightarrow> ok" "ok \<Longrightarrow> 0 < e \<Longrightarrow> bn_width r' \<le> 1 + (e - 1) div 64" unfolding n_def by blast+
qed

text \<open>The complement of a number is the largest number of its width less the number.\<close>

lemma wval_not: "wval (map (\<lambda>x. NOT x) ws) + wval ws + 1 = radix ^ length ws"
proof (induction ws)
  case (Cons x ws)
  have "unat (NOT x) + unat x + 1 = radix"
  proof -
    have "NOT x = - 1 - x" by (simp add: not_eq_complement)
    then have "unat (NOT x) = unat (- 1 :: limb) - unat x" by (simp add: unat_sub word_order.extremum)
    moreover have "unat (- 1 :: limb) = radix - 1" using unat_uminus [of 1] by simp
    ultimately have "unat (NOT x) = radix - 1 - unat x" by simp
    then show ?thesis using limb_lt [of x] by linarith
  qed
  moreover have "radix * wval (map (\<lambda>x. NOT x) ws) + radix * wval ws + radix = radix * radix ^ length ws"
    using arg_cong [OF Cons.IH, of "(*) radix"] by (simp only: distrib_left mult_1_right)
  ultimately show ?case by simp
qed simp

lemma BN_nnmod_pow2:
  assumes "BN_nnmod_pow2 env r a e = (ok, r')" "bn_ok r" "bn_ok a" "bn_signed a"
  shows "bn_ok r'" "bn_flags r' = bn_flags r" "ok \<Longrightarrow> bn_val r' = bn_val a mod 2 ^ e"
    "heap_generous env \<Longrightarrow> bn_expandable r \<Longrightarrow> e + 64 \<le> 64 * bn_max_words \<Longrightarrow> ok"
proof -
  define gen where "gen \<longleftrightarrow> heap_generous env \<and> bn_expandable r \<and> e + 64 \<le> 64 * bn_max_words"
  obtain p r1 where m: "BN_mod_pow2 env r a e = (p, r1)" by fastforce
  note M = BN_mod_pow2 [OF m assms(2-4)]
  have z: "BN_is_zero r1 \<longleftrightarrow> bn_abs r1 = 0" by (rule BN_is_zero [OF M(1)])
  have E: "2 ^ e \<noteq> (0 :: nat)" "(2 :: int) ^ e = int (2 ^ e)" by simp_all
  have "bn_ok r' \<and> bn_flags r' = bn_flags r \<and> (ok \<longrightarrow> bn_val r' = bn_val a mod 2 ^ e) \<and> (gen \<longrightarrow> ok)"
  proof (cases "p \<and> bn_abs r1 \<noteq> 0 \<and> bn_neg r1")
    case False
    then have r: "ok = p" "r' = r1" using assms(1) m z by (auto simp: BN_nnmod_pow2_def split: if_splits)
    have "bn_val r1 = bn_val a mod 2 ^ e" if ok
    proof -
      have x: "bn_abs r1 = bn_abs a mod 2 ^ e" "bn_signed r1" "bn_abs r1 \<noteq> 0 \<longrightarrow> bn_neg r1 = bn_neg a" "\<not> bn_neg r1"
        using M(3) that r(1) False by (auto simp: bn_signed_def)
      show ?thesis unfolding E(2) bn_val_def [of a]
        using x by (intro mod_of_signed E(1)) (auto simp: bn_val_def)
    qed
    then show ?thesis using M r by (simp add: gen_def)
  next
    case True
    define n where "n = 1 + (e - 1) div 64"
    have x: "bn_abs r1 = bn_abs a mod 2 ^ e" "bn_neg a" "bn_abs a mod 2 ^ e \<noteq> 0" using M(3) True by auto
    then have e: "0 < e" by (cases e) simp_all
    have lt: "bn_abs r1 < 2 ^ e" by (simp add: x(1))
    have wm: "gen \<Longrightarrow> n < bn_max_words"
      using e by (simp add: gen_def n_def bn_max_words) (rule less_mult_imp_div_less, auto)
    have x1: "gen \<Longrightarrow> heap_generous env \<and> bn_expandable r1" using bn_expandable_flags [OF M(2)] by (simp add: gen_def)
    note U = assms(1) [unfolded BN_nnmod_pow2_def BN_BITS2_def, folded n_def]
    have wn: "bn_width r1 \<le> n" using M(5) True e by (simp add: n_def)
    show ?thesis
    proof (cases "bn_wexpand env r1 n")
      case None
      then have "ok = False" "r' = r1" using U m True z by simp_all
      moreover have "\<not> gen" using bn_wexpand_fails [OF None] wm x1 by force
      ultimately show ?thesis using M by simp
    next
      case (Some r2)
      note W = bn_wexpand [OF Some M(1)]
      define ext where "ext = blit (bn_d r2) (bn_width r2) (replicate (n - bn_width r2) 0)"
      have w2: "bn_width r2 \<le> n" "n \<le> length (bn_d r2)" using W(3,4) wn by simp_all
      have ext: "take n ext = take (bn_width r2) (bn_d r2) @ replicate (n - bn_width r2) 0" "length ext = length (bn_d r2)"
        using w2 by (simp_all add: ext_def blit_def)
      have ve: "wval (take n ext) = bn_abs r1" using W(8) by (simp add: ext(1) wval_append bn_abs_def)
      define ns where "ns = map (\<lambda>x. NOT x) (take n ext)"
      have ns: "length ns = n" using w2 ext(2) by (simp add: ns_def)
      have vn: "wval ns + bn_abs r1 + 1 = radix ^ n" using wval_not [of "take n ext"] ve ns by (simp add: ns_def)
      define ms where "ms = (if e mod 64 \<noteq> 0 then ns[n - 1 := ns ! (n - 1) AND (push_bit (e mod 64) 1 - 1)] else ns)"
      have ml: "length ms = n" using ns by (simp add: ms_def)
      have mv: "wval ms = 2 ^ e - 1 - bn_abs r1"
      proof -
        have "64 * n = e + (64 * n - e)" using e by (simp add: n_def)
        then obtain k where k: "64 * n = e + k" by blast
        have "radix ^ n = 2 ^ e * 2 ^ k" by (simp only: radix_power k power_add)
        then have "wval ns = 2 ^ e * (2 ^ k - 1) + (2 ^ e - 1 - bn_abs r1)"
          using vn lt by (simp add: diff_mult_distrib2)
        moreover have "2 ^ e - 1 - bn_abs r1 < 2 ^ e" using lt by simp
        ultimately have "wval ns mod 2 ^ e = 2 ^ e - 1 - bn_abs r1" by (simp only: mod_mult_self4 mod_less)
        then show ?thesis using mask_top [OF e ns [unfolded n_def]] unfolding ns ms_def [symmetric] by simp
      qed
      define r3 where "r3 = bn_set_minimal_width (r2\<lparr>bn_d := blit ext 0 ms, bn_width := n, bn_neg := False\<rparr>)"
      have b: "blit ext 0 ms = (let d = blit ext 0 ns in if e mod 64 \<noteq> 0 then d[n - 1 := d ! (n - 1) AND (push_bit (e mod 64) 1 - 1)] else d)"
        using ns w2 ext(2) by (simp add: ms_def blit_def list_update_append nth_append n_def)
      have bl: "blit ext 0 ms = blit (bn_d r2) 0 ms" using w2 ml by (simp add: blit_def ext_def)
      have r: "BN_add env r3 r3 BN_value_one = (ok, r')"
      proof -
        have c: "\<not> (BN_is_zero r1 \<or> \<not> bn_neg r1)" using True z by simp
        have r3: "bn_set_minimal_width (r2\<lparr>bn_d := blit ext 0 ms, bn_neg := False, bn_width := n\<rparr>) = r3"
          unfolding r3_def by (rule arg_cong [of _ _ bn_set_minimal_width]) simp
        show ?thesis
          using U True unfolding m prod.case Let_def if_not_P [OF c] Some option.case ext_def [symmetric] ns_def [symmetric]
            b [unfolded Let_def, symmetric] r3 by simp
      qed
      let ?r = "r2\<lparr>bn_d := blit (bn_d r2) 0 ms, bn_width := n, bn_neg := False\<rparr>"
      note w3 = bn_written [OF W(1) ml W(2), of False]
      note S = bn_set_minimal_width [OF w3(1)]
      have r3: "bn_ok r3" "bn_val r3 = int (2 ^ e - 1 - bn_abs r1)" "bn_signed r3" "bn_flags r3 = bn_flags r"
        using S w3(2) mv W(6) M(2) by (simp_all add: r3_def bl bn_val_def)
      have one: "bn_ok BN_value_one" "bn_val BN_value_one = 1" "bn_signed BN_value_one" by (rule bn_value_one_ok)+
      note A = BN_add(1) [OF r r3(1,1) one(1) r3(3) one(3), unfolded bn_result_def one(2)]
      have "bn_val r3 + 1 = bn_val a mod 2 ^ e"
      proof -
        have "bn_val r3 + 1 = int (2 ^ e) - int (bn_abs a mod 2 ^ e)" using r3(2) lt x(1) by (simp add: of_nat_diff)
        then show ?thesis unfolding E(2) bn_val_def [of a] using x(2,3) by (intro mod_of_signed E(1)) simp_all
      qed
      moreover have "bn_width r3 \<le> n" using S(10) by (simp add: r3_def bl)
      then have "gen \<Longrightarrow> ok"
        using BN_add(2) [OF r r3(1,1) one(1) r3(3) one(3)] wm x1 bn_expandable_flags [of r3 r1] r3(4) M(2)
        by (simp add: BN_value_one_def bn_max_words)
      ultimately show ?thesis using A r3(4) by simp
    qed
  qed
  then show "bn_ok r'" "bn_flags r' = bn_flags r" "ok \<Longrightarrow> bn_val r' = bn_val a mod 2 ^ e"
    "heap_generous env \<Longrightarrow> bn_expandable r \<Longrightarrow> e + 64 \<le> 64 * bn_max_words \<Longrightarrow> ok" unfolding gen_def by blast+
qed

end
