(* ===== verification/BN_Alias.thy ===== *)
theory BN_Alias
  imports BN_Arith Checked
begin

text \<open>
  \<open>crypto/fipsmodule/bn/add.c\<close> on numbers that may be the same object.  A store holds the numbers;
  \<open>r\<close>, \<open>a\<close> and \<open>b\<close> are names in it, which may be equal, as the pointers of the C functions may.
  Every limb is read from the store at the moment at which the code reads it, and written at once.
  The lemmas show that each function does to its output what the function on values of \<open>BN_Arith\<close>
  gives, and nothing to any other number; an access outside of an array would be \<open>None\<close>.
\<close>

type_synonym bn_store = "nat \<Rightarrow> bignum"

definition d_get :: "bn_store \<Rightarrow> nat \<Rightarrow> nat \<Rightarrow> limb option" where
  "d_get s x i = limb_at (bn_d (s x)) i"

definition d_put :: "bn_store \<Rightarrow> nat \<Rightarrow> nat \<Rightarrow> limb \<Rightarrow> bn_store option" where
  "d_put s x i v = map_option (\<lambda>d. s(x := (s x)\<lparr>bn_d := d\<rparr>)) (limb_put (bn_d (s x)) i v)"

section \<open>Word routines\<close>

text \<open>The code unrolls both loops by four; the unrolled steps are these steps in this order.\<close>

definition bn_add_words_in :: "nat \<Rightarrow> nat \<Rightarrow> nat \<Rightarrow> nat \<Rightarrow> bn_store \<Rightarrow> (bn_store \<times> limb) option" where
  "bn_add_words_in r a b n s =
     (if n = 0 then Some (s, 0)
      else do {
        (s, ll) \<leftarrow> for_range 0 n (\<lambda>i (s, ll :: u128). do {
          x \<leftarrow> d_get s a i;
          y \<leftarrow> d_get s b i;
          let ll = ll + (wide x + wide y);
          s \<leftarrow> d_put s r i (Lw ll);
          Some (s, drop_bit 64 ll)
        }) (s, 0);
        Some (s, Lw ll)
      })"

definition bn_sub_words_in :: "nat \<Rightarrow> nat \<Rightarrow> nat \<Rightarrow> nat \<Rightarrow> bn_store \<Rightarrow> (bn_store \<times> limb) option" where
  "bn_sub_words_in r a b n s =
     (if n = 0 then Some (s, 0)
      else for_range 0 n (\<lambda>i (s, c). do {
        t1 \<leftarrow> d_get s a i;
        t2 \<leftarrow> d_get s b i;
        s \<leftarrow> d_put s r i (t1 - t2 - c);
        Some (s, if t1 \<noteq> t2 then (if t1 < t2 then 1 else 0) else c)
      }) (s, 0))"

section \<open>Magnitudes\<close>

definition bn_uadd_consttime_in :: "heap_env \<Rightarrow> nat \<Rightarrow> nat \<Rightarrow> nat \<Rightarrow> bn_store \<Rightarrow> (bool \<times> bn_store) option" where
  "bn_uadd_consttime_in e r a b s =
     (let (a, b) = (if bn_width (s a) < bn_width (s b) then (b, a) else (a, b));
          mx = bn_width (s a); mn = bn_width (s b)
      in case bn_wexpand e (s r) (mx + 1) of
           None \<Rightarrow> Some (False, s)
         | Some r1 \<Rightarrow> do {
             let s = s(r := r1\<lparr>bn_width := mx + 1\<rparr>);
             (s, carry) \<leftarrow> bn_add_words_in r a b mn s;
             (s, carry) \<leftarrow> for_range mn mx (\<lambda>i (s, carry). do {
               x \<leftarrow> d_get s a i;
               let tmp = carry + x;
               x \<leftarrow> d_get s a i;
               let carry = (if tmp < x then 1 else 0);
               s \<leftarrow> d_put s r i tmp;
               Some (s, carry)
             }) (s, carry);
             s \<leftarrow> d_put s r mx carry;
             Some (True, s)
           })"

definition BN_uadd_in :: "heap_env \<Rightarrow> nat \<Rightarrow> nat \<Rightarrow> nat \<Rightarrow> bn_store \<Rightarrow> (bool \<times> bn_store) option" where
  "BN_uadd_in e r a b s = do {
     (ok, s) \<leftarrow> bn_uadd_consttime_in e r a b s;
     if \<not> ok then Some (False, s) else Some (True, s(r := bn_set_minimal_width (s r)))
   }"

definition bn_usub_consttime_in :: "heap_env \<Rightarrow> nat \<Rightarrow> nat \<Rightarrow> nat \<Rightarrow> bn_store \<Rightarrow> (bool \<times> bn_store) option" where
  "bn_usub_consttime_in e r a b s =
     (let b_width = bn_width (s b)
      in if b_width > bn_width (s a) \<and> \<not> bn_fits_in_words (s b) (bn_width (s a)) then Some (False, s)
         else
           (let b_width = (if b_width > bn_width (s a) then bn_width (s a) else b_width)
            in case bn_wexpand e (s r) (bn_width (s a)) of
                 None \<Rightarrow> Some (False, s)
               | Some r1 \<Rightarrow> do {
                   let s = s(r := r1);
                   (s, borrow) \<leftarrow> bn_sub_words_in r a b b_width s;
                   (s, borrow) \<leftarrow> for_range b_width (bn_width (s a)) (\<lambda>i (s, borrow). do {
                     tmp \<leftarrow> d_get s a i;
                     x \<leftarrow> d_get s a i;
                     s \<leftarrow> d_put s r i (x - borrow);
                     y \<leftarrow> d_get s r i;
                     Some (s, if tmp < y then 1 else 0)
                   }) (s, borrow);
                   if borrow \<noteq> 0 then Some (False, s)
                   else Some (True, s(r := (s r)\<lparr>bn_width := bn_width (s a), bn_neg := False\<rparr>))
                 }))"

definition BN_usub_in :: "heap_env \<Rightarrow> nat \<Rightarrow> nat \<Rightarrow> nat \<Rightarrow> bn_store \<Rightarrow> (bool \<times> bn_store) option" where
  "BN_usub_in e r a b s = do {
     (ok, s) \<leftarrow> bn_usub_consttime_in e r a b s;
     if \<not> ok then Some (False, s) else Some (True, s(r := bn_set_minimal_width (s r)))
   }"

section \<open>Signed numbers\<close>

definition set_neg :: "nat \<Rightarrow> bool \<Rightarrow> bn_store \<Rightarrow> bn_store" where
  "set_neg r neg s = s(r := (s r)\<lparr>bn_neg := neg\<rparr>)"

definition BN_add_in :: "heap_env \<Rightarrow> nat \<Rightarrow> nat \<Rightarrow> nat \<Rightarrow> bn_store \<Rightarrow> (bool \<times> bn_store) option" where
  "BN_add_in e r a b s =
     (let a_neg = bn_neg (s a)
      in if a_neg \<noteq> bn_neg (s b) then
           (let (a, b) = (if a_neg then (b, a) else (a, b))
            in if BN_ucmp (s a) (s b) < 0 then do {
                 (ok, s) \<leftarrow> BN_usub_in e r b a s;
                 if \<not> ok then Some (False, s) else Some (True, set_neg r True s)
               } else do {
                 (ok, s) \<leftarrow> BN_usub_in e r a b s;
                 if \<not> ok then Some (False, s) else Some (True, set_neg r False s)
               })
         else do {
           (ret, s) \<leftarrow> BN_uadd_in e r a b s;
           Some (ret, set_neg r a_neg s)
         })"

definition BN_sub_in :: "heap_env \<Rightarrow> nat \<Rightarrow> nat \<Rightarrow> nat \<Rightarrow> bn_store \<Rightarrow> (bool \<times> bn_store) option" where
  "BN_sub_in e r a b s =
     (let (a, b, add, neg) =
            (if bn_neg (s a) then (if bn_neg (s b) then (b, a, False, False) else (a, b, True, True))
             else if bn_neg (s b) then (a, b, True, False) else (a, b, False, False))
      in if add then do {
           (ok, s) \<leftarrow> BN_uadd_in e r a b s;
           if \<not> ok then Some (False, s) else Some (True, set_neg r neg s)
         }
         else if BN_ucmp (s a) (s b) < 0 then do {
           (ok, s) \<leftarrow> BN_usub_in e r b a s;
           if \<not> ok then Some (False, s) else Some (True, set_neg r True s)
         }
         else do {
           (ok, s) \<leftarrow> BN_usub_in e r a b s;
           if \<not> ok then Some (False, s) else Some (True, set_neg r False s)
         })"

section \<open>In-place loops\<close>

text \<open>The loop on values: the limbs written, and the last carry.\<close>

definition values_loop :: "(limb \<Rightarrow> limb \<Rightarrow> 'c \<Rightarrow> limb \<times> 'c) \<Rightarrow> limbs \<Rightarrow> limbs \<Rightarrow> nat \<Rightarrow> nat \<Rightarrow> 'c \<Rightarrow> limbs \<times> 'c" where
  "values_loop f xs ys lo hi c =
     fold (\<lambda>i (out, c). case f (xs ! i) (ys ! i) c of (x, c') \<Rightarrow> (out @ [x], c')) [lo..<hi] ([], c)"

lemma limb_loop_fold:
  "limb_loop (\<lambda>i c. f (xs ! i) (ys ! i) c) n c0 = values_loop f xs ys 0 n c0"
proof -
  define g where "g = (\<lambda>i (out, c). case f (xs ! i) (ys ! i) c of (x, c') \<Rightarrow> (out @ [x], c'))"
  obtain out c where l: "limb_loop (\<lambda>i c. f (xs ! i) (ys ! i) c) n c0 = (out, c)" by fastforce
  have "fold g [0..<n] ([], c0) = (out, c) \<and> length out = n"
    by (rule limb_loop_invariant [of "\<lambda>i c. f (xs ! i) (ys ! i) c" n c0 out c "\<lambda>i out c. fold g [0..<i] ([], c0) = (out, c)", OF l])
      (simp_all add: g_def)
  with l show ?thesis by (simp add: g_def values_loop_def)
qed

definition written :: "bn_store \<Rightarrow> nat \<Rightarrow> limbs \<Rightarrow> bn_store" where
  "written s r ws = s(r := (s r)\<lparr>bn_d := blit (bn_d (s r)) 0 ws\<rparr>)"

lemma written_nil [simp]: "written s r [] = s"
  by (simp add: written_def)

lemma written_put:
  assumes "length ws = i" "i < length (bn_d (s r))"
  shows "d_put (written s r ws) r i x = Some (written s r (ws @ [x]))"
proof -
  have "(blit (bn_d (s r)) 0 ws)[i := x] = blit (bn_d (s r)) 0 (ws @ [x])"
    using assms by (simp add: blit_def list_update_append upd_conv_take_nth_drop Cons_nth_drop_Suc [symmetric])
  with assms show ?thesis by (simp add: d_put_def limb_put_def written_def blit_def)
qed

text \<open>A limb is read before the loop has come to write there, also when the array is that of the output.\<close>

lemma written_get:
  assumes "length ws \<le> i" "i < length (bn_d (s x))" "length ws \<le> length (bn_d (s r))"
  shows "d_get (written s r ws) x i = Some (bn_d (s x) ! i)"
  using assms by (auto simp: d_get_def limb_at_def written_def blit_def nth_append)

lemma written_last:
  assumes "i < length (bn_d (s r))" "length ws = i"
  shows "d_get (written s r (ws @ [x])) r i = Some x"
  using assms by (auto simp: d_get_def limb_at_def written_def blit_def nth_append)

lemma in_place:
  assumes step: "\<And>i ws c. lo \<le> i \<Longrightarrow> i < hi \<Longrightarrow> length ws = i \<Longrightarrow>
      body i (written s r ws, c) = (case f (xs ! i) (ys ! i) c of (x, c') \<Rightarrow> Some (written s r (ws @ [x]), c'))"
    and "values_loop f xs ys lo hi c0 = (out, c)" "length pre = lo" "lo \<le> hi"
  shows "for_range lo hi body (written s r pre, c0) = Some (written s r (pre @ out), c)"
proof -
  have "length out = hi - lo \<and> for_range lo hi body (written s r pre, c0) = Some (written s r (pre @ out), c)"
    if "lo \<le> hi" "values_loop f xs ys lo hi c0 = (out, c)"
      "\<And>i ws c. lo \<le> i \<Longrightarrow> i < hi \<Longrightarrow> length ws = i \<Longrightarrow>
         body i (written s r ws, c) = (case f (xs ! i) (ys ! i) c of (x, c') \<Rightarrow> Some (written s r (ws @ [x]), c'))" for out c
    using that
  proof (induction hi arbitrary: out c)
    case (Suc h)
    show ?case
    proof (cases "lo \<le> h")
      case True
      obtain o1 c1 where v: "values_loop f xs ys lo h c0 = (o1, c1)" by fastforce
      obtain x c2 where x: "f (xs ! h) (ys ! h) c1 = (x, c2)" by fastforce
      have e: "out = o1 @ [x]" "c = c2" using Suc.prems(2) v x True by (simp_all add: values_loop_def)
      have IH: "length o1 = h - lo" "for_range lo h body (written s r pre, c0) = Some (written s r (pre @ o1), c1)"
        using Suc.IH [OF True v] Suc.prems(3) by simp_all
      have l: "length (pre @ o1) = h" using IH(1) True assms(3) by simp
      have "for_range lo (Suc h) body (written s r pre, c0) = Some (written s r ((pre @ o1) @ [x]), c2)"
        unfolding for_range_Suc [OF True] IH(2) bind.bind_lunit Suc.prems(3) [OF True lessI l] x prod.case by (rule refl)
      then show ?thesis using IH(1) True by (simp add: e Suc_diff_le)
    next
      case False
      then have "lo = Suc h" using Suc.prems(1) by simp
      with Suc.prems(2) show ?thesis by (simp add: values_loop_def)
    qed
  qed (simp add: values_loop_def)
  with assms(2,4) step show ?thesis by blast
qed

section \<open>Refinement\<close>

text \<open>The array of \<open>x\<close> starts with \<open>n\<close> limbs that are those of \<open>xs\<close>.\<close>

definition holds :: "bn_store \<Rightarrow> nat \<Rightarrow> nat \<Rightarrow> limbs \<Rightarrow> bool" where
  "holds s x n xs \<longleftrightarrow> n \<le> length (bn_d (s x)) \<and> (\<forall>i<n. bn_d (s x) ! i = xs ! i)"

lemma holds_get:
  assumes "holds s x n xs" "i < n" "length ws \<le> i" "length ws \<le> length (bn_d (s r))"
  shows "d_get (written s r ws) x i = Some (xs ! i)"
  using written_get [of ws i s x r] assms by (simp add: holds_def)

lemma bn_add_words_in:
  assumes "holds s a n xs" "holds s b n ys" "n \<le> length (bn_d (s r))" "bn_add_words xs ys n = (ws, c)"
  shows "bn_add_words_in r a b n s = Some (written s r ws, c)"
proof (cases "n = 0")
  case True
  with assms(4) show ?thesis by (simp add: bn_add_words_in_def bn_add_words_def)
next
  case False
  define f where "f = (\<lambda>x y ll. let ll = ll + (wide x + wide y) in (Lw ll, drop_bit 64 ll))"
  obtain out ll where v: "values_loop f xs ys 0 n 0 = (out, ll)" by fastforce
  have e: "ws = out" "c = Lw ll"
    using assms(4) False v limb_loop_fold [of f xs ys n 0] by (simp_all add: bn_add_words_def f_def)
  have "for_range 0 n (\<lambda>i (s, ll :: u128). do {
          x \<leftarrow> d_get s a i; y \<leftarrow> d_get s b i;
          let ll = ll + (wide x + wide y);
          s \<leftarrow> d_put s r i (Lw ll);
          Some (s, drop_bit 64 ll)
        }) (written s r [], 0) = Some (written s r ([] @ out), ll)"
  proof (rule in_place [OF _ v])
    fix i and ws :: limbs and c :: u128 assume i: "i < n" "length ws = i"
    have l: "length ws \<le> i" "length ws \<le> length (bn_d (s r))" "i < length (bn_d (s r))" using i assms(3) by simp_all
    show "(case (written s r ws, c) of (s, ll) \<Rightarrow> do {
          x \<leftarrow> d_get s a i; y \<leftarrow> d_get s b i;
          let ll = ll + (wide x + wide y);
          s \<leftarrow> d_put s r i (Lw ll);
          Some (s, drop_bit 64 ll)
        }) = (case f (xs ! i) (ys ! i) c of (x, c') \<Rightarrow> Some (written s r (ws @ [x]), c'))"
      by (simp add: holds_get [of s a _ xs i ws r, OF assms(1) i(1) l(1,2)] holds_get [of s b _ ys i ws r, OF assms(2) i(1) l(1,2)] written_put [of ws i s r, OF i(2) l(3)] f_def Let_def)
  qed simp_all
  with False show ?thesis by (simp add: bn_add_words_in_def e)
qed

lemma bn_sub_words_in:
  assumes "holds s a n xs" "holds s b n ys" "n \<le> length (bn_d (s r))" "bn_sub_words xs ys n = (ws, c)"
  shows "bn_sub_words_in r a b n s = Some (written s r ws, c)"
proof (cases "n = 0")
  case True
  with assms(4) show ?thesis by (simp add: bn_sub_words_in_def bn_sub_words_def)
next
  case False
  define f where "f = (\<lambda>x y (c :: limb). (x - y - c, if x \<noteq> y then (if x < y then 1 else 0) else c))"
  have v: "values_loop f xs ys 0 n 0 = (ws, c)"
    using assms(4) False limb_loop_fold [of f xs ys n 0] by (simp add: bn_sub_words_def f_def Let_def)
  have "for_range 0 n (\<lambda>i (s, c). do {
        t1 \<leftarrow> d_get s a i; t2 \<leftarrow> d_get s b i;
        s \<leftarrow> d_put s r i (t1 - t2 - c);
        Some (s, if t1 \<noteq> t2 then (if t1 < t2 then 1 else 0) else c)
      }) (written s r [], 0) = Some (written s r ([] @ ws), c)"
  proof (rule in_place [OF _ v])
    fix i and ws :: limbs and c :: limb assume i: "i < n" "length ws = i"
    have l: "length ws \<le> i" "length ws \<le> length (bn_d (s r))" "i < length (bn_d (s r))" using i assms(3) by simp_all
    show "(case (written s r ws, c) of (s, c) \<Rightarrow> do {
        t1 \<leftarrow> d_get s a i; t2 \<leftarrow> d_get s b i;
        s \<leftarrow> d_put s r i (t1 - t2 - c);
        Some (s, if t1 \<noteq> t2 then (if t1 < t2 then 1 else 0) else c)
      }) = (case f (xs ! i) (ys ! i) c of (x, c') \<Rightarrow> Some (written s r (ws @ [x]), c'))"
      by (simp add: holds_get [of s a _ xs i ws r, OF assms(1) i(1) l(1,2)] holds_get [of s b _ ys i ws r, OF assms(2) i(1) l(1,2)] written_put [of ws i s r, OF i(2) l(3)] f_def)
  qed simp_all
  with False show ?thesis by (simp add: bn_sub_words_in_def)
qed

text \<open>The loops above the common width; \<open>ws\<close> is what has been written below it.\<close>

lemma uadd_high_in:
  assumes "holds s a hi xs" "hi \<le> length (bn_d (s r))" "lo \<le> hi" "length ws = lo"
    and "fold (\<lambda>i (out, carry). let tmp = carry + xs ! i in (out @ [tmp], if tmp < xs ! i then 1 else 0)) [lo..<hi] ([], c0) = (out, c)"
  shows "for_range lo hi (\<lambda>i (s, carry). do {
      x \<leftarrow> d_get s a i; let tmp = carry + x;
      x \<leftarrow> d_get s a i; let carry = (if tmp < x then 1 else 0);
      s \<leftarrow> d_put s r i tmp;
      Some (s, carry)
    }) (written s r ws, c0) = Some (written s r (ws @ out), c)"
proof -
  define f where "f = (\<lambda>(x :: limb) (_ :: limb) c. let tmp = c + x in (tmp, if tmp < x then 1 else (0 :: limb)))"
  have v: "values_loop f xs xs lo hi c0 = (out, c)" using assms(5) by (simp add: values_loop_def f_def Let_def)
  show ?thesis
  proof (rule in_place [OF _ v assms(4,3)])
    fix i and ws :: limbs and c :: limb assume i: "i < hi" "length ws = i"
    have l: "length ws \<le> i" "length ws \<le> length (bn_d (s r))" "i < length (bn_d (s r))" using i assms(2) by simp_all
    show "(case (written s r ws, c) of (s, carry) \<Rightarrow> do {
      x \<leftarrow> d_get s a i; let tmp = carry + x;
      x \<leftarrow> d_get s a i; let carry = (if tmp < x then 1 else 0);
      s \<leftarrow> d_put s r i tmp;
      Some (s, carry)
    }) = (case f (xs ! i) (xs ! i) c of (x, c') \<Rightarrow> Some (written s r (ws @ [x]), c'))"
      by (simp add: holds_get [of s a _ xs i ws r, OF assms(1) i(1) l(1,2)] written_put [of ws i s r, OF i(2) l(3)] f_def Let_def)
  qed
qed

lemma usub_high_in:
  assumes "holds s a hi xs" "hi \<le> length (bn_d (s r))" "lo \<le> hi" "length ws = lo"
    and "fold (\<lambda>i (out, borrow). let tmp = xs ! i; x = tmp - borrow in (out @ [x], if tmp < x then 1 else 0)) [lo..<hi] ([], c0) = (out, c)"
  shows "for_range lo hi (\<lambda>i (s, borrow). do {
      tmp \<leftarrow> d_get s a i; x \<leftarrow> d_get s a i;
      s \<leftarrow> d_put s r i (x - borrow);
      y \<leftarrow> d_get s r i;
      Some (s, if tmp < y then 1 else 0)
    }) (written s r ws, c0) = Some (written s r (ws @ out), c)"
proof -
  define f where "f = (\<lambda>(x :: limb) (_ :: limb) c. (x - c, if x < x - c then 1 else (0 :: limb)))"
  have v: "values_loop f xs xs lo hi c0 = (out, c)" using assms(5) by (simp add: values_loop_def f_def Let_def)
  show ?thesis
  proof (rule in_place [OF _ v assms(4,3)])
    fix i and ws :: limbs and c :: limb assume i: "i < hi" "length ws = i"
    have l: "length ws \<le> i" "length ws \<le> length (bn_d (s r))" "i < length (bn_d (s r))" using i assms(2) by simp_all
    show "(case (written s r ws, c) of (s, borrow) \<Rightarrow> do {
      tmp \<leftarrow> d_get s a i; x \<leftarrow> d_get s a i;
      s \<leftarrow> d_put s r i (x - borrow);
      y \<leftarrow> d_get s r i;
      Some (s, if tmp < y then 1 else 0)
    }) = (case f (xs ! i) (xs ! i) c of (x, c') \<Rightarrow> Some (written s r (ws @ [x]), c'))"
      by (simp add: holds_get [of s a _ xs i ws r, OF assms(1) i(1) l(1,2)] written_put [of ws i s r, OF i(2) l(3)] written_last [of i s r ws, OF l(3) i(2)] f_def)
  qed
qed

text \<open>
  A store version refines a value version: it ends in the store with the output replaced by the
  result of the value version, which gets the numbers of the store.
\<close>

definition refines :: "(bool \<times> bn_store) option \<Rightarrow> nat \<Rightarrow> bn_store \<Rightarrow> bool \<times> bignum \<Rightarrow> bool" where
  "refines m r s v \<longleftrightarrow> m = Some (fst v, s(r := snd v))"

lemma holds_expanded:
  assumes "bn_wexpand e (s r) m = Some r1" "bn_ok (s r)" "bn_ok (s x)" "n \<le> bn_width (s x)"
  shows "holds (s(r := r1\<lparr>bn_width := k\<rparr>)) x n (bn_d (s x))"
proof (cases "x = r")
  case True
  note W = bn_wexpand [of e "s r", OF assms(1,2)]
  have l: "n \<le> length (bn_d r1)" using bn_okD(3) [OF W(1)] W(4) assms(4) True by simp
  have "bn_d r1 ! i = bn_d (s r) ! i" if "i < n" for i
    using that W(7) assms(4) True by (metis nth_take less_le_trans)
  with l True show ?thesis by (simp add: holds_def)
next
  case False
  then show ?thesis using bn_okD(3) [of "s x", OF assms(3)] assms(4) by (simp add: holds_def)
qed

lemma bn_uadd_consttime_in:
  assumes "bn_ok (s r)" "bn_ok (s a)" "bn_ok (s b)"
  shows "refines (bn_uadd_consttime_in e r a b s) r s (bn_uadd_consttime e (s r) (s a) (s b))"
proof -
  define x y where "x = (if bn_width (s a) < bn_width (s b) then b else a)" and "y = (if bn_width (s a) < bn_width (s b) then a else b)"
  have xy: "bn_ok (s x)" "bn_ok (s y)" "bn_width (s y) \<le> bn_width (s x)" using assms by (auto simp: x_def y_def)
  have p: "(if bn_width (s a) < bn_width (s b) then (b, a) else (a, b)) = (x, y)"
    "(if bn_width (s a) < bn_width (s b) then (s b, s a) else (s a, s b)) = (s x, s y)" by (simp_all add: x_def y_def)
  define mx mn where "mx = bn_width (s x)" and "mn = bn_width (s y)"
  show ?thesis
  proof (cases "bn_wexpand e (s r) (mx + 1)")
    case None
    then show ?thesis by (simp add: refines_def bn_uadd_consttime_in_def bn_uadd_consttime_def Let_def p flip: mx_def)
  next
    case (Some r1)
    note W = bn_wexpand [of e "s r", OF Some assms(1)]
    define s1 where "s1 = s(r := r1\<lparr>bn_width := mx + 1\<rparr>)"
    have h: "holds s1 x mx (bn_d (s x))" "holds s1 x mn (bn_d (s x))" "holds s1 y mn (bn_d (s y))"
      using holds_expanded [of e s r, OF Some assms(1)] xy by (simp_all add: s1_def mx_def mn_def)
    have l: "mx + 1 \<le> length (bn_d (s1 r))" "mn \<le> mx" using W(3) xy(3) by (simp_all add: s1_def mx_def mn_def)
    obtain lo c where lo: "bn_add_words (bn_d (s x)) (bn_d (s y)) mn = (lo, c)" by fastforce
    obtain hi c' where hi: "fold (\<lambda>i (out, carry). let tmp = carry + bn_d (s x) ! i
        in (out @ [tmp], if tmp < bn_d (s x) ! i then 1 else 0)) [mn..<mx] ([], c) = (hi, c')" by fastforce
    have wd: "mn \<le> length (bn_d (s x))" "mn \<le> length (bn_d (s y))" "mx \<le> length (bn_d (s x))"
      using bn_okD(3) [of "s x", OF xy(1)] bn_okD(3) [of "s y", OF xy(2)] l(2) by (simp_all add: mx_def mn_def)
    note L = bn_add_words [OF lo wd(1,2)]
    have lh: "length (lo @ hi) = mx" using L(1) uadd_high(1) [OF hi l(2) wd(3) L(3)] l(2) by simp
    have r1: "mn \<le> length (bn_d (s1 r))" "mx \<le> length (bn_d (s1 r))" "mx < length (bn_d (s1 r))" using l by simp_all
    have eq: "bn_uadd_consttime_in e r a b s = Some (True, written s1 r ((lo @ hi) @ [c']))"
      unfolding bn_uadd_consttime_in_def p Let_def prod.case mx_def [symmetric] mn_def [symmetric] Some option.case s1_def [symmetric]
        bn_add_words_in [OF h(2,3) r1(1) lo] bind.bind_lunit uadd_high_in [OF h(1) r1(2) l(2) L(1) hi, unfolded Let_def]
        written_put [of "lo @ hi" mx s1 r, OF lh r1(3)] by (rule refl)
    have "bn_uadd_consttime e (s r) (s a) (s b) =
        (True, (r1\<lparr>bn_width := mx + 1\<rparr>)\<lparr>bn_d := blit (bn_d (r1\<lparr>bn_width := mx + 1\<rparr>)) 0 (lo @ hi @ [c'])\<rparr>)"
      unfolding bn_uadd_consttime_def p Let_def prod.case mx_def [symmetric] mn_def [symmetric] Some option.case lo hi [unfolded Let_def]
      by (rule refl)
    with eq show ?thesis by (simp add: refines_def s1_def written_def)
  qed
qed

lemma bn_usub_consttime_in:
  assumes "bn_ok (s r)" "bn_ok (s a)" "bn_ok (s b)"
  shows "refines (bn_usub_consttime_in e r a b s) r s (bn_usub_consttime e (s r) (s a) (s b))"
proof (cases "bn_width (s b) > bn_width (s a) \<and> \<not> bn_fits_in_words (s b) (bn_width (s a))")
  case True
  then show ?thesis by (simp add: refines_def bn_usub_consttime_in_def bn_usub_consttime_def)
next
  case fits: False
  define mx mn where "mx = bn_width (s a)" and "mn = (if bn_width (s b) > mx then mx else bn_width (s b))"
  have mn: "mn \<le> mx" "mn \<le> bn_width (s b)" by (simp_all add: mn_def)
  have f: "(mx < bn_width (s b) \<and> \<not> bn_fits_in_words (s b) mx) = False" using fits by (simp add: mx_def)
  show ?thesis
  proof (cases "bn_wexpand e (s r) mx")
    case None
    with f show ?thesis by (simp add: refines_def bn_usub_consttime_in_def bn_usub_consttime_def Let_def flip: mx_def)
  next
    case (Some r1)
    note W = bn_wexpand [of e "s r", OF Some assms(1)]
    define s1 where "s1 = s(r := r1)"
    have r1: "s1 = s(r := r1\<lparr>bn_width := bn_width r1\<rparr>)" by (simp add: s1_def)
    have ha: "holds s1 a n (bn_d (s a))" if "n \<le> mx" for n
      unfolding r1 by (rule holds_expanded [OF Some assms(1,2)]) (use that in \<open>simp add: mx_def\<close>)
    have hb: "holds s1 b mn (bn_d (s b))" unfolding r1 by (rule holds_expanded [OF Some assms(1,3) mn(2)])
    have h: "holds s1 a mx (bn_d (s a))" "holds s1 a mn (bn_d (s a))" "holds s1 b mn (bn_d (s b))"
      using ha hb mn(1) by simp_all
    have l: "mx \<le> length (bn_d (s1 r))" "mn \<le> length (bn_d (s1 r))" using W(3) mn by (simp_all add: s1_def)
    obtain lo c where lo: "bn_sub_words (bn_d (s a)) (bn_d (s b)) mn = (lo, c)" by fastforce
    obtain hi c' where hi: "fold (\<lambda>i (out, borrow). let tmp = bn_d (s a) ! i; x = tmp - borrow
        in (out @ [x], if tmp < x then 1 else 0)) [mn..<mx] ([], c) = (hi, c')" by fastforce
    have wd: "mn \<le> length (bn_d (s a))" "mn \<le> length (bn_d (s b))"
      using bn_okD(3) [of "s a", OF assms(2)] bn_okD(3) [of "s b", OF assms(3)] mn by (simp_all add: mx_def)
    note L = bn_sub_words [OF lo wd]
    have wa: "bn_width (s1 a) = mx" "bn_width (written s1 r ws a) = mx" for ws
      using W(4) by (simp_all add: s1_def mx_def written_def)
    define s2 where "s2 = written s1 r (lo @ hi)"
    have eq: "bn_usub_consttime_in e r a b s =
      (if c' \<noteq> 0 then Some (False, s2) else Some (True, s2(r := (s2 r)\<lparr>bn_width := mx, bn_neg := False\<rparr>)))"
      unfolding bn_usub_consttime_in_def Let_def mx_def [symmetric] f if_False mn_def [symmetric] Some option.case s1_def [symmetric]
        bn_sub_words_in [OF h(2,3) l(2) lo] bind.bind_lunit prod.case wa
        usub_high_in [OF h(1) l(1) mn(1) L(1) hi, unfolded Let_def] s2_def [symmetric] wa(2) [of "lo @ hi", folded s2_def] by (rule refl)
    have "bn_usub_consttime e (s r) (s a) (s b) =
        (let r = r1\<lparr>bn_d := blit (bn_d r1) 0 (lo @ hi)\<rparr>
         in if c' \<noteq> 0 then (False, r) else (True, r\<lparr>bn_width := mx, bn_neg := False\<rparr>))"
      unfolding bn_usub_consttime_def Let_def mx_def [symmetric] f if_False mn_def [symmetric] Some option.case prod.case lo hi [unfolded Let_def]
      by (rule refl)
    with eq show ?thesis by (simp add: refines_def s1_def s2_def written_def Let_def)
  qed
qed

lemma BN_uadd_in:
  assumes "bn_ok (s r)" "bn_ok (s a)" "bn_ok (s b)"
  shows "refines (BN_uadd_in e r a b s) r s (BN_uadd e (s r) (s a) (s b))"
  using bn_uadd_consttime_in [of s r a b e, OF assms]
  by (auto simp: refines_def BN_uadd_in_def BN_uadd_def split: prod.splits)

lemma BN_usub_in:
  assumes "bn_ok (s r)" "bn_ok (s a)" "bn_ok (s b)"
  shows "refines (BN_usub_in e r a b s) r s (BN_usub e (s r) (s a) (s b))"
  using bn_usub_consttime_in [of s r a b e, OF assms]
  by (auto simp: refines_def BN_usub_in_def BN_usub_def split: prod.splits)

lemma BN_add_in:
  assumes "bn_ok (s r)" "bn_ok (s a)" "bn_ok (s b)"
  shows "refines (BN_add_in e r a b s) r s (BN_add e (s r) (s a) (s b))"
  using BN_uadd_in [of s r a b e, OF assms] BN_usub_in [of s r a b e, OF assms] BN_usub_in [of s r b a e, OF assms(1,3,2)]
  by (auto simp: refines_def BN_add_in_def BN_add_def set_neg_def Let_def split: prod.splits)

lemma BN_sub_in:
  assumes "bn_ok (s r)" "bn_ok (s a)" "bn_ok (s b)"
  shows "refines (BN_sub_in e r a b s) r s (BN_sub e (s r) (s a) (s b))"
  using BN_uadd_in [of s r a b e, OF assms] BN_usub_in [of s r a b e, OF assms] BN_usub_in [of s r b a e, OF assms(1,3,2)]
  by (auto simp: refines_def BN_sub_in_def BN_sub_def set_neg_def Let_def split: prod.splits)

end
