(* ===== verification/Stack.thy ===== *)
theory Stack
  imports CLib
begin

text \<open>
  The stacks of pointers of \<open>crypto/stack/stack.c\<close>.  A pointer is \<open>'p option\<close>, with \<open>None\<close> for
  NULL; a comparison function is the number of a function pointer, which the parameter \<open>fp\<close>
  maps to what it computes.  A stack argument may be NULL as well.  The pointers in fresh
  memory are the field \<open>fresh_ptr\<close> of the heap.

  The elements refine a list; the flag \<open>sorted\<close> promises that they are ordered, and
  \<open>sk_set\<close> can break the promise.
\<close>

section \<open>Operations\<close>

record 'p ptr_heap = heap_env +
  fresh_ptr :: "nat \<Rightarrow> 'p option"

record 'p stk =
  st_num :: nat
  st_data :: "'p option list"
  st_sorted :: bool
  st_num_alloc :: nat
  st_comp :: "nat option"

type_synonym 'p comparisons = "nat \<Rightarrow> 'p option \<Rightarrow> 'p option \<Rightarrow> int"

definition kMinSize :: nat where
  "kMinSize = 4"

text \<open>\<open>OPENSSL_malloc\<close> and \<open>OPENSSL_realloc\<close> of an array of \<open>n\<close> pointers of eight bytes.\<close>

definition can_alloc_ptrs :: "'p ptr_heap \<Rightarrow> nat \<Rightarrow> bool" where
  "can_alloc_ptrs e n = can_alloc e (size_add (size_mul 8 n) 8)"

definition realloc_ptrs :: "'p ptr_heap \<Rightarrow> 'p option list \<Rightarrow> nat \<Rightarrow> 'p option list option" where
  "realloc_ptrs e old n =
     (if can_alloc_ptrs e n then Some (take n old @ map (fresh_ptr e) [length old..<n]) else None)"

definition sk_new :: "'p ptr_heap \<Rightarrow> nat option \<Rightarrow> 'p stk option" where
  "sk_new e cmpfn =
     (if \<not> can_alloc e (40 + 8) then None
      else if \<not> can_alloc_ptrs e kMinSize then None
      else Some \<lparr>st_num = 0, st_data = replicate kMinSize None, st_sorted = False,
                 st_num_alloc = kMinSize, st_comp = cmpfn\<rparr>)"

definition sk_new_null :: "'p ptr_heap \<Rightarrow> 'p stk option" where
  "sk_new_null e = sk_new e None"

definition sk_num :: "'p stk option \<Rightarrow> nat" where
  "sk_num sk = (case sk of None \<Rightarrow> 0 | Some s \<Rightarrow> st_num s)"

definition sk_zero :: "'p stk option \<Rightarrow> 'p stk option" where
  "sk_zero sk =
     (case sk of None \<Rightarrow> None
      | Some s \<Rightarrow>
          if st_num s = 0 then Some s
          else Some (s\<lparr>st_data := blit (st_data s) 0 (replicate (st_num s) None), st_num := 0, st_sorted := False\<rparr>))"

definition sk_value :: "'p stk option \<Rightarrow> nat \<Rightarrow> 'p option" where
  "sk_value sk i =
     (case sk of None \<Rightarrow> None | Some s \<Rightarrow> if i \<ge> st_num s then None else st_data s ! i)"

definition sk_set :: "'p stk option \<Rightarrow> nat \<Rightarrow> 'p option \<Rightarrow> 'p option \<times> 'p stk option" where
  "sk_set sk i v =
     (case sk of None \<Rightarrow> (None, None)
      | Some s \<Rightarrow>
          if i \<ge> st_num s then (None, Some s) else (v, Some (s\<lparr>st_data := (st_data s)[i := v]\<rparr>)))"

text \<open>The pointers that \<open>func\<close> is called with, in order.\<close>

definition sk_pop_free :: "'p stk option \<Rightarrow> 'p list" where
  "sk_pop_free sk =
     (case sk of None \<Rightarrow> []
      | Some s \<Rightarrow> map the (filter (\<lambda>p. p \<noteq> None) (take (st_num s) (st_data s))))"

definition sk_insert :: "'p ptr_heap \<Rightarrow> 'p stk option \<Rightarrow> 'p option \<Rightarrow> nat \<Rightarrow> nat \<times> 'p stk option" where
  "sk_insert e sk p pos =
     (case sk of None \<Rightarrow> (0, None)
      | Some s \<Rightarrow>
          (case (if st_num_alloc s \<le> size_add (st_num s) 1 then
                   let new_alloc = size_mul (st_num_alloc s) 2; alloc_size = size_mul new_alloc 8;
                       (new_alloc, alloc_size) =
                         (if new_alloc < st_num_alloc s \<or> alloc_size div 8 \<noteq> new_alloc
                          then (size_add (st_num_alloc s) 1, size_mul (size_add (st_num_alloc s) 1) 8)
                          else (new_alloc, alloc_size)) in
                   if new_alloc < st_num_alloc s \<or> alloc_size div 8 \<noteq> new_alloc then None
                   else (case realloc_ptrs e (st_data s) new_alloc of
                           None \<Rightarrow> None
                         | Some data \<Rightarrow> Some (s\<lparr>st_data := data, st_num_alloc := new_alloc\<rparr>))
                 else Some s) of
             None \<Rightarrow> (0, sk)
           | Some s \<Rightarrow>
               let data = (if pos \<ge> st_num s then (st_data s)[st_num s := p]
                           else (blit (st_data s) (pos + 1) (take (st_num s - pos) (drop pos (st_data s))))[pos := p]) in
               (st_num s + 1, Some (s\<lparr>st_data := data, st_num := st_num s + 1, st_sorted := False\<rparr>))))"

definition sk_delete :: "'p stk option \<Rightarrow> nat \<Rightarrow> 'p option \<times> 'p stk option" where
  "sk_delete sk pos =
     (case sk of None \<Rightarrow> (None, None)
      | Some s \<Rightarrow>
          if pos \<ge> st_num s then (None, Some s)
          else
            let data = (if pos \<noteq> st_num s - 1
                        then blit (st_data s) pos (take (st_num s - pos - 1) (drop (pos + 1) (st_data s)))
                        else st_data s) in
            (st_data s ! pos, Some (s\<lparr>st_data := data, st_num := st_num s - 1\<rparr>)))"

text \<open>The first index from \<open>i\<close> on that holds the pointer.\<close>

function find_ptr_loop :: "'p stk \<Rightarrow> 'p option \<Rightarrow> nat \<Rightarrow> nat option" where
  "find_ptr_loop s p i =
     (if i < st_num s then if st_data s ! i = p then Some i else find_ptr_loop s p (i + 1) else None)"
  by pat_completeness auto
termination
  by (relation "measure (\<lambda>(s, p, i). st_num s - i)") auto

declare find_ptr_loop.simps [simp del]

definition sk_delete_ptr :: "'p stk option \<Rightarrow> 'p option \<Rightarrow> 'p option \<times> 'p stk option" where
  "sk_delete_ptr sk p =
     (case sk of None \<Rightarrow> (None, None)
      | Some s \<Rightarrow>
          (case find_ptr_loop s p 0 of None \<Rightarrow> (None, Some s) | Some i \<Rightarrow> sk_delete (Some s) i))"

definition sk_sort :: "'p comparisons \<Rightarrow> 'p stk option \<Rightarrow> 'p stk option" where
  "sk_sort fp sk =
     (case sk of None \<Rightarrow> None
      | Some s \<Rightarrow>
          (case st_comp s of
             None \<Rightarrow> Some s
           | Some c \<Rightarrow>
               if st_sorted s then Some s
               else Some (s\<lparr>st_data := qsort (fp c) (take (st_num s) (st_data s)) @ drop (st_num s) (st_data s),
                            st_sorted := True\<rparr>)))"

fun find_first_loop :: "('p option \<Rightarrow> 'p option \<Rightarrow> int) \<Rightarrow> 'p option \<Rightarrow> 'p option list \<Rightarrow> nat \<Rightarrow> nat" where
  "find_first_loop cmp p data 0 = 0"
| "find_first_loop cmp p data (Suc i) =
     (if cmp p (data ! i) = 0 then find_first_loop cmp p data i else Suc i)"

text \<open>The index that is found, if one is, and the stack, which may have been sorted.\<close>

definition sk_find :: "'p comparisons \<Rightarrow> 'p stk option \<Rightarrow> 'p option \<Rightarrow> nat option \<times> 'p stk option" where
  "sk_find fp sk p =
     (case sk of None \<Rightarrow> (None, None)
      | Some s \<Rightarrow>
          (case st_comp s of
             None \<Rightarrow> (find_ptr_loop s p 0, Some s)
           | Some c \<Rightarrow>
               if p = None then (None, Some s)
               else
                 (case sk_sort fp (Some s) of
                    None \<Rightarrow> (None, None)
                  | Some s \<Rightarrow>
                      (case bsearch (fp c) p (take (st_num s) (st_data s)) of
                         None \<Rightarrow> (None, Some s)
                       | Some idx \<Rightarrow> (Some (find_first_loop (fp c) p (st_data s) idx), Some s)))))"

definition sk_shift :: "'p stk option \<Rightarrow> 'p option \<times> 'p stk option" where
  "sk_shift sk = (case sk of None \<Rightarrow> (None, None) | Some s \<Rightarrow> if st_num s = 0 then (None, sk) else sk_delete sk 0)"

definition sk_push :: "'p ptr_heap \<Rightarrow> 'p stk \<Rightarrow> 'p option \<Rightarrow> nat \<times> 'p stk option" where
  "sk_push e s p = sk_insert e (Some s) p (st_num s)"

definition sk_pop :: "'p stk option \<Rightarrow> 'p option \<times> 'p stk option" where
  "sk_pop sk =
     (case sk of None \<Rightarrow> (None, None)
      | Some s \<Rightarrow> if st_num s = 0 then (None, sk) else sk_delete sk (st_num s - 1))"

definition sk_dup :: "'p ptr_heap \<Rightarrow> 'p stk option \<Rightarrow> 'p stk option" where
  "sk_dup e sk =
     (case sk of None \<Rightarrow> None
      | Some s \<Rightarrow>
          (case sk_new e (st_comp s) of
             None \<Rightarrow> None
           | Some ret \<Rightarrow>
               (case realloc_ptrs e (st_data ret) (st_num_alloc s) of
                  None \<Rightarrow> None
                | Some data \<Rightarrow>
                    Some \<lparr>st_num = st_num s, st_data = blit data 0 (take (st_num s) (st_data s)),
                      st_sorted = st_sorted s, st_num_alloc = st_num_alloc s, st_comp = st_comp s\<rparr>)))"

definition sk_is_sorted :: "'p stk option \<Rightarrow> bool" where
  "sk_is_sorted sk = (case sk of None \<Rightarrow> True | Some s \<Rightarrow> st_sorted s)"

definition sk_set_cmp_func :: "'p stk \<Rightarrow> nat option \<Rightarrow> nat option \<times> 'p stk" where
  "sk_set_cmp_func s cmpfn =
     (st_comp s, s\<lparr>st_sorted := (if st_comp s \<noteq> cmpfn then False else st_sorted s), st_comp := cmpfn\<rparr>)"

text \<open>
  \<open>copy_func\<close> may depend on the call, so it also takes the index.  The second component is the
  list of the copies that were handed to \<open>free_func\<close>.
\<close>

function deep_copy_loop ::
  "(nat \<Rightarrow> 'p \<Rightarrow> 'p option) \<Rightarrow> 'p option list \<Rightarrow> nat \<Rightarrow> nat \<Rightarrow> 'p option list option \<times> 'p list" where
  "deep_copy_loop copy_func data n i =
     (if i < n then
        (case data ! i of
           None \<Rightarrow> deep_copy_loop copy_func data n (i + 1)
         | Some p \<Rightarrow>
             (case copy_func i p of
                None \<Rightarrow> (None, map the (filter (\<lambda>p. p \<noteq> None) (take i data)))
              | Some q \<Rightarrow> deep_copy_loop copy_func (data[i := Some q]) n (i + 1)))
      else (Some data, []))"
  by pat_completeness auto
termination
  by (relation "measure (\<lambda>(copy_func, data, n, i). n - i)") auto

declare deep_copy_loop.simps [simp del]

definition sk_deep_copy ::
  "'p ptr_heap \<Rightarrow> 'p stk option \<Rightarrow> (nat \<Rightarrow> 'p \<Rightarrow> 'p option) \<Rightarrow> 'p stk option \<times> 'p list" where
  "sk_deep_copy e sk copy_func =
     (case sk_dup e sk of
        None \<Rightarrow> (None, [])
      | Some ret \<Rightarrow>
          (case deep_copy_loop copy_func (st_data ret) (st_num ret) 0 of
             (None, freed) \<Rightarrow> (None, freed)
           | (Some data, freed) \<Rightarrow> (Some (ret\<lparr>st_data := data\<rparr>), freed)))"


section \<open>Refinement of a list\<close>

definition stk_wf :: "'p stk \<Rightarrow> bool" where
  "stk_wf s \<longleftrightarrow> length (st_data s) = st_num_alloc s \<and> st_num s < st_num_alloc s \<and> kMinSize \<le> st_num_alloc s
     \<and> st_num_alloc s < 2 ^ 60"

definition sk_elems :: "'p stk \<Rightarrow> 'p option list" where
  "sk_elems s = take (st_num s) (st_data s)"

definition ptr_heap_ok :: "'p ptr_heap \<Rightarrow> bool" where
  "ptr_heap_ok e \<longleftrightarrow> (\<forall>n. can_alloc e n \<longrightarrow> n < 2 ^ 62)"

text \<open>What the flag \<open>sorted\<close> promises.\<close>

definition sorted_ok :: "'p comparisons \<Rightarrow> 'p stk \<Rightarrow> bool" where
  "sorted_ok fp s \<longleftrightarrow>
     (st_sorted s \<longrightarrow> (\<exists>c. st_comp s = Some c \<and> sorted_wrt (\<lambda>x y. fp c x y \<le> 0) (sk_elems s)))"

lemma length_sk_elems [simp]: "stk_wf s \<Longrightarrow> length (sk_elems s) = st_num s"
  by (simp add: stk_wf_def sk_elems_def)

lemma sk_elems_nth: "i < st_num s \<Longrightarrow> sk_elems s ! i = st_data s ! i"
  by (simp add: sk_elems_def)

lemma length_realloc_ptrs: "realloc_ptrs e old n = Some data \<Longrightarrow> length data = n"
  by (auto simp: realloc_ptrs_def split: if_splits)

lemma take_realloc_ptrs: "realloc_ptrs e old n = Some data \<Longrightarrow> k \<le> n \<Longrightarrow> k \<le> length old \<Longrightarrow> take k data = take k old"
  by (auto simp: realloc_ptrs_def min_def split: if_splits)

lemma realloc_ptrs_bound:
  assumes "ptr_heap_ok e" "realloc_ptrs e old n = Some data" "n + 1 < 2 ^ 61"
  shows "n < 2 ^ 59"
proof -
  have "size_mul 8 n = 8 * n" using assms(3) by (simp add: size_mul_def)
  moreover have "size_add (8 * n) 8 = 8 * n + 8" by (rule size_add_exact) (use assms(3) in simp)
  moreover have "can_alloc e (size_add (size_mul 8 n) 8)"
    using assms(2) by (simp add: realloc_ptrs_def can_alloc_ptrs_def split: if_splits)
  ultimately have "8 * n + 8 < 2 ^ 62" using assms(1) by (simp add: ptr_heap_ok_def)
  then show ?thesis by simp
qed

text \<open>Making room for one more element.\<close>

lemma sk_insert_eq:
  assumes "stk_wf s"
  shows "sk_insert e (Some s) p pos =
    (case (if st_num_alloc s \<le> st_num s + 1 then
             map_option (\<lambda>data. s\<lparr>st_data := data, st_num_alloc := 2 * st_num_alloc s\<rparr>)
               (realloc_ptrs e (st_data s) (2 * st_num_alloc s))
           else Some s) of
       None \<Rightarrow> (0, Some s)
     | Some s \<Rightarrow>
         let data = (if pos \<ge> st_num s then (st_data s)[st_num s := p]
                     else (blit (st_data s) (pos + 1) (take (st_num s - pos) (drop pos (st_data s))))[pos := p]) in
         (st_num s + 1, Some (s\<lparr>st_data := data, st_num := st_num s + 1, st_sorted := False\<rparr>)))"
proof -
  have l: "st_num_alloc s < 2 ^ 60" "st_num s < st_num_alloc s" using assms by (simp_all add: stk_wf_def)
  have "size_add (st_num s) 1 = st_num s + 1" by (rule size_add_exact) (use l in simp)
  moreover have "size_mul (st_num_alloc s) 2 = 2 * st_num_alloc s" using l by (simp add: size_mul_def mult.commute)
  moreover have "size_mul (2 * st_num_alloc s) 8 = 16 * st_num_alloc s" using l by (simp add: size_mul_def)
  moreover have "16 * st_num_alloc s div 8 = 2 * st_num_alloc s" by simp
  ultimately show ?thesis by (simp add: sk_insert_def Let_def split: option.split)
qed

lemma insert_elems:
  assumes "n < length data"
  shows "take (Suc n) (if pos \<ge> n then data[n := p]
      else (blit data (pos + 1) (take (n - pos) (drop pos data)))[pos := p])
    = take pos (take n data) @ p # drop pos (take n data)"
proof (cases "pos \<ge> n")
  case True
  then show ?thesis using assms by (simp add: take_Suc_conv_app_nth)
next
  case False
  define mid where "mid = take (n - pos) (drop pos data)"
  have lm: "length mid = n - pos" using assms by (simp add: mid_def)
  have m: "mid = drop pos (take n data)" by (simp add: mid_def drop_take)
  define d where "d = blit data (pos + 1) mid"
  have t: "take (Suc n) d = take (pos + 1) data @ mid"
    using take_blit_end [of "pos + 1" data mid] False assms lm by (simp add: d_def)
  have ld: "length d = length data" using False assms lm by (simp add: d_def)
  have "take (Suc n) (d[pos := p]) = (take (Suc n) d)[pos := p]" by (rule take_update_swap)
  also have "\<dots> = take pos data @ p # mid"
    unfolding t using False assms by (simp add: take_Suc_conv_app_nth list_update_append)
  finally show ?thesis using False m by (simp add: d_def mid_def min_def)
qed

text \<open>An insertion fails exactly when the array is full and cannot be doubled.\<close>

lemma sk_insert_fails_iff:
  assumes "stk_wf s" "sk_insert e (Some s) p pos = (k, sk)"
  shows "k = 0 \<longleftrightarrow> st_num_alloc s \<le> st_num s + 1 \<and> \<not> can_alloc_ptrs e (2 * st_num_alloc s)"
  using assms(2) unfolding sk_insert_eq [OF assms(1)]
  by (auto simp: realloc_ptrs_def Let_def split: if_splits)

lemma sk_insert_correct:
  assumes "ptr_heap_ok e" "stk_wf s" "sk_insert e (Some s) p pos = (k, sk)"
  shows "k = 0 \<and> sk = Some s
    \<or> (\<exists>s'. sk = Some s' \<and> k = st_num s + 1 \<and> stk_wf s' \<and> st_num s' = k \<and> \<not> st_sorted s' \<and> st_comp s' = st_comp s
        \<and> sk_elems s' = take pos (sk_elems s) @ p # drop pos (sk_elems s))"
proof -
  have wf: "length (st_data s) = st_num_alloc s" "st_num s < st_num_alloc s" "kMinSize \<le> st_num_alloc s"
    "st_num_alloc s < 2 ^ 60" using assms(2) by (simp_all add: stk_wf_def)
  obtain grown where g: "grown = (if st_num_alloc s \<le> st_num s + 1 then
      map_option (\<lambda>data. s\<lparr>st_data := data, st_num_alloc := 2 * st_num_alloc s\<rparr>)
        (realloc_ptrs e (st_data s) (2 * st_num_alloc s)) else Some s)" by blast
  note r = assms(3) [unfolded sk_insert_eq [OF assms(2)] g [symmetric]]
  show ?thesis
  proof (cases grown)
    case None
    then show ?thesis using r by simp
  next
    case (Some s1)
    have "length (st_data s1) = st_num_alloc s1 \<and> st_num s1 = st_num s \<and> st_num s + 1 < st_num_alloc s1
        \<and> kMinSize \<le> st_num_alloc s1 \<and> st_num_alloc s1 < 2 ^ 60 \<and> take (st_num s) (st_data s1) = take (st_num s) (st_data s)
        \<and> st_comp s1 = st_comp s"
    proof (cases "st_num_alloc s \<le> st_num s + 1")
      case True
      then obtain data where d: "realloc_ptrs e (st_data s) (2 * st_num_alloc s) = Some data"
        "s1 = s\<lparr>st_data := data, st_num_alloc := 2 * st_num_alloc s\<rparr>"
        using g Some by (cases "realloc_ptrs e (st_data s) (2 * st_num_alloc s)") simp_all
      have "2 * st_num_alloc s < 2 ^ 59" by (rule realloc_ptrs_bound [OF assms(1) d(1)]) (use wf in simp)
      then show ?thesis
        using d wf length_realloc_ptrs [OF d(1)] take_realloc_ptrs [OF d(1), of "st_num s"] by (simp add: kMinSize_def)
    next
      case False
      then show ?thesis using g Some wf by auto
    qed
    then have s1: "length (st_data s1) = st_num_alloc s1" "st_num s1 = st_num s" "st_num s + 1 < st_num_alloc s1"
      "kMinSize \<le> st_num_alloc s1" "st_num_alloc s1 < 2 ^ 60" "take (st_num s) (st_data s1) = take (st_num s) (st_data s)"
      "st_comp s1 = st_comp s" by simp_all
    define data where "data = (if pos \<ge> st_num s1 then (st_data s1)[st_num s1 := p]
      else (blit (st_data s1) (pos + 1) (take (st_num s1 - pos) (drop pos (st_data s1))))[pos := p])"
    have r': "k = st_num s + 1" "sk = Some (s1\<lparr>st_data := data, st_num := st_num s1 + 1, st_sorted := False\<rparr>)"
      using r unfolding Some option.case Let_def data_def [symmetric] by (auto simp: s1(2))
    have "length data = st_num_alloc s1" using s1(1,2,3) by (simp add: data_def)
    moreover have "take (Suc (st_num s1)) data = take pos (sk_elems s) @ p # drop pos (sk_elems s)"
      using insert_elems [of "st_num s1" "st_data s1" pos p] s1 by (simp add: data_def sk_elems_def)
    ultimately show ?thesis
      using r' s1 by (simp add: stk_wf_def sk_elems_def)
  qed
qed


lemma sk_new_correct:
  assumes "sk_new e c = Some s"
  shows "stk_wf s" "sk_elems s = []" "\<not> st_sorted s" "st_comp s = c"
  using assms by (auto simp: sk_new_def stk_wf_def sk_elems_def kMinSize_def split: if_splits)

lemma sk_delete_correct:
  assumes "stk_wf s" "pos < st_num s"
  shows "\<exists>s'. sk_delete (Some s) pos = (sk_elems s ! pos, Some s') \<and> stk_wf s'
    \<and> sk_elems s' = take pos (sk_elems s) @ drop (Suc pos) (sk_elems s) \<and> st_sorted s' = st_sorted s
    \<and> st_comp s' = st_comp s"
proof -
  have wf: "length (st_data s) = st_num_alloc s" "st_num s < st_num_alloc s" using assms(1) by (simp_all add: stk_wf_def)
  define n where "n = st_num s"
  define mid where "mid = take (n - pos - 1) (drop (pos + 1) (st_data s))"
  define data where "data = (if pos \<noteq> n - 1 then blit (st_data s) pos mid else st_data s)"
  define s' where "s' = s\<lparr>st_data := data, st_num := n - 1\<rparr>"
  have lm: "length mid = n - pos - 1" "pos < n" "n < length (st_data s)" using assms(2) wf by (simp_all add: mid_def n_def)
  have m: "mid = drop (Suc pos) (take n (st_data s))" by (simp add: mid_def drop_take)
  have t: "take (n - 1) data = take pos (st_data s) @ mid"
  proof (cases "pos \<noteq> n - 1")
    case True
    then show ?thesis using take_blit_end [of pos "st_data s" mid] lm by (simp add: data_def)
  next
    case False
    then show ?thesis using lm by (simp add: data_def)
  qed
  have "sk_delete (Some s) pos = (sk_elems s ! pos, Some s')"
    using assms(2) by (simp add: sk_delete_def s'_def data_def mid_def n_def sk_elems_nth)
  moreover have "stk_wf s'" using assms(1) lm by (auto simp: stk_wf_def s'_def data_def n_def)
  moreover have "sk_elems s' = take pos (sk_elems s) @ drop (Suc pos) (sk_elems s)"
    using t m lm(2) by (simp add: sk_elems_def s'_def n_def [symmetric])
  ultimately show ?thesis by (auto simp: s'_def)
qed

lemma find_ptr_loop_spec:
  "find_ptr_loop s p i = Some j \<Longrightarrow> i \<le> j \<and> j < st_num s \<and> st_data s ! j = p \<and> (\<forall>k. i \<le> k \<and> k < j \<longrightarrow> st_data s ! k \<noteq> p)"
  "find_ptr_loop s p i = None \<Longrightarrow> \<forall>k. i \<le> k \<and> k < st_num s \<longrightarrow> st_data s ! k \<noteq> p"
proof (induction s p i rule: find_ptr_loop.induct)
  case (1 s p i)
  { case 1
    show ?case
    proof (cases "i < st_num s \<and> st_data s ! i \<noteq> p")
      case True
      then have "find_ptr_loop s p (i + 1) = Some j" using 1 by (simp add: find_ptr_loop.simps [of s p i])
      then show ?thesis using "1.IH"(1) True by (metis Suc_eq_plus1 Suc_leD Suc_le_eq le_neq_implies_less)
    next
      case False
      then show ?thesis using 1 by (auto simp: find_ptr_loop.simps [of s p i] split: if_splits)
    qed
  next
    case 2
    show ?case
    proof (cases "i < st_num s")
      case True
      then have n: "st_data s ! i \<noteq> p" "find_ptr_loop s p (i + 1) = None"
        using 2 by (simp_all add: find_ptr_loop.simps [of s p i] split: if_splits)
      then show ?thesis using "1.IH"(2) True by (metis Suc_eq_plus1 Suc_le_eq le_neq_implies_less)
    qed auto
  }
qed

lemma sk_delete_ptr_correct:
  assumes "stk_wf s"
  shows "\<exists>s'. sk_delete_ptr (Some s) p = (if p \<in> set (sk_elems s) then p else None, Some s') \<and> stk_wf s'
    \<and> sk_elems s' = remove1 p (sk_elems s)"
proof (cases "find_ptr_loop s p 0")
  case None
  then have "p \<notin> set (sk_elems s)"
    using find_ptr_loop_spec(2) [OF None] assms by (auto simp: in_set_conv_nth sk_elems_nth)
  then show ?thesis using None assms by (auto simp: sk_delete_ptr_def remove1_idem)
next
  case (Some i)
  note f = find_ptr_loop_spec(1) [OF Some]
  have i: "i < length (sk_elems s)" "sk_elems s ! i = p" using f assms by (simp_all add: sk_elems_nth)
  have pre: "p \<notin> set (take i (sk_elems s))"
    using f assms by (auto simp: in_set_conv_nth sk_elems_nth)
  have "remove1 p (sk_elems s) = take i (sk_elems s) @ drop (Suc i) (sk_elems s)"
    using i pre by (subst id_take_nth_drop [OF i(1)]) (simp add: remove1_append)
  moreover obtain s' where "sk_delete (Some s) i = (sk_elems s ! i, Some s')" "stk_wf s'"
    "sk_elems s' = take i (sk_elems s) @ drop (Suc i) (sk_elems s)"
    using sk_delete_correct [OF assms, of i] f by auto
  ultimately show ?thesis using Some i by (auto simp: sk_delete_ptr_def)
qed


section \<open>Sorting and searching\<close>

lemma find_first_loop_le: "find_first_loop cmp p data i \<le> i"
  by (induction i) (simp_all add: le_SucI)

lemma find_first_loop_spec:
  assumes "cmp p (data ! i) = 0"
  shows "cmp p (data ! find_first_loop cmp p data i) = 0"
    "0 < find_first_loop cmp p data i \<Longrightarrow> cmp p (data ! (find_first_loop cmp p data i - 1)) \<noteq> 0"
  using assms by (induction i) auto

lemma sk_sort_correct:
  assumes "stk_wf s" "st_comp s = Some c" "comparison valid (fp c)" "\<forall>p\<in>set (sk_elems s). valid p" "sorted_ok fp s"
  shows "\<exists>s'. sk_sort fp (Some s) = Some s' \<and> stk_wf s' \<and> st_num s' = st_num s \<and> st_comp s' = Some c
    \<and> mset (sk_elems s') = mset (sk_elems s) \<and> sorted_wrt (\<lambda>x y. fp c x y \<le> 0) (sk_elems s') \<and> sorted_ok fp s'"
proof (cases "st_sorted s")
  case True
  then have "sorted_wrt (\<lambda>x y. fp c x y \<le> 0) (sk_elems s)" using assms(2,5) by (simp add: sorted_ok_def)
  then show ?thesis using True assms by (simp add: sk_sort_def)
next
  case False
  define s' where "s' = s\<lparr>st_data := qsort (fp c) (take (st_num s) (st_data s)) @ drop (st_num s) (st_data s),
    st_sorted := True\<rparr>"
  have le: "st_num s \<le> length (st_data s)" using assms(1) by (simp add: stk_wf_def)
  have e: "sk_elems s' = qsort (fp c) (sk_elems s)" using le by (simp add: s'_def sk_elems_def)
  have srt: "sorted_wrt (\<lambda>x y. fp c x y \<le> 0) (sk_elems s')"
    unfolding e by (rule comparison.sorted_qsort [OF assms(3,4)])
  have "stk_wf s'" using assms(1) le by (simp add: stk_wf_def s'_def)
  moreover have "sk_sort fp (Some s) = Some s'" using False assms(2) by (simp add: sk_sort_def s'_def)
  ultimately show ?thesis using srt e assms(2) by (simp add: sorted_ok_def s'_def)
qed

text \<open>
  The search: with a comparison, what is found is the first element of the sorted stack that
  compares equal to the key, and nothing is found only if there is none.
\<close>

lemma sk_find_correct:
  assumes "stk_wf s" "st_comp s = Some c" "comparison valid (fp c)" "\<forall>q\<in>set (sk_elems s). valid q" "sorted_ok fp s"
    and "valid p" "p \<noteq> None" "sk_find fp (Some s) p = (r, sk)"
  shows "\<exists>s'. sk = Some s' \<and> mset (sk_elems s') = mset (sk_elems s)
    \<and> (case r of None \<Rightarrow> \<forall>q\<in>set (sk_elems s). fp c p q \<noteq> 0
       | Some i \<Rightarrow> i < st_num s \<and> fp c p (sk_elems s' ! i) = 0 \<and> (\<forall>j<i. fp c p (sk_elems s' ! j) \<noteq> 0))"
proof -
  note sorted_nth = comparison.sorted_nth [OF assms(3)]
    and swap = comparison.swap [OF assms(3)] and trans = comparison.trans [OF assms(3)]
  obtain q where q: "p = Some q" using assms(7) by blast
  obtain s' where s': "sk_sort fp (Some s) = Some s'" "stk_wf s'" "st_num s' = st_num s"
    "mset (sk_elems s') = mset (sk_elems s)" "sorted_wrt (\<lambda>x y. fp c x y \<le> 0) (sk_elems s')"
    using sk_sort_correct [OF assms(1-5)] by blast
  have st: "set (sk_elems s') = set (sk_elems s)" by (rule mset_eq_setD [OF s'(4)])
  have v: "\<forall>q\<in>set (sk_elems s'). valid q" using assms(4) st by simp
  have r: "(r, sk) = (case bsearch (fp c) p (sk_elems s') of
      None \<Rightarrow> (None, Some s') | Some idx \<Rightarrow> (Some (find_first_loop (fp c) p (st_data s') idx), Some s'))"
    using assms(2,8) s'(1) by (auto simp: sk_find_def sk_elems_def q split: option.splits)
  note f = comparison.bsearch_finds [OF assms(3) v assms(6) s'(5)]
  show ?thesis
  proof (cases "bsearch (fp c) p (sk_elems s')")
    case None
    then show ?thesis using r f s'(4) st by auto
  next
    case (Some idx)
    define i where "i = find_first_loop (fp c) p (st_data s') idx"
    have idx: "idx < st_num s" "fp c p (st_data s' ! idx) = 0"
      using f Some s'(2,3) sk_elems_nth [of idx s'] by auto
    have i: "i \<le> idx" "fp c p (st_data s' ! i) = 0" "0 < i \<Longrightarrow> fp c p (st_data s' ! (i - 1)) \<noteq> 0"
      using find_first_loop_le [of "fp c" p "st_data s'" idx] find_first_loop_spec [of "fp c" p "st_data s'" idx] idx(2)
      by (simp_all add: i_def)
    have "fp c p (sk_elems s' ! j) \<noteq> 0" if j: "j < i" for j
    proof
      assume z: "fp c p (sk_elems s' ! j) = 0"
      have l: "j < length (sk_elems s')" "i - 1 < length (sk_elems s')" "i < length (sk_elems s')"
        using j i(1) idx(1) s'(2,3) by simp_all
      have vs: "valid (sk_elems s' ! j)" "valid (sk_elems s' ! (i - 1))" "valid (sk_elems s' ! i)"
        using v l by simp_all
      have 1: "fp c (sk_elems s' ! j) (sk_elems s' ! (i - 1)) \<le> 0" "fp c (sk_elems s' ! (i - 1)) (sk_elems s' ! i) \<le> 0"
        using sorted_nth [OF v s'(5)] l j by simp_all
      have zi: "fp c p (sk_elems s' ! i) = 0" using i(2) l(3) s'(2) by (simp add: sk_elems_nth)
      have "fp c p (sk_elems s' ! (i - 1)) \<le> 0"
        using trans [of p "sk_elems s' ! j" "sk_elems s' ! (i - 1)"] z 1(1) vs assms(6) by simp
      moreover have "fp c (sk_elems s' ! i) p \<le> 0" using swap [of p "sk_elems s' ! i"] zi vs assms(6) by linarith
      then have "fp c (sk_elems s' ! (i - 1)) p \<le> 0"
        using trans [of "sk_elems s' ! (i - 1)" "sk_elems s' ! i" p] 1(2) vs assms(6) by simp
      then have "\<not> fp c p (sk_elems s' ! (i - 1)) < 0" using swap [of p "sk_elems s' ! (i - 1)"] vs assms(6) by linarith
      ultimately have "fp c p (sk_elems s' ! (i - 1)) = 0" by linarith
      then show False using i(3) j l(2) s'(2) by (simp add: sk_elems_nth)
    qed
    moreover have "fp c p (sk_elems s' ! i) = 0" using i(1,2) idx(1) s'(2,3) by (simp add: sk_elems_nth)
    ultimately show ?thesis using r Some s'(4) i(1) idx(1) by (auto simp: i_def)
  qed
qed


section \<open>The other operations\<close>

lemma sk_push_appends:
  assumes "ptr_heap_ok e" "stk_wf s" "sk_push e s p = (k, sk)"
  shows "k = 0 \<and> sk = Some s
    \<or> (\<exists>s'. sk = Some s' \<and> k = st_num s + 1 \<and> stk_wf s' \<and> sk_elems s' = sk_elems s @ [p])"
  using sk_insert_correct [OF assms(1,2) assms(3) [unfolded sk_push_def]] assms(2) by auto

lemma sk_pop_last:
  assumes "stk_wf s"
  shows "if sk_elems s = [] then sk_pop (Some s) = (None, Some s)
    else \<exists>s'. sk_pop (Some s) = (last (sk_elems s), Some s') \<and> stk_wf s' \<and> sk_elems s' = butlast (sk_elems s)"
proof (cases "sk_elems s = []")
  case True
  then show ?thesis using assms length_sk_elems [of s] by (simp add: sk_pop_def)
next
  case False
  then have "0 < st_num s" using assms length_sk_elems [of s] by (metis length_greater_0_conv)
  then show ?thesis
    using sk_delete_correct [OF assms, of "st_num s - 1"] False assms
    by (auto simp: sk_pop_def last_conv_nth butlast_conv_take)
qed

lemma sk_shift_first:
  assumes "stk_wf s"
  shows "case sk_elems s of [] \<Rightarrow> sk_shift (Some s) = (None, Some s)
    | p # ps \<Rightarrow> \<exists>s'. sk_shift (Some s) = (p, Some s') \<and> stk_wf s' \<and> sk_elems s' = ps"
proof (cases "sk_elems s")
  case Nil
  then show ?thesis using assms length_sk_elems [of s] by (simp add: sk_shift_def)
next
  case (Cons p ps)
  then have "0 < st_num s" using assms length_sk_elems [of s] by auto
  then show ?thesis using sk_delete_correct [OF assms, of 0] Cons by (auto simp: sk_shift_def)
qed

lemma sk_zero_empties: "stk_wf s \<Longrightarrow> \<exists>s'. sk_zero (Some s) = Some s' \<and> stk_wf s' \<and> sk_elems s' = []"
  by (auto simp: sk_zero_def stk_wf_def sk_elems_def)

lemma sk_value_nth: "stk_wf s \<Longrightarrow> sk_value (Some s) i = (if i < length (sk_elems s) then sk_elems s ! i else None)"
  by (simp add: sk_value_def sk_elems_nth)

lemma sk_set_updates:
  assumes "stk_wf s" "i < st_num s"
  shows "\<exists>s'. sk_set (Some s) i p = (p, Some s') \<and> stk_wf s' \<and> sk_elems s' = (sk_elems s)[i := p]"
  using assms by (auto simp: sk_set_def stk_wf_def sk_elems_def take_update_swap)

lemma sk_dup_copies:
  assumes "stk_wf s" "sk_dup e (Some s) = Some d"
  shows "stk_wf d \<and> sk_elems d = sk_elems s \<and> st_sorted d = st_sorted s \<and> st_comp d = st_comp s \<and> st_num d = st_num s"
proof -
  obtain ret data where "sk_new e (st_comp s) = Some ret" "realloc_ptrs e (st_data ret) (st_num_alloc s) = Some data"
    and d: "d = \<lparr>st_num = st_num s, st_data = blit data 0 (take (st_num s) (st_data s)),
      st_sorted = st_sorted s, st_num_alloc = st_num_alloc s, st_comp = st_comp s\<rparr>"
    using assms(2) by (auto simp: sk_dup_def split: option.splits)
  then have "length data = st_num_alloc s" using length_realloc_ptrs by blast
  then show ?thesis
    using assms(1) take_blit_end [of 0 data "take (st_num s) (st_data s)"] by (auto simp: d stk_wf_def sk_elems_def min_def)
qed

text \<open>The copy of element \<open>j\<close>, and the copies of the first \<open>i\<close> elements.\<close>

definition copy_at :: "(nat \<Rightarrow> 'p \<Rightarrow> 'p option) \<Rightarrow> 'p option list \<Rightarrow> nat \<Rightarrow> 'p option" where
  "copy_at copy_func xs j = (case xs ! j of None \<Rightarrow> None | Some p \<Rightarrow> copy_func j p)"

definition copies :: "(nat \<Rightarrow> 'p \<Rightarrow> 'p option) \<Rightarrow> 'p option list \<Rightarrow> nat \<Rightarrow> 'p list" where
  "copies copy_func xs i = map the (filter (\<lambda>p. p \<noteq> None) (map (copy_at copy_func xs) [0..<i]))"

definition copy_fails :: "(nat \<Rightarrow> 'p \<Rightarrow> 'p option) \<Rightarrow> 'p option list \<Rightarrow> nat \<Rightarrow> bool" where
  "copy_fails copy_func xs j \<longleftrightarrow> xs ! j \<noteq> None \<and> copy_at copy_func xs j = None"

lemma deep_copy_loop_correct:
  assumes "n \<le> length xs" "i \<le> n" "data = map (copy_at cf xs) [0..<i] @ drop i xs" "\<forall>j<i. \<not> copy_fails cf xs j"
  shows "if \<exists>j<n. copy_fails cf xs j
    then deep_copy_loop cf data n i = (None, copies cf xs (LEAST j. copy_fails cf xs j))
    else deep_copy_loop cf data n i = (Some (map (copy_at cf xs) [0..<n] @ drop n xs), [])"
  using assms
proof (induction cf data n i rule: deep_copy_loop.induct)
  case (1 cf data n i)
  show ?case
  proof (cases "i < n")
    case False
    then show ?thesis using 1 deep_copy_loop.simps [of cf data n n] by auto
  next
    case True
    have d: "data ! i = xs ! i" using 1(5) less_le_trans [OF True 1(3)] by (simp add: nth_append)
    have dr: "drop i xs = xs ! i # drop (i + 1) xs" using True 1(3) by (simp add: Cons_nth_drop_Suc)
    show ?thesis
    proof (cases "xs ! i")
      case None
      then have a: "data = map (copy_at cf xs) [0..<i + 1] @ drop (i + 1) xs"
        using 1(5) dr by (simp add: copy_at_def)
      have b: "\<forall>j<i + 1. \<not> copy_fails cf xs j" using 1(6) None by (auto simp: copy_fails_def less_Suc_eq)
      have c: "deep_copy_loop cf data n i = deep_copy_loop cf data n (i + 1)"
        using True None d by (simp add: deep_copy_loop.simps [of cf data n i])
      show ?thesis unfolding c by (rule "1.IH"(1) [OF True _ 1(3) _ a b]) (use True None d in simp_all)
    next
      case (Some p)
      show ?thesis
      proof (cases "cf i p")
        case None
        then have f: "copy_fails cf xs i" using Some by (simp add: copy_fails_def copy_at_def)
        then have "(LEAST j. copy_fails cf xs j) = i" using 1(6) by (intro Least_equality) (auto simp: not_less [symmetric])
        moreover have "take i data = map (copy_at cf xs) [0..<i]" using 1(5) by simp
        ultimately show ?thesis
          using f True Some None d by (auto simp: deep_copy_loop.simps [of cf data n i] copies_def)
      next
        case (Some q)
        have a: "data[i := Some q] = map (copy_at cf xs) [0..<i + 1] @ drop (i + 1) xs"
          using 1(5) dr Some \<open>xs ! i = Some p\<close> by (simp add: copy_at_def list_update_append)
        have b: "\<forall>j<i + 1. \<not> copy_fails cf xs j"
          using 1(6) Some \<open>xs ! i = Some p\<close> by (auto simp: copy_fails_def copy_at_def less_Suc_eq)
        have c: "deep_copy_loop cf data n i = deep_copy_loop cf (data[i := Some q]) n (i + 1)"
          using True Some \<open>xs ! i = Some p\<close> d by (simp add: deep_copy_loop.simps [of cf data n i])
        show ?thesis
          unfolding c
          by (rule "1.IH"(2) [OF True _ _ 1(3) _ a b]) (use True Some \<open>xs ! i = Some p\<close> d in simp_all)
      qed
    qed
  qed
qed

text \<open>A deep copy is made of all the copies, or the copies made before one failed are all freed.\<close>

lemma sk_deep_copy_correct:
  assumes "stk_wf s" "sk_dup e (Some s) \<noteq> None"
  shows "if \<exists>j < st_num s. copy_fails cf (sk_elems s) j
    then sk_deep_copy e (Some s) cf = (None, copies cf (sk_elems s) (LEAST j. copy_fails cf (sk_elems s) j))
    else \<exists>d. sk_deep_copy e (Some s) cf = (Some d, []) \<and> stk_wf d
      \<and> sk_elems d = map (copy_at cf (sk_elems s)) [0..<st_num s]"
proof -
  obtain d where d: "sk_dup e (Some s) = Some d" using assms(2) by auto
  note dup = sk_dup_copies [OF assms(1) d]
  have n: "st_num d \<le> length (st_data d)" using dup by (simp add: stk_wf_def)
  have el: "st_data d ! j = sk_elems s ! j" if "j < st_num s" for j
    using dup that by (metis sk_elems_nth)
  then have at: "copy_at cf (st_data d) j = copy_at cf (sk_elems s) j" "copy_fails cf (st_data d) j = copy_fails cf (sk_elems s) j"
    if "j < st_num s" for j using that by (simp_all add: copy_at_def copy_fails_def)
  note l = deep_copy_loop_correct [OF n, of 0 "st_data d" cf, simplified]
  show ?thesis
  proof (cases "\<exists>j < st_num s. copy_fails cf (sk_elems s) j")
    case True
    then obtain j where j: "j < st_num s" "copy_fails cf (sk_elems s) j" by blast
    define m where "m = (LEAST j. copy_fails cf (sk_elems s) j)"
    have m: "m \<le> j" "copy_fails cf (sk_elems s) m" "\<And>k. k < m \<Longrightarrow> \<not> copy_fails cf (sk_elems s) k"
      using j(2) by (auto simp: m_def intro: Least_le LeastI dest: not_less_Least)
    have "(LEAST j. copy_fails cf (st_data d) j) = m"
      using m j(1) at(2) by (intro Least_equality) (auto simp: not_less [symmetric])
    moreover have "copies cf (st_data d) m = copies cf (sk_elems s) m"
    proof -
      have "map (copy_at cf (st_data d)) [0..<m] = map (copy_at cf (sk_elems s)) [0..<m]"
        using m(1) j(1) at(1) by (intro map_cong) auto
      then show ?thesis by (simp only: copies_def)
    qed
    moreover have "\<exists>j < st_num d. copy_fails cf (st_data d) j" using j at(2) dup by auto
    ultimately show ?thesis using l True d by (auto simp: sk_deep_copy_def m_def)
  next
    case False
    then have "\<not> (\<exists>j < st_num d. copy_fails cf (st_data d) j)" using at(2) dup by auto
    then have r: "deep_copy_loop cf (st_data d) (st_num d) 0 = (Some (map (copy_at cf (st_data d)) [0..<st_num d] @ drop (st_num d) (st_data d)), [])"
      using l by simp
    have "map (copy_at cf (st_data d)) [0..<st_num d] = map (copy_at cf (sk_elems s)) [0..<st_num s]"
      using at(1) dup by (auto intro: map_cong)
    then show ?thesis using r False d dup n by (auto simp: sk_deep_copy_def stk_wf_def sk_elems_def)
  qed
qed

end
