(* ===== verification/LHash.thy ===== *)
theory LHash
  imports Mem
begin

text \<open>
  The chained hash tables of \<open>crypto/lhash/lhash.c\<close>.  The items of the chains live in a store
  of their own, a map from addresses to items, because the code works on pointers into it: a
  search returns where the pointer to an item is kept, and insertion, deletion and
  redistribution overwrite such a place.  A run that would follow a dangling pointer or never
  return is \<open>None\<close>; on a well-formed table there is none.

  The table refines a set of elements without two equal ones.
\<close>

section \<open>The table\<close>

record 'p lhash_item =
  it_data :: "'p option"
  it_next :: "nat option"
  it_hash :: u32

record 'p lhash =
  num_items :: nat
  buckets :: "nat option list"
  num_buckets :: nat
  callback_depth :: nat
  lh_comp :: "'p option \<Rightarrow> 'p option \<Rightarrow> int"
  lh_hash :: "'p option \<Rightarrow> u32"
  lh_items :: "nat \<rightharpoonup> 'p lhash_item"

text \<open>The allocator: where the next item goes, if there is memory for it.\<close>

record 'p lh_heap = heap_env +
  new_item :: "(nat \<rightharpoonup> 'p lhash_item) \<Rightarrow> nat option"

definition kMinNumBuckets :: nat where
  "kMinNumBuckets = 16"

definition kMaxAverageChainLength :: nat where
  "kMaxAverageChainLength = 2"

definition kMinAverageChainLength :: nat where
  "kMinAverageChainLength = 1"

definition lh_new :: "'p lh_heap \<Rightarrow> ('p option \<Rightarrow> u32) \<Rightarrow> ('p option \<Rightarrow> 'p option \<Rightarrow> int) \<Rightarrow> 'p lhash option" where
  "lh_new e hash cmp =
     (if \<not> can_alloc e (48 + 8) then None
      else if \<not> can_alloc e (size_add (size_mul 8 kMinNumBuckets) 8) then None
      else Some \<lparr>num_items = 0, buckets = replicate kMinNumBuckets None, num_buckets = kMinNumBuckets,
                 callback_depth = 0, lh_comp = cmp, lh_hash = hash, lh_items = Map.empty\<rparr>)"

definition lh_num_items :: "'p lhash \<Rightarrow> nat" where
  "lh_num_items t = num_items t"

text \<open>A place that holds a pointer to an item.\<close>

datatype item_ref = Bucket nat | Next nat

definition deref :: "'p lhash \<Rightarrow> item_ref \<Rightarrow> nat option option" where
  "deref t r =
     (case r of
        Bucket i \<Rightarrow> if i < length (buckets t) then Some (buckets t ! i) else None
      | Next a \<Rightarrow> map_option it_next (lh_items t a))"

definition put_ref :: "'p lhash \<Rightarrow> item_ref \<Rightarrow> nat option \<Rightarrow> 'p lhash" where
  "put_ref t r p =
     (case r of
        Bucket i \<Rightarrow> t\<lparr>buckets := (buckets t)[i := p]\<rparr>
      | Next a \<Rightarrow> t\<lparr>lh_items := (lh_items t)(a := map_option (\<lambda>it. it\<lparr>it_next := p\<rparr>) (lh_items t a))\<rparr>)"

partial_function (option) next_ptr_loop :: "'p lhash \<Rightarrow> 'p option \<Rightarrow> item_ref \<Rightarrow> item_ref option" where
  "next_ptr_loop t data ret =
     (case deref t ret of
        None \<Rightarrow> None
      | Some None \<Rightarrow> Some ret
      | Some (Some cur) \<Rightarrow>
          (case lh_items t cur of
             None \<Rightarrow> None
           | Some it \<Rightarrow>
               if lh_comp t (it_data it) data = 0 then Some ret else next_ptr_loop t data (Next cur)))"

definition get_next_ptr_and_hash :: "'p lhash \<Rightarrow> 'p option \<Rightarrow> (item_ref \<times> u32) option" where
  "get_next_ptr_and_hash t data =
     (let hash = lh_hash t data in
      map_option (\<lambda>ret. (ret, hash)) (next_ptr_loop t data (Bucket (unat hash mod num_buckets t))))"

definition lh_retrieve :: "'p lhash \<Rightarrow> 'p option \<Rightarrow> 'p option option" where
  "lh_retrieve t data =
     (case get_next_ptr_and_hash t data of
        None \<Rightarrow> None
      | Some (next_ptr, _) \<Rightarrow>
          (case deref t next_ptr of
             None \<Rightarrow> None
           | Some None \<Rightarrow> Some None
           | Some (Some a) \<Rightarrow> map_option it_data (lh_items t a)))"

partial_function (option) rebucket_chain ::
  "nat \<Rightarrow> nat option \<Rightarrow> (nat \<rightharpoonup> 'p lhash_item) \<Rightarrow> nat option list \<Rightarrow> ((nat \<rightharpoonup> 'p lhash_item) \<times> nat option list) option" where
  "rebucket_chain n cur m new_buckets =
     (case cur of
        None \<Rightarrow> Some (m, new_buckets)
      | Some a \<Rightarrow>
          (case m a of
             None \<Rightarrow> None
           | Some it \<Rightarrow>
               let new_bucket = unat (it_hash it) mod n in
               rebucket_chain n (it_next it) (m(a \<mapsto> it\<lparr>it_next := new_buckets ! new_bucket\<rparr>))
                 (new_buckets[new_bucket := Some a])))"

primrec rebucket_all ::
  "nat \<Rightarrow> nat option list \<Rightarrow> (nat \<rightharpoonup> 'p lhash_item) \<times> nat option list \<Rightarrow> ((nat \<rightharpoonup> 'p lhash_item) \<times> nat option list) option" where
  "rebucket_all n [] s = Some s"
| "rebucket_all n (b # bs) s =
     (case rebucket_chain n b (fst s) (snd s) of None \<Rightarrow> None | Some s \<Rightarrow> rebucket_all n bs s)"

definition lh_rebucket :: "'p lh_heap \<Rightarrow> 'p lhash \<Rightarrow> nat \<Rightarrow> 'p lhash option" where
  "lh_rebucket e t new_num_buckets =
     (let alloc_size = size_mul 8 new_num_buckets in
      if alloc_size div 8 \<noteq> new_num_buckets then Some t
      else if \<not> can_alloc e (size_add alloc_size 8) then Some t
      else
        (case rebucket_all new_num_buckets (buckets t) (lh_items t, replicate new_num_buckets None) of
           None \<Rightarrow> None
         | Some (m, new_buckets) \<Rightarrow>
             Some (t\<lparr>lh_items := m, num_buckets := new_num_buckets, buckets := new_buckets\<rparr>)))"

definition lh_maybe_resize :: "'p lh_heap \<Rightarrow> 'p lhash \<Rightarrow> 'p lhash option" where
  "lh_maybe_resize e t =
     (if callback_depth t > 0 then Some t
      else
        let avg_chain_length = num_items t div num_buckets t in
        if avg_chain_length > kMaxAverageChainLength then
          let new_num_buckets = size_mul (num_buckets t) 2 in
          if new_num_buckets > num_buckets t then lh_rebucket e t new_num_buckets else Some t
        else if avg_chain_length < kMinAverageChainLength \<and> num_buckets t > kMinNumBuckets then
          let new_num_buckets = num_buckets t div 2;
              new_num_buckets = (if new_num_buckets < kMinNumBuckets then kMinNumBuckets else new_num_buckets) in
          lh_rebucket e t new_num_buckets
        else Some t)"

text \<open>The result, \<open>*old_data\<close> and the table.\<close>

definition lh_insert :: "'p lh_heap \<Rightarrow> 'p lhash \<Rightarrow> 'p option \<Rightarrow> (bool \<times> 'p option \<times> 'p lhash) option" where
  "lh_insert e t data =
     (case get_next_ptr_and_hash t data of
        None \<Rightarrow> None
      | Some (next_ptr, hash) \<Rightarrow>
          (case deref t next_ptr of
             None \<Rightarrow> None
           | Some (Some a) \<Rightarrow>
               (case lh_items t a of
                  None \<Rightarrow> None
                | Some it \<Rightarrow>
                    Some (True, it_data it, t\<lparr>lh_items := (lh_items t)(a \<mapsto> it\<lparr>it_data := data\<rparr>)\<rparr>))
           | Some None \<Rightarrow>
               (case new_item e (lh_items t) of
                  None \<Rightarrow> Some (False, None, t)
                | Some a \<Rightarrow>
                    let t = t\<lparr>lh_items := (lh_items t)(a \<mapsto> \<lparr>it_data = data, it_next = None, it_hash = hash\<rparr>)\<rparr>;
                        t = put_ref t next_ptr (Some a);
                        t = t\<lparr>num_items := size_add (num_items t) 1\<rparr> in
                    map_option (\<lambda>t. (True, None, t)) (lh_maybe_resize e t))))"

definition lh_delete :: "'p lh_heap \<Rightarrow> 'p lhash \<Rightarrow> 'p option \<Rightarrow> ('p option \<times> 'p lhash) option" where
  "lh_delete e t data =
     (case get_next_ptr_and_hash t data of
        None \<Rightarrow> None
      | Some (next_ptr, _) \<Rightarrow>
          (case deref t next_ptr of
             None \<Rightarrow> None
           | Some None \<Rightarrow> Some (None, t)
           | Some (Some a) \<Rightarrow>
               (case lh_items t a of
                  None \<Rightarrow> None
                | Some it \<Rightarrow>
                    let t = put_ref t next_ptr (it_next it);
                        t = t\<lparr>lh_items := (lh_items t)(a := None), num_items := num_items t - 1\<rparr> in
                    map_option (\<lambda>t. (it_data it, t)) (lh_maybe_resize e t))))"

text \<open>
  The iteration.  The callback may change the table as well as the state \<open>'s\<close> that it is given
  in \<open>arg\<close>; the loop reads the next pointer of an item before it calls the callback on it.
\<close>

type_synonym ('p, 's) lh_callback = "'p option \<Rightarrow> 'p lhash \<times> 's \<Rightarrow> ('p lhash \<times> 's) option"

partial_function (option) doall_chain ::
  "('p, 's) lh_callback \<Rightarrow> nat option \<Rightarrow> 'p lhash \<times> 's \<Rightarrow> ('p lhash \<times> 's) option" where
  "doall_chain func cur s =
     (case cur of
        None \<Rightarrow> Some s
      | Some a \<Rightarrow>
          (case lh_items (fst s) a of
             None \<Rightarrow> None
           | Some it \<Rightarrow>
               (case func (it_data it) s of
                  None \<Rightarrow> None
                | Some s \<Rightarrow> doall_chain func (it_next it) s)))"

partial_function (option) doall_buckets ::
  "('p, 's) lh_callback \<Rightarrow> nat \<Rightarrow> 'p lhash \<times> 's \<Rightarrow> ('p lhash \<times> 's) option" where
  "doall_buckets func i s =
     (if i < num_buckets (fst s) then
        (case doall_chain func (buckets (fst s) ! i) s of
           None \<Rightarrow> None
         | Some s \<Rightarrow> doall_buckets func (i + 1) s)
      else Some s)"

definition lh_doall_internal ::
  "'p lh_heap \<Rightarrow> 'p lhash option \<Rightarrow> ('p, 's) lh_callback \<Rightarrow> 's \<Rightarrow> ('p lhash option \<times> 's) option" where
  "lh_doall_internal e lh func arg =
     (case lh of
        None \<Rightarrow> Some (None, arg)
      | Some t \<Rightarrow>
          let t = (if callback_depth t < UINT_MAX then t\<lparr>callback_depth := callback_depth t + 1\<rparr> else t) in
          (case doall_buckets func 0 (t, arg) of
             None \<Rightarrow> None
           | Some (t, arg) \<Rightarrow>
               let t = (if callback_depth t < UINT_MAX then t\<lparr>callback_depth := callback_depth t - 1\<rparr> else t) in
               map_option (\<lambda>t. (Some t, arg)) (lh_maybe_resize e t)))"

definition lh_strhash :: "u8 list option \<Rightarrow> u32" where
  "lh_strhash c = (case c of None \<Rightarrow> 0 | Some s \<Rightarrow> OPENSSL_hash32 s (strlen s))"


section \<open>Chains of items\<close>

primrec chain :: "(nat \<rightharpoonup> 'p lhash_item) \<Rightarrow> nat option \<Rightarrow> nat list \<Rightarrow> bool" where
  "chain m p [] \<longleftrightarrow> p = None"
| "chain m p (a # as) \<longleftrightarrow> p = Some a \<and> m a \<noteq> None \<and> chain m (it_next (the (m a))) as"

lemma chain_None [simp]: "chain m None as \<longleftrightarrow> as = []"
  by (cases as) auto

lemma chain_Some: "chain m (Some a) as \<longleftrightarrow> (\<exists>as' it. as = a # as' \<and> m a = Some it \<and> chain m (it_next it) as')"
  by (cases as) auto

lemma chain_upd [simp]: "a \<notin> set as \<Longrightarrow> chain (m(a := x)) p as = chain m p as"
  by (induction as arbitrary: p) auto

lemma chain_dom: "chain m p as \<Longrightarrow> set as \<subseteq> dom m"
  by (induction as arbitrary: p) auto

lemma chain_cong:
  assumes "\<forall>a\<in>set as. map_option it_next (m a) = map_option it_next (m' a)"
  shows "chain m p as = chain m' p as"
  using assms
proof (induction as arbitrary: p)
  case (Cons a as)
  then show ?case by (cases "m a"; cases "m' a") auto
qed simp

lemma chain_data_upd [simp]: "m a = Some it \<Longrightarrow> chain (m(a \<mapsto> it\<lparr>it_data := d\<rparr>)) p as = chain m p as"
  by (rule chain_cong) auto

lemma chain_det: "chain m p as \<Longrightarrow> chain m p bs \<Longrightarrow> as = bs"
proof (induction as arbitrary: p bs)
  case (Cons a as)
  then show ?case by (cases bs) auto
qed simp

text \<open>The place that holds the pointer to what follows the items \<open>pre\<close> of a chain.\<close>

definition end_of :: "item_ref \<Rightarrow> nat list \<Rightarrow> item_ref" where
  "end_of r pre = (if pre = [] then r else Next (last pre))"

lemma end_of_simps [simp]: "end_of r [] = r" "end_of r (a # as) = end_of (Next a) as"
  by (simp_all add: end_of_def)

definition item_data :: "'p lhash \<Rightarrow> nat \<Rightarrow> 'p option" where
  "item_data t a = it_data (the (lh_items t a))"

definition matches :: "'p lhash \<Rightarrow> 'p option \<Rightarrow> nat \<Rightarrow> bool" where
  "matches t k a \<longleftrightarrow> lh_comp t (item_data t a) k = 0"

text \<open>The search stops at the first item that matches, or behind the last one.\<close>

lemma next_ptr_loop_chain:
  "chain (lh_items t) p as \<Longrightarrow> deref t r = Some p
    \<Longrightarrow> next_ptr_loop t k r = Some (end_of r (takeWhile (\<lambda>a. \<not> matches t k a) as))"
proof (induction as arbitrary: p r)
  case Nil
  then show ?case by (simp add: next_ptr_loop.simps [of t k r])
next
  case (Cons a as)
  then obtain it where it: "p = Some a" "lh_items t a = Some it" "chain (lh_items t) (it_next it) as"
    by auto
  have "deref t (Next a) = Some (it_next it)" using it by (simp add: deref_def)
  from Cons.IH [OF it(3) this] show ?case
    using Cons.prems(2) it by (simp add: next_ptr_loop.simps [of t k r] matches_def item_data_def)
qed

lemma deref_end_of:
  "chain (lh_items t) p (pre @ rest) \<Longrightarrow> deref t r = Some p
    \<Longrightarrow> \<exists>q. deref t (end_of r pre) = Some q \<and> chain (lh_items t) q rest"
proof (induction pre arbitrary: p r)
  case (Cons a pre)
  then obtain it where it: "lh_items t a = Some it" "chain (lh_items t) (it_next it) (pre @ rest)"
    by auto
  have "deref t (Next a) = Some (it_next it)" using it by (simp add: deref_def)
  from Cons.IH [OF it(2) this] show ?case by simp
qed simp

text \<open>Overwriting the place behind \<open>pre\<close> replaces the rest of the chain.\<close>

lemma chain_set_next:
  "chain m p (pre @ rest) \<Longrightarrow> pre \<noteq> [] \<Longrightarrow> distinct pre \<Longrightarrow> m (last pre) = Some it
    \<Longrightarrow> chain m v rest' \<Longrightarrow> set pre \<inter> set rest' = {}
    \<Longrightarrow> chain (m(last pre \<mapsto> it\<lparr>it_next := v\<rparr>)) p (pre @ rest')"
proof (induction pre arbitrary: p)
  case (Cons a pre)
  show ?case
  proof (cases "pre = []")
    case True
    then show ?thesis using Cons.prems by (simp del: fun_upd_apply add: fun_upd_same)
  next
    case False
    then have "last pre \<noteq> a" using Cons.prems(3) by auto
    then show ?thesis using Cons False by auto
  qed
qed simp

section \<open>Well-formed tables\<close>

text \<open>\<open>bss\<close> are the addresses of the items of the chains, bucket by bucket.\<close>

definition lh_chains :: "'p lhash \<Rightarrow> nat list list \<Rightarrow> bool" where
  "lh_chains t bss \<longleftrightarrow>
     length (buckets t) = num_buckets t \<and> length bss = num_buckets t \<and> kMinNumBuckets \<le> num_buckets t
     \<and> (\<forall>i < num_buckets t. chain (lh_items t) (buckets t ! i) (bss ! i))
     \<and> distinct (concat bss) \<and> dom (lh_items t) = set (concat bss)
     \<and> (\<forall>i < num_buckets t. \<forall>a\<in>set (bss ! i). unat (it_hash (the (lh_items t a))) mod num_buckets t = i)"

definition lh_keyed :: "'p lhash \<Rightarrow> bool" where
  "lh_keyed t \<longleftrightarrow>
     (\<forall>a\<in>dom (lh_items t). it_hash (the (lh_items t a)) = lh_hash t (item_data t a))
     \<and> (\<forall>a\<in>dom (lh_items t). \<forall>b\<in>dom (lh_items t). matches t (item_data t b) a \<longrightarrow> a = b)"

definition lh_wf :: "('p option \<Rightarrow> bool) \<Rightarrow> 'p lhash \<Rightarrow> bool" where
  "lh_wf valid t \<longleftrightarrow>
     (\<exists>bss. lh_chains t bss) \<and> num_items t = card (dom (lh_items t)) \<and> lh_keyed t
     \<and> dom (lh_items t) \<subseteq> {..<2 ^ 58} \<and> num_buckets t < 2 ^ 60 \<and> (\<forall>a\<in>dom (lh_items t). valid (item_data t a))"

definition lh_heap_ok :: "'p lh_heap \<Rightarrow> bool" where
  "lh_heap_ok e \<longleftrightarrow> (\<forall>n. can_alloc e n \<longrightarrow> n < 2 ^ 62) \<and> (\<forall>m a. new_item e m = Some a \<longrightarrow> m a = None \<and> a < 2 ^ 58)"

text \<open>The elements of the table.\<close>

definition lh_contents :: "'p lhash \<Rightarrow> 'p option set" where
  "lh_contents t = item_data t ` dom (lh_items t)"


section \<open>Redistribution\<close>

definition bucket_of :: "(nat \<rightharpoonup> 'p lhash_item) \<Rightarrow> nat \<Rightarrow> nat \<Rightarrow> nat" where
  "bucket_of m n a = unat (it_hash (the (m a))) mod n"

text \<open>Two stores hold the same items, but for the next pointers.\<close>

definition same_items :: "(nat \<rightharpoonup> 'p lhash_item) \<Rightarrow> (nat \<rightharpoonup> 'p lhash_item) \<Rightarrow> bool" where
  "same_items m m' \<longleftrightarrow> (\<forall>a. map_option (\<lambda>it. (it_data it, it_hash it)) (m' a) = map_option (\<lambda>it. (it_data it, it_hash it)) (m a))"

lemma same_items_refl [simp]: "same_items m m"
  by (simp add: same_items_def)

lemma same_items_trans: "same_items m m' \<Longrightarrow> same_items m' m'' \<Longrightarrow> same_items m m''"
  by (simp add: same_items_def)

lemma same_items_next [simp]: "m a = Some it \<Longrightarrow> same_items m (m(a \<mapsto> it\<lparr>it_next := p\<rparr>))"
  by (simp add: same_items_def)

lemma same_items_None: "same_items m m' \<Longrightarrow> m' a = None \<longleftrightarrow> m a = None"
  unfolding same_items_def by (drule spec [of _ a]) (cases "m a"; cases "m' a"; auto)

lemma same_items_dom: "same_items m m' \<Longrightarrow> dom m' = dom m"
  by (simp add: dom_def same_items_None)

lemma same_items_eq:
  assumes "same_items m m'" "a \<in> dom m"
  shows "it_data (the (m' a)) = it_data (the (m a))" "it_hash (the (m' a)) = it_hash (the (m a))"
proof -
  obtain it it' where it: "m a = Some it" "m' a = Some it'" using assms same_items_None [of m m' a] by auto
  have "map_option (\<lambda>it. (it_data it, it_hash it)) (m' a) = map_option (\<lambda>it. (it_data it, it_hash it)) (m a)"
    using assms(1) by (simp add: same_items_def)
  then show "it_data (the (m' a)) = it_data (the (m a))" "it_hash (the (m' a)) = it_hash (the (m a))"
    by (simp_all add: it)
qed

lemma same_items_bucket: "same_items m m' \<Longrightarrow> a \<in> dom m \<Longrightarrow> bucket_of m' n a = bucket_of m n a"
  by (simp add: bucket_of_def same_items_eq)

lemma rebucket_chain_correct:
  assumes "chain m cur as" "distinct as" "length nb = n" "0 < n"
    "\<forall>i<n. chain m (nb ! i) (ns i) \<and> set (ns i) \<inter> set as = {}"
  shows "\<exists>m' nb'. rebucket_chain n cur m nb = Some (m', nb') \<and> length nb' = n \<and> same_items m m'
    \<and> (\<forall>a. a \<notin> set as \<longrightarrow> m' a = m a)
    \<and> (\<forall>i<n. chain m' (nb' ! i) (rev (filter (\<lambda>a. bucket_of m n a = i) as) @ ns i))"
  using assms
proof (induction as arbitrary: cur m nb ns)
  case Nil
  then show ?case by (simp add: rebucket_chain.simps [of n None])
next
  case (Cons a as)
  then obtain it where it: "cur = Some a" "m a = Some it" "chain m (it_next it) as" by auto
  define b where "b = bucket_of m n a"
  have b: "b < n" using Cons.prems(4) by (simp add: b_def bucket_of_def)
  define m1 where "m1 = m(a \<mapsto> it\<lparr>it_next := nb ! b\<rparr>)"
  define nb1 where "nb1 = nb[b := Some a]"
  define ns1 where "ns1 = ns(b := a # ns b)"
  have s1: "same_items m m1" using it(2) by (simp add: m1_def)
  have "rebucket_chain n cur m nb = rebucket_chain n (it_next it) m1 nb1"
    unfolding it(1) using it(2)
    by (simp add: rebucket_chain.simps [of n "Some a"] m1_def nb1_def b_def bucket_of_def Let_def)
  moreover have 1: "chain m1 (it_next it) as" "distinct as" "length nb1 = n"
    using it(3) Cons.prems by (simp_all add: m1_def nb1_def)
  have 2: "chain m1 (nb1 ! i) (ns1 i) \<and> set (ns1 i) \<inter> set as = {}" if i: "i < n" for i
  proof (cases "i = b")
    case True
    have "chain m (nb ! b) (ns b)" "a \<notin> set (ns b)" "set (ns b) \<inter> set as = {}" using Cons.prems(5) b by auto
    then show ?thesis using True Cons.prems(2,3) b
      by (simp add: ns1_def nb1_def m1_def del: fun_upd_apply add: fun_upd_same)
  next
    case False
    have "chain m (nb ! i) (ns i)" "a \<notin> set (ns i)" "set (ns i) \<inter> set as = {}" using Cons.prems(5) i by auto
    then show ?thesis using False by (simp add: ns1_def nb1_def m1_def)
  qed
  then have 2: "\<forall>i<n. chain m1 (nb1 ! i) (ns1 i) \<and> set (ns1 i) \<inter> set as = {}" by blast
  obtain m' nb' where r: "rebucket_chain n (it_next it) m1 nb1 = Some (m', nb')" "length nb' = n" "same_items m1 m'"
    "\<forall>a. a \<notin> set as \<longrightarrow> m' a = m1 a"
    "\<forall>i<n. chain m' (nb' ! i) (rev (filter (\<lambda>a. bucket_of m1 n a = i) as) @ ns1 i)"
    using Cons.IH [OF 1 Cons.prems(4) 2] by blast
  have "bucket_of m1 n x = bucket_of m n x" if "x \<in> set as" for x
    using same_items_bucket [OF s1] chain_dom [OF it(3)] that by blast
  then have f: "filter (\<lambda>a. bucket_of m1 n a = i) as = filter (\<lambda>a. bucket_of m n a = i) as" for i
    by (intro filter_cong) simp_all
  have "chain m' (nb' ! i) (rev (filter (\<lambda>a. bucket_of m n a = i) (a # as)) @ ns i)" if "i < n" for i
    using r(5) that by (auto simp: f ns1_def b_def [symmetric])
  ultimately show ?case
    using r same_items_trans [OF s1 r(3)] by (auto simp: m1_def)
qed

lemma rebucket_all_correct:
  assumes "list_all2 (chain m) bs bss" "distinct (concat bss)" "length nb = n" "0 < n"
    "\<forall>i<n. chain m (nb ! i) (ns i) \<and> set (ns i) \<inter> set (concat bss) = {}"
  shows "\<exists>m' nb'. rebucket_all n bs (m, nb) = Some (m', nb') \<and> length nb' = n \<and> same_items m m'
    \<and> (\<forall>i<n. chain m' (nb' ! i) (rev (filter (\<lambda>a. bucket_of m n a = i) (concat bss)) @ ns i))"
  using assms
proof (induction bss arbitrary: bs m nb ns rule: list.induct)
  case Nil
  have "bs = []" using Nil.prems(1) by simp
  then show ?case using Nil by auto
next
  case (Cons as bss)
  obtain b bs' where bs: "bs = b # bs'" "chain m b as" "list_all2 (chain m) bs' bss"
    using Cons.prems(1) by (auto simp: list_all2_Cons2)
  have d: "distinct as" "distinct (concat bss)" "set as \<inter> set (concat bss) = {}" using Cons.prems(2) by auto
  have "\<forall>i<n. chain m (nb ! i) (ns i) \<and> set (ns i) \<inter> set as = {}" using Cons.prems(5) by auto
  from rebucket_chain_correct [OF bs(2) d(1) Cons.prems(3,4) this] obtain m1 nb1 where
    r1: "rebucket_chain n b m nb = Some (m1, nb1)" "length nb1 = n" "same_items m m1" "\<forall>a. a \<notin> set as \<longrightarrow> m1 a = m a"
    "\<forall>i<n. chain m1 (nb1 ! i) (rev (filter (\<lambda>a. bucket_of m n a = i) as) @ ns i)" by blast
  define ns1 where "ns1 i = rev (filter (\<lambda>a. bucket_of m n a = i) as) @ ns i" for i
  have "chain m1 p cs" if "cs \<in> set bss" "chain m p cs" for p cs
  proof -
    have "\<forall>a\<in>set cs. m1 a = m a" using that(1) d(3) r1(4) by auto
    then show ?thesis using chain_cong [of cs m1 m p] that(2) by simp
  qed
  then have l: "list_all2 (chain m1) bs' bss"
    using bs(3) by (auto simp: list_all2_conv_all_nth)
  have "\<forall>i<n. chain m1 (nb1 ! i) (ns1 i) \<and> set (ns1 i) \<inter> set (concat bss) = {}"
    using r1(5) Cons.prems(5) d(3) by (auto simp: ns1_def)
  from Cons.IH [OF l d(2) r1(2) Cons.prems(4) this] obtain m' nb' where
    r: "rebucket_all n bs' (m1, nb1) = Some (m', nb')" "length nb' = n" "same_items m1 m'"
    "\<forall>i<n. chain m' (nb' ! i) (rev (filter (\<lambda>a. bucket_of m1 n a = i) (concat bss)) @ ns1 i)" by blast
  have sub: "set cs \<subseteq> dom m" if "cs \<in> set bss" for cs
    using bs(3) that chain_dom by (fastforce simp: list_all2_conv_all_nth in_set_conv_nth)
  have "filter (\<lambda>a. bucket_of m1 n a = i) (concat bss) = filter (\<lambda>a. bucket_of m n a = i) (concat bss)" for i
    using sub by (intro filter_cong) (auto intro!: arg_cong [where f = "\<lambda>x. x = i"] same_items_bucket [OF r1(3)])
  then show ?case
    using r r1(1) bs(1) same_items_trans [OF r1(3) r(3)] by (simp add: ns1_def)
qed


text \<open>The new chains hold each old item once, in its bucket.\<close>

lemma distribute:
  assumes "distinct xs"
  shows "distinct (concat (map (\<lambda>i. rev (filter (\<lambda>a. f a = i) xs)) [0..<k]))"
    and "set (concat (map (\<lambda>i. rev (filter (\<lambda>a. f a = i) xs)) [0..<k])) = {a \<in> set xs. f a < (k :: nat)}"
  using assms by (induction k) auto

lemma item_data_same:
  assumes "same_items (lh_items t) (lh_items t')" "a \<in> dom (lh_items t)"
  shows "item_data t' a = item_data t a"
  using same_items_eq(1) [OF assms] by (simp add: item_data_def)

lemma lh_contents_same: "same_items (lh_items t) (lh_items t') \<Longrightarrow> lh_contents t' = lh_contents t"
  by (auto simp: lh_contents_def same_items_dom item_data_same)

lemma lh_keyed_same:
  assumes "same_items (lh_items t) (lh_items t')" "lh_hash t' = lh_hash t" "lh_comp t' = lh_comp t" "lh_keyed t"
  shows "lh_keyed t'"
  using assms by (auto simp: lh_keyed_def same_items_dom item_data_same matches_def same_items_eq domIff)

lemma lh_chains_list_all2: "lh_chains t bss \<Longrightarrow> list_all2 (chain (lh_items t)) (buckets t) bss"
  by (simp add: lh_chains_def list_all2_conv_all_nth)

lemma lh_rebucket_correct:
  assumes "lh_heap_ok e" "lh_wf valid t" "kMinNumBuckets \<le> n" "n + 1 < 2 ^ 61"
  shows "\<exists>t'. lh_rebucket e t n = Some t' \<and> lh_wf valid t' \<and> lh_contents t' = lh_contents t
    \<and> lh_comp t' = lh_comp t \<and> lh_hash t' = lh_hash t \<and> callback_depth t' = callback_depth t \<and> num_items t' = num_items t"
proof -
  obtain bss where c: "lh_chains t bss" using assms(2) by (auto simp: lh_wf_def)
  have n: "0 < n" using assms(3) by (simp add: kMinNumBuckets_def)
  have d: "distinct (concat bss)" "dom (lh_items t) = set (concat bss)" using c by (simp_all add: lh_chains_def)
  have "\<forall>i<n. chain (lh_items t) (replicate n None ! i) [] \<and> set ([] :: nat list) \<inter> set (concat bss) = {}" by simp
  from rebucket_all_correct [OF lh_chains_list_all2 [OF c] d(1) length_replicate n this] obtain m' nb' where
    r: "rebucket_all n (buckets t) (lh_items t, replicate n None) = Some (m', nb')" "length nb' = n"
    "same_items (lh_items t) m'"
    "\<forall>i<n. chain m' (nb' ! i) (rev (filter (\<lambda>a. bucket_of (lh_items t) n a = i) (concat bss)) @ [])" by blast
  define t' where "t' = t\<lparr>lh_items := m', num_buckets := n, buckets := nb'\<rparr>"
  define bss' where "bss' = map (\<lambda>i. rev (filter (\<lambda>a. bucket_of (lh_items t) n a = i) (concat bss))) [0..<n]"
  have s: "same_items (lh_items t) (lh_items t')" using r(3) by (simp add: t'_def)
  have dom: "dom (lh_items t') = dom (lh_items t)" by (rule same_items_dom [OF s])
  have "set (concat bss') = set (concat bss)"
    unfolding bss'_def distribute(2) [OF d(1)] using n by (auto simp: bucket_of_def)
  moreover have "unat (it_hash (the (m' a))) mod n = i" if "i < n" "a \<in> set (bss' ! i)" for a i
    using that same_items_bucket [OF r(3), of a n] d(2) by (auto simp: bss'_def bucket_of_def)
  moreover have "chain m' (nb' ! i) (bss' ! i)" if "i < n" for i
    using that r(4) by (simp add: bss'_def)
  moreover have "distinct (concat bss')" unfolding bss'_def by (rule distribute(1) [OF d(1)])
  ultimately have "lh_chains t' bss'"
    using r(2) assms(3) dom d(2) by (simp add: lh_chains_def t'_def bss'_def)
  moreover have "lh_keyed t'" by (rule lh_keyed_same [OF s]) (use assms(2) in \<open>simp_all add: t'_def lh_wf_def\<close>)
  moreover have "\<forall>a\<in>dom (lh_items t'). valid (item_data t' a)"
    using assms(2) dom item_data_same [OF s] by (simp add: lh_wf_def)
  ultimately have wf: "lh_wf valid t'" if "n < 2 ^ 60"
    using assms(2) dom that by (auto simp: lh_wf_def t'_def)
  show ?thesis
  proof (cases "lh_rebucket e t n = Some t")
    case True
    then show ?thesis using assms(2) by simp
  next
    case False
    have m: "size_mul 8 n = 8 * n" using assms(4) by (simp add: size_mul_def)
    have a: "size_add (8 * n) 8 = 8 * n + 8" by (rule size_add_exact) (use assms(4) in simp)
    have "lh_rebucket e t n = Some t'" "can_alloc e (8 * n + 8)"
      using False r(1) m a by (simp_all add: lh_rebucket_def Let_def t'_def split: if_splits)
    moreover from this(2) have "8 * n + 8 < 2 ^ 62" using assms(1) unfolding lh_heap_ok_def by blast
    ultimately show ?thesis using wf lh_contents_same [OF s] by (simp add: t'_def)
  qed
qed

lemma lh_maybe_resize_correct:
  assumes "lh_heap_ok e" "lh_wf valid t"
  shows "\<exists>t'. lh_maybe_resize e t = Some t' \<and> lh_wf valid t' \<and> lh_contents t' = lh_contents t
    \<and> lh_comp t' = lh_comp t \<and> lh_hash t' = lh_hash t \<and> callback_depth t' = callback_depth t \<and> num_items t' = num_items t"
proof -
  have n: "kMinNumBuckets \<le> num_buckets t" "num_buckets t < 2 ^ 60"
    using assms(2) by (auto simp: lh_wf_def lh_chains_def)
  have m: "size_mul (num_buckets t) 2 = 2 * num_buckets t" using n(2) by (simp add: size_mul_def)
  have "\<exists>n. lh_maybe_resize e t = Some t \<or> lh_maybe_resize e t = lh_rebucket e t n \<and> kMinNumBuckets \<le> n \<and> n + 1 < 2 ^ 61"
    unfolding lh_maybe_resize_def Let_def m using n by auto
  then show ?thesis using lh_rebucket_correct [OF assms] assms(2) by metis
qed


section \<open>Overwriting a place of a chain\<close>

lemma concat_at:
  assumes "i < length bss"
  shows "concat bss = concat (take i bss) @ bss ! i @ concat (drop (Suc i) bss)"
    "concat (bss[i := ys]) = concat (take i bss) @ ys @ concat (drop (Suc i) bss)"
proof -
  show "concat bss = concat (take i bss) @ bss ! i @ concat (drop (Suc i) bss)"
    by (subst id_take_nth_drop [OF assms]) simp
  show "concat (bss[i := ys]) = concat (take i bss) @ ys @ concat (drop (Suc i) bss)"
    by (simp add: upd_conv_take_nth_drop [OF assms])
qed

lemma other_chain:
  assumes "distinct (concat bss)" "i < length bss" "j < length bss" "i \<noteq> j"
  shows "set (bss ! i) \<inter> set (bss ! j) = {}"
proof -
  have "set (bss ! j) \<subseteq> set (concat (take i bss)) \<union> set (concat (drop (Suc i) bss))"
  proof (cases "j < i")
    case True
    then have "bss ! j \<in> set (take i bss)" using assms(2) by (auto simp: in_set_conv_nth)
    then show ?thesis by auto
  next
    case False
    then have "bss ! j = drop (Suc i) bss ! (j - Suc i)" "j - Suc i < length (drop (Suc i) bss)" using assms(3,4) by auto
    then have "bss ! j \<in> set (drop (Suc i) bss)" by (metis nth_mem)
    then show ?thesis by auto
  qed
  moreover have "set (bss ! i) \<inter> set (concat (take i bss)) = {}" "set (bss ! i) \<inter> set (concat (drop (Suc i) bss)) = {}"
    using assms(1) unfolding concat_at(1) [OF assms(2)] by auto
  ultimately show ?thesis by blast
qed

lemma put_ref_same [simp]:
  "same_items (lh_items t) (lh_items (put_ref t r p))" "num_buckets (put_ref t r p) = num_buckets t"
  "num_items (put_ref t r p) = num_items t" "callback_depth (put_ref t r p) = callback_depth t"
  "lh_comp (put_ref t r p) = lh_comp t" "lh_hash (put_ref t r p) = lh_hash t"
  "length (buckets (put_ref t r p)) = length (buckets t)"
  by (auto simp: put_ref_def same_items_def option.map_comp comp_def split: item_ref.split)

lemma put_ref_chains:
  assumes "length (buckets t) = length bss" "\<forall>j < length bss. chain (lh_items t) (buckets t ! j) (bss ! j)"
    "distinct (concat bss)" "i < length bss" "bss ! i = pre @ rest" "chain (lh_items t) v rest'" "set pre \<inter> set rest' = {}"
    "j < length bss"
  defines "t' \<equiv> put_ref t (end_of (Bucket i) pre) v"
  shows "chain (lh_items t') (buckets t' ! j) (bss[i := pre @ rest'] ! j)"
proof (cases "pre = []")
  case True
  then show ?thesis using assms by (cases "i = j") (simp_all add: put_ref_def)
next
  case False
  have c: "chain (lh_items t) (buckets t ! i) (pre @ rest)" using assms(2,4,5) by auto
  then have "last pre \<in> dom (lh_items t)" using chain_dom [OF c] last_in_set [OF False] by auto
  then obtain it where it: "lh_items t (last pre) = Some it" by blast
  have t': "lh_items t' = (lh_items t)(last pre \<mapsto> it\<lparr>it_next := v\<rparr>)" "buckets t' = buckets t"
    using False it by (simp_all add: t'_def put_ref_def end_of_def)
  show ?thesis
  proof (cases "i = j")
    case True
    have "distinct (bss ! i)" using assms(3) unfolding concat_at(1) [OF assms(4)] by simp
    then have "distinct pre" using assms(5) by simp
    then show ?thesis
      unfolding t' using True assms(4) chain_set_next [OF c False _ it assms(6,7)] by simp
  next
    case neq: False
    have "last pre \<in> set (bss ! i)" using False assms(5) by simp
    then have "last pre \<notin> set (bss ! j)" using other_chain [OF assms(3,4,8) neq] by blast
    then show ?thesis unfolding t' using neq assms(2,8) by simp
  qed
qed

section \<open>The contract of the hash and comparison functions\<close>

text \<open>
  On valid elements the comparison decides an equivalence, and equal elements have equal
  hashes.
\<close>

locale lhash_keys =
  fixes valid :: "'p option \<Rightarrow> bool" and hash :: "'p option \<Rightarrow> u32" and cmp :: "'p option \<Rightarrow> 'p option \<Rightarrow> int"
  assumes refl: "valid x \<Longrightarrow> cmp x x = 0"
    and sym: "valid x \<Longrightarrow> valid y \<Longrightarrow> cmp x y = 0 \<Longrightarrow> cmp y x = 0"
    and trans: "valid x \<Longrightarrow> valid y \<Longrightarrow> valid z \<Longrightarrow> cmp x y = 0 \<Longrightarrow> cmp y z = 0 \<Longrightarrow> cmp x z = 0"
    and hash: "valid x \<Longrightarrow> valid y \<Longrightarrow> cmp x y = 0 \<Longrightarrow> hash x = hash y"
begin

definition table :: "'p lhash \<Rightarrow> bool" where
  "table t \<longleftrightarrow> lh_wf valid t \<and> lh_comp t = cmp \<and> lh_hash t = hash"

lemma search:
  assumes "table t" "valid k"
  obtains bss i pre rest q where "lh_chains t bss" "i < length bss" "bss ! i = pre @ rest" "i = unat (hash k) mod num_buckets t"
    "get_next_ptr_and_hash t k = Some (end_of (Bucket i) pre, hash k)"
    "deref t (end_of (Bucket i) pre) = Some q" "chain (lh_items t) q rest"
    "rest = [] \<longrightarrow> (\<forall>b\<in>dom (lh_items t). cmp (item_data t b) k \<noteq> 0)"
    "\<forall>a rest'. rest = a # rest' \<longrightarrow> cmp (item_data t a) k = 0 \<and> (\<forall>b\<in>dom (lh_items t). cmp (item_data t b) k = 0 \<longrightarrow> b = a)"
proof -
  obtain bss where c: "lh_chains t bss" and wf: "lh_wf valid t" and f: "lh_comp t = cmp" "lh_hash t = hash"
    using assms(1) by (auto simp: table_def lh_wf_def)
  define i where "i = unat (hash k) mod num_buckets t"
  have i: "i < length bss" "length bss = num_buckets t" "i < length (buckets t)"
    using c by (simp_all add: lh_chains_def i_def kMinNumBuckets_def)
  define pre where "pre = takeWhile (\<lambda>a. \<not> matches t k a) (bss ! i)"
  define rest where "rest = dropWhile (\<lambda>a. \<not> matches t k a) (bss ! i)"
  have split: "bss ! i = pre @ rest" by (simp add: pre_def rest_def)
  have ch: "chain (lh_items t) (buckets t ! i) (bss ! i)" using c i by (simp add: lh_chains_def)
  have d: "deref t (Bucket i) = Some (buckets t ! i)" using i by (simp add: deref_def)
  have g: "get_next_ptr_and_hash t k = Some (end_of (Bucket i) pre, hash k)"
    using next_ptr_loop_chain [OF ch d, of k] by (simp add: get_next_ptr_and_hash_def Let_def f i_def pre_def)
  obtain q where q: "deref t (end_of (Bucket i) pre) = Some q" "chain (lh_items t) q rest"
    using deref_end_of [OF ch [unfolded split] d] by blast
  have val: "valid (item_data t b)" if "b \<in> dom (lh_items t)" for b using wf that by (simp add: lh_wf_def)
  have "b \<in> set (bss ! i)" if b: "b \<in> dom (lh_items t)" "cmp (item_data t b) k = 0" for b
  proof -
    obtain j where j: "j < length bss" "b \<in> set (bss ! j)"
    proof -
      have "b \<in> set (concat bss)" using b(1) c by (simp add: lh_chains_def)
      then show ?thesis using that by (auto simp: in_set_conv_nth [of _ bss])
    qed
    have "it_hash (the (lh_items t b)) = hash (item_data t b)" using wf b(1) f by (simp add: lh_wf_def lh_keyed_def)
    also have "\<dots> = hash k" by (rule hash [OF val [OF b(1)] assms(2) b(2)])
    finally have "it_hash (the (lh_items t b)) = hash k" .
    moreover have "unat (it_hash (the (lh_items t b))) mod num_buckets t = j"
      using c j unfolding lh_chains_def by metis
    ultimately have "j = i" by (simp add: i_def)
    then show ?thesis using j by simp
  qed
  moreover have "\<not> matches t k b" if "b \<in> set pre" for b using that unfolding pre_def by (metis set_takeWhileD)
  ultimately have nomatch: "\<forall>b\<in>dom (lh_items t). cmp (item_data t b) k = 0 \<longrightarrow> b \<in> set rest"
    using split f by (auto simp: matches_def)
  have uniq: "cmp (item_data t a) k = 0 \<and> (\<forall>b\<in>dom (lh_items t). cmp (item_data t b) k = 0 \<longrightarrow> b = a)" if r: "rest = a # rest'" for a rest'
  proof (intro conjI ballI impI)
    have "matches t k a" using r unfolding rest_def by (metis (lifting) dropWhile_eq_Cons_conv)
    then show m: "cmp (item_data t a) k = 0" using f by (simp add: matches_def)
    have a: "a \<in> dom (lh_items t)" using r split ch chain_dom by fastforce
    fix b assume b: "b \<in> dom (lh_items t)" "cmp (item_data t b) k = 0"
    have "cmp (item_data t b) (item_data t a) = 0"
      using trans [of "item_data t b" k "item_data t a"] sym [of "item_data t a" k] m b val a assms(2) by blast
    then show "b = a" using wf a b(1) f by (simp add: lh_wf_def lh_keyed_def matches_def)
  qed
  show ?thesis
    by (rule that [OF c i(1) split i_def g q]) (use nomatch uniq in auto)
qed

end


text \<open>A fresh item at the end of its chain, and an item taken out of its chain.\<close>

definition with_item :: "'p lhash \<Rightarrow> nat \<Rightarrow> 'p option \<Rightarrow> u32 \<Rightarrow> 'p lhash" where
  "with_item t a d h = t\<lparr>lh_items := (lh_items t)(a \<mapsto> \<lparr>it_data = d, it_next = None, it_hash = h\<rparr>)\<rparr>"

lemma with_item_simps [simp]:
  "dom (lh_items (with_item t a d h)) = insert a (dom (lh_items t))"
  "item_data (with_item t a d h) b = (if b = a then d else item_data t b)"
  "it_hash (the (lh_items (with_item t a d h) b)) = (if b = a then h else it_hash (the (lh_items t b)))"
  "num_buckets (with_item t a d h) = num_buckets t" "buckets (with_item t a d h) = buckets t"
  "num_items (with_item t a d h) = num_items t" "callback_depth (with_item t a d h) = callback_depth t"
  "lh_comp (with_item t a d h) = lh_comp t" "lh_hash (with_item t a d h) = lh_hash t"
  by (auto simp: with_item_def item_data_def)

lemma nth_in_concat: "j < length bss \<Longrightarrow> b \<in> set (bss ! j) \<Longrightarrow> b \<in> set (concat bss)"
  by (auto intro: nth_mem)

lemma lh_chains_nth: "lh_chains t bss \<Longrightarrow> j < length bss \<Longrightarrow> b \<in> set (bss ! j) \<Longrightarrow>
    b \<in> dom (lh_items t) \<and> unat (it_hash (the (lh_items t b))) mod num_buckets t = j"
  using nth_in_concat [of j bss b] unfolding lh_chains_def by metis

lemma append_item_chains:
  assumes c: "lh_chains t bss" and i: "i < length bss" "i = unat h mod num_buckets t" and a: "lh_items t a = None"
  shows "lh_chains (put_ref (with_item t a d h) (end_of (Bucket i) (bss ! i)) (Some a)) (bss[i := bss ! i @ [a]])"
proof -
  define t1 where "t1 = with_item t a d h"
  define t2 where "t2 = put_ref t1 (end_of (Bucket i) (bss ! i)) (Some a)"
  have an: "a \<notin> set (concat bss)" using a c by (auto simp: lh_chains_def)
  have len: "length bss = num_buckets t" "length (buckets t) = num_buckets t" "distinct (concat bss)"
    using c by (simp_all add: lh_chains_def)
  have ch1: "\<forall>j < length bss. chain (lh_items t1) (buckets t1 ! j) (bss ! j)"
    using c an nth_in_concat [of _ bss a] by (auto simp: lh_chains_def t1_def with_item_def)
  have "chain (lh_items t1) (Some a) [a]" by (simp add: t1_def with_item_def)
  moreover have "set (bss ! i) \<inter> set [a] = {}" using an i by (auto simp: concat_at(1) [OF i(1)])
  ultimately have ch2: "chain (lh_items t2) (buckets t2 ! j) (bss[i := bss ! i @ [a]] ! j)" if "j < length bss" for j
    unfolding t2_def
    using put_ref_chains [OF _ ch1 len(3) i(1) _ _ _ that, of "bss ! i" "[]" "Some a" "[a]"] len by (simp add: t1_def)
  have same: "same_items (lh_items t1) (lh_items t2)" by (simp add: t2_def)
  have dom2: "dom (lh_items t2) = insert a (dom (lh_items t))" using same_items_dom [OF same] by (simp add: t1_def)
  have "distinct (concat (bss[i := bss ! i @ [a]]))" "set (concat (bss[i := bss ! i @ [a]])) = insert a (set (concat bss))"
    unfolding concat_at(2) [OF i(1)] using an len(3) concat_at(1) [OF i(1)] by auto
  moreover have "unat (it_hash (the (lh_items t2 b))) mod num_buckets t = j"
    if "j < num_buckets t" "b \<in> set (bss[i := bss ! i @ [a]] ! j)" for j b
  proof -
    have b: "b = a \<and> j = i \<or> b \<noteq> a \<and> b \<in> set (bss ! j)"
      using that i(1) an len(1) nth_in_concat [of j bss b] by (cases "j = i") auto
    then have "b \<in> dom (lh_items t1)" using lh_chains_nth [OF c, of j b] that(1) len by (auto simp: t1_def)
    then have "it_hash (the (lh_items t2 b)) = it_hash (the (lh_items t1 b))" using same_items_eq(2) [OF same] by blast
    then show ?thesis using b i(2) lh_chains_nth [OF c, of j b] that(1) len by (auto simp: t1_def)
  qed
  ultimately show ?thesis
    using c dom2 ch2 len unfolding t1_def [symmetric] t2_def [symmetric] by (simp add: lh_chains_def) (simp add: t2_def t1_def)
qed

lemma remove_item_chains:
  assumes c: "lh_chains t bss" and i: "i < length bss" "bss ! i = pre @ a # rest" and a: "lh_items t a = Some it"
  defines "t2 \<equiv> put_ref t (end_of (Bucket i) pre) (it_next it)"
  shows "lh_chains (t2\<lparr>lh_items := (lh_items t2)(a := None)\<rparr>) (bss[i := pre @ rest])"
proof -
  have len: "length bss = num_buckets t" "length (buckets t) = num_buckets t" "distinct (concat bss)"
    using c by (simp_all add: lh_chains_def)
  have ch1: "\<forall>j < length bss. chain (lh_items t) (buckets t ! j) (bss ! j)" using c by (simp add: lh_chains_def)
  have dist: "distinct (pre @ a # rest)" using len(3) unfolding concat_at(1) [OF i(1)] i(2) by auto
  have "chain (lh_items t) (buckets t ! i) (pre @ a # rest)" using ch1 i by auto
  from deref_end_of [OF this, of "Bucket i"] have "chain (lh_items t) (it_next it) rest"
    using i(1) len a by (auto simp: deref_def)
  then have ch2: "chain (lh_items t2) (buckets t2 ! j) (bss[i := pre @ rest] ! j)" if "j < length bss" for j
    unfolding t2_def using put_ref_chains [OF _ ch1 len(3) i _ _ that, of "it_next it" rest] len dist by auto
  have same: "same_items (lh_items t) (lh_items t2)" by (simp add: t2_def)
  have mem: "distinct (concat (bss[i := pre @ rest]))" "set (concat (bss[i := pre @ rest])) = set (concat bss) - {a}"
    unfolding concat_at(2) [OF i(1)] using len(3) concat_at(1) [OF i(1)] i(2) by auto
  have out: "a \<notin> set (bss[i := pre @ rest] ! j)" if "j < length bss" for j
    using mem(2) that by (metis Diff_iff UN_I insertI1 length_list_update nth_mem set_concat)
  have "unat (it_hash (the (lh_items t2 b))) mod num_buckets t = j"
    if "j < num_buckets t" "b \<in> set (bss[i := pre @ rest] ! j)" for j b
  proof -
    have "b \<in> set (bss ! j)" using that i len by (cases "j = i") auto
    then show ?thesis
      using lh_chains_nth [OF c, of j b] that(1) len same_items_eq(2) [OF same, of b] by auto
  qed
  then show ?thesis
    using c mem ch2 len same_items_dom [OF same] out by (auto simp: lh_chains_def t2_def)
qed

section \<open>The operations on a table that meets the contract\<close>

context lhash_keys
begin

lemma item_valid: "table t \<Longrightarrow> a \<in> dom (lh_items t) \<Longrightarrow> valid (item_data t a)"
  by (simp add: table_def lh_wf_def)

lemma lh_retrieve_correct:
  assumes "table t" "valid k"
  shows "\<exists>r. lh_retrieve t k = Some r
    \<and> (if \<exists>d\<in>lh_contents t. cmp d k = 0 then r \<in> lh_contents t \<and> cmp r k = 0 else r = None)"
proof -
  obtain bss i pre rest q where "lh_chains t bss" "i < length bss" "bss ! i = pre @ rest" "i = unat (hash k) mod num_buckets t"
    and s: "get_next_ptr_and_hash t k = Some (end_of (Bucket i) pre, hash k)"
    "deref t (end_of (Bucket i) pre) = Some q" "chain (lh_items t) q rest"
    "rest = [] \<longrightarrow> (\<forall>b\<in>dom (lh_items t). cmp (item_data t b) k \<noteq> 0)"
    "\<forall>a rest'. rest = a # rest' \<longrightarrow> cmp (item_data t a) k = 0 \<and> (\<forall>b\<in>dom (lh_items t). cmp (item_data t b) k = 0 \<longrightarrow> b = a)"
    by (rule search [OF assms])
  show ?thesis
  proof (cases rest)
    case Nil
    then show ?thesis using s(1-4) by (auto simp: lh_retrieve_def lh_contents_def)
  next
    case (Cons a rest')
    then have a: "q = Some a" "lh_items t a \<noteq> None" using s(3) by auto
    then have "lh_retrieve t k = Some (item_data t a)" using s(1,2) by (auto simp: lh_retrieve_def item_data_def)
    moreover have "item_data t a \<in> lh_contents t" "cmp (item_data t a) k = 0"
      using a(2) s(5) Cons by (auto simp: lh_contents_def)
    ultimately show ?thesis by auto
  qed
qed


lemma tableD:
  assumes "table t"
  shows "lh_wf valid t" "lh_comp t = cmp" "lh_hash t = hash"
    "\<And>a. a \<in> dom (lh_items t) \<Longrightarrow> it_hash (the (lh_items t a)) = hash (item_data t a)"
    "\<And>a b. a \<in> dom (lh_items t) \<Longrightarrow> b \<in> dom (lh_items t) \<Longrightarrow> cmp (item_data t a) (item_data t b) = 0 \<Longrightarrow> a = b"
    "num_items t = card (dom (lh_items t))" "finite (dom (lh_items t))"
  using assms by (auto simp: table_def lh_wf_def lh_keyed_def matches_def intro: finite_subset)

text \<open>The element of an item is replaced by one equal to it.\<close>

lemma replace_data:
  assumes t: "table t" and a: "lh_items t a = Some it" and d: "valid d" "cmp (item_data t a) d = 0"
  defines "t' \<equiv> t\<lparr>lh_items := (lh_items t)(a \<mapsto> it\<lparr>it_data := d\<rparr>)\<rparr>"
  shows "table t'" "lh_contents t' = insert d (item_data t ` (dom (lh_items t) - {a}))"
proof -
  note T = tableD [OF t]
  have dom: "dom (lh_items t') = dom (lh_items t)" using a by (auto simp: t'_def)
  have dat: "item_data t' b = (if b = a then d else item_data t b)" for b by (simp add: item_data_def t'_def)
  have hsh: "it_hash (the (lh_items t' b)) = it_hash (the (lh_items t b))" for b by (simp add: t'_def a)
  have ad: "a \<in> dom (lh_items t)" using a by auto
  obtain bss where c: "lh_chains t bss" using T(1) by (auto simp: lh_wf_def)
  have "lh_chains t' bss" using c dom hsh by (simp add: lh_chains_def) (simp add: t'_def a)
  moreover have "\<forall>b\<in>dom (lh_items t). it_hash (the (lh_items t' b)) = hash (item_data t' b)"
    using T(4) hash [OF item_valid [OF t ad] d] ad by (simp add: hsh dat)
  moreover have "x = y" if x: "x \<in> dom (lh_items t)" and y: "y \<in> dom (lh_items t)" and m: "cmp (item_data t' x) (item_data t' y) = 0" for x y
  proof (cases "x = a \<or> y = a")
    case True
    have v: "valid (item_data t x)" "valid (item_data t y)" "valid (item_data t a)" using item_valid [OF t] x y ad by auto
    show ?thesis
    proof (cases "x = a")
      case True
      then show ?thesis using m y T(5) [OF ad y] trans [OF v(3) d(1) v(2) d(2)] by (auto simp: dat split: if_splits)
    next
      case False
      then have "cmp (item_data t x) (item_data t a) = 0"
        using m \<open>x = a \<or> y = a\<close> trans [OF v(1) d(1) v(3)] sym [OF v(3) d(1) d(2)] by (simp add: dat)
      then show ?thesis using T(5) [OF x ad] \<open>x = a \<or> y = a\<close> False by blast
    qed
  next
    case False
    then show ?thesis using m T(5) [OF x y] by (simp add: dat)
  qed
  moreover have "\<forall>b\<in>dom (lh_items t). valid (item_data t' b)" using item_valid [OF t] d(1) by (simp add: dat)
  moreover have "lh_hash t' = hash" "lh_comp t' = cmp" "num_items t' = num_items t" "num_buckets t' = num_buckets t"
    using T by (simp_all add: t'_def)
  ultimately show "table t'"
    using T(1) unfolding table_def lh_wf_def lh_keyed_def matches_def dom by auto
  show "lh_contents t' = insert d (item_data t ` (dom (lh_items t) - {a}))"
    unfolding lh_contents_def dom using ad by (auto simp: dat image_iff)
qed

text \<open>An item with a new element goes to the end of its chain.\<close>

lemma append_item:
  assumes t: "table t" and c: "lh_chains t bss" "i < length bss" "i = unat (hash d) mod num_buckets t"
    and a: "lh_items t a = None" "a < 2 ^ 58" and d: "valid d" "\<forall>b\<in>dom (lh_items t). cmp (item_data t b) d \<noteq> 0"
  defines "t2 \<equiv> put_ref (with_item t a d (hash d)) (end_of (Bucket i) (bss ! i)) (Some a)"
  defines "t' \<equiv> t2\<lparr>num_items := size_add (num_items t2) 1\<rparr>"
  shows "table t'" "lh_contents t' = insert d (lh_contents t)"
proof -
  note T = tableD [OF t]
  have same: "same_items (lh_items (with_item t a d (hash d))) (lh_items t')" by (simp add: t'_def t2_def)
  have dom: "dom (lh_items t') = insert a (dom (lh_items t))" using same_items_dom [OF same] by simp
  have dat: "item_data t' b = (if b = a then d else item_data t b)" if "b \<in> insert a (dom (lh_items t))" for b
    using item_data_same [OF same, of b] that by simp
  have hsh: "it_hash (the (lh_items t' b)) = (if b = a then hash d else it_hash (the (lh_items t b)))"
    if "b \<in> insert a (dom (lh_items t))" for b
    using same_items_eq(2) [OF same, of b] that by simp
  have ad: "a \<notin> dom (lh_items t)" using a by auto
  have "lh_chains t2 (bss[i := bss ! i @ [a]])" unfolding t2_def by (rule append_item_chains [OF c a(1)])
  then have "lh_chains t' (bss[i := bss ! i @ [a]])" by (simp add: lh_chains_def t'_def)
  moreover have "\<forall>b\<in>dom (lh_items t'). it_hash (the (lh_items t' b)) = hash (item_data t' b)"
    unfolding dom using T(4) ad by (simp add: hsh dat)
  moreover have "\<forall>x\<in>dom (lh_items t'). \<forall>y\<in>dom (lh_items t'). cmp (item_data t' x) (item_data t' y) = 0 \<longrightarrow> x = y"
  proof -
    have "\<forall>y\<in>dom (lh_items t). cmp d (item_data t y) \<noteq> 0" using d sym [OF d(1)] item_valid [OF t] by blast
    then show ?thesis unfolding dom using T(5) d(2) ad by (simp add: dat)
  qed
  moreover have "\<forall>b\<in>dom (lh_items t'). valid (item_data t' b)" unfolding dom using item_valid [OF t] d(1) by (auto simp: dat)
  moreover have "lh_hash t' = hash" "lh_comp t' = cmp" "num_buckets t' = num_buckets t"
    using T by (simp_all add: t'_def t2_def)
  moreover have "dom (lh_items t') \<subseteq> {..<2 ^ 58}" using T(1) a(2) by (simp add: dom lh_wf_def)
  moreover have "num_items t' = card (dom (lh_items t'))"
  proof -
    have "dom (lh_items t) \<subseteq> {..<2 ^ 58}" using T(1) by (simp add: lh_wf_def)
    then have "card (dom (lh_items t)) \<le> 2 ^ 58" by (metis card_lessThan card_mono finite_lessThan)
    then have "size_add (num_items t) 1 = num_items t + 1" using T(6) by (intro size_add_exact) simp
    then show ?thesis using ad T(6,7) by (simp add: dom) (simp add: t'_def t2_def)
  qed
  ultimately show "table t'"
    using T(1) unfolding table_def lh_wf_def lh_keyed_def matches_def by auto
  show "lh_contents t' = insert d (lh_contents t)"
    unfolding lh_contents_def dom using ad by (auto simp: dat image_iff)
qed

lemma remove_item:
  assumes t: "table t" and c: "lh_chains t bss" "i < length bss" "bss ! i = pre @ a # rest" and a: "lh_items t a = Some it"
  defines "t2 \<equiv> put_ref t (end_of (Bucket i) pre) (it_next it)"
  defines "t' \<equiv> t2\<lparr>lh_items := (lh_items t2)(a := None), num_items := num_items t2 - 1\<rparr>"
  shows "table t'" "lh_contents t' = item_data t ` (dom (lh_items t) - {a})"
proof -
  note T = tableD [OF t]
  have same: "same_items (lh_items t) (lh_items t2)" by (simp add: t2_def)
  have dom: "dom (lh_items t') = dom (lh_items t) - {a}" using same_items_dom [OF same] by (auto simp: t'_def)
  have eq: "item_data t' b = item_data t b" "it_hash (the (lh_items t' b)) = it_hash (the (lh_items t b))"
    if "b \<in> dom (lh_items t) - {a}" for b
    using that same_items_eq [OF same, of b] by (simp_all add: item_data_def t'_def)
  have ad: "a \<in> dom (lh_items t)" using a by auto
  have "lh_chains (t2\<lparr>lh_items := (lh_items t2)(a := None)\<rparr>) (bss[i := pre @ rest])"
    unfolding t2_def by (rule remove_item_chains [OF c a])
  then have "lh_chains t' (bss[i := pre @ rest])" by (simp add: lh_chains_def t'_def)
  moreover have "\<forall>b\<in>dom (lh_items t'). it_hash (the (lh_items t' b)) = hash (item_data t' b)"
    unfolding dom using T(4) by (simp add: eq)
  moreover have "\<forall>x\<in>dom (lh_items t'). \<forall>y\<in>dom (lh_items t'). cmp (item_data t' x) (item_data t' y) = 0 \<longrightarrow> x = y"
    unfolding dom using T(5) by (simp add: eq)
  moreover have "\<forall>b\<in>dom (lh_items t'). valid (item_data t' b)" unfolding dom using item_valid [OF t] by (simp add: eq)
  moreover have "lh_hash t' = hash" "lh_comp t' = cmp" "num_buckets t' = num_buckets t"
    using T by (simp_all add: t'_def t2_def)
  moreover have "dom (lh_items t') \<subseteq> {..<2 ^ 58}" using T(1) by (auto simp: dom lh_wf_def)
  moreover have "num_items t' = card (dom (lh_items t'))" using T(6,7) ad by (simp add: dom) (simp add: t'_def t2_def)
  ultimately show "table t'"
    using T(1) unfolding table_def lh_wf_def lh_keyed_def matches_def by auto
  show "lh_contents t' = item_data t ` (dom (lh_items t) - {a})"
    unfolding lh_contents_def dom by (simp add: eq)
qed

lemma resize_table:
  assumes "lh_heap_ok e" "table t"
  shows "\<exists>t'. lh_maybe_resize e t = Some t' \<and> table t' \<and> lh_contents t' = lh_contents t \<and> callback_depth t' = callback_depth t"
  using lh_maybe_resize_correct [OF assms(1), of valid t] assms(2) by (auto simp: table_def)

lemma contents_without:
  assumes t: "table t" and v: "valid k" and a: "a \<in> dom (lh_items t)" "cmp (item_data t a) k = 0"
    and u: "\<forall>b\<in>dom (lh_items t). cmp (item_data t b) k = 0 \<longrightarrow> b = a"
  shows "item_data t ` (dom (lh_items t) - {a}) = {x \<in> lh_contents t. cmp x k \<noteq> 0}"
  unfolding lh_contents_def using a u by blast

lemma lh_insert_correct:
  assumes hp: "lh_heap_ok e" and t: "table t" and v: "valid d"
  shows "\<exists>ok old t'. lh_insert e t d = Some (ok, old, t') \<and> table t' \<and> callback_depth t' = callback_depth t
    \<and> (if ok then lh_contents t' = insert d {x \<in> lh_contents t. cmp x d \<noteq> 0} else t' = t \<and> (\<forall>x\<in>lh_contents t. cmp x d \<noteq> 0))
    \<and> (if \<exists>x\<in>lh_contents t. cmp x d = 0 then old \<in> lh_contents t \<and> cmp old d = 0 else old = None)"
proof -
  obtain bss i pre rest q where s: "lh_chains t bss" "i < length bss" "bss ! i = pre @ rest" "i = unat (hash d) mod num_buckets t"
    "get_next_ptr_and_hash t d = Some (end_of (Bucket i) pre, hash d)"
    "deref t (end_of (Bucket i) pre) = Some q" "chain (lh_items t) q rest"
    "rest = [] \<longrightarrow> (\<forall>b\<in>dom (lh_items t). cmp (item_data t b) d \<noteq> 0)"
    "\<forall>a rest'. rest = a # rest' \<longrightarrow> cmp (item_data t a) d = 0 \<and> (\<forall>b\<in>dom (lh_items t). cmp (item_data t b) d = 0 \<longrightarrow> b = a)"
    by (rule search [OF t v])
  show ?thesis
  proof (cases rest)
    case (Cons a rest')
    then obtain it where a: "q = Some a" "lh_items t a = Some it" using s(7) by auto
    then have ad: "a \<in> dom (lh_items t)" by auto
    define t' where "t' = t\<lparr>lh_items := (lh_items t)(a \<mapsto> it\<lparr>it_data := d\<rparr>)\<rparr>"
    have u: "cmp (item_data t a) d = 0" "\<forall>b\<in>dom (lh_items t). cmp (item_data t b) d = 0 \<longrightarrow> b = a" using s(9) Cons by auto
    have r: "lh_insert e t d = Some (True, item_data t a, t')"
      using s(5,6) a by (simp add: lh_insert_def t'_def item_data_def)
    have old: "item_data t a \<in> lh_contents t" using ad by (simp add: lh_contents_def)
    have "table t'" "lh_contents t' = insert d {x \<in> lh_contents t. cmp x d \<noteq> 0}" "callback_depth t' = callback_depth t"
      using replace_data [OF t a(2) v u(1)] contents_without [OF t v ad u] by (simp_all add: t'_def)
    moreover have "\<exists>x\<in>lh_contents t. cmp x d = 0" using old u(1) by blast
    ultimately show ?thesis
      using r old u(1) by (intro exI [of _ True] exI [of _ "item_data t a"] exI [of _ t']) simp
  next
    case Nil
    then have none: "\<forall>x\<in>lh_contents t. cmp x d \<noteq> 0" and q: "q = None" using s(7,8) by (auto simp: lh_contents_def)
    have pre: "bss ! i = pre" using s(3) Nil by simp
    show ?thesis
    proof (cases "new_item e (lh_items t)")
      case None
      then have "lh_insert e t d = Some (False, None, t)" using s(5,6) q by (simp add: lh_insert_def)
      then show ?thesis using t none by auto
    next
      case (Some a)
      have a: "lh_items t a = None" "a < 2 ^ 58" using Some hp by (auto simp: lh_heap_ok_def)
      define t2 where "t2 = put_ref (with_item t a d (hash d)) (end_of (Bucket i) (bss ! i)) (Some a)"
      define t3 where "t3 = t2\<lparr>num_items := size_add (num_items t2) 1\<rparr>"
      have "\<forall>b\<in>dom (lh_items t). cmp (item_data t b) d \<noteq> 0" using s(8) Nil by simp
      from append_item [OF t s(1,2,4) a v this] have t3: "table t3" "lh_contents t3 = insert d (lh_contents t)"
        unfolding t2_def [symmetric] t3_def [symmetric] by simp_all
      obtain t' where t': "lh_maybe_resize e t3 = Some t'" "table t'" "lh_contents t' = lh_contents t3" "callback_depth t' = callback_depth t3"
        using resize_table [OF hp t3(1)] by blast
      have "lh_insert e t d = Some (True, None, t')"
        using s(5,6) q Some t'(1) by (simp add: lh_insert_def t3_def t2_def with_item_def Let_def pre)
      then show ?thesis using t' t3 none by (auto simp: t3_def t2_def)
    qed
  qed
qed

lemma lh_delete_correct:
  assumes hp: "lh_heap_ok e" and t: "table t" and v: "valid k"
  shows "\<exists>r t'. lh_delete e t k = Some (r, t') \<and> table t' \<and> callback_depth t' = callback_depth t
    \<and> lh_contents t' = {x \<in> lh_contents t. cmp x k \<noteq> 0}
    \<and> (if \<exists>x\<in>lh_contents t. cmp x k = 0 then r \<in> lh_contents t \<and> cmp r k = 0 else r = None)"
proof -
  obtain bss i pre rest q where s: "lh_chains t bss" "i < length bss" "bss ! i = pre @ rest" "i = unat (hash k) mod num_buckets t"
    "get_next_ptr_and_hash t k = Some (end_of (Bucket i) pre, hash k)"
    "deref t (end_of (Bucket i) pre) = Some q" "chain (lh_items t) q rest"
    "rest = [] \<longrightarrow> (\<forall>b\<in>dom (lh_items t). cmp (item_data t b) k \<noteq> 0)"
    "\<forall>a rest'. rest = a # rest' \<longrightarrow> cmp (item_data t a) k = 0 \<and> (\<forall>b\<in>dom (lh_items t). cmp (item_data t b) k = 0 \<longrightarrow> b = a)"
    by (rule search [OF t v])
  show ?thesis
  proof (cases rest)
    case Nil
    then have "lh_delete e t k = Some (None, t)" using s(5-7) by (simp add: lh_delete_def)
    moreover have "\<forall>x\<in>lh_contents t. cmp x k \<noteq> 0" using s(8) Nil by (auto simp: lh_contents_def)
    ultimately show ?thesis using t by auto
  next
    case (Cons a rest')
    then obtain it where a: "q = Some a" "lh_items t a = Some it" using s(7) by auto
    then have ad: "a \<in> dom (lh_items t)" by auto
    have u: "cmp (item_data t a) k = 0" "\<forall>b\<in>dom (lh_items t). cmp (item_data t b) k = 0 \<longrightarrow> b = a" using s(9) Cons by auto
    define t2 where "t2 = put_ref t (end_of (Bucket i) pre) (it_next it)"
    define t3 where "t3 = t2\<lparr>lh_items := (lh_items t2)(a := None), num_items := num_items t2 - 1\<rparr>"
    from remove_item [OF t s(1,2) s(3) [unfolded Cons] a(2)]
    have t3: "table t3" "lh_contents t3 = {x \<in> lh_contents t. cmp x k \<noteq> 0}"
      unfolding t2_def [symmetric] t3_def [symmetric] contents_without [OF t v ad u] by simp_all
    obtain t' where t': "lh_maybe_resize e t3 = Some t'" "table t'" "lh_contents t' = lh_contents t3" "callback_depth t' = callback_depth t3"
      using resize_table [OF hp t3(1)] by blast
    have "lh_delete e t k = Some (item_data t a, t')"
      using s(5,6) a t'(1) by (simp add: lh_delete_def t3_def t2_def Let_def item_data_def)
    moreover have "item_data t a \<in> lh_contents t" using ad by (simp add: lh_contents_def)
    ultimately show ?thesis using t' t3 u(1) by (auto simp: t3_def t2_def)
  qed
qed

lemma lh_new_table:
  assumes "lh_new e hash cmp = Some t"
  shows "table t" "lh_contents t = {}" "callback_depth t = 0"
proof -
  have t: "t = \<lparr>num_items = 0, buckets = replicate kMinNumBuckets None, num_buckets = kMinNumBuckets,
      callback_depth = 0, lh_comp = cmp, lh_hash = hash, lh_items = Map.empty\<rparr>"
    using assms by (simp add: lh_new_def split: if_splits)
  have "lh_chains t (replicate kMinNumBuckets [])" by (simp add: t lh_chains_def)
  then show "table t" by (auto simp: table_def lh_wf_def lh_keyed_def t kMinNumBuckets_def)
qed (use assms in \<open>auto simp: lh_new_def lh_contents_def split: if_splits\<close>)

lemma callback_depth_irrelevant [simp]:
  "lh_contents (t\<lparr>callback_depth := n\<rparr>) = lh_contents t" "table (t\<lparr>callback_depth := n\<rparr>) = table t"
  by (simp_all add: lh_contents_def item_data_def table_def lh_wf_def lh_chains_def lh_keyed_def matches_def)

text \<open>Iterating with a callback that leaves the table alone.\<close>

lemma doall_chain_reads:
  assumes "\<And>d s. func d (t, s) = Some (t, g d s)" "chain (lh_items t) p as"
  shows "doall_chain func p (t, s) = Some (t, fold g (map (item_data t) as) s)"
  using assms(2)
proof (induction as arbitrary: p s)
  case Nil
  then show ?case by (simp add: doall_chain.simps [of func None])
next
  case (Cons a as)
  then obtain it where it: "p = Some a" "lh_items t a = Some it" "chain (lh_items t) (it_next it) as" by auto
  show ?case unfolding it(1)
    using Cons.IH [OF it(3)] it(2) by (simp add: doall_chain.simps [of func "Some a"] assms(1) item_data_def)
qed

lemma doall_buckets_reads:
  assumes "\<And>d s. func d (t, s) = Some (t, g d s)" "lh_chains t bss" "i \<le> num_buckets t"
  shows "doall_buckets func i (t, s) = Some (t, fold g (map (item_data t) (concat (drop i bss))) s)"
  using assms(3)
proof (induction "num_buckets t - i" arbitrary: i s)
  case 0
  then show ?case using assms(2) by (simp add: doall_buckets.simps [of func i] lh_chains_def)
next
  case (Suc n)
  then have i: "i < num_buckets t" by simp
  then have c: "chain (lh_items t) (buckets t ! i) (bss ! i)" "i < length bss" using assms(2) by (simp_all add: lh_chains_def)
  have "doall_buckets func i (t, s) = doall_buckets func (i + 1) (t, fold g (map (item_data t) (bss ! i)) s)"
    using i doall_chain_reads [of func t g, OF assms(1) c(1)] by (simp add: doall_buckets.simps [of func i])
  also have "\<dots> = Some (t, fold g (map (item_data t) (concat (drop (i + 1) bss))) (fold g (map (item_data t) (bss ! i)) s))"
    using Suc i by (intro Suc(1)) simp_all
  finally show ?case by (simp add: Cons_nth_drop_Suc [OF c(2), symmetric])
qed

lemma table_elements:
  assumes "table t" "lh_chains t bss"
  shows "distinct (map (item_data t) (concat bss)) \<and> set (map (item_data t) (concat bss)) = lh_contents t"
proof -
  have dom: "dom (lh_items t) = set (concat bss)" "distinct (concat bss)" using assms(2) by (simp_all add: lh_chains_def)
  have "inj_on (item_data t) (set (concat bss))"
    using tableD(5) [OF assms(1)] refl [OF item_valid [OF assms(1)]] unfolding dom(1) [symmetric] by (intro inj_onI) metis
  then show ?thesis using dom by (auto simp: distinct_map lh_contents_def simp del: set_concat)
qed

lemma lh_doall_reads:
  assumes hp: "lh_heap_ok e" and t: "table t" and func: "\<And>d t s. func d (t, s) = Some (t, g d s)"
  shows "\<exists>xs t'. lh_doall_internal e (Some t) func s = Some (Some t', fold g xs s)
    \<and> distinct xs \<and> set xs = lh_contents t \<and> table t' \<and> lh_contents t' = lh_contents t"
proof -
  define t1 where "t1 = (if callback_depth t < UINT_MAX then t\<lparr>callback_depth := callback_depth t + 1\<rparr> else t)"
  define t2 where "t2 = (if callback_depth t1 < UINT_MAX then t1\<lparr>callback_depth := callback_depth t1 - 1\<rparr> else t1)"
  have T: "table t1" "lh_contents t1 = lh_contents t" using t by (simp_all add: t1_def)
  then have T2: "table t2" "lh_contents t2 = lh_contents t" by (simp_all add: t2_def)
  obtain bss where c: "lh_chains t1 bss" using T(1) by (auto simp: table_def lh_wf_def)
  define xs where "xs = map (item_data t1) (concat bss)"
  have "distinct xs" "set xs = lh_contents t" using table_elements [OF T(1) c] T(2) by (simp_all add: xs_def)
  moreover have "doall_buckets func 0 (t1, s) = Some (t1, fold g xs s)"
    using doall_buckets_reads [of func t1 g, OF func c, of 0 s] by (simp add: xs_def)
  moreover obtain t' where "lh_maybe_resize e t2 = Some t'" "table t'" "lh_contents t' = lh_contents t"
    using resize_table [OF hp T2(1)] T2(2) by auto
  ultimately show ?thesis
    by (auto simp: lh_doall_internal_def t1_def [symmetric] t2_def [symmetric] Let_def)
qed

text \<open>Iterating with a callback that deletes the element that it is given.\<close>

lemma delete_head:
  assumes t: "table t" and depth: "callback_depth t > 0" and c: "lh_chains t bss" "i < length bss" "bss ! i = a # rest"
  shows "\<exists>t'. lh_delete e t (item_data t a) = Some (item_data t a, t') \<and> table t' \<and> callback_depth t' = callback_depth t
    \<and> lh_chains t' (bss[i := rest]) \<and> buckets t' ! i = it_next (the (lh_items t a))
    \<and> (\<forall>b\<in>dom (lh_items t) - {a}. item_data t' b = item_data t b)"
proof -
  have a: "a \<in> dom (lh_items t)" "unat (it_hash (the (lh_items t a))) mod num_buckets t = i"
    using lh_chains_nth [OF c(1,2)] c(3) by auto
  note v = item_valid [OF t a(1)]
  obtain it where it: "lh_items t a = Some it" using a by blast
  obtain bss' j pre rest' q where s: "lh_chains t bss'" "j < length bss'" "bss' ! j = pre @ rest'"
    "j = unat (hash (item_data t a)) mod num_buckets t"
    "get_next_ptr_and_hash t (item_data t a) = Some (end_of (Bucket j) pre, hash (item_data t a))"
    "deref t (end_of (Bucket j) pre) = Some q" "chain (lh_items t) q rest'"
    "rest' = [] \<longrightarrow> (\<forall>b\<in>dom (lh_items t). cmp (item_data t b) (item_data t a) \<noteq> 0)"
    "\<forall>x rest''. rest' = x # rest'' \<longrightarrow> cmp (item_data t x) (item_data t a) = 0
      \<and> (\<forall>b\<in>dom (lh_items t). cmp (item_data t b) (item_data t a) = 0 \<longrightarrow> b = x)"
    by (rule search [OF t v])
  have j: "j = i" using a tableD(4) [OF t a(1)] s(4) by simp
  have "chain (lh_items t) (buckets t ! i) (bss ! i)" "chain (lh_items t) (buckets t ! i) (bss' ! i)"
    using s(1,2) c(1,2) j by (simp_all add: lh_chains_def)
  then have "pre @ rest' = a # rest" using chain_det s(3) c(3) j by metis
  moreover have "hd rest' = a" "rest' \<noteq> []"
    using s(8,9) refl [OF v] a(1) by (cases rest'; auto)+
  moreover have "distinct (a # rest)" using c unfolding c(3) [symmetric] lh_chains_def
    by (metis distinct_concat_iff nth_mem)
  ultimately have r: "pre = []" "rest' = a # rest" by (cases pre; cases rest'; auto)+
  have q: "q = Some a" using s(7) r by simp
  define t2 where "t2 = put_ref t (end_of (Bucket i) []) (it_next it)"
  define t3 where "t3 = t2\<lparr>lh_items := (lh_items t2)(a := None), num_items := num_items t2 - 1\<rparr>"
  have cut: "bss ! i = [] @ a # rest" using c(3) by simp
  have "table t3" using remove_item(1) [OF t c(1,2) cut it] by (simp add: t3_def t2_def)
  moreover have "lh_chains t3 (bss[i := rest])"
    using remove_item_chains [OF c(1,2) cut it] by (simp add: t3_def t2_def lh_chains_def)
  moreover have "lh_delete e t (item_data t a) = Some (item_data t a, t3)"
    using s(5,6) j r q it depth
    by (simp add: lh_delete_def t3_def t2_def Let_def item_data_def lh_maybe_resize_def)
  moreover have "i < length (buckets t)" using c by (simp add: lh_chains_def)
  ultimately show ?thesis using it by (auto simp: t3_def t2_def put_ref_def item_data_def)
qed

lemma doall_chain_deletes:
  assumes "\<And>d t s. func d (t, s) = map_option (\<lambda>(r, t'). (t', g d s)) (lh_delete e t d)"
    and "table t" "callback_depth t > 0" "lh_chains t bss" "i < length bss"
  shows "\<exists>t'. doall_chain func (buckets t ! i) (t, s) = Some (t', fold g (map (item_data t) (bss ! i)) s) \<and> table t'
    \<and> callback_depth t' = callback_depth t \<and> lh_chains t' (bss[i := []])
    \<and> (\<forall>b\<in>dom (lh_items t) - set (bss ! i). item_data t' b = item_data t b)"
  using assms(2-)
proof (induction "bss ! i" arbitrary: t s bss)
  case Nil
  have "buckets t ! i = None" using Nil(1,4,5) by (metis chain.simps(1) lh_chains_def)
  moreover have "bss[i := []] = bss" using Nil(1) by (metis list_update_id)
  ultimately show ?case using Nil by (auto simp: doall_chain.simps [of func None])
next
  case (Cons a rest)
  have ch: "chain (lh_items t) (buckets t ! i) (a # rest)" using Cons(2,5,6) by (metis lh_chains_def)
  then obtain it where it: "buckets t ! i = Some a" "lh_items t a = Some it" by auto
  obtain t1 where t1: "lh_delete e t (item_data t a) = Some (item_data t a, t1)" "table t1" "callback_depth t1 = callback_depth t"
    "lh_chains t1 (bss[i := rest])" "buckets t1 ! i = it_next it" "\<forall>b\<in>dom (lh_items t) - {a}. item_data t1 b = item_data t b"
    using delete_head [OF Cons(3-6) Cons(2) [symmetric], of e] it by auto
  have l: "i < length (bss[i := rest])" "rest = bss[i := rest] ! i" using Cons(6) by simp_all
  obtain t' where t': "doall_chain func (buckets t1 ! i) (t1, g (item_data t a) s) = Some (t', fold g (map (item_data t1) rest) (g (item_data t a) s))"
    "table t'" "callback_depth t' = callback_depth t1" "lh_chains t' (bss[i := []])"
    "\<forall>b\<in>dom (lh_items t1) - set rest. item_data t' b = item_data t1 b"
    using Cons(1) [OF l(2) t1(2) _ t1(4) l(1), of "g (item_data t a) s"] Cons(4,6) t1(3) by auto
  have "set (a # rest) \<subseteq> dom (lh_items t)" "distinct (a # rest)"
    using chain_dom [OF ch] Cons(2,5,6) by (auto simp: lh_chains_def) (metis distinct_concat_iff distinct.simps(2) nth_mem)+
  then have m: "map (item_data t1) rest = map (item_data t) rest" using t1(6) by auto
  have "doall_chain func (Some a) (t, s) = doall_chain func (it_next it) (t1, g (item_data t a) s)"
    using it t1(1) by (simp add: doall_chain.simps [of func "Some a"] assms(1) item_data_def)
  moreover have "dom (lh_items t) - set (bss ! i) \<subseteq> dom (lh_items t1) - set rest"
    using Cons(5) t1(4) unfolding lh_chains_def concat_at [OF Cons(6)] Cons(2) [symmetric] by auto
  then have "\<forall>b\<in>dom (lh_items t) - set (bss ! i). item_data t' b = item_data t b"
    using t'(5) t1(6) Cons(2) by (metis Diff_iff insertI1 list.simps(15) singletonD subsetD)
  ultimately show ?case using t'(2-) t'(1) [unfolded m] t1(3,5) it(1) Cons(2) [symmetric] by auto
qed

lemma doall_buckets_deletes:
  assumes "\<And>d t s. func d (t, s) = map_option (\<lambda>(r, t'). (t', g d s)) (lh_delete e t d)"
    and "table t" "callback_depth t > 0" "lh_chains t bss" "i \<le> length bss"
  shows "\<exists>t'. doall_buckets func i (t, s) = Some (t', fold g (map (item_data t) (concat (drop i bss))) s) \<and> table t'
    \<and> callback_depth t' = callback_depth t \<and> lh_chains t' (take i bss @ replicate (length bss - i) [])"
  using assms(2-)
proof (induction "length bss - i" arbitrary: i t s bss)
  case 0
  then have "i = length bss" "\<not> length bss < num_buckets t" by (simp_all add: lh_chains_def)
  then show ?case using 0 by (auto simp: doall_buckets.simps [of func "length bss"])
next
  case (Suc n)
  then have i: "i < length bss" "i < num_buckets t" by (simp_all add: lh_chains_def)
  obtain t1 where t1: "doall_chain func (buckets t ! i) (t, s) = Some (t1, fold g (map (item_data t) (bss ! i)) s)" "table t1"
    "callback_depth t1 = callback_depth t" "lh_chains t1 (bss[i := []])"
    "\<forall>b\<in>dom (lh_items t) - set (bss ! i). item_data t1 b = item_data t b"
    using doall_chain_deletes [of func g e, OF assms(1) Suc(3-5) i(1)] by blast
  define s1 where "s1 = fold g (map (item_data t) (bss ! i)) s"
  have l: "n = length (bss[i := []]) - (i + 1)" "i + 1 \<le> length (bss[i := []])" using Suc(2) i(1) by simp_all
  obtain t' where t': "doall_buckets func (i + 1) (t1, s1) = Some (t', fold g (map (item_data t1) (concat (drop (i + 1) (bss[i := []])))) s1)"
    "table t'" "callback_depth t' = callback_depth t1"
    "lh_chains t' (take (i + 1) (bss[i := []]) @ replicate (length (bss[i := []]) - (i + 1)) [])"
    using Suc(1) [OF l(1) t1(2) _ t1(4) l(2), of s1] Suc(4) t1(3) by auto
  have "set (concat (drop (Suc i) bss)) \<subseteq> dom (lh_items t) - set (bss ! i)"
    using Suc(5) unfolding lh_chains_def concat_at [OF i(1)] by auto
  then have m: "map (item_data t1) (concat (drop (i + 1) (bss[i := []]))) = map (item_data t) (concat (drop (Suc i) bss))"
    using t1(5) by (auto simp: drop_update_cancel)
  have rep: "take (i + 1) (bss[i := []]) @ replicate (length (bss[i := []]) - (i + 1)) [] = take i bss @ replicate (length bss - i) []"
    using i(1) by (simp add: take_Suc_conv_app_nth Suc_diff_Suc [symmetric])
  have "doall_buckets func i (t, s) = Some (t', fold g (map (item_data t) (concat (drop i bss))) s)"
    using i t1(1) t'(1) unfolding m
    by (simp add: doall_buckets.simps [of func i] s1_def Cons_nth_drop_Suc [OF i(1), symmetric])
  then show ?case using t'(2-) t1(3) unfolding rep by auto
qed

lemma lh_doall_deletes:
  assumes hp: "lh_heap_ok e" and t: "table t" and depth: "callback_depth t < UINT_MAX"
    and func: "\<And>d t s. func d (t, s) = map_option (\<lambda>(r, t'). (t', g d s)) (lh_delete e t d)"
  shows "\<exists>xs t'. lh_doall_internal e (Some t) func s = Some (Some t', fold g xs s)
    \<and> distinct xs \<and> set xs = lh_contents t \<and> table t' \<and> lh_contents t' = {}"
proof -
  define t1 where "t1 = t\<lparr>callback_depth := callback_depth t + 1\<rparr>"
  have T: "table t1" "lh_contents t1 = lh_contents t" using t by (simp_all add: t1_def)
  obtain bss where c: "lh_chains t1 bss" using T(1) by (auto simp: table_def lh_wf_def)
  define xs where "xs = map (item_data t1) (concat bss)"
  have xs: "distinct xs" "set xs = lh_contents t" using table_elements [OF T(1) c] T(2) by (simp_all add: xs_def)
  obtain t2 where t2: "doall_buckets func 0 (t1, s) = Some (t2, fold g xs s)" "table t2" "lh_chains t2 (replicate (length bss) [])"
    using doall_buckets_deletes [of func g e, OF func T(1) _ c, of 0 s] by (auto simp: xs_def t1_def)
  have "dom (lh_items t2) = {}" using t2(3) by (simp add: lh_chains_def)
  then have e2: "lh_contents t2 = {}" by (simp add: lh_contents_def)
  define t3 where "t3 = (if callback_depth t2 < UINT_MAX then t2\<lparr>callback_depth := callback_depth t2 - 1\<rparr> else t2)"
  have t3: "table t3" "lh_contents t3 = {}" using t2(2) e2 by (simp_all add: t3_def)
  obtain t' where t': "lh_maybe_resize e t3 = Some t'" "table t'" "lh_contents t' = {}"
    using resize_table [OF hp t3(1)] t3(2) by auto
  then have "lh_doall_internal e (Some t) func s = Some (Some t', fold g xs s)"
    using t2(1) depth unfolding lh_doall_internal_def Let_def t1_def by (simp add: t3_def)
  then show ?thesis using xs t' by blast
qed

text \<open>What a client needs: a stored element is found under every equal key, and an insertion stores.\<close>

lemma elements_unique:
  assumes "table t" "x \<in> lh_contents t" "y \<in> lh_contents t" "cmp x y = 0"
  shows "x = y"
  using assms tableD(5) [OF assms(1)] by (auto simp: lh_contents_def)

lemma contents_valid: "table t \<Longrightarrow> x \<in> lh_contents t \<Longrightarrow> valid x"
  using item_valid by (auto simp: lh_contents_def)

lemma retrieve_element:
  assumes "table t" "valid k" "x \<in> lh_contents t" "cmp x k = 0"
  shows "lh_retrieve t k = Some x"
proof -
  have ex: "\<exists>d\<in>lh_contents t. cmp d k = 0" using assms(3,4) by blast
  obtain r where r: "lh_retrieve t k = Some r" "r \<in> lh_contents t" "cmp r k = 0"
    using lh_retrieve_correct [OF assms(1,2)] unfolding if_P [OF ex] by blast
  have v: "valid r" "valid x" using contents_valid assms(1,3) r(2) by blast+
  have "cmp r x = 0" using trans [OF v(1) assms(2) v(2) r(3)] sym [OF v(2) assms(2,4)] .
  then show ?thesis using elements_unique [OF assms(1) r(2) assms(3)] r(1) by simp
qed

lemma retrieve_none:
  assumes "table t" "valid k" "\<forall>x\<in>lh_contents t. cmp x k \<noteq> 0"
  shows "lh_retrieve t k = Some None"
  using lh_retrieve_correct [OF assms(1,2)] assms(3) by auto

lemma insert_stores:
  assumes "lh_heap_ok e" "table t" "valid d" "lh_insert e t d = Some (ok, old, t')"
  shows "table t' \<and> (ok \<longrightarrow> d \<in> lh_contents t') \<and> (\<forall>x\<in>lh_contents t. cmp x d \<noteq> 0 \<longrightarrow> x \<in> lh_contents t')
    \<and> lh_contents t' \<subseteq> insert d (lh_contents t)"
  using lh_insert_correct [OF assms(1-3)] assms(4) by (auto split: if_splits)

text \<open>An insertion succeeds exactly when it replaces an equal element or gets memory for a new item.\<close>

lemma insert_succeeds_iff:
  assumes "lh_heap_ok e" "table t" "valid d" "lh_insert e t d = Some (ok, old, t')"
  shows "ok \<longleftrightarrow> (\<exists>x\<in>lh_contents t. cmp x d = 0) \<or> new_item e (lh_items t) \<noteq> None"
proof
  assume ok
  obtain bss i pre rest q where s: "get_next_ptr_and_hash t d = Some (end_of (Bucket i) pre, hash d)"
    "deref t (end_of (Bucket i) pre) = Some q" "chain (lh_items t) q rest"
    "\<forall>a rest'. rest = a # rest' \<longrightarrow> cmp (item_data t a) d = 0 \<and> (\<forall>b\<in>dom (lh_items t). cmp (item_data t b) d = 0 \<longrightarrow> b = a)"
    by (rule search [OF assms(2,3)])
  show "(\<exists>x\<in>lh_contents t. cmp x d = 0) \<or> new_item e (lh_items t) \<noteq> None"
  proof (cases rest)
    case (Cons a rest')
    then have "a \<in> dom (lh_items t)" "cmp (item_data t a) d = 0" using s(3,4) by auto
    then show ?thesis by (auto simp: lh_contents_def)
  next
    case Nil
    with s(1-3) assms(4) \<open>ok\<close> show ?thesis by (auto simp: lh_insert_def split: option.splits)
  qed
next
  assume "(\<exists>x\<in>lh_contents t. cmp x d = 0) \<or> new_item e (lh_items t) \<noteq> None"
  then show ok
    using lh_insert_correct [OF assms(1-3)] assms(4) by (auto simp: lh_insert_def split: option.splits if_splits prod.splits)
qed

text \<open>The table as a map: what a retrieval sees of an insertion and of a deletion.\<close>

lemma retrieve_after_insert:
  assumes "lh_heap_ok e" "table t" "valid d" "valid k" "lh_insert e t d = Some (True, old, t')"
  shows "lh_retrieve t' k = (if cmp d k = 0 then Some d else lh_retrieve t k)"
proof -
  have t': "table t'" "lh_contents t' = insert d {x \<in> lh_contents t. cmp x d \<noteq> 0}"
    using lh_insert_correct [OF assms(1-3)] assms(5) by auto
  show ?thesis
  proof (cases "cmp d k = 0")
    case True
    then show ?thesis using retrieve_element [OF t'(1) assms(4), of d] t'(2) by simp
  next
    case False
    show ?thesis
    proof (cases "\<exists>x\<in>lh_contents t. cmp x k = 0")
      case True
      then obtain x where x: "x \<in> lh_contents t" "cmp x k = 0" by blast
      have "cmp x d \<noteq> 0"
        using trans [of d x k] sym [of x d] contents_valid [OF assms(2) x(1)] x(2) assms(3,4) False by blast
      then have "x \<in> lh_contents t'" using t'(2) x(1) by simp
      then show ?thesis using retrieve_element [OF t'(1) assms(4) _ x(2)] retrieve_element [OF assms(2,4) x] False by simp
    next
      case none: False
      then have "\<forall>x\<in>lh_contents t'. cmp x k \<noteq> 0" using t'(2) False by auto
      then show ?thesis using retrieve_none [OF t'(1) assms(4)] retrieve_none [OF assms(2,4)] none False by auto
    qed
  qed
qed

lemma retrieve_after_delete:
  assumes "lh_heap_ok e" "table t" "valid d" "valid k" "lh_delete e t d = Some (r, t')"
  shows "lh_retrieve t' k = (if cmp d k = 0 then Some None else lh_retrieve t k)"
proof -
  have t': "table t'" "lh_contents t' = {x \<in> lh_contents t. cmp x d \<noteq> 0}"
    using lh_delete_correct [OF assms(1-3)] assms(5) by auto
  have eq: "cmp x d = 0 \<longleftrightarrow> cmp x k = 0" if "x \<in> lh_contents t" "cmp d k = 0" for x
    using trans [of x d k] trans [of x k d] sym [of d k] contents_valid [OF assms(2) that(1)] that(2) assms(3,4) by blast
  show ?thesis
  proof (cases "cmp d k = 0")
    case True
    then have "\<forall>x\<in>lh_contents t'. cmp x k \<noteq> 0" using t'(2) eq by auto
    then show ?thesis using retrieve_none [OF t'(1) assms(4)] True by simp
  next
    case False
    show ?thesis
    proof (cases "\<exists>x\<in>lh_contents t. cmp x k = 0")
      case True
      then obtain x where x: "x \<in> lh_contents t" "cmp x k = 0" by blast
      have "cmp x d \<noteq> 0"
        using trans [of d x k] sym [of x d] contents_valid [OF assms(2) x(1)] x(2) assms(3,4) False by blast
      then have "x \<in> lh_contents t'" using t'(2) x(1) by simp
      then show ?thesis using retrieve_element [OF t'(1) assms(4) _ x(2)] retrieve_element [OF assms(2,4) x] False by simp
    next
      case none: False
      then have "\<forall>x\<in>lh_contents t'. cmp x k \<noteq> 0" using t'(2) by auto
      then show ?thesis using retrieve_none [OF t'(1) assms(4)] retrieve_none [OF assms(2,4)] none False by auto
    qed
  qed
qed

end

end
