(* ===== verification/Obj.thy ===== *)
theory Obj
  imports LHash CBB_ASN1 CLib
begin

text \<open>
  Object identifiers: \<open>crypto/obj/obj.c\<close> and the objects of \<open>crypto/asn1/a_object.c\<close>.  The
  generated tables of \<open>obj_dat.h\<close> are the parameter \<open>obj_tables\<close>; what their generator
  promises is \<open>tables_ok\<close>.  The objects added at run time are in four hash tables, which are
  the state; the lock around them is not modelled.  An ASN1_OBJECT is a value: a pointer to
  one is \<open>None\<close> or the object.  As in the hash tables, \<open>None\<close> around a result is a run with
  undefined behaviour.
\<close>

section \<open>strcmp\<close>

fun cmp_bytes :: "bytes \<Rightarrow> bytes \<Rightarrow> int" where
  "cmp_bytes [] [] = 0"
| "cmp_bytes [] (b # bs) = -1"
| "cmp_bytes (a # as) [] = 1"
| "cmp_bytes (a # as) (b # bs) = (if a = b then cmp_bytes as bs else if a < b then -1 else 1)"

definition strcmp :: "bytes \<Rightarrow> bytes \<Rightarrow> int" where
  "strcmp s t = cmp_bytes (cstr s) (cstr t)"

lemma cmp_bytes_zero: "cmp_bytes s t = 0 \<longleftrightarrow> s = t"
  by (induction s t rule: cmp_bytes.induct) auto

lemma cmp_bytes_swap: "cmp_bytes t s = - cmp_bytes s t"
  by (induction s t rule: cmp_bytes.induct) auto

lemma cmp_bytes_trans: "cmp_bytes s t \<le> 0 \<Longrightarrow> cmp_bytes t u \<le> 0 \<Longrightarrow> cmp_bytes s u \<le> 0"
proof (induction s u arbitrary: t rule: cmp_bytes.induct)
  case (3 a as)
  then show ?case by (cases t) auto
next
  case (4 a as b bs)
  then show ?case by (cases t) (auto split: if_splits)
qed simp_all

section \<open>Objects\<close>

record asn1_object =
  o_sn :: "bytes option"
  o_ln :: "bytes option"
  o_nid :: int
  o_length :: int
  o_data :: "bytes option"
  o_flags :: u32

definition ASN1_OBJECT_FLAG_DYNAMIC :: u32 where
  "ASN1_OBJECT_FLAG_DYNAMIC = 0x01"

definition ASN1_OBJECT_FLAG_DYNAMIC_STRINGS :: u32 where
  "ASN1_OBJECT_FLAG_DYNAMIC_STRINGS = 0x04"

definition ASN1_OBJECT_FLAG_DYNAMIC_DATA :: u32 where
  "ASN1_OBJECT_FLAG_DYNAMIC_DATA = 0x08"

definition all_dynamic :: u32 where
  "all_dynamic = ASN1_OBJECT_FLAG_DYNAMIC OR ASN1_OBJECT_FLAG_DYNAMIC_STRINGS OR ASN1_OBJECT_FLAG_DYNAMIC_DATA"

definition NID_undef :: int where
  "NID_undef = 0"

definition obj_bytes :: "asn1_object \<Rightarrow> bytes" where
  "obj_bytes o1 = (case o_data o1 of None \<Rightarrow> [] | Some d \<Rightarrow> d)"

definition ASN1_OBJECT_new :: "heap_env \<Rightarrow> asn1_object option" where
  "ASN1_OBJECT_new e =
     (case OPENSSL_malloc e 40 of
        None \<Rightarrow> None
      | Some _ \<Rightarrow> Some \<lparr>o_sn = None, o_ln = None, o_nid = 0, o_length = 0, o_data = None,
                      o_flags = ASN1_OBJECT_FLAG_DYNAMIC\<rparr>)"

text \<open>\<open>OPENSSL_strdup\<close> of a string that may be NULL; the outer \<open>None\<close> is the failure.\<close>

definition dup_name :: "heap_env \<Rightarrow> bytes option \<Rightarrow> bytes option option" where
  "dup_name e s = (case s of None \<Rightarrow> Some None | Some s \<Rightarrow> map_option Some (OPENSSL_strdup e s))"

definition OBJ_dup :: "heap_env \<Rightarrow> asn1_object option \<Rightarrow> asn1_object option" where
  "OBJ_dup e ob =
     (case ob of
        None \<Rightarrow> None
      | Some ob \<Rightarrow>
          if o_flags ob AND ASN1_OBJECT_FLAG_DYNAMIC = 0 then Some ob
          else
            (case ASN1_OBJECT_new e of
               None \<Rightarrow> None
             | Some r \<Rightarrow>
            (case OPENSSL_malloc e (size_of_int (o_length ob)) of
               None \<Rightarrow> None
             | Some data \<Rightarrow>
            (let data = (case o_data ob of None \<Rightarrow> data
                         | Some d \<Rightarrow> blit data 0 (take (size_of_int (o_length ob)) d)) in
             case dup_name e (o_ln ob) of
               None \<Rightarrow> None
             | Some ln \<Rightarrow>
            (case dup_name e (o_sn ob) of
               None \<Rightarrow> None
             | Some sn \<Rightarrow>
                 Some (r\<lparr>o_data := Some data, o_length := o_length ob, o_nid := o_nid ob, o_sn := sn, o_ln := ln,
                         o_flags := o_flags ob OR all_dynamic\<rparr>))))))"

definition ASN1_OBJECT_create ::
  "heap_env \<Rightarrow> int \<Rightarrow> bytes \<Rightarrow> int \<Rightarrow> bytes option \<Rightarrow> bytes option \<Rightarrow> asn1_object option" where
  "ASN1_OBJECT_create e nid data len sn ln =
     OBJ_dup e (Some \<lparr>o_sn = sn, o_ln = ln, o_nid = nid, o_length = len, o_data = Some data, o_flags = all_dynamic\<rparr>)"

definition OBJ_cmp :: "asn1_object \<Rightarrow> asn1_object \<Rightarrow> int" where
  "OBJ_cmp a b =
     (let ret = o_length a - o_length b in
      if ret \<noteq> 0 then ret else memcmp (obj_bytes a) (obj_bytes b) (nat (o_length a)))"

definition OBJ_get0_data :: "asn1_object option \<Rightarrow> bytes option" where
  "OBJ_get0_data ob = (case ob of None \<Rightarrow> None | Some ob \<Rightarrow> o_data ob)"

definition OBJ_length :: "asn1_object option \<Rightarrow> nat" where
  "OBJ_length ob = (case ob of None \<Rightarrow> 0 | Some ob \<Rightarrow> if o_length ob < 0 then 0 else nat (o_length ob))"

text \<open>
  The contents of an OBJECT IDENTIFIER: the last octet ends a subidentifier and none starts
  with a padding octet.  \<open>prev\<close> is the octet before \<open>p\<close>, if there is one.
\<close>

fun oid_contents_ok :: "u8 option \<Rightarrow> bytes \<Rightarrow> bool" where
  "oid_contents_ok prev [] = True"
| "oid_contents_ok prev (p # ps) =
     (if p = 0x80 \<and> (case prev of None \<Rightarrow> True | Some q \<Rightarrow> q AND 0x80 = 0) then False
      else oid_contents_ok (Some p) ps)"

text \<open>
  The result, \<open>*a\<close> and \<open>*pp\<close>.  \<open>a = None\<close> is a NULL \<open>a\<close>; the inner pointer may be NULL as well.
\<close>

definition c2i_ASN1_OBJECT ::
  "heap_env \<Rightarrow> asn1_object option option \<Rightarrow> bytes option \<Rightarrow> int
     \<Rightarrow> asn1_object option \<times> asn1_object option option \<times> bytes option" where
  "c2i_ASN1_OBJECT e a pp len =
     (case pp of
        None \<Rightarrow> (None, a, pp)
      | Some p \<Rightarrow>
          if len \<le> 0 \<or> len > int INT_MAX \<or> p ! nat (len - 1) AND 0x80 \<noteq> 0 then (None, a, pp)
          else if \<not> oid_contents_ok None (take (nat len) p) then (None, a, pp)
          else
            (let reuse = (case a of Some (Some old) \<Rightarrow> if o_flags old AND ASN1_OBJECT_FLAG_DYNAMIC \<noteq> 0 then Some old else None
                          | _ \<Rightarrow> None) in
             case (case reuse of Some old \<Rightarrow> Some old | None \<Rightarrow> ASN1_OBJECT_new e) of
               None \<Rightarrow> (None, a, pp)
             | Some ret \<Rightarrow>
                 (case (if o_data ret = None \<or> o_length ret < len
                        then map_option (\<lambda>d. (d, o_flags ret OR ASN1_OBJECT_FLAG_DYNAMIC_DATA)) (OPENSSL_malloc e (nat len))
                        else Some (the (o_data ret), o_flags ret)) of
                    None \<Rightarrow>
                      (None, if reuse = None then a else Some (Some (ret\<lparr>o_data := None, o_length := 0\<rparr>)), pp)
                  | Some (data, flags) \<Rightarrow>
                      let ret = ret\<lparr>o_data := Some (blit data 0 (take (nat len) p)), o_length := len,
                                    o_sn := None, o_ln := None, o_flags := flags\<rparr> in
                      (Some ret, if a = None then None else Some (Some ret), Some (drop (nat len) p)))))"

section \<open>The tables and the registry\<close>

record obj_tables =
  kObjects :: "asn1_object list"
  kNIDsInOIDOrder :: "nat list"
  kNIDsInShortNameOrder :: "nat list"
  kNIDsInLongNameOrder :: "nat list"

record obj_state =
  added_by_data :: "asn1_object lhash option"
  added_by_nid :: "asn1_object lhash option"
  added_by_short_name :: "asn1_object lhash option"
  added_by_long_name :: "asn1_object lhash option"
  next_nid :: u32

definition obj_next_nid :: "obj_state \<Rightarrow> int \<times> obj_state" where
  "obj_next_nid st = (sint (next_nid st), st\<lparr>next_nid := next_nid st + 1\<rparr>)"

definition obj_cmp :: "obj_tables \<Rightarrow> asn1_object \<Rightarrow> nat \<Rightarrow> int" where
  "obj_cmp tb a nid =
     (let b = kObjects tb ! nid in
      if o_length a < o_length b then -1
      else if o_length a > o_length b then 1
      else memcmp (obj_bytes a) (obj_bytes b) (nat (o_length a)))"

definition short_name_cmp :: "obj_tables \<Rightarrow> bytes \<Rightarrow> nat \<Rightarrow> int" where
  "short_name_cmp tb name nid = strcmp name (the (o_sn (kObjects tb ! nid)))"

definition long_name_cmp :: "obj_tables \<Rightarrow> bytes \<Rightarrow> nat \<Rightarrow> int" where
  "long_name_cmp tb name nid = strcmp name (the (o_ln (kObjects tb ! nid)))"

text \<open>A lookup in a table that may not have been created yet.\<close>

definition retrieve_added :: "asn1_object lhash option \<Rightarrow> asn1_object \<Rightarrow> asn1_object option option" where
  "retrieve_added lh key = (case lh of None \<Rightarrow> Some None | Some t \<Rightarrow> lh_retrieve t (Some key))"

definition nid_of_found :: "obj_tables \<Rightarrow> nat list \<Rightarrow> nat option \<Rightarrow> int" where
  "nid_of_found tb order r = (case r of None \<Rightarrow> NID_undef | Some i \<Rightarrow> o_nid (kObjects tb ! (order ! i)))"

definition OBJ_obj2nid :: "obj_tables \<Rightarrow> obj_state \<Rightarrow> asn1_object option \<Rightarrow> int option" where
  "OBJ_obj2nid tb st ob =
     (case ob of
        None \<Rightarrow> Some NID_undef
      | Some ob \<Rightarrow>
          if o_nid ob \<noteq> 0 then Some (o_nid ob)
          else
            (case retrieve_added (added_by_data st) ob of
               None \<Rightarrow> None
             | Some (Some match) \<Rightarrow> Some (o_nid match)
             | Some None \<Rightarrow>
                 Some (nid_of_found tb (kNIDsInOIDOrder tb) (bsearch (obj_cmp tb) ob (kNIDsInOIDOrder tb)))))"

definition empty_object :: asn1_object where
  "empty_object = \<lparr>o_sn = None, o_ln = None, o_nid = 0, o_length = 0, o_data = None, o_flags = 0\<rparr>"

definition OBJ_cbs2nid :: "obj_tables \<Rightarrow> obj_state \<Rightarrow> cbs \<Rightarrow> int option" where
  "OBJ_cbs2nid tb st cbs =
     (if CBS_len cbs > INT_MAX then Some NID_undef
      else OBJ_obj2nid tb st (Some (empty_object\<lparr>o_data := Some (CBS_data cbs), o_length := int (CBS_len cbs)\<rparr>)))"

definition OBJ_sn2nid :: "obj_tables \<Rightarrow> obj_state \<Rightarrow> bytes \<Rightarrow> int option" where
  "OBJ_sn2nid tb st short_name =
     (case retrieve_added (added_by_short_name st) (empty_object\<lparr>o_sn := Some short_name\<rparr>) of
        None \<Rightarrow> None
      | Some (Some match) \<Rightarrow> Some (o_nid match)
      | Some None \<Rightarrow>
          Some (nid_of_found tb (kNIDsInShortNameOrder tb)
            (bsearch (short_name_cmp tb) short_name (kNIDsInShortNameOrder tb))))"

definition OBJ_ln2nid :: "obj_tables \<Rightarrow> obj_state \<Rightarrow> bytes \<Rightarrow> int option" where
  "OBJ_ln2nid tb st long_name =
     (case retrieve_added (added_by_long_name st) (empty_object\<lparr>o_ln := Some long_name\<rparr>) of
        None \<Rightarrow> None
      | Some (Some match) \<Rightarrow> Some (o_nid match)
      | Some None \<Rightarrow>
          Some (nid_of_found tb (kNIDsInLongNameOrder tb)
            (bsearch (long_name_cmp tb) long_name (kNIDsInLongNameOrder tb))))"

definition OBJ_nid2obj :: "obj_tables \<Rightarrow> obj_state \<Rightarrow> int \<Rightarrow> asn1_object option option" where
  "OBJ_nid2obj tb st nid =
     (if nid \<ge> 0 \<and> nid < int (length (kObjects tb)) then
        if nid \<noteq> NID_undef \<and> o_nid (kObjects tb ! nat nid) = NID_undef then Some None
        else Some (Some (kObjects tb ! nat nid))
      else retrieve_added (added_by_nid st) (empty_object\<lparr>o_nid := nid\<rparr>))"

definition OBJ_nid2sn :: "obj_tables \<Rightarrow> obj_state \<Rightarrow> int \<Rightarrow> bytes option option" where
  "OBJ_nid2sn tb st nid = map_option (\<lambda>ob. case ob of None \<Rightarrow> None | Some ob \<Rightarrow> o_sn ob) (OBJ_nid2obj tb st nid)"

definition OBJ_nid2ln :: "obj_tables \<Rightarrow> obj_state \<Rightarrow> int \<Rightarrow> bytes option option" where
  "OBJ_nid2ln tb st nid = map_option (\<lambda>ob. case ob of None \<Rightarrow> None | Some ob \<Rightarrow> o_ln ob) (OBJ_nid2obj tb st nid)"

definition CBS_ASN1_OBJECT :: u32 where
  "CBS_ASN1_OBJECT = 0x6"

definition OBJ_nid2cbb :: "heap_env \<Rightarrow> obj_tables \<Rightarrow> obj_state \<Rightarrow> nat \<Rightarrow> cbb \<Rightarrow> int \<Rightarrow> (bool \<times> cbb) option" where
  "OBJ_nid2cbb e tb st d out nid =
     (case OBJ_nid2obj tb st nid of
        None \<Rightarrow> None
      | Some None \<Rightarrow> Some (False, out)
      | Some (Some ob) \<Rightarrow>
          Some (and_then (CBB_add_asn1 e d out CBS_ASN1_OBJECT)
            (\<lambda>s. and_then (CBB_add_bytes e (d + 1) s (obj_bytes ob) (size_of_int (o_length ob)))
            (\<lambda>s. CBB_flush e d s))))"

text \<open>Whether the numbering function is passed is \<open>get_nid\<close>; the numbers are only used up by a valid text.\<close>

definition create_object_with_text_oid ::
  "heap_env \<Rightarrow> obj_state \<Rightarrow> bool \<Rightarrow> bytes \<Rightarrow> bytes option \<Rightarrow> bytes option \<Rightarrow> asn1_object option \<times> obj_state" where
  "create_object_with_text_oid e st get_nid oid short_name long_name =
     (case and_then (CBB_init e 32) (\<lambda>s. CBB_add_asn1_oid_from_text e 0 s oid (strlen oid)) of
        (False, _) \<Rightarrow> (None, st)
      | (True, s) \<Rightarrow>
          (case fst (CBB_finish e 0 s True True) of
             None \<Rightarrow> (None, st)
           | Some (buf, len) \<Rightarrow>
               let (nid, st) = (if get_nid then obj_next_nid st else (NID_undef, st)) in
               (ASN1_OBJECT_create e nid buf (int_of_size len) short_name long_name, st)))"

definition OBJ_txt2obj ::
  "heap_env \<Rightarrow> obj_tables \<Rightarrow> obj_state \<Rightarrow> bytes \<Rightarrow> bool \<Rightarrow> asn1_object option option" where
  "OBJ_txt2obj e tb st s dont_search_names =
     (case (if dont_search_names then Some NID_undef
            else
              (case OBJ_sn2nid tb st s of
                 None \<Rightarrow> None
               | Some nid \<Rightarrow> if nid = NID_undef then OBJ_ln2nid tb st s else Some nid)) of
        None \<Rightarrow> None
      | Some nid \<Rightarrow>
          if nid \<noteq> NID_undef then OBJ_nid2obj tb st nid
          else Some (fst (create_object_with_text_oid e st False s None None)))"

definition OBJ_txt2nid :: "heap_env \<Rightarrow> obj_tables \<Rightarrow> obj_state \<Rightarrow> bytes \<Rightarrow> int option" where
  "OBJ_txt2nid e tb st s =
     (case OBJ_txt2obj e tb st s False of None \<Rightarrow> None | Some ob \<Rightarrow> OBJ_obj2nid tb st ob)"

definition strlcpy_int :: "bytes \<Rightarrow> bytes \<Rightarrow> int \<Rightarrow> bytes \<times> int" where
  "strlcpy_int dst src dst_size =
     (case BUF_strlcpy dst src (if dst_size < 0 then 0 else nat dst_size) of
        (dst, ret) \<Rightarrow> if ret > INT_MAX then (dst, -1) else (dst, int ret))"

definition OBJ_obj2txt ::
  "heap_env \<Rightarrow> obj_tables \<Rightarrow> obj_state \<Rightarrow> bytes \<Rightarrow> int \<Rightarrow> asn1_object option \<Rightarrow> bool \<Rightarrow> (bytes \<times> int) option" where
  "OBJ_obj2txt e tb st out out_len ob always_return_oid =
     (case ob of
        None \<Rightarrow> Some (strlcpy_int out [0] out_len)
      | Some ob \<Rightarrow>
          if o_length ob = 0 then Some (strlcpy_int out [0] out_len)
          else
            (case (if always_return_oid then Some None
                   else
                     (case OBJ_obj2nid tb st (Some ob) of
                        None \<Rightarrow> None
                      | Some nid \<Rightarrow>
                          if nid = NID_undef then Some None
                          else
                            (case OBJ_nid2ln tb st nid of
                               None \<Rightarrow> None
                             | Some (Some name) \<Rightarrow> Some (Some name)
                             | Some None \<Rightarrow> OBJ_nid2sn tb st nid))) of
               None \<Rightarrow> None
             | Some (Some name) \<Rightarrow> Some (strlcpy_int out name out_len)
             | Some None \<Rightarrow>
                 (case CBS_asn1_oid_to_text e (CBS_init (obj_bytes ob) (size_of_int (o_length ob))) of
                    None \<Rightarrow> Some (if out_len > 0 then out[0 := 0] else out, -1)
                  | Some txt \<Rightarrow> Some (strlcpy_int out txt out_len))))"

section \<open>Adding objects\<close>

definition hash_nid :: "asn1_object option \<Rightarrow> u32" where
  "hash_nid p = of_int (o_nid (the p))"

definition cmp_nid :: "asn1_object option \<Rightarrow> asn1_object option \<Rightarrow> int" where
  "cmp_nid a b = o_nid (the a) - o_nid (the b)"

definition hash_data :: "asn1_object option \<Rightarrow> u32" where
  "hash_data p = OPENSSL_hash32 (obj_bytes (the p)) (size_of_int (o_length (the p)))"

definition cmp_data :: "asn1_object option \<Rightarrow> asn1_object option \<Rightarrow> int" where
  "cmp_data a b =
     (let i = o_length (the a) - o_length (the b) in
      if i \<noteq> 0 then i else memcmp (obj_bytes (the a)) (obj_bytes (the b)) (nat (o_length (the a))))"

definition hash_short_name :: "asn1_object option \<Rightarrow> u32" where
  "hash_short_name p = lh_strhash (o_sn (the p))"

definition cmp_short_name :: "asn1_object option \<Rightarrow> asn1_object option \<Rightarrow> int" where
  "cmp_short_name a b = strcmp (the (o_sn (the a))) (the (o_sn (the b)))"

definition hash_long_name :: "asn1_object option \<Rightarrow> u32" where
  "hash_long_name p = lh_strhash (o_ln (the p))"

definition cmp_long_name :: "asn1_object option \<Rightarrow> asn1_object option \<Rightarrow> int" where
  "cmp_long_name a b = strcmp (the (o_ln (the a))) (the (o_ln (the b)))"

text \<open>An insertion into a table that must exist.\<close>

definition insert_added ::
  "asn1_object lh_heap \<Rightarrow> asn1_object lhash option \<Rightarrow> asn1_object \<Rightarrow> (bool \<times> asn1_object lhash option) option" where
  "insert_added e lh ob =
     (case lh of
        None \<Rightarrow> None
      | Some t \<Rightarrow> map_option (\<lambda>(ok, old, t). (ok, Some t)) (lh_insert e t (Some ob)))"

definition create_tables :: "asn1_object lh_heap \<Rightarrow> obj_state \<Rightarrow> obj_state" where
  "create_tables e st =
     (if added_by_nid st = None then
        st\<lparr>added_by_nid := lh_new e hash_nid cmp_nid,
           added_by_data := lh_new e hash_data cmp_data,
           added_by_short_name := lh_new e hash_short_name cmp_short_name,
           added_by_long_name := lh_new e hash_long_name cmp_long_name\<rparr>
      else st)"

definition obj_add_object :: "asn1_object lh_heap \<Rightarrow> obj_state \<Rightarrow> asn1_object \<Rightarrow> (bool \<times> asn1_object \<times> obj_state) option" where
  "obj_add_object e st ob =
     (let ob = ob\<lparr>o_flags := o_flags ob AND NOT all_dynamic\<rparr>;
          st = create_tables e st in
      case insert_added e (added_by_nid st) ob of
        None \<Rightarrow> None
      | Some (ok1, t1) \<Rightarrow>
     (case (if o_length ob \<noteq> 0 \<and> o_data ob \<noteq> None then insert_added e (added_by_data st) ob
            else Some (True, added_by_data st)) of
        None \<Rightarrow> None
      | Some (ok2, t2) \<Rightarrow>
     (case (if o_sn ob \<noteq> None then insert_added e (added_by_short_name st) ob
            else Some (True, added_by_short_name st)) of
        None \<Rightarrow> None
      | Some (ok3, t3) \<Rightarrow>
     (case (if o_ln ob \<noteq> None then insert_added e (added_by_long_name st) ob
            else Some (True, added_by_long_name st)) of
        None \<Rightarrow> None
      | Some (ok4, t4) \<Rightarrow>
          Some (ok1 \<and> ok2 \<and> ok3 \<and> ok4, ob,
            st\<lparr>added_by_nid := t1, added_by_data := t2, added_by_short_name := t3, added_by_long_name := t4\<rparr>)))))"

definition OBJ_create ::
  "asn1_object lh_heap \<Rightarrow> obj_state \<Rightarrow> bytes \<Rightarrow> bytes option \<Rightarrow> bytes option \<Rightarrow> (int \<times> obj_state) option" where
  "OBJ_create e st oid short_name long_name =
     (case create_object_with_text_oid (heap_env.truncate e) st True oid short_name long_name of
        (None, st) \<Rightarrow> Some (NID_undef, st)
      | (Some op, st) \<Rightarrow>
          map_option (\<lambda>(ok, ob, st). (if ok then o_nid ob else NID_undef, st)) (obj_add_object e st op))"


section \<open>The hash tables of the registry\<close>

definition obj_wf :: "asn1_object \<Rightarrow> bool" where
  "obj_wf ob \<longleftrightarrow> 0 \<le> o_length ob \<and> o_length ob < 2 ^ 31 \<and> nat (o_length ob) \<le> length (obj_bytes ob)"

definition obj_contents :: "asn1_object \<Rightarrow> bytes" where
  "obj_contents ob = take (nat (o_length ob)) (obj_bytes ob)"

definition has_nid :: "asn1_object option \<Rightarrow> bool" where
  "has_nid p \<longleftrightarrow> p \<noteq> None"

definition has_data :: "asn1_object option \<Rightarrow> bool" where
  "has_data p \<longleftrightarrow> p \<noteq> None \<and> obj_wf (the p)"

definition has_sn :: "asn1_object option \<Rightarrow> bool" where
  "has_sn p \<longleftrightarrow> p \<noteq> None \<and> o_sn (the p) \<noteq> None"

definition has_ln :: "asn1_object option \<Rightarrow> bool" where
  "has_ln p \<longleftrightarrow> p \<noteq> None \<and> o_ln (the p) \<noteq> None"

lemma length_obj_contents: "obj_wf ob \<Longrightarrow> length (obj_contents ob) = nat (o_length ob)"
  by (simp add: obj_wf_def obj_contents_def)

lemma cmp_nid_zero: "cmp_nid p q = 0 \<longleftrightarrow> o_nid (the p) = o_nid (the q)"
  by (simp add: cmp_nid_def)

lemma cmp_data_zero:
  assumes "obj_wf (the p)" "obj_wf (the q)"
  shows "cmp_data p q = 0 \<longleftrightarrow> obj_contents (the p) = obj_contents (the q)"
proof (cases "o_length (the p) = o_length (the q)")
  case True
  then show ?thesis using assms by (simp add: cmp_data_def memcmp_zero_iff obj_wf_def obj_contents_def)
next
  case False
  then have "length (obj_contents (the p)) \<noteq> length (obj_contents (the q))"
    using assms by (simp add: length_obj_contents) (auto simp: obj_wf_def)
  then show ?thesis using False by (auto simp: cmp_data_def)
qed

lemma cmp_short_name_zero: "cmp_short_name p q = 0 \<longleftrightarrow> cstr (the (o_sn (the p))) = cstr (the (o_sn (the q)))"
  by (simp add: cmp_short_name_def strcmp_def cmp_bytes_zero)

lemma cmp_long_name_zero: "cmp_long_name p q = 0 \<longleftrightarrow> cstr (the (o_ln (the p))) = cstr (the (o_ln (the q)))"
  by (simp add: cmp_long_name_def strcmp_def cmp_bytes_zero)

lemma OPENSSL_hash32_prefix: "take n p = take n q \<Longrightarrow> OPENSSL_hash32 p n = OPENSSL_hash32 q n"
  by (simp add: OPENSSL_hash32_def)

lemma lh_strhash_cstr: "cstr s = cstr t \<Longrightarrow> lh_strhash (Some s) = lh_strhash (Some t)"
proof -
  assume c: "cstr s = cstr t"
  then have l: "strlen t = strlen s" by (simp add: strlen_def)
  have "take (strlen s) s = take (strlen s) t" using c cstr_take [of s] cstr_take [of t] l by simp
  from OPENSSL_hash32_prefix [OF this] show ?thesis using l by (simp add: lh_strhash_def)
qed

lemma hash_data_contents:
  assumes "obj_wf (the p)" "obj_wf (the q)" "obj_contents (the p) = obj_contents (the q)"
  shows "hash_data p = hash_data q"
proof -
  have "nat (o_length (the p)) = nat (o_length (the q))"
    using assms length_obj_contents by metis
  moreover have "size_of_int (o_length (the p)) = nat (o_length (the p))" "size_of_int (o_length (the q)) = nat (o_length (the q))"
    using assms(1,2) by (auto simp: obj_wf_def intro!: size_of_int_nat)
  ultimately show ?thesis
    unfolding hash_data_def using OPENSSL_hash32_prefix assms(3) unfolding obj_contents_def by metis
qed

interpretation by_nid: lhash_keys has_nid hash_nid cmp_nid
  by unfold_locales (simp_all add: cmp_nid_zero hash_nid_def)

interpretation by_data: lhash_keys has_data hash_data cmp_data
  by unfold_locales (auto simp: cmp_data_zero has_data_def intro: hash_data_contents)

interpretation by_sn: lhash_keys has_sn hash_short_name cmp_short_name
  by unfold_locales (auto simp: cmp_short_name_zero has_sn_def hash_short_name_def intro: lh_strhash_cstr)

interpretation by_ln: lhash_keys has_ln hash_long_name cmp_long_name
  by unfold_locales (auto simp: cmp_long_name_zero has_ln_def hash_long_name_def intro: lh_strhash_cstr)

text \<open>
  The registry: the tables are all there or none is, and each is a table for its contract that
  nobody is iterating over.
\<close>

definition registry_ok :: "obj_state \<Rightarrow> bool" where
  "registry_ok st \<longleftrightarrow>
     (added_by_nid st = None \<and> added_by_data st = None \<and> added_by_short_name st = None \<and> added_by_long_name st = None)
     \<or> (\<exists>t1 t2 t3 t4. added_by_nid st = Some t1 \<and> added_by_data st = Some t2 \<and> added_by_short_name st = Some t3
          \<and> added_by_long_name st = Some t4 \<and> by_nid.table t1 \<and> by_data.table t2 \<and> by_sn.table t3 \<and> by_ln.table t4)"

text \<open>What a table holds under a key.\<close>

definition elements :: "asn1_object lhash option \<Rightarrow> asn1_object option set" where
  "elements lh = (case lh of None \<Rightarrow> {} | Some t \<Rightarrow> lh_contents t)"


lemma insert_added_Some:
  "insert_added e lh ob = Some (ok, lh') \<longleftrightarrow>
    (\<exists>t old t'. lh = Some t \<and> lh_insert e t (Some ob) = Some (ok, old, t') \<and> lh' = Some t')"
  by (auto simp: insert_added_def split: option.splits)

definition registry_ready :: "obj_state \<Rightarrow> bool" where
  "registry_ready st \<longleftrightarrow>
     (\<exists>t1 t2 t3 t4. added_by_nid st = Some t1 \<and> added_by_data st = Some t2 \<and> added_by_short_name st = Some t3
        \<and> added_by_long_name st = Some t4 \<and> by_nid.table t1 \<and> by_data.table t2 \<and> by_sn.table t3 \<and> by_ln.table t4)"

text \<open>The memory for the four tables is there.\<close>

definition tables_fit :: "asn1_object lh_heap \<Rightarrow> bool" where
  "tables_fit e \<longleftrightarrow> can_alloc e 56 \<and> can_alloc e 136"

lemma lh_new_fits: "tables_fit e \<Longrightarrow> \<exists>t. lh_new e h c = Some t"
  by (simp add: lh_new_def tables_fit_def kMinNumBuckets_def size_add_def size_mul_def)

lemma create_tables_ready:
  assumes "registry_ok st" "tables_fit e"
  shows "registry_ready (create_tables e st)" "next_nid (create_tables e st) = next_nid st"
proof -
  obtain t1 t2 t3 t4 where t: "lh_new e hash_nid cmp_nid = Some t1" "lh_new e hash_data cmp_data = Some t2"
    "lh_new e hash_short_name cmp_short_name = Some t3" "lh_new e hash_long_name cmp_long_name = Some t4"
    using lh_new_fits [OF assms(2)] by metis
  note new = by_nid.lh_new_table(1) [OF t(1)] by_data.lh_new_table(1) [OF t(2)]
    by_sn.lh_new_table(1) [OF t(3)] by_ln.lh_new_table(1) [OF t(4)]
  show "registry_ready (create_tables e st)"
    using assms(1) t new by (auto simp: create_tables_def registry_ok_def registry_ready_def)
  show "next_nid (create_tables e st) = next_nid st" by (simp add: create_tables_def)
qed

text \<open>The same step for each table: the insertion returns, the table stays one, and what is stored is found.\<close>

lemma insert_by_nid:
  assumes "lh_heap_ok e" "by_nid.table t" "has_nid (Some ob)"
  shows "\<exists>ok t'. insert_added e (Some t) ob = Some (ok, Some t') \<and> by_nid.table t' \<and> (ok \<longrightarrow> Some ob \<in> lh_contents t')"
  using by_nid.lh_insert_correct [OF assms] by (fastforce simp: insert_added_def)

lemma insert_by_data:
  assumes "lh_heap_ok e" "by_data.table t" "has_data (Some ob)"
  shows "\<exists>ok t'. insert_added e (Some t) ob = Some (ok, Some t') \<and> by_data.table t' \<and> (ok \<longrightarrow> Some ob \<in> lh_contents t')"
  using by_data.lh_insert_correct [OF assms] by (fastforce simp: insert_added_def)

lemma insert_by_sn:
  assumes "lh_heap_ok e" "by_sn.table t" "has_sn (Some ob)"
  shows "\<exists>ok t'. insert_added e (Some t) ob = Some (ok, Some t') \<and> by_sn.table t' \<and> (ok \<longrightarrow> Some ob \<in> lh_contents t')"
  using by_sn.lh_insert_correct [OF assms] by (fastforce simp: insert_added_def)

lemma insert_by_ln:
  assumes "lh_heap_ok e" "by_ln.table t" "has_ln (Some ob)"
  shows "\<exists>ok t'. insert_added e (Some t) ob = Some (ok, Some t') \<and> by_ln.table t' \<and> (ok \<longrightarrow> Some ob \<in> lh_contents t')"
  using by_ln.lh_insert_correct [OF assms] by (fastforce simp: insert_added_def)

text \<open>The object is in every table that it belongs to.\<close>

definition registered :: "obj_state \<Rightarrow> asn1_object \<Rightarrow> bool" where
  "registered st ob \<longleftrightarrow>
     Some ob \<in> elements (added_by_nid st)
     \<and> (o_length ob \<noteq> 0 \<and> o_data ob \<noteq> None \<longrightarrow> Some ob \<in> elements (added_by_data st))
     \<and> (o_sn ob \<noteq> None \<longrightarrow> Some ob \<in> elements (added_by_short_name st))
     \<and> (o_ln ob \<noteq> None \<longrightarrow> Some ob \<in> elements (added_by_long_name st))"

lemma obj_add_object_correct:
  assumes hp: "lh_heap_ok e" "tables_fit e" and reg: "registry_ok st" and ob: "obj_wf ob"
  shows "\<exists>ok ob' st'. obj_add_object e st ob = Some (ok, ob', st') \<and> registry_ready st' \<and> next_nid st' = next_nid st
    \<and> ob' = ob\<lparr>o_flags := o_flags ob AND NOT all_dynamic\<rparr> \<and> (ok \<longrightarrow> registered st' ob')"
proof -
  define ob' where "ob' = ob\<lparr>o_flags := o_flags ob AND NOT all_dynamic\<rparr>"
  define st1 where "st1 = create_tables e st"
  have wf: "obj_wf ob'" using ob by (simp add: ob'_def obj_wf_def obj_bytes_def)
  obtain t1 t2 t3 t4 where t: "added_by_nid st1 = Some t1" "added_by_data st1 = Some t2"
    "added_by_short_name st1 = Some t3" "added_by_long_name st1 = Some t4"
    "by_nid.table t1" "by_data.table t2" "by_sn.table t3" "by_ln.table t4"
    using create_tables_ready(1) [OF reg hp(2)] by (auto simp: registry_ready_def st1_def)
  have nx: "next_nid st1 = next_nid st" using create_tables_ready(2) [OF reg hp(2)] by (simp add: st1_def)
  obtain ok1 u1 where 1: "insert_added e (Some t1) ob' = Some (ok1, Some u1)" "by_nid.table u1"
    "ok1 \<Longrightarrow> Some ob' \<in> lh_contents u1"
    using insert_by_nid [OF hp(1) t(5), of ob'] by (auto simp: has_nid_def)
  obtain ok2 u2 where 2: "(if o_length ob' \<noteq> 0 \<and> o_data ob' \<noteq> None then insert_added e (Some t2) ob' else Some (True, Some t2))
      = Some (ok2, Some u2)" "by_data.table u2" "ok2 \<and> o_length ob' \<noteq> 0 \<and> o_data ob' \<noteq> None \<Longrightarrow> Some ob' \<in> lh_contents u2"
    using insert_by_data [OF hp(1) t(6), of ob'] t(6) wf
    by (cases "o_length ob' \<noteq> 0 \<and> o_data ob' \<noteq> None") (auto simp: has_data_def)
  obtain ok3 u3 where 3: "(if o_sn ob' \<noteq> None then insert_added e (Some t3) ob' else Some (True, Some t3))
      = Some (ok3, Some u3)" "by_sn.table u3" "ok3 \<and> o_sn ob' \<noteq> None \<Longrightarrow> Some ob' \<in> lh_contents u3"
    using insert_by_sn [OF hp(1) t(7), of ob'] t(7) by (cases "o_sn ob' = None") (auto simp: has_sn_def)
  obtain ok4 u4 where 4: "(if o_ln ob' \<noteq> None then insert_added e (Some t4) ob' else Some (True, Some t4))
      = Some (ok4, Some u4)" "by_ln.table u4" "ok4 \<and> o_ln ob' \<noteq> None \<Longrightarrow> Some ob' \<in> lh_contents u4"
    using insert_by_ln [OF hp(1) t(8), of ob'] t(8) by (cases "o_ln ob' = None") (auto simp: has_ln_def)
  define st2 where "st2 = st1\<lparr>added_by_nid := Some u1, added_by_data := Some u2, added_by_short_name := Some u3, added_by_long_name := Some u4\<rparr>"
  have "obj_add_object e st ob = Some (ok1 \<and> ok2 \<and> ok3 \<and> ok4, ob', st2)"
    unfolding obj_add_object_def Let_def ob'_def [symmetric] st1_def [symmetric] t(1-4) 1(1) 2(1) 3(1) 4(1)
    by (simp add: st2_def)
  moreover have "registry_ready st2" using 1(2) 2(2) 3(2) 4(2) by (simp add: registry_ready_def st2_def)
  moreover have "registered st2 ob'" if "ok1 \<and> ok2 \<and> ok3 \<and> ok4"
    using that 1(3) 2(3) 3(3) 4(3) by (auto simp: registered_def elements_def st2_def)
  ultimately show ?thesis using nx by (auto simp: ob'_def st2_def)
qed

text \<open>What a registered object is found under.\<close>

lemma registered_lookups:
  assumes "registry_ready st" "registered st ob" "obj_wf ob"
  shows "retrieve_added (added_by_nid st) (empty_object\<lparr>o_nid := o_nid ob\<rparr>) = Some (Some ob)"
    "\<And>k. o_length ob \<noteq> 0 \<Longrightarrow> o_data ob \<noteq> None \<Longrightarrow> obj_wf k \<Longrightarrow> obj_contents k = obj_contents ob
      \<Longrightarrow> retrieve_added (added_by_data st) k = Some (Some ob)"
    "\<And>s s'. o_sn ob = Some s \<Longrightarrow> cstr s' = cstr s
      \<Longrightarrow> retrieve_added (added_by_short_name st) (empty_object\<lparr>o_sn := Some s'\<rparr>) = Some (Some ob)"
    "\<And>s s'. o_ln ob = Some s \<Longrightarrow> cstr s' = cstr s
      \<Longrightarrow> retrieve_added (added_by_long_name st) (empty_object\<lparr>o_ln := Some s'\<rparr>) = Some (Some ob)"
proof -
  obtain t1 t2 t3 t4 where t: "added_by_nid st = Some t1" "added_by_data st = Some t2"
    "added_by_short_name st = Some t3" "added_by_long_name st = Some t4"
    "by_nid.table t1" "by_data.table t2" "by_sn.table t3" "by_ln.table t4"
    using assms(1) by (auto simp: registry_ready_def)
  note r = assms(2) [unfolded registered_def elements_def t option.case]
  show "retrieve_added (added_by_nid st) (empty_object\<lparr>o_nid := o_nid ob\<rparr>) = Some (Some ob)"
    unfolding retrieve_added_def t option.case
    by (rule by_nid.retrieve_element [OF t(5)]) (use r in \<open>simp_all add: has_nid_def cmp_nid_zero\<close>)
  show "retrieve_added (added_by_data st) k = Some (Some ob)"
    if "o_length ob \<noteq> 0" "o_data ob \<noteq> None" "obj_wf k" "obj_contents k = obj_contents ob" for k
    unfolding retrieve_added_def t option.case
    by (rule by_data.retrieve_element [OF t(6)]) (use r that assms(3) in \<open>simp_all add: has_data_def cmp_data_zero\<close>)
  show "retrieve_added (added_by_short_name st) (empty_object\<lparr>o_sn := Some s'\<rparr>) = Some (Some ob)"
    if "o_sn ob = Some s" "cstr s' = cstr s" for s s'
    unfolding retrieve_added_def t option.case
    by (rule by_sn.retrieve_element [OF t(7)]) (use r that in \<open>simp_all add: has_sn_def cmp_short_name_zero\<close>)
  show "retrieve_added (added_by_long_name st) (empty_object\<lparr>o_ln := Some s'\<rparr>) = Some (Some ob)"
    if "o_ln ob = Some s" "cstr s' = cstr s" for s s'
    unfolding retrieve_added_def t option.case
    by (rule by_ln.retrieve_element [OF t(8)]) (use r that in \<open>simp_all add: has_ln_def cmp_long_name_zero\<close>)
qed


section \<open>Creating objects\<close>

definition terminated :: "bytes \<Rightarrow> bool" where
  "terminated s \<longleftrightarrow> strlen s < length s \<and> length s < 2 ^ 60"

lemma generous_malloc_any:
  assumes "heap_generous e" "n < 2 ^ 60"
  shows "\<exists>b. OPENSSL_malloc e n = Some b \<and> length b = n"
proof -
  have "can_alloc e (n + 8)" using assms by (simp add: heap_generous_def)
  moreover have "size_add n 8 = n + 8" by (rule size_add_exact) (use assms(2) in simp)
  ultimately show ?thesis by (simp add: OPENSSL_malloc_def OPENSSL_MALLOC_PREFIX_def)
qed

lemma dup_string:
  assumes "heap_generous e" "terminated s"
  shows "\<exists>t. OPENSSL_strdup e s = Some t \<and> cstr t = cstr s \<and> terminated t"
proof -
  have n: "strlen s + 1 < 2 ^ 60" "strlen s + 1 \<le> length s" using assms(2) by (simp_all add: terminated_def)
  obtain b where b: "OPENSSL_malloc e (strlen s + 1) = Some b" "length b = strlen s + 1"
    using generous_malloc_any [OF assms(1) n(1)] by blast
  have dup: "OPENSSL_strdup e s = Some (take (strlen s + 1) s)"
    using b n(2) by (simp add: OPENSSL_strdup_def blit_def)
  have "s ! strlen s = 0"
    using assms(2) nth_length_takeWhile [of "\<lambda>c. c \<noteq> 0" s] by (simp add: terminated_def strlen_def cstr_def)
  then have t: "take (strlen s + 1) s = cstr s @ 0 # []"
    using n(2) cstr_take [of s] by (simp add: take_Suc_conv_app_nth)
  have "cstr (cstr s @ 0 # []) = cstr s" by (rule cstr_terminated [OF zero_notin_cstr])
  then show ?thesis using dup n unfolding t by (simp add: terminated_def strlen_def)
qed

lemma dup_name_ok:
  assumes "heap_generous e" "\<forall>s. name = Some s \<longrightarrow> terminated s"
  shows "\<exists>name'. dup_name e name = Some name' \<and> map_option cstr name' = map_option cstr name
    \<and> (\<forall>s. name' = Some s \<longrightarrow> terminated s)"
  using assms dup_string [OF assms(1)] by (cases name) (force simp: dup_name_def)+

lemma length_oid_der:
  assumes "oid_ok as"
  shows "length (oid_der as) \<le> 11 * length as"
proof -
  have l: "length (base128 n) \<le> 11" if "n < 2 ^ 65" for n
    using length_b128_hi [of "n div 128" 10] that by (simp add: base128_def)
  obtain a b cs where as: "as = a # b # cs" using assms by (cases as rule: oid_ok.cases) auto
  have "length (concat (map base128 cs)) \<le> 11 * length cs" 
  proof -
    have "\<forall>c\<in>set cs. c < 2 ^ 64" using assms by (simp add: as)
    then show ?thesis
  proof (induction cs)
    case (Cons c cs)
    then have "length (base128 c) \<le> 11" by (intro l) simp
    then show ?case using Cons by simp
  qed simp
  qed
  moreover have "length (base128 (40 * a + b)) \<le> 11" by (rule l) (use assms in \<open>simp add: as\<close>)
  ultimately show ?thesis by (simp add: as)
qed

text \<open>An object with no data is not made by these functions; its text and contents are those of \<open>as\<close>.\<close>

definition object_of :: "asn1_object \<Rightarrow> int \<Rightarrow> nat list \<Rightarrow> bytes option \<Rightarrow> bytes option \<Rightarrow> bool" where
  "object_of ob nid as sn ln \<longleftrightarrow>
     o_nid ob = nid \<and> o_length ob = int (length (oid_der as)) \<and> o_data ob = Some (oid_der as)
     \<and> map_option cstr (o_sn ob) = map_option cstr sn \<and> map_option cstr (o_ln ob) = map_option cstr ln
     \<and> (\<forall>s. o_sn ob = Some s \<longrightarrow> terminated s) \<and> (\<forall>s. o_ln ob = Some s \<longrightarrow> terminated s)"

lemma object_of_wf: "object_of ob nid as sn ln \<Longrightarrow> oid_ok as \<Longrightarrow> length as \<le> 2 ^ 20 \<Longrightarrow> obj_wf ob \<and> obj_contents ob = oid_der as"
  using length_oid_der [of as] by (simp add: object_of_def obj_wf_def obj_contents_def obj_bytes_def)

lemma create_object_correct:
  assumes hp: "heap_ok e" "heap_generous e" and as: "oid_ok as" "length as \<le> 2 ^ 20"
    and tx: "terminated oid" "cstr oid = oid_text as"
    and names: "\<forall>s. sn = Some s \<longrightarrow> terminated s" "\<forall>s. ln = Some s \<longrightarrow> terminated s"
  shows "\<exists>ob. create_object_with_text_oid e st get_nid oid sn ln
      = (Some ob, if get_nid then snd (obj_next_nid st) else st)
    \<and> object_of ob (if get_nid then fst (obj_next_nid st) else NID_undef) as sn ln
    \<and> o_flags ob = all_dynamic"
proof -
  define nid where "nid = (if get_nid then fst (obj_next_nid st) else NID_undef)"
  have len: "length (oid_der as) \<le> 2 ^ 24" using length_oid_der [OF as(1)] as(2) by simp
  obtain s0 where s0: "CBB_init e 32 = (True, s0)" "cbb_ready 0 0 s0 []"
    using CBB_init_ready [OF hp, of 32] by auto
  have "take (strlen oid) oid = oid_text as" using tx(2) cstr_take [of oid] by simp
  from cbb_app_oid_prefix [OF hp(1) as(1) this]
  have app: "cbb_app e 0 (\<lambda>s. CBB_add_asn1_oid_from_text e 0 s oid (strlen oid)) (oid_der as)"
    using tx(1) by (simp add: terminated_def)
  have "0 + 8 * length (oid_der as) \<le> 2 ^ 60" using len by simp
  from cbb_app_ready [OF app hp(2) s0(2) this] obtain s1 where
    s1: "CBB_add_asn1_oid_from_text e 0 s0 oid (strlen oid) = (True, s1)" "cbb_ready (0 + length (oid_der as)) 0 s1 ([] @ oid_der as)"
    by blast
  have "0 + length (oid_der as) \<le> 2 ^ 60" using len by simp
  from CBB_finish_ready [OF hp s1(2) this] obtain buf s2 where
    f: "CBB_finish e 0 s1 True True = (Some (buf, length (oid_der as)), s2)" "take (length (oid_der as)) buf = oid_der as" by auto
  have il: "int_of_size (length (oid_der as)) = int (length (oid_der as))"
    by (rule int_of_size_small) (use len in simp)
  have sl: "size_of_int (int (length (oid_der as))) = length (oid_der as)" using len by (simp add: size_of_int_def)
  obtain o0 where o0: "ASN1_OBJECT_new e = Some o0" using generous_malloc_any [OF hp(2), of 40] by (auto simp: ASN1_OBJECT_new_def)
  obtain d where d: "OPENSSL_malloc e (length (oid_der as)) = Some d" "length d = length (oid_der as)"
    using generous_malloc_any [OF hp(2), of "length (oid_der as)"] len by auto
  obtain sn' where sn': "dup_name e sn = Some sn'" "map_option cstr sn' = map_option cstr sn" "\<forall>s. sn' = Some s \<longrightarrow> terminated s"
    using dup_name_ok [OF hp(2) names(1)] by blast
  obtain ln' where ln': "dup_name e ln = Some ln'" "map_option cstr ln' = map_option cstr ln" "\<forall>s. ln' = Some s \<longrightarrow> terminated s"
    using dup_name_ok [OF hp(2) names(2)] by blast
  define ob where "ob = o0\<lparr>o_data := Some (oid_der as), o_length := int (length (oid_der as)), o_nid := nid, o_sn := sn',
    o_ln := ln', o_flags := all_dynamic OR all_dynamic\<rparr>"
  have dyn: "all_dynamic AND ASN1_OBJECT_FLAG_DYNAMIC \<noteq> 0"
    by (simp add: all_dynamic_def ASN1_OBJECT_FLAG_DYNAMIC_def ASN1_OBJECT_FLAG_DYNAMIC_STRINGS_def ASN1_OBJECT_FLAG_DYNAMIC_DATA_def)
  have "blit d 0 (oid_der as) = oid_der as" using d(2) by (simp add: blit_def)
  then have "ASN1_OBJECT_create e nid buf (int (length (oid_der as))) sn ln = Some ob"
    using o0 d(1) sn'(1) ln'(1) f(2) dyn by (simp add: ASN1_OBJECT_create_def OBJ_dup_def sl ob_def Let_def)
  moreover have "object_of ob nid as sn ln" using sn' ln' by (simp add: object_of_def ob_def)
  moreover have "and_then (CBB_init e 32) (\<lambda>s. CBB_add_asn1_oid_from_text e 0 s oid (strlen oid)) = (True, s1)"
    using s0(1) s1(1) by (simp add: and_then_def)
  ultimately show ?thesis
    using f(1) il by (cases get_nid) (simp_all add: create_object_with_text_oid_def nid_def ob_def case_prod_beta)
qed


lemma OBJ_create_correct:
  assumes hp: "lh_heap_ok e" "tables_fit e" "heap_ok (heap_env.truncate e)" "heap_generous (heap_env.truncate e)"
    and reg: "registry_ok st" and as: "oid_ok as" "length as \<le> 2 ^ 20"
    and tx: "terminated oid" "cstr oid = oid_text as"
    and names: "\<forall>s. sn = Some s \<longrightarrow> terminated s" "\<forall>s. ln = Some s \<longrightarrow> terminated s"
  shows "\<exists>nid st'. OBJ_create e st oid sn ln = Some (nid, st') \<and> registry_ready st' \<and> next_nid st' = next_nid st + 1
    \<and> (nid \<noteq> NID_undef \<longrightarrow> nid = sint (next_nid st) \<and> (\<exists>ob. object_of ob nid as sn ln \<and> registered st' ob))"
proof -
  define st1 where "st1 = snd (obj_next_nid st)"
  define nid where "nid = fst (obj_next_nid st)"
  obtain ob where ob: "create_object_with_text_oid (heap_env.truncate e) st True oid sn ln = (Some ob, st1)"
    "object_of ob nid as sn ln"
    using create_object_correct [OF hp(3,4) as tx names, of st True] by (auto simp: st1_def nid_def)
  have nid: "nid = sint (next_nid st)" "next_nid st1 = next_nid st + 1" "registry_ok st1"
    using reg by (simp_all add: nid_def st1_def obj_next_nid_def registry_ok_def)
  have wf: "obj_wf ob" using object_of_wf [OF ob(2) as] by simp
  obtain ok ob' st' where a: "obj_add_object e st1 ob = Some (ok, ob', st')" "registry_ready st'" "next_nid st' = next_nid st1"
    "ob' = ob\<lparr>o_flags := o_flags ob AND NOT all_dynamic\<rparr>" "ok \<longrightarrow> registered st' ob'"
    using obj_add_object_correct [OF hp(1,2) nid(3) wf] by blast
  have ob': "object_of ob' nid as sn ln" "o_nid ob' = nid" using ob(2) by (simp_all add: a(4) object_of_def)
  have "OBJ_create e st oid sn ln = Some (if ok then nid else NID_undef, st')"
    using ob(1) a(1) ob'(2) by (simp add: OBJ_create_def)
  then show ?thesis using a(2,3,5) nid ob'(1) by auto
qed

lemma oid_der_nonempty: "oid_ok as \<Longrightarrow> oid_der as \<noteq> []"
  by (cases as rule: oid_ok.cases) simp_all

lemma registered_found:
  assumes "registry_ready st" "registered st ob" "object_of ob nid as sn ln" "oid_ok as" "length as \<le> 2 ^ 20" "nid \<noteq> NID_undef"
  shows "\<not> (0 \<le> nid \<and> nid < int (length (kObjects tb))) \<Longrightarrow> OBJ_nid2obj tb st nid = Some (Some ob)"
    "cbs_wf c \<Longrightarrow> cbs_view c = oid_der as \<Longrightarrow> OBJ_cbs2nid tb st c = Some nid"
    "sn = Some s \<Longrightarrow> cstr s' = cstr s \<Longrightarrow> OBJ_sn2nid tb st s' = Some nid"
    "ln = Some s \<Longrightarrow> cstr s' = cstr s \<Longrightarrow> OBJ_ln2nid tb st s' = Some nid"
proof -
  have wf: "obj_wf ob" "obj_contents ob = oid_der as" using object_of_wf [OF assms(3-5)] by simp_all
  note r = registered_lookups [OF assms(1,2) wf(1)]
  have o1: "o_nid ob = nid" "o_length ob = int (length (oid_der as))" "o_data ob = Some (oid_der as)"
    using assms(3) by (simp_all add: object_of_def)
  show "OBJ_nid2obj tb st nid = Some (Some ob)" if "\<not> (0 \<le> nid \<and> nid < int (length (kObjects tb)))"
    using that r(1) o1(1) by (auto simp: OBJ_nid2obj_def)
  show "OBJ_sn2nid tb st s' = Some nid" if "sn = Some s" "cstr s' = cstr s"
  proof -
    have "map_option cstr (o_sn ob) = Some (cstr s)" using assms(3) that(1) by (simp add: object_of_def)
    then obtain t where "o_sn ob = Some t" "cstr t = cstr s" by blast
    then show ?thesis using r(3) [of t s'] that(2) o1(1) by (simp add: OBJ_sn2nid_def)
  qed
  show "OBJ_ln2nid tb st s' = Some nid" if "ln = Some s" "cstr s' = cstr s"
  proof -
    have "map_option cstr (o_ln ob) = Some (cstr s)" using assms(3) that(1) by (simp add: object_of_def)
    then obtain t where "o_ln ob = Some t" "cstr t = cstr s" by blast
    then show ?thesis using r(4) [of t s'] that(2) o1(1) by (simp add: OBJ_ln2nid_def)
  qed
  show "OBJ_cbs2nid tb st c = Some nid" if c: "cbs_wf c" "cbs_view c = oid_der as"
  proof -
    define key where "key = empty_object\<lparr>o_data := Some (CBS_data c), o_length := int (CBS_len c)\<rparr>"
    have len: "c_len c = length (oid_der as)" using c by (metis length_cbs_view)
    then have le: "c_len c \<le> INT_MAX" using length_oid_der [OF assms(4)] assms(5) by (simp add: INT_MAX_def)
    have "obj_wf key"
      using c(1) le by (simp add: key_def obj_wf_def obj_bytes_def cbs_wf_def CBS_len_def CBS_data_def INT_MAX_def)
    moreover have "obj_contents key = obj_contents ob"
      using c(2) wf(2) by (simp add: key_def obj_contents_def obj_bytes_def CBS_len_def CBS_data_def cbs_view_def)
    moreover have "o_length ob \<noteq> 0" "o_data ob \<noteq> None" using o1 oid_der_nonempty [OF assms(4)] by simp_all
    ultimately have "retrieve_added (added_by_data st) key = Some (Some ob)" using r(2) by blast
    then show ?thesis
      using le o1(1) by (simp add: OBJ_cbs2nid_def OBJ_obj2nid_def key_def CBS_len_def empty_object_def)
  qed
qed


section \<open>The built-in tables\<close>

lemma memcmp_cmp_bytes: "n \<le> length a \<Longrightarrow> n \<le> length b \<Longrightarrow> memcmp a b n = cmp_bytes (take n a) (take n b)"
  by (induction a b n rule: memcmp.induct) auto

lemma OBJ_cmp_eq:
  assumes "obj_wf a" "obj_wf b"
  shows "OBJ_cmp a b = (if o_length a \<noteq> o_length b then o_length a - o_length b else cmp_bytes (obj_contents a) (obj_contents b))"
  using assms memcmp_cmp_bytes [of "nat (o_length a)" "obj_bytes a" "obj_bytes b"]
  by (auto simp: OBJ_cmp_def Let_def obj_contents_def obj_wf_def)

interpretation objs: comparison obj_wf OBJ_cmp
proof
  show "OBJ_cmp a b < 0 \<longleftrightarrow> 0 < OBJ_cmp b a" if "obj_wf a" "obj_wf b" for a b
    using cmp_bytes_swap [of "obj_contents b" "obj_contents a"] by (auto simp: OBJ_cmp_eq that)
  show "OBJ_cmp a c \<le> 0" if "obj_wf a" "obj_wf b" "obj_wf c" "OBJ_cmp a b \<le> 0" "OBJ_cmp b c \<le> 0" for a b c
    using that(4,5) cmp_bytes_trans [of "obj_contents a" "obj_contents b" "obj_contents c"]
    by (auto simp: OBJ_cmp_eq that(1-3) split: if_splits)
qed

interpretation strs: comparison "\<lambda>_. True" strcmp
proof
  show "strcmp s t < 0 \<longleftrightarrow> 0 < strcmp t s" for s t
    using cmp_bytes_swap [of "cstr t" "cstr s"] by (simp add: strcmp_def)
  show "strcmp s u \<le> 0" if "strcmp s t \<le> 0" "strcmp t u \<le> 0" for s t u
    using cmp_bytes_trans that unfolding strcmp_def by blast
qed

text \<open>
  What the generator of the tables promises: an entry of an ordering array is the index of an object that has
  its index as its number, and the arrays are strictly ordered.
\<close>

definition short_name :: "obj_tables \<Rightarrow> nat \<Rightarrow> bytes" where
  "short_name tb n = the (o_sn (kObjects tb ! n))"

definition long_name :: "obj_tables \<Rightarrow> nat \<Rightarrow> bytes" where
  "long_name tb n = the (o_ln (kObjects tb ! n))"

definition tables_ok :: "obj_tables \<Rightarrow> bool" where
  "tables_ok tb \<longleftrightarrow>
     (\<forall>n\<in>set (kNIDsInOIDOrder tb) \<union> set (kNIDsInShortNameOrder tb) \<union> set (kNIDsInLongNameOrder tb).
        n < length (kObjects tb) \<and> o_nid (kObjects tb ! n) = int n)
     \<and> (\<forall>n\<in>set (kNIDsInOIDOrder tb). obj_wf (kObjects tb ! n))
     \<and> sorted_wrt (\<lambda>m n. OBJ_cmp (kObjects tb ! m) (kObjects tb ! n) < 0) (kNIDsInOIDOrder tb)
     \<and> sorted_wrt (\<lambda>m n. strcmp (short_name tb m) (short_name tb n) < 0) (kNIDsInShortNameOrder tb)
     \<and> sorted_wrt (\<lambda>m n. strcmp (long_name tb m) (long_name tb n) < 0) (kNIDsInLongNameOrder tb)"

lemma sorted_wrt_weaken: "sorted_wrt (\<lambda>x y. f x y < (0 :: int)) xs \<Longrightarrow> sorted_wrt (\<lambda>x y. f x y \<le> 0) xs"
  by (erule sorted_wrt_mono_rel [rotated]) auto

lemma strictly_sorted_unique:
  assumes "sorted_wrt (\<lambda>x y. f x y < (0 :: int)) xs" "x \<in> set xs" "y \<in> set xs" "f x y = 0" "f y x = 0"
  shows "x = y"
proof -
  obtain i j where ij: "i < length xs" "j < length xs" "xs ! i = x" "xs ! j = y" using assms(2,3) by (meson in_set_conv_nth)
  show ?thesis
  proof (cases i j rule: linorder_cases)
    case less
    then show ?thesis using sorted_wrt_nth_less [OF assms(1) less ij(2)] assms(4) ij by simp
  next
    case greater
    then show ?thesis using sorted_wrt_nth_less [OF assms(1) greater ij(1)] assms(5) ij by simp
  qed (use ij in simp)
qed

lemma table_search:
  assumes c: "comparison valid c" and keys: "\<forall>m\<in>set order. valid (f m) \<and> sgn (cmp key m) = sgn (c k (f m))" "valid k"
    and srt: "sorted_wrt (\<lambda>m n. c (f m) (f n) < 0) order"
    and num: "\<forall>m\<in>set order. o_nid (kObjects tb ! m) = int m"
  shows "n \<in> set order \<Longrightarrow> c k (f n) = 0 \<Longrightarrow> nid_of_found tb order (bsearch cmp key order) = int n"
    and "\<forall>m\<in>set order. c k (f m) \<noteq> 0 \<Longrightarrow> nid_of_found tb order (bsearch cmp key order) = NID_undef"
proof -
  note r = comparison.bsearch_keyed [where valid = valid and cmp = c and f = f and cmp' = cmp and key = key and k = k, OF c keys sorted_wrt_weaken [OF srt]]
  show "nid_of_found tb order (bsearch cmp key order) = int n" if n: "n \<in> set order" "c k (f n) = 0"
  proof (cases "bsearch cmp key order")
    case None
    then show ?thesis using r n by auto
  next
    case (Some i)
    then have i: "order ! i \<in> set order" "c k (f (order ! i)) = 0" using r by simp_all
    have v: "valid (f n)" "valid (f (order ! i))" using keys(1) n(1) i(1) by auto
    have z: "c (f n) k = 0" "c (f (order ! i)) k = 0"
      using n(2) i(2) comparison.swap [OF c keys(2) v(1)] comparison.swap [OF c v(1) keys(2)]
        comparison.swap [OF c keys(2) v(2)] comparison.swap [OF c v(2) keys(2)] by linarith+
    have "c (f n) (f (order ! i)) \<le> 0" "c (f (order ! i)) (f n) \<le> 0"
      using comparison.trans [OF c v(1) keys(2) v(2)] comparison.trans [OF c v(2) keys(2) v(1)] n(2) i(2) z by simp_all
    then have "c (f n) (f (order ! i)) = 0" "c (f (order ! i)) (f n) = 0"
      using comparison.swap [OF c v] comparison.swap [OF c v(2,1)] by linarith+
    from strictly_sorted_unique [OF srt n(1) i(1) this] show ?thesis
      using num i(1) Some by (simp add: nid_of_found_def)
  qed
  show "nid_of_found tb order (bsearch cmp key order) = NID_undef" if "\<forall>m\<in>set order. c k (f m) \<noteq> 0"
    using r that by (auto simp: nid_of_found_def split: option.splits)
qed

lemma obj_cmp_sgn:
  assumes "obj_wf a" "obj_wf (kObjects tb ! n)"
  shows "sgn (obj_cmp tb a n) = sgn (OBJ_cmp a (kObjects tb ! n))"
  using assms by (simp add: obj_cmp_def OBJ_cmp_def Let_def)

lemma builtin_short_name:
  assumes "tables_ok tb" "added_by_short_name st = None"
  shows "n \<in> set (kNIDsInShortNameOrder tb) \<Longrightarrow> cstr (short_name tb n) = cstr s \<Longrightarrow> OBJ_sn2nid tb st s = Some (int n)"
    and "\<forall>m\<in>set (kNIDsInShortNameOrder tb). cstr (short_name tb m) \<noteq> cstr s \<Longrightarrow> OBJ_sn2nid tb st s = Some NID_undef"
proof -
  have keys: "\<forall>m\<in>set (kNIDsInShortNameOrder tb). True \<and> sgn (short_name_cmp tb s m) = sgn (strcmp s (short_name tb m))"
    by (simp add: short_name_cmp_def short_name_def)
  have srt: "sorted_wrt (\<lambda>m n. strcmp (short_name tb m) (short_name tb n) < 0) (kNIDsInShortNameOrder tb)"
    and num: "\<forall>m\<in>set (kNIDsInShortNameOrder tb). o_nid (kObjects tb ! m) = int m" using assms(1) by (auto simp: tables_ok_def)
  note r = table_search [where valid = "\<lambda>_. True" and c = strcmp and f = "short_name tb" and cmp = "short_name_cmp tb"
    and key = s and k = s, OF strs.comparison_axioms keys TrueI srt num]
  have z: "strcmp s t = 0 \<longleftrightarrow> cstr t = cstr s" for t by (auto simp: strcmp_def cmp_bytes_zero)
  have q: "OBJ_sn2nid tb st s = Some (nid_of_found tb (kNIDsInShortNameOrder tb) (bsearch (short_name_cmp tb) s (kNIDsInShortNameOrder tb)))"
    using assms(2) by (simp add: OBJ_sn2nid_def retrieve_added_def)
  show "n \<in> set (kNIDsInShortNameOrder tb) \<Longrightarrow> cstr (short_name tb n) = cstr s \<Longrightarrow> OBJ_sn2nid tb st s = Some (int n)"
    using r(1) [of n] z q by simp
  show "\<forall>m\<in>set (kNIDsInShortNameOrder tb). cstr (short_name tb m) \<noteq> cstr s \<Longrightarrow> OBJ_sn2nid tb st s = Some NID_undef"
    using r(2) z q by simp
qed

lemma builtin_long_name:
  assumes "tables_ok tb" "added_by_long_name st = None"
  shows "n \<in> set (kNIDsInLongNameOrder tb) \<Longrightarrow> cstr (long_name tb n) = cstr s \<Longrightarrow> OBJ_ln2nid tb st s = Some (int n)"
    and "\<forall>m\<in>set (kNIDsInLongNameOrder tb). cstr (long_name tb m) \<noteq> cstr s \<Longrightarrow> OBJ_ln2nid tb st s = Some NID_undef"
proof -
  have keys: "\<forall>m\<in>set (kNIDsInLongNameOrder tb). True \<and> sgn (long_name_cmp tb s m) = sgn (strcmp s (long_name tb m))"
    by (simp add: long_name_cmp_def long_name_def)
  have srt: "sorted_wrt (\<lambda>m n. strcmp (long_name tb m) (long_name tb n) < 0) (kNIDsInLongNameOrder tb)"
    and num: "\<forall>m\<in>set (kNIDsInLongNameOrder tb). o_nid (kObjects tb ! m) = int m" using assms(1) by (auto simp: tables_ok_def)
  note r = table_search [where valid = "\<lambda>_. True" and c = strcmp and f = "long_name tb" and cmp = "long_name_cmp tb"
    and key = s and k = s, OF strs.comparison_axioms keys TrueI srt num]
  have z: "strcmp s t = 0 \<longleftrightarrow> cstr t = cstr s" for t by (auto simp: strcmp_def cmp_bytes_zero)
  have q: "OBJ_ln2nid tb st s = Some (nid_of_found tb (kNIDsInLongNameOrder tb) (bsearch (long_name_cmp tb) s (kNIDsInLongNameOrder tb)))"
    using assms(2) by (simp add: OBJ_ln2nid_def retrieve_added_def)
  show "n \<in> set (kNIDsInLongNameOrder tb) \<Longrightarrow> cstr (long_name tb n) = cstr s \<Longrightarrow> OBJ_ln2nid tb st s = Some (int n)"
    using r(1) [of n] z q by simp
  show "\<forall>m\<in>set (kNIDsInLongNameOrder tb). cstr (long_name tb m) \<noteq> cstr s \<Longrightarrow> OBJ_ln2nid tb st s = Some NID_undef"
    using r(2) z q by simp
qed

lemma OBJ_cmp_zero: "obj_wf a \<Longrightarrow> obj_wf b \<Longrightarrow> OBJ_cmp a b = 0 \<longleftrightarrow> obj_contents a = obj_contents b"
proof -
  have "cmp_data (Some a) (Some b) = OBJ_cmp a b" by (simp add: cmp_data_def OBJ_cmp_def)
  then show "obj_wf a \<Longrightarrow> obj_wf b \<Longrightarrow> ?thesis" using cmp_data_zero [of "Some a" "Some b"] by simp
qed

lemma builtin_data:
  assumes "tables_ok tb" "added_by_data st = None" "obj_wf ob" "o_nid ob = 0"
  shows "n \<in> set (kNIDsInOIDOrder tb) \<Longrightarrow> obj_contents (kObjects tb ! n) = obj_contents ob
      \<Longrightarrow> OBJ_obj2nid tb st (Some ob) = Some (int n)"
    and "\<forall>m\<in>set (kNIDsInOIDOrder tb). obj_contents (kObjects tb ! m) \<noteq> obj_contents ob
      \<Longrightarrow> OBJ_obj2nid tb st (Some ob) = Some NID_undef"
proof -
  have keys: "\<forall>m\<in>set (kNIDsInOIDOrder tb). obj_wf (kObjects tb ! m) \<and> sgn (obj_cmp tb ob m) = sgn (OBJ_cmp ob (kObjects tb ! m))"
    using assms(1,3) obj_cmp_sgn by (auto simp: tables_ok_def)
  have srt: "sorted_wrt (\<lambda>m n. OBJ_cmp (kObjects tb ! m) (kObjects tb ! n) < 0) (kNIDsInOIDOrder tb)"
    and num: "\<forall>m\<in>set (kNIDsInOIDOrder tb). o_nid (kObjects tb ! m) = int m" using assms(1) by (auto simp: tables_ok_def)
  note r = table_search [where valid = obj_wf and c = OBJ_cmp and f = "\<lambda>m. kObjects tb ! m" and cmp = "obj_cmp tb"
    and key = ob and k = ob, OF objs.comparison_axioms keys assms(3) srt num]
  have z: "OBJ_cmp ob (kObjects tb ! m) = 0 \<longleftrightarrow> obj_contents (kObjects tb ! m) = obj_contents ob"
    if "m \<in> set (kNIDsInOIDOrder tb)" for m
    using OBJ_cmp_zero [OF assms(3)] keys that by auto
  show "OBJ_obj2nid tb st (Some ob) = Some (int n)"
    if "n \<in> set (kNIDsInOIDOrder tb)" "obj_contents (kObjects tb ! n) = obj_contents ob"
    using r(1) [of n] z that assms(2,4) by (simp add: OBJ_obj2nid_def retrieve_added_def)
  show "OBJ_obj2nid tb st (Some ob) = Some NID_undef"
    if "\<forall>m\<in>set (kNIDsInOIDOrder tb). obj_contents (kObjects tb ! m) \<noteq> obj_contents ob"
    using r(2) z that assms(2,4) by (simp add: OBJ_obj2nid_def retrieve_added_def)
qed


section \<open>Text and contents\<close>

lemma OBJ_obj2txt_correct:
  assumes hp: "heap_ok e" "heap_generous e" and as: "oid_ok as" "length as \<le> 2 ^ 20"
    and ob: "obj_wf ob" "obj_contents ob = oid_der as"
    and out: "0 < out_len" "nat out_len \<le> length out"
  shows "\<exists>out'. OBJ_obj2txt e tb st out out_len (Some ob) True = Some (out', int (length (oid_text as)))
    \<and> cstr out' = take (nat out_len - 1) (oid_text as) \<and> length out' = length out \<and> drop (nat out_len) out' = drop (nat out_len) out"
proof -
  have l: "nat (o_length ob) = length (oid_der as)" using length_obj_contents [OF ob(1)] ob(2) by simp
  have sz: "size_of_int (o_length ob) = nat (o_length ob)" "nat (o_length ob) \<le> length (obj_bytes ob)" "nat (o_length ob) < 2 ^ 64"
    using ob(1) by (auto simp: obj_wf_def intro!: size_of_int_nat)
  define c where "c = CBS_init (obj_bytes ob) (size_of_int (o_length ob))"
  have c: "cbs_wf c" "cbs_view c = oid_der as" using sz ob(2) by (simp_all add: c_def CBS_init_wf obj_contents_def)
  obtain t where t: "CBS_asn1_oid_to_text e c = Some t" "cstr t = oid_text as" "strlen t < length t"
    using CBS_asn1_oid_to_text_correct [OF hp c as(1)] as(2) by auto
  obtain out' n where cp: "BUF_strlcpy out t (nat out_len) = (out', n)" by fastforce
  have s: "n = strlen t" "cstr out' = take (nat out_len - 1) (cstr t)" "length out' = length out" "drop (nat out_len) out' = drop (nat out_len) out"
    using BUF_strlcpy_correct [OF t(3) out(2) _ cp] out(1) by simp_all
  have n: "strlen t \<le> 21 * 2 ^ 20" using length_oid_text [OF as(1)] as(2) t(2) by (simp add: strlen_def)
  then have "strlcpy_int out t out_len = (out', int (strlen t))"
    using cp out(1) s(1) by (simp add: strlcpy_int_def INT_MAX_def)
  moreover have "o_length ob \<noteq> 0" using l oid_der_nonempty [OF as(1)] by auto
  ultimately show ?thesis
    using t(1,2) s by (simp add: OBJ_obj2txt_def c_def [symmetric] strlen_def)
qed

lemma OBJ_txt2obj_correct:
  assumes hp: "heap_ok e" "heap_generous e" and as: "oid_ok as" "length as \<le> 2 ^ 20"
    and tx: "terminated s" "cstr s = oid_text as"
  shows "\<exists>ob. OBJ_txt2obj e tb st s True = Some (Some ob) \<and> object_of ob NID_undef as None None"
  using create_object_correct [OF hp as tx, of None None st False] by (auto simp: OBJ_txt2obj_def)

section \<open>Reading an object into an old one\<close>

text \<open>The octets that are accepted are well-formed subidentifiers, and they are what the object gets.\<close>

lemma c2i_ASN1_OBJECT_contents:
  assumes "c2i_ASN1_OBJECT e a (Some p) len = (Some ob, a', pp)" "nat len \<le> length p"
    and gen: "heap_generous e" and old: "\<forall>o1. a = Some (Some o1) \<longrightarrow> obj_wf o1"
  shows "obj_wf ob \<and> obj_contents ob = take (nat len) p \<and> 0 < len \<and> oid_contents_ok None (take (nat len) p)
    \<and> p ! nat (len - 1) AND 0x80 = 0 \<and> pp = Some (drop (nat len) p)
    \<and> o_nid ob = (case a of Some (Some o1) \<Rightarrow> if o_flags o1 AND ASN1_OBJECT_FLAG_DYNAMIC \<noteq> 0 then o_nid o1 else 0 | _ \<Rightarrow> 0)"
proof -
  define reuse where "reuse = (case a of Some (Some old) \<Rightarrow> if o_flags old AND ASN1_OBJECT_FLAG_DYNAMIC \<noteq> 0 then Some old else None
    | _ \<Rightarrow> None)"
  have g: "0 < len" "len \<le> int INT_MAX" "p ! nat (len - 1) AND 0x80 = 0" "oid_contents_ok None (take (nat len) p)"
    using assms(1) by (auto simp: c2i_ASN1_OBJECT_def split: if_splits)
  have l: "nat len < 2 ^ 31" using g(1,2) by (simp add: INT_MAX_def)
  obtain ret where ret: "(case reuse of Some old \<Rightarrow> Some old | None \<Rightarrow> ASN1_OBJECT_new e) = Some ret"
    using assms(1) g by (auto simp: c2i_ASN1_OBJECT_def Let_def reuse_def [symmetric] split: option.splits)
  have nid: "o_nid ret = (case a of Some (Some o1) \<Rightarrow> if o_flags o1 AND ASN1_OBJECT_FLAG_DYNAMIC \<noteq> 0 then o_nid o1 else 0 | _ \<Rightarrow> 0)"
    using ret by (auto simp: reuse_def ASN1_OBJECT_new_def split: option.splits if_splits)
  have wf: "o_data ret \<noteq> None \<Longrightarrow> obj_wf ret"
    using ret old by (auto simp: reuse_def ASN1_OBJECT_new_def split: option.splits if_splits)
  obtain d where d: "OPENSSL_malloc e (nat len) = Some d" "length d = nat len"
    using generous_malloc_any [OF gen, of "nat len"] l by auto
  define df where "df = (if o_data ret = None \<or> o_length ret < len then (d, o_flags ret OR ASN1_OBJECT_FLAG_DYNAMIC_DATA)
    else (the (o_data ret), o_flags ret))"
  have ld: "nat len \<le> length (fst df)"
    using d(2) wf by (auto simp: df_def obj_wf_def obj_bytes_def)
  have "ob = ret\<lparr>o_data := Some (blit (fst df) 0 (take (nat len) p)), o_length := len, o_sn := None, o_ln := None, o_flags := snd df\<rparr>
      \<and> pp = Some (drop (nat len) p)"
    using assms(1) g ret d(1)
    by (auto simp: c2i_ASN1_OBJECT_def Let_def reuse_def [symmetric] df_def split: if_splits)
  then show ?thesis
    using g l ld assms(2) nid take_blit_end [of 0 "fst df" "take (nat len) p"]
    by (auto simp: obj_wf_def obj_contents_def obj_bytes_def)
qed

end
