(* ===== verification/Containers.thy ===== *)
theory Containers
  imports Stack Obj
begin

text \<open>
  Properties of the stacks, the hash tables and the registry of object identifiers, with
  concrete heaps and tables for their witnesses.
\<close>

section \<open>Stacks\<close>

definition ptr_heap1 :: "int ptr_heap" where
  "ptr_heap1 = \<lparr>can_alloc = (\<lambda>n. n < 2 ^ 62), junk = (\<lambda>_. 0), fresh_ptr = (\<lambda>_. None)\<rparr>"

definition compare_ints :: "int comparisons" where
  "compare_ints c a b = (case (a, b) of (Some x, Some y) \<Rightarrow> x - y | _ \<Rightarrow> 0)"

lemma ptr_heap1_ok: "ptr_heap_ok ptr_heap1" by (simp add: ptr_heap1_def ptr_heap_ok_def)

lemma compare_ints: "comparison (\<lambda>p. p \<noteq> None) (compare_ints c)"
  by unfold_locales (auto simp: compare_ints_def)

lemmas stack_run_defs = sk_new_def sk_push_def sk_insert_def sk_find_def sk_sort_def sk_set_def sk_value_def
  sk_delete_def can_alloc_ptrs_def ptr_heap1_def kMinSize_def size_add_def size_mul_def compare_ints_def
  qsort_def bsearch_def

text \<open>A stack with three elements, and no room for a fourth one and a spare entry.\<close>

definition full_stack :: "int stk" where
  "full_stack = \<lparr>st_num = 3, st_data = [Some 1, Some 2, Some 3, None], st_sorted = True, st_num_alloc = 4, st_comp = None\<rparr>"

text \<open>C27: \<open>sk_insert\<close> on a well-formed stack returns 0 and leaves the stack as it is exactly when the array has
  no room for the element and a spare entry and the allocation of twice its length fails.  Otherwise it inserts
  into the list of the elements at the index, or at the end if the index is beyond it, returns the new number
  of elements and clears the sorted flag.\<close>

theorem sk_insert_refines:
  assumes "ptr_heap_ok e" "stk_wf s" "sk_insert e (Some s) p pos = (k, sk)"
  shows "if st_num_alloc s \<le> st_num s + 1 \<and> \<not> can_alloc_ptrs e (2 * st_num_alloc s) then k = 0 \<and> sk = Some s
    else \<exists>s'. sk = Some s' \<and> k = length (sk_elems s) + 1 \<and> stk_wf s' \<and> \<not> st_sorted s'
        \<and> sk_elems s' = take pos (sk_elems s) @ p # drop pos (sk_elems s)"
  using sk_insert_correct [OF assms] sk_insert_fails_iff [OF assms(2,3)] assms(2) by auto

theorem sk_insert_refines_witness:
  "\<exists>s'. sk_insert ptr_heap1 (Some full_stack) (Some 7) 1 = (4, Some s') \<and> sk_elems s' = [Some 1, Some 7, Some 2, Some 3]
    \<and> sk_insert (ptr_heap1\<lparr>can_alloc := \<lambda>_. False\<rparr>) (Some full_stack) (Some 7) 1 = (0, Some full_stack)"
proof -
  have s: "stk_wf full_stack" "sk_elems full_stack = [Some 1, Some 2, Some 3]" "st_num full_stack = 3" "st_num_alloc full_stack = 4"
    by (simp_all add: full_stack_def stk_wf_def sk_elems_def kMinSize_def)
  have h: "ptr_heap_ok (ptr_heap1\<lparr>can_alloc := \<lambda>_. False\<rparr>)" "can_alloc_ptrs ptr_heap1 8"
    "\<not> can_alloc_ptrs (ptr_heap1\<lparr>can_alloc := \<lambda>_. False\<rparr>) 8"
    by (simp_all add: ptr_heap_ok_def can_alloc_ptrs_def ptr_heap1_def size_add_def size_mul_def)
  obtain k sk k' sk' where r: "sk_insert ptr_heap1 (Some full_stack) (Some 7) 1 = (k, sk)"
    "sk_insert (ptr_heap1\<lparr>can_alloc := \<lambda>_. False\<rparr>) (Some full_stack) (Some 7) 1 = (k', sk')" by fastforce
  show ?thesis
    using sk_insert_refines [OF ptr_heap1_ok s(1) r(1)] sk_insert_refines [OF h(1) s(1) r(2)] r h(2,3)
    by (auto simp: s)
qed

text \<open>On a stack with a comparison function whose sorted flag can be trusted, \<open>sk_find\<close> permutes the
  elements and returns the index of the first one that compares equal to the key, or fails if there is
  none.\<close>

theorem sk_find_first:
  assumes "stk_wf s" "st_comp s = Some c" "comparison valid (fp c)" "\<forall>q\<in>set (sk_elems s). valid q" "sorted_ok fp s"
    and "valid p" "p \<noteq> None" "sk_find fp (Some s) p = (r, sk)"
  shows "\<exists>s'. sk = Some s' \<and> mset (sk_elems s') = mset (sk_elems s)
    \<and> (case r of None \<Rightarrow> \<forall>q\<in>set (sk_elems s). fp c p q \<noteq> 0
       | Some i \<Rightarrow> i < st_num s \<and> fp c p (sk_elems s' ! i) = 0 \<and> (\<forall>j<i. fp c p (sk_elems s' ! j) \<noteq> 0))"
  by (rule sk_find_correct [OF assms])

theorem sk_find_first_witness:
  "\<exists>i sk. sk_find compare_ints (Some \<lparr>st_num = 2, st_data = [Some 5, Some 3, None, None], st_sorted = False,
    st_num_alloc = 4, st_comp = Some 0\<rparr>) (Some 3) = (Some i, sk)"
proof -
  let ?s = "\<lparr>st_num = 2, st_data = [Some 5, Some 3, None, None], st_sorted = False,
    st_num_alloc = 4, st_comp = Some 0\<rparr> :: int stk"
  obtain r sk where f: "sk_find compare_ints (Some ?s) (Some 3) = (r, sk)" by (meson surj_pair)
  have wf: "stk_wf ?s" by (simp add: stk_wf_def kMinSize_def)
  have e: "sk_elems ?s = [Some 5, Some 3]" by (simp add: sk_elems_def)
  show ?thesis
    using sk_find_first [OF wf _ compare_ints, of 0, OF _ _ _ _ _ f] f
    by (cases r) (auto simp: e sorted_ok_def compare_ints_def)
qed

text \<open>C28: a deep copy is a stack of the copies of all the elements (NULL for NULL), and if a copy fails the
  result is NULL and every copy made before it has been freed, each exactly once.\<close>

theorem sk_deep_copy_all_or_nothing:
  assumes "stk_wf s" "sk_dup e (Some s) \<noteq> None"
  shows "if \<exists>j < st_num s. copy_fails cf (sk_elems s) j
    then sk_deep_copy e (Some s) cf = (None, copies cf (sk_elems s) (LEAST j. copy_fails cf (sk_elems s) j))
    else \<exists>d. sk_deep_copy e (Some s) cf = (Some d, []) \<and> stk_wf d
      \<and> sk_elems d = map (copy_at cf (sk_elems s)) [0..<st_num s]"
  by (rule sk_deep_copy_correct [OF assms])

theorem sk_deep_copy_all_or_nothing_witness:
  "fst (sk_deep_copy ptr_heap1 (Some \<lparr>st_num = 1, st_data = [Some 5, None, None, None], st_sorted = False,
    st_num_alloc = 4, st_comp = None\<rparr>) (\<lambda>i p. None)) = None"
proof -
  let ?s = "\<lparr>st_num = 1, st_data = [Some 5, None, None, None], st_sorted = False,
    st_num_alloc = 4, st_comp = None\<rparr> :: int stk"
  have wf: "stk_wf ?s" by (simp add: stk_wf_def kMinSize_def)
  have d: "sk_dup ptr_heap1 (Some ?s) \<noteq> None"
    by (simp add: sk_dup_def realloc_ptrs_def stack_run_defs)
  have "copy_fails (\<lambda>i p. None) (sk_elems ?s) 0" by (simp add: sk_elems_def copy_fails_def copy_at_def)
  then show ?thesis using sk_deep_copy_all_or_nothing [OF wf d, of "\<lambda>i p. None"] by auto
qed

text \<open>\<open>sk_set\<close> leaves the sorted flag of a sorted stack set, so that the next \<open>sk_find\<close> does not sort:
  after pushing 1 and 2, a search, and setting element 0 to 3, the search for 3 finds nothing although
  element 0 is 3.\<close>

theorem sk_set_breaks_search:
  "\<exists>s0 s1 s2 s3 s4 i j. sk_new ptr_heap1 (Some 0) = Some s0 \<and> sk_push ptr_heap1 s0 (Some 1) = (1, Some s1)
    \<and> sk_push ptr_heap1 s1 (Some 2) = (2, Some s2)
    \<and> sk_find compare_ints (Some s2) (Some 1) = (Some i, Some s3) \<and> sk_set (Some s3) 0 (Some 3) = (Some 3, Some s4)
    \<and> sk_value (Some s4) 0 = Some 3 \<and> fst (sk_find compare_ints (Some s4) (Some 3)) = None"
proof -
  let ?st = "\<lambda>n d b. \<lparr>st_num = n, st_data = d, st_sorted = b, st_num_alloc = 4, st_comp = Some 0\<rparr> :: int stk"
  have b: "bsearch (compare_ints 0) (Some 1) [Some 1, Some 2] = Some 0"
    "bsearch (compare_ints 0) (Some 3) [Some 3, Some 2] = None"
    by (simp_all add: bsearch_def bsearch_loop_step [of _ _ _ 0 "Suc (Suc 0)"] bsearch_loop_step [of _ _ _ 0 "Suc 0"]
        bsearch_loop_step [of _ _ _ "Suc (Suc 0)" "Suc (Suc 0)"] compare_ints_def)
  have r: "replicate 4 None = [None :: int option, None, None, None]" by (simp add: numeral_eq_Suc)
  have "sk_new ptr_heap1 (Some 0) = Some (?st 0 [None, None, None, None] False)"
    using r by (simp add: stack_run_defs)
  moreover have "sk_push ptr_heap1 (?st 0 [None, None, None, None] False) (Some 1)
      = (1, Some (?st 1 [Some 1, None, None, None] False))"
    by (simp add: stack_run_defs)
  moreover have "sk_push ptr_heap1 (?st 1 [Some 1, None, None, None] False) (Some 2)
      = (2, Some (?st 2 [Some 1, Some 2, None, None] False))"
    by (simp add: stack_run_defs)
  moreover have "sk_find compare_ints (Some (?st 2 [Some 1, Some 2, None, None] False)) (Some 1)
      = (Some 0, Some (?st 2 [Some 1, Some 2, None, None] True))"
    using b(1) by (simp add: sk_find_def sk_sort_def qsort_def compare_ints_def [of 0 "Some _" "Some _"] cong: if_cong)
  moreover have "sk_set (Some (?st 2 [Some 1, Some 2, None, None] True)) 0 (Some 3)
      = (Some 3, Some (?st 2 [Some 3, Some 2, None, None] True))"
    by (simp add: sk_set_def)
  moreover have "sk_find compare_ints (Some (?st 2 [Some 3, Some 2, None, None] True)) (Some 3)
      = (None, Some (?st 2 [Some 3, Some 2, None, None] True))"
    using b(2) by (simp add: sk_find_def sk_sort_def)
  ultimately show ?thesis by (auto simp: sk_value_def)
qed


section \<open>Hash tables\<close>

definition reg_heap :: "'p lh_heap" where
  "reg_heap = \<lparr>can_alloc = (\<lambda>n. n < 2 ^ 62), junk = (\<lambda>_. 0), new_item = (\<lambda>m. find (\<lambda>a. m a = None) [0..<100])\<rparr>"

lemma reg_heap: "lh_heap_ok reg_heap"
  by (auto simp: reg_heap_def lh_heap_ok_def find_Some_iff)

lemma reg_heap_truncate: "heap_ok (heap_env.truncate reg_heap)" "heap_generous (heap_env.truncate reg_heap)"
  "tables_fit reg_heap"
  by (simp_all add: reg_heap_def heap_env.truncate_def heap_ok_def heap_generous_def tables_fit_def)

definition plain_heap :: heap_env where
  "plain_heap = \<lparr>can_alloc = (\<lambda>n. n < 2 ^ 62), junk = (\<lambda>_. 0)\<rparr>"

lemma plain_heap: "heap_ok plain_heap" "heap_generous plain_heap"
  by (simp_all add: plain_heap_def heap_ok_def heap_generous_def)

text \<open>A table of numbers, hashed by their low bits.\<close>

definition hash_int :: "int option \<Rightarrow> u32" where
  "hash_int p = of_int (the p)"

definition cmp_int :: "int option \<Rightarrow> int option \<Rightarrow> int" where
  "cmp_int a b = the a - the b"

lemma int_keys: "lhash_keys (\<lambda>p. p \<noteq> None) hash_int cmp_int"
  by unfold_locales (auto simp: hash_int_def cmp_int_def)

lemma int_table:
  "\<exists>t. lh_new reg_heap hash_int cmp_int = Some t \<and> lh_wf (\<lambda>p. p \<noteq> None) t \<and> lh_comp t = cmp_int \<and> lh_hash t = hash_int"
proof -
  obtain t where t: "lh_new (reg_heap :: int lh_heap) hash_int cmp_int = Some t"
    by (simp add: lh_new_def reg_heap_def kMinNumBuckets_def size_add_def size_mul_def)
  then show ?thesis
    using lhash_keys.lh_new_table(1) [OF int_keys t] lhash_keys.table_def [OF int_keys] by blast
qed

text \<open>C29: with hash and comparison functions that fit together, \<open>lh_insert\<close> on a well-formed table always
  returns, through every resize, a well-formed table, and \<open>*old_data\<close> is what a retrieval found before.  It fails
  only when no equal element is stored and there is no memory for an item, and then the table is as before.
  Otherwise a retrieval finds the new element under the keys equal to it, also in the place of an equal
  element, and what it found before under the others.\<close>

theorem lh_insert_updates:
  assumes "lhash_keys valid hash cmp" "lh_heap_ok e" "lh_wf valid t" "lh_comp t = cmp" "lh_hash t = hash" "valid d" "valid k"
  shows "\<exists>ok old t'. lh_insert e t d = Some (ok, old, t') \<and> lh_wf valid t' \<and> lh_comp t' = cmp \<and> lh_hash t' = hash
    \<and> (ok \<longleftrightarrow> (\<exists>x\<in>lh_contents t. cmp x d = 0) \<or> new_item e (lh_items t) \<noteq> None) \<and> (\<not> ok \<longrightarrow> t' = t)
    \<and> lh_retrieve t d = Some old
    \<and> lh_retrieve t' k = (if ok \<and> cmp d k = 0 then Some d else lh_retrieve t k)"
proof -
  note tb = lhash_keys.table_def [OF assms(1)]
  have t: "lhash_keys.table valid hash cmp t" using assms(3-5) by (simp add: tb)
  obtain ok old t' where i: "lh_insert e t d = Some (ok, old, t')" "lhash_keys.table valid hash cmp t'"
    "if ok then lh_contents t' = insert d {x \<in> lh_contents t. cmp x d \<noteq> 0} else t' = t \<and> (\<forall>x\<in>lh_contents t. cmp x d \<noteq> 0)"
    "if \<exists>x\<in>lh_contents t. cmp x d = 0 then old \<in> lh_contents t \<and> cmp old d = 0 else old = None"
    using lhash_keys.lh_insert_correct [OF assms(1,2) t assms(6)] by blast
  have "lh_retrieve t d = Some old"
  proof (cases "\<exists>x\<in>lh_contents t. cmp x d = 0")
    case True
    then have "old \<in> lh_contents t" "cmp old d = 0" using i(4) by auto
    then show ?thesis by (rule lhash_keys.retrieve_element [OF assms(1) t assms(6)])
  next
    case False
    then show ?thesis using i(4) lhash_keys.retrieve_none [OF assms(1) t assms(6)] by auto
  qed
  moreover have "lh_retrieve t' k = (if cmp d k = 0 then Some d else lh_retrieve t k)" if ok
    using lhash_keys.retrieve_after_insert [OF assms(1,2) t assms(6,7)] i(1) that by simp
  moreover note lhash_keys.insert_succeeds_iff [OF assms(1,2) t assms(6) i(1)]
  ultimately show ?thesis using i(1-3) tb by (cases ok) auto
qed

text \<open>The witness inserts an element, replaces it without memory, and fails to insert another one then.\<close>

theorem lh_insert_updates_witness:
  "\<exists>t old t' t''. lh_new reg_heap hash_int cmp_int = Some t \<and> lh_insert reg_heap t (Some 5) = Some (True, old, t')
    \<and> lh_retrieve t' (Some 5) = Some (Some 5)
    \<and> lh_insert (reg_heap\<lparr>new_item := \<lambda>_. None\<rparr>) t' (Some 5) = Some (True, Some 5, t'') \<and> lh_retrieve t'' (Some 5) = Some (Some 5)
    \<and> (\<exists>old. lh_insert (reg_heap\<lparr>new_item := \<lambda>_. None\<rparr>) t (Some 5) = Some (False, old, t))"
proof -
  let ?h = "reg_heap\<lparr>new_item := \<lambda>_. None\<rparr> :: int lh_heap"
  obtain t where t: "lh_new reg_heap hash_int cmp_int = Some t" "lh_wf (\<lambda>p. p \<noteq> None) t" "lh_comp t = cmp_int" "lh_hash t = hash_int"
    using int_table by blast
  have e: "lh_items t = Map.empty" using t(1) by (auto simp: lh_new_def split: if_splits)
  have h: "lh_heap_ok ?h" "new_item reg_heap (lh_items t) \<noteq> None" by (simp_all add: lh_heap_ok_def reg_heap_def e upt_conv_Cons)
  have v: "(Some 5 :: int option) \<noteq> None" "cmp_int (Some 5) (Some 5) = 0" by (simp_all add: cmp_int_def)
  obtain old t' where i: "lh_insert reg_heap t (Some 5) = Some (True, old, t')" "lh_wf (\<lambda>p. p \<noteq> None) t'" "lh_comp t' = cmp_int"
    "lh_hash t' = hash_int" "lh_retrieve t' (Some 5) = Some (Some 5)"
    using lh_insert_updates [OF int_keys reg_heap t(2-4) v(1,1)] h(2) v(2) by auto
  obtain ok old' t'' where j: "lh_insert ?h t' (Some 5) = Some (ok, old', t'')" "lh_retrieve t' (Some 5) = Some old'"
    "lh_retrieve t'' (Some 5) = (if ok \<and> cmp_int (Some 5) (Some 5) = 0 then Some (Some 5) else lh_retrieve t' (Some 5))" "\<not> ok \<longrightarrow> t'' = t'"
    "ok \<longleftrightarrow> (\<exists>x\<in>lh_contents t'. cmp_int x (Some 5) = 0)"
    using lh_insert_updates [OF int_keys h(1) i(2-4) v(1,1)] by auto
  have "lhash_keys.table (\<lambda>p. p \<noteq> None) hash_int cmp_int t'" unfolding lhash_keys.table_def [OF int_keys] using i(2-4) by blast
  then have ok using j(5) i(5) lhash_keys.retrieve_none [OF int_keys _ v(1), of t'] by auto
  have c: "lh_contents t = {}" by (simp add: lh_contents_def e)
  have "\<exists>old. lh_insert ?h t (Some 5) = Some (False, old, t)"
    using lh_insert_updates [OF int_keys h(1) t(2-4) v(1,1)] by (auto simp: c)
  with t(1) i(1,5) j(1-3) \<open>ok\<close> show ?thesis by auto
qed

text \<open>C30: \<open>lh_delete\<close> returns what a retrieval finds, and afterwards nothing is found under the keys equal to
  the one that was deleted, and what was found before under the others.\<close>

theorem lh_delete_updates:
  assumes "lhash_keys valid hash cmp" "lh_heap_ok e" "lh_wf valid t" "lh_comp t = cmp" "lh_hash t = hash" "valid d" "valid k"
  shows "\<exists>r t'. lh_delete e t d = Some (r, t') \<and> lh_wf valid t' \<and> lh_comp t' = cmp \<and> lh_hash t' = hash
    \<and> lh_retrieve t d = Some r
    \<and> lh_retrieve t' k = (if cmp d k = 0 then Some None else lh_retrieve t k)"
proof -
  note tb = lhash_keys.table_def [OF assms(1)]
  have t: "lhash_keys.table valid hash cmp t" using assms(3-5) by (simp add: tb)
  obtain r t' where i: "lh_delete e t d = Some (r, t')" "lhash_keys.table valid hash cmp t'"
    "if \<exists>x\<in>lh_contents t. cmp x d = 0 then r \<in> lh_contents t \<and> cmp r d = 0 else r = None"
    using lhash_keys.lh_delete_correct [OF assms(1,2) t assms(6)] by blast
  have "lh_retrieve t d = Some r"
  proof (cases "\<exists>x\<in>lh_contents t. cmp x d = 0")
    case True
    then have "r \<in> lh_contents t" "cmp r d = 0" using i(3) by auto
    then show ?thesis by (rule lhash_keys.retrieve_element [OF assms(1) t assms(6)])
  next
    case False
    then show ?thesis using i(3) lhash_keys.retrieve_none [OF assms(1) t assms(6)] by auto
  qed
  moreover have "lh_retrieve t' k = (if cmp d k = 0 then Some None else lh_retrieve t k)"
    by (rule lhash_keys.retrieve_after_delete [OF assms(1,2) t assms(6,7) i(1)])
  ultimately show ?thesis using i(1,2) tb by auto
qed

theorem lh_delete_updates_witness:
  "\<exists>t r t'. lh_new reg_heap hash_int cmp_int = Some t \<and> lh_delete reg_heap t (Some 5) = Some (r, t')
    \<and> lh_retrieve t' (Some 5) = Some None"
proof -
  obtain t where t: "lh_new reg_heap hash_int cmp_int = Some t" "lh_wf (\<lambda>p. p \<noteq> None) t" "lh_comp t = cmp_int" "lh_hash t = hash_int"
    using int_table by blast
  then show ?thesis
    using lh_delete_updates [OF int_keys reg_heap t(2-4), of "Some 5" "Some 5"] by (auto simp: cmp_int_def)
qed

text \<open>C31: an iteration whose callback deletes the element that it is given (and computes \<open>g\<close> on the side) calls
  it once on every element of the table and leaves the table empty.\<close>

theorem lh_doall_may_delete:
  assumes "lhash_keys valid hash cmp" "lh_heap_ok e" "lh_wf valid t" "lh_comp t = cmp" "lh_hash t = hash"
    and "callback_depth t < UINT_MAX"
    and "\<And>d t s. func d (t, s) = map_option (\<lambda>(r, t'). (t', g d s)) (lh_delete e t d)"
  shows "\<exists>xs t'. lh_doall_internal e (Some t) func s = Some (Some t', fold g xs s)
    \<and> distinct xs \<and> set xs = lh_contents t \<and> lh_wf valid t' \<and> lh_contents t' = {}"
proof -
  note tb = lhash_keys.table_def [OF assms(1)]
  have t: "lhash_keys.table valid hash cmp t" using assms(3-5) by (simp add: tb)
  show ?thesis
    using lhash_keys.lh_doall_deletes [OF assms(1,2) t assms(6,7)] tb by blast
qed

theorem lh_doall_may_delete_witness:
  "\<exists>t xs t'. lh_doall_internal reg_heap (Some t)
      (\<lambda>d (t, s). map_option (\<lambda>(r, t'). (t', s + the d :: int)) (lh_delete reg_heap t d)) 0 = Some (Some t', fold (\<lambda>d s. s + the d) xs 0)
    \<and> set xs = lh_contents t \<and> lh_contents t' = {}"
proof -
  obtain t where t: "lh_new reg_heap hash_int cmp_int = Some t" "lh_wf (\<lambda>p. p \<noteq> None) t" "lh_comp t = cmp_int" "lh_hash t = hash_int"
    using int_table by blast
  have "callback_depth t < UINT_MAX"
    using lhash_keys.lh_new_table(3) [OF int_keys t(1)] by (simp add: UINT_MAX_def)
  from lh_doall_may_delete [OF int_keys reg_heap t(2-4) this,
      where func = "\<lambda>d (t, s). map_option (\<lambda>(r, t'). (t', s + the d)) (lh_delete reg_heap t d)" and g = "\<lambda>d s. s + the d" and s = 0]
  show ?thesis by auto
qed


section \<open>Object identifiers\<close>

definition empty_registry :: "nat \<Rightarrow> obj_state" where
  "empty_registry n =
     \<lparr>added_by_data = None, added_by_nid = None, added_by_short_name = None, added_by_long_name = None, next_nid = of_nat n\<rparr>"

definition c_string :: "char list \<Rightarrow> bytes" where
  "c_string s = map (\<lambda>c. of_nat (of_char c)) s @ [0]"

definition demo_tables :: obj_tables where
  "demo_tables =
     \<lparr>kObjects =
        [\<lparr>o_sn = Some (c_string ''UNDEF''), o_ln = Some (c_string ''undefined''), o_nid = 0, o_length = 0, o_data = None, o_flags = 0\<rparr>,
         \<lparr>o_sn = Some (c_string ''rsadsi''), o_ln = Some (c_string ''RSA Data Security''), o_nid = 1, o_length = 6,
          o_data = Some [0x2a, 0x86, 0x48, 0x86, 0xf7, 0x0d], o_flags = 0\<rparr>,
         \<lparr>o_sn = Some (c_string ''CN''), o_ln = Some (c_string ''commonName''), o_nid = 2, o_length = 3,
          o_data = Some [0x55, 0x04, 0x03], o_flags = 0\<rparr>],
      kNIDsInOIDOrder = [2, 1], kNIDsInShortNameOrder = [2, 1], kNIDsInLongNameOrder = [1, 2]\<rparr>"

lemma demo_tables_ok: "tables_ok demo_tables"
  by (simp add: tables_ok_def demo_tables_def obj_wf_def obj_bytes_def OBJ_cmp_def short_name_def long_name_def
      strcmp_def cstr_def c_string_def)

text \<open>C32: \<open>OBJ_create\<close> with a dotted text adds an object with the next free number, or fails with
  \<open>NID_undef\<close>; when it succeeds, the object is found by its number, by its DER contents and by both its names.\<close>

theorem obj_create_found:
  assumes "lh_heap_ok e" "tables_fit e" "heap_ok (heap_env.truncate e)" "heap_generous (heap_env.truncate e)"
    and "registry_ok st" "oid_ok as" "length as \<le> 2 ^ 20" "terminated oid" "cstr oid = oid_text as"
    and "terminated sn" "terminated ln" "\<not> (0 \<le> sint (next_nid st) \<and> sint (next_nid st) < int (length (kObjects tb)))"
  shows "\<exists>nid st'. OBJ_create e st oid (Some sn) (Some ln) = Some (nid, st') \<and> registry_ok st'
    \<and> (nid \<noteq> NID_undef \<longrightarrow> nid = sint (next_nid st)
        \<and> (\<exists>ob. OBJ_nid2obj tb st' nid = Some (Some ob) \<and> o_nid ob = nid \<and> obj_contents ob = oid_der as)
        \<and> OBJ_sn2nid tb st' sn = Some nid \<and> OBJ_ln2nid tb st' ln = Some nid
        \<and> OBJ_cbs2nid tb st' (CBS_init (oid_der as) (length (oid_der as))) = Some nid)"
proof -
  have names: "\<forall>s. Some sn = Some s \<longrightarrow> terminated s" "\<forall>s. Some ln = Some s \<longrightarrow> terminated s"
    using assms(10,11) by simp_all
  obtain nid st' where c: "OBJ_create e st oid (Some sn) (Some ln) = Some (nid, st')" "registry_ready st'"
    "nid \<noteq> NID_undef \<longrightarrow> nid = sint (next_nid st) \<and> (\<exists>ob. object_of ob nid as (Some sn) (Some ln) \<and> registered st' ob)"
    using OBJ_create_correct [OF assms(1-9) names] by blast
  have ok: "registry_ok st'" using c(2) by (auto simp: registry_ok_def registry_ready_def)
  have len: "length (oid_der as) < 2 ^ 64" using length_oid_der [OF assms(6)] assms(7) by simp
  show ?thesis
  proof (cases "nid = NID_undef")
    case False
    then obtain ob where ob: "object_of ob nid as (Some sn) (Some ln)" "registered st' ob" "nid = sint (next_nid st)" using c(3) False by blast
    note f = registered_found [OF c(2) ob(2,1) assms(6,7) False]
    have "o_nid ob = nid" "obj_contents ob = oid_der as" using object_of_wf [OF ob(1) assms(6,7)] ob(1) by (simp_all add: object_of_def)
    moreover have "OBJ_nid2obj tb st' nid = Some (Some ob)" using f(1) [of tb] ob(3) assms(12) by simp
    moreover have "OBJ_cbs2nid tb st' (CBS_init (oid_der as) (length (oid_der as))) = Some nid"
      by (rule f(2)) (use len in \<open>simp_all add: CBS_init_wf\<close>)
    moreover have "OBJ_sn2nid tb st' sn = Some nid" "OBJ_ln2nid tb st' ln = Some nid"
      using f(3) [of sn sn tb] f(4) [of ln ln tb] by simp_all
    ultimately show ?thesis using c(1) ok ob(3) by blast
  qed (use c(1) ok in auto)
qed

lemma oid_text_255: "oid_text [2, 5, 5] = [0x32, 0x2e, 0x35, 0x2e, 0x35]"
proof -
  have "decimal 2 = [0x32]" "decimal 5 = [0x35]" by (simp_all add: decimal.simps)
  then show ?thesis by simp
qed

theorem obj_create_found_witness:
  "\<exists>nid st'. OBJ_create reg_heap (empty_registry 3) (c_string ''2.5.5'') (Some (c_string ''X'')) (Some (c_string ''Y'')) = Some (nid, st')
    \<and> (nid \<noteq> NID_undef \<longrightarrow> nid = 3 \<and> OBJ_sn2nid demo_tables st' (c_string ''X'') = Some 3)"
proof -
  have t: "terminated (c_string ''2.5.5'')" "cstr (c_string ''2.5.5'') = oid_text [2, 5, 5]" "terminated (c_string ''X'')" "terminated (c_string ''Y'')"
    by (simp_all add: terminated_def strlen_def cstr_def c_string_def oid_text_255 del: oid_text.simps)
  have "registry_ok (empty_registry 3)" "oid_ok [2, 5, 5]" "length [2 :: nat, 5, 5] \<le> 2 ^ 20"
    by (simp_all add: registry_ok_def empty_registry_def)
  moreover have "\<not> (0 \<le> sint (next_nid (empty_registry 3)) \<and> sint (next_nid (empty_registry 3)) < int (length (kObjects demo_tables)))"
    by (simp add: empty_registry_def demo_tables_def)
  ultimately show ?thesis
    using obj_create_found [OF reg_heap reg_heap_truncate(3,1,2) _ _ _ t, where st = "empty_registry 3" and tb = demo_tables]
    by (fastforce simp: empty_registry_def)
qed

text \<open>Before objects are added, the lookups by short name and by contents find exactly the built-in object
  with that name or those contents, and report \<open>NID_undef\<close> if there is none.\<close>

theorem builtin_lookups_exact:
  assumes "tables_ok tb" "added_by_short_name st = None" "added_by_data st = None" "obj_wf ob" "o_nid ob = 0"
  shows "(OBJ_sn2nid tb st s = Some nid \<longleftrightarrow>
      (if \<exists>n\<in>set (kNIDsInShortNameOrder tb). cstr (short_name tb n) = cstr s
       then \<exists>n\<in>set (kNIDsInShortNameOrder tb). cstr (short_name tb n) = cstr s \<and> nid = int n else nid = NID_undef))
    \<and> (OBJ_obj2nid tb st (Some ob) = Some nid \<longleftrightarrow>
      (if \<exists>n\<in>set (kNIDsInOIDOrder tb). obj_contents (kObjects tb ! n) = obj_contents ob
       then \<exists>n\<in>set (kNIDsInOIDOrder tb). obj_contents (kObjects tb ! n) = obj_contents ob \<and> nid = int n else nid = NID_undef))"
  using builtin_short_name [OF assms(1,2), where s = s] builtin_data [OF assms(1,3-5)] by (auto split: if_splits)


theorem builtin_lookups_exact_witness:
  "OBJ_sn2nid demo_tables (empty_registry 3) (c_string ''CN'') = Some 2
    \<and> OBJ_obj2nid demo_tables (empty_registry 3)
        (Some (empty_object\<lparr>o_data := Some [0x2a, 0x86, 0x48, 0x86, 0xf7, 0x0d], o_length := 6\<rparr>)) = Some 1"
proof -
  let ?ob = "empty_object\<lparr>o_data := Some [0x2a, 0x86, 0x48, 0x86, 0xf7, 0x0d], o_length := 6\<rparr>"
  have "obj_wf ?ob" "o_nid ?ob = 0" by (simp_all add: obj_wf_def obj_bytes_def empty_object_def)
  moreover have "added_by_short_name (empty_registry 3) = None" "added_by_data (empty_registry 3) = None"
    by (simp_all add: empty_registry_def)
  ultimately have r: "OBJ_sn2nid demo_tables (empty_registry 3) (c_string ''CN'') = Some 2 \<longleftrightarrow>
      (if \<exists>n\<in>set (kNIDsInShortNameOrder demo_tables). cstr (short_name demo_tables n) = cstr (c_string ''CN'')
       then \<exists>n\<in>set (kNIDsInShortNameOrder demo_tables). cstr (short_name demo_tables n) = cstr (c_string ''CN'') \<and> (2 :: int) = int n
       else (2 :: int) = NID_undef)"
    "OBJ_obj2nid demo_tables (empty_registry 3) (Some ?ob) = Some 1 \<longleftrightarrow>
      (if \<exists>n\<in>set (kNIDsInOIDOrder demo_tables). obj_contents (kObjects demo_tables ! n) = obj_contents ?ob
       then \<exists>n\<in>set (kNIDsInOIDOrder demo_tables). obj_contents (kObjects demo_tables ! n) = obj_contents ?ob \<and> (1 :: int) = int n
       else (1 :: int) = NID_undef)"
    using builtin_lookups_exact [OF demo_tables_ok, where st = "empty_registry 3" and ob = ?ob] by blast+
  show ?thesis
    unfolding r by (simp add: demo_tables_def short_name_def c_string_def cstr_def obj_contents_def obj_bytes_def empty_object_def)
qed

text \<open>C33: an object made from the dotted text of an identifier (names not searched) is printed as that text, cut
  to the buffer and terminated, and the returned length is the whole one.\<close>

theorem oid_object_roundtrip:
  assumes "heap_ok e" "heap_generous e" "oid_ok as" "length as \<le> 2 ^ 20" "terminated s" "cstr s = oid_text as"
    and "0 < out_len" "nat out_len \<le> length out"
  shows "\<exists>ob out'. OBJ_txt2obj e tb st s True = Some (Some ob)
    \<and> OBJ_obj2txt e tb st out out_len (Some ob) True = Some (out', int (length (oid_text as)))
    \<and> cstr out' = take (nat out_len - 1) (oid_text as) \<and> drop (nat out_len) out' = drop (nat out_len) out"
proof -
  obtain ob where ob: "OBJ_txt2obj e tb st s True = Some (Some ob)" "object_of ob NID_undef as None None"
    using OBJ_txt2obj_correct [OF assms(1-6)] by blast
  have "obj_wf ob" "obj_contents ob = oid_der as" using object_of_wf [OF ob(2) assms(3,4)] by simp_all
  from OBJ_obj2txt_correct [OF assms(1-4) this assms(7,8)] ob(1) show ?thesis by blast
qed

theorem oid_object_roundtrip_witness:
  "\<exists>ob out'. OBJ_txt2obj plain_heap demo_tables (empty_registry 3) (c_string ''2.5.5'') True = Some (Some ob)
    \<and> OBJ_obj2txt plain_heap demo_tables (empty_registry 3) [9, 9, 9, 9] 4 (Some ob) True = Some (out', 5)
    \<and> cstr out' = [0x32, 0x2e, 0x35]"
proof -
  have t: "terminated (c_string ''2.5.5'')" "cstr (c_string ''2.5.5'') = oid_text [2, 5, 5]"
    by (simp_all add: terminated_def strlen_def cstr_def c_string_def oid_text_255 del: oid_text.simps)
  have "oid_ok [2, 5, 5]" "length [2 :: nat, 5, 5] \<le> 2 ^ 20" "0 < (4 :: int)" "nat 4 \<le> length [9 :: u8, 9, 9, 9]" by simp_all
  then show ?thesis
    using oid_object_roundtrip [OF plain_heap _ _ t, where tb = demo_tables and st = "empty_registry 3"
        and out = "[9, 9, 9, 9]" and out_len = 4]
    unfolding oid_text_255 by fastforce
qed

text \<open>\<open>c2i_ASN1_OBJECT\<close> into an existing object does not reset its number: if the old object had one, it is
  what \<open>OBJ_obj2nid\<close> reports for the new contents, whatever they are.\<close>

theorem c2i_keeps_old_nid:
  assumes "c2i_ASN1_OBJECT e (Some (Some old)) (Some p) len = (Some ob, a', pp)" "nat len \<le> length p"
    and "heap_generous e" "obj_wf old" "o_flags old AND ASN1_OBJECT_FLAG_DYNAMIC \<noteq> 0" "o_nid old \<noteq> 0"
  shows "obj_contents ob = take (nat len) p \<and> OBJ_obj2nid tb st (Some ob) = Some (o_nid old)"
  using c2i_ASN1_OBJECT_contents [OF assms(1-3)] assms(4-6) by (auto simp: OBJ_obj2nid_def)

theorem c2i_keeps_old_nid_witness:
  "\<exists>ob a' pp. c2i_ASN1_OBJECT plain_heap
      (Some (Some (empty_object\<lparr>o_nid := 2, o_length := 3, o_data := Some [0x55, 0x04, 0x03], o_flags := 0xd\<rparr>)))
      (Some [0x55, 0x04, 0x06]) 3 = (Some ob, a', pp)
    \<and> OBJ_obj2nid demo_tables (empty_registry 3) (Some ob) = Some 2"
proof -
  let ?old = "empty_object\<lparr>o_nid := 2, o_length := 3, o_data := Some [0x55, 0x04, 0x03], o_flags := 0xd\<rparr>"
  obtain ob a' pp where c: "c2i_ASN1_OBJECT plain_heap (Some (Some ?old)) (Some [0x55, 0x04, 0x06]) 3 = (Some ob, a', pp)"
    by (simp add: c2i_ASN1_OBJECT_def INT_MAX_def ASN1_OBJECT_FLAG_DYNAMIC_def empty_object_def Let_def)
  have w: "obj_wf ?old" "o_flags ?old AND ASN1_OBJECT_FLAG_DYNAMIC \<noteq> 0" "o_nid ?old = 2"
    by (simp_all add: obj_wf_def obj_bytes_def ASN1_OBJECT_FLAG_DYNAMIC_def empty_object_def)
  have "nat 3 \<le> length [0x55 :: u8, 0x04, 0x06]" by simp
  from c2i_keeps_old_nid [OF c this plain_heap(2) w(1,2), of demo_tables "empty_registry 3"] w(3) c show ?thesis by auto
qed

text \<open>\<open>obj_add_object\<close> does not check that its tables could be created: without memory for them the first
  addition runs into a NULL table.\<close>

theorem obj_add_object_unchecked:
  assumes "registry_ok st" "added_by_nid st = None" "\<not> can_alloc e 56"
  shows "obj_add_object e st ob = None"
  using assms by (simp add: obj_add_object_def create_tables_def lh_new_def insert_added_def)

theorem obj_add_object_unchecked_witness:
  "obj_add_object (reg_heap\<lparr>can_alloc := \<lambda>n. n < 50\<rparr>) (empty_registry 3) empty_object = None"
  by (rule obj_add_object_unchecked) (simp_all add: registry_ok_def empty_registry_def)

end
