(* ===== verification/Numbers.thy ===== *)
theory Numbers
  imports BN_Mod BN_Alias Containers
begin

text \<open>
  Properties of the big numbers, with concrete numbers for their witnesses.
\<close>

section \<open>Concrete numbers\<close>

definition number :: "limbs \<Rightarrow> bool \<Rightarrow> bignum" where
  "number ws s = \<lparr>bn_d = ws, bn_width = length ws, bn_dmax = length ws, bn_neg = s, bn_flags = 0\<rparr>"

lemma number:
  "length ws \<le> bn_max_words \<Longrightarrow> bn_ok (number ws s)" "bn_expandable (number ws s)" "bn_width (number ws s) = length ws"
  "bn_abs (number ws s) = wval ws" "bn_signed (number ws s) \<longleftrightarrow> (s \<longrightarrow> wval ws \<noteq> 0)" "bn_neg (number ws s) = s"
  "bn_val (number ws s) = (if s then - int (wval ws) else int (wval ws))"
  by (simp_all add: number_def bn_ok_def bn_expandable_def bn_abs_def bn_signed_def bn_val_def)

lemma init_number: "bn_ok BN_init" "bn_expandable BN_init" "BN_zero BN_init = BN_init" "bn_width BN_init = 0"
  by (simp_all add: BN_init_def bn_expandable_def bn_ok_def BN_zero_def)

text \<open>A store with the numbers \<open>2 ^ 128 - 1\<close>, without room for a carry, and \<open>1\<close>.\<close>

definition two_numbers :: bn_store where
  "two_numbers x = (if x = 0 then number [- 1, - 1] False else number [1] False)"

definition fresh_ctx :: bn_ctx where
  "fresh_ctx = (\<lambda>_. Some BN_init)"

lemma fresh_ctx: "ctx_ok fresh_ctx" "ctx_ready fresh_ctx k"
  by (simp_all add: fresh_ctx_def ctx_ok_def ctx_ready_def) (simp add: BN_init_def bn_expandable_def)

section \<open>Claims\<close>

text \<open>C8: whatever the widths of the inputs, \<open>BN_add\<close> and \<open>BN_sub\<close> compute the exact sum and difference, as
  numbers of minimal width that are not a negative zero; they succeed when memory is available.  The output
  may be one of the inputs, or both: the functions run on a store of numbers in which the names of the output
  and of the inputs may coincide, and each limb is read from the store when the code reads it.  All accesses
  of the loops over the limbs are within the arrays, and no other number changes.\<close>

theorem bn_add_sub_exact:
  assumes "heap_generous e" "bn_ok (s r)" "bn_expandable (s r)" "bn_ok (s a)" "bn_ok (s b)" "bn_signed (s a)" "bn_signed (s b)"
    and "max (bn_width (s a)) (bn_width (s b)) < bn_max_words"
  shows "(\<exists>v. BN_add_in e r a b s = Some (True, s(r := v)) \<and> BN_add e (s r) (s a) (s b) = (True, v) \<and> bn_ok v \<and>
      bn_val v = bn_val (s a) + bn_val (s b) \<and> bn_signed v \<and> bn_minimal v) \<and>
    (\<exists>v. BN_sub_in e r a b s = Some (True, s(r := v)) \<and> BN_sub e (s r) (s a) (s b) = (True, v) \<and> bn_ok v \<and>
      bn_val v = bn_val (s a) - bn_val (s b) \<and> bn_signed v \<and> bn_minimal v)"
proof -
  obtain p r1 q r2 where "BN_add e (s r) (s a) (s b) = (p, r1)" "BN_sub e (s r) (s a) (s b) = (q, r2)" by fastforce
  with BN_add [OF _ assms(2,4-7), of e p r1] BN_sub [OF _ assms(2,4-7), of e q r2] assms(1,3,8)
    BN_add_in [of s r a b e, OF assms(2,4,5)] BN_sub_in [of s r a b e, OF assms(2,4,5)]
  show ?thesis by (simp add: bn_result_def refines_def)
qed

theorem bn_add_sub_exact_witness:
  "\<exists>v w. BN_add_in plain_heap 0 0 1 two_numbers = Some (True, two_numbers(0 := v)) \<and> bn_val v = 2 ^ 128 \<and>
    BN_sub_in plain_heap 0 1 0 two_numbers = Some (True, two_numbers(0 := w)) \<and> bn_val w = 2 - 2 ^ 128"
proof -
  let ?s = two_numbers
  have ok: "bn_ok (?s 0)" "bn_ok (?s 1)" "bn_expandable (?s 0)" "bn_signed (?s 0)" "bn_signed (?s 1)" "bn_width (?s 0) = 2" "bn_width (?s 1) = 1"
    by (simp_all add: two_numbers_def number bn_max_words)
  have "unat (- 1 :: limb) = 2 ^ 64 - 1" using unat_uminus [of 1] by (simp add: radix_def)
  then have v: "bn_val (?s 0) = 2 ^ 128 - 1" "bn_val (?s 1) = 1" by (simp_all add: two_numbers_def number(7) radix_def)
  have w: "max (bn_width (?s 0)) (bn_width (?s 1)) < bn_max_words" "max (bn_width (?s 1)) (bn_width (?s 0)) < bn_max_words"
    unfolding ok by (simp_all add: bn_max_words)
  show ?thesis
    using bn_add_sub_exact [of plain_heap ?s 0 0 1, OF plain_heap(2) ok(1,3,1,2,4,5) w(1)]
      bn_add_sub_exact [of plain_heap ?s 0 1 0, OF plain_heap(2) ok(1,3,2,1,5,4) w(2)] unfolding v by auto
qed

text \<open>C9: \<open>BN_mul\<close>, with its schoolbook, comba and Karatsuba branches, computes the exact product of signed
  numbers of any widths, and succeeds when memory is available and the context has numbers, also when
  the output is one of the inputs.\<close>

theorem bn_mul_exact:
  assumes "heap_generous e" "bn_ok r" "bn_expandable r" "bn_ok a" "bn_ok b" "ctx_ok ctx" "ctx_ready ctx 2"
    and "8 * max (bn_width a) (bn_width b) \<le> bn_max_words"
  shows "\<exists>r'. BN_mul e ctx alias r a b = Some (True, r') \<and> bn_ok r' \<and> bn_val r' = bn_val a * bn_val b \<and> bn_signed r' \<and> bn_minimal r'"
proof -
  obtain r' where "BN_mul e ctx alias r a b = Some (True, r')"
    using BN_mul(2) [OF assms(2,4-6,1,3,7,8), of "alias"] by blast
  with BN_mul(1) [OF assms(2,4-6) this] show ?thesis by (simp add: bn_result_def)
qed

theorem bn_mul_exact_witness:
  "\<exists>r'. BN_mul plain_heap fresh_ctx True (number (replicate 17 1) True) (number (replicate 17 1) True) (number (replicate 18 2) False)
      = Some (True, r') \<and> bn_val r' = - int (wval (replicate 17 1) * wval (replicate 18 2))"
proof -
  let ?a = "number (replicate 17 1) True" and ?b = "number (replicate 18 2) False"
  have ok: "bn_ok ?a" "bn_ok ?b" by (simp_all only: number length_replicate bn_max_words)
  have "\<exists>r'. BN_mul plain_heap fresh_ctx True ?a ?a ?b = Some (True, r') \<and> bn_ok r' \<and> bn_val r' = bn_val ?a * bn_val ?b \<and>
      bn_signed r' \<and> bn_minimal r'"
    by (rule bn_mul_exact) (simp_all add: plain_heap ok fresh_ctx number(2,3) bn_max_words)
  then show ?thesis by (auto simp: number(7))
qed

text \<open>\<open>BN_sqr\<close>, which has its own routines, gives the number that \<open>BN_mul\<close> gives for two equal factors.\<close>

theorem bn_sqr_is_mul:
  assumes "bn_ok r" "bn_ok a" "ctx_ok ctx" "BN_sqr e ctx alias r a = (True, r1)" "BN_mul e' ctx' alias' r a a = Some (True, r2)" "ctx_ok ctx'"
  shows "bn_val r1 = bn_val r2 \<and> bn_val r1 = (bn_val a)\<^sup>2"
  using BN_sqr(1) [OF assms(4,1,2,3)] BN_mul(1) [OF assms(1,2,2,6,5)] by (simp add: bn_result_def power2_eq_square)

theorem bn_sqr_is_mul_witness:
  "\<exists>r1 r2. BN_sqr plain_heap fresh_ctx False BN_init (number (replicate 32 3) True) = (True, r1) \<and>
     BN_mul plain_heap fresh_ctx False BN_init (number (replicate 32 3) True) (number (replicate 32 3) True) = Some (True, r2) \<and>
     bn_val r1 = bn_val r2"
proof -
  let ?a = "number (replicate 32 3) True"
  have a: "bn_ok ?a" "bn_width ?a = 32" by (simp_all only: number length_replicate bn_max_words)
  obtain ok r1 where s: "BN_sqr plain_heap fresh_ctx False BN_init ?a = (ok, r1)" by fastforce
  have ok using BN_sqr(2) [OF s init_number(1) a(1) fresh_ctx(1)] plain_heap init_number fresh_ctx a(2) by (simp add: bn_max_words)
  with s have s1: "BN_sqr plain_heap fresh_ctx False BN_init ?a = (True, r1)" by simp
  have "\<exists>r2. BN_mul plain_heap fresh_ctx False BN_init ?a ?a = Some (True, r2)"
    by (rule BN_mul(2)) (simp_all only: plain_heap init_number fresh_ctx a bn_max_words)
  then obtain r2 where m: "BN_mul plain_heap fresh_ctx False BN_init ?a ?a = Some (True, r2)" by blast
  show ?thesis using bn_sqr_is_mul [OF init_number(1) a(1) fresh_ctx(1) s1 m fresh_ctx(1)] s1 m by blast
qed

text \<open>C34: left and right shifts are multiplication by a power of two, and division by one towards zero.\<close>

theorem bn_shift_exact:
  assumes "heap_generous e" "bn_ok r" "bn_expandable r" "bn_ok a" "bn_signed a" "0 \<le> n" "bn_width a + nat n div 64 < bn_max_words"
  shows "(\<exists>r'. BN_lshift e r a n = (True, r') \<and> bn_ok r' \<and> bn_val r' = bn_val a * 2 ^ nat n \<and> bn_signed r') \<and>
    (\<exists>r'. BN_rshift e r a n = (True, r') \<and> bn_ok r' \<and> bn_val r' = sgn (bn_val a) * (\<bar>bn_val a\<bar> div 2 ^ nat n) \<and> bn_signed r')"
proof -
  obtain p r1 q r2 where r: "BN_lshift e r a n = (p, r1)" "BN_rshift e r a n = (q, r2)" by fastforce
  note L = BN_lshift [OF r(1) assms(2,4)] and R = BN_rshift [OF r(2) assms(2,4,5)]
  have "p" "q" using L(7) R(7) assms by simp_all
  with L R r show ?thesis by simp
qed

theorem bn_shift_exact_witness:
  "\<exists>r'. BN_lshift plain_heap BN_init (number [3] True) 70 = (True, r') \<and> bn_val r' = - 3 * 2 ^ 70"
proof -
  have "\<exists>r'. BN_lshift plain_heap BN_init (number [3] True) 70 = (True, r') \<and> bn_val r' = bn_val (number [3] True) * 2 ^ 70"
    using bn_shift_exact [of plain_heap BN_init "number [3] True" 70]
    by (auto simp: plain_heap number(1-5) init_number bn_max_words)
  then show ?thesis by (simp add: number(7))
qed

text \<open>Comparison orders the numbers by value, whatever their widths, and takes the same steps for all
  values.\<close>

theorem bn_cmp_orders:
  assumes "bn_ok a" "bn_ok b" "bn_signed a" "bn_signed b"
  shows "BN_cmp (Some a) (Some b) = compare3 (bn_val a) (bn_val b) \<and> BN_ucmp a b = compare3 \<bar>bn_val a\<bar> \<bar>bn_val b\<bar>"
  using BN_cmp [OF assms] BN_ucmp [OF assms(1,2)] by (simp add: abs_bn_val compare3_def)

theorem bn_cmp_orders_witness:
  "BN_cmp (Some (number [5] True)) (Some (number [0, 1] True)) = 1"
  using bn_cmp_orders [of "number [5] True" "number [0, 1] True"]
  by (simp add: number bn_max_words bn_val_def compare3_def radix_def)

text \<open>\<open>bn_rshift_secret_shift\<close> shifts by the amount reduced modulo a power of two that depends on the
  width: a number of one limb that is shifted by 128 is unchanged.\<close>

theorem secret_shift_wraps:
  assumes "bn_rshift_secret_shift e r a n ctx = (True, r')" "bn_ok r" "bn_ok a"
  shows "bn_abs r' = bn_abs a div 2 ^ (n mod 2 ^ bit_len (64 * bn_width a))"
  by (rule bn_rshift_secret_shift(2) [OF assms]) simp

theorem secret_shift_wraps_witness:
  "\<exists>r'. bn_rshift_secret_shift plain_heap BN_init (number [7] False) 128 fresh_ctx = (True, r') \<and> bn_abs r' = 7"
proof -
  have a: "bn_ok (number [7] False)" by (simp add: number bn_max_words)
  obtain ok r' where s: "bn_rshift_secret_shift plain_heap BN_init (number [7] False) 128 fresh_ctx = (ok, r')" by fastforce
  have "\<exists>t. bn_wexpand plain_heap BN_init 1 = Some t"
    by (rule bn_wexpand_succeeds) (simp_all add: plain_heap init_number bn_max_words)
  then have ok
    using bn_rshift_secret_shift(6) [OF s init_number(1) a] BN_copy_succeeds [OF plain_heap(2) init_number(2) a] init_number
    by (auto simp: BN_CTX_get_def fresh_ctx_def number)
  moreover have "bit_len 64 = 7" by (rule bit_len_unique) simp_all
  ultimately show ?thesis using secret_shift_wraps [OF _ init_number(1) a, of plain_heap 128 fresh_ctx r'] s by (simp add: number)
qed


text \<open>C10: \<open>BN_div\<close> divides numbers of any signs and widths: the quotient and the remainder satisfy the
  division equation, the remainder is smaller than the divisor and has the sign of the numerator, and the
  call succeeds when memory is available and the divisor is not zero.\<close>

theorem bn_div_exact:
  assumes "heap_generous e" "ctx_ok ctx" "ctx_ready ctx 4" "bn_ok n" "bn_ok d" "bn_val d \<noteq> 0" "bn_ok q" "bn_ok r" "bn_expandable q" "bn_expandable r"
    and "bn_width n + 5 \<le> bn_max_words" "bn_width d + 5 \<le> bn_max_words"
  shows "\<exists>q' r'. BN_div e ctx False (Some q) (Some r) n d = Some (True, Some q', Some r') \<and>
    bn_ok q' \<and> bn_ok r' \<and> bn_signed q' \<and> bn_signed r' \<and> bn_val n = bn_val q' * bn_val d + bn_val r' \<and>
    \<bar>bn_val r'\<bar> < \<bar>bn_val d\<bar> \<and> (bn_val r' \<noteq> 0 \<longrightarrow> sgn (bn_val r') = sgn (bn_val n))"
proof -
  have dz: "bn_abs d \<noteq> 0" using assms(6) by (simp add: bn_val_0_iff)
  obtain q' r' where D: "BN_div e ctx False (Some q) (Some r) n d = Some (True, Some q', Some r')"
    "abs_result q True q' (bn_abs n div bn_abs d) (bn_neg n \<noteq> bn_neg d)" "abs_result r True r' (bn_abs n mod bn_abs d) (bn_neg n)"
    using BN_div_both [OF assms(4,5,7,8,2), of e False] dz assms(1,3,9-12) by auto
  have q: "bn_val q' = (if bn_neg n \<noteq> bn_neg d then - int (bn_abs n div bn_abs d) else int (bn_abs n div bn_abs d))"
    and r: "bn_val r' = (if bn_neg n then - int (bn_abs n mod bn_abs d) else int (bn_abs n mod bn_abs d))"
    by (rule abs_result_val [OF D(2)], rule abs_result_val [OF D(3)])
  have eq: "int (bn_abs n) = int (bn_abs n div bn_abs d) * int (bn_abs d) + int (bn_abs n mod bn_abs d)"
    by (simp flip: of_nat_mult of_nat_add)
  have "bn_val n = bn_val q' * bn_val d + bn_val r'"
    unfolding q r bn_val_def [of n] bn_val_def [of d] using eq by (cases "bn_neg n"; cases "bn_neg d") simp_all
  moreover have "\<bar>bn_val r'\<bar> < \<bar>bn_val d\<bar>" unfolding r abs_bn_val using dz by (simp add: abs_if)
  moreover have "sgn (bn_val r') = sgn (bn_val n)" if "bn_val r' \<noteq> 0"
  proof -
    have "bn_abs n mod bn_abs d \<noteq> 0" using that unfolding r by (cases "bn_neg n") simp_all
    then have "bn_abs n \<noteq> 0" by (metis mod_0)
    with \<open>bn_abs n mod bn_abs d \<noteq> 0\<close> show ?thesis unfolding r bn_val_def [of n] by simp
  qed
  ultimately show ?thesis using D by (simp add: abs_result_def)
qed

theorem bn_div_exact_witness:
  "\<exists>q' r'. BN_div plain_heap fresh_ctx False (Some BN_init) (Some BN_init) (number [5, 0, 1] True) (number [3, 1] False)
     = Some (True, Some q', Some r') \<and> - (2 ^ 128 + 5) = bn_val q' * (2 ^ 64 + 3) + bn_val r' \<and> \<bar>bn_val r'\<bar> < 2 ^ 64 + 3"
proof -
  let ?n = "number [5, 0, 1] True" and ?d = "number [3, 1] False"
  have v: "bn_val ?n = - (2 ^ 128 + 5)" "bn_val ?d = 2 ^ 64 + 3" by (simp_all add: number(7) radix_def)
  have ok: "bn_ok ?n" "bn_ok ?d" "bn_width ?n = 3" "bn_width ?d = 2" by (simp_all add: number(1,3) bn_max_words)
  have z: "bn_val ?d \<noteq> 0" by (simp add: v)
  have w: "bn_width ?n + 5 \<le> bn_max_words" "bn_width ?d + 5 \<le> bn_max_words" by (simp_all add: ok bn_max_words)
  show ?thesis
    using bn_div_exact [OF plain_heap(2) fresh_ctx ok(1,2) z init_number(1,1,2,2) w] unfolding v by auto
qed

text \<open>C15: \<open>BN_div\<close> always returns, whatever the heap, the context and the aliasing do, and a failed call leaves
  well-formed numbers.  The correction of the estimate ends, and no access of the long division leaves its
  array: the padding of the numerator, the limbs read for the estimate, the product in the temporary, the
  window that it is subtracted from and the digits of the quotient are read and written with checked accesses,
  of which one out of bounds would make the result \<open>None\<close>.\<close>

theorem bn_div_returns:
  assumes "bn_ok n" "bn_ok d" "bn_ok q" "bn_ok r" "ctx_ok ctx"
  shows "\<exists>ok q' r'. BN_div e ctx alias (Some q) (Some r) n d = Some (ok, Some q', Some r') \<and> bn_ok q' \<and> bn_ok r' \<and>
    (ok \<longrightarrow> bn_val d \<noteq> 0)"
  using BN_div_both [OF assms(1-5), of e "alias"] by (auto simp: abs_result_def bn_val_0_iff)

theorem bn_div_returns_witness:
  "\<exists>q' r'. BN_div plain_heap (\<lambda>_. None) True (Some (number [7] False)) (Some BN_init) (number [7] False) (number [2] True)
     = Some (False, Some q', Some r') \<and> bn_ok q' \<and> bn_ok r'"
proof -
  have ok: "bn_ok (number [7] False)" "bn_ok (number [2] True)" "ctx_ok (\<lambda>_. None)" by (simp_all add: number bn_max_words ctx_ok_def)
  obtain p q' r' where D: "BN_div plain_heap (\<lambda>_. None) True (Some (number [7] False)) (Some BN_init) (number [7] False) (number [2] True)
     = Some (p, Some q', Some r')" "bn_ok q'" "bn_ok r'"
    using bn_div_returns [OF ok(1,2,1) init_number(1) ok(3), of plain_heap True] by blast
  have "\<not> p" using D(1) by (auto simp: BN_div_def Let_def BN_CTX_get_def split: if_splits)
  with D show ?thesis by auto
qed

text \<open>C35: when the quotient is written over the numerator and the divisor is negative, the remainder gets the sign
  of the quotient instead of that of the numerator, because the sign of the numerator is read after it has
  been overwritten: quotient and remainder both have the sign opposite to the numerator, so that the division
  equation fails whenever the division is not exact.  \<open>7\<close> divided by \<open>- 2\<close> gives the quotient
  \<open>- 3\<close> and the remainder \<open>- 1\<close>.\<close>

theorem bn_div_alias_sign:
  assumes "BN_div e ctx True (Some n) (Some r) n d = Some (True, Some q', Some r')" "bn_ok n" "bn_ok d" "bn_ok r" "ctx_ok ctx"
    and "bn_neg d" "\<not> bn_val d dvd bn_val n"
  shows "bn_val q' = - sgn (bn_val n) * (\<bar>bn_val n\<bar> div \<bar>bn_val d\<bar>) \<and>
    bn_val r' = - sgn (bn_val n) * (\<bar>bn_val n\<bar> mod \<bar>bn_val d\<bar>) \<and> sgn (bn_val r') = - sgn (bn_val n) \<and>
    (bn_val q' \<noteq> 0 \<longrightarrow> sgn (bn_val r') = sgn (bn_val q')) \<and> bn_val q' * bn_val d + bn_val r' \<noteq> bn_val n"
proof -
  have D: "abs_result n True q' (bn_abs n div bn_abs d) (bn_neg n \<noteq> bn_neg d)"
    "abs_result r True r' (bn_abs n mod bn_abs d) (bn_neg n \<noteq> bn_neg d)"
    using BN_div_both [OF assms(2,3,2,4,5), of e True] assms(1) by auto
  note v = abs_result_val [OF D(1)] abs_result_val [OF D(2)]
  have eq: "int (bn_abs n) = int (bn_abs n div bn_abs d) * int (bn_abs d) + int (bn_abs n mod bn_abs d)"
    by (simp flip: of_nat_mult of_nat_add)
  have "\<bar>bn_val d\<bar> dvd \<bar>bn_val n\<bar> \<longleftrightarrow> bn_abs d dvd bn_abs n" unfolding abs_bn_val by simp
  then have "\<not> bn_abs d dvd bn_abs n" using assms(7) by (simp only: abs_dvd_iff dvd_abs_iff) simp
  then have nz: "bn_abs n mod bn_abs d \<noteq> 0" by (simp only: dvd_eq_mod_eq_0) simp
  then have "bn_abs n \<noteq> 0" by (metis mod_0)
  then have sn: "- sgn (bn_val n) = (if bn_neg n then 1 else - 1)" by (simp add: bn_val_def)
  have vals: "bn_val q' = - sgn (bn_val n) * (\<bar>bn_val n\<bar> div \<bar>bn_val d\<bar>)" "bn_val r' = - sgn (bn_val n) * (\<bar>bn_val n\<bar> mod \<bar>bn_val d\<bar>)"
    using assms(6) unfolding v sn abs_bn_val by (cases "bn_neg n"; simp add: of_nat_div of_nat_mod)+
  moreover have "sgn (bn_val r') = - sgn (bn_val n)" "bn_val q' \<noteq> 0 \<longrightarrow> sgn (bn_val r') = sgn (bn_val q')"
    using assms(6) nz unfolding sn unfolding v by (cases "bn_neg n"; simp add: sgn_if)+
  moreover have "bn_val q' * bn_val d + bn_val r' \<noteq> bn_val n"
    unfolding v bn_val_def [of n] bn_val_def [of d] using assms(6) eq nz by (cases "bn_neg n") simp_all
  ultimately show ?thesis by blast
qed

theorem bn_div_alias_sign_witness:
  "\<exists>q' r'. BN_div plain_heap fresh_ctx True (Some (number [7] False)) (Some BN_init) (number [7] False) (number [2] True)
     = Some (True, Some q', Some r') \<and> bn_val q' = - 3 \<and> bn_val r' = - 1"
proof -
  let ?n = "number [7] False" and ?d = "number [2] True"
  have ok: "bn_ok ?n" "bn_ok ?d" "bn_neg ?d" "bn_expandable ?n" by (simp_all add: number bn_max_words)
  have v: "bn_val ?n = 7" "bn_val ?d = - 2" by (simp_all add: number(7))
  have "bn_abs ?d \<noteq> 0" by (simp add: number(4))
  then obtain q' r' where D: "BN_div plain_heap fresh_ctx True (Some ?n) (Some BN_init) ?n ?d = Some (True, Some q', Some r')"
    using BN_div_both [OF ok(1,2,1) init_number(1) fresh_ctx(1), of plain_heap True] ok(4) init_number(2)
    by (auto simp: plain_heap fresh_ctx number(3) bn_max_words)
  have "\<not> bn_val ?d dvd bn_val ?n" unfolding v by simp
  from bn_div_alias_sign [OF D ok(1,2) init_number(1) fresh_ctx(1) ok(3) this] D show ?thesis unfolding v by auto
qed

text \<open>\<open>BN_nnmod\<close> gives the residue between zero and the modulus, whatever the signs of the number and of the
  modulus.\<close>

theorem bn_nnmod_residue:
  assumes "heap_generous e" "ctx_ok ctx" "ctx_ready ctx 4" "bn_ok a" "bn_ok m" "bn_val m \<noteq> 0" "bn_ok r" "bn_expandable r"
    and "bn_width a + 5 \<le> bn_max_words" "bn_width m + 5 \<le> bn_max_words"
  shows "\<exists>r'. BN_nnmod e ctx r a m = Some (True, r') \<and> bn_ok r' \<and> bn_signed r' \<and>
    bn_val r' = bn_val a mod \<bar>bn_val m\<bar> \<and> 0 \<le> bn_val r' \<and> bn_val r' < \<bar>bn_val m\<bar>"
proof -
  have "bn_abs m \<noteq> 0" using assms(6) by (simp add: bn_val_0_iff)
  then obtain r' where "BN_nnmod e ctx r a m = Some (True, r')" "bn_ok r'" "bn_signed r'" "bn_val r' = bn_val a mod \<bar>bn_val m\<bar>"
    using BN_nnmod [OF assms(4,5,7,2), of e] assms(1,3,8-10) by auto
  then show ?thesis using assms(6) by simp
qed

theorem bn_nnmod_residue_witness:
  "\<exists>r'. BN_nnmod plain_heap fresh_ctx BN_init (number [0, 1] True) (number [10] True) = Some (True, r') \<and> bn_val r' = 4"
proof -
  let ?a = "number [0, 1] True" and ?m = "number [10] True"
  have ok: "bn_ok ?a" "bn_ok ?m" "bn_val ?m \<noteq> 0" "bn_width ?a + 5 \<le> bn_max_words" "bn_width ?m + 5 \<le> bn_max_words"
    by (simp_all add: number(1,3,7) bn_max_words)
  have v: "bn_val ?a mod \<bar>bn_val ?m\<bar> = 4" by (simp add: number(7) radix_def)
  show ?thesis
    using bn_nnmod_residue [OF plain_heap(2) fresh_ctx ok(1,2,3) init_number(1,2) ok(4,5)] unfolding v by blast
qed

text \<open>C17: modular addition, subtraction and multiplication (of two different objects) succeed and give the residue of
  the exact result.\<close>

theorem bn_mod_ops_exact:
  assumes "heap_generous e" "ctx_ok ctx" "ctx_ready ctx 7" "bn_ok a" "bn_ok b" "bn_signed a" "bn_signed b" "bn_ok m" "bn_val m \<noteq> 0"
    and "bn_ok r" "bn_expandable r" "8 * max (bn_width a) (bn_width b) + 6 \<le> bn_max_words" "bn_width m + 5 \<le> bn_max_words"
  shows "\<exists>s d p. BN_mod_add e ctx r a b m = Some (True, s) \<and> BN_mod_sub e ctx r a b m = Some (True, d) \<and>
    BN_mod_mul e ctx False r a b m = Some (True, p) \<and> bn_val s = (bn_val a + bn_val b) mod \<bar>bn_val m\<bar> \<and>
    bn_val d = (bn_val a - bn_val b) mod \<bar>bn_val m\<bar> \<and> bn_val p = bn_val a * bn_val b mod \<bar>bn_val m\<bar>"
proof -
  have c: "ctx_ready ctx 4" using assms(3) by (simp add: ctx_ready_def)
  have w: "max (bn_width a) (bn_width b) + 6 \<le> bn_max_words" "8 * max (bn_width a) (bn_width b) + 5 \<le> bn_max_words"
    using assms(12) by linarith+
  obtain s d p where r: "BN_mod_add e ctx r a b m = Some (True, s)" "BN_mod_sub e ctx r a b m = Some (True, d)"
    "BN_mod_mul e ctx False r a b m = Some (True, p)"
    using BN_mod_add_sub_succeed [OF assms(1,2) c assms(4-11) w(1) assms(13)]
      BN_mod_mul_succeeds [OF assms(1-5,8-11) w(2) assms(13)] by blast
  then show ?thesis
    using BN_mod_add_sub(1) [OF assms(4-8,10,2) r(1)] BN_mod_add_sub(2) [OF assms(4-8,10,2) r(2)]
      BN_mod_mul(3) [OF r(3) assms(4,5) _ assms(8,10,2)] by simp
qed

theorem bn_mod_ops_exact_witness:
  "\<exists>p. BN_mod_mul plain_heap fresh_ctx False BN_init (number [3, 1] True) (number [7] False) (number [10] True) = Some (True, p) \<and>
     bn_val p = 7"
proof -
  let ?a = "number [3, 1] True" and ?b = "number [7] False" and ?m = "number [10] True"
  have ok: "bn_ok ?a" "bn_ok ?b" "bn_signed ?a" "bn_signed ?b" "bn_ok ?m" "bn_val ?m \<noteq> 0"
    "8 * max (bn_width ?a) (bn_width ?b) + 6 \<le> bn_max_words" "bn_width ?m + 5 \<le> bn_max_words"
    by (simp_all add: number(1,3,5,7) bn_max_words)
  have v: "bn_val ?a * bn_val ?b mod \<bar>bn_val ?m\<bar> = 7" by (simp add: number(7) radix_def)
  show ?thesis
    using bn_mod_ops_exact [OF plain_heap(2) fresh_ctx ok(1-6) init_number(1,2) ok(7,8)] unfolding v by blast
qed

text \<open>C36: on reduced operands, the constant-time forms of modular addition and subtraction give the same residues as
  the general ones, with the width of the modulus; the sign of the output is left as it was.\<close>

theorem bn_mod_consttime_agrees:
  assumes "heap_generous e" "ctx_ok ctx" "ctx_ready ctx 3" "bn_ok r" "bn_expandable r" "bn_ok a" "bn_ok b" "bn_ok m"
    and "\<not> bn_neg a" "\<not> bn_neg b" "\<not> bn_neg m" "bn_val a < bn_val m" "bn_val b < bn_val m"
  shows "\<exists>s d. bn_mod_add_consttime e ctx r a b m = (True, s) \<and> bn_mod_sub_consttime e ctx r a b m = (True, d) \<and>
    int (bn_abs s) = (bn_val a + bn_val b) mod bn_val m \<and> int (bn_abs d) = (bn_val a - bn_val b) mod bn_val m \<and>
    bn_width s = bn_width m \<and> bn_width d = bn_width m \<and> bn_neg s = bn_neg r \<and> bn_neg d = bn_neg r"
proof -
  have v: "bn_val a = int (bn_abs a)" "bn_val b = int (bn_abs b)" "bn_val m = int (bn_abs m)"
    using assms(9-11) by (simp_all add: bn_val_def)
  have lt: "bn_abs a < bn_abs m" "bn_abs b < bn_abs m" using assms(12,13) by (simp_all add: v)
  obtain p s q d where e: "bn_mod_add_consttime e ctx r a b m = (p, s)" "bn_mod_sub_consttime e ctx r a b m = (q, d)" by fastforce
  note A = bn_mod_add_sub_consttime(1) [OF assms(4,6,7,8,2) lt e(1)] and S = bn_mod_add_sub_consttime(2) [OF assms(4,6,7,8,2) lt e(2)]
  show ?thesis using A S e assms(1,3,5) unfolding v by (simp add: zmod_int)
qed

theorem bn_mod_consttime_agrees_witness:
  "\<exists>s. bn_mod_add_consttime plain_heap fresh_ctx BN_init (number [5] False) (number [2, 1] False) (number [4, 1] False) = (True, s) \<and>
     bn_abs s = 3 \<and> bn_width s = 2"
proof -
  let ?a = "number [5] False" and ?b = "number [2, 1] False" and ?m = "number [4, 1] False"
  have v: "bn_val ?a = 5" "bn_val ?b = 2 ^ 64 + 2" "bn_val ?m = 2 ^ 64 + 4" by (simp_all add: number(7) radix_def)
  have ok: "bn_ok ?a" "bn_ok ?b" "bn_ok ?m" "\<not> bn_neg ?a" "\<not> bn_neg ?b" "\<not> bn_neg ?m" "bn_width ?m = 2"
    by (simp_all add: number(1,3,6) bn_max_words)
  have lt: "bn_val ?a < bn_val ?m" "bn_val ?b < bn_val ?m" by (simp_all add: v)
  show ?thesis
    using bn_mod_consttime_agrees [OF plain_heap(2) fresh_ctx init_number(1,2) ok(1-6) lt] unfolding v ok(7) by auto
qed

text \<open>C16: the constant-time division, which handles one bit at a time, gives the quotient and the remainder of
  \<open>BN_div\<close>; the widths of its results are those of its inputs.\<close>

theorem bn_div_consttime_agrees:
  assumes "bn_div_consttime e ctx qa ra (Some q) (Some r) n d = (True, Some q1, Some r1)"
    and "BN_div e' ctx' False (Some q) (Some r) n d = Some (True, Some q2, Some r2)"
    and "bn_ok n" "bn_ok d" "bn_ok q" "bn_ok r" "ctx_ok ctx" "ctx_ok ctx'"
  shows "bn_val q1 = bn_val q2 \<and> bn_val r1 = bn_val r2 \<and> bn_width q1 = bn_width n \<and> bn_width r1 = bn_width d"
proof -
  have o: "bn_ok x" if "Some q = Some x" for x using that assms(5) by simp
  have o': "bn_ok x" if "Some r = Some x" for x using that assms(6) by simp
  note C = bn_div_consttime [OF assms(1,3,4) o o' assms(7)]
  have n: "\<not> bn_neg n" "\<not> bn_neg d" using C(1) by simp_all
  have "bn_val q1 = int (bn_abs n div bn_abs d)" "bn_val r1 = int (bn_abs n mod bn_abs d)" "bn_width q1 = bn_width n" "bn_width r1 = bn_width d"
    using C(2,3) by (simp_all add: width_result_def bn_val_def)
  moreover have "abs_result q True q2 (bn_abs n div bn_abs d) False" "abs_result r True r2 (bn_abs n mod bn_abs d) False"
    using BN_div_both [OF assms(3-6,8), of e' False] assms(2) n by auto
  ultimately show ?thesis using abs_result_val by fastforce
qed

theorem bn_div_consttime_agrees_witness:
  "\<exists>q1 r1 q2 r2. bn_div_consttime plain_heap fresh_ctx False False (Some BN_init) (Some BN_init) (number [5, 0, 1] False) (number [3, 1] False) =
      (True, Some q1, Some r1) \<and>
     BN_div plain_heap fresh_ctx False (Some BN_init) (Some BN_init) (number [5, 0, 1] False) (number [3, 1] False) = Some (True, Some q2, Some r2) \<and>
     bn_val q1 = bn_val q2 \<and> bn_val r1 = bn_val r2"
proof -
  let ?n = "number [5, 0, 1] False" and ?d = "number [3, 1] False"
  have ok: "bn_ok ?n" "bn_ok ?d" "\<not> bn_neg ?n" "\<not> bn_neg ?d" "bn_abs ?d \<noteq> 0" "bn_width ?n + 5 \<le> bn_max_words" "bn_width ?d + 5 \<le> bn_max_words"
    by (simp_all add: number(1,3,4,6) bn_max_words)
  have o: "bn_ok x" "bn_expandable x" if "Some BN_init = Some x" for x using that init_number by simp_all
  obtain p q' r' where C: "bn_div_consttime plain_heap fresh_ctx False False (Some BN_init) (Some BN_init) ?n ?d = (p, q', r')"
    by (metis prod_cases3)
  note D = bn_div_consttime [OF C ok(1,2) o(1) o(1) fresh_ctx(1)]
  have "p" by (rule D(4)) (simp_all add: plain_heap(2) fresh_ctx ok o)
  moreover obtain q1 where "q' = Some q1" using D(2) by (cases q') auto
  moreover obtain r1 where "r' = Some r1" using D(3) by (cases r') auto
  ultimately have C1: "bn_div_consttime plain_heap fresh_ctx False False (Some BN_init) (Some BN_init) ?n ?d = (True, Some q1, Some r1)"
    using C by simp
  obtain q2 r2 where B: "BN_div plain_heap fresh_ctx False (Some BN_init) (Some BN_init) ?n ?d = Some (True, Some q2, Some r2)"
    using BN_div_both [OF ok(1,2) init_number(1,1) fresh_ctx(1), of plain_heap False] plain_heap(2) fresh_ctx(2) init_number(2) ok(5-7) by auto
  from bn_div_consttime_agrees [OF C1 B ok(1,2) init_number(1,1) fresh_ctx(1,1)] C1 B show ?thesis by blast
qed

text \<open>Dividing by a word gives the quotient in place and returns the remainder, which is what
  \<open>BN_mod_word\<close> computes.\<close>

theorem bn_div_word_exact:
  assumes "heap_generous e" "bn_ok a" "bn_expandable a" "\<not> bn_neg a" "bn_width a < bn_max_words" "w \<noteq> 0"
  shows "\<exists>rem a'. BN_div_word e a w = (rem, a') \<and> rem = BN_mod_word a w \<and>
    bn_val a = bn_val a' * int (unat w) + int (unat rem) \<and> unat rem < unat w"
proof -
  have s: "bn_signed a" using assms(4) by (simp add: bn_signed_def)
  obtain rem a' where D: "BN_div_word e a w = (rem, a')" "unat rem = bn_abs a mod unat w"
    "bn_val a' = sgn (bn_val a) * (\<bar>bn_val a\<bar> div int (unat w))"
    using BN_div_word [OF assms(1-3) s assms(5,6)] by blast
  have v: "bn_val a = int (bn_abs a)" using assms(4) by (simp add: bn_val_def)
  have "bn_val a' = int (bn_abs a div unat w)"
    using D(3) unfolding v by (cases "bn_abs a = 0") (simp_all add: zdiv_int)
  moreover have "bn_abs a = bn_abs a div unat w * unat w + bn_abs a mod unat w" by simp
  then have "int (bn_abs a) = int (bn_abs a div unat w) * int (unat w) + int (bn_abs a mod unat w)"
    by (simp only: flip: of_nat_mult of_nat_add)
  ultimately have "bn_val a = bn_val a' * int (unat w) + int (unat rem)" by (simp only: v D(2))
  moreover have "unat rem < unat w" using D(2) assms(6) by (simp add: word_neq_0_conv unat_gt_0)
  moreover have "rem = BN_mod_word a w" using D(2) BN_mod_word [OF assms(2,6)] by (simp add: word_unat_eq_iff)
  ultimately show ?thesis using D(1) by blast
qed

theorem bn_div_word_exact_witness:
  "\<exists>rem a'. BN_div_word plain_heap (number [5, 1] False) 10 = (rem, a') \<and> rem = BN_mod_word (number [5, 1] False) 10 \<and>
     2 ^ 64 + 5 = bn_val a' * 10 + int (unat rem)"
proof -
  let ?a = "number [5, 1] False"
  have ok: "bn_ok ?a" "bn_expandable ?a" "\<not> bn_neg ?a" "bn_width ?a < bn_max_words" by (simp_all add: number(1-3,6) bn_max_words)
  have v: "bn_val ?a = 2 ^ 64 + 5" "int (unat (10 :: limb)) = 10" by (simp_all add: number(7) radix_def)
  show ?thesis using bn_div_word_exact [OF plain_heap(2) ok, of 10] unfolding v by auto
qed

text \<open>Reduction modulo a power of two, which clears bits and complements, agrees with the residue that
  \<open>BN_nnmod\<close> defines, for negative numbers too.\<close>

theorem bn_nnmod_pow2_residue:
  assumes "BN_nnmod_pow2 env r a e = (True, r')" "bn_ok r" "bn_ok a" "bn_signed a"
  shows "bn_val r' = bn_val a mod 2 ^ e \<and> bn_ok r'"
  using BN_nnmod_pow2 [OF assms] by simp

theorem bn_nnmod_pow2_residue_witness:
  "\<exists>r'. BN_nnmod_pow2 plain_heap BN_init (number [5] True) 3 = (True, r') \<and> bn_val r' = 3"
proof -
  have ok: "bn_ok (number [5] True)" "bn_signed (number [5] True)" by (simp_all add: number(1,5) bn_max_words)
  obtain p r' where r: "BN_nnmod_pow2 plain_heap BN_init (number [5] True) 3 = (p, r')" by fastforce
  have "p" using BN_nnmod_pow2(4) [OF r init_number(1) ok plain_heap(2) init_number(2)] by (simp add: bn_max_words)
  with r have r: "BN_nnmod_pow2 plain_heap BN_init (number [5] True) 3 = (True, r')" by simp
  from bn_nnmod_pow2_residue [OF r init_number(1) ok] r show ?thesis by (simp add: number(7))
qed


text \<open>C40: when memory or the context fails, addition, subtraction, squaring, shifts, multiplication and the
  residue leave a well-formed number in their output: the width is within the allocated limbs, and the
  allocated limbs within the limit.  The one exception is \<open>BN_mul\<close> with the output among the inputs: exactly when
  both inputs have limbs and the context has no number for the product, the code dereferences a null
  pointer, and the model has no result.\<close>

theorem bn_results_well_formed:
  assumes "bn_ok r" "bn_ok a" "bn_ok b" "bn_ok m" "bn_signed a" "bn_signed b" "ctx_ok ctx"
  shows "bn_ok (snd (BN_add e r a b)) \<and> bn_ok (snd (BN_sub e r a b)) \<and> bn_ok (snd (BN_sqr e ctx alias r a)) \<and>
    bn_ok (snd (BN_lshift e r a n)) \<and> bn_ok (snd (BN_rshift e r a n)) \<and>
    (\<exists>ok r'. BN_nnmod e ctx r a m = Some (ok, r') \<and> bn_ok r') \<and>
    (if alias \<and> bn_width a \<noteq> 0 \<and> bn_width b \<noteq> 0 \<and> BN_CTX_get ctx 0 = None then BN_mul e ctx alias r a b = None
     else \<exists>ok r'. BN_mul e ctx alias r a b = Some (ok, r') \<and> bn_ok r')"
proof (intro conjI)
  show "bn_ok (snd (BN_add e r a b))"
    using BN_add(1) [OF prod.collapse [symmetric] assms(1-3,5,6)] by (simp add: bn_result_def)
  show "bn_ok (snd (BN_sub e r a b))"
    using BN_sub(1) [OF prod.collapse [symmetric] assms(1-3,5,6)] by (simp add: bn_result_def)
  show "bn_ok (snd (BN_sqr e ctx alias r a))"
    using BN_sqr(1) [OF prod.collapse [symmetric] assms(1,2,7)] by (simp add: bn_result_def)
  show "bn_ok (snd (BN_lshift e r a n))" by (rule BN_lshift(1) [OF prod.collapse [symmetric] assms(1,2)])
  show "bn_ok (snd (BN_rshift e r a n))" by (rule BN_rshift(1) [OF prod.collapse [symmetric] assms(1,2,5)])
  show "\<exists>ok r'. BN_nnmod e ctx r a m = Some (ok, r') \<and> bn_ok r'"
    using BN_nnmod [OF assms(2,4,1,7), of e] by auto
  show "if alias \<and> bn_width a \<noteq> 0 \<and> bn_width b \<noteq> 0 \<and> BN_CTX_get ctx 0 = None then BN_mul e ctx alias r a b = None
     else \<exists>ok r'. BN_mul e ctx alias r a b = Some (ok, r') \<and> bn_ok r'"
    using BN_mul(1) [OF assms(1-3,7)] BN_mul_None [of e ctx "alias" r a b]
    by (cases "BN_mul e ctx alias r a b") (auto simp: bn_result_def)
qed

theorem bn_results_well_formed_witness:
  "bn_ok (snd (BN_lshift (plain_heap\<lparr>can_alloc := \<lambda>_. False\<rparr>) BN_init (number [1] False) 64)) \<and>
   BN_mul plain_heap (\<lambda>_. None) True (number [2] False) (number [2] False) (number [3] False) = None \<and>
   (\<exists>ok r'. BN_mul plain_heap (\<lambda>_. None) False BN_init (number [2] False) (number [3] False) = Some (ok, r') \<and> bn_ok r')"
proof -
  have n: "bn_ok (number [x] False)" "bn_signed (number [x] False)" "bn_width (number [x] False) = 1" for x
    by (simp_all add: number bn_max_words)
  have c: "ctx_ok (\<lambda>_. None)" "BN_CTX_get (\<lambda>_. None) 0 = None" by (simp_all add: ctx_ok_def BN_CTX_get_def)
  show ?thesis
    using bn_results_well_formed [OF init_number(1) n(1,1,1,2,2) fresh_ctx(1), of "plain_heap\<lparr>can_alloc := \<lambda>_. False\<rparr>" 1 1 False 64 1]
      bn_results_well_formed [OF n(1,1,1,1,2,2) c(1), of plain_heap 2 2 3 True 0 1]
      bn_results_well_formed [OF init_number(1) n(1,1,1,2,2) c(1), of plain_heap 2 3 False 0 1]
    by (simp add: n(3) c(2))
qed

end
