(* ===== verification/BN_Bytes.thy ===== *)
theory BN_Bytes
  imports BN_Mod CBB_ASN1
begin

text \<open>
  Numbers as bytes: \<open>crypto/fipsmodule/bn/bytes.c\<close> and \<open>crypto/bn_extra/bn_asn1.c\<close>.  The targets are
  little-endian, so the memory of the limbs is the little-endian representation of the number.  A
  \<open>ret\<close> that may be null is an option, and a failed call leaves it unchanged.
\<close>

section \<open>Reading bytes\<close>

definition BN_BYTES :: nat where
  "BN_BYTES = 8"

fun bin2bn_loop :: "bytes \<Rightarrow> limb \<Rightarrow> nat \<Rightarrow> nat \<Rightarrow> limbs \<Rightarrow> limbs" where
  "bin2bn_loop [] word m num_words d = d"
| "bin2bn_loop (b # inp) word m num_words d =
     (let word = push_bit 8 word OR ucast b
      in if m = 0 then bin2bn_loop inp 0 (BN_BYTES - 1) (num_words - 1) (d[num_words - 1 := word])
         else bin2bn_loop inp word (m - 1) num_words d)"

definition BN_bin2bn :: "heap_env \<Rightarrow> bytes \<Rightarrow> bignum option \<Rightarrow> bignum option" where
  "BN_bin2bn e inp ret =
     (case (case ret of None \<Rightarrow> BN_new e | Some r \<Rightarrow> Some r) of
        None \<Rightarrow> None
      | Some ret \<Rightarrow>
          if length inp = 0 then Some (ret\<lparr>bn_width := 0\<rparr>)
          else
            (let num_words = (length inp - 1) div BN_BYTES + 1; m = (length inp - 1) mod BN_BYTES
             in case bn_wexpand e ret num_words of
                  None \<Rightarrow> None
                | Some ret \<Rightarrow>
                    Some (ret\<lparr>bn_d := bin2bn_loop inp 0 m num_words (bn_d ret), bn_width := num_words, bn_neg := False\<rparr>)))"

definition bytes_of_limb :: "limb \<Rightarrow> bytes" where
  "bytes_of_limb x = map (\<lambda>j. ucast (drop_bit (8 * j) x)) [0..<8]"

definition bytes_of_limbs :: "limbs \<Rightarrow> bytes" where
  "bytes_of_limbs ws = concat (map bytes_of_limb ws)"

definition BN_le2bn :: "heap_env \<Rightarrow> bytes \<Rightarrow> bignum option \<Rightarrow> bignum option" where
  "BN_le2bn e inp ret =
     (case (case ret of None \<Rightarrow> BN_new e | Some r \<Rightarrow> Some r) of
        None \<Rightarrow> None
      | Some ret \<Rightarrow>
          if length inp = 0 then Some (ret\<lparr>bn_width := 0, bn_neg := False\<rparr>)
          else
            (let num_words = (length inp - 1) div BN_BYTES + 1
             in case bn_wexpand e ret num_words of
                  None \<Rightarrow> None
                | Some ret \<Rightarrow>
                    (let d = (bn_d ret)[num_words - 1 := 0]; d = limbs_of_bytes (blit (bytes_of_limbs d) 0 inp)
                     in Some (ret\<lparr>bn_d := d, bn_width := num_words\<rparr>))))"

section \<open>Writing bytes\<close>

definition BN_bn2bin :: "bignum \<Rightarrow> bytes" where
  "BN_bn2bin bn =
     map (\<lambda>i. ucast (drop_bit (8 * (i mod BN_BYTES)) (bn_d bn ! (i div BN_BYTES)))) (rev [0..<BN_num_bytes bn])"

definition fits_in_bytes :: "bytes \<Rightarrow> nat \<Rightarrow> nat \<Rightarrow> bool" where
  "fits_in_bytes bytes num_bytes len \<longleftrightarrow> fold (\<lambda>i mask. mask OR bytes ! i) [len..<num_bytes] 0 = 0"

definition BN_bn2le_padded :: "nat \<Rightarrow> bignum \<Rightarrow> bytes option" where
  "BN_bn2le_padded len bn =
     (let bytes = bytes_of_limbs (bn_d bn); num_bytes = bn_width bn * BN_BYTES
      in if len < num_bytes \<and> \<not> fits_in_bytes bytes num_bytes len then None
         else (let num_bytes = (if len < num_bytes then len else num_bytes)
               in Some (take num_bytes bytes @ replicate (len - num_bytes) 0)))"

definition BN_bn2bin_padded :: "nat \<Rightarrow> bignum \<Rightarrow> bytes option" where
  "BN_bn2bin_padded len bn =
     (let bytes = bytes_of_limbs (bn_d bn); num_bytes = bn_width bn * BN_BYTES
      in if len < num_bytes \<and> \<not> fits_in_bytes bytes num_bytes len then None
         else (let num_bytes = (if len < num_bytes then len else num_bytes)
               in Some (replicate (len - num_bytes) 0 @ rev (take num_bytes bytes))))"

section \<open>DER\<close>

definition BN_bn2cbb_padded :: "heap_env \<Rightarrow> nat \<Rightarrow> cbb \<Rightarrow> nat \<Rightarrow> bignum \<Rightarrow> bool \<times> cbb" where
  "BN_bn2cbb_padded e d s len bn =
     (case CBB_add_space e d s len of
        (None, s) \<Rightarrow> (False, s)
      | (Some off, s) \<Rightarrow>
          (case BN_bn2bin_padded len bn of
             None \<Rightarrow> (False, s)
           | Some bs \<Rightarrow> (True, s\<lparr>cbb_base := map_option (\<lambda>b. b\<lparr>b_buf := blit (b_buf b) off bs\<rparr>) (cbb_base s)\<rparr>)))"

definition BN_parse_asn1_unsigned :: "heap_env \<Rightarrow> cbs \<Rightarrow> bignum \<Rightarrow> bignum option \<times> cbs" where
  "BN_parse_asn1_unsigned e cbs ret =
     (case CBS_get_asn1 cbs CBS_ASN1_INTEGER of
        (None, c) \<Rightarrow> (None, c)
      | (Some child, c) \<Rightarrow>
          (let data = CBS_data child; n = CBS_len child
           in if n = 0 then (None, c)
              else if data ! 0 AND 0x80 \<noteq> 0 then (None, c)
              else if data ! 0 = 0 \<and> n > 1 \<and> data ! 1 AND 0x80 = 0 then (None, c)
              else (BN_bin2bn e (take n data) (Some ret), c)))"

definition BN_marshal_asn1 :: "heap_env \<Rightarrow> nat \<Rightarrow> cbb \<Rightarrow> bignum \<Rightarrow> bool \<times> cbb" where
  "BN_marshal_asn1 e d s bn =
     (if bn_neg bn then (False, s)
      else
        and_then
          (and_then (CBB_add_asn1 e d s CBS_ASN1_INTEGER) (\<lambda>s.
             and_then (if BN_num_bits bn mod 8 = 0 then CBB_add_u8 e (Suc d) s 0 else (True, s)) (\<lambda>s.
               BN_bn2cbb_padded e (Suc d) s (BN_num_bytes bn) bn)))
          (CBB_flush e d))"

section \<open>The value of the limbs and of the bytes\<close>

definition le_val :: "bytes \<Rightarrow> nat" where
  "le_val bs = be_val (rev bs)"

lemma le_val_simps [simp]: "le_val [] = 0" "le_val (b # bs) = unat b + 256 * le_val bs"
  by (simp_all add: le_val_def)

lemma le_val_append: "le_val (xs @ ys) = le_val xs + 256 ^ length xs * le_val ys"
  by (simp add: le_val_def be_val_append)

lemma le_val_zeros [simp]: "le_val (replicate n 0) = 0"
  by (induction n) simp_all

lemma le_val_less: "le_val bs < 256 ^ length bs"
  using be_val_less [of "rev bs"] by (simp add: le_val_def)

lemma radix_bytes: "radix = 256 ^ 8"
  by (simp add: radix_def)

lemma le_val_limb: "le_val (bytes_of_limb x) = unat x" "length (bytes_of_limb x) = 8"
proof -
  have "bytes_of_limb x = rev (be_bytes 8 (unat x))" by (simp only: bytes_of_limb_def limb_byte be_bytes_digits rev_rev_ident)
  then show "le_val (bytes_of_limb x) = unat x" "length (bytes_of_limb x) = 8"
    using limb_lt [of x] by (simp_all add: le_val_def be_val_be_bytes radix_bytes)
qed

lemma bytes_of_limbs: "length (bytes_of_limbs ws) = 8 * length ws" "le_val (bytes_of_limbs ws) = wval ws"
proof -
  show "length (bytes_of_limbs ws) = 8 * length ws"
    by (induction ws) (simp_all add: bytes_of_limbs_def le_val_limb(2))
  show "le_val (bytes_of_limbs ws) = wval ws"
    by (induction ws) (simp_all add: bytes_of_limbs_def le_val_append le_val_limb radix_bytes)
qed

lemma take_bytes_of_limbs: "take (8 * n) (bytes_of_limbs ws) = bytes_of_limbs (take n ws)"
proof (induction ws arbitrary: n)
  case (Cons x ws)
  then show ?case by (cases n) (simp_all add: bytes_of_limbs_def le_val_limb(2))
qed (simp add: bytes_of_limbs_def)

lemma limbs_of_bytes: "length bs = 8 * n \<Longrightarrow> wval (take k (limbs_of_bytes bs)) = le_val (take (8 * k) bs)"
proof (induction bs arbitrary: n k rule: limbs_of_bytes.induct)
  case (1 b0 b1 b2 b3 b4 b5 b6 b7 bs)
  then obtain m where m: "n = Suc m" by (cases n) auto
  have v: "be_val [b7, b6, b5, b4, b3, b2, b1, b0] = le_val [b0, b1, b2, b3, b4, b5, b6, b7]" by (simp add: le_val_def)
  have "be_val [b7, b6, b5, b4, b3, b2, b1, b0] < 256 ^ 8" using be_val_less [of "[b7, b6, b5, b4, b3, b2, b1, b0]"] by simp
  then have u: "unat (of_nat (be_val [b7, b6, b5, b4, b3, b2, b1, b0]) :: limb) = le_val [b0, b1, b2, b3, b4, b5, b6, b7]"
    unfolding v [symmetric] by (simp add: unat_of_nat)
  show ?case
  proof (cases k)
    case (Suc j)
    have "take (8 * k) ([b0, b1, b2, b3, b4, b5, b6, b7] @ bs) = [b0, b1, b2, b3, b4, b5, b6, b7] @ take (8 * j) bs"
      unfolding take_append using Suc by simp
    then have "le_val (take (8 * k) (b0 # b1 # b2 # b3 # b4 # b5 # b6 # b7 # bs)) =
      le_val [b0, b1, b2, b3, b4, b5, b6, b7] + 256 ^ 8 * le_val (take (8 * j) bs)"
      by (simp only: append.simps le_val_append [symmetric, of "[b0, b1, b2, b3, b4, b5, b6, b7]", simplified]) (simp add: le_val_append)
    then show ?thesis using "1.IH" [of m j] "1.prems" m u Suc by (simp add: radix_bytes)
  qed simp
qed (simp_all, presburger+)

section \<open>Reading bytes is correct\<close>

lemma next_byte: "unat (word :: limb) < 256 ^ 7 \<Longrightarrow> unat (push_bit 8 word OR ucast (b :: u8)) = unat word * 256 + unat b"
proof -
  assume w: "unat word < 256 ^ 7"
  then have p: "unat (push_bit 8 word) = unat word * 256" by (simp add: unat_push_bit)
  have "unat (push_bit 8 word OR ucast b :: limb) = unat (push_bit 8 word) + unat (ucast b :: limb)"
    using unat_u8_lt [of b] by (intro or_disjoint [of 8]) (simp_all add: p unat_ucast)
  then show ?thesis using unat_u8_lt [of b] by (simp add: p unat_ucast)
qed

lemma bin2bn_loop:
  assumes "0 < k" "m < 8" "length inp = 8 * (k - 1) + m + 1" "k \<le> length d" "unat word < 256 ^ (7 - m)"
  shows "length (bin2bn_loop inp word m k d) = length d \<and> drop k (bin2bn_loop inp word m k d) = drop k d \<and>
    wval (take k (bin2bn_loop inp word m k d)) = unat word * 256 ^ length inp + be_val inp"
  using assms
proof (induction inp arbitrary: word m k d)
  case (Cons b inp)
  define w where "w = push_bit 8 word OR ucast b"
  have "(256 :: nat) ^ (7 - m) \<le> 256 ^ 7" by (intro power_increasing) simp_all
  then have "unat word < 256 ^ 7" using Cons.prems(5) by (rule less_le_trans [rotated])
  then have w: "unat w = unat word * 256 + unat b" unfolding w_def by (rule next_byte)
  show ?case
  proof (cases "m = 0")
    case False
    have "unat w < (unat word + 1) * 256" using w unat_u8_lt [of b] by simp
    also have "\<dots> \<le> 256 ^ (7 - m) * 256" using Cons.prems(5) by simp
    also have "\<dots> = 256 ^ (7 - (m - 1))"
    proof -
      have "7 - (m - 1) = Suc (7 - m)" using False Cons.prems(2) by simp
      then show ?thesis by simp
    qed
    finally have "unat w < 256 ^ (7 - (m - 1))" .
    moreover have "length inp = 8 * (k - 1) + (m - 1) + 1" using Cons.prems(3) False by simp
    ultimately have "length (bin2bn_loop inp w (m - 1) k d) = length d \<and> drop k (bin2bn_loop inp w (m - 1) k d) = drop k d \<and>
      wval (take k (bin2bn_loop inp w (m - 1) k d)) = unat w * 256 ^ length inp + be_val inp"
      using Cons.prems(1,2,4) by (intro Cons.IH) simp_all
    then show ?thesis using False by (simp add: w_def [symmetric] Let_def w be_val_Cons distrib_right)
  next
    case True
    define d1 where "d1 = d[k - 1 := w]"
    have kd: "k - 1 < length d" using Cons.prems(1,4) by simp
    have l: "length inp = 8 * (k - 1)" using Cons.prems(3) True by simp
    have e: "bin2bn_loop (b # inp) word m k d = bin2bn_loop inp 0 7 (k - 1) d1"
      using True by (simp add: w_def [symmetric] Let_def BN_BYTES_def d1_def)
    have r: "length (bin2bn_loop inp 0 7 (k - 1) d1) = length d \<and> drop (k - 1) (bin2bn_loop inp 0 7 (k - 1) d1) = drop (k - 1) d1 \<and>
      wval (take (k - 1) (bin2bn_loop inp 0 7 (k - 1) d1)) = be_val inp"
    proof (cases "k = 1")
      case True
      then have "inp = []" using l by simp
      then show ?thesis using True by (simp add: d1_def)
    next
      case False
      then have "length inp = 8 * (k - 1 - 1) + 7 + 1" using l Cons.prems(1) by simp
      then show ?thesis using Cons.IH [of "k - 1" 7 d1 0] False Cons.prems(1) kd by (simp add: d1_def)
    qed
    define d' where "d' = bin2bn_loop inp 0 7 (k - 1) d1"
    have r': "length d' = length d" "drop (k - 1) d' = drop (k - 1) d1" "wval (take (k - 1) d') = be_val inp"
      using r by (simp_all add: d'_def)
    have "d' ! (k - 1) = hd (drop (k - 1) d')" using kd r'(1) by (simp add: hd_drop_conv_nth)
    also have "\<dots> = w" using kd r'(2) by (simp add: hd_drop_conv_nth d1_def)
    finally have top: "d' ! (k - 1) = w" .
    have "take (Suc (k - 1)) d' = take k d'" using Cons.prems(1) by simp
    then have "wval (take k d') = be_val inp + radix ^ (k - 1) * unat w"
      using wval_take_Suc [of "k - 1" d'] kd r'(1,3) top by simp
    also have "radix ^ (k - 1) = 256 ^ length inp" unfolding l radix_bytes by (simp only: power_mult)
    finally have "wval (take k d') = unat word * 256 ^ length (b # inp) + be_val (b # inp)"
      by (simp add: w be_val_Cons distrib_left)
    moreover have "drop k d' = drop k d"
    proof -
      have "drop k d' = drop 1 (drop (k - 1) d')" using Cons.prems(1) by simp
      also have "\<dots> = drop k d" using Cons.prems(1) unfolding r'(2) by (simp add: d1_def)
      finally show ?thesis .
    qed
    ultimately show ?thesis using r'(1) unfolding e d'_def [symmetric] by blast
  qed
qed simp

lemma words_for_bytes: "0 < (n :: nat) \<Longrightarrow> n = 8 * ((n - 1) div 8) + (n - 1) mod 8 + 1"
  by (cases n) simp_all

lemma BN_new_ok: "BN_new e = Some b \<Longrightarrow> bn_ok b \<and> bn_expandable b \<and> bn_abs b = 0"
  by (auto simp: BN_new_def BN_init_def bn_ok_def bn_abs_def bn_expandable_def BN_FLG_MALLOCED_def BN_FLG_STATIC_DATA_def split: option.splits)

lemma bin2bn_into:
  assumes "BN_bin2bn e inp (Some r) = Some r'" "bn_ok r"
  shows "bn_ok r'" "bn_abs r' = be_val inp" "bn_flags r' = bn_flags r" "bn_neg r' = (bn_neg r \<and> inp = [])"
    "bn_width r' = (length inp + 7) div 8"
proof -
  have "bn_ok r' \<and> bn_abs r' = be_val inp \<and> bn_flags r' = bn_flags r \<and> bn_neg r' = (bn_neg r \<and> inp = []) \<and>
    bn_width r' = (length inp + 7) div 8"
  proof (cases "inp = []")
    case True
    then have "r' = r\<lparr>bn_width := 0\<rparr>" using assms(1) by (simp add: BN_bin2bn_def)
    then show ?thesis using assms(2) True by (simp add: bn_ok_def bn_abs_def)
  next
    case False
    define k where "k = (length inp - 1) div 8 + 1"
    define m where "m = (length inp - 1) mod 8"
    obtain r1 where r1: "bn_wexpand e r k = Some r1" "r' = r1\<lparr>bn_d := bin2bn_loop inp 0 m k (bn_d r1), bn_width := k, bn_neg := False\<rparr>"
      using assms(1) False by (auto simp: BN_bin2bn_def BN_BYTES_def k_def m_def Let_def split: option.splits)
    note W = bn_wexpand [OF r1(1) assms(2)]
    have l: "length inp = 8 * (k - 1) + m + 1" using words_for_bytes [of "length inp"] False by (simp add: k_def m_def)
    have "0 < k" "m < 8" by (simp_all add: k_def m_def)
    note B = bin2bn_loop [OF this l W(3), of 0]
    have "bn_width r' = (length inp + 7) div 8" using l \<open>m < 8\<close> \<open>0 < k\<close> by (simp add: r1(2))
    moreover have "bn_abs r' = be_val inp" using B by (simp add: r1(2) bn_abs_def)
    moreover have "bn_ok r'" using B W(1,2) by (simp add: r1(2) bn_ok_def)
    ultimately show ?thesis using W(6) False by (simp add: r1(2))
  qed
  then show "bn_ok r'" "bn_abs r' = be_val inp" "bn_flags r' = bn_flags r" "bn_neg r' = (bn_neg r \<and> inp = [])"
    "bn_width r' = (length inp + 7) div 8" by blast+
qed

lemma bin2bn_succeeds:
  assumes "heap_generous e" "bn_expandable r" "length inp \<le> 8 * bn_max_words"
  shows "\<exists>r'. BN_bin2bn e inp (Some r) = Some r'"
proof -
  have "(length inp - 1) div 8 + 1 \<le> bn_max_words" if "inp \<noteq> []"
    using that assms(3) by (cases inp) (simp_all add: Suc_le_eq less_mult_imp_div_less)
  then show ?thesis using bn_wexpand_succeeds [OF assms(1,2), of "(length inp - 1) div 8 + 1"]
    by (auto simp: BN_bin2bn_def BN_BYTES_def Let_def)
qed

lemma le2bn_succeeds:
  assumes "heap_generous e" "bn_expandable r" "length inp \<le> 8 * bn_max_words"
  shows "\<exists>r'. BN_le2bn e inp (Some r) = Some r'"
proof (cases "inp = []")
  case False
  have "(length inp - 1) div 8 + 1 \<le> bn_max_words" using assms(3) False by (cases "length inp") auto
  then show ?thesis using bn_wexpand_succeeds [OF assms(1,2)] False by (fastforce simp: BN_le2bn_def BN_BYTES_def Let_def)
qed (simp add: BN_le2bn_def)

lemma le2bn_into:
  assumes "BN_le2bn e inp (Some r) = Some r'" "bn_ok r"
  shows "bn_ok r'" "bn_abs r' = le_val inp" "bn_flags r' = bn_flags r" "bn_neg r' = (bn_neg r \<and> inp \<noteq> [])"
proof -
  have "bn_ok r' \<and> bn_abs r' = le_val inp \<and> bn_flags r' = bn_flags r \<and> bn_neg r' = (bn_neg r \<and> inp \<noteq> [])"
  proof (cases "inp = []")
    case True
    then have "r' = r\<lparr>bn_width := 0, bn_neg := False\<rparr>" using assms(1) by (simp add: BN_le2bn_def)
    then show ?thesis using assms(2) True by (simp add: bn_ok_def bn_abs_def)
  next
    case False
    define k where "k = (length inp - 1) div 8 + 1"
    obtain r1 where r1: "bn_wexpand e r k = Some r1"
      "r' = r1\<lparr>bn_d := limbs_of_bytes (blit (bytes_of_limbs ((bn_d r1)[k - 1 := 0])) 0 inp), bn_width := k\<rparr>"
      using assms(1) False by (auto simp: BN_le2bn_def BN_BYTES_def k_def Let_def split: option.splits)
    note W = bn_wexpand [OF r1(1) assms(2)]
    define d where "d = (bn_d r1)[k - 1 := 0]"
    have k: "8 * (k - 1) < length inp" "length inp \<le> 8 * k" 
    proof -
      obtain j where j: "length inp = Suc j" using False by (cases inp) auto
      then have "k = j div 8 + 1" "j = 8 * (j div 8) + j mod 8" "j mod 8 < 8" by (simp_all add: k_def)
      then show "8 * (k - 1) < length inp" "length inp \<le> 8 * k" using j by simp_all
    qed
    have k0: "0 < k" by (simp add: k_def)
    have ld: "k \<le> length d" "length d = bn_dmax r1" using W(3) bn_okD(1) [OF W(1)] by (simp_all add: d_def)
    define bs where "bs = blit (bytes_of_limbs d) 0 inp"
    have lb: "length bs = 8 * length d" using k(2) ld by (simp add: bs_def bytes_of_limbs(1))
    note L = length_limbs_of_bytes [OF lb] limbs_of_bytes [OF lb]
    have "take (8 * k) bs = inp @ drop (length inp) (take (8 * k) (bytes_of_limbs d))"
      using k(2) ld by (simp add: bs_def blit_def bytes_of_limbs(1) drop_take)
    also have "take (8 * k) (bytes_of_limbs d) = bytes_of_limbs (take (k - 1) d) @ bytes_of_limb 0"
    proof -
      have "take k d = take (k - 1) d @ [0]"
        using ld k(1) take_Suc_conv_app_nth [of "k - 1" d] k0 by (cases k) (simp_all add: d_def)
      then show ?thesis unfolding take_bytes_of_limbs by (simp add: bytes_of_limbs_def)
    qed
    also have "drop (length inp) (bytes_of_limbs (take (k - 1) d) @ bytes_of_limb 0) = drop (length inp - 8 * (k - 1)) (bytes_of_limb 0)"
    proof -
      have "length (bytes_of_limbs (take (k - 1) d)) = 8 * (k - 1)" using ld by (simp add: bytes_of_limbs(1))
      then show ?thesis using k(1) by simp
    qed
    also have "bytes_of_limb 0 = replicate 8 0" by (simp add: bytes_of_limb_def map_replicate_const)
    finally have "le_val (take (8 * k) bs) = le_val inp" by (simp add: le_val_append)
    then have "bn_abs r' = le_val inp" using L(2) [of k] by (simp add: r1(2) bn_abs_def bs_def d_def)
    moreover have "bn_ok r'" using W(1) L(1) ld W(2) by (simp add: r1(2) bn_ok_def bs_def d_def)
    ultimately show ?thesis using W(5,6) False by (simp add: r1(2))
  qed
  then show "bn_ok r'" "bn_abs r' = le_val inp" "bn_flags r' = bn_flags r" "bn_neg r' = (bn_neg r \<and> inp \<noteq> [])" by blast+
qed


section \<open>Writing bytes is correct\<close>

lemma min_bytes_be_bytes: "0 < n \<Longrightarrow> 256 ^ (k - 1) \<le> n \<Longrightarrow> n < 256 ^ k \<Longrightarrow> min_bytes n = be_bytes k n"
proof -
  assume n: "0 < n" "256 ^ (k - 1) \<le> n" "n < 256 ^ k"
  then obtain j where k: "k = Suc j" by (cases k) simp_all
  have "n div 256 ^ j < 256" using n(3) k by (simp add: less_mult_imp_div_less mult.commute)
  moreover have "1 \<le> n div 256 ^ j" using n(2) k by (simp add: div_greater_zero_iff Suc_le_eq)
  ultimately have "unat (of_nat (n div 256 ^ j) :: u8) \<noteq> 0" by (simp add: unat_of_nat)
  then have "(of_nat (n div 256 ^ j) :: u8) \<noteq> 0" by auto
  then have "min_bytes (be_val (be_bytes k n)) = be_bytes k n"
    by (intro min_bytes_be_val) (simp add: k be_bytes_Cons del: be_bytes.simps(2))
  then show ?thesis using n(3) by (simp add: be_val_be_bytes)
qed

lemma num_bytes_min:
  assumes "bn_ok bn"
  shows "min_bytes (bn_abs bn) = be_bytes (BN_num_bytes bn) (bn_abs bn)" "bn_abs bn < 256 ^ BN_num_bytes bn"
    "BN_num_bytes bn \<le> 8 * bn_width bn"
proof -
  define l where "l = bit_len (bn_abs bn)"
  have n: "BN_num_bytes bn = (l + 7) div 8" using BN_num_bytes [OF assms] by (simp add: l_def)
  obtain q r where q: "l = 8 * q + r" "r < 8" by (metis mult_div_mod_eq mod_less_divisor zero_less_numeral)
  have p: "(2 :: nat) ^ (8 * m) = 256 ^ m" for m by (simp add: power_mult)
  have "l \<le> 8 * BN_num_bytes bn" using q by (simp add: n)
  then have "(2 :: nat) ^ l \<le> 2 ^ (8 * BN_num_bytes bn)" by (intro power_increasing) simp_all
  then have "bn_abs bn < 2 ^ (8 * BN_num_bytes bn)" using bit_len_lt [of "bn_abs bn"] by (simp add: l_def del: power_increasing_iff)
  then show lt: "bn_abs bn < 256 ^ BN_num_bytes bn" by (simp only: p)
  show "min_bytes (bn_abs bn) = be_bytes (BN_num_bytes bn) (bn_abs bn)"
  proof (cases "bn_abs bn = 0")
    case True
    then have "l = 0" by (simp add: l_def)
    then show ?thesis using True by (simp add: n)
  next
    case False
    have "8 * (BN_num_bytes bn - 1) \<le> l - 1" using q by (simp add: n)
    then have "(2 :: nat) ^ (8 * (BN_num_bytes bn - 1)) \<le> 2 ^ (l - 1)" by (intro power_increasing) simp_all
    also have "\<dots> \<le> bn_abs bn" using bit_len_ge [OF False] by (simp add: l_def)
    finally show ?thesis using False lt by (intro min_bytes_be_bytes) (simp_all only: p neq0_conv)
  qed
  show "BN_num_bytes bn \<le> 8 * bn_width bn"
  proof (cases "bn_abs bn = 0")
    case True
    then show ?thesis by (simp add: n l_def)
  next
    case False
    have "(2 :: nat) ^ (l - 1) < 2 ^ (64 * bn_width bn)"
      using bit_len_ge [OF False] bn_abs_lt [OF assms] unfolding radix_power l_def by (rule le_less_trans)
    then have "l - 1 < 64 * bn_width bn" by (rule power_less_imp_less_exp [rotated]) simp
    then have "l \<le> 64 * bn_width bn" by simp
    then have "(l + 7) div 8 \<le> (64 * bn_width bn + 7) div 8" by (intro div_le_mono) simp
    then show ?thesis by (simp add: n)
  qed
qed

lemma wval_limb: "k < length ws \<Longrightarrow> unat (ws ! k) = wval ws div radix ^ k mod radix"
proof (induction ws arbitrary: k)
  case (Cons x ws)
  show ?case
  proof (cases k)
    case 0
    then show ?thesis by simp
  next
    case (Suc j)
    have "wval (x # ws) div radix = wval ws" by simp
    then have "wval (x # ws) div radix ^ k = wval ws div radix ^ j"
      unfolding Suc power_Suc div_mult2_eq by simp
    then show ?thesis using Cons Suc by simp
  qed
qed simp

text \<open>Byte \<open>i\<close> of the memory is digit \<open>i\<close> to base 256.\<close>

lemma byte_of_number:
  assumes "i < 8 * n" "n \<le> length d"
  shows "ucast (drop_bit (8 * (i mod 8)) (d ! (i div 8))) = (of_nat (wval (take n d) div 256 ^ i) :: u8)"
proof -
  define k j where "k = i div 8" and "j = i mod 8"
  have i: "i = 8 * k + j" "j < 8" by (simp_all add: k_def j_def)
  have kn: "k < n" using assms(1) i by simp
  then have x: "unat (d ! k) = wval (take n d) div radix ^ k mod radix" using wval_limb [of k "take n d"] assms(2) by simp
  define N where "N = wval (take n d) div radix ^ k"
  have s: "(256 :: nat) ^ 8 = 256 ^ j * 256 ^ (8 - j)" using i(2) by (simp flip: power_add)
  have "N mod (256 ^ j * 256 ^ (8 - j)) div 256 ^ j = N div 256 ^ j mod 256 ^ (8 - j)"
    by (simp add: mod_mult2_eq)
  moreover have "(256 :: nat) dvd 256 ^ (8 - j)" using i(2) by simp
  ultimately have "N mod 256 ^ 8 div 256 ^ j mod 256 = N div 256 ^ j mod 256" unfolding s by (simp add: mod_mod_cancel)
  moreover have "N div 256 ^ j = wval (take n d) div 256 ^ i"
    by (simp add: N_def i(1) radix_bytes power_add power_mult div_mult2_eq)
  ultimately have "N mod radix div 256 ^ j mod 256 = wval (take n d) div 256 ^ i mod 256" by (simp only: radix_bytes)
  then show ?thesis unfolding k_def [symmetric] j_def [symmetric] limb_byte x N_def [symmetric]
    by (simp add: word_unat_eq_iff unat_of_nat)
qed

text \<open>\<open>BN_bn2bin\<close> writes the number without leading zeros.\<close>

lemma BN_bn2bin:
  assumes "bn_ok bn"
  shows "BN_bn2bin bn = min_bytes (bn_abs bn)"
proof -
  have "BN_bn2bin bn = map (\<lambda>i. of_nat (bn_abs bn div 256 ^ i)) (rev [0..<BN_num_bytes bn])"
    unfolding BN_bn2bin_def BN_BYTES_def bn_abs_def
  proof (rule map_cong [OF refl])
    fix i assume "i \<in> set (rev [0..<BN_num_bytes bn])"
    then have "i < 8 * bn_width bn" using num_bytes_min(3) [OF assms] by simp
    then show "ucast (drop_bit (8 * (i mod 8)) (bn_d bn ! (i div 8))) = (of_nat (wval (take (bn_width bn) (bn_d bn)) div 256 ^ i) :: u8)"
      by (rule byte_of_number [OF _ bn_okD(3) [OF assms]])
  qed
  then show ?thesis by (simp add: num_bytes_min(1) [OF assms] be_bytes_digits rev_map)
qed

lemma fits_in_bytes: "fits_in_bytes bytes n len \<longleftrightarrow> (\<forall>i. len \<le> i \<and> i < n \<longrightarrow> bytes ! i = 0)"
proof -
  have "fold (\<lambda>i mask. mask OR bytes ! i) [len..<n] m = 0 \<longleftrightarrow> m = 0 \<and> (\<forall>i. len \<le> i \<and> i < n \<longrightarrow> bytes ! i = 0)" for m
  proof (induction n)
    case (Suc n)
    have o: "(x :: u8) OR y = 0 \<longleftrightarrow> x = 0 \<and> y = 0" for x y by (auto simp: bit_eq_iff bit_or_iff)
    show ?case
    proof (cases "len \<le> n")
      case True
      then have "fold (\<lambda>i mask. mask OR bytes ! i) [len..<Suc n] m = fold (\<lambda>i mask. mask OR bytes ! i) [len..<n] m OR bytes ! n" by simp
      then show ?thesis using Suc True o by (auto simp: less_Suc_eq)
    qed auto
  qed auto
  then show ?thesis by (simp add: fits_in_bytes_def)
qed

lemma le_val_0_iff: "le_val bs = 0 \<longleftrightarrow> (\<forall>b\<in>set bs. b = 0)"
  by (induction bs) (auto simp: unat_eq_0)

lemma padded_le:
  assumes "length bs = n"
  shows "(if len < n \<and> \<not> fits_in_bytes bs n len then None
      else (let n = (if len < n then len else n) in Some (take n bs @ replicate (len - n) 0))) =
    (if le_val bs < 256 ^ len then Some (rev (be_bytes len (le_val bs))) else None)"
proof (cases "len < n")
  case True
  have v: "le_val bs = le_val (take len bs) + 256 ^ len * le_val (drop len bs)"
    using le_val_append [of "take len bs" "drop len bs"] True assms by simp
  have "fits_in_bytes bs n len \<longleftrightarrow> le_val (drop len bs) = 0"
  proof -
    have "(\<forall>i. len \<le> i \<and> i < n \<longrightarrow> bs ! i = 0) \<longleftrightarrow> (\<forall>i<n - len. bs ! (len + i) = 0)"
    proof (intro iffI allI impI)
      fix i assume h: "\<forall>i. len \<le> i \<and> i < n \<longrightarrow> bs ! i = 0" "i < n - len"
      then show "bs ! (len + i) = 0" by simp
    next
      fix i assume h: "\<forall>i<n - len. bs ! (len + i) = 0" "len \<le> i \<and> i < n"
      then have "i - len < n - len" by (simp add: diff_less_mono)
      with h(1) have "bs ! (len + (i - len)) = 0" by blast
      then show "bs ! i = 0" using h(2) by simp
    qed
    then show ?thesis unfolding fits_in_bytes le_val_0_iff all_set_conv_all_nth using assms True by simp
  qed
  also have "\<dots> \<longleftrightarrow> le_val bs < 256 ^ len"
  proof
    assume "le_val (drop len bs) = 0"
    then show "le_val bs < 256 ^ len" using v le_val_less [of "take len bs"] True assms by simp
  next
    assume "le_val bs < 256 ^ len"
    then have "256 ^ len * le_val (drop len bs) < 256 ^ len * 1" using v by linarith
    then show "le_val (drop len bs) = 0" by (simp only: mult_less_cancel1) simp
  qed
  finally have f: "fits_in_bytes bs n len \<longleftrightarrow> le_val bs < 256 ^ len" .
  have "take len bs = rev (be_bytes len (le_val bs))" if "le_val bs < 256 ^ len"
  proof -
    have "le_val (drop len bs) = 0" using that f \<open>fits_in_bytes bs n len \<longleftrightarrow> le_val (drop len bs) = 0\<close> by blast
    then have "le_val bs = be_val (rev (take len bs))" using v by (simp add: le_val_def)
    then have "be_bytes len (le_val bs) = rev (take len bs)" using True assms by (simp add: be_bytes_be_val)
    then show ?thesis by (metis rev_rev_ident)
  qed
  then show ?thesis using True f by simp
next
  case False
  have "le_val bs < 256 ^ n" using le_val_less [of bs] assms by simp
  also have "(256 :: nat) ^ n \<le> 256 ^ len" using False by (intro power_increasing) simp_all
  finally have lt: "le_val bs < 256 ^ len" .
  have "be_bytes len (be_val (replicate (len - n) 0 @ rev bs)) = replicate (len - n) 0 @ rev bs"
    using False assms by (intro be_bytes_be_val) simp
  moreover have "be_val (replicate (len - n) 0 @ rev bs) = le_val bs"
    using le_val_append [of bs "replicate (len - n) 0"] unfolding le_val_zeros by (simp add: le_val_def)
  ultimately have "rev (be_bytes len (le_val bs)) = bs @ replicate (len - n) 0" by simp
  then show ?thesis using False lt assms by simp
qed

text \<open>The padded forms succeed exactly for the numbers that fit.\<close>

lemma BN_padded:
  assumes "bn_ok bn"
  shows "BN_bn2le_padded len bn = (if bn_abs bn < 256 ^ len then Some (rev (be_bytes len (bn_abs bn))) else None)"
    "BN_bn2bin_padded len bn = (if bn_abs bn < 256 ^ len then Some (be_bytes len (bn_abs bn)) else None)"
proof -
  define n where "n = bn_width bn * 8"
  define bs where "bs = take n (bytes_of_limbs (bn_d bn))"
  have bs: "length bs = n" "le_val bs = bn_abs bn" "bs = bytes_of_limbs (take (bn_width bn) (bn_d bn))"
  proof -
    show e: "bs = bytes_of_limbs (take (bn_width bn) (bn_d bn))"
      unfolding bs_def n_def mult.commute [of _ 8] by (rule take_bytes_of_limbs)
    show "length bs = n" "le_val bs = bn_abs bn"
      using bn_okD(3) [OF assms] unfolding e by (simp_all add: bytes_of_limbs n_def bn_abs_def)
  qed
  have f: "fits_in_bytes (bytes_of_limbs (bn_d bn)) n len \<longleftrightarrow> fits_in_bytes bs n len"
    unfolding fits_in_bytes by (auto simp: bs_def)
  have t: "take k (bytes_of_limbs (bn_d bn)) = take k bs" if "k \<le> n" for k using that by (simp add: bs_def min_def)
  have p: "BN_bn2le_padded len bn = (if len < n \<and> \<not> fits_in_bytes bs n len then None
      else (let n = (if len < n then len else n) in Some (take n bs @ replicate (len - n) 0)))"
    unfolding BN_bn2le_padded_def BN_BYTES_def Let_def n_def [symmetric] f by (simp add: t)
  then show le: "BN_bn2le_padded len bn = (if bn_abs bn < 256 ^ len then Some (rev (be_bytes len (bn_abs bn))) else None)"
    unfolding padded_le [OF bs(1)] bs(2) .
  have "BN_bn2bin_padded len bn = map_option rev (BN_bn2le_padded len bn)"
    by (simp add: BN_bn2bin_padded_def BN_bn2le_padded_def Let_def)
  then show "BN_bn2bin_padded len bn = (if bn_abs bn < 256 ^ len then Some (be_bytes len (bn_abs bn)) else None)"
    unfolding le by simp
qed


section \<open>DER is read back\<close>

text \<open>A leading zero is due exactly when the number of bits is a multiple of eight.\<close>

lemma der_uint_number:
  assumes "bn_ok bn"
  shows "(if BN_num_bits bn mod 8 = 0 then [0] else []) @ min_bytes (bn_abs bn) = der_uint (bn_abs bn)"
proof (cases "bn_abs bn = 0")
  case True
  then show ?thesis using BN_num_bits [OF assms] by (simp add: der_uint_def)
next
  case False
  define l where "l = bit_len (bn_abs bn)"
  define k where "k = BN_num_bytes bn"
  have k: "k = (l + 7) div 8" using BN_num_bytes [OF assms] by (simp add: k_def l_def)
  have l0: "0 < l" using False bit_len_lt [of "bn_abs bn"] by (cases l) (simp_all add: l_def [symmetric])
  have k0: "0 < k" using l0 by (simp add: k)
  obtain j where j: "k = Suc j" using k0 by (cases k) auto
  have p: "(2 :: nat) ^ (8 * m) = 256 ^ m" for m by (simp add: power_mult)
  define h where "h = bn_abs bn div 256 ^ j"
  have m: "min_bytes (bn_abs bn) = of_nat h # be_bytes j (bn_abs bn)"
    using num_bytes_min(1) [OF assms] by (simp add: k_def [symmetric] j be_bytes_Cons h_def del: be_bytes.simps(2))
  have "bn_abs bn < 256 ^ k" using num_bytes_min(2) [OF assms] by (simp add: k_def)
  then have "h < 256" by (simp add: h_def j less_mult_imp_div_less mult.commute)
  then have uh: "unat (of_nat h :: u8) = h" by (simp add: unat_of_nat)
  have "128 \<le> h \<longleftrightarrow> l mod 8 = 0"
  proof
    assume "l mod 8 = 0"
    then have "l = 8 * k" using k by presburger
    then have "l - 1 = 7 + 8 * j" using j by simp
    then have "(2 :: nat) ^ (l - 1) = 128 * 256 ^ j" by (simp only: power_add p) simp
    then have "128 * 256 ^ j \<le> bn_abs bn" using bit_len_ge [OF False] by (simp add: l_def)
    then show "128 \<le> h" by (simp add: h_def less_eq_div_iff_mult_less_eq)
  next
    assume h: "128 \<le> h"
    show "l mod 8 = 0"
    proof (rule ccontr)
      assume "l mod 8 \<noteq> 0"
      then have "l \<noteq> 8 * k" by auto
      moreover have "l \<le> 8 * k" unfolding k by linarith
      ultimately have "l \<le> 7 + 8 * j" using j by simp
      then have "(2 :: nat) ^ l \<le> 2 ^ (7 + 8 * j)" by (rule power_increasing) simp
      also have "\<dots> = 128 * 256 ^ j" by (simp only: power_add p) simp
      finally have "bn_abs bn < 128 * 256 ^ j" using bit_len_lt [of "bn_abs bn"] unfolding l_def by (rule less_le_trans [rotated])
      then have "h < 128" by (simp add: h_def less_mult_imp_div_less)
      with h show False by simp
    qed
  qed
  moreover have "BN_num_bits bn = l" using BN_num_bits [OF assms] by (simp add: l_def)
  moreover have "der_uint (bn_abs bn) = (if 128 \<le> h then [0] else []) @ min_bytes (bn_abs bn)"
    unfolding der_uint_def Let_def if_not_P [OF False] m by (simp add: uh)
  ultimately show ?thesis by simp
qed

lemma bn2cbb_padded_eq:
  assumes "BN_bn2bin_padded len bn = Some bs" "length bs = len"
  shows "BN_bn2cbb_padded e d s len bn = CBB_add_bytes e d s bs len"
  using assms by (auto simp: BN_bn2cbb_padded_def CBB_add_bytes_def CBB_add_space_def flush_then_def
      split: prod.splits bool.splits option.splits)

lemma cbb_app_marshal:
  assumes "heap_ok e" "bn_ok bn" "\<not> bn_neg bn"
  shows "cbb_app e d (\<lambda>s. BN_marshal_asn1 e d s bn) (der_elem CBS_ASN1_INTEGER (der_uint (bn_abs bn)))"
proof -
  define k where "k = BN_num_bytes bn"
  have kw: "k \<le> 8 * bn_max_words" using num_bytes_min(3) [OF assms(2)] bn_okD(2,4) [OF assms(2)] by (simp add: k_def)
  have p: "BN_bn2bin_padded k bn = Some (min_bytes (bn_abs bn))" "length (min_bytes (bn_abs bn)) = k"
    using BN_padded(2) [OF assms(2), of k] num_bytes_min [OF assms(2)] by (simp_all add: k_def)
  have "k < 2 ^ 62" using kw by (simp add: bn_max_words)
  then have body: "cbb_app e (Suc d) (\<lambda>s. BN_bn2cbb_padded e (Suc d) s k bn) (min_bytes (bn_abs bn))"
    using cbb_app_bytes [OF assms(1), of k "min_bytes (bn_abs bn)" "Suc d"] p by (simp add: bn2cbb_padded_eq)
  have "cbb_app e (Suc d)
      (\<lambda>s. and_then (if BN_num_bits bn mod 8 = 0 then CBB_add_u8 e (Suc d) s 0 else (True, s))
         (\<lambda>s. BN_bn2cbb_padded e (Suc d) s k bn))
      ((if BN_num_bits bn mod 8 = 0 then [0] else []) @ min_bytes (bn_abs bn))"
  proof (cases "BN_num_bits bn mod 8 = 0")
    case True
    with cbb_app_seq [OF cbb_app_u8 [OF assms(1), of "Suc d" 0] body] show ?thesis by simp
  next
    case False
    with body show ?thesis by (simp add: and_then_def)
  qed
  note app = this [unfolded der_uint_number [OF assms(2)]]
  have "length (der_uint (bn_abs bn)) \<le> k + 1"
    using arg_cong [OF der_uint_number [OF assms(2)], of length] p(2) by (auto split: if_splits)
  then have "length (der_uint (bn_abs bn)) \<le> 0xfffffffe" using kw by (simp add: bn_max_words)
  from cbb_app_elem [OF assms(1) cbb_app_imp_weak [OF app] this, of CBS_ASN1_INTEGER] show ?thesis
    using assms(3) by (simp add: BN_marshal_asn1_def k_def)
qed

lemma BN_parse_asn1_unsigned_eq:
  assumes "cbs_wf out" "CBS_get_asn1 c CBS_ASN1_INTEGER = (Some out, c')"
  shows "BN_parse_asn1_unsigned e c ret =
    (if der_uint_ok (cbs_view out) then BN_bin2bn e (cbs_view out) (Some ret) else None, c')"
proof -
  have dv: "cbs_view out = take (c_len out) (c_data out)" "c_len out \<le> length (c_data out)"
    using assms(1) by (auto simp: cbs_view_def cbs_wf_def)
  have len: "length (cbs_view out) = c_len out" using assms(1) by simp
  have i0: "c_data out ! 0 = cbs_view out ! 0" if "c_len out \<noteq> 0" using that dv by simp
  have i1: "c_data out ! 1 = cbs_view out ! 1" if "1 < c_len out" using that dv by simp
  show ?thesis
    unfolding BN_parse_asn1_unsigned_def assms(2)
    using i0 i1 dv(1) len
    by (auto simp: Let_def CBS_data_def CBS_len_def der_uint_ok_def u8_high_bit not_le not_less)
qed

lemma parse_number:
  assumes "cbs_wf c" "cbs_view c = der_elem CBS_ASN1_INTEGER (der_uint n) @ rest" "heap_generous e" "bn_ok r" "bn_expandable r"
    "length (der_uint n) \<le> 8 * bn_max_words"
  shows "\<exists>r' c'. BN_parse_asn1_unsigned e c r = (Some r', c') \<and> bn_ok r' \<and> bn_val r' = int n \<and> cbs_view c' = rest \<and> cbs_wf c'"
proof -
  have "length (der_uint n) < 2 ^ 32" using assms(6) by (simp add: bn_max_words)
  then obtain out c' where o: "CBS_get_asn1 c CBS_ASN1_INTEGER = (Some out, c')" "cbs_view out = der_uint n" "cbs_view c' = rest"
    "cbs_wf out" "cbs_wf c'" using CBS_get_asn1_complete [OF assms(1,2)] by blast
  obtain r' where r: "BN_bin2bn e (der_uint n) (Some r) = Some r'" using bin2bn_succeeds [OF assms(3,5,6)] by blast
  have ne: "der_uint n \<noteq> []" using der_uint_is_ok [of n] by (auto simp: der_uint_ok_def)
  note B = bin2bn_into [OF r assms(4)]
  have "bn_val r' = int n" using B(2,4) ne by (simp add: bn_val_def der_uint_val)
  then show ?thesis
    using BN_parse_asn1_unsigned_eq [OF o(4,1), of e r] o(2,3,5) r B(1) by (simp add: der_uint_is_ok)
qed

end
