(* ===== verification/BN_Convert.thy ===== *)
theory BN_Convert
  imports BN_Bytes
begin

text \<open>
  Numbers as text and as MPI octets: \<open>crypto/bn_extra/convert.c\<close>.  A string is the list of bytes from its
  pointer to the end of its object, so a terminated one contains a zero.  An output \<open>BIGNUM **outp\<close> is
  \<open>None\<close> when it is the null pointer, otherwise it holds \<open>*outp\<close>.  The other \<open>None\<close>, around the whole
  result, is a run that has undefined behaviour.  Lengths of strings are the \<open>int\<close> of the source; the
  scan of the digits stops before it reaches \<open>INT_MAX\<close>.
\<close>

section \<open>Hexadecimal\<close>

definition hextable :: bytes where
  "hextable = [0x30, 0x31, 0x32, 0x33, 0x34, 0x35, 0x36, 0x37, 0x38, 0x39, 0x61, 0x62, 0x63, 0x64, 0x65, 0x66]"

text \<open>A write of one character at \<open>p\<close>, which moves on.\<close>

definition put_char :: "u8 \<Rightarrow> bytes \<times> nat \<Rightarrow> bytes \<times> nat" where
  "put_char c = (\<lambda>(buf, p). (buf[p := c], p + 1))"

definition hex_byte :: "limb \<Rightarrow> nat \<Rightarrow> (bytes \<times> nat) \<times> bool \<Rightarrow> (bytes \<times> nat) \<times> bool" where
  "hex_byte l j = (\<lambda>(out, z).
     let v = unat (drop_bit j l AND 0xff)
     in if z \<or> v \<noteq> 0 then (put_char (hextable ! (v mod 16)) (put_char (hextable ! (v div 16)) out), True) else (out, z))"

definition hex_limb :: "limb \<Rightarrow> (bytes \<times> nat) \<times> bool \<Rightarrow> (bytes \<times> nat) \<times> bool" where
  "hex_limb l = fold (hex_byte l) [56, 48, 40, 32, 24, 16, 8, 0]"

definition BN_bn2hex :: "heap_env \<Rightarrow> bignum \<Rightarrow> bytes option" where
  "BN_bn2hex e bn =
     (let width = bn_minimal_width bn
      in case OPENSSL_malloc e (1 + 1 + width * BN_BYTES * 2 + 1) of
           None \<Rightarrow> None
         | Some buf \<Rightarrow>
             (let p = (buf, 0);
                  p = (if bn_neg bn then put_char 0x2d p else p);
                  p = (if BN_is_zero bn then put_char 0x30 p else p);
                  (p, z) = fold (\<lambda>i. hex_limb (bn_d bn ! i)) (rev [0..<width]) (p, False)
              in Some (fst (put_char 0 p))))"

definition isdigit :: "u8 \<Rightarrow> bool" where
  "isdigit c \<longleftrightarrow> 0x30 \<le> c \<and> c \<le> 0x39"

definition isxdigit :: "u8 \<Rightarrow> bool" where
  "isxdigit c \<longleftrightarrow> isdigit c \<or> 0x61 \<le> c \<and> c \<le> 0x66 \<or> 0x41 \<le> c \<and> c \<le> 0x46"

definition hex_value :: "u8 \<Rightarrow> limb" where
  "hex_value c =
     (if 0x30 \<le> c \<and> c \<le> 0x39 then ucast c - 0x30
      else if 0x61 \<le> c \<and> c \<le> 0x66 then ucast c - 0x61 + 10
      else if 0x41 \<le> c \<and> c \<le> 0x46 then ucast c - 0x41 + 10
      else 0)"

function decode_hex_loop :: "bytes \<Rightarrow> nat \<Rightarrow> nat \<Rightarrow> limbs \<Rightarrow> limbs \<times> nat" where
  "decode_hex_loop inp in_len i d =
     (if in_len > 0 then
        (let todo = BN_BYTES * 2; todo = (if todo > in_len then in_len else todo);
             word = fold (\<lambda>j word. push_bit 4 word OR hex_value (inp ! (in_len - j))) (rev [1..<todo + 1]) 0
         in decode_hex_loop inp (in_len - todo) (i + 1) (d[i := word]))
      else (d, i))"
  by pat_completeness auto
termination by (relation "measure (\<lambda>(inp, in_len, i, d). in_len)") (auto simp: BN_BYTES_def)

declare decode_hex_loop.simps [simp del]

definition decode_hex :: "heap_env \<Rightarrow> bignum \<Rightarrow> bytes \<Rightarrow> nat \<Rightarrow> (bool \<times> bignum) option" where
  "decode_hex e bn inp in_len =
     (if in_len > INT_MAX div 4 then Some (False, bn)
      else (case bn_expand e bn (in_len * 4) of
              None \<Rightarrow> Some (False, bn)
            | Some bn \<Rightarrow> (case decode_hex_loop inp in_len 0 (bn_d bn) of (d, i) \<Rightarrow> Some (True, bn\<lparr>bn_d := d, bn_width := i\<rparr>))))"

section \<open>Decimal\<close>

definition BN_DEC_NUM :: nat where
  "BN_DEC_NUM = 19"

definition BN_DEC_CONV :: limb where
  "BN_DEC_CONV = 10000000000000000000"

text \<open>The loop over the digits that are left, with the word \<open>l\<close> of the \<open>j\<close> digits that wait.\<close>

fun decode_dec_loop :: "heap_env \<Rightarrow> bignum \<Rightarrow> limb \<Rightarrow> nat \<Rightarrow> bytes \<Rightarrow> (bool \<times> bignum) option" where
  "decode_dec_loop e bn l j [] = Some (True, bn)"
| "decode_dec_loop e bn l j (c # inp) =
     (let l = l * 10 + (scast c - 0x30); j = j + 1
      in if j = BN_DEC_NUM then
           (case BN_mul_word e bn BN_DEC_CONV of (ok, bn) \<Rightarrow>
              if \<not> ok then Some (False, bn)
              else (case BN_add_word e bn l of
                      None \<Rightarrow> None
                    | Some (ok, bn) \<Rightarrow> if \<not> ok then Some (False, bn) else decode_dec_loop e bn 0 0 inp))
         else decode_dec_loop e bn l j inp)"

definition decode_dec :: "heap_env \<Rightarrow> bignum \<Rightarrow> bytes \<Rightarrow> nat \<Rightarrow> (bool \<times> bignum) option" where
  "decode_dec e bn inp in_len =
     (let j = BN_DEC_NUM - in_len mod BN_DEC_NUM; j = (if j = BN_DEC_NUM then 0 else j)
      in decode_dec_loop e bn 0 j (take in_len inp))"

section \<open>From text\<close>

text \<open>The number of leading characters that are wanted; \<open>None\<close> is a read behind the object.\<close>

fun scan_chars :: "(u8 \<Rightarrow> bool) \<Rightarrow> nat \<Rightarrow> nat \<Rightarrow> bytes \<Rightarrow> nat option" where
  "scan_chars want_char neg i [] = None"
| "scan_chars want_char neg i (c # inp) =
     (if want_char c \<and> i + neg < INT_MAX then scan_chars want_char neg (i + 1) inp else Some i)"

text \<open>\<open>outp\<close> is \<open>None\<close> for a null pointer and \<open>Some\<close> of what it points to otherwise.\<close>

definition bn_x2bn :: "heap_env \<Rightarrow> bignum option option \<Rightarrow> bytes option \<Rightarrow> (bignum \<Rightarrow> bytes \<Rightarrow> nat \<Rightarrow> (bool \<times> bignum) option)
    \<Rightarrow> (u8 \<Rightarrow> bool) \<Rightarrow> (nat \<times> bignum option option) option" where
  "bn_x2bn e outp inp decode want_char =
     (case inp of
        None \<Rightarrow> Some (0, outp)
      | Some [] \<Rightarrow> None
      | Some (c # cs) \<Rightarrow>
          if c = 0 then Some (0, outp)
          else
            (let (neg, s) = (if c = 0x2d then (1, cs) else (0, c # cs))
             in case scan_chars want_char neg 0 s of
                  None \<Rightarrow> None
                | Some i \<Rightarrow>
                    (let num = i + neg
                     in case outp of
                          None \<Rightarrow> Some (num, None)
                        | Some held \<Rightarrow>
                            (case (case held of None \<Rightarrow> BN_new e | Some r \<Rightarrow> Some (BN_zero r)) of
                               None \<Rightarrow> Some (0, Some held)
                             | Some ret \<Rightarrow>
                                 (case decode ret s i of
                                    None \<Rightarrow> None
                                  | Some (ok, ret) \<Rightarrow>
                                      if \<not> ok then Some (0, Some (case held of None \<Rightarrow> None | Some _ \<Rightarrow> Some ret))
                                      else
                                        (let ret = bn_set_minimal_width ret;
                                             ret = (if \<not> BN_is_zero ret then ret\<lparr>bn_neg := neg = 1\<rparr> else ret)
                                         in Some (num, Some (Some ret))))))))"

definition BN_hex2bn :: "heap_env \<Rightarrow> bignum option option \<Rightarrow> bytes option \<Rightarrow> (nat \<times> bignum option option) option" where
  "BN_hex2bn e outp inp = bn_x2bn e outp inp (decode_hex e) isxdigit"

definition BN_dec2bn :: "heap_env \<Rightarrow> bignum option option \<Rightarrow> bytes option \<Rightarrow> (nat \<times> bignum option option) option" where
  "BN_dec2bn e outp inp = bn_x2bn e outp inp (decode_dec e) isdigit"

definition BN_asc2bn :: "heap_env \<Rightarrow> bignum option option \<Rightarrow> bytes \<Rightarrow> (bool \<times> bignum option option) option" where
  "BN_asc2bn e outp orig_in =
     (let inp = (if orig_in \<noteq> [] \<and> hd orig_in = 0x2d then tl orig_in else orig_in)
      in case (if length inp \<ge> 2 \<and> inp ! 0 = 0x30 \<and> (inp ! 1 = 0x58 \<or> inp ! 1 = 0x78) then BN_hex2bn e outp (Some (drop 2 inp))
               else BN_dec2bn e outp (Some inp)) of
           None \<Rightarrow> None
         | Some (n, outp) \<Rightarrow>
             if n = 0 then Some (False, outp)
             else if orig_in \<noteq> [] \<and> hd orig_in = 0x2d then
               (case outp of
                  Some (Some r) \<Rightarrow> Some (True, Some (Some (if \<not> BN_is_zero r then r\<lparr>bn_neg := True\<rparr> else r)))
                | _ \<Rightarrow> None)
             else Some (True, outp))"

section \<open>To decimal text\<close>

text \<open>The digits of a word, at most \<open>k\<close> more of them, all \<open>k\<close> if leading zeros are wanted.\<close>

fun add_dec_digits :: "heap_env \<Rightarrow> cbb \<Rightarrow> bool \<Rightarrow> nat \<Rightarrow> limb \<Rightarrow> bool \<times> cbb" where
  "add_dec_digits e s add_leading_zeros 0 word = (True, s)"
| "add_dec_digits e s add_leading_zeros (Suc k) word =
     (if add_leading_zeros \<or> word \<noteq> 0 then
        (case CBB_add_u8 e 0 s (ucast (0x30 + word mod 10)) of
           (False, s) \<Rightarrow> (False, s)
         | (True, s) \<Rightarrow> add_dec_digits e s add_leading_zeros k (word div 10))
      else (True, s))"

partial_function (option) bn2dec_loop :: "heap_env \<Rightarrow> cbb \<Rightarrow> bignum \<Rightarrow> (bool \<times> cbb) option" where
  "bn2dec_loop e s copy =
     (if BN_is_zero copy then Some (True, s)
      else
        (case BN_div_word e copy BN_DEC_CONV of (word, copy) \<Rightarrow>
           if word = - 1 then Some (False, s)
           else (case add_dec_digits e s (\<not> BN_is_zero copy) BN_DEC_NUM word of
                   (ok, s) \<Rightarrow> if \<not> ok then Some (False, s) else bn2dec_loop e s copy)))"

text \<open>
  The buffer that \<open>CBB_finish\<close> hands out is reversed up to the length; the model gives the string.
\<close>

definition BN_bn2dec :: "heap_env \<Rightarrow> bignum \<Rightarrow> bytes option option" where
  "BN_bn2dec e a =
     (case and_then (CBB_init e 16) (\<lambda>s. CBB_add_u8 e 0 s 0) of
        (False, s) \<Rightarrow> Some None
      | (True, s) \<Rightarrow>
          (case (if BN_is_zero a then Some (CBB_add_u8 e 0 s 0x30)
                 else (case BN_dup e (Some a) of None \<Rightarrow> Some (False, s) | Some copy \<Rightarrow> bn2dec_loop e s copy)) of
             None \<Rightarrow> None
           | Some r \<Rightarrow>
               (case and_then r (\<lambda>s. if bn_neg a then CBB_add_u8 e 0 s 0x2d else (True, s)) of
                  (False, s) \<Rightarrow> Some None
                | (True, s) \<Rightarrow>
                    (case CBB_finish e 0 s True True of
                       (None, s) \<Rightarrow> Some None
                     | (Some (data, len), s) \<Rightarrow> Some (Some (rev (take len data) @ drop len data))))))"

section \<open>MPI octets\<close>

text \<open>The octets go to \<open>out\<close>, if there is one; the length is returned in any case.\<close>

definition BN_bn2mpi :: "bignum \<Rightarrow> bytes option \<Rightarrow> nat \<times> bytes option" where
  "BN_bn2mpi bn out =
     (let bits = BN_num_bits bn; bytes = (bits + 7) div 8;
          extend = (if bytes \<noteq> 0 \<and> bits AND 0x07 = 0 then 1 else 0);
          len = size_add bytes extend
      in if len < bytes \<or> size_add 4 len < len \<or> len AND 0xffffffff \<noteq> len then (4, map_option (\<lambda>out. blit out 0 (replicate 4 0)) out)
         else (case out of
                 None \<Rightarrow> (4 + len, None)
               | Some out \<Rightarrow>
                   (let out = blit out 0 [of_nat (len div 2 ^ 24), of_nat (len div 2 ^ 16), of_nat (len div 2 ^ 8), of_nat len];
                        out = (if extend \<noteq> 0 then out[4 := 0] else out);
                        out = blit out (4 + extend) (BN_bn2bin bn);
                        out = (if bn_neg bn \<and> len > 0 then out[4 := out ! 4 OR 0x80] else out)
                    in (len + 4, Some out))))"

definition BN_mpi2bn :: "heap_env \<Rightarrow> bytes \<Rightarrow> nat \<Rightarrow> bignum option \<Rightarrow> bignum option" where
  "BN_mpi2bn e inp len out =
     (if len < 4 then None
      else
        (let in_len = be_val (take 4 inp)
         in if in_len \<noteq> len - 4 then None
            else (case (case out of None \<Rightarrow> BN_new e | Some r \<Rightarrow> Some r) of
                    None \<Rightarrow> None
                  | Some out \<Rightarrow>
                      if in_len = 0 then Some (BN_zero out)
                      else (case BN_bin2bn e (take in_len (drop 4 inp)) (Some out) of
                              None \<Rightarrow> None
                            | Some out \<Rightarrow>
                                (let out = out\<lparr>bn_neg := inp ! 4 AND 0x80 \<noteq> 0\<rparr>
                                 in Some (if bn_neg out then snd (BN_clear_bit out (int (BN_num_bits out) - 1)) else out))))))"

section \<open>The values of the digits\<close>

definition hex_val :: "bytes \<Rightarrow> nat" where
  "hex_val s = foldl (\<lambda>n c. n * 16 + unat (hex_value c)) 0 s"

definition dec_val :: "bytes \<Rightarrow> nat" where
  "dec_val s = foldl (\<lambda>n c. n * 10 + (unat c - 0x30)) 0 s"

lemma foldl_digits: "foldl (\<lambda>n c. n * b + f c) (m :: nat) s = m * b ^ length s + foldl (\<lambda>n c. n * b + f c) 0 s"
proof (induction s arbitrary: m)
  case (Cons c s)
  show ?case using Cons [of "m * b + f c"] Cons [of "f c"] by (simp add: algebra_simps)
qed simp

lemma hex_val_append: "hex_val (xs @ ys) = hex_val xs * 16 ^ length ys + hex_val ys"
  unfolding hex_val_def foldl_append by (rule foldl_digits)

lemma hex_val_simps: "hex_val [] = 0" "hex_val (c # s) = unat (hex_value c) * 16 ^ length s + hex_val s"
  using foldl_digits [of 16 "\<lambda>c. unat (hex_value c)" "unat (hex_value c)" s] by (simp_all add: hex_val_def)

lemma dec_val_append: "dec_val (xs @ ys) = dec_val xs * 10 ^ length ys + dec_val ys"
  unfolding dec_val_def foldl_append by (rule foldl_digits)

lemma dec_val_simps: "dec_val [] = 0" "dec_val (c # s) = (unat c - 0x30) * 10 ^ length s + dec_val s"
  using foldl_digits [of 10 "\<lambda>c. unat c - 0x30" "unat c - 0x30" s] by (simp_all add: dec_val_def)

lemma hex_value_lt: "unat (hex_value c) < 16"
proof -
  have "unat (hex_value c) = (if 0x30 \<le> unat c \<and> unat c \<le> 0x39 then unat c - 0x30
      else if 0x61 \<le> unat c \<and> unat c \<le> 0x66 then unat c - 0x61 + 10
      else if 0x41 \<le> unat c \<and> unat c \<le> 0x46 then unat c - 0x41 + 10 else 0)"
    using unat_u8_lt [of c]
    by (simp add: hex_value_def word_le_nat_alt unat_word_ariths unat_sub unat_ucast_up unsigned_ucast_eq take_bit_nat_eq_self)
  then show ?thesis by (auto split: if_splits)
qed

lemma hex_val_lt: "hex_val s < 16 ^ length s"
proof (induction s)
  case (Cons c s)
  have "unat (hex_value c) * 16 ^ length s + hex_val s < (unat (hex_value c) + 1) * 16 ^ length s" using Cons by simp
  also have "\<dots> \<le> 16 * 16 ^ length s" using hex_value_lt [of c] by (intro mult_right_mono) simp_all
  finally show ?case by (simp add: hex_val_simps)
qed (simp add: hex_val_simps)

lemma next_hex: "unat (word :: limb) < 16 ^ 15 \<Longrightarrow> unat v < 16 \<Longrightarrow> unat (push_bit 4 word OR v) = unat word * 16 + unat (v :: limb)"
proof -
  assume a: "unat word < 16 ^ 15" "unat v < 16"
  then have p: "unat (push_bit 4 word) = unat word * 16" by (simp add: unat_push_bit)
  have "unat (push_bit 4 word OR v) = unat (push_bit 4 word) + unat v"
    using a by (intro or_disjoint [of 4]) (simp_all add: p)
  then show ?thesis by (simp add: p)
qed

section \<open>Reading hexadecimal is correct\<close>

lemma hex_word:
  assumes "length s \<le> 16"
  shows "unat (foldl (\<lambda>word c. push_bit 4 word OR hex_value c) 0 s) = hex_val s"
  using assms
proof (induction s rule: rev_induct)
  case (snoc c s)
  let ?w = "foldl (\<lambda>word c. push_bit 4 word OR hex_value c) 0 s"
  have w: "unat ?w = hex_val s" using snoc by simp
  have "hex_val s < 16 ^ length s" by (rule hex_val_lt)
  also have "\<dots> \<le> 16 ^ 15" using snoc.prems by (intro power_increasing) simp_all
  finally have "unat ?w < 16 ^ 15" by (simp only: w)
  from next_hex [OF this hex_value_lt, of c] show ?case by (simp add: w hex_val_append hex_val_simps)
qed (simp add: hex_val_simps)

lemma hex_word_chars:
  assumes "todo \<le> n" "n \<le> length inp"
  shows "fold (\<lambda>j word. push_bit 4 word OR hex_value (inp ! (n - j))) (rev [1..<todo + 1]) 0 =
    foldl (\<lambda>word c. push_bit 4 word OR hex_value c) 0 (take todo (drop (n - todo) inp))"
proof -
  have "map (\<lambda>j. inp ! (n - j)) (rev [1..<todo + 1]) = take todo (drop (n - todo) inp)"
    using assms by (intro nth_equalityI) (simp_all add: rev_nth del: upt_Suc)
  from this [symmetric] show ?thesis by (simp only: foldl_conv_fold fold_map comp_def)
qed

lemma decode_hex_loop:
  assumes "decode_hex_loop inp n i d = (d', i')" "n \<le> length inp" "i + (n + 15) div 16 \<le> length d"
  shows "length d' = length d \<and> i' = i + (n + 15) div 16 \<and> take i d' = take i d \<and>
    wval (take (i' - i) (drop i d')) = hex_val (take n inp)"
  using assms
proof (induction n arbitrary: i d rule: less_induct)
  case (less n)
  show ?case
  proof (cases "n = 0")
    case True
    then have "d' = d" "i' = i" using less.prems(1) unfolding decode_hex_loop.simps [of inp n i d] by simp_all
    then show ?thesis using True by (simp add: hex_val_simps)
  next
    case False
    define todo where "todo = (if 16 > n then n else 16)"
    define word where "word = fold (\<lambda>j word. push_bit 4 word OR hex_value (inp ! (n - j))) (rev [1..<todo + 1]) 0"
    have todo: "0 < todo" "todo \<le> n" "todo \<le> 16" using False by (simp_all add: todo_def)
    have step: "decode_hex_loop inp (n - todo) (i + 1) (d[i := word]) = (d', i')"
      using less.prems(1) False by (simp add: decode_hex_loop.simps [of inp n i d] BN_BYTES_def Let_def word_def todo_def)
    have len: "(n + 15) div 16 = 1 + (n - todo + 15) div 16" using False by (auto simp: todo_def)
    have IH: "length d' = length (d[i := word]) \<and> i' = (i + 1) + (n - todo + 15) div 16 \<and> take (i + 1) d' = take (i + 1) (d[i := word]) \<and>
        wval (take (i' - (i + 1)) (drop (i + 1) d')) = hex_val (take (n - todo) inp)"
      by (rule less.IH [OF _ step]) (use False less.prems(2,3) len todo(1,2) in simp_all)
    have w: "unat word = hex_val (take todo (drop (n - todo) inp))"
      using hex_word_chars [OF todo(2) less.prems(2)] hex_word [of "take todo (drop (n - todo) inp)"] todo(3) by (simp add: word_def)
    have i: "i < length d'" "i < length d" using IH less.prems(3) len by simp_all
    have t: "take (i + 1) d' = take (i + 1) (d[i := word])" using IH by (rule conjunct1 [OF conjunct2 [OF conjunct2]])
    have "d' ! i = word" using arg_cong [OF t, of "\<lambda>xs. xs ! i"] i by simp
    moreover have "take i d' = take i d" using arg_cong [OF t, of "take i"] by simp
    ultimately have "drop i d' = word # drop (i + 1) d'" using i Cons_nth_drop_Suc [of i d'] by simp
    moreover have "i' - i = Suc (i' - (i + 1))" using IH by simp
    ultimately have "wval (take (i' - i) (drop i d')) = unat word + radix * wval (take (i' - (i + 1)) (drop (i + 1) d'))" by simp
    also have "wval (take (i' - (i + 1)) (drop (i + 1) d')) = hex_val (take (n - todo) inp)" using IH by blast
    also have "radix * hex_val (take (n - todo) inp) = hex_val (take (n - todo) inp) * 16 ^ todo"
    proof (cases "16 > n")
      case False
      then show ?thesis by (simp add: todo_def radix_def)
    qed (simp add: todo_def hex_val_simps)
    also have "unat word + \<dots> = hex_val (take (n - todo) inp @ take todo (drop (n - todo) inp))"
      using todo(2) less.prems(2) by (simp add: w hex_val_append)
    also have "take (n - todo) inp @ take todo (drop (n - todo) inp) = take n inp"
      using take_add [of "n - todo" todo inp] todo(2) by simp
    finally show ?thesis using IH len \<open>take i d' = take i d\<close> by simp
  qed
qed

text \<open>Digits that a number of the allowed size can hold are decoded into it.\<close>

lemma decode_hex:
  assumes "bn_ok bn" "n \<le> length inp"
  shows "\<exists>ok r. decode_hex e bn inp n = Some (ok, r) \<and> bn_ok r \<and> bn_flags r = bn_flags bn \<and> bn_neg r = bn_neg bn \<and>
    (ok \<longrightarrow> bn_abs r = hex_val (take n inp)) \<and>
    (heap_generous e \<longrightarrow> bn_expandable bn \<longrightarrow> n \<le> 16 * bn_max_words \<longrightarrow> ok)"
proof (cases "n > INT_MAX div 4")
  case True
  then have "\<not> n \<le> 16 * bn_max_words" by (simp add: INT_MAX_def bn_max_words)
  then show ?thesis using True assms(1) by (intro exI [of _ False] exI [of _ bn]) (simp add: decode_hex_def)
next
  case False
  then have small: "n * 4 + 63 < 2 ^ 64" by (simp add: INT_MAX_def)
  then have ex: "bn_expand e bn (n * 4) = bn_wexpand e bn ((n * 4 + 63) div 64)"
    by (simp add: bn_expand_def size_add_def BN_BITS2_def)
  show ?thesis
  proof (cases "bn_wexpand e bn ((n * 4 + 63) div 64)")
    case None
    moreover have "(n * 4 + 63) div 64 \<le> bn_max_words" if "n \<le> 16 * bn_max_words"
      using div_le_mono [of "n * 4 + 63" "16 * bn_max_words * 4 + 63" 64] that by (simp add: bn_max_words)
    ultimately have "\<not> (heap_generous e \<and> bn_expandable bn \<and> n \<le> 16 * bn_max_words)"
      using bn_wexpand_succeeds [of e bn "(n * 4 + 63) div 64"] by auto
    with None show ?thesis using False ex assms(1) by (intro exI [of _ False] exI [of _ bn]) (auto simp: decode_hex_def)
  next
    case (Some b)
    note W = bn_wexpand [OF Some assms(1)]
    obtain d i where l: "decode_hex_loop inp n 0 (bn_d b) = (d, i)" by fastforce
    have "(n * 4 + 63) div 64 = (n + 15) div 16" by simp
    then have "0 + (n + 15) div 16 \<le> length (bn_d b)" using W(3) by simp
    note D = decode_hex_loop [OF l assms(2) this]
    have r: "decode_hex e bn inp n = Some (True, b\<lparr>bn_d := d, bn_width := i\<rparr>)"
      using False ex Some l by (simp add: decode_hex_def)
    have "i \<le> length d" using D \<open>0 + (n + 15) div 16 \<le> length (bn_d b)\<close> by simp
    then have "bn_ok (b\<lparr>bn_d := d, bn_width := i\<rparr>)" using W(1) D by (simp add: bn_ok_def)
    moreover have "wval (take i d) = hex_val (take n inp)" using D unfolding drop_0 diff_zero by blast
    ultimately show ?thesis using r W(5,6)
      by (intro exI [of _ True] exI [of _ "b\<lparr>bn_d := d, bn_width := i\<rparr>"]) (simp add: bn_abs_def)
  qed
qed

section \<open>Reading decimal is correct\<close>

lemma digit_value:
  assumes "isdigit c"
  shows "unat (scast c - 0x30 :: limb) = unat c - 0x30" "unat c - 0x30 < 10" "c \<noteq> 0" "c \<noteq> 0x2d" "isxdigit c"
    "unat (hex_value c) = unat c - 0x30"
proof -
  have "48 \<le> unat c" "unat c < 58" using assms by (simp_all add: isdigit_def word_le_nat_alt)
  then have "unat c \<in> set [48..<58]" by (simp only: set_upt atLeastLessThan_iff)
  moreover have "c = of_nat (unat c)" by simp
  ultimately have "c \<in> of_nat ` set [48..<58]" by blast
  also have "\<dots> = set [0x30, 0x31, 0x32, 0x33, 0x34, 0x35, 0x36, 0x37, 0x38, 0x39]" by (simp add: upt_rec)
  finally have "c \<in> set [0x30, 0x31, 0x32, 0x33, 0x34, 0x35, 0x36, 0x37, 0x38, 0x39]" .
  moreover have "\<forall>c\<in>set [0x30, 0x31, 0x32, 0x33, 0x34, 0x35, 0x36, 0x37, 0x38, 0x39 :: u8].
      unat (scast c - 0x30 :: limb) = unat c - 0x30 \<and> unat c - 0x30 < 10 \<and> c \<noteq> 0 \<and> c \<noteq> 0x2d \<and> isxdigit c \<and>
      unat (hex_value c) = unat c - 0x30"
    by (simp add: isxdigit_def isdigit_def hex_value_def)
  ultimately show "unat (scast c - 0x30 :: limb) = unat c - 0x30" "unat c - 0x30 < 10" "c \<noteq> 0" "c \<noteq> 0x2d" "isxdigit c"
    "unat (hex_value c) = unat c - 0x30"
    by blast+
qed

lemma BN_DEC_CONV: "unat BN_DEC_CONV = 10 ^ 19"
  by (simp add: BN_DEC_CONV_def)

lemma next_dec:
  assumes "isdigit c" "unat l < 10 ^ j" "j < 19"
  shows "unat (l * 10 + (scast c - 0x30) :: limb) = unat l * 10 + (unat c - 0x30)" "unat l * 10 + (unat c - 0x30) < 10 ^ (j + 1)"
proof -
  note d = digit_value [OF assms(1)]
  have "10 ^ j \<le> (10 :: nat) ^ 18" using assms(3) by (intro power_increasing) simp_all
  with assms(2) have "unat l < 10 ^ 18" by (rule less_le_trans)
  then have "unat l * 10 + (unat c - 0x30) < 2 ^ 64" using d(2) by simp
  then show "unat (l * 10 + (scast c - 0x30) :: limb) = unat l * 10 + (unat c - 0x30)"
    using d(1) by (simp add: unat_word_ariths)
  have "unat l + 1 \<le> 10 ^ j" using assms(2) by simp
  then have "unat l * 10 + 10 \<le> 10 ^ (j + 1)" by simp
  then show "unat l * 10 + (unat c - 0x30) < 10 ^ (j + 1)" using d(2) by simp
qed

lemma bn_nonneg: "bn_signed r \<Longrightarrow> 0 \<le> bn_val r \<Longrightarrow> \<not> bn_neg r \<and> int (bn_abs r) = bn_val r"
  by (auto simp: bn_signed_def bn_val_def)

text \<open>One chunk of digits is put behind the number.\<close>

lemma add_chunk:
  assumes "bn_ok bn" "\<not> bn_neg bn"
  shows "\<exists>ok r. BN_mul_word e bn BN_DEC_CONV = (ok, r) \<and>
    (if \<not> ok then bn_ok r \<and> bn_flags r = bn_flags bn \<and> \<not> (heap_generous e \<and> bn_expandable bn \<and> bn_width bn < bn_max_words)
     else \<exists>ok' r'. BN_add_word e r l = Some (ok', r') \<and> bn_ok r' \<and> bn_flags r' = bn_flags bn \<and>
       (ok' \<longrightarrow> \<not> bn_neg r' \<and> bn_abs r' = bn_abs bn * 10 ^ 19 + unat l \<and> bn_width r' \<le> bn_width bn + 2) \<and>
       (heap_generous e \<longrightarrow> bn_expandable bn \<longrightarrow> bn_width bn + 1 < bn_max_words \<longrightarrow> ok'))"
proof -
  obtain ok r where m: "BN_mul_word e bn BN_DEC_CONV = (ok, r)" by fastforce
  note M = BN_mul_word [OF m assms(1)]
  show ?thesis
  proof (cases ok)
    case False
    then show ?thesis using m M(1,2,5) by auto
  next
    case True
    have nn: "\<not> bn_neg r" using m assms(2) by (auto simp: BN_mul_word_def Let_def BN_zero_def bn_wexpand_def split: if_splits prod.splits option.splits)
    have v: "bn_abs r = bn_abs bn * 10 ^ 19"
      using M(3) True nn assms(2) by (simp add: bn_val_def BN_DEC_CONV flip: of_nat_power of_nat_mult)
    have s: "bn_signed r" using nn by (simp add: bn_signed_def)
    obtain ok' r' where A: "BN_add_word e r l = Some (ok', r')" "bn_ok r'" "bn_flags r' = bn_flags r"
        "ok' \<longrightarrow> bn_val r' = bn_val r + int (unat l) \<and> bn_signed r'" "ok' \<longrightarrow> bn_width r' \<le> bn_width r + 1"
        "heap_generous e \<longrightarrow> bn_expandable r \<longrightarrow> bn_width r < bn_max_words \<longrightarrow> ok'"
      using BN_add_word [OF M(1) s, of e l] by blast
    have x: "bn_expandable r \<longleftrightarrow> bn_expandable bn" using M(2) by (simp add: bn_expandable_def)
    have "\<not> bn_neg r' \<and> bn_abs r' = bn_abs bn * 10 ^ 19 + unat l" if ok'
    proof -
      have "bn_val r' = int (bn_abs bn * 10 ^ 19 + unat l)" using A(4) that nn v by (simp add: bn_val_def)
      then show ?thesis using bn_nonneg [of r'] A(4) that by (metis of_nat_0_le_iff of_nat_eq_iff)
    qed
    then show ?thesis using m True A M(2,4) x by (intro exI [of _ ok] exI [of _ r]) auto
  qed
qed

definition decoded :: "heap_env \<Rightarrow> bignum \<Rightarrow> (bool \<times> bignum) option \<Rightarrow> nat \<Rightarrow> bool \<Rightarrow> bool" where
  "decoded e bn res n room \<longleftrightarrow> (\<exists>ok r. res = Some (ok, r) \<and> bn_ok r \<and> bn_flags r = bn_flags bn \<and>
     (ok \<longrightarrow> \<not> bn_neg r \<and> bn_abs r = n) \<and> (heap_generous e \<longrightarrow> bn_expandable bn \<longrightarrow> room \<longrightarrow> ok))"

lemma decoded_failed: "bn_ok r \<Longrightarrow> bn_flags r = bn_flags bn \<Longrightarrow> \<not> (heap_generous e \<and> bn_expandable bn \<and> room) \<Longrightarrow>
    decoded e bn (Some (False, r)) n room"
  by (auto simp: decoded_def)

lemma decoded_mono: "decoded e bn res n room \<Longrightarrow> (room' \<Longrightarrow> room) \<Longrightarrow> bn_flags bn = bn_flags bn' \<Longrightarrow> decoded e bn' res n room'"
  by (auto simp: decoded_def bn_expandable_def)

lemma decode_dec_loop:
  assumes "\<forall>c\<in>set inp. isdigit c" "(j + length inp) mod 19 = 0" "j < 19" "unat l < 10 ^ j" "bn_ok bn" "\<not> bn_neg bn"
  shows "decoded e bn (decode_dec_loop e bn l j inp) ((bn_abs bn * 10 ^ j + unat l) * 10 ^ length inp + dec_val inp)
    (bn_width bn + 2 * ((j + length inp) div 19) \<le> bn_max_words)"
  using assms
proof (induction inp arbitrary: bn l j)
  case Nil
  then have "j = 0" "l = 0" by (simp_all add: word_unat_eq_iff)
  then show ?case using Nil by (auto simp: decoded_def dec_val_simps)
next
  case (Cons c inp)
  let ?l = "l * 10 + (scast c - 0x30) :: limb"
  have c: "isdigit c" using Cons.prems(1) by simp
  note l = next_dec [OF c Cons.prems(4,3)]
  have val: "(bn_abs bn * 10 ^ (j + 1) + unat ?l) * 10 ^ length inp + dec_val inp =
      (bn_abs bn * 10 ^ j + unat l) * 10 ^ length (c # inp) + dec_val (c # inp)"
    unfolding l(1) dec_val_simps by (simp add: algebra_simps)
  show ?case
  proof (cases "j + 1 = 19")
    case False
    have "decoded e bn (decode_dec_loop e bn ?l (j + 1) inp) ((bn_abs bn * 10 ^ (j + 1) + unat ?l) * 10 ^ length inp + dec_val inp)
        (bn_width bn + 2 * ((j + 1 + length inp) div 19) \<le> bn_max_words)"
      using Cons.prems l False by (intro Cons.IH) simp_all
    moreover have "decode_dec_loop e bn l j (c # inp) = decode_dec_loop e bn ?l (j + 1) inp"
      using False by (simp add: BN_DEC_NUM_def Let_def)
    ultimately show ?thesis unfolding val by simp
  next
    case True
    then have j: "j = 18" by simp
    have d: "(j + length (c # inp)) div 19 = 1 + (0 + length inp) div 19" using j by simp
    obtain ok r where m: "BN_mul_word e bn BN_DEC_CONV = (ok, r)" by fastforce
    show ?thesis
    proof (cases ok)
      case False
      then have "decode_dec_loop e bn l j (c # inp) = Some (False, r)" using j m by (simp add: BN_DEC_NUM_def Let_def)
      moreover have "bn_ok r" "bn_flags r = bn_flags bn" "\<not> (heap_generous e \<and> bn_expandable bn \<and> bn_width bn < bn_max_words)"
        using add_chunk [OF Cons.prems(5,6), of e ?l] m False by auto
      ultimately show ?thesis unfolding d by (auto intro!: decoded_failed)
    next
      case True
      then obtain ok' r' where A: "BN_add_word e r ?l = Some (ok', r')" "bn_ok r'" "bn_flags r' = bn_flags bn"
          "ok' \<Longrightarrow> \<not> bn_neg r' \<and> bn_abs r' = bn_abs bn * 10 ^ 19 + unat ?l \<and> bn_width r' \<le> bn_width bn + 2"
          "heap_generous e \<longrightarrow> bn_expandable bn \<longrightarrow> bn_width bn + 1 < bn_max_words \<longrightarrow> ok'"
        using add_chunk [OF Cons.prems(5,6), of e ?l] m by auto
      show ?thesis
      proof (cases ok')
        case False
        then have "decode_dec_loop e bn l j (c # inp) = Some (False, r')" using j m A(1) True by (simp add: BN_DEC_NUM_def Let_def)
        then show ?thesis unfolding d using A(2,3,5) False by (auto intro!: decoded_failed)
      next
        case ok: True
        have "decoded e r' (decode_dec_loop e r' 0 0 inp) ((bn_abs r' * 10 ^ 0 + unat (0 :: limb)) * 10 ^ length inp + dec_val inp)
            (bn_width r' + 2 * ((0 + length inp) div 19) \<le> bn_max_words)"
          using Cons.prems(1,2) A(2,4) ok j by (intro Cons.IH) (auto simp: mod_Suc split: if_splits)
        moreover have "decode_dec_loop e bn l j (c # inp) = decode_dec_loop e r' 0 0 inp"
          using j m A(1) True ok by (simp add: BN_DEC_NUM_def Let_def)
        moreover have "(bn_abs r' * 10 ^ 0 + unat (0 :: limb)) * 10 ^ length inp + dec_val inp =
            (bn_abs bn * 10 ^ j + unat l) * 10 ^ length (c # inp) + dec_val (c # inp)"
          using A(4) ok val j by simp
        ultimately show ?thesis unfolding d using A(3,4) ok by (auto elim!: decoded_mono)
      qed
    qed
  qed
qed

lemma decode_dec:
  assumes "bn_ok bn" "\<not> bn_neg bn" "bn_abs bn = 0" "bn_width bn = 0" "n \<le> length inp" "\<forall>c\<in>set (take n inp). isdigit c"
  shows "decoded e bn (decode_dec e bn inp n) (dec_val (take n inp)) (2 * ((n + 18) div 19) \<le> bn_max_words)"
proof -
  define j where "j = (if n mod 19 = 0 then 0 else 19 - n mod 19)"
  have j: "j < 19" "(j + n) mod 19 = 0" "(j + n) div 19 = (n + 18) div 19"
  proof -
    obtain q r where n: "n = 19 * q + r" "r < 19" by (rule that [of "n div 19" "n mod 19"]) simp_all
    have "j + n = 19 * ((n + 18) div 19) \<and> j < 19"
    proof (cases "r = 0")
      case True
      then have "(n + 18) div 19 = q" using n by (intro div_nat_eqI) simp_all
      then show ?thesis using True n by (simp_all add: j_def)
    next
      case False
      then have "(n + 18) div 19 = q + 1" using n by (intro div_nat_eqI) simp_all
      then show ?thesis using False n by (simp_all add: j_def)
    qed
    then show "j < 19" "(j + n) mod 19 = 0" "(j + n) div 19 = (n + 18) div 19" by simp_all
  qed
  have l: "length (take n inp) = n" using assms(5) by simp
  have r: "decode_dec e bn inp n = decode_dec_loop e bn 0 j (take n inp)"
    unfolding decode_dec_def BN_DEC_NUM_def Let_def j_def by (rule arg_cong [of _ _ "\<lambda>j. decode_dec_loop e bn 0 j (take n inp)"]) auto
  have "decoded e bn (decode_dec_loop e bn 0 j (take n inp))
      ((bn_abs bn * 10 ^ j + unat (0 :: limb)) * 10 ^ length (take n inp) + dec_val (take n inp))
      (bn_width bn + 2 * ((j + length (take n inp)) div 19) \<le> bn_max_words)"
    using assms(1,2,6) j(1,2) l by (intro decode_dec_loop) simp_all
  then show ?thesis unfolding r l j(3) assms(3,4) by simp
qed

lemma decode_hex_decoded:
  assumes "bn_ok bn" "\<not> bn_neg bn" "n \<le> length inp"
  shows "decoded e bn (decode_hex e bn inp n) (hex_val (take n inp)) (n \<le> 16 * bn_max_words)"
  using decode_hex [OF assms(1,3), of e] assms(2) unfolding decoded_def by blast

section \<open>Reading text is correct\<close>

lemma scan_chars:
  assumes "\<forall>c\<in>set ds. want c" "\<not> want c" "i + length ds + neg \<le> INT_MAX"
  shows "scan_chars want neg i (ds @ c # rest) = Some (i + length ds)"
  using assms by (induction ds arbitrary: i) auto

text \<open>
  What a conversion leaves behind: nothing was read if the count is zero; otherwise it is the length of the
  text, and the number has the value of the text.
\<close>

definition reads :: "heap_env \<Rightarrow> bignum option \<Rightarrow> (nat \<times> bignum option option) option \<Rightarrow> nat \<Rightarrow> int \<Rightarrow> bool \<Rightarrow> bool" where
  "reads e held res k v room \<longleftrightarrow> (\<exists>m held'. res = Some (m, Some held') \<and>
     (m \<noteq> 0 \<longrightarrow> m = k \<and> (\<exists>r. held' = Some r \<and> bn_ok r \<and> bn_val r = v \<and> bn_signed r \<and> bn_minimal r)) \<and>
     (heap_generous e \<longrightarrow> (\<forall>r. held = Some r \<longrightarrow> bn_expandable r) \<longrightarrow> room \<longrightarrow> m \<noteq> 0))"

lemma BN_new_succeeds: "heap_generous e \<Longrightarrow> \<exists>b. BN_new e = Some b"
  by (cases "OPENSSL_malloc e 24") (auto simp: BN_new_def OPENSSL_malloc_def heap_generous_def size_add_def Let_def OPENSSL_MALLOC_PREFIX_def split: if_splits)

lemma bn_x2bn:
  assumes "\<forall>c\<in>set ds. want c" "\<not> want c" "length ds + of_bool neg \<le> INT_MAX" "want 0x2d = False" "want 0 = False"
    "neg \<or> ds \<noteq> []" "\<And>r. held = Some r \<Longrightarrow> bn_ok r"
    and dec: "\<And>ret. bn_ok ret \<Longrightarrow> \<not> bn_neg ret \<Longrightarrow> bn_abs ret = 0 \<Longrightarrow> bn_width ret = 0 \<Longrightarrow>
      decoded e ret (decode ret (ds @ c # rest) (length ds)) n room"
  shows "reads e held (bn_x2bn e (Some held) (Some ((if neg then [0x2d] else []) @ ds @ c # rest)) decode want)
    (length ds + of_bool neg) (if neg then - int n else int n) room"
    "bn_x2bn e None (Some ((if neg then [0x2d] else []) @ ds @ c # rest)) decode want = Some (length ds + of_bool neg, None)"
proof -
  let ?inp = "(if neg then [0x2d] else []) @ ds @ c # rest" and ?num = "length ds + of_bool neg"
  have sc: "scan_chars want (of_bool neg) 0 (ds @ c # rest) = Some (length ds)"
    using scan_chars [OF assms(1,2), of 0 "of_bool neg"] assms(3) by simp
  obtain b bs where inp: "?inp = b # bs" "b \<noteq> 0" "(if b = 0x2d then (1, bs) else (0 :: nat, b # bs)) = (of_bool neg, ds @ c # rest)"
  proof (cases neg)
    case True
    then show thesis using that by simp
  next
    case False
    then obtain d es where "ds = d # es" using assms(6) by (cases ds) auto
    moreover from this have "d \<noteq> 0" "d \<noteq> 0x2d" using assms(1,4,5) by auto
    ultimately show thesis using that [of d "es @ c # rest"] False by simp
  qed
  have run: "bn_x2bn e outp (Some ?inp) decode want =
    (case outp of
       None \<Rightarrow> Some (?num, None)
     | Some held \<Rightarrow>
         (case (case held of None \<Rightarrow> BN_new e | Some r \<Rightarrow> Some (BN_zero r)) of
            None \<Rightarrow> Some (0, Some held)
          | Some ret \<Rightarrow>
              (case decode ret (ds @ c # rest) (length ds) of
                 None \<Rightarrow> None
               | Some (ok, ret) \<Rightarrow>
                   if \<not> ok then Some (0, Some (case held of None \<Rightarrow> None | Some _ \<Rightarrow> Some ret))
                   else
                     (let ret = bn_set_minimal_width ret; ret = (if \<not> BN_is_zero ret then ret\<lparr>bn_neg := of_bool neg = (1 :: nat)\<rparr> else ret)
                      in Some (?num, Some (Some ret))))))" for outp
    unfolding inp(1) using inp(2) by (simp add: bn_x2bn_def inp(3) sc Let_def)
  show "bn_x2bn e None (Some ?inp) decode want = Some (?num, None)" unfolding run by simp
  show "reads e held (bn_x2bn e (Some held) (Some ?inp) decode want) ?num (if neg then - int n else int n) room"
  proof (cases "case held of None \<Rightarrow> BN_new e | Some r \<Rightarrow> Some (BN_zero r)")
    case None
    then have "held = None" "\<not> heap_generous e" using BN_new_succeeds [of e] by (auto split: option.splits)
    then show ?thesis unfolding run using None by (simp add: reads_def)
  next
    case (Some ret)
    have ret: "bn_ok ret \<and> \<not> bn_neg ret \<and> bn_abs ret = 0 \<and> bn_width ret = 0 \<and>
        ((\<forall>r. held = Some r \<longrightarrow> bn_expandable r) \<longrightarrow> bn_expandable ret)"
    proof (cases held)
      case None
      then show ?thesis using Some BN_new_ok [of e ret] by (auto simp: BN_new_def BN_init_def split: option.splits)
    next
      case (Some r)
      then have "ret = BN_zero r" using \<open>(case held of None \<Rightarrow> BN_new e | Some r \<Rightarrow> Some (BN_zero r)) = Some ret\<close> by simp
      then show ?thesis using assms(7) [OF Some] Some by (auto simp: BN_zero_def bn_ok_def bn_abs_def bn_expandable_def)
    qed
    have "decoded e ret (decode ret (ds @ c # rest) (length ds)) n room"
      by (rule dec) (use ret in simp_all)
    then obtain ok r where D: "decode ret (ds @ c # rest) (length ds) = Some (ok, r)" "bn_ok r" "ok \<longrightarrow> \<not> bn_neg r \<and> bn_abs r = n"
        "heap_generous e \<longrightarrow> bn_expandable ret \<longrightarrow> room \<longrightarrow> ok"
      unfolding decoded_def by blast
    show ?thesis
    proof (cases ok)
      case False
      then have "\<not> (heap_generous e \<and> (\<forall>r. held = Some r \<longrightarrow> bn_expandable r) \<and> room)" using D(4) ret by blast
      then show ?thesis unfolding run using Some D(1) False by (auto simp: reads_def)
    next
      case True
      define r1 where "r1 = bn_set_minimal_width r"
      define r2 where "r2 = (if \<not> BN_is_zero r1 then r1\<lparr>bn_neg := neg\<rparr> else r1)"
      note M = bn_set_minimal_width [OF D(2), folded r1_def]
      have z: "BN_is_zero r1 \<longleftrightarrow> n = 0" using BN_is_zero [OF M(1)] M(2) D(3) True by simp
      have r2: "bn_ok r2" "bn_signed r2" "bn_minimal r2" "bn_val r2 = (if neg then - int n else int n)"
        using M z D(3) True by (auto simp: r2_def bn_ok_def bn_signed_def bn_minimal_def bn_abs_def bn_val_def)
      have "bn_x2bn e (Some held) (Some ?inp) decode want = Some (?num, Some (Some r2))"
        unfolding run using Some D(1) True by (simp add: r1_def [symmetric] r2_def Let_def)
      moreover have "?num \<noteq> 0" using assms(6) by auto
      ultimately show ?thesis using r2 by (auto simp: reads_def)
    qed
  qed
qed

lemma BN_hex2bn:
  assumes "\<forall>c\<in>set ds. isxdigit c" "\<not> isxdigit c" "length ds + of_bool neg \<le> INT_MAX" "neg \<or> ds \<noteq> []"
    "\<And>r. held = Some r \<Longrightarrow> bn_ok r"
  shows "reads e held (BN_hex2bn e (Some held) (Some ((if neg then [0x2d] else []) @ ds @ c # rest)))
    (length ds + of_bool neg) (if neg then - int (hex_val ds) else int (hex_val ds)) (length ds \<le> 16 * bn_max_words)"
  unfolding BN_hex2bn_def
  by (rule bn_x2bn(1) [OF assms(1-3) _ _ assms(4,5)])
    (use decode_hex_decoded [of _ "length ds" "ds @ c # rest"] in \<open>simp_all add: isxdigit_def isdigit_def\<close>)

lemma BN_dec2bn:
  assumes "\<forall>c\<in>set ds. isdigit c" "\<not> isdigit c" "length ds + of_bool neg \<le> INT_MAX" "neg \<or> ds \<noteq> []"
    "\<And>r. held = Some r \<Longrightarrow> bn_ok r"
  shows "reads e held (BN_dec2bn e (Some held) (Some ((if neg then [0x2d] else []) @ ds @ c # rest)))
    (length ds + of_bool neg) (if neg then - int (dec_val ds) else int (dec_val ds)) (2 * ((length ds + 18) div 19) \<le> bn_max_words)"
  unfolding BN_dec2bn_def
proof (rule bn_x2bn(1) [OF assms(1-3) _ _ assms(4,5)])
  show "decoded e ret (decode_dec e ret (ds @ c # rest) (length ds)) (dec_val ds) (2 * ((length ds + 18) div 19) \<le> bn_max_words)"
    if "bn_ok ret" "\<not> bn_neg ret" "bn_abs ret = 0" "bn_width ret = 0" for ret
    using decode_dec [OF that, of "length ds" "ds @ c # rest"] assms(1) by simp
qed (simp_all add: isdigit_def)

section \<open>Writing hexadecimal is correct\<close>

definition hex_pair :: "u8 \<Rightarrow> bytes" where
  "hex_pair b = [hextable ! (unat b div 16), hextable ! (unat b mod 16)]"

text \<open>The text of a natural number: two characters for each byte, and one for zero.\<close>

definition hex_text :: "nat \<Rightarrow> bytes" where
  "hex_text n = (if n = 0 then [0x30] else concat (map hex_pair (min_bytes n)))"

definition text_sign :: "bool \<Rightarrow> bytes" where
  "text_sign neg = (if neg then [0x2d] else [])"

lemma put_chars:
  "p + length t \<le> length buf \<Longrightarrow> fold put_char t (buf, p) = (blit buf p t, p + length t)"
proof (induction t rule: rev_induct)
  case (snoc c t)
  have "(blit buf p t)[p + length t := c] = blit buf p (t @ [c])"
    using snoc.prems by (simp add: blit_def list_update_append Cons_nth_drop_Suc [symmetric])
  then show ?case using snoc by (simp add: put_char_def)
qed simp

lemma hex_byte: "hex_byte l (8 * j) (out, z) =
    (let b = ucast (drop_bit (8 * j) l) in if z \<or> b \<noteq> 0 then (fold put_char (hex_pair b) out, True) else (out, z))"
proof -
  have "drop_bit (8 * j) l AND 0xff = take_bit 8 (drop_bit (8 * j) l)" by (simp add: take_bit_eq_mask mask_numeral)
  then have v: "unat (drop_bit (8 * j) l AND 0xff) = unat (ucast (drop_bit (8 * j) l) :: u8)"
    by (simp add: unat_ucast unat_mod_distrib take_bit_eq_mod)
  have "(ucast (drop_bit (8 * j) l) :: u8) \<noteq> 0 \<longleftrightarrow> unat (ucast (drop_bit (8 * j) l) :: u8) \<noteq> 0" by (simp add: unat_eq_0)
  then show ?thesis by (simp add: hex_byte_def v Let_def hex_pair_def)
qed

lemma hex_limb: "hex_limb l = fold (\<lambda>b (out, z). if z \<or> b \<noteq> 0 then (fold put_char (hex_pair b) out, True) else (out, z)) (rev (bytes_of_limb l))"
proof (rule ext)
  fix st
  have js: "[56, 48, 40, 32, 24, 16, 8, 0] = map (\<lambda>j. 8 * j) (rev [0..<8 :: nat])" by (simp add: upt_rec)
  have "hex_byte l \<circ> (\<lambda>j. 8 * j) = (\<lambda>b (out, z). if z \<or> b \<noteq> 0 then (fold put_char (hex_pair b) out, True) else (out, z)) \<circ> (\<lambda>j. ucast (drop_bit (8 * j) l))"
    by (rule ext, rule ext) (simp add: hex_byte Let_def split: prod.split)
  then show "hex_limb l st = fold (\<lambda>b (out, z). if z \<or> b \<noteq> 0 then (fold put_char (hex_pair b) out, True) else (out, z)) (rev (bytes_of_limb l)) st"
    by (simp only: hex_limb_def js fold_map bytes_of_limb_def rev_map)
qed

lemma hex_bytes:
  "fold (\<lambda>b (out, z). if z \<or> b \<noteq> 0 then (fold put_char (hex_pair b) out, True) else (out, z)) bs (out, z) =
    (fold put_char (concat (map hex_pair (if z then bs else dropWhile (\<lambda>b. b = 0) bs))) out, z \<or> (\<exists>b\<in>set bs. b \<noteq> 0))"
  by (induction bs arbitrary: out z) auto

lemma drop_zeros: "dropWhile (\<lambda>b. b = 0) bs = min_bytes (be_val bs)"
proof (induction bs)
  case (Cons b bs)
  show ?case
  proof (cases "b = 0")
    case True
    then show ?thesis using Cons by (simp add: be_val_def)
  next
    case False
    then show ?thesis using min_bytes_be_val [of "b # bs"] by simp
  qed
qed (simp add: be_val_def)

lemma hex_limbs:
  assumes "w \<le> length d"
  shows "fst (fold (\<lambda>i. hex_limb (d ! i)) (rev [0..<w]) (out, False)) = fold put_char (concat (map hex_pair (min_bytes (wval (take w d))))) out"
proof -
  let ?f = "\<lambda>b (out, z). if z \<or> b \<noteq> 0 then (fold put_char (hex_pair b) out, True) else (out, z)"
  have "fold (\<lambda>i. hex_limb (d ! i)) (rev [0..<w]) st = fold ?f (rev (bytes_of_limbs (take w d))) st" for st
    using assms
  proof (induction w arbitrary: st)
    case (Suc w)
    have "rev (bytes_of_limbs (take (Suc w) d)) = rev (bytes_of_limb (d ! w)) @ rev (bytes_of_limbs (take w d))"
      using Suc.prems by (simp add: take_Suc_conv_app_nth bytes_of_limbs_def)
    then show ?case using Suc by (simp add: hex_limb)
  qed (simp add: bytes_of_limbs_def)
  moreover have "dropWhile (\<lambda>b. b = 0) (rev (bytes_of_limbs (take w d))) = min_bytes (wval (take w d))"
    using bytes_of_limbs(2) [of "take w d"] by (simp add: drop_zeros le_val_def)
  ultimately show ?thesis by (simp add: hex_bytes)
qed

lemma hextable: "x < 16 \<Longrightarrow> isxdigit (hextable ! x) \<and> hextable ! x \<noteq> 0 \<and> unat (hex_value (hextable ! x)) = x"
proof -
  assume "x < 16"
  then have "x \<in> set [0..<16]" by simp
  moreover have "\<forall>x\<in>set [0..<16]. isxdigit (hextable ! x) \<and> hextable ! x \<noteq> 0 \<and> unat (hex_value (hextable ! x)) = x"
    by (simp add: upt_rec hextable_def isxdigit_def isdigit_def hex_value_def)
  ultimately show ?thesis by blast
qed

lemma hex_pair: "\<forall>c\<in>set (hex_pair b). isxdigit c \<and> c \<noteq> 0" "hex_val (hex_pair b) = unat b" "length (hex_pair b) = 2"
  using hextable [of "unat b div 16"] hextable [of "unat b mod 16"] unat_u8_lt [of b]
  by (simp_all add: hex_pair_def hex_val_simps)

lemma hex_pairs: "\<forall>c\<in>set (concat (map hex_pair bs)). isxdigit c \<and> c \<noteq> 0" "hex_val (concat (map hex_pair bs)) = be_val bs"
  "length (concat (map hex_pair bs)) = 2 * length bs"
proof -
  show "\<forall>c\<in>set (concat (map hex_pair bs)). isxdigit c \<and> c \<noteq> 0" using hex_pair(1) by simp
  show "length (concat (map hex_pair bs)) = 2 * length bs" by (induction bs) (simp_all add: hex_pair(3))
  show "hex_val (concat (map hex_pair bs)) = be_val bs"
  proof (induction bs rule: rev_induct)
    case (snoc b bs)
    then show ?case by (simp add: hex_val_append hex_pair be_val_def)
  qed (simp add: hex_val_simps be_val_def)
qed

lemma hex_text: "\<forall>c\<in>set (hex_text n). isxdigit c \<and> c \<noteq> 0" "hex_val (hex_text n) = n" "hex_text n \<noteq> []"
  "n < 256 ^ k \<Longrightarrow> length (hex_text n) \<le> max 1 (2 * k)"
proof -
  note P = hex_pairs [of "min_bytes n"]
  show "\<forall>c\<in>set (hex_text n). isxdigit c \<and> c \<noteq> 0" using P(1) by (simp add: hex_text_def isxdigit_def isdigit_def)
  show "hex_val (hex_text n) = n" using P(2) by (simp add: hex_text_def hex_val_simps hex_value_def be_val_min_bytes)
  show "hex_text n \<noteq> []" 
  proof
    assume "hex_text n = []"
    then have "n \<noteq> 0" "length (concat (map hex_pair (min_bytes n))) = 0" by (simp_all add: hex_text_def split: if_splits)
    then show False unfolding P(3) using min_bytes_nonempty [of n] by simp
  qed
  show "n < 256 ^ k \<Longrightarrow> length (hex_text n) \<le> max 1 (2 * k)" using P(3) length_min_bytes [of n k] by (auto simp: hex_text_def)
qed

text \<open>A string that has been written from the start of a buffer.\<close>

lemma written_string:
  assumes "length t < length buf" "0 \<notin> set t"
  shows "cstr (blit buf 0 (t @ [0])) = t" "strlen (blit buf 0 (t @ [0])) < length (blit buf 0 (t @ [0]))"
proof -
  have b: "blit buf 0 (t @ [0]) = t @ 0 # drop (length t + 1) buf" by (simp add: blit_def)
  show c: "cstr (blit buf 0 (t @ [0])) = t" unfolding b by (rule cstr_terminated [OF assms(2)])
  show "strlen (blit buf 0 (t @ [0])) < length (blit buf 0 (t @ [0]))" unfolding strlen_def c using assms(1) by simp
qed

lemma BN_bn2hex:
  assumes "bn_ok bn"
  shows "BN_bn2hex e bn = Some s \<Longrightarrow> cstr s = text_sign (bn_neg bn) @ hex_text (bn_abs bn) \<and> strlen s < length s"
    "heap_generous e \<Longrightarrow> \<exists>s. BN_bn2hex e bn = Some s"
proof -
  define w where "w = bn_minimal_width bn"
  define t where "t = text_sign (bn_neg bn) @ hex_text (bn_abs bn)"
  note W = bn_minimal_width [OF assms, folded w_def]
  have wm: "w \<le> bn_max_words" using W(1) bn_okD(2,4) [OF assms] by simp
  then have small: "w * BN_BYTES * 2 + 11 < 2 ^ 62" by (simp add: bn_max_words BN_BYTES_def)
  have "bn_abs bn < radix ^ w" using wval_lt [of "take w (bn_d bn)"] W(1,3) bn_okD(3) [OF assms] by simp
  then have "bn_abs bn < 256 ^ (8 * w)" by (simp add: radix_bytes power_mult)
  then have len: "length t < 1 + 1 + w * BN_BYTES * 2 + 1"
    using hex_text(4) [of "bn_abs bn" "8 * w"] by (auto simp: t_def text_sign_def BN_BYTES_def)
  have nz: "0 \<notin> set t" using hex_text(1) [of "bn_abs bn"] by (auto simp: t_def text_sign_def)
  have run: "BN_bn2hex e bn = map_option (\<lambda>buf. fst (fold put_char (t @ [0]) (buf, 0))) (OPENSSL_malloc e (1 + 1 + w * BN_BYTES * 2 + 1))"
  proof -
    have h: "case_prod (\<lambda>p (z :: bool). Some (fst (put_char 0 p))) (fold (\<lambda>i. hex_limb (bn_d bn ! i)) (rev [0..<w]) (p, False)) =
        Some (fst (put_char 0 (fold put_char (concat (map hex_pair (min_bytes (bn_abs bn)))) p)))" for p
      using hex_limbs [of w "bn_d bn" p] W(1,3) bn_okD(3) [OF assms] by (simp add: case_prod_beta)
    show ?thesis
      unfolding BN_bn2hex_def w_def [symmetric] Let_def h
      by (auto simp: t_def text_sign_def hex_text_def BN_is_zero [OF assms] split: option.split)
  qed
  show "\<exists>s. BN_bn2hex e bn = Some s" if "heap_generous e"
    using generous_malloc [OF that, of "1 + 1 + w * BN_BYTES * 2 + 1"] small by (auto simp: run)
  show "cstr s = text_sign (bn_neg bn) @ hex_text (bn_abs bn) \<and> strlen s < length s" if s: "BN_bn2hex e bn = Some s"
  proof -
    obtain buf where b: "OPENSSL_malloc e (1 + 1 + w * BN_BYTES * 2 + 1) = Some buf" "s = fst (fold put_char (t @ [0]) (buf, 0))"
      using s by (auto simp: run)
    have l: "length buf = 1 + 1 + w * BN_BYTES * 2 + 1" using OPENSSL_malloc_length [OF b(1)] small by simp
    then have "s = blit buf 0 (t @ [0])" using b(2) len put_chars [of 0 "t @ [0]" buf] by simp
    then show ?thesis using written_string [of t buf] nz len l by (simp add: t_def)
  qed
qed

section \<open>Writing decimal is correct\<close>

text \<open>The digits of a number, lowest first, and those that one word contributes.\<close>

fun dec_le :: "nat \<Rightarrow> bytes" where
  "dec_le n = (if n = 0 then [] else of_nat (0x30 + n mod 10) # dec_le (n div 10))"

declare dec_le.simps [simp del]

fun dec_chunk :: "bool \<Rightarrow> nat \<Rightarrow> nat \<Rightarrow> bytes" where
  "dec_chunk zeros 0 n = []"
| "dec_chunk zeros (Suc k) n = (if zeros \<or> n \<noteq> 0 then of_nat (0x30 + n mod 10) # dec_chunk zeros k (n div 10) else [])"

lemma dec_le_simps: "dec_le 0 = []" "0 < n \<Longrightarrow> dec_le n = of_nat (0x30 + n mod 10) # dec_le (n div 10)"
  by (simp_all add: dec_le.simps [of 0] dec_le.simps [of n])

lemma decimal_dec_le: "0 < n \<Longrightarrow> decimal n = rev (dec_le n)"
proof (induction n rule: less_induct)
  case (less n)
  show ?case
  proof (cases "n < 10")
    case True
    then show ?thesis using less.prems by (simp add: decimal.simps [of n] dec_le_simps)
  next
    case False
    then show ?thesis using less.IH [of "n div 10"] less.prems by (simp add: decimal.simps [of n] dec_le_simps(2) [of n])
  qed
qed

lemma dec_chunk_last: "n < 10 ^ k \<Longrightarrow> dec_chunk False k n = dec_le n"
proof (induction k arbitrary: n)
  case (Suc k)
  then show ?case using Suc.IH [of "n div 10"] by (cases "n = 0") (simp_all add: dec_le_simps)
qed (simp add: dec_le_simps)

lemma dec_chunk_more: "0 < q \<Longrightarrow> r < 10 ^ k \<Longrightarrow> dec_chunk True k r @ dec_le q = dec_le (q * 10 ^ k + r)"
proof (induction k arbitrary: r)
  case (Suc k)
  define m where "m = q * 10 ^ Suc k + r"
  have "r div 10 < 10 ^ k" using Suc.prems by simp
  then have "dec_chunk True k (r div 10) @ dec_le q = dec_le (q * 10 ^ k + r div 10)" by (rule Suc.IH [OF Suc.prems(1)])
  moreover have "m = 10 * (q * 10 ^ k) + r" by (simp add: m_def)
  then have "m div 10 = q * 10 ^ k + r div 10" "m mod 10 = r mod 10" by simp_all
  moreover have "0 < m" using Suc.prems(1) by (simp add: m_def)
  ultimately show ?case using dec_le_simps(2) [of m] by (simp add: m_def)
qed simp

lemma decimal_value: "dec_val (decimal n) = n" "\<forall>c\<in>set (decimal n). isdigit c"
proof -
  have d: "isdigit (of_nat (48 + k)) \<and> unat (of_nat (48 + k) :: u8) - 48 = k" if "k < 10" for k
  proof -
    have "unat (of_nat (48 + k) :: u8) = 48 + k" using that unat_of_nat [of "48 + k", where ?'a = 8] by (simp only: take_bit_eq_mod) simp
    then show ?thesis using that by (simp add: isdigit_def word_le_nat_alt)
  qed
  have "dec_val (decimal n) = n \<and> (\<forall>c\<in>set (decimal n). isdigit c)"
  proof (induction n rule: less_induct)
    case (less n)
    show ?case
    proof (cases "n < 10")
      case True
      then show ?thesis using d [of n] by (simp add: decimal.simps [of n] dec_val_simps)
    next
      case False
      then have IH: "dec_val (decimal (n div 10)) = n div 10 \<and> (\<forall>c\<in>set (decimal (n div 10)). isdigit c)" by (intro less.IH) simp
      have "decimal n = decimal (n div 10) @ [of_nat (48 + n mod 10)]" using False by (simp add: decimal_step)
      then show ?thesis using IH d [of "n mod 10"] by (simp add: dec_val_append dec_val_simps)
    qed
  qed
  then show "dec_val (decimal n) = n" "\<forall>c\<in>set (decimal n). isdigit c" by blast+
qed

lemma weak_dec_digits:
  assumes "heap_ok e"
  shows "cbb_app_weak e 0 (\<lambda>s. add_dec_digits e s zeros k word) (dec_chunk zeros k (unat word))"
proof (induction k arbitrary: word)
  case 0
  then show ?case by (simp add: cbb_app_weak_nothing)
next
  case (Suc k)
  show ?case
  proof (cases "zeros \<or> word \<noteq> 0")
    case True
    have "(ucast (0x30 + word mod 10) :: u8) = of_nat (0x30 + unat word mod 10)"
    proof -
      have u: "unat (0x30 + word mod 10) = 0x30 + unat word mod 10" by (simp add: unat_word_ariths unat_mod_distrib)
      have c: "(ucast v :: u8) = of_nat (unat v)" for v :: limb by (simp only: of_nat_unat)
      show ?thesis unfolding c u ..
    qed
    with cbb_app_weak_seq [OF cbb_app_u8 [OF assms, of 0 "ucast (0x30 + word mod 10)"] Suc.IH [of "word div 10"]] True
    show ?thesis by (auto simp: and_then_def unat_div_distrib unat_eq_0)
  next
    case False
    then show ?thesis by (simp add: cbb_app_weak_nothing)
  qed
qed

text \<open>One division by \<open>10 ^ 19\<close>: an error is told apart from every remainder, and the number gets smaller.\<close>

lemma next_chunk:
  assumes "bn_ok c" "bn_signed c" "bn_abs c \<noteq> 0"
  obtains word c' where "BN_div_word e c BN_DEC_CONV = (word, c')" "bn_ok c'"
    "word \<noteq> - 1 \<Longrightarrow> unat word = bn_abs c mod 10 ^ 19 \<and> bn_abs c' = bn_abs c div 10 ^ 19 \<and> bn_abs c' < bn_abs c \<and>
      bn_signed c' \<and> bn_width c' \<le> bn_width c \<and> bn_flags c' = bn_flags c"
    "heap_generous e \<Longrightarrow> bn_expandable c \<Longrightarrow> bn_width c < bn_max_words \<Longrightarrow> word \<noteq> - 1"
proof -
  have "BN_DEC_CONV \<noteq> 0" by (simp add: BN_DEC_CONV_def)
  then obtain word c' ok where D: "BN_div_word e c BN_DEC_CONV = (word, c')" "bn_ok c'" "bn_flags c' = bn_flags c"
      "if ok then divided c BN_DEC_CONV word c' else word = - 1"
      "heap_generous e \<longrightarrow> bn_expandable c \<longrightarrow> bn_width c < bn_max_words \<longrightarrow> ok"
    using BN_div_word_any [OF assms(1,2), of BN_DEC_CONV e] by blast
  have "word \<noteq> - 1 \<and> unat word = bn_abs c mod 10 ^ 19 \<and> bn_abs c' = bn_abs c div 10 ^ 19 \<and> bn_abs c' < bn_abs c \<and>
      bn_signed c' \<and> bn_width c' \<le> bn_width c" if ok
  proof -
    have v: "unat word = bn_abs c mod 10 ^ 19" "bn_abs c' = bn_abs c div 10 ^ 19" "bn_signed c'" "bn_minimal c'"
      using D(4) that by (simp_all add: divided_def BN_DEC_CONV)
    then have "unat word < 10 ^ 19" by simp
    then have "word \<noteq> - 1" by (auto simp: unsigned_minus_1_eq_mask mask_eq_exp_minus_1)
    moreover have l: "bn_abs c' < bn_abs c" using v(2) assms(3) by simp
    moreover have "bn_width c' \<le> bn_width c" by (rule minimal_width_le [OF D(2) v(4) assms(1) l])
    ultimately show ?thesis using v by blast
  qed
  with D that show thesis by (metis (full_types))
qed

lemma bn2dec_loop:
  assumes "heap_ok e" "bn_ok c" "bn_signed c"
  shows "\<exists>ok s'. bn2dec_loop e s c = Some (ok, s') \<and>
    (ok \<longrightarrow> (\<forall>xs. cbb_at 0 s xs \<longrightarrow> cbb_at 0 s' (xs @ dec_le (bn_abs c)))) \<and>
    (\<forall>n xs. heap_generous e \<longrightarrow> bn_expandable c \<longrightarrow> bn_width c < bn_max_words \<longrightarrow> cbb_ready n 0 s xs \<longrightarrow>
      n + 8 * length (dec_le (bn_abs c)) \<le> 2 ^ 60 \<longrightarrow> ok \<and> cbb_ready (n + length (dec_le (bn_abs c))) 0 s' (xs @ dec_le (bn_abs c)))"
  using assms(2,3)
proof (induction "bn_abs c" arbitrary: c s rule: less_induct)
  case less
  show ?case
  proof (cases "bn_abs c = 0")
    case True
    then have "bn2dec_loop e s c = Some (True, s)" by (simp add: bn2dec_loop.simps [of e s c] BN_is_zero [OF less.prems(1)])
    then show ?thesis using True by (intro exI [of _ True] exI [of _ s]) (simp add: dec_le_simps)
  next
    case False
    obtain word c' where D: "BN_div_word e c BN_DEC_CONV = (word, c')" "bn_ok c'"
      "word \<noteq> - 1 \<Longrightarrow> unat word = bn_abs c mod 10 ^ 19 \<and> bn_abs c' = bn_abs c div 10 ^ 19 \<and> bn_abs c' < bn_abs c \<and>
        bn_signed c' \<and> bn_width c' \<le> bn_width c \<and> bn_flags c' = bn_flags c"
      "heap_generous e \<Longrightarrow> bn_expandable c \<Longrightarrow> bn_width c < bn_max_words \<Longrightarrow> word \<noteq> - 1"
      using next_chunk [OF less.prems False, of e] by blast
    show ?thesis
    proof (cases "word = - 1")
      case True
      then have "bn2dec_loop e s c = Some (False, s)"
        using D(1) False by (simp add: bn2dec_loop.simps [of e s c] BN_is_zero [OF less.prems(1)])
      then show ?thesis using True D(4) by auto
    next
      case ok: False
      define ds where "ds = dec_chunk (bn_abs c' \<noteq> 0) 19 (unat word)"
      have w: "cbb_app_weak e 0 (\<lambda>s. add_dec_digits e s (bn_abs c' \<noteq> 0) 19 word) ds" unfolding ds_def by (rule weak_dec_digits [OF assms(1)])
      have digits: "ds @ dec_le (bn_abs c') = dec_le (bn_abs c)"
      proof (cases "bn_abs c' = 0")
        case True
        then have "bn_abs c < 10 ^ 19" using D(3) ok by (metis div_eq_0_iff power_not_zero zero_neq_numeral)
        then show ?thesis using True D(3) ok dec_chunk_last [of "bn_abs c" 19] by (simp add: ds_def dec_le_simps)
      next
        case False
        have "bn_abs c' * 10 ^ 19 + unat word = bn_abs c" using D(3) ok by (metis div_mult_mod_eq)
        moreover have "unat word < 10 ^ 19" using D(3) ok by simp
        ultimately show ?thesis using dec_chunk_more [of "bn_abs c'" "unat word" 19] False by (simp add: ds_def)
      qed
      obtain r s1 where a: "add_dec_digits e s (bn_abs c' \<noteq> 0) 19 word = (r, s1)" by fastforce
      show ?thesis
      proof (cases r)
        case False
        then have "bn2dec_loop e s c = Some (False, s1)"
          using D(1) \<open>bn_abs c \<noteq> 0\<close> ok a by (simp add: bn2dec_loop.simps [of e s c] BN_is_zero [OF less.prems(1)] BN_is_zero [OF D(2)] BN_DEC_NUM_def)
        moreover have "\<not> (heap_generous e \<and> cbb_ready n 0 s xs \<and> n + 8 * length (dec_le (bn_abs c)) \<le> 2 ^ 60)" for n xs
        proof
          assume g: "heap_generous e \<and> cbb_ready n 0 s xs \<and> n + 8 * length (dec_le (bn_abs c)) \<le> 2 ^ 60"
          then have "n + 8 * length ds \<le> 2 ^ 60" unfolding digits [symmetric] by simp
          from cbb_app_weak_ready [OF w _ _ this, of s xs] g a False show False by auto
        qed
        ultimately show ?thesis by blast
      next
        case True
        then have step: "bn2dec_loop e s c = bn2dec_loop e s1 c'"
          using D(1) \<open>bn_abs c \<noteq> 0\<close> ok a by (simp add: bn2dec_loop.simps [of e s c] BN_is_zero [OF less.prems(1)] BN_is_zero [OF D(2)] BN_DEC_NUM_def)
        have c': "bn_abs c' < bn_abs c" "bn_signed c'" "bn_width c' \<le> bn_width c" "bn_flags c' = bn_flags c" using D(3) ok by blast+
        obtain ok2 s' where IH: "bn2dec_loop e s1 c' = Some (ok2, s')"
            "ok2 \<longrightarrow> (\<forall>xs. cbb_at 0 s1 xs \<longrightarrow> cbb_at 0 s' (xs @ dec_le (bn_abs c')))"
            "\<forall>n xs. heap_generous e \<longrightarrow> bn_expandable c' \<longrightarrow> bn_width c' < bn_max_words \<longrightarrow> cbb_ready n 0 s1 xs \<longrightarrow>
              n + 8 * length (dec_le (bn_abs c')) \<le> 2 ^ 60 \<longrightarrow> ok2 \<and> cbb_ready (n + length (dec_le (bn_abs c'))) 0 s' (xs @ dec_le (bn_abs c'))"
          using less.hyps [OF c'(1) D(2) c'(2), of s1] by blast
        have at: "cbb_at 0 s' (xs @ dec_le (bn_abs c))" if "cbb_at 0 s xs" ok2 for xs
        proof -
          have "cbb_at 0 s1 (xs @ ds)" using cbb_app_weak_at [OF w that(1) a] True by simp
          then have "cbb_at 0 s' ((xs @ ds) @ dec_le (bn_abs c'))" using IH(2) that(2) by blast
          then show ?thesis by (simp add: digits)
        qed
        have ready: "ok2 \<and> cbb_ready (n + length (dec_le (bn_abs c))) 0 s' (xs @ dec_le (bn_abs c))"
          if g: "heap_generous e" "bn_expandable c" "bn_width c < bn_max_words" "cbb_ready n 0 s xs"
            "n + 8 * length (dec_le (bn_abs c)) \<le> 2 ^ 60" for n xs
        proof -
          have l: "n + 8 * length ds \<le> 2 ^ 60" "n + length ds + 8 * length (dec_le (bn_abs c')) \<le> 2 ^ 60"
            using g(5) unfolding digits [symmetric] by simp_all
          have "cbb_ready (n + length ds) 0 s1 (xs @ ds)" using cbb_app_weak_ready [OF w g(1,4) l(1)] a by auto
          moreover have "bn_expandable c'" "bn_width c' < bn_max_words" using g(2,3) c'(3,4) by (simp_all add: bn_expandable_def)
          ultimately have "ok2 \<and> cbb_ready (n + length ds + length (dec_le (bn_abs c'))) 0 s' ((xs @ ds) @ dec_le (bn_abs c'))"
            using IH(3) g(1) l(2) by blast
          then show ?thesis unfolding digits [symmetric] by (simp add: add.assoc)
        qed
        show ?thesis unfolding step IH(1) using at ready by blast
      qed
    qed
  qed
qed

text \<open>A copy is as wide as the number and can grow.\<close>

lemma BN_dup_copy:
  assumes "bn_ok a"
  shows "BN_dup e (Some a) = Some b \<Longrightarrow> bn_width b = bn_width a \<and> bn_neg b = bn_neg a \<and> bn_expandable b"
    "heap_generous e \<Longrightarrow> \<exists>b. BN_dup e (Some a) = Some b"
proof -
  show "bn_width b = bn_width a \<and> bn_neg b = bn_neg a \<and> bn_expandable b" if d: "BN_dup e (Some a) = Some b"
  proof -
    obtain b0 where b0: "BN_new e = Some b0" "BN_copy e b0 a = (True, b)"
      using d by (auto simp: BN_dup_def split: option.splits prod.splits if_splits)
    show ?thesis using BN_copy [OF b0(2) _ assms] BN_new_ok [OF b0(1)] by (simp add: bn_expandable_def)
  qed
  show "\<exists>b. BN_dup e (Some a) = Some b" if g: "heap_generous e"
  proof -
    obtain b0 where b0: "BN_new e = Some b0" using BN_new_succeeds [OF g] by blast
    have "fst (BN_copy e b0 a)" using BN_copy_succeeds [OF g _ assms] BN_new_ok [OF b0] by simp
    then show ?thesis using b0 by (cases "BN_copy e b0 a") (simp add: BN_dup_def)
  qed
qed

definition built :: "heap_env \<Rightarrow> bool \<Rightarrow> bool \<times> cbb \<Rightarrow> bytes \<Rightarrow> bool" where
  "built e room r xs \<longleftrightarrow> (fst r \<longrightarrow> cbb_at 0 (snd r) xs) \<and> (heap_generous e \<longrightarrow> room \<longrightarrow> fst r \<and> cbb_ready (length xs) 0 (snd r) xs)"

lemma built_init: "heap_ok e \<Longrightarrow> built e room (CBB_init e 16) []"
  using CBB_init_at [of e 16] CBB_init_ready [of e 16] by (cases "CBB_init e 16") (auto simp: built_def)

lemma built_then:
  assumes "built e room r xs" "cbb_app_weak e 0 f ys" "length xs + 8 * length ys \<le> 2 ^ 60"
  shows "built e room (and_then r f) (xs @ ys)"
proof (cases r)
  case r: (Pair ok s)
  show ?thesis
  proof (cases ok)
    case False
    then show ?thesis using assms(1) r by (simp add: built_def and_then_def)
  next
    case True
    obtain ok2 s2 where f: "f s = (ok2, s2)" by fastforce
    have "cbb_at 0 s2 (xs @ ys)" if ok2 using cbb_app_weak_at [OF assms(2) _ f] assms(1) r True that by (simp add: built_def)
    moreover have "ok2 \<and> cbb_ready (length (xs @ ys)) 0 s2 (xs @ ys)" if "heap_generous e" room
    proof -
      have "cbb_ready (length xs) 0 s xs" using assms(1) r that by (simp add: built_def)
      from cbb_app_weak_ready [OF assms(2) that(1) this assms(3)] f show ?thesis by auto
    qed
    ultimately show ?thesis using r True f by (simp add: built_def and_then_def)
  qed
qed

lemma decimal_length:
  assumes "bn_ok a"
  shows "length (decimal (bn_abs a)) \<le> 20 * bn_width a + 1" "length (decimal (bn_abs a)) < 2 ^ 30"
proof -
  have "bn_abs a < radix ^ bn_width a" using wval_lt [of "take (bn_width a) (bn_d a)"] bn_okD(3) [OF assms] by (simp add: bn_abs_def)
  also have "\<dots> \<le> (10 ^ 20) ^ bn_width a" by (intro power_mono) (simp_all add: radix_def)
  also have "\<dots> = 10 ^ (20 * bn_width a)" by (simp only: power_mult)
  also have "\<dots> \<le> 10 ^ (20 * bn_width a + 1)" by (intro power_increasing) simp_all
  finally show l: "length (decimal (bn_abs a)) \<le> 20 * bn_width a + 1" by (intro length_decimal) simp_all
  have "bn_width a \<le> 8388607" using bn_okD(2,4) [OF assms] by (simp add: bn_max_words)
  then show "length (decimal (bn_abs a)) < 2 ^ 30" using l by simp
qed

lemma BN_bn2dec:
  assumes "heap_ok e" "bn_ok a"
  shows "\<exists>res. BN_bn2dec e a = Some res \<and>
    (\<forall>s. res = Some s \<longrightarrow> cstr s = text_sign (bn_neg a) @ decimal (bn_abs a) \<and> strlen s < length s) \<and>
    (heap_generous e \<longrightarrow> bn_width a < bn_max_words \<longrightarrow> res \<noteq> None)"
proof -
  define room where "room \<longleftrightarrow> bn_width a < bn_max_words"
  define t where "t = text_sign (bn_neg a) @ decimal (bn_abs a)"
  note l = decimal_length(2) [OF assms(2)]
  have u8: "cbb_app_weak e 0 (\<lambda>s. CBB_add_u8 e 0 s v) [v]" for v by (rule cbb_app_imp_weak [OF cbb_app_u8 [OF assms(1)]])
  have r0: "built e room (and_then (CBB_init e 16) (\<lambda>s. CBB_add_u8 e 0 s 0)) [0]"
    using built_then [OF built_init [OF assms(1)] u8] by simp
  obtain ok s where s: "and_then (CBB_init e 16) (\<lambda>s. CBB_add_u8 e 0 s 0) = (ok, s)" by fastforce
  show ?thesis
  proof (cases ok)
    case False
    then show ?thesis using s r0 by (simp add: BN_bn2dec_def built_def room_def)
  next
    case True
    define body where "body = (if BN_is_zero a then Some (CBB_add_u8 e 0 s 0x30)
      else (case BN_dup e (Some a) of None \<Rightarrow> Some (False, s) | Some copy \<Rightarrow> bn2dec_loop e s copy))"
    have s0: "built e room (True, s) [0]" using r0 s True by simp
    have "\<exists>r. body = Some r \<and> built e room r ([0] @ rev (decimal (bn_abs a)))"
    proof (cases "bn_abs a = 0")
      case z: True
      have "decimal 0 = [0x30]" by (simp add: decimal.simps [of 0])
      then show ?thesis using built_then [OF s0 u8 [of "0x30"]] BN_is_zero [OF assms(2)] z by (simp add: body_def and_then_def)
    next
      case False
      have le: "dec_le (bn_abs a) = rev (decimal (bn_abs a))" using decimal_dec_le [of "bn_abs a"] False by simp
      show ?thesis
      proof (cases "BN_dup e (Some a)")
        case None
        then show ?thesis using BN_is_zero [OF assms(2)] False BN_dup_copy(2) [OF assms(2), of e] by (auto simp: body_def built_def)
      next
        case (Some b)
        note C = BN_dup [OF Some assms(2)] BN_dup_copy(1) [OF assms(2) Some]
        have "bn_signed b" using C(3) False by (simp add: bn_signed_def)
        from bn2dec_loop [OF assms(1) C(1) this, of s] obtain ok2 s' where L: "bn2dec_loop e s b = Some (ok2, s')"
          "ok2 \<longrightarrow> (\<forall>xs. cbb_at 0 s xs \<longrightarrow> cbb_at 0 s' (xs @ dec_le (bn_abs b)))"
          "\<forall>n xs. heap_generous e \<longrightarrow> bn_expandable b \<longrightarrow> bn_width b < bn_max_words \<longrightarrow> cbb_ready n 0 s xs \<longrightarrow>
            n + 8 * length (dec_le (bn_abs b)) \<le> 2 ^ 60 \<longrightarrow> ok2 \<and> cbb_ready (n + length (dec_le (bn_abs b))) 0 s' (xs @ dec_le (bn_abs b))"
          by blast
        have "cbb_at 0 s [0]" using s0 by (simp add: built_def)
        then have "ok2 \<longrightarrow> cbb_at 0 s' ([0] @ dec_le (bn_abs b))" using L(2) by blast
        then have "ok2 \<longrightarrow> cbb_at 0 s' ([0] @ rev (decimal (bn_abs a)))" by (simp add: le C(3))
        moreover have "ok2 \<and> cbb_ready (length ([0] @ rev (decimal (bn_abs a)))) 0 s' ([0] @ rev (decimal (bn_abs a)))"
          if "heap_generous e" room
        proof -
          have "cbb_ready 1 0 s [0]" using s0 that by (simp add: built_def)
          moreover have "1 + 8 * length (dec_le (bn_abs b)) \<le> 2 ^ 60" using l le C(3) by simp
          moreover have "bn_expandable b" "bn_width b < bn_max_words" using C(4) that by (simp_all add: room_def)
          ultimately have "ok2 \<and> cbb_ready (1 + length (dec_le (bn_abs b))) 0 s' ([0] @ dec_le (bn_abs b))"
            using L(3) that(1) by blast
          then show ?thesis using le C(3) by simp
        qed
        ultimately have "built e room (ok2, s') ([0] @ rev (decimal (bn_abs a)))" by (simp add: built_def)
        then show ?thesis using L(1) Some BN_is_zero [OF assms(2)] False by (simp add: body_def)
      qed
    qed
    then obtain r where r: "body = Some r" "built e room r ([0] @ rev (decimal (bn_abs a)))" by blast
    define f where "f = (\<lambda>s. if bn_neg a then CBB_add_u8 e 0 s 0x2d else (True, s))"
    have f: "cbb_app_weak e 0 f (text_sign (bn_neg a))"
      using u8 [of "0x2d"] by (simp add: f_def text_sign_def cbb_app_weak_nothing)
    have B: "built e room (and_then r f) (([0] @ rev (decimal (bn_abs a))) @ text_sign (bn_neg a))"
      by (rule built_then [OF r(2) f]) (use l in \<open>simp add: text_sign_def\<close>)
    obtain ok2 s2 where f2: "and_then r f = (ok2, s2)" by fastforce
    have run: "BN_bn2dec e a = (if \<not> ok2 then Some None else (case CBB_finish e 0 s2 True True of
        (None, s) \<Rightarrow> Some None | (Some (data, len), s) \<Rightarrow> Some (Some (rev (take len data) @ drop len data))))"
      using s True r(1) f2 by (simp add: BN_bn2dec_def body_def [symmetric] f_def [symmetric])
    show ?thesis
    proof (cases ok2)
      case False
      then show ?thesis using B f2 by (auto simp: run built_def room_def)
    next
      case ok2: True
      have rv: "rev (([0] @ rev (decimal (bn_abs a))) @ text_sign (bn_neg a)) = t @ [0]" by (simp add: t_def text_sign_def)
      have at: "cbb_at 0 s2 (([0] @ rev (decimal (bn_abs a))) @ text_sign (bn_neg a))" using B f2 ok2 by (simp add: built_def)
      have nz: "0 \<notin> set t" using dots_nonzero(1) [of "bn_abs a"] by (auto simp: t_def text_sign_def)
      show ?thesis
      proof (cases "CBB_finish e 0 s2 True True")
        case F: (Pair res s3)
        show ?thesis
        proof (cases res)
          case None
          have "\<not> (heap_generous e \<and> room)"
          proof
            assume g: "heap_generous e \<and> room"
            then have "cbb_ready (length (([0] @ rev (decimal (bn_abs a))) @ text_sign (bn_neg a))) 0 s2 (([0] @ rev (decimal (bn_abs a))) @ text_sign (bn_neg a))"
              using B f2 by (simp add: built_def)
            moreover have "length (([0] @ rev (decimal (bn_abs a))) @ text_sign (bn_neg a)) \<le> 2 ^ 60" using l by (simp add: text_sign_def)
            ultimately show False using CBB_finish_ready [OF assms(1)] g F None by fastforce
          qed
          then show ?thesis using F None ok2 by (simp add: run room_def)
        next
          case (Some dl)
          obtain data len where dl: "dl = (data, len)" by fastforce
          have x: "take len data = ([0] @ rev (decimal (bn_abs a))) @ text_sign (bn_neg a)"
            using CBB_finish_at [OF assms(1) at] F Some dl by blast
          have "BN_bn2dec e a = Some (Some (t @ 0 # drop len data))" using ok2 F Some dl x rv by (simp add: run)
          moreover have "cstr (t @ 0 # drop len data) = t" by (rule cstr_terminated [OF nz])
          ultimately show ?thesis by (simp add: strlen_def t_def)
        qed
      qed
    qed
  qed
qed

section \<open>Either kind of text\<close>

definition reads_signed :: "heap_env \<Rightarrow> bignum option \<Rightarrow> (bool \<times> bignum option option) option \<Rightarrow> int \<Rightarrow> bool \<Rightarrow> bool" where
  "reads_signed e held res v room \<longleftrightarrow> (\<exists>ok held'. res = Some (ok, Some held') \<and>
     (ok \<longrightarrow> (\<exists>r. held' = Some r \<and> bn_ok r \<and> bn_val r = v \<and> bn_signed r \<and> bn_minimal r)) \<and>
     (heap_generous e \<longrightarrow> (\<forall>r. held = Some r \<longrightarrow> bn_expandable r) \<longrightarrow> room \<longrightarrow> ok))"

lemma reads_then_sign:
  assumes "reads e held res k (int n) room"
  shows "reads_signed e held (case res of None \<Rightarrow> None | Some (m, outp) \<Rightarrow>
      if m = 0 then Some (False, outp)
      else if neg then (case outp of Some (Some r) \<Rightarrow> Some (True, Some (Some (if \<not> BN_is_zero r then r\<lparr>bn_neg := True\<rparr> else r))) | _ \<Rightarrow> None)
      else Some (True, outp)) (if neg then - int n else int n) room"
proof -
  obtain m held' where res: "res = Some (m, Some held')"
    "m \<noteq> 0 \<longrightarrow> m = k \<and> (\<exists>r. held' = Some r \<and> bn_ok r \<and> bn_val r = int n \<and> bn_signed r \<and> bn_minimal r)"
    "heap_generous e \<longrightarrow> (\<forall>r. held = Some r \<longrightarrow> bn_expandable r) \<longrightarrow> room \<longrightarrow> m \<noteq> 0"
    using assms unfolding reads_def by blast
  show ?thesis
  proof (cases "m = 0")
    case True
    then show ?thesis using res(1,3) by (auto simp: reads_signed_def)
  next
    case False
    then obtain r where r: "held' = Some r" "bn_ok r" "bn_val r = int n" "bn_signed r" "bn_minimal r" using res(2) by blast
    have nn: "\<not> bn_neg r" "bn_abs r = n" using bn_nonneg [OF r(4)] r(3) by auto
    define r' where "r' = (if neg \<and> n \<noteq> 0 then r\<lparr>bn_neg := True\<rparr> else r)"
    have z: "BN_is_zero r \<longleftrightarrow> n = 0" using nn BN_is_zero [OF r(2)] by simp
    have "bn_ok r' \<and> bn_val r' = (if neg then - int n else int n) \<and> bn_signed r' \<and> bn_minimal r'"
    proof (cases "neg \<and> n \<noteq> 0")
      case True
      then have "bn_ok r'" "bn_abs r' = n" "bn_neg r'" "bn_minimal r'"
        using r(2,5) nn(2) by (simp_all add: r'_def bn_ok_def bn_abs_def bn_minimal_def)
      then show ?thesis using True by (simp add: bn_val_def bn_signed_def)
    next
      case False
      then show ?thesis using r nn by (auto simp: r'_def)
    qed
    moreover have "(case res of None \<Rightarrow> None | Some (m, outp) \<Rightarrow>
      if m = 0 then Some (False, outp)
      else if neg then (case outp of Some (Some r) \<Rightarrow> Some (True, Some (Some (if \<not> BN_is_zero r then r\<lparr>bn_neg := True\<rparr> else r))) | _ \<Rightarrow> None)
      else Some (True, outp)) = Some (True, Some (Some r'))"
      using False by (simp add: res(1) r(1) r'_def z)
    ultimately show ?thesis unfolding reads_signed_def by blast
  qed
qed

lemma decimal_head: "decimal n = d # ds \<Longrightarrow> isdigit d \<and> (d = 0x30 \<longrightarrow> ds = [])"
proof (induction n arbitrary: d ds rule: less_induct)
  case (less n)
  have dig: "isdigit d" using less.prems decimal_value(2) [of n] by simp
  show ?case
  proof (cases "n < 10")
    case True
    then show ?thesis using less.prems dig by (simp add: decimal.simps [of n])
  next
    case False
    then have eq: "decimal n = decimal (n div 10) @ [of_nat (0x30 + n mod 10)]" by (simp add: decimal_step)
    obtain d' ds' where d': "decimal (n div 10) = d' # ds'" by (cases "decimal (n div 10)") simp_all
    then have "d' = 0x30 \<longrightarrow> ds' = []" using less.IH [OF _ d'] False by simp
    moreover have "d' = d" using eq d' less.prems by simp
    moreover have "\<not> (d' = 0x30 \<and> ds' = [])"
    proof
      assume "d' = 0x30 \<and> ds' = []"
      then have "dec_val (decimal (n div 10)) = 0" using d' by (simp add: dec_val_simps)
      then show False using False by (simp add: decimal_value)
    qed
    ultimately show ?thesis using dig by blast
  qed
qed

lemma BN_asc2bn_decimal:
  assumes "length (decimal n) \<le> INT_MAX" "\<And>r. held = Some r \<Longrightarrow> bn_ok r"
  shows "reads_signed e held (BN_asc2bn e (Some held) (text_sign neg @ decimal n @ 0 # rest)) (if neg then - int n else int n)
    (2 * ((length (decimal n) + 18) div 19) \<le> bn_max_words)"
proof -
  let ?inp = "decimal n @ 0 # rest"
  obtain d ds where d: "decimal n = d # ds" by (cases "decimal n") simp_all
  note h = decimal_head [OF d]
  have c: "d \<noteq> 0x2d" using h digit_value(4) by blast
  have R: "reads e held (BN_dec2bn e (Some held) (Some ?inp)) (length (decimal n)) (int n) (2 * ((length (decimal n) + 18) div 19) \<le> bn_max_words)"
    using BN_dec2bn [of "decimal n" 0 False held e rest] decimal_value [of n] assms by (simp add: isdigit_def)
  have "?inp ! 0 = d" using d by simp
  moreover have "d = 0x30 \<longrightarrow> ?inp ! 1 = 0" using h d by simp
  ultimately have no: "\<not> (length ?inp \<ge> 2 \<and> ?inp ! 0 = 0x30 \<and> (?inp ! 1 = 0x58 \<or> ?inp ! 1 = 0x78))" by auto
  have tl: "(if text_sign neg @ ?inp \<noteq> [] \<and> hd (text_sign neg @ ?inp) = 0x2d then tl (text_sign neg @ ?inp) else text_sign neg @ ?inp) = ?inp"
    "text_sign neg @ ?inp \<noteq> [] \<and> hd (text_sign neg @ ?inp) = 0x2d \<longleftrightarrow> neg"
    using c d by (simp_all add: text_sign_def)
  show ?thesis unfolding BN_asc2bn_def Let_def tl(1) unfolding tl(2) if_not_P [OF no] by (rule reads_then_sign [OF R])
qed

lemma BN_asc2bn_hex:
  assumes "length (hex_text n) \<le> INT_MAX" "\<And>r. held = Some r \<Longrightarrow> bn_ok r" "x = 0x58 \<or> x = 0x78"
  shows "reads_signed e held (BN_asc2bn e (Some held) (text_sign neg @ 0x30 # x # hex_text n @ 0 # rest)) (if neg then - int n else int n)
    (length (hex_text n) \<le> 16 * bn_max_words)"
proof -
  let ?inp = "0x30 # x # hex_text n @ 0 # rest"
  have R: "reads e held (BN_hex2bn e (Some held) (Some (drop 2 ?inp))) (length (hex_text n)) (int n) (length (hex_text n) \<le> 16 * bn_max_words)"
    using BN_hex2bn [of "hex_text n" 0 False held e rest] hex_text [of n] assms by (simp add: isxdigit_def isdigit_def)
  have yes: "length ?inp \<ge> 2 \<and> ?inp ! 0 = 0x30 \<and> (?inp ! 1 = 0x58 \<or> ?inp ! 1 = 0x78)" using assms(3) by simp
  have tl: "(if text_sign neg @ ?inp \<noteq> [] \<and> hd (text_sign neg @ ?inp) = 0x2d then tl (text_sign neg @ ?inp) else text_sign neg @ ?inp) = ?inp"
    "text_sign neg @ ?inp \<noteq> [] \<and> hd (text_sign neg @ ?inp) = 0x2d \<longleftrightarrow> neg"
    by (simp_all add: text_sign_def)
  show ?thesis unfolding BN_asc2bn_def Let_def tl(1) unfolding tl(2) if_P [OF yes] by (rule reads_then_sign [OF R])
qed

section \<open>MPI octets are correct\<close>

text \<open>The length in four octets, then the magnitude with a free top bit that holds the sign.\<close>

definition mpi_body :: "bool \<Rightarrow> nat \<Rightarrow> bytes" where
  "mpi_body neg n = (if n = 0 then [] else let m = der_uint n in if neg then (hd m OR 0x80) # tl m else m)"

definition mpi :: "bool \<Rightarrow> nat \<Rightarrow> bytes" where
  "mpi neg n = be_bytes 4 (length (mpi_body neg n)) @ mpi_body neg n"

lemma be_bytes_4: "be_bytes 4 x = [of_nat (x div 2 ^ 24), of_nat (x div 2 ^ 16), of_nat (x div 2 ^ 8), of_nat x]"
proof -
  have "x div 2 ^ 16 = x div 256 div 256" "x div 2 ^ 24 = x div 256 div 256 div 256" "x div 2 ^ 8 = x div 256"
    by (simp_all flip: div_mult2_eq)
  moreover have "(4 :: nat) = Suc (Suc (Suc (Suc 0)))" by simp
  ultimately show ?thesis by (simp only: be_bytes.simps append_Nil append_Cons)
qed

lemma BN_bn2mpi:
  assumes "bn_ok bn"
  shows "BN_bn2mpi bn None = (length (mpi (bn_neg bn) (bn_abs bn)), None)"
    "length (mpi (bn_neg bn) (bn_abs bn)) \<le> length out \<Longrightarrow>
      BN_bn2mpi bn (Some out) = (length (mpi (bn_neg bn) (bn_abs bn)), Some (blit out 0 (mpi (bn_neg bn) (bn_abs bn))))"
proof -
  define n where "n = bn_abs bn"
  define k where "k = BN_num_bytes bn"
  define ext where "ext = (if k \<noteq> 0 \<and> BN_num_bits bn mod 8 = 0 then 1 else 0 :: nat)"
  define m where "m = min_bytes n"
  note N = num_bytes_min [OF assms, folded n_def k_def m_def]
  have lm: "length m = k" using N(1) by simp
  have k0: "k = 0 \<longleftrightarrow> n = 0" using lm min_bytes_nonempty [of n] by (cases "n = 0") (auto simp: m_def)
  have "k \<le> 8 * 8388607" using N(3) bn_okD(2,4) [OF assms] by (simp add: bn_max_words)
  then have kb: "k + ext < 2 ^ 32" by (simp add: ext_def)
  have sz: "size_add k ext = k + ext" "\<not> k + ext < k" "\<not> size_add 4 (k + ext) < k + ext" "k + ext AND 0xffffffff = k + ext"
  proof -
    show "size_add k ext = k + ext" "\<not> size_add 4 (k + ext) < k + ext" using kb by (simp_all add: size_add_def)
    have "(0xffffffff :: nat) = mask 32" by (simp add: mask_eq_exp_minus_1)
    then show "k + ext AND 0xffffffff = k + ext" using kb by (simp only: take_bit_eq_mask [symmetric] take_bit_nat_eq_self)
  qed simp
  have body: "mpi_body (bn_neg bn) n = (let b = replicate ext 0 @ m in if bn_neg bn \<and> k + ext > 0 then b[0 := b ! 0 OR 0x80] else b)"
  proof (cases "n = 0")
    case True
    then show ?thesis using k0 by (simp add: mpi_body_def ext_def m_def)
  next
    case False
    have "der_uint n = replicate ext 0 @ m"
      using der_uint_number [OF assms] False k0
      by (cases "BN_num_bits bn mod 8 = 0") (simp_all add: ext_def m_def n_def [symmetric])
    moreover obtain b bs where "replicate ext 0 @ m = b # bs" using False k0 lm by (metis append_is_Nil_conv list.exhaust list.size(3))
    ultimately show ?thesis using False k0 by (simp add: mpi_body_def Let_def)
  qed
  have len: "length (mpi (bn_neg bn) n) = 4 + (k + ext)" using lm by (simp add: mpi_def body Let_def)
  have bits7: "BN_num_bits bn AND 0x07 = BN_num_bits bn mod 8"
    using take_bit_eq_mask [of 3 "BN_num_bits bn"] by (simp add: take_bit_eq_mod mask_numeral)
  have k_def': "(BN_num_bits bn + 7) div 8 = k" by (simp add: k_def BN_num_bytes_def)
  have ext': "(if k \<noteq> 0 \<and> BN_num_bits bn mod 8 = 0 then 1 else 0) = ext" by (simp add: ext_def)
  show "BN_bn2mpi bn None = (length (mpi (bn_neg bn) (bn_abs bn)), None)"
    unfolding BN_bn2mpi_def Let_def k_def' bits7 ext' using sz len by (simp add: n_def)
  show "BN_bn2mpi bn (Some out) = (length (mpi (bn_neg bn) (bn_abs bn)), Some (blit out 0 (mpi (bn_neg bn) (bn_abs bn))))"
    if l: "length (mpi (bn_neg bn) (bn_abs bn)) \<le> length out"
  proof -
    define h where "h = be_bytes 4 (k + ext)"
    have lo: "4 + (k + ext) \<le> length out" using l len by (simp add: n_def)
    have h: "[of_nat ((k + ext) div 2 ^ 24), of_nat ((k + ext) div 2 ^ 16), of_nat ((k + ext) div 2 ^ 8), of_nat (k + ext)] = h"
      unfolding h_def by (rule be_bytes_4 [symmetric])
    have lh: "length h = 4" by (simp add: h_def)
    obtain p q where out: "out = p @ q" "length p = 4 + (k + ext)" using lo by (metis append_take_drop_id length_take min.absorb2)
    define o1 where "o1 = blit out 0 h"
    define o2 where "o2 = (if ext \<noteq> 0 then o1[4 := 0] else o1)"
    have e1: "blit o2 (4 + ext) m = h @ (replicate ext 0 @ m) @ q"
    proof (cases "ext = 0")
      case True
      then show ?thesis using out lh lm by (simp add: o2_def o1_def blit_def)
    next
      case False
      then have "ext = 1" by (simp add: ext_def split: if_splits)
      moreover from this obtain x xs where x: "drop 4 p = x # xs" using out(2) by (cases "drop 4 p") auto
      moreover have "length xs = k" using arg_cong [OF x, of length] out(2) \<open>ext = 1\<close> by simp
      ultimately show ?thesis using out lh lm by (simp add: o2_def o1_def blit_def list_update_append)
    qed
    have e2: "blit out 0 (mpi (bn_neg bn) n) = h @ mpi_body (bn_neg bn) n @ q"
      using out len lm by (simp add: mpi_def blit_def h_def body Let_def)
    have e3: "(h @ (replicate ext 0 @ m) @ q)[4 := (h @ (replicate ext 0 @ m) @ q) ! 4 OR 0x80] = h @ (replicate ext 0 @ m)[0 := (replicate ext 0 @ m) ! 0 OR 0x80] @ q"
      if g: "k + ext > 0"
    proof -
      obtain b bs where b: "replicate ext 0 @ m = b # bs" using g lm by (cases "replicate ext 0 @ m") auto
      show ?thesis unfolding b using lh by (simp add: list_update_append nth_append)
    qed
    show ?thesis
      unfolding BN_bn2mpi_def Let_def k_def' bits7 ext' sz(1) h BN_bn2bin [OF assms] n_def [symmetric] m_def [symmetric]
        o1_def [symmetric] option.case unfolding o2_def [symmetric] e1 e2
    proof (cases "bn_neg bn \<and> 0 < k + ext")
      case True
      then show "(if k + ext < k \<or> size_add 4 (k + ext) < k + ext \<or> k + ext AND 0xffffffff \<noteq> k + ext
        then (4, map_option (\<lambda>out. blit out 0 (replicate 4 0)) (Some out))
        else (k + ext + 4, Some (if bn_neg bn \<and> 0 < k + ext
          then (h @ (replicate ext 0 @ m) @ q)[4 := (h @ (replicate ext 0 @ m) @ q) ! 4 OR 0x80] else h @ (replicate ext 0 @ m) @ q))) =
        (length (mpi (bn_neg bn) n), Some (h @ mpi_body (bn_neg bn) n @ q))"
        unfolding e3 [OF conjunct2 [OF True]] body Let_def len using sz by simp
    next
      case False
      then show "(if k + ext < k \<or> size_add 4 (k + ext) < k + ext \<or> k + ext AND 0xffffffff \<noteq> k + ext
        then (4, map_option (\<lambda>out. blit out 0 (replicate 4 0)) (Some out))
        else (k + ext + 4, Some (if bn_neg bn \<and> 0 < k + ext
          then (h @ (replicate ext 0 @ m) @ q)[4 := (h @ (replicate ext 0 @ m) @ q) ! 4 OR 0x80] else h @ (replicate ext 0 @ m) @ q))) =
        (length (mpi (bn_neg bn) n), Some (h @ mpi_body (bn_neg bn) n @ q))"
        unfolding body Let_def len using sz by (simp only: if_False if_True) simp
    qed
  qed
qed

lemma top_bit: "unat b < 128 \<Longrightarrow> unat (b OR 0x80 :: u8) = unat b + 128"
proof -
  assume b: "unat b < 128"
  have "b AND 0x80 = 0" using b u8_high_bit by blast
  then have "b OR 0x80 = b + 0x80" by (rule disjunctive_add_eq_or [symmetric])
  then show ?thesis using b by (simp add: unat_word_ariths)
qed

lemma bit_len_top: "v < 2 ^ j \<Longrightarrow> bit_len (2 ^ j + v) = j + 1"
  by (rule bit_len_unique) simp_all

text \<open>The octets of a number are read back, with its sign.\<close>

lemma BN_mpi2bn:
  assumes "bn_ok r" "length (mpi_body neg n) < 2 ^ 32"
  shows "BN_mpi2bn e (mpi neg n @ rest) (length (mpi neg n)) (Some r) = Some r' \<Longrightarrow>
      bn_ok r' \<and> bn_val r' = (if neg then - int n else int n) \<and> bn_flags r' = bn_flags r"
    "heap_generous e \<Longrightarrow> bn_expandable r \<Longrightarrow> length (mpi_body neg n) \<le> 8 * bn_max_words \<Longrightarrow>
      \<exists>r'. BN_mpi2bn e (mpi neg n @ rest) (length (mpi neg n)) (Some r) = Some r'"
proof -
  define body where "body = mpi_body neg n"
  have mpi: "mpi neg n = be_bytes 4 (length body) @ body" by (simp add: mpi_def body_def)
  have head: "be_val (take 4 (mpi neg n @ rest)) = length body" "length (mpi neg n) = 4 + length body"
      "drop 4 (mpi neg n @ rest) = body @ rest"
    using assms(2) be_val_be_bytes [of 4 "length body"] by (simp_all add: mpi body_def)
  show "bn_ok r' \<and> bn_val r' = (if neg then - int n else int n) \<and> bn_flags r' = bn_flags r"
    if run: "BN_mpi2bn e (mpi neg n @ rest) (length (mpi neg n)) (Some r) = Some r'"
  proof (cases "n = 0")
    case True
    then have "r' = BN_zero r" using run by (simp add: BN_mpi2bn_def mpi mpi_def body_def mpi_body_def be_bytes_4 be_val_def)
    then show ?thesis using True assms(1) by (simp add: BN_zero_def bn_ok_def bn_val_def bn_abs_def)
  next
    case False
    obtain b bs where der: "der_uint n = b # bs" "unat b < 128" "be_val (b # bs) = n"
      using der_uint_is_ok [of n] der_uint_val [of n] by (cases "der_uint n") (auto simp: der_uint_ok_def)
    have body: "body = (if neg then b OR 0x80 else b) # bs" using der(1) False by (simp add: body_def mpi_body_def)
    obtain r1 where r1: "BN_bin2bn e body (Some r) = Some r1"
        "r' = (let out = r1\<lparr>bn_neg := (if neg then b OR 0x80 else b) AND 0x80 \<noteq> 0\<rparr>
               in if bn_neg out then snd (BN_clear_bit out (int (BN_num_bits out) - 1)) else out)"
      using run head body by (auto simp: BN_mpi2bn_def nth_append mpi Let_def split: option.splits)
    note B = bin2bn_into [OF r1(1) assms(1)]
    show ?thesis
    proof (cases neg)
      case False
      have "b AND 0x80 = 0" using der(2) u8_high_bit by blast
      then have "r' = r1\<lparr>bn_neg := False\<rparr>" using r1(2) False by simp
      then show ?thesis using B der(3) body False by (simp add: bn_ok_def bn_val_def bn_abs_def)
    next
      case True
      define j where "j = 8 * length bs + 7"
      define r2 where "r2 = r1\<lparr>bn_neg := True\<rparr>"
      have ub: "unat (b OR 0x80) = unat b + 128" by (rule top_bit [OF der(2)])
      then have "(b OR 0x80) AND 0x80 \<noteq> 0" using u8_high_bit [of "b OR 0x80"] by simp
      then have r': "r' = (if bn_neg r2 then snd (BN_clear_bit r2 (int (BN_num_bits r2) - 1)) else r2)"
        using r1(2) True by (simp add: r2_def Let_def)
      have p: "(2 :: nat) ^ j = 128 * 256 ^ length bs" by (simp add: j_def power_add power_mult)
      have "be_val body = 2 ^ j + n"
        using True body ub der(3) be_val_Cons [of b bs] be_val_Cons [of "b OR 0x80" bs] unfolding p by (simp add: algebra_simps)
      then have a2: "bn_ok r2" "bn_abs r2 = 2 ^ j + n" "bn_neg r2" "bn_flags r2 = bn_flags r"
        using B by (simp_all add: r2_def bn_ok_def bn_abs_def)
      have nj: "n < 2 ^ j"
      proof -
        have "n = unat b * 256 ^ length bs + be_val bs" using der(3) be_val_Cons [of b bs] by simp
        also have "\<dots> < (unat b + 1) * 256 ^ length bs" using be_val_less [of bs] by simp
        also have "\<dots> \<le> 128 * 256 ^ length bs" using der(2) by (intro mult_right_mono) simp_all
        finally show ?thesis by (simp only: p)
      qed
      have bits: "BN_num_bits r2 = j + 1" using BN_num_bits [OF a2(1)] bit_len_top [OF nj] a2(2) by simp
      obtain ok r3 where c: "BN_clear_bit r2 (int j) = (ok, r3)" by fastforce
      note K = BN_clear_bit [OF c a2(1)]
      have ok
      proof -
        have "2 ^ j \<le> bn_abs r2" using a2(2) by simp
        also have "\<dots> < radix ^ bn_width r2" using wval_lt [of "take (bn_width r2) (bn_d r2)"] bn_okD(3) [OF a2(1)] by (simp add: bn_abs_def)
        also have "\<dots> = 2 ^ (64 * bn_width r2)" by (simp only: radix_def power_mult)
        finally have "j < 64 * bn_width r2" using power_less_imp_less_exp [of "2 :: nat" j] by simp
        then show ?thesis using K(4) by simp
      qed
      moreover have "unset_bit j (2 ^ j + n) = n"
      proof -
        have b: "\<not> bit n j" using nj by (simp add: bit_iff_odd)
        then have "2 ^ j + n = 2 ^ j OR n" by (intro disjunctive_add_eq_or bit_eqI) (auto simp: bit_simps)
        then show ?thesis using b by (intro bit_eqI) (auto simp: bit_simps)
      qed
      ultimately have "bn_ok r3" "bn_abs r3 = n" "bn_neg r3" "bn_flags r3 = bn_flags r"
        using K a2 \<open>n \<noteq> 0\<close> by simp_all
      moreover have "r' = r3" using r' a2(3) bits c by simp
      ultimately show ?thesis using True by (simp add: bn_val_def)
    qed
  qed
  show "\<exists>r'. BN_mpi2bn e (mpi neg n @ rest) (length (mpi neg n)) (Some r) = Some r'"
    if g: "heap_generous e" "bn_expandable r" "length (mpi_body neg n) \<le> 8 * bn_max_words"
  proof -
    obtain r1 where "BN_bin2bn e body (Some r) = Some r1" using bin2bn_succeeds [OF g(1,2), of body] g(3) by (auto simp: body_def)
    then show ?thesis using head by (simp add: BN_mpi2bn_def Let_def)
  qed
qed

end
