(* ===== verification/Conversions.thy ===== *)
theory Conversions
  imports Numbers BN_Convert
begin

text \<open>
  Properties of the conversions of big numbers: to and from octets, hexadecimal and decimal text and MPI
  octets.
\<close>

section \<open>Strings\<close>

lemma string_split: "strlen s < length s \<Longrightarrow> \<exists>rest. s = cstr s @ 0 # rest"
proof (induction s)
  case (Cons c s)
  then show ?case by (cases "c = 0") (auto simp: strlen_def cstr_def)
qed (simp add: strlen_def cstr_def)

text \<open>A terminated string of a sign and digits is read to its end.\<close>

lemma signed_text:
  assumes "cstr s = text_sign neg @ ds" "strlen s < length s"
  shows "\<exists>rest. s = (if neg then [0x2d] else []) @ ds @ 0 # rest" "strlen s = length ds + of_bool neg"
proof -
  show "\<exists>rest. s = (if neg then [0x2d] else []) @ ds @ 0 # rest"
    using string_split [OF assms(2)] unfolding assms(1) by (auto simp: text_sign_def)
  show "strlen s = length ds + of_bool neg" by (simp add: strlen_def assms(1) text_sign_def)
qed

lemma read_decimal:
  assumes "cstr s = text_sign neg @ decimal n" "strlen s < length s" "strlen s \<le> INT_MAX" "\<forall>r. held = Some r \<longrightarrow> bn_ok r"
  shows "reads e held (BN_dec2bn e (Some held) (Some s)) (strlen s) (if neg then - int n else int n)
    (2 * ((length (decimal n) + 18) div 19) \<le> bn_max_words)"
proof -
  obtain rest where rest: "s = (if neg then [0x2d] else []) @ decimal n @ 0 # rest" using signed_text(1) [OF assms(1,2)] by blast
  have "\<not> isdigit 0" by (simp add: isdigit_def)
  from BN_dec2bn [OF decimal_value(2) this, of n neg held e rest] show ?thesis
    unfolding rest [symmetric] signed_text(2) [OF assms(1,2), symmetric] decimal_value(1) using assms(3,4) by simp
qed

lemma read_hex:
  assumes "cstr s = text_sign neg @ hex_text n" "strlen s < length s" "strlen s \<le> INT_MAX" "\<forall>r. held = Some r \<longrightarrow> bn_ok r"
  shows "reads e held (BN_hex2bn e (Some held) (Some s)) (strlen s) (if neg then - int n else int n)
    (length (hex_text n) \<le> 16 * bn_max_words)"
proof -
  obtain rest where rest: "s = (if neg then [0x2d] else []) @ hex_text n @ 0 # rest" using signed_text(1) [OF assms(1,2)] by blast
  have x: "\<not> isxdigit 0" "\<forall>c\<in>set (hex_text n). isxdigit c" using hex_text(1) by (simp_all add: isxdigit_def isdigit_def)
  from BN_hex2bn [OF x(2,1), of neg held e rest] show ?thesis
    unfolding rest [symmetric] signed_text(2) [OF assms(1,2), symmetric] hex_text(2) using assms(3,4) hex_text(3) by simp
qed

lemma hex_text_fits:
  assumes "bn_ok a"
  shows "length (hex_text (bn_abs a)) \<le> 16 * bn_max_words" "length (hex_text (bn_abs a)) + 1 \<le> INT_MAX"
proof -
  have "bn_abs a < radix ^ bn_width a" using wval_lt [of "take (bn_width a) (bn_d a)"] bn_okD(3) [OF assms] by (simp add: bn_abs_def)
  then have "length (hex_text (bn_abs a)) \<le> max 1 (2 * (8 * bn_width a))" by (intro hex_text(4)) (simp add: radix_bytes power_mult)
  then show "length (hex_text (bn_abs a)) \<le> 16 * bn_max_words" "length (hex_text (bn_abs a)) + 1 \<le> INT_MAX"
    using bn_okD(2,4) [OF assms] by (auto simp: bn_max_words INT_MAX_def)
qed

lemma bn_val_sign: "bn_val a = (if bn_neg a then - int (bn_abs a) else int (bn_abs a))"
  by (simp add: bn_val_def)

lemma text_is_read:
  assumes "reads e held res k v room" "heap_generous e" "\<forall>r. held = Some r \<longrightarrow> bn_expandable r" room
  shows "\<exists>r. res = Some (k, Some (Some r)) \<and> bn_ok r \<and> bn_val r = v \<and> bn_signed r \<and> bn_minimal r"
  using assms unfolding reads_def by blast

section \<open>Claims\<close>

text \<open>C37: the decimal text that \<open>BN_bn2dec\<close> prints is read back by \<open>BN_dec2bn\<close> as the same number, all of it, into a
  fresh number or over an old one; both succeed when memory is available, for numbers of up to
  \<open>2 ^ 21\<close> limbs.\<close>

theorem bn_dec_roundtrip:
  assumes "heap_ok e" "heap_generous e" "bn_ok a" "bn_width a \<le> 2 ^ 21" "\<forall>r. held = Some r \<longrightarrow> bn_ok r \<and> bn_expandable r"
  shows "\<exists>s r. BN_bn2dec e a = Some (Some s) \<and> BN_dec2bn e (Some held) (Some s) = Some (strlen s, Some (Some r)) \<and>
    bn_ok r \<and> bn_val r = bn_val a \<and> bn_signed r \<and> bn_minimal r"
proof -
  let ?ds = "decimal (bn_abs a)"
  obtain s where s: "BN_bn2dec e a = Some (Some s)" "cstr s = text_sign (bn_neg a) @ ?ds" "strlen s < length s"
    using BN_bn2dec [OF assms(1,3)] assms(2,4) by (auto simp: bn_max_words)
  note l = decimal_length [OF assms(3)]
  have "strlen s \<le> INT_MAX" using l(2) signed_text(2) [OF s(2,3)] by (simp add: INT_MAX_def)
  then have "reads e held (BN_dec2bn e (Some held) (Some s)) (strlen s) (bn_val a) (2 * ((length ?ds + 18) div 19) \<le> bn_max_words)"
    using read_decimal [OF s(2,3)] assms(5) by (simp add: bn_val_sign)
  moreover have "2 * ((length ?ds + 18) div 19) \<le> bn_max_words"
  proof -
    have "(length ?ds + 18) div 19 \<le> (20 * 2 ^ 21 + 19) div 19" using l(1) assms(4) by (intro div_le_mono) simp
    then show ?thesis by (simp add: bn_max_words)
  qed
  ultimately show ?thesis using text_is_read [OF _ assms(2)] assms(5) s(1) by blast
qed

theorem bn_dec_roundtrip_witness:
  "\<exists>s r. BN_bn2dec plain_heap (number [7, 3] True) = Some (Some s) \<and>
    BN_dec2bn plain_heap (Some None) (Some s) = Some (strlen s, Some (Some r)) \<and> bn_val r = - (3 * 2 ^ 64 + 7)"
proof -
  have "\<exists>s r. BN_bn2dec plain_heap (number [7, 3] True) = Some (Some s) \<and>
      BN_dec2bn plain_heap (Some None) (Some s) = Some (strlen s, Some (Some r)) \<and> bn_val r = bn_val (number [7, 3] True)"
    using bn_dec_roundtrip [of plain_heap "number [7, 3] True" None] by (auto simp: plain_heap number bn_max_words)
  then show ?thesis by (simp add: number radix_def)
qed

text \<open>The hexadecimal text of \<open>BN_bn2hex\<close>, two characters for each byte, stays inside its buffer and is read
  back by \<open>BN_hex2bn\<close> as the same number, whatever its width.\<close>

theorem bn_hex_roundtrip:
  assumes "heap_generous e" "bn_ok a" "\<forall>r. held = Some r \<longrightarrow> bn_ok r \<and> bn_expandable r"
  shows "\<exists>s r. BN_bn2hex e a = Some s \<and> cstr s = text_sign (bn_neg a) @ hex_text (bn_abs a) \<and> strlen s < length s \<and>
    BN_hex2bn e (Some held) (Some s) = Some (strlen s, Some (Some r)) \<and> bn_ok r \<and> bn_val r = bn_val a \<and> bn_signed r \<and> bn_minimal r"
proof -
  let ?ds = "hex_text (bn_abs a)"
  obtain s where s: "BN_bn2hex e a = Some s" "cstr s = text_sign (bn_neg a) @ ?ds" "strlen s < length s"
    using BN_bn2hex [OF assms(2), of e] assms(1) by blast
  note l = hex_text_fits [OF assms(2)]
  have "strlen s \<le> INT_MAX" using l(2) signed_text(2) [OF s(2,3)] by (simp split: split_of_bool)
  then have "reads e held (BN_hex2bn e (Some held) (Some s)) (strlen s) (bn_val a) (length ?ds \<le> 16 * bn_max_words)"
    using read_hex [OF s(2,3)] assms(3) by (simp add: bn_val_sign)
  then show ?thesis using text_is_read [OF _ assms(1)] assms(3) l(1) s by blast
qed

theorem bn_hex_roundtrip_witness:
  "\<exists>s r. BN_bn2hex plain_heap (number [7, 3] True) = Some s \<and>
    BN_hex2bn plain_heap (Some (Some BN_init)) (Some s) = Some (strlen s, Some (Some r)) \<and> bn_val r = - (3 * 2 ^ 64 + 7)"
proof -
  have "\<exists>s r. BN_bn2hex plain_heap (number [7, 3] True) = Some s \<and>
      BN_hex2bn plain_heap (Some (Some BN_init)) (Some s) = Some (strlen s, Some (Some r)) \<and> bn_val r = bn_val (number [7, 3] True)"
    using bn_hex_roundtrip [of plain_heap "number [7, 3] True" "Some BN_init"]
    by (auto simp: plain_heap number init_number bn_max_words)
  then show ?thesis by (simp add: number radix_def)
qed

text \<open>C38: the padded encodings of a number have exactly the requested length and fail exactly when the number does
  not fit; they and the shortest encoding are read back as the magnitude, in both byte orders.\<close>

theorem bn_bytes_roundtrip:
  assumes "heap_generous e" "bn_ok a" "bn_ok r" "bn_expandable r" "k \<le> 8 * bn_max_words"
  shows "(\<exists>r'. BN_bin2bn e (BN_bn2bin a) (Some r) = Some r' \<and> bn_ok r' \<and> bn_abs r' = bn_abs a) \<and>
    (if bn_abs a < 256 ^ k
     then \<exists>bs cs r' r''. BN_bn2bin_padded k a = Some bs \<and> length bs = k \<and> BN_bin2bn e bs (Some r) = Some r' \<and> bn_abs r' = bn_abs a \<and>
       BN_bn2le_padded k a = Some cs \<and> length cs = k \<and> BN_le2bn e cs (Some r) = Some r'' \<and> bn_abs r'' = bn_abs a
     else BN_bn2bin_padded k a = None \<and> BN_bn2le_padded k a = None)"
proof (rule conjI)
  have "length (min_bytes (bn_abs a)) \<le> 8 * bn_max_words"
    using num_bytes_min(1,3) [OF assms(2)] bn_okD(2,4) [OF assms(2)] by (simp add: bn_max_words)
  then obtain r' where "BN_bin2bn e (min_bytes (bn_abs a)) (Some r) = Some r'" using bin2bn_succeeds [OF assms(1,4)] by blast
  then show "\<exists>r'. BN_bin2bn e (BN_bn2bin a) (Some r) = Some r' \<and> bn_ok r' \<and> bn_abs r' = bn_abs a"
    using bin2bn_into [OF _ assms(3)] by (simp add: BN_bn2bin [OF assms(2)] be_val_min_bytes)
  show "if bn_abs a < 256 ^ k
     then \<exists>bs cs r' r''. BN_bn2bin_padded k a = Some bs \<and> length bs = k \<and> BN_bin2bn e bs (Some r) = Some r' \<and> bn_abs r' = bn_abs a \<and>
       BN_bn2le_padded k a = Some cs \<and> length cs = k \<and> BN_le2bn e cs (Some r) = Some r'' \<and> bn_abs r'' = bn_abs a
     else BN_bn2bin_padded k a = None \<and> BN_bn2le_padded k a = None"
  proof (cases "bn_abs a < 256 ^ k")
    case True
    let ?bs = "be_bytes k (bn_abs a)"
    have v: "be_val ?bs = bn_abs a" "le_val (rev ?bs) = bn_abs a" using True by (simp_all add: be_val_be_bytes le_val_def)
    obtain r' where r': "BN_bin2bn e ?bs (Some r) = Some r'" using bin2bn_succeeds [OF assms(1,4), of ?bs] assms(5) by auto
    obtain r'' where r'': "BN_le2bn e (rev ?bs) (Some r) = Some r''" using le2bn_succeeds [OF assms(1,4), of "rev ?bs"] assms(5) by auto
    show ?thesis
      using True r' r'' v bin2bn_into(2) [OF r' assms(3)] le2bn_into(2) [OF r'' assms(3)] by (simp add: BN_padded [OF assms(2)])
  qed (simp add: BN_padded [OF assms(2)])
qed

theorem bn_bytes_roundtrip_witness:
  "\<exists>bs r'. BN_bn2bin_padded 10 (number [7, 3] False) = Some bs \<and> BN_bin2bn plain_heap bs (Some BN_init) = Some r' \<and> bn_abs r' = 3 * 2 ^ 64 + 7"
proof -
  have v: "bn_abs (number [7, 3] False) = 3 * 2 ^ 64 + 7" by (simp add: number radix_def)
  have lt: "(3 * 2 ^ 64 + 7 :: nat) < 256 ^ 10" by simp
  have p: "heap_generous plain_heap" "bn_ok (number [7, 3] False)" "bn_ok BN_init" "bn_expandable BN_init" "(10 :: nat) \<le> 8 * bn_max_words"
    by (simp_all add: plain_heap number init_number bn_max_words)
  from conjunct2 [OF bn_bytes_roundtrip [OF p], unfolded v if_P [OF lt]] show ?thesis by blast
qed

text \<open>C39: the MPI octets of a number, with its sign in a free top bit, take as many octets as the length query says
  and are read back as the same signed number.\<close>

theorem bn_mpi_roundtrip:
  assumes "heap_generous e" "bn_ok a" "bn_width a < bn_max_words" "bn_ok r" "bn_expandable r" "fst (BN_bn2mpi a None) \<le> length out"
  shows "\<exists>out' r'. BN_bn2mpi a (Some out) = (fst (BN_bn2mpi a None), Some out') \<and> length out' = length out \<and>
    drop (fst (BN_bn2mpi a None)) out' = drop (fst (BN_bn2mpi a None)) out \<and>
    BN_mpi2bn e out' (fst (BN_bn2mpi a None)) (Some r) = Some r' \<and> bn_ok r' \<and> bn_val r' = bn_val a"
proof -
  let ?m = "mpi (bn_neg a) (bn_abs a)"
  note M = BN_bn2mpi [OF assms(2)]
  have l: "length ?m \<le> length out" using M(1) assms(6) by simp
  define rest where "rest = drop (length ?m) out"
  have w: "blit out 0 ?m = ?m @ rest" by (simp add: blit_def rest_def)
  have "length (mpi_body (bn_neg a) (bn_abs a)) \<le> 8 * bn_width a + 1"
    using num_bytes_min(1,3) [OF assms(2)] by (auto simp: mpi_body_def der_uint_def Let_def)
  then have b: "length (mpi_body (bn_neg a) (bn_abs a)) \<le> 8 * bn_max_words" "length (mpi_body (bn_neg a) (bn_abs a)) < 2 ^ 32"
    using assms(3) by (simp_all add: bn_max_words)
  obtain r' where r': "BN_mpi2bn e (?m @ rest) (length ?m) (Some r) = Some r'" using BN_mpi2bn(2) [OF assms(4) b(2) assms(1,5) b(1)] by blast
  have "bn_ok r' \<and> bn_val r' = bn_val a" using BN_mpi2bn(1) [OF assms(4) b(2) r'] by (simp add: bn_val_sign)
  then show ?thesis using M(1) M(2) [OF l] r' l unfolding w by (simp add: rest_def)
qed

theorem bn_mpi_roundtrip_witness:
  "\<exists>out' r'. BN_bn2mpi (number [200] True) (Some (replicate 9 1)) = (6, Some out') \<and> BN_mpi2bn plain_heap out' 6 (Some BN_init) = Some r' \<and>
    bn_val r' = - 200"
proof -
  have a: "bn_ok (number [200] True)" "bn_neg (number [200] True)" "bn_abs (number [200] True) = 200" by (simp_all add: number bn_max_words)
  have "length (mpi True 200) = 6" by (simp add: mpi_def mpi_body_def der_uint_def min_bytes.simps)
  then have f: "fst (BN_bn2mpi (number [200] True) None) = 6" using BN_bn2mpi(1) [OF a(1)] by (simp add: a(2,3))
  have v: "bn_val (number [200] True) = - 200" using a(2,3) by (simp add: bn_val_def)
  have p: "heap_generous plain_heap" "bn_width (number [200] True) < bn_max_words" "bn_ok BN_init" "bn_expandable BN_init"
      "fst (BN_bn2mpi (number [200] True) None) \<le> length (replicate 9 (1 :: u8))"
    using f by (simp_all add: plain_heap number init_number bn_max_words)
  from bn_mpi_roundtrip [OF p(1) a(1) p(2-5), unfolded f v] show ?thesis by blast
qed

end
