(* ===== verification/Modes.thy ===== *)
theory Modes
  imports Prelude
begin

text \<open>
  Block modes: \<open>crypto/fipsmodule/modes/cbc.c\<close>, \<open>ctr.c\<close>, \<open>cfb.c\<close> and \<open>ofb.c\<close>.  The block cipher is the callback
  \<open>block\<close> with its key, a function on blocks of sixteen bytes.  CBC may run in place or with input and
  output at a distance, so its model works on the memory, with the addresses of the input and the
  output as indices; \<open>ivec\<close> is an array of its own.  The stream modes take the input as a list and
  return the output; their state is the vector, the buffered key stream and the position \<open>num\<close> in it.
  The targets do not need aligned words (\<open>STRICT_ALIGNMENT\<close> is 0) and are little-endian.
\<close>

section \<open>Words in memory\<close>

definition load_word_le :: "bytes \<Rightarrow> nat \<Rightarrow> u64" where
  "load_word_le mem p = of_nat (be_val (rev (take 8 (drop p mem))))"

definition store_word_le :: "bytes \<Rightarrow> nat \<Rightarrow> u64 \<Rightarrow> bytes" where
  "store_word_le mem p v = blit mem p (map (\<lambda>j. ucast (drop_bit (8 * j) v)) [0..<8])"

definition GETU32 :: "bytes \<Rightarrow> nat \<Rightarrow> u32" where
  "GETU32 mem p = of_nat (be_val (take 4 (drop p mem)))"

definition PUTU32 :: "bytes \<Rightarrow> nat \<Rightarrow> u32 \<Rightarrow> bytes" where
  "PUTU32 mem p v = blit mem p (be_bytes 4 (unat v))"

section \<open>CBC\<close>

text \<open>The pointer \<open>iv\<close>: the array \<open>ivec\<close> or a block in memory.\<close>

datatype iv_ptr = Ivec | At nat

definition iv_byte :: "bytes \<Rightarrow> bytes \<Rightarrow> iv_ptr \<Rightarrow> nat \<Rightarrow> u8" where
  "iv_byte ivec mem iv n = (case iv of Ivec \<Rightarrow> ivec ! n | At p \<Rightarrow> mem ! (p + n))"

definition iv_word :: "bytes \<Rightarrow> bytes \<Rightarrow> iv_ptr \<Rightarrow> nat \<Rightarrow> u64" where
  "iv_word ivec mem iv n = (case iv of Ivec \<Rightarrow> load_word_le ivec n | At p \<Rightarrow> load_word_le mem (p + n))"

definition iv_block :: "bytes \<Rightarrow> bytes \<Rightarrow> iv_ptr \<Rightarrow> bytes" where
  "iv_block ivec mem iv = (case iv of Ivec \<Rightarrow> take 16 ivec | At p \<Rightarrow> take 16 (drop p mem))"

text \<open>\<open>(*block)(p, q, key)\<close>\<close>

definition call_block :: "(bytes \<Rightarrow> bytes) \<Rightarrow> nat \<Rightarrow> nat \<Rightarrow> bytes \<Rightarrow> bytes" where
  "call_block block p q mem = blit mem q (block (take 16 (drop p mem)))"

function cbc_encrypt_blocks :: "(bytes \<Rightarrow> bytes) \<Rightarrow> bytes \<Rightarrow> bytes \<Rightarrow> nat \<Rightarrow> nat \<Rightarrow> iv_ptr \<Rightarrow> nat \<Rightarrow> bytes \<times> nat \<times> nat \<times> iv_ptr \<times> nat" where
  "cbc_encrypt_blocks block ivec mem inp out iv len =
     (if len \<ge> 16 then
        (let mem = fold (\<lambda>n mem. store_word_le mem (out + n) (load_word_le mem (inp + n) XOR iv_word ivec mem iv n)) [0, 8] mem;
             mem = call_block block out out mem
         in cbc_encrypt_blocks block ivec mem (inp + 16) (out + 16) (At out) (len - 16))
      else (mem, inp, out, iv, len))"
  by pat_completeness auto
termination by (relation "measure (\<lambda>(block, ivec, mem, inp, out, iv, len). len)") auto

declare cbc_encrypt_blocks.simps [simp del]

function cbc_encrypt_tail :: "(bytes \<Rightarrow> bytes) \<Rightarrow> bytes \<Rightarrow> bytes \<Rightarrow> nat \<Rightarrow> nat \<Rightarrow> iv_ptr \<Rightarrow> nat \<Rightarrow> bytes \<times> iv_ptr" where
  "cbc_encrypt_tail block ivec mem inp out iv len =
     (if len > 0 then
        (let mem = fold (\<lambda>n mem. mem[out + n := mem ! (inp + n) XOR iv_byte ivec mem iv n]) [0..<min 16 len] mem;
             mem = fold (\<lambda>n mem. mem[out + n := iv_byte ivec mem iv n]) [min 16 len..<16] mem;
             mem = call_block block out out mem
         in if len \<le> 16 then (mem, At out) else cbc_encrypt_tail block ivec mem (inp + 16) (out + 16) (At out) (len - 16))
      else (mem, iv))"
  by pat_completeness auto
termination by (relation "measure (\<lambda>(block, ivec, mem, inp, out, iv, len). len)") auto

declare cbc_encrypt_tail.simps [simp del]

definition CRYPTO_cbc128_encrypt :: "(bytes \<Rightarrow> bytes) \<Rightarrow> bytes \<Rightarrow> nat \<Rightarrow> nat \<Rightarrow> nat \<Rightarrow> bytes \<Rightarrow> bytes \<times> bytes" where
  "CRYPTO_cbc128_encrypt block mem inp out len ivec =
     (let (mem, inp, out, iv, len) = cbc_encrypt_blocks block ivec mem inp out Ivec len;
          (mem, iv) = cbc_encrypt_tail block ivec mem inp out iv len
      in (mem, blit ivec 0 (iv_block ivec mem iv)))"

text \<open>Decryption straight into the output, with the previous block of the input as the vector.\<close>

function cbc_decrypt_direct :: "(bytes \<Rightarrow> bytes) \<Rightarrow> bytes \<Rightarrow> bytes \<Rightarrow> nat \<Rightarrow> nat \<Rightarrow> iv_ptr \<Rightarrow> nat \<Rightarrow> bytes \<times> nat \<times> nat \<times> iv_ptr \<times> nat" where
  "cbc_decrypt_direct block ivec mem inp out iv len =
     (if len \<ge> 16 then
        (let mem = call_block block inp out mem;
             mem = fold (\<lambda>n mem. store_word_le mem (out + n) (load_word_le mem (out + n) XOR iv_word ivec mem iv n)) [0, 8] mem
         in cbc_decrypt_direct block ivec mem (inp + 16) (out + 16) (At inp) (len - 16))
      else (mem, inp, out, iv, len))"
  by pat_completeness auto
termination by (relation "measure (\<lambda>(block, ivec, mem, inp, out, iv, len). len)") auto

declare cbc_decrypt_direct.simps [simp del]

text \<open>Decryption through a temporary block; the vector is moved on word by word.\<close>

function cbc_decrypt_tmp :: "(bytes \<Rightarrow> bytes) \<Rightarrow> bytes \<Rightarrow> bytes \<Rightarrow> nat \<Rightarrow> nat \<Rightarrow> nat \<Rightarrow> bytes \<times> bytes \<times> nat \<times> nat \<times> nat" where
  "cbc_decrypt_tmp block ivec mem inp out len =
     (if len \<ge> 16 then
        (let tmp = block (take 16 (drop inp mem));
             (mem, ivec) = fold (\<lambda>n (mem, ivec). let c = load_word_le mem (inp + n)
                 in (store_word_le mem (out + n) (load_word_le tmp n XOR load_word_le ivec n), store_word_le ivec n c)) [0, 8] (mem, ivec)
         in cbc_decrypt_tmp block ivec mem (inp + 16) (out + 16) (len - 16))
      else (mem, ivec, inp, out, len))"
  by pat_completeness auto
termination by (relation "measure (\<lambda>(block, ivec, mem, inp, out, len). len)") auto

declare cbc_decrypt_tmp.simps [simp del]

function cbc_decrypt_tail :: "(bytes \<Rightarrow> bytes) \<Rightarrow> bytes \<Rightarrow> bytes \<Rightarrow> nat \<Rightarrow> nat \<Rightarrow> nat \<Rightarrow> bytes \<times> bytes" where
  "cbc_decrypt_tail block ivec mem inp out len =
     (if len > 0 then
        (let tmp = block (take 16 (drop inp mem));
             (mem, ivec) = fold (\<lambda>n (mem, ivec). let c = mem ! (inp + n)
                 in (mem[out + n := tmp ! n XOR ivec ! n], ivec[n := c])) [0..<min 16 len] (mem, ivec)
         in if len \<le> 16 then (mem, fold (\<lambda>n ivec. ivec[n := mem ! (inp + n)]) [min 16 len..<16] ivec)
            else cbc_decrypt_tail block ivec mem (inp + 16) (out + 16) (len - 16))
      else (mem, ivec))"
  by pat_completeness auto
termination by (relation "measure (\<lambda>(block, ivec, mem, inp, out, len). len)") auto

declare cbc_decrypt_tail.simps [simp del]

definition CRYPTO_cbc128_decrypt :: "(bytes \<Rightarrow> bytes) \<Rightarrow> bytes \<Rightarrow> nat \<Rightarrow> nat \<Rightarrow> nat \<Rightarrow> bytes \<Rightarrow> bytes \<times> bytes" where
  "CRYPTO_cbc128_decrypt block mem inp out len ivec =
     (let (mem, ivec, inp, out, len) =
        (if inp \<ge> 32 \<and> out \<le> inp - 32 \<or> inp < out then
           (let (mem, inp, out, iv, len) = cbc_decrypt_direct block ivec mem inp out Ivec len
            in (mem, blit ivec 0 (iv_block ivec mem iv), inp, out, len))
         else cbc_decrypt_tmp block ivec mem inp out len)
      in cbc_decrypt_tail block ivec mem inp out len)"

section \<open>Counter mode\<close>

text \<open>The carry runs from the last of \<open>k\<close> bytes to the first.\<close>

definition inc_bytes :: "nat \<Rightarrow> bytes \<Rightarrow> bytes" where
  "inc_bytes k counter =
     fst (fold (\<lambda>n (counter, c :: u32). let c = c + ucast (counter ! n) in (counter[n := ucast c], drop_bit 8 c)) (rev [0..<k]) (counter, 1))"

definition ctr128_inc :: "bytes \<Rightarrow> bytes" where
  "ctr128_inc counter = inc_bytes 16 counter"

definition ctr96_inc :: "bytes \<Rightarrow> bytes" where
  "ctr96_inc counter = inc_bytes 12 counter"

text \<open>The words of a block of the input with those of the key stream.\<close>

definition xor_words :: "bytes \<Rightarrow> bytes \<Rightarrow> nat \<Rightarrow> bytes" where
  "xor_words a b n = fold (\<lambda>n out. store_word_le out n (load_word_le a n XOR load_word_le b n)) [m \<leftarrow> [n, n + 8]. m < 16] (replicate 16 0)"

text \<open>The rest of the key stream: output, input that is left, position.\<close>

fun use_rest :: "bytes \<Rightarrow> nat \<Rightarrow> bytes \<Rightarrow> bytes \<times> bytes \<times> nat" where
  "use_rest ecount_buf n [] = ([], [], n)"
| "use_rest ecount_buf n (x # inp) =
     (if n \<noteq> 0 then (case use_rest ecount_buf ((n + 1) mod 16) inp of (out, inp, n') \<Rightarrow> ((x XOR ecount_buf ! n) # out, inp, n'))
      else ([], x # inp, n))"

function ctr_blocks :: "(bytes \<Rightarrow> bytes) \<Rightarrow> bytes \<Rightarrow> bytes \<times> bytes \<times> nat \<Rightarrow> bytes \<times> bytes \<times> bytes \<times> bytes \<times> nat" where
  "ctr_blocks block inp (ivec, ecount_buf, n) =
     (if length inp \<ge> 16 then
        (let ecount_buf = block ivec; ivec = ctr128_inc ivec;
             o1 = xor_words inp ecount_buf 0;
             (out, rest) = ctr_blocks block (drop 16 inp) (ivec, ecount_buf, 0)
         in (o1 @ out, rest))
      else ([], inp, ivec, ecount_buf, n))"
  by pat_completeness auto
termination by (relation "measure (\<lambda>(block, inp, st). length inp)") auto

declare ctr_blocks.simps [simp del]

definition CRYPTO_ctr128_encrypt :: "(bytes \<Rightarrow> bytes) \<Rightarrow> bytes \<Rightarrow> bytes \<times> bytes \<times> nat \<Rightarrow> bytes \<times> bytes \<times> bytes \<times> nat" where
  "CRYPTO_ctr128_encrypt block inp = (\<lambda>(ivec, ecount_buf, num).
     let (o1, inp, n) = use_rest ecount_buf num inp;
         (o2, inp, ivec, ecount_buf, n) = ctr_blocks block inp (ivec, ecount_buf, n)
     in if inp \<noteq> [] then
          (let ecount_buf = block ivec; ivec = ctr128_inc ivec;
               o3 = map (\<lambda>k. inp ! k XOR ecount_buf ! k) [n..<n + length inp]
           in (o1 @ o2 @ o3, ivec, ecount_buf, n + length inp))
        else (o1 @ o2, ivec, ecount_buf, n))"

text \<open>
  The variant for a function that handles many blocks but counts in 32 bits: \<open>func\<close> gets the input,
  the number of blocks and the vector.
\<close>

function ctr32_blocks :: "(bytes \<Rightarrow> nat \<Rightarrow> bytes \<Rightarrow> bytes) \<Rightarrow> bytes \<Rightarrow> bytes \<Rightarrow> u32 \<Rightarrow> bytes \<times> bytes \<times> bytes \<times> u32" where
  "ctr32_blocks func inp ivec ctr32 =
     (if length inp \<ge> 16 then
        (let blocks = length inp div 16;
             blocks = (if blocks > 2 ^ 28 then 2 ^ 28 else blocks);
             ctr32 = ctr32 + of_nat blocks;
             (blocks, ctr32) = (if unat ctr32 < blocks then (blocks - unat ctr32, 0) else (blocks, ctr32));
             o1 = func (take (16 * blocks) inp) blocks ivec;
             ivec = PUTU32 ivec 12 ctr32;
             ivec = (if ctr32 = 0 then ctr96_inc ivec else ivec);
             (out, rest) = ctr32_blocks func (drop (16 * blocks) inp) ivec ctr32
         in (o1 @ out, rest))
      else ([], inp, ivec, ctr32))"
  by pat_completeness auto
termination by (relation "measure (\<lambda>(func, inp, ivec, ctr32). length inp)") (auto simp: Let_def split: if_splits)

declare ctr32_blocks.simps [simp del]

definition CRYPTO_ctr128_encrypt_ctr32 :: "(bytes \<Rightarrow> nat \<Rightarrow> bytes \<Rightarrow> bytes) \<Rightarrow> bytes \<Rightarrow> bytes \<times> bytes \<times> nat \<Rightarrow> bytes \<times> bytes \<times> bytes \<times> nat" where
  "CRYPTO_ctr128_encrypt_ctr32 func inp = (\<lambda>(ivec, ecount_buf, num).
     let (o1, inp, n) = use_rest ecount_buf num inp;
         (o2, inp, ivec, ctr32) = ctr32_blocks func inp ivec (GETU32 ivec 12)
     in if inp \<noteq> [] then
          (let ecount_buf = func (replicate 16 0) 1 ivec; ctr32 = ctr32 + 1;
               ivec = PUTU32 ivec 12 ctr32;
               ivec = (if ctr32 = 0 then ctr96_inc ivec else ivec);
               o3 = map (\<lambda>k. inp ! k XOR ecount_buf ! k) [n..<n + length inp]
           in (o1 @ o2 @ o3, ivec, ecount_buf, n + length inp))
        else (o1 @ o2, ivec, ecount_buf, n))"

section \<open>Cipher feedback and output feedback\<close>

text \<open>In cipher feedback the vector takes up the cipher text, which is the output of an encryption and the input otherwise.\<close>

fun cfb_rest :: "bool \<Rightarrow> bytes \<Rightarrow> nat \<Rightarrow> bytes \<Rightarrow> bytes \<times> bytes \<times> bytes \<times> nat" where
  "cfb_rest enc ivec n [] = ([], [], ivec, n)"
| "cfb_rest enc ivec n (x # inp) =
     (if n \<noteq> 0 then
        (let b = ivec ! n XOR x; (out, rest) = cfb_rest enc (ivec[n := if enc then b else x]) ((n + 1) mod 16) inp in (b # out, rest))
      else ([], x # inp, ivec, n))"

definition cfb_words :: "bool \<Rightarrow> bytes \<Rightarrow> nat \<Rightarrow> bytes \<Rightarrow> bytes \<times> bytes" where
  "cfb_words enc inp n ivec =
     fold (\<lambda>n (ivec, out).
         if enc then (let tmp = load_word_le ivec n XOR load_word_le inp n in (store_word_le ivec n tmp, store_word_le out n tmp))
         else (let t = load_word_le inp n in (store_word_le ivec n t, store_word_le out n (load_word_le ivec n XOR t))))
       [m \<leftarrow> [n, n + 8]. m < 16] (ivec, replicate 16 0)"

function cfb_blocks :: "(bytes \<Rightarrow> bytes) \<Rightarrow> bool \<Rightarrow> bytes \<Rightarrow> bytes \<times> nat \<Rightarrow> bytes \<times> bytes \<times> bytes \<times> nat" where
  "cfb_blocks block enc inp (ivec, n) =
     (if length inp \<ge> 16 then
        (let (ivec, o1) = cfb_words enc inp n (block ivec);
             (out, rest) = cfb_blocks block enc (drop 16 inp) (ivec, 0)
         in (o1 @ out, rest))
      else ([], inp, ivec, n))"
  by pat_completeness auto
termination by (relation "measure (\<lambda>(block, enc, inp, st). length inp)") auto

declare cfb_blocks.simps [simp del]

fun cfb_tail :: "bool \<Rightarrow> bytes \<Rightarrow> nat \<Rightarrow> bytes \<Rightarrow> bytes \<times> bytes \<times> nat" where
  "cfb_tail enc ivec n [] = ([], ivec, n)"
| "cfb_tail enc ivec n (x # inp) =
     (let b = ivec ! n XOR x; (out, st) = cfb_tail enc (ivec[n := if enc then b else x]) (n + 1) inp in (b # out, st))"

definition CRYPTO_cfb128_encrypt :: "(bytes \<Rightarrow> bytes) \<Rightarrow> bytes \<Rightarrow> bytes \<times> nat \<Rightarrow> bool \<Rightarrow> bytes \<times> bytes \<times> nat" where
  "CRYPTO_cfb128_encrypt block inp = (\<lambda>(ivec, num) enc.
     let (o1, inp, ivec, n) = cfb_rest enc ivec num inp; (o2, inp, ivec, n) = cfb_blocks block enc inp (ivec, n)
     in if inp \<noteq> [] then (let (o3, st) = cfb_tail enc (block ivec) n (drop n inp) in (o1 @ o2 @ o3, st))
        else (o1 @ o2, ivec, n))"

text \<open>Feedback of \<open>nbits\<close> bits; the bytes of \<open>ovec\<close> that are not written are not used.\<close>

definition cfbr_encrypt_block :: "(bytes \<Rightarrow> bytes) \<Rightarrow> bytes \<Rightarrow> nat \<Rightarrow> bytes \<Rightarrow> bool \<Rightarrow> bytes \<times> bytes" where
  "cfbr_encrypt_block block inp nbits ivec enc =
     (if nbits = 0 \<or> nbits > 128 then ([], ivec)
      else
        (let ovec = blit (replicate 33 0) 0 (take 16 ivec); ivec = block ivec; num = (nbits + 7) div 8;
             out = map (\<lambda>n. inp ! n XOR ivec ! n) [0..<num];
             ovec = blit ovec 16 (if enc then out else take num inp);
             rem = nbits mod 8; num = nbits div 8
         in (out, if rem = 0 then take 16 (drop num ovec)
                  else map (\<lambda>n. push_bit rem (ovec ! (n + num)) OR drop_bit (8 - rem) (ovec ! (n + num + 1))) [0..<16])))"

fun CRYPTO_cfb128_8_encrypt :: "(bytes \<Rightarrow> bytes) \<Rightarrow> bytes \<Rightarrow> bytes \<Rightarrow> bool \<Rightarrow> bytes \<times> bytes" where
  "CRYPTO_cfb128_8_encrypt block [] ivec enc = ([], ivec)"
| "CRYPTO_cfb128_8_encrypt block (x # inp) ivec enc =
     (let (o1, ivec) = cfbr_encrypt_block block (x # inp) 8 ivec enc; (out, ivec) = CRYPTO_cfb128_8_encrypt block inp ivec enc
      in (o1 @ out, ivec))"

definition CRYPTO_cfb128_1_encrypt :: "(bytes \<Rightarrow> bytes) \<Rightarrow> bytes \<Rightarrow> bytes \<Rightarrow> nat \<Rightarrow> bytes \<Rightarrow> bool \<Rightarrow> bytes \<times> bytes" where
  "CRYPTO_cfb128_1_encrypt block inp out bits ivec enc =
     fold (\<lambda>n (out, ivec).
         let c = (if inp ! (n div 8) AND push_bit (7 - n mod 8) 1 \<noteq> 0 then 0x80 else 0); (d, ivec) = cfbr_encrypt_block block [c] 1 ivec enc
         in (out[n div 8 := (out ! (n div 8) AND NOT (push_bit (7 - n mod 8) 1)) OR drop_bit (n mod 8) (d ! 0 AND 0x80)], ivec))
       [0..<bits] (out, ivec)"

function ofb_blocks :: "(bytes \<Rightarrow> bytes) \<Rightarrow> bytes \<Rightarrow> bytes \<times> nat \<Rightarrow> bytes \<times> bytes \<times> bytes \<times> nat" where
  "ofb_blocks block inp (ivec, n) =
     (if length inp \<ge> 16 then
        (let ivec = block ivec; o1 = xor_words inp ivec n; (out, rest) = ofb_blocks block (drop 16 inp) (ivec, 0)
         in (o1 @ out, rest))
      else ([], inp, ivec, n))"
  by pat_completeness auto
termination by (relation "measure (\<lambda>(block, inp, st). length inp)") auto

declare ofb_blocks.simps [simp del]

definition CRYPTO_ofb128_encrypt :: "(bytes \<Rightarrow> bytes) \<Rightarrow> bytes \<Rightarrow> bytes \<times> nat \<Rightarrow> bytes \<times> bytes \<times> nat" where
  "CRYPTO_ofb128_encrypt block inp = (\<lambda>(ivec, num).
     let (o1, inp, n) = use_rest ivec num inp; (o2, inp, ivec, n) = ofb_blocks block inp (ivec, n)
     in if inp \<noteq> [] then
          (let ivec = block ivec; o3 = map (\<lambda>k. inp ! k XOR ivec ! k) [n..<n + length inp] in (o1 @ o2 @ o3, ivec, n + length inp))
        else (o1 @ o2, ivec, n))"

section \<open>Words are correct\<close>

abbreviation xor_bytes :: "bytes \<Rightarrow> bytes \<Rightarrow> bytes" where
  "xor_bytes \<equiv> map2 (XOR)"

lemma store_loaded:
  assumes "i + 8 \<le> length a"
  shows "store_word_le mem p (load_word_le a i) = blit mem p (take 8 (drop i a))"
proof -
  let ?xs = "take 8 (drop i a)"
  have l: "length (rev ?xs) = 8" using assms by simp
  have "be_val (rev ?xs) < 2 ^ 64" using be_val_less [of "rev ?xs"] unfolding l by simp
  then have u: "unat (load_word_le a i) = be_val (rev ?xs)" by (simp add: load_word_le_def unat_of_nat take_bit_nat_eq_self)
  have "map (\<lambda>j. ucast (drop_bit (8 * j) (load_word_le a i)) :: u8) [0..<8] = rev (be_bytes 8 (unat (load_word_le a i)))"
    by (simp only: limb_byte be_bytes_digits rev_rev_ident)
  also have "\<dots> = ?xs" using be_bytes_be_val [OF l] by (simp add: u)
  finally show ?thesis by (simp only: store_word_le_def)
qed

lemma loaded_byte:
  assumes "i + 8 \<le> length a" "j < 8"
  shows "ucast (drop_bit (8 * j) (load_word_le a i)) = a ! (i + j)"
proof -
  have "blit (replicate 8 0) 0 (map (\<lambda>j. ucast (drop_bit (8 * j) (load_word_le a i))) [0..<8]) = blit (replicate 8 0) 0 (take 8 (drop i a))"
    using store_loaded [OF assms(1), of "replicate 8 0" 0] by (simp only: store_word_le_def)
  then have "map (\<lambda>j. ucast (drop_bit (8 * j) (load_word_le a i))) [0..<8] = take 8 (drop i a)" using assms(1) by (simp add: blit_def)
  from arg_cong [OF this, of "\<lambda>xs. xs ! j"] show ?thesis using assms by simp
qed

lemma store_xor:
  assumes "i + 8 \<le> length a" "k + 8 \<le> length b"
  shows "store_word_le mem p (load_word_le a i XOR load_word_le b k) = blit mem p (xor_bytes (take 8 (drop i a)) (take 8 (drop k b)))"
proof -
  have x: "ucast (drop_bit (8 * j) (load_word_le a i XOR load_word_le b k)) =
      (ucast (drop_bit (8 * j) (load_word_le a i)) XOR ucast (drop_bit (8 * j) (load_word_le b k)) :: u8)" for j
    by (rule bit_word_eqI) (simp add: bit_simps)
  have "map (\<lambda>j. ucast (drop_bit (8 * j) (load_word_le a i XOR load_word_le b k)) :: u8) [0..<8] = xor_bytes (take 8 (drop i a)) (take 8 (drop k b))"
    using assms by (intro nth_equalityI) (simp_all add: x loaded_byte del: drop_bit_xor)
  then show ?thesis by (simp only: store_word_le_def)
qed

lemma take_16: "take 8 xs @ take 8 (drop 8 xs) = take 16 xs"
  using take_add [of 8 8 xs] by simp

lemma xor_16: "xor_bytes (take 8 a) (take 8 b) @ xor_bytes (take 8 (drop 8 a)) (take 8 (drop 8 b)) = xor_bytes (take 16 a) (take 16 b)"
  if "length a \<ge> 16" "length b \<ge> 16" for a b :: bytes
proof -
  have "length (take 8 a) = length (take 8 b)" using that by simp
  from zip_append [OF this, of "take 8 (drop 8 a)" "take 8 (drop 8 b)"] show ?thesis by (simp add: take_16)
qed

lemma blit_append: "i + length xs + length ys \<le> length mem \<Longrightarrow> blit (blit mem i xs) (i + length xs) ys = blit mem i (xs @ ys)"
  by (simp add: blit_def ac_simps)

lemma xor_words:
  assumes "16 \<le> length a" "16 \<le> length b"
  shows "xor_words a b 0 = xor_bytes (take 16 a) (take 16 b)"
proof -
  have "xor_words a b 0 = blit (blit (replicate 16 0) 0 (xor_bytes (take 8 a) (take 8 b))) (0 + length (xor_bytes (take 8 a) (take 8 b)))
      (xor_bytes (take 8 (drop 8 a)) (take 8 (drop 8 b)))"
    using assms store_xor [of 0 a 0 b "replicate 16 0" 0]
      store_xor [of 8 a 8 b "blit (replicate 16 0) 0 (xor_bytes (take 8 a) (take 8 b))" 8] by (simp add: xor_words_def)
  also have "\<dots> = blit (replicate 16 0) 0 (xor_bytes (take 8 a) (take 8 b) @ xor_bytes (take 8 (drop 8 a)) (take 8 (drop 8 b)))"
    using assms by (intro blit_append) simp
  also have "\<dots> = xor_bytes (take 16 a) (take 16 b)" unfolding xor_16 [OF assms] using assms by (simp add: blit_def)
  finally show ?thesis .
qed

section \<open>CBC is correct\<close>

abbreviation region :: "bytes \<Rightarrow> nat \<Rightarrow> nat \<Rightarrow> bytes" where
  "region mem p n \<equiv> take n (drop p mem)"

text \<open>The specification: each block of the plain text is added to the block of the cipher text before it.\<close>

fun cbc_enc :: "(bytes \<Rightarrow> bytes) \<Rightarrow> bytes \<Rightarrow> bytes \<Rightarrow> bytes" where
  "cbc_enc block iv xs =
     (if length xs < 16 then [] else let c = block (xor_bytes (take 16 xs) iv) in c @ cbc_enc block c (drop 16 xs))"

fun cbc_dec :: "(bytes \<Rightarrow> bytes) \<Rightarrow> bytes \<Rightarrow> bytes \<Rightarrow> bytes" where
  "cbc_dec unblock iv xs =
     (if length xs < 16 then [] else xor_bytes (unblock (take 16 xs)) iv @ cbc_dec unblock (take 16 xs) (drop 16 xs))"

declare cbc_enc.simps [simp del] cbc_dec.simps [simp del]

definition block_sized :: "(bytes \<Rightarrow> bytes) \<Rightarrow> bool" where
  "block_sized block \<longleftrightarrow> (\<forall>xs. length xs = 16 \<longrightarrow> length (block xs) = 16)"

lemma block_sizedD: "block_sized block \<Longrightarrow> length xs = 16 \<Longrightarrow> length (block xs) = 16"
  by (simp add: block_sized_def)

text \<open>The last block of a vector and the blocks behind it.\<close>

definition next_iv :: "bytes \<Rightarrow> bytes \<Rightarrow> bytes" where
  "next_iv iv cs = drop (length cs) (iv @ cs)"

lemma next_iv: "next_iv iv [] = iv" "length iv = length c \<Longrightarrow> next_iv iv (c @ cs) = next_iv c cs"
  by (simp_all add: next_iv_def)

lemma nth_blit: "i + length xs \<le> length mem \<Longrightarrow> k < length mem \<Longrightarrow> blit mem i xs ! k = (if i \<le> k \<and> k < i + length xs then xs ! (k - i) else mem ! k)"
  by (auto simp: blit_def nth_append)

lemma region_blit_apart:
  assumes "i + length xs \<le> length mem" "p + n \<le> i \<or> i + length xs \<le> p"
  shows "region (blit mem i xs) p n = region mem p n"
proof (rule nth_equalityI)
  show "length (region (blit mem i xs) p n) = length (region mem p n)" using assms(1) by simp
  fix k assume "k < length (region (blit mem i xs) p n)"
  then have k: "k < n" "k < length mem - p" using assms(1) by simp_all
  then have "p + k < length mem" by linarith
  then show "region (blit mem i xs) p n ! k = region mem p n ! k"
    using assms k nth_blit [OF assms(1), of "p + k"] by auto
qed

lemma region_blit_same: "i + length xs \<le> length mem \<Longrightarrow> region (blit mem i xs) i (length xs) = xs"
  by (simp add: blit_def)

lemma blit_blit_same: "i + length xs \<le> length mem \<Longrightarrow> length ys = length xs \<Longrightarrow> blit (blit mem i xs) i ys = blit mem i ys"
  by (simp add: blit_def)

lemma region_halves: "region mem p 8 @ region mem (p + 8) 8 = region mem p 16"
  using take_add [of 8 8 "drop p mem"] by (simp add: add.commute)

lemma length_region: "p + n \<le> length mem \<Longrightarrow> length (region mem p n) = n"
  by simp

text \<open>One block is written as the sum of two regions that the words do not run into.\<close>

lemma xor_two_words:
  assumes "a + 16 \<le> length mem" "p + 16 \<le> length mem" "p \<le> a \<or> a + 16 \<le> p" "b + 16 \<le> length v" "length w = 8" "w = region v (b + 8) 8"
  shows "blit (blit mem p (xor_bytes (region mem a 8) (region v b 8))) (p + 8)
      (xor_bytes (region (blit mem p (xor_bytes (region mem a 8) (region v b 8))) (a + 8) 8) w) =
    blit mem p (xor_bytes (region mem a 16) (region v b 16))"
proof -
  let ?x = "xor_bytes (region mem a 8) (region v b 8)"
  have l: "length ?x = 8" using assms by simp
  have "region (blit mem p ?x) (a + 8) 8 = region mem (a + 8) 8"
    by (rule region_blit_apart) (use assms l in auto)
  moreover have "xor_bytes (region mem a 8) (region v b 8) @ xor_bytes (region mem (a + 8) 8) (region v (b + 8) 8) = xor_bytes (region mem a 16) (region v b 16)"
    using xor_16 [of "drop a mem" "drop b v"] assms by (simp add: add.commute)
  moreover have "blit (blit mem p ?x) (p + 8) (xor_bytes (region mem (a + 8) 8) w) = blit mem p (?x @ xor_bytes (region mem (a + 8) 8) w)"
    using blit_append [of p ?x "xor_bytes (region mem (a + 8) 8) w" mem] assms unfolding l by simp
  ultimately show ?thesis using assms(6) by simp
qed

text \<open>Where the vector is, relative to the block that is written next.\<close>

definition iv_ok :: "bytes \<Rightarrow> bytes \<Rightarrow> iv_ptr \<Rightarrow> nat \<Rightarrow> bool" where
  "iv_ok ivec mem iv out \<longleftrightarrow> (case iv of Ivec \<Rightarrow> length ivec = 16 | At p \<Rightarrow> p + 16 \<le> length mem \<and> (p + 16 \<le> out \<or> out + 16 \<le> p))"

lemma iv_block_length: "iv_ok ivec mem iv out \<Longrightarrow> length (iv_block ivec mem iv) = 16"
  by (auto simp: iv_ok_def iv_block_def split: iv_ptr.splits)

lemma iv_block_apart:
  assumes "iv_ok ivec mem iv out" "length xs = 16" "out + 16 \<le> length mem"
  shows "iv_block ivec (blit mem out xs) iv = iv_block ivec mem iv \<and> iv_ok ivec (blit mem out xs) iv out"
proof (cases iv)
  case (At p)
  then show ?thesis
    using assms region_blit_apart [of out xs mem p 16] by (auto simp: iv_ok_def iv_block_def)
qed (use assms in \<open>simp_all add: iv_ok_def iv_block_def\<close>)

lemma xor_step:
  assumes "a + 16 \<le> length mem" "out + 16 \<le> length mem" "out \<le> a \<or> a + 16 \<le> out" "iv_ok ivec mem iv out"
  shows "fold (\<lambda>n mem. store_word_le mem (out + n) (load_word_le mem (a + n) XOR iv_word ivec mem iv n)) [0, 8] mem =
    blit mem out (xor_bytes (region mem a 16) (iv_block ivec mem iv))"
proof -
  have "\<exists>v b. b + 16 \<le> length v \<and> iv_block ivec mem iv = region v b 16 \<and> iv_word ivec mem iv 0 = load_word_le v b \<and>
      (\<forall>x. length x = 8 \<longrightarrow> (\<exists>v' b'. b' + 8 \<le> length v' \<and> iv_word ivec (blit mem out x) iv 8 = load_word_le v' b' \<and> region v' b' 8 = region v (b + 8) 8))"
  proof (cases iv)
    case Ivec
    then show ?thesis using assms(4) by (intro exI [of _ ivec] exI [of _ 0]) (auto simp: iv_ok_def iv_block_def iv_word_def intro!: exI [of _ ivec] exI [of _ 8])
  next
    case (At p)
    have p: "p + 16 \<le> length mem" "p + 16 \<le> out \<or> out + 16 \<le> p" using assms(4) At by (simp_all add: iv_ok_def)
    have "\<exists>v' b'. b' + 8 \<le> length v' \<and> iv_word ivec (blit mem out x) iv 8 = load_word_le v' b' \<and> region v' b' 8 = region mem (p + 8) 8"
      if "length x = 8" for x
    proof (intro exI conjI)
      show "p + 8 + 8 \<le> length (blit mem out x)" using p(1) assms(2) that by simp
      show "iv_word ivec (blit mem out x) iv 8 = load_word_le (blit mem out x) (p + 8)" by (simp add: At iv_word_def)
      show "region (blit mem out x) (p + 8) 8 = region mem (p + 8) 8"
        by (rule region_blit_apart) (use p(2) assms(2) that in auto)
    qed
    then show ?thesis using p(1) by (intro exI [of _ mem] exI [of _ p]) (simp add: At iv_block_def iv_word_def)
  qed
  then obtain v b where v: "b + 16 \<le> length v" "iv_block ivec mem iv = region v b 16" "iv_word ivec mem iv 0 = load_word_le v b"
      "\<And>x. length x = 8 \<Longrightarrow> \<exists>v' b'. b' + 8 \<le> length v' \<and> iv_word ivec (blit mem out x) iv 8 = load_word_le v' b' \<and> region v' b' 8 = region v (b + 8) 8"
    by blast
  define x where "x = xor_bytes (region mem a 8) (region v b 8)"
  have lx: "length x = 8" using assms(1) v(1) by (simp add: x_def)
  obtain v' b' where v': "b' + 8 \<le> length v'" "iv_word ivec (blit mem out x) iv 8 = load_word_le v' b'" "region v' b' 8 = region v (b + 8) 8"
    using v(4) [OF lx] by blast
  have "fold (\<lambda>n mem. store_word_le mem (out + n) (load_word_le mem (a + n) XOR iv_word ivec mem iv n)) [0, 8] mem =
      blit (blit mem out x) (out + 8) (xor_bytes (region (blit mem out x) (a + 8) 8) (region v' b' 8))"
    using store_xor [of a mem b v mem out] store_xor [of "a + 8" "blit mem out x" b' v' "blit mem out x" "out + 8"] assms(1,2) v(1,3) v'(1,2) lx
    by (simp add: x_def)
  also have "\<dots> = blit mem out (xor_bytes (region mem a 16) (region v b 16))"
    unfolding x_def using assms(1-3) v(1) v'(3) by (intro xor_two_words) auto
  finally show ?thesis using v(2) by simp
qed

lemma cbc_enc_step: "16 \<le> length xs \<Longrightarrow> cbc_enc block iv xs =
    block (xor_bytes (take 16 xs) iv) @ cbc_enc block (block (xor_bytes (take 16 xs) iv)) (drop 16 xs)"
  by (simp add: cbc_enc.simps [of block iv xs] Let_def)

lemma cbc_dec_step: "16 \<le> length xs \<Longrightarrow> cbc_dec block iv xs = xor_bytes (block (take 16 xs)) iv @ cbc_dec block (take 16 xs) (drop 16 xs)"
  by (simp add: cbc_dec.simps [of block iv xs])

lemma cbc_short: "length xs < 16 \<Longrightarrow> cbc_enc block iv xs = []" "length xs < 16 \<Longrightarrow> cbc_dec block iv xs = []"
  by (simp_all add: cbc_enc.simps [of block iv xs] cbc_dec.simps [of block iv xs])

lemma length_cbc:
  assumes "block_sized block" "length iv = 16"
  shows "length (cbc_enc block iv xs) = 16 * (length xs div 16)" "length (cbc_dec block iv xs) = 16 * (length xs div 16)"
proof -
  have "length (cbc_enc block iv xs) = 16 * (length xs div 16) \<and> length (cbc_dec block iv xs) = 16 * (length xs div 16)"
    using assms(2)
  proof (induction xs arbitrary: iv rule: length_induct)
    case (1 xs)
    show ?case
    proof (cases "length xs < 16")
      case False
      then obtain n where n: "length xs = 16 + n" using le_Suc_ex [of 16 "length xs"] by auto
      have "length (block (xor_bytes (take 16 xs) iv)) = 16" "length (block (take 16 xs)) = 16"
        using assms(1) n 1(2) by (simp_all add: block_sized_def)
      moreover have "(16 + n) div 16 = 1 + n div 16" using div_add_self1 [of 16 n] by simp
      ultimately show ?thesis using 1 n by (simp add: cbc_enc_step cbc_dec_step)
    qed (simp add: cbc_short)
  qed
  then show "length (cbc_enc block iv xs) = 16 * (length xs div 16)" "length (cbc_dec block iv xs) = 16 * (length xs div 16)" by blast+
qed

text \<open>Encryption in place or apart.\<close>

lemma cbc_encrypt_blocks:
  assumes "block_sized block" "16 dvd len" "inp + len \<le> length mem" "out + len \<le> length mem" "out \<le> inp \<or> inp + len \<le> out"
    "iv_ok ivec mem iv out" "iv = Ivec \<or> iv = At (out - 16) \<and> 16 \<le> out"
  shows "\<exists>iv'. cbc_encrypt_blocks block ivec mem inp out iv len =
      (blit mem out (cbc_enc block (iv_block ivec mem iv) (region mem inp len)), inp + len, out + len, iv', 0) \<and>
    iv_block ivec (blit mem out (cbc_enc block (iv_block ivec mem iv) (region mem inp len))) iv' =
      next_iv (iv_block ivec mem iv) (cbc_enc block (iv_block ivec mem iv) (region mem inp len))"
  using assms(2-7)
proof (induction len arbitrary: mem inp out iv rule: less_induct)
  case (less len)
  show ?case
  proof (cases "len = 0")
    case True
    then show ?thesis
      by (intro exI [of _ iv]) (simp add: cbc_encrypt_blocks.simps [of block ivec mem inp out iv 0] cbc_short next_iv)
  next
    case False
    then have l16: "16 \<le> len" "16 dvd len - 16" using less.prems(1) by (auto intro: dvd_imp_le)
    define v where "v = iv_block ivec mem iv"
    have lv: "length v = 16" unfolding v_def using iv_block_length [OF less.prems(5)] .
    define c where "c = block (xor_bytes (region mem inp 16) v)"
    have lc: "length c = 16" unfolding c_def by (rule block_sizedD [OF assms(1)]) (use lv less.prems(2) l16 in simp)
    define mem1 where "mem1 = blit mem out c"
    have fit: "inp + 16 \<le> length mem" "out + 16 \<le> length mem" "out \<le> inp \<or> inp + 16 \<le> out" using less.prems l16 by auto
    let ?x = "xor_bytes (region mem inp 16) v"
    have lx: "length ?x = 16" using lv fit by simp
    have "fold (\<lambda>n mem. store_word_le mem (out + n) (load_word_le mem (inp + n) XOR iv_word ivec mem iv n)) [0, 8] mem = blit mem out ?x"
      using xor_step [OF fit less.prems(5)] by (simp only: v_def)
    moreover have "call_block block out out (blit mem out ?x) = mem1"
      using region_blit_same [of out ?x mem] blit_blit_same [of out ?x mem c] fit lx lc by (simp add: call_block_def mem1_def c_def)
    ultimately have step: "cbc_encrypt_blocks block ivec mem inp out iv len = cbc_encrypt_blocks block ivec mem1 (inp + 16) (out + 16) (At out) (len - 16)"
      using l16 by (simp only: cbc_encrypt_blocks.simps [of block ivec mem inp out iv len] if_True Let_def)
    have m1: "length mem1 = length mem" using fit lc by (simp add: mem1_def)
    have v1: "iv_block ivec mem1 (At out) = c" using region_blit_same [of out c mem] fit lc by (simp add: iv_block_def mem1_def)
    have rest: "region mem1 (inp + 16) (len - 16) = drop 16 (region mem inp len)"
    proof -
      have "region mem1 (inp + 16) (len - 16) = region mem (inp + 16) (len - 16)" unfolding mem1_def
        by (rule region_blit_apart) (use fit lc less.prems(4) l16 in auto)
      then show ?thesis by (simp add: drop_take add.commute)
    qed
    have first: "take 16 (region mem inp len) = region mem inp 16" using l16 by (simp add: min_def)
    define cs where "cs = cbc_enc block c (drop 16 (region mem inp len))"
    have enc: "cbc_enc block v (region mem inp len) = c @ cs"
      using cbc_enc_step [of "region mem inp len" block v] less.prems(2) l16 by (simp only: first c_def [symmetric] cs_def) simp
    have lcs: "length cs = len - 16"
      using length_cbc(1) [OF assms(1) lc] less.prems(1,2) l16 by (simp add: cs_def dvd_mult_div_cancel)
    have "\<exists>iv'. cbc_encrypt_blocks block ivec mem1 (inp + 16) (out + 16) (At out) (len - 16) =
        (blit mem1 (out + 16) (cbc_enc block (iv_block ivec mem1 (At out)) (region mem1 (inp + 16) (len - 16))), inp + 16 + (len - 16), out + 16 + (len - 16), iv', 0) \<and>
      iv_block ivec (blit mem1 (out + 16) (cbc_enc block (iv_block ivec mem1 (At out)) (region mem1 (inp + 16) (len - 16)))) iv' =
        next_iv (iv_block ivec mem1 (At out)) (cbc_enc block (iv_block ivec mem1 (At out)) (region mem1 (inp + 16) (len - 16)))"
      by (rule less.IH) (use l16 less.prems m1 in \<open>auto simp: iv_ok_def\<close>)
    then obtain iv' where IH: "cbc_encrypt_blocks block ivec mem1 (inp + 16) (out + 16) (At out) (len - 16) = (blit mem1 (out + 16) cs, inp + 16 + (len - 16), out + 16 + (len - 16), iv', 0)"
      "iv_block ivec (blit mem1 (out + 16) cs) iv' = next_iv c cs"
      unfolding v1 rest cs_def [symmetric] by blast
    have "blit mem1 (out + 16) cs = blit mem out (c @ cs)"
      using blit_append [of out c cs mem] less.prems(3) lc lcs l16 by (simp add: mem1_def)
    then show ?thesis using IH step l16 lv lc by (simp add: v_def [symmetric] enc next_iv)
  qed
qed

lemma CRYPTO_cbc128_encrypt:
  assumes "block_sized block" "16 dvd len" "inp + len \<le> length mem" "out + len \<le> length mem" "out \<le> inp \<or> inp + len \<le> out" "length ivec = 16"
  shows "CRYPTO_cbc128_encrypt block mem inp out len ivec =
    (blit mem out (cbc_enc block ivec (region mem inp len)), next_iv ivec (cbc_enc block ivec (region mem inp len)))"
proof -
  let ?cs = "cbc_enc block ivec (region mem inp len)"
  have iv: "iv_block ivec mem Ivec = ivec" "iv_ok ivec mem Ivec out" using assms(6) by (simp_all add: iv_block_def iv_ok_def)
  obtain iv' where b: "cbc_encrypt_blocks block ivec mem inp out Ivec len = (blit mem out ?cs, inp + len, out + len, iv', 0)"
      "iv_block ivec (blit mem out ?cs) iv' = next_iv ivec ?cs"
    using cbc_encrypt_blocks [OF assms(1-5) iv(2)] unfolding iv(1) by auto
  have "length (next_iv ivec ?cs) = 16" using assms(6) by (simp add: next_iv_def)
  then have "blit ivec 0 (next_iv ivec ?cs) = next_iv ivec ?cs" using assms(6) by (simp add: blit_def)
  then show ?thesis unfolding CRYPTO_cbc128_encrypt_def b(1) using b(2) by (simp add: cbc_encrypt_tail.simps)
qed

text \<open>Decryption straight into the output.\<close>

lemma cbc_decrypt_direct:
  assumes "block_sized block" "length ivec = 16" "16 dvd len" "inp + len \<le> length mem" "out + len \<le> length mem"
    "out + 32 \<le> inp \<or> inp + len \<le> out" "iv = Ivec \<or> iv = At (inp - 16) \<and> 16 \<le> inp"
  shows "\<exists>iv'. cbc_decrypt_direct block ivec mem inp out iv len =
      (blit mem out (cbc_dec block (iv_block ivec mem iv) (region mem inp len)), inp + len, out + len, iv', 0) \<and>
    iv_block ivec (blit mem out (cbc_dec block (iv_block ivec mem iv) (region mem inp len))) iv' =
      next_iv (iv_block ivec mem iv) (region mem inp len)"
  using assms(3-7)
proof (induction len arbitrary: mem inp out iv rule: less_induct)
  case (less len)
  show ?case
  proof (cases "len = 0")
    case True
    then show ?thesis
      by (intro exI [of _ iv]) (simp add: cbc_decrypt_direct.simps [of block ivec mem inp out iv 0] cbc_short next_iv)
  next
    case False
    then have l16: "16 \<le> len" "16 dvd len - 16" using less.prems(1) by (auto intro: dvd_imp_le)
    have ok: "iv_ok ivec mem iv out" using less.prems assms(2) l16 by (auto simp: iv_ok_def)
    define v where "v = iv_block ivec mem iv"
    have lv: "length v = 16" unfolding v_def using iv_block_length [OF ok] .
    define C where "C = region mem inp 16"
    have fit: "inp + 16 \<le> length mem" "out + 16 \<le> length mem" "out + 16 \<le> inp \<or> inp + 16 \<le> out" using less.prems l16 by auto
    have lC: "length C = 16" using fit by (simp add: C_def)
    have lb: "length (block C) = 16" by (rule block_sizedD [OF assms(1) lC])
    define p where "p = xor_bytes (block C) v"
    have lp: "length p = 16" using lb lv by (simp add: p_def)
    define mem2 where "mem2 = blit mem out p"
    let ?m1 = "blit mem out (block C)"
    have m1: "call_block block inp out mem = ?m1" by (simp add: call_block_def C_def)
    have "fold (\<lambda>n mem. store_word_le mem (out + n) (load_word_le mem (out + n) XOR iv_word ivec mem iv n)) [0, 8] ?m1 =
        blit ?m1 out (xor_bytes (region ?m1 out 16) (iv_block ivec ?m1 iv))"
      by (rule xor_step) (use fit lb iv_block_apart [OF ok lb fit(2)] in auto)
    also have "\<dots> = mem2"
      using region_blit_same [of out "block C" mem] blit_blit_same [of out "block C" mem p] iv_block_apart [OF ok lb fit(2)] fit lb lp
      by (simp add: p_def v_def mem2_def)
    finally have step: "cbc_decrypt_direct block ivec mem inp out iv len = cbc_decrypt_direct block ivec mem2 (inp + 16) (out + 16) (At inp) (len - 16)"
      using l16 by (simp only: cbc_decrypt_direct.simps [of block ivec mem inp out iv len] if_True Let_def m1)
    have m2: "length mem2 = length mem" using fit lp by (simp add: mem2_def)
    have v2: "iv_block ivec mem2 (At inp) = C"
      unfolding iv_block_def iv_ptr.case mem2_def C_def by (rule region_blit_apart) (use fit lp in auto)
    have rest: "region mem2 (inp + 16) (len - 16) = drop 16 (region mem inp len)"
    proof -
      have "region mem2 (inp + 16) (len - 16) = region mem (inp + 16) (len - 16)" unfolding mem2_def
        by (rule region_blit_apart) (use fit lp less.prems(4) l16 in auto)
      then show ?thesis by (simp add: drop_take add.commute)
    qed
    have first: "take 16 (region mem inp len) = C" using l16 by (simp add: C_def min_def)
    have split: "region mem inp len = C @ drop 16 (region mem inp len)" unfolding first [symmetric] by (simp only: append_take_drop_id)
    define ps where "ps = cbc_dec block C (drop 16 (region mem inp len))"
    have dec: "cbc_dec block v (region mem inp len) = p @ ps"
      using cbc_dec_step [of "region mem inp len" block v] less.prems(2) l16 by (simp only: first p_def [symmetric] ps_def) simp
    have lps: "length ps = len - 16"
      using length_cbc(2) [OF assms(1) lC] less.prems(1,2) l16 by (simp add: ps_def dvd_mult_div_cancel)
    have "\<exists>iv'. cbc_decrypt_direct block ivec mem2 (inp + 16) (out + 16) (At inp) (len - 16) =
        (blit mem2 (out + 16) (cbc_dec block (iv_block ivec mem2 (At inp)) (region mem2 (inp + 16) (len - 16))), inp + 16 + (len - 16), out + 16 + (len - 16), iv', 0) \<and>
      iv_block ivec (blit mem2 (out + 16) (cbc_dec block (iv_block ivec mem2 (At inp)) (region mem2 (inp + 16) (len - 16)))) iv' =
        next_iv (iv_block ivec mem2 (At inp)) (region mem2 (inp + 16) (len - 16))"
      by (rule less.IH) (use l16 less.prems m2 in auto)
    then obtain iv' where IH: "cbc_decrypt_direct block ivec mem2 (inp + 16) (out + 16) (At inp) (len - 16) = (blit mem2 (out + 16) ps, inp + 16 + (len - 16), out + 16 + (len - 16), iv', 0)"
      "iv_block ivec (blit mem2 (out + 16) ps) iv' = next_iv C (drop 16 (region mem inp len))"
      unfolding v2 rest ps_def [symmetric] by blast
    have b: "blit mem2 (out + 16) ps = blit mem out (p @ ps)"
      using blit_append [of out p ps mem] less.prems(3) lp lps l16 by (simp add: mem2_def)
    have n: "next_iv v (region mem inp len) = next_iv C (drop 16 (region mem inp len))"
      by (subst split) (simp add: next_iv(2) lv lC del: drop_drop)
    show ?thesis using IH step l16 unfolding b v_def [symmetric] dec n by simp
  qed
qed

text \<open>Decryption through a temporary block, for an output that is close behind the input.\<close>

lemma tmp_step:
  assumes "inp + 16 \<le> length mem" "out + 16 \<le> length mem" "out \<le> inp" "length ivec = 16" "length tmp = 16"
  shows "fold (\<lambda>n (mem, ivec). let c = load_word_le mem (inp + n)
      in (store_word_le mem (out + n) (load_word_le tmp n XOR load_word_le ivec n), store_word_le ivec n c)) [0, 8] (mem, ivec) =
    (blit mem out (xor_bytes tmp ivec), region mem inp 16)"
proof -
  define x where "x = xor_bytes (take 8 tmp) (take 8 ivec)"
  define y where "y = xor_bytes (take 8 (drop 8 tmp)) (take 8 (drop 8 ivec))"
  have l: "length x = 8" "length y = 8" using assms by (simp_all add: x_def y_def)
  define ivec1 where "ivec1 = blit ivec 0 (region mem inp 8)"
  have i1: "length ivec1 = 16" "take 8 (drop 8 ivec1) = take 8 (drop 8 ivec)" using assms by (simp_all add: ivec1_def blit_def)
  have c: "region (blit mem out x) (inp + 8) 8 = region mem (inp + 8) 8"
    by (rule region_blit_apart) (use assms l in auto)
  have "fold (\<lambda>n (mem, ivec). let c = load_word_le mem (inp + n)
      in (store_word_le mem (out + n) (load_word_le tmp n XOR load_word_le ivec n), store_word_le ivec n c)) [0, 8] (mem, ivec) =
    (blit (blit mem out x) (out + 8) y, blit ivec1 8 (region mem (inp + 8) 8))"
    using store_xor [of 0 tmp 0 ivec mem out] store_xor [of 8 tmp 8 ivec1 "blit mem out x" "out + 8"]
      store_loaded [of inp mem ivec 0] store_loaded [of "inp + 8" "blit mem out x" ivec1 8] assms l i1 c
    by (simp add: x_def [symmetric] y_def ivec1_def [symmetric])
  moreover have "blit (blit mem out x) (out + 8) y = blit mem out (xor_bytes tmp ivec)"
    using blit_append [of out x y mem] xor_16 [of tmp ivec] assms l by (simp add: x_def y_def)
  moreover have "blit ivec1 8 (region mem (inp + 8) 8) = region mem inp 16"
    using region_halves [where mem = mem and p = inp] assms by (simp add: ivec1_def blit_def)
  ultimately show ?thesis by simp
qed

lemma cbc_decrypt_tmp:
  assumes "block_sized block" "length ivec = 16" "16 dvd len" "inp + len \<le> length mem" "out \<le> inp"
  shows "cbc_decrypt_tmp block ivec mem inp out len =
      (blit mem out (cbc_dec block ivec (region mem inp len)), next_iv ivec (region mem inp len), inp + len, out + len, 0)"
  using assms(2-5)
proof (induction len arbitrary: mem inp out ivec rule: less_induct)
  case (less len)
  show ?case
  proof (cases "len = 0")
    case True
    then show ?thesis by (simp add: cbc_decrypt_tmp.simps [of block ivec mem inp out 0] cbc_short next_iv)
  next
    case False
    then have l16: "16 \<le> len" "16 dvd len - 16" using less.prems(2) by (auto intro: dvd_imp_le)
    define C where "C = region mem inp 16"
    have fit: "inp + 16 \<le> length mem" "out + 16 \<le> length mem" using less.prems l16 by auto
    have lC: "length C = 16" using fit by (simp add: C_def)
    have lb: "length (block C) = 16" by (rule block_sizedD [OF assms(1) lC])
    define p where "p = xor_bytes (block C) ivec"
    have lp: "length p = 16" using lb less.prems(1) by (simp add: p_def)
    define mem2 where "mem2 = blit mem out p"
    have step: "cbc_decrypt_tmp block ivec mem inp out len = cbc_decrypt_tmp block C mem2 (inp + 16) (out + 16) (len - 16)"
      using tmp_step [OF fit less.prems(4,1) lb] l16
      by (simp only: cbc_decrypt_tmp.simps [of block ivec mem inp out len] if_True Let_def C_def [symmetric] p_def [symmetric] mem2_def [symmetric] prod.case)
    have m2: "length mem2 = length mem" using fit lp by (simp add: mem2_def)
    have rest: "region mem2 (inp + 16) (len - 16) = drop 16 (region mem inp len)"
    proof -
      have "region mem2 (inp + 16) (len - 16) = region mem (inp + 16) (len - 16)" unfolding mem2_def
        by (rule region_blit_apart) (use fit lp less.prems(4) l16 in auto)
      then show ?thesis by (simp add: drop_take add.commute)
    qed
    have first: "take 16 (region mem inp len) = C" using l16 by (simp add: C_def min_def)
    have split: "region mem inp len = C @ drop 16 (region mem inp len)" unfolding first [symmetric] by (simp only: append_take_drop_id)
    define ps where "ps = cbc_dec block C (drop 16 (region mem inp len))"
    have dec: "cbc_dec block ivec (region mem inp len) = p @ ps"
      using cbc_dec_step [of "region mem inp len" block ivec] less.prems(3) l16 by (simp only: first p_def [symmetric] ps_def) simp
    have lps: "length ps = len - 16"
      using length_cbc(2) [OF assms(1) lC] less.prems(2,3) l16 by (simp add: ps_def dvd_mult_div_cancel)
    have IH: "cbc_decrypt_tmp block C mem2 (inp + 16) (out + 16) (len - 16) =
      (blit mem2 (out + 16) (cbc_dec block C (region mem2 (inp + 16) (len - 16))), next_iv C (region mem2 (inp + 16) (len - 16)),
       inp + 16 + (len - 16), out + 16 + (len - 16), 0)"
      by (rule less.IH) (use l16 less.prems m2 lC in auto)
    have b: "blit mem2 (out + 16) ps = blit mem out (p @ ps)"
      using blit_append [of out p ps mem] less.prems(3,4) lp lps l16 by (simp add: mem2_def)
    have n: "next_iv ivec (region mem inp len) = next_iv C (drop 16 (region mem inp len))"
      by (subst split) (simp add: next_iv(2) less.prems(1) lC del: drop_drop)
    show ?thesis unfolding step IH rest ps_def [symmetric] b dec n using l16 by simp
  qed
qed

lemma CRYPTO_cbc128_decrypt:
  assumes "block_sized block" "16 dvd len" "inp + len \<le> length mem" "out + len \<le> length mem" "out \<le> inp \<or> inp + len \<le> out" "length ivec = 16"
  shows "CRYPTO_cbc128_decrypt block mem inp out len ivec =
    (blit mem out (cbc_dec block ivec (region mem inp len)), next_iv ivec (region mem inp len))"
proof (cases "inp \<ge> 32 \<and> out \<le> inp - 32 \<or> inp < out")
  case True
  then have far: "out + 32 \<le> inp \<or> inp + len \<le> out" using assms(5) by auto
  have v: "iv_block ivec mem Ivec = ivec" using assms(6) by (simp add: iv_block_def)
  obtain iv' where b: "cbc_decrypt_direct block ivec mem inp out Ivec len = (blit mem out (cbc_dec block ivec (region mem inp len)), inp + len, out + len, iv', 0)"
      "iv_block ivec (blit mem out (cbc_dec block ivec (region mem inp len))) iv' = next_iv ivec (region mem inp len)"
    using cbc_decrypt_direct [OF assms(1,6,2-4) far, of Ivec] unfolding v by auto
  have "length (next_iv ivec (region mem inp len)) = 16" using assms(6) by (simp add: next_iv_def)
  then have "blit ivec 0 (next_iv ivec (region mem inp len)) = next_iv ivec (region mem inp len)" using assms(6) by (simp add: blit_def)
  then show ?thesis unfolding CRYPTO_cbc128_decrypt_def if_P [OF True] b(1) using b(2) by (simp add: cbc_decrypt_tail.simps)
next
  case False
  then have "out \<le> inp" by auto
  from cbc_decrypt_tmp [OF assms(1,6,2,3) this] show ?thesis
    unfolding CRYPTO_cbc128_decrypt_def if_not_P [OF False] by (simp add: cbc_decrypt_tail.simps)
qed

lemma xor_bytes_twice: "length a = length b \<Longrightarrow> xor_bytes (xor_bytes a b) b = a"
  by (intro nth_equalityI) (simp_all add: xor.assoc)

lemma cbc_dec_enc:
  assumes "block_sized block" "\<And>xs. length xs = 16 \<Longrightarrow> unblock (block xs) = xs" "length iv = 16" "16 dvd length xs"
  shows "cbc_dec unblock iv (cbc_enc block iv xs) = xs"
  using assms(3,4)
proof (induction xs arbitrary: iv rule: length_induct)
  case (1 xs)
  show ?case
  proof (cases "xs = []")
    case False
    then have l16: "16 \<le> length xs" using 1(3) by (intro dvd_imp_le) simp_all
    define c where "c = block (xor_bytes (take 16 xs) iv)"
    have lx: "length (xor_bytes (take 16 xs) iv) = 16" using l16 1(2) by simp
    have lc: "length c = 16" unfolding c_def by (rule block_sizedD [OF assms(1) lx])
    have "unblock c = xor_bytes (take 16 xs) iv" unfolding c_def by (rule assms(2) [OF lx])
    moreover have "cbc_dec unblock c (cbc_enc block c (drop 16 xs)) = drop 16 xs"
      using 1(1) lc l16 1(3) by simp
    ultimately have "cbc_dec unblock iv (c @ cbc_enc block c (drop 16 xs)) = take 16 xs @ drop 16 xs"
      using lc l16 1(2) xor_bytes_twice [of "take 16 xs" iv] by (simp add: cbc_dec_step)
    then show ?thesis by (simp add: cbc_enc_step [OF l16] c_def [symmetric])
  qed (simp add: cbc_short)
qed

text \<open>Two calls, the second with the vector that the first left, do what one call does.\<close>

lemma cbc_enc_append:
  assumes "block_sized block" "length iv = 16" "16 dvd length xs"
  shows "cbc_enc block iv (xs @ ys) = cbc_enc block iv xs @ cbc_enc block (next_iv iv (cbc_enc block iv xs)) ys"
  using assms(2,3)
proof (induction xs arbitrary: iv rule: length_induct)
  case (1 xs)
  show ?case
  proof (cases "xs = []")
    case False
    then have l16: "16 \<le> length xs" using 1(3) by (intro dvd_imp_le) simp_all
    define c where "c = block (xor_bytes (take 16 xs) iv)"
    have lc: "length c = 16" unfolding c_def by (rule block_sizedD [OF assms(1)]) (use l16 1(2) in simp)
    have "cbc_enc block c (drop 16 xs @ ys) = cbc_enc block c (drop 16 xs) @ cbc_enc block (next_iv c (cbc_enc block c (drop 16 xs))) ys"
      using 1(1) lc l16 1(3) by simp
    then show ?thesis using l16 1(2) lc by (simp add: cbc_enc_step c_def [symmetric] next_iv)
  qed (simp add: cbc_short next_iv)
qed

section \<open>Stream modes\<close>

text \<open>
  The specification of a stream mode: byte by byte, with a new block of the key stream before each
  first position.  \<open>refresh\<close> makes the next block of the generator \<open>s\<close>, and \<open>key\<close> is that block.
\<close>

fun stream_ref :: "('s \<Rightarrow> 's) \<Rightarrow> ('s \<Rightarrow> bytes) \<Rightarrow> bytes \<Rightarrow> 's \<times> nat \<Rightarrow> bytes \<times> 's \<times> nat" where
  "stream_ref refresh key [] st = ([], st)"
| "stream_ref refresh key (x # inp) (s, n) =
     (let s = (if n = 0 then refresh s else s); (out, st) = stream_ref refresh key inp (s, (n + 1) mod 16)
      in ((x XOR key s ! n) # out, st))"

text \<open>Two inputs one after the other are one input, and the stream undoes itself.\<close>

lemma stream_ref_append:
  "stream_ref refresh key (xs @ ys) st =
    (let (o1, st) = stream_ref refresh key xs st; (o2, st) = stream_ref refresh key ys st in (o1 @ o2, st))"
proof (induction xs arbitrary: st)
  case (Cons x xs)
  then show ?case by (cases st) (simp add: Let_def split: prod.splits)
qed simp

lemma stream_ref_undo: "stream_ref refresh key (fst (stream_ref refresh key xs st)) st = (xs, snd (stream_ref refresh key xs st))"
proof (induction xs arbitrary: st)
  case (Cons x xs)
  obtain s n where st: "st = (s, n)" by (cases st)
  define s' where "s' = (if n = 0 then refresh s else s)"
  obtain out st' where r: "stream_ref refresh key xs (s', (n + 1) mod 16) = (out, st')"
    by (cases "stream_ref refresh key xs (s', (n + 1) mod 16)")
  have "stream_ref refresh key out (s', (n + 1) mod 16) = (xs, st')" using Cons.IH [of "(s', (n + 1) mod 16)"] r by simp
  then show ?case using r by (simp add: st s'_def [symmetric] Let_def xor.assoc)
qed simp

lemma stream_ref_length: "length (fst (stream_ref refresh key xs st)) = length xs"
proof (induction xs arbitrary: st)
  case (Cons x xs)
  then show ?case by (cases st) (simp add: Let_def split: prod.splits, metis fst_conv)
qed simp

lemma stream_ref_part:
  "0 < n \<Longrightarrow> n < 16 \<Longrightarrow> n + length xs \<le> 16 \<Longrightarrow> length (key s) = 16 \<Longrightarrow>
    stream_ref refresh key xs (s, n) = (xor_bytes xs (drop n (key s)), s, (n + length xs) mod 16)"
proof (induction xs arbitrary: n)
  case (Cons x xs)
  have d: "drop n (key s) = key s ! n # drop (Suc n) (key s)" using Cons.prems by (intro Cons_nth_drop_Suc [symmetric]) simp
  show ?case
  proof (cases "n = 15")
    case True
    then have "xs = []" using Cons.prems by (cases xs) simp_all
    then show ?thesis using True d by simp
  next
    case False
    then have "(n + 1) mod 16 = n + 1" using Cons.prems by simp
    then show ?thesis using Cons.IH [of "n + 1"] Cons.prems d by simp
  qed
qed simp

lemma stream_ref_block:
  assumes "0 < length xs" "length xs \<le> 16" "length (key (refresh s)) = 16"
  shows "stream_ref refresh key xs (s, 0) = (xor_bytes xs (key (refresh s)), refresh s, length xs mod 16)"
proof -
  obtain x ys where xs: "xs = x # ys" using assms(1) by (cases xs) auto
  obtain k ks where k: "key (refresh s) = k # ks" using assms(3) by (cases "key (refresh s)") auto
  have "stream_ref refresh key ys (refresh s, 1) = (xor_bytes ys (drop 1 (key (refresh s))), refresh s, (1 + length ys) mod 16)"
    by (rule stream_ref_part) (use assms xs in simp_all)
  then show ?thesis by (simp add: xs k)
qed

text \<open>What is left of the last block is used first.\<close>

lemma use_rest_ref:
  assumes "use_rest (key s) n inp = (o1, rest, n')" "n < 16"
  shows "stream_ref refresh key inp (s, n) = (let (o2, st) = stream_ref refresh key rest (s, n') in (o1 @ o2, st))"
    "rest = [] \<or> n' = 0" "n' < 16"
proof -
  have "stream_ref refresh key inp (s, n) = (let (o2, st) = stream_ref refresh key rest (s, n') in (o1 @ o2, st)) \<and> (rest = [] \<or> n' = 0) \<and> n' < 16"
    using assms
  proof (induction inp arbitrary: n o1)
    case (Cons x inp)
    show ?case
    proof (cases "n = 0")
      case True
      then show ?thesis using Cons.prems by auto
    next
      case False
      obtain o2 where o2: "use_rest (key s) ((n + 1) mod 16) inp = (o2, rest, n')" "o1 = (x XOR key s ! n) # o2"
        using Cons.prems(1) False by (auto split: prod.splits)
      from Cons.IH [OF o2(1)] show ?thesis using False o2(2) by (auto simp: Let_def split: prod.splits)
    qed
  qed auto
  then show "stream_ref refresh key inp (s, n) = (let (o2, st) = stream_ref refresh key rest (s, n') in (o1 @ o2, st))"
    "rest = [] \<or> n' = 0" "n' < 16" by blast+
qed

section \<open>Counters\<close>

lemma inc_bytes_fold:
  assumes "k \<le> length counter" "unat c \<le> 1"
  shows "fst (fold (\<lambda>n (counter, c :: u32). let c = c + ucast (counter ! n) in (counter[n := ucast c], drop_bit 8 c)) (rev [0..<k]) (counter, c)) =
    be_bytes k (be_val (take k counter) + unat c) @ drop k counter"
  using assms
proof (induction k arbitrary: counter c)
  case (Suc k)
  define b where "b = counter ! k"
  define c1 where "c1 = c + ucast b"
  have u: "unat c1 = unat c + unat b"
  proof -
    have "unat c + unat (ucast b :: u32) < 2 ^ 32" using Suc.prems(2) unat_u8_lt [of b] by (simp add: unat_ucast_up)
    then show ?thesis using Suc.prems(2) unat_u8_lt [of b] by (simp add: c1_def unat_word_ariths unat_ucast_up)
  qed
  have hi: "unat (drop_bit 8 c1) = (unat c + unat b) div 256" by (simp add: unat_drop_bit u)
  then have le: "unat (drop_bit 8 c1) \<le> 1" using Suc.prems(2) unat_u8_lt [of b] by simp
  have lo: "(ucast c1 :: u8) = of_nat (unat c + unat b)" unfolding u [symmetric] by (simp only: of_nat_unat)
  let ?counter = "counter[k := ucast c1]"
  have "drop k ?counter = ucast c1 # drop (Suc k) counter"
    using Suc.prems(1) Cons_nth_drop_Suc [of k ?counter] by simp
  moreover have "be_val (take (Suc k) counter) = 256 * be_val (take k counter) + unat b"
    using Suc.prems(1) by (simp add: take_Suc_conv_app_nth b_def)
  moreover have "(256 * be_val (take k counter) + unat b + unat c) div 256 = be_val (take k counter) + (unat c + unat b) div 256"
    by (simp add: add.assoc add.commute [of "unat b"])
  moreover have "(of_nat (256 * be_val (take k counter) + unat b + unat c) :: u8) = of_nat (unat c + unat b)"
  proof -
    have "(256 * be_val (take k counter) + unat b + unat c) mod 256 = (unat c + unat b) mod 256"
    proof -
      have "256 * be_val (take k counter) + unat b + unat c = (unat c + unat b) + 256 * be_val (take k counter)" by simp
      then show ?thesis by (simp only: mod_mult_self2)
    qed
    then show ?thesis unfolding word_of_nat_eq_iff take_bit_eq_mod by simp
  qed
  ultimately show ?case
    using Suc.IH [of ?counter "drop_bit 8 c1"] Suc.prems(1) le hi lo
    by (simp add: b_def [symmetric] c1_def [symmetric] Let_def)
qed simp

lemma inc_bytes: "k \<le> length counter \<Longrightarrow> inc_bytes k counter = be_bytes k (be_val (take k counter) + 1) @ drop k counter"
  using inc_bytes_fold [of k counter 1] by (simp add: inc_bytes_def)

lemma ctr128_inc: "length counter = 16 \<Longrightarrow> ctr128_inc counter = be_bytes 16 (be_val counter + 1)"
  by (simp add: ctr128_inc_def inc_bytes)

section \<open>Counter mode is correct\<close>

abbreviation ctr_refresh :: "(bytes \<Rightarrow> bytes) \<Rightarrow> bytes \<times> bytes \<Rightarrow> bytes \<times> bytes" where
  "ctr_refresh block \<equiv> \<lambda>(ivec, ecount_buf). (ctr128_inc ivec, block ivec)"

abbreviation ctr_ref :: "(bytes \<Rightarrow> bytes) \<Rightarrow> bytes \<Rightarrow> (bytes \<times> bytes) \<times> nat \<Rightarrow> bytes \<times> (bytes \<times> bytes) \<times> nat" where
  "ctr_ref block \<equiv> stream_ref (ctr_refresh block) snd"

lemma ctr_ref_block:
  assumes "block_sized block" "length ivec = 16" "0 < length xs" "length xs \<le> 16"
  shows "ctr_ref block xs ((ivec, e), 0) = (xor_bytes xs (block ivec), (ctr128_inc ivec, block ivec), length xs mod 16)"
  using stream_ref_block [of xs snd "ctr_refresh block" "(ivec, e)"] assms block_sizedD [OF assms(1,2)] by simp

lemma length_ctr128_inc: "length counter = 16 \<Longrightarrow> length (ctr128_inc counter) = 16"
  by (simp add: ctr128_inc)

lemma ctr_blocks:
  assumes "block_sized block" "length ivec = 16"
  shows "\<exists>out rest ivec' e'. ctr_blocks block inp (ivec, e, 0) = (out, rest, ivec', e', 0) \<and> length rest < 16 \<and> length ivec' = 16 \<and>
    ctr_ref block inp ((ivec, e), 0) = (let (o2, st) = ctr_ref block rest ((ivec', e'), 0) in (out @ o2, st))"
  using assms(2)
proof (induction inp arbitrary: ivec e rule: length_induct)
  case (1 inp)
  show ?case
  proof (cases "16 \<le> length inp")
    case True
    have lb: "length (block ivec) = 16" by (rule block_sizedD [OF assms(1) 1(2)])
    have "length (drop 16 inp) < length inp" using True by simp
    from 1(1) [rule_format, OF this length_ctr128_inc [OF 1(2)], of "block ivec"]
    obtain out rest ivec' e' where IH: "ctr_blocks block (drop 16 inp) (ctr128_inc ivec, block ivec, 0) = (out, rest, ivec', e', 0)"
      "length rest < 16" "length ivec' = 16"
      "ctr_ref block (drop 16 inp) ((ctr128_inc ivec, block ivec), 0) = (let (o2, st) = ctr_ref block rest ((ivec', e'), 0) in (out @ o2, st))"
      by blast
    have "ctr_blocks block inp (ivec, e, 0) = (xor_words inp (block ivec) 0 @ out, rest, ivec', e', 0)"
      using True IH(1) by (simp add: ctr_blocks.simps [of block inp ivec e 0] Let_def)
    moreover have "xor_words inp (block ivec) 0 = xor_bytes (take 16 inp) (block ivec)" using xor_words [OF True] lb by simp
    moreover have "ctr_ref block (take 16 inp) ((ivec, e), 0) = (xor_bytes (take 16 inp) (block ivec), (ctr128_inc ivec, block ivec), 0)"
      using ctr_ref_block [OF assms(1) 1(2), of "take 16 inp" e] True by simp
    then have "ctr_ref block (take 16 inp @ drop 16 inp) ((ivec, e), 0) =
        (let (o2, st) = ctr_ref block rest ((ivec', e'), 0) in ((xor_bytes (take 16 inp) (block ivec) @ out) @ o2, st))"
      unfolding stream_ref_append using IH(4) by (simp add: Let_def split: prod.splits)
    ultimately show ?thesis using IH(2,3) by simp
  next
    case False
    then show ?thesis using 1(2)
      by (intro exI [of _ "[]"] exI [of _ inp] exI [of _ ivec] exI [of _ e]) (simp add: ctr_blocks.simps [of block inp ivec e 0] Let_def)
  qed
qed

lemma xor_tail: "length xs \<le> length k \<Longrightarrow> map (\<lambda>i. xs ! i XOR k ! i) [0..<0 + length xs] = xor_bytes xs k"
  by (intro nth_equalityI) simp_all

text \<open>Any two ways to process what is left at the beginning of a block lead to the same end.\<close>

lemma CRYPTO_ctr128_encrypt:
  assumes "block_sized block" "length ivec = 16" "num < 16"
  shows "CRYPTO_ctr128_encrypt block inp (ivec, e, num) = (let (out, (ivec, e), n) = ctr_ref block inp ((ivec, e), num) in (out, ivec, e, n))"
proof -
  obtain o1 rest n where u: "use_rest e num inp = (o1, rest, n)" by (cases "use_rest e num inp") auto
  then have u': "use_rest (snd (ivec, e)) num inp = (o1, rest, n)" by simp
  note U = use_rest_ref(1) [where key = snd and s = "(ivec, e)" and refresh = "ctr_refresh block", OF u' assms(3)]
    use_rest_ref(2) [where key = snd and s = "(ivec, e)", OF u' assms(3)]
  show ?thesis
  proof (cases "rest = []")
    case True
    then have "ctr_blocks block rest (ivec, e, n) = ([], [], ivec, e, n)" by (simp add: ctr_blocks.simps)
    then show ?thesis using u U(1) True by (simp add: CRYPTO_ctr128_encrypt_def)
  next
    case False
    then have n: "n = 0" using U(2) by simp
    obtain o2 inp2 ivec2 e2 where b: "ctr_blocks block rest (ivec, e, 0) = (o2, inp2, ivec2, e2, 0)" "length inp2 < 16" "length ivec2 = 16"
      "ctr_ref block rest ((ivec, e), 0) = (let (o3, st) = ctr_ref block inp2 ((ivec2, e2), 0) in (o2 @ o3, st))"
      using ctr_blocks [OF assms(1,2), of rest e] by blast
    show ?thesis
    proof (cases "inp2 = []")
      case True
      then show ?thesis using u U(1) n b by (simp add: CRYPTO_ctr128_encrypt_def)
    next
      case False
      have "map (\<lambda>k. inp2 ! k XOR block ivec2 ! k) [0..<0 + length inp2] = xor_bytes inp2 (block ivec2)"
        by (rule xor_tail) (use b(2) block_sizedD [OF assms(1) b(3)] in simp)
      then show ?thesis
        using False u U(1) n b ctr_ref_block [OF assms(1) b(3), of inp2 e2] by (simp add: CRYPTO_ctr128_encrypt_def Let_def)
    qed
  qed
qed

subsection \<open>Counting in 32 bits\<close>

text \<open>What the function that handles many blocks must do: only the last four bytes of the vector count.\<close>

definition counts32 :: "(bytes \<Rightarrow> bytes) \<Rightarrow> (bytes \<Rightarrow> nat \<Rightarrow> bytes \<Rightarrow> bytes) \<Rightarrow> bool" where
  "counts32 block func \<longleftrightarrow> (\<forall>inp blocks ivec. length ivec = 16 \<longrightarrow> length inp = 16 * blocks \<longrightarrow>
     func inp blocks ivec = concat (map (\<lambda>i. xor_bytes (region inp (16 * i) 16) (block (take 12 ivec @ be_bytes 4 (be_val (drop 12 ivec) + i)))) [0..<blocks]))"

lemma counter_split:
  assumes "length ivec = 16"
  shows "be_val ivec = be_val (take 12 ivec) * 2 ^ 32 + be_val (drop 12 ivec)" "be_val (drop 12 ivec) < 2 ^ 32"
proof -
  have "be_val (take 12 ivec @ drop 12 ivec) = be_val (take 12 ivec) * 256 ^ length (drop 12 ivec) + be_val (drop 12 ivec)" by (rule be_val_append)
  then show "be_val ivec = be_val (take 12 ivec) * 2 ^ 32 + be_val (drop 12 ivec)" using assms by simp
  show "be_val (drop 12 ivec) < 2 ^ 32" using be_val_less [of "drop 12 ivec"] assms by simp
qed

lemma counter_low:
  assumes "length ivec = 16" "be_val (drop 12 ivec) + i < 2 ^ 32"
  shows "be_bytes 16 (be_val ivec + i) = take 12 ivec @ be_bytes 4 (be_val (drop 12 ivec) + i)"
proof -
  have l: "length (take 12 ivec) = 12" using assms(1) by simp
  have s: "be_val ivec + i = be_val (take 12 ivec) * 256 ^ 4 + (be_val (drop 12 ivec) + i)" using counter_split(1) [OF assms(1)] by simp
  have d: "(be_val ivec + i) div 256 ^ 4 = be_val (take 12 ivec)" "(be_val ivec + i) mod 256 ^ 4 = be_val (drop 12 ivec) + i"
    unfolding s using assms(2) by (simp_all add: div_mult_self3)
  have "be_bytes 16 (be_val ivec + i) = be_bytes 12 ((be_val ivec + i) div 256 ^ 4) @ be_bytes 4 (be_val ivec + i)"
    using be_bytes_add [of 12 4 "be_val ivec + i"] by simp
  also have "\<dots> = take 12 ivec @ be_bytes 4 (be_val (drop 12 ivec) + i)"
    using be_bytes_be_val [OF l] be_bytes_mod [of 4 "be_val ivec + i"] by (simp only: d)
  finally show ?thesis .
qed

lemma ctr_ref_blocks:
  assumes "block_sized block" "length ivec = 16" "length inp = 16 * blocks"
  shows "\<exists>e'. ctr_ref block inp ((ivec, e), 0) =
    (concat (map (\<lambda>i. xor_bytes (region inp (16 * i) 16) (block (be_bytes 16 (be_val ivec + i)))) [0..<blocks]), (be_bytes 16 (be_val ivec + blocks), e'), 0)"
  using assms(3)
proof (induction blocks arbitrary: inp)
  case 0
  then show ?case using be_bytes_be_val [OF assms(2)] by simp
next
  case (Suc b)
  let ?xs = "take (16 * b) inp" and ?y = "drop (16 * b) inp" and ?iv = "be_bytes 16 (be_val ivec + b)"
  have ly: "length ?y = 16" using Suc.prems by simp
  obtain e1 where IH: "ctr_ref block ?xs ((ivec, e), 0) =
      (concat (map (\<lambda>i. xor_bytes (region ?xs (16 * i) 16) (block (be_bytes 16 (be_val ivec + i)))) [0..<b]), (?iv, e1), 0)"
    using Suc.IH [of ?xs] Suc.prems by auto
  have r: "region ?xs (16 * i) 16 = region inp (16 * i) 16" if "i < b" for i
    using that by (simp add: drop_take min_def)
  have y: "ctr_ref block ?y ((?iv, e1), 0) = (xor_bytes ?y (block ?iv), (ctr128_inc ?iv, block ?iv), 0)"
    using ctr_ref_block [OF assms(1), of ?iv ?y e1] ly by simp
  have "be_val ?iv + 1 = (be_val ivec + b) mod 256 ^ 16 + 1" by (simp add: be_val_be_bytes)
  then have i: "ctr128_inc ?iv = be_bytes 16 (be_val ivec + Suc b)"
    using be_bytes_mod [of 16 "be_val ivec + Suc b"] be_bytes_mod [of 16 "(be_val ivec + b) mod 256 ^ 16 + 1"]
    by (simp add: ctr128_inc mod_Suc_eq)
  have m: "map (\<lambda>i. xor_bytes (region ?xs (16 * i) 16) (block (be_bytes 16 (be_val ivec + i)))) [0..<b] =
      map (\<lambda>i. xor_bytes (region inp (16 * i) 16) (block (be_bytes 16 (be_val ivec + i)))) [0..<b]"
    by (rule map_cong) (simp_all add: r)
  have "ctr_ref block (?xs @ ?y) ((ivec, e), 0) =
      (concat (map (\<lambda>i. xor_bytes (region inp (16 * i) 16) (block (be_bytes 16 (be_val ivec + i)))) [0..<b]) @ xor_bytes ?y (block ?iv),
       (be_bytes 16 (be_val ivec + Suc b), block ?iv), 0)"
    unfolding stream_ref_append IH m by (simp only: Let_def prod.case y i)
  then show ?case using ly by (intro exI [of _ "block ?iv"]) simp
qed

lemma func_blocks:
  assumes "block_sized block" "counts32 block func" "length ivec = 16" "length inp = 16 * blocks" "be_val (drop 12 ivec) + blocks \<le> 2 ^ 32"
  shows "\<exists>e'. ctr_ref block inp ((ivec, e), 0) = (func inp blocks ivec, (be_bytes 16 (be_val ivec + blocks), e'), 0)"
proof -
  have m: "map (\<lambda>i. xor_bytes (region inp (16 * i) 16) (block (take 12 ivec @ be_bytes 4 (be_val (drop 12 ivec) + i)))) [0..<blocks] =
      map (\<lambda>i. xor_bytes (region inp (16 * i) 16) (block (be_bytes 16 (be_val ivec + i)))) [0..<blocks]"
    by (rule map_cong) (use counter_low [OF assms(3)] assms(5) in simp_all)
  have f: "func inp blocks ivec = concat (map (\<lambda>i. xor_bytes (region inp (16 * i) 16) (block (be_bytes 16 (be_val ivec + i)))) [0..<blocks])"
    using assms(2-4) unfolding counts32_def m [symmetric] by blast
  show ?thesis unfolding f by (rule ctr_ref_blocks [OF assms(1,3,4)])
qed

text \<open>Storing the new low half and carrying into the upper half adds the number of blocks.\<close>

lemma next_ctr32:
  assumes "length ivec = 16" "0 < b" "be_val (drop 12 ivec) + b \<le> 2 ^ 32"
  shows "(if of_nat (be_val (drop 12 ivec) + b) = (0 :: u32) then ctr96_inc (PUTU32 ivec 12 (of_nat (be_val (drop 12 ivec) + b)))
      else PUTU32 ivec 12 (of_nat (be_val (drop 12 ivec) + b))) = be_bytes 16 (be_val ivec + b)"
proof -
  define m where "m = be_val (drop 12 ivec) + b"
  have put: "PUTU32 ivec 12 v = take 12 ivec @ be_bytes 4 (unat v)" for v using assms(1) by (simp add: PUTU32_def blit_def)
  show ?thesis
  proof (cases "m = 2 ^ 32")
    case True
    then have z: "(of_nat m :: u32) = 0" by (simp add: word_eq_iff_unsigned [where ?'a = nat] unat_of_nat)
    let ?iv = "take 12 ivec @ be_bytes 4 0"
    have lz: "be_val (take 12 ivec) + 1 = (be_val ivec + b) div 256 ^ 4"
    proof -
      have "be_val ivec + b = (be_val (take 12 ivec) + 1) * 256 ^ 4" using counter_split(1) [OF assms(1)] True by (simp add: m_def)
      then show ?thesis by simp
    qed
    have low: "(be_val ivec + b) mod 256 ^ 4 = 0"
    proof -
      have "be_val ivec + b = (be_val (take 12 ivec) + 1) * 256 ^ 4" using counter_split(1) [OF assms(1)] True by (simp add: m_def)
      then show ?thesis by simp
    qed
    have "ctr96_inc ?iv = be_bytes 12 (be_val (take 12 ivec) + 1) @ be_bytes 4 0"
      using inc_bytes [of 12 ?iv] assms(1) by (simp add: ctr96_inc_def)
    also have "\<dots> = be_bytes 16 (be_val ivec + b)"
      using be_bytes_add [of 12 4 "be_val ivec + b"] be_bytes_mod [of 4 "be_val ivec + b"] unfolding lz low by simp
    finally show ?thesis using z put [of 0] by (simp only: m_def [symmetric] unsigned_0) simp
  next
    case False
    then have lt: "m < 2 ^ 32" using assms(3) by (simp add: m_def)
    then have u: "unat (of_nat m :: u32) = m" by (simp add: unat_of_nat take_bit_nat_eq_self)
    then have "(of_nat m :: u32) \<noteq> 0" using assms(2) by (auto simp: m_def)
    then show ?thesis using counter_low [OF assms(1), of b] lt put [of "of_nat m"] u by (simp only: m_def [symmetric] if_False)
  qed
qed

lemma GETU32_low: "length ivec = 16 \<Longrightarrow> GETU32 ivec 12 = of_nat (be_val (drop 12 ivec))"
  by (simp add: GETU32_def)

lemma low_of_counter: "be_val (drop 12 (be_bytes 16 n)) = n mod 2 ^ 32"
proof -
  have "drop 12 (be_bytes 16 n) = be_bytes 4 n" using be_bytes_add [of 12 4 n] by simp
  then show ?thesis by (simp add: be_val_be_bytes)
qed

lemma ctr32_blocks:
  assumes "block_sized block" "counts32 block func" "length ivec = 16"
  shows "\<exists>out rest ivec' e'. ctr32_blocks func inp ivec (GETU32 ivec 12) = (out, rest, ivec', GETU32 ivec' 12) \<and> length rest < 16 \<and> length ivec' = 16 \<and>
    (length inp < 16 \<longrightarrow> e' = e) \<and> ctr_ref block inp ((ivec, e), 0) = (let (o2, st) = ctr_ref block rest ((ivec', e'), 0) in (out @ o2, st))"
  using assms(3)
proof (induction inp arbitrary: ivec e rule: length_induct)
  case (1 inp)
  show ?case
  proof (cases "16 \<le> length inp")
    case True
    define lo where "lo = be_val (drop 12 ivec)"
    have lo: "lo < 2 ^ 32" "GETU32 ivec 12 = of_nat lo" using counter_split(2) [OF 1(2)] GETU32_low [OF 1(2)] by (simp_all add: lo_def)
    define b0 where "b0 = (if length inp div 16 > 2 ^ 28 then 2 ^ 28 else length inp div 16)"
    have b0: "0 < b0" "b0 \<le> 2 ^ 28" "16 * b0 \<le> length inp" using True by (auto simp: b0_def)
    define s where "s = GETU32 ivec 12 + of_nat b0"
    have us: "unat s = (lo + b0) mod 2 ^ 32" unfolding s_def lo(2) by (simp add: unat_of_nat take_bit_eq_mod flip: of_nat_add)
    define b where "b = (if unat s < b0 then b0 - unat s else b0)"
    define c where "c = (if unat s < b0 then 0 else s)"
    have b: "0 < b" "b \<le> b0" "lo + b \<le> 2 ^ 32" "c = of_nat (lo + b)"
    proof -
      have "0 < b \<and> b \<le> b0 \<and> lo + b \<le> 2 ^ 32 \<and> c = of_nat (lo + b)"
      proof (cases "lo + b0 < 2 ^ 32")
        case True
        then have "unat s = lo + b0" using us by simp
        then show ?thesis using b0(1) True by (simp add: b_def c_def s_def lo(2))
      next
        case False
        then have "lo + b0 - 2 ^ 32 < 2 ^ 32" using lo(1) b0(2) by simp
        then have "unat s = lo + b0 - 2 ^ 32" using us False by (simp add: le_mod_geq)
        then have "unat s < b0" "b0 - unat s = 2 ^ 32 - lo" using lo(1) False b0(1,2) by simp_all
        moreover have "(of_nat (2 ^ 32) :: u32) = 0" by (simp add: word_eq_iff_unsigned [where ?'a = nat])
        ultimately show ?thesis using lo(1) b0(1) by (simp add: b_def c_def)
      qed
      then show "0 < b" "b \<le> b0" "lo + b \<le> 2 ^ 32" "c = of_nat (lo + b)" by blast+
    qed
    define ivec1 where "ivec1 = be_bytes 16 (be_val ivec + b)"
    have iv1: "(if c = 0 then ctr96_inc (PUTU32 ivec 12 c) else PUTU32 ivec 12 c) = ivec1"
      using next_ctr32 [OF 1(2) b(1)] b(3) unfolding b(4) ivec1_def lo_def by blast
    have c1: "c = GETU32 ivec1 12"
    proof -
      have "(be_val ivec + b) mod 2 ^ 32 = (lo + b) mod 2 ^ 32"
        using counter_split(1) [OF 1(2)] by (simp add: lo_def add.assoc)
      moreover have "GETU32 ivec1 12 = of_nat ((be_val ivec + b) mod 2 ^ 32)"
        using GETU32_low [of ivec1] low_of_counter by (simp add: ivec1_def)
      moreover have "(of_nat ((lo + b) mod 2 ^ 32) :: u32) = of_nat (lo + b)"
        unfolding word_of_nat_eq_iff take_bit_eq_mod by simp
      ultimately show ?thesis unfolding b(4) by (simp only:)
    qed
    have "ctr32_blocks func inp ivec (GETU32 ivec 12) =
        (let (out, rest) = ctr32_blocks func (drop (16 * b) inp) ivec1 c in (func (take (16 * b) inp) b ivec @ out, rest))"
      unfolding ctr32_blocks.simps [of func inp ivec "GETU32 ivec 12"] if_P [OF True] Let_def b0_def [symmetric] s_def [symmetric]
      using iv1 by (auto simp: b_def c_def split: if_splits)
    moreover have sh: "length (drop (16 * b) inp) < length inp" using b(1) True by simp
    have ll: "length ivec1 = 16" by (simp add: ivec1_def)
    have lt: "length (take (16 * b) inp) = 16 * b" using b(2) b0(3) by simp
    obtain e1 where F: "ctr_ref block (take (16 * b) inp) ((ivec, e), 0) = (func (take (16 * b) inp) b ivec, (ivec1, e1), 0)"
      using func_blocks [OF assms(1,2) 1(2) lt, of e] b(3) by (auto simp: lo_def ivec1_def)
    obtain out rest ivec' e' where IH: "ctr32_blocks func (drop (16 * b) inp) ivec1 (GETU32 ivec1 12) = (out, rest, ivec', GETU32 ivec' 12)"
      "length rest < 16" "length ivec' = 16"
      "ctr_ref block (drop (16 * b) inp) ((ivec1, e1), 0) = (let (o2, st) = ctr_ref block rest ((ivec', e'), 0) in (out @ o2, st))"
      using 1(1) [rule_format, OF sh ll, of e1] by blast
    have "ctr_ref block (take (16 * b) inp @ drop (16 * b) inp) ((ivec, e), 0) =
        (let (o2, st) = ctr_ref block rest ((ivec', e'), 0) in ((func (take (16 * b) inp) b ivec @ out) @ o2, st))"
      unfolding stream_ref_append F using IH(4) by (simp add: Let_def split: prod.splits)
    ultimately show ?thesis using IH(1-3) True c1
      by (intro exI [of _ "func (take (16 * b) inp) b ivec @ out"] exI [of _ rest] exI [of _ ivec'] exI [of _ e']) simp
  next
    case False
    then show ?thesis using 1(2)
      by (intro exI [of _ "[]"] exI [of _ inp] exI [of _ ivec] exI [of _ e]) (simp add: ctr32_blocks.simps [of func inp ivec "GETU32 ivec 12"] Let_def)
  qed
qed

text \<open>The two variants agree; the buffered block is only the same if some of it is left.\<close>

lemma CRYPTO_ctr128_encrypt_ctr32:
  assumes "block_sized block" "counts32 block func" "length ivec = 16" "num < 16"
  shows "\<exists>out ivec' e1 e2 n. CRYPTO_ctr128_encrypt block inp (ivec, e, num) = (out, ivec', e1, n) \<and>
    CRYPTO_ctr128_encrypt_ctr32 func inp (ivec, e, num) = (out, ivec', e2, n) \<and> (n \<noteq> 0 \<longrightarrow> e1 = e2)"
proof -
  obtain o1 rest n where u: "use_rest e num inp = (o1, rest, n)" by (cases "use_rest e num inp") auto
  then have u': "use_rest (snd (ivec, e)) num inp = (o1, rest, n)" by simp
  note U = use_rest_ref(1) [where key = snd and s = "(ivec, e)" and refresh = "ctr_refresh block", OF u' assms(4)]
    use_rest_ref(2) [where key = snd and s = "(ivec, e)", OF u' assms(4)]
  note R = CRYPTO_ctr128_encrypt [OF assms(1,3,4), of inp e]
  show ?thesis
  proof (cases "rest = []")
    case True
    then show ?thesis using u U(1) R by (simp add: CRYPTO_ctr128_encrypt_ctr32_def ctr32_blocks.simps)
  next
    case False
    then have n: "n = 0" using U(2) by simp
    obtain o2 inp2 ivec2 e2 where b: "ctr32_blocks func rest ivec (GETU32 ivec 12) = (o2, inp2, ivec2, GETU32 ivec2 12)" "length inp2 < 16" "length ivec2 = 16"
      "ctr_ref block rest ((ivec, e), 0) = (let (o3, st) = ctr_ref block inp2 ((ivec2, e2), 0) in (o2 @ o3, st))"
      using ctr32_blocks [OF assms(1-3), of rest e] by blast
    show ?thesis
    proof (cases "inp2 = []")
      case True
      then show ?thesis using u U(1) n b R by (simp add: CRYPTO_ctr128_encrypt_ctr32_def)
    next
      case False
      have lb: "length (block ivec2) = 16" by (rule block_sizedD [OF assms(1) b(3)])
      have "func (replicate 16 0) 1 ivec2 = xor_bytes (replicate 16 0) (block (be_bytes 16 (be_val ivec2)))"
        using assms(2) b(3) counter_low [OF b(3), of 0] counter_split(2) [OF b(3)] by (simp add: counts32_def)
      also have "\<dots> = block ivec2"
        unfolding be_bytes_be_val [OF b(3)] using lb by (intro nth_equalityI) simp_all
      finally have f: "func (replicate 16 0) 1 ivec2 = block ivec2" .
      have iv: "(if GETU32 ivec2 12 + 1 = 0 then ctr96_inc (PUTU32 ivec2 12 (GETU32 ivec2 12 + 1)) else PUTU32 ivec2 12 (GETU32 ivec2 12 + 1)) = ctr128_inc ivec2"
      proof -
        have "GETU32 ivec2 12 + 1 = of_nat (be_val (drop 12 ivec2) + 1)" by (simp add: GETU32_low [OF b(3)])
        then show ?thesis using next_ctr32 [OF b(3), of 1] counter_split(2) [OF b(3)] by (simp only: ctr128_inc [OF b(3)])
      qed
      have "map (\<lambda>k. inp2 ! k XOR block ivec2 ! k) [0..<0 + length inp2] = xor_bytes inp2 (block ivec2)"
        by (rule xor_tail) (use b(2) lb in simp)
      then show ?thesis
        using False u U(1) n b R ctr_ref_block [OF assms(1) b(3), of inp2 e2] f iv by (simp add: CRYPTO_ctr128_encrypt_ctr32_def Let_def)
    qed
  qed
qed

section \<open>The feedback modes are correct\<close>

lemma ofb_blocks:
  assumes "block_sized block" "length ivec = 16"
  shows "\<exists>out rest ivec'. ofb_blocks block inp (ivec, 0) = (out, rest, ivec', 0) \<and> length rest < 16 \<and> length ivec' = 16 \<and>
    stream_ref block (\<lambda>x. x) inp (ivec, 0) = (let (o2, st) = stream_ref block (\<lambda>x. x) rest (ivec', 0) in (out @ o2, st))"
  using assms(2)
proof (induction inp arbitrary: ivec rule: length_induct)
  case (1 inp)
  show ?case
  proof (cases "16 \<le> length inp")
    case True
    have lb: "length (block ivec) = 16" by (rule block_sizedD [OF assms(1) 1(2)])
    have "length (drop 16 inp) < length inp" using True by simp
    from 1(1) [rule_format, OF this lb] obtain out rest ivec' where
      IH: "ofb_blocks block (drop 16 inp) (block ivec, 0) = (out, rest, ivec', 0)" "length rest < 16" "length ivec' = 16"
      "stream_ref block (\<lambda>x. x) (drop 16 inp) (block ivec, 0) = (let (o2, st) = stream_ref block (\<lambda>x. x) rest (ivec', 0) in (out @ o2, st))"
      by blast
    have x: "xor_words inp (block ivec) 0 = xor_bytes (take 16 inp) (block ivec)" using xor_words [OF True] lb by simp
    have "stream_ref block (\<lambda>x. x) (take 16 inp) (ivec, 0) = (xor_bytes (take 16 inp) (block ivec), block ivec, 0)"
      using stream_ref_block [of "take 16 inp" "\<lambda>x. x" block ivec] True lb by simp
    then have "stream_ref block (\<lambda>x. x) (take 16 inp @ drop 16 inp) (ivec, 0) =
        (let (o2, st) = stream_ref block (\<lambda>x. x) rest (ivec', 0) in ((xor_bytes (take 16 inp) (block ivec) @ out) @ o2, st))"
      unfolding stream_ref_append using IH(4) by (simp add: Let_def split: prod.splits)
    moreover have "ofb_blocks block inp (ivec, 0) = (xor_bytes (take 16 inp) (block ivec) @ out, rest, ivec', 0)"
      using True IH(1) x by (simp add: ofb_blocks.simps [of block inp ivec 0] Let_def)
    ultimately show ?thesis using IH(2,3) by simp
  next
    case False
    then show ?thesis using 1(2)
      by (intro exI [of _ "[]"] exI [of _ inp] exI [of _ ivec]) (simp add: ofb_blocks.simps [of block inp ivec 0] Let_def)
  qed
qed

lemma CRYPTO_ofb128_encrypt:
  assumes "block_sized block" "length ivec = 16" "num < 16"
  shows "CRYPTO_ofb128_encrypt block inp (ivec, num) = stream_ref block (\<lambda>x. x) inp (ivec, num)"
proof -
  obtain o1 rest n where u: "use_rest ivec num inp = (o1, rest, n)" by (cases "use_rest ivec num inp") auto
  note U = use_rest_ref(1) [where key = "\<lambda>x. x" and refresh = block, OF u assms(3)] use_rest_ref(2) [where key = "\<lambda>x. x", OF u assms(3)]
  show ?thesis
  proof (cases "rest = []")
    case True
    then show ?thesis using u U(1) by (simp add: CRYPTO_ofb128_encrypt_def ofb_blocks.simps)
  next
    case False
    then have n: "n = 0" using U(2) by simp
    obtain o2 inp2 ivec2 where b: "ofb_blocks block rest (ivec, 0) = (o2, inp2, ivec2, 0)" "length inp2 < 16" "length ivec2 = 16"
      "stream_ref block (\<lambda>x. x) rest (ivec, 0) = (let (o3, st) = stream_ref block (\<lambda>x. x) inp2 (ivec2, 0) in (o2 @ o3, st))"
      using ofb_blocks [OF assms(1,2), of rest] by blast
    show ?thesis
    proof (cases "inp2 = []")
      case True
      then show ?thesis using u U(1) n b by (simp add: CRYPTO_ofb128_encrypt_def)
    next
      case False
      have lb: "length (block ivec2) = 16" by (rule block_sizedD [OF assms(1) b(3)])
      have "map (\<lambda>k. inp2 ! k XOR block ivec2 ! k) [0..<0 + length inp2] = xor_bytes inp2 (block ivec2)"
        by (rule xor_tail) (use b(2) lb in simp)
      then show ?thesis
        using False u U(1) n b stream_ref_block [of inp2 "\<lambda>x. x" block ivec2] lb by (simp add: CRYPTO_ofb128_encrypt_def Let_def)
    qed
  qed
qed

text \<open>The specification of cipher feedback, byte by byte.\<close>

fun cfb_ref :: "(bytes \<Rightarrow> bytes) \<Rightarrow> bool \<Rightarrow> bytes \<Rightarrow> bytes \<times> nat \<Rightarrow> bytes \<times> bytes \<times> nat" where
  "cfb_ref block enc [] st = ([], st)"
| "cfb_ref block enc (x # inp) (ivec, n) =
     (let ivec = (if n = 0 then block ivec else ivec); b = ivec ! n XOR x;
          (out, st) = cfb_ref block enc inp (ivec[n := if enc then b else x], (n + 1) mod 16)
      in (b # out, st))"

lemma cfb_ref_append:
  "cfb_ref block enc (xs @ ys) st = (let (o1, st) = cfb_ref block enc xs st; (o2, st) = cfb_ref block enc ys st in (o1 @ o2, st))"
proof (induction xs arbitrary: st)
  case (Cons x xs)
  then show ?case by (cases st) (simp add: Let_def split: prod.splits)
qed simp

lemma cfb_ref_undo: "cfb_ref block False (fst (cfb_ref block True xs st)) st = (xs, snd (cfb_ref block True xs st))"
proof (induction xs arbitrary: st)
  case (Cons x xs)
  obtain ivec n where st: "st = (ivec, n)" by (cases st)
  define iv where "iv = (if n = 0 then block ivec else ivec)"
  define b where "b = iv ! n XOR x"
  obtain out st' where r: "cfb_ref block True xs (iv[n := b], (n + 1) mod 16) = (out, st')" by (cases "cfb_ref block True xs (iv[n := b], (n + 1) mod 16)")
  have "cfb_ref block False out (iv[n := b], (n + 1) mod 16) = (xs, st')" using Cons.IH [of "(iv[n := b], (n + 1) mod 16)"] r by simp
  moreover have "iv ! n XOR b = x" by (simp add: b_def flip: xor.assoc)
  ultimately show ?case using r by (simp add: st iv_def [symmetric] b_def [symmetric] Let_def)
qed simp

lemma cfb_tail_ref:
  "0 < n \<Longrightarrow> n < 16 \<Longrightarrow> n + length xs \<le> 16 \<Longrightarrow> length ivec = 16 \<Longrightarrow>
    cfb_ref block enc xs (ivec, n) = (let (out, ivec, n) = cfb_tail enc ivec n xs in (out, ivec, n mod 16)) \<and>
    cfb_tail enc ivec n xs = (xor_bytes (drop n ivec) xs, blit ivec n (if enc then xor_bytes (drop n ivec) xs else xs), n + length xs)"
proof (induction xs arbitrary: n ivec)
  case (Cons x xs)
  have d: "drop n ivec = ivec ! n # drop (Suc n) ivec" using Cons.prems by (intro Cons_nth_drop_Suc [symmetric]) simp
  define b where "b = ivec ! n XOR x"
  define iv where "iv = ivec[n := if enc then b else x]"
  have iv: "length iv = 16" "drop (Suc n) iv = drop (Suc n) ivec" using Cons.prems by (simp_all add: iv_def)
  have blit: "blit iv (Suc n) ys = blit ivec n ((if enc then b else x) # ys)" for ys
  proof -
    have "take (Suc n) iv = take n ivec @ [if enc then b else x]"
      using Cons.prems by (simp add: iv_def take_Suc_conv_app_nth)
    moreover have "drop (Suc n + length ys) iv = drop (Suc n + length ys) ivec" by (simp add: iv_def)
    ultimately show ?thesis by (simp add: blit_def)
  qed
  show ?case
  proof (cases "n = 15")
    case True
    then have "xs = []" using Cons.prems by (cases xs) simp_all
    then show ?thesis using True d Cons.prems by (simp add: Let_def blit_one)
  next
    case False
    then have m: "(n + 1) mod 16 = n + 1" using Cons.prems by simp
    have "cfb_ref block enc xs (iv, n + 1) = (let (out, ivec, n) = cfb_tail enc iv (n + 1) xs in (out, ivec, n mod 16)) \<and>
        cfb_tail enc iv (n + 1) xs = (xor_bytes (drop (n + 1) iv) xs, blit iv (n + 1) (if enc then xor_bytes (drop (n + 1) iv) xs else xs), (n + 1) + length xs)"
      by (rule Cons.IH) (use Cons.prems False iv in simp_all)
    moreover have "cfb_ref block enc (x # xs) (ivec, n) = (let (out, st) = cfb_ref block enc xs (iv, n + 1) in (b # out, st))"
      using m Cons.prems(1) by (simp add: b_def iv_def Let_def)
    moreover have "cfb_tail enc ivec n (x # xs) = (let (out, st) = cfb_tail enc iv (n + 1) xs in (b # out, st))"
      by (simp add: b_def iv_def Let_def)
    moreover have "xor_bytes (drop n ivec) (x # xs) = b # xor_bytes (drop (n + 1) iv) xs" by (simp add: d b_def iv(2))
    ultimately show ?thesis using blit by (cases enc) (simp_all add: Let_def del: cfb_ref.simps cfb_tail.simps)
  qed
qed (simp add: Let_def)

lemma cfb_tail_start:
  assumes "length xs \<le> 16" "length (block ivec) = 16" "xs \<noteq> []"
  shows "cfb_ref block enc xs (ivec, 0) = (let (out, ivec, n) = cfb_tail enc (block ivec) 0 xs in (out, ivec, n mod 16))"
    "cfb_tail enc (block ivec) 0 xs = (xor_bytes (block ivec) xs, blit (block ivec) 0 (if enc then xor_bytes (block ivec) xs else xs), length xs)"
proof -
  obtain x ys where xs: "xs = x # ys" using assms(3) by (cases xs) auto
  obtain k ks where k: "block ivec = k # ks" using assms(2) by (cases "block ivec") auto
  define b where "b = (if enc then k XOR x else x)"
  have "cfb_ref block enc ys ((b # ks), 1) = (let (out, ivec, n) = cfb_tail enc (b # ks) 1 ys in (out, ivec, n mod 16)) \<and>
      cfb_tail enc (b # ks) 1 ys = (xor_bytes (drop 1 (b # ks)) ys, blit (b # ks) 1 (if enc then xor_bytes (drop 1 (b # ks)) ys else ys), 1 + length ys)"
    by (rule cfb_tail_ref) (use assms xs k in simp_all)
  then show "cfb_ref block enc xs (ivec, 0) = (let (out, ivec, n) = cfb_tail enc (block ivec) 0 xs in (out, ivec, n mod 16))"
    "cfb_tail enc (block ivec) 0 xs = (xor_bytes (block ivec) xs, blit (block ivec) 0 (if enc then xor_bytes (block ivec) xs else xs), length xs)"
    by (auto simp: xs k b_def Let_def blit_def)
qed

text \<open>A whole block by words is a whole block by bytes.\<close>

lemma cfb_words:
  assumes "16 \<le> length inp" "length k = 16"
  shows "cfb_words enc inp 0 k = (if enc then xor_bytes k (take 16 inp) else take 16 inp, xor_bytes k (take 16 inp))"
proof -
  define x where "x = xor_bytes (take 8 k) (take 8 inp)"
  define y where "y = xor_bytes (take 8 (drop 8 k)) (take 8 (drop 8 inp))"
  have l: "length x = 8" "length y = 8" using assms by (simp_all add: x_def y_def)
  have xy: "x @ y = xor_bytes k (take 16 inp)" using xor_16 [of k inp] assms by (simp add: x_def y_def)
  have step: "cfb_words enc inp 0 k = (blit k1 8 w2, blit (blit (replicate 16 0) 0 x) 8 y)"
    if e: "w = (if enc then x else take 8 inp)" "w2 = (if enc then y else take 8 (drop 8 inp))" "k1 = blit k 0 w" for w w2 k1
  proof -
    have "length w = 8" using l assms by (simp add: e)
    then have k1: "length k1 = 16" "take 8 (drop 8 k1) = take 8 (drop 8 k)" using assms by (simp_all add: e(3) blit_def)
    have s1: "store_word_le m p (load_word_le k 0 XOR load_word_le inp 0) = blit m p x" for m p
      using store_xor [of 0 k 0 inp] assms by (simp add: x_def)
    have s2: "store_word_le m p (load_word_le k1 8 XOR load_word_le inp 8) = blit m p y" for m p
      using store_xor [of 8 k1 8 inp] assms k1 by (simp add: y_def)
    have t1: "store_word_le m p (load_word_le inp 0) = blit m p (take 8 inp)" for m p using store_loaded [of 0 inp m p] assms by simp
    have t2: "store_word_le m p (load_word_le inp 8) = blit m p (take 8 (drop 8 inp))" for m p using store_loaded [of 8 inp m p] assms by simp
    show ?thesis
    proof (cases enc)
      case True
      then have "blit k 0 x = k1" by (simp add: e)
      then show ?thesis using True by (simp add: cfb_words_def s1 s2 e(2))
    next
      case False
      then have "blit k 0 (take 8 inp) = k1" by (simp add: e)
      then show ?thesis using False by (simp add: cfb_words_def s1 s2 t1 t2 e(2))
    qed
  qed
  moreover have "blit (blit (replicate 16 0) 0 x) 8 y = x @ y" using l by (simp add: blit_def)
  moreover have "blit (blit k 0 w) 8 w2 = w @ w2" if "length w = 8" "length w2 = 8" for w w2
    using that assms by (simp add: blit_def)
  moreover have "(if enc then x else take 8 inp) @ (if enc then y else take 8 (drop 8 inp)) = (if enc then x @ y else take 16 inp)"
    using take_16 [of inp] by simp
  ultimately show ?thesis using l assms by (simp add: xy)
qed

lemma cfb_rest_ref:
  "n < 16 \<Longrightarrow> length ivec = 16 \<Longrightarrow>
    (case cfb_rest enc ivec n inp of (o1, rest, ivec', n') \<Rightarrow>
      cfb_ref block enc inp (ivec, n) = (let (o2, st) = cfb_ref block enc rest (ivec', n') in (o1 @ o2, st)) \<and>
      length ivec' = 16 \<and> n' < 16 \<and> (rest \<noteq> [] \<longrightarrow> n' = 0))"
proof (induction inp arbitrary: ivec n)
  case (Cons x inp)
  show ?case
  proof (cases "n = 0")
    case False
    define b where "b = ivec ! n XOR x"
    define iv where "iv = ivec[n := if enc then b else x]"
    have "case cfb_rest enc iv ((n + 1) mod 16) inp of (o1, rest, ivec', n') \<Rightarrow>
      cfb_ref block enc inp (iv, (n + 1) mod 16) = (let (o2, st) = cfb_ref block enc rest (ivec', n') in (o1 @ o2, st)) \<and>
      length ivec' = 16 \<and> n' < 16 \<and> (rest \<noteq> [] \<longrightarrow> n' = 0)"
      by (rule Cons.IH) (use Cons.prems in \<open>simp_all add: iv_def\<close>)
    moreover have "cfb_rest enc ivec n (x # inp) = (let (out, rest) = cfb_rest enc iv ((n + 1) mod 16) inp in (b # out, rest))"
      using False by (simp add: b_def iv_def Let_def)
    moreover have "cfb_ref block enc (x # inp) (ivec, n) = (let (out, st) = cfb_ref block enc inp (iv, (n + 1) mod 16) in (b # out, st))"
      using False by (simp add: b_def iv_def Let_def)
    ultimately show ?thesis by (simp add: Let_def del: cfb_ref.simps cfb_rest.simps split: prod.splits)
  qed (use Cons.prems in \<open>simp add: Let_def split: prod.splits\<close>)
qed simp

lemma cfb_ref_block:
  assumes "length xs = 16" "length (block ivec) = 16"
  shows "cfb_ref block enc xs (ivec, 0) = (xor_bytes (block ivec) xs, if enc then xor_bytes (block ivec) xs else xs, 0)"
proof -
  have "xs \<noteq> []" using assms(1) by auto
  then have "cfb_ref block enc xs (ivec, 0) = (xor_bytes (block ivec) xs, blit (block ivec) 0 (if enc then xor_bytes (block ivec) xs else xs), 0)"
    using cfb_tail_start [of xs block ivec enc] assms by simp
  then show ?thesis using assms by (simp add: blit_def)
qed

lemma cfb_blocks:
  assumes "block_sized block" "length ivec = 16"
  shows "\<exists>out rest ivec'. cfb_blocks block enc inp (ivec, 0) = (out, rest, ivec', 0) \<and> length rest < 16 \<and> length ivec' = 16 \<and>
    cfb_ref block enc inp (ivec, 0) = (let (o2, st) = cfb_ref block enc rest (ivec', 0) in (out @ o2, st))"
  using assms(2)
proof (induction inp arbitrary: ivec rule: length_induct)
  case (1 inp)
  show ?case
  proof (cases "16 \<le> length inp")
    case True
    have lb: "length (block ivec) = 16" by (rule block_sizedD [OF assms(1) 1(2)])
    define o1 where "o1 = xor_bytes (block ivec) (take 16 inp)"
    define iv where "iv = (if enc then o1 else take 16 inp)"
    have liv: "length iv = 16" using lb True by (simp add: iv_def o1_def)
    have "length (drop 16 inp) < length inp" using True by simp
    from 1(1) [rule_format, OF this liv] obtain out rest ivec' where
      IH: "cfb_blocks block enc (drop 16 inp) (iv, 0) = (out, rest, ivec', 0)" "length rest < 16" "length ivec' = 16"
      "cfb_ref block enc (drop 16 inp) (iv, 0) = (let (o2, st) = cfb_ref block enc rest (ivec', 0) in (out @ o2, st))"
      by blast
    have w: "cfb_words enc inp 0 (block ivec) = (iv, o1)" using cfb_words [OF True lb] by (simp add: iv_def o1_def)
    have "cfb_ref block enc (take 16 inp) (ivec, 0) = (o1, iv, 0)"
      using cfb_ref_block [of "take 16 inp" block ivec enc] True lb by (simp add: iv_def o1_def)
    then have "cfb_ref block enc (take 16 inp @ drop 16 inp) (ivec, 0) = (let (o2, st) = cfb_ref block enc rest (ivec', 0) in ((o1 @ out) @ o2, st))"
      unfolding cfb_ref_append using IH(4) by (simp add: Let_def split: prod.splits)
    moreover have "cfb_blocks block enc inp (ivec, 0) = (o1 @ out, rest, ivec', 0)"
      using True IH(1) w by (simp add: cfb_blocks.simps [of block enc inp ivec 0])
    ultimately show ?thesis using IH(2,3) by simp
  next
    case False
    then show ?thesis using 1(2)
      by (intro exI [of _ "[]"] exI [of _ inp] exI [of _ ivec]) (simp add: cfb_blocks.simps [of block enc inp ivec 0] Let_def)
  qed
qed

lemma CRYPTO_cfb128_encrypt:
  assumes "block_sized block" "length ivec = 16" "num < 16"
  shows "CRYPTO_cfb128_encrypt block inp (ivec, num) enc = cfb_ref block enc inp (ivec, num)"
proof -
  obtain o1 rest iv n where u: "cfb_rest enc ivec num inp = (o1, rest, iv, n)" by (cases "cfb_rest enc ivec num inp") auto
  have U: "cfb_ref block enc inp (ivec, num) = (let (o2, st) = cfb_ref block enc rest (iv, n) in (o1 @ o2, st))"
    "length iv = 16" "n < 16" "rest \<noteq> [] \<Longrightarrow> n = 0"
    using cfb_rest_ref [where block = block, OF assms(3,2), of enc inp] u by simp_all
  show ?thesis
  proof (cases "rest = []")
    case True
    then show ?thesis using u U(1) by (simp add: CRYPTO_cfb128_encrypt_def cfb_blocks.simps)
  next
    case False
    then have n: "n = 0" by (rule U(4))
    obtain o2 inp2 iv2 where b: "cfb_blocks block enc rest (iv, 0) = (o2, inp2, iv2, 0)" "length inp2 < 16" "length iv2 = 16"
      "cfb_ref block enc rest (iv, 0) = (let (o3, st) = cfb_ref block enc inp2 (iv2, 0) in (o2 @ o3, st))"
      using cfb_blocks [OF assms(1) U(2), of enc rest] by blast
    show ?thesis
    proof (cases "inp2 = []")
      case True
      then show ?thesis using u U(1) n b by (simp add: CRYPTO_cfb128_encrypt_def)
    next
      case False
      have lb: "length (block iv2) = 16" by (rule block_sizedD [OF assms(1) b(3)])
      have "cfb_ref block enc inp2 (iv2, 0) = cfb_tail enc (block iv2) 0 inp2"
        using cfb_tail_start [of inp2 block iv2 enc] b(2) lb False by simp
      then show ?thesis using False u U(1) n b by (simp add: CRYPTO_cfb128_encrypt_def Let_def split: prod.splits)
    qed
  qed
qed

text \<open>Feedback of eight bits at a time: the vector is a window that slides over the cipher text.\<close>

fun cfb8_ref :: "(bytes \<Rightarrow> bytes) \<Rightarrow> bool \<Rightarrow> bytes \<Rightarrow> bytes \<Rightarrow> bytes \<times> bytes" where
  "cfb8_ref block enc [] ivec = ([], ivec)"
| "cfb8_ref block enc (x # inp) ivec =
     (let c = x XOR hd (block ivec); (out, ivec) = cfb8_ref block enc inp (tl ivec @ [if enc then c else x]) in (c # out, ivec))"

lemma cfbr_encrypt_block_8:
  assumes "length ivec = 16" "length (block ivec) = 16"
  shows "cfbr_encrypt_block block (x # inp) 8 ivec enc =
    (let c = x XOR hd (block ivec) in ([c], tl ivec @ [if enc then c else x]))"
proof -
  have hd: "block ivec ! 0 = hd (block ivec)" using assms(2) by (cases "block ivec") auto
  have ov: "take 16 (drop (Suc 0) (blit (blit (replicate 33 0) 0 ivec) 16 [c])) = tl ivec @ [c]" for c :: u8
    using assms(1) by (cases ivec) (simp_all add: blit_def)
  show ?thesis using assms by (cases enc) (simp_all add: cfbr_encrypt_block_def Let_def hd ov)
qed

lemma CRYPTO_cfb128_8_encrypt:
  "block_sized block \<Longrightarrow> length ivec = 16 \<Longrightarrow> CRYPTO_cfb128_8_encrypt block inp ivec enc = cfb8_ref block enc inp ivec"
proof (induction inp arbitrary: ivec)
  case (Cons x inp)
  then show ?case by (simp add: cfbr_encrypt_block_8 block_sizedD Let_def)
qed simp

lemma cfb8_ref_undo: "cfb8_ref block False (fst (cfb8_ref block True xs ivec)) ivec = (xs, snd (cfb8_ref block True xs ivec))"
  by (induction xs arbitrary: ivec) (simp_all add: Let_def split_beta xor.assoc)

text \<open>Feedback of one bit at a time.  The bits of a buffer are read from the most significant one on.\<close>

definition nth_bit :: "bytes \<Rightarrow> nat \<Rightarrow> bool" where
  "nth_bit xs n \<longleftrightarrow> bit (xs ! (n div 8)) (7 - n mod 8)"

definition shift_in :: "bytes \<Rightarrow> bool \<Rightarrow> bytes" where
  "shift_in ivec b = map (\<lambda>n. push_bit 1 (ivec ! n) OR (if n < 15 then drop_bit 7 (ivec ! (n + 1)) else of_bool b)) [0..<16]"

fun cfb1_ref :: "(bytes \<Rightarrow> bytes) \<Rightarrow> bool \<Rightarrow> bool list \<Rightarrow> bytes \<Rightarrow> bool list \<times> bytes" where
  "cfb1_ref block enc [] ivec = ([], ivec)"
| "cfb1_ref block enc (b # bs) ivec =
     (let c = (b \<noteq> nth_bit (block ivec) 0); (out, ivec) = cfb1_ref block enc bs (shift_in ivec (if enc then c else b)) in (c # out, ivec))"

lemma cfb1_ref_undo: "cfb1_ref block False (fst (cfb1_ref block True bs ivec)) ivec = (bs, snd (cfb1_ref block True bs ivec))"
proof (induction bs arbitrary: ivec)
  case (Cons b bs)
  obtain out st where "cfb1_ref block True bs (shift_in ivec (b \<noteq> nth_bit (block ivec) 0)) = (out, st)"
    by (cases "cfb1_ref block True bs (shift_in ivec (b \<noteq> nth_bit (block ivec) 0))") auto
  then show ?case using Cons.IH [of "shift_in ivec (b \<noteq> nth_bit (block ivec) 0)"] by (auto simp: Let_def)
qed simp

lemma cfb1_ref_snoc:
  "cfb1_ref block enc (bs @ [b]) ivec =
    (let (out, ivec) = cfb1_ref block enc bs ivec; c = (b \<noteq> nth_bit (block ivec) 0) in (out @ [c], shift_in ivec (if enc then c else b)))"
  by (induction bs arbitrary: ivec) (simp_all add: Let_def split_beta)

lemma drop_bit_top: "drop_bit 7 (x :: u8) = of_bool (bit x 7)"
  proof (rule bit_word_eqI)
  fix n
  have "bit x (7 + n) \<Longrightarrow> n = 0" using bit_imp_le_length [of x "7 + n"] by simp
  then show "bit (drop_bit 7 x) n \<longleftrightarrow> bit (of_bool (bit x 7) :: u8) n" by (auto simp: bit_simps)
qed

lemma cfbr_encrypt_block_1:
  assumes "length ivec = 16"
  shows "cfbr_encrypt_block block [c] 1 ivec enc =
    (let d = c XOR block ivec ! 0 in ([d], shift_in ivec (bit (if enc then d else c) 7)))"
proof -
  have ov: "blit (blit (replicate 33 0) 0 ivec) 16 [x] ! n = (if n < 16 then ivec ! n else x)" if "n \<le> 16" for x :: u8 and n
    using assms that by (auto simp: blit_def nth_append)
  have "map (\<lambda>n. push_bit 1 (blit (blit (replicate 33 0) 0 ivec) 16 [x] ! n) OR drop_bit 7 (blit (blit (replicate 33 0) 0 ivec) 16 [x] ! Suc n)) [0..<16] =
      shift_in ivec (bit x 7)" for x
    unfolding shift_in_def by (rule map_cong) (auto simp: ov drop_bit_top less_Suc_eq)
  then show ?thesis using assms by (simp add: cfbr_encrypt_block_def Let_def)
qed

lemma bit_AND_mask: "((x :: u8) AND push_bit k 1 \<noteq> 0) = bit x k" if "k < 8"
proof -
  have m: "bit (x AND push_bit k 1) n \<longleftrightarrow> bit x k \<and> n = k" for n
    using that unfolding bit_and_iff bit_push_bit_iff bit_1_iff by auto
  show ?thesis by (subst bit_eq_iff) (simp only: m bit_0_eq bot_apply, use that in auto)
qed

lemma bit_0x80: "bit (0x80 :: u8) k = (k = 7)"
proof -
  have "(0x80 :: u8) = push_bit 7 1" by simp
  then show ?thesis by (simp only: bit_simps) auto
qed

lemma set_bit_of_byte:
  assumes "i < 8" "j < 8"
  shows "bit (((x :: u8) AND NOT (push_bit (7 - i) 1)) OR drop_bit i (d AND 0x80)) (7 - j) = (if j = i then bit d 7 else bit x (7 - j))"
proof -
  have "bit (push_bit (7 - i) 1 :: u8) (7 - j) = (j = i)" using assms unfolding bit_push_bit_iff bit_1_iff by auto
  moreover have "bit (drop_bit i (d AND 0x80)) (7 - j) = (bit d 7 \<and> j = i)"
    using assms unfolding bit_drop_bit_eq comp_def bit_and_iff bit_0x80 by auto
  ultimately show ?thesis using assms bit_imp_le_length [of x "7 - j"] unfolding bit_or_iff bit_and_iff [of x] bit_not_iff by auto
qed

lemma set_nth_bit:
  assumes "n < 8 * length out" "m < 8 * length out"
  shows "nth_bit (out[n div 8 := (out ! (n div 8) AND NOT (push_bit (7 - n mod 8) 1)) OR drop_bit (n mod 8) (d AND 0x80)]) m =
    (if m = n then bit d 7 else nth_bit out m)"
proof -
  have n: "n div 8 < length out" using assms by (simp add: less_mult_imp_div_less mult.commute)
  have mn: "m = n \<longleftrightarrow> m div 8 = n div 8 \<and> m mod 8 = n mod 8" by (metis div_mult_mod_eq)
  show ?thesis
  proof (cases "m div 8 = n div 8")
    case True
    show ?thesis unfolding nth_bit_def mn True nth_list_update_eq [OF n] using set_bit_of_byte [of "n mod 8" "m mod 8"] by simp
  next
    case False
    then show ?thesis by (auto simp: nth_bit_def)
  qed
qed

lemma CRYPTO_cfb128_1_encrypt:
  assumes "block_sized block" "length ivec = 16" "bits \<le> 8 * length inp" "length out = length inp"
  shows "case CRYPTO_cfb128_1_encrypt block inp out bits ivec enc of (out', ivec') \<Rightarrow>
    cfb1_ref block enc (map (nth_bit inp) [0..<bits]) ivec = (map (nth_bit out') [0..<bits], ivec') \<and>
    length out' = length out \<and> length ivec' = 16 \<and> (\<forall>m. bits \<le> m \<and> m < 8 * length out \<longrightarrow> nth_bit out' m = nth_bit out m)"
  using assms(3)
proof (induction bits)
  case (Suc n)
  obtain o1 iv where r: "CRYPTO_cfb128_1_encrypt block inp out n ivec enc = (o1, iv)" by fastforce
  then have IH: "cfb1_ref block enc (map (nth_bit inp) [0..<n]) ivec = (map (nth_bit o1) [0..<n], iv)"
    "length o1 = length out" "length iv = 16" "\<And>m. n \<le> m \<Longrightarrow> m < 8 * length out \<Longrightarrow> nth_bit o1 m = nth_bit out m"
    using Suc by auto
  define c where "c = (if inp ! (n div 8) AND push_bit (7 - n mod 8) 1 \<noteq> 0 then 0x80 else 0 :: u8)"
  define d where "d = c XOR block iv ! 0"
  define o2 where "o2 = o1[n div 8 := (o1 ! (n div 8) AND NOT (push_bit (7 - n mod 8) 1)) OR drop_bit (n mod 8) (d AND 0x80)]"
  define iv2 where "iv2 = shift_in iv (bit (if enc then d else c) 7)"
  have step: "CRYPTO_cfb128_1_encrypt block inp out (Suc n) ivec enc = (o2, iv2)"
  proof -
    have "CRYPTO_cfb128_1_encrypt block inp out (Suc n) ivec enc =
        (let (e, iv) = cfbr_encrypt_block block [c] 1 iv enc
         in (o1[n div 8 := (o1 ! (n div 8) AND NOT (push_bit (7 - n mod 8) 1)) OR drop_bit (n mod 8) (e ! 0 AND 0x80)], iv))"
      using r unfolding CRYPTO_cfb128_1_encrypt_def c_def Let_def by simp
    also have "cfbr_encrypt_block block [c] 1 iv enc = ([d], iv2)"
      unfolding cfbr_encrypt_block_1 [OF IH(3)] Let_def d_def iv2_def ..
    finally show ?thesis by (simp only: Let_def o2_def prod.case nth_Cons_0)
  qed
  have c: "bit c 7 = nth_bit inp n" 
    unfolding c_def nth_bit_def using bit_AND_mask [of "7 - n mod 8" "inp ! (n div 8)"] by (simp add: bit_0x80 del: push_bit_of_1 push_bit_eq_mult)
  have d: "bit d 7 = (nth_bit inp n \<noteq> nth_bit (block iv) 0)" using c by (simp add: d_def nth_bit_def bit_simps)
  have o2: "nth_bit o2 m = (if m = n then bit d 7 else nth_bit o1 m)" if "m < 8 * length out" for m
    unfolding o2_def by (rule set_nth_bit) (use that Suc.prems assms(4) IH(2) in simp_all)
  have "map (nth_bit o2) [0..<Suc n] = map (nth_bit o1) [0..<n] @ [bit d 7]"
    using o2 Suc.prems assms(4) by simp
  moreover have "cfb1_ref block enc (map (nth_bit inp) [0..<Suc n]) ivec = (map (nth_bit o1) [0..<n] @ [bit d 7], iv2)"
    using IH(1) c d by (simp add: cfb1_ref_snoc iv2_def Let_def)
  moreover have "length o2 = length out" "length iv2 = 16" using IH(2) by (simp_all add: o2_def iv2_def shift_in_def)
  moreover have "nth_bit o2 m = nth_bit out m" if "Suc n \<le> m" "m < 8 * length out" for m
    using o2 [OF that(2)] IH(4) [of m] that by simp
  ultimately show ?case unfolding step by simp
qed (use assms in \<open>simp add: CRYPTO_cfb128_1_encrypt_def\<close>)



section \<open>CBC with a partial block at the end\<close>

text \<open>A loop that writes bytes one after the other, each read from what the ones before have left.\<close>

lemma fold_bytes:
  assumes "i \<le> n" "out + n \<le> length mem"
    and "\<And>k. i \<le> k \<Longrightarrow> k < n \<Longrightarrow> f (blit mem out (map v [0..<k])) k = v k"
  shows "fold (\<lambda>k m. m[out + k := f m k]) [i..<n] (blit mem out (map v [0..<i])) = blit mem out (map v [0..<n])"
  using assms
proof (induction n)
  case (Suc n)
  show ?case
  proof (cases "i = Suc n")
    case False
    then have i: "i \<le> n" using Suc.prems(1) by simp
    have s: "blit mem out (map v [0..<n] @ [v n]) = (blit mem out (map v [0..<n]))[out + n := v n]"
      using blit_append [of out "map v [0..<n]" "[v n]" mem] Suc.prems(2) by (simp add: blit_one)
    have "fold (\<lambda>k m. m[out + k := f m k]) [i..<n] (blit mem out (map v [0..<i])) = blit mem out (map v [0..<n])"
      by (rule Suc.IH [OF i]) (use Suc.prems in auto)
    then show ?thesis using i Suc.prems(3) [of n] s by simp
  qed simp
qed simp

lemma nth_region: "k < n \<Longrightarrow> p + n \<le> length mem \<Longrightarrow> region mem p n ! k = mem ! (p + k)"
  by simp

lemma iv_byte_block: "iv_ok ivec mem iv out \<Longrightarrow> k < 16 \<Longrightarrow> iv_byte ivec mem iv k = iv_block ivec mem iv ! k"
  by (auto simp: iv_ok_def iv_byte_def iv_block_def split: iv_ptr.splits)

lemma iv_byte_apart:
  assumes "iv_ok ivec mem iv out" "k < 16" "length xs \<le> 16" "out + length xs \<le> length mem"
  shows "iv_byte ivec (blit mem out xs) iv k = iv_block ivec mem iv ! k"
proof (cases iv)
  case (At p)
  then show ?thesis
    using assms nth_blit [OF assms(4), of "p + k"] by (auto simp: iv_ok_def iv_byte_def iv_block_def)
qed (use assms in \<open>simp add: iv_ok_def iv_byte_def iv_block_def\<close>)

lemma cbc_encrypt_tail:
  assumes "block_sized block" "0 < len" "len < 16" "inp + len \<le> length mem" "out + 16 \<le> length mem" "out \<le> inp \<or> inp + len \<le> out"
    "iv_ok ivec mem iv out"
  shows "cbc_encrypt_tail block ivec mem inp out iv len =
    (blit mem out (block (xor_bytes (region mem inp len @ replicate (16 - len) 0) (iv_block ivec mem iv))), At out)"
proof -
  define ivb where "ivb = iv_block ivec mem iv"
  have livb: "length ivb = 16" unfolding ivb_def by (rule iv_block_length [OF assms(7)])
  define v where "v k = (if k < len then mem ! (inp + k) XOR ivb ! k else ivb ! k)" for k
  have iv: "iv_byte ivec (blit mem out (map v [0..<k])) iv k = ivb ! k" if "k < 16" for k
    using iv_byte_apart [OF assms(7) that, of "map v [0..<k]"] that assms(5) by (simp add: ivb_def)
  have "fold (\<lambda>k m. m[out + k := m ! (inp + k) XOR iv_byte ivec m iv k]) [0..<len] (blit mem out (map v [0..<0])) = blit mem out (map v [0..<len])"
  proof (rule fold_bytes)
    fix k assume k: "k < len"
    then have "blit mem out (map v [0..<k]) ! (inp + k) = mem ! (inp + k)"
      using nth_blit [of out "map v [0..<k]" mem "inp + k"] assms(3-6) by auto
    then show "blit mem out (map v [0..<k]) ! (inp + k) XOR iv_byte ivec (blit mem out (map v [0..<k])) iv k = v k"
      using iv [of k] k assms(3) by (simp add: v_def)
  qed (use assms in simp_all)
  then have f1: "fold (\<lambda>k m. m[out + k := m ! (inp + k) XOR iv_byte ivec m iv k]) [0..<min 16 len] mem = blit mem out (map v [0..<len])"
    using assms(3) by (simp add: min_def)
  have f2: "fold (\<lambda>k m. m[out + k := iv_byte ivec m iv k]) [min 16 len..<16] (blit mem out (map v [0..<len])) = blit mem out (map v [0..<16])"
    using fold_bytes [of len 16 out mem "\<lambda>m k. iv_byte ivec m iv k" v] iv assms(3,5) by (simp add: v_def min_def)
  have v16: "map v [0..<16] = xor_bytes (region mem inp len @ replicate (16 - len) 0) ivb"
    using assms(3,4) livb by (intro nth_equalityI) (auto simp: v_def nth_append)
  let ?x = "xor_bytes (region mem inp len @ replicate (16 - len) 0) ivb"
  have lx: "length ?x = 16" unfolding v16 [symmetric] by simp
  have lb: "length (block ?x) = 16" by (rule block_sizedD [OF assms(1) lx])
  have "call_block block out out (blit mem out ?x) = blit mem out (block ?x)"
    using region_blit_same [of out ?x mem] blit_blit_same [of out ?x mem "block ?x"] assms(5) lx lb by (simp add: call_block_def)
  then show ?thesis
    using assms(2,3) unfolding cbc_encrypt_tail.simps [of block ivec mem inp out iv len] ivb_def [symmetric] Let_def f1 f2 v16 by simp
qed

text \<open>The blocks do not depend on what is left behind them.\<close>

lemma cbc_blocks_rest:
  assumes "r < 16"
  shows "cbc_encrypt_blocks block ivec mem inp out iv (16 * q + r) =
      (case cbc_encrypt_blocks block ivec mem inp out iv (16 * q) of (mem, inp, out, iv, l) \<Rightarrow> (mem, inp, out, iv, l + r))"
    "cbc_decrypt_direct block ivec mem inp out iv (16 * q + r) =
      (case cbc_decrypt_direct block ivec mem inp out iv (16 * q) of (mem, inp, out, iv, l) \<Rightarrow> (mem, inp, out, iv, l + r))"
    "cbc_decrypt_tmp block ivec mem inp out (16 * q + r) =
      (case cbc_decrypt_tmp block ivec mem inp out (16 * q) of (mem, ivec, inp, out, l) \<Rightarrow> (mem, ivec, inp, out, l + r))"
proof -
  show "cbc_encrypt_blocks block ivec mem inp out iv (16 * q + r) =
      (case cbc_encrypt_blocks block ivec mem inp out iv (16 * q) of (mem, inp, out, iv, l) \<Rightarrow> (mem, inp, out, iv, l + r))"
  proof (induction q arbitrary: mem inp out iv)
    case (Suc q)
    have "16 * Suc q + r - 16 = 16 * q + r" "16 * Suc q - 16 = 16 * q" "16 \<le> 16 * Suc q + r" "16 \<le> 16 * Suc q" by simp_all
    then show ?case
      by (simp only: cbc_encrypt_blocks.simps [of block ivec mem inp out iv "16 * Suc q + r"]
          cbc_encrypt_blocks.simps [of block ivec mem inp out iv "16 * Suc q"] if_True Let_def Suc.IH)
  qed (use assms in \<open>simp add: cbc_encrypt_blocks.simps [of block ivec mem inp out iv r for mem inp out iv r]\<close>)
  show "cbc_decrypt_direct block ivec mem inp out iv (16 * q + r) =
      (case cbc_decrypt_direct block ivec mem inp out iv (16 * q) of (mem, inp, out, iv, l) \<Rightarrow> (mem, inp, out, iv, l + r))"
  proof (induction q arbitrary: mem inp out iv)
    case (Suc q)
    have "16 * Suc q + r - 16 = 16 * q + r" "16 * Suc q - 16 = 16 * q" "16 \<le> 16 * Suc q + r" "16 \<le> 16 * Suc q" by simp_all
    then show ?case
      by (simp only: cbc_decrypt_direct.simps [of block ivec mem inp out iv "16 * Suc q + r"]
          cbc_decrypt_direct.simps [of block ivec mem inp out iv "16 * Suc q"] if_True Let_def Suc.IH)
  qed (use assms in \<open>simp add: cbc_decrypt_direct.simps [of block ivec mem inp out iv r for mem inp out iv r]\<close>)
  show "cbc_decrypt_tmp block ivec mem inp out (16 * q + r) =
      (case cbc_decrypt_tmp block ivec mem inp out (16 * q) of (mem, ivec, inp, out, l) \<Rightarrow> (mem, ivec, inp, out, l + r))"
  proof (induction q arbitrary: mem ivec inp out)
    case (Suc q)
    have "16 * Suc q + r - 16 = 16 * q + r" "16 * Suc q - 16 = 16 * q" "16 \<le> 16 * Suc q + r" "16 \<le> 16 * Suc q" by simp_all
    then show ?case
      by (simp only: cbc_decrypt_tmp.simps [of block ivec mem inp out "16 * Suc q + r"]
          cbc_decrypt_tmp.simps [of block ivec mem inp out "16 * Suc q"] if_True Let_def Suc.IH) (simp split: prod.split)
  qed (use assms in \<open>simp add: cbc_decrypt_tmp.simps [of block ivec mem inp out r for mem ivec inp out r]\<close>)
qed

lemma cbc_encrypt_blocks_iv:
  "iv = Ivec \<or> iv = At (out - 16) \<and> 16 \<le> out \<Longrightarrow>
    (case cbc_encrypt_blocks block ivec mem inp out iv len of (mem, inp, out, iv, l) \<Rightarrow> iv = Ivec \<or> iv = At (out - 16) \<and> 16 \<le> out)"
proof (induction len arbitrary: mem inp out iv rule: less_induct)
  case (less len)
  show ?case
  proof (cases "16 \<le> len")
    case True
    then show ?thesis unfolding cbc_encrypt_blocks.simps [of block ivec mem inp out iv len] Let_def if_P [OF True]
      by (intro less.IH) simp_all
  next
    case False
    then show ?thesis using less.prems by (auto simp: cbc_encrypt_blocks.simps [of block ivec mem inp out iv len])
  qed
qed

text \<open>Encryption fills the last block with zeros.\<close>

definition pad16 :: "bytes \<Rightarrow> bytes" where
  "pad16 xs = xs @ replicate ((16 - length xs mod 16) mod 16) 0"

abbreviation round16 :: "nat \<Rightarrow> nat" where
  "round16 n \<equiv> 16 * ((n + 15) div 16)"

lemma round16: "round16 n = (if n mod 16 = 0 then n else n - n mod 16 + 16)"
proof -
  define q where "q = n div 16"
  define r where "r = n mod 16"
  have n: "n = 16 * q + r" "r < 16" by (simp_all add: q_def r_def)
  have "(n + 15) div 16 = (if r = 0 then q else q + 1)"
    by (rule div_nat_eqI) (use n in auto)
  moreover have "n - r = 16 * q" using n(1) by simp
  ultimately show ?thesis using n(1) unfolding r_def [symmetric] by simp
qed

lemma length_next_iv: "length iv = 16 \<Longrightarrow> length (next_iv iv cs) = 16"
  by (simp add: next_iv_def)

lemma CRYPTO_cbc128_encrypt_any:
  assumes "block_sized block" "inp + len \<le> length mem" "out + round16 len \<le> length mem" "out \<le> inp \<or> inp + len \<le> out" "length ivec = 16"
  shows "CRYPTO_cbc128_encrypt block mem inp out len ivec =
    (let cs = cbc_enc block ivec (pad16 (region mem inp len)) in (blit mem out cs, next_iv ivec cs))"
proof (cases "len mod 16 = 0")
  case True
  then show ?thesis
    using CRYPTO_cbc128_encrypt [OF assms(1), of len inp mem out ivec] assms round16 [of len] by (simp add: pad16_def Let_def mod_eq_0_iff_dvd)
next
  case False
  define q where "q = len div 16"
  define r where "r = len mod 16"
  have len: "len = 16 * q + r" "0 < r" "r < 16" using False by (simp_all add: q_def r_def)
  have fit: "inp + 16 * q \<le> length mem" "out + 16 * q + 16 \<le> length mem" "out \<le> inp \<or> inp + 16 * q \<le> out"
  proof -
    have "len mod 16 = r" by (simp add: r_def)
    then have "round16 len = len - r + 16" using round16 [of len] len(2) by simp
    then have "round16 len = 16 * q + 16" using len(1) by linarith
    then show "inp + 16 * q \<le> length mem" "out + 16 * q + 16 \<le> length mem" "out \<le> inp \<or> inp + 16 * q \<le> out"
      using assms(2-4) len(1) by linarith+
  qed
  define xs where "xs = region mem inp (16 * q)"
  define ys where "ys = region mem (inp + 16 * q) r"
  have lxs: "length xs = 16 * q" "length ys = r" using assms(2) len(1) by (simp_all add: xs_def ys_def)
  have xy: "region mem inp len = xs @ ys" unfolding xs_def ys_def len(1)
    using take_add [of "16 * q" r "drop inp mem"] by (simp add: add.commute)
  define cs where "cs = cbc_enc block ivec xs"
  have lcs: "length cs = 16 * q" using length_cbc(1) [OF assms(1,5), of xs] lxs by (simp add: cs_def)
  define mem1 where "mem1 = blit mem out cs"
  have m1: "length mem1 = length mem" using fit lcs by (simp add: mem1_def)
  have iv: "iv_block ivec mem Ivec = ivec" "iv_ok ivec mem Ivec out" using assms(5) by (simp_all add: iv_block_def iv_ok_def)
  obtain iv' where b: "cbc_encrypt_blocks block ivec mem inp out Ivec (16 * q) = (mem1, inp + 16 * q, out + 16 * q, iv', 0)"
      "iv_block ivec mem1 iv' = next_iv ivec cs"
    using cbc_encrypt_blocks [OF assms(1) _ fit(1) _ fit(3) iv(2)] fit(2) unfolding iv(1) xs_def [symmetric] cs_def mem1_def by auto
  have ok: "iv_ok ivec mem1 iv' (out + 16 * q)"
    using cbc_encrypt_blocks_iv [of Ivec out block ivec mem inp "16 * q"] b(1) m1 fit(2) assms(5) by (auto simp: iv_ok_def)
  have reg: "region mem1 (inp + 16 * q) r = ys"
    unfolding mem1_def ys_def by (rule region_blit_apart) (use assms(4) len lcs fit in auto)
  define c where "c = block (xor_bytes (ys @ replicate (16 - r) 0) (next_iv ivec cs))"
  have t: "cbc_encrypt_tail block ivec mem1 (inp + 16 * q) (out + 16 * q) iv' r = (blit mem1 (out + 16 * q) c, At (out + 16 * q))"
    using cbc_encrypt_tail [OF assms(1) len(2,3) _ _ _ ok, of "inp + 16 * q"] assms(2,4) len(1) fit m1 unfolding reg b(2) c_def by auto
  have lc: "length c = 16" unfolding c_def
    by (rule block_sizedD [OF assms(1)]) (use lxs(2) len(3) length_next_iv [OF assms(5)] in simp)
  have bl: "blit mem1 (out + 16 * q) c = blit mem out (cs @ c)" using blit_append [of out cs c mem] lcs lc fit by (simp add: mem1_def)
  have enc: "cbc_enc block ivec (pad16 (region mem inp len)) = cs @ c"
  proof -
    have "pad16 (region mem inp len) = xs @ ys @ replicate (16 - r) 0" using lxs len(2,3) by (simp add: pad16_def xy)
    moreover have "16 dvd length xs" using lxs by simp
    ultimately show ?thesis
      using cbc_enc_append [OF assms(1,5), of xs "ys @ replicate (16 - r) 0"] lxs len(3)
        cbc_enc_step [of "ys @ replicate (16 - r) 0" block "next_iv ivec cs"] by (simp add: cs_def c_def cbc_short)
  qed
  have "region (blit mem1 (out + 16 * q) c) (out + 16 * q) 16 = c" using region_blit_same [of "out + 16 * q" c mem1] lc fit m1 by simp
  moreover have "next_iv ivec (cs @ c) = c" using assms(5) lc by (simp add: next_iv_def)
  ultimately show ?thesis
    using cbc_blocks_rest(1) [OF len(3), of block ivec mem inp out Ivec q] b(1) t lc assms(5) bl
    by (simp add: CRYPTO_cbc128_encrypt_def enc len(1) [symmetric] iv_block_def Let_def blit_def [of ivec])
qed

lemma cbc_decrypt_tail:
  assumes "0 < len" "len < 16" "inp + 16 \<le> length mem" "out + len \<le> length mem" "out \<le> inp \<or> inp + 16 \<le> out"
    "length ivec = 16" "length (block (region mem inp 16)) = 16"
  shows "cbc_decrypt_tail block ivec mem inp out len =
    (blit mem out (take len (xor_bytes (block (region mem inp 16)) ivec)), region mem inp 16)"
proof -
  define tmp where "tmp = block (region mem inp 16)"
  define v where "v k = tmp ! k XOR ivec ! k" for k
  define g where "g k = mem ! (inp + k)" for k
  have same: "blit mem out (map v [0..<k]) ! (inp + j) = g j" if "k \<le> len" "k \<le> j" "j < 16" for k j
    using nth_blit [of out "map v [0..<k]" mem "inp + j"] that assms(3-5) by (auto simp: g_def)
  have "fold (\<lambda>n (mem, ivec). let c = mem ! (inp + n) in (mem[out + n := tmp ! n XOR ivec ! n], ivec[n := c])) [0..<k] (mem, ivec) =
      (blit mem out (map v [0..<k]), blit ivec 0 (map g [0..<k]))" if "k \<le> len" for k
    using that
  proof (induction k)
    case (Suc k)
    have "blit ivec 0 (map g [0..<k]) ! k = ivec ! k" using nth_blit [of 0 "map g [0..<k]" ivec k] Suc.prems assms(2,6) by simp
    moreover have "(blit mem out (map v [0..<k]))[out + k := v k] = blit mem out (map v [0..<Suc k])"
      using blit_append [of out "map v [0..<k]" "[v k]" mem] Suc.prems assms(4) by (simp add: blit_one)
    moreover have "(blit ivec 0 (map g [0..<k]))[k := g k] = blit ivec 0 (map g [0..<Suc k])"
      using blit_append [of 0 "map g [0..<k]" "[g k]" ivec] Suc.prems assms(2,6) by (simp add: blit_one)
    ultimately show ?case using Suc same [of k k] assms(2) by (simp add: v_def [symmetric] Let_def)
  qed simp
  from this [of len] have f: "fold (\<lambda>n (mem, ivec). let c = mem ! (inp + n) in (mem[out + n := tmp ! n XOR ivec ! n], ivec[n := c])) [0..<min 16 len] (mem, ivec) =
      (blit mem out (map v [0..<len]), blit ivec 0 (map g [0..<len]))" using assms(2) by (simp add: min_def)
  have "fold (\<lambda>n ivec. ivec[n := blit mem out (map v [0..<len]) ! (inp + n)]) [min 16 len..<16] (blit ivec 0 (map g [0..<len])) = blit ivec 0 (map g [0..<16])"
    using fold_bytes [of len 16 0 ivec "\<lambda>m k. blit mem out (map v [0..<len]) ! (inp + k)" g] same [of len] assms(2,6) by (simp add: min_def)
  moreover have "blit ivec 0 (map g [0..<16]) = region mem inp 16"
  proof -
    have "map g [0..<16] = region mem inp 16" using assms(3) by (intro nth_equalityI) (simp_all add: g_def)
    then show ?thesis using assms(3,6) by (simp add: blit_def)
  qed
  moreover have "map v [0..<len] = take len (xor_bytes tmp ivec)"
    using assms(2,6,7) by (intro nth_equalityI) (simp_all add: v_def tmp_def)
  ultimately show ?thesis
    using assms(1,2) f unfolding cbc_decrypt_tail.simps [of block ivec mem inp out len] tmp_def [symmetric] by (simp only: Let_def prod.case if_True less_imp_le)
qed

lemma cbc_dec_append:
  assumes "block_sized block" "length iv = 16" "16 dvd length xs"
  shows "cbc_dec block iv (xs @ ys) = cbc_dec block iv xs @ cbc_dec block (next_iv iv xs) ys"
  using assms(2,3)
proof (induction xs arbitrary: iv rule: length_induct)
  case (1 xs)
  show ?case
  proof (cases "xs = []")
    case False
    then have l: "16 \<le> length xs" using 1(3) by (auto intro: dvd_imp_le)
    have "next_iv iv (take 16 xs @ drop 16 xs) = next_iv (take 16 xs) (drop 16 xs)"
      by (rule next_iv(2)) (use 1(2) l in simp)
    then have n: "next_iv iv xs = next_iv (take 16 xs) (drop 16 xs)" by simp
    have "cbc_dec block (take 16 xs) (drop 16 xs @ ys) = cbc_dec block (take 16 xs) (drop 16 xs) @ cbc_dec block (next_iv (take 16 xs) (drop 16 xs)) ys"
      by (rule 1(1) [rule_format]) (use l 1(3) False in auto)
    then show ?thesis using l by (simp add: cbc_dec_step n)
  qed (simp add: cbc_short next_iv)
qed

lemma CRYPTO_cbc128_decrypt_any:
  assumes "block_sized block" "inp + round16 len \<le> length mem" "out + len \<le> length mem" "out \<le> inp \<or> inp + round16 len \<le> out" "length ivec = 16"
  shows "CRYPTO_cbc128_decrypt block mem inp out len ivec =
    (let cs = region mem inp (round16 len) in (blit mem out (take len (cbc_dec block ivec cs)), next_iv ivec cs))"
proof (cases "len mod 16 = 0")
  case True
  have "round16 len = len" using round16 [of len] True by simp
  moreover have "16 dvd len" using True by (simp add: mod_eq_0_iff_dvd)
  moreover have "length (cbc_dec block ivec (region mem inp len)) = len"
    using length_cbc(2) [OF assms(1,5)] assms(2) calculation by (simp add: dvd_mult_div_cancel)
  ultimately show ?thesis
    using CRYPTO_cbc128_decrypt [OF assms(1), of len inp mem out ivec] assms by (simp only: Let_def) simp
next
  case False
  define q where "q = len div 16"
  define r where "r = len mod 16"
  have len: "len = 16 * q + r" "0 < r" "r < 16" using False by (simp_all add: q_def r_def)
  have rnd: "round16 len = 16 * q + 16"
  proof -
    have "len mod 16 = r" by (simp add: r_def)
    then have "round16 len = len - r + 16" using round16 [of len] len(2) by simp
    then show ?thesis using len(1) by linarith
  qed
  have fit: "inp + 16 * q \<le> length mem" "out + 16 * q \<le> length mem" "out \<le> inp \<or> inp + 16 * q \<le> out" "inp + 16 * q + 16 \<le> length mem"
    using assms(2-4) len(1) rnd by linarith+
  define xs where "xs = region mem inp (16 * q)"
  define C where "C = region mem (inp + 16 * q) 16"
  have lxs: "length xs = 16 * q" "length C = 16" using fit by (simp_all add: xs_def C_def)
  have xy: "region mem inp (round16 len) = xs @ C" unfolding xs_def C_def rnd
    using take_add [of "16 * q" 16 "drop inp mem"] by (simp add: add.commute)
  define ps where "ps = cbc_dec block ivec xs"
  have lps: "length ps = 16 * q" using length_cbc(2) [OF assms(1,5), of xs] lxs by (simp add: ps_def)
  define mem1 where "mem1 = blit mem out ps"
  have m1: "length mem1 = length mem" using fit lps by (simp add: mem1_def)
  have reg: "region mem1 (inp + 16 * q) 16 = C"
    unfolding mem1_def C_def by (rule region_blit_apart) (use assms(4) rnd lps fit in auto)
  have v: "iv_block ivec mem Ivec = ivec" using assms(5) by (simp add: iv_block_def)
  define iv2 where "iv2 = next_iv ivec xs"
  have liv: "length iv2 = 16" using length_next_iv [OF assms(5)] by (simp add: iv2_def)
  have blocks: "(if inp \<ge> 32 \<and> out \<le> inp - 32 \<or> inp < out then
           (let (mem, inp, out, iv, len) = cbc_decrypt_direct block ivec mem inp out Ivec len
            in (mem, blit ivec 0 (iv_block ivec mem iv), inp, out, len))
         else cbc_decrypt_tmp block ivec mem inp out len) = (mem1, iv2, inp + 16 * q, out + 16 * q, r)"
  proof (cases "inp \<ge> 32 \<and> out \<le> inp - 32 \<or> inp < out")
    case True
    then have far: "out + 32 \<le> inp \<or> inp + 16 * q \<le> out" using fit(3) by auto
    obtain iv' where b: "cbc_decrypt_direct block ivec mem inp out Ivec (16 * q) = (mem1, inp + 16 * q, out + 16 * q, iv', 0)"
      "iv_block ivec mem1 iv' = iv2"
      using cbc_decrypt_direct [OF assms(1,5) _ fit(1,2) far, of Ivec] unfolding v xs_def [symmetric] ps_def mem1_def iv2_def by auto
    have "blit ivec 0 iv2 = iv2" using liv assms(5) by (simp add: blit_def)
    then show ?thesis
      unfolding if_P [OF True] using cbc_blocks_rest(2) [OF len(3), of block ivec mem inp out Ivec q] b by (simp add: len(1) [symmetric])
  next
    case False
    then have "out \<le> inp" by auto
    from cbc_decrypt_tmp [OF assms(1,5) _ fit(1) this]
    have "cbc_decrypt_tmp block ivec mem inp out (16 * q) = (mem1, iv2, inp + 16 * q, out + 16 * q, 0)"
      by (simp add: mem1_def ps_def xs_def iv2_def)
    then show ?thesis
      unfolding if_not_P [OF False] using cbc_blocks_rest(3) [OF len(3), of block ivec mem inp out q] by (simp add: len(1) [symmetric])
  qed
  have lb: "length (block C) = 16" by (rule block_sizedD [OF assms(1) lxs(2)])
  have t: "cbc_decrypt_tail block iv2 mem1 (inp + 16 * q) (out + 16 * q) r = (blit mem1 (out + 16 * q) (take r (xor_bytes (block C) iv2)), C)"
    using cbc_decrypt_tail [OF len(2,3) _ _ _ liv, of "inp + 16 * q" mem1 "out + 16 * q" block] assms(3,4) len(1) rnd fit m1 lb unfolding reg by auto
  have dec: "cbc_dec block ivec (xs @ C) = ps @ xor_bytes (block C) iv2"
    using cbc_dec_append [OF assms(1,5), of xs C] cbc_dec_step [of C block iv2] lxs by (simp add: ps_def iv2_def cbc_short)
  have "blit mem1 (out + 16 * q) (take r (xor_bytes (block C) iv2)) = blit mem out (ps @ take r (xor_bytes (block C) iv2))"
    using blit_append [of out ps "take r (xor_bytes (block C) iv2)" mem] lps lb liv len assms(3) by (simp add: mem1_def)
  moreover have "take len (ps @ xor_bytes (block C) iv2) = ps @ take r (xor_bytes (block C) iv2)" using lps by (simp add: len(1))
  moreover have "next_iv ivec (xs @ C) = C" using assms(5) lxs by (simp add: next_iv_def)
  moreover have "CRYPTO_cbc128_decrypt block mem inp out len ivec = (blit mem1 (out + 16 * q) (take r (xor_bytes (block C) iv2)), C)"
    unfolding CRYPTO_cbc128_decrypt_def blocks using t by simp
  ultimately show ?thesis by (simp only: xy dec Let_def)
qed

lemma length_pad16: "length (pad16 xs) = round16 (length xs)"
  unfolding round16 [of "length xs"] pad16_def by (cases "length xs mod 16 = 0") (simp_all, linarith?)

lemma round16_le: "n \<le> round16 n"
  unfolding round16 [of n] by (cases "n mod 16 = 0") (simp_all, linarith?)

section \<open>Theorems\<close>

text \<open>A stream keeps what its refresh keeps, and its position stays in the block.\<close>

lemma stream_ref_state:
  assumes "\<And>s. P s \<Longrightarrow> P (refresh s)"
  shows "P s \<Longrightarrow> n < 16 \<Longrightarrow> stream_ref refresh key xs (s, n) = (out, s', n') \<Longrightarrow> P s' \<and> n' < 16"
proof (induction xs arbitrary: s n out)
  case (Cons x xs)
  define t where "t = (if n = 0 then refresh s else s)"
  have "P t" using Cons.prems(1) assms by (simp add: t_def)
  moreover obtain o2 where "stream_ref refresh key xs (t, (n + 1) mod 16) = (o2, s', n')"
    using Cons.prems(3) by (simp add: t_def [symmetric] Let_def split: prod.splits)
  ultimately show ?case by (intro Cons.IH) simp_all
qed simp

lemma ctr_state:
  assumes "length ivec = 16" "num < 16" "ctr_ref block xs ((ivec, e), num) = (out, (ivec', e'), num')"
  shows "length ivec' = 16 \<and> num' < 16"
proof -
  have "(length \<circ> fst) (ivec', e') = 16 \<and> num' < 16"
    by (rule stream_ref_state [OF _ _ assms(2,3)]) (use assms(1) in \<open>auto simp: ctr128_inc\<close>)
  then show ?thesis by simp
qed

lemma ofb_state:
  assumes "block_sized block" "length ivec = 16" "num < 16" "stream_ref block (\<lambda>x. x) xs (ivec, num) = (out, ivec', num')"
  shows "length ivec' = 16 \<and> num' < 16"
  by (rule stream_ref_state [OF _ _ assms(3,4)]) (use assms(1,2) in \<open>auto intro: block_sizedD\<close>)

text \<open>C22: CBC computes its specification for every length, in place, to a lower address at any distance, and to a
  buffer behind the input: both orders of work of the decryption and the reading of the vector from the buffers give
  the same output, and the vector for the next call is the last block of the cipher text.  Encryption fills the last
  block with zeros and writes whole blocks; decryption reads whole blocks and writes \<open>len\<close> bytes.\<close>

theorem cbc_any_overlap:
  assumes "block_sized block" "inp + round16 len \<le> length mem" "out + round16 len \<le> length mem"
    and "out \<le> inp \<or> inp + round16 len \<le> out" "length ivec = 16"
  shows "CRYPTO_cbc128_encrypt block mem inp out len ivec =
      (let cs = cbc_enc block ivec (pad16 (region mem inp len)) in (blit mem out cs, next_iv ivec cs)) \<and>
    CRYPTO_cbc128_decrypt block mem inp out len ivec =
      (let cs = region mem inp (round16 len) in (blit mem out (take len (cbc_dec block ivec cs)), next_iv ivec cs))"
proof -
  have "inp + len \<le> length mem" "out + len \<le> length mem" "out \<le> inp \<or> inp + len \<le> out"
    using assms(2-4) round16_le [of len] by linarith+
  then show ?thesis
    using CRYPTO_cbc128_encrypt_any [OF assms(1) _ assms(3) _ assms(5)] CRYPTO_cbc128_decrypt_any [OF assms(1,2) _ assms(4,5)] by blast
qed

theorem cbc_any_overlap_witness:
  "CRYPTO_cbc128_decrypt rev (map of_nat [0..<64]) 16 8 41 (replicate 16 0) =
    (let cs = map of_nat [16..<64] in (blit (map of_nat [0..<64]) 8 (take 41 (cbc_dec rev (replicate 16 0) cs)), next_iv (replicate 16 0) cs))"
  using cbc_any_overlap [of rev 16 41 "map of_nat [0..<64]" 8 "replicate 16 0"]
  by (simp add: block_sized_def take_map drop_map)

text \<open>C23: decrypting what was encrypted restores the plain text, for every length, and both directions leave the
  same vector.  Each of the two calls may work in place, to a lower address at any distance, or to a buffer
  behind its input; an output that starts inside of the input is excluded.  Memory outside of the output buffers
  is untouched.\<close>

theorem cbc_roundtrip:
  assumes "block_sized block" "block_sized unblock" "\<And>xs. length xs = 16 \<Longrightarrow> unblock (block xs) = xs"
    and "inp + len \<le> length mem" "out + round16 len \<le> length mem" "dst + len \<le> length mem"
    and "out \<le> inp \<or> inp + len \<le> out" "dst \<le> out \<or> out + round16 len \<le> dst" "length ivec = 16"
  shows "case CRYPTO_cbc128_encrypt block mem inp out len ivec of (mem1, ivec1) \<Rightarrow>
    (case CRYPTO_cbc128_decrypt unblock mem1 out dst len ivec of (mem2, ivec2) \<Rightarrow>
      region mem2 dst len = region mem inp len \<and> ivec2 = ivec1 \<and> length mem2 = length mem \<and>
      (\<forall>k < length mem. (k < out \<or> out + round16 len \<le> k) \<longrightarrow> (k < dst \<or> dst + len \<le> k) \<longrightarrow> mem2 ! k = mem ! k))"
proof -
  define xs where "xs = region mem inp len"
  define cs where "cs = cbc_enc block ivec (pad16 xs)"
  have lx: "length xs = len" using assms(4) by (simp add: xs_def)
  have lc: "length cs = round16 len" using length_cbc(1) [OF assms(1,9), of "pad16 xs"] by (simp add: cs_def length_pad16 lx)
  define mem1 where "mem1 = blit mem out cs"
  have l1: "length mem1 = length mem" using lc assms(5) by (simp add: mem1_def)
  have r1: "region mem1 out (round16 len) = cs" using region_blit_same [of out cs mem] lc assms(5) by (simp add: mem1_def)
  have e: "CRYPTO_cbc128_encrypt block mem inp out len ivec = (mem1, next_iv ivec cs)"
    using CRYPTO_cbc128_encrypt_any [OF assms(1,4,5,7,9)] by (simp only: cs_def mem1_def xs_def Let_def)
  have d: "CRYPTO_cbc128_decrypt unblock mem1 out dst len ivec = (blit mem1 dst xs, next_iv ivec cs)"
  proof -
    have "cbc_dec unblock ivec cs = pad16 xs" unfolding cs_def
      by (rule cbc_dec_enc [OF assms(1,3,9)]) (simp_all add: length_pad16)
    moreover have "take len (pad16 xs) = xs" by (simp add: pad16_def lx)
    ultimately show ?thesis using CRYPTO_cbc128_decrypt_any [OF assms(2), of out len mem1 dst ivec] assms(5,6,8,9) l1 r1 by (simp add: Let_def)
  qed
  have "region (blit mem1 dst xs) dst len = xs" using region_blit_same [of dst xs mem1] lx l1 assms(6) by simp
  moreover have "length (blit mem1 dst xs) = length mem" using lx l1 assms(6) by simp
  moreover have "blit mem1 dst xs ! k = mem ! k"
    if "k < length mem" "k < out \<or> out + round16 len \<le> k" "k < dst \<or> dst + len \<le> k" for k
    using that lx lc l1 assms(5,6) nth_blit [of dst xs mem1 k] nth_blit [of out cs mem k] by (auto simp: mem1_def)
  ultimately show ?thesis unfolding e prod.case d xs_def by blast
qed

theorem cbc_roundtrip_witness:
  "case CRYPTO_cbc128_encrypt rev (map of_nat [0..<64]) 0 0 45 (replicate 16 7) of (mem1, ivec1) \<Rightarrow>
    (case CRYPTO_cbc128_decrypt rev mem1 0 0 45 (replicate 16 7) of (mem2, ivec2) \<Rightarrow>
      take 45 mem2 = map of_nat [0..<45] \<and> ivec2 = ivec1)"
  using cbc_roundtrip [of rev rev 0 45 "map of_nat [0..<64]" 0 0 "replicate 16 7"]
  by (auto simp: block_sized_def take_map drop_map split_beta)

text \<open>C24: counter mode over a routine that counts in 32 bits (with the carry into the other 96 bits and the batches
  split where the 32 bits wrap) is counter mode block by block: same output, counter and position, and the same
  buffered key stream whenever a part of it is left.\<close>

theorem ctr32_agrees:
  assumes "block_sized block" "counts32 block func" "length ivec = 16" "num < 16"
  shows "case CRYPTO_ctr128_encrypt block inp (ivec, e, num) of (out1, ivec1, e1, n1) \<Rightarrow>
    (case CRYPTO_ctr128_encrypt_ctr32 func inp (ivec, e, num) of (out2, ivec2, e2, n2) \<Rightarrow>
      out1 = out2 \<and> ivec1 = ivec2 \<and> n1 = n2 \<and> (n1 \<noteq> 0 \<longrightarrow> e1 = e2))"
  using CRYPTO_ctr128_encrypt_ctr32 [OF assms, of inp e] by auto

theorem ctr32_agrees_witness:
  "case CRYPTO_ctr128_encrypt rev (replicate 40 3) (replicate 16 255, replicate 16 0, 5) of (out1, ivec1, e1, n1) \<Rightarrow>
    (case CRYPTO_ctr128_encrypt_ctr32
        (\<lambda>inp blocks ivec. concat (map (\<lambda>i. xor_bytes (region inp (16 * i) 16) (rev (take 12 ivec @ be_bytes 4 (be_val (drop 12 ivec) + i)))) [0..<blocks]))
        (replicate 40 3) (replicate 16 255, replicate 16 0, 5) of (out2, ivec2, e2, n2) \<Rightarrow> out1 = out2)"
proof -
  have "counts32 rev (\<lambda>inp blocks ivec.
      concat (map (\<lambda>i. xor_bytes (region inp (16 * i) 16) (rev (take 12 ivec @ be_bytes 4 (be_val (drop 12 ivec) + i)))) [0..<blocks]))"
    by (simp add: counts32_def)
  from ctr32_agrees [OF _ this, of "replicate 16 255" 5 "replicate 40 3" "replicate 16 0"]
  show ?thesis by (auto simp: block_sized_def split_beta)
qed

text \<open>C25: counter mode and output feedback are streams: processing a text in two calls, cut anywhere, is processing it in
  one, and processing the output again from the same state gives the text back and the same state.\<close>

theorem streams_compose:
  assumes "block_sized block" "length ivec = 16" "num < 16"
  shows "CRYPTO_ctr128_encrypt block (xs @ ys) (ivec, e, num) =
      (let (o1, st) = CRYPTO_ctr128_encrypt block xs (ivec, e, num); (o2, st) = CRYPTO_ctr128_encrypt block ys st in (o1 @ o2, st)) \<and>
    CRYPTO_ofb128_encrypt block (xs @ ys) (ivec, num) =
      (let (o1, st) = CRYPTO_ofb128_encrypt block xs (ivec, num); (o2, st) = CRYPTO_ofb128_encrypt block ys st in (o1 @ o2, st)) \<and>
    (let (out, st) = CRYPTO_ctr128_encrypt block xs (ivec, e, num) in CRYPTO_ctr128_encrypt block out (ivec, e, num) = (xs, st)) \<and>
    (let (out, st) = CRYPTO_ofb128_encrypt block xs (ivec, num) in CRYPTO_ofb128_encrypt block out (ivec, num) = (xs, st))"
proof (intro conjI)
  obtain o1 iv1 e1 n1 where c: "ctr_ref block xs ((ivec, e), num) = (o1, (iv1, e1), n1)"
    by (cases "ctr_ref block xs ((ivec, e), num)") auto
  note C = CRYPTO_ctr128_encrypt [OF assms] CRYPTO_ofb128_encrypt [OF assms]
  obtain o2 iv2 n2 where o: "stream_ref block (\<lambda>x. x) xs (ivec, num) = (o2, iv2, n2)" by (metis surj_pair)
  have l: "length iv1 = 16" "n1 < 16" "length iv2 = 16" "n2 < 16"
    using ctr_state [OF assms(2,3) c] ofb_state [OF assms o] by simp_all
  show "CRYPTO_ctr128_encrypt block (xs @ ys) (ivec, e, num) =
      (let (o1, st) = CRYPTO_ctr128_encrypt block xs (ivec, e, num); (o2, st) = CRYPTO_ctr128_encrypt block ys st in (o1 @ o2, st))"
    unfolding C stream_ref_append using c CRYPTO_ctr128_encrypt [OF assms(1) l(1,2)] by (simp add: Let_def split_beta)
  show "CRYPTO_ofb128_encrypt block (xs @ ys) (ivec, num) =
      (let (o1, st) = CRYPTO_ofb128_encrypt block xs (ivec, num); (o2, st) = CRYPTO_ofb128_encrypt block ys st in (o1 @ o2, st))"
    unfolding C stream_ref_append using o CRYPTO_ofb128_encrypt [OF assms(1) l(3,4)] by (simp add: Let_def split_beta)
  show "let (out, st) = CRYPTO_ctr128_encrypt block xs (ivec, e, num) in CRYPTO_ctr128_encrypt block out (ivec, e, num) = (xs, st)"
    using c stream_ref_undo [of "ctr_refresh block" snd xs "((ivec, e), num)"] by (simp add: C)
  show "let (out, st) = CRYPTO_ofb128_encrypt block xs (ivec, num) in CRYPTO_ofb128_encrypt block out (ivec, num) = (xs, st)"
    using o stream_ref_undo [of block "\<lambda>x. x" xs "(ivec, num)"] by (simp add: C)
qed

theorem streams_compose_witness:
  "(let (out, st) = CRYPTO_ofb128_encrypt rev [1, 2, 3] (replicate 16 9, 15) in CRYPTO_ofb128_encrypt rev out (replicate 16 9, 15) = ([1, 2, 3], st))"
  by (rule streams_compose [THEN conjunct2, THEN conjunct2, THEN conjunct2]) (simp_all add: block_sized_def)

text \<open>C26: cipher feedback by blocks, by bytes and by bits: decrypting what was encrypted from the same state gives the
  text back (for the bits: the given number of them, in buffers of any former contents) and the same final state.\<close>

theorem cfb_roundtrip:
  assumes "block_sized block" "length ivec = 16" "num < 16" "bits \<le> 8 * length xs" "length buf = length xs" "length buf2 = length xs"
  shows "(let (out, st) = CRYPTO_cfb128_encrypt block xs (ivec, num) True in CRYPTO_cfb128_encrypt block out (ivec, num) False = (xs, st)) \<and>
    (let (out, st) = CRYPTO_cfb128_8_encrypt block xs ivec True in CRYPTO_cfb128_8_encrypt block out ivec False = (xs, st)) \<and>
    (let (out, st) = CRYPTO_cfb128_1_encrypt block xs buf bits ivec True; (out2, st2) = CRYPTO_cfb128_1_encrypt block out buf2 bits ivec False
     in map (nth_bit out2) [0..<bits] = map (nth_bit xs) [0..<bits] \<and> st2 = st)"
proof (intro conjI)
  obtain o1 st1 where a: "cfb_ref block True xs (ivec, num) = (o1, st1)" by (metis surj_pair)
  then show "let (out, st) = CRYPTO_cfb128_encrypt block xs (ivec, num) True in CRYPTO_cfb128_encrypt block out (ivec, num) False = (xs, st)"
    using cfb_ref_undo [of block xs "(ivec, num)"] by (simp add: CRYPTO_cfb128_encrypt [OF assms(1-3)])
  obtain o2 st2 where b: "cfb8_ref block True xs ivec = (o2, st2)" by (metis surj_pair)
  then show "let (out, st) = CRYPTO_cfb128_8_encrypt block xs ivec True in CRYPTO_cfb128_8_encrypt block out ivec False = (xs, st)"
    using cfb8_ref_undo [of block xs ivec] by (simp add: CRYPTO_cfb128_8_encrypt [OF assms(1,2)])
  obtain o3 st3 where c: "CRYPTO_cfb128_1_encrypt block xs buf bits ivec True = (o3, st3)" by (metis surj_pair)
  then have e: "cfb1_ref block True (map (nth_bit xs) [0..<bits]) ivec = (map (nth_bit o3) [0..<bits], st3)" "length o3 = length xs"
    using CRYPTO_cfb128_1_encrypt [OF assms(1,2,4,5), of True] assms(5) by auto
  obtain o4 st4 where d: "CRYPTO_cfb128_1_encrypt block o3 buf2 bits ivec False = (o4, st4)" by (metis surj_pair)
  then have "cfb1_ref block False (map (nth_bit o3) [0..<bits]) ivec = (map (nth_bit o4) [0..<bits], st4)"
    using CRYPTO_cfb128_1_encrypt [OF assms(1,2), of bits o3 buf2 False] assms(4,6) e(2) by auto
  then show "let (out, st) = CRYPTO_cfb128_1_encrypt block xs buf bits ivec True; (out2, st2) = CRYPTO_cfb128_1_encrypt block out buf2 bits ivec False
     in map (nth_bit out2) [0..<bits] = map (nth_bit xs) [0..<bits] \<and> st2 = st"
    using cfb1_ref_undo [of block "map (nth_bit xs) [0..<bits]" ivec] e(1) c d by simp
qed

theorem cfb_roundtrip_witness:
  "(let (out, st) = CRYPTO_cfb128_1_encrypt rev [0xa5, 0x3c] [0, 0] 13 (replicate 16 1) True;
       (out2, st2) = CRYPTO_cfb128_1_encrypt rev out [7, 7] 13 (replicate 16 1) False
     in map (nth_bit out2) [0..<13] = map (nth_bit [0xa5, 0x3c]) [0..<13] \<and> st2 = st)"
  by (rule cfb_roundtrip [where num = 0, THEN conjunct2, THEN conjunct2]) (simp_all add: block_sized_def)

end
