(* ===== verification/Spec2Isabelle.thy ===== *)
theory Spec2Isabelle
  imports BER Nanopb_Encode Base64 Conversions Modes
begin

text \<open>
  Verification of the C core of the BeYouID application's vendored libraries
  (\<open>src/iOS/Pods\<close>).  The application itself is a thin React Native shell; its C code is the
  BoringSSL and nanopb pods.

  \<^bold>\<open>Conventions.\<close>  A C integer is a word of its width, or a natural number where the surrounding lemmas show that
  it stays in its range; a struct is a record, an array the list of its elements, a pointer into an array the list from
  there to the end of the object.  Operations take the old state and return a success flag or an option and the new
  state, on every path.  The heap is a parameter (\<open>heap_env\<close>): which sizes of a request succeed and what fresh memory
  holds.  Success is a function of the size, so that two requests of one size in one run have the same outcome; within
  that limit theorems cover the failure of allocations, and \<open>heap_generous\<close> is assumed only where success is claimed.  Callbacks
  and tables that are not part of the code (comparison and hash functions, nanopb stream callbacks, block ciphers, the
  generated object tables) are parameters.  Assertions are preconditions.  An outer \<open>None\<close> stands for a run with
  undefined behaviour (a null pointer that is dereferenced, an access outside of an array where accesses are checked) or
  without end, and theorems show when it does not occur.  Where an output may be an input, the model is called with that
  input in both places; \<open>BN_Alias\<close> and \<open>Modes\<close> model the shared memory itself.

  \<^bold>\<open>Parts of the program and the theories that model them.\<close>

  \<^item> \<^bold>\<open>Prelude\<close>: the C integer types, \<open>size_t\<close> arithmetic with its wrap-around, big-endian values, the heap,
    \<open>memcpy\<close> into a buffer (\<open>blit\<close>).
  \<^item> \<^bold>\<open>Mem\<close>: \<open>crypto/mem.c\<close> and \<open>crypto/buf/buf.c\<close>: allocation behind a size prefix, constant-time comparison,
    C string functions, the growable buffer \<open>BUF_MEM\<close>.
  \<^item> \<^bold>\<open>CBS\<close>, \<^bold>\<open>CBS_ASN1\<close>: \<open>crypto/bytestring/cbs.c\<close>.  A reader is a pointer and a length.  \<open>cbs_view\<close> is what it can still
    read.
  \<^item> \<^bold>\<open>CBB\<close>, \<^bold>\<open>CBB_Correct\<close>, \<^bold>\<open>CBB_ASN1\<close>, \<^bold>\<open>CBB_SetOf\<close>: \<open>crypto/bytestring/cbb.c\<close> and \<open>asn1_compat.c\<close>.  The builder is
    the shared buffer with the chain of the open children; a handle is its depth in the chain.
    \<open>cbb_at d s xs\<close> is the abstraction: \<open>xs\<close> is what the handle at depth \<open>d\<close> would hold after a flush.
    \<open>flushed\<close> is the specification of a flush, \<open>cbb_app\<close> the contract of an operation that appends.
  \<^item> \<^bold>\<open>DER_Spec\<close>: identifier octets, length octets and elements of DER, the specification that the reader
    and the builder share.
  \<^item> \<^bold>\<open>CLib\<close>: \<open>memcmp\<close>, \<open>qsort\<close> and \<open>bsearch\<close> of the C library, with the contract of a comparison function
    as the locale \<open>comparison\<close>.
  \<^item> \<^bold>\<open>BER\<close>: \<open>crypto/bytestring/ber.c\<close>, the conversion of BER to DER on top of the reader and the builder.
  \<^item> \<^bold>\<open>Stack\<close>, \<^bold>\<open>LHash\<close>, \<^bold>\<open>Obj\<close>, \<^bold>\<open>Containers\<close>: \<open>crypto/stack/stack.c\<close> (arrays of pointers, refined to lists),
    \<open>crypto/lhash/lhash.c\<close> (chained hash tables over an explicit store of items, refined to maps, with resizing and
    iteration by callbacks that may delete), \<open>crypto/obj/obj.c\<close> and \<open>asn1/a_object.c\<close> (the registry of object
    identifiers, built on the hash tables, the builder and the reader).  \<open>Containers\<close> holds their properties.
  \<^item> \<^bold>\<open>Const_Time\<close>, \<^bold>\<open>Base64\<close>: the branch-free predicates of \<open>crypto/internal.h\<close> and \<open>crypto/base64/base64.c\<close>.
  \<^item> \<^bold>\<open>Limbs\<close>, \<^bold>\<open>BigNum\<close>, \<^bold>\<open>BN_Arith\<close>, \<^bold>\<open>BN_Shift\<close>, \<^bold>\<open>BN_Mul\<close>, \<^bold>\<open>Checked\<close>, \<^bold>\<open>BN_Div\<close>, \<^bold>\<open>BN_Mod\<close>: \<open>crypto/fipsmodule/bn\<close>
    (\<open>generic.c\<close>, \<open>bn.c\<close>, \<open>cmp.c\<close>, \<open>add.c\<close>, \<open>shift.c\<close>, \<open>mul.c\<close>, \<open>div.c\<close>), with the portable routines of \<open>generic.c\<close> in
    their 128-bit variant.  \<open>wval\<close> is the value of an array of limbs, \<open>bn_abs\<close> and \<open>bn_val\<close> the magnitude and the value of
    a number, \<open>bn_ok\<close> its invariant (the width may have leading zeros).  A \<open>BN_CTX\<close> is a parameter that supplies numbers
    or runs out.  \<open>Checked\<close> has the accesses to arrays with bounds that the long division uses.  \<^bold>\<open>BN_Alias\<close> runs \<open>add.c\<close>
    and its word routines on a store of numbers whose names may coincide, limb by limb, and refines it to \<open>BN_Arith\<close>.
    \<open>Numbers\<close> holds the properties of the arithmetic.
  \<^item> \<^bold>\<open>BN_Bytes\<close>, \<^bold>\<open>BN_Convert\<close>: \<open>bytes.c\<close>, \<open>bn_extra/bn_asn1.c\<close> and \<open>bn_extra/convert.c\<close>: octets, DER, hexadecimal and decimal
    text, MPI.  \<open>Conversions\<close> holds their properties.
  \<^item> \<^bold>\<open>Modes\<close>: \<open>crypto/fipsmodule/modes\<close>: CBC on memory with overlapping buffers, counter mode in both variants, cipher and
    output feedback, each against a specification by blocks or by bytes (\<open>cbc_enc\<close>, \<open>cbc_dec\<close>, \<open>stream_ref\<close>, \<open>cfb_ref\<close>,
    \<open>cfb8_ref\<close>, \<open>cfb1_ref\<close>).
  \<^item> \<^bold>\<open>Nanopb_Decode\<close>, \<^bold>\<open>Nanopb_Decode_Correct\<close>, \<^bold>\<open>Nanopb_Encode\<close>: the streams of \<open>nanopb/pb_decode.c\<close> and
    \<open>pb_encode.c\<close>.  The contracts of the callbacks that move the bytes are the locales \<open>pb_source\<close> and \<open>pb_sink\<close>,
    interpreted on the library's own buffer callbacks.

  \<^bold>\<open>What the lemmas show.\<close>  For each operation, its result on every branch against the abstraction of its component (the
  lemma usually has the name of the operation); the component's invariant; round trips between writers and readers; the
  agreement of the constant-time, the in-place and the batched variants with the plain ones; failure as a value that
  leaves the state well formed.  The theorems named C1, C2 and so on are the main statements; those that span
  components are in this theory.

  \<^bold>\<open>Loops and fuel.\<close>  Loops are structural recursions or functions with a measure.  The recursions of \<open>BER\<close> take the length of
  the input as fuel, which is enough (\<open>find_ber_fuel\<close>, \<open>convert_ber_fuel\<close>, \<open>implicit_chunks_fuel\<close>).  \<open>qhat_loop\<close> of the
  division and \<open>bn2dec_loop\<close> are partial functions that are proved to return.

  \<^bold>\<open>Not modelled.\<close>  Releasing memory, locks, reference counts and the error queue have no effect on the modelled state.
  Printing through BIO, exponentiation, primes, square roots and Montgomery arithmetic, digests, ciphers and elliptic curves, GCM and CCM, the nanopb
  message layer over generated field tables, X.509 with its template-driven ASN.1, and TLS, gRPC and the other C++ and
  Objective-C libraries are left out.
\<close>

section \<open>A concrete heap for the witnesses\<close>

definition ample_heap :: heap_env where
  "ample_heap = \<lparr>can_alloc = (\<lambda>n. n < 2 ^ 62), junk = (\<lambda>_. 0)\<rparr>"

lemma ample_heap: "heap_ok ample_heap" "heap_generous ample_heap"
  by (simp_all add: ample_heap_def heap_ok_def heap_generous_def)

lemma CBS_init_ok: "length bs < 2 ^ 64 \<Longrightarrow> cbs_wf (CBS_init bs (length bs)) \<and> cbs_view (CBS_init bs (length bs)) = bs"
  by (simp add: CBS_init_wf)

lemma ready_builder:
  obtains s where "CBB_init ample_heap 0 = (True, s)" "cbb_ready 0 0 s []"
  using CBB_init_ready [OF ample_heap, of 0] by auto

text \<open>Building one thing in a fresh builder and taking the result.\<close>

lemma build_one:
  assumes "heap_ok e" "heap_generous e" "n \<le> 2 ^ 50" "cbb_app e 0 op ys" "length ys \<le> 2 ^ 50"
  shows "\<exists>s1 s2 s3 buf. CBB_init e n = (True, s1) \<and> op s1 = (True, s2)
    \<and> CBB_finish e 0 s2 True True = (Some (buf, length ys), s3) \<and> take (length ys) buf = ys
    \<and> cbs_wf (CBS_init buf (length ys)) \<and> cbs_view (CBS_init buf (length ys)) = ys"
proof -
  obtain s1 where s1: "CBB_init e n = (True, s1)" "cbb_ready 0 0 s1 []"
    using CBB_init_ready [OF assms(1,2), of n] assms(3) by auto
  have "0 + 8 * length ys \<le> 2 ^ 60" using assms(5) by simp
  from cbb_app_ready [OF assms(4,2) s1(2) this] obtain s2 where
    s2: "op s1 = (True, s2)" "cbb_ready (0 + length ys) 0 s2 ([] @ ys)" by blast
  have "0 + length ys \<le> 2 ^ 60" using assms(5) by simp
  from CBB_finish_ready [OF assms(1,2) s2(2) this] obtain buf s3 where
    f: "CBB_finish e 0 s2 True True = (Some (buf, length ys), s3)" "take (length ys) buf = ys" by auto
  then have "length ys \<le> length buf" by (metis length_take min.cobounded1 min.commute)
  then have "cbs_wf (CBS_init buf (length ys))" "cbs_view (CBS_init buf (length ys)) = ys"
    using f(2) assms(5) by (simp_all add: CBS_init_wf)
  with s1 s2 f show ?thesis by blast
qed

section \<open>DER and BER\<close>

text \<open>C1: when \<open>CBS_get_any_asn1\<close> accepts, what it has consumed is exactly the DER encoding of
  the tag and the contents that it returns, and the reader is left on the bytes behind it.\<close>

theorem der_element_sound:
  assumes "cbs_wf c" "CBS_get_any_asn1 c = (Some (out, t), c')"
  shows "cbs_view c = der_elem t (cbs_view out) @ cbs_view c' \<and> cbs_wf out \<and> cbs_wf c'
    \<and> length (cbs_view out) < 2 ^ 32"
  using CBS_get_any_asn1_sound [OF assms] by simp

theorem der_element_sound_witness:
  "\<exists>out c'. CBS_get_any_asn1 (CBS_init [2, 1, 5, 9] 4) = (Some (out, 2), c') \<and> cbs_view c' = [9]"
proof -
  have v: "cbs_wf (CBS_init [2, 1, 5, 9] 4)" "cbs_view (CBS_init [2, 1, 5, 9] 4) = der_elem 2 [5] @ [9]"
    by (simp_all add: CBS_init_wf der_elem_def der_header_def der_tag_def der_len_def)
  obtain out c' where g: "CBS_get_any_asn1 (CBS_init [2, 1, 5, 9] 4) = (Some (out, 2), c')" "cbs_view out = [5]"
    using CBS_get_any_asn1_complete [OF v] by auto
  show ?thesis using der_element_sound [OF v(1) g(1)] g v(2) by auto
qed

text \<open>C2: every DER element whose contents have less than \<open>2 ^ 32\<close> bytes is accepted, with its tag and
  its contents, whatever follows it.\<close>

theorem der_element_complete:
  assumes "cbs_wf c" "cbs_view c = der_elem t body @ rest" "length body < 2 ^ 32"
  shows "\<exists>out c'. CBS_get_any_asn1 c = (Some (out, t), c') \<and> cbs_view out = body \<and> cbs_view c' = rest"
  using CBS_get_any_asn1_complete [OF assms] by blast

theorem der_element_complete_witness:
  "\<exists>out c'. CBS_get_any_asn1 (CBS_init [4, 2, 7, 8] 4) = (Some (out, 4), c')
    \<and> cbs_view out = [7, 8] \<and> cbs_view c' = []"
  by (rule der_element_complete)
    (simp_all add: CBS_init_wf der_elem_def der_header_def der_tag_def der_len_def)

text \<open>C3: an INTEGER that \<open>CBB_add_asn1_uint64\<close> writes into a fresh builder is read back by
  \<open>CBS_get_asn1_uint64\<close> as the same number, with nothing left over.\<close>

theorem asn1_uint64_roundtrip:
  assumes "heap_ok e" "heap_generous e" "n \<le> 2 ^ 50"
  shows "\<exists>s1 s2 s3 buf k c'. CBB_init e n = (True, s1) \<and> CBB_add_asn1_uint64 e 0 s1 v = (True, s2)
    \<and> CBB_finish e 0 s2 True True = (Some (buf, k), s3)
    \<and> CBS_get_asn1_uint64 (CBS_init buf k) = (Some v, c') \<and> cbs_view c' = []"
proof -
  let ?ys = "der_uint (unat v)"
  have lu: "length ?ys \<le> 9" by (rule length_der_uint) (rule unat_u64_lt)
  then have l: "length (der_elem CBS_ASN1_INTEGER ?ys) \<le> 20"
    using length_der_tag [of CBS_ASN1_INTEGER] length_der_len [of "length ?ys"]
    by (simp add: der_elem_def der_header_def)
  then obtain s1 s2 s3 buf where b: "CBB_init e n = (True, s1)" "CBB_add_asn1_uint64 e 0 s1 v = (True, s2)"
    "CBB_finish e 0 s2 True True = (Some (buf, length (der_elem CBS_ASN1_INTEGER ?ys)), s3)"
    "cbs_wf (CBS_init buf (length (der_elem CBS_ASN1_INTEGER ?ys)))"
    "cbs_view (CBS_init buf (length (der_elem CBS_ASN1_INTEGER ?ys))) = der_elem CBS_ASN1_INTEGER ?ys"
    using build_one [OF assms cbb_app_asn1_uint64 [OF assms(1)], of v] by auto
  obtain out c' where g: "CBS_get_asn1 (CBS_init buf (length (der_elem CBS_ASN1_INTEGER ?ys))) CBS_ASN1_INTEGER = (Some out, c')"
    "cbs_view out = ?ys" "cbs_view c' = []" "cbs_wf out"
    using CBS_get_asn1_complete [OF b(4), of CBS_ASN1_INTEGER ?ys "[]"] b(5) lu by auto
  have "CBS_get_asn1_uint64 (CBS_init buf (length (der_elem CBS_ASN1_INTEGER ?ys))) = (Some v, c')"
    using CBS_get_asn1_uint64_eq [OF g(4,1)] g(2) unat_u64_lt [of v] by (simp add: der_uint_is_ok der_uint_val)
  with b(1-3) g(3) show ?thesis by blast
qed

theorem asn1_uint64_roundtrip_witness:
  "\<exists>s1 s2 s3 buf k c'. CBB_init ample_heap 4 = (True, s1) \<and> CBB_add_asn1_uint64 ample_heap 0 s1 300 = (True, s2)
    \<and> CBB_finish ample_heap 0 s2 True True = (Some (buf, k), s3)
    \<and> CBS_get_asn1_uint64 (CBS_init buf k) = (Some 300, c') \<and> cbs_view c' = []"
  by (rule asn1_uint64_roundtrip [OF ample_heap]) simp

text \<open>C4: a big number that \<open>BN_marshal_asn1\<close> writes into a fresh builder is read back by
  \<open>BN_parse_asn1_unsigned\<close> as the same number, with nothing left over; both succeed when memory is available.\<close>

theorem bn_asn1_roundtrip:
  assumes "heap_ok e" "heap_generous e" "n \<le> 2 ^ 50" "bn_ok a" "\<not> bn_neg a" "bn_width a < bn_max_words" "bn_ok r" "bn_expandable r"
  shows "\<exists>s1 s2 s3 buf k r' c'. CBB_init e n = (True, s1) \<and> BN_marshal_asn1 e 0 s1 a = (True, s2)
    \<and> CBB_finish e 0 s2 True True = (Some (buf, k), s3)
    \<and> BN_parse_asn1_unsigned e (CBS_init buf k) r = (Some r', c') \<and> bn_ok r' \<and> bn_val r' = bn_val a \<and> cbs_view c' = []"
proof -
  let ?ys = "der_elem CBS_ASN1_INTEGER (der_uint (bn_abs a))"
  have "length (der_uint (bn_abs a)) \<le> 8 * bn_width a + 1"
    using num_bytes_min(1,3) [OF assms(4)] by (auto simp: der_uint_def Let_def)
  then have lu: "length (der_uint (bn_abs a)) \<le> 8 * bn_max_words" using assms(6) by simp
  then have l: "length ?ys \<le> 2 ^ 50"
    using length_der_tag [of CBS_ASN1_INTEGER] length_der_len [of "length (der_uint (bn_abs a))"]
    by (simp add: der_elem_def der_header_def bn_max_words)
  obtain s1 s2 s3 buf where b: "CBB_init e n = (True, s1)" "BN_marshal_asn1 e 0 s1 a = (True, s2)"
    "CBB_finish e 0 s2 True True = (Some (buf, length ?ys), s3)"
    "cbs_wf (CBS_init buf (length ?ys))" "cbs_view (CBS_init buf (length ?ys)) = ?ys @ []"
    using build_one [OF assms(1-3) cbb_app_marshal [OF assms(1,4,5)] l] by auto
  have "bn_val a = int (bn_abs a)" using assms(5) by (simp add: bn_val_def)
  with b(1-3) parse_number [OF b(4,5) assms(2,7,8) lu] show ?thesis by fastforce
qed

theorem bn_asn1_roundtrip_witness:
  "\<exists>s1 s2 s3 buf k r' c'. CBB_init ample_heap 4 = (True, s1) \<and> BN_marshal_asn1 ample_heap 0 s1 (number [5, 1] False) = (True, s2)
    \<and> CBB_finish ample_heap 0 s2 True True = (Some (buf, k), s3)
    \<and> BN_parse_asn1_unsigned ample_heap (CBS_init buf k) BN_init = (Some r', c') \<and> bn_val r' = 2 ^ 64 + 5"
proof -
  have p: "(4 :: nat) \<le> 2 ^ 50" "bn_ok (number [5, 1] False)" "\<not> bn_neg (number [5, 1] False)"
      "bn_width (number [5, 1] False) < bn_max_words" "bn_ok BN_init" "bn_expandable BN_init"
    by (simp_all add: number init_number bn_max_words)
  have "bn_val (number [5, 1] False) = 2 ^ 64 + 5" by (simp add: number radix_def)
  with bn_asn1_roundtrip [OF ample_heap p] show ?thesis by auto
qed

text \<open>On an INTEGER element \<open>CBS_get_asn1_uint64\<close> answers exactly for the minimal encodings of numbers
  below \<open>2 ^ 64\<close>; negative, padded and oversized ones are rejected.\<close>

theorem asn1_uint64_accepts:
  assumes "cbs_wf c" "cbs_view c = der_elem CBS_ASN1_INTEGER body @ rest" "length body < 2 ^ 32"
  shows "fst (CBS_get_asn1_uint64 c) =
    (if \<exists>n < 2 ^ 64. body = der_uint n then Some (of_nat (be_val body)) else None)"
proof -
  obtain out c' where g: "CBS_get_asn1 c CBS_ASN1_INTEGER = (Some out, c')" "cbs_view out = body" "cbs_wf out"
    using CBS_get_asn1_complete [OF assms] by blast
  have "(\<exists>n < 2 ^ 64. body = der_uint n) \<longleftrightarrow> der_uint_ok body \<and> be_val body < 2 ^ 64"
    using der_uint_of_val [of body] der_uint_is_ok der_uint_val by metis
  with CBS_get_asn1_uint64_eq [OF g(3,1)] g(2) show ?thesis by simp
qed

theorem asn1_uint64_accepts_witness:
  "fst (CBS_get_asn1_uint64 (CBS_init [2, 2, 0, 0x85] 4)) =
    (if \<exists>n < 2 ^ 64. [0, 0x85] = der_uint n then Some (of_nat (be_val [0, 0x85])) else None)"
  by (rule asn1_uint64_accepts [where rest = "[]"])
    (simp_all add: CBS_init_wf der_elem_def der_header_def der_tag_def der_len_def CBS_ASN1_INTEGER_def)

text \<open>C5: \<open>CBB_flush\<close> implements its specification: \<open>cbb_at d s xs\<close> says that the builder would hold \<open>xs\<close>
  once the length prefixes of the open children of the handle at depth \<open>d\<close> are filled in.  A flush that
  succeeds has closed these children and the buffer holds exactly \<open>xs\<close>; one that fails marks the builder
  as failed.\<close>

theorem flush_refines:
  assumes "heap_ok e" "cbb_at d s xs" "CBB_flush e d s = (ok, s')"
  shows "if ok then cbb_chain s' = take d (cbb_chain s) \<and> cbb_at d s' xs
      \<and> (\<exists>b. cbb_base s' = Some b \<and> b_bytes b = xs)
    else cbb_failed s'"
  using CBB_flush_at [OF assms] by auto

theorem flush_refines_witness:
  "\<exists>s s'. CBB_flush ample_heap 0 s = (True, s') \<and> (\<exists>b. cbb_base s' = Some b \<and> b_bytes b = [])"
proof -
  obtain s where s: "cbb_ready 0 0 s []" by (rule ready_builder)
  have "(0 :: nat) \<le> 2 ^ 60" by simp
  from CBB_flush_ready [OF ample_heap s this] obtain s' where "CBB_flush ample_heap 0 s = (True, s')" by blast
  with flush_refines [OF ample_heap(1) cbb_ready_at [OF s] this] show ?thesis by auto
qed

text \<open>C6: when the heap has room and the builder may grow, a flush succeeds whenever the contents of every
  open child fit their length prefixes.\<close>

theorem flush_succeeds:
  assumes "heap_ok e" "heap_generous e" "cbb_ready n d s xs" "n \<le> 2 ^ 60"
  shows "\<exists>s'. CBB_flush e d s = (True, s') \<and> cbb_ready n d s' xs"
  using CBB_flush_ready [OF assms] by blast

theorem flush_succeeds_witness:
  "\<exists>s s'. CBB_flush ample_heap 0 s = (True, s') \<and> cbb_ready 0 0 s' []"
proof -
  obtain s where s: "cbb_ready 0 0 s []" by (rule ready_builder)
  have "(0 :: nat) \<le> 2 ^ 60" by simp
  from flush_succeeds [OF ample_heap s this] show ?thesis by blast
qed

text \<open>A failed builder, and the operations that flush first.\<close>

definition failed_builder :: cbb where
  "failed_builder = CBB_zero\<lparr>cbb_base := Some \<lparr>b_buf = [0, 0], b_len = 0, b_cap = 2, b_can_resize = True, b_error = True\<rparr>\<rparr>"

lemma failed_ops:
  assumes "cbb_failed s"
  shows "flush_then e d s f = (False, s)" "CBB_add_bytes e d s data k = (False, s)" "CBB_add_space e d s k = (None, s)"
    "CBB_reserve e d s k = (None, s)" "CBB_add_u8 e d s v8 = (False, s)" "CBB_add_u16 e d s v16 = (False, s)"
    "CBB_add_u24 e d s v24 = (False, s)" "CBB_add_u32 e d s v32 = (False, s)" "CBB_add_u8_length_prefixed e d s = (False, s)"
    "CBB_add_u16_length_prefixed e d s = (False, s)" "CBB_add_u24_length_prefixed e d s = (False, s)"
    "CBB_add_asn1 e d s tag = (False, s)" "CBB_finish e d s want_data want_len = (None, s)"
  by (simp_all add: CBB_flush_failed [OF assms] flush_then_def CBB_add_bytes_def CBB_add_space_def CBB_reserve_def
      CBB_add_u8_def CBB_add_u16_def CBB_add_u24_def CBB_add_u32_def CBB_add_u8_length_prefixed_def
      CBB_add_u16_length_prefixed_def CBB_add_u24_length_prefixed_def cbb_add_length_prefixed_def CBB_add_asn1_def
      and_then_def CBB_finish_def)

text \<open>C7: errors are sticky.  On a failed builder every flush, every operation that appends bytes, integers,
  length-prefixed or ASN.1 children, elements or object identifiers, the sorting of a set and the finish fail
  and leave the builder as it is.  \<open>CBB_did_write\<close> and \<open>CBB_discard_child\<close>, which do not look at the error,
  may change the recorded length, but leave the builder failed.\<close>

theorem failed_builder_stays:
  assumes "cbb_failed s"
  shows "CBB_flush e d s = (False, s) \<and> CBB_add_bytes e d s data k = (False, s)
    \<and> CBB_add_space e d s k = (None, s) \<and> CBB_reserve e d s k = (None, s)
    \<and> CBB_add_u8 e d s v8 = (False, s) \<and> CBB_add_u16 e d s v16 = (False, s)
    \<and> CBB_add_u24 e d s v24 = (False, s) \<and> CBB_add_u32 e d s v32 = (False, s)
    \<and> CBB_add_u8_length_prefixed e d s = (False, s) \<and> CBB_add_u16_length_prefixed e d s = (False, s)
    \<and> CBB_add_u24_length_prefixed e d s = (False, s) \<and> CBB_add_asn1 e d s tag = (False, s)
    \<and> CBB_add_asn1_uint64 e d s v64 = (False, s) \<and> CBB_add_asn1_octet_string e d s data k = (False, s)
    \<and> CBB_add_asn1_bool e d s flag = (False, s) \<and> CBB_add_asn1_oid_from_text e d s data k = (False, s)
    \<and> CBB_flush_asn1_set_of e d s = (False, s) \<and> CBB_finish e d s want_data want_len = (None, s)
    \<and> cbb_failed (CBB_discard_child d s)
    \<and> (case CBB_did_write d s k of None \<Rightarrow> length (cbb_chain s) < d | Some (_, s') \<Rightarrow> cbb_failed s')"
proof -
  note F = CBB_flush_failed [OF assms, of e]
  have "cbb_failed (CBB_discard_child d s)"
    using assms by (auto simp: cbb_failed_def CBB_discard_child_def split: list.split option.splits)
  moreover have "case CBB_did_write d s k of None \<Rightarrow> length (cbb_chain s) < d | Some (_, s') \<Rightarrow> cbb_failed s'"
    using assms by (auto simp: cbb_failed_def CBB_did_write_def Let_def split: option.splits)
  ultimately show ?thesis
    by (simp add: F failed_ops [OF assms] CBB_add_asn1_uint64_def CBB_add_asn1_octet_string_def CBB_add_asn1_bool_def
        CBB_add_asn1_oid_from_text_def CBB_flush_asn1_set_of_def and_then_def)
qed

theorem failed_builder_stays_witness:
  "CBB_finish ample_heap 0 failed_builder True True = (None, failed_builder)
   \<and> CBB_add_asn1_uint64 ample_heap 0 failed_builder 7 = (False, failed_builder)
   \<and> CBB_did_write 0 failed_builder 1 = Some (True, failed_builder\<lparr>cbb_base := Some \<lparr>b_buf = [0, 0], b_len = 1,
       b_cap = 2, b_can_resize = True, b_error = True\<rparr>\<rparr>)
   \<and> cbb_failed (CBB_discard_child 0 failed_builder)"
proof -
  have f: "cbb_failed failed_builder" by (simp add: failed_builder_def cbb_failed_def)
  have "CBB_did_write 0 failed_builder 1 = Some (True, failed_builder\<lparr>cbb_base := Some \<lparr>b_buf = [0, 0], b_len = 1,
       b_cap = 2, b_can_resize = True, b_error = True\<rparr>\<rparr>)"
    by (simp add: CBB_did_write_def failed_builder_def CBB_zero_def size_add_exact)
  then show ?thesis
    using failed_builder_stays [OF f, of ample_heap 0] by blast
qed

text \<open>A child with a two-byte length prefix: opening it, appending the data and flushing the parent
  appends the big-endian length and the data, whatever the parent held, or fails the builder; with
  enough memory it succeeds.\<close>

theorem u16_prefixed_child:
  assumes "heap_ok e" "length data < 2 ^ 16" "cbb_at d s xs"
    and "and_then (and_then (CBB_add_u16_length_prefixed e d s)
           (\<lambda>s. CBB_add_bytes e (Suc d) s data (length data))) (CBB_flush e d) = (ok, s')"
  shows "if ok then cbb_at d s' (xs @ be_bytes 2 (length data) @ data) else cbb_failed s'"
proof -
  have "cbb_app e d (\<lambda>s. and_then (and_then (cbb_add_length_prefixed e d s 2)
      (\<lambda>s. CBB_add_bytes e (Suc d) s data (length data))) (CBB_flush e d))
    (take (length (replicate 2 (0 :: u8)) - 2) (replicate 2 0) @ be_bytes 2 (length data) @ data)"
    by (rule cbb_app_child [OF assms(1) cbb_open_length_prefixed cbb_app_imp_weak])
      (use assms cbb_app_bytes [of e "length data" data "Suc d"] in \<open>simp_all add: len_prefix_def\<close>)
  from cbb_app_at [OF this assms(3)] assms(4) show ?thesis
    by (auto simp: CBB_add_u16_length_prefixed_def split: if_splits)
qed

theorem u16_prefixed_child_witness:
  "\<exists>s s' ok. and_then (and_then (CBB_add_u16_length_prefixed ample_heap 0 s)
      (\<lambda>s. CBB_add_bytes ample_heap (Suc 0) s [7, 8] (length [7 :: u8, 8]))) (CBB_flush ample_heap 0) = (ok, s')
    \<and> (if ok then cbb_at 0 s' [0, 2, 7, 8] else cbb_failed s')"
proof -
  obtain s where s: "cbb_ready 0 0 s []" by (rule ready_builder)
  obtain ok s' where r: "and_then (and_then (CBB_add_u16_length_prefixed ample_heap 0 s)
      (\<lambda>s. CBB_add_bytes ample_heap (Suc 0) s [7, 8] (length [7 :: u8, 8]))) (CBB_flush ample_heap 0) = (ok, s')"
    by (cases "and_then (and_then (CBB_add_u16_length_prefixed ample_heap 0 s)
      (\<lambda>s. CBB_add_bytes ample_heap (Suc 0) s [7, 8] (length [7 :: u8, 8]))) (CBB_flush ample_heap 0)")
  have lt: "length [7 :: u8, 8] < 2 ^ 16" by simp
  have be: "[] @ be_bytes 2 (length [7 :: u8, 8]) @ [7, 8] = [0, 2, 7, 8]"
    unfolding numeral_2_eq_2 by simp
  have "if ok then cbb_at 0 s' [0, 2, 7, 8] else cbb_failed s'"
    using u16_prefixed_child [OF ample_heap(1) lt cbb_ready_at [OF s] r] unfolding be .
  with r show ?thesis by (intro exI [of _ s] exI [of _ s'] exI [of _ ok] conjI)
qed


text \<open>C11: an object identifier in dotted form (at least two arcs, within the limits of X.660 and 64 bits) is
  encoded as its DER contents, and a failure can only be a failure of the builder.\<close>

theorem oid_from_text_encodes:
  assumes "heap_ok e" "oid_ok as" "length (oid_text as) < 2 ^ 64" "cbb_at d s xs"
    and "CBB_add_asn1_oid_from_text e d s (oid_text as) (length (oid_text as)) = (ok, s')"
  shows "if ok then cbb_at d s' (xs @ oid_der as) \<and> cbb_chain s' = take d (cbb_chain s) else cbb_failed s'"
  by (rule cbb_app_at [OF cbb_app_oid_from_text [OF assms(1,2) refl assms(3)] assms(4,5)])

theorem oid_from_text_encodes_witness:
  "\<exists>s s' ok. CBB_add_asn1_oid_from_text ample_heap 0 s (oid_text [1, 2, 840]) (length (oid_text [1, 2, 840])) = (ok, s')
    \<and> (ok \<longrightarrow> cbb_at 0 s' (oid_der [1, 2, 840]))"
proof -
  obtain s where s: "cbb_ready 0 0 s []" by (rule ready_builder)
  obtain ok s' where r: "CBB_add_asn1_oid_from_text ample_heap 0 s (oid_text [1, 2, 840]) (length (oid_text [1, 2, 840])) = (ok, s')"
    by (cases "CBB_add_asn1_oid_from_text ample_heap 0 s (oid_text [1, 2, 840]) (length (oid_text [1, 2, 840]))")
  have "oid_ok [1, 2, 840]" "length (oid_text [1, 2, 840]) < 2 ^ 64" by (simp_all add: decimal.simps)
  from oid_from_text_encodes [OF ample_heap(1) this cbb_ready_at [OF s] r] r show ?thesis by (auto split: if_splits)
qed

text \<open>C12: the DER contents of an object identifier are converted to exactly its dotted form.\<close>

theorem oid_to_text_decodes:
  assumes "heap_ok e" "heap_generous e" "cbs_wf c" "cbs_view c = oid_der as" "oid_ok as" "length as \<le> 2 ^ 48"
  shows "\<exists>t. CBS_asn1_oid_to_text e c = Some t \<and> cstr t = oid_text as"
  using CBS_asn1_oid_to_text_correct [OF assms] by blast

theorem oid_to_text_decodes_witness:
  "\<exists>t. CBS_asn1_oid_to_text ample_heap (CBS_init (oid_der [2, 5, 4]) (length (oid_der [2, 5, 4]))) = Some t
    \<and> cstr t = oid_text [2, 5, 4]"
  by (rule oid_to_text_decodes [OF ample_heap])
    (use CBS_init_ok [of "oid_der [2, 5, 4]"] in \<open>simp_all add: base128_def\<close>)

text \<open>C13: after \<open>CBB_flush_asn1_set_of\<close> has succeeded, the contents of the handle are the same DER
  elements as before, sorted by their encodings, and what precedes them is unchanged.\<close>

theorem set_of_sorts:
  assumes "heap_ok e" "cbb_at d s xs" "CBB_flush_asn1_set_of e d s = (True, s')"
  shows "\<exists>els es'. drop (cbb_start d s) xs = der_elems els
    \<and> mset es' = mset (map (\<lambda>(t, b). der_elem t b) els) \<and> sorted_wrt (\<lambda>x y. lex_cmp x y \<le> 0) es'
    \<and> cbb_at d s' (take (cbb_start d s) xs @ concat es')"
  using CBB_flush_asn1_set_of_sound [OF assms] unfolding set_of_result_def set_of_order_def by fastforce

theorem set_of_sorts_witness:
  "\<exists>s s' es'. CBB_flush_asn1_set_of ample_heap 0 s = (True, s') \<and> sorted_wrt (\<lambda>x y. lex_cmp x y \<le> 0) es'
    \<and> cbb_at 0 s' (concat es')"
proof -
  obtain s where s: "cbb_ready 0 0 s []" by (rule ready_builder)
  obtain s' where r: "CBB_flush_asn1_set_of ample_heap 0 s = (True, s')"
    using CBB_flush_asn1_set_of_total [OF ample_heap s, of "[]"] by auto
  from set_of_sorts [OF ample_heap(1) cbb_ready_at [OF s] r] r show ?thesis by auto
qed

text \<open>And it does succeed on well-formed elements when the heap has room.\<close>

theorem set_of_succeeds:
  assumes "heap_ok e" "heap_generous e" "cbb_ready n d s xs" "16 * n \<le> 2 ^ 60"
    and "drop (cbb_start d s) xs = der_elems els" "\<forall>(t, b)\<in>set els. length b < 2 ^ 32"
  shows "\<exists>s'. CBB_flush_asn1_set_of e d s = (True, s')"
  by (rule CBB_flush_asn1_set_of_total [OF assms])

theorem set_of_succeeds_witness:
  "\<exists>s s'. CBB_flush_asn1_set_of ample_heap 0 s = (True, s')"
proof -
  obtain s where s: "cbb_ready 0 0 s []" by (rule ready_builder)
  from set_of_succeeds [OF ample_heap s, of "[]"] show ?thesis by auto
qed

text \<open>The conversion of an empty constructed OCTET STRING, executed.\<close>

definition small_heap :: heap_env where
  "small_heap = \<lparr>can_alloc = (\<lambda>n. n < 1000), junk = (\<lambda>_. 0)\<rparr>"

definition two_bytes :: "bytes \<Rightarrow> nat \<Rightarrow> cbb_frame list \<Rightarrow> cbb" where
  "two_bytes buf n fs = \<lparr>cbb_base = Some \<lparr>b_buf = buf, b_len = n, b_cap = 2, b_can_resize = True, b_error = False\<rparr>,
     cbb_chain = fs\<rparr>"

lemma run_element:
  "CBS_get_any_ber_asn1_element (CBS_init [0x24, 0] 2) = (Some (CBS_init [0x24, 0] 2, 0x20000004, 2), CBS_init [] 0)"
  by (simp add: CBS_get_any_ber_asn1_element_def cbs_get_any_asn1_element_def CBS_len_def CBS_data_def CBS_init_def
      parse_asn1_tag_def CBS_get_u8_def cbs_get_def CBS_get_bytes_def CBS_ASN1_TAG_SHIFT_def CBS_ASN1_CONSTRUCTED_def
      CBS_ASN1_TAG_NUMBER_MASK_def cbs_get_u_def get_u_step_def size_add_def)

lemma run_scan: "cbs_find_ber (CBS_init [0x24, 0] 2) False 0 = (True, True)"
  by (simp add: cbs_find_ber_def kMaxDepth_def CBS_len_def CBS_data_def find_ber_loop.simps CBS_init_def
      run_element [simplified CBS_init_def] is_indefinite_def is_string_type_def CBS_ASN1_CONSTRUCTED_def)

lemma run_init: "CBB_init small_heap 2 = (True, two_bytes [0, 0] 0 [])"
  by (simp add: CBB_init_def cbb_init_def OPENSSL_malloc_def small_heap_def OPENSSL_MALLOC_PREFIX_def size_add_def
      upt_rec two_bytes_def)

lemma run_open:
  "CBB_add_asn1 small_heap 0 (two_bytes [0, 0] 0 []) 4 =
    (True, two_bytes [4, 0] 2 [\<lparr>f_offset = 1, f_pending_len_len = 1, f_pending_is_asn1 = True\<rparr>])"
  by (simp add: CBB_add_asn1_def and_then_def CBB_flush_def CBS_ASN1_TAG_SHIFT_def CBS_ASN1_TAG_NUMBER_MASK_def
      CBB_add_u8_def flush_then_def cbb_buffer_add_u_def cbb_buffer_add_def cbb_buffer_reserve_def push_child_def
      size_add_def size_mul_def cbb_base_len_def two_bytes_def)

lemma run_flush:
  "CBB_flush small_heap 0 (two_bytes [4, 0] 2 [\<lparr>f_offset = 1, f_pending_len_len = 1, f_pending_is_asn1 = True\<rparr>]) =
    (True, two_bytes [4, 0] 2 [])"
  by (simp add: CBB_flush_def flush_child_def asn1_len_len_def size_add_def two_bytes_def)

lemma run_convert:
  "CBS_asn1_ber_to_der small_heap (CBS_init [0x24, 0] 2) = (Some (Some [4, 0], 2), CBS_init [] 0)"
proof -
  have "CBB_finish small_heap 0 (two_bytes [4, 0] 2 []) True True = (Some ([4, 0], 2), CBB_cleanup (two_bytes [4, 0] 2 []))"
    by (simp add: CBB_finish_def CBB_flush_def two_bytes_def CBB_cleanup_def)
  moreover have "memcmp [0x24, 0] [0, 0] (Suc (Suc 0)) = 1" by simp
  then have "memcmp [0x24, 0] [0, 0] 2 = 1" by (simp only: numeral_2_eq_2)
  then have "cbs_convert_ber 2 small_heap (CBS_init [0x24, 0] 2) 0 (two_bytes [0, 0] 0 []) 0 False 0 =
      (True, CBS_init [] 0, two_bytes [4, 0] 2 [])"
    using run_open run_flush
    by (simp add: cbs_convert_ber.simps [of 2] cbs_convert_ber.simps [of "Suc 0"] kMaxDepth_def is_eoc_def
        run_element [simplified CBS_init_def] convert_target_def is_indefinite_def CBS_skip_def cbs_get_def is_string_type_def CBS_ASN1_CONSTRUCTED_def
        CBS_len_def CBS_data_def CBS_init_def)
  ultimately show ?thesis by (simp add: CBS_asn1_ber_to_der_def run_scan run_init CBS_len_def)
qed

text \<open>C14: when \<open>CBS_asn1_ber_to_der\<close> converts, its output is a sequence of definite-length elements in
  which no constructed string is left, nested at most \<open>kMaxDepth\<close> deep.\<close>

theorem ber_to_der_output:
  assumes "heap_ok e" "cbs_wf c" "c_len c < 2 ^ 62"
    and "CBS_asn1_ber_to_der e c = (Some (Some out, n), c')"
  shows "n \<le> length out \<and> der_within kMaxDepth (take n out)"
  by (rule CBS_asn1_ber_to_der_sound [OF assms])


theorem ber_to_der_output_witness:
  "der_within kMaxDepth (take 2 [4, 0])"
proof -
  have "heap_ok small_heap" by (simp add: heap_ok_def small_heap_def)
  moreover have "cbs_wf (CBS_init [0x24, 0] 2)" "c_len (CBS_init [0x24, 0] 2) < 2 ^ 62" by (simp_all add: CBS_init_wf)
  ultimately show ?thesis using ber_to_der_output [OF _ _ _ run_convert] by simp
qed

text \<open>A sequence of such elements is copied byte for byte by the conversion itself.\<close>

theorem ber_conversion_copies_der:
  assumes "heap_ok e" "der_within kMaxDepth bs" "cbs_wf c" "cbs_view c = bs" "c_len c < 2 ^ 62"
    and "cbb_at d s xs" "cbs_convert_ber (c_len c) e c d s 0 False 0 = (ok, c', s')"
  shows "if ok then cbb_at d s' (xs @ bs) else cbb_failed s'"
proof -
  have "cbb_app_weak e d (\<lambda>s. conv_result (cbs_convert_ber (c_len c) e c d s 0 False 0)) bs"
    by (rule convert_ber_der [OF assms(1-4)]) (use assms(5) in simp_all)
  from cbb_app_weak_at [OF this assms(6), of ok s'] assms(7) show ?thesis
    by (simp add: conv_result_def split: if_splits)
qed

theorem ber_conversion_copies_der_witness:
  "\<exists>s s' ok c'. cbs_convert_ber 3 ample_heap (CBS_init (der_elem 4 [7]) 3) 0 s 0 False 0 = (ok, c', s')
    \<and> (ok \<longrightarrow> cbb_at 0 s' (der_elem 4 [7]))"
proof -
  obtain s where s: "cbb_ready 0 0 s []" by (rule ready_builder)
  have w: "der_within kMaxDepth (der_elem 4 [7] @ [])"
    by (rule der_within.der_prim) (simp_all add: CBS_ASN1_CONSTRUCTED_def der_within.der_Nil)
  have l: "length (der_elem 4 [7]) = 3" by (simp add: der_elem_def der_header_def der_tag_def der_len_def)
  obtain ok c' s' where r: "cbs_convert_ber 3 ample_heap (CBS_init (der_elem 4 [7]) 3) 0 s 0 False 0 = (ok, c', s')"
    by (cases "cbs_convert_ber 3 ample_heap (CBS_init (der_elem 4 [7]) 3) 0 s 0 False 0")
  from ber_conversion_copies_der [OF ample_heap(1) w, of "CBS_init (der_elem 4 [7]) 3" 0 s "[]" ok c' s']
  have "ok \<longrightarrow> cbb_at 0 s' (der_elem 4 [7])"
    using r l cbb_ready_at [OF s] CBS_init_ok [of "der_elem 4 [7]"] by (auto split: if_splits)
  with r show ?thesis by blast
qed

text \<open>The scan reports no BER in a sequence of such elements.\<close>

theorem scan_no_false_alarm:
  assumes "der_within kMaxDepth bs" "cbs_wf c" "cbs_view c = bs"
  shows "cbs_find_ber c found 0 = (True, False)"
  by (rule cbs_find_ber_der [OF assms])

theorem scan_no_false_alarm_witness:
  "cbs_find_ber (CBS_init (der_elem 4 [7] @ []) (length (der_elem 4 [7] @ []))) True 0 = (True, False)"
proof (rule scan_no_false_alarm)
  show "der_within kMaxDepth (der_elem 4 [7] @ [])"
    by (rule der_within.der_prim) (simp_all add: CBS_ASN1_CONSTRUCTED_def der_within.der_Nil)
qed (use CBS_init_ok [of "der_elem 4 [7] @ []"] in \<open>simp_all add: der_elem_def der_header_def der_tag_def der_len_def\<close>)

text \<open>C18: but it forgets: a constructed string (which is BER) inside one constructed element is not
  reported when a later sibling is a constructed element without BER, because every recursive call
  resets \<open>*ber_found\<close> and the loop goes on after it; the input is then left unconverted.\<close>

theorem scan_forgets:
  assumes "cbs_wf c"
    and "cbs_view c = der_elem t (der_elem st str @ zs) @ der_elem t' body"
    and "st AND CBS_ASN1_CONSTRUCTED \<noteq> 0" "is_string_type st"
    and "t AND CBS_ASN1_CONSTRUCTED \<noteq> 0" "\<not> is_string_type t"
    and "t' AND CBS_ASN1_CONSTRUCTED \<noteq> 0" "\<not> is_string_type t'"
    and "length (der_elem st str @ zs) \<le> 0xfffffffe" "length str \<le> 0xfffffffe" "length body \<le> 0xfffffffe"
    and "der_within k body" "k < kMaxDepth"
  shows "CBS_asn1_ber_to_der e c = (Some (None, 0), c)"
  using cbs_find_ber_forgets [OF assms] by (simp add: CBS_asn1_ber_to_der_def)

theorem scan_forgets_witness:
  "CBS_asn1_ber_to_der ample_heap (CBS_init [0x30, 2, 0x24, 0, 0x30, 0] 6) =
    (Some (None, 0), CBS_init [0x30, 2, 0x24, 0, 0x30, 0] 6)"
  by (rule scan_forgets [where t = "0x20000010" and st = "0x20000004" and str = "[]" and zs = "[]"
        and t' = "0x20000010" and body = "[]" and k = 0])
    (simp_all add: CBS_init_wf der_elem_def der_header_def der_tag_def der_len_def CBS_ASN1_CONSTRUCTED_def
      is_string_type_def kMaxDepth_def der_within.der_Nil)

text \<open>An implicitly tagged constructed string is returned as the concatenation of its chunks.\<close>

theorem implicit_string_concat:
  assumes "heap_ok e" "heap_generous e" "cbs_wf c" "c_len c \<le> 2 ^ 56"
    and "cbs_view c = der_elem (outer OR CBS_ASN1_CONSTRUCTED) (concat (map (der_elem inner) bs)) @ rest"
    and "outer AND CBS_ASN1_CONSTRUCTED = 0" "length (concat (map (der_elem inner) bs)) < 2 ^ 32"
  shows "\<exists>out st c'. CBS_get_asn1_implicit_string e c outer inner = (Some (out, Some st), c')
    \<and> cbs_view out = concat bs \<and> cbs_view c' = rest"
  by (rule CBS_get_asn1_implicit_string_constructed [OF assms])

theorem implicit_string_concat_witness:
  "\<exists>out st c'. CBS_get_asn1_implicit_string ample_heap (CBS_init [0xa0, 6, 4, 1, 7, 4, 1, 8] 8) 0x80000000 4
      = (Some (out, Some st), c') \<and> cbs_view out = [7, 8] \<and> cbs_view c' = []"
  using implicit_string_concat [OF ample_heap, of "CBS_init [0xa0, 6, 4, 1, 7, 4, 1, 8] 8" "0x80000000" 4 "[[7], [8]]" "[]"]
  by (simp add: CBS_init_wf der_elem_def der_header_def der_tag_def der_len_def CBS_ASN1_CONSTRUCTED_def)


section \<open>Memory and C strings\<close>

text \<open>\<open>BUF_MEM_append\<close> keeps the buffer well formed and either appends all of the input or, when
  memory runs out, leaves the contents alone.\<close>

theorem buf_mem_append:
  assumes "heap_ok e" "bm_wf buf" "bm_length buf + length inp < 2 ^ 63"
    and "BUF_MEM_append e buf inp (length inp) = (ok, buf')"
  shows "bm_wf buf' \<and> bm_contents buf' = (if ok then bm_contents buf @ inp else bm_contents buf)"
  using BUF_MEM_append_correct [OF assms] by simp

theorem buf_mem_append_witness:
  "\<exists>ok buf'. BUF_MEM_append ample_heap \<lparr>bm_length = 0, bm_data = None, bm_max = 0\<rparr> [1, 2] (length [1 :: u8, 2]) = (ok, buf')
    \<and> bm_contents buf' = (if ok then [1, 2] else [])"
proof -
  let ?b = "\<lparr>bm_length = 0, bm_data = None, bm_max = 0\<rparr>"
  obtain ok buf' where r: "BUF_MEM_append ample_heap ?b [1, 2] (length [1 :: u8, 2]) = (ok, buf')"
    by (cases "BUF_MEM_append ample_heap ?b [1, 2] (length [1 :: u8, 2])")
  have "bm_wf ?b" "bm_contents ?b = []" by (simp_all add: bm_wf_def bm_bytes_def bm_contents_def)
  with buf_mem_append [OF ample_heap(1) _ _ r] r show ?thesis by auto
qed

text \<open>\<open>BUF_strlcpy\<close> returns the length of the source, leaves as much of it as fits, terminated, and
  touches nothing behind the given size.\<close>

theorem strlcpy_truncates:
  assumes "strlen src < length src" "n \<le> length dst" "0 < n" "BUF_strlcpy dst src n = (dst', l)"
  shows "l = strlen src \<and> cstr dst' = take (n - 1) (cstr src) \<and> length dst' = length dst \<and> drop n dst' = drop n dst"
  using BUF_strlcpy_correct [OF assms] by simp

theorem strlcpy_truncates_witness:
  "\<exists>dst' l. BUF_strlcpy [9, 9, 9, 9] [1, 2, 3, 0] 3 = (dst', l) \<and> l = 3 \<and> cstr dst' = [1, 2]"
proof -
  obtain dst' l where r: "BUF_strlcpy [9, 9, 9, 9] [1, 2, 3, 0] 3 = (dst', l)" by fastforce
  have "strlen [1, 2, 3, 0] = 3" "cstr [1, 2, 3, 0] = [1, 2, 3]" by (simp_all add: strlen_def cstr_def)
  with strlcpy_truncates [OF _ _ _ r] r show ?thesis by simp
qed

text \<open>\<open>CRYPTO_memcmp\<close> returns zero exactly for equal bytes.\<close>

theorem memcmp_zero_iff_equal:
  assumes "n \<le> length a" "n \<le> length b"
  shows "CRYPTO_memcmp a b n = 0 \<longleftrightarrow> take n a = take n b"
  by (rule CRYPTO_memcmp_zero_iff [OF assms])

theorem memcmp_zero_iff_equal_witness: "CRYPTO_memcmp [1, 2, 3] [1, 2, 4] 2 = 0 \<longleftrightarrow> [1, 2 :: u8] = [1, 2]"
  using memcmp_zero_iff_equal [of 2 "[1, 2, 3]" "[1, 2, 4]"] by simp

text \<open>The length prefix of \<open>OPENSSL_malloc\<close> can wrap around: a request of \<open>2 ^ 64 - 4\<close> bytes succeeds
  with a block that has no room at all, if the heap has four bytes.\<close>

theorem malloc_prefix_wraps:
  assumes "can_alloc e 4"
  shows "OPENSSL_malloc e (2 ^ 64 - 4) = Some []"
  by (rule OPENSSL_malloc_wraps [OF assms])

theorem malloc_prefix_wraps_witness: "OPENSSL_malloc ample_heap (2 ^ 64 - 4) = Some []"
  by (rule malloc_prefix_wraps) (simp add: ample_heap_def)

section \<open>Protocol buffers\<close>

text \<open>C19: a 64-bit varint that is written to a buffer is read back, and the reader consumes all of it.\<close>

theorem varint_roundtrip:
  assumes "n \<le> length buf" "n < 2 ^ 63" "10 \<le> n"
  shows "\<exists>o' i'. pb_encode_varint (Some buf_write) (pb_ostream_from_buffer buf n) v = (True, o')
    \<and> pb_decode_varint buf_callback (pb_istream_from_buffer (fst (os_state o')) (os_written o')) = (Some v, i')
    \<and> is_left i' = 0"
proof -
  have "length (varint (unat v)) \<le> n" using length_varint_u64 [of v] assms(3) by simp
  from emits_buffer [OF assms(1,2) this buf_sink.emits_varint [OF buffer_ostream(1) [OF assms(1,2)]]]
  show ?thesis using buf_decode_varint by metis
qed

theorem varint_roundtrip_witness:
  "\<exists>o' i'. pb_encode_varint (Some buf_write) (pb_ostream_from_buffer (replicate 12 0) 12) 300 = (True, o')
    \<and> pb_decode_varint buf_callback (pb_istream_from_buffer (fst (os_state o')) (os_written o')) = (Some 300, i')
    \<and> is_left i' = 0"
  by (rule varint_roundtrip) simp_all

text \<open>So is an integer field of one, two, four or eight bytes, with either signed encoding, for every
  value that the field can hold.\<close>

theorem signed_field_roundtrip:
  assumes "n \<le> length buf" "n < 2 ^ 63" "10 \<le> n" "k \<in> {1, 2, 4, 8}" "- (2 ^ (8 * k - 1)) \<le> v" "v < 2 ^ (8 * k - 1)"
  shows "(\<exists>o' i'. pb_enc_varint (Some buf_write) (pb_ostream_from_buffer buf n) k v = (True, o')
      \<and> pb_dec_varint buf_callback (pb_istream_from_buffer (fst (os_state o')) (os_written o')) k = (Some v, i'))
    \<and> (\<exists>o' i'. pb_enc_svarint (Some buf_write) (pb_ostream_from_buffer buf n) k v = (True, o')
      \<and> pb_dec_svarint buf_callback (pb_istream_from_buffer (fst (os_state o')) (os_written o')) k = (Some v, i'))"
proof -
  have fit: "fits_signed k v" using assms(5,6) by (simp add: fits_signed_def)
  let ?w = "word_of_int v :: u64"
  have l: "length (varint (unat ?w)) \<le> n" "length (varint (zigzag (sint ?w))) \<le> n"
    using length_varint_u64 [of ?w] buf_sink.length_varint_zigzag [of ?w] assms(3) by simp_all
  note o = buffer_ostream(1) [OF assms(1,2)]
  from emits_buffer [OF assms(1,2) l(1) buf_sink.emits_varint [OF o]] buf_decode_varint
  obtain o1 i1 where 1: "pb_encode_varint (Some buf_write) (pb_ostream_from_buffer buf n) ?w = (True, o1)"
    "pb_decode_varint buf_callback (pb_istream_from_buffer (fst (os_state o1)) (os_written o1)) = (Some ?w, i1)" by metis
  from emits_buffer [OF assms(1,2) l(2) buf_sink.emits_svarint [OF o]] buf_decode_svarint
  obtain o2 i2 where 2: "pb_encode_svarint (Some buf_write) (pb_ostream_from_buffer buf n) ?w = (True, o2)"
    "pb_decode_svarint buf_callback (pb_istream_from_buffer (fst (os_state o2)) (os_written o2)) = (Some ?w, i2)" by metis
  have k: "k \<in> {1, 2, 4, 8}" by (rule assms(4))
  have e: "pb_enc_varint (Some buf_write) (pb_ostream_from_buffer buf n) k v = (True, o1)"
    "pb_enc_svarint (Some buf_write) (pb_ostream_from_buffer buf n) k v = (True, o2)"
    using k 1(1) 2(1) by (simp_all add: pb_enc_varint_def pb_enc_svarint_def)
  show ?thesis
    using e dec_varint_value [OF 1(2) k fit] dec_svarint_value [OF 2(2) k fit] by blast
qed

theorem signed_field_roundtrip_witness:
  "\<exists>o' i'. pb_enc_svarint (Some buf_write) (pb_ostream_from_buffer (replicate 10 0) 10) 2 (- 300) = (True, o')
      \<and> pb_dec_svarint buf_callback (pb_istream_from_buffer (fst (os_state o')) (os_written o')) 2 = (Some (- 300), i')"
  using signed_field_roundtrip [of 10 "replicate 10 0" 2 "- 300"] by simp

text \<open>A tag with a wire type and a field number is read back as the two.\<close>

theorem tag_roundtrip:
  assumes "n \<le> length buf" "n < 2 ^ 63" "10 \<le> n" "w < 8" "0 < f" "f < 2 ^ 29"
  shows "\<exists>o' i'. pb_encode_tag (Some buf_write) (pb_ostream_from_buffer buf n) (of_nat w) (of_nat f) = (True, o')
    \<and> pb_decode_tag buf_callback (pb_istream_from_buffer (fst (os_state o')) (os_written o'))
        = (Inr (of_nat w, of_nat f), i')"
proof -
  have u: "unat (of_nat w :: u32) = w" "unat (of_nat f :: u32) = f" using assms(4,6) by (simp_all add: unat_of_nat)
  have s: "8 * f + w < 2 ^ 32" "0 < 8 * f + w" using assms(4-6) by simp_all
  have "8 * f + w < 128 ^ 10" using s(1) by simp
  then have "length (varint (8 * f + w)) \<le> 10" by (intro length_varint) simp_all
  then have l: "length (varint (8 * f + w)) \<le> n" using assms(3) by simp
  have "unat (of_nat w :: u32) < 8" using assms(4) u by simp
  from emits_buffer [OF assms(1,2) l, OF buf_sink.emits_tag [OF buffer_ostream(1) [OF assms(1,2)] this, of "of_nat f", unfolded u]]
  obtain o' where o': "pb_encode_tag (Some buf_write) (pb_ostream_from_buffer buf n) (of_nat w) (of_nat f) = (True, o')"
    "buf_source.wf (pb_istream_from_buffer (fst (os_state o')) (os_written o'))"
    "buf_source.view (pb_istream_from_buffer (fst (os_state o')) (os_written o')) = varint (8 * f + w) @ []" by auto
  from buf_source.decode_tag_run [OF o'(2,3) s(2,1) assms(4)] o'(1) show ?thesis by blast
qed

theorem tag_roundtrip_witness:
  "\<exists>o' i'. pb_encode_tag (Some buf_write) (pb_ostream_from_buffer (replicate 10 0) 10) (of_nat 2) (of_nat 150) = (True, o')
    \<and> pb_decode_tag buf_callback (pb_istream_from_buffer (fst (os_state o')) (os_written o'))
        = (Inr (of_nat 2, of_nat 150), i')"
  by (rule tag_roundtrip) simp_all


text \<open>For every well-behaved input callback (the contract \<open>pb_source\<close>, here the buffer callback),
  skipping a field consumes exactly the encoding of its value, for each of the four wire types.\<close>

theorem skip_field_exact:
  assumes "n \<le> length buf" "take n buf = bs @ rest" "wire_value w bs"
  shows "\<exists>st'. pb_skip_field buf_callback (pb_istream_from_buffer buf n) w = (True, st') \<and> buf_source.view st' = rest"
proof -
  have "buf_source.view (pb_istream_from_buffer buf n) = bs @ rest" using assms(2) by (simp add: buffer_stream)
  from buf_source.skip_field_run [OF buffer_stream(1) [OF assms(1)] this assms(3)] this show ?thesis
    by (auto dest: buf_source.reads_view)
qed

theorem skip_field_exact_witness:
  "\<exists>st'. pb_skip_field buf_callback (pb_istream_from_buffer [2, 8, 9, 5] 4) PB_WT_STRING = (True, st')
    \<and> buf_source.view st' = [5]"
proof (rule skip_field_exact [where bs = "varint (length [8 :: u8, 9]) @ [8, 9]"])
  show "wire_value PB_WT_STRING (varint (length [8 :: u8, 9]) @ [8, 9])"
    by (auto simp: wire_value_def intro!: exI [of _ "[8 :: u8, 9]"])
qed (simp_all add: varint.simps)

text \<open>A varint of more than ten bytes is an error, after ten bytes have been read; an input that ends
  inside a varint is an end-of-stream error.\<close>

theorem varint_decode_errors:
  assumes "n \<le> length buf" "take n buf = bs @ rest" "\<forall>b\<in>set bs. 128 \<le> unat b"
    and "length bs = 10 \<or> length bs < 10 \<and> rest = []"
  shows "\<exists>st'. pb_decode_varint buf_callback (pb_istream_from_buffer buf n) =
      (None, set_error st' (if length bs = 10 then ''varint overflow'' else ''end-of-stream''))
    \<and> buf_source.view st' = rest"
proof -
  have v: "buf_source.view (pb_istream_from_buffer buf n) = bs @ rest" using assms(2) by (simp add: buffer_stream)
  have "0 + length bs \<le> 10" "0 + length bs = 10 \<or> rest = []" using assms(4) by auto
  from buf_source.varint_loop_fails [OF buffer_stream(1) [OF assms(1)] v assms(3) this(1) _ _ this(2), of 0 0] v
  show ?thesis by (auto simp: pb_decode_varint_def dest: buf_source.reads_view)
qed

theorem varint_decode_errors_witness:
  "\<exists>st'. pb_decode_varint buf_callback (pb_istream_from_buffer (replicate 11 0xff) 11) =
    (None, set_error st' ''varint overflow'')"
proof -
  have "take 11 (replicate 11 (0xff :: u8)) = replicate 10 0xff @ [0xff]"
    using replicate_add [of 10 1 "0xff :: u8"] by simp
  from varint_decode_errors [OF _ this] show ?thesis by auto
qed

text \<open>A string or bytes value is written with its length; the reader makes a substream that holds
  exactly the data, and closing the substream, however much of it was read, consumes the whole value.\<close>

theorem string_substream_roundtrip:
  assumes "n \<le> length buf" "n < 2 ^ 63" "length data < 2 ^ 31" "length data + 10 \<le> n"
  shows "\<exists>o' sub i'. pb_encode_string (Some buf_write) (pb_ostream_from_buffer buf n) data = (True, o')
    \<and> pb_make_string_substream buf_callback (pb_istream_from_buffer (fst (os_state o')) (os_written o')) = (Some sub, i')
    \<and> buf_source.view sub = data
    \<and> (\<forall>sub' xs. buf_source.reads sub xs sub' \<longrightarrow>
         (\<exists>i''. pb_close_string_substream buf_callback i' sub' = (True, i'') \<and> buf_source.view i'' = []))"
proof -
  have "length data < 128 ^ 10" using assms(3) by simp
  then have "length (varint (length data)) \<le> 10" by (intro length_varint) simp_all
  then have l: "length (varint (length data) @ data) \<le> n" using assms(4) by simp
  have "length data < 2 ^ 62" using assms(3) by simp
  from emits_buffer [OF assms(1,2) l buf_sink.emits_string [OF buffer_ostream(1) [OF assms(1,2)] this]]
  obtain o' where o': "pb_encode_string (Some buf_write) (pb_ostream_from_buffer buf n) data = (True, o')"
    "buf_source.wf (pb_istream_from_buffer (fst (os_state o')) (os_written o'))"
    "buf_source.view (pb_istream_from_buffer (fst (os_state o')) (os_written o')) = varint (length data) @ data @ []" by auto
  have "length data < 2 ^ 32" using assms(3) by simp
  from buf_source.make_substream_run [OF o'(2,3) this] o'(1,3) show ?thesis
    by (fastforce simp: buf_source.reads_def)
qed

theorem string_substream_roundtrip_witness:
  "\<exists>o' sub i'. pb_encode_string (Some buf_write) (pb_ostream_from_buffer (replicate 16 0) 16) [1, 2, 3] = (True, o')
    \<and> pb_make_string_substream buf_callback (pb_istream_from_buffer (fst (os_state o')) (os_written o')) = (Some sub, i')
    \<and> buf_source.view sub = [1, 2, 3]"
  using string_substream_roundtrip [of 16 "replicate 16 0" "[1, 2, 3]"] by auto

text \<open>\<open>pb_write\<close> on a buffer stream never writes past the maximum size: it stores the data if they fit
  and otherwise leaves the stream as it was, with the message \<open>stream full\<close>.\<close>

theorem write_within_bounds:
  assumes "buf_sink.wf st" "length data < 2 ^ 63"
  shows "if os_written st + length data \<le> os_max_size st
    then \<exists>st'. pb_write (Some buf_write) st data = (True, st') \<and> buf_sink.wf st'
      \<and> os_written st' = os_written st + length data \<and> os_written st' \<le> os_max_size st'
    else pb_write (Some buf_write) st data = (False, os_error st ''stream full'')"
proof -
  have "os_written st + length data \<le> os_max_size st \<longleftrightarrow> length data \<le> buf_sink.room st"
    using assms(1) by (auto simp: buf_sink.room_def buf_sink.wf_def)
  with buf_sink.write_run [OF assms] show ?thesis
    by (auto simp: buf_sink.writes_def buf_sink.wf_def split: if_splits)
qed

theorem write_within_bounds_witness:
  "pb_write (Some buf_write) (pb_ostream_from_buffer [0, 0] 2) [1, 2, 3] =
    (False, os_error (pb_ostream_from_buffer [0, 0] 2) ''stream full'')"
  using write_within_bounds [OF buffer_ostream(1), of 2 "[0, 0]" "[1, 2, 3]"] by (simp add: pb_ostream_from_buffer_def)

section \<open>Base64\<close>

text \<open>C20: decoding the encoding of a block gives the block back, with its exact length.\<close>

theorem base64_roundtrip:
  assumes "3 * ((length src + 2) div 3) \<le> max_out"
  shows "EVP_DecodeBase64 max_out (take (fst (EVP_EncodeBlock src)) (snd (EVP_EncodeBlock src))) = (True, length src, src)"
  using EVP_DecodeBase64_encode [OF assms] by (simp add: EVP_EncodeBlock_def Let_def)

theorem base64_roundtrip_witness:
  "EVP_DecodeBase64 6 (take (fst (EVP_EncodeBlock [1, 2, 3, 4])) (snd (EVP_EncodeBlock [1, 2, 3, 4]))) = (True, 4, [1, 2, 3, 4])"
  using base64_roundtrip [of "[1, 2, 3, 4]" 6] by simp

text \<open>The streaming encoder computes the PEM body of the concatenation of its inputs, however they
  are cut.\<close>

theorem base64_stream_encode:
  assumes "\<forall>input\<in>set inputs. length input \<le> 2 ^ 30"
  shows "encode_chunks EVP_EncodeInit inputs = pem_body (concat inputs)"
proof -
  have "enc_ctx_ok EVP_EncodeInit" "held EVP_EncodeInit = []"
    by (simp_all add: enc_ctx_ok_def EVP_EncodeInit_def held_def)
  with encode_chunks_body [OF this(1) assms] show ?thesis by (simp add: full_lines_short)
qed

theorem base64_stream_encode_witness:
  "encode_chunks EVP_EncodeInit [[1], [2, 3, 4]] = pem_body [1, 2, 3, 4]"
  using base64_stream_encode [of "[[1], [2, 3, 4]]"] by simp

text \<open>C21: the streaming decoder recovers the data from its PEM body, however the text is cut and whatever
  white space is in it.\<close>

theorem base64_stream_decode:
  assumes "filter (\<lambda>c. \<not> is_ws c) (concat inputs) = filter (\<lambda>c. \<not> is_ws c) (pem_body src)" "length src \<le> INT_MAX"
  shows "decode_chunks EVP_DecodeInit inputs = Some src"
  by (rule decode_chunks_text) (use assms in \<open>simp_all add: pem_body_text\<close>)

theorem base64_stream_decode_witness:
  "decode_chunks EVP_DecodeInit [take 2 (pem_body [1, 2]), [0x20], drop 2 (pem_body [1, 2])] = Some [1, 2]"
proof (rule base64_stream_decode)
  have "filter (\<lambda>c. \<not> is_ws c) (concat [take 2 (pem_body [1, 2]), [0x20], drop 2 (pem_body [1, 2])])
      = filter (\<lambda>c. \<not> is_ws c) (take 2 (pem_body [1, 2]) @ drop 2 (pem_body [1, 2]))"
    unfolding filter_append concat.simps by (simp add: is_ws_def)
  then show "filter (\<lambda>c. \<not> is_ws c) (concat [take 2 (pem_body [1, 2]), [0x20], drop 2 (pem_body [1, 2])])
      = filter (\<lambda>c. \<not> is_ws c) (pem_body [1, 2])" by simp
qed (simp add: INT_MAX_def)

text \<open>The length that \<open>EVP_EncodedLength\<close> announces is the number of bytes that \<open>EVP_EncodeBlock\<close>
  writes, terminator included.\<close>

theorem base64_length_exact:
  assumes "length src < 2 ^ 62"
  shows "EVP_EncodedLength (length src) = Some (length (snd (EVP_EncodeBlock src)))"
  by (rule EVP_EncodedLength_exact [OF assms])

theorem base64_length_exact_witness: "EVP_EncodedLength (length [1 :: u8]) = Some (length (snd (EVP_EncodeBlock [1])))"
  by (rule base64_length_exact) simp

section \<open>Constant-time predicates\<close>

text \<open>The branch-free predicates compute the comparisons they are named after, as masks, and selection
  by such a mask is the conditional.\<close>

theorem constant_time_correct:
  "constant_time_lt_w a b = (if a < b then - 1 else 0) \<and> constant_time_ge_w a b = (if a \<ge> b then - 1 else 0)
    \<and> constant_time_is_zero_w a = (if a = 0 then - 1 else 0) \<and> constant_time_eq_w a b = (if a = b then - 1 else 0)
    \<and> constant_time_select_w (constant_time_lt_w a b) x y = (if a < b then x else y)
    \<and> constant_time_select_8 (constant_time_eq_8 a b) u v = (if a = b then u else v)"
  using lt_w [of a b] is_zero_w [of a] constant_time_masks(1,2,6) [of a b] select_w [of "a < b" x y] select_8 [of "a = b" u v]
  by simp

end
